(* ===== verification/Prelude.thy ===== *)
theory Prelude
  imports Main "HOL-Library.AList"
begin

text \<open>
  Shared vocabulary of the development: the names of the contract's scalar types, the
  JavaScript collections the sources keep their state in, JSON values, and the constants the
  sources import from the contract package.

  A JavaScript \<open>Map\<close> iterates in insertion order and keeps a key's position when the key is
  written again, which is exactly what \<open>AList.update\<close> does to an association list; so a
  \<open>Map\<close> is an association list, read with \<open>map_of\<close>, written with \<open>map_set\<close> and thinned
  with \<open>map_del\<close>. A \<open>Set\<close> is a list without repetitions in insertion order.
\<close>

section \<open>Scalars of the contract\<close>

type_synonym timestamp = int
type_synonym sid = string
type_synonym mid = string
type_synonym instance_id = string
type_synonym topic_name = string

named_theorems js_map \<open>lookup laws of the JavaScript collections\<close>

text \<open>What \<open>new OpError(code, msg)\<close> carries.\<close>

type_synonym op_error = "string \<times> string"

section \<open>Maps in insertion order\<close>

type_synonym ('k, 'v) js_map = "('k \<times> 'v) list"

abbreviation map_set :: "'k \<Rightarrow> 'v \<Rightarrow> ('k, 'v) js_map \<Rightarrow> ('k, 'v) js_map" where
  "map_set \<equiv> AList.update"

abbreviation map_del :: "'k \<Rightarrow> ('k, 'v) js_map \<Rightarrow> ('k, 'v) js_map" where
  "map_del \<equiv> AList.delete"

abbreviation map_keys :: "('k, 'v) js_map \<Rightarrow> 'k list" where
  "map_keys m \<equiv> map fst m"

abbreviation map_wf :: "('k, 'v) js_map \<Rightarrow> bool" where
  "map_wf m \<equiv> distinct (map_keys m)"

text \<open>\<open>m.get(k) ?? d\<close>\<close>

definition map_get_or :: "'v \<Rightarrow> ('k, 'v) js_map \<Rightarrow> 'k \<Rightarrow> 'v" where
  "map_get_or d m k = (case map_of m k of None \<Rightarrow> d | Some v \<Rightarrow> v)"

lemma map_of_map_set [js_map, simp]:
  "map_of (map_set k v m) k' = (if k' = k then Some v else map_of m k')"
  by (simp add: update_conv')

lemma map_of_map_del [js_map, simp]:
  "map_of (map_del k m) k' = (if k' = k then None else map_of m k')"
  by (simp add: delete_conv')

lemma map_wf_set [simp]: "map_wf m \<Longrightarrow> map_wf (map_set k v m)"
  by (rule distinct_update)

lemma map_wf_del [simp]: "map_wf m \<Longrightarrow> map_wf (map_del k m)"
  by (rule distinct_delete)

lemma map_get_or_set [js_map, simp]:
  "map_get_or d (map_set k v m) k' = (if k' = k then v else map_get_or d m k')"
  by (simp add: map_get_or_def)

lemma map_get_or_del [js_map, simp]:
  "map_get_or d (map_del k m) k' = (if k' = k then d else map_get_or d m k')"
  by (simp add: map_get_or_def)

lemma map_get_or_Nil [simp]: "map_get_or d [] k = d"
  by (simp add: map_get_or_def)

lemma set_map_set_keys [simp]: "set (map_keys (map_set k v m)) = insert k (set (map_keys m))"
  using dom_update [of k v m] by simp

lemma set_map_del_keys [simp]: "set (map_keys (map_del k m)) = set (map_keys m) - {k}"
  by (auto simp: delete_keys)

lemma map_of_in_keys: "map_of m k = Some v \<Longrightarrow> k \<in> set (map_keys m)"
  by (force dest: map_of_SomeD)

lemma map_of_None_keys: "map_of m k = None \<longleftrightarrow> k \<notin> set (map_keys m)"
  by (simp add: map_of_eq_None_iff)

lemma map_wf_mem: "map_wf m \<Longrightarrow> (k, v) \<in> set m \<longleftrightarrow> map_of m k = Some v"
  by (auto dest: map_of_SomeD)

text \<open>Keeping the entries a test admits, as the sweeps over a \<open>Map\<close> do.\<close>

lemma map_of_filter_wf [js_map]:
  assumes "map_wf m"
  shows "map_of (filter P m) k =
    (case map_of m k of None \<Rightarrow> None | Some v \<Rightarrow> if P (k, v) then Some v else None)"
  using assms
proof (induction m)
  case Nil
  then show ?case by simp
next
  case (Cons e m)
  obtain k0 v0 where e: "e = (k0, v0)" by (cases e)
  from Cons.prems have k0: "map_of m k0 = None" "map_wf m"
    by (auto simp: e map_of_None_keys)
  with Cons.IH show ?case
    by (cases "k = k0") (auto simp: e split: option.splits)
qed

lemma map_wf_filter [simp]: "map_wf m \<Longrightarrow> map_wf (filter P m)"
  by (induction m) auto

lemma map_of_filter_key [js_map]:
  "map_of (filter (\<lambda>(k', v). P k') m) k = (if P k then map_of m k else None)"
  by (induction m) auto

section \<open>Sets in insertion order\<close>

definition set_add :: "'a \<Rightarrow> 'a list \<Rightarrow> 'a list" where
  "set_add x xs = (if x \<in> set xs then xs else xs @ [x])"

definition set_del :: "'a \<Rightarrow> 'a list \<Rightarrow> 'a list" where
  "set_del x xs = removeAll x xs"

lemma set_set_add [simp]: "set (set_add x xs) = insert x (set xs)"
  by (auto simp: set_add_def)

lemma set_set_del [simp]: "set (set_del x xs) = set xs - {x}"
  by (simp add: set_del_def)

lemma distinct_set_add [simp]: "distinct xs \<Longrightarrow> distinct (set_add x xs)"
  by (simp add: set_add_def)

lemma distinct_set_del [simp]: "distinct xs \<Longrightarrow> distinct (set_del x xs)"
  by (simp add: set_del_def distinct_removeAll)

section \<open>JSON values\<close>

text \<open>
  What a frame, a topic payload or a stored value is made of. Numbers are the integers the
  sources compare (instants, counters, sizes); an object keeps its members in order.
\<close>

datatype json =
    JNull
  | JBool bool
  | JNum int
  | JStr string
  | JArr "json list"
  | JObj "(string \<times> json) list"

text \<open>\<open>(x as Record<string, unknown>)[field]\<close>: \<open>None\<close> is \<open>undefined\<close>.\<close>

fun jfield :: "json \<Rightarrow> string \<Rightarrow> json option" where
  "jfield (JObj ms) f = map_of ms f"
| "jfield _ f = None"

section \<open>Constants of the contract package\<close>

text \<open>
  The package \<open>@ccmsg/protocol\<close> is not part of the repository: what the sources import
  from it is an argument of the definitions that use it.
\<close>

record contract =
  LAST_LIVE_RETENTION_MS :: int
  INBOX_RETENTION_MS :: int
  INBOX_MAX_PER_SID :: nat
  MAX_FRAME_BYTES :: nat
  FAMILY_TOMBSTONE_RETENTION_MS :: int
  MAX_FILE_READ_BYTES :: nat

text \<open>One concrete choice of them, for the witnesses.\<close>

definition example_contract :: contract where
  "example_contract =
     \<lparr>LAST_LIVE_RETENTION_MS = 10, INBOX_RETENTION_MS = 10, INBOX_MAX_PER_SID = 2,
      MAX_FRAME_BYTES = 4, FAMILY_TOMBSTONE_RETENTION_MS = 10, MAX_FILE_READ_BYTES = 4\<rparr>"

section \<open>Decimal numerals\<close>

text \<open>A number spliced into a template string.\<close>

definition digit_char :: "nat \<Rightarrow> char" where
  "digit_char d = char_of (48 + d)"

fun show_nat :: "nat \<Rightarrow> string" where
  "show_nat n = (if n < 10 then [digit_char n] else show_nat (n div 10) @ [digit_char (n mod 10)])"

declare show_nat.simps [simp del]

text \<open>\<open>Number(text)\<close> on a run of decimal digits; \<open>None\<close> where it is no such run.\<close>

definition char_digit :: "char \<Rightarrow> nat option" where
  "char_digit c = (let n = of_char c :: nat in if 48 \<le> n \<and> n \<le> 57 then Some (n - 48) else None)"

fun read_digits :: "nat \<Rightarrow> string \<Rightarrow> nat option" where
  "read_digits acc [] = Some acc"
| "read_digits acc (c # cs) =
     (case char_digit c of None \<Rightarrow> None | Some d \<Rightarrow> read_digits (10 * acc + d) cs)"

lemma char_digit_char [simp]: "d < 10 \<Longrightarrow> char_digit (digit_char d) = Some d"
  by (simp add: char_digit_def digit_char_def of_char_of Let_def)

lemma read_digits_append:
  "read_digits acc (xs @ ys) = Option.bind (read_digits acc xs) (\<lambda>a. read_digits a ys)"
  by (induction xs arbitrary: acc) (auto split: option.splits)

lemma read_show_nat [simp]: "read_digits 0 (show_nat n) = Some n"
proof (induction n rule: show_nat.induct)
  case (1 n)
  then show ?case
    by (subst show_nat.simps) (simp add: read_digits_append)
qed

lemma show_nat_inject [simp]: "show_nat m = show_nat n \<longleftrightarrow> m = n"
  by (metis option.inject read_show_nat)

lemma show_nat_nonempty [simp]: "show_nat n \<noteq> []"
  by (subst show_nat.simps) simp

section \<open>Lists and options\<close>

lemma filter_eq_length_iff: "length (filter P xs) = length xs \<longleftrightarrow> (\<forall>x\<in>set xs. P x)"
  by (metis filter_id_conv length_filter_less less_irrefl)

lemma foldl_append_single: "foldl f s (xs @ [x]) = f (foldl f s xs) x"
  by simp

end
