(* ===== verification/Registers.thy ===== *)
theory Registers
  imports Prelude
begin

text \<open>
  The contract the replicated stores share: one key holds one value, every value carries the
  instant it was written at, and what arrives either displaces what is held or does not. The
  key-value store (\<open>src/kv\<close>) and the authentication records (\<open>src/auth/records.ts\<close>) both
  provide it; what it gives them (an instant never goes back, nothing is made up, the order of
  arrival does not matter) is proved here once.
\<close>

locale keyed_register =
  fixes stamp :: "'v \<Rightarrow> int"
    and admits :: "'v option \<Rightarrow> 'v \<Rightarrow> bool"
  assumes admits_not_older: "admits (Some h) v \<Longrightarrow> stamp h \<le> stamp v"
begin

definition arrive :: "'v option \<Rightarrow> 'v \<Rightarrow> 'v option" where
  "arrive h v = (if admits h v then Some v else h)"

definition settle :: "'v option \<Rightarrow> 'v list \<Rightarrow> 'v option" where
  "settle = foldl arrive"

lemma settle_simps [simp]:
  "settle h [] = h"
  "settle h (v # vs) = settle (arrive h v) vs"
  by (simp_all add: settle_def)

lemma settle_append: "settle h (xs @ ys) = settle (settle h xs) ys"
  by (simp add: settle_def)

lemma arrive_mono: "h = Some a \<Longrightarrow> \<exists>b. arrive h v = Some b \<and> stamp a \<le> stamp b"
  by (auto simp: arrive_def dest: admits_not_older)

lemma settle_mono: "h = Some a \<Longrightarrow> \<exists>b. settle h vs = Some b \<and> stamp a \<le> stamp b"
proof (induction vs arbitrary: h a)
  case Nil
  then show ?case by simp
next
  case (Cons v vs)
  obtain b where b: "arrive h v = Some b" "stamp a \<le> stamp b"
    using arrive_mono [OF Cons.prems, of v] by blast
  obtain c where "settle (arrive h v) vs = Some c" "stamp b \<le> stamp c"
    using Cons.IH [OF b(1)] by blast
  with b show ?case by force
qed

lemma settle_mem: "settle h vs = Some r \<Longrightarrow> r \<in> set vs \<or> h = Some r"
  by (induction vs arbitrary: h) (force simp: arrive_def split: if_splits)+

end

text \<open>Plain last-write-wins: everything newer than what is held displaces it.\<close>

locale lww_register = keyed_register +
  assumes admits_first: "admits None v"
    and admits_newer: "stamp h < stamp v \<Longrightarrow> admits (Some h) v"
begin

lemma arrive_max:
  "arrive (Some h) v = Some r \<Longrightarrow> stamp r = max (stamp h) (stamp v)"
  using admits_newer [of h v] admits_not_older [of h v]
  by (cases "stamp h < stamp v") (auto simp: arrive_def max_def split: if_splits)

lemma settle_Some: "\<exists>r. settle (Some h) vs = Some r"
  using settle_mono [OF refl, of h vs] by blast

lemma settle_stamp: "settle (Some h) vs = Some r \<Longrightarrow> stamp r = Max (stamp ` set (h # vs))"
proof (induction vs arbitrary: h)
  case Nil
  then show ?case by simp
next
  case (Cons v vs)
  obtain b where b: "arrive (Some h) v = Some b" "stamp b = max (stamp h) (stamp v)"
    using arrive_mono [OF refl, of h v] arrive_max by blast
  with Cons.prems have "settle (Some b) vs = Some r" by simp
  then have "stamp r = Max (stamp ` set (b # vs))" by (rule Cons.IH)
  then show ?case
    using b(2) by (cases "vs = []") (simp_all add: max.assoc)
qed

lemma settle_newest:
  assumes "vs \<noteq> []"
  shows "\<exists>r. settle None vs = Some r \<and> r \<in> set vs \<and> stamp r = Max (stamp ` set vs)"
proof -
  from assms obtain v ws where vs: "vs = v # ws" by (cases vs) auto
  have first: "settle None vs = settle (Some v) ws"
    by (simp add: vs arrive_def admits_first)
  obtain r where r: "settle (Some v) ws = Some r" using settle_Some by blast
  show ?thesis
    using settle_mem [OF r] settle_stamp [OF r] first r by (auto simp: vs)
qed

text \<open>Two replicas that were told the same writes, in whatever order and however often, hold
  the same value once no two different writes carry one instant.\<close>

lemma settle_converges:
  assumes "set vs = set ws" and "inj_on stamp (set vs)"
  shows "settle None vs = settle None ws"
proof (cases "vs = []")
  case True
  with assms(1) show ?thesis by simp
next
  case False
  with assms(1) have ne: "ws \<noteq> []" by auto
  obtain r where r: "settle None vs = Some r" "r \<in> set vs" "stamp r = Max (stamp ` set vs)"
    using settle_newest [OF False] by blast
  obtain s where s: "settle None ws = Some s" "s \<in> set ws" "stamp s = Max (stamp ` set ws)"
    using settle_newest [OF ne] by blast
  from r s assms have "r = s" by (metis inj_onD)
  with r s show ?thesis by simp
qed

end

end
