(* ===== verification/Kv.thy ===== *)
theory Kv
  imports Registers
begin

text \<open>
  The key-value store: \<open>src/kv/merge.ts\<close> (which of two states of one key stands) and
  \<open>src/kv/store.ts\<close> (the store itself, its files and the frames it publishes).

  An operation of the class is a function on the record \<open>kv_store\<close>. What \<open>#persist\<close>
  chains per namespace is the list \<open>kv_writing\<close>, in the order the writes were asked for:
  \<open>kv_land\<close> is the oldest write of one namespace reaching its file, after which the call
  that asked for it goes on to publish, and \<open>kv_fail\<close> is that write failing, which its
  caller is told and nobody else. Both clocks are arguments: \<open>now\<close> is the parameter of the
  operation and \<open>clk\<close> the reading \<open>#load\<close> takes of its own.
\<close>

section \<open>merge.ts\<close>

record held =
  held_val :: "json option"
  held_updated_at :: timestamp
  held_deleted :: bool

abbreviation live_held :: "json option \<Rightarrow> timestamp \<Rightarrow> held" where
  "live_held v t \<equiv> \<lparr>held_val = v, held_updated_at = t, held_deleted = False\<rparr>"

abbreviation tombstone :: "timestamp \<Rightarrow> held" where
  "tombstone t \<equiv> \<lparr>held_val = None, held_updated_at = t, held_deleted = True\<rparr>"

type_synonym kv_entries = "(string, held) js_map"

definition expired :: "contract \<Rightarrow> held \<Rightarrow> timestamp \<Rightarrow> bool" where
  "expired ct h now \<longleftrightarrow>
     held_deleted h \<and> now - held_updated_at h > LAST_LIVE_RETENTION_MS ct"

definition mergeHeld :: "held option \<Rightarrow> held option \<Rightarrow> held option" where
  "mergeHeld local remote =
     (case local of
        None \<Rightarrow> remote
      | Some l \<Rightarrow>
          (case remote of
             None \<Rightarrow> local
           | Some r \<Rightarrow>
               if held_updated_at l \<noteq> held_updated_at r
               then (if held_updated_at l > held_updated_at r then Some l else Some r)
               else (if held_deleted r then Some r else Some l)))"

definition mergeNamespace :: "contract \<Rightarrow> kv_entries \<Rightarrow> kv_entries \<Rightarrow> timestamp \<Rightarrow> kv_entries" where
  "mergeNamespace ct local remote now =
     foldl (\<lambda>merged key.
              (case mergeHeld (map_of local key) (map_of remote key) of
                 None \<Rightarrow> merged
               | Some h \<Rightarrow> if expired ct h now then merged else map_set key h merged))
       [] (foldl (\<lambda>keys k. set_add k keys) [] (map_keys local @ map_keys remote))"

section \<open>store.ts\<close>

record kv_job =
  job_ns :: string
  job_body :: json
  job_announce :: "(string \<times> (string \<times> held) list) option"

record kv_store =
  kv_self :: instance_id
  kv_namespaces :: "(string, kv_entries) js_map"
  kv_writing :: "kv_job list"
  kv_disk :: "(string, json) js_map"
  kv_published :: "(string \<times> (string \<times> held) list) list"

text \<open>\<open>forget\<close> deletes from the map it iterates over, so what is left keeps its order.\<close>

definition kv_forget :: "contract \<Rightarrow> kv_entries \<Rightarrow> timestamp \<Rightarrow> kv_entries" where
  "kv_forget ct entries now = filter (\<lambda>(k, h). \<not> expired ct h now) entries"

definition kv_load :: "contract \<Rightarrow> kv_store \<Rightarrow> string \<Rightarrow> timestamp \<Rightarrow> kv_entries \<times> kv_store" where
  "kv_load ct s ns clk =
     (let known = kv_forget ct (map_get_or [] (kv_namespaces s) ns) clk
      in (known, s\<lparr>kv_namespaces := map_set ns known (kv_namespaces s)\<rparr>))"

text \<open>The namespace's file name, and the body \<open>#persist\<close> takes. The body is built by
  assigning members of a plain object, where \<open>__proto__\<close> names the object's prototype and
  makes no member of its own.\<close>

definition kv_file :: "string \<Rightarrow> string" where
  "kv_file ns = ns @ ''.json''"

definition held_json :: "held \<Rightarrow> json" where
  "held_json h =
     JObj ((case held_val h of None \<Rightarrow> [] | Some v \<Rightarrow> [(''value'', v)])
           @ [(''updated_at'', JNum (held_updated_at h))]
           @ (if held_deleted h then [(''deleted'', JBool True)] else []))"

definition kv_body :: "kv_entries \<Rightarrow> json" where
  "kv_body entries = JObj (map (\<lambda>(k, h). (k, held_json h)) (filter (\<lambda>(k, h). k \<noteq> ''__proto__'') entries))"

definition kv_persist :: "kv_store \<Rightarrow> string \<Rightarrow> kv_entries \<Rightarrow>
    (string \<times> (string \<times> held) list) option \<Rightarrow> kv_store" where
  "kv_persist s ns entries announce =
     s\<lparr>kv_writing := kv_writing s @
         [\<lparr>job_ns = ns, job_body = kv_body entries, job_announce = announce\<rparr>]\<rparr>"

fun pop_job :: "string \<Rightarrow> kv_job list \<Rightarrow> (kv_job \<times> kv_job list) option" where
  "pop_job ns [] = None"
| "pop_job ns (j # js) =
     (if job_ns j = ns then Some (j, js)
      else map_option (\<lambda>(j', js'). (j', j # js')) (pop_job ns js))"

definition kv_land :: "kv_store \<Rightarrow> string \<Rightarrow> kv_store" where
  "kv_land s ns =
     (case pop_job ns (kv_writing s) of
        None \<Rightarrow> s
      | Some (j, js) \<Rightarrow>
          s\<lparr>kv_writing := js,
            kv_disk := map_set (kv_file ns) (job_body j) (kv_disk s),
            kv_published := kv_published s @
              (case job_announce j of None \<Rightarrow> [] | Some p \<Rightarrow> [p])\<rparr>)"

definition kv_fail :: "kv_store \<Rightarrow> string \<Rightarrow> kv_store" where
  "kv_fail s ns =
     (case pop_job ns (kv_writing s) of
        None \<Rightarrow> s
      | Some (j, js) \<Rightarrow> s\<lparr>kv_writing := js\<rparr>)"

definition kv_read :: "contract \<Rightarrow> kv_store \<Rightarrow> string \<Rightarrow> string \<Rightarrow> timestamp \<Rightarrow>
    (op_error + json option \<times> timestamp) \<times> kv_store" where
  "kv_read ct s ns key clk =
     (let (entries, s') = kv_load ct s ns clk;
          refused = Inl (''not_found'', ns @ '' holds no '' @ key)
      in ((case map_of entries key of
             None \<Rightarrow> refused
           | Some h \<Rightarrow> if held_deleted h then refused
                        else Inr (held_val h, held_updated_at h)),
          s'))"

definition kv_write :: "contract \<Rightarrow> kv_store \<Rightarrow> string \<Rightarrow> string \<Rightarrow> json option \<Rightarrow>
    timestamp option \<Rightarrow> timestamp \<Rightarrow> timestamp \<Rightarrow> timestamp \<times> kv_store" where
  "kv_write ct s ns key v updated_at now clk =
     (let (entries, s') = kv_load ct s ns clk;
          updatedAt = (case updated_at of None \<Rightarrow> now | Some t \<Rightarrow> t);
          stands = (let entries' = map_set key (live_held v updatedAt) entries
                    in (updatedAt,
                        kv_persist (s'\<lparr>kv_namespaces := map_set ns entries' (kv_namespaces s')\<rparr>)
                          ns entries' (Some (''kv:'' @ ns, [(key, live_held v updatedAt)]))))
      in (case map_of entries key of
            None \<Rightarrow> stands
          | Some h \<Rightarrow> if held_updated_at h > updatedAt then (held_updated_at h, s') else stands))"

definition kv_delete :: "contract \<Rightarrow> kv_store \<Rightarrow> string \<Rightarrow> string \<Rightarrow> timestamp \<Rightarrow> timestamp \<Rightarrow>
    kv_store" where
  "kv_delete ct s ns key now clk =
     (let (entries, s') = kv_load ct s ns clk;
          before = map_of entries key;
          removes = (\<lambda>announce.
            let entries' = map_set key (tombstone now) entries
            in kv_persist (s'\<lparr>kv_namespaces := map_set ns entries' (kv_namespaces s')\<rparr>)
                 ns entries' announce);
          told = Some (''kv:'' @ ns, [(key, tombstone now)])
      in (case before of
            None \<Rightarrow> removes None
          | Some h \<Rightarrow> if held_updated_at h > now then s'
                       else removes (if held_deleted h then None else told)))"

text \<open>\<open>topicParam\<close> of \<open>src/topics/topics.ts\<close>, which the snapshot reads its namespace with.\<close>

definition topicParam :: "string \<Rightarrow> string option" where
  "topicParam t =
     (let rest = dropWhile (\<lambda>c. c \<noteq> CHR '':'') t
      in if rest = [] then None else if tl rest = [] then None else Some (tl rest))"

definition kv_snapshot :: "contract \<Rightarrow> kv_store \<Rightarrow> string \<Rightarrow> timestamp \<Rightarrow>
    (instance_id \<times> (string \<times> json option \<times> timestamp) list) list \<times> kv_store" where
  "kv_snapshot ct s topic clk =
     (case topicParam topic of
        None \<Rightarrow> ([], s)
      | Some ns \<Rightarrow>
          (let (entries, s') = kv_load ct s ns clk
           in ([(kv_self s, map (\<lambda>(k, h). (k, held_val h, held_updated_at h))
                  (filter (\<lambda>(k, h). \<not> held_deleted h) entries))], s')))"

section \<open>Reading the files back\<close>

text \<open>\<open>Object.entries\<close> of what \<open>typeof\<close> calls an object: an array's members are named by
  their positions.\<close>

fun object_entries :: "json \<Rightarrow> (string \<times> json) list option" where
  "object_entries (JObj ms) = Some ms"
| "object_entries (JArr js) = Some (zip (map show_nat [0..<length js]) js)"
| "object_entries _ = None"

definition kv_read_entry :: "json \<Rightarrow> held option" where
  "kv_read_entry j =
     (case object_entries j of
        None \<Rightarrow> None
      | Some _ \<Rightarrow>
          (case jfield j ''updated_at'' of
             Some (JNum t) \<Rightarrow>
               (if jfield j ''deleted'' = Some (JBool True) then Some (tombstone t)
                else Some (live_held (jfield j ''value'') t))
           | _ \<Rightarrow> None))"

text \<open>The argument is what \<open>JSON.parse\<close> made of the file, \<open>None\<close> where it threw.\<close>

definition kv_read_file :: "json option \<Rightarrow> kv_entries" where
  "kv_read_file parsed =
     (case parsed of
        None \<Rightarrow> []
      | Some j \<Rightarrow>
          (case object_entries j of
             None \<Rightarrow> []
           | Some ms \<Rightarrow>
               foldl (\<lambda>entries (key, h).
                        (case kv_read_entry h of None \<Rightarrow> entries | Some v \<Rightarrow> map_set key v entries))
                 [] ms))"

text \<open>The constructor: every \<open>.json\<close> file of the directory is a namespace.\<close>

definition json_stem :: "string \<Rightarrow> string option" where
  "json_stem name =
     (if length ''.json'' \<le> length name \<and> drop (length name - length ''.json'') name = ''.json''
      then Some (take (length name - length ''.json'') name) else None)"

definition kv_open :: "instance_id \<Rightarrow> (string, json) js_map \<Rightarrow> kv_store" where
  "kv_open self dir =
     \<lparr>kv_self = self,
      kv_namespaces =
        foldl (\<lambda>m (name, file). (case json_stem name of
                  None \<Rightarrow> m
                | Some ns \<Rightarrow> map_set ns (kv_read_file (Some file)) m)) [] dir,
      kv_writing = [], kv_disk = dir, kv_published = []\<rparr>"


section \<open>The laws of the merge\<close>

lemma mergeHeld_simps [simp]:
  "mergeHeld None r = r"
  "mergeHeld l None = l"
  "mergeHeld h h = h"
  by (auto simp: mergeHeld_def split: option.splits)

lemma mergeHeld_assoc_all: "mergeHeld (mergeHeld a b) c = mergeHeld a (mergeHeld b c)"
  by (cases a; cases b; cases c) (auto simp: mergeHeld_def)

lemma mergeHeld_stamp:
  "mergeHeld (Some l) (Some r) = Some h \<Longrightarrow>
     held_updated_at h = max (held_updated_at l) (held_updated_at r)"
  by (auto simp: mergeHeld_def max_def split: if_splits)

text \<open>Two live values at one instant are the only disagreement the merge leaves standing. A
  removal carries no value, so two removals at one instant are one value.\<close>

definition held_ok :: "held \<Rightarrow> bool" where
  "held_ok h \<longleftrightarrow> (held_deleted h \<longrightarrow> held_val h = None)"

definition live_tie :: "held option \<Rightarrow> held option \<Rightarrow> bool" where
  "live_tie a b \<longleftrightarrow>
     (\<exists>l r. a = Some l \<and> b = Some r \<and> held_updated_at l = held_updated_at r \<and>
            \<not> held_deleted l \<and> \<not> held_deleted r \<and> l \<noteq> r)"

lemma mergeHeld_comm:
  assumes "\<not> live_tie a b" "pred_option held_ok a" "pred_option held_ok b"
  shows "mergeHeld a b = mergeHeld b a"
proof (cases a; cases b)
  fix l r assume ab: "a = Some l" "b = Some r"
  show ?thesis
  proof (cases "held_updated_at l = held_updated_at r")
    case False
    then show ?thesis by (auto simp: ab mergeHeld_def)
  next
    case True
    with assms have "held_deleted l = held_deleted r \<Longrightarrow> l = r"
      by (cases l; cases r) (auto simp: ab live_tie_def held_ok_def)
    then show ?thesis by (auto simp: ab mergeHeld_def True)
  qed
qed simp_all

lemma foldl_set_add_set: "set (foldl (\<lambda>keys k. set_add k keys) acc ks) = set acc \<union> set ks"
  by (induction ks arbitrary: acc) auto

lemma foldl_set_add_distinct:
  "distinct acc \<Longrightarrow> distinct (foldl (\<lambda>keys k. set_add k keys) acc ks)"
  by (induction ks arbitrary: acc) auto

lemma merge_fold_lookup:
  "map_of (foldl (\<lambda>merged key. case f key of None \<Rightarrow> merged
                    | Some h \<Rightarrow> if drp h then merged else map_set key h merged) acc ks) k =
   (if k \<in> set ks then (case f k of None \<Rightarrow> map_of acc k
                          | Some h \<Rightarrow> if drp h then map_of acc k else Some h)
    else map_of acc k)"
  by (induction ks arbitrary: acc) (auto split: option.splits)

lemma mergeNamespace_lookup:
  "map_of (mergeNamespace ct a b now) k =
     (case mergeHeld (map_of a k) (map_of b k) of
        None \<Rightarrow> None
      | Some h \<Rightarrow> if expired ct h now then None else Some h)"
proof -
  have out: "mergeHeld (map_of a k) (map_of b k) = None"
    if "k \<notin> set (map_keys a) \<union> set (map_keys b)"
    using that by (simp add: map_of_None_keys [THEN iffD2])
  show ?thesis
    using out by (auto simp: mergeNamespace_def merge_fold_lookup foldl_set_add_set
        split: option.splits)
qed

section \<open>The store as a register per key\<close>

definition kv_admits :: "held option \<Rightarrow> held \<Rightarrow> bool" where
  "kv_admits h v = (case h of None \<Rightarrow> True | Some h' \<Rightarrow> held_updated_at h' \<le> held_updated_at v)"

interpretation kvreg: lww_register held_updated_at kv_admits
  by unfold_locales (auto simp: kv_admits_def)

text \<open>What a reader at the clock \<open>clk\<close> can see of a namespace: the abstract store.\<close>

definition kv_view :: "contract \<Rightarrow> kv_store \<Rightarrow> timestamp \<Rightarrow> string \<Rightarrow> string \<Rightarrow> held option" where
  "kv_view ct s clk ns = map_of (kv_forget ct (map_get_or [] (kv_namespaces s) ns) clk)"

definition kv_entries_ok :: "kv_entries \<Rightarrow> bool" where
  "kv_entries_ok es \<longleftrightarrow> map_wf es \<and> (\<forall>(k, h) \<in> set es. held_ok h)"

definition kv_wf :: "kv_store \<Rightarrow> bool" where
  "kv_wf s \<longleftrightarrow> (\<forall>ns. kv_entries_ok (map_get_or [] (kv_namespaces s) ns)) \<and> map_wf (kv_disk s)"

lemma kv_entries_ok_Nil [simp]: "kv_entries_ok []"
  by (simp add: kv_entries_ok_def)

lemma kv_entries_ok_forget [simp]: "kv_entries_ok es \<Longrightarrow> kv_entries_ok (kv_forget ct es now)"
  by (auto simp: kv_entries_ok_def kv_forget_def)

lemma set_map_set_sub: "x \<in> set (map_set k v m) \<Longrightarrow> x = (k, v) \<or> x \<in> set m"
  by (induction m) (auto split: if_splits)

lemma kv_entries_ok_set [simp]:
  "kv_entries_ok es \<Longrightarrow> held_ok h \<Longrightarrow> kv_entries_ok (map_set k h es)"
  by (fastforce simp: kv_entries_ok_def dest: set_map_set_sub)

lemma kv_forget_lookup:
  "map_wf es \<Longrightarrow> map_of (kv_forget ct es now) k =
     (case map_of es k of None \<Rightarrow> None | Some h \<Rightarrow> if expired ct h now then None else Some h)"
  by (simp add: kv_forget_def map_of_filter_wf split: option.splits)

lemma expired_mono: "expired ct h t \<Longrightarrow> t \<le> t' \<Longrightarrow> expired ct h t'"
  by (auto simp: expired_def)

lemma kv_forget_forget: "t \<le> t' \<Longrightarrow> kv_forget ct (kv_forget ct es t) t' = kv_forget ct es t'"
  by (auto simp: kv_forget_def intro!: filter_cong dest: expired_mono)

lemma expired_live [simp]: "\<not> expired ct (live_held v t) now"
  by (simp add: expired_def)

lemma kv_load_fst [simp]: "fst (kv_load ct s ns clk) = kv_forget ct (map_get_or [] (kv_namespaces s) ns) clk"
  by (simp add: kv_load_def Let_def)

lemma kv_load_namespaces [simp]:
  "map_get_or [] (kv_namespaces (snd (kv_load ct s ns clk))) n =
     (if n = ns then kv_forget ct (map_get_or [] (kv_namespaces s) ns) clk
      else map_get_or [] (kv_namespaces s) n)"
  by (simp add: kv_load_def Let_def)

lemma kv_load_rest [simp]:
  "kv_writing (snd (kv_load ct s ns clk)) = kv_writing s"
  "kv_disk (snd (kv_load ct s ns clk)) = kv_disk s"
  "kv_published (snd (kv_load ct s ns clk)) = kv_published s"
  "kv_self (snd (kv_load ct s ns clk)) = kv_self s"
  by (simp_all add: kv_load_def Let_def)

lemma kv_load_pair:
  "kv_load ct s ns clk = (kv_forget ct (map_get_or [] (kv_namespaces s) ns) clk, snd (kv_load ct s ns clk))"
  by (simp add: kv_load_def Let_def)

lemma kv_load_wf [simp]: "kv_wf s \<Longrightarrow> kv_wf (snd (kv_load ct s ns clk))"
  by (simp add: kv_wf_def)

lemma kv_persist_simps [simp]:
  "kv_namespaces (kv_persist s ns es a) = kv_namespaces s"
  "kv_disk (kv_persist s ns es a) = kv_disk s"
  "kv_published (kv_persist s ns es a) = kv_published s"
  by (simp_all add: kv_persist_def)

text \<open>The write path common to \<open>write\<close> and \<open>delete\<close>: one held value put under one key.\<close>

definition kv_put :: "contract \<Rightarrow> kv_store \<Rightarrow> string \<Rightarrow> string \<Rightarrow> held \<Rightarrow> timestamp \<Rightarrow>
    (string \<times> (string \<times> held) list) option \<Rightarrow> kv_store" where
  "kv_put ct s ns key h clk announce =
     (let s' = snd (kv_load ct s ns clk);
          entries' = map_set key h (kv_forget ct (map_get_or [] (kv_namespaces s) ns) clk)
      in kv_persist (s'\<lparr>kv_namespaces := map_set ns entries' (kv_namespaces s')\<rparr>) ns entries' announce)"

lemma kv_write_cases:
  "kv_write ct s ns key v t now clk =
     (let u = (case t of None \<Rightarrow> now | Some x \<Rightarrow> x);
          stands = (u, kv_put ct s ns key (live_held v u) clk
                       (Some (''kv:'' @ ns, [(key, live_held v u)])))
      in if kv_admits (map_of (kv_forget ct (map_get_or [] (kv_namespaces s) ns) clk) key) (live_held v u)
         then stands
         else (held_updated_at (the (map_of (kv_forget ct (map_get_or [] (kv_namespaces s) ns) clk) key)),
               snd (kv_load ct s ns clk)))"
  unfolding kv_write_def kv_put_def
  by (subst kv_load_pair) (auto simp: Let_def kv_admits_def not_le split: option.splits)

lemma kv_delete_cases:
  "kv_delete ct s ns key now clk =
     (let h = map_of (kv_forget ct (map_get_or [] (kv_namespaces s) ns) clk) key
      in if kv_admits h (tombstone now)
         then kv_put ct s ns key (tombstone now) clk
                (if h = None \<or> held_deleted (the h) then None
                 else Some (''kv:'' @ ns, [(key, tombstone now)]))
         else snd (kv_load ct s ns clk))"
  unfolding kv_delete_def kv_put_def
  by (subst kv_load_pair) (auto simp: Let_def kv_admits_def not_le split: option.splits)

lemma kv_put_namespaces:
  "map_get_or [] (kv_namespaces (kv_put ct s ns key h clk a)) n =
     (if n = ns then map_set key h (kv_forget ct (map_get_or [] (kv_namespaces s) ns) clk)
      else map_get_or [] (kv_namespaces s) n)"
  by (simp add: kv_put_def Let_def)

lemma kv_put_wf: "kv_wf s \<Longrightarrow> held_ok h \<Longrightarrow> kv_wf (kv_put ct s ns key h clk a)"
  unfolding kv_wf_def by (simp add: kv_put_namespaces) (simp add: kv_put_def Let_def)

lemma held_ok_simps [simp]: "held_ok (live_held v t)" "held_ok (tombstone t)"
  by (simp_all add: held_ok_def)

lemma kv_load_view: "kv_view ct (snd (kv_load ct s ns clk)) clk = kv_view ct s clk"
  by (rule ext) (simp add: kv_view_def kv_forget_forget)

lemma kv_put_view:
  assumes "kv_wf s" "held_ok h" "\<not> expired ct h clk"
  shows "kv_view ct (kv_put ct s ns key h clk a) clk =
           (kv_view ct s clk)(ns := (kv_view ct s clk ns)(key := Some h))"
proof -
  have ok: "map_wf (map_get_or [] (kv_namespaces s) ns)"
    using assms(1) by (simp add: kv_wf_def kv_entries_ok_def)
  then have wf: "map_wf (map_set key h (kv_forget ct (map_get_or [] (kv_namespaces s) ns) clk))"
    by (simp add: kv_forget_def)
  show ?thesis
    by (rule ext, rule ext)
       (auto simp: kv_view_def kv_put_namespaces kv_forget_lookup [OF wf] kv_forget_lookup [OF ok]
          assms(3) split: option.splits)
qed

text \<open>Every write is an arrival at the register of its key, and touches no other.\<close>

lemma kv_write_view:
  assumes "kv_wf s"
  shows "kv_view ct (snd (kv_write ct s ns key v t now clk)) clk =
           (kv_view ct s clk)(ns := (kv_view ct s clk ns)(key :=
              kvreg.arrive (kv_view ct s clk ns key)
                (live_held v (case t of None \<Rightarrow> now | Some x \<Rightarrow> x))))"
  using assms unfolding kv_write_cases Let_def
  by (auto simp: kv_put_view kvreg.arrive_def kv_load_view) (simp_all add: kv_view_def)

lemma kv_delete_view:
  assumes "kv_wf s" and "\<not> expired ct (tombstone now) clk"
  shows "kv_view ct (kv_delete ct s ns key now clk) clk =
           (kv_view ct s clk)(ns := (kv_view ct s clk ns)(key :=
              kvreg.arrive (kv_view ct s clk ns key) (tombstone now)))"
  using assms unfolding kv_delete_cases Let_def
  by (auto simp: kv_put_view kvreg.arrive_def kv_load_view) (simp_all add: kv_view_def)

lemma kv_write_wf: "kv_wf s \<Longrightarrow> kv_wf (snd (kv_write ct s ns key v t now clk))"
  by (simp add: kv_write_cases Let_def kv_put_wf)

lemma kv_delete_wf: "kv_wf s \<Longrightarrow> kv_wf (kv_delete ct s ns key now clk)"
  by (simp add: kv_delete_cases Let_def kv_put_wf)


section \<open>Runs of the store\<close>

datatype kv_event =
    KvRead string string
  | KvWrite string string "json option" "timestamp option" timestamp
  | KvDelete string string timestamp
  | KvSnapshot string
  | KvLand string
  | KvFail string

fun kv_exec :: "contract \<Rightarrow> kv_store \<Rightarrow> timestamp \<Rightarrow> kv_event \<Rightarrow> kv_store" where
  "kv_exec ct s clk (KvRead ns key) = snd (kv_read ct s ns key clk)"
| "kv_exec ct s clk (KvWrite ns key v t now) = snd (kv_write ct s ns key v t now clk)"
| "kv_exec ct s clk (KvDelete ns key now) = kv_delete ct s ns key now clk"
| "kv_exec ct s clk (KvSnapshot topic) = snd (kv_snapshot ct s topic clk)"
| "kv_exec ct s clk (KvLand ns) = kv_land s ns"
| "kv_exec ct s clk (KvFail ns) = kv_fail s ns"

fun kv_run :: "contract \<Rightarrow> kv_store \<Rightarrow> (timestamp \<times> kv_event) list \<Rightarrow> kv_store" where
  "kv_run ct s [] = s"
| "kv_run ct s ((clk, e) # es) = kv_run ct (kv_exec ct s clk e) es"

text \<open>A run whose clock does not go back and in which no file write fails.\<close>

fun kv_steady :: "timestamp \<Rightarrow> (timestamp \<times> kv_event) list \<Rightarrow> bool" where
  "kv_steady t [] = True"
| "kv_steady t ((clk, e) # es) = (t \<le> clk \<and> (\<forall>ns. e \<noteq> KvFail ns) \<and> kv_steady clk es)"

lemma kv_steady_Cons:
  "kv_steady t ((clk, e) # es) \<longleftrightarrow>
     t \<le> clk \<and> (case e of KvFail _ \<Rightarrow> False | _ \<Rightarrow> True) \<and> kv_steady clk es"
  by (cases e) auto

lemma kv_read_snd [simp]: "snd (kv_read ct s ns key clk) = snd (kv_load ct s ns clk)"
  unfolding kv_read_def by (subst kv_load_pair) (simp add: Let_def)

lemma kv_snapshot_snd:
  "snd (kv_snapshot ct s topic clk) =
     (case topicParam topic of None \<Rightarrow> s | Some ns \<Rightarrow> snd (kv_load ct s ns clk))"
  unfolding kv_snapshot_def by (cases "topicParam topic") (simp_all add: kv_load_def Let_def)

lemma pop_job_Some:
  "pop_job ns js = Some (j, js') \<Longrightarrow>
     job_ns j = ns \<and> j \<in> set js \<and> set js' \<subseteq> set js \<and>
     filter (\<lambda>x. job_ns x = ns) js = j # filter (\<lambda>x. job_ns x = ns) js' \<and>
     (\<forall>n. n \<noteq> ns \<longrightarrow> filter (\<lambda>x. job_ns x = n) js' = filter (\<lambda>x. job_ns x = n) js)"
proof (induction js arbitrary: js')
  case Nil
  then show ?case by simp
next
  case (Cons x js)
  show ?case
  proof (cases "job_ns x = ns")
    case True
    with Cons.prems show ?thesis by auto
  next
    case False
    with Cons.prems obtain js0 where "pop_job ns js = Some (j, js0)" "js' = x # js0" by auto
    with Cons.IH [of js0] False show ?thesis by auto
  qed
qed

lemma pop_job_None: "pop_job ns js = None \<Longrightarrow> filter (\<lambda>x. job_ns x = ns) js = []"
  by (induction js) (auto split: if_splits)

lemma kv_land_wf: "kv_wf s \<Longrightarrow> kv_wf (kv_land s ns)"
  by (cases "pop_job ns (kv_writing s)") (auto simp: kv_land_def kv_wf_def)

lemma kv_fail_wf: "kv_wf s \<Longrightarrow> kv_wf (kv_fail s ns)"
  by (cases "pop_job ns (kv_writing s)") (auto simp: kv_fail_def kv_wf_def)

lemma kv_exec_wf: "kv_wf s \<Longrightarrow> kv_wf (kv_exec ct s clk e)"
  by (cases e) (simp_all add: kv_write_wf kv_delete_wf kv_snapshot_snd kv_land_wf kv_fail_wf
      split: option.split)

section \<open>What a restart reads back\<close>

lemma jfield_held_json [simp]:
  "jfield (held_json h) ''updated_at'' = Some (JNum (held_updated_at h))"
  "jfield (held_json h) ''value'' = held_val h"
  "jfield (held_json h) ''deleted'' = (if held_deleted h then Some (JBool True) else None)"
  by (auto simp: held_json_def split: option.splits)

lemma kv_read_entry_held_json: "held_ok h \<Longrightarrow> kv_read_entry (held_json h) = Some h"
proof -
  have "object_entries (held_json h) \<noteq> None" by (simp add: held_json_def)
  then show "held_ok h \<Longrightarrow> kv_read_entry (held_json h) = Some h"
    by (cases h) (auto simp: kv_read_entry_def held_ok_def)
qed

lemma map_set_append_new: "k \<notin> set (map_keys m) \<Longrightarrow> map_set k v m = m @ [(k, v)]"
  by (induction m) auto

lemma kv_read_fold_aux:
  "distinct (map_keys acc @ map_keys es) \<Longrightarrow> (\<forall>(k, h) \<in> set es. held_ok h) \<Longrightarrow>
   foldl (\<lambda>entries (key, h).
            (case kv_read_entry h of None \<Rightarrow> entries | Some v \<Rightarrow> map_set key v entries))
     acc (map (\<lambda>(k, h). (k, held_json h)) es) = acc @ es"
proof (induction es arbitrary: acc)
  case Nil
  then show ?case by simp
next
  case (Cons e es)
  obtain k h where e: "e = (k, h)" by (cases e)
  from Cons.prems have "map_set k h acc = acc @ [(k, h)]" "held_ok h"
    by (auto simp: e map_set_append_new)
  with Cons.IH [of "acc @ [(k, h)]"] Cons.prems show ?case
    by (simp add: e kv_read_entry_held_json)
qed

lemma kv_read_body:
  assumes "kv_entries_ok es"
  shows "kv_read_file (Some (kv_body es)) = filter (\<lambda>(k, h). k \<noteq> ''__proto__'') es"
  using assms kv_read_fold_aux [of "[]" "filter (\<lambda>(k, h). k \<noteq> ''__proto__'') es"]
  by (auto simp: kv_read_file_def kv_body_def kv_entries_ok_def)

lemma map_set_entries_ok_fold:
  "kv_entries_ok acc \<Longrightarrow>
   kv_entries_ok (foldl (\<lambda>entries (key, h).
     (case kv_read_entry h of None \<Rightarrow> entries | Some v \<Rightarrow> map_set key v entries)) acc ms)"
proof (induction ms arbitrary: acc)
  case Nil
  then show ?case by simp
next
  case (Cons m ms)
  obtain k j where m: "m = (k, j)" by (cases m)
  have "kv_read_entry j = Some v \<Longrightarrow> held_ok v" for v
    by (auto simp: kv_read_entry_def split: option.splits json.splits if_splits)
  then have "kv_entries_ok (case kv_read_entry j of None \<Rightarrow> acc | Some v \<Rightarrow> map_set k v acc)"
    using Cons.prems by (auto split: option.splits)
  then show ?case using Cons.IH by (simp add: m)
qed

lemma kv_read_file_ok [simp]: "kv_entries_ok (kv_read_file j)"
  by (auto simp: kv_read_file_def map_set_entries_ok_fold split: option.splits)

text \<open>What the namespace's file will state once the writes already asked for have landed.\<close>

definition kv_latest :: "kv_store \<Rightarrow> string \<Rightarrow> json option" where
  "kv_latest s ns =
     (case filter (\<lambda>j. job_ns j = ns) (kv_writing s) of
        [] \<Rightarrow> map_of (kv_disk s) (kv_file ns)
      | j # js \<Rightarrow> Some (job_body (last (j # js))))"

definition kv_durable :: "contract \<Rightarrow> timestamp \<Rightarrow> kv_store \<Rightarrow> bool" where
  "kv_durable ct clk s \<longleftrightarrow>
     (\<forall>ns k now. clk \<le> now \<longrightarrow> k \<noteq> ''__proto__'' \<longrightarrow>
        map_of (kv_forget ct (map_get_or [] (kv_namespaces s) ns) now) k =
        map_of (kv_forget ct (kv_read_file (kv_latest s ns)) now) k)"

lemma kv_durable_mono: "kv_durable ct clk s \<Longrightarrow> clk \<le> clk' \<Longrightarrow> kv_durable ct clk' s"
  by (auto simp: kv_durable_def)

lemma kv_latest_load [simp]: "kv_latest (snd (kv_load ct s ns clk)) n = kv_latest s n"
  by (simp add: kv_latest_def split: list.splits)

lemma kv_durable_load:
  "kv_durable ct clk s \<Longrightarrow> clk \<le> clk' \<Longrightarrow> kv_durable ct clk' (snd (kv_load ct s ns clk'))"
  by (auto simp: kv_durable_def kv_forget_forget)

lemma kv_latest_put:
  "kv_latest (kv_put ct s ns key h clk a) n =
     (if n = ns then Some (kv_body (map_set key h (kv_forget ct (map_get_or [] (kv_namespaces s) ns) clk)))
      else kv_latest s n)"
  by (auto simp: kv_latest_def kv_put_def kv_persist_def Let_def split: list.splits)

lemma kv_durable_put:
  assumes "kv_wf s" "kv_durable ct clk s" "clk \<le> clk'" "held_ok h"
  shows "kv_durable ct clk' (kv_put ct s ns key h clk' a)"
proof -
  let ?es = "map_set key h (kv_forget ct (map_get_or [] (kv_namespaces s) ns) clk')"
  have ok: "kv_entries_ok ?es" using assms(1,4) by (simp add: kv_wf_def)
  have same: "map_of (kv_forget ct ?es now) k =
      map_of (kv_forget ct (kv_read_file (Some (kv_body ?es))) now) k"
    if "k \<noteq> ''__proto__''" for now k
    using ok that
    by (simp add: kv_read_body kv_forget_lookup kv_entries_ok_def map_of_filter_wf split: option.splits)
  show ?thesis
    using assms(2,3) same by (auto simp: kv_durable_def kv_put_namespaces kv_latest_put)
qed

lemma kv_file_inject [simp]: "kv_file a = kv_file b \<longleftrightarrow> a = b"
  by (simp add: kv_file_def)

lemma kv_latest_land: "kv_latest (kv_land s ns) n = kv_latest s n"
proof (cases "pop_job ns (kv_writing s)")
  case None
  then show ?thesis by (simp add: kv_land_def)
next
  case (Some p)
  obtain j js where p: "p = (j, js)" by (cases p)
  note pop = pop_job_Some [OF Some [unfolded p]]
  show ?thesis
    using pop by (cases "n = ns") (auto simp: kv_land_def Some p kv_latest_def split: list.splits)
qed

lemma kv_land_namespaces [simp]: "kv_namespaces (kv_land s ns) = kv_namespaces s"
  by (simp add: kv_land_def split: option.splits prod.splits)

lemma kv_exec_durable:
  assumes "kv_wf s" "kv_durable ct clk s" "clk \<le> clk'" "\<forall>ns. e \<noteq> KvFail ns"
  shows "kv_durable ct clk' (kv_exec ct s clk' e)"
proof -
  have load: "kv_durable ct clk' (snd (kv_load ct s ns clk'))" for ns
    using assms(2,3) by (rule kv_durable_load)
  have put: "kv_durable ct clk' (kv_put ct s ns key h clk' a)" if "held_ok h" for ns key h a
    using assms(1,2,3) that by (rule kv_durable_put)
  note keep = kv_durable_mono [OF assms(2,3)]
  show ?thesis
  proof (cases e)
    case (KvRead ns key)
    then show ?thesis by (simp add: load)
  next
    case (KvWrite ns key v t now)
    then show ?thesis by (simp add: kv_write_cases Let_def load put)
  next
    case (KvDelete ns key now)
    then show ?thesis by (simp add: kv_delete_cases Let_def load put)
  next
    case (KvSnapshot topic)
    then show ?thesis by (simp add: kv_snapshot_snd load keep split: option.split)
  next
    case (KvLand ns)
    with keep show ?thesis by (simp add: kv_durable_def kv_latest_land)
  next
    case (KvFail ns)
    with assms(4) show ?thesis by simp
  qed
qed

lemma kv_run_durable:
  "kv_wf s \<Longrightarrow> kv_durable ct clk s \<Longrightarrow> kv_steady clk es \<Longrightarrow>
     \<exists>clk'. kv_durable ct clk' (kv_run ct s es) \<and> clk \<le> clk' \<and>
        (\<forall>(t, e) \<in> set es. t \<le> clk') \<and> (clk' = clk \<or> clk' \<in> fst ` set es)"
proof (induction es arbitrary: s clk)
  case Nil
  then show ?case by auto
next
  case (Cons x es)
  obtain t e where x: "x = (t, e)" by (cases x)
  from Cons.prems have st: "clk \<le> t" "\<forall>ns. e \<noteq> KvFail ns" "kv_steady t es" by (auto simp: x)
  have "kv_durable ct t (kv_exec ct s t e)"
    using kv_exec_durable [OF Cons.prems(1,2) st(1,2)] .
  with Cons.IH [OF kv_exec_wf [OF Cons.prems(1)] _ st(3)] obtain clk' where
    "kv_durable ct clk' (kv_run ct (kv_exec ct s t e) es)" "t \<le> clk'"
    "\<forall>(t, e) \<in> set es. t \<le> clk'" "clk' = t \<or> clk' \<in> fst ` set es"
    by blast
  with st(1) show ?case by (intro exI [of _ clk']) (auto simp: x)
qed

lemma json_stem_iff: "json_stem name = Some ns \<longleftrightarrow> name = kv_file ns"
  by (auto simp: json_stem_def kv_file_def) (metis append_take_drop_id)

lemma json_stem_kv_file [simp]: "json_stem (kv_file ns) = Some ns"
  by (simp add: json_stem_iff)

lemma kv_open_fold:
  "map_wf dir \<Longrightarrow>
   map_of (foldl (\<lambda>m (name, file). (case json_stem name of None \<Rightarrow> m
             | Some ns \<Rightarrow> map_set ns (kv_read_file (Some file)) m)) acc dir) ns =
   (case map_of dir (kv_file ns) of None \<Rightarrow> map_of acc ns
    | Some f \<Rightarrow> Some (kv_read_file (Some f)))"
proof (induction dir arbitrary: acc)
  case Nil
  then show ?case by simp
next
  case (Cons d dir)
  obtain name f where d: "d = (name, f)" by (cases d)
  have absent: "map_of dir name = None" using Cons.prems by (auto simp: d map_of_None_keys)
  show ?case
    using Cons.IH Cons.prems absent
    by (auto simp: d json_stem_iff split: option.splits)
qed

lemma kv_open_namespaces:
  assumes "map_wf dir"
  shows "map_get_or [] (kv_namespaces (kv_open self dir)) ns = kv_read_file (map_of dir (kv_file ns))"
  by (auto simp: kv_open_def map_get_or_def kv_open_fold [OF assms] kv_read_file_def
      split: option.splits)

lemma kv_open_wf: "map_wf dir \<Longrightarrow> kv_wf (kv_open self dir)"
  unfolding kv_wf_def by (simp add: kv_open_namespaces) (simp add: kv_open_def)

lemma kv_open_durable: "map_wf dir \<Longrightarrow> kv_durable ct clk (kv_open self dir)"
  unfolding kv_durable_def
  by (simp add: kv_open_namespaces kv_latest_def) (simp add: kv_open_def)

lemma kv_run_wf: "kv_wf s \<Longrightarrow> kv_wf (kv_run ct s es)"
  by (induction es arbitrary: s) (auto simp: kv_exec_wf)


section \<open>Properties\<close>

text \<open>
  C23: two instances that mirror a namespace to each other compute the same namespace,
  whichever of them is the local side: the merge of every key is associative and idempotent,
  and \<open>mergeNamespace\<close> of the two sides agrees key by key in both directions unless some key
  holds two different live values written at the same instant.
\<close>

theorem mergeNamespace_converges:
  assumes "kv_entries_ok a" and "kv_entries_ok b"
    and "\<forall>k. \<not> live_tie (map_of a k) (map_of b k)"
  shows "map_of (mergeNamespace ct a b now) k = map_of (mergeNamespace ct b a now) k
       \<and> mergeHeld (mergeHeld x y) z = mergeHeld x (mergeHeld y z) \<and> mergeHeld x x = x"
proof -
  have ok: "pred_option held_ok (map_of es k)" if "kv_entries_ok es" for es
    using that by (cases "map_of es k") (auto simp: kv_entries_ok_def dest: map_of_SomeD)
  have "mergeHeld (map_of a k) (map_of b k) = mergeHeld (map_of b k) (map_of a k)"
    using assms ok by (intro mergeHeld_comm) auto
  then show ?thesis by (simp add: mergeNamespace_lookup mergeHeld_assoc_all)
qed

theorem mergeNamespace_converges_witness:
  "map_of (mergeNamespace example_contract
       [(''a'', live_held (Some (JNum 1)) 5)] [(''a'', tombstone 5)] 7) ''a'' = Some (tombstone 5)"
proof -
  have "map_of (mergeNamespace ct [(''a'', live_held (Some (JNum 1)) 5)] [(''a'', tombstone 5)] 7) ''a'' =
        map_of (mergeNamespace ct [(''a'', tombstone 5)] [(''a'', live_held (Some (JNum 1)) 5)] 7) ''a''" for ct
    using mergeNamespace_converges [of "[(''a'', live_held (Some (JNum 1)) 5)]" "[(''a'', tombstone 5)]"]
    by (simp add: kv_entries_ok_def live_tie_def)
  then show ?thesis
    by (simp add: mergeNamespace_lookup mergeHeld_def expired_def example_contract_def)
qed

text \<open>
  The store refines one last-write-wins register per key. A write answers with the
  instant its key carries afterwards, displaces the visible value exactly when that value is
  not newer, and changes what no other key of any namespace shows; a removal does the same
  with a tombstone.
\<close>

theorem kv_ops_refine_registers:
  assumes "kv_wf s" and "\<not> expired ct (tombstone now) clk"
  shows "let u = (case t of None \<Rightarrow> now | Some x \<Rightarrow> x);
             view = kv_view ct s clk;
             (answer, s') = kv_write ct s ns key v t now clk;
             held = kvreg.arrive (view ns key) (live_held v u)
         in kv_view ct s' clk = view(ns := (view ns)(key := held))
          \<and> answer = held_updated_at (the held) \<and> u \<le> answer
          \<and> kv_view ct (kv_delete ct s ns key now clk) clk =
              view(ns := (view ns)(key := kvreg.arrive (view ns key) (tombstone now)))"
proof -
  have "fst (kv_write ct s ns key v t now clk) =
      held_updated_at (the (kvreg.arrive (kv_view ct s clk ns key)
        (live_held v (case t of None \<Rightarrow> now | Some x \<Rightarrow> x))))"
    by (auto simp: kv_write_cases Let_def kvreg.arrive_def kv_view_def)
  moreover have "u \<le> held_updated_at (the (kvreg.arrive h (live_held v u)))" for u h
    by (auto simp: kvreg.arrive_def kv_admits_def split: option.splits)
  ultimately show ?thesis
    using kv_write_view [OF assms(1), of ct ns key v t now clk]
      kv_delete_view [OF assms, of ns key]
    by (simp add: Let_def case_prod_beta)
qed

lemma kv_view_open_Nil [simp]: "kv_view ct (kv_open self []) clk ns key = None"
  by (simp add: kv_view_def kv_open_def kv_forget_def)

theorem kv_ops_refine_registers_witness:
  "kv_view example_contract
     (kv_delete example_contract (kv_open ''i'' []) ''theme'' ''default'' 3 3) 3 ''theme'' ''default'' =
   Some (tombstone 3)"
  using kv_ops_refine_registers [of "kv_open ''i'' []" example_contract 3 3 None "''theme''" "''default''" None]
  by (simp add: kv_open_wf expired_def example_contract_def Let_def case_prod_beta
      kvreg.arrive_def kv_admits_def)

text \<open>The value one key shows after a list of writes to it, oldest call first.\<close>

fun kv_writes :: "contract \<Rightarrow> kv_store \<Rightarrow> string \<Rightarrow> string \<Rightarrow> timestamp \<Rightarrow>
    (json option \<times> timestamp) list \<Rightarrow> kv_store" where
  "kv_writes ct s ns key clk [] = s"
| "kv_writes ct s ns key clk ((v, t) # ws) =
     kv_writes ct (snd (kv_write ct s ns key v (Some t) clk clk)) ns key clk ws"

lemma kv_writes_settle:
  "kv_wf s \<Longrightarrow> kv_view ct (kv_writes ct s ns key clk ws) clk ns key =
     kvreg.settle (kv_view ct s clk ns key) (map (\<lambda>(v, t). live_held v t) ws)"
  by (induction ct s ns key clk ws rule: kv_writes.induct)
     (simp_all add: kv_write_wf kv_write_view)

text \<open>
  The instant decides, not the order of arrival. Two stores that start without the key
  and are told the same writes, in whatever order and however often each is repeated, show
  the same value for it, as long as different writes carry different instants.
\<close>

theorem kv_writes_converge:
  assumes "kv_wf s" "kv_wf s'" "kv_view ct s clk ns key = None" "kv_view ct s' clk ns key = None"
    and "set ws = set ws'" "inj_on snd (set ws)"
  shows "kv_view ct (kv_writes ct s ns key clk ws) clk ns key =
         kv_view ct (kv_writes ct s' ns key clk ws') clk ns key"
proof -
  let ?live = "\<lambda>(v, t). live_held v t"
  have "inj_on held_updated_at (set (map ?live ws))"
    using assms(6) by (auto simp: inj_on_def) (metis prod.inject snd_conv)
  then have "kvreg.settle None (map ?live ws) = kvreg.settle None (map ?live ws')"
    using assms(5) by (intro kvreg.settle_converges) simp_all
  then show ?thesis using assms(1-4) by (simp add: kv_writes_settle)
qed

theorem kv_writes_converge_witness:
  "kv_view example_contract (kv_writes example_contract (kv_open ''i'' []) ''n'' ''k'' 9
       [(Some (JNum 1), 4), (Some (JNum 2), 3)]) 9 ''n'' ''k'' =
   kv_view example_contract (kv_writes example_contract (kv_open ''i'' []) ''n'' ''k'' 9
       [(Some (JNum 2), 3), (Some (JNum 1), 4)]) 9 ''n'' ''k''"
  by (rule kv_writes_converge) (auto simp: kv_open_wf inj_on_def)

text \<open>
  C12: a restart reads back what the store showed. After any run of reads, writes, removals
  and snapshots from an opened directory in which the clock does not go back and no file
  write fails, once the writes asked for have landed, opening the directory again shows every
  key of every namespace exactly as the running store does, at that and every later clock.
  The one key this cannot be said of is \<open>__proto__\<close>, which the body's plain object keeps as
  its prototype instead of as a member.
\<close>

theorem kv_restart:
  assumes "map_wf dir" and "kv_steady t0 es" and "t0 \<le> now" and "\<forall>(t, e) \<in> set es. t \<le> now"
    and "kv_writing (kv_run ct (kv_open self dir) es) = []" and "k \<noteq> ''__proto__''"
  shows "kv_view ct (kv_open self (kv_disk (kv_run ct (kv_open self dir) es))) now ns k =
         kv_view ct (kv_run ct (kv_open self dir) es) now ns k"
proof -
  let ?s = "kv_run ct (kv_open self dir) es"
  have wf: "kv_wf ?s" using assms(1) by (simp add: kv_run_wf kv_open_wf)
  obtain clk where clk: "kv_durable ct clk ?s" "clk = t0 \<or> clk \<in> fst ` set es"
    using kv_run_durable [OF kv_open_wf [OF assms(1)] kv_open_durable [OF assms(1)] assms(2)]
    by blast
  with assms(3,4) have "clk \<le> now" by auto
  with clk(1) assms(5,6) have
    "map_of (kv_forget ct (map_get_or [] (kv_namespaces ?s) ns) now) k =
     map_of (kv_forget ct (kv_read_file (map_of (kv_disk ?s) (kv_file ns))) now) k"
    by (simp add: kv_durable_def kv_latest_def)
  then show ?thesis
    using wf by (simp add: kv_view_def kv_open_namespaces kv_wf_def)
qed

theorem kv_restart_witness:
  "kv_view example_contract (kv_open ''i'' (kv_disk (kv_run example_contract (kv_open ''i'' [])
       [(3, KvWrite ''n'' ''k'' (Some JNull) None 3), (4, KvLand ''n'')]))) 5 ''n'' ''k'' =
   Some (live_held (Some JNull) 3)"
proof -
  let ?es = "[(3, KvWrite ''n'' ''k'' (Some JNull) None 3), (4, KvLand ''n'')]"
  let ?s = "kv_run example_contract (kv_open ''i'' []) ?es"
  have s: "?s = \<lparr>kv_self = ''i'', kv_namespaces = [(''n'', [(''k'', live_held (Some JNull) 3)])],
     kv_writing = [], kv_disk = [(''n.json'', kv_body [(''k'', live_held (Some JNull) 3)])],
     kv_published = [(''kv:n'', [(''k'', live_held (Some JNull) 3)])]\<rparr>"
    by (simp add: kv_open_def kv_write_def kv_load_def kv_forget_def kv_persist_def kv_land_def
        kv_file_def Let_def)
  have "kv_view example_contract (kv_open ''i'' (kv_disk ?s)) 5 ''n'' ''k'' =
        kv_view example_contract ?s 5 ''n'' ''k''"
    by (rule kv_restart [of "[]" 0]) (simp, simp, simp, simp, unfold s, simp_all)
  also have "\<dots> = Some (live_held (Some JNull) 3)"
    unfolding s by (simp add: kv_view_def map_get_or_def kv_forget_def)
  finally show ?thesis .
qed

text \<open>Every write still waiting for its file carries in its body what it will announce.\<close>

definition kv_jobs_ok :: "kv_store \<Rightarrow> bool" where
  "kv_jobs_ok s \<longleftrightarrow> (\<forall>j \<in> set (kv_writing s). \<forall>topic es k h. job_announce j = Some (topic, es) \<longrightarrow>
     topic = ''kv:'' @ job_ns j \<and>
     ((k, h) \<in> set es \<longrightarrow> k \<noteq> ''__proto__'' \<longrightarrow>
        map_of (kv_read_file (Some (job_body j))) k = Some h))"

lemma kv_put_jobs_ok:
  assumes "kv_wf s" "kv_jobs_ok s" "held_ok h" and "a = None \<or> a = Some (''kv:'' @ ns, [(key, h)])"
  shows "kv_jobs_ok (kv_put ct s ns key h clk a)"
proof -
  have "kv_entries_ok (map_set key h (kv_forget ct (map_get_or [] (kv_namespaces s) ns) clk))"
    using assms(1,3) by (simp add: kv_wf_def)
  then show ?thesis
    using assms(2,4)
    by (auto simp: kv_jobs_ok_def kv_put_def kv_persist_def Let_def kv_read_body map_of_filter_key)
qed

lemma kv_pop_jobs_ok:
  "kv_jobs_ok s \<Longrightarrow> pop_job ns (kv_writing s) = Some (j, js) \<Longrightarrow>
     kv_jobs_ok (s\<lparr>kv_writing := js, kv_disk := d, kv_published := p\<rparr>)"
  by (drule pop_job_Some) (auto simp: kv_jobs_ok_def)

lemma kv_exec_jobs_ok:
  assumes "kv_wf s" "kv_jobs_ok s"
  shows "kv_jobs_ok (kv_exec ct s clk e)"
proof -
  have load: "kv_jobs_ok (snd (kv_load ct s ns clk))" for ns
    using assms(2) by (simp add: kv_jobs_ok_def)
  have pop: "kv_jobs_ok (kv_land s ns)" "kv_jobs_ok (kv_fail s ns)" for ns
    using assms(2) kv_pop_jobs_ok [OF assms(2)]
      kv_pop_jobs_ok [OF assms(2), where d = "kv_disk s" and p = "kv_published s"]
    by (auto simp: kv_land_def kv_fail_def split: option.splits)
  show ?thesis
    by (cases e) (simp_all add: load pop assms kv_put_jobs_ok kv_write_cases kv_delete_cases Let_def
        kv_snapshot_snd split: option.split)
qed

lemma kv_run_jobs_ok: "kv_wf s \<Longrightarrow> kv_jobs_ok s \<Longrightarrow> kv_jobs_ok (kv_run ct s es)"
  by (induction es arbitrary: s) (auto simp: kv_exec_jobs_ok kv_exec_wf)

text \<open>
  Nobody is told a value this instance would not have after a restart. Whatever run led
  to the state, failed file writes included, an entry published when a write lands is at that
  moment what the namespace's file states for its key.
\<close>

theorem kv_announced_is_on_disk:
  assumes "map_wf dir" and "s = kv_run ct (kv_open self dir) es"
    and "kv_published (kv_land s ns) = kv_published s @ [(topic, entries)]"
    and "(k, h) \<in> set entries" and "k \<noteq> ''__proto__''"
  shows "topic = ''kv:'' @ ns \<and>
         map_of (kv_read_file (map_of (kv_disk (kv_land s ns)) (kv_file ns))) k = Some h"
proof -
  have "kv_jobs_ok (kv_open self dir)" by (simp add: kv_jobs_ok_def kv_open_def)
  then have ok: "kv_jobs_ok s"
    using assms(1,2) by (simp add: kv_run_jobs_ok kv_open_wf)
  obtain j js where pop: "pop_job ns (kv_writing s) = Some (j, js)"
    and ann: "job_announce j = Some (topic, entries)"
    using assms(3) by (auto simp: kv_land_def split: option.splits)
  have "j \<in> set (kv_writing s)" "job_ns j = ns" using pop_job_Some [OF pop] by auto
  with ok ann assms(4,5) show ?thesis
    by (auto simp: kv_jobs_ok_def kv_land_def pop)
qed

theorem kv_announced_is_on_disk_witness:
  "map_of (kv_read_file (map_of (kv_disk (kv_land (kv_run example_contract (kv_open ''i'' [])
       [(3, KvWrite ''n'' ''k'' (Some JNull) None 3)]) ''n'')) (kv_file ''n''))) ''k'' =
   Some (live_held (Some JNull) 3)"
  using kv_announced_is_on_disk [of "[]" _ example_contract "''i''"
      "[(3, KvWrite ''n'' ''k'' (Some JNull) None 3)]" "''n''" "''kv:n''"
      "[(''k'', live_held (Some JNull) 3)]" "''k''" "live_held (Some JNull) 3"]
  by (simp add: kv_open_def kv_write_def kv_load_def kv_forget_def kv_persist_def kv_land_def Let_def)

end
