(* ===== verification/Dispatch.thy ===== *)
theory Dispatch
  imports Prelude
begin

text \<open>
  \<open>src/dispatch\<close>: the identity a connection has (\<open>identity.ts\<close>), the identity a forwarded
  request names (\<open>caller.ts\<close>), the envelopes (\<open>result.ts\<close>) and the decision about one frame
  (\<open>dispatch.ts\<close>).

  The op table, the schemas' validator and the role table belong to the contract package and
  arrive as the record \<open>op_contract\<close>. A handler is any function of its input and of the
  state \<open>'w\<close> around it: it answers, refuses with an \<open>OpError\<close>, or fails in another way.
\<close>

section \<open>Identities\<close>

datatype role = Session | User | Instance

datatype conn_identity = Anonymous | Settled role "sid option"

fun role_name :: "role \<Rightarrow> string" where
  "role_name Session = ''session''"
| "role_name User = ''user''"
| "role_name Instance = ''instance''"

definition role_of_name :: "string \<Rightarrow> role option" where
  "role_of_name n =
     (if n = ''session'' then Some Session else if n = ''user'' then Some User
      else if n = ''instance'' then Some Instance else None)"

lemma role_of_name_name [simp]: "role_of_name (role_name r) = Some r"
  by (cases r) (simp_all add: role_of_name_def)

section \<open>caller.ts\<close>

record caller_identity =
  ci_role :: role
  ci_sid :: "sid option"

datatype caller_answer = NoCaller | Caller caller_identity | CallerError string

text \<open>\<open>typeof x !== "object" || x === null\<close>: what is left is an object or an array.\<close>

fun is_object :: "json \<Rightarrow> bool" where
  "is_object (JObj _) = True"
| "is_object (JArr _) = True"
| "is_object _ = False"

definition callerOf :: "json \<Rightarrow> caller_answer" where
  "callerOf frame =
     (if \<not> is_object frame then NoCaller
      else case jfield frame ''caller'' of
        None \<Rightarrow> NoCaller
      | Some stated \<Rightarrow>
          if \<not> is_object stated then CallerError ''a caller is an object naming a role''
          else
            (case (case jfield stated ''role'' of Some (JStr n) \<Rightarrow> role_of_name n | _ \<Rightarrow> None) of
               None \<Rightarrow> CallerError ''a caller names one of the contract's roles''
             | Some role \<Rightarrow>
                 (case jfield stated ''sid'' of
                    Some (JStr sid) \<Rightarrow>
                      if role = Session then Caller \<lparr>ci_role = role, ci_sid = Some sid\<rparr>
                      else CallerError ''a caller carries a sid when, and only when, it is a session''
                  | _ \<Rightarrow>
                      if role = Session
                      then CallerError ''a caller carries a sid when, and only when, it is a session''
                      else Caller \<lparr>ci_role = role, ci_sid = None\<rparr>)))"

definition callerOfIdentity :: "conn_identity \<Rightarrow> caller_identity option" where
  "callerOfIdentity identity =
     (case identity of
        Anonymous \<Rightarrow> None
      | Settled role sid \<Rightarrow> Some \<lparr>ci_role = role, ci_sid = sid\<rparr>)"

text \<open>The value a forwarding instance puts under \<open>caller\<close>.\<close>

definition caller_json :: "caller_identity \<Rightarrow> json" where
  "caller_json c =
     JObj ((''role'', JStr (role_name (ci_role c)))
           # (case ci_sid c of None \<Rightarrow> [] | Some s \<Rightarrow> [(''sid'', JStr s)]))"

section \<open>result.ts\<close>

record error_response =
  er_request_id :: "string option"
  er_code :: string
  er_msg :: string

datatype dispatch_result =
    DNone
  | DReply "(string \<times> json) list"
  | DError error_response
  | DForward instance_id "(string \<times> json) list"

text \<open>The spread of the body after the envelope's own members overwrites them.\<close>

definition reply :: "string \<Rightarrow> json option \<Rightarrow> dispatch_result" where
  "reply requestId body =
     DReply (foldl (\<lambda>r (k, v). map_set k v r)
       [(''ok'', JBool True), (''request_id'', JStr requestId)]
       (case body of Some (JObj members) \<Rightarrow> members
                   | Some (JArr js) \<Rightarrow> zip (map show_nat [0..<length js]) js
                   | _ \<Rightarrow> []))"

definition failure :: "string option \<Rightarrow> string \<Rightarrow> string \<Rightarrow> dispatch_result" where
  "failure requestId code msg = DError \<lparr>er_request_id = requestId, er_code = code, er_msg = msg\<rparr>"

section \<open>dispatch.ts\<close>

record op_attrs =
  oa_http :: bool
  oa_needs_hello :: bool
  oa_capability :: "string option"
  oa_owner_instance :: bool
  oa_scope_role :: bool

record op_contract =
  OP_ATTRIBUTES :: "string \<Rightarrow> op_attrs option"
  validationErrors :: "string \<Rightarrow> (string \<times> json) list \<Rightarrow> string list"
  isRoleAllowed :: "string \<Rightarrow> role \<Rightarrow> bool"

record handler_input =
  hi_op :: string
  hi_args :: "(string \<times> json) list"
  hi_identity :: "(role \<times> sid option) option"
  hi_role :: "role option"

datatype handler_outcome = HReturn "json option" | HOpError op_error | HFailure string

record 'w dispatch_deps =
  dd_self :: instance_id
  dd_capabilities :: "string list"
  dd_resolveInstance :: "string \<Rightarrow> (string \<times> json) list \<Rightarrow> instance_id option"
  dd_handlers :: "string \<Rightarrow> handler_input \<Rightarrow> 'w \<Rightarrow> handler_outcome \<times> 'w"

fun join :: "string \<Rightarrow> string list \<Rightarrow> string" where
  "join sep [] = []"
| "join sep [x] = x"
| "join sep (x # xs) = x @ sep @ join sep xs"

definition request_id_of :: "(string \<times> json) list \<Rightarrow> string option" where
  "request_id_of members =
     (case map_of members ''request_id'' of
        Some (JStr s) \<Rightarrow> if s = [] then None else Some s
      | _ \<Rightarrow> None)"

definition identity_role :: "conn_identity \<Rightarrow> role option" where
  "identity_role i = (case i of Anonymous \<Rightarrow> None | Settled r _ \<Rightarrow> Some r)"

definition handler_input_of :: "op_attrs \<Rightarrow> string \<Rightarrow> (string \<times> json) list \<Rightarrow> conn_identity \<Rightarrow> handler_input" where
  "handler_input_of attrs op members identity =
     \<lparr>hi_op = op, hi_args = members,
      hi_identity = (case identity of Anonymous \<Rightarrow> None | Settled r s \<Rightarrow> Some (r, s)),
      hi_role = (if oa_scope_role attrs then identity_role identity else None)\<rparr>"

definition run_handler :: "'w dispatch_deps \<Rightarrow> op_attrs \<Rightarrow> string \<Rightarrow> string \<Rightarrow> (string \<times> json) list \<Rightarrow>
    conn_identity \<Rightarrow> 'w \<Rightarrow> dispatch_result \<times> 'w" where
  "run_handler deps attrs op rid members identity w =
     (let (outcome, w') = dd_handlers deps op (handler_input_of attrs op members identity) w
      in ((case outcome of
             HReturn body \<Rightarrow> reply rid body
           | HOpError (code, msg) \<Rightarrow> failure (Some rid) code msg
           | HFailure cause \<Rightarrow> failure (Some rid) ''internal_error'' (''the op failed: '' @ cause)), w'))"

text \<open>\<open>Array.isArray(hops) && hops.includes(self)\<close>, and the destination of an op whose subject
  has an owner.\<close>

definition hops_of :: "(string \<times> json) list \<Rightarrow> json list" where
  "hops_of members = (case map_of members ''hops'' of Some (JArr hs) \<Rightarrow> hs | _ \<Rightarrow> [])"

definition target_of :: "'w dispatch_deps \<Rightarrow> string \<Rightarrow> (string \<times> json) list \<Rightarrow> instance_id option" where
  "target_of deps op members =
     (case map_of members ''to_instance'' of
        Some (JStr asked) \<Rightarrow> Some asked
      | _ \<Rightarrow> dd_resolveInstance deps op members)"

text \<open>Steps 2 to 6, for an op the contract names: the refusal they end in, if any, in their
  order.\<close>

definition dispatch_refusal :: "op_contract \<Rightarrow> 'w dispatch_deps \<Rightarrow> op_attrs \<Rightarrow> string \<Rightarrow>
    (string \<times> json) list \<Rightarrow> conn_identity \<Rightarrow> op_error option" where
  "dispatch_refusal oc deps attrs op members identity =
     (if validationErrors oc op members \<noteq> [] then
        Some (''invalid_args'', join ''; '' (validationErrors oc op members))
      else if oa_http attrs then
        Some (''bad_request'', op @ '' is reached over HTTP, not on a connection'')
      else if oa_needs_hello attrs \<and> identity = Anonymous then
        Some (''hello_required'', op @ '' needs an identity settled by hello'')
      else case (case identity_role identity of None \<Rightarrow> None
                 | Some r \<Rightarrow> if isRoleAllowed oc op r then None else Some r) of
        Some r \<Rightarrow> Some (''forbidden'', op @ '' is not open to '' @ role_name r)
      | None \<Rightarrow>
        (case (case oa_capability attrs of None \<Rightarrow> None
               | Some c \<Rightarrow> if c \<in> set (dd_capabilities deps) then None else Some c) of
           Some c \<Rightarrow> Some (''capability_unavailable'',
             op @ '' needs the '' @ c @ '' capability, which this instance does not have'')
         | None \<Rightarrow>
           if JStr (dd_self deps) \<in> set (hops_of members) then
             Some (''instance_unreachable'', op @ '' came back to '' @ dd_self deps)
           else None))"

text \<open>Steps 2 to 7.\<close>

definition dispatch_op :: "op_contract \<Rightarrow> 'w dispatch_deps \<Rightarrow> op_attrs \<Rightarrow> string \<Rightarrow> string \<Rightarrow>
    (string \<times> json) list \<Rightarrow> conn_identity \<Rightarrow> 'w \<Rightarrow> dispatch_result \<times> 'w" where
  "dispatch_op oc deps attrs op rid members identity w =
     (case dispatch_refusal oc deps attrs op members identity of
        Some (code, msg) \<Rightarrow> (failure (Some rid) code msg, w)
      | None \<Rightarrow>
          if oa_owner_instance attrs \<and> target_of deps op members \<noteq> None
             \<and> target_of deps op members \<noteq> Some (dd_self deps) then
            (DForward (the (target_of deps op members)) members, w)
          else run_handler deps attrs op rid members identity w)"

definition dispatch :: "op_contract \<Rightarrow> 'w dispatch_deps \<Rightarrow> json \<Rightarrow> conn_identity \<Rightarrow> 'w \<Rightarrow>
    dispatch_result \<times> 'w" where
  "dispatch oc deps frame identity w =
     (case frame of
        JObj members \<Rightarrow>
          (case map_of members ''op'' of
             Some (JStr op) \<Rightarrow>
               (case request_id_of members of
                  None \<Rightarrow> (failure None ''bad_request'' ''a request must carry a request_id'', w)
                | Some rid \<Rightarrow>
                    (case OP_ATTRIBUTES oc op of
                       None \<Rightarrow> (failure (Some rid) ''unknown_op'' (''no such op: '' @ op), w)
                     | Some attrs \<Rightarrow> dispatch_op oc deps attrs op rid members identity w))
           | _ \<Rightarrow> (failure (request_id_of members) ''bad_request'' ''a request must carry an op name'', w))
      | _ \<Rightarrow> (failure None ''bad_request'' ''a request must be a JSON object'', w))"

section \<open>What dispatch promises\<close>

text \<open>The six steps as one predicate: what has to hold for an implementation to be reached.\<close>

definition may_run :: "op_contract \<Rightarrow> 'w dispatch_deps \<Rightarrow> (string \<times> json) list \<Rightarrow> conn_identity \<Rightarrow>
    string \<Rightarrow> string \<Rightarrow> op_attrs \<Rightarrow> bool" where
  "may_run oc deps members identity op rid attrs \<longleftrightarrow>
     map_of members ''op'' = Some (JStr op) \<and> request_id_of members = Some rid \<and>
     OP_ATTRIBUTES oc op = Some attrs \<and> validationErrors oc op members = [] \<and> \<not> oa_http attrs \<and>
     (oa_needs_hello attrs \<longrightarrow> identity \<noteq> Anonymous) \<and>
     (\<forall>r. identity_role identity = Some r \<longrightarrow> isRoleAllowed oc op r) \<and>
     (\<forall>c. oa_capability attrs = Some c \<longrightarrow> c \<in> set (dd_capabilities deps)) \<and>
     JStr (dd_self deps) \<notin> set (hops_of members)"

text \<open>Where an op whose subject belongs to another instance goes.\<close>

definition elsewhere :: "'w dispatch_deps \<Rightarrow> (string \<times> json) list \<Rightarrow> string \<Rightarrow> op_attrs \<Rightarrow> instance_id option" where
  "elsewhere deps members op attrs =
     (if oa_owner_instance attrs \<and> target_of deps op members \<noteq> Some (dd_self deps)
      then target_of deps op members else None)"

lemma dispatch_refusal_None:
  "dispatch_refusal oc deps attrs op members identity = None \<longleftrightarrow>
     validationErrors oc op members = [] \<and> \<not> oa_http attrs \<and>
     (oa_needs_hello attrs \<longrightarrow> identity \<noteq> Anonymous) \<and>
     (\<forall>r. identity_role identity = Some r \<longrightarrow> isRoleAllowed oc op r) \<and>
     (\<forall>c. oa_capability attrs = Some c \<longrightarrow> c \<in> set (dd_capabilities deps)) \<and>
     JStr (dd_self deps) \<notin> set (hops_of members)"
  by (simp add: dispatch_refusal_def split: option.splits)

lemma dispatch_op_runs:
  assumes "may_run oc deps members identity op rid attrs"
  shows "dispatch_op oc deps attrs op rid members identity w =
    (case elsewhere deps members op attrs of
       Some t \<Rightarrow> (DForward t members, w)
     | None \<Rightarrow> run_handler deps attrs op rid members identity w)"
proof -
  from assms have "dispatch_refusal oc deps attrs op members identity = None"
    unfolding may_run_def dispatch_refusal_None by blast
  then show ?thesis by (cases "target_of deps op members") (simp_all add: dispatch_op_def elsewhere_def)
qed

lemma dispatch_op_refuses:
  assumes "map_of members ''op'' = Some (JStr op)" "request_id_of members = Some rid"
    "OP_ATTRIBUTES oc op = Some attrs" "\<not> may_run oc deps members identity op rid attrs"
  shows "\<exists>code msg. dispatch_op oc deps attrs op rid members identity w = (failure (Some rid) code msg, w)"
proof -
  from assms have "dispatch_refusal oc deps attrs op members identity \<noteq> None"
    unfolding may_run_def dispatch_refusal_None by blast
  then obtain code msg where "dispatch_refusal oc deps attrs op members identity = Some (code, msg)"
    by auto
  then have "dispatch_op oc deps attrs op rid members identity w = (failure (Some rid) code msg, w)"
    by (simp add: dispatch_op_def)
  then show ?thesis by blast
qed

lemma failure_ex [simp]: "\<exists>rid code msg. failure r c m = failure rid code msg"
  by blast

lemma dispatch_cases:
  "(\<exists>members op rid attrs. frame = JObj members \<and> may_run oc deps members identity op rid attrs \<and>
      dispatch oc deps frame identity w =
        (case elsewhere deps members op attrs of
           Some t \<Rightarrow> (DForward t members, w)
         | None \<Rightarrow> run_handler deps attrs op rid members identity w))
   \<or> (\<exists>rid code msg. dispatch oc deps frame identity w = (failure rid code msg, w))"
proof (cases frame)
  case (JObj members)
  show ?thesis
  proof (cases "\<exists>op rid attrs. map_of members ''op'' = Some (JStr op) \<and>
      request_id_of members = Some rid \<and> OP_ATTRIBUTES oc op = Some attrs")
    case True
    then obtain op rid attrs where h: "map_of members ''op'' = Some (JStr op)"
      "request_id_of members = Some rid" "OP_ATTRIBUTES oc op = Some attrs" by blast
    then have d: "dispatch oc deps frame identity w = dispatch_op oc deps attrs op rid members identity w"
      by (simp add: dispatch_def JObj)
    show ?thesis
    proof (cases "may_run oc deps members identity op rid attrs")
      case True
      then show ?thesis using dispatch_op_runs [OF True, of w] d JObj
        by (intro disjI1 exI [of _ members] exI [of _ op] exI [of _ rid] exI [of _ attrs]) simp
    next
      case False
      then show ?thesis using dispatch_op_refuses [OF h False, of w] d by metis
    qed
  next
    case False
    then show ?thesis
      by (intro disjI2) (auto simp: dispatch_def JObj split: option.splits json.splits)
  qed
qed (simp_all add: dispatch_def)

text \<open>
  C6: nothing reaches an implementation that the contract's tables do not allow. Whenever
  dispatch changes anything, or answers with a reply, the frame is an object naming an op of
  the contract and a request id, its arguments passed the op's schema, the op is one a
  connection may carry, the greeting it needs was made, the role is one it admits, the
  capability it declares is there, the request has not been here before and its subject is
  not another instance's.
\<close>

theorem dispatch_runs_only_what_is_allowed:
  assumes "dispatch oc deps frame identity w = (result, w')"
    and "w' \<noteq> w \<or> (\<exists>body. result = DReply body)"
  shows "\<exists>members op rid attrs. frame = JObj members \<and> may_run oc deps members identity op rid attrs
       \<and> elsewhere deps members op attrs = None
       \<and> (result, w') = run_handler deps attrs op rid members identity w"
  using dispatch_cases [of frame oc deps identity w]
proof (elim disjE exE conjE)
  fix members op rid attrs
  assume "frame = JObj members" "may_run oc deps members identity op rid attrs"
    "dispatch oc deps frame identity w =
        (case elsewhere deps members op attrs of
           Some t \<Rightarrow> (DForward t members, w)
         | None \<Rightarrow> run_handler deps attrs op rid members identity w)"
  then show ?thesis using assms by (force split: option.splits)
next
  fix rid code msg
  assume "dispatch oc deps frame identity w = (failure rid code msg, w)"
  then show ?thesis using assms by (simp add: failure_def)
qed

text \<open>An instance of the parameters for the witnesses: one op open to sessions, answering with
  the number of times it ran.\<close>

definition ping_contract :: op_contract where
  "ping_contract =
     \<lparr>OP_ATTRIBUTES = (\<lambda>op. if op = ''ping'' then
          Some \<lparr>oa_http = False, oa_needs_hello = True, oa_capability = None,
                oa_owner_instance = True, oa_scope_role = False\<rparr> else None),
      validationErrors = (\<lambda>op members. []),
      isRoleAllowed = (\<lambda>op r. r = Session)\<rparr>"

definition ping_deps :: "nat dispatch_deps" where
  "ping_deps =
     \<lparr>dd_self = ''i'', dd_capabilities = [], dd_resolveInstance = (\<lambda>op members. None),
      dd_handlers = (\<lambda>op input n. (HReturn None, Suc n))\<rparr>"

definition ping_frame :: "(string \<times> json) list" where
  "ping_frame = [(''op'', JStr ''ping''), (''request_id'', JStr ''r'')]"

lemma ping_dispatch:
  "dispatch ping_contract ping_deps (JObj ping_frame) (Settled Session (Some ''s'')) 0 =
     (DReply [(''ok'', JBool True), (''request_id'', JStr ''r'')], 1)"
  by (simp add: dispatch_def dispatch_op_def dispatch_refusal_def ping_contract_def ping_deps_def ping_frame_def
      request_id_of_def run_handler_def identity_role_def reply_def hops_of_def target_of_def handler_input_of_def)

theorem dispatch_runs_only_what_is_allowed_witness:
  "\<exists>op rid attrs. may_run ping_contract ping_deps ping_frame (Settled Session (Some ''s'')) op rid attrs"
  using dispatch_runs_only_what_is_allowed [OF ping_dispatch] by auto

definition body_fields :: "json option \<Rightarrow> (string \<times> json) list" where
  "body_fields body =
     (case body of Some (JObj members) \<Rightarrow> members
                 | Some (JArr js) \<Rightarrow> zip (map show_nat [0..<length js]) js
                 | _ \<Rightarrow> [])"

lemma map_of_spread:
  "map_of (foldl (\<lambda>r (k, v). map_set k v r) acc xs) k =
     (if k \<in> fst ` set xs then map_of (rev xs) k else map_of acc k)"
proof (induction xs arbitrary: acc)
  case Nil
  then show ?case by simp
next
  case (Cons x xs)
  obtain k0 v0 where x: "x = (k0, v0)" by (cases x)
  have "k \<in> fst ` set xs \<longleftrightarrow> map_of (rev xs) k \<noteq> None"
    by (auto simp: map_of_eq_None_iff)
  with Cons.IH show ?case by (auto simp: x map_add_def split: option.splits)
qed

lemma reply_fields: "reply rid body = DReply (foldl (\<lambda>r (k, v). map_set k v r)
    [(''ok'', JBool True), (''request_id'', JStr rid)] (body_fields body))"
  by (simp add: reply_def body_fields_def)

text \<open>
  Every request that names itself is answered under its own name. When the frame is an
  object carrying a non-empty \<open>request_id\<close> and dispatch answers with an error, the error
  carries that id; when it replies, the reply carries that id and \<open>ok: true\<close> unless the body
  of the implementation states those members itself.
\<close>

theorem dispatch_answers_under_its_request_id:
  assumes "frame = JObj members" and "request_id_of members = Some rid"
    and "dispatch oc deps frame identity w = (result, w')"
  shows "(\<forall>e. result = DError e \<longrightarrow> er_request_id e = Some rid)
       \<and> (\<forall>b. result = DReply b \<longrightarrow>
            (\<exists>op attrs body. dd_handlers deps op (handler_input_of attrs op members identity) w = (HReturn body, w')
               \<and> (''ok'' \<notin> fst ` set (body_fields body) \<longrightarrow> map_of b ''ok'' = Some (JBool True))
               \<and> (''request_id'' \<notin> fst ` set (body_fields body) \<longrightarrow>
                    map_of b ''request_id'' = Some (JStr rid))))"
    (is "?P result w'")
proof -
  have run: "?P (fst (run_handler deps attrs op rid members identity w))
      (snd (run_handler deps attrs op rid members identity w))" for op attrs
  proof (cases "dd_handlers deps op (handler_input_of attrs op members identity) w")
    case (Pair outcome w1)
    then show ?thesis
      by (cases outcome)
         (auto simp: run_handler_def failure_def reply_fields map_of_spread intro!: exI)
  qed
  show ?thesis
  proof (cases "\<exists>op attrs. map_of members ''op'' = Some (JStr op) \<and> OP_ATTRIBUTES oc op = Some attrs")
    case True
    then obtain op attrs where h: "map_of members ''op'' = Some (JStr op)" "OP_ATTRIBUTES oc op = Some attrs"
      by blast
    then have d: "(result, w') = dispatch_op oc deps attrs op rid members identity w"
      using assms by (simp add: dispatch_def)
    show ?thesis
    proof (cases "may_run oc deps members identity op rid attrs")
      case True
      show ?thesis
      proof (cases "elsewhere deps members op attrs")
        case None
        with d True run [of attrs op] show ?thesis by (simp add: dispatch_op_runs) (metis fst_conv snd_conv)
      next
        case (Some t)
        with d True show ?thesis by (simp add: dispatch_op_runs)
      qed
    next
      case False
      with d dispatch_op_refuses [OF h(1) assms(2) h(2) False, of w] show ?thesis
        by (auto simp: failure_def)
    qed
  next
    case False
    with assms show ?thesis
      by (auto simp: dispatch_def failure_def split: option.splits json.splits)
  qed
qed

theorem dispatch_answers_under_its_request_id_witness:
  "map_of [(''ok'', JBool True), (''request_id'', JStr ''r'')] ''request_id'' = Some (JStr ''r'')
   \<and> (\<exists>op attrs body. dd_handlers ping_deps op
        (handler_input_of attrs op ping_frame (Settled Session (Some ''s''))) 0 = (HReturn body, 1))"
  using dispatch_answers_under_its_request_id [OF refl _ ping_dispatch, of "''r''"]
  by (auto simp: ping_frame_def request_id_of_def)

text \<open>
  A request is never sent round a cycle of instances. A frame dispatch forwards goes to
  another instance, is handed on unchanged, and is one that has not passed through this
  instance before.
\<close>

theorem dispatch_forward_breaks_cycles:
  assumes "dispatch oc deps frame identity w = (DForward t members, w')"
  shows "frame = JObj members \<and> w' = w \<and> t \<noteq> dd_self deps
       \<and> JStr (dd_self deps) \<notin> set (hops_of members)"
  using dispatch_cases [of frame oc deps identity w]
proof (elim disjE exE conjE)
  fix ms op rid attrs
  assume ms: "frame = JObj ms" "may_run oc deps ms identity op rid attrs"
    "dispatch oc deps frame identity w =
        (case elsewhere deps ms op attrs of
           Some t \<Rightarrow> (DForward t ms, w)
         | None \<Rightarrow> run_handler deps attrs op rid ms identity w)"
  have no_run: "fst (run_handler deps attrs op rid ms identity w) \<noteq> DForward t members"
    by (auto simp: run_handler_def reply_def failure_def split: prod.splits handler_outcome.splits)
  show ?thesis
  proof (cases "elsewhere deps ms op attrs")
    case None
    with ms(3) assms no_run show ?thesis by (metis fst_conv option.simps(4))
  next
    case (Some t')
    then have "t' \<noteq> dd_self deps" by (auto simp: elsewhere_def split: if_splits)
    with Some ms assms show ?thesis by (auto simp: may_run_def)
  qed
next
  fix rid code msg
  assume "dispatch oc deps frame identity w = (failure rid code msg, w)"
  with assms show ?thesis by (simp add: failure_def)
qed

theorem dispatch_forward_breaks_cycles_witness:
  "(''j'' :: string) \<noteq> dd_self ping_deps"
proof -
  let ?m = "(''to_instance'', JStr ''j'') # ping_frame"
  have "dispatch ping_contract ping_deps (JObj ?m) (Settled Session (Some ''s'')) 0 = (DForward ''j'' ?m, 0)"
    by (simp add: dispatch_def dispatch_op_def dispatch_refusal_def ping_contract_def ping_deps_def ping_frame_def
        request_id_of_def identity_role_def hops_of_def target_of_def)
  from dispatch_forward_breaks_cycles [OF this] show ?thesis by simp
qed

text \<open>
  An identity carried to another instance arrives as it was. Reading back the caller a
  forwarding instance states for a settled connection gives exactly that role and sid when
  the connection names a sid precisely if it is a session; any other combination is refused
  rather than trimmed, and an anonymous connection names nobody.
\<close>

theorem caller_roundtrip:
  assumes "callerOfIdentity identity = Some c"
  shows "callerOf (JObj ((''caller'', caller_json c) # rest)) =
    (if (ci_role c = Session) = (ci_sid c \<noteq> None) then Caller c
     else CallerError ''a caller carries a sid when, and only when, it is a session'')"
  by (cases "ci_role c"; cases "ci_sid c")
     (auto simp: callerOf_def caller_json_def role_of_name_def)

theorem caller_roundtrip_witness:
  "callerOf (JObj [(''caller'', caller_json \<lparr>ci_role = Session, ci_sid = Some ''s''\<rparr>)]) =
     Caller \<lparr>ci_role = Session, ci_sid = Some ''s''\<rparr>"
  using caller_roundtrip [of "Settled Session (Some ''s'')" "\<lparr>ci_role = Session, ci_sid = Some ''s''\<rparr>" "[]"]
  by (simp add: callerOfIdentity_def)

end
