(* ===== verification/Utf8.thy ===== *)
theory Utf8
  imports Prelude
begin

text \<open>
  The two text codecs of the platform as the sources use them: \<open>new TextDecoder().decode(bytes)\<close>
  (UTF-8, malformed input replaced by U+FFFD one maximal part at a time, a leading byte order
  mark dropped) and \<open>new TextEncoder().encode(text)\<close>, with \<open>String.prototype.trim\<close>'s notion
  of white space. A byte is a natural number below 256, a text is a list of code points.
\<close>

type_synonym byte = nat
type_synonym text_cp = "nat list"

section \<open>Decoding\<close>

text \<open>\<open>need\<close> continuation bytes are still due, \<open>cp\<close> is the code point read so far and
  \<open>lo\<close>/\<open>hi\<close> bound the next continuation byte.\<close>

function utf8_run :: "nat \<Rightarrow> nat \<Rightarrow> nat \<Rightarrow> nat \<Rightarrow> byte list \<Rightarrow> text_cp" where
  "utf8_run need cp lo hi [] = (if need = 0 then [] else [0xFFFD])"
| "utf8_run 0 cp lo hi (b # bs) =
     (if b < 0x80 then b # utf8_run 0 0 0x80 0xBF bs
      else if 0xC2 \<le> b \<and> b \<le> 0xDF then utf8_run 1 (b - 0xC0) 0x80 0xBF bs
      else if 0xE0 \<le> b \<and> b \<le> 0xEF
      then utf8_run 2 (b - 0xE0) (if b = 0xE0 then 0xA0 else 0x80) (if b = 0xED then 0x9F else 0xBF) bs
      else if 0xF0 \<le> b \<and> b \<le> 0xF4
      then utf8_run 3 (b - 0xF0) (if b = 0xF0 then 0x90 else 0x80) (if b = 0xF4 then 0x8F else 0xBF) bs
      else 0xFFFD # utf8_run 0 0 0x80 0xBF bs)"
| "utf8_run (Suc n) cp lo hi (b # bs) =
     (if b < lo \<or> hi < b then 0xFFFD # utf8_run 0 0 0x80 0xBF (b # bs)
      else if n = 0 then (cp * 64 + (b - 0x80)) # utf8_run 0 0 0x80 0xBF bs
      else utf8_run n (cp * 64 + (b - 0x80)) 0x80 0xBF bs)"
  by pat_completeness auto
termination
  by (relation "measure (\<lambda>(need, cp, lo, hi, bs). 2 * length bs + (if need = 0 then 0 else 1))") auto

definition utf8_decode :: "byte list \<Rightarrow> text_cp" where
  "utf8_decode bs =
     (let bs' = (if take 3 bs = [0xEF, 0xBB, 0xBF] then drop 3 bs else bs)
      in utf8_run 0 0 0x80 0xBF bs')"

section \<open>Encoding\<close>

definition scalar :: "nat \<Rightarrow> bool" where
  "scalar c \<longleftrightarrow> c \<le> 0x10FFFF \<and> \<not> (0xD800 \<le> c \<and> c \<le> 0xDFFF)"

definition utf8_char :: "nat \<Rightarrow> byte list" where
  "utf8_char c =
     (if c < 0x80 then [c]
      else if c < 0x800 then [0xC0 + c div 64, 0x80 + c mod 64]
      else if c < 0x10000 then [0xE0 + c div 4096, 0x80 + c div 64 mod 64, 0x80 + c mod 64]
      else [0xF0 + c div 262144, 0x80 + c div 4096 mod 64, 0x80 + c div 64 mod 64, 0x80 + c mod 64])"

definition utf8_encode :: "text_cp \<Rightarrow> byte list" where
  "utf8_encode t = concat (map utf8_char t)"

section \<open>White space\<close>

definition js_space :: "nat \<Rightarrow> bool" where
  "js_space c \<longleftrightarrow> (0x09 \<le> c \<and> c \<le> 0x0D) \<or> c = 0x20 \<or> c = 0xA0 \<or> c = 0x1680 \<or>
     (0x2000 \<le> c \<and> c \<le> 0x200A) \<or> c = 0x2028 \<or> c = 0x2029 \<or> c = 0x202F \<or> c = 0x205F \<or>
     c = 0x3000 \<or> c = 0xFEFF"

definition js_trim :: "text_cp \<Rightarrow> text_cp" where
  "js_trim t = rev (dropWhile js_space (rev (dropWhile js_space t)))"

section \<open>The round trip\<close>

lemma js_trim_eq_Nil: "js_trim t = [] \<longleftrightarrow> (\<forall>c \<in> set t. js_space c)"
proof -
  have "js_trim t = [] \<longleftrightarrow> (\<forall>c \<in> set (dropWhile js_space t). js_space c)"
    by (simp add: js_trim_def dropWhile_eq_Nil_conv)
  also have "\<dots> \<longleftrightarrow> (\<forall>c \<in> set t. js_space c)"
    by (metis dropWhile_eq_Nil_conv hd_dropWhile list.set_sel(1) set_dropWhileD)
  finally show ?thesis .
qed

lemma utf8_encode_simps [simp]:
  "utf8_encode [] = []"
  "utf8_encode (c # t) = utf8_char c @ utf8_encode t"
  "utf8_encode (s @ t) = utf8_encode s @ utf8_encode t"
  by (simp_all add: utf8_encode_def)

lemma utf8_run_next:
  "lo \<le> b \<Longrightarrow> b \<le> hi \<Longrightarrow>
     utf8_run 1 cp lo hi (b # bs) = (cp * 64 + (b - 0x80)) # utf8_run 0 0 0x80 0xBF bs"
  "lo \<le> b \<Longrightarrow> b \<le> hi \<Longrightarrow> utf8_run 2 cp lo hi (b # bs) = utf8_run 1 (cp * 64 + (b - 0x80)) 0x80 0xBF bs"
  "lo \<le> b \<Longrightarrow> b \<le> hi \<Longrightarrow> utf8_run 3 cp lo hi (b # bs) = utf8_run 2 (cp * 64 + (b - 0x80)) 0x80 0xBF bs"
  using utf8_run.simps(3) [of 0 cp lo hi b bs] utf8_run.simps(3) [of 1 cp lo hi b bs]
    utf8_run.simps(3) [of 2 cp lo hi b bs]
  by (simp_all add: numeral_2_eq_2 numeral_3_eq_3)

lemma digits64_sum: "(c::nat) = 4096 * (c div 4096) + 64 * (c div 64 mod 64) + c mod 64"
proof -
  have "c div 4096 = c div 64 div 64" by (simp flip: div_mult2_eq)
  then have "c div 64 = 64 * (c div 4096) + c div 64 mod 64" by simp
  moreover have "c = 64 * (c div 64) + c mod 64" by simp
  ultimately show ?thesis by linarith
qed

lemma digits64:
  obtains x y z where "(c::nat) div 4096 = x" "c div 64 mod 64 = y" "c mod 64 = z"
    "y < 64" "z < 64" "c = 4096 * x + 64 * y + z"
  by (rule that [OF refl refl refl _ _ digits64_sum]) auto

lemma utf8_run_char2:
  assumes "0x80 \<le> c" "c < 0x800"
  shows "utf8_run 0 cp lo hi (utf8_char c @ bs) = c # utf8_run 0 0 0x80 0xBF bs"
proof -
  have b: "2 \<le> c div 64" "c div 64 \<le> 31" "c mod 64 < 64" using assms by auto
  have "utf8_run 0 cp lo hi ((0xC0 + c div 64) # (0x80 + c mod 64) # bs) =
        utf8_run 1 (c div 64) 0x80 0xBF ((0x80 + c mod 64) # bs)"
    using b by simp
  also have "\<dots> = (c div 64 * 64 + c mod 64) # utf8_run 0 0 0x80 0xBF bs"
    using b by (simp add: utf8_run_next(1))
  finally show ?thesis using assms by (simp add: utf8_char_def)
qed

lemma utf8_run_char3:
  assumes "scalar c" "0x800 \<le> c" "c < 0x10000"
  shows "utf8_run 0 cp lo hi (utf8_char c @ bs) = c # utf8_run 0 0 0x80 0xBF bs"
proof -
  obtain x y z where d: "c div 4096 = x" "c div 64 mod 64 = y" "c mod 64 = z"
    "y < 64" "z < 64" "c = 4096 * x + 64 * y + z" by (rule digits64)
  have x: "x \<le> 15" "x = 0 \<Longrightarrow> 32 \<le> y" "x = 13 \<Longrightarrow> y \<le> 31"
    using assms d(4-6) by (auto simp: scalar_def)
  have char: "utf8_char c = [0xE0 + x, 0x80 + y, 0x80 + z]"
    using assms(2,3) by (simp add: utf8_char_def d(1-3))
  have "utf8_run 0 cp lo hi ((0xE0 + x) # (0x80 + y) # (0x80 + z) # bs) =
        utf8_run 2 x (if x = 0 then 0xA0 else 0x80) (if x = 13 then 0x9F else 0xBF) ((0x80 + y) # (0x80 + z) # bs)"
    using x(1) by simp
  also have "\<dots> = utf8_run 1 (x * 64 + y) 0x80 0xBF ((0x80 + z) # bs)"
    using x d(4) by (subst utf8_run_next(2)) auto
  also have "\<dots> = ((x * 64 + y) * 64 + z) # utf8_run 0 0 0x80 0xBF bs"
    using d(5) by (simp add: utf8_run_next(1))
  also have "(x * 64 + y) * 64 + z = c" using d(6) by simp
  finally show ?thesis by (simp only: char append.simps)
qed

lemma utf8_run_char4:
  assumes "scalar c" "0x10000 \<le> c"
  shows "utf8_run 0 cp lo hi (utf8_char c @ bs) = c # utf8_run 0 0 0x80 0xBF bs"
proof -
  obtain v y z where d: "c div 4096 = v" "c div 64 mod 64 = y" "c mod 64 = z"
    "y < 64" "z < 64" "c = 4096 * v + 64 * y + z" by (rule digits64)
  define w x where "w = v div 64" and "x = v mod 64"
  have v: "v = 64 * w + x" "x < 64" by (simp_all add: w_def x_def)
  have w': "c div 262144 = w" using d(1) by (simp add: w_def flip: d(1) div_mult2_eq)
  have w: "w \<le> 4" "w = 0 \<Longrightarrow> 16 \<le> x" "w = 4 \<Longrightarrow> x \<le> 15"
    using assms d(4-6) v by (auto simp: scalar_def)
  have char: "utf8_char c = [0xF0 + w, 0x80 + x, 0x80 + y, 0x80 + z]"
    using assms(2) by (simp add: utf8_char_def w' d(1-3) x_def)
  have "utf8_run 0 cp lo hi ((0xF0 + w) # (0x80 + x) # (0x80 + y) # (0x80 + z) # bs) =
        utf8_run 3 w (if w = 0 then 0x90 else 0x80) (if w = 4 then 0x8F else 0xBF)
          ((0x80 + x) # (0x80 + y) # (0x80 + z) # bs)"
    using w(1) by simp
  also have "\<dots> = utf8_run 2 (w * 64 + x) 0x80 0xBF ((0x80 + y) # (0x80 + z) # bs)"
    using w v(2) by (subst utf8_run_next(3)) auto
  also have "\<dots> = utf8_run 1 ((w * 64 + x) * 64 + y) 0x80 0xBF ((0x80 + z) # bs)"
    using d(4) by (simp add: utf8_run_next(2))
  also have "\<dots> = (((w * 64 + x) * 64 + y) * 64 + z) # utf8_run 0 0 0x80 0xBF bs"
    using d(5) by (simp add: utf8_run_next(1))
  also have "((w * 64 + x) * 64 + y) * 64 + z = c" using d(6) v(1) by simp
  finally show ?thesis by (simp only: char append.simps)
qed

lemma utf8_run_char:
  assumes "scalar c"
  shows "utf8_run 0 cp lo hi (utf8_char c @ bs) = c # utf8_run 0 0 0x80 0xBF bs"
proof -
  consider "c < 0x80" | "0x80 \<le> c" "c < 0x800" | "0x800 \<le> c" "c < 0x10000" | "0x10000 \<le> c"
    by linarith
  then show ?thesis
    by cases (use assms in \<open>simp_all add: utf8_run_char2 utf8_run_char3 utf8_run_char4\<close>,
      simp add: utf8_char_def)
qed

lemma utf8_run_encode:
  "\<forall>c \<in> set t. scalar c \<Longrightarrow> utf8_run 0 cp lo hi (utf8_encode t) = t"
  by (induction t arbitrary: cp lo hi) (simp_all add: utf8_run_char)

lemma utf8_char_first:
  "scalar c \<Longrightarrow> c \<noteq> 0xFEFF \<Longrightarrow> take 3 (utf8_char c @ bs) \<noteq> [0xEF, 0xBB, 0xBF]"
proof
  assume c: "scalar c" "c \<noteq> 0xFEFF" and t: "take 3 (utf8_char c @ bs) = [0xEF, 0xBB, 0xBF]"
  then have "\<not> c < 0x80" "\<not> c < 0x800" "c < 0x10000"
    by (auto simp: utf8_char_def scalar_def split: if_splits)
  with t have "c div 4096 = 15" "c div 64 mod 64 = 59" "c mod 64 = 63"
    by (auto simp: utf8_char_def)
  then have "c = 0xFEFF" using digits64_sum [of c] by simp
  with c(2) show False by simp
qed

lemma utf8_decode_encode:
  assumes "\<forall>c \<in> set t. scalar c" and "t = [] \<or> hd t \<noteq> 0xFEFF"
  shows "utf8_decode (utf8_encode t) = t"
proof -
  have "take 3 (utf8_encode t) \<noteq> [0xEF, 0xBB, 0xBF]"
    using assms utf8_char_first by (cases t) (auto simp del: take_append)
  then show ?thesis using assms(1) by (simp add: utf8_decode_def utf8_run_encode Let_def)
qed

text \<open>No byte of an encoded text is a newline unless the text holds one.\<close>

lemma utf8_char_newline: "c \<noteq> 10 \<Longrightarrow> 10 \<notin> set (utf8_char c)"
  by (auto simp: utf8_char_def)

lemma utf8_encode_newline: "10 \<notin> set t \<Longrightarrow> 10 \<notin> set (utf8_encode t)"
  by (induction t) (auto dest: utf8_char_newline)

end
