(* ===== verification/Framing.thy ===== *)
theory Framing
  imports Utf8
begin

text \<open>
  Newline-delimited framing, \<open>src/transport/framing.ts\<close>, and the two socket adaptors that feed
  its write queue (\<open>src/transport/uds.ts\<close>, \<open>src/transport/ws.ts\<close>).

  \<open>LineReader\<close> is a record and a push function that answers the sink events in order.
  \<open>WriteQueue\<close> drains its pending chunks through a sink; what a sink owes the queue is the
  locale \<open>chunk_sink\<close>, and both adaptors provide it, over a socket that answers each write
  with whatever the platform decides (the remaining script of its answers is part of the
  socket's state).
\<close>

section \<open>LineReader\<close>

definition NEWLINE :: byte where
  "NEWLINE = 0x0a"

datatype sink_event = Line text_cp | Overflow nat

record line_reader =
  lr_buffer :: "byte list"
  lr_discarding :: bool
  lr_discarded :: nat

definition lr_init :: line_reader where
  "lr_init = \<lparr>lr_buffer = [], lr_discarding = False, lr_discarded = 0\<rparr>"

text \<open>\<open>bytes.indexOf(b)\<close>, \<open>None\<close> for a negative answer.\<close>

fun index_of :: "'a \<Rightarrow> 'a list \<Rightarrow> nat option" where
  "index_of x [] = None"
| "index_of x (y # ys) = (if x = y then Some 0 else map_option Suc (index_of x ys))"

lemma index_of_None: "index_of x ys = None \<longleftrightarrow> x \<notin> set ys"
  by (induction ys) auto

lemma index_of_Some:
  "index_of x ys = Some i \<Longrightarrow> i < length ys \<and> ys = take i ys @ x # drop (Suc i) ys \<and> x \<notin> set (take i ys)"
  by (induction ys arbitrary: i) (auto split: if_splits)

definition lr_append :: "line_reader \<Rightarrow> byte list \<Rightarrow> line_reader" where
  "lr_append r bytes = r\<lparr>lr_buffer := lr_buffer r @ bytes\<rparr>"

definition lr_startDiscarding :: "line_reader \<Rightarrow> line_reader" where
  "lr_startDiscarding r =
     r\<lparr>lr_discarding := True, lr_discarded := length (lr_buffer r), lr_buffer := []\<rparr>"

function lr_push :: "contract \<Rightarrow> line_reader \<Rightarrow> byte list \<Rightarrow> line_reader \<times> sink_event list" where
  "lr_push ct r rest =
     (if rest = [] then (r, [])
      else if lr_discarding r then
        (case index_of NEWLINE rest of
           None \<Rightarrow> (r\<lparr>lr_discarded := lr_discarded r + length rest\<rparr>, [])
         | Some at \<Rightarrow>
             (let (r', evs) = lr_push ct (r\<lparr>lr_discarding := False, lr_discarded := 0\<rparr>) (drop (at + 1) rest)
              in (r', Overflow (lr_discarded r + at) # evs)))
      else
        (case index_of NEWLINE rest of
           None \<Rightarrow>
             (let r1 = lr_append r rest
              in (if length (lr_buffer r1) > MAX_FRAME_BYTES ct then lr_startDiscarding r1 else r1, []))
         | Some at \<Rightarrow>
             (let r1 = lr_append r (take at rest);
                  told = (if length (lr_buffer r1) > MAX_FRAME_BYTES ct
                          then [Overflow (length (lr_buffer r1))]
                          else let text = utf8_decode (lr_buffer r1)
                               in if js_trim text \<noteq> [] then [Line text] else []);
                  (r', evs) = lr_push ct (r1\<lparr>lr_buffer := []\<rparr>) (drop (at + 1) rest)
              in (r', told @ evs))))"
  by pat_completeness auto
termination
proof (relation "measure (\<lambda>(ct, r, rest). length rest)")
  show "wf (measure (\<lambda>(ct, r, rest). length rest))" by simp
qed (auto dest: index_of_Some)

declare lr_push.simps [simp del]

fun lr_run :: "contract \<Rightarrow> line_reader \<Rightarrow> byte list list \<Rightarrow> line_reader \<times> sink_event list" where
  "lr_run ct r [] = (r, [])"
| "lr_run ct r (c # cs) =
     (let (r1, evs) = lr_push ct r c; (r2, evs') = lr_run ct r1 cs in (r2, evs @ evs'))"

subsection \<open>What a stream of bytes says, however it is cut\<close>

text \<open>The specification: the stream cut at its newlines, one answer per complete line. The
  second component of \<open>cut_lines\<close> is the line that is not complete yet.\<close>

fun cut_lines :: "byte list \<Rightarrow> byte list \<Rightarrow> byte list list \<times> byte list" where
  "cut_lines acc [] = ([], acc)"
| "cut_lines acc (b # bs) =
     (if b = NEWLINE then (let (ls, p) = cut_lines [] bs in (acc # ls, p)) else cut_lines (acc @ [b]) bs)"

definition line_event :: "contract \<Rightarrow> byte list \<Rightarrow> sink_event list" where
  "line_event ct seg =
     (if length seg > MAX_FRAME_BYTES ct then [Overflow (length seg)]
      else if js_trim (utf8_decode seg) \<noteq> [] then [Line (utf8_decode seg)] else [])"

definition line_events :: "contract \<Rightarrow> byte list list \<Rightarrow> sink_event list" where
  "line_events ct ls = concat (map (line_event ct) ls)"

text \<open>How a reader stands for the incomplete line it has seen so far.\<close>

definition lr_holds :: "contract \<Rightarrow> line_reader \<Rightarrow> byte list \<Rightarrow> bool" where
  "lr_holds ct r seg \<longleftrightarrow>
     (if lr_discarding r
      then lr_buffer r = [] \<and> lr_discarded r = length seg \<and> length seg > MAX_FRAME_BYTES ct
      else lr_buffer r = seg \<and> lr_discarded r = 0 \<and> length seg \<le> MAX_FRAME_BYTES ct)"

lemma cut_lines_no_newline: "NEWLINE \<notin> set bs \<Longrightarrow> cut_lines acc bs = ([], acc @ bs)"
  by (induction bs arbitrary: acc) auto

lemma cut_lines_newline:
  "NEWLINE \<notin> set as \<Longrightarrow>
     cut_lines acc (as @ NEWLINE # bs) = (let (ls, p) = cut_lines [] bs in ((acc @ as) # ls, p))"
  by (induction as arbitrary: acc) (auto simp: Let_def split: prod.splits)

lemma cut_lines_append:
  "cut_lines acc (xs @ ys) =
     (let (ls, p) = cut_lines acc xs; (ls', p') = cut_lines p ys in (ls @ ls', p'))"
  by (induction xs arbitrary: acc) (auto simp: Let_def split: prod.splits)

lemma line_events_simps [simp]:
  "line_events ct [] = []"
  "line_events ct (l # ls) = line_event ct l @ line_events ct ls"
  "line_events ct (ls @ ls') = line_events ct ls @ line_events ct ls'"
  by (simp_all add: line_events_def)

lemma lr_init_holds: "lr_holds ct lr_init []"
  by (simp add: lr_holds_def lr_init_def)

lemma lr_push_correct:
  "lr_holds ct r seg \<Longrightarrow>
     lr_holds ct (fst (lr_push ct r rest)) (snd (cut_lines seg rest)) \<and>
     snd (lr_push ct r rest) = line_events ct (fst (cut_lines seg rest))"
proof (induction ct r rest arbitrary: seg rule: lr_push.induct)
  case (1 ct r rest)
  show ?case
  proof (cases "rest = []")
    case True
    with "1.prems" show ?thesis by (simp add: lr_push.simps)
  next
    case ne: False
    show ?thesis
    proof (cases "index_of NEWLINE rest")
      case None
      then have c: "cut_lines seg rest = ([], seg @ rest)" by (simp add: cut_lines_no_newline index_of_None)
      show ?thesis
        using "1.prems" ne None
        by (subst (1 2) lr_push.simps)
           (auto simp: c lr_holds_def lr_append_def lr_startDiscarding_def Let_def)
    next
      case (Some at)
      let ?line = "seg @ take at rest" and ?more = "drop (at + 1) rest"
      obtain ls p where more: "cut_lines [] ?more = (ls, p)" by fastforce
      have "cut_lines seg (take at rest @ NEWLINE # ?more) = (?line # ls, p)"
        using index_of_Some [OF Some, THEN conjunct2, THEN conjunct2]
        by (simp add: cut_lines_newline more [simplified])
      moreover have "rest = take at rest @ NEWLINE # ?more" using index_of_Some [OF Some] by simp
      ultimately have c: "cut_lines seg rest = (?line # ls, p)" by metis
      have at: "at < length rest" using index_of_Some [OF Some] by simp
      show ?thesis
      proof (cases "lr_discarding r")
        case True
        let ?r = "r\<lparr>lr_discarding := False, lr_discarded := 0\<rparr>"
        have "lr_holds ct ?r []" using "1.prems" True by (simp add: lr_holds_def)
        note IH = "1.IH"(1) [OF ne True Some this]
        show ?thesis
          using "1.prems" True IH ne Some at
          by (subst (1 2) lr_push.simps)
             (auto simp: c more [simplified] lr_holds_def line_event_def case_prod_beta)
      next
        case False
        let ?r = "lr_append r (take at rest)\<lparr>lr_buffer := []\<rparr>"
        have "lr_holds ct ?r []" using "1.prems" False by (simp add: lr_holds_def lr_append_def)
        note IH = "1.IH"(2) [OF ne False Some refl refl this]
        show ?thesis
          using "1.prems" False IH ne Some
          by (subst (1 2) lr_push.simps)
             (auto simp: c more [simplified] lr_holds_def line_event_def lr_append_def case_prod_beta Let_def)
      qed
    qed
  qed
qed

lemma lr_run_correct:
  "lr_holds ct r seg \<Longrightarrow>
     lr_holds ct (fst (lr_run ct r cs)) (snd (cut_lines seg (concat cs))) \<and>
     snd (lr_run ct r cs) = line_events ct (fst (cut_lines seg (concat cs)))"
proof (induction cs arbitrary: r seg)
  case Nil
  then show ?case by simp
next
  case (Cons c cs)
  note now = lr_push_correct [OF Cons.prems, of c]
  note later = Cons.IH [OF now [THEN conjunct1]]
  show ?case
    using now later by (simp add: cut_lines_append case_prod_beta Let_def)
qed


section \<open>WriteQueue\<close>

text \<open>What one \<open>sink.write\<close> answered: the whole chunk went, the rest of it was handed back, or
  the call threw.\<close>

datatype 'c written = Took | Left 'c | Threw

fun wq_drain :: "('s \<Rightarrow> 'c \<Rightarrow> 'c written \<times> 's) \<Rightarrow> 's \<Rightarrow> 'c list \<Rightarrow> 's \<times> 'c list" where
  "wq_drain put s [] = (s, [])"
| "wq_drain put s (chunk # pending) =
     (case put s chunk of
        (Threw, s') \<Rightarrow> (s', [])
      | (Left remainder, s') \<Rightarrow> (s', remainder # pending)
      | (Took, s') \<Rightarrow> wq_drain put s' pending)"

definition wq_push :: "('l \<Rightarrow> 'c) \<Rightarrow> ('s \<Rightarrow> 'c \<Rightarrow> 'c written \<times> 's) \<Rightarrow> 's \<times> 'c list \<Rightarrow> 'l \<Rightarrow> 's \<times> 'c list" where
  "wq_push encode put q line = wq_drain put (fst q) (snd q @ [encode line])"

text \<open>What happens to a queue: a line is pushed, or the socket reports it has room.\<close>

datatype 'l wq_event = WqPush 'l | WqDrain

fun wq_run :: "('l \<Rightarrow> 'c) \<Rightarrow> ('s \<Rightarrow> 'c \<Rightarrow> 'c written \<times> 's) \<Rightarrow> 's \<times> 'c list \<Rightarrow> 'l wq_event list \<Rightarrow> 's \<times> 'c list" where
  "wq_run encode put q [] = q"
| "wq_run encode put q (WqPush l # es) = wq_run encode put (wq_push encode put q l) es"
| "wq_run encode put q (WqDrain # es) = wq_run encode put (wq_drain put (fst q) (snd q)) es"

fun wq_lines :: "'l wq_event list \<Rightarrow> 'l list" where
  "wq_lines [] = []"
| "wq_lines (WqPush l # es) = l # wq_lines es"
| "wq_lines (WqDrain # es) = wq_lines es"

text \<open>What the queue relies on: a chunk that went is a chunk the socket took, a remainder is
  what is left of the chunk after the part it took, and a socket that is going away stays so.\<close>

locale chunk_sink =
  fixes put :: "'s \<Rightarrow> 'c \<Rightarrow> 'c written \<times> 's"
    and sent :: "'s \<Rightarrow> 'b list"
    and carries :: "'c \<Rightarrow> 'b list"
    and up :: "'s \<Rightarrow> bool"
  assumes took: "put s c = (Took, s') \<Longrightarrow> up s' \<Longrightarrow> sent s' = sent s @ carries c"
    and handed_back: "put s c = (Left r, s') \<Longrightarrow> \<exists>p. carries c = p @ carries r \<and> sent s' = sent s @ p"
    and threw: "put s c = (Threw, s') \<Longrightarrow> \<not> up s'"
    and going_away: "put s c = (w, s') \<Longrightarrow> up s' \<Longrightarrow> up s"
begin

definition outstanding :: "'s \<times> 'c list \<Rightarrow> 'b list" where
  "outstanding q = sent (fst q) @ concat (map carries (snd q))"

lemma drain_up: "up (fst (wq_drain put s cs)) \<Longrightarrow> up s"
proof (induction cs arbitrary: s)
  case Nil
  then show ?case by simp
next
  case (Cons c cs)
  obtain w s' where w: "put s c = (w, s')" by fastforce
  have "up s'" using Cons by (cases w) (auto simp: w)
  with w show ?case by (rule going_away)
qed

lemma drain_keeps: "up (fst (wq_drain put s cs)) \<Longrightarrow> outstanding (wq_drain put s cs) = outstanding (s, cs)"
proof (induction cs arbitrary: s)
  case Nil
  then show ?case by simp
next
  case (Cons c cs)
  obtain w s' where w: "put s c = (w, s')" by fastforce
  show ?case
  proof (cases w)
    case Took
    with Cons.prems have "up (fst (wq_drain put s' cs))" by (simp add: w)
    with Took w Cons.IH [OF this] took [of s c s'] drain_up [OF this] show ?thesis
      by (simp add: outstanding_def)
  next
    case (Left r)
    with w handed_back [of s c r s'] show ?thesis by (auto simp: outstanding_def)
  next
    case Threw
    with Cons.prems w threw show ?thesis by auto
  qed
qed

lemma run_up: "up (fst (wq_run encode put q es)) \<Longrightarrow> up (fst q)"
proof (induction es arbitrary: q)
  case Nil
  then show ?case by simp
next
  case (Cons e es)
  then show ?case
    by (cases e) (auto simp: wq_push_def intro: drain_up Cons.IH)
qed

lemma run_keeps:
  "up (fst (wq_run encode put q es)) \<Longrightarrow>
     outstanding (wq_run encode put q es) =
     outstanding q @ concat (map (carries \<circ> encode) (wq_lines es))"
proof (induction es arbitrary: q)
  case Nil
  then show ?case by simp
next
  case (Cons e es)
  show ?case
  proof (cases e)
    case (WqPush l)
    with Cons.prems have "up (fst (wq_run encode put (wq_push encode put q l) es))" by simp
    with run_up [OF this] Cons.IH [OF this] WqPush show ?thesis
      by (auto simp: wq_push_def drain_keeps) (simp add: outstanding_def)
  next
    case WqDrain
    with Cons.prems have "up (fst (wq_run encode put (wq_drain put (fst q) (snd q)) es))" by simp
    with run_up [OF this] Cons.IH [OF this] WqDrain show ?thesis
      by (simp add: drain_keeps)
  qed
qed

end

subsection \<open>The unix socket's sink\<close>

text \<open>A socket as its answers: what each coming \<open>socket.write\<close> returns (\<open>None\<close>: it throws),
  the bytes it took so far, and whether it has said it is going away. A count never exceeds
  the chunk it answers for; past the end of the script the buffer is full.\<close>

record uds_socket =
  us_answers :: "int option list"
  us_out :: "byte list"
  us_closing :: bool

definition uds_socket_write :: "uds_socket \<Rightarrow> byte list \<Rightarrow> int option \<times> uds_socket" where
  "uds_socket_write s chunk =
     (case us_answers s of
        [] \<Rightarrow> (Some 0, s)
      | None # as \<Rightarrow> (None, s\<lparr>us_answers := as, us_closing := True\<rparr>)
      | Some n # as \<Rightarrow>
          (let n' = min n (int (length chunk))
           in (Some n', s\<lparr>us_answers := as, us_out := us_out s @ take (nat n') chunk,
                          us_closing := us_closing s \<or> n' < 0\<rparr>)))"

definition uds_encode :: "text_cp \<Rightarrow> byte list" where
  "uds_encode line = utf8_encode line"

definition uds_write :: "uds_socket \<Rightarrow> byte list \<Rightarrow> byte list written \<times> uds_socket" where
  "uds_write s chunk =
     (case uds_socket_write s chunk of
        (None, s') \<Rightarrow> (Threw, s')
      | (Some n, s') \<Rightarrow>
          (if n < 0 then Took else if n = int (length chunk) then Took else Left (drop (nat n) chunk), s'))"

interpretation uds: chunk_sink uds_write us_out "\<lambda>c. c" "\<lambda>s. \<not> us_closing s"
proof
  fix s s' c
  show "uds_write s c = (Took, s') \<Longrightarrow> \<not> us_closing s' \<Longrightarrow> us_out s' = us_out s @ c"
    by (auto simp: uds_write_def uds_socket_write_def Let_def split: list.splits option.splits if_splits)
next
  fix s s' c r
  show "uds_write s c = (Left r, s') \<Longrightarrow> \<exists>p. c = p @ r \<and> us_out s' = us_out s @ p"
    by (auto simp: uds_write_def uds_socket_write_def Let_def split: list.splits option.splits if_splits)
next
  fix s s' c
  show "uds_write s c = (Threw, s') \<Longrightarrow> \<not> \<not> us_closing s'"
    by (auto simp: uds_write_def uds_socket_write_def Let_def split: list.splits option.splits if_splits)
next
  fix s s' c w
  show "uds_write s c = (w, s') \<Longrightarrow> \<not> us_closing s' \<Longrightarrow> \<not> us_closing s"
    by (auto simp: uds_write_def uds_socket_write_def Let_def split: list.splits option.splits if_splits)
qed

subsection \<open>The web socket's sink\<close>

record ws_socket =
  wss_answers :: "int option list"
  wss_messages :: "text_cp list"
  wss_closing :: bool

definition ws_socket_send :: "ws_socket \<Rightarrow> text_cp \<Rightarrow> int option \<times> ws_socket" where
  "ws_socket_send s chunk =
     (case wss_answers s of
        [] \<Rightarrow> (Some 0, s)
      | None # as \<Rightarrow> (None, s\<lparr>wss_answers := as, wss_closing := True\<rparr>)
      | Some n # as \<Rightarrow>
          (Some n, s\<lparr>wss_answers := as,
                     wss_messages := wss_messages s @ (if n = 0 then [] else [chunk])\<rparr>))"

definition ws_write :: "ws_socket \<Rightarrow> text_cp \<Rightarrow> text_cp written \<times> ws_socket" where
  "ws_write s chunk =
     (case ws_socket_send s chunk of
        (None, s') \<Rightarrow> (Threw, s')
      | (Some n, s') \<Rightarrow> (if n = 0 then Left chunk else Took, s'))"

interpretation ws: chunk_sink ws_write wss_messages "\<lambda>c. [c]" "\<lambda>s. \<not> wss_closing s"
  by unfold_locales
     (auto simp: ws_write_def ws_socket_send_def split: list.splits option.splits if_splits)

section \<open>Properties\<close>

text \<open>
  The reader answers for a byte stream as a whole, however the socket cut it into chunks.
  Whatever the chunks are, the events are one per line of their concatenation: \<open>overflow\<close>
  with the line's full length when it is longer than \<open>MAX_FRAME_BYTES\<close>, the decoded line when
  it is not blank, nothing otherwise; an oversized line costs that line and no other.
\<close>

theorem line_reader_chunking_irrelevant:
  "snd (lr_run ct lr_init chunks) = line_events ct (fst (cut_lines [] (concat chunks)))"
  using lr_run_correct [OF lr_init_holds] by blast

text \<open>
  The reader's memory is bounded. After any chunks its buffer holds at most
  \<open>MAX_FRAME_BYTES\<close> bytes, and while it is discarding it holds none.
\<close>

theorem line_reader_bounded:
  "length (lr_buffer (fst (lr_run ct lr_init chunks))) \<le> MAX_FRAME_BYTES ct"
  using lr_run_correct [OF lr_init_holds, of ct chunks]
  by (auto simp: lr_holds_def split: if_splits)

text \<open>
  A line queued behind a blocked one never overtakes it and nothing is sent twice. On the
  unix socket, for any sequence of pushes and drains and any pattern of short counts, as long
  as the socket is not going away, the bytes it took followed by the bytes still pending are
  exactly the lines in the order they were pushed; on the web socket the same holds message
  by message.
\<close>

theorem write_queue_fifo:
  assumes "\<not> us_closing (fst (wq_run uds_encode uds_write (s, []) es))"
    and "\<not> wss_closing (fst (wq_run (\<lambda>l. l) ws_write (w, []) fs))"
  shows "us_out (fst (wq_run uds_encode uds_write (s, []) es))
           @ concat (snd (wq_run uds_encode uds_write (s, []) es))
         = us_out s @ concat (map utf8_encode (wq_lines es))
       \<and> wss_messages (fst (wq_run (\<lambda>l. l) ws_write (w, []) fs))
           @ snd (wq_run (\<lambda>l. l) ws_write (w, []) fs)
         = wss_messages w @ wq_lines fs"
proof -
  have enc: "(\<lambda>c. c) \<circ> uds_encode = utf8_encode"
    by (rule ext) (simp add: uds_encode_def)
  have single: "concat (map (\<lambda>c. [c]) xs) = xs" for xs :: "text_cp list"
    by (induction xs) auto
  show ?thesis
    using uds.run_keeps [OF assms(1)] ws.run_keeps [OF assms(2)]
    by (simp add: uds.outstanding_def ws.outstanding_def enc [unfolded comp_def] comp_def single uds_encode_def)
qed

theorem write_queue_fifo_witness:
  "us_out (fst (wq_run uds_encode uds_write (\<lparr>us_answers = [Some 1], us_out = [], us_closing = False\<rparr>, [])
      [WqPush [104, 105], WqPush [106]])) = [104]"
  using write_queue_fifo [of "\<lparr>us_answers = [Some 1], us_out = [], us_closing = False\<rparr>"
      "[WqPush [104, 105], WqPush [106]]" "\<lparr>wss_answers = [], wss_messages = [], wss_closing = False\<rparr>" "[]"]
  by (simp add: wq_push_def uds_encode_def uds_write_def uds_socket_write_def utf8_char_def)

text \<open>The line a connection sends: the text and its newline.\<close>

definition sendable :: "contract \<Rightarrow> text_cp \<Rightarrow> bool" where
  "sendable ct t \<longleftrightarrow> (\<forall>c \<in> set t. scalar c) \<and> NEWLINE \<notin> set t \<and> hd t \<noteq> 0xFEFF
     \<and> js_trim t \<noteq> [] \<and> length (utf8_encode t) \<le> MAX_FRAME_BYTES ct"

lemma cut_lines_sent:
  "\<forall>t \<in> set ts. NEWLINE \<notin> set t \<Longrightarrow>
     cut_lines [] (concat (map (\<lambda>t. utf8_encode (t @ [NEWLINE])) ts)) = (map utf8_encode ts, [])"
proof (induction ts)
  case Nil
  then show ?case by simp
next
  case (Cons t ts)
  have "utf8_encode [NEWLINE] = [NEWLINE]" by (simp add: utf8_char_def NEWLINE_def)
  moreover have "NEWLINE \<notin> set (utf8_encode t)"
    using Cons.prems utf8_encode_newline [of t] by (simp add: NEWLINE_def)
  ultimately show ?case
    using Cons cut_lines_newline [of "utf8_encode t" "[]"] by (simp add: utf8_char_def NEWLINE_def)
qed

lemma line_event_sent: "sendable ct t \<Longrightarrow> line_event ct (utf8_encode t) = [Line t]"
  by (auto simp: sendable_def line_event_def utf8_decode_encode)

text \<open>
  What one side pushes is what the other side reads. When lines without a newline of
  their own, not blank and within the frame limit, are pushed on a unix socket that took
  everything and did not go away, any chunking of the bytes it took makes the reader at the
  other end answer with exactly those lines, in order, and nothing else.
\<close>

theorem line_transport_roundtrip:
  assumes "q = wq_run uds_encode uds_write (\<lparr>us_answers = as, us_out = [], us_closing = False\<rparr>, []) es"
    and "\<not> us_closing (fst q)" and "snd q = []"
    and "wq_lines es = map (\<lambda>t. t @ [NEWLINE]) ts" and "\<forall>t \<in> set ts. sendable ct t"
    and "concat chunks = us_out (fst q)"
  shows "snd (lr_run ct lr_init chunks) = map Line ts"
proof -
  have "us_out (fst q) = concat (map utf8_encode (wq_lines es))"
    using uds.run_keeps [of uds_encode "(\<lparr>us_answers = as, us_out = [], us_closing = False\<rparr>, [])" es]
      assms(1-3) by (simp add: uds.outstanding_def comp_def uds_encode_def)
  then have bytes: "concat chunks = concat (map (\<lambda>t. utf8_encode (t @ [NEWLINE])) ts)"
    using assms(4,6) by (simp add: comp_def)
  have "line_events ct (map utf8_encode ts) = map Line ts"
    using assms(5) by (induction ts) (simp_all add: line_event_sent)
  then show ?thesis
    using lr_run_correct [OF lr_init_holds, of ct chunks] cut_lines_sent [of ts] assms(5)
    by (simp add: bytes sendable_def)
qed

theorem line_transport_roundtrip_witness:
  "snd (lr_run example_contract lr_init [[0x68, 0xC3], [0xA9, 0x0A]]) = [Line [0x68, 0xE9]]"
  using line_transport_roundtrip [of _ "[Some 2, Some 2]" "[WqPush [0x68, 0xE9, NEWLINE], WqDrain]"
      "[[0x68, 0xE9]]" example_contract "[[0x68, 0xC3], [0xA9, 0x0A]]"]
  by (simp add: wq_push_def uds_encode_def uds_write_def uds_socket_write_def utf8_char_def Let_def
      NEWLINE_def sendable_def scalar_def js_trim_eq_Nil js_space_def example_contract_def)

end
