(* ===== verification/Transport.thy ===== *)
theory Transport
  imports Dispatch Framing
begin

text \<open>
  \<open>src/transport\<close>: a connection as the layers above see it (\<open>conn.ts\<close>), the driver that turns
  a line into a frame and answers it (\<open>driver.ts\<close>), the two listeners around them (\<open>uds.ts\<close>,
  \<open>ws.ts\<close>) and the order addresses are released in (\<open>listener.ts\<close>).

  \<open>handle\<close> answers with a promise, so what a line starts and what its answer does are two
  steps, and the steps of several requests of one connection interleave: a run of the driver is
  a list of \<open>driver_event\<close>s. \<open>JSON.parse\<close> and the contract's \<open>isHelloOp\<close> and
  \<open>helloRole\<close> are arguments.
\<close>

section \<open>conn.ts\<close>

text \<open>What a connection asked of its socket, and the frames it wrote there: \<open>send\<close> hands the
  socket \<open>JSON.stringify(frame)\<close> and a newline, so one frame is one line.\<close>

datatype socket_call = SocketSend json | SocketClose

record 'l conn =
  cn_id :: nat
  cn_identity :: conn_identity
  cn_closed :: bool
  cn_listeners :: "'l list"
  cn_deferred :: "json list"
  cn_socket :: "socket_call list"
  cn_ran :: "'l list"

definition BaseConn :: "nat \<Rightarrow> 'l conn" where
  "BaseConn i = \<lparr>cn_id = i, cn_identity = Anonymous, cn_closed = False, cn_listeners = [],
     cn_deferred = [], cn_socket = [], cn_ran = []\<rparr>"

definition conn_settle :: "role \<Rightarrow> sid option \<Rightarrow> 'l conn \<Rightarrow> 'l conn" where
  "conn_settle r s c = c\<lparr>cn_identity := Settled r s\<rparr>"

definition conn_send :: "json \<Rightarrow> 'l conn \<Rightarrow> 'l conn" where
  "conn_send frame c =
     (if cn_closed c then c else c\<lparr>cn_socket := cn_socket c @ [SocketSend frame]\<rparr>)"

definition conn_deferSend :: "json \<Rightarrow> 'l conn \<Rightarrow> 'l conn" where
  "conn_deferSend frame c = c\<lparr>cn_deferred := cn_deferred c @ [frame]\<rparr>"

definition conn_flushDeferred :: "'l conn \<Rightarrow> 'l conn" where
  "conn_flushDeferred c = fold conn_send (cn_deferred c) (c\<lparr>cn_deferred := []\<rparr>)"

definition conn_close :: "'l conn \<Rightarrow> 'l conn" where
  "conn_close c = c\<lparr>cn_socket := cn_socket c @ [SocketClose]\<rparr>"

text \<open>A listener is named; running it is recorded in \<open>cn_ran\<close>.\<close>

definition conn_onClose :: "'l \<Rightarrow> 'l conn \<Rightarrow> 'l conn" where
  "conn_onClose l c =
     (if cn_closed c then c\<lparr>cn_ran := cn_ran c @ [l]\<rparr>
      else c\<lparr>cn_listeners := cn_listeners c @ [l]\<rparr>)"

definition conn_gone :: "'l conn \<Rightarrow> 'l conn" where
  "conn_gone c =
     (if cn_closed c then c
      else c\<lparr>cn_closed := True, cn_listeners := [], cn_ran := cn_ran c @ cn_listeners c\<rparr>)"

definition frames_sent :: "'l conn \<Rightarrow> json list" where
  "frames_sent c = concat (map (\<lambda>k. case k of SocketSend f \<Rightarrow> [f] | SocketClose \<Rightarrow> []) (cn_socket c))"

text \<open>\<open>ConnRegistry\<close>: a \<open>Set\<close> of connections, each named by its id, and the next id.\<close>

record conn_registry =
  cr_conns :: "nat list"
  cr_next :: nat

definition ConnRegistry :: conn_registry where
  "ConnRegistry = \<lparr>cr_conns = [], cr_next = 1\<rparr>"

definition cr_nextId :: "conn_registry \<Rightarrow> nat \<times> conn_registry" where
  "cr_nextId r = (cr_next r, r\<lparr>cr_next := cr_next r + 1\<rparr>)"

definition cr_add :: "nat \<Rightarrow> conn_registry \<Rightarrow> conn_registry" where
  "cr_add i r = r\<lparr>cr_conns := set_add i (cr_conns r)\<rparr>"

definition cr_remove :: "nat \<Rightarrow> conn_registry \<Rightarrow> conn_registry" where
  "cr_remove i r = r\<lparr>cr_conns := set_del i (cr_conns r)\<rparr>"

section \<open>driver.ts\<close>

record hello_contract =
  isHelloOp :: "string \<Rightarrow> bool"
  helloRole :: "string \<Rightarrow> role"

definition requestIdOf :: "json \<Rightarrow> string option" where
  "requestIdOf frame =
     (case jfield frame ''request_id'' of
        Some (JStr i) \<Rightarrow> if i = [] then None else Some i
      | _ \<Rightarrow> None)"

text \<open>An error envelope as the frame it is written as.\<close>

definition error_frame :: "error_response \<Rightarrow> json" where
  "error_frame e =
     JObj ((''ok'', JBool False)
           # (case er_request_id e of None \<Rightarrow> [] | Some r \<Rightarrow> [(''request_id'', JStr r)])
           @ [(''error'', JObj [(''code'', JStr (er_code e)), (''msg'', JStr (er_msg e))])])"

definition failure_frame :: "string option \<Rightarrow> string \<Rightarrow> string \<Rightarrow> json" where
  "failure_frame rid code msg = error_frame \<lparr>er_request_id = rid, er_code = code, er_msg = msg\<rparr>"

fun responseOf :: "dispatch_result \<Rightarrow> json" where
  "responseOf (DReply members) = JObj members"
| "responseOf (DError e) = error_frame e"
| "responseOf (DForward to members) =
     failure_frame (requestIdOf (JObj members)) ''instance_unreachable'' (to @ '' cannot be reached'')"
| "responseOf DNone = JNull"

text \<open>The role and sid a result binds to the connection, when it binds any.\<close>

definition hello_of :: "hello_contract \<Rightarrow> json \<Rightarrow> dispatch_result \<Rightarrow> (role \<times> sid option) option" where
  "hello_of hc frame result =
     (case (result, jfield frame ''op'') of
        (DReply _, Some (JStr op)) \<Rightarrow>
          if isHelloOp hc op then
            Some (helloRole hc op, case jfield frame ''sid'' of Some (JStr s) \<Rightarrow> Some s | _ \<Rightarrow> None)
          else None
      | _ \<Rightarrow> None)"

definition settleIfHello :: "hello_contract \<Rightarrow> json \<Rightarrow> dispatch_result \<Rightarrow> 'l conn \<Rightarrow> 'l conn" where
  "settleIfHello hc frame result c =
     (case hello_of hc frame result of None \<Rightarrow> c | Some (r, s) \<Rightarrow> conn_settle r s c)"

text \<open>The two outcomes of the promise \<open>handle\<close> answered with.\<close>

definition driver_resolved :: "hello_contract \<Rightarrow> json \<Rightarrow> dispatch_result \<Rightarrow> 'l conn \<Rightarrow> 'l conn" where
  "driver_resolved hc frame result c =
     (if result = DNone then c
      else conn_flushDeferred (conn_send (responseOf result) (settleIfHello hc frame result c)))"

definition driver_rejected :: "json \<Rightarrow> string \<Rightarrow> 'l conn \<Rightarrow> 'l conn" where
  "driver_rejected frame cause c =
     conn_send (failure_frame (requestIdOf frame) ''internal_error''
       (''the request could not be answered: '' @ cause)) c"

definition driver_overflow :: "contract \<Rightarrow> nat \<Rightarrow> 'l conn \<Rightarrow> 'l conn" where
  "driver_overflow ct bytes c =
     conn_send (failure_frame None ''bad_request''
       (''a request line may not exceed '' @ show_nat (MAX_FRAME_BYTES ct)
        @ '' bytes (got at least '' @ show_nat bytes @ '')'')) c"

text \<open>A connection with the requests it has in flight, in the order their lines came.\<close>

record 'l driver =
  dr_conn :: "'l conn"
  dr_flight :: "(nat \<times> json) list"
  dr_count :: nat

definition createDriver :: "'l conn \<Rightarrow> 'l driver" where
  "createDriver c = \<lparr>dr_conn = c, dr_flight = [], dr_count = 0\<rparr>"

definition driver_line :: "(text_cp \<Rightarrow> json option) \<Rightarrow> text_cp \<Rightarrow> 'l driver \<Rightarrow> 'l driver" where
  "driver_line parse text d =
     (case parse text of
        None \<Rightarrow> d\<lparr>dr_conn := conn_send (failure_frame None ''bad_request''
                    ''a request must be one JSON object per line'') (dr_conn d)\<rparr>
      | Some frame \<Rightarrow>
          d\<lparr>dr_flight := dr_flight d @ [(dr_count d, frame)], dr_count := dr_count d + 1\<rparr>)"

text \<open>What happens to one connection: lines arrive, the implementations behind them push,
  defer, register for its end or close it, their promises settle, the socket goes.\<close>

datatype 'l driver_event =
    EvLine text_cp
  | EvOverflow nat
  | EvSend json
  | EvDefer json
  | EvOnClose 'l
  | EvClose
  | EvResolved nat dispatch_result
  | EvRejected nat string
  | EvGone

definition answer_flight :: "nat \<Rightarrow> (json \<Rightarrow> 'l conn \<Rightarrow> 'l conn) \<Rightarrow> 'l driver \<Rightarrow> 'l driver" where
  "answer_flight n f d =
     (case map_of (dr_flight d) n of
        None \<Rightarrow> d
      | Some frame \<Rightarrow> d\<lparr>dr_flight := map_del n (dr_flight d), dr_conn := f frame (dr_conn d)\<rparr>)"

fun driver_step :: "contract \<Rightarrow> hello_contract \<Rightarrow> (text_cp \<Rightarrow> json option) \<Rightarrow> 'l driver \<Rightarrow>
    'l driver_event \<Rightarrow> 'l driver" where
  "driver_step ct hc parse d (EvLine text) = driver_line parse text d"
| "driver_step ct hc parse d (EvOverflow n) = d\<lparr>dr_conn := driver_overflow ct n (dr_conn d)\<rparr>"
| "driver_step ct hc parse d (EvSend f) = d\<lparr>dr_conn := conn_send f (dr_conn d)\<rparr>"
| "driver_step ct hc parse d (EvDefer f) = d\<lparr>dr_conn := conn_deferSend f (dr_conn d)\<rparr>"
| "driver_step ct hc parse d (EvOnClose l) = d\<lparr>dr_conn := conn_onClose l (dr_conn d)\<rparr>"
| "driver_step ct hc parse d EvClose = d\<lparr>dr_conn := conn_close (dr_conn d)\<rparr>"
| "driver_step ct hc parse d (EvResolved n result) =
     answer_flight n (\<lambda>frame. driver_resolved hc frame result) d"
| "driver_step ct hc parse d (EvRejected n cause) =
     answer_flight n (\<lambda>frame. driver_rejected frame cause) d"
| "driver_step ct hc parse d EvGone = d\<lparr>dr_conn := conn_gone (dr_conn d)\<rparr>"

definition driver_run :: "contract \<Rightarrow> hello_contract \<Rightarrow> (text_cp \<Rightarrow> json option) \<Rightarrow> 'l driver \<Rightarrow>
    'l driver_event list \<Rightarrow> 'l driver" where
  "driver_run ct hc parse = foldl (driver_step ct hc parse)"

section \<open>The listeners\<close>

text \<open>\<open>entryPath\<close>, with \<open>path.replace(/^\//, "")\<close>.\<close>

definition drop_slash :: "string \<Rightarrow> string" where
  "drop_slash path = (case path of [] \<Rightarrow> [] | c # cs \<Rightarrow> if c = CHR ''/'' then cs else path)"

definition ends_with :: "string \<Rightarrow> string \<Rightarrow> bool" where
  "ends_with s suffix \<longleftrightarrow> length suffix \<le> length s \<and> drop (length s - length suffix) s = suffix"

definition entryPath :: "string \<Rightarrow> string \<Rightarrow> bool" where
  "entryPath pathname path \<longleftrightarrow> pathname = path \<or> ends_with pathname (CHR ''/'' # drop_slash path)"

text \<open>The answer of \<open>fetch\<close>: \<open>route\<close>, the entry policy and the upgrade are arguments.\<close>

datatype ('r, 'a) fetch_answer = Status nat string | Routed 'r | Upgraded 'a

datatype 'a upgrade_decision = UpgradeOk 'a | UpgradeNo string

definition ws_fetch :: "('q \<Rightarrow> string option \<Rightarrow> bool) \<Rightarrow> ('q \<Rightarrow> string option \<Rightarrow> 'r option) \<Rightarrow> ('q \<Rightarrow> string) \<Rightarrow> string \<Rightarrow>
    ('q \<Rightarrow> 'a upgrade_decision) \<Rightarrow> ('q \<Rightarrow> 'a \<Rightarrow> bool) \<Rightarrow> 'q \<Rightarrow> string option \<Rightarrow> ('r, 'a) fetch_answer" where
  "ws_fetch allowRequest route pathname path allowUpgrade upgrade request source =
     (if \<not> allowRequest request source then Status 403 ''Forbidden''
      else case route request source of
        Some routed \<Rightarrow> Routed routed
      | None \<Rightarrow>
          if \<not> entryPath (pathname request) path then Status 404 ''Not Found''
          else case allowUpgrade request of
            UpgradeNo reason \<Rightarrow> Status 401 reason
          | UpgradeOk decision \<Rightarrow>
              if upgrade request decision then Upgraded decision
              else Status 426 ''Expected a WebSocket upgrade'')"

text \<open>One message of a WebSocket, text already encoded: its bytes and then a newline.\<close>

definition ws_message :: "contract \<Rightarrow> line_reader \<Rightarrow> byte list \<Rightarrow> line_reader \<times> sink_event list" where
  "ws_message ct r bytes =
     (let (r1, e1) = lr_push ct r bytes; (r2, e2) = lr_push ct r1 [NEWLINE] in (r2, e1 @ e2))"

text \<open>The connections a listener accepted, by socket.\<close>

record sockets =
  sk_registry :: conn_registry
  sk_states :: "(nat, nat) js_map"

definition sk_init :: sockets where
  "sk_init = \<lparr>sk_registry = ConnRegistry, sk_states = []\<rparr>"

definition socket_open :: "nat \<Rightarrow> sockets \<Rightarrow> sockets" where
  "socket_open s k =
     (let (i, r) = cr_nextId (sk_registry k)
      in k\<lparr>sk_registry := cr_add i r, sk_states := map_set s i (sk_states k)\<rparr>)"

definition socket_close :: "nat \<Rightarrow> sockets \<Rightarrow> sockets" where
  "socket_close s k =
     (case map_of (sk_states k) s of
        None \<Rightarrow> k
      | Some i \<Rightarrow> k\<lparr>sk_registry := cr_remove i (sk_registry k)\<rparr>)"

text \<open>\<open>Transport.close\<close>: every address but the unix sockets', together, then those in turn.\<close>

datatype listener_kind = Uds | Ws

definition transport_close :: "(listener_kind \<times> 'a) list \<Rightarrow> 'a list \<times> 'a list" where
  "transport_close held =
     (map snd (filter (\<lambda>l. fst l \<noteq> Uds) held), map snd (filter (\<lambda>l. fst l = Uds) held))"

section \<open>Facts about a connection\<close>

lemma fold_conn_send:
  "fold conn_send fs c =
     (if cn_closed c then c else c\<lparr>cn_socket := cn_socket c @ map SocketSend fs\<rparr>)"
proof (induction fs arbitrary: c)
  case (Cons f fs)
  then show ?case by (simp add: conn_send_def)
qed simp

lemma conn_flushDeferred_eq:
  "conn_flushDeferred c =
     (if cn_closed c then c\<lparr>cn_deferred := []\<rparr>
      else c\<lparr>cn_deferred := [], cn_socket := cn_socket c @ map SocketSend (cn_deferred c)\<rparr>)"
  by (simp add: conn_flushDeferred_def fold_conn_send)

lemmas conn_ops = conn_settle_def conn_send_def conn_deferSend_def conn_flushDeferred_eq
  conn_close_def conn_onClose_def conn_gone_def settleIfHello_def

lemma frames_sent_simps [simp]:
  "frames_sent (c\<lparr>cn_socket := xs @ ys\<rparr>) =
     frames_sent (c\<lparr>cn_socket := xs\<rparr>) @ frames_sent (c\<lparr>cn_socket := ys\<rparr>)"
  "frames_sent (c\<lparr>cn_socket := map SocketSend fs\<rparr>) = fs"
  "frames_sent (c\<lparr>cn_socket := [SocketClose]\<rparr>) = []"
  by (simp_all add: frames_sent_def comp_def)

lemma settleIfHello_frame:
  "cn_closed (settleIfHello hc f r c) = cn_closed c"
  "cn_socket (settleIfHello hc f r c) = cn_socket c"
  "cn_deferred (settleIfHello hc f r c) = cn_deferred c"
  "cn_listeners (settleIfHello hc f r c) = cn_listeners c"
  "cn_ran (settleIfHello hc f r c) = cn_ran c"
  by (simp_all add: settleIfHello_def conn_settle_def split: option.splits)

section \<open>Runs of the driver\<close>

lemma driver_run_snoc [simp]:
  "driver_run ct hc parse d (evs @ [e]) = driver_step ct hc parse (driver_run ct hc parse d evs) e"
  by (simp add: driver_run_def)

lemma driver_run_Nil [simp]: "driver_run ct hc parse d [] = d"
  by (simp add: driver_run_def)

lemma driver_run_append:
  "driver_run ct hc parse d (xs @ ys) = driver_run ct hc parse (driver_run ct hc parse d xs) ys"
  by (simp add: driver_run_def)

lemma driver_run_Cons:
  "driver_run ct hc parse d (e # evs) = driver_run ct hc parse (driver_step ct hc parse d e) evs"
  by (simp add: driver_run_def)

text \<open>
  The requests of a run are numbered in the order their lines came. A request is in flight under its
  number from its line to its answer: \<open>arrived parse evs k frame\<close> says that the line of number \<open>k\<close>
  came in \<open>evs\<close>, parsed as \<open>frame\<close>, and that nothing answered it since.
\<close>

definition request_count :: "(text_cp \<Rightarrow> json option) \<Rightarrow> 'l driver_event list \<Rightarrow> nat" where
  "request_count parse evs = length (filter (\<lambda>e. case e of EvLine ln \<Rightarrow> parse ln \<noteq> None | _ \<Rightarrow> False) evs)"

lemma request_count_simps [simp]:
  "request_count parse [] = 0"
  "request_count parse (evs @ [e]) = request_count parse evs + (case e of EvLine ln \<Rightarrow> if parse ln = None then 0 else 1 | _ \<Rightarrow> 0)"
  by (auto simp: request_count_def split: driver_event.splits)

definition arrived :: "(text_cp \<Rightarrow> json option) \<Rightarrow> 'l driver_event list \<Rightarrow> nat \<Rightarrow> json \<Rightarrow> bool" where
  "arrived parse evs k frame \<longleftrightarrow> (\<exists>before ln since.
     evs = before @ EvLine ln # since \<and> parse ln = Some frame \<and> request_count parse before = k
     \<and> (\<forall>result cause. EvResolved k result \<notin> set since \<and> EvRejected k cause \<notin> set since))"

lemma arrived_snoc:
  assumes "arrived parse evs k frame" "\<And>result. e \<noteq> EvResolved k result" "\<And>cause. e \<noteq> EvRejected k cause"
  shows "arrived parse (evs @ [e]) k frame"
proof -
  obtain before ln since where "evs = before @ EvLine ln # since" "parse ln = Some frame" "request_count parse before = k"
    "\<forall>result cause. EvResolved k result \<notin> set since \<and> EvRejected k cause \<notin> set since"
    using assms(1) unfolding arrived_def by blast
  with assms(2,3) show ?thesis unfolding arrived_def
    by (intro exI [of _ before] exI [of _ ln] exI [of _ "since @ [e]"]) (auto dest: sym)
qed

lemma arrived_now: "parse ln = Some frame \<Longrightarrow> arrived parse (evs @ [EvLine ln]) (request_count parse evs) frame"
  unfolding arrived_def by (intro exI [of _ evs] exI [of _ ln] exI [of _ "[]"]) simp

definition flight_ok :: "(text_cp \<Rightarrow> json option) \<Rightarrow> 'l driver_event list \<Rightarrow> 'l driver \<Rightarrow> bool" where
  "flight_ok parse evs d \<longleftrightarrow> map_wf (dr_flight d) \<and> dr_count d = request_count parse evs
     \<and> (\<forall>k frame. (k, frame) \<in> set (dr_flight d) \<longrightarrow> k < dr_count d \<and> arrived parse evs k frame)"

lemma driver_flight:
  assumes "d = driver_run ct hc parse (createDriver c) evs"
  shows "map_wf (dr_flight d)" "dr_count d = request_count parse evs"
    "(k, frame) \<in> set (dr_flight d) \<Longrightarrow> k < dr_count d \<and> arrived parse evs k frame"
proof -
  have "flight_ok parse evs d"
    using assms
  proof (induction evs arbitrary: d rule: rev_induct)
    case Nil
    then show ?case by (simp add: flight_ok_def createDriver_def)
  next
    case (snoc e evs)
    let ?d = "driver_run ct hc parse (createDriver c) evs"
    have "flight_ok parse evs ?d" by (rule snoc.IH) simp
    note ih = this [unfolded flight_ok_def]
    have on: "arrived parse (evs @ [e]) k g"
      if "(k, g) \<in> set (dr_flight ?d)" "\<And>r. e \<noteq> EvResolved k r" "\<And>c. e \<noteq> EvRejected k c" for k g
      using ih arrived_snoc [of parse evs k g e] that by blast
    have drop: "flight_ok parse (evs @ [e]) (answer_flight n f ?d)" if e: "e = EvResolved n x \<or> e = EvRejected n y" for n f x y
    proof -
      have on': "arrived parse (evs @ [e]) k g" if "(k, g) \<in> set (dr_flight ?d)" "k \<noteq> n" for k g
        using on [OF that(1)] that(2) e by blast
      have count: "request_count parse (evs @ [e]) = request_count parse evs" using e by auto
      have sub: "(k, g) \<in> set (dr_flight ?d) \<and> k \<noteq> n" if "(k, g) \<in> set (dr_flight (answer_flight n f ?d))" for k g
        using that weak_map_of_SomeI [of k g "dr_flight ?d"] by (auto simp: answer_flight_def AList.delete_eq split: option.splits)
      have same: "dr_count (answer_flight n f ?d) = dr_count ?d" by (simp add: answer_flight_def split: option.splits)
      have wf: "map_wf (dr_flight (answer_flight n f ?d))"
        using ih distinct_delete [of "dr_flight ?d" n] by (simp add: answer_flight_def split: option.splits)
      have cnt: "dr_count ?d = request_count parse evs" using ih by blast
      have "k < dr_count ?d \<and> arrived parse (evs @ [e]) k g" if "(k, g) \<in> set (dr_flight (answer_flight n f ?d))" for k g
        using sub [OF that] on' ih by blast
      then show ?thesis unfolding flight_ok_def count same using wf cnt by blast
    qed
    have keep: "flight_ok parse (evs @ [e]) (?d\<lparr>dr_conn := x\<rparr>)" if "\<And>n r. e \<noteq> EvResolved n r" "\<And>n r. e \<noteq> EvRejected n r" "\<And>ln. e = EvLine ln \<Longrightarrow> parse ln = None" for x
      using ih that on by (auto simp: flight_ok_def split: driver_event.splits)
    show ?case
    proof (cases e)
      case (EvLine ln)
      show ?thesis
      proof (cases "parse ln")
        case None
        then have "d = ?d\<lparr>dr_conn := conn_send (failure_frame None ''bad_request'' ''a request must be one JSON object per line'') (dr_conn ?d)\<rparr>"
          using EvLine snoc.prems by (simp add: driver_line_def)
        then show ?thesis using keep None EvLine by (metis driver_event.distinct(11) driver_event.distinct(13) driver_event.inject(1))
      next
        case (Some frame)
        have "k \<noteq> request_count parse evs" if "(k, g) \<in> set (dr_flight ?d)" for k g using ih that by fastforce
        then have "map_wf (dr_flight ?d @ [(dr_count ?d, frame)])" using ih by force
        moreover have "arrived parse (evs @ [e]) k g" if "(k, g) \<in> set (dr_flight ?d @ [(dr_count ?d, frame)])" for k g
          using that ih on [of k g] arrived_now [where parse = parse and ln = ln and evs = evs, OF Some] EvLine by auto
        moreover have "k < Suc (dr_count ?d)" if "(k, g) \<in> set (dr_flight ?d @ [(dr_count ?d, frame)])" for k g
          using that ih by (auto intro: less_SucI)
        ultimately show ?thesis using ih Some EvLine snoc.prems by (simp add: flight_ok_def driver_line_def)
      qed
    qed (use drop keep snoc.prems in simp_all)
  qed
  then show "map_wf (dr_flight d)" "dr_count d = request_count parse evs"
    "(k, frame) \<in> set (dr_flight d) \<Longrightarrow> k < dr_count d \<and> arrived parse evs k frame"
    unfolding flight_ok_def by blast+
qed

lemma driver_step_identity:
  assumes "cn_identity (dr_conn (driver_step ct hc parse d e)) \<noteq> cn_identity (dr_conn d)"
  obtains n result frame r s where "e = EvResolved n result" "map_of (dr_flight d) n = Some frame"
    "hello_of hc frame result = Some (r, s)"
    "cn_identity (dr_conn (driver_step ct hc parse d e)) = Settled r s"
proof (cases e)
  case (EvResolved n result)
  with assms obtain frame where f: "map_of (dr_flight d) n = Some frame"
    by (auto simp: answer_flight_def split: option.splits)
  with EvResolved assms obtain r s where "hello_of hc frame result = Some (r, s)"
    "cn_identity (dr_conn (driver_step ct hc parse d e)) = Settled r s"
    by (auto simp: answer_flight_def driver_resolved_def conn_ops split: option.splits if_splits)
  with EvResolved f that show ?thesis by blast
qed (use assms in \<open>auto simp: answer_flight_def driver_line_def driver_rejected_def
  driver_overflow_def conn_ops split: option.splits if_splits\<close>)

text \<open>
  C24: an identity is bound to a connection by a greeting and by nothing else. A connection that
  has a role after any run has the role and sid of a greeting op that arrived as a line on this
  very connection, and it was that very request that was answered with a reply (never with an error,
  and not another request of the connection): the answer carries the number the greeting's line
  was given, and nothing had answered that number since.
\<close>

theorem identity_settled_by_hello_only:
  assumes "cn_identity (dr_conn (driver_run ct hc parse (createDriver (BaseConn i)) evs)) = Settled r s"
  shows "\<exists>before ln since n body post frame op.
    evs = before @ EvLine ln # since @ EvResolved n (DReply body) # post
    \<and> parse ln = Some frame \<and> n = request_count parse before
    \<and> (\<forall>result cause. EvResolved n result \<notin> set since \<and> EvRejected n cause \<notin> set since)
    \<and> jfield frame ''op'' = Some (JStr op) \<and> isHelloOp hc op
    \<and> r = helloRole hc op \<and> s = (case jfield frame ''sid'' of Some (JStr t) \<Rightarrow> Some t | _ \<Rightarrow> None)"
  using assms
proof (induction evs rule: rev_induct)
  case Nil
  then show ?case by (simp add: createDriver_def BaseConn_def)
next
  case (snoc e evs)
  let ?d = "driver_run ct hc parse (createDriver (BaseConn i)) evs"
  show ?case
  proof (cases "cn_identity (dr_conn (driver_step ct hc parse ?d e)) = cn_identity (dr_conn ?d)")
    case True
    with snoc obtain before ln since n body post frame op where
      "evs = before @ EvLine ln # since @ EvResolved n (DReply body) # post"
      "parse ln = Some frame" "n = request_count parse before"
      "\<forall>result cause. EvResolved n result \<notin> set since \<and> EvRejected n cause \<notin> set since"
      "jfield frame ''op'' = Some (JStr op)" "isHelloOp hc op"
      "r = helloRole hc op" "s = (case jfield frame ''sid'' of Some (JStr t) \<Rightarrow> Some t | _ \<Rightarrow> None)"
      by auto
    then show ?thesis
      by (intro exI [of _ before] exI [of _ ln] exI [of _ since] exI [of _ n] exI [of _ body] exI [of _ "post @ [e]"]) auto
  next
    case False
    then obtain n result frame r' s' where e: "e = EvResolved n result"
      and f: "map_of (dr_flight ?d) n = Some frame" and h: "hello_of hc frame result = Some (r', s')"
      and "cn_identity (dr_conn (driver_step ct hc parse ?d e)) = Settled r' s'"
      by (rule driver_step_identity)
    with snoc.prems have rs: "r' = r" "s' = s" by simp_all
    from driver_flight(3) [OF refl map_of_SomeD [OF f]] obtain before ln since where
      "evs = before @ EvLine ln # since" "parse ln = Some frame" "n = request_count parse before"
      "\<forall>result cause. EvResolved n result \<notin> set since \<and> EvRejected n cause \<notin> set since"
      unfolding arrived_def by blast
    moreover from h rs obtain body op where "result = DReply body"
      "jfield frame ''op'' = Some (JStr op)" "isHelloOp hc op" "r = helloRole hc op"
      "s = (case jfield frame ''sid'' of Some (JStr t) \<Rightarrow> Some t | _ \<Rightarrow> None)"
      by (auto simp: hello_of_def split: dispatch_result.splits option.splits json.splits if_splits)
    ultimately show ?thesis using e
      by (intro exI [of _ before] exI [of _ ln] exI [of _ since] exI [of _ n] exI [of _ body] exI [of _ "[]"]) auto
  qed
qed

text \<open>Parameters for the witnesses: one greeting op, and every line parsed as one frame.\<close>

definition hello_only :: hello_contract where
  "hello_only = \<lparr>isHelloOp = (\<lambda>op. op = ''hello.user''), helloRole = (\<lambda>op. User)\<rparr>"

definition hello_frame :: json where
  "hello_frame = JObj [(''op'', JStr ''hello.user''), (''request_id'', JStr ''1'')]"

theorem identity_settled_by_hello_only_witness:
  "\<exists>before ln since n body post. [EvLine [120], EvResolved 0 (DReply [])] = before @ EvLine ln # since @ EvResolved n (DReply body) # post
     \<and> n = request_count (\<lambda>t. Some hello_frame) (before :: nat driver_event list)"
proof -
  have "cn_identity (dr_conn (driver_run example_contract hello_only (\<lambda>t. Some hello_frame)
      (createDriver (BaseConn 1)) [EvLine [120], EvResolved 0 (DReply []) :: nat driver_event])) = Settled User None"
    by (simp add: driver_run_def driver_line_def answer_flight_def createDriver_def BaseConn_def
        driver_resolved_def conn_ops hello_of_def hello_only_def hello_frame_def)
  from identity_settled_by_hello_only [OF this] show ?thesis by blast
qed

text \<open>The listeners a run registers, in order.\<close>

definition registered :: "'l driver_event list \<Rightarrow> 'l list" where
  "registered evs = concat (map (\<lambda>e. case e of EvOnClose l \<Rightarrow> [l] | _ \<Rightarrow> []) evs)"

definition conn_inv :: "'l driver_event list \<Rightarrow> 'l conn \<Rightarrow> bool" where
  "conn_inv evs c \<longleftrightarrow> cn_ran c @ cn_listeners c = registered evs
     \<and> (cn_closed c \<longleftrightarrow> EvGone \<in> set evs) \<and> (if cn_closed c then cn_listeners c = [] else cn_ran c = [])"

lemma driver_conn_inv:
  "conn_inv evs (dr_conn (driver_run ct hc parse (createDriver (BaseConn i)) evs))"
proof (induction evs rule: rev_induct)
  case Nil
  then show ?case by (simp add: conn_inv_def createDriver_def BaseConn_def registered_def)
next
  case (snoc e evs)
  then show ?case
    by (cases e)
       (auto simp: conn_inv_def registered_def driver_line_def answer_flight_def driver_resolved_def
         driver_rejected_def driver_overflow_def conn_ops split: option.splits)
qed

text \<open>
  The end of a connection is told exactly once, and nothing is written after it. After any
  run, each listener registered has run once and in order if the socket is gone, and not at all
  if it is not; and whatever happens after the socket is gone (replies, pushes, deferred
  frames), the frames written stay those written before.
\<close>

theorem closed_connection_told_once_and_silent:
  fixes evs post :: "'l driver_event list" and ct hc parse i
  defines "d \<equiv> driver_run ct hc parse (createDriver (BaseConn i)) evs"
  shows "cn_ran (dr_conn d) = (if EvGone \<in> set evs then registered evs else [])
    \<and> (EvGone \<in> set evs \<longrightarrow> frames_sent (dr_conn (driver_run ct hc parse d post)) = frames_sent (dr_conn d))"
proof
  show "cn_ran (dr_conn d) = (if EvGone \<in> set evs then registered evs else [])"
    using driver_conn_inv [of evs ct hc parse i] by (auto simp: conn_inv_def d_def split: if_splits)
  have silent: "cn_closed (dr_conn d') \<Longrightarrow>
      frames_sent (dr_conn (driver_step ct hc parse d' e)) = frames_sent (dr_conn d')
      \<and> cn_closed (dr_conn (driver_step ct hc parse d' e))" for d' :: "'l driver" and e
    by (cases e) (auto simp: driver_line_def answer_flight_def driver_resolved_def driver_rejected_def
        driver_overflow_def conn_ops frames_sent_def split: option.splits)
  have "cn_closed (dr_conn d') \<Longrightarrow>
      frames_sent (dr_conn (driver_run ct hc parse d' post)) = frames_sent (dr_conn d')" for d' :: "'l driver"
    by (induction post arbitrary: d') (simp_all add: driver_run_Cons silent)
  with driver_conn_inv [of evs ct hc parse i]
  show "EvGone \<in> set evs \<longrightarrow> frames_sent (dr_conn (driver_run ct hc parse d post)) = frames_sent (dr_conn d)"
    by (simp add: conn_inv_def d_def)
qed

theorem closed_connection_told_once_and_silent_witness:
  "EvGone \<in> set [EvOnClose (7 :: nat), EvGone] \<and>
   cn_ran (dr_conn (driver_run example_contract hello_only (\<lambda>t. None) (createDriver (BaseConn 1))
     [EvOnClose (7 :: nat), EvGone])) = [7]"
  using closed_connection_told_once_and_silent [where ct = example_contract and hc = hello_only
    and parse = "\<lambda>t. None" and i = 1 and evs = "[EvOnClose (7 :: nat), EvGone]" and post = "[]"]
  by (simp add: registered_def)

text \<open>What an implementation does while it runs: push, defer, register.\<close>

fun handler_event :: "'l driver_event \<Rightarrow> bool" where
  "handler_event (EvSend f) = True"
| "handler_event (EvDefer f) = True"
| "handler_event (EvOnClose l) = True"
| "handler_event _ = False"

definition pushed :: "'l driver_event list \<Rightarrow> json list" where
  "pushed evs = concat (map (\<lambda>e. case e of EvSend f \<Rightarrow> [f] | _ \<Rightarrow> []) evs)"

definition put_off :: "'l driver_event list \<Rightarrow> json list" where
  "put_off evs = concat (map (\<lambda>e. case e of EvDefer f \<Rightarrow> [f] | _ \<Rightarrow> []) evs)"

lemma handler_events_run:
  assumes "\<forall>e \<in> set hs. handler_event e" and "\<not> cn_closed (dr_conn d)"
  shows "let d' = driver_run ct hc parse d hs in
    dr_flight d' = dr_flight d \<and> \<not> cn_closed (dr_conn d') \<and>
    cn_deferred (dr_conn d') = cn_deferred (dr_conn d) @ put_off hs \<and>
    cn_socket (dr_conn d') = cn_socket (dr_conn d) @ map SocketSend (pushed hs)"
  using assms
proof (induction hs arbitrary: d)
  case Nil
  then show ?case by (simp add: pushed_def put_off_def)
next
  case (Cons e hs)
  have step: "dr_flight (driver_step ct hc parse d e) = dr_flight d"
    "\<not> cn_closed (dr_conn (driver_step ct hc parse d e))"
    "cn_deferred (dr_conn (driver_step ct hc parse d e)) = cn_deferred (dr_conn d) @ put_off [e]"
    "cn_socket (dr_conn (driver_step ct hc parse d e)) = cn_socket (dr_conn d) @ map SocketSend (pushed [e])"
    using Cons.prems by (cases e; simp add: conn_ops pushed_def put_off_def)+
  with Cons.IH [of "driver_step ct hc parse d e"] Cons.prems show ?case
    by (auto simp: Let_def driver_run_Cons pushed_def put_off_def)
qed

lemma frames_sent_append:
  "cn_socket c' = cn_socket c @ map SocketSend fs \<Longrightarrow> frames_sent c' = frames_sent c @ fs"
  by (simp add: frames_sent_def comp_def)

text \<open>
  The acknowledgement comes before what was put off until after it. Where a request is the
  only one in progress on an open connection with nothing put off, and its implementation
  pushes and puts off frames in any order before it answers, the frames written are the pushed
  ones, the answer, and then exactly the frames put off, in their order; none is left behind.
\<close>

theorem reply_precedes_its_deferred_frames:
  assumes reach: "d = driver_run ct hc parse (createDriver (BaseConn i)) evs"
    and open_conn: "\<not> cn_closed (dr_conn d)" and quiet: "cn_deferred (dr_conn d) = []"
    and parsed: "parse ln = Some frame"
    and hs: "\<forall>e \<in> set hs. handler_event e" and answered: "result \<noteq> DNone"
  shows "let d' = driver_run ct hc parse d (EvLine ln # hs @ [EvResolved (dr_count d) result])
    in frames_sent (dr_conn d') = frames_sent (dr_conn d) @ pushed hs @ [responseOf result] @ put_off hs
       \<and> cn_deferred (dr_conn d') = []"
proof -
  let ?d1 = "driver_step ct hc parse d (EvLine ln)"
  let ?d2 = "driver_run ct hc parse ?d1 hs"
  have conn: "dr_conn ?d1 = dr_conn d" and flight: "dr_flight ?d1 = dr_flight d @ [(dr_count d, frame)]"
    by (simp_all add: driver_line_def parsed)
  have "map_of (dr_flight d) (dr_count d) = None"
    using driver_flight(3) [OF reach] by (fastforce simp: map_of_eq_None_iff)
  with flight have look: "map_of (dr_flight ?d1) (dr_count d) = Some frame"
    by (auto simp: map_add_def split: option.splits)
  from open_conn conn have "\<not> cn_closed (dr_conn ?d1)" by simp
  from handler_events_run [OF hs this, of ct hc parse] look quiet conn
  have d2: "map_of (dr_flight ?d2) (dr_count d) = Some frame" "\<not> cn_closed (dr_conn ?d2)"
    "cn_deferred (dr_conn ?d2) = put_off hs"
    "cn_socket (dr_conn ?d2) = cn_socket (dr_conn d) @ map SocketSend (pushed hs)"
    by (simp_all add: Let_def)
  let ?d3 = "driver_step ct hc parse ?d2 (EvResolved (dr_count d) result)"
  have "cn_deferred (dr_conn ?d3) = []"
    "cn_socket (dr_conn ?d3) = cn_socket (dr_conn d) @ map SocketSend (pushed hs @ [responseOf result] @ put_off hs)"
    using d2 answered
    by (simp_all add: answer_flight_def driver_resolved_def conn_flushDeferred_eq conn_send_def settleIfHello_frame)
  then show ?thesis
    by (simp add: Let_def driver_run_Cons frames_sent_append)
qed

theorem reply_precedes_its_deferred_frames_witness:
  "frames_sent (dr_conn (driver_run example_contract hello_only (\<lambda>t. Some JNull)
     (createDriver (BaseConn 1) :: nat driver)
     [EvLine [120], EvDefer (JNum 1), EvSend (JNum 2), EvDefer (JNum 3), EvResolved 0 (DReply [])]))
   = [JNum 2, JObj [], JNum 1, JNum 3]"
  using reply_precedes_its_deferred_frames [where ct = example_contract and hc = hello_only
      and parse = "\<lambda>t. Some JNull" and i = 1 and evs = "[] :: nat driver_event list"
      and hs = "[EvDefer (JNum 1), EvSend (JNum 2), EvDefer (JNum 3)]"
      and result = "DReply []" and ln = "[120]", OF refl]
  by (simp add: Let_def createDriver_def BaseConn_def frames_sent_def pushed_def put_off_def)

text \<open>
  The queue of frames put off belongs to the connection and not to a request. When two
  subscribes are in progress on one connection and both put their snapshot off before the first
  is answered, the second snapshot is written before the second acknowledgement.
\<close>

theorem pipelined_snapshot_overtakes_its_acknowledgement:
  "frames_sent (dr_conn (driver_run ct hc (\<lambda>t. Some (JObj [])) (createDriver (BaseConn i))
     [EvLine a, EvLine b, EvDefer snapA, EvDefer snapB, EvResolved 0 (DReply ackA), EvResolved 1 (DReply ackB)]))
   = [JObj ackA, snapA, snapB, JObj ackB]"
  by (simp add: driver_run_def driver_line_def createDriver_def BaseConn_def answer_flight_def
      driver_resolved_def settleIfHello_def hello_of_def conn_deferSend_def conn_send_def
      conn_flushDeferred_eq frames_sent_def)

section \<open>The listeners' facts\<close>

text \<open>
  One message of a WebSocket is framed on its own. Whatever bytes a message carries, a reader
  that holds no part of a line reports exactly the lines of that message (its last one complete
  even without a newline) and again holds no part of a line, so no message runs into the next.
\<close>

theorem ws_message_stands_alone:
  assumes "lr_holds ct r []"
  shows "let (r', events) = ws_message ct r bytes
    in events = line_events ct (fst (cut_lines [] (bytes @ [NEWLINE]))) \<and> lr_holds ct r' []"
proof -
  obtain r1 e1 where p1: "lr_push ct r bytes = (r1, e1)" by fastforce
  obtain r2 e2 where p2: "lr_push ct r1 [NEWLINE] = (r2, e2)" by fastforce
  have h1: "lr_holds ct r1 (snd (cut_lines [] bytes))" "e1 = line_events ct (fst (cut_lines [] bytes))"
    using lr_push_correct [OF assms, of bytes] p1 by (auto simp: Let_def split: prod.splits)
  have h2: "lr_holds ct r2 []" "e2 = line_events ct [snd (cut_lines [] bytes)]"
    using lr_push_correct [OF h1(1), of "[NEWLINE]"] p2 by (auto simp: Let_def split: prod.splits)
  show ?thesis
    using h1 h2 p1 p2 by (simp add: ws_message_def cut_lines_append split: prod.splits)
qed

theorem ws_message_stands_alone_witness:
  "lr_holds example_contract lr_init [] \<and> lr_holds example_contract (fst (ws_message example_contract lr_init [97])) []"
  using ws_message_stands_alone [OF lr_init_holds [of example_contract], of "[97]"] lr_init_holds
  by (auto split: prod.splits)

text \<open>The registry holds exactly the connections of the sockets that are open.\<close>

datatype socket_event = SocketOpened nat | SocketClosed nat

fun socket_step :: "sockets \<Rightarrow> socket_event \<Rightarrow> sockets" where
  "socket_step k (SocketOpened s) = socket_open s k"
| "socket_step k (SocketClosed s) = socket_close s k"

fun still_open :: "socket_event list \<Rightarrow> nat \<Rightarrow> bool" where
  "still_open [] s = False"
| "still_open (SocketOpened t # evs) s = ((s = t \<and> SocketClosed t \<notin> set evs) \<or> still_open evs s)"
| "still_open (SocketClosed t # evs) s = still_open evs s"

lemma still_open_snoc:
  "still_open (evs @ [SocketOpened t]) s \<longleftrightarrow> still_open evs s \<or> s = t"
  "still_open (evs @ [SocketClosed t]) s \<longleftrightarrow> still_open evs s \<and> s \<noteq> t"
  by (induction evs s rule: still_open.induct) auto

definition opened :: "socket_event list \<Rightarrow> nat list" where
  "opened evs = concat (map (\<lambda>e. case e of SocketOpened s \<Rightarrow> [s] | SocketClosed s \<Rightarrow> []) evs)"

lemma still_open_opened: "still_open evs s \<Longrightarrow> s \<in> set (opened evs)"
  by (induction evs s rule: still_open.induct) (auto simp: opened_def)

definition sockets_inv :: "socket_event list \<Rightarrow> sockets \<Rightarrow> bool" where
  "sockets_inv evs k \<longleftrightarrow>
     map_wf (sk_states k) \<and> set (map_keys (sk_states k)) = set (opened evs)
     \<and> inj_on (map_of (sk_states k)) (set (opened evs))
     \<and> (\<forall>s i. map_of (sk_states k) s = Some i \<longrightarrow> i < cr_next (sk_registry k))
     \<and> set (cr_conns (sk_registry k)) = {i. \<exists>s. map_of (sk_states k) s = Some i \<and> still_open evs s}"

lemma sockets_inv_open:
  assumes inv: "sockets_inv evs k" and fresh: "s \<notin> set (opened evs)"
  shows "sockets_inv (evs @ [SocketOpened s]) (socket_open s k)"
proof -
  let ?n = "cr_next (sk_registry k)"
  from inv fresh have s: "map_of (sk_states k) s = None"
    by (simp add: sockets_inv_def map_of_None_keys)
  from inv have lt: "\<And>t i. map_of (sk_states k) t = Some i \<Longrightarrow> i < ?n" by (simp add: sockets_inv_def)
  have o: "set (opened (evs @ [SocketOpened s])) = insert s (set (opened evs))"
    by (simp add: opened_def)
  have k: "sk_states (socket_open s k) = map_set s ?n (sk_states k)"
    "cr_next (sk_registry (socket_open s k)) = ?n + 1"
    "set (cr_conns (sk_registry (socket_open s k))) = insert ?n (set (cr_conns (sk_registry k)))"
    by (simp_all add: socket_open_def cr_nextId_def cr_add_def)
  have inj: "inj_on (map_of (map_set s ?n (sk_states k))) (insert s (set (opened evs)))"
  proof (rule inj_onI)
    fix x y
    assume xy: "x \<in> insert s (set (opened evs))" "y \<in> insert s (set (opened evs))"
      and "map_of (map_set s ?n (sk_states k)) x = map_of (map_set s ?n (sk_states k)) y"
    with inv lt [of x ?n] lt [of y ?n] show "x = y"
      by (auto simp: sockets_inv_def inj_on_def split: if_splits)
  qed
  have conns: "insert ?n {i. \<exists>t. map_of (sk_states k) t = Some i \<and> still_open evs t}
     = {i. \<exists>t. map_of (map_set s ?n (sk_states k)) t = Some i \<and> still_open (evs @ [SocketOpened s]) t}"
    using s fresh still_open_opened [of evs s]
    by (auto simp: still_open_snoc split: if_splits) (metis option.distinct(1))
  have "\<forall>t i. map_of (map_set s ?n (sk_states k)) t = Some i \<longrightarrow> i < ?n + 1"
    using lt by (force split: if_splits)
  moreover have "set (map_keys (map_set s ?n (sk_states k))) = insert s (set (opened evs))"
    using inv set_map_set_keys [of s ?n "sk_states k"] by (simp only: sockets_inv_def)
  moreover have "map_wf (map_set s ?n (sk_states k))" using inv by (simp add: sockets_inv_def)
  moreover have "set (cr_conns (sk_registry k)) = {i. \<exists>t. map_of (sk_states k) t = Some i \<and> still_open evs t}"
    using inv unfolding sockets_inv_def by blast
  ultimately show ?thesis
    using inj conns unfolding sockets_inv_def k o by simp
qed

lemma sockets_inv_close:
  assumes inv: "sockets_inv evs k"
  shows "sockets_inv (evs @ [SocketClosed s]) (socket_close s k)"
proof -
  have o: "opened (evs @ [SocketClosed s]) = opened evs" by (simp add: opened_def)
  show ?thesis
  proof (cases "map_of (sk_states k) s")
    case None
    with inv have "\<not> still_open evs s"
      using still_open_opened [of evs s] by (auto simp: sockets_inv_def map_of_None_keys)
    then have "still_open (evs @ [SocketClosed s]) = still_open evs"
      by (auto simp: still_open_snoc fun_eq_iff)
    with inv None show ?thesis by (simp add: sockets_inv_def socket_close_def o)
  next
    case (Some i)
    with inv have s: "s \<in> set (opened evs)" by (metis map_of_in_keys sockets_inv_def)
    have only: "map_of (sk_states k) t = Some i \<Longrightarrow> t = s" for t
      using inv Some s map_of_in_keys [of "sk_states k" t i] by (simp add: sockets_inv_def inj_on_def)
    have k: "sk_states (socket_close s k) = sk_states k"
      "cr_next (sk_registry (socket_close s k)) = cr_next (sk_registry k)"
      "set (cr_conns (sk_registry (socket_close s k))) = set (cr_conns (sk_registry k)) - {i}"
      by (simp_all add: socket_close_def cr_remove_def Some)
    have "(\<exists>t. map_of (sk_states k) t = Some j \<and> still_open evs t \<and> t \<noteq> s) \<longleftrightarrow>
        (\<exists>t. map_of (sk_states k) t = Some j \<and> still_open evs t) \<and> j \<noteq> i" for j
      using only Some by (metis option.inject)
    then have "{j. \<exists>t. map_of (sk_states k) t = Some j \<and> still_open evs t} - {i}
       = {j. \<exists>t. map_of (sk_states k) t = Some j \<and> still_open (evs @ [SocketClosed s]) t}"
      unfolding still_open_snoc by blast
    moreover have "set (cr_conns (sk_registry k)) = {j. \<exists>t. map_of (sk_states k) t = Some j \<and> still_open evs t}"
      using inv unfolding sockets_inv_def by blast
    ultimately have "set (cr_conns (sk_registry k)) - {i}
       = {j. \<exists>t. map_of (sk_states k) t = Some j \<and> still_open (evs @ [SocketClosed s]) t}"
      by simp
    with inv show ?thesis
      unfolding sockets_inv_def k o by blast
  qed
qed

text \<open>
  The registry an instance shuts down through holds exactly the connections whose socket is
  open. After any sequence of sockets opening (each once) and closing, no two accepted sockets
  ever got the same connection id, and a connection is in the registry if and only if its socket
  opened and has not closed.
\<close>

theorem registry_holds_the_open_connections:
  assumes "distinct (opened evs)"
  shows "let k = foldl socket_step sk_init evs in
    inj_on (map_of (sk_states k)) (set (opened evs))
    \<and> set (cr_conns (sk_registry k)) = {i. \<exists>s. map_of (sk_states k) s = Some i \<and> still_open evs s}"
proof -
  have "sockets_inv evs (foldl socket_step sk_init evs)"
    using assms
  proof (induction evs rule: rev_induct)
    case Nil
    then show ?case by (simp add: sockets_inv_def sk_init_def ConnRegistry_def opened_def)
  next
    case (snoc e evs)
    then have ih: "sockets_inv evs (foldl socket_step sk_init evs)" by (simp add: opened_def)
    show ?case
    proof (cases e)
      case (SocketOpened s)
      with snoc.prems have "s \<notin> set (opened evs)" by (auto simp: opened_def)
      with ih SocketOpened show ?thesis by (simp add: sockets_inv_open)
    next
      case (SocketClosed s)
      with ih show ?thesis by (simp add: sockets_inv_close)
    qed
  qed
  then show ?thesis by (simp add: sockets_inv_def Let_def)
qed

theorem registry_holds_the_open_connections_witness:
  "set (cr_conns (sk_registry (foldl socket_step sk_init
     [SocketOpened 4, SocketOpened 5, SocketClosed 4]))) = {2}"
proof -
  let ?k = "foldl socket_step sk_init [SocketOpened 4, SocketOpened 5, SocketClosed 4]"
  have "sk_states ?k = [(4, 1), (5, 2)]"
    by (simp add: socket_open_def socket_close_def sk_init_def ConnRegistry_def cr_nextId_def cr_add_def)
  moreover have "set (cr_conns (sk_registry ?k)) =
      {i. \<exists>s. map_of (sk_states ?k) s = Some i \<and> still_open [SocketOpened 4, SocketOpened 5, SocketClosed 4] s}"
    using registry_holds_the_open_connections [of "[SocketOpened 4, SocketOpened 5, SocketClosed 4]"]
    unfolding Let_def by (simp add: opened_def del: foldl_Cons)
  ultimately show ?thesis by auto
qed

lemma ends_with_iff: "ends_with s t \<longleftrightarrow> (\<exists>p. s = p @ t)"
proof
  assume "ends_with s t"
  then have "s = take (length s - length t) s @ t"
    by (metis append_take_drop_id ends_with_def)
  then show "\<exists>p. s = p @ t" by blast
qed (auto simp: ends_with_def)

text \<open>A path reaches the entry when it is the entry, or ends in it after a separator.\<close>

lemma entryPath_iff:
  "entryPath pathname path \<longleftrightarrow> pathname = path \<or> (\<exists>prefix. pathname = prefix @ ''/'' @ drop_slash path)"
  by (simp add: entryPath_def ends_with_iff)

text \<open>Nothing becomes a connection that the entry policy did not let in, or that a route of the
  listener already answered.\<close>

lemma ws_fetch_upgraded:
  "ws_fetch allowRequest route pathname path allowUpgrade upgrade request source = Upgraded decision \<Longrightarrow>
     allowRequest request source \<and> route request source = None \<and> entryPath (pathname request) path
     \<and> allowUpgrade request = UpgradeOk decision"
  by (auto simp: ws_fetch_def split: if_splits option.splits upgrade_decision.splits)

lemma transport_close_uds_last:
  "transport_close held = (early, late) \<Longrightarrow>
     mset (early @ late) = mset (map snd held) \<and> (Uds, a) \<in> set held \<longrightarrow> a \<in> set late"
  by (force simp: transport_close_def)

end
