(* ===== verification/Cbor.thy ===== *)
theory Cbor
  imports Utf8
begin

text \<open>
  \<open>src/auth/cbor.ts\<close>: the decoder that reads what an authenticator hands over before anything
  is proven. The exceptions are the left side of a sum. Offsets are kept as the code keeps them:
  every reader takes the whole input and the place to read at, and answers with the place the
  next value starts.

  The encoder at the end is a specification: the canonical encoding of the values the decoder
  names, which is what the round trip is stated against.
\<close>

unbundle bit_operations_syntax

type_synonym cbor_error = string

datatype cbor_key = KNum int | KStr text_cp

datatype cbor =
    CNum int
  | CStr text_cp
  | CBytes "byte list"
  | CArr "cbor list"
  | CMap "(cbor_key \<times> cbor) list"
  | CBool bool
  | CNull

definition MAX_DEPTH :: nat where
  "MAX_DEPTH = 8"

definition cbor_byte :: "byte list \<Rightarrow> nat \<Rightarrow> cbor_error + nat" where
  "cbor_byte bytes at =
     (if at < length bytes then Inr (bytes ! at) else Inl ''the value runs past the end'')"

definition then_read :: "'e + 'a \<Rightarrow> ('a \<Rightarrow> 'e + 'b) \<Rightarrow> 'e + 'b" where
  "then_read m f = (case m of Inl e \<Rightarrow> Inl e | Inr x \<Rightarrow> f x)"

lemma then_read_simps [simp]:
  "then_read (Inl e) f = Inl e" "then_read (Inr x) f = f x"
  by (simp_all add: then_read_def)

lemma then_read_Inr: "then_read m f = Inr y \<longleftrightarrow> (\<exists>x. m = Inr x \<and> f x = Inr y)"
  by (cases m) simp_all

lemma then_read_cong [fundef_cong]:
  "m = m' \<Longrightarrow> (\<And>x. m' = Inr x \<Longrightarrow> f x = f' x) \<Longrightarrow> then_read m f = then_read m' f'"
  by (cases m') simp_all

definition cbor_argument :: "byte list \<Rightarrow> nat \<Rightarrow> nat \<Rightarrow> cbor_error + nat \<times> nat" where
  "cbor_argument bytes at minor =
     (if minor < 24 then Inr (minor, at)
      else if minor = 24 then then_read (cbor_byte bytes at) (\<lambda>b. Inr (b, at + 1))
      else if minor = 25 then
        then_read (cbor_byte bytes at) (\<lambda>b0. then_read (cbor_byte bytes (at + 1)) (\<lambda>b1.
          Inr (push_bit 8 b0 OR b1, at + 2)))
      else if minor = 26 then
        then_read (cbor_byte bytes at) (\<lambda>b0. then_read (cbor_byte bytes (at + 1)) (\<lambda>b1.
        then_read (cbor_byte bytes (at + 2)) (\<lambda>b2. then_read (cbor_byte bytes (at + 3)) (\<lambda>b3.
          Inr (b0 * 0x1000000 + push_bit 16 b1 + push_bit 8 b2 + b3, at + 4)))))
      else Inl (''length form '' @ show_nat minor @ '' is not read here''))"

fun key_of :: "cbor \<Rightarrow> cbor_key option" where
  "key_of (CNum n) = Some (KNum n)"
| "key_of (CStr s) = Some (KStr s)"
| "key_of _ = None"

text \<open>\<open>bytes.subarray(from, end)\<close>\<close>

definition subarray :: "byte list \<Rightarrow> nat \<Rightarrow> nat \<Rightarrow> byte list" where
  "subarray bytes from end = take (end - from) (drop from bytes)"

function cbor_value :: "byte list \<Rightarrow> nat \<Rightarrow> nat \<Rightarrow> cbor_error + cbor \<times> nat"
  and cbor_items :: "byte list \<Rightarrow> nat \<Rightarrow> nat \<Rightarrow> nat \<Rightarrow> cbor list \<Rightarrow> cbor_error + cbor list \<times> nat"
  and cbor_entries :: "byte list \<Rightarrow> nat \<Rightarrow> nat \<Rightarrow> nat \<Rightarrow> (cbor_key \<times> cbor) list \<Rightarrow>
    cbor_error + (cbor_key \<times> cbor) list \<times> nat"
where
  "cbor_value bytes at depth =
     (if depth > MAX_DEPTH then Inl ''this value nests too deeply to be read here''
      else then_read (cbor_byte bytes at) (\<lambda>initial.
        let major = drop_bit 5 initial; minor = initial AND 0x1f in
        if major = 0 then
          then_read (cbor_argument bytes (at + 1) minor) (\<lambda>(n, next). Inr (CNum (int n), next))
        else if major = 1 then
          then_read (cbor_argument bytes (at + 1) minor) (\<lambda>(n, next). Inr (CNum (- 1 - int n), next))
        else if major = 2 then
          then_read (cbor_argument bytes (at + 1) minor) (\<lambda>(n, next).
            if next + n > length bytes then Inl ''a byte string runs past the end''
            else Inr (CBytes (subarray bytes next (next + n)), next + n))
        else if major = 3 then
          then_read (cbor_argument bytes (at + 1) minor) (\<lambda>(n, next).
            if next + n > length bytes then Inl ''a text string runs past the end''
            else Inr (CStr (utf8_decode (subarray bytes next (next + n))), next + n))
        else if major = 4 then
          then_read (cbor_argument bytes (at + 1) minor) (\<lambda>(n, next).
            then_read (cbor_items bytes next (depth + 1) n []) (\<lambda>(items, cursor). Inr (CArr items, cursor)))
        else if major = 5 then
          then_read (cbor_argument bytes (at + 1) minor) (\<lambda>(n, next).
            then_read (cbor_entries bytes next (depth + 1) n []) (\<lambda>(entries, cursor). Inr (CMap entries, cursor)))
        else if major = 7 then
          (if minor = 20 then Inr (CBool False, at + 1)
           else if minor = 21 then Inr (CBool True, at + 1)
           else if minor = 22 then Inr (CNull, at + 1)
           else Inl (''simple value '' @ show_nat minor @ '' is not read here''))
        else Inl (''major type '' @ show_nat major @ '' is not read here'')))"
| "cbor_items bytes cursor depth n items =
     (if n = 0 then Inr (items, cursor)
      else then_read (cbor_value bytes cursor depth) (\<lambda>(item, next).
        cbor_items bytes next depth (n - 1) (items @ [item])))"
| "cbor_entries bytes cursor depth n entries =
     (if n = 0 then Inr (entries, cursor)
      else then_read (cbor_value bytes cursor depth) (\<lambda>(key, next).
        case key_of key of
          None \<Rightarrow> Inl ''a map key here is an integer or a string''
        | Some k \<Rightarrow>
            then_read (cbor_value bytes next depth) (\<lambda>(held, next').
              cbor_entries bytes next' depth (n - 1) (map_set k held entries))))"
  by pat_completeness auto

termination
  by (relation "measures
    [\<lambda>x. case x of Inl (_, _, d) \<Rightarrow> 10 - d
       | Inr (Inl (_, _, d, _, _)) \<Rightarrow> 10 - d | Inr (Inr (_, _, d, _, _)) \<Rightarrow> 10 - d,
     \<lambda>x. case x of Inl _ \<Rightarrow> 0 | Inr (Inl (_, _, _, n, _)) \<Rightarrow> n + 1 | Inr (Inr (_, _, _, n, _)) \<Rightarrow> n + 1]")
    (auto simp: MAX_DEPTH_def)

declare cbor_value.simps [simp del] cbor_items.simps [simp del] cbor_entries.simps [simp del]

definition decodeCbor :: "byte list \<Rightarrow> cbor_error + cbor \<times> nat" where
  "decodeCbor bytes = then_read (cbor_value bytes 0 0) (\<lambda>(v, next). Inr (v, length bytes - next))"

definition decodeCborWhole :: "byte list \<Rightarrow> cbor_error + cbor" where
  "decodeCborWhole bytes = then_read (decodeCbor bytes) (\<lambda>(decoded, rest).
     if rest \<noteq> 0 then Inl (show_nat rest @ '' bytes follow the value'') else Inr decoded)"

fun mapEntry :: "cbor \<Rightarrow> cbor_key \<Rightarrow> cbor option" where
  "mapEntry (CMap entries) key = map_of entries key"
| "mapEntry _ key = None"

section \<open>Bounds\<close>

lemma cbor_argument_next:
  "cbor_argument bytes at minor = Inr (n, next) \<Longrightarrow> at \<le> next \<and> (next \<le> length bytes \<or> next = at)"
  by (auto simp: cbor_argument_def cbor_byte_def then_read_Inr split: if_splits)

text \<open>The values and map entries a decoded value is made of, and how deep they nest.\<close>

fun cbor_nodes :: "cbor \<Rightarrow> nat" where
  "cbor_nodes (CArr xs) = 1 + sum_list (map cbor_nodes xs)"
| "cbor_nodes (CMap es) = 1 + sum_list (map (\<lambda>e. 1 + cbor_nodes (snd e)) es)"
| "cbor_nodes _ = 1"

fun nests_within :: "nat \<Rightarrow> cbor \<Rightarrow> bool" where
  "nests_within d (CArr xs) = (\<forall>x \<in> set xs. 0 < d \<and> nests_within (d - 1) x)"
| "nests_within d (CMap es) = (\<forall>e \<in> set es. 0 < d \<and> nests_within (d - 1) (snd e))"
| "nests_within d _ = True"

lemma sum_list_map_set:
  "sum_list (map (\<lambda>e. 1 + cbor_nodes (snd e)) (map_set k v es)) \<le>
     sum_list (map (\<lambda>e. 1 + cbor_nodes (snd e)) es) + (1 + cbor_nodes v)"
  by (induction es) (auto simp: algebra_simps)

lemma set_map_set: "e \<in> set (map_set k v es) \<Longrightarrow> e \<in> set es \<or> snd e = v"
  by (induction es) (auto split: if_splits)

text \<open>What a value that was read can be.\<close>

lemma cbor_value_cases:
  assumes "cbor_value bytes at depth = Inr (v, next)"
  obtains (leaf) "depth \<le> MAX_DEPTH" "at < next" "next \<le> length bytes" "cbor_nodes v = 1" "\<And>d. nests_within d v"
  | (arr) initial n nx items where "depth \<le> MAX_DEPTH" "cbor_byte bytes at = Inr initial"
      "drop_bit 5 initial = 4" "cbor_argument bytes (at + 1) (initial AND 0x1f) = Inr (n, nx)"
      "cbor_items bytes nx (depth + 1) n [] = Inr (items, next)" "v = CArr items"
  | (entries) initial n nx es where "depth \<le> MAX_DEPTH" "cbor_byte bytes at = Inr initial"
      "drop_bit 5 initial = 5" "cbor_argument bytes (at + 1) (initial AND 0x1f) = Inr (n, nx)"
      "cbor_entries bytes nx (depth + 1) n [] = Inr (es, next)" "v = CMap es"
proof -
  from assms obtain initial where d: "depth \<le> MAX_DEPTH" and b: "cbor_byte bytes at = Inr initial"
    by (subst (asm) cbor_value.simps) (auto simp: then_read_Inr split: if_splits)
  note eq = assms [unfolded cbor_value.simps [of bytes at depth] b then_read_simps Let_def]
  from b have at: "at < length bytes" by (simp add: cbor_byte_def split: if_splits)
  consider "drop_bit 5 initial = 4" | "drop_bit 5 initial = 5"
    | "drop_bit 5 initial \<noteq> 4" "drop_bit 5 initial \<noteq> 5" by blast
  then show thesis
  proof cases
    case 1
    with eq d obtain n nx items where "cbor_argument bytes (at + 1) (initial AND 0x1f) = Inr (n, nx)"
      "cbor_items bytes nx (depth + 1) n [] = Inr (items, next)" "v = CArr items"
      by (auto simp: then_read_Inr)
    with arr d b 1 show ?thesis by blast
  next
    case 2
    with eq d obtain n nx es where "cbor_argument bytes (at + 1) (initial AND 0x1f) = Inr (n, nx)"
      "cbor_entries bytes nx (depth + 1) n [] = Inr (es, next)" "v = CMap es"
      by (auto simp: then_read_Inr)
    with entries d b 2 show ?thesis by blast
  next
    case 3
    with eq d at have "at < next \<and> next \<le> length bytes \<and> cbor_nodes v = 1 \<and> (\<forall>d. nests_within d v)"
      by (auto simp: then_read_Inr dest!: cbor_argument_next split: if_splits)
    with leaf d show ?thesis by blast
  qed
qed

text \<open>One invariant for the three readers: where they end, what they made and how deep it is.\<close>

lemma cbor_bounds:
  "cbor_value bytes at depth = Inr (v, next) \<Longrightarrow>
     at < next \<and> next \<le> length bytes \<and> cbor_nodes v \<le> next - at \<and> depth \<le> MAX_DEPTH
     \<and> nests_within (MAX_DEPTH - depth) v"
  "cbor_items bytes cursor depth n items = Inr (items', next1) \<Longrightarrow> cursor \<le> length bytes \<Longrightarrow>
     cursor \<le> next1 \<and> next1 \<le> length bytes
     \<and> sum_list (map cbor_nodes items') \<le> sum_list (map cbor_nodes items) + (next1 - cursor)
     \<and> (\<forall>x \<in> set items'. x \<in> set items \<or> depth \<le> MAX_DEPTH \<and> nests_within (MAX_DEPTH - depth) x)"
  "cbor_entries bytes cursor depth n entries = Inr (entries', next2) \<Longrightarrow> cursor \<le> length bytes \<Longrightarrow>
     cursor \<le> next2 \<and> next2 \<le> length bytes
     \<and> sum_list (map (\<lambda>e. 1 + cbor_nodes (snd e)) entries')
         \<le> sum_list (map (\<lambda>e. 1 + cbor_nodes (snd e)) entries) + (next2 - cursor)
     \<and> (\<forall>e \<in> set entries'. e \<in> set entries \<or> depth \<le> MAX_DEPTH \<and> nests_within (MAX_DEPTH - depth) (snd e))"
proof (induction bytes at depth and bytes cursor depth n items and bytes cursor depth n entries
    arbitrary: v "next" and items' next1 and entries' next2
    rule: cbor_value_cbor_items_cbor_entries.induct)
  case (1 bytes at depth)
  from 1(3) show ?case
  proof (cases rule: cbor_value_cases)
    case leaf
    then show ?thesis by simp
  next
    case (arr initial n nx items)
    then have nx: "at < nx" "nx \<le> length bytes"
      using cbor_argument_next [OF arr(4)] by (auto simp: cbor_byte_def split: if_splits)
    have "nx \<le> next \<and> next \<le> length bytes \<and> sum_list (map cbor_nodes items) \<le> next - nx
      \<and> (\<forall>x \<in> set items. depth + 1 \<le> MAX_DEPTH \<and> nests_within (MAX_DEPTH - (depth + 1)) x)"
      using 1(1) [OF _ arr(2) refl refl _ _ _ _ arr(3) arr(4) refl arr(5) nx(2)] arr(1,3) by simp
    with nx arr(1,6) show ?thesis by auto
  next
    case (entries initial n nx es)
    then have nx: "at < nx" "nx \<le> length bytes"
      using cbor_argument_next [OF entries(4)] by (auto simp: cbor_byte_def split: if_splits)
    have "nx \<le> next \<and> next \<le> length bytes \<and> sum_list (map (\<lambda>e. 1 + cbor_nodes (snd e)) es) \<le> next - nx
      \<and> (\<forall>e \<in> set es. depth + 1 \<le> MAX_DEPTH \<and> nests_within (MAX_DEPTH - (depth + 1)) (snd e))"
      using 1(2) [OF _ entries(2) refl refl _ _ _ _ _ entries(3) entries(4) refl entries(5) nx(2)]
        entries(1,3) by simp
    with nx entries(1,6) show ?thesis by auto
  qed
next
  case (2 bytes cursor depth n items)
  show ?case
  proof (cases "n = 0")
    case True
    with 2 show ?thesis by (simp add: cbor_items.simps)
  next
    case False
    with 2(3) obtain item nx where v: "cbor_value bytes cursor depth = Inr (item, nx)"
      and r: "cbor_items bytes nx depth (n - 1) (items @ [item]) = Inr (items', next1)"
      by (subst (asm) cbor_items.simps) (auto simp: then_read_Inr)
    from 2(1) [OF False v] have b: "cursor < nx" "nx \<le> length bytes" "cbor_nodes item \<le> nx - cursor"
      "depth \<le> MAX_DEPTH" "nests_within (MAX_DEPTH - depth) item" by blast+
    from 2(2) [OF False v refl r b(2)] b show ?thesis by auto
  qed
next
  case (3 bytes cursor depth n entries)
  show ?case
  proof (cases "n = 0")
    case True
    with 3 show ?thesis by (simp add: cbor_entries.simps)
  next
    case False
    with 3(4) obtain key nx k held ny where key: "cbor_value bytes cursor depth = Inr (key, nx)"
      "key_of key = Some k" and held: "cbor_value bytes nx depth = Inr (held, ny)"
      and r: "cbor_entries bytes ny depth (n - 1) (map_set k held entries) = Inr (entries', next2)"
      by (subst (asm) cbor_entries.simps) (auto simp: then_read_Inr split: option.splits)
    from 3(1) [OF False key(1)] have b: "cursor < nx" "nx \<le> length bytes" by blast+
    from 3(2) [OF False key(1) refl key(2) held] have h: "nx < ny" "ny \<le> length bytes"
      "cbor_nodes held \<le> ny - nx" "depth \<le> MAX_DEPTH" "nests_within (MAX_DEPTH - depth) held" by blast+
    from 3(3) [OF False key(1) refl key(2) held refl r h(2)] b h
      sum_list_map_set [of k held entries] set_map_set [of _ k held entries]
    show ?thesis by fastforce
  qed
qed

section \<open>Round trip\<close>

definition cbor_head :: "nat \<Rightarrow> nat \<Rightarrow> byte list" where
  "cbor_head major n =
     (if n < 24 then [32 * major + n]
      else if n < 0x100 then [32 * major + 24, n]
      else if n < 0x10000 then [32 * major + 25, n div 0x100, n mod 0x100]
      else [32 * major + 26, n div 0x1000000, n div 0x10000 mod 0x100, n div 0x100 mod 0x100, n mod 0x100])"

fun cbor_encode_key :: "cbor_key \<Rightarrow> byte list" where
  "cbor_encode_key (KNum i) = (if 0 \<le> i then cbor_head 0 (nat i) else cbor_head 1 (nat (- 1 - i)))"
| "cbor_encode_key (KStr t) = cbor_head 3 (length (utf8_encode t)) @ utf8_encode t"

fun cbor_encode :: "cbor \<Rightarrow> byte list" where
  "cbor_encode (CNum i) = cbor_encode_key (KNum i)"
| "cbor_encode (CStr t) = cbor_encode_key (KStr t)"
| "cbor_encode (CBytes bs) = cbor_head 2 (length bs) @ bs"
| "cbor_encode (CArr xs) = cbor_head 4 (length xs) @ concat (map cbor_encode xs)"
| "cbor_encode (CMap es) =
     cbor_head 5 (length es) @ concat (map (\<lambda>e. cbor_encode_key (fst e) @ cbor_encode (snd e)) es)"
| "cbor_encode (CBool b) = [if b then 0xf5 else 0xf4]"
| "cbor_encode CNull = [0xf6]"

text \<open>The values a conforming authenticator can state: numbers and lengths of 32 bits, text of
  Unicode scalars that does not open with a byte order mark, no key twice.\<close>

definition fits32 :: "nat \<Rightarrow> bool" where
  "fits32 n \<longleftrightarrow> n < 0x100000000"

fun key_stated :: "cbor_key \<Rightarrow> bool" where
  "key_stated (KNum i) = (if 0 \<le> i then fits32 (nat i) else fits32 (nat (- 1 - i)))"
| "key_stated (KStr t) = (fits32 (length (utf8_encode t)) \<and> (\<forall>c \<in> set t. scalar c) \<and> (t = [] \<or> hd t \<noteq> 0xFEFF))"

fun cbor_stated :: "cbor \<Rightarrow> bool" where
  "cbor_stated (CNum i) = key_stated (KNum i)"
| "cbor_stated (CStr t) = key_stated (KStr t)"
| "cbor_stated (CBytes bs) = fits32 (length bs)"
| "cbor_stated (CArr xs) = (fits32 (length xs) \<and> (\<forall>x \<in> set xs. cbor_stated x))"
| "cbor_stated (CMap es) = (fits32 (length es) \<and> map_wf es \<and> (\<forall>e \<in> set es. key_stated (fst e) \<and> cbor_stated (snd e)))"
| "cbor_stated _ = True"

fun key_cbor :: "cbor_key \<Rightarrow> cbor" where
  "key_cbor (KNum i) = CNum i"
| "key_cbor (KStr t) = CStr t"

lemma key_of_cbor [simp]: "key_of (key_cbor k) = Some k"
  by (cases k) simp_all

lemma and_31: "(x :: nat) AND 31 = x mod 32"
proof -
  have "x AND mask 5 = x mod 32"
    by (simp only: take_bit_eq_mask [symmetric]) (simp add: take_bit_eq_mod)
  moreover have "mask 5 = (31 :: nat)" by (simp add: mask_eq_exp_minus_1)
  ultimately show ?thesis by simp
qed

lemma push_8_or:
  assumes "y < 256"
  shows "push_bit 8 (x :: nat) OR y = 256 * x + y"
proof -
  from assms have y: "take_bit 8 y = y" by (simp add: take_bit_eq_mod)
  have "push_bit 8 x AND y = 0"
    by (subst y [symmetric], rule bit_eqI) (auto simp: bit_simps)
  then have "push_bit 8 x + y = push_bit 8 x OR y" by (rule disjunctive_add_eq_or)
  then show ?thesis by (simp add: push_bit_eq_mult)
qed

lemma cbor_byte_drop: "drop at bytes = xs @ rest \<Longrightarrow> i < length xs \<Longrightarrow> cbor_byte bytes (at + i) = Inr (xs ! i)"
proof -
  assume d: "drop at bytes = xs @ rest" and i: "i < length xs"
  from d have "length bytes - at = length xs + length rest" by (metis length_append length_drop)
  with i have "at + i < length bytes" by simp
  moreover have "bytes ! (at + i) = drop at bytes ! i" using calculation by simp
  ultimately show ?thesis using d i by (simp add: cbor_byte_def nth_append)
qed

lemma cbor_byte_drop5:
  assumes "drop at bytes = [x0, x1, x2, x3, x4] @ rest"
  shows "cbor_byte bytes (at + 1) = Inr x1" "cbor_byte bytes (at + 1 + 1) = Inr x2"
    "cbor_byte bytes (at + 1 + 2) = Inr x3" "cbor_byte bytes (at + 1 + 3) = Inr x4"
  using cbor_byte_drop [OF assms, of 1] cbor_byte_drop [OF assms, of 2]
    cbor_byte_drop [OF assms, of 3] cbor_byte_drop [OF assms, of 4]
  by (simp_all add: numeral_eq_Suc)

lemma div_mod_32: "m < 32 \<Longrightarrow> drop_bit 5 (32 * major + m) = (major :: nat)" "m < 32 \<Longrightarrow> (32 * major + m) AND 31 = m"
  by (simp_all add: drop_bit_eq_div and_31)

lemma nat_split_32:
  "(n :: nat) div 0x1000000 * 0x1000000 + n div 0x10000 mod 0x100 * 0x10000 + n div 0x100 mod 0x100 * 0x100 + n mod 0x100 = n"
proof -
  let ?a = "n div 0x100" and ?b = "n div 0x10000"
  have "?b = ?a div 0x100" "n div 0x1000000 = ?b div 0x100"
    by (simp_all add: div_mult2_eq [symmetric])
  moreover have "?a = ?a div 0x100 * 0x100 + ?a mod 0x100" "?b = ?b div 0x100 * 0x100 + ?b mod 0x100"
    "n = ?a * 0x100 + n mod 0x100" by simp_all
  ultimately show ?thesis by linarith
qed

lemma cbor_head_read:
  assumes d: "drop at bytes = cbor_head major n @ rest" and n: "fits32 n"
  obtains initial where "cbor_byte bytes at = Inr initial" "drop_bit 5 initial = major"
    "cbor_argument bytes (at + 1) (initial AND 0x1f) = Inr (n, at + length (cbor_head major n))"
proof -
  let ?h = "cbor_head major n"
  have b: "i < length ?h \<Longrightarrow> cbor_byte bytes (at + i) = Inr (?h ! i)" for i
    using cbor_byte_drop [OF d] .
  have h0: "cbor_byte bytes at = Inr (?h ! 0)" using b [of 0] by (simp add: cbor_head_def)
  consider "n < 24" | "24 \<le> n" "n < 0x100" | "0x100 \<le> n" "n < 0x10000" | "0x10000 \<le> n" by linarith
  then show thesis
  proof cases
    case 1
    with that [of "?h ! 0"] h0 show ?thesis
      by (simp add: cbor_head_def div_mod_32 cbor_argument_def)
  next
    case 2
    with that [of "?h ! 0"] h0 b [of 1] show ?thesis
      by (simp add: cbor_head_def div_mod_32 cbor_argument_def)
  next
    case 3
    with that [of "?h ! 0"] h0 b [of 1] b [of 2] show ?thesis
      by (simp add: cbor_head_def div_mod_32 cbor_argument_def push_8_or)
  next
    case 4
    then have h: "?h = [32 * major + 26, n div 0x1000000, n div 0x10000 mod 0x100, n div 0x100 mod 0x100, n mod 0x100]"
      by (simp add: cbor_head_def)
    note reads = cbor_byte_drop5 [OF d [unfolded h]]
    have "cbor_argument bytes (at + 1) 26 = Inr (n, at + 1 + 4)"
      using nat_split_32 [of n] unfolding cbor_argument_def reads
      by (simp add: push_bit_eq_mult)
    with that [of "?h ! 0"] h0 show ?thesis by (simp add: h div_mod_32)
  qed
qed

lemma drop_append: "drop at bytes = xs @ rest \<Longrightarrow> drop (at + length xs) bytes = rest"
  by (metis add.commute append_eq_conv_conj drop_drop)

lemma drop_bound: "drop at bytes = xs @ rest \<Longrightarrow> xs \<noteq> [] \<Longrightarrow> at + length xs \<le> length bytes"
proof -
  assume a: "drop at bytes = xs @ rest" "xs \<noteq> []"
  then have "length bytes - at = length xs + length rest" by (metis length_append length_drop)
  moreover have "0 < length xs" using a by simp
  ultimately show ?thesis by linarith
qed

lemma subarray_drop: "drop at bytes = xs @ rest \<Longrightarrow> subarray bytes at (at + length xs) = xs"
  by (simp add: subarray_def)

lemma cbor_head_nonempty [simp]: "cbor_head major n \<noteq> []"
  by (simp add: cbor_head_def)

text \<open>A head followed by that many bytes.\<close>

lemma cbor_string_read:
  assumes "drop at bytes = (cbor_head major (length xs) @ xs) @ rest" and "fits32 (length xs)"
  obtains initial nx where "cbor_byte bytes at = Inr initial" "drop_bit 5 initial = major"
    "cbor_argument bytes (at + 1) (initial AND 0x1f) = Inr (length xs, nx)"
    "nx + length xs = at + length (cbor_head major (length xs) @ xs)"
    "nx + length xs \<le> length bytes" "subarray bytes nx (nx + length xs) = xs"
proof -
  have d: "drop at bytes = cbor_head major (length xs) @ (xs @ rest)" using assms(1) by simp
  show ?thesis
    using cbor_head_read [OF d assms(2)] drop_bound [OF assms(1)] subarray_drop [OF drop_append [OF d]] that
    by (smt (verit) add.assoc append_is_Nil_conv cbor_head_nonempty length_append)
qed

lemma cbor_key_read:
  assumes "drop at bytes = cbor_encode_key k @ rest" "key_stated k" "depth \<le> MAX_DEPTH"
  shows "cbor_value bytes at depth = Inr (key_cbor k, at + length (cbor_encode_key k))"
proof (cases k)
  case (KNum i)
  define major n where "major = (if 0 \<le> i then 0 else 1 :: nat)" and "n = (if 0 \<le> i then nat i else nat (- 1 - i))"
  have "drop at bytes = cbor_head major n @ rest" "fits32 n"
    using assms KNum by (auto simp: major_def n_def split: if_splits)
  then obtain initial where b: "cbor_byte bytes at = Inr initial" "drop_bit 5 initial = major"
    "cbor_argument bytes (at + 1) (initial AND 0x1f) = Inr (n, at + length (cbor_head major n))"
    by (rule cbor_head_read)
  then show ?thesis
    using assms(3) KNum
    by (subst cbor_value.simps) (auto simp: major_def n_def Let_def split: if_splits)
next
  case (KStr t)
  with assms have "drop at bytes = (cbor_head 3 (length (utf8_encode t)) @ utf8_encode t) @ rest"
    "fits32 (length (utf8_encode t))" by simp_all
  then obtain initial nx where "cbor_byte bytes at = Inr initial" "drop_bit 5 initial = 3"
    "cbor_argument bytes (at + 1) (initial AND 0x1f) = Inr (length (utf8_encode t), nx)"
    "nx + length (utf8_encode t) = at + length (cbor_encode_key k)"
    "nx + length (utf8_encode t) \<le> length bytes"
    "subarray bytes nx (nx + length (utf8_encode t)) = utf8_encode t"
    by (rule cbor_string_read) (simp add: KStr)
  then show ?thesis
    using assms KStr utf8_decode_encode [of t] by (subst cbor_value.simps) (simp add: Let_def)
qed

lemma cbor_items_read:
  assumes "\<And>x at rest. x \<in> set xs \<Longrightarrow> drop at bytes = cbor_encode x @ rest \<Longrightarrow>
      cbor_value bytes at depth = Inr (x, at + length (cbor_encode x))"
    and "drop cursor bytes = concat (map cbor_encode xs) @ rest"
  shows "cbor_items bytes cursor depth (length xs) acc
    = Inr (acc @ xs, cursor + length (concat (map cbor_encode xs)))"
  using assms
proof (induction xs arbitrary: cursor acc)
  case Nil
  then show ?case by (simp add: cbor_items.simps)
next
  case (Cons x xs)
  from Cons.prems(2) have d: "drop cursor bytes = cbor_encode x @ (concat (map cbor_encode xs) @ rest)" by simp
  have v: "cbor_value bytes cursor depth = Inr (x, cursor + length (cbor_encode x))"
    by (rule Cons.prems(1) [OF _ d]) simp
  have "cbor_items bytes (cursor + length (cbor_encode x)) depth (length xs) (acc @ [x])
      = Inr ((acc @ [x]) @ xs, cursor + length (cbor_encode x) + length (concat (map cbor_encode xs)))"
    using Cons.prems(1) by (intro Cons.IH [OF _ drop_append [OF d]]) simp_all
  with v show ?case by (subst cbor_items.simps) simp
qed

abbreviation encode_entry :: "cbor_key \<times> cbor \<Rightarrow> byte list" where
  "encode_entry e \<equiv> cbor_encode_key (fst e) @ cbor_encode (snd e)"

lemma map_set_fresh: "k \<notin> set (map_keys m) \<Longrightarrow> map_set k v m = m @ [(k, v)]"
  by (induction m) auto

lemma cbor_entries_read:
  assumes "\<And>e at rest. e \<in> set es \<Longrightarrow> drop at bytes = cbor_encode (snd e) @ rest \<Longrightarrow>
      cbor_value bytes at depth = Inr (snd e, at + length (cbor_encode (snd e)))"
    and "drop cursor bytes = concat (map encode_entry es) @ rest"
    and "map_wf (acc @ es)" "\<forall>e \<in> set es. key_stated (fst e)" "depth \<le> MAX_DEPTH \<or> es = []"
  shows "cbor_entries bytes cursor depth (length es) acc
    = Inr (acc @ es, cursor + length (concat (map encode_entry es)))"
  using assms
proof (induction es arbitrary: cursor acc)
  case Nil
  then show ?case by (simp add: cbor_entries.simps)
next
  case (Cons e es)
  obtain k v where e: "e = (k, v)" by (cases e)
  let ?mid = "cursor + length (cbor_encode_key k)"
  from Cons.prems(2) have d: "drop cursor bytes = cbor_encode_key k @ (cbor_encode v @ (concat (map encode_entry es) @ rest))"
    by (simp add: e)
  note d2 = drop_append [OF d]
  have key: "cbor_value bytes cursor depth = Inr (key_cbor k, ?mid)"
    using Cons.prems(4,5) by (intro cbor_key_read [OF d]) (simp_all add: e)
  have held: "cbor_value bytes ?mid depth = Inr (v, ?mid + length (cbor_encode v))"
    using Cons.prems(1) [of e, OF _ d2 [folded snd_conv [of k v, folded e]]] by (simp add: e)
  have fresh: "map_set k v acc = acc @ [(k, v)]"
    using Cons.prems(3) by (intro map_set_fresh) (simp add: e)
  have "cbor_entries bytes (?mid + length (cbor_encode v)) depth (length es) (acc @ [(k, v)])
      = Inr ((acc @ [(k, v)]) @ es, ?mid + length (cbor_encode v) + length (concat (map encode_entry es)))"
    using Cons.prems by (intro Cons.IH [OF _ drop_append [OF d2]]) (simp_all add: e)
  with key held fresh show ?case by (subst cbor_entries.simps) (simp add: e)
qed

lemma cbor_encode_nonempty [simp]: "cbor_encode v \<noteq> []"
  by (cases v) simp_all

lemma cbor_value_encode:
  "drop at bytes = cbor_encode v @ rest \<Longrightarrow> cbor_stated v \<Longrightarrow> depth \<le> MAX_DEPTH \<Longrightarrow>
     nests_within (MAX_DEPTH - depth) v \<Longrightarrow>
     cbor_value bytes at depth = Inr (v, at + length (cbor_encode v))"
proof (induction v arbitrary: at rest depth)
  case (CNum i)
  then show ?case using cbor_key_read [of at bytes "KNum i" rest depth] by simp
next
  case (CStr t)
  then show ?case using cbor_key_read [of at bytes "KStr t" rest depth] by simp
next
  case (CBytes bs)
  then have "drop at bytes = (cbor_head 2 (length bs) @ bs) @ rest" "fits32 (length bs)" by simp_all
  then obtain initial nx where "cbor_byte bytes at = Inr initial" "drop_bit 5 initial = 2"
    "cbor_argument bytes (at + 1) (initial AND 0x1f) = Inr (length bs, nx)"
    "nx + length bs = at + length (cbor_encode (CBytes bs))" "nx + length bs \<le> length bytes"
    "subarray bytes nx (nx + length bs) = bs"
    by (rule cbor_string_read) simp
  then show ?case using CBytes by (subst cbor_value.simps) (simp add: Let_def)
next
  case (CArr xs)
  then have d: "drop at bytes = cbor_head 4 (length xs) @ (concat (map cbor_encode xs) @ rest)" by simp
  obtain initial where b: "cbor_byte bytes at = Inr initial" "drop_bit 5 initial = 4"
    "cbor_argument bytes (at + 1) (initial AND 0x1f) = Inr (length xs, at + length (cbor_head 4 (length xs)))"
    by (rule cbor_head_read [OF d]) (use CArr.prems in simp)
  have "cbor_items bytes (at + length (cbor_head 4 (length xs))) (depth + 1) (length xs) []
      = Inr ([] @ xs, at + length (cbor_head 4 (length xs)) + length (concat (map cbor_encode xs)))"
    using CArr.prems by (intro cbor_items_read [OF _ drop_append [OF d]] CArr.IH) auto
  with b CArr.prems show ?case by (subst cbor_value.simps) (simp add: Let_def)
next
  case (CMap es)
  then have d: "drop at bytes = cbor_head 5 (length es) @ (concat (map encode_entry es) @ rest)" by simp
  obtain initial where b: "cbor_byte bytes at = Inr initial" "drop_bit 5 initial = 5"
    "cbor_argument bytes (at + 1) (initial AND 0x1f) = Inr (length es, at + length (cbor_head 5 (length es)))"
    by (rule cbor_head_read [OF d]) (use CMap.prems in simp)
  have within: "depth + 1 \<le> MAX_DEPTH \<or> es = []"
    using CMap.prems(3,4) by (cases es) auto
  have "cbor_entries bytes (at + length (cbor_head 5 (length es))) (depth + 1) (length es) []
      = Inr ([] @ es, at + length (cbor_head 5 (length es)) + length (concat (map encode_entry es)))"
  proof (rule cbor_entries_read [OF _ drop_append [OF d] _ _ within])
    fix e at' rest'
    assume e: "e \<in> set es" and "drop at' bytes = cbor_encode (snd e) @ rest'"
    then show "cbor_value bytes at' (depth + 1) = Inr (snd e, at' + length (cbor_encode (snd e)))"
      using CMap.prems(2,4) within by (intro CMap.IH [OF e, of "snd e"]) (auto simp: snds.simps)
  qed (use CMap.prems in simp_all)
  with b CMap.prems show ?case by (subst cbor_value.simps) (simp add: Let_def)
next
  case (CBool x)
  then have "cbor_byte bytes at = Inr (if x then 0xf5 else 0xf4)"
    using cbor_byte_drop [of at bytes "cbor_encode (CBool x)" rest 0] by simp
  with CBool show ?case
    by (subst cbor_value.simps) (simp add: Let_def and_31 drop_bit_eq_div)
next
  case CNull
  then have "cbor_byte bytes at = Inr 0xf6"
    using cbor_byte_drop [of at bytes "cbor_encode CNull" rest 0] by simp
  with CNull show ?case
    by (subst cbor_value.simps) (simp add: Let_def and_31 drop_bit_eq_div)
qed

text \<open>
  C25: what a conforming authenticator encodes is read back exactly. Every value made of 32-bit
  numbers, byte and text strings, arrays, maps and the three simple values, nested no deeper
  than the limit, is decoded from its canonical encoding as itself; and the same bytes followed
  by anything else are refused.
\<close>

theorem cbor_roundtrip:
  assumes "cbor_stated v" and "nests_within MAX_DEPTH v"
  shows "decodeCborWhole (cbor_encode v) = Inr v
    \<and> (\<forall>b bs. decodeCborWhole (cbor_encode v @ b # bs) = Inl (show_nat (Suc (length bs)) @ '' bytes follow the value''))"
proof -
  have "cbor_value (cbor_encode v @ rest) 0 0 = Inr (v, length (cbor_encode v))" for rest
    using cbor_value_encode [of 0 "cbor_encode v @ rest" v rest 0] assms by simp
  from this [of "[]"] this show ?thesis
    by (simp add: decodeCborWhole_def decodeCbor_def)
qed

theorem cbor_roundtrip_witness:
  "decodeCborWhole (cbor_encode (CMap [(KNum 1, CNum 2), (KNum (- 3), CBytes [7, 255]), (KStr [102], CArr [CBool True])]))
     = Inr (CMap [(KNum 1, CNum 2), (KNum (- 3), CBytes [7, 255]), (KStr [102], CArr [CBool True])])"
  using cbor_roundtrip [of "CMap [(KNum 1, CNum 2), (KNum (- 3), CBytes [7, 255]), (KStr [102], CArr [CBool True])]"]
  by (simp add: fits32_def MAX_DEPTH_def scalar_def utf8_encode_def utf8_char_def)

text \<open>
  C26: reading attacker-supplied bytes is bounded. Whatever the input, decoding answers; a value
  it answers with ends inside the input, is made of no more values and entries than the bytes
  it took, and nests no deeper than the limit.
\<close>

theorem cbor_decoding_is_bounded:
  assumes "decodeCbor bytes = Inr (v, rest)"
  shows "rest < length bytes \<and> cbor_nodes v \<le> length bytes - rest \<and> nests_within MAX_DEPTH v"
proof -
  from assms obtain "next" where n: "cbor_value bytes 0 0 = Inr (v, next)" and r: "rest = length bytes - next"
    by (auto simp: decodeCbor_def then_read_Inr)
  from cbor_bounds(1) [OF n] r show ?thesis by auto
qed

theorem cbor_decoding_is_bounded_witness:
  "decodeCbor [0x82, 1, 2, 9] = Inr (CArr [CNum 1, CNum 2], 1)
   \<and> cbor_nodes (CArr [CNum 1, CNum 2]) \<le> 4 - (1 :: nat)"
proof -
  have "decodeCbor [0x82, 1, 2, 9] = Inr (CArr [CNum 1, CNum 2], 1)"
    by (simp add: decodeCbor_def cbor_value.simps cbor_items.simps cbor_byte_def cbor_argument_def
        MAX_DEPTH_def Let_def and_31 drop_bit_eq_div)
  with cbor_decoding_is_bounded [OF this] show ?thesis by simp
qed

end
