(* ===== verification/Egress.thy ===== *)
theory Egress
  imports Prelude
begin

text \<open>
  \<open>src/topics/egress.ts\<close>: one terminal's outgoing frames, gathered and let go on a period.

  \<open>#folded\<close> maps a fold key to the very entry that stands in the queue, so that a restatement
  writes through it; an entry is named by its position, which does not move while the queue
  stands. The clock is an argument of every step and the armed timer is the instant it is due.
  \<open>eg_sent\<close> records what was handed to \<open>conn.send\<close>, with the key it folded on.
\<close>

section \<open>The queue\<close>

definition FLUSH_PERIOD_MS :: int where
  "FLUSH_PERIOD_MS = 100"

definition QUEUE_LIMIT :: nat where
  "QUEUE_LIMIT = 256"

type_synonym 'f pending = "string option \<times> 'f"

record 'f egress =
  eg_queue :: "'f pending list"
  eg_folded :: "(string, nat) js_map"
  eg_kept :: nat
  eg_lastFlush :: "int option"
  eg_timer :: "int option"
  eg_periodMs :: int
  eg_limit :: nat
  eg_sent :: "'f pending list"

text \<open>\<open>Number.NEGATIVE_INFINITY\<close> is \<open>None\<close>.\<close>

definition Egress :: "int option \<Rightarrow> nat option \<Rightarrow> 'f egress" where
  "Egress periodMs limit =
     \<lparr>eg_queue = [], eg_folded = [], eg_kept = 0, eg_lastFlush = None, eg_timer = None,
      eg_periodMs = (case periodMs of None \<Rightarrow> FLUSH_PERIOD_MS | Some p \<Rightarrow> p),
      eg_limit = (case limit of None \<Rightarrow> QUEUE_LIMIT | Some l \<Rightarrow> l), eg_sent = []\<rparr>"

definition eg_flush :: "int \<Rightarrow> 'f egress \<Rightarrow> 'f egress" where
  "eg_flush now e =
     e\<lparr>eg_timer := None, eg_lastFlush := Some now, eg_queue := [], eg_folded := [], eg_kept := 0,
       eg_sent := eg_sent e @ eg_queue e\<rparr>"

definition eg_release :: "int \<Rightarrow> 'f egress \<Rightarrow> 'f egress" where
  "eg_release = eg_flush"

definition eg_arm :: "int \<Rightarrow> 'f egress \<Rightarrow> 'f egress" where
  "eg_arm now e =
     (if eg_timer e \<noteq> None then e
      else case eg_lastFlush e of
        None \<Rightarrow> eg_flush now e
      | Some prior \<Rightarrow>
          (let wait = eg_periodMs e - (now - prior) in
           if wait \<le> 0 then eg_flush now e else e\<lparr>eg_timer := Some (now + wait)\<rparr>))"

definition eg_push :: "int \<Rightarrow> 'f \<Rightarrow> string option \<Rightarrow> 'f egress \<Rightarrow> bool \<times> 'f egress" where
  "eg_push now frame key e =
     (case key of
        None \<Rightarrow>
          if eg_kept e \<ge> eg_limit e then (False, e)
          else (True, eg_arm now (e\<lparr>eg_kept := eg_kept e + 1, eg_queue := eg_queue e @ [(None, frame)]\<rparr>))
      | Some k \<Rightarrow>
          (case map_of (eg_folded e) k of
             Some i \<Rightarrow> (True, eg_arm now (e\<lparr>eg_queue := (eg_queue e)[i := (Some k, frame)]\<rparr>))
           | None \<Rightarrow>
               (True, eg_arm now (e\<lparr>eg_queue := eg_queue e @ [(Some k, frame)],
                  eg_folded := map_set k (length (eg_queue e)) (eg_folded e)\<rparr>))))"

text \<open>The callback of the armed timer.\<close>

definition eg_due :: "int \<Rightarrow> 'f egress \<Rightarrow> 'f egress" where
  "eg_due now e = (if eg_timer e = None then e else eg_flush now (e\<lparr>eg_timer := None\<rparr>))"

section \<open>What it refines\<close>

text \<open>A queue in which a frame that folds replaces the one waiting under its key where it
  stands.\<close>

definition put_entry :: "string option \<Rightarrow> 'f \<Rightarrow> 'f pending list \<Rightarrow> 'f pending list" where
  "put_entry key frame q = (case key of None \<Rightarrow> q @ [(None, frame)] | Some k \<Rightarrow> map_set (Some k) frame q)"

definition positions_right :: "(string, nat) js_map \<Rightarrow> 'f pending list \<Rightarrow> bool" where
  "positions_right folded q \<longleftrightarrow>
     (\<forall>k i. map_of folded k = Some i \<longleftrightarrow> i < length q \<and> fst (q ! i) = Some k)"

definition unfolded :: "'f pending list \<Rightarrow> 'f list" where
  "unfolded q = map snd (filter (\<lambda>p. fst p = None) q)"

definition eg_inv :: "'f egress \<Rightarrow> bool" where
  "eg_inv e \<longleftrightarrow> positions_right (eg_folded e) (eg_queue e) \<and> eg_kept e = length (unfolded (eg_queue e)) \<and> eg_kept e \<le> eg_limit e
     \<and> (case eg_timer e of
          None \<Rightarrow> eg_queue e = []
        | Some due \<Rightarrow> (\<exists>prior. eg_lastFlush e = Some prior \<and> due = prior + eg_periodMs e))"

lemma update_at:
  assumes "i < length q" "fst (q ! i) = K" "\<And>j. j < length q \<Longrightarrow> fst (q ! j) = K \<Longrightarrow> j = i"
  shows "map_set K v q = q[i := (K, v)]"
  using assms
proof (induction q arbitrary: i)
  case (Cons p q)
  show ?case
  proof (cases i)
    case 0
    with Cons.prems show ?thesis by (cases p) simp
  next
    case (Suc j)
    with Cons.prems(3) [of 0] have "fst p \<noteq> K" by auto
    moreover have "map_set K v q = q[j := (K, v)]"
      using Cons.prems Suc by (intro Cons.IH) force+
    ultimately show ?thesis using Suc by (cases p) simp
  qed
qed simp

lemma update_absent: "K \<notin> fst ` set q \<Longrightarrow> map_set K v q = q @ [(K, v)]"
  by (induction q) auto

lemma eg_flush_inv: "eg_inv (eg_flush now e)"
  by (simp add: eg_inv_def eg_flush_def positions_right_def unfolded_def)

text \<open>Arming keeps what waits, or sends all of it.\<close>

lemma eg_arm_cases:
  "eg_arm now e = e \<and> eg_timer e \<noteq> None
   \<or> eg_arm now e = eg_flush now e \<and> eg_timer e = None
   \<or> (\<exists>prior. eg_arm now e = e\<lparr>eg_timer := Some (prior + eg_periodMs e)\<rparr> \<and> eg_lastFlush e = Some prior
        \<and> now < prior + eg_periodMs e \<and> eg_timer e = None)"
  by (auto simp: eg_arm_def Let_def algebra_simps split: option.splits)

text \<open>What was sent and what waits, together.\<close>

definition eg_all :: "'f egress \<Rightarrow> 'f pending list" where
  "eg_all e = eg_sent e @ eg_queue e"

lemma eg_flush_all [simp]: "eg_all (eg_flush now e) = eg_all e"
  by (simp add: eg_all_def eg_flush_def)

lemma eg_arm_all [simp]: "eg_all (eg_arm now e) = eg_all e"
  using eg_arm_cases [of now e] by (auto simp: eg_all_def eg_flush_def)

lemma eg_arm_inv:
  assumes "positions_right (eg_folded e) (eg_queue e)" "eg_kept e = length (unfolded (eg_queue e))"
    "eg_kept e \<le> eg_limit e"
    "eg_timer e \<noteq> None \<Longrightarrow> eg_timer e = map_option (\<lambda>p. p + eg_periodMs e) (eg_lastFlush e)"
  shows "eg_inv (eg_arm now e)"
  using eg_arm_cases [of now e]
proof (elim disjE exE conjE)
  assume a: "eg_arm now e = e" "eg_timer e \<noteq> None"
  with assms(4) obtain prior where "eg_timer e = Some (prior + eg_periodMs e)" "eg_lastFlush e = Some prior"
    by auto
  with assms a show ?thesis by (simp add: eg_inv_def)
next
  assume "eg_arm now e = eg_flush now e" then show ?thesis by (simp add: eg_flush_inv)
next
  fix prior
  assume "eg_arm now e = e\<lparr>eg_timer := Some (prior + eg_periodMs e)\<rparr>" "eg_lastFlush e = Some prior"
  with assms(1-3) show ?thesis by (simp add: eg_inv_def)
qed

lemma unfolded_simps [simp]:
  "unfolded (p @ q) = unfolded p @ unfolded q" "unfolded [(None, f)] = [f]" "unfolded [(Some k, f)] = []"
  by (simp_all add: unfolded_def)

lemma unfolded_map_set [simp]: "unfolded (map_set (Some k) v q) = unfolded q"
  by (induction q) (auto simp: unfolded_def)

lemma positions_unfolded: "positions_right fm q \<Longrightarrow> positions_right fm (q @ [(None, f)])"
  unfolding positions_right_def by (metis fst_conv length_append_singleton less_Suc_eq nth_append nth_append_length option.distinct(1))

lemma positions_new:
  assumes "positions_right fm q" "map_of fm k = None"
  shows "positions_right (map_set k (length q) fm) (q @ [(Some k, f)])"
  unfolding positions_right_def
proof (intro allI)
  fix k' i
  have none: "\<not> (j < length q \<and> fst (q ! j) = Some k)" for j
    using assms unfolding positions_right_def by (metis option.distinct(1))
  show "map_of (map_set k (length q) fm) k' = Some i \<longleftrightarrow>
      i < length (q @ [(Some k, f)]) \<and> fst ((q @ [(Some k, f)]) ! i) = Some k'"
    using assms none [of i] unfolding positions_right_def
    by (cases "i < length q"; cases "k' = k"; cases "i = length q") (auto simp: nth_append)
qed

lemma positions_same:
  assumes "positions_right fm q" "map_of fm k = Some i"
  shows "positions_right fm (q[i := (Some k, f)])"
proof -
  from assms have i: "i < length q" "fst (q ! i) = Some k" unfolding positions_right_def by blast+
  have "fst (q[i := (Some k, f)] ! j) = fst (q ! j)" if "j < length q" for j
    using i that by (cases "j = i") simp_all
  with assms(1) show ?thesis unfolding positions_right_def by (metis length_list_update)
qed

lemma put_entry_positions:
  assumes pos: "positions_right fm q"
  shows "map_of fm k = None \<Longrightarrow> put_entry (Some k) f q = q @ [(Some k, f)]"
    and "map_of fm k = Some i \<Longrightarrow> put_entry (Some k) f q = q[i := (Some k, f)]"
proof -
  assume "map_of fm k = None"
  with pos have "\<not> (j < length q \<and> fst (q ! j) = Some k)" for j
    unfolding positions_right_def by (metis option.distinct(1))
  then have "Some k \<notin> fst ` set q" by (metis (no_types, lifting) imageE in_set_conv_nth)
  then show "put_entry (Some k) f q = q @ [(Some k, f)]" by (simp add: put_entry_def update_absent)
next
  assume i: "map_of fm k = Some i"
  have "map_set (Some k) f q = q[i := (Some k, f)]"
  proof (rule update_at)
    show "i < length q" "fst (q ! i) = Some k" using pos i unfolding positions_right_def by blast+
    show "j = i" if "j < length q" "fst (q ! j) = Some k" for j
      using pos i that unfolding positions_right_def by (metis option.inject)
  qed
  then show "put_entry (Some k) f q = q[i := (Some k, f)]" by (simp add: put_entry_def)
qed

lemma unfolded_put: "unfolded (put_entry (Some k) f q) = unfolded q"
  by (simp add: put_entry_def)

text \<open>One push: refused and unchanged when the limit is reached, and otherwise the refinement.\<close>

lemma eg_push_refines:
  assumes inv: "eg_inv e"
  shows "eg_inv (snd (eg_push now frame key e))"
    and "fst (eg_push now frame key e) \<longleftrightarrow> key \<noteq> None \<or> length (unfolded (eg_queue e)) < eg_limit e"
    and "eg_all (snd (eg_push now frame key e)) =
      (if fst (eg_push now frame key e) then eg_sent e @ put_entry key frame (eg_queue e) else eg_all e)"
proof -
  let ?r = "eg_push now frame key e"
  have pos: "positions_right (eg_folded e) (eg_queue e)" and kept: "eg_kept e = length (unfolded (eg_queue e))"
    and lim: "eg_kept e \<le> eg_limit e"
    and due: "eg_timer e \<noteq> None \<Longrightarrow> eg_timer e = map_option (\<lambda>p. p + eg_periodMs e) (eg_lastFlush e)"
    using inv by (auto simp: eg_inv_def split: option.splits)
  have "eg_inv (snd ?r) \<and> (fst ?r \<longleftrightarrow> key \<noteq> None \<or> length (unfolded (eg_queue e)) < eg_limit e)
      \<and> eg_all (snd ?r) = (if fst ?r then eg_sent e @ put_entry key frame (eg_queue e) else eg_all e)"
  proof (cases key)
    case None
    show ?thesis
    proof (cases "eg_kept e < eg_limit e")
      case True
      let ?e = "e\<lparr>eg_kept := eg_kept e + 1, eg_queue := eg_queue e @ [(None, frame)]\<rparr>"
      have "?r = (True, eg_arm now ?e)" using None True by (simp add: eg_push_def)
      moreover have "eg_inv (eg_arm now ?e)"
        using positions_unfolded [OF pos] kept True due by (intro eg_arm_inv) simp_all
      moreover have "eg_all ?e = eg_sent e @ put_entry None frame (eg_queue e)"
        by (simp add: eg_all_def put_entry_def)
      ultimately show ?thesis using None True kept by simp
    next
      case False
      then have "?r = (False, e)" using None by (simp add: eg_push_def)
      then show ?thesis using None False kept inv by simp
    qed
  next
    case (Some k)
    define e' where "e' = (case map_of (eg_folded e) k of
        Some i \<Rightarrow> e\<lparr>eg_queue := (eg_queue e)[i := (Some k, frame)]\<rparr>
      | None \<Rightarrow> e\<lparr>eg_queue := eg_queue e @ [(Some k, frame)],
                  eg_folded := map_set k (length (eg_queue e)) (eg_folded e)\<rparr>)"
    have r: "?r = (True, eg_arm now e')" using Some by (simp add: eg_push_def e'_def split: option.splits)
    have q: "eg_queue e' = put_entry (Some k) frame (eg_queue e)" "eg_sent e' = eg_sent e"
      "eg_kept e' = eg_kept e" "eg_limit e' = eg_limit e" "eg_timer e' = eg_timer e"
      "eg_lastFlush e' = eg_lastFlush e" "eg_periodMs e' = eg_periodMs e"
      using put_entry_positions [OF pos, of k] by (simp_all add: e'_def split: option.splits)
    have p: "positions_right (eg_folded e') (eg_queue e')"
      using positions_new [OF pos, of k] positions_same [OF pos, of k] by (simp add: e'_def split: option.splits)
    have "eg_inv (eg_arm now e')"
      by (rule eg_arm_inv) (use p kept lim due in \<open>simp_all add: q unfolded_put\<close>)
    with r Some q(1,2) show ?thesis by (simp add: eg_all_def [of e'])
  qed
  then show "eg_inv (snd ?r)"
    and "fst ?r \<longleftrightarrow> key \<noteq> None \<or> length (unfolded (eg_queue e)) < eg_limit e"
    and "eg_all (snd ?r) = (if fst ?r then eg_sent e @ put_entry key frame (eg_queue e) else eg_all e)"
    by blast+
qed

section \<open>Runs\<close>

datatype 'f egress_event = EgPush int 'f "string option" | EgDue int | EgRelease int

text \<open>The terminal after a run, and the frames it took.\<close>

fun eg_step :: "'f egress \<times> 'f pending list \<Rightarrow> 'f egress_event \<Rightarrow> 'f egress \<times> 'f pending list" where
  "eg_step (e, taken) (EgPush now frame key) =
     (let (ok, e') = eg_push now frame key e in (e', if ok then taken @ [(key, frame)] else taken))"
| "eg_step (e, taken) (EgDue now) = (eg_due now e, taken)"
| "eg_step (e, taken) (EgRelease now) = (eg_release now e, taken)"

definition eg_run :: "int option \<Rightarrow> nat option \<Rightarrow> 'f egress_event list \<Rightarrow> 'f egress \<times> 'f pending list" where
  "eg_run periodMs limit evs = foldl eg_step (Egress periodMs limit, []) evs"

text \<open>The latest frame of a list under a fold key.\<close>

definition latest :: "string \<Rightarrow> 'f pending list \<Rightarrow> 'f option" where
  "latest k ps = map_of (rev ps) (Some k)"

lemma latest_append: "latest k (ps @ qs) = (case latest k qs of None \<Rightarrow> latest k ps | Some f \<Rightarrow> Some f)"
  by (simp add: latest_def map_add_def split: option.splits)

lemma latest_mid:
  "latest k (ps @ p # qs) = (case latest k qs of
     Some f \<Rightarrow> Some f | None \<Rightarrow> if fst p = Some k then Some (snd p) else latest k ps)"
  by (cases p) (auto simp: latest_def map_add_def split: option.splits)

lemma latest_snoc [simp]: "latest k (ps @ [(key, f)]) = (if key = Some k then Some f else latest k ps)"
  by (simp add: latest_append) (simp add: latest_def)

lemma latest_at:
  assumes "i < length q" "fst (q ! i) = Some k" "\<And>j. j < length q \<Longrightarrow> fst (q ! j) = Some k \<Longrightarrow> j = i"
  shows "latest k' (q[i := (Some k, f)]) = (if k' = k then Some f else latest k' q)"
proof -
  have split: "q = take i q @ q ! i # drop (Suc i) q" using assms(1) by (rule id_take_nth_drop)
  have upd: "q[i := (Some k, f)] = take i q @ (Some k, f) # drop (Suc i) q"
    using assms(1) by (rule upd_conv_take_nth_drop)
  have "latest k (drop (Suc i) q) = None"
  proof -
    have "Some k \<notin> fst ` set (drop (Suc i) q)"
    proof
      assume "Some k \<in> fst ` set (drop (Suc i) q)"
      then obtain j where "j < length (drop (Suc i) q)" "fst (drop (Suc i) q ! j) = Some k"
        by (metis (no_types, lifting) imageE in_set_conv_nth)
      then have "fst (q ! (Suc i + j)) = Some k" "Suc i + j < length q" by simp_all
      with assms(3) show False by fastforce
    qed
    then show ?thesis by (simp add: latest_def map_of_eq_None_iff)
  qed
  then show ?thesis
    using arg_cong [OF split, of "latest k'"] assms(2)
    by (cases "k' = k") (simp_all add: upd latest_mid)
qed

lemma latest_put:
  assumes "positions_right fm q"
  shows "latest k (put_entry key f q) = (if key = Some k then Some f else latest k q)"
proof (cases key)
  case None
  then show ?thesis by (simp add: put_entry_def)
next
  case (Some k')
  show ?thesis
  proof (cases "map_of fm k'")
    case None
    then show ?thesis using put_entry_positions(1) [OF assms None] Some by auto
  next
    case (Some i)
    have "latest k (q[i := (Some k', f)]) = (if k = k' then Some f else latest k q)"
      using assms Some unfolding positions_right_def by (intro latest_at) (metis option.inject)+
    then show ?thesis using put_entry_positions(2) [OF assms Some] \<open>key = Some k'\<close> by auto
  qed
qed

definition eg_faithful :: "'f egress \<Rightarrow> 'f pending list \<Rightarrow> bool" where
  "eg_faithful e taken \<longleftrightarrow> unfolded (eg_all e) = unfolded taken \<and> (\<forall>k. latest k (eg_all e) = latest k taken)
     \<and> set (eg_all e) \<subseteq> set taken"

lemma set_put_entry: "set (put_entry key f q) \<subseteq> insert (key, f) (set q)"
proof (cases key)
  case (Some k)
  have "set (map_set (Some k) f q) \<subseteq> insert (Some k, f) (set q)" by (induction q) (auto split: if_splits)
  with Some show ?thesis by (simp add: put_entry_def)
qed (simp add: put_entry_def)

lemma eg_faithful_push:
  assumes inv: "eg_inv e" and f: "eg_faithful e taken" and ok: "fst (eg_push now frame key e)"
  shows "eg_faithful (snd (eg_push now frame key e)) (taken @ [(key, frame)])"
proof -
  have all: "eg_all (snd (eg_push now frame key e)) = eg_sent e @ put_entry key frame (eg_queue e)"
    using eg_push_refines(3) [OF inv] ok by simp
  have pos: "positions_right (eg_folded e) (eg_queue e)" using inv by (simp add: eg_inv_def)
  have "unfolded (put_entry key frame (eg_queue e)) = unfolded (eg_queue e) @ unfolded [(key, frame)]"
    by (cases key) (simp_all add: put_entry_def)
  moreover have "latest k (eg_sent e @ put_entry key frame (eg_queue e)) =
      (if key = Some k then Some frame else latest k (eg_all e))" for k
    by (simp add: latest_append [of k "eg_sent e"] latest_put [OF pos] eg_all_def)
  ultimately show ?thesis
    using f set_put_entry [of key frame "eg_queue e"] unfolding eg_faithful_def all
    by (auto simp: eg_all_def)
qed

lemma eg_due_all [simp]: "eg_all (eg_due now e) = eg_all e"
  by (simp add: eg_due_def eg_all_def eg_flush_def)

lemma eg_due_inv: "eg_inv e \<Longrightarrow> eg_inv (eg_due now e)"
  by (simp add: eg_due_def eg_flush_inv)

lemma eg_run_inv:
  "eg_inv (fst (eg_run p l evs)) \<and> eg_faithful (fst (eg_run p l evs)) (snd (eg_run p l evs))"
proof (induction evs rule: rev_induct)
  case Nil
  then show ?case
    by (simp add: eg_run_def Egress_def eg_inv_def eg_faithful_def eg_all_def positions_right_def unfolded_def)
next
  case (snoc ev evs)
  obtain e taken where r: "eg_run p l evs = (e, taken)" by fastforce
  then have r': "eg_run p l (evs @ [ev]) = eg_step (e, taken) ev" by (simp add: eg_run_def)
  from snoc r have inv: "eg_inv e" and f: "eg_faithful e taken" by simp_all
  show ?case
  proof (cases ev)
    case (EgPush now frame key)
    then show ?thesis
      using r' eg_push_refines(1,3) [OF inv, of now frame key] eg_faithful_push [OF inv f, of now frame key] f
      by (auto simp: eg_faithful_def split: prod.splits)
  next
    case (EgDue now)
    then show ?thesis using r' eg_due_inv [OF inv] f by (simp add: eg_faithful_def)
  next
    case (EgRelease now)
    then show ?thesis using r' f by (simp add: eg_release_def eg_flush_inv eg_faithful_def)
  qed
qed

text \<open>
  C13: gathering frames loses nothing that matters. Whatever is pushed and whenever the timer
  fires, among the frames sent and waiting every occurrence that was taken stands exactly once
  and in the order it was raised, the last frame under each fold key is the last one taken
  under it, and nothing else is there.
\<close>

theorem egress_keeps_occurrences_and_latest_values:
  "let (e, taken) = eg_run p l evs; out = eg_sent e @ eg_queue e in
     unfolded out = unfolded taken \<and> (\<forall>k. latest k out = latest k taken) \<and> set out \<subseteq> set taken"
  using eg_run_inv [of p l evs] by (auto simp: eg_faithful_def eg_all_def Let_def split: prod.splits)

text \<open>
  A terminal that cannot keep up holds a bounded number of occurrences, and nothing waits
  past the period. After any run at most the limit of frames that do not fold are waiting, a
  push is refused only when an occurrence finds that many, and whenever a frame waits a flush
  is armed for the instant one period after the last flush.
\<close>

theorem egress_bounded_and_armed:
  "let e = fst (eg_run p l evs) in
     length (unfolded (eg_queue e)) \<le> eg_limit e
     \<and> (\<forall>now frame key. \<not> fst (eg_push now frame key e) \<longleftrightarrow> key = None \<and> length (unfolded (eg_queue e)) = eg_limit e)
     \<and> (eg_queue e = [] \<or> (\<exists>prior. eg_lastFlush e = Some prior \<and> eg_timer e = Some (prior + eg_periodMs e)))"
proof -
  let ?e = "fst (eg_run p l evs)"
  have inv: "eg_inv ?e" using eg_run_inv by blast
  then have le: "length (unfolded (eg_queue ?e)) \<le> eg_limit ?e" by (simp add: eg_inv_def)
  moreover have "\<not> fst (eg_push now frame key ?e) \<longleftrightarrow> key = None \<and> length (unfolded (eg_queue ?e)) = eg_limit ?e"
    for now frame key
    unfolding eg_push_refines(2) [OF inv] using le by auto
  moreover have "eg_queue ?e = [] \<or> (\<exists>prior. eg_lastFlush ?e = Some prior \<and> eg_timer ?e = Some (prior + eg_periodMs ?e))"
    using inv by (auto simp: eg_inv_def split: option.splits)
  ultimately show ?thesis by (simp only: Let_def) blast
qed

end
