(* ===== verification/Topics.thy ===== *)
theory Topics
  imports Egress Dispatch
begin

text \<open>
  \<open>src/topics/topics.ts\<close> and \<open>handlers.ts\<close>: subscriptions, the one way a value reaches them, and
  the suppression every topic shares.

  A connection is a number; its identity and whether it is gone are part of the state. \<open>subscribe\<close>
  waits for the owner's snapshot, so it is two operations: up to the wait, and from a snapshot
  that came back or failed. What the wait holds on to is the \<^emph>\<open>object\<close> that was the topic's set of
  opening subscriptions when it began, which the topic may have let go of since: the sets live
  in a store (\<open>tp_sets\<close>) and the map \<open>#opening\<close> and each wait name one of them.

  The calls made to the owner of a kind and to the rest of the mesh are recorded in \<open>tp_calls\<close>,
  the frames put off until after a reply in \<open>tp_deferred\<close>, all that was
  written for a terminal by the time it was let go in \<open>tp_released\<close>. The topic table is the contract's and
  arrives as \<open>topic_contract\<close>; \<open>stringify\<close> stands for \<open>JSON.stringify\<close>.
\<close>

section \<open>State\<close>

record topic_contract =
  topicKind :: "topic_name \<Rightarrow> string option"
  topicGranularity :: "topic_name \<Rightarrow> string"
  topicRoles :: "string \<Rightarrow> role list"
  topicCapability :: "string \<Rightarrow> string option"

datatype publish_outcome = PubOk | RateLimited

datatype subscribe_outcome = SubOk | TopicUnknown | SubForbidden | CapabilityUnavailable

datatype audience = ToSession sid | People

datatype 'd topic_frame = TopicFrame topic_name bool instance_id 'd

datatype upstream_call = Start topic_name | Stop topic_name | Demand topic_name bool

type_synonym conn_ref = nat

record 'd topics =
  tp_capabilities :: "string list"
  tp_attached :: "string list"
  tp_remote :: bool
  tp_identity :: "conn_ref \<Rightarrow> conn_identity"
  tp_gone :: "conn_ref list"
  tp_subscribers :: "(topic_name, conn_ref list) js_map"
  tp_lastSent :: "(topic_name, (instance_id, string) js_map) js_map"
  tp_opening :: "(topic_name, nat) js_map"
  tp_sets :: "(nat, conn_ref list) js_map"
  tp_waits :: "(nat, conn_ref \<times> topic_name \<times> nat) js_map"
  tp_next :: nat
  tp_closers :: "conn_ref list"
  tp_egress :: "(conn_ref, 'd topic_frame egress) js_map"
  tp_deferred :: "(conn_ref \<times> 'd topic_frame) list"
  tp_released :: "(conn_ref \<times> 'd topic_frame list) list"
  tp_calls :: "upstream_call list"

definition Topics :: "string list \<Rightarrow> bool \<Rightarrow> 'd topics" where
  "Topics capabilities remote =
     \<lparr>tp_capabilities = capabilities, tp_attached = [], tp_remote = remote, tp_identity = (\<lambda>c. Anonymous),
      tp_gone = [], tp_subscribers = [], tp_lastSent = [], tp_opening = [], tp_sets = [], tp_waits = [],
      tp_next = 0, tp_closers = [], tp_egress = [], tp_deferred = [], tp_released = [], tp_calls = []\<rparr>"

definition tp_attach :: "string \<Rightarrow> 'd topics \<Rightarrow> 'd topics" where
  "tp_attach kind t = t\<lparr>tp_attached := set_add kind (tp_attached t)\<rparr>"

text \<open>The members of the set object \<open>n\<close>, and the current opening set of a topic.\<close>

definition set_of :: "'d topics \<Rightarrow> nat \<Rightarrow> conn_ref list" where
  "set_of t n = map_get_or [] (tp_sets t) n"

definition opening_of :: "'d topics \<Rightarrow> topic_name \<Rightarrow> conn_ref list" where
  "opening_of t topic = (case map_of (tp_opening t) topic of None \<Rightarrow> [] | Some n \<Rightarrow> set_of t n)"

definition subscribers_of :: "'d topics \<Rightarrow> topic_name \<Rightarrow> conn_ref list" where
  "subscribers_of t topic = map_get_or [] (tp_subscribers t) topic"

definition wanted :: "'d topics \<Rightarrow> topic_name \<Rightarrow> bool" where
  "wanted t topic \<longleftrightarrow> map_of (tp_subscribers t) topic \<noteq> None \<or> map_of (tp_opening t) topic \<noteq> None"

section \<open>Operations\<close>

fun holds :: "conn_identity \<Rightarrow> audience option \<Rightarrow> bool" where
  "holds identity None = True"
| "holds Anonymous (Some to) = False"
| "holds (Settled r s) (Some People) = (s = None)"
| "holds (Settled r s) (Some (ToSession sid)) = (s = Some sid)"

definition replaces :: "topic_contract \<Rightarrow> topic_name \<Rightarrow> bool" where
  "replaces tc topic \<longleftrightarrow> topicGranularity tc topic = ''whole'' \<or> topicGranularity tc topic = ''per_instance_whole''"

text \<open>\<open>#out\<close>: the terminal's queue, made the first time it is written to.\<close>

definition tp_out :: "'d topics \<Rightarrow> conn_ref \<Rightarrow> 'd topic_frame egress" where
  "tp_out t conn = map_get_or (Egress None None) (tp_egress t) conn"

definition tp_sent :: "'d topics \<Rightarrow> topic_name \<Rightarrow> (instance_id, string) js_map" where
  "tp_sent t topic = map_get_or [] (tp_lastSent t) topic"

text \<open>The loop of \<open>publish\<close> over a topic's subscribers.\<close>

fun publish_to :: "int \<Rightarrow> 'd topic_frame \<Rightarrow> string option \<Rightarrow> audience option \<Rightarrow> conn_ref list \<Rightarrow> 'd topics \<Rightarrow>
    publish_outcome \<times> 'd topics" where
  "publish_to now frame key to [] t = (PubOk, t)"
| "publish_to now frame key to (conn # conns) t =
     (if holds (tp_identity t conn) to then
        let (ok, e) = eg_push now frame key (tp_out t conn);
            (outcome, t') = publish_to now frame key to conns (t\<lparr>tp_egress := map_set conn e (tp_egress t)\<rparr>)
        in (if ok then outcome else RateLimited, t')
      else publish_to now frame key to conns t)"

definition tp_publish :: "topic_contract \<Rightarrow> ('d \<Rightarrow> string) \<Rightarrow> int \<Rightarrow> topic_name \<Rightarrow> 'd \<Rightarrow> instance_id \<Rightarrow>
    audience option \<Rightarrow> 'd topics \<Rightarrow> publish_outcome \<times> 'd topics" where
  "tp_publish tc stringify now topic data instance to t =
     (if topicKind tc topic = None then (PubOk, t)
      else
        let wire = stringify data;
            frame = TopicFrame topic False instance data;
            key = (if replaces tc topic then Some (topic @ ''|'' @ instance) else None)
        in if replaces tc topic then
             (if map_of (tp_sent t topic) instance = Some wire then
                (PubOk, t\<lparr>tp_lastSent := map_set topic (tp_sent t topic) (tp_lastSent t)\<rparr>)
              else publish_to now frame key to (subscribers_of t topic)
                     (t\<lparr>tp_lastSent := map_set topic (map_set instance wire (tp_sent t topic)) (tp_lastSent t)\<rparr>))
           else publish_to now frame key to (subscribers_of t topic) t)"

text \<open>\<open>#idle\<close>\<close>

definition tp_call :: "string \<Rightarrow> upstream_call \<Rightarrow> topic_name \<Rightarrow> bool \<Rightarrow> 'd topics \<Rightarrow> 'd topics" where
  "tp_call kind call topic on t =
     t\<lparr>tp_calls := tp_calls t @ (if kind \<in> set (tp_attached t) then [call] else [])
        @ (if tp_remote t then [Demand topic on] else [])\<rparr>"

definition tp_idle :: "string \<Rightarrow> topic_name \<Rightarrow> 'd topics \<Rightarrow> 'd topics" where
  "tp_idle kind topic t =
     (if \<not> wanted t topic then t
      else if subscribers_of t topic \<noteq> [] \<or> opening_of t topic \<noteq> [] then t
      else tp_call kind (Stop topic) topic False
             (t\<lparr>tp_subscribers := map_del topic (tp_subscribers t), tp_opening := map_del topic (tp_opening t),
                tp_lastSent := map_del topic (tp_lastSent t)\<rparr>))"

definition tp_unsubscribe :: "topic_contract \<Rightarrow> conn_ref \<Rightarrow> topic_name \<Rightarrow> 'd topics \<Rightarrow> subscribe_outcome \<times> 'd topics" where
  "tp_unsubscribe tc conn topic t =
     (case topicKind tc topic of
        None \<Rightarrow> (TopicUnknown, t)
      | Some kind \<Rightarrow>
          (let dropped = conn \<in> set (opening_of t topic);
               t1 = (case map_of (tp_opening t) topic of
                       None \<Rightarrow> t
                     | Some n \<Rightarrow> t\<lparr>tp_sets := map_set n (set_del conn (set_of t n)) (tp_sets t)\<rparr>);
               held = conn \<in> set (subscribers_of t topic);
               t2 = (case map_of (tp_subscribers t1) topic of
                       None \<Rightarrow> t1
                     | Some s \<Rightarrow> t1\<lparr>tp_subscribers := map_set topic (set_del conn s) (tp_subscribers t1)\<rparr>)
           in if \<not> held \<and> \<not> dropped then (SubOk, t2) else (SubOk, tp_idle kind topic t2)))"

definition held_topics :: "'d topics \<Rightarrow> conn_ref \<Rightarrow> topic_name list" where
  "held_topics t conn =
     (let subs = map fst (filter (\<lambda>e. conn \<in> set (snd e)) (tp_subscribers t))
      in subs @ filter (\<lambda>topic. topic \<notin> set subs) (map fst (filter (\<lambda>e. conn \<in> set (set_of t (snd e))) (tp_opening t))))"

definition tp_dropAll :: "topic_contract \<Rightarrow> int \<Rightarrow> conn_ref \<Rightarrow> 'd topics \<Rightarrow> 'd topics" where
  "tp_dropAll tc now conn t =
     (let t1 = fold (\<lambda>topic t. snd (tp_unsubscribe tc conn topic t)) (held_topics t conn) t
      in (case map_of (tp_egress t1) conn of
            None \<Rightarrow> t1
          | Some e \<Rightarrow> t1\<lparr>tp_released := tp_released t1 @ [(conn, map snd (eg_sent (eg_release now e)))],
                         tp_egress := map_del conn (tp_egress t1)\<rparr>))"

text \<open>\<open>subscribe\<close> up to its wait: a refusal, or the wait it left.\<close>

definition subscribe_refusal :: "topic_contract \<Rightarrow> 'd topics \<Rightarrow> conn_ref \<Rightarrow> topic_name \<Rightarrow> subscribe_outcome option" where
  "subscribe_refusal tc t conn topic =
     (case topicKind tc topic of
        None \<Rightarrow> Some TopicUnknown
      | Some kind \<Rightarrow>
          if (case tp_identity t conn of Anonymous \<Rightarrow> True | Settled r _ \<Rightarrow> r \<notin> set (topicRoles tc kind))
          then Some SubForbidden
          else if (case topicCapability tc kind of None \<Rightarrow> False | Some c \<Rightarrow> c \<notin> set (tp_capabilities t))
          then Some CapabilityUnavailable
          else None)"

definition tp_listen :: "topic_contract \<Rightarrow> int \<Rightarrow> conn_ref \<Rightarrow> 'd topics \<Rightarrow> 'd topics" where
  "tp_listen tc now conn t =
     (if conn \<in> set (tp_closers t) then t
      else let t1 = t\<lparr>tp_closers := set_add conn (tp_closers t)\<rparr>
           in if conn \<in> set (tp_gone t1) then tp_dropAll tc now conn t1 else t1)"

definition tp_subscribe :: "topic_contract \<Rightarrow> int \<Rightarrow> conn_ref \<Rightarrow> topic_name \<Rightarrow> 'd topics \<Rightarrow>
    subscribe_outcome option \<times> 'd topics" where
  "tp_subscribe tc now conn topic t =
     (case subscribe_refusal tc t conn topic of
        Some refused \<Rightarrow> (Some refused, t)
      | None \<Rightarrow>
          (let t1 = tp_listen tc now conn t;
               started = wanted t1 topic;
               n = (case map_of (tp_opening t1) topic of None \<Rightarrow> tp_next t1 | Some n \<Rightarrow> n);
               t2 = t1\<lparr>tp_opening := map_set topic n (tp_opening t1),
                       tp_sets := map_set n (set_add conn (opening_of t1 topic)) (tp_sets t1),
                       tp_waits := map_set (tp_next t1 + 1) (conn, topic, n) (tp_waits t1),
                       tp_next := tp_next t1 + 2\<rparr>
           in (None, if started then t2 else tp_call (the (topicKind tc topic)) (Start topic) topic True t2)))"

text \<open>\<open>subscribe\<close> from its wait: the snapshot came back, with what the other instances last stated,
  or it failed.\<close>

definition tp_opened :: "topic_contract \<Rightarrow> nat \<Rightarrow> (instance_id \<times> 'd) list \<Rightarrow> (instance_id \<times> 'd) list \<Rightarrow> 'd topics \<Rightarrow> 'd topics" where
  "tp_opened tc w stated remote t =
     (case map_of (tp_waits t) w of
        None \<Rightarrow> t
      | Some (conn, topic, n) \<Rightarrow>
          (let t1 = t\<lparr>tp_waits := map_del w (tp_waits t)\<rparr>;
               kind = the (topicKind tc topic)
           in if conn \<notin> set (set_of t1 n) then tp_idle kind topic t1
              else t1\<lparr>tp_sets := map_set n (set_del conn (set_of t1 n)) (tp_sets t1),
                      tp_subscribers := map_set topic (set_add conn (subscribers_of t1 topic)) (tp_subscribers t1),
                      tp_deferred := tp_deferred t1 @
                        map (\<lambda>(i, d). (conn, TopicFrame topic True i d)) (stated @ remote)\<rparr>))"

definition tp_failed :: "topic_contract \<Rightarrow> nat \<Rightarrow> 'd topics \<Rightarrow> 'd topics" where
  "tp_failed tc w t =
     (case map_of (tp_waits t) w of
        None \<Rightarrow> t
      | Some (conn, topic, n) \<Rightarrow>
          tp_idle (the (topicKind tc topic)) topic
            (t\<lparr>tp_waits := map_del w (tp_waits t), tp_sets := map_set n (set_del conn (set_of t n)) (tp_sets t)\<rparr>))"

definition tp_subscriberCount :: "'d topics \<Rightarrow> topic_name \<Rightarrow> sid option \<Rightarrow> nat" where
  "tp_subscriberCount t topic to =
     length (filter (\<lambda>conn. holds (tp_identity t conn) (map_option ToSession to)) (subscribers_of t topic))"

section \<open>handlers.ts\<close>

fun refusal :: "subscribe_outcome \<Rightarrow> topic_name \<Rightarrow> op_error option" where
  "refusal SubOk topic = None"
| "refusal TopicUnknown topic = Some (''topic_unknown'', ''no such topic: '' @ topic)"
| "refusal SubForbidden topic = Some (''forbidden'', topic @ '' is not open to this connection'')"
| "refusal CapabilityUnavailable topic =
     Some (''capability_unavailable'', topic @ '' needs a capability this instance does not have'')"

definition topic_answer :: "subscribe_outcome \<Rightarrow> topic_name \<Rightarrow> op_error + topic_name" where
  "topic_answer outcome topic = (case refusal outcome topic of Some e \<Rightarrow> Inl e | None \<Rightarrow> Inr topic)"

section \<open>Steps\<close>

datatype 'd topics_event =
    TpSettle conn_ref role "sid option"
  | TpPublish int topic_name 'd instance_id "audience option"
  | TpSubscribe int conn_ref topic_name
  | TpOpened nat "(instance_id \<times> 'd) list" "(instance_id \<times> 'd) list"
  | TpFailed nat
  | TpUnsubscribe conn_ref topic_name
  | TpDropAll int conn_ref
  | TpGone int conn_ref
  | TpDue int conn_ref

text \<open>The socket of a connection goes: its listener, when it was registered, drops everything.\<close>

definition tp_gone_now :: "topic_contract \<Rightarrow> int \<Rightarrow> conn_ref \<Rightarrow> 'd topics \<Rightarrow> 'd topics" where
  "tp_gone_now tc now conn t =
     (let t1 = t\<lparr>tp_gone := set_add conn (tp_gone t)\<rparr>
      in if conn \<in> set (tp_closers t1) then tp_dropAll tc now conn t1 else t1)"

definition tp_due :: "int \<Rightarrow> conn_ref \<Rightarrow> 'd topics \<Rightarrow> 'd topics" where
  "tp_due now conn t =
     (case map_of (tp_egress t) conn of None \<Rightarrow> t | Some e \<Rightarrow> t\<lparr>tp_egress := map_set conn (eg_due now e) (tp_egress t)\<rparr>)"

inductive tp_step :: "topic_contract \<Rightarrow> ('d \<Rightarrow> string) \<Rightarrow> 'd topics \<Rightarrow> 'd topics_event \<Rightarrow> 'd topics \<Rightarrow> bool"
  for tc stringify where
  settle: "tp_step tc stringify t (TpSettle c r s) (t\<lparr>tp_identity := (tp_identity t)(c := Settled r s)\<rparr>)"
| publish: "tp_publish tc stringify now topic d i to t = (outcome, t') \<Longrightarrow>
    tp_step tc stringify t (TpPublish now topic d i to) t'"
| subscribe: "tp_subscribe tc now c topic t = (outcome, t') \<Longrightarrow> tp_step tc stringify t (TpSubscribe now c topic) t'"
| opened: "tp_step tc stringify t (TpOpened w stated remote) (tp_opened tc w stated remote t)"
| failed: "tp_step tc stringify t (TpFailed w) (tp_failed tc w t)"
| unsubscribe: "tp_unsubscribe tc c topic t = (outcome, t') \<Longrightarrow> tp_step tc stringify t (TpUnsubscribe c topic) t'"
| drop_all: "tp_step tc stringify t (TpDropAll now c) (tp_dropAll tc now c t)"
| gone: "c \<notin> set (tp_gone t) \<Longrightarrow> tp_step tc stringify t (TpGone now c) (tp_gone_now tc now c t)"
| due: "tp_step tc stringify t (TpDue now c) (tp_due now c t)"

inductive tp_steps :: "topic_contract \<Rightarrow> ('d \<Rightarrow> string) \<Rightarrow> 'd topics \<Rightarrow> 'd topics_event list \<Rightarrow> 'd topics \<Rightarrow> bool"
  for tc stringify where
  none: "tp_steps tc stringify t [] t"
| more: "tp_steps tc stringify t evs t1 \<Longrightarrow> tp_step tc stringify t1 ev t2 \<Longrightarrow> tp_steps tc stringify t (evs @ [ev]) t2"

section \<open>A topic's resource runs exactly while somebody wants it\<close>

lemmas view_defs = set_of_def opening_of_def subscribers_of_def wanted_def

definition busy :: "'d topics \<Rightarrow> topic_name \<Rightarrow> bool" where
  "busy t topic \<longleftrightarrow> subscribers_of t topic \<noteq> [] \<or> opening_of t topic \<noteq> []"

definition called :: "'d topics \<Rightarrow> upstream_call \<Rightarrow> nat" where
  "called t c = count_list (tp_calls t) c"

definition sets_ok :: "topic_contract \<Rightarrow> 'd topics \<Rightarrow> bool" where
  "sets_ok tc t \<longleftrightarrow>
     (\<forall>topic n. map_of (tp_opening t) topic = Some n \<longrightarrow> n < tp_next t)
     \<and> (\<forall>a b n. map_of (tp_opening t) a = Some n \<longrightarrow> map_of (tp_opening t) b = Some n \<longrightarrow> a = b)
     \<and> (\<forall>w c topic n. map_of (tp_waits t) w = Some (c, topic, n) \<longrightarrow>
          n < tp_next t \<and> topicKind tc topic \<noteq> None
          \<and> (map_of (tp_opening t) topic = Some n \<or> (\<forall>b. map_of (tp_opening t) b \<noteq> Some n) \<and> set_of t n = []))
     \<and> (\<forall>topic. wanted t topic \<longrightarrow> topicKind tc topic \<noteq> None)"

definition calls_ok :: "topic_contract \<Rightarrow> 'd topics \<Rightarrow> bool" where
  "calls_ok tc t \<longleftrightarrow>
     (\<forall>topic kind. topicKind tc topic = Some kind \<longrightarrow>
        (kind \<in> set (tp_attached t) \<longrightarrow>
           called t (Start topic) = called t (Stop topic) + (if wanted t topic then 1 else 0)) \<and>
        (tp_remote t \<longrightarrow>
           called t (Demand topic True) = called t (Demand topic False) + (if wanted t topic then 1 else 0)))"

definition tp_ok :: "topic_contract \<Rightarrow> 'd topics \<Rightarrow> bool" where
  "tp_ok tc t \<longleftrightarrow> sets_ok tc t \<and> calls_ok tc t \<and> (\<forall>topic. wanted t topic \<longrightarrow> busy t topic)"

definition tp_ok_but :: "topic_contract \<Rightarrow> topic_name \<Rightarrow> 'd topics \<Rightarrow> bool" where
  "tp_ok_but tc topic t \<longleftrightarrow> sets_ok tc t \<and> calls_ok tc t \<and> (\<forall>b. b \<noteq> topic \<longrightarrow> wanted t b \<longrightarrow> busy t b)"

lemma sets_okD:
  assumes "sets_ok tc t"
  shows "map_of (tp_opening t) topic = Some n \<Longrightarrow> n < tp_next t"
    "map_of (tp_opening t) a = Some n \<Longrightarrow> map_of (tp_opening t) b = Some n \<Longrightarrow> a = b"
    "map_of (tp_waits t) w = Some (c, topic, n) \<Longrightarrow> n < tp_next t"
    "map_of (tp_waits t) w = Some (c, topic, n) \<Longrightarrow> topicKind tc topic \<noteq> None"
    "map_of (tp_waits t) w = Some (c, topic, n) \<Longrightarrow>
       map_of (tp_opening t) topic = Some n \<or> (\<forall>b. map_of (tp_opening t) b \<noteq> Some n) \<and> set_of t n = []"
    "wanted t topic \<Longrightarrow> topicKind tc topic \<noteq> None"
  using assms unfolding sets_ok_def by blast+

lemma sets_ok_same:
  assumes "sets_ok tc t" "tp_opening t' = tp_opening t" "tp_next t' = tp_next t"
    "\<And>w x. map_of (tp_waits t') w = Some x \<Longrightarrow> map_of (tp_waits t) w = Some x"
    "\<And>topic. wanted t' topic \<Longrightarrow> topicKind tc topic \<noteq> None"
    "\<And>n. set_of t n = [] \<Longrightarrow> set_of t' n = []"
  shows "sets_ok tc t'"
  using assms(1,4-6) unfolding sets_ok_def assms(2,3) by blast

lemma called_call:
  "called (tp_call kind call topic on t) c = called t c
     + (if kind \<in> set (tp_attached t) \<and> c = call then 1 else 0)
     + (if tp_remote t \<and> c = Demand topic on then 1 else 0)"
  by (auto simp: called_def tp_call_def)

lemma tp_call_frame [simp]:
  "tp_subscribers (tp_call k c b on t) = tp_subscribers t" "tp_opening (tp_call k c b on t) = tp_opening t"
  "tp_sets (tp_call k c b on t) = tp_sets t" "tp_waits (tp_call k c b on t) = tp_waits t"
  "tp_next (tp_call k c b on t) = tp_next t" "tp_attached (tp_call k c b on t) = tp_attached t"
  "tp_remote (tp_call k c b on t) = tp_remote t" "tp_egress (tp_call k c b on t) = tp_egress t"
  "tp_identity (tp_call k c b on t) = tp_identity t" "tp_closers (tp_call k c b on t) = tp_closers t"
  "tp_gone (tp_call k c b on t) = tp_gone t"
  by (simp_all add: tp_call_def)

text \<open>Two states the invariant cannot tell apart.\<close>

lemma tp_ok_cong:
  assumes "tp_ok tc t" "tp_subscribers t' = tp_subscribers t" "tp_opening t' = tp_opening t" "tp_sets t' = tp_sets t"
    "tp_waits t' = tp_waits t" "tp_next t' = tp_next t" "tp_attached t' = tp_attached t" "tp_remote t' = tp_remote t"
    "tp_calls t' = tp_calls t"
  shows "tp_ok tc t'"
proof -
  have "set_of t' = set_of t" using assms by (auto simp: set_of_def)
  moreover from this have "opening_of t' = opening_of t" "subscribers_of t' = subscribers_of t" "wanted t' = wanted t"
    using assms by (simp_all add: opening_of_def subscribers_of_def wanted_def fun_eq_iff cong: option.case_cong)
  moreover have "called t' = called t" using assms by (auto simp: called_def)
  ultimately show ?thesis using assms by (simp add: tp_ok_def sets_ok_def calls_ok_def busy_def)
qed

lemma tp_idle_ok:
  assumes ok: "tp_ok_but tc topic t" and kind: "topicKind tc topic = Some kind"
  shows "tp_ok tc (tp_idle kind topic t)"
proof (cases "\<not> wanted t topic \<or> busy t topic")
  case True
  then have "tp_idle kind topic t = t" by (auto simp: tp_idle_def busy_def)
  with ok True show ?thesis by (auto simp: tp_ok_def tp_ok_but_def)
next
  case False
  let ?t = "tp_idle kind topic t"
  have sets: "sets_ok tc t" and calls: "calls_ok tc t" using ok by (simp_all add: tp_ok_but_def)
  have idle: "?t = tp_call kind (Stop topic) topic False
      (t\<lparr>tp_subscribers := map_del topic (tp_subscribers t), tp_opening := map_del topic (tp_opening t),
         tp_lastSent := map_del topic (tp_lastSent t)\<rparr>)"
    using False by (simp add: tp_idle_def busy_def)
  have f: "tp_subscribers ?t = map_del topic (tp_subscribers t)" "tp_opening ?t = map_del topic (tp_opening t)"
    "tp_sets ?t = tp_sets t" "tp_waits ?t = tp_waits t" "tp_next ?t = tp_next t"
    "tp_attached ?t = tp_attached t" "tp_remote ?t = tp_remote t"
    by (simp_all add: idle)
  have w: "wanted ?t b \<longleftrightarrow> wanted t b \<and> b \<noteq> topic" for b by (auto simp: wanted_def f)
  have empty: "set_of t n = []" if "map_of (tp_opening t) topic = Some n" for n
    using False that by (simp add: busy_def opening_of_def)
  have "sets_ok tc ?t"
    unfolding sets_ok_def
  proof (intro conjI allI impI)
    fix x c b n
    assume "map_of (tp_waits ?t) x = Some (c, b, n)"
    then have m: "map_of (tp_waits t) x = Some (c, b, n)" by (simp add: f)
    show "n < tp_next ?t" using sets_okD(3) [OF sets m] by (simp add: f)
    show "topicKind tc b \<noteq> None" using sets_okD(4) [OF sets m] .
    show "map_of (tp_opening ?t) b = Some n \<or> (\<forall>b. map_of (tp_opening ?t) b \<noteq> Some n) \<and> set_of ?t n = []"
      using sets_okD(5) [OF sets m] sets_okD(2) [OF sets, of topic n] empty [of n]
      by (auto simp: f set_of_def)
  qed (use sets_okD [OF sets] in \<open>auto simp: f w split: if_splits\<close>)
  moreover have "calls_ok tc ?t"
    unfolding calls_ok_def
  proof (intro allI impI)
    fix b k
    assume k: "topicKind tc b = Some k"
    have c: "called ?t x = called t x + (if kind \<in> set (tp_attached t) \<and> x = Stop topic then 1 else 0)
        + (if tp_remote t \<and> x = Demand topic False then 1 else 0)" for x
      by (simp add: idle called_call) (simp add: called_def)
    show "(k \<in> set (tp_attached ?t) \<longrightarrow>
           called ?t (Start b) = called ?t (Stop b) + (if wanted ?t b then 1 else 0)) \<and>
        (tp_remote ?t \<longrightarrow>
           called ?t (Demand b True) = called ?t (Demand b False) + (if wanted ?t b then 1 else 0))"
      using calls k kind False unfolding calls_ok_def w by (auto simp: c f)
  qed
  moreover have "busy ?t b" if "wanted ?t b" for b
  proof -
    from that have "b \<noteq> topic" "wanted t b" by (simp_all add: w)
    with ok have "busy t b" by (simp add: tp_ok_but_def)
    with \<open>b \<noteq> topic\<close> show ?thesis by (simp add: busy_def view_defs f cong: option.case_cong)
  qed
  ultimately show ?thesis by (simp add: tp_ok_def)
qed

text \<open>Taking a connection out of one topic.\<close>

definition tp_leave :: "conn_ref \<Rightarrow> topic_name \<Rightarrow> 'd topics \<Rightarrow> 'd topics" where
  "tp_leave conn topic t =
     (let t1 = (case map_of (tp_opening t) topic of
                  None \<Rightarrow> t
                | Some n \<Rightarrow> t\<lparr>tp_sets := map_set n (set_del conn (set_of t n)) (tp_sets t)\<rparr>)
      in (case map_of (tp_subscribers t1) topic of
            None \<Rightarrow> t1
          | Some s \<Rightarrow> t1\<lparr>tp_subscribers := map_set topic (set_del conn s) (tp_subscribers t1)\<rparr>))"

lemma tp_unsubscribe_leave:
  "topicKind tc topic = Some kind \<Longrightarrow> tp_unsubscribe tc conn topic t =
     (SubOk, if conn \<in> set (subscribers_of t topic) \<or> conn \<in> set (opening_of t topic)
             then tp_idle kind topic (tp_leave conn topic t) else tp_leave conn topic t)"
  by (simp add: tp_unsubscribe_def tp_leave_def Let_def)

lemma tp_leave_frame:
  "tp_opening (tp_leave c topic t) = tp_opening t" "tp_waits (tp_leave c topic t) = tp_waits t"
  "tp_next (tp_leave c topic t) = tp_next t" "tp_attached (tp_leave c topic t) = tp_attached t"
  "tp_remote (tp_leave c topic t) = tp_remote t" "tp_calls (tp_leave c topic t) = tp_calls t"
  "tp_egress (tp_leave c topic t) = tp_egress t" "tp_identity (tp_leave c topic t) = tp_identity t"
  "tp_closers (tp_leave c topic t) = tp_closers t" "tp_gone (tp_leave c topic t) = tp_gone t"
  "wanted (tp_leave c topic t) b = wanted t b"
  by (auto simp: tp_leave_def Let_def wanted_def split: option.splits)

lemma tp_leave_views:
  assumes "sets_ok tc t"
  shows "subscribers_of (tp_leave c topic t) b = (if b = topic then set_del c (subscribers_of t b) else subscribers_of t b)"
    "opening_of (tp_leave c topic t) b = (if b = topic then set_del c (opening_of t b) else opening_of t b)"
    "set_of (tp_leave c topic t) n = (if map_of (tp_opening t) topic = Some n then set_del c (set_of t n) else set_of t n)"
proof -
  have nil: "set_del c ([] :: nat list) = []" by (simp add: set_del_def)
  show "subscribers_of (tp_leave c topic t) b = (if b = topic then set_del c (subscribers_of t b) else subscribers_of t b)"
    by (auto simp: tp_leave_def Let_def subscribers_of_def map_get_or_def nil split: option.splits)
  show s: "set_of (tp_leave c topic t) n = (if map_of (tp_opening t) topic = Some n then set_del c (set_of t n) else set_of t n)" for n
    by (auto simp: tp_leave_def Let_def set_of_def split: option.splits)
  show "opening_of (tp_leave c topic t) b = (if b = topic then set_del c (opening_of t b) else opening_of t b)"
    using sets_okD(2) [OF assms, of topic _ b]
    by (auto simp: opening_of_def tp_leave_frame s nil split: option.splits)
qed

lemma tp_leave_ok:
  assumes ok: "tp_ok tc t"
  shows "tp_ok_but tc topic (tp_leave c topic t)"
proof -
  have sets: "sets_ok tc t" and calls: "calls_ok tc t" using ok by (simp_all add: tp_ok_def)
  note v = tp_leave_views [OF sets, of c topic]
  have w: "wanted (tp_leave c topic t) = wanted t" by (simp add: fun_eq_iff tp_leave_frame)
  have "sets_ok tc (tp_leave c topic t)"
    by (rule sets_ok_same [OF sets]) (use sets_okD(6) [OF sets] in \<open>simp_all add: tp_leave_frame v set_del_def\<close>)
  moreover have "calls_ok tc (tp_leave c topic t)"
    using calls by (simp add: calls_ok_def w called_def tp_leave_frame)
  moreover have "busy (tp_leave c topic t) b" if "b \<noteq> topic" "wanted t b" for b
    using ok that by (simp add: tp_ok_def busy_def v)
  ultimately show ?thesis by (simp add: tp_ok_but_def w)
qed

lemma tp_unsubscribe_ok:
  assumes "tp_ok tc t"
  shows "tp_ok tc (snd (tp_unsubscribe tc c topic t))"
proof (cases "topicKind tc topic")
  case None
  then show ?thesis using assms by (simp add: tp_unsubscribe_def)
next
  case (Some kind)
  show ?thesis
  proof (cases "c \<in> set (subscribers_of t topic) \<or> c \<in> set (opening_of t topic)")
    case True
    then show ?thesis
      using tp_idle_ok [OF tp_leave_ok [OF assms] Some] by (simp add: tp_unsubscribe_leave [OF Some])
  next
    case False
    have sets: "sets_ok tc t" using assms by (simp add: tp_ok_def)
    note v = tp_leave_views [OF sets, of c topic]
    have "set_del c (subscribers_of t topic) = subscribers_of t topic" "set_del c (opening_of t topic) = opening_of t topic"
      using False by (simp_all add: set_del_def)
    then have "busy (tp_leave c topic t) = busy t" by (auto simp: busy_def v fun_eq_iff)
    with tp_leave_ok [OF assms, of topic c] assms have "tp_ok tc (tp_leave c topic t)"
      by (simp add: tp_ok_but_def tp_ok_def tp_leave_frame)
    with False show ?thesis by (simp add: tp_unsubscribe_leave [OF Some])
  qed
qed

lemma tp_unsubscribes_ok:
  "tp_ok tc t \<Longrightarrow> tp_ok tc (fold (\<lambda>topic t. snd (tp_unsubscribe tc c topic t)) topics t)"
  by (induction topics arbitrary: t) (simp_all add: tp_unsubscribe_ok)

lemma tp_dropAll_ok:
  assumes "tp_ok tc t"
  shows "tp_ok tc (tp_dropAll tc now c t)"
proof -
  let ?t = "fold (\<lambda>topic t. snd (tp_unsubscribe tc c topic t)) (held_topics t c) t"
  show ?thesis
    by (rule tp_ok_cong [OF tp_unsubscribes_ok [OF assms, of c "held_topics t c"]])
       (auto simp: tp_dropAll_def Let_def split: option.splits)
qed

lemma tp_listen_ok: "tp_ok tc t \<Longrightarrow> tp_ok tc (tp_listen tc now c t)"
proof -
  assume ok: "tp_ok tc t"
  have "tp_ok tc (t\<lparr>tp_closers := x\<rparr>)" for x by (rule tp_ok_cong [OF ok]) simp_all
  with ok show ?thesis by (simp add: tp_listen_def Let_def tp_dropAll_ok)
qed

text \<open>A topic's subscriptions grow by one that is being opened.\<close>

definition tp_join :: "conn_ref \<Rightarrow> topic_name \<Rightarrow> 'd topics \<Rightarrow> 'd topics" where
  "tp_join conn topic t =
     (let n = (case map_of (tp_opening t) topic of None \<Rightarrow> tp_next t | Some n \<Rightarrow> n)
      in t\<lparr>tp_opening := map_set topic n (tp_opening t),
           tp_sets := map_set n (set_add conn (opening_of t topic)) (tp_sets t),
           tp_waits := map_set (tp_next t + 1) (conn, topic, n) (tp_waits t), tp_next := tp_next t + 2\<rparr>)"

lemma tp_subscribe_join:
  "tp_subscribe tc now conn topic t =
     (case subscribe_refusal tc t conn topic of
        Some refused \<Rightarrow> (Some refused, t)
      | None \<Rightarrow> (let t1 = tp_listen tc now conn t in (None, if wanted t1 topic then tp_join conn topic t1
          else tp_call (the (topicKind tc topic)) (Start topic) topic True (tp_join conn topic t1))))"
  by (simp add: tp_subscribe_def tp_join_def Let_def split: option.splits)

lemma tp_join_facts:
  assumes sets: "sets_ok tc t" and kind: "topicKind tc topic \<noteq> None"
  shows "sets_ok tc (tp_join c topic t)" "wanted (tp_join c topic t) b \<longleftrightarrow> wanted t b \<or> b = topic"
    "busy (tp_join c topic t) b \<longleftrightarrow> busy t b \<or> b = topic" "called (tp_join c topic t) = called t"
proof -
  let ?n = "case map_of (tp_opening t) topic of None \<Rightarrow> tp_next t | Some n \<Rightarrow> n" and ?t = "tp_join c topic t"
  have f: "tp_opening ?t = map_set topic ?n (tp_opening t)" "tp_subscribers ?t = tp_subscribers t"
    "tp_waits ?t = map_set (tp_next t + 1) (c, topic, ?n) (tp_waits t)" "tp_next ?t = tp_next t + 2"
    by (simp_all add: tp_join_def Let_def)
  have s: "set_of ?t m = (if m = ?n then set_add c (opening_of t topic) else set_of t m)" for m
    by (simp add: tp_join_def Let_def set_of_def)
  have n: "?n < tp_next t + 1" "map_of (tp_opening t) b = Some ?n \<Longrightarrow> b = topic" for b
  proof -
    show "?n < tp_next t + 1"
      using sets_okD(1) [OF sets, of topic] by (cases "map_of (tp_opening t) topic") (simp_all add: less_SucI)
    show "map_of (tp_opening t) b = Some ?n \<Longrightarrow> b = topic"
      using sets_okD(1) [OF sets, of b] sets_okD(2) [OF sets, of b _ topic]
      by (cases "map_of (tp_opening t) topic") auto
  qed
  have other: "m \<noteq> ?n" if "map_of (tp_waits t) w = Some (c', b, m)" "map_of (tp_opening t) b \<noteq> Some m" for w c' b m
    using sets_okD(3) [OF sets that(1)] sets_okD(5) [OF sets that(1)] that(2)
    by (cases "map_of (tp_opening t) topic") auto
  show w: "wanted ?t b \<longleftrightarrow> wanted t b \<or> b = topic" for b by (auto simp: wanted_def f)
  show "sets_ok tc ?t"
    unfolding sets_ok_def
  proof (intro conjI allI impI)
    fix x c' b m
    assume "map_of (tp_waits ?t) x = Some (c', b, m)"
    then consider "c' = c" "b = topic" "m = ?n" | "map_of (tp_waits t) x = Some (c', b, m)"
      by (cases "x = tp_next t + 1") (auto simp: f)
    then have "m < tp_next ?t \<and> topicKind tc b \<noteq> None \<and>
      (map_of (tp_opening ?t) b = Some m \<or> (\<forall>b. map_of (tp_opening ?t) b \<noteq> Some m) \<and> set_of ?t m = [])"
    proof cases
      case 1
      then show ?thesis using n(1) kind by (simp add: f)
    next
      case 2
      note d = sets_okD(3-5) [OF sets 2]
      show ?thesis
      proof (cases "map_of (tp_opening t) b = Some m")
        case True
        then show ?thesis using d by (auto simp: f split: option.splits)
      next
        case False
        then show ?thesis using d other [OF 2 False] by (auto simp: f s)
      qed
    qed
    then show "m < tp_next ?t" "topicKind tc b \<noteq> None"
      "map_of (tp_opening ?t) b = Some m \<or> (\<forall>b. map_of (tp_opening ?t) b \<noteq> Some m) \<and> set_of ?t m = []" by blast+
  next
    fix a b m
    assume "map_of (tp_opening ?t) a = Some m" "map_of (tp_opening ?t) b = Some m"
    then show "a = b" using n(2) sets_okD(2) [OF sets, of a m b] by (auto simp: f split: if_splits)
  next
    fix b m
    assume "map_of (tp_opening ?t) b = Some m"
    then show "m < tp_next ?t" using n(1) sets_okD(1) [OF sets, of b m] by (auto simp: f split: if_splits)
  next
    fix b
    assume "wanted ?t b"
    then show "topicKind tc b \<noteq> None" using sets_okD(6) [OF sets] kind w by blast
  qed
  have "opening_of ?t b = (if b = topic then set_add c (opening_of t topic) else opening_of t b)" for b
    using n(2) [of b] by (cases "map_of (tp_opening t) b") (auto simp: opening_of_def [of ?t] opening_of_def [of t b] f s)
  then show "busy ?t b \<longleftrightarrow> busy t b \<or> b = topic"
    by (auto simp: busy_def subscribers_of_def f set_add_def)
  show "called ?t = called t" by (simp add: called_def tp_join_def Let_def fun_eq_iff)
qed

lemma tp_join_frame [simp]:
  "tp_attached (tp_join c topic t) = tp_attached t" "tp_remote (tp_join c topic t) = tp_remote t"
  by (simp_all add: tp_join_def Let_def)

lemma tp_call_views:
  "wanted (tp_call k c b on t) = wanted t" "busy (tp_call k c b on t) = busy t" "set_of (tp_call k c b on t) = set_of t"
  by (simp_all add: wanted_def busy_def subscribers_of_def opening_of_def set_of_def fun_eq_iff cong: option.case_cong)

lemma tp_join_ok:
  assumes ok: "tp_ok tc t" and kind: "topicKind tc topic = Some kind"
  shows "tp_ok tc (if wanted t topic then tp_join c topic t
    else tp_call kind (Start topic) topic True (tp_join c topic t))"
proof -
  have sets: "sets_ok tc t" and calls: "calls_ok tc t" and b: "\<And>b. wanted t b \<Longrightarrow> busy t b"
    using ok by (auto simp: tp_ok_def)
  have "topicKind tc topic \<noteq> None" using kind by simp
  note j = tp_join_facts [OF sets this, of c]
  show ?thesis
  proof (cases "wanted t topic")
    case True
    then have "wanted (tp_join c topic t) = wanted t" using j(2) by auto
    then have "calls_ok tc (tp_join c topic t)" using calls j(4) by (simp add: calls_ok_def)
    with j b True show ?thesis by (auto simp: tp_ok_def)
  next
    case False
    let ?t = "tp_call kind (Start topic) topic True (tp_join c topic t)"
    have "sets_ok tc ?t" by (rule sets_ok_same [OF j(1)]) (use sets_okD(6) [OF j(1)] in \<open>simp_all add: tp_call_views\<close>)
    moreover have "calls_ok tc ?t"
      unfolding calls_ok_def
    proof (intro allI impI)
      fix b k
      assume k: "topicKind tc b = Some k"
      then show "(k \<in> set (tp_attached ?t) \<longrightarrow> called ?t (Start b) = called ?t (Stop b) + (if wanted ?t b then 1 else 0)) \<and>
        (tp_remote ?t \<longrightarrow> called ?t (Demand b True) = called ?t (Demand b False) + (if wanted ?t b then 1 else 0))"
        using calls kind False unfolding calls_ok_def by (auto simp: called_call j(2,4) tp_call_views)
    qed
    ultimately show ?thesis using False j b by (auto simp: tp_ok_def tp_call_views)
  qed
qed

lemma tp_subscribe_ok:
  assumes "tp_ok tc t"
  shows "tp_ok tc (snd (tp_subscribe tc now c topic t))"
proof (cases "subscribe_refusal tc t c topic")
  case None
  then obtain kind where k: "topicKind tc topic = Some kind"
    by (auto simp: subscribe_refusal_def split: option.splits)
  have "tp_ok tc (if wanted (tp_listen tc now c t) topic then tp_join c topic (tp_listen tc now c t)
      else tp_call kind (Start topic) topic True (tp_join c topic (tp_listen tc now c t)))"
    by (rule tp_join_ok [OF tp_listen_ok [OF assms] k])
  with None k show ?thesis by (simp add: tp_subscribe_join Let_def split: if_splits)
qed (use assms in \<open>simp add: tp_subscribe_join\<close>)

lemma drop_wait_ok:
  assumes ok: "tp_ok tc t"
  shows "tp_ok tc (t\<lparr>tp_waits := map_del w (tp_waits t)\<rparr>)"
proof -
  let ?t = "t\<lparr>tp_waits := map_del w (tp_waits t)\<rparr>"
  have sets: "sets_ok tc t" using ok by (simp add: tp_ok_def)
  have v: "wanted ?t = wanted t" "busy ?t = busy t" "called ?t = called t" "set_of ?t = set_of t"
    by (simp_all add: wanted_def busy_def subscribers_of_def opening_of_def set_of_def called_def fun_eq_iff
        cong: option.case_cong)
  have "sets_ok tc ?t"
    by (rule sets_ok_same [OF sets]) (use sets_okD(6) [OF sets] in \<open>auto simp: v split: if_splits\<close>)
  with ok show ?thesis by (simp add: tp_ok_def calls_ok_def v)
qed

text \<open>A connection leaves the set object \<open>n\<close> of a wait for the topic.\<close>

lemma leave_set:
  assumes ok: "tp_ok tc t" and wait: "map_of (tp_waits t) w = Some (c, topic, n)"
  shows "tp_ok_but tc topic (t\<lparr>tp_sets := map_set n (set_del c (set_of t n)) (tp_sets t)\<rparr>)" (is "tp_ok_but tc topic ?t")
proof -
  have sets: "sets_ok tc t" and calls: "calls_ok tc t" using ok by (simp_all add: tp_ok_def)
  have v: "wanted ?t = wanted t" "called ?t = called t" "subscribers_of ?t = subscribers_of t"
    by (simp_all add: wanted_def called_def subscribers_of_def fun_eq_iff)
  have s: "set_of ?t m = (if m = n then set_del c (set_of t n) else set_of t m)" for m by (simp add: set_of_def)
  have "sets_ok tc ?t"
  proof (rule sets_ok_same [OF sets])
    show "topicKind tc b \<noteq> None" if "wanted ?t b" for b using that sets_okD(6) [OF sets, of b] by (simp add: v)
    show "set_of ?t m = []" if "set_of t m = []" for m using that by (auto simp: set_of_def set_del_def)
  qed simp_all
  moreover have "busy ?t b" if "b \<noteq> topic" "wanted t b" for b
  proof -
    have "map_of (tp_opening t) b \<noteq> Some n"
      using sets_okD(5) [OF sets wait] sets_okD(2) [OF sets, of b n topic] that(1) by blast
    then have "opening_of ?t b = opening_of t b" by (auto simp: opening_of_def s split: option.splits)
    with ok that show ?thesis by (simp add: tp_ok_def busy_def v)
  qed
  ultimately show ?thesis using calls by (simp add: tp_ok_but_def calls_ok_def v)
qed

lemma tp_failed_ok:
  assumes ok: "tp_ok tc t"
  shows "tp_ok tc (tp_failed tc w t)"
proof (cases "map_of (tp_waits t) w")
  case None
  then show ?thesis using ok by (simp add: tp_failed_def)
next
  case (Some x)
  obtain c topic n where x: "x = (c, topic, n)" by (cases x)
  have wait: "map_of (tp_waits t) w = Some (c, topic, n)" using Some x by simp
  have sets: "sets_ok tc t" using ok by (simp add: tp_ok_def)
  obtain kind where kind: "topicKind tc topic = Some kind" using sets_okD(4) [OF sets wait] by auto
  let ?u = "t\<lparr>tp_sets := map_set n (set_del c (set_of t n)) (tp_sets t)\<rparr>"
  let ?t = "t\<lparr>tp_waits := map_del w (tp_waits t), tp_sets := map_set n (set_del c (set_of t n)) (tp_sets t)\<rparr>"
  have u: "tp_ok_but tc topic ?u" using leave_set [OF ok wait] .
  have v: "wanted ?t = wanted ?u" "busy ?t = busy ?u" "called ?t = called ?u" "set_of ?t = set_of ?u"
    by (simp_all add: wanted_def busy_def subscribers_of_def opening_of_def set_of_def called_def fun_eq_iff
        cong: option.case_cong)
  have "sets_ok tc ?t"
    by (rule sets_ok_same [of tc ?u]) (use u sets_okD(6) [of tc ?u] in \<open>auto simp: tp_ok_but_def v split: if_splits\<close>)
  with u have "tp_ok_but tc topic ?t" by (simp add: tp_ok_but_def calls_ok_def v)
  from tp_idle_ok [OF this kind] show ?thesis using wait kind by (simp add: tp_failed_def)
qed

lemma tp_opened_ok:
  assumes ok: "tp_ok tc t"
  shows "tp_ok tc (tp_opened tc w stated remote t)"
proof (cases "map_of (tp_waits t) w")
  case None
  then show ?thesis using ok by (simp add: tp_opened_def)
next
  case (Some x)
  obtain c topic n where x: "x = (c, topic, n)" by (cases x)
  have wait: "map_of (tp_waits t) w = Some (c, topic, n)" using Some x by simp
  have sets: "sets_ok tc t" using ok by (simp add: tp_ok_def)
  obtain kind where kind: "topicKind tc topic = Some kind" using sets_okD(4) [OF sets wait] by auto
  let ?t1 = "t\<lparr>tp_waits := map_del w (tp_waits t)\<rparr>"
  have ok1: "tp_ok tc ?t1" by (rule drop_wait_ok [OF ok])
  show ?thesis
  proof (cases "c \<in> set (set_of ?t1 n)")
    case False
    have "tp_ok_but tc topic ?t1" using ok1 by (simp add: tp_ok_def tp_ok_but_def)
    from tp_idle_ok [OF this kind] False wait kind show ?thesis by (simp add: tp_opened_def Let_def)
  next
    case True
    let ?u = "t\<lparr>tp_sets := map_set n (set_del c (set_of t n)) (tp_sets t)\<rparr>"
    let ?t = "tp_opened tc w stated remote t"
    have s1: "set_of ?t1 = set_of t" by (simp add: set_of_def fun_eq_iff)
    have cur: "map_of (tp_opening t) topic = Some n"
      using sets_okD(5) [OF sets wait] True by (auto simp: s1)
    have f: "tp_opening ?t = tp_opening t" "tp_next ?t = tp_next t" "tp_waits ?t = map_del w (tp_waits t)"
      "tp_sets ?t = map_set n (set_del c (set_of t n)) (tp_sets t)"
      "tp_subscribers ?t = map_set topic (set_add c (subscribers_of t topic)) (tp_subscribers t)"
      "tp_attached ?t = tp_attached t" "tp_remote ?t = tp_remote t" "tp_calls ?t = tp_calls t"
      using True wait by (simp_all add: tp_opened_def Let_def s1 subscribers_of_def)
    have u: "tp_ok_but tc topic ?u" using leave_set [OF ok wait] .
    have wt: "wanted t topic" using cur by (simp add: wanted_def)
    then have w': "wanted ?t = wanted t" by (auto simp: wanted_def f fun_eq_iff)
    have s: "set_of ?t = set_of ?u" by (simp add: set_of_def f fun_eq_iff)
    have "sets_ok tc ?t"
      by (rule sets_ok_same [OF sets]) (use sets_okD(6) [OF sets] in \<open>auto simp: f w' s set_of_def set_del_def split: if_splits\<close>)
    moreover have "calls_ok tc ?t" using ok by (simp add: tp_ok_def calls_ok_def w' called_def f)
    moreover have "busy ?t b" if "wanted t b" for b
    proof (cases "b = topic")
      case True
      then have "c \<in> set (subscribers_of ?t b)" by (simp add: subscribers_of_def f)
      then show ?thesis by (auto simp: busy_def)
    next
      case False
      have "wanted ?u b" using that by (simp add: wanted_def)
      then have "busy ?u b" using u False unfolding tp_ok_but_def by blast
      then show ?thesis using False
        by (simp add: busy_def subscribers_of_def opening_of_def f s cong: option.case_cong)
    qed
    ultimately show ?thesis by (simp add: tp_ok_def w')
  qed
qed

lemma busy_wanted: "busy t topic \<Longrightarrow> wanted t topic"
  by (auto simp: busy_def view_defs map_get_or_def split: option.splits)

lemma publish_to_frame:
  "publish_to now frame key to conns t = (outcome, t') \<Longrightarrow> \<exists>e. t' = t\<lparr>tp_egress := e\<rparr>"
proof (induction conns arbitrary: t outcome t')
  case Nil
  then show ?case by (intro exI [of _ "tp_egress t"]) simp
next
  case (Cons c conns)
  show ?case
  proof (cases "holds (tp_identity t c) to")
    case True
    obtain ok e where p: "eg_push now frame key (tp_out t c) = (ok, e)" by fastforce
    obtain o2 t2 where r: "publish_to now frame key to conns (t\<lparr>tp_egress := map_set c e (tp_egress t)\<rparr>) = (o2, t2)"
      by fastforce
    with Cons.prems True p have "t' = t2" by simp
    with Cons.IH [OF r] show ?thesis by auto
  next
    case False
    with Cons show ?thesis by simp
  qed
qed

lemma tp_publish_frame:
  assumes "tp_publish tc stringify now topic d i to t = (outcome, t')"
  shows "\<exists>e l. t' = t\<lparr>tp_egress := e, tp_lastSent := l\<rparr>"
proof -
  have keep: "\<exists>e l. t = t\<lparr>tp_egress := e, tp_lastSent := l\<rparr>"
    by (intro exI [of _ "tp_egress t"] exI [of _ "tp_lastSent t"]) simp
  have part: "\<exists>e l. t' = t\<lparr>tp_egress := e, tp_lastSent := l\<rparr>"
    if "publish_to now f k to cs (t\<lparr>tp_lastSent := m\<rparr>) = (outcome, t')" for f k cs m
  proof -
    from publish_to_frame [OF that] obtain e where e: "t' = t\<lparr>tp_lastSent := m, tp_egress := e\<rparr>" by blast
    show ?thesis by (intro exI [of _ e] exI [of _ m]) (simp add: e)
  qed
  have whole: "\<exists>e l. t' = t\<lparr>tp_egress := e, tp_lastSent := l\<rparr>"
    if "publish_to now f k to cs t = (outcome, t')" for f k cs
    using part [of f k cs "tp_lastSent t"] that by simp
  show ?thesis
    using assms part whole keep unfolding tp_publish_def Let_def
    by (auto split: if_splits) (intro exI [of _ "tp_egress t"] exI, simp)
qed

lemma tp_step_ok:
  assumes "tp_step tc stringify t ev t'" and ok: "tp_ok tc t"
  shows "tp_ok tc t'"
  using assms(1)
proof cases
  case (publish now topic d i to outcome)
  from tp_publish_frame [OF publish(2)] obtain e l where "t' = t\<lparr>tp_egress := e, tp_lastSent := l\<rparr>" by blast
  then show ?thesis by (intro tp_ok_cong [OF ok]) simp_all
next
  case (subscribe now c topic outcome)
  then show ?thesis using tp_subscribe_ok [OF ok, of now c topic] by simp
next
  case (unsubscribe c topic outcome)
  then show ?thesis using tp_unsubscribe_ok [OF ok, of c topic] by simp
next
  case (gone c now)
  have "tp_ok tc (t\<lparr>tp_gone := x\<rparr>)" for x by (rule tp_ok_cong [OF ok]) simp_all
  with gone show ?thesis by (simp add: tp_gone_now_def Let_def tp_dropAll_ok)
next
  case (due now c)
  then show ?thesis by (intro tp_ok_cong [OF ok]) (simp_all add: tp_due_def split: option.splits)
next
  case (settle c r s)
  then show ?thesis by (intro tp_ok_cong [OF ok]) simp_all
qed (use ok in \<open>simp_all add: tp_opened_ok tp_failed_ok tp_dropAll_ok\<close>)

text \<open>The mechanism as an instance builds it: every owner attached before anyone subscribes.\<close>

definition tp_built :: "string list \<Rightarrow> bool \<Rightarrow> string list \<Rightarrow> 'd topics" where
  "tp_built capabilities remote kinds = fold tp_attach kinds (Topics capabilities remote)"

lemma tp_built_fields:
  "(tp_built caps remote kinds :: 'd topics)
     = (Topics caps remote)\<lparr>tp_attached := tp_attached (tp_built caps remote kinds :: 'd topics)\<rparr>"
proof -
  have "fold tp_attach kinds t = t\<lparr>tp_attached := tp_attached (fold tp_attach kinds t)\<rparr>" for t :: "'d topics"
  proof (induction kinds arbitrary: t)
    case (Cons k kinds)
    from Cons [of "tp_attach k t"] show ?case by (simp add: tp_attach_def)
  qed simp
  then show ?thesis unfolding tp_built_def .
qed

lemma tp_built_attached: "set (tp_attached (tp_built caps remote kinds)) = set kinds"
proof -
  have "set (tp_attached (fold tp_attach kinds t)) = set kinds \<union> set (tp_attached t)" for t :: "'a topics"
    by (induction kinds arbitrary: t) (simp_all add: tp_attach_def)
  then show ?thesis by (simp add: tp_built_def Topics_def)
qed

lemma tp_built_ok: "tp_ok tc (tp_built caps remote kinds)"
proof -
  have "tp_ok tc ((Topics caps remote)\<lparr>tp_attached := x\<rparr>)" for x
    by (simp add: tp_ok_def sets_ok_def calls_ok_def Topics_def wanted_def called_def)
  then show ?thesis by (subst tp_built_fields)
qed

lemma tp_step_keeps:
  "tp_step tc stringify t ev t' \<Longrightarrow> tp_attached t' = tp_attached t \<and> tp_remote t' = tp_remote t"
proof -
  have idle: "tp_attached (tp_idle k b t) = tp_attached t \<and> tp_remote (tp_idle k b t) = tp_remote t" for k b and t :: "'a topics"
    by (simp add: tp_idle_def)
  have unsub: "tp_attached (snd (tp_unsubscribe tc c b t)) = tp_attached t \<and> tp_remote (snd (tp_unsubscribe tc c b t)) = tp_remote t"
    for c b and t :: "'a topics"
    by (cases "topicKind tc b") (simp_all add: tp_unsubscribe_leave idle tp_leave_frame, simp add: tp_unsubscribe_def)
  have drops: "tp_attached (fold (\<lambda>b t. snd (tp_unsubscribe tc c b t)) bs t) = tp_attached t
      \<and> tp_remote (fold (\<lambda>b t. snd (tp_unsubscribe tc c b t)) bs t) = tp_remote t" for c bs and t :: "'a topics"
    by (induction bs arbitrary: t) (simp_all add: unsub)
  have drop: "tp_attached (tp_dropAll tc now c t) = tp_attached t \<and> tp_remote (tp_dropAll tc now c t) = tp_remote t"
    for now c and t :: "'a topics"
    by (simp add: tp_dropAll_def Let_def drops split: option.splits)
  assume "tp_step tc stringify t ev t'"
  then show ?thesis
  proof cases
    case (publish now topic d i to outcome)
    from tp_publish_frame [OF publish(2)] show ?thesis by auto
  next
    case (subscribe now c topic outcome)
    then have "t' = snd (tp_subscribe tc now c topic t)" by simp
    then show ?thesis
      by (auto simp: tp_subscribe_join tp_listen_def Let_def drop split: option.splits)
  next
    case (unsubscribe c topic outcome)
    then show ?thesis using unsub [of c topic t] by simp
  qed (auto simp: tp_opened_def tp_failed_def tp_gone_now_def tp_due_def Let_def idle drop split: option.splits)
qed

text \<open>
  C27: a topic's resource runs exactly while somebody wants it. However subscribes, snapshots that
  come back or fail, unsubscribes and closing connections interleave, the owner of a topic was
  told to start once more than to stop if some connection is subscribed or has a subscription
  still being opened, and exactly as often otherwise; and so were the other instances asked and
  told to leave off.
\<close>

theorem resource_runs_while_wanted:
  assumes "tp_steps tc stringify (tp_built caps remote kinds) evs t"
    and "topicKind tc topic = Some kind"
  shows "let want = (if subscribers_of t topic \<noteq> [] \<or> opening_of t topic \<noteq> [] then 1 else 0) in
    (kind \<in> set kinds \<longrightarrow> count_list (tp_calls t) (Start topic) = count_list (tp_calls t) (Stop topic) + want)
    \<and> (remote \<longrightarrow> count_list (tp_calls t) (Demand topic True) = count_list (tp_calls t) (Demand topic False) + want)"
proof -
  have inv: "tp_ok tc t \<and> set (tp_attached t) = set kinds \<and> tp_remote t = remote"
    using assms(1)
  proof (induction "tp_built caps remote kinds :: 'a topics" evs t rule: tp_steps.induct)
    case none
    have "tp_remote (tp_built caps remote kinds :: 'a topics) = remote"
      by (subst tp_built_fields) (simp add: Topics_def)
    then show ?case by (simp add: tp_built_ok tp_built_attached)
  next
    case (more evs t1 ev t2)
    then show ?case using tp_step_ok tp_step_keeps by metis
  qed
  have "wanted t topic \<longleftrightarrow> subscribers_of t topic \<noteq> [] \<or> opening_of t topic \<noteq> []"
    using inv busy_wanted [of t topic] unfolding tp_ok_def busy_def by blast
  with inv assms(2) show ?thesis by (simp add: tp_ok_def calls_ok_def called_def Let_def)
qed

text \<open>One event topic open to everybody, and a connection subscribed to it.\<close>

definition example_topics :: topic_contract where
  "example_topics =
     \<lparr>topicKind = (\<lambda>topic. if topic = ''notify'' then Some ''notify'' else None),
      topicGranularity = (\<lambda>topic. ''event''), topicRoles = (\<lambda>kind. [Session, User]), topicCapability = (\<lambda>kind. None)\<rparr>"

definition example_settled :: "conn_ref \<Rightarrow> conn_identity \<Rightarrow> unit topics" where
  "example_settled c i = (tp_built [] True [''notify''])\<lparr>tp_identity := (\<lambda>x. Anonymous)(c := i)\<rparr>"

definition example_subscribed :: "unit topics" where
  "example_subscribed =
     tp_opened example_topics 1 [] [] (snd (tp_subscribe example_topics 0 7 ''notify'' (example_settled 7 (Settled User None))))"

lemma example_settled_step:
  "tp_steps example_topics (\<lambda>d. []) (tp_built [] True [''notify'']) [TpSettle c r s] (example_settled c (Settled r s))"
proof -
  let ?t = "tp_built [] True [''notify''] :: unit topics"
  have "tp_identity ?t = (\<lambda>x. Anonymous)" by (subst tp_built_fields) (simp add: Topics_def)
  then have e: "example_settled c (Settled r s) = ?t\<lparr>tp_identity := (tp_identity ?t)(c := Settled r s)\<rparr>"
    by (simp add: example_settled_def)
  show ?thesis unfolding e
    using tp_steps.more [OF tp_steps.none tp_step.settle, of example_topics "\<lambda>d. []" ?t c r s] by simp
qed

lemma example_subscribed_steps:
  "tp_steps example_topics (\<lambda>d. []) (tp_built [] True [''notify''])
     [TpSettle 7 User None, TpSubscribe 0 7 ''notify'', TpOpened 1 [] []] example_subscribed"
proof -
  let ?t = "example_settled 7 (Settled User None)"
  obtain o1 t1 where s: "tp_subscribe example_topics 0 7 ''notify'' ?t = (o1, t1)" by fastforce
  have "tp_steps example_topics (\<lambda>d. []) (tp_built [] True [''notify''])
      ([TpSettle 7 User None] @ [TpSubscribe 0 7 ''notify'']) t1"
    by (rule tp_steps.more [OF example_settled_step tp_step.subscribe [OF s]])
  from tp_steps.more [OF this tp_step.opened, of 1 "[]" "[]"] s show ?thesis
    by (simp add: example_subscribed_def)
qed

theorem resource_runs_while_wanted_witness:
  "count_list (tp_calls example_subscribed) (Start ''notify'') = count_list (tp_calls example_subscribed) (Stop ''notify'') + 1"
proof -
  have "subscribers_of example_subscribed ''notify'' = [7]" by code_simp
  with resource_runs_while_wanted [OF example_subscribed_steps, of "''notify''" "''notify''"] show ?thesis
    by (simp add: example_topics_def Let_def)
qed

section \<open>A frame reaches its audience\<close>

definition suppressed :: "topic_contract \<Rightarrow> ('d \<Rightarrow> string) \<Rightarrow> 'd topics \<Rightarrow> topic_name \<Rightarrow> 'd \<Rightarrow> instance_id \<Rightarrow> bool" where
  "suppressed tc stringify t topic d i \<longleftrightarrow> replaces tc topic \<and> map_of (tp_sent t topic) i = Some (stringify d)"

definition frame_key :: "topic_contract \<Rightarrow> topic_name \<Rightarrow> instance_id \<Rightarrow> string option" where
  "frame_key tc topic i = (if replaces tc topic then Some (topic @ ''|'' @ i) else None)"

lemma publish_to_effect:
  assumes "distinct conns" "publish_to now frame key to conns t = (outcome, t')"
  shows "map_of (tp_egress t') c = (if c \<in> set conns \<and> holds (tp_identity t c) to
      then Some (snd (eg_push now frame key (tp_out t c))) else map_of (tp_egress t) c)"
    and "outcome = RateLimited \<longleftrightarrow>
      (\<exists>c \<in> set conns. holds (tp_identity t c) to \<and> \<not> fst (eg_push now frame key (tp_out t c)))"
proof -
  have "map_of (tp_egress t') c = (if c \<in> set conns \<and> holds (tp_identity t c) to
      then Some (snd (eg_push now frame key (tp_out t c))) else map_of (tp_egress t) c)
    \<and> (outcome = RateLimited \<longleftrightarrow>
      (\<exists>c \<in> set conns. holds (tp_identity t c) to \<and> \<not> fst (eg_push now frame key (tp_out t c))))"
    using assms
  proof (induction conns arbitrary: t outcome)
    case Nil
    then show ?case by auto
  next
    case (Cons a conns)
    show ?case
    proof (cases "holds (tp_identity t a) to")
      case True
      obtain ok e where p: "eg_push now frame key (tp_out t a) = (ok, e)" by fastforce
      let ?t = "t\<lparr>tp_egress := map_set a e (tp_egress t)\<rparr>"
      obtain o2 t2 where r: "publish_to now frame key to conns ?t = (o2, t2)" by fastforce
      have out: "tp_out ?t c = tp_out t c" if "c \<noteq> a" for c using that by (simp add: tp_out_def)
      have a: "a \<notin> set conns" "distinct conns" using Cons.prems(1) by simp_all
      have t': "t' = t2" "outcome = (if ok then o2 else RateLimited)" using Cons.prems(2) True p r by auto
      have ih: "map_of (tp_egress t2) c = (if c \<in> set conns \<and> holds (tp_identity t c) to
          then Some (snd (eg_push now frame key (tp_out ?t c))) else map_of (tp_egress ?t) c)"
        "o2 = RateLimited \<longleftrightarrow>
          (\<exists>c \<in> set conns. holds (tp_identity t c) to \<and> \<not> fst (eg_push now frame key (tp_out ?t c)))"
        using Cons.IH [OF a(2) r [folded t'(1)]] t'(1) by simp_all
      have "(\<exists>c \<in> set conns. holds (tp_identity t c) to \<and> \<not> fst (eg_push now frame key (tp_out ?t c)))
          \<longleftrightarrow> (\<exists>c \<in> set conns. holds (tp_identity t c) to \<and> \<not> fst (eg_push now frame key (tp_out t c)))"
        using a(1) out by metis
      moreover have "map_of (tp_egress t2) c = (if c \<in> set (a # conns) \<and> holds (tp_identity t c) to
          then Some (snd (eg_push now frame key (tp_out t c))) else map_of (tp_egress t) c)"
        using ih(1) out [of c] a(1) True p by (cases "c = a") auto
      ultimately show ?thesis using ih(2) t' True p by auto
    next
      case False
      with Cons show ?thesis by auto
    qed
  qed
  then show "map_of (tp_egress t') c = (if c \<in> set conns \<and> holds (tp_identity t c) to
      then Some (snd (eg_push now frame key (tp_out t c))) else map_of (tp_egress t) c)"
    and "outcome = RateLimited \<longleftrightarrow>
      (\<exists>c \<in> set conns. holds (tp_identity t c) to \<and> \<not> fst (eg_push now frame key (tp_out t c)))" by blast+
qed

section \<open>Who is on a topic\<close>

definition present :: "'d topics \<Rightarrow> conn_ref \<Rightarrow> topic_name \<Rightarrow> bool" where
  "present t c topic \<longleftrightarrow> c \<in> set (subscribers_of t topic) \<or> c \<in> set (opening_of t topic)"

definition subs_distinct :: "'d topics \<Rightarrow> bool" where
  "subs_distinct t \<longleftrightarrow> (\<forall>topic. distinct (subscribers_of t topic))"

lemma idle_views:
  "subscribers_of (tp_idle k b t) a = (if \<not> wanted t b \<or> busy t b \<or> a \<noteq> b then subscribers_of t a else [])"
  "opening_of (tp_idle k b t) a = (if \<not> wanted t b \<or> busy t b \<or> a \<noteq> b then opening_of t a else [])"
  "tp_closers (tp_idle k b t) = tp_closers t" "tp_gone (tp_idle k b t) = tp_gone t"
  "tp_identity (tp_idle k b t) = tp_identity t"
  by (auto simp: tp_idle_def busy_def view_defs cong: option.case_cong)

lemma unsubscribe_views:
  assumes "sets_ok tc t" "topicKind tc b = Some kind" and t': "t' = snd (tp_unsubscribe tc c b t)"
  shows "set (subscribers_of t' a) \<subseteq> set (subscribers_of t a) - (if a = b then {c} else {})"
    "set (opening_of t' a) \<subseteq> set (opening_of t a) - (if a = b then {c} else {})"
    "distinct (subscribers_of t a) \<Longrightarrow> distinct (subscribers_of t' a)"
    "tp_closers t' = tp_closers t" "tp_gone t' = tp_gone t" "tp_identity t' = tp_identity t"
  unfolding t' tp_unsubscribe_leave [OF assms(2)]
  by (auto simp: idle_views tp_leave_views [OF assms(1)] tp_leave_frame)

lemma unsubscribe_unknown: "topicKind tc b = None \<Longrightarrow> snd (tp_unsubscribe tc c b t) = t"
  by (simp add: tp_unsubscribe_def)

text \<open>Dropping everything: nothing is gained, and the connection is nowhere.\<close>

lemma unsubscribes_views:
  assumes "tp_ok tc t" and "t' = fold (\<lambda>topic t. snd (tp_unsubscribe tc c topic t)) topics t"
  shows "(\<forall>a x. present t' x a \<longrightarrow> present t x a \<and> \<not> (x = c \<and> a \<in> set topics \<and> topicKind tc a \<noteq> None))
    \<and> (subs_distinct t \<longrightarrow> subs_distinct t')
    \<and> tp_closers t' = tp_closers t \<and> tp_gone t' = tp_gone t \<and> tp_identity t' = tp_identity t"
  using assms
proof (induction topics arbitrary: t)
  case Nil
  then show ?case by simp
next
  case (Cons b topics)
  let ?u = "snd (tp_unsubscribe tc c b t)"
  have sets: "sets_ok tc t" using Cons.prems(1) by (simp add: tp_ok_def)
  have one: "(\<forall>a x. present ?u x a \<longrightarrow> present t x a \<and> \<not> (x = c \<and> a = b \<and> topicKind tc a \<noteq> None))
      \<and> (subs_distinct t \<longrightarrow> subs_distinct ?u)
      \<and> tp_closers ?u = tp_closers t \<and> tp_gone ?u = tp_gone t \<and> tp_identity ?u = tp_identity t"
  proof (cases "topicKind tc b")
    case None
    then show ?thesis by (simp add: unsubscribe_unknown)
  next
    case (Some kind)
    note v = unsubscribe_views [OF sets Some refl [of "snd (tp_unsubscribe tc c b t)"]]
    have "present t x a \<and> \<not> (x = c \<and> a = b)" if "present ?u x a" for x a
      using that v(1) [of a] v(2) [of a] by (cases "a = b") (auto simp: present_def)
    moreover have "subs_distinct t \<longrightarrow> subs_distinct ?u" using v(3) by (simp add: subs_distinct_def)
    ultimately show ?thesis using v(4-6) by blast
  qed
  have "tp_ok tc ?u" by (rule tp_unsubscribe_ok [OF Cons.prems(1)])
  moreover have "t' = fold (\<lambda>topic t. snd (tp_unsubscribe tc c topic t)) topics ?u" using Cons.prems(2) by simp
  ultimately have ih: "(\<forall>a x. present t' x a \<longrightarrow>
        present ?u x a \<and> \<not> (x = c \<and> a \<in> set topics \<and> topicKind tc a \<noteq> None))
      \<and> (subs_distinct ?u \<longrightarrow> subs_distinct t')
      \<and> tp_closers t' = tp_closers ?u \<and> tp_gone t' = tp_gone ?u \<and> tp_identity t' = tp_identity ?u"
    by (rule Cons.IH)
  have "present t x a \<and> \<not> (x = c \<and> a \<in> set (b # topics) \<and> topicKind tc a \<noteq> None)" if "present t' x a" for x a
  proof -
    from ih that have "present ?u x a" "\<not> (x = c \<and> a \<in> set topics \<and> topicKind tc a \<noteq> None)" by metis+
    moreover from this(1) one have "present t x a \<and> \<not> (x = c \<and> a = b \<and> topicKind tc a \<noteq> None)" by metis
    ultimately show ?thesis by auto
  qed
  with ih one show ?case by metis
qed

lemma held_topics_mem:
  assumes "present t c a"
  shows "a \<in> set (held_topics t c)"
proof -
  let ?subs = "map fst (filter (\<lambda>e. c \<in> set (snd e)) (tp_subscribers t))"
  consider s where "map_of (tp_subscribers t) a = Some s" "c \<in> set s"
    | n where "map_of (tp_opening t) a = Some n" "c \<in> set (set_of t n)"
    using assms unfolding present_def subscribers_of_def opening_of_def map_get_or_def
    by (cases "map_of (tp_subscribers t) a"; cases "map_of (tp_opening t) a") auto
  then show ?thesis
  proof cases
    case 1
    then have "(a, s) \<in> set (filter (\<lambda>e. c \<in> set (snd e)) (tp_subscribers t))" by (auto dest: map_of_SomeD)
    then have "a \<in> set ?subs" by force
    then show ?thesis by (simp add: held_topics_def Let_def)
  next
    case 2
    then have "(a, n) \<in> set (filter (\<lambda>e. c \<in> set (set_of t (snd e))) (tp_opening t))" by (auto dest: map_of_SomeD)
    then have "a \<in> fst ` set (filter (\<lambda>e. c \<in> set (set_of t (snd e))) (tp_opening t))" by force
    then show ?thesis unfolding held_topics_def Let_def by (cases "a \<in> set ?subs") auto
  qed
qed

lemma present_wanted: "present t c a \<Longrightarrow> wanted t a"
  by (rule busy_wanted) (auto simp: present_def busy_def)

lemma dropAll_views:
  assumes ok: "tp_ok tc t" and t': "t' = tp_dropAll tc now c t"
  shows "\<not> present t' c a" "present t' x a \<Longrightarrow> present t x a" "subs_distinct t \<Longrightarrow> subs_distinct t'"
    "tp_closers t' = tp_closers t" "tp_gone t' = tp_gone t" "tp_identity t' = tp_identity t"
proof -
  define u where "u = fold (\<lambda>topic t. snd (tp_unsubscribe tc c topic t)) (held_topics t c) t"
  have f: "tp_subscribers t' = tp_subscribers u" "tp_opening t' = tp_opening u" "tp_sets t' = tp_sets u"
    "tp_closers t' = tp_closers u" "tp_gone t' = tp_gone u" "tp_identity t' = tp_identity u"
    by (simp_all add: t' tp_dropAll_def u_def [symmetric] Let_def split: option.splits)
  have views: "subscribers_of t' = subscribers_of u" "opening_of t' = opening_of u"
    using f by (simp_all add: view_defs fun_eq_iff cong: option.case_cong)
  have eq: "present t' = present u" "subs_distinct t' = subs_distinct u" "tp_closers t' = tp_closers u"
    "tp_gone t' = tp_gone u" "tp_identity t' = tp_identity u"
    using f views by (simp_all add: present_def subs_distinct_def fun_eq_iff)
  note v = unsubscribes_views [OF ok u_def]
  have v1: "present t x a" "\<not> (x = c \<and> a \<in> set (held_topics t c) \<and> topicKind tc a \<noteq> None)" if "present u x a" for x a
    using v that by metis+
  have kind: "topicKind tc a \<noteq> None" if "present t x a" for x a
    using present_wanted [OF that] sets_okD(6) [of tc t a] ok by (simp add: tp_ok_def)
  show "\<not> present t' c a"
  proof
    assume "present t' c a"
    then have p: "present u c a" by (simp add: eq)
    from v1(2) [OF p] held_topics_mem [OF v1(1) [OF p]] kind [OF v1(1) [OF p]] show False by simp
  qed
  show "present t' x a \<Longrightarrow> present t x a" using v1(1) by (simp add: eq)
  show "subs_distinct t \<Longrightarrow> subs_distinct t'" using v by (simp add: eq)
  show "tp_closers t' = tp_closers t" "tp_gone t' = tp_gone t" "tp_identity t' = tp_identity t"
    using v by (simp_all add: eq)
qed

lemma join_views:
  assumes "sets_ok tc t"
  shows "subscribers_of (tp_join c topic t) a = subscribers_of t a"
    "set (opening_of (tp_join c topic t) a) \<subseteq> set (opening_of t a) \<union> (if a = topic then {c} else {})"
    "tp_closers (tp_join c topic t) = tp_closers t" "tp_gone (tp_join c topic t) = tp_gone t"
proof -
  show "subscribers_of (tp_join c topic t) a = subscribers_of t a"
    "tp_closers (tp_join c topic t) = tp_closers t" "tp_gone (tp_join c topic t) = tp_gone t"
    by (simp_all add: tp_join_def Let_def subscribers_of_def)
  define n where "n = (case map_of (tp_opening t) topic of None \<Rightarrow> tp_next t | Some n \<Rightarrow> n)"
  have j: "tp_opening (tp_join c topic t) = map_set topic n (tp_opening t)"
    "set_of (tp_join c topic t) m = (if m = n then set_add c (opening_of t topic) else set_of t m)" for m
    by (simp_all add: tp_join_def Let_def n_def set_of_def)
  show "set (opening_of (tp_join c topic t) a) \<subseteq> set (opening_of t a) \<union> (if a = topic then {c} else {})"
  proof (cases "a = topic")
    case True
    then show ?thesis by (auto simp: opening_of_def [of "tp_join c topic t"] j)
  next
    case False
    then have "map_of (tp_opening t) a \<noteq> Some n"
      using sets_okD(1) [OF assms, of a] sets_okD(2) [OF assms, of a _ topic]
      by (cases "map_of (tp_opening t) topic") (auto simp: n_def)
    then have "opening_of (tp_join c topic t) a = opening_of t a"
      using False by (cases "map_of (tp_opening t) a") (auto simp: opening_of_def [of "tp_join c topic t"] opening_of_def [of t a] j)
    then show ?thesis using False by simp
  qed
qed

lemma listen_views:
  assumes ok: "tp_ok tc t" and t': "t' = tp_listen tc now c t"
  shows "present t' x a \<Longrightarrow> present t x a" "subs_distinct t \<Longrightarrow> subs_distinct t'"
    "set (tp_closers t') = insert c (set (tp_closers t))"
proof -
  let ?u = "t\<lparr>tp_closers := set_add c (tp_closers t)\<rparr>"
  have u: "tp_ok tc ?u" by (rule tp_ok_cong [OF ok]) simp_all
  have s: "subscribers_of ?u = subscribers_of t" by (simp add: subscribers_of_def fun_eq_iff)
  have o: "opening_of ?u = opening_of t" by (simp add: opening_of_def set_of_def fun_eq_iff cong: option.case_cong)
  have same: "present ?u = present t" "subs_distinct ?u = subs_distinct t"
    by (simp_all add: present_def subs_distinct_def s o fun_eq_iff)
  have "t' = t \<and> c \<in> set (tp_closers t) \<or> t' = ?u \<or> t' = tp_dropAll tc now c ?u"
    by (simp add: t' tp_listen_def Let_def)
  then show "present t' x a \<Longrightarrow> present t x a" "subs_distinct t \<Longrightarrow> subs_distinct t'"
    "set (tp_closers t') = insert c (set (tp_closers t))"
    using dropAll_views(2-4) [OF u refl, of now c] same by auto
qed

text \<open>What a step other than a subscribe of \<open>x\<close> can do to where \<open>x\<close> is: nothing, or less.\<close>

lemma step_present:
  assumes ok: "tp_ok tc t" and step: "tp_step tc stringify t ev t'"
  shows "present t' x a \<Longrightarrow> (\<forall>now topic. ev \<noteq> TpSubscribe now x topic) \<Longrightarrow> present t x a"
    and "subs_distinct t \<Longrightarrow> subs_distinct t'"
    and "set (tp_closers t) \<subseteq> set (tp_closers t')"
    and "present t' x a \<Longrightarrow> present t x a \<or> x \<in> set (tp_closers t')"
proof -
  have sets: "sets_ok tc t" using ok by (simp add: tp_ok_def)
  have "(present t' x a \<longrightarrow> (\<forall>now topic. ev \<noteq> TpSubscribe now x topic) \<longrightarrow> present t x a)
    \<and> (subs_distinct t \<longrightarrow> subs_distinct t') \<and> set (tp_closers t) \<subseteq> set (tp_closers t')
    \<and> (present t' x a \<longrightarrow> present t x a \<or> x \<in> set (tp_closers t'))"
    using step
  proof cases
    case (publish now topic d i to outcome)
    from tp_publish_frame [OF publish(2)] obtain e l where t': "t' = t\<lparr>tp_egress := e, tp_lastSent := l\<rparr>" by blast
    then have "subscribers_of t' = subscribers_of t" "opening_of t' = opening_of t"
      by (simp_all add: subscribers_of_def opening_of_def set_of_def fun_eq_iff cong: option.case_cong)
    then show ?thesis using t' by (simp add: present_def subs_distinct_def)
  next
    case (settle c r s)
    then have "subscribers_of t' = subscribers_of t" "opening_of t' = opening_of t"
      by (simp_all add: subscribers_of_def opening_of_def set_of_def fun_eq_iff cong: option.case_cong)
    then show ?thesis using settle by (simp add: present_def subs_distinct_def)
  next
    case (due now c)
    then have "subscribers_of t' = subscribers_of t" "opening_of t' = opening_of t" "tp_closers t' = tp_closers t"
      by (simp_all add: tp_due_def subscribers_of_def opening_of_def set_of_def fun_eq_iff cong: option.case_cong
          split: option.splits)
    then show ?thesis by (simp add: present_def subs_distinct_def)
  next
    case (unsubscribe c topic outcome)
    then have t': "t' = snd (tp_unsubscribe tc c topic t)" by simp
    show ?thesis
    proof (cases "topicKind tc topic")
      case None
      then show ?thesis using t' by (simp add: unsubscribe_unknown)
    next
      case (Some kind)
      note v = unsubscribe_views [OF sets Some t']
      have "present t' x a \<Longrightarrow> present t x a" using v(1,2) [of a] by (auto simp: present_def)
      moreover have "subs_distinct t \<longrightarrow> subs_distinct t'" using v(3) by (simp add: subs_distinct_def)
      ultimately show ?thesis using v(4) by simp
    qed
  next
    case (drop_all now c)
    then show ?thesis using dropAll_views [OF ok refl, of now c] by auto
  next
    case (gone c now)
    let ?u = "t\<lparr>tp_gone := set_add c (tp_gone t)\<rparr>"
    have u: "tp_ok tc ?u" by (rule tp_ok_cong [OF ok]) simp_all
    have "subscribers_of ?u = subscribers_of t" "opening_of ?u = opening_of t"
      by (simp_all add: subscribers_of_def opening_of_def set_of_def fun_eq_iff cong: option.case_cong)
    then have same: "present ?u = present t" "subs_distinct ?u = subs_distinct t"
      by (simp_all add: present_def subs_distinct_def fun_eq_iff)
    have "t' = ?u \<or> t' = tp_dropAll tc now c ?u" using gone by (simp add: tp_gone_now_def Let_def)
    then show ?thesis using dropAll_views(2-4) [OF u refl, of now c] same by auto
  next
    case (failed w)
    show ?thesis
    proof (cases "map_of (tp_waits t) w")
      case None
      then show ?thesis using failed by (simp add: tp_failed_def)
    next
      case (Some y)
      obtain c topic n where y: "y = (c, topic, n)" by (cases y)
      let ?u = "t\<lparr>tp_waits := map_del w (tp_waits t), tp_sets := map_set n (set_del c (set_of t n)) (tp_sets t)\<rparr>"
      have t': "t' = tp_idle (the (topicKind tc topic)) topic ?u" using failed Some y by (simp add: tp_failed_def)
      have u: "subscribers_of ?u b = subscribers_of t b" "set (opening_of ?u b) \<subseteq> set (opening_of t b)" for b
        by (auto simp: subscribers_of_def opening_of_def set_of_def split: option.splits)
      have "present t' x a \<Longrightarrow> present t x a" using u [of a] by (auto simp: present_def t' idle_views split: if_splits)
      moreover have "subs_distinct t \<longrightarrow> subs_distinct t'" by (simp add: subs_distinct_def t' idle_views u)
      moreover have "tp_closers t' = tp_closers t" by (simp add: t' idle_views)
      ultimately show ?thesis by simp
    qed
  next
    case (opened w stated remote)
    show ?thesis
    proof (cases "map_of (tp_waits t) w")
      case None
      then show ?thesis using opened by (simp add: tp_opened_def)
    next
      case (Some y)
      obtain c topic n where y: "y = (c, topic, n)" by (cases y)
      have wait: "map_of (tp_waits t) w = Some (c, topic, n)" using Some y by simp
      let ?u = "t\<lparr>tp_waits := map_del w (tp_waits t)\<rparr>"
      have uv: "subscribers_of ?u = subscribers_of t" "opening_of ?u = opening_of t" "set_of ?u = set_of t"
        by (simp_all add: subscribers_of_def opening_of_def set_of_def fun_eq_iff cong: option.case_cong)
      show ?thesis
      proof (cases "c \<in> set (set_of t n)")
        case False
        then have t': "t' = tp_idle (the (topicKind tc topic)) topic ?u"
          using opened wait uv by (simp add: tp_opened_def Let_def)
        have "present t' x a \<Longrightarrow> present t x a" by (auto simp: present_def t' idle_views uv split: if_splits)
        moreover have "subs_distinct t \<longrightarrow> subs_distinct t'" by (simp add: subs_distinct_def t' idle_views uv)
        moreover have "tp_closers t' = tp_closers t" by (simp add: t' idle_views)
        ultimately show ?thesis by simp
      next
        case True
        then have cur: "map_of (tp_opening t) topic = Some n" using sets_okD(5) [OF sets wait] by auto
        have f: "tp_opening t' = tp_opening t" "tp_sets t' = map_set n (set_del c (set_of t n)) (tp_sets t)"
          "tp_subscribers t' = map_set topic (set_add c (subscribers_of t topic)) (tp_subscribers t)"
          "tp_closers t' = tp_closers t"
          using opened True wait uv by (simp_all add: tp_opened_def Let_def)
        have s: "subscribers_of t' b = (if b = topic then set_add c (subscribers_of t topic) else subscribers_of t b)" for b
          by (simp add: subscribers_of_def f)
        have "set (opening_of t' b) \<subseteq> set (opening_of t b)" for b
          by (auto simp: opening_of_def set_of_def f split: option.splits)
        moreover have "c \<in> set (opening_of t topic)" using True cur by (simp add: opening_of_def)
        ultimately have "present t' x a \<Longrightarrow> present t x a" by (auto simp: present_def s split: if_splits)
        moreover have "subs_distinct t \<longrightarrow> subs_distinct t'" by (auto simp: subs_distinct_def s)
        ultimately show ?thesis using f(4) by simp
      qed
    qed
  next
    case (subscribe now c topic outcome)
    then have t': "t' = snd (tp_subscribe tc now c topic t)" by simp
    show ?thesis
    proof (cases "subscribe_refusal tc t c topic")
      case (Some r)
      then show ?thesis using t' by (simp add: tp_subscribe_join)
    next
      case None
      define u where "u = tp_listen tc now c t"
      note l = listen_views [OF ok u_def]
      have oku: "tp_ok tc u" unfolding u_def by (rule tp_listen_ok [OF ok])
      have setsu: "sets_ok tc u" using oku by (simp add: tp_ok_def)
      note j = join_views [OF setsu, of c topic]
      have t'': "t' = tp_join c topic u \<or> t' = tp_call (the (topicKind tc topic)) (Start topic) topic True (tp_join c topic u)"
        using t' None by (simp add: tp_subscribe_join Let_def u_def)
      have "subscribers_of t' = subscribers_of (tp_join c topic u)" "opening_of t' = opening_of (tp_join c topic u)"
        "tp_closers t' = tp_closers (tp_join c topic u)"
        using t'' by (auto simp: subscribers_of_def opening_of_def set_of_def fun_eq_iff cong: option.case_cong)
      note v = this
      have "present t' x a \<Longrightarrow> present t x a \<or> x = c"
        using j(1,2) [of a] l(1) [of x a] unfolding present_def v by (auto split: if_splits)
      moreover have "subs_distinct t \<longrightarrow> subs_distinct t'" using l(2) unfolding subs_distinct_def v j(1) by blast
      moreover have "set (tp_closers t') = insert c (set (tp_closers t))" using l(3) v(3) j(3) by simp
      ultimately show ?thesis using subscribe(1) by auto
    qed
  qed
  then show "present t' x a \<Longrightarrow> (\<forall>now topic. ev \<noteq> TpSubscribe now x topic) \<Longrightarrow> present t x a"
    and "subs_distinct t \<Longrightarrow> subs_distinct t'"
    and "set (tp_closers t) \<subseteq> set (tp_closers t')"
    and "present t' x a \<Longrightarrow> present t x a \<or> x \<in> set (tp_closers t')" by blast+
qed

text \<open>All of it along a run.\<close>

lemma tp_steps_inv:
  assumes "tp_steps tc stringify (tp_built caps remote kinds) evs t"
  shows "tp_ok tc t" "subs_distinct t" "present t x a \<Longrightarrow> x \<in> set (tp_closers t)"
proof -
  have "tp_ok tc t \<and> subs_distinct t \<and> (\<forall>x a. present t x a \<longrightarrow> x \<in> set (tp_closers t))"
    using assms
  proof (induction "tp_built caps remote kinds :: 'a topics" evs t rule: tp_steps.induct)
    case none
    have "subs_distinct ((Topics caps remote :: 'a topics)\<lparr>tp_attached := y\<rparr>)"
      "\<not> present ((Topics caps remote :: 'a topics)\<lparr>tp_attached := y\<rparr>) x a" for y x a
      by (simp_all add: subs_distinct_def present_def subscribers_of_def opening_of_def Topics_def)
    then have "subs_distinct (tp_built caps remote kinds :: 'a topics)"
      "\<And>x a. \<not> present (tp_built caps remote kinds :: 'a topics) x a"
      by (metis tp_built_fields)+
    then show ?case by (simp add: tp_built_ok)
  next
    case (more evs t1 ev t2)
    then have ih: "tp_ok tc t1" "subs_distinct t1" "\<And>x a. present t1 x a \<Longrightarrow> x \<in> set (tp_closers t1)" by blast+
    note p = step_present [OF ih(1) more(3)]
    have "x \<in> set (tp_closers t2)" if "present t2 x a" for x a
      using p(4) [OF that] p(3) ih(3) by blast
    then show ?case using tp_step_ok [OF more(3) ih(1)] p(2) ih(2) by blast
  qed
  then show "tp_ok tc t" "subs_distinct t" "present t x a \<Longrightarrow> x \<in> set (tp_closers t)" by blast+
qed

text \<open>
  C10: a value reaches exactly the subscribers it is for. Publishing on a reachable state touches
  the outgoing queue of a connection if and only if the topic exists, the value is not a repeat
  of the last whole value sent for its instance, and the connection is subscribed and among
  the audience the frame was narrowed to; it then pushes that one frame, folding on the topic
  and instance for a value that replaces. The publisher is told \<open>rate_limited\<close> if and only if
  one of those queues refused.
\<close>

theorem publish_reaches_its_audience:
  assumes "tp_steps tc stringify (tp_built caps remote kinds) evs t"
    and "tp_publish tc stringify now topic d i to t = (outcome, t')"
  shows "let reached = (\<lambda>c. topicKind tc topic \<noteq> None \<and> \<not> suppressed tc stringify t topic d i
                \<and> c \<in> set (subscribers_of t topic) \<and> holds (tp_identity t c) to);
             pushed = (\<lambda>c. eg_push now (TopicFrame topic False i d) (frame_key tc topic i) (tp_out t c))
    in (\<forall>c. map_of (tp_egress t') c = (if reached c then Some (snd (pushed c)) else map_of (tp_egress t) c))
       \<and> (outcome = RateLimited \<longleftrightarrow> (\<exists>c. reached c \<and> \<not> fst (pushed c)))"
proof -
  have d: "distinct (subscribers_of t topic)" using tp_steps_inv(2) [OF assms(1)] by (simp add: subs_distinct_def)
  let ?f = "TopicFrame topic False i d" and ?k = "frame_key tc topic i" and ?s = "subscribers_of t topic"
  consider "topicKind tc topic = None \<or> suppressed tc stringify t topic d i"
    | u where "topicKind tc topic \<noteq> None" "\<not> suppressed tc stringify t topic d i"
      "publish_to now ?f ?k to ?s u = (outcome, t')" "tp_egress u = tp_egress t" "tp_identity u = tp_identity t"
    using assms(2) by (force simp: tp_publish_def suppressed_def frame_key_def Let_def split: if_splits)
  then show ?thesis
  proof cases
    case 1
    then have "tp_egress t' = tp_egress t" "outcome = PubOk"
      using assms(2) by (auto simp: tp_publish_def suppressed_def Let_def split: if_splits)
    with 1 show ?thesis by (auto simp: Let_def)
  next
    case 2
    have out: "tp_out u = tp_out t" using 2(4) by (simp add: tp_out_def fun_eq_iff)
    from publish_to_effect [OF d 2(3)] 2(1,2) show ?thesis
      by (simp add: Let_def out 2(4,5)) blast
  qed
qed

theorem publish_reaches_its_audience_witness:
  "map_of (tp_egress (snd (tp_publish example_topics (\<lambda>d. []) 5 ''notify'' () ''i'' (Some (ToSession ''s'')) example_subscribed))) 7
     = map_of (tp_egress example_subscribed) 7"
proof -
  obtain outcome t' where p: "tp_publish example_topics (\<lambda>d. []) 5 ''notify'' () ''i'' (Some (ToSession ''s'')) example_subscribed = (outcome, t')"
    by fastforce
  have "\<not> holds (tp_identity example_subscribed 7) (Some (ToSession ''s''))" by code_simp
  with publish_reaches_its_audience [OF example_subscribed_steps p] p show ?thesis by (simp add: Let_def)
qed

text \<open>
  The end of a connection ends its subscriptions for good. Once the socket of a connection is
  gone, whatever was subscribed or still being opened on it, the connection is on no topic and
  stays on none as long as no further subscribe is taken from it, even when snapshots it was
  waiting for come back afterwards.
\<close>

theorem gone_connections_hold_nothing:
  assumes "tp_steps tc stringify (tp_built caps remote kinds) evs t"
    and "evs = before @ TpGone now c # after"
    and "\<forall>at topic. TpSubscribe at c topic \<notin> set after"
  shows "c \<notin> set (subscribers_of t topic) \<and> c \<notin> set (opening_of t topic)"
proof -
  have "\<not> present t c a" for a
    using assms
  proof (induction "tp_built caps remote kinds :: 'a topics" evs t arbitrary: after a rule: tp_steps.induct)
    case none
    then show ?case by simp
  next
    case (more evs t1 ev t2)
    note inv = tp_steps_inv [OF more(1)]
    show ?case
    proof (cases after rule: rev_cases)
      case Nil
      then have ev: "ev = TpGone now c" using more.prems by simp
      let ?u = "t1\<lparr>tp_gone := set_add c (tp_gone t1)\<rparr>"
      have u: "tp_ok tc ?u" by (rule tp_ok_cong [OF inv(1)]) simp_all
      have same: "present ?u = present t1"
        by (simp add: present_def subscribers_of_def opening_of_def set_of_def fun_eq_iff cong: option.case_cong)
      from more(3) have t2: "t2 = tp_gone_now tc now c t1" unfolding ev by cases
      show ?thesis
      proof (cases "c \<in> set (tp_closers t1)")
        case True
        then show ?thesis using dropAll_views(1) [OF u refl] by (simp add: t2 tp_gone_now_def Let_def)
      next
        case False
        then have "t2 = ?u" by (simp add: t2 tp_gone_now_def Let_def)
        then show ?thesis using same inv(3) [of c a] False by auto
      qed
    next
      case (snoc after' e)
      with more.prems have "ev = e" "evs = before @ TpGone now c # after'" by simp_all
      moreover from this have "\<not> present t1 c a" using more.prems(2) snoc by (intro more(2)) auto
      ultimately show ?thesis
        using step_present(1) [OF inv(1) more(3), of c a] more.prems(2) snoc by auto
    qed
  qed
  then show ?thesis by (simp add: present_def)
qed

theorem gone_connections_hold_nothing_witness:
  "7 \<notin> set (subscribers_of (tp_gone_now example_topics 9 7 example_subscribed) ''notify'')"
proof -
  have "(7 :: nat) \<notin> set (tp_gone example_subscribed)" by code_simp
  from tp_steps.more [OF example_subscribed_steps tp_step.gone [OF this, of example_topics "\<lambda>d. []" 9]]
  have "tp_steps example_topics (\<lambda>d. []) (tp_built [] True [''notify''])
     [TpSettle 7 User None, TpSubscribe 0 7 ''notify'', TpOpened 1 [] [], TpGone 9 7]
     (tp_gone_now example_topics 9 7 example_subscribed)" by simp
  from gone_connections_hold_nothing [OF this, of "[TpSettle 7 User None, TpSubscribe 0 7 ''notify'', TpOpened 1 [] []]"
      9 7 "[]"] show ?thesis by simp
qed

text \<open>One connection subscribes twice while the first is still being opened: the two share one
  place in the opening set. When the first snapshot fails, the second subscribe finds itself
  gone when its own comes back, and is answered as a subscription that is not there.\<close>

lemma second_subscribe_lost_with_the_first:
  "let t0 = example_settled 7 (Settled User None);
       t1 = snd (tp_subscribe example_topics 0 7 ''notify'' t0);
       t2 = snd (tp_subscribe example_topics 0 7 ''notify'' t1);
       t3 = tp_failed example_topics 1 t2;
       t4 = tp_opened example_topics 3 [(''i'', ())] [] t3
   in map_of (tp_waits t2) 1 = Some (7, ''notify'', 0) \<and> map_of (tp_waits t2) 3 = Some (7, ''notify'', 0)
      \<and> subscribers_of t4 ''notify'' = [] \<and> tp_deferred t4 = []"
  by code_simp

text \<open>A subscribe taken from a connection that is already gone runs the close listener before it
  joins the opening set: the connection stays subscribed and the resource keeps running.\<close>

lemma subscribe_after_the_end_stays:
  "let t0 = tp_gone_now example_topics 0 7 (example_settled 7 (Settled User None));
       t1 = snd (tp_subscribe example_topics 0 7 ''notify'' t0);
       t2 = tp_opened example_topics 1 [] [] t1
   in subscribers_of t2 ''notify'' = [7] \<and> 7 \<in> set (tp_gone t2)"
  by code_simp

end
