(* ===== verification/Elements.thy ===== *)
theory Elements
  imports Prelude
begin

text \<open>
  \<open>src/topics/elements.ts\<close>: the rows of a topic whose frames carry only what changed, on the
  side that states them (\<open>diff\<close>, \<open>diffRow\<close>, \<open>stated\<close>) and on the side that folds them in
  (\<open>merge\<close>).

  A row carries its names, its mark of departure and whatever else its producer put on it.
  \<open>wire\<close> stands for \<open>JSON.stringify\<close> and is an argument: rows are only ever compared by the
  form it gives them, which is also all a subscriber receives.
\<close>

section \<open>Rows and kinds\<close>

record 'b element_row =
  el_sid :: "sid option"
  el_pid :: "nat option"
  el_id :: "string option"
  el_instance :: "instance_id"
  el_removed :: bool
  el_rest :: "'b option"

text \<open>A kind is its \<open>key\<close> and its \<open>removal\<close>.\<close>

type_synonym 'b element_kind = "('b element_row \<Rightarrow> string option) \<times> ('b element_row \<Rightarrow> 'b element_row)"

definition departure :: "sid option \<Rightarrow> nat option \<Rightarrow> string option \<Rightarrow> instance_id \<Rightarrow> 'b element_row" where
  "departure s p i inst =
     \<lparr>el_sid = s, el_pid = p, el_id = i, el_instance = inst, el_removed = True, el_rest = None\<rparr>"

definition PEER_ROWS :: "'b element_kind" where
  "PEER_ROWS =
     (\<lambda>row. map_option (\<lambda>s. el_instance row @ '' '' @ s) (el_sid row),
      \<lambda>row. departure (el_sid row) None None (el_instance row))"

definition AGENT_ROWS :: "'b element_kind" where
  "AGENT_ROWS =
     (\<lambda>row. map_option (\<lambda>p. el_instance row @ '' '' @ show_nat p) (el_pid row),
      \<lambda>row. departure None (el_pid row) None (el_instance row))"

definition TERMINAL_ROWS :: "'b element_kind" where
  "TERMINAL_ROWS =
     (\<lambda>row. map_option (\<lambda>i. el_instance row @ '' '' @ i) (el_id row),
      \<lambda>row. departure None None (el_id row) (el_instance row))"

section \<open>Elements\<close>

type_synonym ('b, 'w) elements = "(string, 'b element_row \<times> 'w) js_map"

definition els_rows :: "('b, 'w) elements \<Rightarrow> 'b element_row list" where
  "els_rows held = map (fst \<circ> snd) held"

definition els_diffRow :: "'b element_kind \<Rightarrow> ('b element_row \<Rightarrow> 'w) \<Rightarrow> 'b element_row \<Rightarrow> ('b, 'w) elements \<Rightarrow>
    'b element_row list \<times> ('b, 'w) elements" where
  "els_diffRow kind wire row held =
     (case fst kind row of
        None \<Rightarrow> ([], held)
      | Some key \<Rightarrow>
          if map_option snd (map_of held key) = Some (wire row) then ([], held)
          else ([row], map_set key (row, wire row) held))"

text \<open>The first loop of \<open>diff\<close>.\<close>

fun els_restate :: "'b element_kind \<Rightarrow> ('b element_row \<Rightarrow> 'w) \<Rightarrow> 'b element_row list \<Rightarrow> ('b, 'w) elements \<Rightarrow>
    'b element_row list \<times> ('b, 'w) elements" where
  "els_restate kind wire [] held = ([], held)"
| "els_restate kind wire (row # rows) held =
     (let (c, held1) = els_diffRow kind wire row held; (cs, held2) = els_restate kind wire rows held1
      in (c @ cs, held2))"

definition els_diff :: "'b element_kind \<Rightarrow> ('b element_row \<Rightarrow> 'w) \<Rightarrow> 'b element_row list \<Rightarrow> ('b, 'w) elements \<Rightarrow>
    'b element_row list \<times> ('b, 'w) elements" where
  "els_diff kind wire rows held =
     (let present = List.map_filter (fst kind) rows;
          (changed, held') = els_restate kind wire rows held;
          gone = filter (\<lambda>e. fst e \<notin> set present) held'
      in (changed @ map (\<lambda>e. snd kind (fst (snd e))) gone, fold (\<lambda>e. map_del (fst e)) gone held'))"

definition els_stated :: "'b element_kind \<Rightarrow> ('b element_row \<Rightarrow> 'w) \<Rightarrow> 'b element_row list \<Rightarrow> ('b, 'w) elements" where
  "els_stated kind wire rows =
     fold (\<lambda>row held. case fst kind row of None \<Rightarrow> held | Some key \<Rightarrow> map_set key (row, wire row) held) rows []"

fun els_merge :: "'b element_kind \<Rightarrow> ('b element_row \<Rightarrow> 'w) \<Rightarrow> 'b element_row list \<Rightarrow> ('b, 'w) elements \<Rightarrow>
    'b element_row list \<times> ('b, 'w) elements" where
  "els_merge kind wire [] held = ([], held)"
| "els_merge kind wire (el # els) held =
     (let (n, held1) =
        (case fst kind el of
           None \<Rightarrow> ([], held)
         | Some key \<Rightarrow>
             if el_removed el then
               (if map_of held key = None then ([], held) else ([el], map_del key held))
             else if map_option snd (map_of held key) = Some (wire el) then ([], held)
             else ([el], map_set key (el, wire el) held));
          (ns, held2) = els_merge kind wire els held1
      in (n @ ns, held2))"

section \<open>The two sides keep step\<close>

text \<open>What a subscriber has: per key, the form it received.\<close>

definition forms :: "('b, 'w) elements \<Rightarrow> string \<rightharpoonup> 'w" where
  "forms held k = map_option snd (map_of held k)"

lemma forms_Nil [simp]: "forms [] = Map.empty"
  by (simp add: forms_def fun_eq_iff)

text \<open>What a kind promises: a departure is matched where its row was, and is marked.\<close>

locale element_kind =
  fixes key :: "'b element_row \<Rightarrow> string option" and removal :: "'b element_row \<Rightarrow> 'b element_row"
  assumes key_removal: "key (removal row) = key row"
    and removal_removed: "el_removed (removal row)"
begin

abbreviation kind :: "'b element_kind" where
  "kind \<equiv> (key, removal)"

definition held_ok :: "('b, 'w) elements \<Rightarrow> bool" where
  "held_ok held \<longleftrightarrow> map_wf held \<and> (\<forall>(k, row, w) \<in> set held. key row = Some k)"

lemma forms_set: "forms (map_set k (row, w) held) = (forms held)(k \<mapsto> w)"
  by (auto simp: forms_def fun_eq_iff)

lemma forms_del: "forms (map_del k held) = (forms held)(k := None)"
  by (auto simp: forms_def fun_eq_iff)

lemma forms_None: "forms held k = None \<longleftrightarrow> map_of held k = None"
  by (simp add: forms_def)

lemma held_ok_set: "held_ok held \<Longrightarrow> key row = Some k \<Longrightarrow> held_ok (map_set k (row, w) held)"
proof -
  assume ok: "held_ok held" and k: "key row = Some k"
  have "e \<in> set (map_set k (row, w) held) \<Longrightarrow> e \<in> set held \<or> e = (k, row, w)" for e
    by (induction held) (auto split: if_splits)
  with ok k show ?thesis unfolding held_ok_def by fastforce
qed

lemma held_ok_del: "held_ok held \<Longrightarrow> held_ok (map_del k held)"
  unfolding held_ok_def by (auto simp: AList.delete_eq)

lemma diffRow_step:
  assumes "els_diffRow kind wire row held = (c, held')" "forms sub = forms held" "\<not> el_removed row" "held_ok held"
  shows "\<exists>sub'. els_merge kind wire c sub = (c, sub') \<and> forms sub' = forms held'" "held_ok held'"
proof -
  have "(\<exists>sub'. els_merge kind wire c sub = (c, sub') \<and> forms sub' = forms held') \<and> held_ok held'"
  proof (cases "key row")
    case None
    with assms show ?thesis by (auto simp: els_diffRow_def)
  next
    case (Some k)
    show ?thesis
    proof (cases "forms held k = Some (wire row)")
      case True
      with Some assms show ?thesis by (auto simp: els_diffRow_def forms_def)
    next
      case False
      with Some assms have c: "c = [row]" "held' = map_set k (row, wire row) held"
        by (auto simp: els_diffRow_def forms_def split: if_splits)
      from False assms(2) have "map_option snd (map_of sub k) \<noteq> Some (wire row)"
        by (metis forms_def)
      with Some assms(3) c have "els_merge kind wire c sub = (c, map_set k (row, wire row) sub)" by simp
      with c assms(2,4) Some show ?thesis by (simp add: forms_set held_ok_set)
    qed
  qed
  then show "\<exists>sub'. els_merge kind wire c sub = (c, sub') \<and> forms sub' = forms held'" "held_ok held'" by blast+
qed

lemma merge_append:
  "els_merge kind wire (xs @ ys) held =
     (let (n, held1) = els_merge kind wire xs held; (m, held2) = els_merge kind wire ys held1 in (n @ m, held2))"
  by (induction xs arbitrary: held) (auto simp: Let_def split: prod.splits)

lemma restate_step:
  "els_restate kind wire rows held = (c, held') \<Longrightarrow> forms sub = forms held \<Longrightarrow>
     \<forall>row \<in> set rows. \<not> el_removed row \<Longrightarrow> held_ok held \<Longrightarrow>
     (\<exists>sub'. els_merge kind wire c sub = (c, sub') \<and> forms sub' = forms held') \<and> held_ok held'"
proof (induction rows arbitrary: held sub c held')
  case Nil
  then show ?case by simp
next
  case (Cons row rows)
  obtain c1 held1 where r1: "els_diffRow kind wire row held = (c1, held1)" by fastforce
  obtain cs held2 where r2: "els_restate kind wire rows held1 = (cs, held2)" by fastforce
  from Cons.prems(1) r1 r2 have c: "c = c1 @ cs" "held' = held2" by simp_all
  from diffRow_step [OF r1 Cons.prems(2) _ Cons.prems(4)] Cons.prems(3)
  obtain sub1 where s1: "els_merge kind wire c1 sub = (c1, sub1)" "forms sub1 = forms held1" "held_ok held1"
    by auto
  from Cons.IH [OF r2 s1(2) _ s1(3)] Cons.prems(3)
  obtain sub2 where "els_merge kind wire cs sub1 = (cs, sub2)" "forms sub2 = forms held2" "held_ok held2"
    by auto
  with s1 c show ?case by (simp add: merge_append)
qed

lemma removals_step:
  assumes "\<forall>(k, row, w) \<in> set gone. key row = Some k \<and> forms sub k \<noteq> None" "map_wf gone" "forms sub = forms held"
  shows "\<exists>sub'. els_merge kind wire (map (\<lambda>e. removal (fst (snd e))) gone) sub
      = (map (\<lambda>e. removal (fst (snd e))) gone, sub')
    \<and> forms sub' = forms (fold (\<lambda>e. map_del (fst e)) gone held)"
  using assms
proof (induction gone arbitrary: sub held)
  case Nil
  then show ?case by simp
next
  case (Cons e gone)
  obtain k row w where e: "e = (k, row, w)" by (cases e)
  from Cons.prems(1) e have k: "key (removal row) = Some k" "map_of sub k \<noteq> None"
    by (auto simp: key_removal forms_None)
  have fs: "forms (map_del k sub) = forms (map_del k held)" using Cons.prems(3) by (simp add: forms_del)
  have "\<forall>(k', row', w') \<in> set gone. key row' = Some k' \<and> forms (map_del k sub) k' \<noteq> None"
    using Cons.prems(1,2) by (force simp: e forms_del)
  from Cons.IH [OF this _ fs] Cons.prems(2) obtain sub' where
    "els_merge kind wire (map (\<lambda>e. removal (fst (snd e))) gone) (map_del k sub) = (map (\<lambda>e. removal (fst (snd e))) gone, sub')"
    "forms sub' = forms (fold (\<lambda>e. map_del (fst e)) gone (map_del k held))" by auto
  with k show ?case by (auto simp: e removal_removed)
qed

lemma fold_del_ok: "held_ok held \<Longrightarrow> held_ok (fold (\<lambda>e. map_del (fst e)) gone held)"
  by (induction gone arbitrary: held) (simp_all add: held_ok_del)

lemma diff_step:
  assumes "els_diff kind wire rows held = (c, held')" "forms sub = forms held"
    "\<forall>row \<in> set rows. \<not> el_removed row" "held_ok held"
  shows "(\<exists>sub'. els_merge kind wire c sub = (c, sub') \<and> forms sub' = forms held') \<and> held_ok held'"
proof -
  obtain c1 h1 where r: "els_restate kind wire rows held = (c1, h1)" by fastforce
  define gone where "gone = filter (\<lambda>e. fst e \<notin> set (List.map_filter key rows)) h1"
  have c: "c = c1 @ map (\<lambda>e. removal (fst (snd e))) gone" "held' = fold (\<lambda>e. map_del (fst e)) gone h1"
    using assms(1) r by (simp_all add: els_diff_def gone_def Let_def)
  from restate_step [OF r assms(2-4)] obtain sub1 where
    s1: "els_merge kind wire c1 sub = (c1, sub1)" "forms sub1 = forms h1" and ok: "held_ok h1" by blast
  have "\<forall>(k, row, w) \<in> set gone. key row = Some k \<and> forms sub1 k \<noteq> None"
    using ok unfolding gone_def s1(2) held_ok_def by (auto simp: forms_def)
  moreover have "map_wf gone" using ok by (simp add: gone_def held_ok_def)
  ultimately obtain sub2 where
    "els_merge kind wire (map (\<lambda>e. removal (fst (snd e))) gone) sub1 = (map (\<lambda>e. removal (fst (snd e))) gone, sub2)"
    "forms sub2 = forms held'"
    using removals_step [OF _ _ s1(2)] c(2) by blast
  with s1 ok show ?thesis by (simp add: c merge_append fold_del_ok)
qed

text \<open>After a whole list is restated, what is held is what an opening frame of that list gives.\<close>

definition tell :: "('b element_row \<Rightarrow> 'w) \<Rightarrow> (string \<rightharpoonup> 'w) \<Rightarrow> 'b element_row \<Rightarrow> (string \<rightharpoonup> 'w)" where
  "tell wire f row = (case key row of None \<Rightarrow> f | Some k \<Rightarrow> f(k \<mapsto> wire row))"

lemma diffRow_tell: "forms (snd (els_diffRow kind wire row held)) = tell wire (forms held) row"
  by (auto simp: els_diffRow_def tell_def forms_def fun_eq_iff split: option.splits)

lemma restate_tell: "forms (snd (els_restate kind wire rows held)) = foldl (tell wire) (forms held) rows"
proof (induction rows arbitrary: held)
  case (Cons row rows)
  obtain c1 h1 where r1: "els_diffRow kind wire row held = (c1, h1)" by fastforce
  obtain cs h2 where r2: "els_restate kind wire rows h1 = (cs, h2)" by fastforce
  have "forms h1 = tell wire (forms held) row" using diffRow_tell [of wire row held] r1 by simp
  moreover have "forms h2 = foldl (tell wire) (forms h1) rows" using Cons [of h1] r2 by simp
  ultimately show ?case using r1 r2 by simp
qed simp

lemma stated_tell: "forms (els_stated kind wire rows) = foldl (tell wire) Map.empty rows"
proof -
  have "forms (fold (\<lambda>row held. case key row of None \<Rightarrow> held | Some k \<Rightarrow> map_set k (row, wire row) held) rows h)
      = foldl (tell wire) (forms h) rows" for h
    by (induction rows arbitrary: h) (simp_all add: tell_def forms_set split: option.splits)
  from this [of "[]"] show ?thesis by (simp add: els_stated_def)
qed

lemma tells_key:
  "foldl (tell wire) f rows k = (if k \<in> set (List.map_filter key rows) then foldl (tell wire) g rows k else f k)"
proof (induction rows arbitrary: f g)
  case (Cons row rows)
  show ?case
  proof (cases "key row")
    case None
    then have "tell wire f' row = f'" for f' by (simp add: tell_def)
    with None Cons [of f g] show ?thesis by (simp add: map_filter_simps)
  next
    case (Some k')
    then have t: "tell wire f' row = f'(k' \<mapsto> wire row)" for f' by (simp add: tell_def)
    show ?thesis
    proof (cases "k \<in> set (List.map_filter key rows)")
      case True
      with Some t Cons [of "f(k' \<mapsto> wire row)" "g(k' \<mapsto> wire row)"] show ?thesis
        by (simp add: map_filter_simps fun_upd_def)
    next
      case False
      have "foldl (tell wire) f' rows k = f' k" for f' using Cons [of f' f'] False by simp
      with Some t False show ?thesis by (cases "k = k'") (simp_all add: map_filter_simps)
    qed
  qed
qed (simp add: map_filter_simps)

lemma fold_del_forms:
  "forms (fold (\<lambda>e. map_del (fst e)) gone held) k = (if k \<in> fst ` set gone then None else forms held k)"
  by (induction gone arbitrary: held) (auto simp: forms_del)

lemma diff_states_the_list:
  assumes "held_ok held"
  shows "forms (snd (els_diff kind wire rows held)) = forms (els_stated kind wire rows)"
proof
  fix k
  obtain c h1 where r: "els_restate kind wire rows held = (c, h1)" by fastforce
  let ?present = "set (List.map_filter key rows)"
  have h1: "forms h1 = foldl (tell wire) (forms held) rows" using restate_tell [of wire rows held] r by simp
  have "forms (snd (els_diff kind wire rows held)) k =
      (if k \<in> fst ` set (filter (\<lambda>e. fst e \<notin> ?present) h1) then None else forms h1 k)"
    by (simp add: els_diff_def r Let_def fold_del_forms)
  also have "\<dots> = (if k \<in> ?present then forms h1 k else None)"
    using map_of_None_keys [of h1 k] by (auto simp: forms_def map_of_eq_None_iff)
  also have "\<dots> = foldl (tell wire) Map.empty rows k"
    using tells_key [of wire "forms held" rows k Map.empty] tells_key [of wire Map.empty rows k Map.empty]
    by (auto simp: h1 split: if_splits)
  finally show "forms (snd (els_diff kind wire rows held)) k = forms (els_stated kind wire rows) k"
    by (simp add: stated_tell)
qed

lemma stated_ok: "held_ok (els_stated kind wire rows)"
proof -
  have "held_ok h \<Longrightarrow>
      held_ok (fold (\<lambda>row held. case key row of None \<Rightarrow> held | Some k \<Rightarrow> map_set k (row, wire row) held) rows h)" for h
    by (induction rows arbitrary: h) (auto simp: held_ok_set split: option.splits)
  moreover have "held_ok []" by (simp add: held_ok_def)
  ultimately show ?thesis by (simp add: els_stated_def)
qed

end

interpretation peers: element_kind "fst PEER_ROWS" "snd PEER_ROWS"
  by unfold_locales (simp_all add: PEER_ROWS_def departure_def)

interpretation agents: element_kind "fst AGENT_ROWS" "snd AGENT_ROWS"
  by unfold_locales (simp_all add: AGENT_ROWS_def departure_def)

interpretation terminals: element_kind "fst TERMINAL_ROWS" "snd TERMINAL_ROWS"
  by unfold_locales (simp_all add: TERMINAL_ROWS_def departure_def)

section \<open>A producer and a subscriber\<close>

text \<open>What a producer states: an opening frame, the whole list as it now is, or one row. The
  subscriber starts from the opening frame and folds in what each later frame carries; the flag
  remembers that no frame carried an element that told it nothing.\<close>

datatype 'b statement = Opening "'b element_row list" | Whole "'b element_row list" | One "'b element_row"

fun stated_rows :: "'b statement \<Rightarrow> 'b element_row list" where
  "stated_rows (Opening rows) = rows"
| "stated_rows (Whole rows) = rows"
| "stated_rows (One row) = [row]"

record ('b, 'w) two_sides =
  producer :: "('b, 'w) elements"
  subscriber :: "('b, 'w) elements"
  all_news :: bool

definition carry :: "'b element_kind \<Rightarrow> ('b element_row \<Rightarrow> 'w) \<Rightarrow> 'b element_row list \<times> ('b, 'w) elements \<Rightarrow>
    ('b, 'w) two_sides \<Rightarrow> ('b, 'w) two_sides" where
  "carry kind wire frame t =
     (let (news, sub) = els_merge kind wire (fst frame) (subscriber t)
      in \<lparr>producer = snd frame, subscriber = sub, all_news = (all_news t \<and> news = fst frame)\<rparr>)"

fun state_step :: "'b element_kind \<Rightarrow> ('b element_row \<Rightarrow> 'w) \<Rightarrow> ('b, 'w) two_sides \<Rightarrow> 'b statement \<Rightarrow> ('b, 'w) two_sides" where
  "state_step kind wire t (Opening rows) =
     t\<lparr>producer := els_stated kind wire rows, subscriber := els_stated kind wire rows\<rparr>"
| "state_step kind wire t (Whole rows) = carry kind wire (els_diff kind wire rows (producer t)) t"
| "state_step kind wire t (One row) = carry kind wire (els_diffRow kind wire row (producer t)) t"

definition state_run :: "'b element_kind \<Rightarrow> ('b element_row \<Rightarrow> 'w) \<Rightarrow> 'b statement list \<Rightarrow> ('b, 'w) two_sides" where
  "state_run kind wire = foldl (state_step kind wire) \<lparr>producer = [], subscriber = [], all_news = True\<rparr>"

context element_kind
begin

lemma state_run_in_step:
  assumes "\<forall>st \<in> set sts. \<forall>row \<in> set (stated_rows st). \<not> el_removed row"
  shows "let t = state_run kind wire sts in
    forms (subscriber t) = forms (producer t) \<and> all_news t \<and> held_ok (producer t)"
  using assms
proof (induction sts rule: rev_induct)
  case Nil
  then show ?case by (simp add: state_run_def held_ok_def)
next
  case (snoc st sts)
  define t where "t = state_run kind wire sts"
  have ih: "forms (subscriber t) = forms (producer t)" "all_news t" "held_ok (producer t)"
    using snoc by (auto simp: t_def Let_def)
  have run: "state_run kind wire (sts @ [st]) = state_step kind wire t st" by (simp add: state_run_def t_def)
  have unremoved: "\<forall>row \<in> set (stated_rows st). \<not> el_removed row" using snoc.prems by simp
  show ?case
  proof (cases st)
    case (Opening rows)
    show ?thesis unfolding run using ih by (simp add: Opening Let_def stated_ok)
  next
    case (Whole rows)
    obtain c h where d: "els_diff kind wire rows (producer t) = (c, h)" by fastforce
    from diff_step [OF d ih(1) _ ih(3)] unremoved Whole
    obtain sub where "els_merge kind wire c (subscriber t) = (c, sub)" "forms sub = forms h" "held_ok h" by auto
    then show ?thesis unfolding run using ih d by (simp add: Whole carry_def Let_def)
  next
    case (One row)
    obtain c h where d: "els_diffRow kind wire row (producer t) = (c, h)" by fastforce
    from diffRow_step [OF d ih(1) _ ih(3)] unremoved One
    obtain sub where "els_merge kind wire c (subscriber t) = (c, sub)" "forms sub = forms h" "held_ok h" by auto
    then show ?thesis unfolding run using ih d by (simp add: One carry_def Let_def)
  qed
qed

lemma whole_list_arrives:
  assumes "\<forall>st \<in> set (sts @ [Whole rows]). \<forall>row \<in> set (stated_rows st). \<not> el_removed row"
  shows "forms (subscriber (state_run kind wire (sts @ [Whole rows]))) = forms (els_stated kind wire rows)"
proof -
  let ?t = "state_run kind wire sts"
  have ok: "held_ok (producer ?t)" using state_run_in_step [of sts wire] assms by (simp add: Let_def)
  have "forms (subscriber (state_run kind wire (sts @ [Whole rows]))) = forms (producer (state_run kind wire (sts @ [Whole rows])))"
    using state_run_in_step [OF assms, of wire] by (simp only: Let_def)
  also have "producer (state_run kind wire (sts @ [Whole rows])) = snd (els_diff kind wire rows (producer ?t))"
    by (simp add: state_run_def carry_def Let_def split: prod.splits)
  finally show ?thesis using diff_states_the_list [OF ok] by simp
qed

end

text \<open>
  C14: a subscriber that is only ever told what changed holds what the producer holds. For each of
  the three row topics and any sequence of opening frames, whole lists and single rows (none
  marked as departed by its producer), folding the frames in gives the subscriber exactly the
  producer's rows, in the form they were sent; and no frame ever carries an element that told
  the subscriber nothing.
\<close>

theorem element_subscribers_keep_step:
  assumes "kind = PEER_ROWS \<or> kind = AGENT_ROWS \<or> kind = TERMINAL_ROWS"
    and "\<forall>st \<in> set sts. \<forall>row \<in> set (stated_rows st). \<not> el_removed row"
  shows "let t = state_run kind wire sts in forms (subscriber t) = forms (producer t) \<and> all_news t"
  using assms(1) peers.state_run_in_step [OF assms(2), of wire] agents.state_run_in_step [OF assms(2), of wire]
    terminals.state_run_in_step [OF assms(2), of wire]
  by (auto simp: Let_def)

text \<open>
  A removal is never missed. After a whole list is restated the subscriber holds precisely the
  rows of that list (the last one stated under each key), whatever it held before: rows that
  are gone were withdrawn, rows that only ever travelled in an opening frame included.
\<close>

theorem element_whole_list_arrives:
  assumes "kind = PEER_ROWS \<or> kind = AGENT_ROWS \<or> kind = TERMINAL_ROWS"
    and "\<forall>st \<in> set (sts @ [Whole rows]). \<forall>row \<in> set (stated_rows st). \<not> el_removed row"
  shows "forms (subscriber (state_run kind wire (sts @ [Whole rows]))) = forms (els_stated kind wire rows)"
  using assms(1) peers.whole_list_arrives [OF assms(2), of wire] agents.whole_list_arrives [OF assms(2), of wire]
    terminals.whole_list_arrives [OF assms(2), of wire]
  by auto

definition example_row :: "string \<Rightarrow> nat element_row" where
  "example_row s = \<lparr>el_sid = Some s, el_pid = None, el_id = None, el_instance = ''i'', el_removed = False, el_rest = None\<rparr>"

theorem element_subscribers_keep_step_witness:
  "all_news (state_run PEER_ROWS el_sid [Opening [example_row ''a''], Whole [example_row ''b'']])"
  using element_subscribers_keep_step [of PEER_ROWS "[Opening [example_row ''a''], Whole [example_row ''b'']]" el_sid]
  by (simp add: example_row_def Let_def)

theorem element_whole_list_arrives_witness:
  "forms (subscriber (state_run PEER_ROWS el_sid [Opening [example_row ''a''], Whole [example_row ''b'']])) ''i a'' = None"
proof -
  have "forms (els_stated PEER_ROWS el_sid [example_row ''b'']) ''i a'' = None"
    by (simp add: els_stated_def PEER_ROWS_def example_row_def forms_def)
  then show ?thesis
    using element_whole_list_arrives [of PEER_ROWS "[Opening [example_row ''a'']]" "[example_row ''b'']" el_sid]
    by (simp add: example_row_def)
qed

end
