(* ===== verification/Relay.thy ===== *)
theory Relay
  imports Elements
begin

text \<open>
  \<open>src/mesh/relay.ts\<close>: what the peers said, held here so that losing one does not empty the view
  of the mesh; \<open>src/mesh/instances.ts\<close>: the topic that states that view; and the frames of the
  mesh link that are no ops (\<open>src/mesh/wire.ts\<close>).

  What a peer states on a topic is rows, where the frame carries them under the topic's name,
  or some other value. The clock is an argument of every operation that reads it. Frames handed to the
  instance's own subscribers are recorded in \<open>rl_published\<close>. The topic table is the contract's:
  \<open>per_instance_whole\<close> are the plain topics it gives that granularity.
\<close>

section \<open>State\<close>

datatype ('b, 'd) stated_data = RowsData "'b element_row list" | OtherData 'd

datatype ('b, 'w, 'd) relay_value = HeldRows "('b, 'w) elements" | HeldValue "('b, 'd) stated_data"

record ('b, 'w, 'd) relay =
  rl_held :: "(instance_id, (topic_name, ('b, 'w, 'd) relay_value) js_map) js_map"
  rl_lostAt :: "(instance_id, timestamp) js_map"
  rl_published :: "(topic_name \<times> ('b, 'd) stated_data \<times> instance_id) list"

definition Relay :: "('b, 'w, 'd) relay" where
  "Relay = \<lparr>rl_held = [], rl_lostAt = [], rl_published = []\<rparr>"

definition ROW_TOPICS :: "topic_name list" where
  "ROW_TOPICS = [''peers'', ''agents'', ''terminals'']"

definition ROW_KINDS :: "topic_name \<Rightarrow> 'b element_kind" where
  "ROW_KINDS topic = (if topic = ''agents'' then AGENT_ROWS else if topic = ''terminals'' then TERMINAL_ROWS else PEER_ROWS)"

definition SID_TOPICS :: "topic_name list" where
  "SID_TOPICS = [''peers'', ''agents'']"

definition MESH_TOPICS :: "topic_name list \<Rightarrow> topic_name list" where
  "MESH_TOPICS per_instance_whole = per_instance_whole @ ROW_TOPICS"

definition isMeshTopic :: "topic_name list \<Rightarrow> topic_name \<Rightarrow> bool" where
  "isMeshTopic per_instance_whole topic \<longleftrightarrow> topic \<in> set (MESH_TOPICS per_instance_whole)"

definition carriesRows :: "topic_name \<Rightarrow> bool" where
  "carriesRows topic \<longleftrightarrow> topic \<in> set ROW_TOPICS"

fun rowsOf :: "('b, 'd) stated_data \<Rightarrow> 'b element_row list" where
  "rowsOf (RowsData rows) = rows"
| "rowsOf (OtherData d) = []"

section \<open>Operations\<close>

definition rl_sweep :: "contract \<Rightarrow> timestamp \<Rightarrow> ('b, 'w, 'd) relay \<Rightarrow> ('b, 'w, 'd) relay" where
  "rl_sweep ct now r =
     fold (\<lambda>(instance, since) r.
         if now - since \<le> LAST_LIVE_RETENTION_MS ct then r
         else r\<lparr>rl_lostAt := map_del instance (rl_lostAt r), rl_held := map_del instance (rl_held r)\<rparr>)
       (rl_lostAt r) r"

definition held_by :: "('b, 'w, 'd) relay \<Rightarrow> instance_id \<Rightarrow> (topic_name, ('b, 'w, 'd) relay_value) js_map" where
  "held_by r instance = map_get_or [] (rl_held r) instance"

fun value_rows :: "('b, 'w, 'd) relay_value option \<Rightarrow> ('b, 'w) elements" where
  "value_rows (Some (HeldRows els)) = els"
| "value_rows _ = []"

definition rl_accept :: "contract \<Rightarrow> topic_name list \<Rightarrow> ('b element_row \<Rightarrow> 'w) \<Rightarrow> timestamp \<Rightarrow> instance_id \<Rightarrow> topic_name \<Rightarrow>
    ('b, 'd) stated_data \<Rightarrow> bool \<Rightarrow> ('b, 'w, 'd) relay \<Rightarrow> ('b, 'w, 'd) relay" where
  "rl_accept ct whole wire now instance topic data snapshot r =
     (if \<not> isMeshTopic whole topic then r
      else
        let r1 = rl_sweep ct now r;
            held = held_by r1 instance
        in if \<not> carriesRows topic then
             r1\<lparr>rl_held := map_set instance (map_set topic (HeldValue data) held) (rl_held r1),
                rl_published := rl_published r1 @ [(topic, data, instance)]\<rparr>
           else
             let rows = value_rows (map_of held topic);
                 (news, rows') = (if snapshot then els_diff (ROW_KINDS topic) wire (rowsOf data) rows
                                  else els_merge (ROW_KINDS topic) wire (rowsOf data) rows)
             in r1\<lparr>rl_held := map_set instance (map_set topic (HeldRows rows') held) (rl_held r1),
                   rl_published := rl_published r1 @ (if news = [] then [] else [(topic, RowsData news, instance)])\<rparr>)"

definition rl_lost :: "contract \<Rightarrow> timestamp \<Rightarrow> instance_id \<Rightarrow> ('b, 'w, 'd) relay \<Rightarrow> ('b, 'w, 'd) relay" where
  "rl_lost ct now instance r =
     rl_sweep ct now (if map_of (rl_lostAt r) instance \<noteq> None then r
                      else r\<lparr>rl_lostAt := map_set instance now (rl_lostAt r)\<rparr>)"

definition rl_restored :: "instance_id \<Rightarrow> ('b, 'w, 'd) relay \<Rightarrow> ('b, 'w, 'd) relay" where
  "rl_restored instance r = r\<lparr>rl_lostAt := map_del instance (rl_lostAt r)\<rparr>"

definition rl_unreachable :: "contract \<Rightarrow> timestamp \<Rightarrow> instance_id \<Rightarrow> ('b, 'w, 'd) relay \<Rightarrow> bool \<times> ('b, 'w, 'd) relay" where
  "rl_unreachable ct now instance r =
     (let r1 = rl_sweep ct now r in (map_of (rl_lostAt r1) instance \<noteq> None, r1))"

fun snapshot_data :: "('b, 'w, 'd) relay_value \<Rightarrow> ('b, 'd) stated_data" where
  "snapshot_data (HeldRows els) = RowsData (els_rows els)"
| "snapshot_data (HeldValue d) = d"

definition rl_snapshot :: "contract \<Rightarrow> timestamp \<Rightarrow> topic_name \<Rightarrow> ('b, 'w, 'd) relay \<Rightarrow>
    (instance_id \<times> ('b, 'd) stated_data) list \<times> ('b, 'w, 'd) relay" where
  "rl_snapshot ct now topic r =
     (let r1 = rl_sweep ct now r
      in (concat (map (\<lambda>(instance, held). case map_of held topic of None \<Rightarrow> [] | Some v \<Rightarrow> [(instance, snapshot_data v)])
            (rl_held r1)), r1))"

definition find_owner :: "sid \<Rightarrow> topic_name \<Rightarrow> (instance_id, (topic_name, ('b, 'w, 'd) relay_value) js_map) js_map \<Rightarrow>
    'b element_row option" where
  "find_owner sid topic held =
     find (\<lambda>row. el_sid row = Some sid) (concat (map (\<lambda>(i, h). els_rows (value_rows (map_of h topic))) held))"

definition rl_owner :: "contract \<Rightarrow> timestamp \<Rightarrow> sid \<Rightarrow> ('b, 'w, 'd) relay \<Rightarrow> instance_id option \<times> ('b, 'w, 'd) relay" where
  "rl_owner ct now sid r =
     (let r1 = rl_sweep ct now r
      in (map_option el_instance
            (case find_owner sid ''peers'' (rl_held r1) of
               Some row \<Rightarrow> Some row
             | None \<Rightarrow> find_owner sid ''agents'' (rl_held r1)), r1))"

definition rl_retained :: "contract \<Rightarrow> timestamp \<Rightarrow> ('b, 'w, 'd) relay \<Rightarrow> (nat \<times> nat) \<times> ('b, 'w, 'd) relay" where
  "rl_retained ct now r =
     (let r1 = rl_sweep ct now r in ((length (rl_held r1), length (rl_lostAt r1)), r1))"

section \<open>wire.ts and instances.ts\<close>

datatype mesh_frame = MeshProof string | MeshPing | MeshPong

definition meshFrameOf :: "json \<Rightarrow> mesh_frame option" where
  "meshFrameOf frame =
     (case jfield frame ''mesh'' of
        Some (JStr kind) \<Rightarrow>
          if kind = ''ping'' then Some MeshPing else if kind = ''pong'' then Some MeshPong
          else if kind = ''proof'' then
            (case jfield frame ''jws'' of Some (JStr jws) \<Rightarrow> Some (MeshProof jws) | _ \<Rightarrow> None)
          else None
      | _ \<Rightarrow> None)"

definition wsEndpoint :: "string \<Rightarrow> string" where
  "wsEndpoint endpoint = endpoint @ ''ws''"

definition jwkEndpoint :: "(string \<Rightarrow> string) \<Rightarrow> string \<Rightarrow> string \<Rightarrow> string" where
  "jwkEndpoint encodeURIComponent endpoint kid = endpoint @ ''mesh/jwk/'' @ encodeURIComponent kid"

datatype 'a uri_result = URIError | Decoded 'a

definition kidOfPath :: "(string \<Rightarrow> string) \<Rightarrow> (string \<Rightarrow> string uri_result) \<Rightarrow> string \<Rightarrow> string \<Rightarrow> string option uri_result" where
  "kidOfPath pathnameOf decodeURIComponent pathname self =
     (let prefix = pathnameOf self @ ''mesh/jwk/'' in
      if take (length prefix) pathname \<noteq> prefix then Decoded None
      else case decodeURIComponent (drop (length prefix) pathname) of
             URIError \<Rightarrow> URIError
           | Decoded kid \<Rightarrow> Decoded (if kid = [] then None else Some kid))"

record instance_info =
  ii_id :: "instance_id option"
  ii_endpoint :: "string option"
  ii_host :: string
  ii_reachable :: bool

definition meshView :: "string \<Rightarrow> instance_id \<Rightarrow> string option \<Rightarrow> instance_info list option \<Rightarrow> instance_info list" where
  "meshView hostname self endpoint mesh =
     (case mesh of
        Some rows \<Rightarrow> rows
      | None \<Rightarrow> [\<lparr>ii_id = Some self, ii_endpoint = endpoint, ii_host = hostname, ii_reachable = True\<rparr>])"

definition instances_snapshot :: "string \<Rightarrow> instance_id \<Rightarrow> string option \<Rightarrow> instance_info list option \<Rightarrow>
    (instance_id \<times> instance_info list) list" where
  "instances_snapshot hostname self endpoint mesh = [(self, meshView hostname self endpoint mesh)]"

text \<open>The key of one endpoint is only ever fetched from below it: a path that names a key of an
  instance names it under that instance's own path, and reading it back gives the key asked for.\<close>

lemma kidOfPath_jwkEndpoint:
  assumes "\<And>k. decode (encode k) = Decoded k" and "kid \<noteq> []"
  shows "kidOfPath pathnameOf decode (pathnameOf self @ ''mesh/jwk/'' @ encode kid) self = Decoded (Some kid)"
  using assms by (simp add: kidOfPath_def Let_def)

section \<open>The sweep\<close>

definition outlived :: "contract \<Rightarrow> timestamp \<Rightarrow> ('b, 'w, 'd) relay \<Rightarrow> instance_id \<Rightarrow> bool" where
  "outlived ct now r i \<longleftrightarrow> (\<exists>since. map_of (rl_lostAt r) i = Some since \<and> LAST_LIVE_RETENTION_MS ct < now - since)"

lemma sweep_lookup:
  assumes "map_wf (rl_lostAt r)"
  shows "map_of (rl_held (rl_sweep ct now r)) i = (if outlived ct now r i then None else map_of (rl_held r) i)"
    and "map_of (rl_lostAt (rl_sweep ct now r)) i = (if outlived ct now r i then None else map_of (rl_lostAt r) i)"
    and "map_wf (rl_lostAt (rl_sweep ct now r))"
    and "rl_published (rl_sweep ct now r) = rl_published r"
proof -
  let ?step = "\<lambda>(instance, since) r.
         if now - since \<le> LAST_LIVE_RETENTION_MS ct then r
         else r\<lparr>rl_lostAt := map_del instance (rl_lostAt r), rl_held := map_del instance (rl_held r)\<rparr>"
  have gen: "let s = fold ?step es r in
      map_of (rl_held s) i = (if \<exists>since. (i, since) \<in> set es \<and> LAST_LIVE_RETENTION_MS ct < now - since then None else map_of (rl_held r) i)
      \<and> map_of (rl_lostAt s) i = (if \<exists>since. (i, since) \<in> set es \<and> LAST_LIVE_RETENTION_MS ct < now - since then None else map_of (rl_lostAt r) i)
      \<and> (map_wf (rl_lostAt r) \<longrightarrow> map_wf (rl_lostAt s)) \<and> rl_published s = rl_published r" for es and r :: "('a, 'b, 'c) relay"
  proof (induction es arbitrary: r)
    case (Cons e es)
    obtain j since where e: "e = (j, since)" by (cases e)
    show ?case
    proof (cases "now - since \<le> LAST_LIVE_RETENTION_MS ct")
      case True
      with Cons [of r] show ?thesis by (auto simp: e Let_def)
    next
      case False
      with Cons [of "r\<lparr>rl_lostAt := map_del j (rl_lostAt r), rl_held := map_del j (rl_held r)\<rparr>"] show ?thesis
        by (auto simp: e Let_def)
    qed
  qed simp
  have mem: "(i, since) \<in> set (rl_lostAt r) \<longleftrightarrow> map_of (rl_lostAt r) i = Some since" for since
    using assms by (rule map_wf_mem)
  show "map_of (rl_held (rl_sweep ct now r)) i = (if outlived ct now r i then None else map_of (rl_held r) i)"
    "map_of (rl_lostAt (rl_sweep ct now r)) i = (if outlived ct now r i then None else map_of (rl_lostAt r) i)"
    "map_wf (rl_lostAt (rl_sweep ct now r))" "rl_published (rl_sweep ct now r) = rl_published r"
    using gen [of "rl_lostAt r" r] assms unfolding rl_sweep_def outlived_def mem by (simp_all add: Let_def)
qed

section \<open>A relayed topic of rows is transparent\<close>

context element_kind
begin

lemma merge_ok:
  "held_ok held \<Longrightarrow> held_ok (snd (els_merge kind wire els held))"
proof (induction els arbitrary: held)
  case Nil
  then show ?case by simp
next
  case (Cons el els)
  define step where "step = (case key el of
           None \<Rightarrow> ([], held)
         | Some k \<Rightarrow>
             if el_removed el then
               (if map_of held k = None then ([], held) else ([el], map_del k held))
             else if map_option snd (map_of held k) = Some (wire el) then ([], held)
             else ([el], map_set k (el, wire el) held))"
  have m: "els_merge kind wire (el # els) held =
      (let (n, held1) = step; (ns, held2) = els_merge kind wire els held1 in (n @ ns, held2))"
    by (simp add: step_def)
  have "held_ok (snd step)"
    using Cons.prems by (auto simp: step_def held_ok_set held_ok_del split: option.splits)
  then have "held_ok (snd (els_merge kind wire els (snd step)))" by (rule Cons.IH)
  then show ?case unfolding m by (cases step) (auto simp: Let_def split: prod.splits)
qed

text \<open>Three who keep step: the instance that states rows, the relay that holds them, and a
  subscriber of the relay.\<close>

definition in_step :: "('b, 'w) elements \<Rightarrow> ('b, 'w) elements \<Rightarrow> ('b, 'w) elements \<Rightarrow> bool" where
  "in_step p h s \<longleftrightarrow> forms p = forms h \<and> forms s = forms h \<and> held_ok p \<and> held_ok h"

lemma in_step_opening:
  assumes i: "in_step p h s" and rows: "\<forall>row \<in> set rows. \<not> el_removed row"
    and d: "els_diff kind wire rows h = (news, h')"
  shows "in_step (els_stated kind wire rows) h' (snd (els_merge kind wire news s))"
proof -
  have h: "held_ok h" "forms s = forms h" using i by (auto simp: in_step_def)
  from diff_step [OF d h(2) rows h(1)] obtain s' where "els_merge kind wire news s = (news, s')" "forms s' = forms h'" "held_ok h'"
    by blast
  moreover have "forms h' = forms (els_stated kind wire rows)" using diff_states_the_list [OF h(1), of wire rows] d by simp
  ultimately show ?thesis by (simp add: in_step_def stated_ok)
qed

lemma in_step_change:
  assumes i: "in_step p h s"
    and c: "\<And>sub. forms sub = forms p \<Longrightarrow> (\<exists>sub'. els_merge kind wire c sub = (c, sub') \<and> forms sub' = forms p')"
    and p': "held_ok p'" and m: "els_merge kind wire c h = (news, h')"
  shows "in_step p' h' (snd (els_merge kind wire news s))"
proof -
  have f: "forms h = forms p" "forms s = forms p" and ok: "held_ok h" using i by (auto simp: in_step_def)
  from c [OF f(1)] m have n: "news = c" "forms h' = forms p'" by auto
  from c [OF f(2)] n(1) obtain s' where "els_merge kind wire news s = (news, s')" "forms s' = forms p'" by auto
  moreover have "held_ok h'" using merge_ok [OF ok, of wire c] m by simp
  ultimately show ?thesis using p' n(2) by (simp add: in_step_def)
qed

end

text \<open>What the instance states, as the frame its subscription carries.\<close>

fun state_frame :: "'b element_kind \<Rightarrow> ('b element_row \<Rightarrow> 'w) \<Rightarrow> 'b statement \<Rightarrow> ('b, 'w) elements \<Rightarrow>
    bool \<times> 'b element_row list \<times> ('b, 'w) elements" where
  "state_frame kind wire (Opening rows) p = (True, rows, els_stated kind wire rows)"
| "state_frame kind wire (Whole rows) p = (False, els_diff kind wire rows p)"
| "state_frame kind wire (One row) p = (False, els_diffRow kind wire row p)"

record ('b, 'w, 'd) relayed =
  rd_producer :: "('b, 'w) elements"
  rd_relay :: "('b, 'w, 'd) relay"
  rd_subscriber :: "('b, 'w) elements"

definition relay_step :: "contract \<Rightarrow> topic_name list \<Rightarrow> ('b element_row \<Rightarrow> 'w) \<Rightarrow> instance_id \<Rightarrow> topic_name \<Rightarrow>
    ('b, 'w, 'd) relayed \<Rightarrow> timestamp \<times> 'b statement \<Rightarrow> ('b, 'w, 'd) relayed" where
  "relay_step ct whole wire i topic x e =
     (let (snap, els, p) = state_frame (ROW_KINDS topic) wire (snd e) (rd_producer x);
          r = rl_accept ct whole wire (fst e) i topic (RowsData els) snap (rd_relay x);
          new = drop (length (rl_published (rd_relay x))) (rl_published r)
      in \<lparr>rd_producer = p, rd_relay = r,
          rd_subscriber = fold (\<lambda>(t, d, j) s. snd (els_merge (ROW_KINDS topic) wire (rowsOf d) s)) new (rd_subscriber x)\<rparr>)"

abbreviation relay_rows :: "('b, 'w, 'd) relay \<Rightarrow> instance_id \<Rightarrow> topic_name \<Rightarrow> ('b, 'w) elements" where
  "relay_rows r i topic \<equiv> value_rows (map_of (held_by r i) topic)"

lemma accept_rows:
  assumes topic: "carriesRows topic" and wf: "map_wf (rl_lostAt r)" and here: "map_of (rl_lostAt r) i = None"
    and r': "r' = rl_accept ct whole wire now i topic (RowsData els) snap r"
    and upd: "(if snap then els_diff (ROW_KINDS topic) wire els (relay_rows r i topic)
               else els_merge (ROW_KINDS topic) wire els (relay_rows r i topic)) = (news, rows')"
  shows "relay_rows r' i topic = rows'" "map_wf (rl_lostAt r')" "map_of (rl_lostAt r') i = None"
    "drop (length (rl_published r)) (rl_published r') = (if news = [] then [] else [(topic, RowsData news, i)])"
proof -
  have mesh: "isMeshTopic whole topic" using topic by (simp add: carriesRows_def isMeshTopic_def MESH_TOPICS_def)
  note sw = sweep_lookup [OF wf, of ct now]
  have out: "\<not> outlived ct now r i" using here by (simp add: outlived_def)
  then have h: "held_by (rl_sweep ct now r) i = held_by r i" using sw(1) [of i] by (simp add: held_by_def map_get_or_def)
  have eq: "r' = (rl_sweep ct now r)\<lparr>
      rl_held := map_set i (map_set topic (HeldRows rows') (held_by r i)) (rl_held (rl_sweep ct now r)),
      rl_published := rl_published r @ (if news = [] then [] else [(topic, RowsData news, i)])\<rparr>"
    using topic mesh upd unfolding r' rl_accept_def by (cases snap) (simp_all add: Let_def h sw(4))
  show "relay_rows r' i topic = rows'" by (simp add: eq held_by_def)
  show "map_wf (rl_lostAt r')" using sw(3) by (simp add: eq)
  show "map_of (rl_lostAt r') i = None" using sw(2) [of i] here by (simp add: eq)
  show "drop (length (rl_published r)) (rl_published r') = (if news = [] then [] else [(topic, RowsData news, i)])"
    by (simp add: eq)
qed

context element_kind
begin

lemma relay_step_in_step:
  assumes kind: "ROW_KINDS topic = kind" and topic: "carriesRows topic"
    and wf: "map_wf (rl_lostAt (rd_relay x))" and here: "map_of (rl_lostAt (rd_relay x)) i = None"
    and rows: "\<forall>row \<in> set (stated_rows (snd e)). \<not> el_removed row"
    and i: "in_step (rd_producer x) (relay_rows (rd_relay x) i topic) (rd_subscriber x)"
    and x': "x' = relay_step ct whole wire i topic x e"
  shows "in_step (rd_producer x') (relay_rows (rd_relay x') i topic) (rd_subscriber x')"
    "map_wf (rl_lostAt (rd_relay x'))" "map_of (rl_lostAt (rd_relay x')) i = None"
proof -
  let ?p = "rd_producer x" and ?h = "relay_rows (rd_relay x) i topic" and ?s = "rd_subscriber x"
  obtain snap els p where f: "state_frame kind wire (snd e) ?p = (snap, els, p)" by (metis prod_cases3)
  let ?r = "rl_accept ct whole wire (fst e) i topic (RowsData els) snap (rd_relay x)"
  obtain news rows' where u: "(if snap then els_diff kind wire els ?h else els_merge kind wire els ?h) = (news, rows')"
    by fastforce
  note a = accept_rows [OF topic wf here refl u [folded kind], of ct whole "fst e"]
  have x: "rd_producer x' = p" "rd_relay x' = ?r" "rd_subscriber x' = snd (els_merge kind wire news ?s)"
    unfolding x' relay_step_def kind f Let_def by (simp_all add: a(4) [folded kind, unfolded kind])
  have ok: "held_ok ?p" using i by (simp add: in_step_def)
  have "in_step p rows' (snd (els_merge kind wire news ?s))"
  proof (cases "snd e")
    case (Opening rs)
    then show ?thesis using f u rows by (auto intro: in_step_opening [OF i])
  next
    case (Whole rs)
    then have d: "els_diff kind wire rs ?p = (els, p)" "\<not> snap" using f by simp_all
    show ?thesis
      using diff_step [OF d(1) _ _ ok] rows Whole u d(2)
      by (intro in_step_change [OF i]) auto
  next
    case (One row)
    then have d: "els_diffRow kind wire row ?p = (els, p)" "\<not> snap" using f by simp_all
    show ?thesis
      using diffRow_step [OF d(1) _ _ ok] rows One u d(2)
      by (intro in_step_change [OF i]) auto
  qed
  then show "in_step (rd_producer x') (relay_rows (rd_relay x') i topic) (rd_subscriber x')"
    "map_wf (rl_lostAt (rd_relay x'))" "map_of (rl_lostAt (rd_relay x')) i = None"
    using a by (simp_all add: x kind)
qed

lemma relay_run_in_step:
  assumes kind: "ROW_KINDS topic = kind" and topic: "carriesRows topic"
    and "map_wf (rl_lostAt (rd_relay x))" "map_of (rl_lostAt (rd_relay x)) i = None"
    and "\<forall>e \<in> set es. \<forall>row \<in> set (stated_rows (snd e)). \<not> el_removed row"
    and "in_step (rd_producer x) (relay_rows (rd_relay x) i topic) (rd_subscriber x)"
  shows "let y = foldl (relay_step ct whole wire i topic) x es
    in in_step (rd_producer y) (relay_rows (rd_relay y) i topic) (rd_subscriber y)"
  using assms(3-6)
proof (induction es arbitrary: x)
  case (Cons e es)
  note st = relay_step_in_step [OF kind topic Cons.prems(1,2) _ Cons.prems(4) refl, of e ct whole wire]
  from Cons.prems(3) have e: "\<forall>row \<in> set (stated_rows (snd e)). \<not> el_removed row" by simp
  from Cons.IH [OF st(2) [OF e] st(3) [OF e] _ st(1) [OF e]] Cons.prems(3) show ?case by simp
qed simp

end

lemma ROW_KINDS_cases:
  assumes "carriesRows topic"
  shows "ROW_KINDS topic = PEER_ROWS \<or> ROW_KINDS topic = AGENT_ROWS \<or> ROW_KINDS topic = TERMINAL_ROWS"
  by (simp add: ROW_KINDS_def)

text \<open>
  C28: rows relayed through an instance arrive as they were stated. Starting from nothing held for
  an instance that is reachable, whatever that instance states on a topic of rows (opening
  frames, whole lists, single rows, none marked as departed by itself), the relay holds exactly
  the instance's rows, and a subscriber that folds in only the frames the relay passes on holds
  them too.
\<close>

theorem relay_is_transparent:
  assumes "carriesRows topic" and "map_wf (rl_lostAt r)" and "map_of (rl_lostAt r) i = None"
    and "map_of (held_by r i) topic = None"
    and "\<forall>e \<in> set es. \<forall>row \<in> set (stated_rows (snd e)). \<not> el_removed row"
  shows "let y = foldl (relay_step ct whole wire i topic) \<lparr>rd_producer = [], rd_relay = r, rd_subscriber = []\<rparr> es
    in forms (relay_rows (rd_relay y) i topic) = forms (rd_producer y)
       \<and> forms (rd_subscriber y) = forms (rd_producer y)"
proof -
  let ?x = "\<lparr>rd_producer = [], rd_relay = r, rd_subscriber = []\<rparr>"
  consider "ROW_KINDS topic = (PEER_ROWS :: 'a element_kind)" | "ROW_KINDS topic = (AGENT_ROWS :: 'a element_kind)"
    | "ROW_KINDS topic = (TERMINAL_ROWS :: 'a element_kind)"
    using ROW_KINDS_cases [OF assms(1)] by blast
  then show ?thesis
  proof cases
    case 1
    have "peers.in_step ([] :: ('a, 'b) elements) [] []" by (simp add: peers.in_step_def peers.held_ok_def)
    with peers.relay_run_in_step [of topic ?x i es ct whole wire] 1 assms show ?thesis
      by (simp add: peers.in_step_def Let_def)
  next
    case 2
    have "agents.in_step ([] :: ('a, 'b) elements) [] []" by (simp add: agents.in_step_def agents.held_ok_def)
    with agents.relay_run_in_step [of topic ?x i es ct whole wire] 2 assms show ?thesis
      by (simp add: agents.in_step_def Let_def)
  next
    case 3
    have "terminals.in_step ([] :: ('a, 'b) elements) [] []" by (simp add: terminals.in_step_def terminals.held_ok_def)
    with terminals.relay_run_in_step [of topic ?x i es ct whole wire] 3 assms show ?thesis
      by (simp add: terminals.in_step_def Let_def)
  qed
qed

theorem relay_is_transparent_witness:
  "forms (rd_subscriber (foldl (relay_step example_contract [] el_sid ''j'' ''peers'')
     \<lparr>rd_producer = [], rd_relay = (Relay :: (nat, sid option, unit) relay), rd_subscriber = []\<rparr>
     [(0, Opening [example_row ''a'']), (1, Whole [])])) ''i a'' = None"
proof -
  let ?es = "[(0 :: int, Opening [example_row ''a'']), (1, Whole [])]"
  let ?y = "foldl (relay_step example_contract [] el_sid ''j'' ''peers'')
     \<lparr>rd_producer = [], rd_relay = (Relay :: (nat, sid option, unit) relay), rd_subscriber = []\<rparr> ?es"
  have "forms (rd_subscriber ?y) = forms (rd_producer ?y)"
    using relay_is_transparent [of "''peers''" "Relay :: (nat, sid option, unit) relay" "''j''" ?es example_contract "[]" el_sid]
    by (simp add: carriesRows_def ROW_TOPICS_def Relay_def held_by_def example_row_def Let_def del: foldl_Cons foldl_Nil)
  moreover have "rd_producer ?y = []"
    by (simp add: relay_step_def Let_def ROW_KINDS_def els_diff_def els_stated_def PEER_ROWS_def example_row_def
        map_filter_simps split: prod.splits)
  ultimately show ?thesis by simp
qed

section \<open>What a lost instance said is kept for the window, and no longer\<close>

datatype ('b, 'd) relay_event =
    RlAccept timestamp instance_id topic_name "('b, 'd) stated_data" bool
  | RlLost timestamp instance_id
  | RlRestored instance_id
  | RlRead timestamp

fun rl_step :: "contract \<Rightarrow> topic_name list \<Rightarrow> ('b element_row \<Rightarrow> 'w) \<Rightarrow> ('b, 'w, 'd) relay \<Rightarrow> ('b, 'd) relay_event \<Rightarrow>
    ('b, 'w, 'd) relay" where
  "rl_step ct whole wire r (RlAccept now i topic d snap) = rl_accept ct whole wire now i topic d snap r"
| "rl_step ct whole wire r (RlLost now i) = rl_lost ct now i r"
| "rl_step ct whole wire r (RlRestored i) = rl_restored i r"
| "rl_step ct whole wire r (RlRead now) = rl_sweep ct now r"

text \<open>Events that are not the instance coming back or stating something, by the instant \<open>T\<close>.\<close>

fun away :: "instance_id \<Rightarrow> timestamp \<Rightarrow> ('b, 'd) relay_event \<Rightarrow> bool" where
  "away i T (RlAccept now j topic d snap) = (j \<noteq> i \<and> now \<le> T)"
| "away i T (RlLost now j) = (now \<le> T)"
| "away i T (RlRestored j) = (j \<noteq> i)"
| "away i T (RlRead now) = (now \<le> T)"

text \<open>Kept and marked, or given up.\<close>

definition kept_or_gone :: "contract \<Rightarrow> timestamp \<Rightarrow> timestamp \<Rightarrow> instance_id \<Rightarrow>
    (topic_name, ('b, 'w, 'd) relay_value) js_map option \<Rightarrow> ('b, 'w, 'd) relay \<Rightarrow> bool" where
  "kept_or_gone ct since T i v r \<longleftrightarrow> map_wf (rl_lostAt r) \<and>
     (map_of (rl_lostAt r) i = Some since \<and> map_of (rl_held r) i = v
      \<or> LAST_LIVE_RETENTION_MS ct < T - since \<and> map_of (rl_held r) i = None)"

lemma kept_sweep:
  assumes "kept_or_gone ct since T i v r" "now \<le> T"
  shows "kept_or_gone ct since T i v (rl_sweep ct now r)"
proof -
  have wf: "map_wf (rl_lostAt r)" using assms(1) by (simp add: kept_or_gone_def)
  note sw = sweep_lookup [OF wf, of ct now]
  show ?thesis
    using assms unfolding kept_or_gone_def sw(1,2) outlived_def by (auto simp: sw(3))
qed

lemma accept_lookup:
  assumes "map_wf (rl_lostAt r)" "r' = rl_accept ct whole wire now j topic d snap r" "j \<noteq> i"
  shows "map_of (rl_held r') i = map_of (rl_held r) i \<and> map_of (rl_lostAt r') i = map_of (rl_lostAt r) i \<and> map_wf (rl_lostAt r')
    \<or> map_of (rl_held r') i = map_of (rl_held (rl_sweep ct now r)) i
       \<and> map_of (rl_lostAt r') i = map_of (rl_lostAt (rl_sweep ct now r)) i \<and> map_wf (rl_lostAt r')"
  using sweep_lookup(3) [OF assms(1), of ct now] assms(1,3) unfolding assms(2) rl_accept_def
  by (auto simp: Let_def split: prod.splits)

lemma kept_step:
  assumes k: "kept_or_gone ct since T i v r" and e: "away i T e"
  shows "kept_or_gone ct since T i v (rl_step ct whole wire r e)"
proof (cases e)
  case (RlAccept now j topic d snap)
  have wf: "map_wf (rl_lostAt r)" using k by (simp add: kept_or_gone_def)
  have j: "j \<noteq> i" "now \<le> T" using e RlAccept by simp_all
  show ?thesis
    using accept_lookup [OF wf refl j(1), of ct whole wire now topic d snap] k kept_sweep [OF k j(2)]
    unfolding RlAccept by (auto simp: kept_or_gone_def)
next
  case (RlLost now j)
  have "now \<le> T" using e RlLost by simp
  moreover have "kept_or_gone ct since T i v (r\<lparr>rl_lostAt := map_set j now (rl_lostAt r)\<rparr>)"
    if "map_of (rl_lostAt r) j = None"
    using k that by (auto simp: kept_or_gone_def)
  ultimately show ?thesis using k by (auto simp: RlLost rl_lost_def intro!: kept_sweep)
next
  case (RlRestored j)
  then show ?thesis using k e by (auto simp: rl_restored_def kept_or_gone_def)
next
  case (RlRead now)
  then show ?thesis using kept_sweep [OF k] e by simp
qed

lemma snapshot_mem:
  assumes "map_wf (rl_held r1)"
  shows "(i, d) \<in> set (concat (map (\<lambda>(instance, held). case map_of held topic of None \<Rightarrow> [] | Some v \<Rightarrow> [(instance, snapshot_data v)]) (rl_held r1)))
    \<longleftrightarrow> (\<exists>held v. map_of (rl_held r1) i = Some held \<and> map_of held topic = Some v \<and> d = snapshot_data v)"
  using map_wf_mem [OF assms] by (force split: option.splits)

lemma sweep_held_wf: "map_wf (rl_held r) \<Longrightarrow> map_wf (rl_held (rl_sweep ct now r))"
proof -
  assume wf: "map_wf (rl_held r)"
  have "map_wf (rl_held r) \<Longrightarrow> map_wf (rl_held (fold (\<lambda>(instance, since) r.
         if now - since \<le> LAST_LIVE_RETENTION_MS ct then r
         else r\<lparr>rl_lostAt := map_del instance (rl_lostAt r), rl_held := map_del instance (rl_held r)\<rparr>) es r))"
    for es and r :: "('a, 'b, 'c) relay"
    by (induction es arbitrary: r) auto
  from this [OF wf] show ?thesis by (simp add: rl_sweep_def)
qed

lemma rl_step_held_wf: "map_wf (rl_held r) \<Longrightarrow> map_wf (rl_held (rl_step ct whole wire r e))"
  by (cases e) (auto simp: rl_accept_def rl_lost_def rl_restored_def sweep_held_wf Let_def split: prod.splits)

text \<open>
  Losing a peer does not empty the view of the mesh, and does not keep it forever. From the
  moment the link to an instance is lost, through whatever other peers say and until the
  instance comes back or states something, a snapshot taken inside the retention window contains
  exactly what that instance had last stated, and a snapshot taken after it contains nothing of
  that instance.
\<close>

theorem relay_keeps_for_the_window:
  assumes "map_wf (rl_held r)" and "map_wf (rl_lostAt r)" and "map_of (rl_lostAt r) i = None"
    and "map_of (rl_held r) i = Some held" and "0 \<le> LAST_LIVE_RETENTION_MS ct"
    and "since \<le> now" and "\<forall>e \<in> set es. away i now e"
  shows "let r' = foldl (rl_step ct whole wire) (rl_lost ct since i r) es; snap = fst (rl_snapshot ct now topic r') in
    (now - since \<le> LAST_LIVE_RETENTION_MS ct \<longrightarrow>
       (\<forall>d. (i, d) \<in> set snap \<longleftrightarrow> (\<exists>v. map_of held topic = Some v \<and> d = snapshot_data v)))
    \<and> (LAST_LIVE_RETENTION_MS ct < now - since \<longrightarrow> (\<forall>d. (i, d) \<notin> set snap))"
proof -
  let ?r0 = "rl_lost ct since i r" and ?r' = "foldl (rl_step ct whole wire) (rl_lost ct since i r) es"
  have "kept_or_gone ct since now i (Some held) (r\<lparr>rl_lostAt := map_set i since (rl_lostAt r)\<rparr>)"
    using assms(2,4) by (simp add: kept_or_gone_def)
  then have k0: "kept_or_gone ct since now i (Some held) ?r0"
    using assms(3,6) by (simp add: rl_lost_def kept_sweep)
  have "kept_or_gone ct since now i (Some held) s \<Longrightarrow> map_wf (rl_held s) \<Longrightarrow>
      kept_or_gone ct since now i (Some held) (foldl (rl_step ct whole wire) s es)
      \<and> map_wf (rl_held (foldl (rl_step ct whole wire) s es))" for s
    using assms(7) by (induction es arbitrary: s) (auto simp: kept_step rl_step_held_wf)
  moreover have "map_wf (rl_held ?r0)" using assms(1,3) by (simp add: rl_lost_def sweep_held_wf)
  ultimately have k: "kept_or_gone ct since now i (Some held) ?r'" and wf: "map_wf (rl_held ?r')" using k0 by blast+
  have lwf: "map_wf (rl_lostAt ?r')" using k by (simp add: kept_or_gone_def)
  note sw = sweep_lookup(1) [OF lwf, of ct now i]
  have mem: "(i, d) \<in> set (fst (rl_snapshot ct now topic ?r')) \<longleftrightarrow>
      (\<exists>h v. map_of (rl_held (rl_sweep ct now ?r')) i = Some h \<and> map_of h topic = Some v \<and> d = snapshot_data v)" for d
    using snapshot_mem [OF sweep_held_wf [OF wf], of i d topic ct now] by (simp add: rl_snapshot_def Let_def)
  have "now - since \<le> LAST_LIVE_RETENTION_MS ct \<Longrightarrow> map_of (rl_held (rl_sweep ct now ?r')) i = Some held"
    "LAST_LIVE_RETENTION_MS ct < now - since \<Longrightarrow> map_of (rl_held (rl_sweep ct now ?r')) i = None"
    using k unfolding sw by (auto simp: kept_or_gone_def outlived_def)
  then show ?thesis unfolding Let_def mem by simp
qed

theorem relay_keeps_for_the_window_witness:
  "let r = rl_accept example_contract [''usage''] el_sid 0 ''j'' ''usage'' (OtherData True) False (Relay :: (nat, sid option, bool) relay)
   in fst (rl_snapshot example_contract 15 ''usage'' (rl_lost example_contract 5 ''j'' r)) \<noteq> []
      \<and> (\<forall>d. (''j'', d) \<notin> set (fst (rl_snapshot example_contract 16 ''usage'' (rl_lost example_contract 5 ''j'' r))))"
proof -
  let ?r = "rl_accept example_contract [''usage''] el_sid 0 ''j'' ''usage'' (OtherData True) False (Relay :: (nat, sid option, bool) relay)"
  have r: "?r = \<lparr>rl_held = [(''j'', [(''usage'', HeldValue (OtherData True))])], rl_lostAt = [],
      rl_published = [(''usage'', OtherData True, ''j'')]\<rparr>"
    by (simp add: rl_accept_def isMeshTopic_def MESH_TOPICS_def carriesRows_def ROW_TOPICS_def Relay_def rl_sweep_def
        held_by_def)
  let ?c = "\<lparr>rl_held = [(''j'', [(''usage'', HeldValue (OtherData True))])], rl_lostAt = [],
      rl_published = [(''usage'', OtherData True, ''j'')]\<rparr> :: (nat, sid option, bool) relay"
  note t = relay_keeps_for_the_window [of ?c "''j''" "[(''usage'', HeldValue (OtherData True))]" example_contract 5 _ "[]" "[]" el_sid "''usage''"]
  have "(''j'', snapshot_data (HeldValue (OtherData True))) \<in> set (fst (rl_snapshot example_contract 15 ''usage'' (rl_lost example_contract 5 ''j'' ?c)))"
    using t [of 15] by (simp add: example_contract_def Let_def)
  then have "fst (rl_snapshot example_contract 15 ''usage'' (rl_lost example_contract 5 ''j'' ?c)) \<noteq> []"
    by (metis empty_iff empty_set)
  moreover have "\<forall>d. (''j'', d) \<notin> set (fst (rl_snapshot example_contract 16 ''usage'' (rl_lost example_contract 5 ''j'' ?c)))"
    using t [of 16] by (simp add: example_contract_def Let_def)
  ultimately show ?thesis unfolding Let_def r by blast
qed

end
