(* ===== verification/Inbox.thy ===== *)
theory Inbox
  imports Prelude
begin

text \<open>
  \<open>src/messaging/inbox.ts\<close>: the messages that were answered for and have not reached their
  session, and the append-only file behind them.

  \<open>hold\<close> waits for its line to be on disk and may wait a second time, for the line of the
  message it dropped; between the two other operations run. So an append joins a chain
  (\<open>ib_chain\<close>), its landing or failing is an event of its own, and a \<open>hold\<close> in progress is a
  continuation in \<open>ib_flight\<close> resumed once its line has settled. A crash loses the chain and
  the continuations and keeps the file.

  A line of the file is one of the three verbs or one that does not parse. \<open>stateable\<close>, the
  contract's validation of a message read back, is an argument.
\<close>

section \<open>State\<close>

record 'b message =
  msg_mid :: mid
  msg_sent_at :: timestamp
  msg_body :: 'b

datatype removed_reason = Delivered | Expired | Dropped

datatype 'b inbox_line =
    LAdd sid "'b message"
  | LDelivered sid mid
  | LDropped sid mid
  | LDamaged

text \<open>What a \<open>hold\<close> is waiting for: the line of its message, or the line of the one it dropped.\<close>

datatype hold_wait = WaitAdd sid | WaitDrop sid mid

datatype settled = Landed | Failed

record 'b inbox =
  ib_held :: "(sid, 'b message list) js_map"
  ib_told :: "(mid \<times> removed_reason) list"
  ib_file :: "'b inbox_line list"
  ib_chain :: "(nat \<times> 'b inbox_line) list"
  ib_settled :: "(nat \<times> settled) list"
  ib_flight :: "(nat \<times> hold_wait) list"
  ib_next :: nat

definition Inbox :: "'b inbox" where
  "Inbox = \<lparr>ib_held = [], ib_told = [], ib_file = [], ib_chain = [], ib_settled = [], ib_flight = [], ib_next = 0\<rparr>"

definition held_for :: "(sid, 'b message list) js_map \<Rightarrow> sid \<Rightarrow> 'b message list" where
  "held_for m sid = map_get_or [] m sid"

text \<open>\<open>if (left.length === 0) delete(sid) else set(sid, left)\<close>\<close>

definition keep_left :: "sid \<Rightarrow> 'b message list \<Rightarrow> (sid, 'b message list) js_map \<Rightarrow> (sid, 'b message list) js_map" where
  "keep_left sid left m = (if left = [] then map_del sid m else map_set sid left m)"

section \<open>Operations\<close>

definition unexpired :: "contract \<Rightarrow> timestamp \<Rightarrow> 'b message \<Rightarrow> bool" where
  "unexpired ct now m \<longleftrightarrow> now - msg_sent_at m \<le> INBOX_RETENTION_MS ct"

text \<open>\<open>#expire\<close>, for one entry of the map: what stays of it and what is told.\<close>

definition expire_entry :: "contract \<Rightarrow> timestamp \<Rightarrow> sid option \<Rightarrow> sid \<times> 'b message list \<Rightarrow>
    (sid \<times> 'b message list) list \<times> (mid \<times> removed_reason) list" where
  "expire_entry ct now only e =
     (case e of (sid, held) \<Rightarrow>
        if only \<noteq> None \<and> only \<noteq> Some sid then ([e], [])
        else let left = filter (unexpired ct now) held in
          if length left = length held then ([e], [])
          else (if left = [] then [] else [(sid, left)],
                map (\<lambda>m. (msg_mid m, Expired)) (filter (\<lambda>m. msg_mid m \<notin> msg_mid ` set left) held)))"

definition expire_map :: "contract \<Rightarrow> timestamp \<Rightarrow> sid option \<Rightarrow> (sid, 'b message list) js_map \<Rightarrow>
    (sid, 'b message list) js_map" where
  "expire_map ct now only m = concat (map (\<lambda>e. fst (expire_entry ct now only e)) m)"

definition ib_expire :: "contract \<Rightarrow> timestamp \<Rightarrow> sid option \<Rightarrow> 'b inbox \<Rightarrow> 'b inbox" where
  "ib_expire ct now only b =
     b\<lparr>ib_held := expire_map ct now only (ib_held b),
       ib_told := ib_told b @ concat (map (\<lambda>e. snd (expire_entry ct now only e)) (ib_held b))\<rparr>"

definition ib_undelivered :: "contract \<Rightarrow> sid \<Rightarrow> timestamp \<Rightarrow> 'b inbox \<Rightarrow> 'b message list \<times> 'b inbox" where
  "ib_undelivered ct sid now b =
     (let b' = ib_expire ct now (Some sid) b in (held_for (ib_held b') sid, b'))"

definition ib_append :: "'b inbox_line \<Rightarrow> 'b inbox \<Rightarrow> nat \<times> 'b inbox" where
  "ib_append line b = (ib_next b, b\<lparr>ib_chain := ib_chain b @ [(ib_next b, line)], ib_next := ib_next b + 1\<rparr>)"

text \<open>\<open>hold\<close> up to its first wait.\<close>

definition ib_hold :: "contract \<Rightarrow> sid \<Rightarrow> 'b message \<Rightarrow> timestamp \<Rightarrow> 'b inbox \<Rightarrow> 'b inbox" where
  "ib_hold ct sid message now b =
     (let b1 = ib_expire ct now (Some sid) b;
          b2 = b1\<lparr>ib_held := map_set sid (held_for (ib_held b1) sid @ [message]) (ib_held b1)\<rparr>;
          (t, b3) = ib_append (LAdd sid message) b2
      in b3\<lparr>ib_flight := ib_flight b3 @ [(t, WaitAdd sid)]\<rparr>)"

datatype hold_answer = Waiting | Held bool | HoldRejected

text \<open>\<open>hold\<close> from a wait that ended: on the first, one message over the limit leaves and its line
  is waited for; on the second, its leaving is told. A line that failed rejects the call.\<close>

definition ib_resume :: "contract \<Rightarrow> nat \<Rightarrow> 'b inbox \<Rightarrow> hold_answer \<times> 'b inbox" where
  "ib_resume ct t b =
     (case (map_of (ib_flight b) t, map_of (ib_settled b) t) of
        (Some w, Some s) \<Rightarrow>
          (let b1 = b\<lparr>ib_flight := map_del t (ib_flight b)\<rparr> in
           if s = Failed then (HoldRejected, b1)
           else case w of
             WaitAdd sid \<Rightarrow>
               (case held_for (ib_held b1) sid of
                  oldest # rest \<Rightarrow>
                    if length (oldest # rest) \<le> INBOX_MAX_PER_SID ct then (Held False, b1)
                    else let (t', b2) = ib_append (LDropped sid (msg_mid oldest))
                               (b1\<lparr>ib_held := map_set sid rest (ib_held b1)\<rparr>)
                         in (Waiting, b2\<lparr>ib_flight := ib_flight b2 @ [(t', WaitDrop sid (msg_mid oldest))]\<rparr>)
                | [] \<Rightarrow> (Held False, b1))
           | WaitDrop sid mid \<Rightarrow> (Held True, b1\<lparr>ib_told := ib_told b1 @ [(mid, Dropped)]\<rparr>))
      | _ \<Rightarrow> (Waiting, b))"

definition ib_delivered :: "sid \<Rightarrow> mid list \<Rightarrow> 'b inbox \<Rightarrow> 'b inbox" where
  "ib_delivered sid mids b =
     (case map_of (ib_held b) sid of
        None \<Rightarrow> b
      | Some held \<Rightarrow>
          if mids = [] then b
          else fold (\<lambda>mid b. let b' = snd (ib_append (LDelivered sid mid) b)
                             in b'\<lparr>ib_told := ib_told b' @ [(mid, Delivered)]\<rparr>)
                 mids
                 (b\<lparr>ib_held := keep_left sid (filter (\<lambda>m. msg_mid m \<notin> set mids) held) (ib_held b)\<rparr>))"

definition ib_sids :: "'b inbox \<Rightarrow> sid list" where
  "ib_sids b = map_keys (ib_held b)"

text \<open>\<open>Number(mid.slice(prefix.length))\<close> is read for a run of decimal digits, which is how a
  counter is spelled; a safe integer is one below two to the 53.\<close>

definition counter_of :: "string \<Rightarrow> mid \<Rightarrow> nat option" where
  "counter_of prefix mid =
     (if take (length prefix) mid = prefix then
        (case read_digits 0 (drop (length prefix) mid) of
           Some n \<Rightarrow> if n < 2 ^ 53 then Some n else None
         | None \<Rightarrow> None)
      else None)"

definition ib_lastCounter :: "string \<Rightarrow> 'b inbox \<Rightarrow> nat" where
  "ib_lastCounter prefix b =
     fold (\<lambda>m highest. case counter_of prefix (msg_mid m) of
             Some c \<Rightarrow> if c > highest then c else highest | None \<Rightarrow> highest)
       (concat (map snd (ib_held b))) 0"

text \<open>\<open>#replay\<close>: one line, against the map alone.\<close>

fun ib_replay :: "(sid, 'b message list) js_map \<Rightarrow> 'b inbox_line \<Rightarrow> (sid, 'b message list) js_map" where
  "ib_replay m (LAdd sid message) = map_set sid (held_for m sid @ [message]) m"
| "ib_replay m (LDelivered sid mid) =
     (case map_of m sid of None \<Rightarrow> m | Some held \<Rightarrow> keep_left sid (filter (\<lambda>x. msg_mid x \<noteq> mid) held) m)"
| "ib_replay m (LDropped sid mid) =
     (case map_of m sid of None \<Rightarrow> m | Some held \<Rightarrow> keep_left sid (filter (\<lambda>x. msg_mid x \<noteq> mid) held) m)"
| "ib_replay m LDamaged = m"

fun line_kept :: "(sid \<Rightarrow> 'b message \<Rightarrow> bool) \<Rightarrow> 'b inbox_line \<Rightarrow> bool" where
  "line_kept stateable (LAdd sid message) = stateable sid message"
| "line_kept stateable _ = True"

definition ib_compact :: "(sid, 'b message list) js_map \<Rightarrow> 'b inbox_line list" where
  "ib_compact m = concat (map (\<lambda>(sid, held). map (LAdd sid) held) m)"

text \<open>A new process on the file: the map of this one starts empty, nobody is told, nothing is
  in flight.\<close>

definition ib_load :: "contract \<Rightarrow> (sid \<Rightarrow> 'b message \<Rightarrow> bool) \<Rightarrow> timestamp \<Rightarrow> 'b inbox_line list \<Rightarrow> 'b inbox" where
  "ib_load ct stateable now file =
     (let b = ib_expire ct now None
                (Inbox\<lparr>ib_held := foldl ib_replay [] (filter (line_kept stateable) file)\<rparr>)
      in b\<lparr>ib_told := [], ib_file := ib_compact (ib_held b)\<rparr>)"

text \<open>The chain: the line in front lands or fails.\<close>

definition ib_land :: "'b inbox \<Rightarrow> 'b inbox" where
  "ib_land b =
     (case ib_chain b of
        [] \<Rightarrow> b
      | (t, line) # rest \<Rightarrow>
          b\<lparr>ib_chain := rest, ib_file := ib_file b @ [line], ib_settled := (t, Landed) # ib_settled b\<rparr>)"

definition ib_fail :: "'b inbox \<Rightarrow> 'b inbox" where
  "ib_fail b =
     (case ib_chain b of
        [] \<Rightarrow> b
      | (t, line) # rest \<Rightarrow> b\<lparr>ib_chain := rest, ib_settled := (t, Failed) # ib_settled b\<rparr>)"

section \<open>Runs\<close>

datatype 'b inbox_event =
    InHold sid "'b message" timestamp
  | InResume nat
  | InDelivered sid "mid list"
  | InAsk sid timestamp
  | InLand
  | InFail
  | InRestart timestamp

fun ib_step :: "contract \<Rightarrow> (sid \<Rightarrow> 'b message \<Rightarrow> bool) \<Rightarrow> 'b inbox \<Rightarrow> 'b inbox_event \<Rightarrow> 'b inbox" where
  "ib_step ct ok b (InHold sid m now) = ib_hold ct sid m now b"
| "ib_step ct ok b (InResume t) = snd (ib_resume ct t b)"
| "ib_step ct ok b (InDelivered sid mids) = ib_delivered sid mids b"
| "ib_step ct ok b (InAsk sid now) = snd (ib_undelivered ct sid now b)"
| "ib_step ct ok b InLand = ib_land b"
| "ib_step ct ok b InFail = ib_fail b"
| "ib_step ct ok b (InRestart now) = ib_load ct ok now (ib_file b)"

definition ib_run :: "contract \<Rightarrow> (sid \<Rightarrow> 'b message \<Rightarrow> bool) \<Rightarrow> 'b inbox_event list \<Rightarrow> 'b inbox" where
  "ib_run ct ok evs = foldl (ib_step ct ok) Inbox evs"

fun event_clock :: "'b inbox_event \<Rightarrow> timestamp option" where
  "event_clock (InHold _ _ now) = Some now"
| "event_clock (InAsk _ now) = Some now"
| "event_clock (InRestart now) = Some now"
| "event_clock _ = None"

section \<open>One session at a time\<close>

text \<open>What the lines of a file say about one session.\<close>

fun line_view :: "sid \<Rightarrow> 'b message list \<Rightarrow> 'b inbox_line \<Rightarrow> 'b message list" where
  "line_view s xs (LAdd sid m) = (if sid = s then xs @ [m] else xs)"
| "line_view s xs (LDelivered sid mid) = (if sid = s then filter (\<lambda>x. msg_mid x \<noteq> mid) xs else xs)"
| "line_view s xs (LDropped sid mid) = (if sid = s then filter (\<lambda>x. msg_mid x \<noteq> mid) xs else xs)"
| "line_view s xs LDamaged = xs"

definition lines_view :: "sid \<Rightarrow> 'b inbox_line list \<Rightarrow> 'b message list" where
  "lines_view s = foldl (line_view s) []"

lemma lines_view_simps [simp]:
  "lines_view s [] = []"
  "lines_view s (ls @ [l]) = line_view s (lines_view s ls) l"
  by (simp_all add: lines_view_def)

lemma held_for_simps [simp]:
  "held_for [] s = []"
  "held_for (map_set sid xs m) s = (if s = sid then xs else held_for m s)"
  "held_for (map_del sid m) s = (if s = sid then [] else held_for m s)"
  "held_for (keep_left sid xs m) s = (if s = sid then xs else held_for m s)"
  by (simp_all add: held_for_def keep_left_def)

lemma held_for_None: "map_of m s = None \<Longrightarrow> held_for m s = []"
  and held_for_Some: "map_of m s = Some xs \<Longrightarrow> held_for m s = xs"
  by (simp_all add: held_for_def map_get_or_def)

lemma held_for_replay [simp]: "held_for (ib_replay m l) s = line_view s (held_for m s) l"
  by (cases l) (auto simp: held_for_None held_for_Some split: option.splits)

lemma map_wf_keep_left [simp]: "map_wf m \<Longrightarrow> map_wf (keep_left sid xs m)"
  by (simp add: keep_left_def)

lemma map_wf_replay: "map_wf m \<Longrightarrow> map_wf (ib_replay m l)"
  by (cases l) (auto split: option.splits)

lemma replay_view:
  "held_for (foldl ib_replay m ls) s = foldl (line_view s) (held_for m s) ls"
  by (induction ls arbitrary: m) simp_all

lemma map_wf_replays: "map_wf m \<Longrightarrow> map_wf (foldl ib_replay m ls)"
  by (induction ls arbitrary: m) (simp_all add: map_wf_replay)

lemma filter_length_same: "length (filter P xs) = length xs \<Longrightarrow> filter P xs = xs"
  by (simp add: filter_eq_length_iff)

text \<open>The sweep, seen from one session.\<close>

definition sweeps :: "sid option \<Rightarrow> sid \<Rightarrow> bool" where
  "sweeps only s \<longleftrightarrow> only = None \<or> only = Some s"

lemma expire_entry_other: "fst e \<noteq> s \<Longrightarrow> s \<notin> fst ` set (fst (expire_entry ct now only e))"
  by (cases e) (auto simp: expire_entry_def Let_def split: if_splits)

lemma expire_entry_keys: "fst ` set (fst (expire_entry ct now only e)) \<subseteq> {fst e}"
  and expire_entry_single: "length (fst (expire_entry ct now only e)) \<le> 1"
  by (cases e, auto simp: expire_entry_def Let_def)+

lemma held_for_append:
  "held_for (xs @ ys) s = (if s \<in> fst ` set xs then held_for xs s else held_for ys s)"
proof (cases "map_of xs s")
  case None
  then have "s \<notin> fst ` set xs" by (simp add: map_of_eq_None_iff)
  with None show ?thesis by (simp add: held_for_def map_get_or_def map_add_def split: option.splits)
next
  case (Some x)
  then have "s \<in> fst ` set xs" by (force dest: map_of_SomeD)
  with Some show ?thesis by (simp add: held_for_def map_get_or_def)
qed

lemma expire_entry_view:
  "held_for (fst (expire_entry ct now only (s, xs))) s = (if sweeps only s then filter (unexpired ct now) xs else xs)"
  by (auto simp: expire_entry_def sweeps_def Let_def held_for_def map_get_or_def dest: filter_length_same)

lemma expire_view:
  assumes "map_wf m"
  shows "held_for (expire_map ct now only m) s =
      (if sweeps only s then filter (unexpired ct now) (held_for m s) else held_for m s)"
    and "map_wf (expire_map ct now only m)"
    and "fst ` set (expire_map ct now only m) \<subseteq> fst ` set m"
proof -
  have "held_for (expire_map ct now only m) s = (if sweeps only s then filter (unexpired ct now) (held_for m s) else held_for m s)
      \<and> map_wf (expire_map ct now only m) \<and> fst ` set (expire_map ct now only m) \<subseteq> fst ` set m"
    using assms
  proof (induction m)
    case Nil
    then show ?case by (simp add: expire_map_def)
  next
    case (Cons e m)
    obtain k xs where e: "e = (k, xs)" by (cases e)
    have k: "k \<notin> fst ` set m" and wf: "map_wf m" using Cons.prems by (auto simp: e)
    let ?a = "fst (expire_entry ct now only e)" and ?r = "expire_map ct now only m"
    have c: "expire_map ct now only (e # m) = ?a @ ?r" by (simp add: expire_map_def)
    note ih = Cons.IH [OF wf]
    have sub: "fst ` set ?a \<subseteq> {k}" using expire_entry_keys [of ct now only e] by (simp add: e)
    have d: "map_wf ?a" using expire_entry_single [of ct now only e] by (cases ?a) simp_all
    have kr: "k \<notin> fst ` set ?r" using k ih by blast
    have "held_for (?a @ ?r) s = (if sweeps only s then filter (unexpired ct now) (held_for (e # m) s) else held_for (e # m) s)"
    proof (cases "s = k")
      case True
      have "held_for ?r k = []" using kr by (intro held_for_None) (simp add: map_of_eq_None_iff)
      moreover have "k \<notin> fst ` set ?a \<Longrightarrow> held_for ?a k = []"
        by (intro held_for_None) (simp add: map_of_eq_None_iff)
      ultimately have "held_for (?a @ ?r) s = held_for ?a s" using True by (simp add: held_for_append)
      moreover have "held_for (e # m) s = xs" using True by (simp add: e held_for_def map_get_or_def)
      ultimately show ?thesis using True expire_entry_view [of ct now only k xs] by (simp add: e)
    next
      case False
      then have "held_for (?a @ ?r) s = held_for ?r s" using sub by (auto simp: held_for_append)
      moreover have "held_for (e # m) s = held_for m s" using False by (simp add: e held_for_def map_get_or_def)
      ultimately show ?thesis using ih by simp
    qed
    moreover have "map_wf (?a @ ?r)" using d ih sub kr by auto
    moreover have "fst ` set (?a @ ?r) \<subseteq> fst ` set (e # m)" using ih sub by (auto simp: e)
    ultimately show ?case by (simp only: c)
  qed
  then show "held_for (expire_map ct now only m) s = (if sweeps only s then filter (unexpired ct now) (held_for m s) else held_for m s)"
    and "map_wf (expire_map ct now only m)" and "fst ` set (expire_map ct now only m) \<subseteq> fst ` set m" by blast+
qed

lemma ib_expire_facts:
  assumes "map_wf (ib_held b)"
  shows "held_for (ib_held (ib_expire ct now only b)) s =
      (if sweeps only s then filter (unexpired ct now) (held_for (ib_held b) s) else held_for (ib_held b) s)"
    and "map_wf (ib_held (ib_expire ct now only b))"
  using expire_view [OF assms] by (simp_all add: ib_expire_def)

lemma ib_expire_frame [simp]:
  "ib_file (ib_expire ct now only b) = ib_file b" "ib_chain (ib_expire ct now only b) = ib_chain b"
  "ib_flight (ib_expire ct now only b) = ib_flight b" "ib_settled (ib_expire ct now only b) = ib_settled b"
  "ib_next (ib_expire ct now only b) = ib_next b"
  by (simp_all add: ib_expire_def)

lemma unexpired_mono: "unexpired ct now m \<Longrightarrow> T \<le> now \<Longrightarrow> unexpired ct T m"
  by (simp add: unexpired_def)

lemma filter_unexpired_mono [simp]:
  "T \<le> now \<Longrightarrow> filter (unexpired ct now) (filter (unexpired ct T) xs) = filter (unexpired ct now) xs"
  by (auto simp: unexpired_def intro: filter_cong)

text \<open>\<open>delivered\<close> as a whole.\<close>

definition delivered_lines :: "sid \<Rightarrow> mid list \<Rightarrow> 'b inbox \<Rightarrow> (nat \<times> 'b inbox_line) list" where
  "delivered_lines sid mids b = zip [ib_next b..<ib_next b + length mids] (map (LDelivered sid) mids)"

lemma ib_delivered_fold:
  "fold (\<lambda>mid b. let b' = snd (ib_append (LDelivered sid mid) b)
                in b'\<lparr>ib_told := ib_told b' @ [(mid, Delivered)]\<rparr>) mids b =
     b\<lparr>ib_chain := ib_chain b @ delivered_lines sid mids b, ib_next := ib_next b + length mids,
       ib_told := ib_told b @ map (\<lambda>mid. (mid, Delivered)) mids\<rparr>"
proof (induction mids arbitrary: b)
  case Nil
  then show ?case by (simp add: delivered_lines_def)
next
  case (Cons mid mids)
  have "[ib_next b..<Suc (ib_next b + length mids)] = ib_next b # [Suc (ib_next b)..<Suc (ib_next b + length mids)]"
    by (simp add: upt_rec)
  with Cons show ?case by (simp add: ib_append_def Let_def delivered_lines_def)
qed

lemma delivered_lines_view:
  "foldl (line_view s) xs (map snd (delivered_lines sid mids b)) =
     (if s = sid then filter (\<lambda>m. msg_mid m \<notin> set mids) xs else xs)"
proof -
  have "foldl (line_view s) xs (map (LDelivered sid) mids) =
      (if s = sid then filter (\<lambda>m. msg_mid m \<notin> set mids) xs else xs)"
    by (induction mids arbitrary: xs) (auto intro: filter_cong)
  then show ?thesis by (simp add: delivered_lines_def map_snd_zip)
qed

section \<open>The file and the memory agree\<close>

definition ib_lines :: "'b inbox \<Rightarrow> 'b inbox_line list" where
  "ib_lines b = ib_file b @ map snd (ib_chain b)"

text \<open>No file cut short ever states one \<open>mid\<close> twice for a session.\<close>

definition mids_distinct :: "sid \<Rightarrow> 'b inbox_line list \<Rightarrow> bool" where
  "mids_distinct s ls \<longleftrightarrow> (\<forall>n. distinct (map msg_mid (lines_view s (take n ls))))"

lemma mids_distinct_view: "mids_distinct s ls \<Longrightarrow> distinct (map msg_mid (lines_view s ls))"
  unfolding mids_distinct_def by (metis order_refl take_all)

lemma mids_distinct_prefix: "mids_distinct s (ls @ ks) \<Longrightarrow> mids_distinct s ls"
  unfolding mids_distinct_def
proof
  fix n
  assume a: "\<forall>n. distinct (map msg_mid (lines_view s (take n (ls @ ks))))"
  have "take n ls = take (min n (length ls)) (ls @ ks)" by (simp add: min_def)
  with a show "distinct (map msg_mid (lines_view s (take n ls)))" by metis
qed

lemma mids_distinct_snoc:
  assumes "mids_distinct s ls" "distinct (map msg_mid (line_view s (lines_view s ls) l))"
  shows "mids_distinct s (ls @ [l])"
  unfolding mids_distinct_def
proof
  fix n
  show "distinct (map msg_mid (lines_view s (take n (ls @ [l]))))"
    using assms by (cases "n \<le> length ls") (simp_all add: mids_distinct_def)
qed

lemma distinct_map_filter_mid: "distinct (map msg_mid xs) \<Longrightarrow> distinct (map msg_mid (filter P xs))"
  by (induction xs) auto

lemma mids_distinct_removals:
  assumes "mids_distinct s ls"
  shows "mids_distinct s (ls @ map (LDelivered sid) mids)"
proof (induction mids rule: rev_induct)
  case (snoc mid mids)
  have "distinct (map msg_mid (line_view s (lines_view s (ls @ map (LDelivered sid) mids)) (LDelivered sid mid)))"
    using mids_distinct_view [OF snoc] by (auto simp: distinct_map_filter_mid)
  from mids_distinct_snoc [OF snoc this] show ?case by simp
qed (use assms in simp)

definition ib_agrees :: "contract \<Rightarrow> (sid \<Rightarrow> 'b message \<Rightarrow> bool) \<Rightarrow> timestamp \<Rightarrow> 'b inbox \<Rightarrow> bool" where
  "ib_agrees ct ok T b \<longleftrightarrow> map_wf (ib_held b) \<and> (\<forall>l \<in> set (ib_lines b). line_kept ok l) \<and>
     (\<forall>s. filter (unexpired ct T) (held_for (ib_held b) s) = filter (unexpired ct T) (lines_view s (ib_lines b))
        \<and> mids_distinct s (ib_lines b)
        \<and> distinct (map msg_mid (held_for (ib_held b) s))
        \<and> set (held_for (ib_held b) s) \<subseteq> set (lines_view s (ib_lines b)))"

lemma ib_agreesD:
  assumes "ib_agrees ct ok T b"
  shows "map_wf (ib_held b)" "\<forall>l \<in> set (ib_lines b). line_kept ok l"
    "filter (unexpired ct T) (held_for (ib_held b) s) = filter (unexpired ct T) (lines_view s (ib_lines b))"
    "mids_distinct s (ib_lines b)" "distinct (map msg_mid (held_for (ib_held b) s))"
    "set (held_for (ib_held b) s) \<subseteq> set (lines_view s (ib_lines b))"
  using assms unfolding ib_agrees_def by blast+

lemma ib_agreesI:
  assumes "map_wf (ib_held b)" "\<forall>l \<in> set (ib_lines b). line_kept ok l"
    "\<And>s. filter (unexpired ct T) (held_for (ib_held b) s) = filter (unexpired ct T) (lines_view s (ib_lines b))"
    "\<And>s. mids_distinct s (ib_lines b)"
    "\<And>s. distinct (map msg_mid (held_for (ib_held b) s))"
    "\<And>s. set (held_for (ib_held b) s) \<subseteq> set (lines_view s (ib_lines b))"
  shows "ib_agrees ct ok T b"
  using assms unfolding ib_agrees_def by blast

lemma ib_agrees_later:
  assumes "ib_agrees ct ok T b" "T \<le> T'"
  shows "ib_agrees ct ok T' b"
proof (rule ib_agreesI)
  fix s
  show "filter (unexpired ct T') (held_for (ib_held b) s) = filter (unexpired ct T') (lines_view s (ib_lines b))"
    using ib_agreesD(3) [OF assms(1), of s] assms(2) filter_unexpired_mono by metis
qed (use ib_agreesD [OF assms(1)] in blast)+

lemma ib_agrees_expire:
  assumes "ib_agrees ct ok T b" "T \<le> now"
  shows "ib_agrees ct ok now (ib_expire ct now only b)"
proof (rule ib_agreesI)
  note a = ib_agreesD [OF ib_agrees_later [OF assms]]
  have l: "ib_lines (ib_expire ct now only b) = ib_lines b" by (simp add: ib_lines_def)
  fix s
  note v = ib_expire_facts(1) [OF a(1), of ct now only s]
  show "filter (unexpired ct now) (held_for (ib_held (ib_expire ct now only b)) s) =
      filter (unexpired ct now) (lines_view s (ib_lines (ib_expire ct now only b)))"
    using a(3) [of s] by (simp add: v l)
  show "mids_distinct s (ib_lines (ib_expire ct now only b))"
    using a(4) by (simp add: l)
  show "distinct (map msg_mid (held_for (ib_held (ib_expire ct now only b)) s))"
    using a(5) [of s] by (simp add: v distinct_map_filter_mid)
  show "set (held_for (ib_held (ib_expire ct now only b)) s) \<subseteq> set (lines_view s (ib_lines (ib_expire ct now only b)))"
    using a(6) [of s] by (auto simp: v l)
qed (use ib_agreesD [OF assms(1)] ib_expire_facts(2) in \<open>simp_all add: ib_lines_def\<close>)

text \<open>One more line, and the memory changed the way the line says.\<close>

lemma ib_agrees_line:
  assumes a: "ib_agrees ct ok T b" and kept: "line_kept ok l"
    and lines: "ib_lines b' = ib_lines b @ [l]" and wf: "map_wf (ib_held b')"
    and held: "\<And>s. held_for (ib_held b') s = line_view s (held_for (ib_held b) s) l"
    and fresh: "\<And>sid m. l = LAdd sid m \<Longrightarrow> msg_mid m \<notin> msg_mid ` set (lines_view sid (ib_lines b))"
  shows "ib_agrees ct ok T b'"
proof (rule ib_agreesI)
  note a = ib_agreesD [OF a]
  fix s
  have commute: "filter P (filter Q xs) = filter Q (filter P xs)" for P Q and xs :: "'a message list"
    by (simp add: conj_commute)
  show "filter (unexpired ct T) (held_for (ib_held b') s) = filter (unexpired ct T) (lines_view s (ib_lines b'))"
    using a(3) [of s] by (cases l) (auto simp: held lines commute [of "unexpired ct T"] simp del: filter_filter)
  have "distinct (map msg_mid (line_view s (lines_view s (ib_lines b)) l))"
    using mids_distinct_view [OF a(4)] fresh by (cases l) (auto simp: distinct_map_filter_mid)
  then show "mids_distinct s (ib_lines b')"
    unfolding lines by (rule mids_distinct_snoc [OF a(4)])
  show "distinct (map msg_mid (held_for (ib_held b') s))"
    using a(5) [of s] a(6) [of s] fresh by (cases l) (auto simp: held distinct_map_filter_mid)
  show "set (held_for (ib_held b') s) \<subseteq> set (lines_view s (ib_lines b'))"
    using a(6) [of s] by (cases l) (auto simp: held lines)
qed (use assms ib_agreesD [OF a] in \<open>auto simp: lines\<close>)

lemma ib_agrees_cong:
  assumes "ib_agrees ct ok T b" "ib_held b' = ib_held b" "ib_lines b' = ib_lines b"
  shows "ib_agrees ct ok T b'"
  using assms by (simp add: ib_agrees_def)

lemma ib_agrees_hold:
  assumes a: "ib_agrees ct ok T b" "T \<le> now" and ok: "ok sid m"
    and fresh: "msg_mid m \<notin> msg_mid ` set (lines_view sid (ib_lines b))"
  shows "ib_agrees ct ok now (ib_hold ct sid m now b)"
proof (rule ib_agrees_line [OF ib_agrees_expire [OF a, of "Some sid"], of "LAdd sid m"])
  note wf = ib_expire_facts(2) [OF ib_agreesD(1) [OF a(1)]]
  show "map_wf (ib_held (ib_hold ct sid m now b))"
    using wf by (simp add: ib_hold_def ib_append_def Let_def)
qed (use ok fresh in \<open>simp_all add: ib_hold_def ib_append_def Let_def ib_lines_def\<close>)

lemma ib_agrees_delivered:
  assumes a: "ib_agrees ct ok T b"
  shows "ib_agrees ct ok T (ib_delivered sid mids b)"
proof (cases "map_of (ib_held b) sid = None \<or> mids = []")
  case True
  then show ?thesis using a by (auto simp: ib_delivered_def split: option.splits)
next
  case False
  then obtain held where h: "map_of (ib_held b) sid = Some held" and ne: "mids \<noteq> []" by auto
  note d = ib_agreesD [OF a]
  let ?b = "ib_delivered sid mids b"
  have held: "held_for (ib_held ?b) s =
      (if s = sid then filter (\<lambda>m. msg_mid m \<notin> set mids) (held_for (ib_held b) s) else held_for (ib_held b) s)" for s
    using h ne by (simp add: ib_delivered_def ib_delivered_fold held_for_Some)
  have lines: "lines_view s (ib_lines ?b) =
      (if s = sid then filter (\<lambda>m. msg_mid m \<notin> set mids) (lines_view s (ib_lines b)) else lines_view s (ib_lines b))" for s
    using h ne delivered_lines_view [of s "lines_view s (ib_lines b)" sid mids]
    by (simp add: ib_delivered_def ib_delivered_fold ib_lines_def lines_view_def delivered_lines_def)
  have kept: "\<forall>l \<in> set (ib_lines ?b). line_kept ok l"
    using d(2) h ne by (auto simp: ib_delivered_def ib_delivered_fold ib_lines_def delivered_lines_def set_zip)
  have wf: "map_wf (ib_held ?b)"
    using d(1) h ne by (simp add: ib_delivered_def ib_delivered_fold)
  show ?thesis
  proof (rule ib_agreesI)
    fix s
    have commute: "filter P (filter Q xs) = filter Q (filter P xs)" for P Q and xs :: "'a message list"
      by (simp add: conj_commute)
    show "filter (unexpired ct T) (held_for (ib_held ?b) s) = filter (unexpired ct T) (lines_view s (ib_lines ?b))"
      using d(3) [of s] by (auto simp: held lines commute [of "unexpired ct T"] simp del: filter_filter)
    show "set (held_for (ib_held ?b) s) \<subseteq> set (lines_view s (ib_lines ?b))"
      using d(6) [of s] by (auto simp: held lines)
    have "ib_lines ?b = ib_lines b @ map (LDelivered sid) mids"
      using h ne by (simp add: ib_delivered_def ib_delivered_fold ib_lines_def delivered_lines_def)
    then show "mids_distinct s (ib_lines ?b)" using mids_distinct_removals [OF d(4)] by simp
  qed (use d(5) wf kept in \<open>simp_all add: held distinct_map_filter_mid\<close>)
qed

lemma ib_agrees_resume:
  assumes a: "ib_agrees ct ok T b"
  shows "ib_agrees ct ok T (snd (ib_resume ct t b))"
proof (cases "map_of (ib_flight b) t" "map_of (ib_settled b) t" rule: option.exhaust [case_product option.exhaust])
  case (Some_Some w st)
  let ?b1 = "b\<lparr>ib_flight := map_del t (ib_flight b)\<rparr>"
  have a1: "ib_agrees ct ok T ?b1" by (rule ib_agrees_cong [OF a]) (simp_all add: ib_lines_def)
  show ?thesis
  proof (cases "st = Failed \<or> (\<exists>sid mid. w = WaitDrop sid mid)")
    case True
    then have "ib_held (snd (ib_resume ct t b)) = ib_held b" "ib_lines (snd (ib_resume ct t b)) = ib_lines b"
      using Some_Some by (auto simp: ib_resume_def Let_def ib_lines_def)
    then show ?thesis by (rule ib_agrees_cong [OF a])
  next
    case False
    then obtain sid where w: "w = WaitAdd sid" and st: "st \<noteq> Failed" by (cases w) auto
    show ?thesis
    proof (cases "held_for (ib_held ?b1) sid")
      case Nil
      then show ?thesis using Some_Some w st a1 by (simp add: ib_resume_def)
    next
      case (Cons oldest rest)
      show ?thesis
      proof (cases "length (oldest # rest) \<le> INBOX_MAX_PER_SID ct")
        case True
        then show ?thesis using Some_Some w st a1 Cons by (simp add: ib_resume_def)
      next
        case False
        have rest: "filter (\<lambda>x. msg_mid x \<noteq> msg_mid oldest) rest = rest"
          using ib_agreesD(5) [OF a, of sid] Cons by (auto simp: filter_id_conv) (metis image_eqI)
        show ?thesis
          by (rule ib_agrees_line [OF a1, of "LDropped sid (msg_mid oldest)"])
             (use Some_Some w st Cons False rest ib_agreesD(1) [OF a] in
               \<open>auto simp: ib_resume_def Let_def ib_append_def ib_lines_def\<close>)
      qed
    qed
  qed
qed (use a in \<open>simp_all add: ib_resume_def\<close>)

lemma compact_view:
  assumes "map_wf m"
  shows "lines_view s (ib_compact m) = held_for m s"
proof -
  have one: "foldl (line_view s) xs (map (LAdd k) held) = (if k = s then xs @ held else xs)"
    for k held and xs :: "'b message list"
    by (induction held arbitrary: xs) auto
  have "map_wf m \<Longrightarrow> foldl (line_view s) xs (ib_compact m) = xs @ held_for m s" for xs
  proof (induction m arbitrary: xs)
    case Nil
    then show ?case by (simp add: ib_compact_def)
  next
    case (Cons e m)
    obtain k held where e: "e = (k, held)" by (cases e)
    from Cons.prems have "k = s \<Longrightarrow> held_for m s = []"
      by (intro held_for_None) (auto simp: e map_of_eq_None_iff)
    moreover have "foldl (line_view s) ys (ib_compact m) = ys @ held_for m s" for ys
      using Cons by simp
    ultimately show ?case
      by (simp add: e ib_compact_def one) (simp add: held_for_def map_get_or_def)
  qed
  with assms show ?thesis by (simp add: lines_view_def)
qed

lemma ib_load_held:
  assumes "\<forall>l \<in> set file. line_kept ok l"
  shows "held_for (ib_held (ib_load ct ok now file)) s = filter (unexpired ct now) (lines_view s file)"
    and "map_wf (ib_held (ib_load ct ok now file))"
proof -
  let ?b = "Inbox\<lparr>ib_held := foldl ib_replay [] (filter (line_kept ok) file)\<rparr>"
  have wf: "map_wf (ib_held ?b)" using map_wf_replays [of "[]"] by simp
  have "filter (line_kept ok) file = file" using assms by (simp add: filter_id_conv)
  then show "held_for (ib_held (ib_load ct ok now file)) s = filter (unexpired ct now) (lines_view s file)"
    using ib_expire_facts(1) [OF wf, of ct now None s]
    by (simp add: ib_load_def Let_def replay_view lines_view_def sweeps_def)
  show "map_wf (ib_held (ib_load ct ok now file))"
    using ib_expire_facts(2) [OF wf] by (simp add: ib_load_def Let_def)
qed

lemma ib_load_lines:
  "ib_lines (ib_load ct ok now file) = ib_compact (ib_held (ib_load ct ok now file))"
  by (simp add: ib_lines_def ib_load_def Let_def Inbox_def)

text \<open>
  A run the properties are about, from a given state: the clock does not go back, a message is
  held under a \<open>mid\<close> that no message still recorded for its session carries and the contract can
  state it, and every line asked for is written.
\<close>

fun ib_orderly :: "contract \<Rightarrow> (sid \<Rightarrow> 'b message \<Rightarrow> bool) \<Rightarrow> timestamp \<Rightarrow> 'b inbox \<Rightarrow> 'b inbox_event list \<Rightarrow> bool" where
  "ib_orderly ct ok T b [] = True"
| "ib_orderly ct ok T b (e # evs) =
     ((case event_clock e of None \<Rightarrow> True | Some now \<Rightarrow> T \<le> now) \<and>
      (case e of
         InHold sid m now \<Rightarrow> ok sid m \<and> msg_mid m \<notin> msg_mid ` set (lines_view sid (ib_lines b))
       | InFail \<Rightarrow> False
       | _ \<Rightarrow> True) \<and>
      ib_orderly ct ok (case event_clock e of None \<Rightarrow> T | Some now \<Rightarrow> now) (ib_step ct ok b e) evs)"

fun clock_after :: "timestamp \<Rightarrow> 'b inbox_event list \<Rightarrow> timestamp" where
  "clock_after T [] = T"
| "clock_after T (e # evs) = clock_after (case event_clock e of None \<Rightarrow> T | Some now \<Rightarrow> now) evs"

lemma lines_view_mem: "m \<in> set (lines_view s ls) \<Longrightarrow> LAdd s m \<in> set ls"
proof (induction ls rule: rev_induct)
  case (snoc l ls)
  then show ?case by (cases l) (auto split: if_splits)
qed simp

lemma compact_mem: "LAdd s m \<in> set (ib_compact h) \<Longrightarrow> map_wf h \<Longrightarrow> m \<in> set (held_for h s)"
  by (auto simp: ib_compact_def held_for_def map_get_or_def)

lemma compact_adds: "l \<in> set (ib_compact h) \<Longrightarrow> \<exists>s m. l = LAdd s m"
  by (auto simp: ib_compact_def)

lemma adds_view:
  "\<forall>l \<in> set ls. \<exists>s m. l = LAdd s m \<Longrightarrow>
     lines_view s ls = concat (map (\<lambda>l. case l of LAdd k m \<Rightarrow> if k = s then [m] else [] | _ \<Rightarrow> []) ls)"
  by (induction ls rule: rev_induct) auto

lemma mids_distinct_compact:
  assumes "map_wf h" and "distinct (map msg_mid (held_for h s))"
  shows "mids_distinct s (ib_compact h)"
  unfolding mids_distinct_def
proof
  fix n
  let ?f = "\<lambda>l. case l of LAdd k m \<Rightarrow> if k = s then [m] else [] | _ \<Rightarrow> []"
  have part: "\<forall>l \<in> set (take n (ib_compact h)). \<exists>s m. l = LAdd s m"
    using compact_adds by (metis in_set_takeD)
  have "held_for h s = concat (map ?f (ib_compact h))"
    using compact_view [OF assms(1), of s] adds_view [of "ib_compact h" s] compact_adds by metis
  also have "\<dots> = lines_view s (take n (ib_compact h)) @ concat (map ?f (drop n (ib_compact h)))"
    unfolding adds_view [OF part] by (metis append_take_drop_id concat_append map_append)
  finally show "distinct (map msg_mid (lines_view s (take n (ib_compact h))))"
    using assms(2) by simp
qed

lemma ib_agrees_load:
  assumes a: "ib_agrees ct ok T b"
  shows "ib_agrees ct ok now (ib_load ct ok now (ib_file b))"
proof -
  have kept: "\<forall>l \<in> set (ib_file b). line_kept ok l"
    using ib_agreesD(2) [OF a] by (simp add: ib_lines_def)
  note held = ib_load_held [OF kept, of ct now]
  let ?b = "ib_load ct ok now (ib_file b)"
  have view: "lines_view s (ib_lines ?b) = held_for (ib_held ?b) s" for s
    by (simp add: ib_load_lines compact_view [OF held(2)])
  have sub: "distinct (map msg_mid (lines_view s (ib_file b)))" for s
    using mids_distinct_view [OF mids_distinct_prefix [OF ib_agreesD(4) [OF a, unfolded ib_lines_def]]] .
  have compact: "ib_compact (ib_held ?b) = ib_lines ?b" by (simp add: ib_load_lines)
  have distinct: "mids_distinct s (ib_lines ?b)" for s
    unfolding compact [symmetric]
    by (rule mids_distinct_compact [OF held(2)]) (simp add: held(1) sub distinct_map_filter_mid)
  have "LAdd s m \<in> set (ib_compact (ib_held ?b)) \<Longrightarrow> ok s m" for s m
  proof -
    assume "LAdd s m \<in> set (ib_compact (ib_held ?b))"
    then have "m \<in> set (held_for (ib_held ?b) s)" using held(2) by (rule compact_mem)
    then have "m \<in> set (lines_view s (ib_file b))" by (simp add: held(1))
    with kept show "ok s m" by (metis line_kept.simps(1) lines_view_mem)
  qed
  then have adds: "\<forall>l \<in> set (ib_lines ?b). line_kept ok l"
    unfolding compact [symmetric] using compact_adds by fastforce
  show ?thesis
    by (rule ib_agreesI) (use held adds sub distinct in \<open>simp_all add: view distinct_map_filter_mid\<close>)
qed

lemma ib_agrees_step:
  assumes "ib_agrees ct ok T b" "ib_orderly ct ok T b [e]"
  shows "ib_agrees ct ok (case event_clock e of None \<Rightarrow> T | Some now \<Rightarrow> now) (ib_step ct ok b e)"
proof (cases e)
  case InLand
  then show ?thesis
    using assms(1) by (cases "ib_chain b") (auto intro: ib_agrees_cong simp: ib_land_def ib_lines_def)
qed (use assms in \<open>auto simp: ib_agrees_hold ib_agrees_resume ib_agrees_delivered ib_undelivered_def
  ib_agrees_expire Let_def ib_agrees_load\<close>)

lemma ib_agrees_run:
  "ib_agrees ct ok T b \<Longrightarrow> ib_orderly ct ok T b evs \<Longrightarrow>
     ib_agrees ct ok (clock_after T evs) (foldl (ib_step ct ok) b evs)"
proof (induction evs arbitrary: T b)
  case Nil
  then show ?case by simp
next
  case (Cons e evs)
  from Cons.prems(2) have "ib_orderly ct ok T b [e]" by simp
  from ib_agrees_step [OF Cons.prems(1) this] Cons.IH Cons.prems(2) show ?case by simp
qed

lemma ib_agrees_Inbox: "ib_agrees ct ok T Inbox"
  by (simp add: ib_agrees_def Inbox_def ib_lines_def mids_distinct_def)

text \<open>
  A restart forgets nothing and revives nothing. After any run of holds, deliveries,
  questions and earlier restarts, with every line asked for written, a process started on the
  file answers what is undelivered for a session exactly as the running one does, message for
  message and in the same order.
\<close>

theorem inbox_restart:
  assumes "ib_orderly ct ok T Inbox evs" and "ib_chain (ib_run ct ok evs) = []"
    and "clock_after T evs \<le> now"
  shows "fst (ib_undelivered ct sid now (ib_load ct ok now (ib_file (ib_run ct ok evs))))
    = fst (ib_undelivered ct sid now (ib_run ct ok evs))"
proof -
  let ?b = "ib_run ct ok evs"
  have a: "ib_agrees ct ok now ?b"
    using ib_agrees_later [OF ib_agrees_run [OF ib_agrees_Inbox assms(1)] assms(3)] by (simp add: ib_run_def)
  have on_file: "ib_lines ?b = ib_file ?b" using assms(2) by (simp add: ib_lines_def)
  have kept: "\<forall>l \<in> set (ib_file ?b). line_kept ok l" using ib_agreesD(2) [OF a] by (simp add: on_file)
  show ?thesis
    using ib_agreesD(1,3) [OF a] ib_load_held [OF kept, of ct now]
    by (simp add: ib_undelivered_def Let_def ib_expire_facts sweeps_def on_file)
qed

text \<open>One session, two messages of which the first was delivered.\<close>

definition example_message :: "string \<Rightarrow> timestamp \<Rightarrow> unit message" where
  "example_message mid at = \<lparr>msg_mid = mid, msg_sent_at = at, msg_body = ()\<rparr>"

definition example_evs :: "unit inbox_event list" where
  "example_evs = [InHold ''s'' (example_message ''m1'' 0) 0, InLand, InResume 0,
     InHold ''s'' (example_message ''m2'' 1) 1, InLand, InResume 1, InDelivered ''s'' [''m1''], InLand]"

lemma example_run:
  "ib_orderly example_contract (\<lambda>s m. True) 0 Inbox example_evs"
  "ib_chain (ib_run example_contract (\<lambda>s m. True) example_evs) = []"
  "clock_after 0 example_evs = 1"
  by code_simp+

theorem inbox_restart_witness:
  "fst (ib_undelivered example_contract ''s'' 2
     (ib_load example_contract (\<lambda>s m. True) 2 (ib_file (ib_run example_contract (\<lambda>s m. True) example_evs))))
   = [example_message ''m2'' 1]"
proof -
  have "fst (ib_undelivered example_contract ''s'' 2 (ib_run example_contract (\<lambda>s m. True) example_evs))
      = [example_message ''m2'' 1]"
    by code_simp
  with inbox_restart [OF example_run(1,2), of 2 "''s''"] example_run(3) show ?thesis by simp
qed

text \<open>
  C9: a kill at any moment loses no message that is held and whose line is written. Whatever
  lines are still waiting to be written, a process started on the file as it is has every
  unexpired message the killed one held, except those whose own line was among the waiting ones.
\<close>

theorem inbox_survives_a_kill:
  assumes "ib_orderly ct ok T Inbox evs" and "clock_after T evs \<le> now"
    and "m \<in> set (held_for (ib_held (ib_run ct ok evs)) sid)" and "unexpired ct now m"
    and "LAdd sid m \<notin> snd ` set (ib_chain (ib_run ct ok evs))"
  shows "m \<in> set (fst (ib_undelivered ct sid now (ib_load ct ok now (ib_file (ib_run ct ok evs)))))"
proof -
  let ?b = "ib_run ct ok evs"
  have a: "ib_agrees ct ok (clock_after T evs) ?b"
    using ib_agrees_run [OF ib_agrees_Inbox assms(1)] by (simp add: ib_run_def)
  have kept: "\<forall>l \<in> set (ib_file ?b). line_kept ok l" using ib_agreesD(2) [OF a] by (simp add: ib_lines_def)
  have shrink: "m \<in> set (foldl (line_view sid) xs ls) \<Longrightarrow> LAdd sid m \<notin> set ls \<Longrightarrow> m \<in> set xs" for xs ls
  proof (induction ls arbitrary: xs)
    case (Cons l ls)
    then have "m \<in> set (line_view sid xs l)" by simp
    with Cons.prems show ?case by (cases l) (auto split: if_splits)
  qed simp
  have "m \<in> set (lines_view sid (ib_lines ?b))" using ib_agreesD(6) [OF a] assms(3) by blast
  then have "m \<in> set (foldl (line_view sid) (lines_view sid (ib_file ?b)) (map snd (ib_chain ?b)))"
    by (simp add: ib_lines_def lines_view_def)
  then have "m \<in> set (lines_view sid (ib_file ?b))" using shrink assms(5) by auto
  then show ?thesis
    using ib_load_held [OF kept, of ct now] assms(4)
    by (simp add: ib_undelivered_def Let_def ib_expire_facts sweeps_def)
qed

theorem inbox_survives_a_kill_witness:
  "example_message ''m2'' 1 \<in> set (fst (ib_undelivered example_contract ''s'' 2
     (ib_load example_contract (\<lambda>s m. True) 2 (ib_file (ib_run example_contract (\<lambda>s m. True) example_evs)))))"
proof (rule inbox_survives_a_kill [OF example_run(1)])
  show "example_message ''m2'' 1 \<in> set (held_for (ib_held (ib_run example_contract (\<lambda>s m. True) example_evs)) ''s'')"
    by code_simp
  show "unexpired example_contract 2 (example_message ''m2'' 1)" by code_simp
qed (simp_all add: example_run)

section \<open>The limit\<close>

definition adding :: "sid \<Rightarrow> 'b inbox \<Rightarrow> nat" where
  "adding sid b = length (filter (\<lambda>(t, w). w = WaitAdd sid) (ib_flight b))"

definition ib_bounded :: "contract \<Rightarrow> 'b inbox \<Rightarrow> bool" where
  "ib_bounded ct b \<longleftrightarrow> map_wf (ib_held b) \<and> map_wf (ib_flight b) \<and> (\<forall>t \<in> fst ` set (ib_flight b). t < ib_next b)
     \<and> (\<forall>s \<in> snd ` set (ib_settled b). s = Landed)
     \<and> (\<forall>sid. length (held_for (ib_held b) sid) \<le> INBOX_MAX_PER_SID ct + adding sid b)"

lemma ib_boundedD:
  assumes "ib_bounded ct b"
  shows "map_wf (ib_held b)" "map_wf (ib_flight b)" "t \<in> fst ` set (ib_flight b) \<Longrightarrow> t < ib_next b"
    "map_of (ib_settled b) n = Some st \<Longrightarrow> st = Landed"
    "length (held_for (ib_held b) sid) \<le> INBOX_MAX_PER_SID ct + adding sid b"
  using assms by (force simp: ib_bounded_def dest!: map_of_SomeD)+

lemma adding_del:
  assumes "map_wf fl" "map_of fl t = Some w"
  shows "length (filter (\<lambda>(t, w). w = WaitAdd sid) fl) =
    length (filter (\<lambda>(t, w). w = WaitAdd sid) (map_del t fl)) + (if w = WaitAdd sid then 1 else 0)"
  using assms
proof (induction fl)
  case (Cons e fl)
  show ?case
  proof (cases "fst e = t")
    case True
    with Cons.prems have "map_del t fl = fl" "snd e = w"
      by (auto intro!: delete_idem simp: prod_eq_iff)
    with True show ?thesis by (cases e) simp
  next
    case False
    with Cons show ?thesis by (cases e) auto
  qed
qed simp

lemma ib_bounded_expire:
  assumes "ib_bounded ct b"
  shows "ib_bounded ct (ib_expire ct now only b)"
proof -
  note d = ib_boundedD [OF assms]
  have len: "length (held_for (ib_held (ib_expire ct now only b)) s) \<le> length (held_for (ib_held b) s)" for s
    by (simp add: ib_expire_facts(1) [OF d(1)])
  have "length (held_for (ib_held (ib_expire ct now only b)) s) \<le> INBOX_MAX_PER_SID ct + adding s (ib_expire ct now only b)" for s
    using len [of s] d(5) [of s] by (simp add: adding_def)
  with assms ib_expire_facts(2) [OF d(1)] show ?thesis by (simp add: ib_bounded_def)
qed

lemma ib_bounded_hold:
  assumes "ib_bounded ct b"
  shows "ib_bounded ct (ib_hold ct sid m now b)"
proof -
  let ?e = "ib_expire ct now (Some sid) b" and ?h = "ib_hold ct sid m now b"
  note e = ib_boundedD [OF ib_bounded_expire [OF assms, of now "Some sid"]]
  have "length (held_for (ib_held ?h) s) \<le> INBOX_MAX_PER_SID ct + adding s ?h" for s
    using e(5) [of s] by (auto simp: ib_hold_def ib_append_def Let_def adding_def)
  moreover have "map_wf (ib_flight ?h)" "\<forall>t \<in> fst ` set (ib_flight ?h). t < ib_next ?h"
    using e(2,3) by (fastforce simp: ib_hold_def ib_append_def Let_def)+
  ultimately show ?thesis
    using e(1) ib_bounded_expire [OF assms, of now "Some sid"]
    by (simp add: ib_bounded_def) (simp add: ib_hold_def ib_append_def Let_def)
qed

lemma ib_bounded_shrink:
  assumes "ib_bounded ct b" "map_wf (ib_held b')" "ib_flight b' = ib_flight b" "ib_next b \<le> ib_next b'"
    "\<forall>s \<in> snd ` set (ib_settled b'). s = Landed"
    "\<And>s. length (held_for (ib_held b') s) \<le> length (held_for (ib_held b) s)"
  shows "ib_bounded ct b'"
proof -
  have "length (held_for (ib_held b') s) \<le> INBOX_MAX_PER_SID ct + adding s b'" for s
    using ib_boundedD(5) [OF assms(1), of s] assms(6) [of s] by (simp add: adding_def assms(3))
  with assms ib_boundedD(2,3) [OF assms(1)] show ?thesis
    unfolding ib_bounded_def by (metis order_less_le_trans)
qed

lemma ib_bounded_land:
  assumes "ib_bounded ct b"
  shows "ib_bounded ct (ib_land b)"
proof (cases "ib_chain b")
  case (Cons c rest)
  then show ?thesis using assms
    by (intro ib_bounded_shrink [OF assms]) (auto simp: ib_land_def ib_bounded_def split: prod.splits)
qed (use assms in \<open>simp add: ib_land_def\<close>)

lemma ib_bounded_delivered:
  assumes "ib_bounded ct b"
  shows "ib_bounded ct (ib_delivered sid mids b)"
proof (rule ib_bounded_shrink [OF assms])
  show "length (held_for (ib_held (ib_delivered sid mids b)) s) \<le> length (held_for (ib_held b) s)" for s
    by (auto simp: ib_delivered_def ib_delivered_fold held_for_Some split: option.splits)
qed (use assms in \<open>auto simp: ib_bounded_def ib_delivered_def ib_delivered_fold split: option.splits\<close>)

lemma ib_bounded_resume:
  assumes "ib_bounded ct b"
  shows "ib_bounded ct (snd (ib_resume ct t b))"
proof (cases "map_of (ib_flight b) t" "map_of (ib_settled b) t" rule: option.exhaust [case_product option.exhaust])
  case (Some_Some w st)
  note d = ib_boundedD [OF assms]
  have st: "st = Landed" using d(4) Some_Some by blast
  let ?b1 = "b\<lparr>ib_flight := map_del t (ib_flight b)\<rparr>" and ?r = "snd (ib_resume ct t b)"
  have fl: "map_wf (map_del t (ib_flight b))" "\<And>u. u \<in> fst ` set (map_del t (ib_flight b)) \<Longrightarrow> u < ib_next b"
    using d(2,3) set_map_del_keys [of t "ib_flight b"] by auto
  have a1: "adding s b = adding s ?b1 + (if w = WaitAdd s then 1 else 0)" for s
    using adding_del [OF d(2) Some_Some(1)] by (simp add: adding_def)
  have small: "(\<And>s. length (held_for (ib_held b) s) \<le> INBOX_MAX_PER_SID ct + adding s ?b1) \<Longrightarrow> ib_bounded ct ?b1"
    using assms fl by (simp add: ib_bounded_def)
  show ?thesis
  proof (cases w)
    case (WaitDrop s mid)
    then have "length (held_for (ib_held b) s) \<le> INBOX_MAX_PER_SID ct + adding s ?b1" for s
      using d(5) [of s] a1 [of s] by simp
    then have "ib_bounded ct ?b1" by (rule small)
    then show ?thesis using Some_Some WaitDrop st
      by (simp add: ib_resume_def Let_def ib_bounded_def adding_def)
  next
    case (WaitAdd sid)
    have others: "s \<noteq> sid \<Longrightarrow> length (held_for (ib_held b) s) \<le> INBOX_MAX_PER_SID ct + adding s ?b1" for s
      using d(5) [of s] a1 [of s] WaitAdd by simp
    show ?thesis
    proof (cases "length (held_for (ib_held b) sid) \<le> INBOX_MAX_PER_SID ct")
      case True
      with others have "length (held_for (ib_held b) s) \<le> INBOX_MAX_PER_SID ct + adding s ?b1" for s
        by (cases "s = sid") simp_all
      then have "ib_bounded ct ?b1" by (rule small)
      moreover have "?r = ?b1" using Some_Some WaitAdd st True
        by (cases "held_for (ib_held b) sid") (simp_all add: ib_resume_def Let_def)
      ultimately show ?thesis by simp
    next
      case False
      then obtain oldest rest where h: "held_for (ib_held b) sid = oldest # rest"
        by (cases "held_for (ib_held b) sid") auto
      have r: "ib_held ?r = map_set sid rest (ib_held b)" "ib_settled ?r = ib_settled b"
        "ib_flight ?r = map_del t (ib_flight b) @ [(ib_next b, WaitDrop sid (msg_mid oldest))]"
        "ib_next ?r = ib_next b + 1"
        using Some_Some WaitAdd st False h by (simp_all add: ib_resume_def Let_def ib_append_def)
      have "length (held_for (ib_held ?r) s) \<le> INBOX_MAX_PER_SID ct + adding s ?r" for s
        using others [of s] d(5) [of sid] a1 [of sid] h WaitAdd by (simp add: r adding_def)
      moreover have "map_wf (ib_flight ?r)" "\<forall>u \<in> fst ` set (ib_flight ?r). u < ib_next ?r"
        using fl by (fastforce simp: r)+
      ultimately show ?thesis using assms by (simp add: ib_bounded_def r(1,2))
    qed
  qed
qed (use assms in \<open>simp_all add: ib_resume_def\<close>)

text \<open>
  A session is never owed more than the limit. In any run without a failed write and since
  the file was opened, in whatever order holds, deliveries and expiries overlap, a session has
  at most \<open>INBOX_MAX_PER_SID\<close> messages plus one for each \<open>hold\<close> whose line is still being
  written; so at most the limit once the holds are answered.
\<close>

theorem inbox_limit:
  assumes "InFail \<notin> set evs" and "\<forall>now. InRestart now \<notin> set evs"
  shows "length (held_for (ib_held (ib_run ct ok evs)) sid) \<le> INBOX_MAX_PER_SID ct + adding sid (ib_run ct ok evs)"
proof -
  have "ib_bounded ct (ib_run ct ok evs)"
    using assms
  proof (induction evs rule: rev_induct)
    case Nil
    then show ?case by (simp add: ib_run_def Inbox_def ib_bounded_def)
  next
    case (snoc e evs)
    then have ih: "ib_bounded ct (ib_run ct ok evs)" by auto
    show ?case
      using ih snoc.prems
      by (cases e) (auto simp: ib_run_def ib_bounded_hold ib_bounded_resume ib_bounded_delivered
          ib_bounded_land ib_undelivered_def Let_def ib_bounded_expire)
  qed
  then show ?thesis by (rule ib_boundedD(5))
qed

theorem inbox_limit_witness:
  "length (held_for (ib_held (ib_run example_contract (\<lambda>s m. True) example_evs)) ''s'')
     \<le> INBOX_MAX_PER_SID example_contract + adding ''s'' (ib_run example_contract (\<lambda>s m. True) example_evs)"
  by (rule inbox_limit) (simp_all add: example_evs_def)

text \<open>A kill between the line of a message and the line of the one dropped for it leaves a
  session over the limit, and every later \<open>hold\<close> drops only one: the excess stays.\<close>

definition excess_evs :: "unit inbox_event list" where
  "excess_evs =
     (let add = \<lambda>mid t. [InHold ''s'' (example_message mid 0) 0, InLand, InResume t] in
      add ''1'' 0 @ add ''2'' 1 @ add ''3'' 2 @ [InRestart 0] @ add ''4'' 0 @ [InLand, InResume 1])"

lemma inbox_excess_after_a_kill:
  "let b = ib_run example_contract (\<lambda>s m. True) excess_evs in
   ib_chain b = [] \<and> ib_flight b = [] \<and> length (held_for (ib_held b) ''s'') = INBOX_MAX_PER_SID example_contract + 1"
  by code_simp

section \<open>Every removal is told\<close>

text \<open>A message is held, or somebody was told it left, or its drop is about to be told.\<close>

definition accounted :: "sid \<Rightarrow> 'b message \<Rightarrow> 'b inbox \<Rightarrow> bool" where
  "accounted sid m b \<longleftrightarrow> m \<in> set (held_for (ib_held b) sid) \<or> msg_mid m \<in> fst ` set (ib_told b)
     \<or> (\<exists>t. map_of (ib_flight b) t = Some (WaitDrop sid (msg_mid m)))"

lemma expire_told:
  assumes "map_wf h" "m \<in> set (held_for h sid)" "m \<notin> set (held_for (expire_map ct now only h) sid)"
    "distinct (map msg_mid (held_for h sid))"
  shows "msg_mid m \<in> fst ` set (concat (map (\<lambda>e. snd (expire_entry ct now only e)) h))"
proof -
  let ?xs = "held_for h sid"
  from assms(2) have e: "(sid, ?xs) \<in> set h"
    by (auto simp: held_for_def map_get_or_def split: option.splits dest: map_of_SomeD)
  from assms expire_view(1) [OF assms(1), of ct now only sid]
  have sw: "sweeps only sid" and gone: "\<not> unexpired ct now m" by (auto split: if_splits)
  have "msg_mid m \<notin> msg_mid ` set (filter (unexpired ct now) ?xs)"
    using assms(2,4) gone by (auto simp: distinct_map inj_on_def)
  moreover have "length (filter (unexpired ct now) ?xs) \<noteq> length ?xs"
    using assms(2) gone by (auto simp: filter_eq_length_iff)
  ultimately have "(msg_mid m, Expired) \<in> set (snd (expire_entry ct now only (sid, ?xs)))"
    using sw assms(2) by (auto simp: expire_entry_def Let_def sweeps_def)
  with e show ?thesis by force
qed

lemma accounted_expire:
  assumes "ib_agrees ct ok T b" "accounted sid m b"
  shows "accounted sid m (ib_expire ct now only b)"
  using assms(2) expire_told [OF ib_agreesD(1) [OF assms(1)] _ _ ib_agreesD(5) [OF assms(1)], of m sid ct now only]
  by (auto simp: accounted_def ib_expire_def)

lemma accounted_mono:
  assumes "accounted sid m b" "set (held_for (ib_held b) sid) \<subseteq> set (held_for (ib_held b') sid)"
    "set (ib_told b) \<subseteq> set (ib_told b')" "map_of (ib_flight b) \<subseteq>\<^sub>m map_of (ib_flight b')"
  shows "accounted sid m b'"
  using assms unfolding accounted_def map_le_def by (metis domI image_mono subsetD)

lemma flight_grows:
  assumes "t \<notin> fst ` set fl"
  shows "map_of fl \<subseteq>\<^sub>m map_of (fl @ [(t, w)])"
proof -
  from assms have "map_of fl t = None" by (simp add: map_of_eq_None_iff)
  then show ?thesis by (auto simp: map_le_def map_add_def split: option.splits if_splits)
qed

lemma accounted_hold:
  assumes a: "ib_agrees ct ok T b" and bd: "ib_bounded ct b" and "accounted sid m b"
  shows "accounted sid m (ib_hold ct s m' now b)" and "accounted s m' (ib_hold ct s m' now b)"
proof -
  have "ib_next b \<notin> fst ` set (ib_flight b)" using ib_boundedD(3) [OF bd] by blast
  then show "accounted sid m (ib_hold ct s m' now b)"
    by (intro accounted_mono [OF accounted_expire [OF a assms(3), of now "Some s"]])
       (auto simp: ib_hold_def ib_append_def Let_def intro!: flight_grows)
  show "accounted s m' (ib_hold ct s m' now b)"
    by (simp add: accounted_def ib_hold_def ib_append_def Let_def)
qed

lemma accounted_delivered:
  assumes "accounted sid m b"
  shows "accounted sid m (ib_delivered s mids b)"
  using assms
  by (auto simp: accounted_def ib_delivered_def ib_delivered_fold held_for_Some image_Un image_image split: option.splits)

lemma accounted_land: "accounted sid m (ib_land b) = accounted sid m b"
  by (simp add: accounted_def ib_land_def split: list.splits)

lemma accounted_resume:
  assumes bd: "ib_bounded ct b" and acc: "accounted sid m b"
  shows "accounted sid m (snd (ib_resume ct t b))"
proof (cases "map_of (ib_flight b) t" "map_of (ib_settled b) t" rule: option.exhaust [case_product option.exhaust])
  case (Some_Some w st)
  note d = ib_boundedD [OF bd]
  have st: "st = Landed" using d(4) Some_Some by blast
  show ?thesis
  proof (cases w)
    case (WaitDrop s mid)
    have "\<exists>u. map_of (map_del t (ib_flight b)) u = Some (WaitDrop sid (msg_mid m))"
      if "map_of (ib_flight b) u = Some (WaitDrop sid (msg_mid m))" "msg_mid m \<noteq> mid" for u
      using that WaitDrop Some_Some(1) by (intro exI [of _ u]) auto
    with WaitDrop Some_Some st acc show ?thesis
      by (auto simp: ib_resume_def Let_def accounted_def simp del: map_of_map_del)
  next
    case (WaitAdd s)
    have new: "map_of (map_del t (ib_flight b)) (ib_next b) = None"
      using d(3) by (auto simp: map_of_eq_None_iff)
    have keep: "map_of (map_del t (ib_flight b)) u = Some (WaitDrop sid (msg_mid m))"
      if "map_of (ib_flight b) u = Some (WaitDrop sid (msg_mid m))" for u
      using that Some_Some WaitAdd by auto
    show ?thesis
    proof (cases "length (held_for (ib_held b) s) \<le> INBOX_MAX_PER_SID ct")
      case True
      then have "snd (ib_resume ct t b) = b\<lparr>ib_flight := map_del t (ib_flight b)\<rparr>"
        using Some_Some WaitAdd st by (cases "held_for (ib_held b) s") (simp_all add: ib_resume_def Let_def)
      then show ?thesis using acc keep by (auto simp: accounted_def simp del: map_of_map_del)
    next
      case False
      then obtain oldest rest where h: "held_for (ib_held b) s = oldest # rest"
        by (cases "held_for (ib_held b) s") auto
      have r: "held_for (ib_held (snd (ib_resume ct t b))) sid = (if sid = s then rest else held_for (ib_held b) sid)"
        "ib_told (snd (ib_resume ct t b)) = ib_told b"
        "map_of (ib_flight (snd (ib_resume ct t b))) = (map_of (map_del t (ib_flight b)))(ib_next b \<mapsto> WaitDrop s (msg_mid oldest))"
        using Some_Some WaitAdd st False h new
        by (auto simp: ib_resume_def Let_def ib_append_def map_add_def fun_eq_iff split: option.splits)
      have "map_of (ib_flight (snd (ib_resume ct t b))) u = Some (WaitDrop sid (msg_mid m))"
        if "map_of (ib_flight b) u = Some (WaitDrop sid (msg_mid m))" for u
        using keep [OF that] new by (auto simp: r simp del: map_of_map_del)
      moreover have "m \<in> set (held_for (ib_held (snd (ib_resume ct t b))) sid) \<or>
          map_of (ib_flight (snd (ib_resume ct t b))) (ib_next b) = Some (WaitDrop sid (msg_mid m))"
        if "m \<in> set (held_for (ib_held b) sid)"
        using that h by (auto simp: r)
      ultimately show ?thesis using acc unfolding accounted_def r(2) by blast
    qed
  qed
qed (use acc in \<open>simp_all add: ib_resume_def\<close>)

text \<open>
  Every way out of the inbox is told. In an orderly run since the file was opened, each
  message that was ever held for a session is held still, or its removal (delivered, expired or
  dropped) has been announced under its \<open>mid\<close>, or it was just dropped and the \<open>hold\<close> that dropped
  it is about to announce it.
\<close>

theorem inbox_removals_are_told:
  assumes "ib_orderly ct ok T Inbox evs" and "\<forall>now. InRestart now \<notin> set evs"
    and "InHold sid m now \<in> set evs"
  shows "accounted sid m (ib_run ct ok evs)"
proof -
  have "ib_agrees ct ok T b \<Longrightarrow> ib_bounded ct b \<Longrightarrow> ib_orderly ct ok T b evs \<Longrightarrow>
      \<forall>now. InRestart now \<notin> set evs \<Longrightarrow> accounted sid m b \<or> InHold sid m now \<in> set evs \<Longrightarrow>
      accounted sid m (foldl (ib_step ct ok) b evs)" for b
  proof (induction evs arbitrary: T b)
    case (Cons e evs)
    have one: "ib_orderly ct ok T b [e]" and "e \<noteq> InFail" and "\<And>now. e \<noteq> InRestart now"
      using Cons.prems(3,4) by auto
    then have "ib_bounded ct (ib_step ct ok b e)"
      using Cons.prems(2)
      by (cases e) (auto simp: ib_bounded_hold ib_bounded_resume ib_bounded_delivered ib_bounded_land
          ib_undelivered_def Let_def ib_bounded_expire)
    moreover have "accounted sid m (ib_step ct ok b e)" if "accounted sid m b"
      using that Cons.prems(1,2) \<open>e \<noteq> InFail\<close> \<open>\<And>now. e \<noteq> InRestart now\<close>
      by (cases e) (auto simp: accounted_hold accounted_resume accounted_delivered accounted_land
          ib_undelivered_def Let_def accounted_expire)
    moreover have "accounted sid m (ib_hold ct sid m now b)"
      by (simp add: accounted_def ib_hold_def ib_append_def Let_def)
    ultimately show ?case
      using Cons.IH [OF ib_agrees_step [OF Cons.prems(1) one]] Cons.prems(3-5) by auto
  qed simp
  from this [OF ib_agrees_Inbox _ assms(1,2)] assms(3) show ?thesis
    by (simp add: ib_run_def ib_bounded_def Inbox_def)
qed

theorem inbox_removals_are_told_witness:
  "accounted ''s'' (example_message ''m1'' 0) (ib_run example_contract (\<lambda>s m. True) example_evs)"
  by (rule inbox_removals_are_told [OF example_run(1), where now = 0]) (simp_all add: example_evs_def)

end
