(* ===== verification/Boxes.thy ===== *)
theory Boxes
  imports Inbox
begin

text \<open>
  What delivery relies on about the inbox, as an interface: the messages that wait for each
  session, the ones on their way out, the removals announced, and how each operation moves them.
  The inbox of \<open>src/messaging/inbox.ts\<close> is interpreted at the end. \<open>message_box\<close> holds whatever
  becomes of the lines written; \<open>telling_box\<close>, for runs in which no line fails, adds that nothing
  leaves unannounced.
\<close>

section \<open>The interface\<close>

locale box_view =
  fixes invar :: "'box \<Rightarrow> bool"
    and waiting :: "'box \<Rightarrow> sid \<Rightarrow> mid list"
    and leaving :: "'box \<Rightarrow> mid set"
    and told :: "'box \<Rightarrow> mid list"
begin

definition everywhere :: "'box \<Rightarrow> mid set" where
  "everywhere b = (\<Union>s. set (waiting b s))"

text \<open>Each message waits in one place.\<close>

definition box_ok :: "'box \<Rightarrow> bool" where
  "box_ok b \<longleftrightarrow> invar b \<and> (\<forall>s. distinct (waiting b s))
     \<and> (\<forall>s t. s \<noteq> t \<longrightarrow> set (waiting b s) \<inter> set (waiting b t) = {}) \<and> leaving b \<inter> everywhere b = {}"

text \<open>Messages leave and none arrives; what is announced is gone.\<close>

definition thins :: "'box \<Rightarrow> 'box \<Rightarrow> bool" where
  "thins b b' \<longleftrightarrow> invar b' \<and> (\<forall>s. set (waiting b' s) \<subseteq> set (waiting b s) \<and> distinct (waiting b' s))
     \<and> leaving b' \<subseteq> leaving b \<union> (everywhere b - everywhere b')
     \<and> (\<exists>news. told b' = told b @ news \<and> set news \<inter> everywhere b' = {})"

text \<open>One message arrives, after others may have left.\<close>

definition joins :: "sid \<Rightarrow> mid \<Rightarrow> 'box \<Rightarrow> 'box \<Rightarrow> bool" where
  "joins sid mid b b' \<longleftrightarrow> (\<exists>b0. thins b b0 \<and> invar b' \<and> waiting b' = (waiting b0)(sid := waiting b0 sid @ [mid])
     \<and> leaving b' = leaving b0 \<and> told b' = told b0 \<and> (\<forall>x \<in> set (drop (length (told b)) (told b0)). x \<in> everywhere b))"

text \<open>Whatever was here is here still or has been announced.\<close>

definition explains :: "'box \<Rightarrow> 'box \<Rightarrow> bool" where
  "explains b b' \<longleftrightarrow> (\<exists>news. told b' = told b @ news \<and> everywhere b \<union> leaving b \<subseteq> everywhere b' \<union> leaving b' \<union> set news)"

lemma box_okD:
  assumes "box_ok b"
  shows "invar b" and "distinct (waiting b s)" and "s \<noteq> t \<Longrightarrow> x \<in> set (waiting b s) \<Longrightarrow> x \<notin> set (waiting b t)"
    and "x \<in> leaving b \<Longrightarrow> x \<notin> everywhere b"
  using assms by (auto simp: box_ok_def)

lemma in_everywhere: "x \<in> set (waiting b s) \<Longrightarrow> x \<in> everywhere b"
  by (auto simp: everywhere_def)

lemma thins_everywhere: "thins b b' \<Longrightarrow> everywhere b' \<subseteq> everywhere b"
  by (fastforce simp: thins_def everywhere_def)

lemma thins_ok:
  assumes "box_ok b" "thins b b'"
  shows "box_ok b'"
proof -
  note t = assms(2) [unfolded thins_def]
  have "set (waiting b' s) \<inter> set (waiting b' u) = {}" if "s \<noteq> u" for s u
    using t box_okD(3) [OF assms(1) that] by blast
  moreover have "leaving b' \<inter> everywhere b' = {}"
    using t box_okD(4) [OF assms(1)] thins_everywhere [OF assms(2)] by blast
  ultimately show ?thesis using t by (simp add: box_ok_def)
qed

lemma thins_refl: "box_ok b \<Longrightarrow> thins b b"
  by (auto simp: thins_def box_ok_def)

lemma thins_same:
  "thins b c \<Longrightarrow> invar b' \<Longrightarrow> waiting b' = waiting c \<Longrightarrow> leaving b' = leaving c \<Longrightarrow> told b' = told c \<Longrightarrow> thins b b'"
  by (simp add: thins_def everywhere_def)

lemma joins_everywhere:
  assumes "joins sid mid b b'"
  shows "everywhere b' \<subseteq> insert mid (everywhere b)"
proof -
  from assms obtain b0 where "thins b b0" "waiting b' = (waiting b0)(sid := waiting b0 sid @ [mid])"
    by (auto simp: joins_def)
  moreover from this have "everywhere b' = insert mid (everywhere b0)" by (auto simp: everywhere_def split: if_splits)
  ultimately show ?thesis using thins_everywhere [of b b0] by blast
qed

lemma joins_ok:
  assumes ok: "box_ok b" and j: "joins sid mid b b'" and fresh: "mid \<notin> everywhere b" "mid \<notin> leaving b"
  shows "box_ok b'"
proof -
  from j obtain b0 where t: "thins b b0" and i: "invar b'"
    and w: "waiting b' = (waiting b0)(sid := waiting b0 sid @ [mid])" and l: "leaving b' = leaving b0"
    by (auto simp: joins_def)
  have ok0: "box_ok b0" by (rule thins_ok [OF ok t])
  have new: "mid \<notin> everywhere b0" "mid \<notin> leaving b0"
    using fresh thins_everywhere [OF t] t by (auto simp: thins_def)
  have e: "everywhere b' = insert mid (everywhere b0)" by (auto simp: everywhere_def w split: if_splits)
  show ?thesis
    using ok0 new i unfolding box_ok_def l e by (auto simp: w everywhere_def)
qed

text \<open>A view kept by somebody told of arrivals and of removals shows what waits, and beyond it only
  what is on its way out.\<close>

definition view_exact :: "mid set \<Rightarrow> 'box \<Rightarrow> bool" where
  "view_exact seen b \<longleftrightarrow> everywhere b \<subseteq> seen \<and> seen \<subseteq> everywhere b \<union> leaving b"

definition news :: "'box \<Rightarrow> 'box \<Rightarrow> mid list" where
  "news b b' = drop (length (told b)) (told b')"

lemma view_thins:
  assumes "view_exact seen b" "thins b b'" "explains b b'"
  shows "view_exact (seen - set (news b b')) b'"
proof -
  from assms(2,3) obtain n where n: "told b' = told b @ n" "set n \<inter> everywhere b' = {}"
    "everywhere b \<union> leaving b \<subseteq> everywhere b' \<union> leaving b' \<union> set n"
    by (fastforce simp: thins_def explains_def)
  with assms(1) thins_everywhere [OF assms(2)] show ?thesis
    by (auto simp: view_exact_def news_def)
qed

lemma view_joins:
  assumes "view_exact seen b" "joins sid mid b b'" "explains b b'" "mid \<notin> everywhere b"
  shows "view_exact (insert mid seen - set (news b b')) b'"
proof -
  from assms(2) obtain b0 where b0: "thins b b0" "waiting b' = (waiting b0)(sid := waiting b0 sid @ [mid])"
    "leaving b' = leaving b0" "told b' = told b0" "\<forall>x \<in> set (drop (length (told b)) (told b0)). x \<in> everywhere b"
    by (auto simp: joins_def)
  then have "mid \<notin> set (news b b')" using assms(4) by (auto simp: news_def)
  have e: "everywhere b' = insert mid (everywhere b0)" by (auto simp: everywhere_def b0 split: if_splits)
  from b0(1) obtain n where n: "told b0 = told b @ n" "set n \<inter> everywhere b0 = {}" by (auto simp: thins_def)
  from assms(3) n(1) have "everywhere b \<union> leaving b \<subseteq> everywhere b' \<union> leaving b' \<union> set n"
    by (auto simp: explains_def b0(4))
  with assms(1) \<open>mid \<notin> set (news b b')\<close> n thins_everywhere [OF b0(1)] show ?thesis
    unfolding view_exact_def e b0(3) by (auto simp: news_def b0(4))
qed

end

locale message_box = box_view invar waiting leaving told
  for invar :: "'box \<Rightarrow> bool" and waiting leaving told +
  fixes mid_of :: "'m \<Rightarrow> mid"
    and hold :: "sid \<Rightarrow> 'm \<Rightarrow> timestamp \<Rightarrow> 'box \<Rightarrow> 'box"
    and ask :: "sid \<Rightarrow> timestamp \<Rightarrow> 'box \<Rightarrow> 'm list \<times> 'box"
    and delivered :: "sid \<Rightarrow> mid list \<Rightarrow> 'box \<Rightarrow> 'box"
    and resume :: "nat \<Rightarrow> 'box \<Rightarrow> 'a \<times> 'box"
    and settle :: "bool \<Rightarrow> 'box \<Rightarrow> 'box"
  assumes hold_joins: "box_ok b \<Longrightarrow> joins sid (mid_of m) b (hold sid m now b)"
    and ask_thins: "box_ok b \<Longrightarrow> thins b (snd (ask sid now b))"
    and ask_others: "box_ok b \<Longrightarrow> s \<noteq> sid \<Longrightarrow> waiting (snd (ask sid now b)) s = waiting b s"
    and ask_answers: "box_ok b \<Longrightarrow> map mid_of (fst (ask sid now b)) = waiting (snd (ask sid now b)) sid"
    and delivered_thins: "box_ok b \<Longrightarrow> (\<And>s. s \<noteq> sid \<Longrightarrow> set mids \<inter> set (waiting b s) = {}) \<Longrightarrow> thins b (delivered sid mids b)"
    and delivered_gone: "box_ok b \<Longrightarrow> set (waiting (delivered sid mids b) sid) = set (waiting b sid) - set mids"
    and resume_thins: "box_ok b \<Longrightarrow> thins b (snd (resume t b))"
    and settle_same: "invar b \<Longrightarrow> invar (settle ok b)" "waiting (settle ok b) = waiting b"
      "leaving (settle ok b) = leaving b" "told (settle ok b) = told b"

locale telling_box = message_box invar waiting leaving told mid_of hold ask delivered resume settle
  for invar :: "'box \<Rightarrow> bool" and waiting leaving told and mid_of :: "'m \<Rightarrow> mid" and hold ask delivered
    and resume :: "nat \<Rightarrow> 'box \<Rightarrow> 'a \<times> 'box" and settle +
  fixes sound :: "'box \<Rightarrow> bool"
  assumes sound_hold: "sound b \<Longrightarrow> sound (hold sid m now b)"
    and sound_ask: "sound b \<Longrightarrow> sound (snd (ask sid now b))"
    and sound_delivered: "sound b \<Longrightarrow> sound (delivered sid mids b)"
    and sound_resume: "sound b \<Longrightarrow> sound (snd (resume t b))"
    and sound_settle: "sound b \<Longrightarrow> sound (settle True b)"
    and hold_explains: "box_ok b \<Longrightarrow> sound b \<Longrightarrow> explains b (hold sid m now b)"
    and ask_explains: "box_ok b \<Longrightarrow> sound b \<Longrightarrow> explains b (snd (ask sid now b))"
    and delivered_explains: "box_ok b \<Longrightarrow> sound b \<Longrightarrow> explains b (delivered sid mids b)"
    and resume_explains: "box_ok b \<Longrightarrow> sound b \<Longrightarrow> explains b (snd (resume t b))"

section \<open>The inbox provides it\<close>

definition ib_waiting :: "'b inbox \<Rightarrow> sid \<Rightarrow> mid list" where
  "ib_waiting b s = map msg_mid (held_for (ib_held b) s)"

definition ib_leaving :: "'b inbox \<Rightarrow> mid set" where
  "ib_leaving b = {mid. \<exists>t s. (t, WaitDrop s mid) \<in> set (ib_flight b)}"

definition ib_told_mids :: "'b inbox \<Rightarrow> mid list" where
  "ib_told_mids b = map fst (ib_told b)"

definition ib_wf :: "'b inbox \<Rightarrow> bool" where
  "ib_wf b \<longleftrightarrow> map_wf (ib_held b)"

definition ib_settle :: "bool \<Rightarrow> 'b inbox \<Rightarrow> 'b inbox" where
  "ib_settle ok b = (if ok then ib_land b else ib_fail b)"

definition ib_sound :: "'b inbox \<Rightarrow> bool" where
  "ib_sound b \<longleftrightarrow> map_wf (ib_flight b) \<and> (\<forall>(t, w) \<in> set (ib_flight b). t < ib_next b) \<and> Failed \<notin> snd ` set (ib_settled b)"

lemmas ib_views = ib_waiting_def ib_leaving_def ib_told_mids_def ib_wf_def

interpretation iv: box_view ib_wf ib_waiting ib_leaving ib_told_mids .

lemma concat_map_mem: "x \<in> set (concat (map f xs)) \<Longrightarrow> \<exists>k v. (k, v) \<in> set xs \<and> x \<in> set (f (k, v))"
  by fastforce

lemma expire_told_mem:
  assumes "map_wf h"
  shows "(x, r) \<in> set (concat (map (\<lambda>e. snd (expire_entry ct now only e)) h)) \<Longrightarrow>
    \<exists>s. x \<in> msg_mid ` set (held_for h s) \<and> x \<notin> msg_mid ` set (held_for (expire_map ct now only h) s)"
proof -
  assume "(x, r) \<in> set (concat (map (\<lambda>e. snd (expire_entry ct now only e)) h))"
  then obtain s xs where e: "(s, xs) \<in> set h" and x: "(x, r) \<in> set (snd (expire_entry ct now only (s, xs)))"
    by (metis (no_types, lifting) concat_map_mem)
  from e assms have h: "held_for h s = xs" by (simp add: held_for_Some)
  from x have "sweeps only s" "x \<in> msg_mid ` set xs" "x \<notin> msg_mid ` set (filter (unexpired ct now) xs)"
    by (auto simp: expire_entry_def sweeps_def Let_def split: if_splits)
  with h expire_view(1) [OF assms, of ct now only s] show ?thesis by (intro exI [of _ s]) simp
qed

lemma expire_thins:
  assumes ok: "iv.box_ok b"
  shows "iv.thins b (ib_expire ct now only b)"
proof -
  let ?b = "ib_expire ct now only b"
  have wf: "map_wf (ib_held b)" using ok by (simp add: iv.box_ok_def ib_wf_def)
  note f = ib_expire_facts [OF wf, of ct now only]
  have sub: "set (ib_waiting ?b s) \<subseteq> set (ib_waiting b s)" for s by (auto simp: ib_waiting_def f)
  have "distinct (ib_waiting ?b s)" for s
    using iv.box_okD(2) [OF ok, of s] by (auto simp: ib_waiting_def f intro: distinct_map_filter_mid)
  moreover have "\<exists>n. ib_told_mids ?b = ib_told_mids b @ n \<and> set n \<inter> iv.everywhere ?b = {}"
  proof (intro exI conjI)
    let ?n = "map fst (concat (map (\<lambda>e. snd (expire_entry ct now only e)) (ib_held b)))"
    show "ib_told_mids ?b = ib_told_mids b @ ?n" by (simp add: ib_told_mids_def ib_expire_def)
    have "x \<notin> set (ib_waiting ?b t)" if "x \<in> set ?n" for x t
    proof -
      from that obtain r where "(x, r) \<in> set (concat (map (\<lambda>e. snd (expire_entry ct now only e)) (ib_held b)))"
        unfolding set_map by (metis (no_types, lifting) imageE prod.collapse)
      from expire_told_mem [OF wf this] obtain s where
        s: "x \<in> set (ib_waiting b s)" "x \<notin> set (ib_waiting ?b s)" by (auto simp: ib_waiting_def ib_expire_def)
      then show ?thesis using iv.box_okD(3) [OF ok, of s t x] sub [of t] by blast
    qed
    then show "set ?n \<inter> iv.everywhere ?b = {}" unfolding iv.everywhere_def by blast
  qed
  moreover have "ib_leaving ?b = ib_leaving b" by (simp add: ib_leaving_def)
  ultimately show ?thesis using sub f(2) by (simp add: iv.thins_def ib_wf_def)
qed

lemma expire_told_waited:
  assumes ok: "iv.box_ok b"
  shows "\<forall>x \<in> set (drop (length (ib_told_mids b)) (ib_told_mids (ib_expire ct now only b))). x \<in> iv.everywhere b"
proof
  fix x
  assume "x \<in> set (drop (length (ib_told_mids b)) (ib_told_mids (ib_expire ct now only b)))"
  then obtain r where "(x, r) \<in> set (concat (map (\<lambda>e. snd (expire_entry ct now only e)) (ib_held b)))"
    by (auto simp: ib_told_mids_def ib_expire_def simp del: set_concat)
  from expire_told_mem [OF _ this] ok show "x \<in> iv.everywhere b"
    by (auto simp: iv.everywhere_def ib_waiting_def iv.box_ok_def ib_wf_def)
qed

lemma expire_explains:
  assumes ok: "iv.box_ok b"
  shows "iv.explains b (ib_expire ct now only b)"
proof -
  let ?b = "ib_expire ct now only b" and ?n = "map fst (concat (map (\<lambda>e. snd (expire_entry ct now only e)) (ib_held b)))"
  have wf: "map_wf (ib_held b)" using ok by (simp add: iv.box_ok_def ib_wf_def)
  have "x \<in> iv.everywhere ?b \<union> set ?n" if x: "x \<in> set (ib_waiting b s)" for x s
  proof (rule ccontr)
    assume n: "x \<notin> iv.everywhere ?b \<union> set ?n"
    from x obtain m where m: "m \<in> set (held_for (ib_held b) s)" "x = msg_mid m" by (auto simp: ib_waiting_def)
    with n have "m \<notin> set (held_for (expire_map ct now only (ib_held b)) s)"
      by (auto simp: iv.everywhere_def ib_waiting_def ib_expire_def)
    from expire_told [OF wf m(1) this] iv.box_okD(2) [OF ok, of s] n m(2) show False by (simp add: ib_waiting_def)
  qed
  moreover have "ib_leaving ?b = ib_leaving b" "ib_told_mids ?b = ib_told_mids b @ ?n"
    by (simp_all add: ib_leaving_def ib_told_mids_def ib_expire_def)
  ultimately show ?thesis unfolding iv.explains_def iv.everywhere_def [of b] by (intro exI [of _ ?n]) auto
qed

lemma hold_view:
  "ib_waiting (ib_hold ct sid m now b) = (ib_waiting (ib_expire ct now (Some sid) b))
     (sid := ib_waiting (ib_expire ct now (Some sid) b) sid @ [msg_mid m])"
  "ib_leaving (ib_hold ct sid m now b) = ib_leaving b"
  "ib_told_mids (ib_hold ct sid m now b) = ib_told_mids (ib_expire ct now (Some sid) b)"
  "ib_wf b \<Longrightarrow> ib_wf (ib_hold ct sid m now b)"
  using ib_expire_facts(2) [of b ct now "Some sid"] by (auto simp: ib_views ib_hold_def ib_append_def Let_def fun_eq_iff)

lemma delivered_view:
  "ib_waiting (ib_delivered sid mids b) = (ib_waiting b)(sid := filter (\<lambda>x. x \<notin> set mids) (ib_waiting b sid))"
  "ib_leaving (ib_delivered sid mids b) = ib_leaving b"
  "ib_told_mids (ib_delivered sid mids b) = ib_told_mids b @ (if map_of (ib_held b) sid = None then [] else mids)"
  "ib_wf b \<Longrightarrow> ib_wf (ib_delivered sid mids b)"
  by (auto simp: ib_views ib_delivered_def ib_delivered_fold fun_eq_iff held_for_None held_for_Some filter_map o_def
      split: option.splits)

lemma map_del_sub: "x \<in> set (map_del t m) \<Longrightarrow> x \<in> set m"
  by (auto simp: AList.delete_eq)

lemma mem_map_del: "map_wf m \<Longrightarrow> (k, v) \<in> set (map_del t m) \<longleftrightarrow> k \<noteq> t \<and> (k, v) \<in> set m"
  by (auto simp: AList.delete_eq)

text \<open>The three things a \<open>hold\<close> that goes on may do: answer, drop the oldest message, or announce
  the one it dropped.\<close>

lemma resume_cases:
  assumes "map_of (ib_flight b) t = Some w" "map_of (ib_settled b) t = Some st"
  obtains (answers) "snd (ib_resume ct t b) = b\<lparr>ib_flight := map_del t (ib_flight b)\<rparr>" "\<And>s mid. w = WaitDrop s mid \<Longrightarrow> st = Failed"
  | (drops) s oldest rest where "w = WaitAdd s" "held_for (ib_held b) s = oldest # rest"
      "snd (ib_resume ct t b) =
         b\<lparr>ib_held := map_set s rest (ib_held b), ib_chain := ib_chain b @ [(ib_next b, LDropped s (msg_mid oldest))],
           ib_next := ib_next b + 1, ib_flight := map_del t (ib_flight b) @ [(ib_next b, WaitDrop s (msg_mid oldest))]\<rparr>"
  | (announces) s mid where "w = WaitDrop s mid" "st = Landed"
      "snd (ib_resume ct t b) = b\<lparr>ib_flight := map_del t (ib_flight b), ib_told := ib_told b @ [(mid, Dropped)]\<rparr>"
proof (cases st)
  case Failed
  with assms answers show ?thesis by (simp add: ib_resume_def Let_def)
next
  case Landed
  show ?thesis
  proof (cases w)
    case (WaitDrop s mid)
    with Landed assms announces show ?thesis by (simp add: ib_resume_def Let_def)
  next
    case (WaitAdd s)
    show ?thesis
    proof (cases "held_for (ib_held b) s")
      case Nil
      with WaitAdd Landed assms answers show ?thesis by (simp add: ib_resume_def Let_def)
    next
      case (Cons oldest rest)
      with WaitAdd Landed assms answers drops [of s oldest rest] show ?thesis
        by (cases "length (oldest # rest) \<le> INBOX_MAX_PER_SID ct") (simp_all add: ib_resume_def Let_def ib_append_def)
    qed
  qed
qed

lemma resume_idle:
  "map_of (ib_flight b) t = None \<or> map_of (ib_settled b) t = None \<Longrightarrow> ib_resume ct t b = (Waiting, b)"
  by (auto simp: ib_resume_def split: option.splits)

lemma resume_thins_ib:
  assumes ok: "iv.box_ok b"
  shows "iv.thins b (snd (ib_resume ct t b))"
proof (cases "map_of (ib_flight b) t = None \<or> map_of (ib_settled b) t = None")
  case True
  with resume_idle [OF True, of ct] iv.thins_refl [OF ok] show ?thesis by simp
next
  case False
  then obtain w st where w: "map_of (ib_flight b) t = Some w" "map_of (ib_settled b) t = Some st" by auto
  have wf: "ib_wf b" using ok by (rule iv.box_okD)
  let ?b = "snd (ib_resume ct t b)"
  from w show ?thesis
  proof (cases rule: resume_cases [where ct = ct])
    case answers
    have "ib_leaving ?b \<subseteq> ib_leaving b" unfolding answers by (auto simp: ib_leaving_def dest: map_del_sub)
    moreover have "ib_waiting ?b = ib_waiting b" "ib_told_mids ?b = ib_told_mids b" "ib_wf ?b"
      using wf unfolding answers by (simp_all add: ib_views fun_eq_iff)
    ultimately show ?thesis using iv.box_okD(2) [OF ok] by (auto simp: iv.thins_def)
  next
    case (announces s mid)
    have "mid \<in> ib_leaving b" using w(1) announces(1) by (auto simp: ib_leaving_def dest: map_of_SomeD)
    then have "mid \<notin> iv.everywhere b" by (rule iv.box_okD(4) [OF ok])
    moreover have "ib_leaving ?b \<subseteq> ib_leaving b" unfolding announces by (auto simp: ib_leaving_def dest: map_del_sub)
    moreover have "ib_waiting ?b = ib_waiting b" "ib_told_mids ?b = ib_told_mids b @ [mid]" "ib_wf ?b"
      using wf unfolding announces by (simp_all add: ib_views fun_eq_iff)
    ultimately show ?thesis using iv.box_okD(2) [OF ok] by (auto simp: iv.thins_def iv.everywhere_def)
  next
    case (drops s oldest rest)
    have wt: "ib_waiting b s = msg_mid oldest # map msg_mid rest" by (simp add: ib_waiting_def drops)
    have v: "ib_waiting ?b = (ib_waiting b)(s := map msg_mid rest)" "ib_told_mids ?b = ib_told_mids b" "ib_wf ?b"
      using wf unfolding drops by (simp_all add: ib_views fun_eq_iff)
    have "ib_leaving ?b \<subseteq> insert (msg_mid oldest) (ib_leaving b)" unfolding drops
      by (auto simp: ib_leaving_def dest: map_del_sub)
    moreover have "msg_mid oldest \<in> iv.everywhere b" using wt iv.in_everywhere [of "msg_mid oldest" b s] by simp
    moreover have "msg_mid oldest \<notin> set (ib_waiting ?b u)" for u
      using iv.box_okD(2) [OF ok, of s] iv.box_okD(3) [OF ok, of s u "msg_mid oldest"] by (auto simp: v wt)
    then have "msg_mid oldest \<notin> iv.everywhere ?b" by (auto simp: iv.everywhere_def)
    moreover have "set (ib_waiting ?b u) \<subseteq> set (ib_waiting b u) \<and> distinct (ib_waiting ?b u)" for u
      using iv.box_okD(2) [OF ok, of u] wt by (auto simp: v)
    ultimately show ?thesis using v(2,3) unfolding iv.thins_def by auto
  qed
qed

lemma delivered_thins_ib:
  assumes ok: "iv.box_ok b" and only: "\<And>s. s \<noteq> sid \<Longrightarrow> set mids \<inter> set (ib_waiting b s) = {}"
  shows "iv.thins b (ib_delivered sid mids b)"
proof -
  let ?b = "ib_delivered sid mids b"
  have "x \<notin> set (ib_waiting ?b s)" if "x \<in> set mids" for x s
    using that only [of s] by (auto simp: delivered_view)
  then have "set mids \<inter> iv.everywhere ?b = {}" by (auto simp: iv.everywhere_def)
  then show ?thesis using iv.box_okD(1,2) [OF ok] unfolding iv.thins_def by (auto simp: delivered_view)
qed

lemma resume_explains_ib:
  assumes ok: "iv.box_ok b" and so: "ib_sound b"
  shows "iv.explains b (snd (ib_resume ct t b))"
proof (cases "map_of (ib_flight b) t = None \<or> map_of (ib_settled b) t = None")
  case True
  with resume_idle [OF True, of ct] show ?thesis by (simp add: iv.explains_def)
next
  case False
  then obtain w st where w: "map_of (ib_flight b) t = Some w" "map_of (ib_settled b) t = Some st" by auto
  have fl: "map_wf (ib_flight b)" and landed: "st \<noteq> Failed"
    using so map_of_SomeD [OF w(2)] by (auto simp: ib_sound_def image_iff)
  have tw: "(t, w') \<in> set (ib_flight b) \<Longrightarrow> w' = w" for w' using w(1) map_wf_mem [OF fl, of t w'] by simp
  let ?b = "snd (ib_resume ct t b)"
  from w show ?thesis
  proof (cases rule: resume_cases [where ct = ct])
    case answers
    then have "ta \<noteq> t" if "(ta, WaitDrop s x) \<in> set (ib_flight b)" for ta s x using that landed tw by blast
    then have "ib_leaving ?b = ib_leaving b" unfolding answers(1)
      by (auto simp: ib_leaving_def mem_map_del [OF fl])
    moreover have "ib_waiting ?b = ib_waiting b" "ib_told_mids ?b = ib_told_mids b"
      unfolding answers by (simp_all add: ib_views fun_eq_iff)
    ultimately show ?thesis by (simp add: iv.explains_def iv.everywhere_def)
  next
    case (announces s mid)
    have "ta \<noteq> t" if "(ta, WaitDrop sa x) \<in> set (ib_flight b)" "x \<noteq> mid" for ta sa x
      using that tw announces(1) by blast
    then have "ib_leaving b \<subseteq> insert mid (ib_leaving ?b)" unfolding announces
      by (auto simp: ib_leaving_def mem_map_del [OF fl])
    moreover have "ib_waiting ?b = ib_waiting b" "ib_told_mids ?b = ib_told_mids b @ [mid]"
      unfolding announces by (simp_all add: ib_views fun_eq_iff)
    ultimately show ?thesis by (auto simp: iv.explains_def iv.everywhere_def)
  next
    case (drops s oldest rest)
    have wt: "ib_waiting b s = msg_mid oldest # map msg_mid rest" by (simp add: ib_waiting_def drops)
    have v: "ib_waiting ?b = (ib_waiting b)(s := map msg_mid rest)" "ib_told_mids ?b = ib_told_mids b"
      unfolding drops by (simp_all add: ib_views fun_eq_iff)
    have "ta \<noteq> t" if "(ta, WaitDrop sa x) \<in> set (ib_flight b)" for ta sa x
      using that tw drops(1) by blast
    then have l: "ib_leaving b \<subseteq> ib_leaving ?b" unfolding drops
      by (simp add: ib_leaving_def mem_map_del [OF fl]) blast
    have o: "msg_mid oldest \<in> ib_leaving ?b" unfolding drops by (auto simp: ib_leaving_def)
    have "x \<in> iv.everywhere ?b \<union> ib_leaving ?b" if "x \<in> set (ib_waiting b u)" for x u
    proof (cases "x = msg_mid oldest")
      case False
      with that have "x \<in> set (ib_waiting ?b u)" using wt by (auto simp: v)
      then show ?thesis using iv.in_everywhere by blast
    qed (simp add: o)
    then have "iv.everywhere b \<subseteq> iv.everywhere ?b \<union> ib_leaving ?b" unfolding iv.everywhere_def [of b] by blast
    with l show ?thesis unfolding iv.explains_def by (intro exI [of _ "[]"]) (auto simp: v)
  qed
qed

lemma ib_soundD:
  assumes "ib_sound b"
  shows "map_wf (ib_flight b)" "(t, w) \<in> set (ib_flight b) \<Longrightarrow> t < ib_next b" "Failed \<notin> snd ` set (ib_settled b)"
  using assms by (auto simp: ib_sound_def)

lemma ib_sound_resume:
  assumes "ib_sound b"
  shows "ib_sound (snd (ib_resume ct t b))"
proof (cases "map_of (ib_flight b) t = None \<or> map_of (ib_settled b) t = None")
  case True
  with resume_idle [OF True, of ct] assms show ?thesis by simp
next
  case False
  then obtain w st where w: "map_of (ib_flight b) t = Some w" "map_of (ib_settled b) t = Some st" by auto
  from w show ?thesis
  proof (cases rule: resume_cases [where ct = ct])
    case answers
    then show ?thesis using assms by (auto simp: ib_sound_def dest: map_del_sub)
  next
    case (announces s mid)
    then show ?thesis using assms by (auto simp: ib_sound_def dest: map_del_sub)
  next
    case (drops s oldest rest)
    have "ib_next b \<notin> fst ` set (ib_flight b)" using assms by (auto simp: ib_sound_def)
    then have "ib_next b \<notin> fst ` set (map_del t (ib_flight b))" by (auto dest: map_del_sub)
    moreover have "u < ib_next b + 1" if "(u, v) \<in> set (map_del t (ib_flight b))" for u v
      using ib_soundD(2) [OF assms map_del_sub [OF that]] by simp
    ultimately show ?thesis using drops(3) ib_soundD(1,3) [OF assms] by (auto simp: ib_sound_def)
  qed
qed

lemma explains_same:
  assumes "iv.explains b c" and "\<And>s. set (ib_waiting c s) \<subseteq> set (ib_waiting b' s)" and "ib_leaving c \<subseteq> ib_leaving b'"
    and "ib_told_mids b' = ib_told_mids c"
  shows "iv.explains b b'"
proof -
  have "iv.everywhere c \<subseteq> iv.everywhere b'" unfolding iv.everywhere_def using assms(2) by (intro UN_mono) auto
  with assms(1,3,4) show ?thesis unfolding iv.explains_def by fastforce
qed

interpretation ib: message_box ib_wf ib_waiting ib_leaving ib_told_mids msg_mid "ib_hold ct" "ib_undelivered ct"
    ib_delivered "ib_resume ct" ib_settle for ct
proof (unfold_locales, goal_cases)
  case (1 b sid m now)
  with expire_thins [OF 1, of ct now "Some sid"] expire_told_waited [OF 1, of ct now "Some sid"] hold_view(4) [OF iv.box_okD(1) [OF 1]] show ?case
    unfolding iv.joins_def by (intro exI [of _ "ib_expire ct now (Some sid) b"]) (simp add: hold_view(1-3), simp add: ib_leaving_def)
next
  case (2 b sid now)
  then show ?case by (simp add: ib_undelivered_def Let_def expire_thins)
next
  case (3 b s sid now)
  then show ?case using ib_expire_facts(1) [of b ct now "Some sid" s]
    by (simp add: ib_undelivered_def Let_def ib_waiting_def iv.box_ok_def ib_wf_def sweeps_def)
next
  case (4 b sid now)
  then show ?case by (simp add: ib_undelivered_def Let_def ib_waiting_def)
next
  case (5 b sid mids)
  then show ?case by (rule delivered_thins_ib)
next
  case (6 b sid mids)
  then show ?case by (auto simp: delivered_view)
next
  case (7 b t)
  then show ?case by (rule resume_thins_ib)
qed (auto simp: ib_settle_def ib_land_def ib_fail_def ib_views fun_eq_iff split: list.splits)

interpretation ibt: telling_box ib_wf ib_waiting ib_leaving ib_told_mids msg_mid "ib_hold ct" "ib_undelivered ct"
    ib_delivered "ib_resume ct" ib_settle ib_sound for ct
proof (unfold_locales, goal_cases)
  case (1 b sid m now)
  then show ?case by (auto simp: ib_sound_def ib_hold_def ib_append_def Let_def)
next
  case (2 b sid now)
  then show ?case by (simp add: ib_sound_def ib_undelivered_def Let_def)
next
  case (3 b sid mids)
  then show ?case by (auto simp: ib_sound_def ib_delivered_def ib_delivered_fold split: option.splits)
next
  case (4 b t)
  then show ?case by (rule ib_sound_resume)
next
  case (5 b)
  then show ?case by (simp add: ib_settle_def ib_land_def ib_sound_def split: list.splits prod.splits)
next
  case (6 b sid m now)
  from expire_explains [OF 6(1), of ct now "Some sid"] show ?case
    by (rule explains_same) (auto simp: hold_view(1-3), simp add: ib_leaving_def)
next
  case (7 b sid now)
  then show ?case by (simp add: ib_undelivered_def Let_def expire_explains)
next
  case (8 b sid mids)
  let ?n = "if map_of (ib_held b) sid = None then [] else mids"
  have "x \<in> iv.everywhere (ib_delivered sid mids b) \<union> set ?n" if x: "x \<in> set (ib_waiting b s)" for x s
  proof (cases "x \<in> set (ib_waiting (ib_delivered sid mids b) s)")
    case True
    then show ?thesis using iv.in_everywhere by blast
  next
    case False
    with x have "s = sid" "x \<in> set mids" by (auto simp: delivered_view split: if_splits)
    with x show ?thesis by (auto simp: ib_waiting_def held_for_None)
  qed
  then have "iv.everywhere b \<subseteq> iv.everywhere (ib_delivered sid mids b) \<union> set ?n" unfolding iv.everywhere_def [of b] by blast
  then show ?case unfolding iv.explains_def
    by (intro exI [of _ ?n]) (auto simp: delivered_view)
next
  case (9 b t)
  then show ?case by (rule resume_explains_ib)
qed

end
