(* ===== verification/Notify.thy ===== *)
theory Notify
  imports Topics
begin

text \<open>
  \<open>src/messaging/notify.ts\<close>: the topic \<open>notify\<close> and the three ops that speak on it. What the
  object is given (the label of a session, whether two processes run it, the publish of the topics)
  is the record \<open>notify_deps\<close>; every frame handed to \<open>publish\<close> is recorded with the outcome it
  had. The clock is an argument.
\<close>

section \<open>State and operations\<close>

record notification =
  nt_sid :: sid
  nt_sid_label :: string
  nt_text :: string
  nt_reply_to :: "mid option"
  nt_sent_at :: timestamp

record notify_deps =
  nd_self :: instance_id
  nd_label :: "sid \<Rightarrow> string"
  nd_publish :: "topic_name \<Rightarrow> notification \<Rightarrow> instance_id \<Rightarrow> publish_outcome"
  nd_duplicated :: "sid \<Rightarrow> bool"

record notify =
  nf_unread :: "sid list"
  nf_published :: "(topic_name \<times> notification \<times> instance_id \<times> publish_outcome) list"

definition Notify :: notify where
  "Notify = \<lparr>nf_unread = [], nf_published = []\<rparr>"

record notify_send_args =
  ns_sid :: "sid option"
  ns_text :: string
  ns_reply_to :: "mid option"

type_synonym greeted = "(role \<times> sid option) option"

definition nf_caller :: "greeted \<Rightarrow> op_error + sid" where
  "nf_caller identity =
     (case Option.bind identity snd of
        None \<Rightarrow> Inl (''bad_request'', ''a notification is about a session, and this names none'')
      | Some sid \<Rightarrow> Inr sid)"

definition nf_announce :: "notify_deps \<Rightarrow> sid \<Rightarrow> string \<Rightarrow> timestamp \<Rightarrow> mid option \<Rightarrow> notify \<Rightarrow> (op_error + timestamp) \<times> notify" where
  "nf_announce deps sid words now reply_to n =
     (let notification = \<lparr>nt_sid = sid, nt_sid_label = nd_label deps sid, nt_text = words, nt_reply_to = reply_to, nt_sent_at = now\<rparr>;
          outcome = nd_publish deps ''notify'' notification (nd_self deps);
          n' = n\<lparr>nf_published := nf_published n @ [(''notify'', notification, nd_self deps, outcome)]\<rparr>
      in (if outcome = RateLimited
          then Inl (''rate_limited'', ''a watcher is behind on this topic; the notification was not taken'')
          else Inr now, n'))"

definition nf_send :: "notify_deps \<Rightarrow> timestamp \<Rightarrow> greeted \<Rightarrow> notify_send_args \<Rightarrow> notify \<Rightarrow> (op_error + unit) \<times> notify" where
  "nf_send deps now identity args n =
     (case (case ns_sid args of Some sid \<Rightarrow> Inr sid | None \<Rightarrow> nf_caller identity) of
        Inl e \<Rightarrow> (Inl e, n)
      | Inr sid \<Rightarrow>
          if nd_duplicated deps sid then
            (Inl (''session_duplicated'',
               sid @ '' is being run by more than one process, so what this would say about it is not settled''), n)
          else
            (case nf_announce deps sid (ns_text args) now (ns_reply_to args) n of
               (Inl e, n') \<Rightarrow> (Inl e, n')
             | (Inr _, n') \<Rightarrow> (Inr (), n')))"

definition nf_post :: "notify_deps \<Rightarrow> timestamp \<Rightarrow> greeted \<Rightarrow> string \<Rightarrow> notify \<Rightarrow> (op_error + timestamp) \<times> notify" where
  "nf_post deps now identity words n =
     (case nf_caller identity of
        Inl e \<Rightarrow> (Inl e, n)
      | Inr sid \<Rightarrow>
          (case nf_announce deps sid words now None n of
             (Inl e, n') \<Rightarrow> (Inl e, n')
           | (Inr posted_at, n') \<Rightarrow> (Inr posted_at, n'\<lparr>nf_unread := set_add sid (nf_unread n')\<rparr>)))"

definition nf_markRead :: "sid option \<Rightarrow> notify \<Rightarrow> notify" where
  "nf_markRead sid n =
     (case sid of
        None \<Rightarrow> n\<lparr>nf_unread := []\<rparr>
      | Some s \<Rightarrow> n\<lparr>nf_unread := set_del s (nf_unread n)\<rparr>)"

definition nf_snapshot :: "(instance_id \<times> notification) list" where
  "nf_snapshot = []"

section \<open>The unread marks are the posts that were taken and not heard\<close>

datatype notify_event =
    NSend notify_deps timestamp greeted notify_send_args
  | NPost notify_deps timestamp greeted string
  | NMarkRead "sid option"

fun nf_step :: "notify \<Rightarrow> notify_event \<Rightarrow> notify" where
  "nf_step n (NSend deps now identity args) = snd (nf_send deps now identity args n)"
| "nf_step n (NPost deps now identity words) = snd (nf_post deps now identity words n)"
| "nf_step n (NMarkRead sid) = nf_markRead sid n"

text \<open>What an event says about one session's mark: raised, cleared, or nothing.\<close>

fun mark_said :: "sid \<Rightarrow> notify_event \<Rightarrow> bool option" where
  "mark_said s (NSend deps now identity args) = None"
| "mark_said s (NPost deps now identity words) =
     (if identity \<noteq> None \<and> snd (the identity) = Some s
         \<and> nd_publish deps ''notify'' \<lparr>nt_sid = s, nt_sid_label = nd_label deps s, nt_text = words, nt_reply_to = None,
              nt_sent_at = now\<rparr> (nd_self deps) = PubOk
      then Some True else None)"
| "mark_said s (NMarkRead sid) = (if sid = None \<or> sid = Some s then Some False else None)"

definition last_mark :: "sid \<Rightarrow> notify_event list \<Rightarrow> bool" where
  "last_mark s evs = foldl (\<lambda>m e. case mark_said s e of None \<Rightarrow> m | Some b \<Rightarrow> b) False evs"

lemma nf_announce_unread [simp]: "nf_unread (snd (nf_announce deps sid words now r n)) = nf_unread n"
  by (simp add: nf_announce_def Let_def)

lemma nf_announce_ok:
  "(\<exists>t. fst (nf_announce deps sid words now r n) = Inr t) \<longleftrightarrow>
     nd_publish deps ''notify'' \<lparr>nt_sid = sid, nt_sid_label = nd_label deps sid, nt_text = words, nt_reply_to = r,
       nt_sent_at = now\<rparr> (nd_self deps) = PubOk"
  by (cases "nd_publish deps ''notify'' \<lparr>nt_sid = sid, nt_sid_label = nd_label deps sid, nt_text = words, nt_reply_to = r,
       nt_sent_at = now\<rparr> (nd_self deps)") (simp_all add: nf_announce_def Let_def)

lemma nf_send_unread: "nf_unread (snd (nf_send deps now identity args n)) = nf_unread n"
proof (cases "case ns_sid args of Some sid \<Rightarrow> Inr sid | None \<Rightarrow> nf_caller identity")
  case (Inr s)
  obtain a n' where an: "nf_announce deps s (ns_text args) now (ns_reply_to args) n = (a, n')"
    by (cases "nf_announce deps s (ns_text args) now (ns_reply_to args) n")
  then have "nf_unread n' = nf_unread n" using nf_announce_unread [of deps s "ns_text args" now "ns_reply_to args" n] by simp
  with Inr an show ?thesis by (cases a) (simp_all add: nf_send_def)
qed (simp add: nf_send_def)

lemma nf_post_unread:
  "nf_unread (snd (nf_post deps now identity words n)) =
     (case Option.bind identity snd of
        None \<Rightarrow> nf_unread n
      | Some s \<Rightarrow> if mark_said s (NPost deps now identity words) = Some True then set_add s (nf_unread n) else nf_unread n)"
proof (cases "Option.bind identity snd")
  case None
  then show ?thesis by (simp add: nf_post_def nf_caller_def)
next
  case (Some s)
  then have ident: "identity \<noteq> None" "snd (the identity) = Some s" by (cases identity; simp)+
  obtain a n' where an: "nf_announce deps s words now None n = (a, n')"
    by (cases "nf_announce deps s words now None n")
  then have "nf_unread n' = nf_unread n" using nf_announce_unread [of deps s words now None n] by simp
  with Some ident an nf_announce_ok [of deps s words now None n] show ?thesis
    by (cases a) (auto simp: nf_post_def nf_caller_def)
qed

lemma nf_step_unread:
  "set (nf_unread (nf_step n e)) = {s. case mark_said s e of None \<Rightarrow> s \<in> set (nf_unread n) | Some b \<Rightarrow> b}"
proof (cases e)
  case (NPost deps now identity words)
  show ?thesis
  proof (cases "Option.bind identity snd")
    case (Some s)
    then have "mark_said s' e = None" if "s' \<noteq> s" for s' using that by (cases identity) (auto simp: NPost)
    with Some nf_post_unread [of deps now identity words n] show ?thesis
      by (auto simp: NPost split: if_splits option.splits)
  next
    case None
    then have "mark_said s' e = None" for s' by (cases identity) (auto simp: NPost)
    with None nf_post_unread [of deps now identity words n] show ?thesis by (simp add: NPost)
  qed
qed (auto simp: nf_send_unread nf_markRead_def split: option.splits)

text \<open>
  A session is marked unread exactly when the last thing that happened to its mark is a
  \<open>say.post\<close> of its own that the topic took: a post a watcher was too slow for raises nothing, a
  notification somebody else sends about it raises nothing, and a clear naming it (or naming
  nobody) takes the mark away.
\<close>

theorem unread_is_the_last_post_taken:
  "set (nf_unread (foldl nf_step Notify evs)) = {s. last_mark s evs}"
proof (induction evs rule: rev_induct)
  case Nil
  then show ?case by (simp add: Notify_def last_mark_def)
next
  case (snoc e evs)
  have "s \<in> set (nf_unread (foldl nf_step Notify evs)) \<longleftrightarrow> last_mark s evs" for s using snoc by blast
  then show ?case by (simp add: nf_step_unread last_mark_def cong: option.case_cong)
qed

text \<open>Every error of the three ops is one the source names.\<close>

lemma nf_errors:
  "fst (nf_send deps now identity args n) = Inl e \<Longrightarrow> fst e \<in> {''bad_request'', ''session_duplicated'', ''rate_limited''}"
  "fst (nf_post deps now identity words n) = Inl e \<Longrightarrow> fst e \<in> {''bad_request'', ''rate_limited''}"
  by (auto simp: nf_send_def nf_post_def nf_announce_def nf_caller_def Let_def split: sum.splits prod.splits option.splits if_splits)

end
