(* ===== verification/Delivery.thy ===== *)
theory Delivery
  imports Boxes Notify
begin

text \<open>
  \<open>src/messaging/delivery.ts\<close>: \<open>message.send\<close>, the offers over route (a), the inbox topic.

  \<open>send\<close> and \<open>#offer\<close> are asynchronous: each wait (for the mesh, for route (a), for a line of the
  inbox) ends a step, and what the call was waiting for is kept in \<open>dl_calls\<close> and \<open>dl_offers\<close> until
  an event settles it. So a run is a sequence of events in any order. What the sessions domain,
  the mesh and the topics answer at a step is the record \<open>dl_env\<close>, an argument of the step;
  \<open>de_listeners\<close> has, for each connection of the session that is subscribed to its inbox, whether the
  queue of that connection takes the frame, so that \<open>publish\<close> answers \<open>ok\<close> when all of them do.
  \<open>dl_handed\<close> records what reached a session: a message route (a) reported delivered, one the
  inbox topic took, or one in the snapshot of a session's subscription. \<open>dl_partly\<close> records what a publish
  handed to some of the session's connections while another refused it; \<open>dl_issued\<close> the messages made.
  Calls are numbered by \<open>dl_nextCall\<close>.
\<close>

section \<open>State\<close>

record message_body =
  mb_from :: string
  mb_from_label :: string
  mb_text :: string
  mb_reply_to :: "mid option"

type_synonym inbox_message = "message_body message"

record peer_info =
  pe_sid :: sid
  pe_runs :: nat
  pe_repo :: string
  pe_ws :: string
  pe_repo_root :: "string option"
  pe_instance :: instance_id

text \<open>From the contract package: where a row's session stands, and the sender a person is named by.\<close>

record messaging_contract =
  liveness :: "peer_info \<Rightarrow> timestamp \<Rightarrow> string"
  USER_SENDER :: string

record mesh_reach =
  mr_ownerOf :: "sid \<Rightarrow> instance_id option"
  mr_anyUnreachable :: bool

record dl_env =
  de_now :: timestamp
  de_row :: "sid \<Rightarrow> peer_info option"
  de_peerRows :: "peer_info list"
  de_mesh :: "mesh_reach option"
  de_listeners :: "sid \<Rightarrow> bool list"

datatype direct_outcome = DirectDelivered | DirectUnavailable | DirectRefused | DirectThrew

datatype undelivered_reason = Throttled | InboxFull | Paused | Disappeared | Preparing | InstanceUnreachable

record candidate =
  cd_sid :: sid
  cd_ws :: "string option"
  cd_instance :: instance_id

datatype send_answer =
    SentDelivered
  | SentWaiting undelivered_reason "candidate list"
  | SentElsewhere "(string \<times> json) list"
  | SentRefused op_error
  | SentFailed

record send_args =
  sa_to :: sid
  sa_text :: string
  sa_reply_to :: "mid option"

text \<open>What a \<open>send\<close> says once its message is held.\<close>

datatype after_hold = SayThrottled | SayWhere peer_info

datatype send_call =
    CallDirect sid inbox_message peer_info
  | CallForward instance_id
  | CallHold sid nat after_hold
  | CallOffer sid

datatype offer_phase =
    OfferSending inbox_message "inbox_message list"
  | OfferWriting "nat option" "inbox_message list"

datatype inbox_data =
    InboxMessages "(inbox_message \<times> sid option) list"
  | InboxRemoved "(mid \<times> removed_reason) list"

record delivery =
  dl_self :: instance_id
  dl_counter :: nat
  dl_offering :: "sid list"
  dl_claimed :: "(sid, mid list) js_map"
  dl_inbox :: "message_body inbox"
  dl_published :: "(audience \<times> inbox_data) list"
  dl_calls :: "(nat, send_call) js_map"
  dl_offers :: "(sid, offer_phase \<times> nat option) js_map"
  dl_answers :: "(nat \<times> send_answer) list"
  dl_forwarded :: "(nat \<times> instance_id \<times> send_args \<times> caller_identity option) list"
  dl_handed :: "mid list"
  dl_partly :: "mid list"
  dl_issued :: "(sid \<times> inbox_message) list"
  dl_nextCall :: nat

definition Delivery :: "instance_id \<Rightarrow> message_body inbox \<Rightarrow> delivery" where
  "Delivery self inbox =
     \<lparr>dl_self = self, dl_counter = ib_lastCounter (self @ ''/'') inbox, dl_offering = [], dl_claimed = [],
      dl_inbox = inbox, dl_published = [], dl_calls = [], dl_offers = [], dl_answers = [], dl_forwarded = [],
      dl_handed = [], dl_partly = [], dl_issued = [], dl_nextCall = 0\<rparr>"

section \<open>What the watchers are told\<close>

definition dl_publish :: "audience \<Rightarrow> inbox_data \<Rightarrow> delivery \<Rightarrow> delivery" where
  "dl_publish to data d = d\<lparr>dl_published := dl_published d @ [(to, data)]\<rparr>"

definition dl_watchers :: "sid \<Rightarrow> inbox_message list \<Rightarrow> delivery \<Rightarrow> delivery" where
  "dl_watchers to messages d =
     (if messages = [] then d else dl_publish People (InboxMessages (map (\<lambda>m. (m, Some to)) messages)) d)"

definition dl_removed :: "mid list \<Rightarrow> removed_reason \<Rightarrow> delivery \<Rightarrow> delivery" where
  "dl_removed mids reason d =
     (if mids = [] then d else dl_publish People (InboxRemoved (map (\<lambda>mid. (mid, reason)) mids)) d)"

text \<open>The inbox after one of its operations: every removal it announced on the way was passed on
  by the listener the constructor registered.\<close>

definition dl_box :: "message_body inbox \<Rightarrow> delivery \<Rightarrow> delivery" where
  "dl_box b d =
     fold (\<lambda>(mid, reason). dl_removed [mid] reason) (drop (length (ib_told (dl_inbox d))) (ib_told b)) (d\<lparr>dl_inbox := b\<rparr>)"

section \<open>Labels, senders, candidates\<close>

definition sessionLabel :: "peer_info list \<Rightarrow> sid \<Rightarrow> string" where
  "sessionLabel peerRows sid =
     (case find (\<lambda>row. pe_sid row = sid) peerRows of
        None \<Rightarrow> sid
      | Some peer \<Rightarrow>
          let place = join ''/'' (filter (\<lambda>part. part \<noteq> []) [pe_repo peer, pe_ws peer])
          in if place = [] then sid else place)"

definition dl_label :: "messaging_contract \<Rightarrow> dl_env \<Rightarrow> string \<Rightarrow> string" where
  "dl_label mc env sender = (if sender = USER_SENDER mc then USER_SENDER mc else sessionLabel (de_peerRows env) sender)"

definition dl_sender :: "messaging_contract \<Rightarrow> greeted \<Rightarrow> op_error + string" where
  "dl_sender mc identity =
     (case identity of
        None \<Rightarrow> Inl (''bad_request'', ''a message is sent by a greeting, and this one made none'')
      | Some (role, sid) \<Rightarrow> Inr (case sid of Some s \<Rightarrow> s | None \<Rightarrow> USER_SENDER mc))"

definition dl_callerOf :: "greeted \<Rightarrow> caller_identity option" where
  "dl_callerOf identity = map_option (\<lambda>(role, sid). \<lparr>ci_role = role, ci_sid = sid\<rparr>) identity"

definition dl_mid :: "delivery \<Rightarrow> mid \<times> delivery" where
  "dl_mid d = (dl_self d @ ''/'' @ show_nat (dl_counter d + 1), d\<lparr>dl_counter := dl_counter d + 1\<rparr>)"

definition dl_message :: "messaging_contract \<Rightarrow> dl_env \<Rightarrow> send_args \<Rightarrow> string \<Rightarrow> delivery \<Rightarrow> inbox_message \<times> delivery" where
  "dl_message mc env args sender d =
     (let (mid, d') = dl_mid d in
      (\<lparr>msg_mid = mid, msg_sent_at = de_now env,
        msg_body = \<lparr>mb_from = sender, mb_from_label = dl_label mc env sender, mb_text = sa_text args,
                    mb_reply_to = sa_reply_to args\<rparr>\<rparr>, d'))"

definition dl_candidates :: "messaging_contract \<Rightarrow> dl_env \<Rightarrow> sid \<Rightarrow> candidate list" where
  "dl_candidates mc env to =
     (case Option.bind (find (\<lambda>row. pe_sid row = to) (de_peerRows env)) pe_repo_root of
        None \<Rightarrow> []
      | Some root \<Rightarrow>
          map (\<lambda>peer. \<lparr>cd_sid = pe_sid peer, cd_ws = (if pe_ws peer = [] then None else Some (pe_ws peer)),
                       cd_instance = pe_instance peer\<rparr>)
            (filter (\<lambda>peer. pe_sid peer \<noteq> to \<and> pe_repo_root peer = Some root \<and> liveness mc peer (de_now env) = ''alive'')
               (de_peerRows env)))"

definition dl_reason :: "messaging_contract \<Rightarrow> dl_env \<Rightarrow> peer_info \<Rightarrow> undelivered_reason" where
  "dl_reason mc env row =
     (let stands = liveness mc row (de_now env) in
      if stands = ''paused'' then Paused else if stands = ''disappeared'' then Disappeared else Preparing)"

definition dl_undelivered :: "messaging_contract \<Rightarrow> dl_env \<Rightarrow> sid \<Rightarrow> undelivered_reason \<Rightarrow> send_answer" where
  "dl_undelivered mc env to reason =
     (if reason \<noteq> Paused \<and> reason \<noteq> Disappeared then SentWaiting reason []
      else SentWaiting reason (dl_candidates mc env to))"

section \<open>Offers\<close>

definition dl_answer :: "nat \<Rightarrow> send_answer \<Rightarrow> delivery \<Rightarrow> delivery" where
  "dl_answer call a d = d\<lparr>dl_calls := map_del call (dl_calls d), dl_answers := dl_answers d @ [(call, a)]\<rparr>"

text \<open>\<open>#offer\<close> up to its first wait: whether it is running now.\<close>

definition dl_offer :: "contract \<Rightarrow> timestamp \<Rightarrow> sid \<Rightarrow> nat option \<Rightarrow> delivery \<Rightarrow> bool \<times> delivery" where
  "dl_offer ct now to caller d =
     (if to \<in> set (dl_offering d) then (False, d)
      else case ib_undelivered ct to now (dl_inbox d) of
        (held, b) \<Rightarrow>
          let d1 = dl_box b d in
          (case held of
             [] \<Rightarrow> (False, d1)
           | message # rest \<Rightarrow>
               (True, d1\<lparr>dl_offering := set_add to (dl_offering d1),
                         dl_claimed := map_set to (map msg_mid held) (dl_claimed d1),
                         dl_offers := map_set to (OfferSending message rest, caller) (dl_offers d1)\<rparr>)))"

text \<open>The \<open>finally\<close>, and what the call that waited is answered.\<close>

definition dl_offer_end :: "sid \<Rightarrow> bool \<Rightarrow> nat option \<Rightarrow> delivery \<Rightarrow> delivery" where
  "dl_offer_end to ok caller d =
     (let d1 = d\<lparr>dl_claimed := map_del to (dl_claimed d), dl_offering := set_del to (dl_offering d),
                 dl_offers := map_del to (dl_offers d)\<rparr>
      in case caller of None \<Rightarrow> d1 | Some call \<Rightarrow> dl_answer call (if ok then SentDelivered else SentFailed) d1)"

definition dl_offer_sent :: "sid \<Rightarrow> direct_outcome \<Rightarrow> delivery \<Rightarrow> delivery" where
  "dl_offer_sent to outcome d =
     (case map_of (dl_offers d) to of
        Some (OfferSending message rest, caller) \<Rightarrow>
          if outcome = DirectDelivered then
            let b = ib_delivered to [msg_mid message] (dl_inbox d);
                ticket = (if ib_next b = ib_next (dl_inbox d) then None else Some (ib_next (dl_inbox d)));
                d1 = dl_box b (d\<lparr>dl_claimed := (case map_of (dl_claimed d) to of
                                                  None \<Rightarrow> dl_claimed d
                                                | Some c \<Rightarrow> map_set to (set_del (msg_mid message) c) (dl_claimed d)),
                                dl_handed := dl_handed d @ [msg_mid message]\<rparr>)
            in d1\<lparr>dl_offers := map_set to (OfferWriting ticket rest, caller) (dl_offers d1)\<rparr>
          else dl_offer_end to (outcome \<noteq> DirectThrew) caller d
      | _ \<Rightarrow> d)"

definition dl_offer_written :: "sid \<Rightarrow> delivery \<Rightarrow> delivery" where
  "dl_offer_written to d =
     (case map_of (dl_offers d) to of
        Some (OfferWriting ticket rest, caller) \<Rightarrow>
          (case (case ticket of None \<Rightarrow> Some Landed | Some t \<Rightarrow> map_of (ib_settled (dl_inbox d)) t) of
             None \<Rightarrow> d
           | Some Failed \<Rightarrow> dl_offer_end to False caller d
           | Some Landed \<Rightarrow>
               (case rest of
                  [] \<Rightarrow> dl_offer_end to True caller d
                | message # rest' \<Rightarrow> d\<lparr>dl_offers := map_set to (OfferSending message rest', caller) (dl_offers d)\<rparr>))
      | _ \<Rightarrow> d)"

fun dl_retry_over :: "contract \<Rightarrow> messaging_contract \<Rightarrow> dl_env \<Rightarrow> sid list \<Rightarrow> delivery \<Rightarrow> delivery" where
  "dl_retry_over ct mc env [] d = d"
| "dl_retry_over ct mc env (sid # sids) d =
     dl_retry_over ct mc env sids
       (case de_row env sid of
          None \<Rightarrow> d
        | Some row \<Rightarrow> if liveness mc row (de_now env) \<noteq> ''alive'' then d else snd (dl_offer ct (de_now env) sid None d))"

definition dl_retry :: "contract \<Rightarrow> messaging_contract \<Rightarrow> dl_env \<Rightarrow> delivery \<Rightarrow> delivery" where
  "dl_retry ct mc env d = dl_retry_over ct mc env (ib_sids (dl_inbox d)) d"

section \<open>message.send\<close>

definition dl_hold :: "contract \<Rightarrow> timestamp \<Rightarrow> nat \<Rightarrow> sid \<Rightarrow> inbox_message \<Rightarrow> after_hold \<Rightarrow> delivery \<Rightarrow> delivery" where
  "dl_hold ct now call to message after d =
     (let d1 = dl_watchers to [message] d;
          d2 = dl_box (ib_hold ct to message now (dl_inbox d1)) d1
      in d2\<lparr>dl_calls := map_set call (CallHold to (ib_next (dl_inbox d)) after) (dl_calls d2)\<rparr>)"

definition dl_elsewhere :: "dl_env \<Rightarrow> nat \<Rightarrow> send_args \<Rightarrow> greeted \<Rightarrow> delivery \<Rightarrow> delivery" where
  "dl_elsewhere env call args identity d =
     (let unknown = dl_answer call (SentRefused (''session_not_found'', ''no session '' @ sa_to args)) d in
      case de_mesh env of
        None \<Rightarrow> unknown
      | Some reach \<Rightarrow>
          (case mr_ownerOf reach (sa_to args) of
             Some owner \<Rightarrow>
               if owner = dl_self d then
                 (if mr_anyUnreachable reach then dl_answer call (SentWaiting InstanceUnreachable []) d else unknown)
               else d\<lparr>dl_calls := map_set call (CallForward owner) (dl_calls d),
                      dl_forwarded := dl_forwarded d @ [(call, owner, args, dl_callerOf identity)]\<rparr>
           | None \<Rightarrow>
               if mr_anyUnreachable reach then dl_answer call (SentWaiting InstanceUnreachable []) d else unknown))"

text \<open>\<open>send\<close>, from the rows being read to the first wait after it.\<close>

definition dl_send :: "messaging_contract \<Rightarrow> dl_env \<Rightarrow> nat \<Rightarrow> send_args \<Rightarrow> greeted \<Rightarrow> delivery \<Rightarrow> delivery" where
  "dl_send mc env call args identity d =
     (let to = sa_to args in
      case de_row env to of
        None \<Rightarrow> dl_elsewhere env call args identity d
      | Some row \<Rightarrow>
          if 2 \<le> pe_runs row then
            dl_answer call (SentRefused (''session_duplicated'', to @ '' is being run by '' @ show_nat (pe_runs row)
              @ '' processes, so there is no one of them to hand this to'')) d
          else
            (case dl_sender mc identity of
               Inl e \<Rightarrow> dl_answer call (SentRefused e) d
             | Inr sender \<Rightarrow>
                 let (message, d1) = dl_message mc env args sender d
                 in d1\<lparr>dl_calls := map_set call (CallDirect to message row) (dl_calls d1),
                       dl_issued := dl_issued d1 @ [(to, message)]\<rparr>))"

text \<open>The owning instance answered.\<close>

definition dl_forward_answered :: "nat \<Rightarrow> dispatch_result \<Rightarrow> delivery \<Rightarrow> delivery" where
  "dl_forward_answered call answer d =
     (case map_of (dl_calls d) call of
        Some (CallForward owner) \<Rightarrow>
          dl_answer call
            (case answer of
               DReply members \<Rightarrow> SentElsewhere (filter (\<lambda>(k, v). k \<noteq> ''ok'' \<and> k \<noteq> ''request_id'') members)
             | DError e \<Rightarrow>
                 if er_code e = ''instance_unreachable'' then SentWaiting InstanceUnreachable []
                 else SentRefused (er_code e, er_msg e)
             | _ \<Rightarrow> SentRefused (''internal_error'', owner @ '' did not answer'')) d
      | _ \<Rightarrow> d)"

text \<open>Route (a) answered.\<close>

definition dl_routed :: "contract \<Rightarrow> dl_env \<Rightarrow> nat \<Rightarrow> direct_outcome \<Rightarrow> delivery \<Rightarrow> delivery" where
  "dl_routed ct env call outcome d =
     (case map_of (dl_calls d) call of
        Some (CallDirect to message row) \<Rightarrow>
          let now = de_now env in
          (case outcome of
             DirectDelivered \<Rightarrow>
               (let d0 = d\<lparr>dl_calls := map_set call (CallOffer to) (dl_calls d), dl_handed := dl_handed d @ [msg_mid message]\<rparr>
                in case dl_offer ct now to (Some call) d0 of
                     (running, d1) \<Rightarrow> if running then d1 else dl_answer call SentDelivered d1)
           | DirectRefused \<Rightarrow> dl_hold ct now call to message SayThrottled d
           | DirectThrew \<Rightarrow> dl_answer call SentFailed d
           | DirectUnavailable \<Rightarrow>
               if 0 < length (de_listeners env to) then
                 (let d1 = dl_publish (ToSession to) (InboxMessages [(message, None)]) d in
                  if list_all id (de_listeners env to) then
                    dl_answer call SentDelivered
                      (dl_removed [msg_mid message] Delivered
                        (dl_watchers to [message] (d1\<lparr>dl_handed := dl_handed d1 @ [msg_mid message]\<rparr>)))
                  else dl_hold ct now call to message SayThrottled
                    (if list_ex id (de_listeners env to) then d1\<lparr>dl_partly := dl_partly d1 @ [msg_mid message]\<rparr> else d1))
               else dl_hold ct now call to message (SayWhere row) d)
      | _ \<Rightarrow> d)"

text \<open>A line the message's \<open>hold\<close> waited for settled.\<close>

definition dl_hold_resumed :: "contract \<Rightarrow> messaging_contract \<Rightarrow> dl_env \<Rightarrow> nat \<Rightarrow> delivery \<Rightarrow> delivery" where
  "dl_hold_resumed ct mc env call d =
     (case map_of (dl_calls d) call of
        Some (CallHold to ticket after) \<Rightarrow>
          (case ib_resume ct ticket (dl_inbox d) of
             (answer, b) \<Rightarrow>
               let d1 = dl_box b d in
               (case answer of
                  Waiting \<Rightarrow>
                    if ib_next b = ib_next (dl_inbox d) then d1
                    else d1\<lparr>dl_calls := map_set call (CallHold to (ib_next (dl_inbox d)) after) (dl_calls d1)\<rparr>
                | HoldRejected \<Rightarrow> dl_answer call SentFailed d1
                | Held evicted \<Rightarrow>
                    (case after of
                       SayThrottled \<Rightarrow> dl_answer call (SentWaiting Throttled []) d1
                     | SayWhere row \<Rightarrow>
                         dl_answer call (dl_undelivered mc env to (if evicted then InboxFull else dl_reason mc env row)) d1)))
      | _ \<Rightarrow> d)"

section \<open>The inbox topic\<close>

fun dl_waiting :: "contract \<Rightarrow> timestamp \<Rightarrow> sid list \<Rightarrow> delivery \<Rightarrow> (inbox_message \<times> sid option) list \<times> delivery" where
  "dl_waiting ct now [] d = ([], d)"
| "dl_waiting ct now (sid # sids) d =
     (case ib_undelivered ct sid now (dl_inbox d) of
        (held, b) \<Rightarrow>
          (case dl_waiting ct now sids (dl_box b d) of
             (rows, d') \<Rightarrow> (map (\<lambda>m. (m, Some sid)) held @ rows, d')))"

definition dl_snapshot :: "contract \<Rightarrow> timestamp \<Rightarrow> topic_name \<Rightarrow> conn_identity \<Rightarrow> delivery \<Rightarrow>
    (instance_id \<times> (inbox_message \<times> sid option) list) list \<times> delivery" where
  "dl_snapshot ct now topic identity d =
     (case identity of
        Anonymous \<Rightarrow> ([], d)
      | Settled role s \<Rightarrow>
          if topic \<noteq> ''inbox'' then ([], d)
          else case s of
            None \<Rightarrow>
              (case dl_waiting ct now (ib_sids (dl_inbox d)) d of (rows, d') \<Rightarrow> ([(dl_self d, rows)], d'))
          | Some sid \<Rightarrow>
              (case ib_undelivered ct sid now (dl_inbox d) of
                 (all, b) \<Rightarrow>
                   let d1 = dl_box b d;
                       claimed = map_get_or [] (dl_claimed d1) sid;
                       held = filter (\<lambda>m. msg_mid m \<notin> set claimed) all;
                       mids = map msg_mid held;
                       d2 = dl_box (ib_delivered sid mids (dl_inbox d1)) d1
                   in ([(dl_self d, map (\<lambda>m. (m, None)) held)], d2\<lparr>dl_handed := dl_handed d2 @ mids\<rparr>)))"

section \<open>Runs\<close>

datatype dl_event =
    DlSend dl_env send_args greeted
  | DlForwardAnswered nat dispatch_result
  | DlRouted dl_env nat direct_outcome
  | DlHoldResumed dl_env nat
  | DlRetry dl_env
  | DlOfferSent sid direct_outcome
  | DlOfferWritten sid
  | DlSnapshot timestamp topic_name conn_identity
  | DlLine bool

fun dl_step :: "contract \<Rightarrow> messaging_contract \<Rightarrow> delivery \<Rightarrow> dl_event \<Rightarrow> delivery" where
  "dl_step ct mc d (DlSend env args identity) =
     dl_send mc env (dl_nextCall d) args identity (d\<lparr>dl_nextCall := dl_nextCall d + 1\<rparr>)"
| "dl_step ct mc d (DlForwardAnswered call answer) = dl_forward_answered call answer d"
| "dl_step ct mc d (DlRouted env call outcome) = dl_routed ct env call outcome d"
| "dl_step ct mc d (DlHoldResumed env call) = dl_hold_resumed ct mc env call d"
| "dl_step ct mc d (DlRetry env) = dl_retry ct mc env d"
| "dl_step ct mc d (DlOfferSent to outcome) = dl_offer_sent to outcome d"
| "dl_step ct mc d (DlOfferWritten to) = dl_offer_written to d"
| "dl_step ct mc d (DlSnapshot now topic identity) = snd (dl_snapshot ct now topic identity d)"
| "dl_step ct mc d (DlLine ok) = d\<lparr>dl_inbox := ib_settle ok (dl_inbox d)\<rparr>"

section \<open>One message goes out once\<close>

text \<open>
  Where the messages are: in the inbox, with a \<open>send\<close> that waits for route (a) (\<open>P\<close>), in the list of an
  offer that runs (\<open>F\<close>, within the claims \<open>C\<close>), handed over (\<open>H\<close>), or not made yet (\<open>N\<close>).
\<close>

definition once :: "message_body inbox \<Rightarrow> (nat \<Rightarrow> mid option) \<Rightarrow> (sid \<Rightarrow> mid list) \<Rightarrow> (sid \<Rightarrow> mid list) \<Rightarrow> mid list \<Rightarrow>
    (mid \<Rightarrow> bool) \<Rightarrow> bool" where
  "once B P F C H N \<longleftrightarrow> iv.box_ok B \<and> distinct H \<and> set H \<inter> iv.everywhere B = {}
     \<and> (\<forall>c x. P c = Some x \<longrightarrow> x \<notin> iv.everywhere B \<and> x \<notin> ib_leaving B \<and> x \<notin> set H \<and> (\<forall>to. x \<notin> set (F to))
           \<and> (\<forall>c'. P c' = Some x \<longrightarrow> c' = c))
     \<and> (\<forall>to. distinct (F to) \<and> set (F to) \<inter> set H = {} \<and> set (F to) \<subseteq> set (C to))
     \<and> (\<forall>to s x. x \<in> set (F to) \<longrightarrow> s \<noteq> to \<longrightarrow> x \<notin> set (ib_waiting B s) \<and> x \<notin> set (F s))
     \<and> (\<forall>x. N x \<longrightarrow> x \<notin> iv.everywhere B \<and> x \<notin> ib_leaving B \<and> x \<notin> set H \<and> (\<forall>to. x \<notin> set (F to)) \<and> (\<forall>c. P c \<noteq> Some x))"

lemma onceD:
  assumes "once B P F C H N"
  shows "iv.box_ok B" "distinct H" "x \<in> set H \<Longrightarrow> x \<notin> iv.everywhere B"
    "P c = Some x \<Longrightarrow> x \<notin> iv.everywhere B" "P c = Some x \<Longrightarrow> x \<notin> ib_leaving B" "P c = Some x \<Longrightarrow> x \<notin> set H"
    "P c = Some x \<Longrightarrow> x \<notin> set (F to)" "P c = Some x \<Longrightarrow> P c' = Some x \<Longrightarrow> c' = c"
    "distinct (F to)" "x \<in> set (F to) \<Longrightarrow> x \<notin> set H" "x \<in> set (F to) \<Longrightarrow> x \<in> set (C to)"
    "x \<in> set (F to) \<Longrightarrow> s \<noteq> to \<Longrightarrow> x \<notin> set (ib_waiting B s)" "x \<in> set (F to) \<Longrightarrow> s \<noteq> to \<Longrightarrow> x \<notin> set (F s)"
    "N x \<Longrightarrow> x \<notin> iv.everywhere B" "N x \<Longrightarrow> x \<notin> ib_leaving B" "N x \<Longrightarrow> x \<notin> set H" "N x \<Longrightarrow> x \<notin> set (F to)"
    "N x \<Longrightarrow> P c \<noteq> Some x"
  using assms unfolding once_def by blast+

lemma onceI:
  assumes "iv.box_ok B" "distinct H" "\<And>x. x \<in> set H \<Longrightarrow> x \<notin> iv.everywhere B"
    "\<And>c x to. P c = Some x \<Longrightarrow> x \<notin> iv.everywhere B \<and> x \<notin> ib_leaving B \<and> x \<notin> set H \<and> x \<notin> set (F to)"
    "\<And>c c' x. P c = Some x \<Longrightarrow> P c' = Some x \<Longrightarrow> c' = c"
    "\<And>to. distinct (F to)" "\<And>x to. x \<in> set (F to) \<Longrightarrow> x \<notin> set H \<and> x \<in> set (C to)"
    "\<And>x to s. x \<in> set (F to) \<Longrightarrow> s \<noteq> to \<Longrightarrow> x \<notin> set (ib_waiting B s) \<and> x \<notin> set (F s)"
    "\<And>x to c. N x \<Longrightarrow> x \<notin> iv.everywhere B \<and> x \<notin> ib_leaving B \<and> x \<notin> set H \<and> x \<notin> set (F to) \<and> P c \<noteq> Some x"
  shows "once B P F C H N"
  unfolding once_def using assms by (simp add: disjoint_iff subset_iff)

lemma once_thins:
  assumes o: "once B P F C H N" and t: "iv.thins B B'"
  shows "once B' P F C H N"
proof -
  have e: "iv.everywhere B' \<subseteq> iv.everywhere B" by (rule iv.thins_everywhere [OF t])
  have l: "ib_leaving B' \<subseteq> ib_leaving B \<union> iv.everywhere B" and w: "\<And>s. set (ib_waiting B' s) \<subseteq> set (ib_waiting B s)"
    using t by (auto simp: iv.thins_def)
  show ?thesis
  proof (rule onceI, goal_cases)
    case (9 x to c)
    then show ?case using onceD(14-18) [OF o 9] e l by blast
  next
    case (4 c x to)
    then show ?case using onceD(4-7) [OF o 4] e l by blast
  next
    case (8 x to s)
    then show ?case using onceD(12,13) [OF o 8] w by blast
  qed (use onceD(2,3,8-11) [OF o] e iv.thins_ok [OF onceD(1) [OF o] t] in blast)+
qed

lemma once_joins:
  assumes o: "once B P F C H N" and c: "P c = Some x" and j: "iv.joins to x B B'"
  shows "once B' (P(c := None)) F C H N"
proof -
  from j obtain B0 where t: "iv.thins B B0" and i: "ib_wf B'"
    and w: "ib_waiting B' = (ib_waiting B0)(to := ib_waiting B0 to @ [x])" and l: "ib_leaving B' = ib_leaving B0"
    by (auto simp: iv.joins_def)
  have o0: "once B0 P F C H N" by (rule once_thins [OF o t])
  have ok: "iv.box_ok B'" by (rule iv.joins_ok [OF onceD(1) [OF o] j onceD(4,5) [OF o c]])
  have e: "iv.everywhere B' = insert x (iv.everywhere B0)" by (auto simp: iv.everywhere_def w split: if_splits)
  have "y \<noteq> x" if "(P(c := None)) c' = Some y" for c' y using that onceD(8) [OF o c] by (auto split: if_splits)
  moreover have "N y \<Longrightarrow> y \<noteq> x" for y using onceD(18) [OF o] c by blast
  moreover have "x \<notin> set (F s)" for s by (rule onceD(7) [OF o c])
  moreover have "x \<notin> set H" by (rule onceD(6) [OF o c])
  ultimately show ?thesis using o0 ok unfolding once_def e l w by (auto split: if_splits)
qed

lemma once_drop_pending: "once B P F C H N \<Longrightarrow> once B (P(c := None)) F C H N"
  unfolding once_def by (auto split: if_splits)

lemma once_hand_pending:
  assumes o: "once B P F C H N" and c: "P c = Some x"
  shows "once B (P(c := None)) F C (H @ [x]) N"
proof -
  note x = onceD(4,6,7,8) [OF o c]
  have "N y \<Longrightarrow> y \<noteq> x" for y using onceD(18) [OF o] c by blast
  with o x show ?thesis unfolding once_def by (auto split: if_splits)
qed

lemma once_new_pending:
  assumes o: "once B P F C H N" and c: "P c = None" and x: "N x" and n: "\<And>y. N' y \<Longrightarrow> N y \<and> y \<noteq> x"
  shows "once B (P(c := Some x)) F C H N'"
proof -
  note f = onceD(14-18) [OF o x]
  from o f n c show ?thesis unfolding once_def by (auto split: if_splits)
qed

lemma once_offer_start:
  assumes o: "once B P F C H N"
  shows "once B P (F(to := ib_waiting B to)) (C(to := ib_waiting B to)) H N"
proof -
  have ok: "iv.box_ok B" by (rule onceD(1) [OF o])
  note e = iv.in_everywhere [of _ B to] and D = onceD [OF o] and W = iv.box_okD(2,3) [OF ok]
  show ?thesis
  proof (rule onceI, goal_cases)
    case (8 x to' s)
    then show ?case using D(12,13) [of x] W(2) [of to s x] W(2) [of s to x] by (auto split: if_splits)
  next
    case (4 c x s)
    then show ?case using D(4-7) [of c x] e [of x] by auto
  next
    case (7 x s)
    then show ?case using D(3) [of x] D(10,11) [of x s] e [of x] by (auto split: if_splits)
  next
    case (9 x s c)
    then show ?case using D(14-18) [of x] e [of x] by auto
  qed (use D(1-3,8,9) W(1) in auto)
qed

lemma once_offer_end: "once B P F C H N \<Longrightarrow> once B P (F(to := [])) (C(to := ys)) H N"
  unfolding once_def by (auto split: if_splits)

lemma once_offer_hand:
  assumes o: "once B P F C H N" and f: "F to = x # r" and t: "iv.thins B B'" and g: "x \<notin> set (ib_waiting B' to)"
  shows "once B' P (F(to := r)) (C(to := set_del x (C to))) (H @ [x]) N"
proof -
  have o': "once B' P F C H N" by (rule once_thins [OF o t])
  have x: "x \<in> set (F to)" by (simp add: f)
  have d: "x \<notin> set r" "distinct r" using onceD(9) [OF o, of to] by (auto simp: f)
  have "x \<notin> set (ib_waiting B' s)" for s by (cases "s = to") (simp_all add: g onceD(12) [OF o' x])
  then have X1: "x \<notin> iv.everywhere B'" by (auto simp: iv.everywhere_def)
  have X2: "x \<notin> set H" by (rule onceD(10) [OF o x])
  have X3: "P c \<noteq> Some x" for c using onceD(7) [OF o, of c x to] x by blast
  have X4: "\<not> N x" using onceD(17) [OF o] x by blast
  have X5: "s \<noteq> to \<Longrightarrow> x \<notin> set (F s)" for s by (rule onceD(13) [OF o x])
  have X6: "y \<in> set r \<Longrightarrow> y \<in> set (C to)" for y using onceD(11) [OF o, of y to] by (simp add: f)
  note D = onceD [OF o']
  have sub: "y \<in> set ((F(to := r)) s) \<Longrightarrow> y \<in> set (F s) \<and> y \<noteq> x" for y s using d X5 [of s] by (auto simp: f split: if_splits)
  show ?thesis
  proof (rule onceI, goal_cases)
    case (7 y s)
    then show ?case using sub [OF 7] D(10,11) [of y s] X6 [of y] by auto
  next
    case (8 y s u)
    then show ?case using sub [OF 8(1)] sub [of y u] D(12,13) [of y s u] by blast
  next
    case (9 y s c)
    then show ?case using D(14-18) [OF 9] X4 sub [of y s] by auto
  next
    case (4 c y s)
    then show ?case using D(4-7) [OF 4] X3 sub [of y s] by auto
  qed (use D(1-3,8,9) X1 X2 d in \<open>auto simp: f\<close>)
qed

lemma once_snapshot:
  assumes o: "once B P F C H N" and m: "distinct mids" "set mids \<subseteq> iv.everywhere B" and t: "iv.thins B B'"
    and g: "set mids \<inter> iv.everywhere B' = {}" and f: "\<And>to. set mids \<inter> set (F to) = {}"
  shows "once B' P F C (H @ mids) N"
proof -
  have o': "once B' P F C H N" by (rule once_thins [OF o t])
  have "x \<notin> set H" if "x \<in> set mids" for x using onceD(3) [OF o] m(2) that by blast
  moreover have "P c \<noteq> Some x" if "x \<in> set mids" for c x using onceD(4) [OF o] m(2) that by blast
  moreover have "\<not> N x" if "x \<in> set mids" for x using onceD(14) [OF o] m(2) that by blast
  ultimately show ?thesis using o' m(1) g f unfolding once_def by (auto simp: disjoint_iff)
qed

text \<open>The same, read off the state.\<close>

definition direct_of :: "(nat, send_call) js_map \<Rightarrow> nat \<Rightarrow> mid option" where
  "direct_of calls c = (case map_of calls c of Some (CallDirect to m row) \<Rightarrow> Some (msg_mid m) | _ \<Rightarrow> None)"

fun offered :: "offer_phase \<Rightarrow> mid list" where
  "offered (OfferSending m rest) = msg_mid m # map msg_mid rest"
| "offered (OfferWriting t rest) = map msg_mid rest"

definition offered_to :: "(sid, offer_phase \<times> nat option) js_map \<Rightarrow> sid \<Rightarrow> mid list" where
  "offered_to offers to = (case map_of offers to of None \<Rightarrow> [] | Some (p, caller) \<Rightarrow> offered p)"

definition unissued :: "instance_id \<Rightarrow> nat \<Rightarrow> mid \<Rightarrow> bool" where
  "unissued self counter x \<longleftrightarrow> (\<exists>k>counter. x = self @ ''/'' @ show_nat k)"

definition dl_once :: "delivery \<Rightarrow> bool" where
  "dl_once d \<longleftrightarrow> once (dl_inbox d) (direct_of (dl_calls d)) (offered_to (dl_offers d)) (map_get_or [] (dl_claimed d))
     (dl_handed d) (unissued (dl_self d) (dl_counter d)) \<and> (\<forall>c. dl_nextCall d \<le> c \<longrightarrow> map_of (dl_calls d) c = None)"

lemma dl_onceD:
  assumes "dl_once d"
  shows "once (dl_inbox d) (direct_of (dl_calls d)) (offered_to (dl_offers d)) (map_get_or [] (dl_claimed d))
     (dl_handed d) (unissued (dl_self d) (dl_counter d))"
  using assms by (simp add: dl_once_def)

lemma direct_of_simps [simp]:
  "direct_of (map_del c calls) = (direct_of calls)(c := None)"
  "direct_of (map_set c (CallDirect to m row) calls) = (direct_of calls)(c := Some (msg_mid m))"
  "direct_of (map_set c (CallForward i) calls) = (direct_of calls)(c := None)"
  "direct_of (map_set c (CallHold to t a) calls) = (direct_of calls)(c := None)"
  "direct_of (map_set c (CallOffer to) calls) = (direct_of calls)(c := None)"
  by (auto simp: direct_of_def fun_eq_iff)

lemma offered_to_simps [simp]:
  "offered_to (map_del to offers) = (offered_to offers)(to := [])"
  "offered_to (map_set to (p, caller) offers) = (offered_to offers)(to := offered p)"
  by (auto simp: offered_to_def fun_eq_iff)

lemma claimed_simps [simp]:
  "map_get_or [] (map_del to claimed) = (map_get_or [] claimed)(to := [])"
  "map_get_or [] (map_set to xs claimed) = (map_get_or [] claimed)(to := xs)"
  by (auto simp: fun_eq_iff)

definition removal_frames :: "(mid \<times> removed_reason) list \<Rightarrow> (audience \<times> inbox_data) list" where
  "removal_frames told = map (\<lambda>e. (People, InboxRemoved [e])) told"

lemma dl_box_eq:
  "dl_box b d = d\<lparr>dl_inbox := b,
     dl_published := dl_published d @ removal_frames (drop (length (ib_told (dl_inbox d))) (ib_told b))\<rparr>"
proof -
  have "fold (\<lambda>(mid, reason). dl_removed [mid] reason) es d = d\<lparr>dl_published := dl_published d @ removal_frames es\<rparr>" for es d
    by (induction es arbitrary: d) (auto simp: dl_removed_def dl_publish_def removal_frames_def)
  then show ?thesis by (simp add: dl_box_def)
qed

lemmas dl_frame = dl_box_eq dl_answer_def dl_publish_def dl_watchers_def dl_removed_def

lemma dl_once_calls:
  assumes "dl_once d" "map_of (dl_calls d) c \<noteq> None" "\<And>to m row. v \<noteq> CallDirect to m row"
  shows "dl_once (d\<lparr>dl_calls := map_set c v (dl_calls d)\<rparr>)" "dl_once (d\<lparr>dl_calls := map_del c (dl_calls d)\<rparr>)"
  using assms by (cases v; auto simp: dl_once_def intro: once_drop_pending)+

lemma dl_once_send:
  assumes "dl_once d"
  shows "dl_once (dl_send mc env (dl_nextCall d) args identity (d\<lparr>dl_nextCall := dl_nextCall d + 1\<rparr>))"
proof -
  let ?c = "dl_nextCall d"
  have new: "map_of (dl_calls d) ?c = None" using assms by (auto simp: dl_once_def)
  then have dn: "direct_of (dl_calls d) ?c = None" by (simp add: direct_of_def)
  have o: "once (dl_inbox d) (direct_of (dl_calls d)) (offered_to (dl_offers d)) (map_get_or [] (dl_claimed d))
     (dl_handed d) (unissued (dl_self d) (dl_counter d))" and k: "\<And>c. ?c \<le> c \<Longrightarrow> map_of (dl_calls d) c = None"
    using assms by (auto simp: dl_once_def)
  have same: "(direct_of (dl_calls d))(?c := None) = direct_of (dl_calls d)" using dn by auto
  have msg: "once (dl_inbox d) ((direct_of (dl_calls d))(?c := Some (dl_self d @ ''/'' @ show_nat (Suc (dl_counter d)))))
      (offered_to (dl_offers d)) (map_get_or [] (dl_claimed d)) (dl_handed d) (unissued (dl_self d) (Suc (dl_counter d)))"
    by (rule once_new_pending [OF o dn]) (auto simp: unissued_def)
  show ?thesis
    using o k msg
    by (auto simp: dl_send_def dl_elsewhere_def dl_once_def dl_answer_def dl_message_def dl_mid_def Let_def same
        split: option.splits sum.splits)
qed

lemma dl_once_box:
  assumes "dl_once d" "iv.thins (dl_inbox d) b"
  shows "dl_once (dl_box b d)"
  using assms once_thins by (auto simp: dl_once_def dl_box_eq)

lemma dl_once_hold:
  assumes o: "dl_once d" and c: "map_of (dl_calls d) call = Some (CallDirect to message row)"
  shows "dl_once (dl_hold ct now call to message after d)"
proof -
  have "direct_of (dl_calls d) call = Some (msg_mid message)" by (simp add: c direct_of_def)
  moreover have "iv.joins to (msg_mid message) (dl_inbox d) (ib_hold ct to message now (dl_inbox d))"
    using o by (intro ib.hold_joins) (auto simp: dl_once_def dest: onceD(1))
  ultimately show ?thesis using o c once_joins by (auto simp: dl_once_def dl_hold_def dl_frame Let_def)
qed

lemma dl_once_offer:
  assumes "dl_once d"
  shows "dl_once (snd (dl_offer ct now to caller d))"
proof (cases "to \<in> set (dl_offering d)")
  case False
  obtain held b where u: "ib_undelivered ct to now (dl_inbox d) = (held, b)" by fastforce
  have ok: "iv.box_ok (dl_inbox d)" using assms by (auto simp: dl_once_def dest: onceD(1))
  have b: "iv.thins (dl_inbox d) b" and held: "map msg_mid held = ib_waiting b to"
    using ib.ask_thins [OF ok, of ct to now] ib.ask_answers [OF ok, of ct to now] by (simp_all add: u)
  note o = dl_once_box [OF assms b]
  show ?thesis
  proof (cases held)
    case Nil
    with False u o show ?thesis by (simp add: dl_offer_def Let_def)
  next
    case (Cons m rest)
    with False u o held [symmetric] show ?thesis
      by (auto simp: dl_offer_def Let_def dl_once_def dl_box_eq dest: once_offer_start [where to = to])
  qed
qed (use assms in \<open>simp add: dl_offer_def\<close>)

lemma dl_once_end:
  assumes "dl_once d"
  shows "dl_once (dl_offer_end to ok caller d)"
  using assms
  by (auto simp: dl_once_def dl_offer_end_def dl_answer_def Let_def intro: once_offer_end once_drop_pending split: option.splits)

lemma dl_once_sent:
  assumes "dl_once d"
  shows "dl_once (dl_offer_sent to outcome d)"
proof (cases "\<exists>m rest caller. map_of (dl_offers d) to = Some (OfferSending m rest, caller) \<and> outcome = DirectDelivered")
  case True
  then obtain m rest caller where m: "map_of (dl_offers d) to = Some (OfferSending m rest, caller)" and del: "outcome = DirectDelivered"
    by blast
  have o: "once (dl_inbox d) (direct_of (dl_calls d)) (offered_to (dl_offers d)) (map_get_or [] (dl_claimed d))
     (dl_handed d) (unissued (dl_self d) (dl_counter d))" using assms by (simp add: dl_once_def)
  have f: "offered_to (dl_offers d) to = msg_mid m # map msg_mid rest" by (simp add: offered_to_def m)
  have ok: "iv.box_ok (dl_inbox d)" by (rule onceD(1) [OF o])
  let ?b = "ib_delivered to [msg_mid m] (dl_inbox d)"
  have "set [msg_mid m] \<inter> set (ib_waiting (dl_inbox d) s) = {}" if "s \<noteq> to" for s
    using onceD(12) [OF o, of "msg_mid m" to s] that by (simp add: f)
  from ib.delivered_thins [OF ok this] have t: "iv.thins (dl_inbox d) ?b" .
  have g: "msg_mid m \<notin> set (ib_waiting ?b to)" using ib.delivered_gone [OF ok] by simp
  have claims: "map_get_or [] (case map_of (dl_claimed d) to of None \<Rightarrow> dl_claimed d
        | Some c \<Rightarrow> map_set to (set_del (msg_mid m) c) (dl_claimed d))
      = (map_get_or [] (dl_claimed d))(to := set_del (msg_mid m) (map_get_or [] (dl_claimed d) to))"
    by (auto simp: map_get_or_def fun_eq_iff set_del_def split: option.splits)
  show ?thesis
    using once_offer_hand [OF o f t g] assms
    by (simp add: dl_offer_sent_def m del Let_def dl_box_eq dl_once_def claims)
next
  case False
  then show ?thesis using assms
    by (auto simp: dl_offer_sent_def dl_once_end split: option.splits prod.splits offer_phase.splits)
qed

lemma dl_once_written:
  assumes "dl_once d"
  shows "dl_once (dl_offer_written to d)"
proof (cases "map_of (dl_offers d) to")
  case (Some p)
  obtain ph caller where p: "p = (ph, caller)" by (cases p)
  show ?thesis
  proof (cases ph)
    case (OfferWriting ticket rest)
    have f: "offered_to (dl_offers d) to = map msg_mid rest" by (simp add: offered_to_def Some p OfferWriting)
    have "dl_once (d\<lparr>dl_offers := map_set to (OfferSending m rest', caller) (dl_offers d)\<rparr>)" if "rest = m # rest'" for m rest'
    proof -
      have "(offered_to (dl_offers d))(to := msg_mid m # map msg_mid rest') = offered_to (dl_offers d)" using f that by auto
      then show ?thesis using assms by (simp add: dl_once_def)
    qed
    then show ?thesis using assms
      by (auto simp: dl_offer_written_def Some p OfferWriting dl_once_end split: option.splits list.splits settled.splits)
  qed (use assms in \<open>simp add: dl_offer_written_def Some p\<close>)
qed (use assms in \<open>simp add: dl_offer_written_def\<close>)

lemma dl_once_retry:
  assumes "dl_once d"
  shows "dl_once (dl_retry ct mc env d)"
proof -
  have "dl_once d \<Longrightarrow> dl_once (dl_retry_over ct mc env sids d)" for sids d
    by (induction sids arbitrary: d) (auto simp: dl_once_offer split: option.splits)
  with assms show ?thesis by (simp add: dl_retry_def)
qed

lemma dl_once_answer:
  assumes "dl_once d"
  shows "dl_once (dl_answer call a d)"
  using assms by (auto simp: dl_once_def dl_answer_def intro: once_drop_pending)

lemma dl_once_handed:
  assumes "dl_once d" "map_of (dl_calls d) call = Some (CallDirect to message row)"
  shows "dl_once (d\<lparr>dl_calls := map_set call (CallOffer to) (dl_calls d), dl_handed := dl_handed d @ [msg_mid message]\<rparr>)"
    and "dl_once (d\<lparr>dl_calls := map_del call (dl_calls d), dl_handed := dl_handed d @ [msg_mid message]\<rparr>)"
proof -
  have "direct_of (dl_calls d) call = Some (msg_mid message)" by (simp add: assms direct_of_def)
  then show "dl_once (d\<lparr>dl_calls := map_set call (CallOffer to) (dl_calls d), dl_handed := dl_handed d @ [msg_mid message]\<rparr>)"
    "dl_once (d\<lparr>dl_calls := map_del call (dl_calls d), dl_handed := dl_handed d @ [msg_mid message]\<rparr>)"
    using assms once_hand_pending by (auto simp: dl_once_def)
qed

lemma dl_once_published [simp]:
  "dl_once (d\<lparr>dl_published := ps\<rparr>) = dl_once d" "dl_once (d\<lparr>dl_answers := as\<rparr>) = dl_once d" "dl_once (d\<lparr>dl_partly := hs\<rparr>) = dl_once d"
  by (simp_all add: dl_once_def)

lemma dl_once_routed:
  assumes o: "dl_once d"
  shows "dl_once (dl_routed ct env call outcome d)"
proof (cases "map_of (dl_calls d) call")
  case (Some v)
  show ?thesis
  proof (cases v)
    case (CallDirect to message row)
    note c = Some [unfolded CallDirect]
    show ?thesis
    proof (cases outcome)
      case DirectDelivered
      then show ?thesis
        using dl_once_offer [OF dl_once_handed(1) [OF o c], of ct "de_now env" to "Some call"]
        by (auto simp: dl_routed_def c Let_def dl_once_answer split: prod.splits)
    next
      case DirectUnavailable
      let ?d1 = "dl_publish (ToSession to) (InboxMessages [(message, None)]) d"
      have "dl_once (dl_answer call SentDelivered (dl_removed [msg_mid message] Delivered
              (dl_watchers to [message] (?d1\<lparr>dl_handed := dl_handed ?d1 @ [msg_mid message]\<rparr>))))"
        using dl_once_handed(2) [OF o c] by (simp add: dl_once_def dl_frame)
      moreover have "dl_once ?d1" "map_of (dl_calls ?d1) call = Some (CallDirect to message row)"
          "dl_once (?d1\<lparr>dl_partly := hs\<rparr>)" "map_of (dl_calls (?d1\<lparr>dl_partly := hs\<rparr>)) call = Some (CallDirect to message row)" for hs
        using o c by (simp_all add: dl_publish_def)
      ultimately show ?thesis using DirectUnavailable o c by (simp add: dl_routed_def Let_def dl_once_hold)
    qed (use o c in \<open>simp_all add: dl_routed_def dl_once_hold dl_once_answer\<close>)
  qed (use o Some in \<open>simp_all add: dl_routed_def\<close>)
qed (use o in \<open>simp add: dl_routed_def\<close>)

lemma dl_once_resumed:
  assumes o: "dl_once d"
  shows "dl_once (dl_hold_resumed ct mc env call d)"
proof (cases "\<exists>to ticket after. map_of (dl_calls d) call = Some (CallHold to ticket after)")
  case True
  then obtain to ticket after where c: "map_of (dl_calls d) call = Some (CallHold to ticket after)" by blast
  obtain a b where r: "ib_resume ct ticket (dl_inbox d) = (a, b)" by fastforce
  have "iv.thins (dl_inbox d) b"
    using ib.resume_thins [of "dl_inbox d" ct ticket] o by (auto simp: r dl_once_def dest: onceD(1))
  note box = dl_once_box [OF o this]
  have "map_of (dl_calls (dl_box b d)) call \<noteq> None" using c by (simp add: dl_box_eq)
  from dl_once_calls(1) [OF box this, of "CallHold to (ib_next (dl_inbox d)) after"] box show ?thesis
    by (auto simp: dl_hold_resumed_def c r Let_def dl_once_answer split: hold_answer.splits after_hold.splits)
next
  case False
  then show ?thesis using o by (auto simp: dl_hold_resumed_def split: option.splits send_call.splits)
qed

lemma dl_once_waiting:
  assumes "dl_once d"
  shows "dl_once (snd (dl_waiting ct now sids d))"
  using assms
proof (induction sids arbitrary: d)
  case (Cons sid sids)
  obtain held b where u: "ib_undelivered ct sid now (dl_inbox d) = (held, b)" by fastforce
  have "iv.thins (dl_inbox d) b"
    using ib.ask_thins [of "dl_inbox d" ct sid now] Cons.prems by (auto simp: u dl_once_def dest: onceD(1))
  from Cons.IH [OF dl_once_box [OF Cons.prems this]] show ?case by (auto simp: u split: prod.splits)
qed simp

lemma dl_once_snapshot:
  assumes "dl_once d"
  shows "dl_once (snd (dl_snapshot ct now topic identity d))"
proof (cases "\<exists>role sid. identity = Settled role (Some sid) \<and> topic = ''inbox''")
  case False
  then show ?thesis using assms dl_once_waiting [OF assms, of ct now "ib_sids (dl_inbox d)"]
    by (auto simp: dl_snapshot_def split: conn_identity.splits option.splits prod.splits)
next
  case True
  then obtain role sid where i: "identity = Settled role (Some sid)" "topic = ''inbox''" by blast
  obtain all b where u: "ib_undelivered ct sid now (dl_inbox d) = (all, b)" by fastforce
  have ok: "iv.box_ok (dl_inbox d)" using assms by (auto simp: dl_once_def dest: onceD(1))
  have t: "iv.thins (dl_inbox d) b" and a: "map msg_mid all = ib_waiting b sid"
    using ib.ask_thins [OF ok, of ct sid now] ib.ask_answers [OF ok, of ct sid now] by (simp_all add: u)
  have o: "once b (direct_of (dl_calls d)) (offered_to (dl_offers d)) (map_get_or [] (dl_claimed d))
     (dl_handed d) (unissued (dl_self d) (dl_counter d))"
    using assms t by (auto simp: dl_once_def dest: once_thins)
  have okb: "iv.box_ok b" by (rule onceD(1) [OF o])
  define mids where "mids = map msg_mid (filter (\<lambda>m. msg_mid m \<notin> set (map_get_or [] (dl_claimed d) sid)) all)"
  have mids: "mids = filter (\<lambda>x. x \<notin> set (map_get_or [] (dl_claimed d) sid)) (ib_waiting b sid)"
    by (simp add: mids_def a [symmetric] filter_map o_def)
  then have d: "distinct mids" using iv.box_okD(2) [OF okb, of sid] by simp
  have sub: "set mids \<subseteq> set (ib_waiting b sid)" by (auto simp: mids)
  then have ev: "set mids \<subseteq> iv.everywhere b" using iv.in_everywhere [of _ b sid] by blast
  have other: "set mids \<inter> set (ib_waiting b s) = {}" if "s \<noteq> sid" for s
    using sub iv.box_okD(3) [OF okb, of sid s] that by blast
  let ?b = "ib_delivered sid mids b"
  have t': "iv.thins b ?b" by (rule ib.delivered_thins [OF okb other])
  have "x \<notin> set (ib_waiting ?b s)" if "x \<in> set mids" for x s
    using that other [of s] by (auto simp: delivered_view)
  then have g: "set mids \<inter> iv.everywhere ?b = {}" by (auto simp: iv.everywhere_def)
  have f: "set mids \<inter> set (offered_to (dl_offers d) to) = {}" for to
  proof (cases "to = sid")
    case True
    then show ?thesis using onceD(11) [OF o, of _ sid] by (auto simp: mids)
  next
    case False
    then show ?thesis using sub onceD(12) [OF o, of _ to sid] by blast
  qed
  have "once ?b (direct_of (dl_calls d)) (offered_to (dl_offers d)) (map_get_or [] (dl_claimed d))
     (dl_handed d @ mids) (unissued (dl_self d) (dl_counter d))"
    by (rule once_snapshot [OF o d ev t' g f])
  then show ?thesis using assms
    by (simp add: dl_snapshot_def i u Let_def dl_box_eq dl_once_def mids_def [symmetric])
qed

lemma dl_once_step: "dl_once d \<Longrightarrow> dl_once (dl_step ct mc d e)"
proof (cases e)
  case (DlLine ok)
  assume o: "dl_once d"
  then have wf: "iv.box_ok (dl_inbox d)" by (auto simp: dl_once_def dest: onceD(1))
  have "iv.thins (dl_inbox d) (ib_settle ok (dl_inbox d))"
    by (rule iv.thins_same [OF iv.thins_refl [OF wf]]) (simp_all add: ib.settle_same iv.box_okD(1) [OF wf])
  with o show ?thesis using once_thins by (auto simp: DlLine dl_once_def)
next
  case (DlForwardAnswered call answer)
  assume "dl_once d"
  then show ?thesis by (auto simp: DlForwardAnswered dl_forward_answered_def dl_once_answer split: option.splits send_call.splits)
qed (simp_all add: dl_once_send [simplified] dl_once_routed dl_once_resumed dl_once_retry dl_once_sent dl_once_written dl_once_snapshot)

lemma fold_highest:
  "(\<forall>m \<in> set ms. \<forall>c. counter_of p (msg_mid m) = Some c \<longrightarrow> c \<le> fold (\<lambda>m h. case counter_of p (msg_mid m) of
       Some c \<Rightarrow> if c > h then c else h | None \<Rightarrow> h) ms (h0 :: nat))
   \<and> h0 \<le> fold (\<lambda>m h. case counter_of p (msg_mid m) of Some c \<Rightarrow> if c > h then c else h | None \<Rightarrow> h) ms h0"
proof (induction ms arbitrary: h0)
  case (Cons m ms)
  let ?h = "case counter_of p (msg_mid m) of Some c \<Rightarrow> if c > h0 then c else h0 | None \<Rightarrow> h0"
  have "h0 \<le> ?h" "\<And>c. counter_of p (msg_mid m) = Some c \<Longrightarrow> c \<le> ?h" by (auto split: option.splits)
  with Cons.IH [of ?h] show ?case by (auto intro: le_trans simp del: not_less)
qed simp

text \<open>An inbox as a start finds it: nothing on its way, every \<open>mid\<close> once, every counter of this
  instance a safe integer.\<close>

definition inbox_at_start :: "instance_id \<Rightarrow> message_body inbox \<Rightarrow> bool" where
  "inbox_at_start self b \<longleftrightarrow> map_wf (ib_held b) \<and> ib_flight b = []
     \<and> distinct (map msg_mid (concat (map snd (ib_held b))))
     \<and> list_all (\<lambda>m. take (length self + 1) (msg_mid m) = self @ ''/'' \<longrightarrow>
          (case read_digits 0 (drop (length self + 1) (msg_mid m)) of None \<Rightarrow> True | Some n \<Rightarrow> n < 2 ^ 53))
         (concat (map snd (ib_held b)))"

lemma held_in_concat:
  assumes "m \<in> set (held_for h s)"
  shows "\<exists>xs. (s, xs) \<in> set h \<and> m \<in> set xs \<and> held_for h s = xs"
  using assms by (auto simp: held_for_def map_get_or_def split: option.splits dest: map_of_SomeD)

lemma distinct_concat_entries:
  assumes "distinct (map f (concat (map snd h)))" "(s, xs) \<in> set h"
  shows "distinct (map f xs)" and "(t, ys) \<in> set h \<Longrightarrow> t \<noteq> s \<Longrightarrow> f ` set xs \<inter> f ` set ys = {}"
proof -
  have "distinct (map f xs) \<and> (\<forall>t ys. (t, ys) \<in> set h \<longrightarrow> t \<noteq> s \<longrightarrow> f ` set xs \<inter> f ` set ys = {})"
    using assms
  proof (induction h)
    case (Cons e h)
    obtain u zs where e: "e = (u, zs)" by (cases e)
    have "\<And>t ys. (t, ys) \<in> set h \<Longrightarrow> f ` set zs \<inter> f ` set ys = {}"
      using Cons.prems(1) by (fastforce simp: e)
    with Cons show ?case by (fastforce simp: e)
  qed simp
  then show "distinct (map f xs)" "(t, ys) \<in> set h \<Longrightarrow> t \<noteq> s \<Longrightarrow> f ` set xs \<inter> f ` set ys = {}" by blast+
qed

lemma start_box_ok:
  assumes "inbox_at_start self b"
  shows "iv.box_ok b" and "ib_leaving b = {}"
proof -
  note a = assms [unfolded inbox_at_start_def]
  show l: "ib_leaving b = {}" using a by (simp add: ib_leaving_def)
  have "distinct (ib_waiting b s)" for s
  proof (cases "held_for (ib_held b) s")
    case (Cons m ms)
    then obtain xs where "(s, xs) \<in> set (ib_held b)" "held_for (ib_held b) s = xs"
      using held_in_concat [of m "ib_held b" s] by auto
    with a distinct_concat_entries(1) [of msg_mid "ib_held b" s xs] show ?thesis by (simp add: ib_waiting_def)
  qed (simp add: ib_waiting_def)
  moreover have "set (ib_waiting b s) \<inter> set (ib_waiting b t) = {}" if "s \<noteq> t" for s t
  proof (rule ccontr)
    assume "set (ib_waiting b s) \<inter> set (ib_waiting b t) \<noteq> {}"
    then obtain m m' where m: "m \<in> set (held_for (ib_held b) s)" "m' \<in> set (held_for (ib_held b) t)" "msg_mid m = msg_mid m'"
      by (auto simp: ib_waiting_def)
    from held_in_concat [OF m(1)] held_in_concat [OF m(2)] obtain xs ys where
      "(s, xs) \<in> set (ib_held b)" "m \<in> set xs" "(t, ys) \<in> set (ib_held b)" "m' \<in> set ys" by blast
    with a distinct_concat_entries(2) [of msg_mid "ib_held b" s xs t ys] that m(3) show False by auto
  qed
  ultimately show "iv.box_ok b" using a l by (simp add: iv.box_ok_def ib_wf_def)
qed

lemma counter_of_own: "k < 2 ^ 53 \<Longrightarrow> counter_of (self @ ''/'') (self @ ''/'' @ show_nat k) = Some k"
  by (simp add: counter_of_def)

lemma start_once:
  assumes s: "inbox_at_start self inbox"
  shows "dl_once (Delivery self inbox)"
proof -
  have "x \<notin> iv.everywhere inbox" if x: "unissued self (ib_lastCounter (self @ ''/'') inbox) x" for x
  proof
    assume "x \<in> iv.everywhere inbox"
    then obtain sid m where m: "m \<in> set (held_for (ib_held inbox) sid)" "x = msg_mid m"
      by (auto simp: iv.everywhere_def ib_waiting_def)
    have mc: "m \<in> set (concat (map snd (ib_held inbox)))"
      using held_in_concat [OF m(1)] by force
    from x obtain k where k: "ib_lastCounter (self @ ''/'') inbox < k" "x = self @ ''/'' @ show_nat k"
      by (auto simp: unissued_def)
    have "take (length self + 1) (msg_mid m) = self @ ''/'' \<longrightarrow>
        (case read_digits 0 (drop (length self + 1) (msg_mid m)) of None \<Rightarrow> True | Some n \<Rightarrow> n < 2 ^ 53)"
      using s mc unfolding inbox_at_start_def list_all_iff by blast
    then have "k < 2 ^ 53" using k(2) m(2) [symmetric] by simp
    then have "counter_of (self @ ''/'') (msg_mid m) = Some k" using counter_of_own k(2) m(2) by metis
    then have "k \<le> ib_lastCounter (self @ ''/'') inbox"
      using fold_highest [of "concat (map snd (ib_held inbox))" "self @ ''/''" 0] mc by (auto simp: ib_lastCounter_def)
    with k(1) show False by simp
  qed
  with start_box_ok [OF s] show ?thesis
    by (simp add: dl_once_def Delivery_def once_def direct_of_def offered_to_def)
qed

text \<open>
  What a publish handed to some of the connections only: once per message, since only a \<open>send\<close> that waits
  for route (a) publishes, and it waits no more then.
\<close>

definition partly_ok :: "delivery \<Rightarrow> bool" where
  "partly_ok d \<longleftrightarrow> distinct (dl_partly d)
     \<and> (\<forall>x \<in> set (dl_partly d). (\<forall>c. direct_of (dl_calls d) c \<noteq> Some x) \<and> \<not> unissued (dl_self d) (dl_counter d) x)"

definition unhanded :: "delivery \<Rightarrow> delivery \<Rightarrow> bool" where
  "unhanded d d' \<longleftrightarrow> dl_partly d' = dl_partly d \<and> dl_self d' = dl_self d \<and> dl_counter d' = dl_counter d
     \<and> (\<forall>c. direct_of (dl_calls d') c = direct_of (dl_calls d) c \<or> direct_of (dl_calls d') c = None)"

lemma unhanded_ok: "unhanded d d' \<Longrightarrow> partly_ok d \<Longrightarrow> partly_ok d'"
  unfolding unhanded_def partly_ok_def by (metis option.distinct(1))

lemma unhanded_refl [simp]: "unhanded d d"
  by (simp add: unhanded_def)

lemma unhanded_trans: "unhanded d d' \<Longrightarrow> unhanded d' d'' \<Longrightarrow> unhanded d d''"
  unfolding unhanded_def by metis

lemma unhanded_box [simp]: "unhanded d (dl_box b d') = unhanded d d'"
  by (simp add: unhanded_def dl_box_eq)

lemma unhanded_offers [simp]: "unhanded d (d'\<lparr>dl_offers := offers\<rparr>) = unhanded d d'"
  by (simp add: unhanded_def)

lemma unhanded_answer: "unhanded d d' \<Longrightarrow> unhanded d (dl_answer call a d')"
  by (auto simp: unhanded_def dl_answer_def)

lemma unhanded_offer: "unhanded d d' \<Longrightarrow> unhanded d (snd (dl_offer ct now to caller d'))"
  by (cases "ib_undelivered ct to now (dl_inbox d')") (auto simp: dl_offer_def Let_def unhanded_def dl_box_eq split: list.split)

lemma unhanded_end: "unhanded d d' \<Longrightarrow> unhanded d (dl_offer_end to ok caller d')"
  by (auto simp: dl_offer_end_def Let_def unhanded_def dl_answer_def split: option.split)

lemma unhanded_hold: "unhanded d (dl_hold ct now call to message after d)"
  by (auto simp: dl_hold_def Let_def unhanded_def dl_frame)

lemma unhanded_sent: "unhanded d (dl_offer_sent to outcome d)"
  by (auto simp: dl_offer_sent_def Let_def unhanded_end split: option.split prod.split offer_phase.split) (simp_all add: unhanded_def)

lemma unhanded_written: "unhanded d (dl_offer_written to d)"
  by (auto simp: dl_offer_written_def unhanded_end split: option.split prod.split offer_phase.split settled.split list.split)

lemma unhanded_retry: "unhanded d d' \<Longrightarrow> unhanded d (dl_retry_over ct mc env sids d')"
  by (induction sids arbitrary: d') (auto simp: unhanded_offer split: option.split)

lemma unhanded_resumed: "unhanded d (dl_hold_resumed ct mc env call d)"
proof -
  have "unhanded d (d'\<lparr>dl_calls := map_set call (CallHold to t after) (dl_calls d')\<rparr>)" if "unhanded d d'" for to t after d'
    using that by (auto simp: unhanded_def)
  then show ?thesis
    by (auto simp: dl_hold_resumed_def Let_def unhanded_answer split: option.split send_call.split prod.split hold_answer.split after_hold.split)
qed

lemma unhanded_waiting: "unhanded d d' \<Longrightarrow> unhanded d (snd (dl_waiting ct now sids d'))"
proof (induction sids arbitrary: d')
  case (Cons sid sids)
  obtain held b where u: "ib_undelivered ct sid now (dl_inbox d') = (held, b)" by fastforce
  show ?case using Cons.IH [of "dl_box b d'"] Cons.prems by (auto simp: u split: prod.splits)
qed simp

lemma unhanded_snapshot: "unhanded d (snd (dl_snapshot ct now topic identity d))"
proof -
  have "unhanded d (d'\<lparr>dl_handed := h\<rparr>) = unhanded d d'" for d' h by (simp add: unhanded_def)
  moreover have "unhanded d (snd (dl_waiting ct now sids d))" for sids by (rule unhanded_waiting) simp
  ultimately show ?thesis
    by (auto simp: dl_snapshot_def Let_def split: conn_identity.split option.split prod.split) (metis snd_conv)
qed

lemma partly_send:
  assumes p: "partly_ok d"
  shows "partly_ok (dl_send mc env call args identity (d\<lparr>dl_nextCall := n\<rparr>))"
proof -
  let ?x = "dl_self d @ ''/'' @ show_nat (Suc (dl_counter d))"
  have new: "unissued (dl_self d) (dl_counter d) ?x" by (auto simp: unissued_def)
  have later: "unissued (dl_self d) (Suc (dl_counter d)) y \<Longrightarrow> unissued (dl_self d) (dl_counter d) y" for y
    by (auto simp: unissued_def)
  show ?thesis using p new later
    by (auto simp: partly_ok_def dl_send_def dl_elsewhere_def dl_answer_def dl_message_def dl_mid_def Let_def
        split: option.splits sum.splits if_splits)
qed

lemma partly_routed:
  assumes p: "partly_ok d" and o: "dl_once d"
  shows "partly_ok (dl_routed ct env call outcome d)"
proof (cases "\<exists>to message row. map_of (dl_calls d) call = Some (CallDirect to message row)")
  case True
  then obtain to message row where c: "map_of (dl_calls d) call = Some (CallDirect to message row)" by blast
  have q: "direct_of (dl_calls d) call = Some (msg_mid message)" by (simp add: direct_of_def c)
  note sole = onceD(8) [OF dl_onceD [OF o] q]
  show ?thesis
  proof (cases outcome)
    case DirectDelivered
    have "unhanded d (d\<lparr>dl_calls := map_set call (CallOffer to) (dl_calls d), dl_handed := h\<rparr>)" for h by (auto simp: unhanded_def)
    then have "unhanded d (snd (dl_offer ct (de_now env) to (Some call) (d\<lparr>dl_calls := map_set call (CallOffer to) (dl_calls d), dl_handed := h\<rparr>)))" for h
      by (rule unhanded_offer)
    then have "unhanded d (dl_routed ct env call outcome d)"
      using DirectDelivered by (auto simp: dl_routed_def c Let_def unhanded_answer split: prod.split) (metis unhanded_answer snd_conv)+
    then show ?thesis using p unhanded_ok by blast
  next
    case DirectUnavailable
    let ?d1 = "dl_publish (ToSession to) (InboxMessages [(message, None)]) d"
    have d1: "unhanded d ?d1" by (simp add: unhanded_def dl_publish_def)
    have "unhanded d (dl_answer call SentDelivered (dl_removed [msg_mid message] Delivered
        (dl_watchers to [message] (?d1\<lparr>dl_handed := h\<rparr>))))" for h
      by (rule unhanded_answer) (simp add: unhanded_def dl_frame)
    moreover have "unhanded d (dl_hold ct now call to message after ?d1)" for now after by (rule unhanded_trans [OF d1 unhanded_hold])
    moreover have "partly_ok (dl_hold ct now call to message after (?d1\<lparr>dl_partly := dl_partly ?d1 @ [msg_mid message]\<rparr>))" for now after
    proof -
      have "msg_mid message \<notin> set (dl_partly d)" using p q by (auto simp: partly_ok_def)
      moreover have "\<not> unissued (dl_self d) (dl_counter d) (msg_mid message)" using onceD(18) [OF dl_onceD [OF o]] q by blast
      ultimately show ?thesis using p sole
        by (auto simp: partly_ok_def dl_hold_def Let_def dl_frame)
    qed
    ultimately show ?thesis using DirectUnavailable p unhanded_ok unhanded_hold by (simp add: dl_routed_def c Let_def) blast
  qed (use p c unhanded_ok [OF unhanded_hold] unhanded_ok [OF unhanded_answer [OF unhanded_refl]] in \<open>simp_all add: dl_routed_def\<close>)
qed (use p in \<open>auto simp: dl_routed_def split: option.split send_call.split\<close>)

lemma partly_step:
  assumes p: "partly_ok d" and o: "dl_once d"
  shows "partly_ok (dl_step ct mc d e)"
proof (cases e)
  case (DlForwardAnswered call answer)
  have "unhanded d (dl_forward_answered call answer d)"
    by (auto simp: dl_forward_answered_def unhanded_answer split: option.split send_call.split)
  then show ?thesis using DlForwardAnswered p unhanded_ok by auto
next
  case (DlLine ok)
  then show ?thesis using p by (simp add: partly_ok_def)
next
  case (DlSend env args identity)
  then show ?thesis using partly_send [OF p] by simp
next
  case (DlRouted env call outcome)
  then show ?thesis using partly_routed [OF p o] by simp
qed (use unhanded_ok [OF _ p] unhanded_sent unhanded_written unhanded_resumed unhanded_snapshot unhanded_retry [OF unhanded_refl] in \<open>simp_all add: dl_retry_def\<close>)

lemma count_distinct: "distinct xs \<Longrightarrow> count_list xs x = (if x \<in> set xs then 1 else 0)"
  by (induction xs) auto

text \<open>
  C1: one message goes out once. Whatever the order in which messages are sent, routes answer,
  offers run, lines of the inbox are written or fail, sessions subscribe and watchers look, no
  message reaches a session twice (over route (a), by the inbox topic taking it, in the snapshot of a
  subscription), and what was handed over is no longer waiting for anybody. The one exception is
  counted: a message that a publish handed to some of the session's connections while another
  connection refused it waits like one that was refused, and may reach the session a second time,
  never a third.
\<close>

theorem message_goes_out_once:
  assumes "inbox_at_start self inbox"
  shows "let d = foldl (dl_step ct mc) (Delivery self inbox) evs in
    (\<forall>x. count_list (dl_handed d @ dl_partly d) x \<le> (if x \<in> set (dl_partly d) then 2 else 1))
    \<and> distinct (dl_handed d) \<and> (\<forall>sid. \<forall>m \<in> set (held_for (ib_held (dl_inbox d)) sid). msg_mid m \<notin> set (dl_handed d))"
proof -
  let ?d = "foldl (dl_step ct mc) (Delivery self inbox) evs"
  have inv: "dl_once ?d \<and> partly_ok ?d"
  proof (induction evs rule: rev_induct)
    case Nil
    then show ?case using start_once [OF assms] by (simp add: partly_ok_def Delivery_def)
  qed (simp add: dl_once_step partly_step)
  then have o: "once (dl_inbox ?d) (direct_of (dl_calls ?d)) (offered_to (dl_offers ?d))
      (map_get_or [] (dl_claimed ?d)) (dl_handed ?d) (unissued (dl_self ?d) (dl_counter ?d))"
    by (simp add: dl_once_def)
  have "msg_mid m \<notin> set (dl_handed ?d)" if "m \<in> set (held_for (ib_held (dl_inbox ?d)) sid)" for m sid
    using onceD(3) [OF o, of "msg_mid m"] iv.in_everywhere [of "msg_mid m" "dl_inbox ?d" sid] that
    by (auto simp: ib_waiting_def)
  moreover have "distinct (dl_partly ?d)" using inv by (simp add: partly_ok_def)
  ultimately show ?thesis using onceD(2) [OF o] by (simp add: Let_def count_distinct)
qed

text \<open>A message is held, an offer takes it, the session subscribes while the offer runs, and the
  offer delivers it.\<close>

definition example_peer :: peer_info where
  "example_peer = \<lparr>pe_sid = ''s'', pe_runs = 1, pe_repo = ''r'', pe_ws = ''w'', pe_repo_root = None, pe_instance = ''i''\<rparr>"

definition example_messaging :: messaging_contract where
  "example_messaging = \<lparr>liveness = (\<lambda>row now. ''alive''), USER_SENDER = ''user''\<rparr>"

definition example_dl_env :: dl_env where
  "example_dl_env = \<lparr>de_now = 0, de_row = (\<lambda>s. if s = ''s'' then Some example_peer else None), de_peerRows = [example_peer],
     de_mesh = None, de_listeners = (\<lambda>s. [])\<rparr>"

definition example_dl_evs :: "dl_event list" where
  "example_dl_evs =
     [DlSend example_dl_env \<lparr>sa_to = ''s'', sa_text = ''hi'', sa_reply_to = None\<rparr> (Some (User, None)),
      DlRouted example_dl_env 0 DirectUnavailable, DlLine True, DlHoldResumed example_dl_env 0,
      DlRetry example_dl_env, DlSnapshot 0 ''inbox'' (Settled Session (Some ''s'')),
      DlOfferSent ''s'' DirectDelivered, DlLine True, DlOfferWritten ''s'']"

lemma example_dl_run:
  "inbox_at_start ''i'' (Inbox :: message_body inbox)"
  "dl_handed (foldl (dl_step example_contract example_messaging) (Delivery ''i'' Inbox) example_dl_evs) = [''i/1'']"
  "dl_answers (foldl (dl_step example_contract example_messaging) (Delivery ''i'' Inbox) example_dl_evs) =
     [(0, SentWaiting Preparing [])]"
  by code_simp+

theorem message_goes_out_once_witness:
  "let d = foldl (dl_step example_contract example_messaging) (Delivery ''i'' Inbox) example_dl_evs
   in dl_handed d = [''i/1''] \<and> distinct (dl_handed d)"
  using message_goes_out_once [OF example_dl_run(1), of example_contract example_messaging example_dl_evs] example_dl_run(2)
  by (simp add: Let_def)

section \<open>What a watcher sees, and that nothing is lost\<close>

text \<open>The view of somebody who is told arrivals and removals on the topic.\<close>

fun view_frame :: "mid set \<Rightarrow> audience \<times> inbox_data \<Rightarrow> mid set" where
  "view_frame seen (People, InboxMessages rows) = seen \<union> (\<lambda>(m, to). msg_mid m) ` set rows"
| "view_frame seen (People, InboxRemoved es) = seen - fst ` set es"
| "view_frame seen (ToSession sid, data) = seen"

definition announced :: "delivery \<Rightarrow> mid set" where
  "announced d = {x. \<exists>es. (People, InboxRemoved es) \<in> set (dl_published d) \<and> x \<in> fst ` set es}"

text \<open>Where a message that was made can be.\<close>

definition placed :: "delivery \<Rightarrow> mid set" where
  "placed d = ran (direct_of (dl_calls d)) \<union> set (dl_handed d) \<union> iv.everywhere (dl_inbox d) \<union> ib_leaving (dl_inbox d) \<union> announced d"

definition dl_told :: "(audience \<times> inbox_data) list \<Rightarrow> mid set \<Rightarrow> delivery \<Rightarrow> bool" where
  "dl_told base seen d \<longleftrightarrow> ib_sound (dl_inbox d)
     \<and> (\<exists>fr. dl_published d = base @ fr \<and> iv.view_exact (foldl view_frame seen fr) (dl_inbox d))
     \<and> (\<forall>(to, m) \<in> set (dl_issued d). msg_mid m \<in> placed d)"

lemma view_removals: "foldl view_frame seen (removal_frames es) = seen - fst ` set es"
  by (induction es arbitrary: seen) (auto simp: removal_frames_def)

lemma told_news: "fst ` set (drop (length (ib_told b)) (ib_told b')) = set (iv.news b b')"
  by (simp add: iv.news_def ib_told_mids_def drop_map)

lemma announced_box: "announced (dl_box b d) = announced d \<union> set (iv.news (dl_inbox d) b)"
  by (auto simp: announced_def dl_box_eq removal_frames_def told_news [symmetric])

lemma told_move:
  assumes "dl_told base seen d" "dl_published d' = dl_published d" "dl_inbox d' = dl_inbox d" "dl_issued d' = dl_issued d"
    "placed d \<subseteq> placed d'"
  shows "dl_told base seen d'"
  using assms unfolding dl_told_def by auto

lemma told_box:
  assumes t: "dl_told base seen d" and b: "iv.thins (dl_inbox d) b" "iv.explains (dl_inbox d) b" "ib_sound b"
  shows "dl_told base seen (dl_box b d)"
proof -
  from t obtain fr where fr: "dl_published d = base @ fr" "iv.view_exact (foldl view_frame seen fr) (dl_inbox d)"
    by (auto simp: dl_told_def)
  let ?fr = "fr @ removal_frames (drop (length (ib_told (dl_inbox d))) (ib_told b))"
  have "iv.view_exact (foldl view_frame seen ?fr) b"
    using iv.view_thins [OF fr(2) b(1,2)] by (simp add: view_removals told_news)
  then have "\<exists>fr. dl_published (dl_box b d) = base @ fr \<and> iv.view_exact (foldl view_frame seen fr) (dl_inbox (dl_box b d))"
    by (intro exI [of _ ?fr]) (simp add: dl_box_eq fr(1))
  moreover have "iv.everywhere (dl_inbox d) \<union> ib_leaving (dl_inbox d) \<subseteq> iv.everywhere b \<union> ib_leaving b \<union> set (iv.news (dl_inbox d) b)"
    using b(2) by (auto simp: iv.explains_def iv.news_def)
  then have "placed d \<subseteq> placed (dl_box b d)" unfolding placed_def announced_box by (simp add: dl_box_eq) blast
  ultimately show ?thesis using t b(3) unfolding dl_told_def by (auto simp: dl_box_eq)
qed

lemma ran_drop: "P c = Some x \<Longrightarrow> ran P \<subseteq> insert x (ran (P(c := None)))"
  by (auto simp: ran_def) (metis option.inject)

lemma told_hold:
  assumes t: "dl_told base seen d" and o: "dl_once d" and c: "map_of (dl_calls d) call = Some (CallDirect to message row)"
  shows "dl_told base seen (dl_hold ct now call to message after d)"
proof -
  let ?b = "ib_hold ct to message now (dl_inbox d)" and ?d = "dl_hold ct now call to message after d"
  have p: "direct_of (dl_calls d) call = Some (msg_mid message)" by (simp add: c direct_of_def)
  have ok: "iv.box_ok (dl_inbox d)" and new: "msg_mid message \<notin> iv.everywhere (dl_inbox d)"
    using dl_onceD [OF o] onceD(4) [OF dl_onceD [OF o] p] by (auto dest: onceD(1))
  have so: "ib_sound (dl_inbox d)" using t by (simp add: dl_told_def)
  note j = ib.hold_joins [OF ok, of to message ct now] and x = ibt.hold_explains [OF ok so, of ct to message now]
  from t obtain fr where fr: "dl_published d = base @ fr" "iv.view_exact (foldl view_frame seen fr) (dl_inbox d)"
    by (auto simp: dl_told_def)
  let ?fr = "fr @ (People, InboxMessages [(message, Some to)]) # removal_frames (drop (length (ib_told (dl_inbox d))) (ib_told ?b))"
  have "iv.view_exact (foldl view_frame seen ?fr) ?b"
    using iv.view_joins [OF fr(2) j x new] by (simp add: view_removals told_news insert_def [symmetric])
  moreover have pub: "dl_published ?d = base @ ?fr" by (simp add: dl_hold_def dl_frame Let_def fr(1))
  moreover have inb: "dl_inbox ?d = ?b" by (simp add: dl_hold_def dl_frame Let_def)
  moreover have "ib_sound ?b" by (rule ibt.sound_hold [OF so])
  moreover have "placed d \<subseteq> placed ?d"
  proof -
    have "iv.everywhere (dl_inbox d) \<union> ib_leaving (dl_inbox d) \<subseteq> iv.everywhere ?b \<union> ib_leaving ?b \<union> set (iv.news (dl_inbox d) ?b)"
      using x by (auto simp: iv.explains_def iv.news_def)
    moreover have "set (iv.news (dl_inbox d) ?b) \<subseteq> announced ?d"
      by (auto simp: announced_def pub removal_frames_def told_news [symmetric])
    moreover have "announced d \<subseteq> announced ?d" unfolding announced_def pub fr(1) by auto
    moreover have "msg_mid message \<in> iv.everywhere ?b" using j by (auto simp: iv.joins_def iv.everywhere_def)
    moreover have "ran (direct_of (dl_calls d)) \<subseteq> insert (msg_mid message) (ran (direct_of (dl_calls ?d)))"
      using ran_drop [of "direct_of (dl_calls d)", OF p] by (simp add: dl_hold_def dl_frame Let_def)
    moreover have "dl_handed ?d = dl_handed d" by (simp add: dl_hold_def dl_frame Let_def)
    ultimately show ?thesis unfolding placed_def inb by auto
  qed
  moreover have "dl_issued ?d = dl_issued d" by (simp add: dl_hold_def dl_frame Let_def)
  ultimately show ?thesis using t unfolding dl_told_def by auto
qed

lemma placed_answer: "placed (dl_answer call a d) \<supseteq> placed d" if "direct_of (dl_calls d) call = None"
proof -
  have "(direct_of (dl_calls d))(call := None) = direct_of (dl_calls d)" using that by auto
  then show ?thesis by (simp add: placed_def dl_answer_def announced_def)
qed

lemma told_answer:
  assumes "dl_told base seen d" "direct_of (dl_calls d) call = None"
  shows "dl_told base seen (dl_answer call a d)"
  by (rule told_move [OF assms(1)]) (simp_all add: placed_answer [OF assms(2)], simp_all add: dl_answer_def)

lemma told_ask:
  assumes t: "dl_told base seen d" and o: "dl_once d"
  shows "dl_told base seen (dl_box (snd (ib_undelivered ct sid now (dl_inbox d))) d)"
proof -
  have ok: "iv.box_ok (dl_inbox d)" by (rule onceD(1) [OF dl_onceD [OF o]])
  have so: "ib_sound (dl_inbox d)" using t by (simp add: dl_told_def)
  show ?thesis by (rule told_box [OF t ib.ask_thins [OF ok] ibt.ask_explains [OF ok so] ibt.sound_ask [OF so]])
qed

lemma told_offer:
  assumes t: "dl_told base seen d" and o: "dl_once d"
  shows "dl_told base seen (snd (dl_offer ct now to caller d))"
proof (cases "to \<in> set (dl_offering d)")
  case False
  obtain held b where u: "ib_undelivered ct to now (dl_inbox d) = (held, b)" by fastforce
  have b: "dl_told base seen (dl_box b d)" using told_ask [OF t o, of ct to now] by (simp add: u)
  then have "dl_told base seen ((dl_box b d)\<lparr>dl_offering := x, dl_claimed := y, dl_offers := z\<rparr>)" for x y z
    by (rule told_move) (simp_all add: placed_def announced_def)
  with b False show ?thesis by (simp add: dl_offer_def u Let_def split: list.splits)
qed (use t in \<open>simp add: dl_offer_def\<close>)

lemma told_end:
  assumes "dl_told base seen d" "\<And>c. caller = Some c \<Longrightarrow> direct_of (dl_calls d) c = None"
  shows "dl_told base seen (dl_offer_end to ok caller d)"
proof -
  let ?d = "d\<lparr>dl_claimed := map_del to (dl_claimed d), dl_offering := set_del to (dl_offering d), dl_offers := map_del to (dl_offers d)\<rparr>"
  have t: "dl_told base seen ?d" by (rule told_move [OF assms(1)]) (simp_all add: placed_def announced_def)
  show ?thesis
  proof (cases caller)
    case (Some c)
    with assms(2) told_answer [OF t, of c] show ?thesis by (simp add: dl_offer_end_def)
  qed (use t in \<open>simp add: dl_offer_end_def\<close>)
qed

text \<open>The call an offer was started for waits for that offer and for nothing else.\<close>

definition offer_callers :: "delivery \<Rightarrow> bool" where
  "offer_callers d \<longleftrightarrow> (\<forall>to p c. map_of (dl_offers d) to = Some (p, Some c) \<longrightarrow> direct_of (dl_calls d) c = None \<and> c < dl_nextCall d)"

lemma offer_callersD:
  "offer_callers d \<Longrightarrow> map_of (dl_offers d) to = Some (p, Some c) \<Longrightarrow> direct_of (dl_calls d) c = None \<and> c < dl_nextCall d"
  unfolding offer_callers_def by blast

lemma offer_callers_keep:
  assumes "offer_callers d" "\<And>c. direct_of (dl_calls d) c = None \<Longrightarrow> c < dl_nextCall d \<Longrightarrow> direct_of (dl_calls d') c = None"
    "dl_nextCall d \<le> dl_nextCall d'" "dl_offers d' = dl_offers d"
  shows "offer_callers d'"
  unfolding offer_callers_def assms(4) using offer_callersD [OF assms(1)] assms(2,3) by (meson less_le_trans)

lemma callers_box: "offer_callers (dl_box b d) = offer_callers d"
  by (simp add: offer_callers_def dl_box_eq)

lemma callers_answer: "offer_callers d \<Longrightarrow> offer_callers (dl_answer c a d)"
  by (erule offer_callers_keep) (simp_all add: dl_answer_def)

lemma callers_offer:
  assumes "offer_callers d" "\<And>c. caller = Some c \<Longrightarrow> direct_of (dl_calls d) c = None \<and> c < dl_nextCall d"
  shows "offer_callers (snd (dl_offer ct now to caller d))"
proof -
  obtain held b where u: "ib_undelivered ct to now (dl_inbox d) = (held, b)" by fastforce
  have "offer_callers ((dl_box b d)\<lparr>dl_offering := x, dl_claimed := y, dl_offers := map_set to (p, caller) (dl_offers (dl_box b d))\<rparr>)" for x y p
    using assms by (auto simp: offer_callers_def dl_box_eq)
  with assms(1) show ?thesis
    by (auto simp: dl_offer_def u Let_def callers_box split: list.splits)
qed

lemma callers_end:
  assumes "offer_callers d"
  shows "offer_callers (dl_offer_end to ok caller d)"
proof -
  have "offer_callers (d\<lparr>dl_claimed := map_del to (dl_claimed d), dl_offering := set_del to (dl_offering d), dl_offers := map_del to (dl_offers d)\<rparr>)"
    using assms by (auto simp: offer_callers_def)
  then show ?thesis by (auto simp: dl_offer_end_def Let_def callers_answer split: option.splits)
qed

definition dl_full :: "(audience \<times> inbox_data) list \<Rightarrow> mid set \<Rightarrow> delivery \<Rightarrow> bool" where
  "dl_full base seen d \<longleftrightarrow> dl_once d \<and> dl_told base seen d \<and> offer_callers d"

lemma dl_fullI: "dl_once d \<Longrightarrow> dl_told base seen d \<Longrightarrow> offer_callers d \<Longrightarrow> dl_full base seen d"
  and dl_fullD: "dl_full base seen d \<Longrightarrow> dl_once d" "dl_full base seen d \<Longrightarrow> dl_told base seen d" "dl_full base seen d \<Longrightarrow> offer_callers d"
  by (simp_all add: dl_full_def)

lemma full_answer:
  assumes "dl_full base seen d" "direct_of (dl_calls d) call = None"
  shows "dl_full base seen (dl_answer call a d)"
  using assms by (simp add: dl_full_def dl_once_answer told_answer callers_answer)

lemma full_send:
  assumes f: "dl_full base seen d"
  shows "dl_full base seen (dl_send mc env (dl_nextCall d) args identity (d\<lparr>dl_nextCall := dl_nextCall d + 1\<rparr>))"
proof -
  let ?c = "dl_nextCall d" and ?d = "d\<lparr>dl_nextCall := dl_nextCall d + 1\<rparr>"
  let ?r = "dl_send mc env ?c args identity ?d"
  have "map_of (dl_calls d) ?c = None" using dl_fullD(1) [OF f] by (auto simp: dl_once_def)
  then have n: "direct_of (dl_calls d) ?c = None" by (simp add: direct_of_def)
  have t0: "dl_told base seen ?d" by (rule told_move [OF dl_fullD(2) [OF f]]) (simp_all add: placed_def announced_def)
  have c0: "offer_callers ?d" by (rule offer_callers_keep [OF dl_fullD(3) [OF f]]) simp_all
  have same: "(direct_of (dl_calls d))(?c := None) = direct_of (dl_calls d)" using n by auto
  have answered: "dl_told base seen (dl_answer ?c a ?d) \<and> offer_callers (dl_answer ?c a ?d)" for a
    using told_answer [OF t0, of ?c a] callers_answer [OF c0] n by simp
  have forwarded: "dl_told base seen (?d\<lparr>dl_calls := map_set ?c (CallForward i) (dl_calls ?d), dl_forwarded := x\<rparr>)
      \<and> offer_callers (?d\<lparr>dl_calls := map_set ?c (CallForward i) (dl_calls ?d), dl_forwarded := x\<rparr>)" for i x
    by (intro conjI told_move [OF t0] offer_callers_keep [OF c0]) (simp_all add: placed_def announced_def same)
  have issued: "dl_told base seen (?d\<lparr>dl_counter := k, dl_calls := map_set ?c (CallDirect to m row) (dl_calls ?d), dl_issued := dl_issued d @ [(to, m)]\<rparr>)
      \<and> offer_callers (?d\<lparr>dl_counter := k, dl_calls := map_set ?c (CallDirect to m row) (dl_calls ?d), dl_issued := dl_issued d @ [(to, m)]\<rparr>)"
    (is "dl_told _ _ ?i \<and> _") for k to m row
  proof
    have "ran (direct_of (dl_calls ?i)) = insert (msg_mid m) (ran (direct_of (dl_calls d)))" using n by (simp add: ran_map_upd)
    then have p: "placed ?i = insert (msg_mid m) (placed d)" by (simp add: placed_def announced_def)
    have "msg_mid m' \<in> placed ?i" if "(to', m') \<in> set (dl_issued ?i)" for to' m'
      using that dl_fullD(2) [OF f] unfolding p by (auto simp: dl_told_def)
    then show "dl_told base seen ?i" using dl_fullD(2) [OF f] by (auto simp: dl_told_def)
    show "offer_callers ?i"
      using offer_callersD [OF dl_fullD(3) [OF f]] by (fastforce simp: offer_callers_def)
  qed
  have "dl_told base seen ?r \<and> offer_callers ?r"
    using answered forwarded issued
    by (auto simp: dl_send_def dl_elsewhere_def dl_message_def dl_mid_def Let_def split: option.splits sum.splits)
  then show ?thesis using dl_once_send [OF dl_fullD(1) [OF f], of mc env args identity] by (simp add: dl_full_def)
qed

lemma full_box:
  assumes "dl_full base seen d" "iv.thins (dl_inbox d) b" "iv.explains (dl_inbox d) b" "ib_sound b"
  shows "dl_full base seen (dl_box b d)"
  using assms by (simp add: dl_full_def dl_once_box told_box callers_box)

lemma full_ask: "dl_full base seen d \<Longrightarrow> dl_full base seen (dl_box (snd (ib_undelivered ct sid now (dl_inbox d))) d)"
proof (rule full_box)
  assume f: "dl_full base seen d"
  have ok: "iv.box_ok (dl_inbox d)" by (rule onceD(1) [OF dl_onceD [OF dl_fullD(1) [OF f]]])
  have so: "ib_sound (dl_inbox d)" using dl_fullD(2) [OF f] by (simp add: dl_told_def)
  show "iv.thins (dl_inbox d) (snd (ib_undelivered ct sid now (dl_inbox d)))" by (rule ib.ask_thins [OF ok])
  show "iv.explains (dl_inbox d) (snd (ib_undelivered ct sid now (dl_inbox d)))" by (rule ibt.ask_explains [OF ok so])
  show "ib_sound (snd (ib_undelivered ct sid now (dl_inbox d)))" by (rule ibt.sound_ask [OF so])
qed

lemma full_offer:
  assumes "dl_full base seen d" "\<And>c. caller = Some c \<Longrightarrow> direct_of (dl_calls d) c = None \<and> c < dl_nextCall d"
  shows "dl_full base seen (snd (dl_offer ct now to caller d))"
  using assms by (simp add: dl_full_def dl_once_offer told_offer callers_offer)

lemma full_end:
  assumes f: "dl_full base seen d" and "map_of (dl_offers d) to = Some (p, caller)"
  shows "dl_full base seen (dl_offer_end to ok caller d)"
proof -
  have "\<And>c. caller = Some c \<Longrightarrow> direct_of (dl_calls d) c = None"
    using offer_callersD [OF dl_fullD(3) [OF f]] assms(2) by blast
  then show ?thesis using f by (simp add: dl_full_def dl_once_end told_end callers_end)
qed

lemma full_retry: "dl_full base seen d \<Longrightarrow> dl_full base seen (dl_retry ct mc env d)"
proof -
  have "dl_full base seen d \<Longrightarrow> dl_full base seen (dl_retry_over ct mc env sids d)" for sids d
  proof (induction sids arbitrary: d)
    case (Cons sid sids)
    have "dl_full base seen (snd (dl_offer ct (de_now env) sid None d))" by (rule full_offer [OF Cons.prems]) simp
    with Cons show ?case by (auto split: option.splits)
  qed simp
  then show "dl_full base seen d \<Longrightarrow> ?thesis" by (simp add: dl_retry_def)
qed

lemma full_hold:
  assumes f: "dl_full base seen d" and c: "map_of (dl_calls d) call = Some (CallDirect to message row)"
  shows "dl_full base seen (dl_hold ct now call to message after d)"
proof (rule dl_fullI)
  show "dl_once (dl_hold ct now call to message after d)" by (rule dl_once_hold [OF dl_fullD(1) [OF f] c])
  show "dl_told base seen (dl_hold ct now call to message after d)" by (rule told_hold [OF dl_fullD(2,1) [OF f] c])
  show "offer_callers (dl_hold ct now call to message after d)"
    by (rule offer_callers_keep [OF dl_fullD(3) [OF f]]) (simp_all add: dl_hold_def dl_frame Let_def)
qed

lemma full_sent:
  assumes f: "dl_full base seen d"
  shows "dl_full base seen (dl_offer_sent to outcome d)"
proof (cases "\<exists>m rest caller. map_of (dl_offers d) to = Some (OfferSending m rest, caller) \<and> outcome = DirectDelivered")
  case True
  then obtain m rest caller where m: "map_of (dl_offers d) to = Some (OfferSending m rest, caller)" and del: "outcome = DirectDelivered"
    by blast
  note o = dl_onceD [OF dl_fullD(1) [OF f]]
  have ok: "iv.box_ok (dl_inbox d)" by (rule onceD(1) [OF o])
  have so: "ib_sound (dl_inbox d)" using dl_fullD(2) [OF f] by (simp add: dl_told_def)
  let ?b = "ib_delivered to [msg_mid m] (dl_inbox d)"
  have "set [msg_mid m] \<inter> set (ib_waiting (dl_inbox d) s) = {}" if "s \<noteq> to" for s
    using onceD(12) [OF o, of "msg_mid m" to s] that by (simp add: offered_to_def m)
  then have t: "iv.thins (dl_inbox d) ?b" by (rule ib.delivered_thins [OF ok])
  have b: "dl_told base seen (dl_box ?b d)"
    by (rule told_box [OF dl_fullD(2) [OF f] t ibt.delivered_explains [OF ok so] ibt.sound_delivered [OF so]])
  show ?thesis
  proof (rule dl_fullI)
    show "dl_once (dl_offer_sent to outcome d)" by (rule dl_once_sent [OF dl_fullD(1) [OF f]])
    show "dl_told base seen (dl_offer_sent to outcome d)"
      by (rule told_move [OF b]) (auto simp: dl_offer_sent_def m del Let_def dl_box_eq placed_def announced_def)
    show "offer_callers (dl_offer_sent to outcome d)"
      using dl_fullD(3) [OF f] m by (auto simp: offer_callers_def dl_offer_sent_def del Let_def dl_box_eq)
  qed
next
  case False
  then show ?thesis using f
    by (auto simp: dl_offer_sent_def full_end split: option.splits prod.splits offer_phase.splits)
qed

lemma full_written:
  assumes f: "dl_full base seen d"
  shows "dl_full base seen (dl_offer_written to d)"
proof (cases "map_of (dl_offers d) to")
  case (Some p)
  obtain ph caller where p: "p = (ph, caller)" by (cases p)
  have "dl_told base seen (d\<lparr>dl_offers := os\<rparr>)" for os
    by (rule told_move [OF dl_fullD(2) [OF f]]) (simp_all add: placed_def announced_def)
  moreover have "offer_callers (d\<lparr>dl_offers := map_set to (q, caller) (dl_offers d)\<rparr>)" for q
    using dl_fullD(3) [OF f] Some p by (auto simp: offer_callers_def)
  moreover have "dl_once (dl_offer_written to d)" by (rule dl_once_written [OF dl_fullD(1) [OF f]])
  ultimately show ?thesis using f full_end [OF f, of to ph caller] Some p
    by (auto simp: dl_offer_written_def dl_full_def split: option.splits list.splits settled.splits offer_phase.splits)
qed (use f in \<open>simp add: dl_offer_written_def\<close>)

lemma full_resumed:
  assumes f: "dl_full base seen d"
  shows "dl_full base seen (dl_hold_resumed ct mc env call d)"
proof (cases "\<exists>to ticket after. map_of (dl_calls d) call = Some (CallHold to ticket after)")
  case True
  then obtain to ticket after where c: "map_of (dl_calls d) call = Some (CallHold to ticket after)" by blast
  obtain a b where r: "ib_resume ct ticket (dl_inbox d) = (a, b)" by fastforce
  have ok: "iv.box_ok (dl_inbox d)" by (rule onceD(1) [OF dl_onceD [OF dl_fullD(1) [OF f]]])
  have so: "ib_sound (dl_inbox d)" using dl_fullD(2) [OF f] by (simp add: dl_told_def)
  have box: "dl_full base seen (dl_box b d)"
    using full_box [OF f ib.resume_thins [OF ok] ibt.resume_explains [OF ok so] ibt.sound_resume [OF so], of ct ticket]
    by (simp add: r)
  have n: "direct_of (dl_calls (dl_box b d)) call = None" using c by (simp add: dl_box_eq direct_of_def)
  let ?m = "(dl_box b d)\<lparr>dl_calls := map_set call (CallHold to (ib_next (dl_inbox d)) after) (dl_calls (dl_box b d))\<rparr>"
  have same: "(direct_of (dl_calls (dl_box b d)))(call := None) = direct_of (dl_calls (dl_box b d))" using n by auto
  have "dl_told base seen ?m"
    by (rule told_move [OF dl_fullD(2) [OF box]]) (simp_all add: placed_def announced_def same)
  moreover have "offer_callers ?m" by (rule offer_callers_keep [OF dl_fullD(3) [OF box]]) (simp_all add: same)
  moreover have "dl_once ?m" using c by (intro dl_once_calls(1) [OF dl_fullD(1) [OF box]]) (simp_all add: dl_box_eq)
  ultimately have "dl_full base seen ?m" by (simp add: dl_full_def)
  with box n show ?thesis
    by (auto simp: dl_hold_resumed_def c r Let_def full_answer split: hold_answer.splits after_hold.splits)
next
  case False
  then show ?thesis using f by (auto simp: dl_hold_resumed_def split: option.splits send_call.splits)
qed

lemma full_handed:
  assumes f: "dl_full base seen d" and c: "map_of (dl_calls d) call = Some (CallDirect to message row)"
  shows "dl_full base seen (d\<lparr>dl_calls := map_set call (CallOffer to) (dl_calls d), dl_handed := dl_handed d @ [msg_mid message]\<rparr>)"
    (is "dl_full _ _ ?d")
proof (rule dl_fullI)
  show "dl_once ?d" by (rule dl_once_handed(1) [OF dl_fullD(1) [OF f] c])
  have "direct_of (dl_calls d) call = Some (msg_mid message)" by (simp add: direct_of_def c)
  from ran_drop [of "direct_of (dl_calls d)", OF this] show "dl_told base seen ?d"
    by (intro told_move [OF dl_fullD(2) [OF f]]) (auto simp: placed_def announced_def)
  show "offer_callers ?d" by (rule offer_callers_keep [OF dl_fullD(3) [OF f]]) simp_all
qed

lemma view_published:
  assumes "dl_told base seen d" "dl_published d' = dl_published d @ fr" "dl_inbox d' = dl_inbox d" "dl_issued d' = dl_issued d"
    "placed d \<subseteq> placed d'" "\<And>s. iv.view_exact s (dl_inbox d) \<Longrightarrow> iv.view_exact (foldl view_frame s fr) (dl_inbox d)"
  shows "dl_told base seen d'"
proof -
  from assms(1) obtain g where g: "dl_published d = base @ g" "iv.view_exact (foldl view_frame seen g) (dl_inbox d)"
    by (auto simp: dl_told_def)
  then have "dl_published d' = base @ (g @ fr)" "iv.view_exact (foldl view_frame seen (g @ fr)) (dl_inbox d')"
    using assms(2,3,6) by simp_all
  then show ?thesis using assms(1,3-5) unfolding dl_told_def by auto
qed

lemma full_partly: "dl_full base seen (d\<lparr>dl_partly := hs\<rparr>) = dl_full base seen d"
  by (simp add: dl_full_def dl_told_def placed_def announced_def offer_callers_def)

lemma full_routed:
  assumes f: "dl_full base seen d" and outcome: "outcome \<noteq> DirectThrew"
  shows "dl_full base seen (dl_routed ct env call outcome d)"
proof (cases "\<exists>to message row. map_of (dl_calls d) call = Some (CallDirect to message row)")
  case True
  then obtain to message row where c: "map_of (dl_calls d) call = Some (CallDirect to message row)" by blast
  have lt: "call < dl_nextCall d" using dl_fullD(1) [OF f] c by (force simp: dl_once_def intro: ccontr)
  have p: "direct_of (dl_calls d) call = Some (msg_mid message)" by (simp add: direct_of_def c)
  note o = dl_onceD [OF dl_fullD(1) [OF f]]
  show ?thesis
  proof (cases outcome)
    case DirectDelivered
    let ?d = "d\<lparr>dl_calls := map_set call (CallOffer to) (dl_calls d), dl_handed := dl_handed d @ [msg_mid message]\<rparr>"
    obtain r d1 where r: "dl_offer ct (de_now env) to (Some call) ?d = (r, d1)" by fastforce
    have "dl_full base seen (snd (dl_offer ct (de_now env) to (Some call) ?d))"
      using lt by (intro full_offer full_handed [OF f c]) simp
    then have "dl_full base seen d1" by (simp add: r)
    moreover have "direct_of (dl_calls d1) call = None"
      using arg_cong [OF r, of "\<lambda>x. direct_of (dl_calls (snd x)) call"]
      by (simp add: dl_offer_def Let_def dl_box_eq split: if_splits prod.splits list.splits)
    ultimately show ?thesis using DirectDelivered by (simp add: dl_routed_def c r Let_def full_answer)
  next
    case DirectUnavailable
    let ?d1 = "dl_publish (ToSession to) (InboxMessages [(message, None)]) d"
    have p1: "placed d \<subseteq> placed ?d1" by (auto simp: placed_def announced_def dl_publish_def)
    have t1: "dl_told base seen ?d1"
      by (rule view_published [OF dl_fullD(2) [OF f] _ _ _ p1, where fr = "[(ToSession to, InboxMessages [(message, None)])]"])
         (simp_all add: dl_publish_def)
    have f1: "dl_full base seen ?d1"
      using f t1 by (simp add: dl_full_def dl_publish_def offer_callers_def)
    let ?taken = "dl_answer call SentDelivered (dl_removed [msg_mid message] Delivered
        (dl_watchers to [message] (?d1\<lparr>dl_handed := dl_handed ?d1 @ [msg_mid message]\<rparr>)))"
    have "dl_full base seen ?taken"
    proof (rule dl_fullI)
      show "dl_once ?taken" using dl_once_handed(2) [OF dl_fullD(1) [OF f] c] by (simp add: dl_once_def dl_frame)
      show "offer_callers ?taken" by (rule offer_callers_keep [OF dl_fullD(3) [OF f]]) (simp_all add: dl_frame)
      have "msg_mid message \<notin> iv.everywhere (dl_inbox d)" by (rule onceD(4) [OF o p])
      then have "iv.view_exact s (dl_inbox d) \<Longrightarrow> iv.view_exact (s - {msg_mid message}) (dl_inbox d)" for s
        by (auto simp: iv.view_exact_def)
      moreover have "placed ?d1 \<subseteq> placed ?taken"
        using ran_drop [of "direct_of (dl_calls d)", OF p] by (auto simp: placed_def announced_def dl_frame)
      ultimately show "dl_told base seen ?taken"
        by (intro view_published [OF t1, where fr = "[(People, InboxMessages [(message, Some to)]), (People, InboxRemoved [(msg_mid message, Delivered)])]"])
           (simp_all add: dl_frame)
    qed
    moreover have "map_of (dl_calls ?d1) call = Some (CallDirect to message row)" using c by (simp add: dl_publish_def)
    moreover have "dl_full base seen (?d1\<lparr>dl_partly := hs\<rparr>)" for hs using f1 by (simp add: full_partly)
    ultimately show ?thesis using DirectUnavailable c full_hold [OF f c] full_hold [OF f1] full_hold
      by (simp add: dl_routed_def Let_def)
  qed (use f c full_hold [OF f c] outcome in \<open>simp_all add: dl_routed_def\<close>)
next
  case False
  then show ?thesis using f by (auto simp: dl_routed_def split: option.splits send_call.splits)
qed

lemma full_waiting: "dl_full base seen d \<Longrightarrow> dl_full base seen (snd (dl_waiting ct now sids d))"
proof (induction sids arbitrary: d)
  case (Cons sid sids)
  obtain held b where u: "ib_undelivered ct sid now (dl_inbox d) = (held, b)" by fastforce
  have "dl_full base seen (dl_box b d)" using full_ask [OF Cons.prems, of ct sid now] by (simp add: u)
  from Cons.IH [OF this] show ?case by (auto simp: u split: prod.splits)
qed simp

lemma full_snapshot:
  assumes f: "dl_full base seen d"
  shows "dl_full base seen (snd (dl_snapshot ct now topic identity d))"
proof (cases "\<exists>role sid. identity = Settled role (Some sid) \<and> topic = ''inbox''")
  case False
  then show ?thesis using f full_waiting [OF f, of ct now "ib_sids (dl_inbox d)"]
    by (auto simp: dl_snapshot_def split: conn_identity.splits option.splits prod.splits)
next
  case True
  then obtain role sid where i: "identity = Settled role (Some sid)" "topic = ''inbox''" by blast
  obtain all b where u: "ib_undelivered ct sid now (dl_inbox d) = (all, b)" by fastforce
  define mids where "mids = map msg_mid (filter (\<lambda>m. msg_mid m \<notin> set (map_get_or [] (dl_claimed d) sid)) all)"
  let ?d1 = "dl_box b d"
  have f1: "dl_full base seen ?d1" using full_ask [OF f, of ct sid now] by (simp add: u)
  have b: "dl_inbox ?d1 = b" by (simp add: dl_box_eq)
  have ok: "iv.box_ok (dl_inbox d)" and okb: "iv.box_ok b"
    using onceD(1) [OF dl_onceD [OF dl_fullD(1) [OF f]]] onceD(1) [OF dl_onceD [OF dl_fullD(1) [OF f1]]] by (simp_all add: b)
  have so: "ib_sound b" using dl_fullD(2) [OF f1] by (simp add: dl_told_def b)
  have "map msg_mid all = ib_waiting b sid" using ib.ask_answers [OF ok, of ct sid now] by (simp add: u)
  then have "set (map msg_mid all) = set (ib_waiting b sid)" by simp
  then have "set mids \<subseteq> set (ib_waiting b sid)" by (auto simp: mids_def)
  then have "set mids \<inter> set (ib_waiting b s) = {}" if "s \<noteq> sid" for s using iv.box_okD(3) [OF okb, of sid s] that by blast
  then have t: "iv.thins b (ib_delivered sid mids b)" by (rule ib.delivered_thins [OF okb])
  have f2: "dl_full base seen (dl_box (ib_delivered sid mids b) ?d1)"
    by (rule full_box [OF f1]) (simp_all add: b t ibt.delivered_explains [OF okb so] ibt.sound_delivered [OF so])
  let ?d2 = "dl_box (ib_delivered sid mids b) ?d1"
  have r: "snd (dl_snapshot ct now topic identity d) = ?d2\<lparr>dl_handed := dl_handed ?d2 @ mids\<rparr>"
    by (simp add: dl_snapshot_def i u Let_def mids_def b dl_box_eq)
  show ?thesis
  proof (rule dl_fullI)
    show "dl_once (snd (dl_snapshot ct now topic identity d))" by (rule dl_once_snapshot [OF dl_fullD(1) [OF f]])
    show "dl_told base seen (snd (dl_snapshot ct now topic identity d))" unfolding r
      by (rule told_move [OF dl_fullD(2) [OF f2]]) (auto simp: placed_def announced_def)
    show "offer_callers (snd (dl_snapshot ct now topic identity d))" unfolding r
      by (rule offer_callers_keep [OF dl_fullD(3) [OF f2]]) simp_all
  qed
qed

text \<open>No line of the inbox fails and route (a) answers one of its three outcomes.\<close>

fun orderly :: "dl_event \<Rightarrow> bool" where
  "orderly (DlLine ok) = ok"
| "orderly (DlRouted env call outcome) = (outcome \<noteq> DirectThrew)"
| "orderly _ = True"

lemma full_step:
  assumes f: "dl_full base seen d" and e: "orderly e"
  shows "dl_full base seen (dl_step ct mc d e)"
proof (cases e)
  case (DlLine ok)
  have so: "ib_sound (dl_inbox d)" using dl_fullD(2) [OF f] by (simp add: dl_told_def)
  note s = ib.settle_same(2-4) [of True "dl_inbox d"]
  have ev: "iv.everywhere (ib_settle True (dl_inbox d)) = iv.everywhere (dl_inbox d)" by (simp add: iv.everywhere_def s)
  have "dl_told base seen (d\<lparr>dl_inbox := ib_settle True (dl_inbox d)\<rparr>)"
    using dl_fullD(2) [OF f] ibt.sound_settle [OF so]
    by (simp add: dl_told_def placed_def announced_def iv.view_exact_def ev s)
  moreover have "offer_callers (d\<lparr>dl_inbox := ib_settle True (dl_inbox d)\<rparr>)"
    by (rule offer_callers_keep [OF dl_fullD(3) [OF f]]) simp_all
  ultimately show ?thesis using dl_once_step [OF dl_fullD(1) [OF f], of ct mc e] e by (simp add: DlLine dl_full_def)
next
  case (DlForwardAnswered call answer)
  have "direct_of (dl_calls d) call = None" if "map_of (dl_calls d) call = Some (CallForward i)" for i
    using that by (simp add: direct_of_def)
  with f show ?thesis
    by (auto simp: DlForwardAnswered dl_forward_answered_def full_answer split: option.splits send_call.splits)
next
  case (DlRouted env call outcome)
  with e full_routed [OF f] show ?thesis by simp
qed (use f in \<open>simp_all add: full_send [simplified] full_resumed full_retry full_sent full_written full_snapshot\<close>)

lemma full_run:
  assumes "dl_full base seen d" "\<forall>e \<in> set evs. orderly e"
  shows "dl_full base seen (foldl (dl_step ct mc) d evs)"
  using assms by (induction evs arbitrary: d) (simp_all add: full_step)

lemma start_full:
  assumes "inbox_at_start self inbox" "Failed \<notin> snd ` set (ib_settled inbox)"
  shows "dl_full [] (iv.everywhere inbox) (Delivery self inbox)"
  using start_once [OF assms(1)] assms
  by (simp add: dl_full_def dl_told_def offer_callers_def Delivery_def ib_sound_def inbox_at_start_def iv.view_exact_def)

text \<open>
  C7: no message is lost. In an orderly run (no line of the inbox fails, route (a) answers one of
  its outcomes), every message \<open>message.send\<close> made is with a call that still waits for route (a), was
  handed to its session, waits in the inbox, is being dropped for a newer one at this moment, or
  its removal was published to the people watching.
\<close>

theorem message_is_never_lost:
  assumes "inbox_at_start self inbox" and "Failed \<notin> snd ` set (ib_settled inbox)" and "\<forall>e \<in> set evs. orderly e"
    and "(to, m) \<in> set (dl_issued (foldl (dl_step ct mc) (Delivery self inbox) evs))"
  shows "let d = foldl (dl_step ct mc) (Delivery self inbox) evs in
    (\<exists>call to' m' row. map_of (dl_calls d) call = Some (CallDirect to' m' row) \<and> msg_mid m' = msg_mid m)
    \<or> msg_mid m \<in> set (dl_handed d)
    \<or> (\<exists>sid. msg_mid m \<in> msg_mid ` set (held_for (ib_held (dl_inbox d)) sid))
    \<or> (\<exists>t sid. (t, WaitDrop sid (msg_mid m)) \<in> set (ib_flight (dl_inbox d)))
    \<or> (\<exists>es. (People, InboxRemoved es) \<in> set (dl_published d) \<and> msg_mid m \<in> fst ` set es)"
proof -
  let ?d = "foldl (dl_step ct mc) (Delivery self inbox) evs"
  have "dl_full [] (iv.everywhere inbox) ?d" by (rule full_run [OF start_full [OF assms(1,2)] assms(3)])
  then have "msg_mid m \<in> placed ?d" using assms(4) by (auto simp: dl_full_def dl_told_def)
  moreover have "\<exists>call to' m' row. map_of (dl_calls ?d) call = Some (CallDirect to' m' row) \<and> msg_mid m' = x"
    if "x \<in> ran (direct_of (dl_calls ?d))" for x
  proof -
    from that obtain c where "direct_of (dl_calls ?d) c = Some x" by (auto simp: ran_def)
    then obtain v where "map_of (dl_calls ?d) c = Some v" "(case v of CallDirect to m row \<Rightarrow> Some (msg_mid m) | _ \<Rightarrow> None) = Some x"
      by (auto simp: direct_of_def split: option.splits)
    then show ?thesis by (cases v) auto
  qed
  ultimately show ?thesis
    unfolding placed_def iv.everywhere_def ib_waiting_def ib_leaving_def announced_def Let_def by auto
qed

theorem message_is_never_lost_witness:
  "let m = \<lparr>msg_mid = ''i/1'', msg_sent_at = 0, msg_body = \<lparr>mb_from = ''user'', mb_from_label = ''user'', mb_text = ''hi'', mb_reply_to = None\<rparr>\<rparr>;
       d = foldl (dl_step example_contract example_messaging) (Delivery ''i'' Inbox) (take 2 example_dl_evs)
   in (''s'', m) \<in> set (dl_issued d) \<and> dl_handed d = [] \<and> dl_published d = [(People, InboxMessages [(m, Some ''s'')])]
      \<and> ib_flight (dl_inbox d) = [(0, WaitAdd ''s'')]
      \<and> (\<exists>sid. ''i/1'' \<in> msg_mid ` set (held_for (ib_held (dl_inbox d)) sid))"
proof -
  let ?m = "\<lparr>msg_mid = ''i/1'', msg_sent_at = 0, msg_body = \<lparr>mb_from = ''user'', mb_from_label = ''user'', mb_text = ''hi'', mb_reply_to = None\<rparr>\<rparr> :: inbox_message"
  let ?d = "foldl (dl_step example_contract example_messaging) (Delivery ''i'' Inbox) (take 2 example_dl_evs)"
  have iss: "dl_issued ?d = [(''s'', ?m)]" and h: "dl_handed ?d = []"
    and p: "dl_published ?d = [(People, InboxMessages [(?m, Some ''s'')])]" and fl: "ib_flight (dl_inbox ?d) = [(0, WaitAdd ''s'')]"
    and c: "dl_calls ?d = [(0, CallHold ''s'' 0 (SayWhere example_peer))]"
    by code_simp+
  have "\<exists>sid. msg_mid ?m \<in> msg_mid ` set (held_for (ib_held (dl_inbox ?d)) sid)"
    using message_is_never_lost [OF example_dl_run(1), of "take 2 example_dl_evs" "''s''" ?m example_contract example_messaging]
    unfolding Let_def iss h p fl c by (auto simp: example_dl_evs_def Inbox_def split: if_splits)
  with iss h p fl show ?thesis unfolding Let_def by simp
qed

text \<open>The rows a person's subscription opens with are what waits.\<close>

lemma waiting_rows:
  assumes "dl_full base seen d" "dl_waiting ct now sids d = (rows, d')" "distinct sids"
  shows "(\<lambda>(m, to). msg_mid m) ` set rows = (\<Union>s \<in> set sids. set (ib_waiting (dl_inbox d') s))
    \<and> (\<forall>s. s \<notin> set sids \<longrightarrow> ib_waiting (dl_inbox d') s = ib_waiting (dl_inbox d) s)"
  using assms
proof (induction sids arbitrary: d rows)
  case (Cons sid sids)
  obtain held b where u: "ib_undelivered ct sid now (dl_inbox d) = (held, b)" by fastforce
  obtain rows' where w: "dl_waiting ct now sids (dl_box b d) = (rows', d')" and rows: "rows = map (\<lambda>m. (m, Some sid)) held @ rows'"
    using Cons.prems(2) by (auto simp: u split: prod.splits)
  have f: "dl_full base seen (dl_box b d)" using full_ask [OF Cons.prems(1), of ct sid now] by (simp add: u)
  have ok: "iv.box_ok (dl_inbox d)" by (rule onceD(1) [OF dl_onceD [OF dl_fullD(1) [OF Cons.prems(1)]]])
  have b: "dl_inbox (dl_box b d) = b" by (simp add: dl_box_eq)
  have ask: "map msg_mid held = ib_waiting b sid" "\<And>s. s \<noteq> sid \<Longrightarrow> ib_waiting b s = ib_waiting (dl_inbox d) s"
    using ib.ask_answers [OF ok, of ct sid now] ib.ask_others [OF ok, of _ sid ct now] by (simp_all add: u)
  note ih = Cons.IH [OF f w]
  have d: "sid \<notin> set sids" "distinct sids" using Cons.prems(3) by simp_all
  then have "ib_waiting (dl_inbox d') sid = ib_waiting b sid" using ih by (simp add: b)
  then have "(\<lambda>(m, to). msg_mid m) ` set (map (\<lambda>m. (m, Some sid)) held) = set (ib_waiting (dl_inbox d') sid)"
    using ask(1) by (simp add: image_image) (metis list.set_map)
  with ih d ask(2) show ?case by (auto simp: rows b image_Un)
qed simp

text \<open>
  C11: a person watching sees what waits. A person who subscribes to the inbox topic at any point of
  an orderly run and folds the frames published to people afterwards into the rows the
  subscription opened with (a message stated is added, a removal is taken away) holds every
  message that waits for any session, and beyond those only messages being dropped at this moment.
\<close>

theorem watchers_see_what_waits:
  assumes "inbox_at_start self inbox" and "Failed \<notin> snd ` set (ib_settled inbox)"
    and "\<forall>e \<in> set (evs1 @ evs2). orderly e"
    and "dl_snapshot ct now ''inbox'' (Settled User None) (foldl (dl_step ct mc) (Delivery self inbox) evs1) = ([(i, rows)], d1)"
  shows "let d2 = foldl (dl_step ct mc) d1 evs2;
      seen = foldl view_frame ((\<lambda>(m, to). msg_mid m) ` set rows) (drop (length (dl_published d1)) (dl_published d2));
      waits = (\<Union>sid. msg_mid ` set (held_for (ib_held (dl_inbox d2)) sid));
      leaves = {mid. \<exists>t sid. (t, WaitDrop sid mid) \<in> set (ib_flight (dl_inbox d2))}
    in waits \<subseteq> seen \<and> seen \<subseteq> waits \<union> leaves"
proof -
  let ?d0 = "foldl (dl_step ct mc) (Delivery self inbox) evs1" and ?d2 = "foldl (dl_step ct mc) d1 evs2"
  have f0: "dl_full [] (iv.everywhere inbox) ?d0" using assms(3) by (intro full_run [OF start_full [OF assms(1,2)]]) simp
  have f1: "dl_full [] (iv.everywhere inbox) d1" using full_snapshot [OF f0] assms(4) by (metis snd_conv)
  have w: "dl_waiting ct now (ib_sids (dl_inbox ?d0)) ?d0 = (rows, d1)"
    using assms(4) by (simp add: dl_snapshot_def split: prod.splits)
  have wf: "map_wf (ib_held (dl_inbox ?d0))"
    using onceD(1) [OF dl_onceD [OF dl_fullD(1) [OF f0]]] by (simp add: iv.box_ok_def ib_wf_def)
  then have ds: "distinct (ib_sids (dl_inbox ?d0))" by (simp add: ib_sids_def)
  have none: "s \<notin> set (ib_sids (dl_inbox ?d0)) \<Longrightarrow> ib_waiting (dl_inbox ?d0) s = []" for s
    by (simp add: ib_sids_def ib_waiting_def held_for_None map_of_None_keys)
  note r = waiting_rows [OF f0 w ds]
  have rows: "(\<lambda>(m, to). msg_mid m) ` set rows = iv.everywhere (dl_inbox d1)"
    using r none by (force simp: iv.everywhere_def)
  have "dl_full (dl_published d1) (iv.everywhere (dl_inbox d1)) d1"
    using f1 by (simp add: dl_full_def dl_told_def iv.view_exact_def)
  then have "dl_full (dl_published d1) (iv.everywhere (dl_inbox d1)) ?d2" using assms(3) by (intro full_run) simp_all
  then have "iv.view_exact (foldl view_frame (iv.everywhere (dl_inbox d1)) (drop (length (dl_published d1)) (dl_published ?d2))) (dl_inbox ?d2)"
    by (auto simp: dl_full_def dl_told_def)
  then show ?thesis
    unfolding Let_def rows by (simp add: iv.view_exact_def iv.everywhere_def ib_waiting_def ib_leaving_def)
qed

theorem watchers_see_what_waits_witness:
  "let d1 = Delivery ''i'' Inbox; d2 = foldl (dl_step example_contract example_messaging) d1 (take 4 example_dl_evs)
   in ''i/1'' \<in> foldl view_frame {} (dl_published d2)"
proof -
  let ?d1 = "Delivery ''i'' (Inbox :: message_body inbox)"
  let ?d2 = "foldl (dl_step example_contract example_messaging) ?d1 (take 4 example_dl_evs)"
  have s: "dl_snapshot example_contract 0 ''inbox'' (Settled User None) ?d1 = ([(''i'', [])], ?d1)" by code_simp
  have h: "map msg_mid (held_for (ib_held (dl_inbox ?d2)) ''s'') = [''i/1'']" by code_simp
  have p: "dl_published ?d1 = []" by (simp add: Delivery_def)
  have "(\<Union>sid. msg_mid ` set (held_for (ib_held (dl_inbox ?d2)) sid)) \<subseteq> foldl view_frame {} (dl_published ?d2)"
    using watchers_see_what_waits [OF example_dl_run(1), of "[]" "take 4 example_dl_evs" example_contract 0 example_messaging "''i''" "[]" ?d1] s
    unfolding Let_def by (simp add: p) (simp add: example_dl_evs_def Inbox_def)
  moreover have "''i/1'' \<in> msg_mid ` set (held_for (ib_held (dl_inbox ?d2)) ''s'')" using h by (metis list.set_intros(1) list.set_map)
  ultimately show ?thesis unfolding Let_def by blast
qed

section \<open>What a sender is refused with\<close>

definition refusals :: "delivery \<Rightarrow> (nat \<times> string) set" where
  "refusals d = {(c, code). \<exists>msg. (c, SentRefused (code, msg)) \<in> set (dl_answers d)}"

text \<open>
  When an event refuses call \<open>c\<close> with \<open>code\<close>: a send to a session this instance does not hold, that the mesh
  places nowhere else, with every instance of it in reach; a send to a session that two processes run; a
  send by a connection that made no greeting; and the owning instance answering the call it was carried
  to with a refusal of its own, or with nothing that is an answer.
\<close>

fun refuses :: "delivery \<Rightarrow> dl_event \<Rightarrow> nat \<Rightarrow> string \<Rightarrow> bool" where
  "refuses d (DlSend env args who) c code \<longleftrightarrow> c = dl_nextCall d \<and>
     (code = ''session_not_found'' \<and> de_row env (sa_to args) = None
        \<and> (\<forall>reach. de_mesh env = Some reach \<longrightarrow> mr_ownerOf reach (sa_to args) \<in> {None, Some (dl_self d)} \<and> \<not> mr_anyUnreachable reach)
      \<or> code = ''session_duplicated'' \<and> (\<exists>row. de_row env (sa_to args) = Some row \<and> 2 \<le> pe_runs row)
      \<or> code = ''bad_request'' \<and> who = None \<and> (\<exists>row. de_row env (sa_to args) = Some row \<and> pe_runs row < 2))"
| "refuses d (DlForwardAnswered call answer) c code \<longleftrightarrow> call = c \<and> (\<exists>owner. map_of (dl_calls d) call = Some (CallForward owner)) \<and>
     ((\<exists>e. answer = DError e \<and> code = er_code e \<and> code \<noteq> ''instance_unreachable'')
      \<or> code = ''internal_error'' \<and> \<not> (\<exists>e. answer = DError e) \<and> \<not> (\<exists>members. answer = DReply members))"
| "refuses d e c code \<longleftrightarrow> False"

lemma refusals_same: "dl_answers d = dl_answers d' \<Longrightarrow> refusals d = refusals d'"
  by (simp add: refusals_def)

lemma refusals_answer [simp]:
  "refusals (dl_answer call a d) = refusals d \<union> {(c, code). c = call \<and> (\<exists>msg. a = SentRefused (code, msg))}"
  by (auto simp: refusals_def dl_answer_def)

lemma refusals_fields [simp]:
  "refusals (d\<lparr>dl_calls := calls\<rparr>) = refusals d" "refusals (d\<lparr>dl_offers := offers\<rparr>) = refusals d" "refusals (d\<lparr>dl_handed := h\<rparr>) = refusals d"
  "refusals (d\<lparr>dl_partly := h\<rparr>) = refusals d" "refusals (d\<lparr>dl_inbox := b\<rparr>) = refusals d" "refusals (d\<lparr>dl_claimed := cl\<rparr>) = refusals d"
  "refusals (d\<lparr>dl_offering := off\<rparr>) = refusals d" "refusals (d\<lparr>dl_nextCall := n\<rparr>) = refusals d" "refusals (d\<lparr>dl_counter := n\<rparr>) = refusals d"
  "refusals (d\<lparr>dl_issued := iss\<rparr>) = refusals d" "refusals (d\<lparr>dl_forwarded := fw\<rparr>) = refusals d" "refusals (d\<lparr>dl_published := ps\<rparr>) = refusals d"
  "refusals (dl_box b d) = refusals d" "refusals (dl_publish aud data d) = refusals d" "refusals (dl_watchers to ms d) = refusals d"
  "refusals (dl_removed mids reason d) = refusals d"
  by (simp_all add: refusals_def dl_frame)

lemma refusals_hold [simp]: "refusals (dl_hold ct now call to message after d) = refusals d"
  by (simp add: dl_hold_def Let_def)

lemma refusals_offer [simp]: "refusals (snd (dl_offer ct now to caller d)) = refusals d"
  by (simp add: dl_offer_def Let_def split: prod.split list.split)

lemma refusals_end [simp]: "refusals (dl_offer_end to ok caller d) = refusals d"
  by (simp add: dl_offer_end_def Let_def split: option.split)

lemma refusals_retry [simp]: "refusals (dl_retry_over ct mc env sids d) = refusals d"
  by (induction sids arbitrary: d) (simp_all split: option.split)

lemma refusals_waiting [simp]: "refusals (snd (dl_waiting ct now sids d)) = refusals d"
proof (induction sids arbitrary: d)
  case (Cons sid sids)
  obtain held b where u: "ib_undelivered ct sid now (dl_inbox d) = (held, b)" by fastforce
  show ?case using Cons.IH [of "dl_box b d"] by (cases "dl_waiting ct now sids (dl_box b d)") (simp add: u)
qed simp

lemma refusals_snapshot: "refusals (snd (dl_snapshot ct now topic identity d)) = refusals d"
proof -
  obtain rows d' where w: "dl_waiting ct now (ib_sids (dl_inbox d)) d = (rows, d')" by fastforce
  have "refusals d' = refusals d" using refusals_waiting [of ct now "ib_sids (dl_inbox d)" d] by (simp add: w)
  then show ?thesis by (simp add: dl_snapshot_def Let_def w split: conn_identity.split option.split prod.split)
qed

lemma split_snoc:
  "(\<exists>pre x post. xs @ [e] = pre @ x # post \<and> P pre x) \<longleftrightarrow> (\<exists>pre x post. xs = pre @ x # post \<and> P pre x) \<or> P xs e"
proof
  assume "\<exists>pre x post. xs @ [e] = pre @ x # post \<and> P pre x"
  then obtain pre x post where p: "xs @ [e] = pre @ x # post" "P pre x" by blast
  then show "(\<exists>pre x post. xs = pre @ x # post \<and> P pre x) \<or> P xs e" by (cases post rule: rev_cases) auto
next
  assume "(\<exists>pre x post. xs = pre @ x # post \<and> P pre x) \<or> P xs e"
  then show "\<exists>pre x post. xs @ [e] = pre @ x # post \<and> P pre x" by (metis append_Cons append_assoc)
qed

lemma refusals_routed: "refusals (dl_routed ct env call outcome d) = refusals d"
proof (cases "\<exists>to m row. map_of (dl_calls d) call = Some (CallDirect to m row)")
  case True
  then obtain to m row where v: "map_of (dl_calls d) call = Some (CallDirect to m row)" by blast
  show ?thesis
  proof (cases outcome)
    case DirectDelivered
    let ?d = "d\<lparr>dl_calls := map_set call (CallOffer to) (dl_calls d), dl_handed := dl_handed d @ [msg_mid m]\<rparr>"
    obtain x d1 where x: "dl_offer ct (de_now env) to (Some call) ?d = (x, d1)" by fastforce
    have "refusals d1 = refusals d" using refusals_offer [of ct "de_now env" to "Some call" ?d] by (simp add: x)
    with v DirectDelivered x show ?thesis by (simp add: dl_routed_def Let_def)
  qed (use v in \<open>simp_all add: dl_routed_def Let_def\<close>)
next
  case False
  then show ?thesis by (auto simp: dl_routed_def split: option.split send_call.split)
qed

lemma refusals_send:
  "(c, code) \<in> refusals (dl_send mc env call args who d) \<longleftrightarrow>
     (c, code) \<in> refusals d \<or> refuses (d\<lparr>dl_nextCall := call\<rparr>) (DlSend env args who) c code"
  by (auto simp: dl_send_def dl_elsewhere_def dl_message_def dl_mid_def dl_sender_def Let_def not_le split: option.split)

lemma refusals_forward:
  "(c, code) \<in> refusals (dl_forward_answered call answer d) \<longleftrightarrow> (c, code) \<in> refusals d \<or> refuses d (DlForwardAnswered call answer) c code"
  by (auto simp: dl_forward_answered_def split: option.split send_call.split dispatch_result.split)

lemma refusals_step:
  "(c, code) \<in> refusals (dl_step ct mc d e) \<longleftrightarrow> (c, code) \<in> refusals d \<or> refuses d e c code"
proof (cases e)
  case (DlSend env args who)
  then show ?thesis using refusals_send [of c code mc env "dl_nextCall d" args who "d\<lparr>dl_nextCall := dl_nextCall d + 1\<rparr>"] by simp
next
  case (DlForwardAnswered call answer)
  then show ?thesis using refusals_forward by simp
next
  case (DlHoldResumed env call)
  have "refusals (dl_hold_resumed ct mc env call d) = refusals d"
    by (auto simp: dl_hold_resumed_def dl_undelivered_def Let_def split: option.split send_call.split prod.split hold_answer.split after_hold.split)
  then show ?thesis using DlHoldResumed by simp
next
  case (DlOfferSent to outcome)
  have "refusals (dl_offer_sent to outcome d) = refusals d"
    by (simp add: dl_offer_sent_def Let_def split: option.split prod.split offer_phase.split)
  then show ?thesis using DlOfferSent by simp
next
  case (DlOfferWritten to)
  have "refusals (dl_offer_written to d) = refusals d"
    by (simp add: dl_offer_written_def split: option.split prod.split offer_phase.split settled.split list.split)
  then show ?thesis using DlOfferWritten by simp
qed (simp_all add: refusals_routed refusals_snapshot dl_retry_def)

text \<open>
  C29: a sender is refused exactly when the source refuses it. In any run a call is answered with a
  refusal of some code if and only if some event of the run refused that call with that code: the send
  itself, with \<open>session_not_found\<close> (no row here, no other owner and no instance out of reach),
  \<open>session_duplicated\<close> (two processes) or \<open>bad_request\<close> (no greeting), or the owning instance's answer
  to the call that was carried to it. An instance out of reach never makes a refusal.
\<close>

theorem send_refusals:
  "(\<exists>msg. (c, SentRefused (code, msg)) \<in> set (dl_answers (foldl (dl_step ct mc) (Delivery self inbox) evs))) \<longleftrightarrow>
     (\<exists>pre e post. evs = pre @ e # post \<and> refuses (foldl (dl_step ct mc) (Delivery self inbox) pre) e c code)"
proof -
  have "(c, code) \<in> refusals (foldl (dl_step ct mc) (Delivery self inbox) evs) \<longleftrightarrow>
     (\<exists>pre e post. evs = pre @ e # post \<and> refuses (foldl (dl_step ct mc) (Delivery self inbox) pre) e c code)"
  proof (induction evs rule: rev_induct)
    case Nil
    then show ?case by (simp add: refusals_def Delivery_def)
  next
    case (snoc e evs)
    show ?case using snoc.IH unfolding split_snoc [of evs e "\<lambda>pre e. refuses (foldl (dl_step ct mc) (Delivery self inbox) pre) e c code"]
      by (simp add: refusals_step)
  qed
  then show ?thesis by (simp add: refusals_def)
qed

section \<open>A publish that some connections take\<close>

text \<open>Two connections of the session listen and one of them refuses: the message is held, and the snapshot
  of the next subscription hands it over again.\<close>

definition partly_env :: dl_env where
  "partly_env = example_dl_env\<lparr>de_listeners := (\<lambda>s. [True, False])\<rparr>"

lemma partly_taken_goes_out_twice:
  "let d = foldl (dl_step example_contract example_messaging) (Delivery ''i'' Inbox)
         [DlSend partly_env \<lparr>sa_to = ''s'', sa_text = ''hi'', sa_reply_to = None\<rparr> (Some (User, None)), DlRouted partly_env 0 DirectUnavailable,
          DlLine True, DlHoldResumed partly_env 0, DlSnapshot 0 ''inbox'' (Settled Session (Some ''s''))]
   in dl_partly d = [''i/1''] \<and> dl_handed d = [''i/1''] \<and> dl_answers d = [(0, SentWaiting Throttled [])]"
  by code_simp

section \<open>A restart numbers delivered messages again\<close>

text \<open>The counter starts above the messages that are held, so once every message was handed over a
  restart begins at one again: a \<open>reply_to\<close> that names the first message of the run before is then
  ambiguous.\<close>

lemma mid_reissued_after_restart:
  "let d = foldl (dl_step example_contract example_messaging) (Delivery ''i'' Inbox) example_dl_evs;
       d' = Delivery ''i'' (ib_load example_contract (\<lambda>s m. True) 0 (ib_file (dl_inbox d)));
       d'' = dl_step example_contract example_messaging d' (hd example_dl_evs)
   in dl_handed d = [''i/1''] \<and> map (msg_mid \<circ> snd) (dl_issued d'') = [''i/1'']"
  by code_simp

end
