(* ===== verification/AuthRecords.thy ===== *)
theory AuthRecords
  imports Registers
begin

text \<open>
  \<open>src/auth/records.ts\<close>: the users, credentials, ownerships, token families and removals every
  instance holds a copy of; \<open>src/auth/store.ts\<close>: where they are kept; \<open>src/auth/topic.ts\<close>: the
  topic that states them.

  The contract's validation of a record is the argument \<open>problems\<close>. \<open>commit\<close> chains whole-document writes:
  \<open>fs_writing\<close> are the documents asked for and not on disk yet, each with what its caller publishes
  once it landed; \<open>rc_land\<close> and \<open>rc_lost_write\<close> settle the oldest.
\<close>

section \<open>Records\<close>

type_synonym user_id = string

record token =
  tk_value :: string
  tk_expires_at :: timestamp

record last_refresh =
  lr_at :: timestamp
  lr_reason :: "string option"
  lr_ip :: "string option"
  lr_user_agent :: "string option"

record token_family =
  tf_user :: user_id
  tf_iss :: instance_id
  tf_origin :: string
  tf_access :: token
  tf_refresh :: token
  tf_previous_refresh :: "token option"
  tf_retired :: "(string \<times> timestamp) list"
  tf_last_refresh :: "last_refresh option"

record ownership_record =
  ow_user :: user_id
  ow_instance :: instance_id
  ow_grant :: string
  ow_granted_at :: timestamp
  ow_granted_by :: "instance_id option"

record user_record =
  ur_user :: user_id
  ur_display_name :: string
  ur_created_at :: timestamp

record credential_record =
  cr_user :: user_id
  cr_credential_id :: string
  cr_public_key :: string
  cr_origin :: string
  cr_sign_count :: "nat option"
  cr_backup_eligible :: bool
  cr_backup_state :: bool
  cr_issued_label :: "string option"
  cr_device_label :: "string option"
  cr_registered_at :: timestamp
  cr_registered_ip :: "string option"
  cr_registered_user_agent :: "string option"
  cr_last_used_at :: "timestamp option"
  cr_last_used_ip :: "string option"
  cr_last_used_user_agent :: "string option"

datatype auth_body =
    UserBody user_record
  | CredentialBody credential_record
  | OwnershipBody ownership_record
  | FamilyBody token_family
  | TombstoneBody timestamp "timestamp option"

record auth_record =
  ar_key :: string
  ar_updated_at :: timestamp
  ar_body :: "auth_body"

definition userKey :: "user_id \<Rightarrow> string" where
  "userKey user = ''user/'' @ user"

definition credentialKey :: "string \<Rightarrow> string" where
  "credentialKey credentialId = ''credential/'' @ credentialId"

definition ownershipKey :: "instance_id \<Rightarrow> user_id \<Rightarrow> string \<Rightarrow> string" where
  "ownershipKey instance user grant = ''ownership/'' @ instance @ ''/'' @ user @ ''/'' @ grant"

definition familyKey :: "string \<Rightarrow> string" where
  "familyKey ident = ''family/'' @ ident"

fun is_tombstone :: "auth_body \<Rightarrow> bool" where
  "is_tombstone (TombstoneBody _ _) = True"
| "is_tombstone _ = False"

fun body_user :: "auth_body \<Rightarrow> user_id option" where
  "body_user (UserBody u) = Some (ur_user u)"
| "body_user (CredentialBody c) = Some (cr_user c)"
| "body_user (OwnershipBody own) = Some (ow_user own)"
| "body_user (FamilyBody f) = Some (tf_user f)"
| "body_user (TombstoneBody _ _) = None"

definition userOf :: "auth_record option \<Rightarrow> user_id option" where
  "userOf r = Option.bind r (\<lambda>r. body_user (ar_body r))"

section \<open>The file store\<close>

record file_store =
  fs_kept :: "(string, auth_record) js_map"
  fs_writing :: "(auth_record list \<times> auth_record list option) list"
  fs_file :: "auth_record list option"

definition fileRecordStore :: "auth_record list option \<Rightarrow> file_store" where
  "fileRecordStore contents = \<lparr>fs_kept = [], fs_writing = [], fs_file = contents\<rparr>"

definition keep_all :: "auth_record list \<Rightarrow> (string, auth_record) js_map \<Rightarrow> (string, auth_record) js_map" where
  "keep_all records kept = fold (\<lambda>r. map_set (ar_key r) r) records kept"

text \<open>A file that is not there or does not parse states nothing.\<close>

definition fs_load :: "file_store \<Rightarrow> auth_record list \<times> file_store" where
  "fs_load s =
     (case fs_file s of
        None \<Rightarrow> ([], s)
      | Some records \<Rightarrow> (records, s\<lparr>fs_kept := keep_all records (fs_kept s)\<rparr>))"

definition fs_commit :: "auth_record list \<Rightarrow> string list \<Rightarrow> auth_record list option \<Rightarrow> file_store \<Rightarrow> file_store" where
  "fs_commit records dropped announce s =
     (let kept = fold map_del dropped (keep_all records (fs_kept s))
      in s\<lparr>fs_kept := kept, fs_writing := fs_writing s @ [(map snd kept, announce)]\<rparr>)"

definition fs_land :: "file_store \<Rightarrow> auth_record list option \<times> file_store" where
  "fs_land s =
     (case fs_writing s of
        [] \<Rightarrow> (None, s)
      | (body, announce) # rest \<Rightarrow> (announce, s\<lparr>fs_writing := rest, fs_file := Some body\<rparr>))"

section \<open>The set\<close>

record auth_records =
  rc_records :: "(string, auth_record) js_map"
  rc_dropped :: "string list"
  rc_store :: "file_store"
  rc_published :: "auth_record list list"

definition record_over :: "timestamp \<Rightarrow> auth_record \<Rightarrow> bool" where
  "record_over now r =
     (case ar_body r of
        FamilyBody f \<Rightarrow> tk_expires_at (tf_refresh f) \<le> now
      | TombstoneBody d (Some e) \<Rightarrow> e \<le> now
      | _ \<Rightarrow> False)"

definition rc_expire :: "timestamp \<Rightarrow> auth_records \<Rightarrow> auth_records" where
  "rc_expire now s =
     s\<lparr>rc_records := filter (\<lambda>(k, r). \<not> record_over now r) (rc_records s),
       rc_dropped := rc_dropped s @ map_keys (filter (\<lambda>(k, r). record_over now r) (rc_records s))\<rparr>"

definition admits_record :: "auth_record option \<Rightarrow> auth_record \<Rightarrow> bool" where
  "admits_record held r =
     (case held of
        None \<Rightarrow> True
      | Some h \<Rightarrow> \<not> ar_updated_at r \<le> ar_updated_at h \<and> \<not> is_tombstone (ar_body h))"

definition rc_accept :: "(auth_record \<Rightarrow> string list) \<Rightarrow> auth_record \<Rightarrow> auth_records \<Rightarrow> bool \<times> auth_records" where
  "rc_accept problems r s =
     (if problems r \<noteq> [] then (False, s)
      else if admits_record (map_of (rc_records s) (ar_key r)) r
           then (True, s\<lparr>rc_records := map_set (ar_key r) r (rc_records s)\<rparr>)
           else (False, s))"

definition AuthRecords :: "(auth_record \<Rightarrow> string list) \<Rightarrow> timestamp \<Rightarrow> auth_record list option \<Rightarrow> auth_records" where
  "AuthRecords problems now contents =
     (let (records, store) = fs_load (fileRecordStore contents)
      in rc_expire now (fold (\<lambda>r s. snd (rc_accept problems r s)) records
           \<lparr>rc_records = [], rc_dropped = [], rc_store = store, rc_published = []\<rparr>))"

definition rc_keep :: "timestamp \<Rightarrow> auth_record list \<Rightarrow> auth_record list option \<Rightarrow> auth_records \<Rightarrow> auth_records" where
  "rc_keep clk changed announce s =
     (let s1 = rc_expire clk s;
          dropped = rc_dropped s1
      in s1\<lparr>rc_dropped := [],
            rc_store := fs_commit (filter (\<lambda>r. ar_key r \<notin> set dropped) changed) dropped announce (rc_store s1)\<rparr>)"

definition stamp_past :: "timestamp \<Rightarrow> auth_record option \<Rightarrow> timestamp" where
  "stamp_past now held = (case held of None \<Rightarrow> now | Some h \<Rightarrow> max now (ar_updated_at h + 1))"

definition rc_write :: "(auth_record \<Rightarrow> string list) \<Rightarrow> string \<Rightarrow> auth_body \<Rightarrow> timestamp \<Rightarrow> timestamp \<Rightarrow> auth_records \<Rightarrow>
    (string list + bool) \<times> auth_records" where
  "rc_write problems key body now clk s =
     (let r = \<lparr>ar_key = key, ar_updated_at = stamp_past now (map_of (rc_records s) key), ar_body = body\<rparr>
      in if problems r \<noteq> [] then (Inl (problems r), s)
         else case rc_accept problems r s of
           (False, s1) \<Rightarrow> (Inr False, s1)
         | (True, s1) \<Rightarrow> (Inr True, rc_keep clk [r] (Some [r]) s1))"

fun merge_over :: "(auth_record \<Rightarrow> string list) \<Rightarrow> auth_record list \<Rightarrow> auth_records \<Rightarrow>
    auth_record list \<times> user_id list \<times> auth_records" where
  "merge_over problems [] s = ([], [], s)"
| "merge_over problems (r # rs) s =
     (let wasHeld = map_of (rc_records s) (ar_key r) in
      case rc_accept problems r s of
        (False, s1) \<Rightarrow> merge_over problems rs s1
      | (True, s1) \<Rightarrow>
          (case merge_over problems rs s1 of
             (took, revoked, s2) \<Rightarrow>
               (r # took,
                (if is_tombstone (ar_body r) then (case userOf wasHeld of None \<Rightarrow> [] | Some u \<Rightarrow> [u]) else []) @ revoked,
                s2)))"

definition rc_merge :: "(auth_record \<Rightarrow> string list) \<Rightarrow> auth_record list \<Rightarrow> timestamp \<Rightarrow> auth_records \<Rightarrow>
    (nat \<times> user_id list) \<times> auth_records" where
  "rc_merge problems records clk s =
     (case merge_over problems records s of
        (took, revoked, s1) \<Rightarrow>
          ((length took, revoked), if took = [] then s1 else rc_keep clk took None s1))"

definition rc_erase :: "string \<Rightarrow> int option \<Rightarrow> timestamp \<Rightarrow> timestamp \<Rightarrow> auth_records \<Rightarrow> auth_record option \<times> auth_records" where
  "rc_erase key keep at clk s =
     (case map_of (rc_records s) key of
        None \<Rightarrow> (None, s)
      | Some held \<Rightarrow>
          let r = \<lparr>ar_key = key, ar_updated_at = stamp_past at (Some held),
                   ar_body = TombstoneBody at (map_option (\<lambda>k. at + k) keep)\<rparr>
          in (Some r, rc_keep clk [r] (Some [r]) (s\<lparr>rc_records := map_set key r (rc_records s)\<rparr>)))"

fun is_family :: "auth_body \<Rightarrow> bool" where
  "is_family (FamilyBody _) = True"
| "is_family _ = False"

definition rc_fail :: "contract \<Rightarrow> string \<Rightarrow> timestamp \<Rightarrow> timestamp \<Rightarrow> auth_records \<Rightarrow> auth_records" where
  "rc_fail ct key at clk s =
     (case map_of (rc_records s) key of
        Some held \<Rightarrow>
          if is_family (ar_body held) then snd (rc_erase key (Some (FAMILY_TOMBSTONE_RETENTION_MS ct)) at clk s) else s
      | None \<Rightarrow> s)"

definition rc_all :: "timestamp \<Rightarrow> auth_records \<Rightarrow> auth_record list \<times> auth_records" where
  "rc_all now s = (let s1 = rc_expire now s in (map snd (rc_records s1), s1))"

definition auth_topic_snapshot :: "instance_id \<Rightarrow> timestamp \<Rightarrow> auth_records \<Rightarrow>
    (instance_id \<times> auth_record list) list \<times> auth_records" where
  "auth_topic_snapshot self now s = (let (records, s1) = rc_all now s in ([(self, records)], s1))"

definition rc_land :: "auth_records \<Rightarrow> auth_records" where
  "rc_land s =
     (case fs_land (rc_store s) of
        (announce, store) \<Rightarrow>
          s\<lparr>rc_store := store, rc_published := rc_published s @ (case announce of None \<Rightarrow> [] | Some rs \<Rightarrow> [rs])\<rparr>)"

definition rc_lost_write :: "auth_records \<Rightarrow> auth_records" where
  "rc_lost_write s = s\<lparr>rc_store := (rc_store s)\<lparr>fs_writing := tl (fs_writing (rc_store s))\<rparr>\<rparr>"

section \<open>Questions\<close>

definition rc_removed :: "auth_records \<Rightarrow> string \<Rightarrow> bool" where
  "rc_removed s key = (case map_of (rc_records s) key of None \<Rightarrow> False | Some r \<Rightarrow> is_tombstone (ar_body r))"

definition rc_user :: "auth_records \<Rightarrow> user_id \<Rightarrow> user_record option" where
  "rc_user s user =
     (case map_of (rc_records s) (userKey user) of
        Some r \<Rightarrow> (case ar_body r of UserBody u \<Rightarrow> Some u | _ \<Rightarrow> None)
      | None \<Rightarrow> None)"

definition rc_users :: "auth_records \<Rightarrow> user_record list" where
  "rc_users s = concat (map (\<lambda>(k, r). case ar_body r of UserBody u \<Rightarrow> [u] | _ \<Rightarrow> []) (rc_records s))"

definition rc_credentials :: "auth_records \<Rightarrow> credential_record list" where
  "rc_credentials s =
     concat (map (\<lambda>(k, r). case ar_body r of CredentialBody c \<Rightarrow> [c] | _ \<Rightarrow> []) (rc_records s))"

definition rc_credential :: "(string \<Rightarrow> nat list) \<Rightarrow> auth_records \<Rightarrow> string \<Rightarrow> credential_record option" where
  "rc_credential base64UrlDecode s credentialId =
     find (\<lambda>c. base64UrlDecode (cr_credential_id c) = base64UrlDecode credentialId) (rc_credentials s)"

definition rc_ownerships :: "auth_records \<Rightarrow> ownership_record list" where
  "rc_ownerships s = concat (map (\<lambda>(k, r). case ar_body r of OwnershipBody own \<Rightarrow> [own] | _ \<Rightarrow> []) (rc_records s))"

definition rc_owns :: "auth_records \<Rightarrow> user_id \<Rightarrow> instance_id \<Rightarrow> bool" where
  "rc_owns s user instance = list_ex (\<lambda>own. ow_user own = user \<and> ow_instance own = instance) (rc_ownerships s)"

definition rc_grantsOf :: "auth_records \<Rightarrow> user_id \<Rightarrow> instance_id \<Rightarrow> (string \<times> ownership_record) list" where
  "rc_grantsOf s user instance =
     concat (map (\<lambda>(k, r). case ar_body r of
         OwnershipBody own \<Rightarrow> if ow_user own = user \<and> ow_instance own = instance then [(ar_key r, own)] else []
       | _ \<Rightarrow> []) (rc_records s))"

definition rc_families :: "auth_records \<Rightarrow> (string \<times> token_family) list" where
  "rc_families s = concat (map (\<lambda>(k, r). case ar_body r of FamilyBody f \<Rightarrow> [(ar_key r, f)] | _ \<Rightarrow> []) (rc_records s))"

definition rc_byAccess :: "string \<Rightarrow> timestamp \<Rightarrow> auth_records \<Rightarrow> token_family option" where
  "rc_byAccess v now s =
     map_option snd (find (\<lambda>(k, f). tk_value (tf_access f) = v \<and> now < tk_expires_at (tf_access f)) (rc_families s))"

fun by_refresh :: "string \<Rightarrow> timestamp \<Rightarrow> (string \<times> token_family) list \<Rightarrow> (string \<times> token_family \<times> bool) option" where
  "by_refresh v now [] = None"
| "by_refresh v now ((key, f) # fs) =
     (if tk_value (tf_refresh f) = v \<and> now < tk_expires_at (tf_refresh f) then Some (key, f, False)
      else case tf_previous_refresh f of
        Some before \<Rightarrow>
          if tk_value before = v \<and> now < tk_expires_at before then Some (key, f, True) else by_refresh v now fs
      | None \<Rightarrow> by_refresh v now fs)"

definition rc_byRefresh :: "string \<Rightarrow> timestamp \<Rightarrow> auth_records \<Rightarrow> (string \<times> token_family \<times> bool) option" where
  "rc_byRefresh v now s = by_refresh v now (rc_families s)"

definition rc_naming :: "string \<Rightarrow> auth_records \<Rightarrow> (string \<times> token_family) option" where
  "rc_naming v s =
     find (\<lambda>(k, f). tk_value (tf_refresh f) = v
            \<or> (case tf_previous_refresh f of None \<Rightarrow> False | Some before \<Rightarrow> tk_value before = v)) (rc_families s)"

definition rc_retiring :: "string \<Rightarrow> timestamp \<Rightarrow> auth_records \<Rightarrow> (string \<times> token_family) list" where
  "rc_retiring digest now s =
     filter (\<lambda>(k, f). list_ex (\<lambda>(hash, expires_at). now < expires_at \<and> hash = digest) (tf_retired f)) (rc_families s)"

section \<open>Runs\<close>

datatype records_event =
    RWrite string "auth_body" timestamp timestamp
  | RMerge "auth_record list" timestamp
  | RErase string timestamp timestamp
  | RFail string timestamp timestamp
  | RAll timestamp
  | RLand
  | RLost

fun rc_step :: "contract \<Rightarrow> (auth_record \<Rightarrow> string list) \<Rightarrow> auth_records \<Rightarrow> records_event \<Rightarrow> auth_records" where
  "rc_step ct problems s (RWrite key body now clk) = snd (rc_write problems key body now clk s)"
| "rc_step ct problems s (RMerge records clk) = snd (rc_merge problems records clk s)"
| "rc_step ct problems s (RErase key at clk) = snd (rc_erase key None at clk s)"
| "rc_step ct problems s (RFail key at clk) = rc_fail ct key at clk s"
| "rc_step ct problems s (RAll now) = snd (rc_all now s)"
| "rc_step ct problems s RLand = rc_land s"
| "rc_step ct problems s RLost = rc_lost_write s"

section \<open>One key\<close>

interpretation ar: keyed_register ar_updated_at admits_record
  by unfold_locales (auto simp: admits_record_def)

definition rc_wf :: "auth_records \<Rightarrow> bool" where
  "rc_wf s \<longleftrightarrow> map_wf (rc_records s) \<and> (\<forall>k r. map_of (rc_records s) k = Some r \<longrightarrow> ar_key r = k)"

lemma rc_wf_set: "rc_wf s \<Longrightarrow> ar_key r = k \<Longrightarrow> rc_wf (s\<lparr>rc_records := map_set k r (rc_records s)\<rparr>)"
  by (simp add: rc_wf_def del: map_of_eq_Some_iff)

lemma rc_accept_view:
  "map_of (rc_records (snd (rc_accept problems r s))) k =
     (if problems r = [] \<and> k = ar_key r then ar.arrive (map_of (rc_records s) k) r else map_of (rc_records s) k)"
  "rc_dropped (snd (rc_accept problems r s)) = rc_dropped s" "rc_store (snd (rc_accept problems r s)) = rc_store s"
  "rc_wf s \<Longrightarrow> rc_wf (snd (rc_accept problems r s))"
  by (auto simp: rc_accept_def ar.arrive_def rc_wf_set)

lemma rc_expire_view:
  assumes "rc_wf s"
  shows "map_of (rc_records (rc_expire now s)) k =
      (case map_of (rc_records s) k of None \<Rightarrow> None | Some r \<Rightarrow> if record_over now r then None else Some r)"
    and "rc_wf (rc_expire now s)" and "rc_store (rc_expire now s) = rc_store s"
    and "set (rc_dropped (rc_expire now s)) = set (rc_dropped s) \<union> {k. \<exists>r. map_of (rc_records s) k = Some r \<and> record_over now r}"
proof -
  have wf: "map_wf (rc_records s)" using assms by (simp add: rc_wf_def)
  show v: "map_of (rc_records (rc_expire now s)) k =
      (case map_of (rc_records s) k of None \<Rightarrow> None | Some r \<Rightarrow> if record_over now r then None else Some r)" for k
    using map_of_filter_wf [OF wf, of "\<lambda>(k, r). \<not> record_over now r" k] by (auto simp: rc_expire_def split: option.splits)
  have "ar_key r = k" if "map_of (rc_records (rc_expire now s)) k = Some r" for k r
  proof -
    from that have "map_of (rc_records s) k = Some r" unfolding v by (auto split: option.splits if_splits)
    then show ?thesis using assms unfolding rc_wf_def by blast
  qed
  moreover have "map_wf (rc_records (rc_expire now s))" using wf by (simp add: rc_expire_def)
  ultimately show "rc_wf (rc_expire now s)" unfolding rc_wf_def by blast
  show "rc_store (rc_expire now s) = rc_store s" by (simp add: rc_expire_def)
  have "k \<in> set (map_keys (filter (\<lambda>(k, r). record_over now r) (rc_records s))) \<longleftrightarrow>
      (\<exists>r. map_of (rc_records s) k = Some r \<and> record_over now r)" for k
    unfolding map_wf_mem [OF wf, symmetric] by force
  then show "set (rc_dropped (rc_expire now s)) = set (rc_dropped s) \<union> {k. \<exists>r. map_of (rc_records s) k = Some r \<and> record_over now r}"
    unfolding rc_expire_def by auto
qed

lemma rc_keep_view:
  "rc_records (rc_keep clk changed announce s) = rc_records (rc_expire clk s)"
  by (simp add: rc_keep_def Let_def)

lemma rc_keep_wf: "rc_wf s \<Longrightarrow> rc_wf (rc_keep clk changed announce s)"
  using rc_expire_view(2) [of s clk] unfolding rc_wf_def rc_keep_view .

lemma merge_over_wf: "rc_wf s \<Longrightarrow> merge_over problems rs s = (took, revoked, s') \<Longrightarrow> rc_wf s'"
proof (induction rs arbitrary: s took revoked)
  case (Cons r rs)
  have "rc_wf (snd (rc_accept problems r s))" by (rule rc_accept_view(4) [OF Cons.prems(1)])
  with Cons show ?case by (cases "rc_accept problems r s") (auto simp: Let_def split: bool.splits prod.splits)
qed simp

lemma rc_write_cases:
  obtains (refused) "snd (rc_write problems key body now clk s) = s"
  | (kept) r where "r = \<lparr>ar_key = key, ar_updated_at = stamp_past now (map_of (rc_records s) key), ar_body = body\<rparr>"
      "problems r = []" "fst (rc_accept problems r s)"
      "snd (rc_write problems key body now clk s) = rc_keep clk [r] (Some [r]) (snd (rc_accept problems r s))"
proof -
  let ?r = "\<lparr>ar_key = key, ar_updated_at = stamp_past now (map_of (rc_records s) key), ar_body = body\<rparr>"
  show thesis
  proof (cases "problems ?r = [] \<and> fst (rc_accept problems ?r s)")
    case True
    with kept [OF refl] show thesis by (cases "rc_accept problems ?r s") (auto simp: rc_write_def Let_def)
  next
    case False
    then have "snd (rc_accept problems ?r s) = s" by (auto simp: rc_accept_def)
    with False refused show thesis by (cases "rc_accept problems ?r s") (auto simp: rc_write_def Let_def)
  qed
qed

lemma rc_step_wf:
  assumes "rc_wf s"
  shows "rc_wf (rc_step ct problems s e)"
proof (cases e)
  case (RWrite key body now clk)
  show ?thesis
    by (cases rule: rc_write_cases [of problems key body now clk s])
       (simp_all add: RWrite assms rc_keep_wf rc_accept_view(4))
next
  case (RMerge records clk)
  obtain took revoked s1 where m: "merge_over problems records s = (took, revoked, s1)" by (cases "merge_over problems records s")
  then show ?thesis using merge_over_wf [OF assms m] by (simp add: RMerge rc_merge_def rc_keep_wf)
next
  case (RErase key at clk)
  then show ?thesis using assms by (auto simp: rc_erase_def Let_def intro!: rc_keep_wf rc_wf_set split: option.splits)
next
  case (RFail key at clk)
  then show ?thesis using assms
    by (auto simp: rc_fail_def rc_erase_def Let_def intro!: rc_keep_wf rc_wf_set split: option.splits)
next
  case (RAll now)
  then show ?thesis using rc_expire_view(2) [OF assms] by (simp add: rc_all_def Let_def)
next
  case RLand
  then show ?thesis using assms by (simp add: rc_land_def rc_wf_def split: prod.splits)
next
  case RLost
  then show ?thesis using assms by (simp add: rc_lost_write_def rc_wf_def)
qed

section \<open>A removal is final\<close>

definition marked :: "string \<Rightarrow> timestamp \<Rightarrow> auth_records \<Rightarrow> bool" where
  "marked k t s \<longleftrightarrow> rc_wf s \<and> (\<exists>r d. map_of (rc_records s) k = Some r \<and> ar_body r = TombstoneBody d None \<and> t \<le> ar_updated_at r)"

lemma marked_accept: "marked k t s \<Longrightarrow> marked k t (snd (rc_accept problems r s))"
  using rc_accept_view(4) [of s problems r] rc_accept_view(1) [of problems r s k]
  by (auto simp: marked_def ar.arrive_def admits_record_def)

lemma marked_merge_over: "marked k t s \<Longrightarrow> merge_over problems rs s = (took, revoked, s') \<Longrightarrow> marked k t s'"
proof (induction rs arbitrary: s took revoked)
  case (Cons r rs)
  have "marked k t (snd (rc_accept problems r s))" by (rule marked_accept [OF Cons.prems(1)])
  with Cons show ?case by (cases "rc_accept problems r s") (auto simp: Let_def split: bool.splits prod.splits)
qed simp

lemma marked_expire: "marked k t s \<Longrightarrow> marked k t (rc_expire now s)"
  using rc_expire_view(1,2) [of s now] by (auto simp: marked_def record_over_def)

lemma marked_keep: "marked k t s \<Longrightarrow> marked k t (rc_keep clk changed announce s)"
  using marked_expire [of k t s clk] rc_keep_wf [of s clk changed announce] by (auto simp: marked_def rc_keep_view)

lemma marked_erase:
  assumes "marked k t s" "key = k \<Longrightarrow> keep = None"
  shows "marked k t (snd (rc_erase key keep at clk s))"
proof (cases "map_of (rc_records s) key")
  case (Some held)
  let ?r = "\<lparr>ar_key = key, ar_updated_at = stamp_past at (Some held), ar_body = TombstoneBody at (map_option (\<lambda>x. at + x) keep)\<rparr>"
  have "marked k t (s\<lparr>rc_records := map_set key ?r (rc_records s)\<rparr>)"
    using assms Some rc_wf_set [of s ?r key] by (auto simp: marked_def stamp_past_def)
  then show ?thesis by (simp add: rc_erase_def Some marked_keep Let_def)
qed (use assms in \<open>simp add: rc_erase_def\<close>)

lemma marked_step: "marked k t s \<Longrightarrow> marked k t (rc_step ct problems s e)"
proof (cases e)
  case (RWrite key body now clk)
  assume "marked k t s"
  then show ?thesis
    by (cases rule: rc_write_cases [of problems key body now clk s])
       (simp_all add: RWrite marked_keep marked_accept)
next
  case (RMerge records clk)
  assume "marked k t s"
  obtain took revoked s1 where m: "merge_over problems records s = (took, revoked, s1)" by (cases "merge_over problems records s")
  then show ?thesis using marked_merge_over [OF \<open>marked k t s\<close> m] by (simp add: RMerge rc_merge_def marked_keep)
next
  case (RFail key at clk)
  assume m: "marked k t s"
  then have "key = k \<Longrightarrow> map_of (rc_records s) key = Some r \<Longrightarrow> \<not> is_family (ar_body r)" for r
    by (auto simp: marked_def)
  with m marked_erase [OF m, of key "Some (FAMILY_TOMBSTONE_RETENTION_MS ct)" at clk] show ?thesis
    by (auto simp: RFail rc_fail_def split: option.splits)
next
  case (RAll now)
  assume "marked k t s"
  then show ?thesis by (simp add: RAll rc_all_def Let_def marked_expire)
qed (simp_all add: marked_erase, simp_all add: marked_def rc_land_def rc_lost_write_def rc_wf_def del: map_of_eq_Some_iff split: prod.splits)

text \<open>
  C3: a removal is final. Once a key of the set carries a mark that does not run out (every removal
  of a credential, a granting or a person), it carries such a mark after whatever follows: writes of
  this instance, batches of peers with any records and any stamps, failed families, expiry, further
  removals, and its stamp never goes back. So nothing is read from that key again.
\<close>

theorem removal_is_final:
  assumes "rc_wf s" and "map_of (rc_records s) k = Some r" and "ar_body r = TombstoneBody d None"
  shows "\<exists>r' d'. map_of (rc_records (foldl (rc_step ct problems) s evs)) k = Some r' \<and> ar_body r' = TombstoneBody d' None
    \<and> ar_updated_at r \<le> ar_updated_at r'"
proof -
  have "marked k (ar_updated_at r) s" using assms by (auto simp: marked_def)
  then have "marked k (ar_updated_at r) (foldl (rc_step ct problems) s evs)"
    by (induction evs arbitrary: s) (simp_all add: marked_step)
  then show ?thesis by (auto simp: marked_def)
qed

definition example_grant :: "timestamp \<Rightarrow> auth_record" where
  "example_grant t = \<lparr>ar_key = ''g'', ar_updated_at = t, ar_body = OwnershipBody \<lparr>ow_user = ''u'', ow_instance = ''i'', ow_grant = ''x'', ow_granted_at = 0, ow_granted_by = None\<rparr>\<rparr>"

definition example_mark :: "timestamp \<Rightarrow> auth_record" where
  "example_mark t = \<lparr>ar_key = ''g'', ar_updated_at = t, ar_body = TombstoneBody t None\<rparr>"

theorem removal_is_final_witness:
  "let s = foldl (rc_step example_contract (\<lambda>_. [])) (AuthRecords (\<lambda>_. []) 0 None)
             [RMerge [example_grant 1] 1, RErase ''g'' 2 2];
       s' = foldl (rc_step example_contract (\<lambda>_. [])) s [RMerge [example_grant 9] 9, RWrite ''g'' (ar_body (example_grant 9)) 9 9]
   in \<exists>r' d'. map_of (rc_records s') ''g'' = Some r' \<and> ar_body r' = TombstoneBody d' None \<and> 2 \<le> ar_updated_at r'"
proof -
  let ?s = "foldl (rc_step example_contract (\<lambda>_. [])) (AuthRecords (\<lambda>_. []) 0 None)
     [RMerge [example_grant 1] 1, RErase ''g'' 2 2]"
  have r: "rc_records ?s = [(''g'', example_mark 2)]" by code_simp
  then have "rc_wf ?s" by (simp add: rc_wf_def example_mark_def)
  from removal_is_final [OF this, of "''g''" "example_mark 2" 2 example_contract "\<lambda>_. []"
      "[RMerge [example_grant 9] 9, RWrite ''g'' (ar_body (example_grant 9)) 9 9]"] show ?thesis
    unfolding Let_def r by (simp add: example_mark_def)
qed

text \<open>What it does not give: a peer that holds a write stamped after the mark refuses the mark, and
  the two disagree for as long as neither writes again.\<close>

lemma mark_refused_by_a_later_write:
  "let ok = (\<lambda>_. []); s = snd (rc_merge ok [example_grant 5] 5 (AuthRecords ok 0 None))
   in map_of (rc_records (snd (rc_merge ok [example_mark 4] 6 s))) ''g'' = Some (example_grant 5)
    \<and> map_of (rc_records (snd (rc_merge ok [example_grant 5] 6 (snd (rc_merge ok [example_mark 4] 5 (AuthRecords ok 0 None)))))) ''g''
        = Some (example_mark 4)"
  by code_simp

text \<open>A write of this instance stands unless the key was removed, whatever the clock says.\<close>

lemma local_write_stands:
  assumes "problems \<lparr>ar_key = key, ar_updated_at = stamp_past now (map_of (rc_records s) key), ar_body = body\<rparr> = []"
  shows "fst (rc_write problems key body now clk s) = Inr (\<not> rc_removed s key)"
    and "\<not> rc_removed s key \<Longrightarrow> rc_wf s \<Longrightarrow> \<not> record_over clk \<lparr>ar_key = key, ar_updated_at = stamp_past now (map_of (rc_records s) key), ar_body = body\<rparr> \<Longrightarrow>
      map_option ar_body (map_of (rc_records (snd (rc_write problems key body now clk s))) key) = Some body"
proof -
  let ?r = "\<lparr>ar_key = key, ar_updated_at = stamp_past now (map_of (rc_records s) key), ar_body = body\<rparr>"
  have adm: "admits_record (map_of (rc_records s) key) ?r \<longleftrightarrow> \<not> rc_removed s key"
    by (auto simp: admits_record_def rc_removed_def stamp_past_def split: option.splits)
  then have acc: "rc_accept problems ?r s =
      (if rc_removed s key then (False, s) else (True, s\<lparr>rc_records := map_set key ?r (rc_records s)\<rparr>))"
    using assms by (simp add: rc_accept_def)
  show "fst (rc_write problems key body now clk s) = Inr (\<not> rc_removed s key)"
    using assms by (simp add: rc_write_def Let_def acc)
  assume n: "\<not> rc_removed s key" and wf: "rc_wf s" and o: "\<not> record_over clk ?r"
  have "rc_wf (s\<lparr>rc_records := map_set key ?r (rc_records s)\<rparr>)" by (rule rc_wf_set [OF wf]) simp
  from rc_expire_view(1) [OF this, of clk key] n o assms show
    "map_option ar_body (map_of (rc_records (snd (rc_write problems key body now clk s))) key) = Some body"
    by (simp add: rc_write_def Let_def acc rc_keep_view)
qed

section \<open>A restart\<close>

definition keyed :: "auth_record list \<Rightarrow> (string, auth_record) js_map" where
  "keyed rs = map (\<lambda>r. (ar_key r, r)) rs"

text \<open>What the file will state once every write asked for has landed.\<close>

definition stated_records :: "file_store \<Rightarrow> auth_record list" where
  "stated_records st =
     (if fs_writing st = [] then (case fs_file st of None \<Rightarrow> [] | Some rs \<Rightarrow> rs) else fst (last (fs_writing st)))"

definition valid_only :: "(auth_record \<Rightarrow> string list) \<Rightarrow> auth_record option \<Rightarrow> auth_record option" where
  "valid_only problems r = (case r of None \<Rightarrow> None | Some r \<Rightarrow> if problems r = [] then Some r else None)"

definition store_ok :: "file_store \<Rightarrow> bool" where
  "store_ok st \<longleftrightarrow> map_wf (fs_kept st) \<and> (\<forall>k r. map_of (fs_kept st) k = Some r \<longrightarrow> ar_key r = k)
     \<and> distinct (map ar_key (stated_records st)) \<and> (\<forall>k. map_of (keyed (stated_records st)) k = map_of (fs_kept st) k)"

text \<open>Memory and store agree, but for the records in \<open>ch\<close>, which the store is about to be told of.\<close>

definition agrees :: "(auth_record \<Rightarrow> string list) \<Rightarrow> timestamp \<Rightarrow> auth_record list \<Rightarrow> auth_records \<Rightarrow> bool" where
  "agrees problems T ch s \<longleftrightarrow> rc_wf s \<and> store_ok (rc_store s)
     \<and> (\<forall>k. if k \<in> set (rc_dropped s)
            then map_of (rc_records s) k = None \<and> k \<notin> ar_key ` set ch
              \<and> (\<forall>r. map_of (fs_kept (rc_store s)) k = Some r \<longrightarrow> problems r = [] \<longrightarrow> record_over T r)
            else map_of (rc_records s) k = valid_only problems (map_of (keep_all ch (fs_kept (rc_store s))) k))
     \<and> (\<forall>r \<in> set ch. problems r = [])"

lemma keep_all_simps [simp]:
  "keep_all [] m = m" "keep_all (rs @ [r]) m = map_set (ar_key r) r (keep_all rs m)"
  by (simp_all add: keep_all_def)

lemma keep_all_other: "k \<notin> ar_key ` set rs \<Longrightarrow> map_of (keep_all rs m) k = map_of m k"
  by (induction rs rule: rev_induct) auto

lemma keep_all_filter: "P k \<Longrightarrow> map_of (keep_all (filter (\<lambda>r. P (ar_key r)) rs) m) k = map_of (keep_all rs m) k"
  by (induction rs rule: rev_induct) auto

lemma keep_all_wf: "map_wf m \<Longrightarrow> map_wf (keep_all rs m)"
  by (induction rs rule: rev_induct) auto

lemma keep_all_key:
  "map_of (keep_all rs m) k = Some r \<Longrightarrow> (\<forall>k r. map_of m k = Some r \<longrightarrow> ar_key r = k) \<Longrightarrow> ar_key r = k"
  by (induction rs rule: rev_induct) (auto split: if_splits)

lemma keep_all_mem: "k \<in> ar_key ` set rs \<Longrightarrow> \<exists>r \<in> set rs. map_of (keep_all rs m) k = Some r"
  by (induction rs rule: rev_induct) auto

lemma map_of_fold_del [simp]: "map_of (fold map_del ks m) k = (if k \<in> set ks then None else map_of m k)"
  by (induction ks arbitrary: m) auto

lemma map_wf_fold_del [simp]: "map_wf m \<Longrightarrow> map_wf (fold map_del ks m)"
  by (induction ks arbitrary: m) auto

lemma keyed_values:
  assumes "\<forall>k r. map_of m k = Some r \<longrightarrow> ar_key r = k" "map_wf m"
  shows "keyed (map snd m) = m"
proof -
  have "ar_key r = k" if "(k, r) \<in> set m" for k r using that assms(1) map_wf_mem [OF assms(2), of k r] by blast
  then show ?thesis unfolding keyed_def map_map by (intro map_idI) auto
qed

lemma store_ok_commit:
  assumes "store_ok st"
  shows "store_ok (fs_commit rs ds announce st)"
    and "map_of (fs_kept (fs_commit rs ds announce st)) k = (if k \<in> set ds then None else map_of (keep_all rs (fs_kept st)) k)"
proof -
  let ?m = "fold map_del ds (keep_all rs (fs_kept st))"
  have wf: "map_wf ?m" using assms by (simp add: store_ok_def keep_all_wf)
  have key: "\<forall>k r. map_of ?m k = Some r \<longrightarrow> ar_key r = k"
    using assms keep_all_key [of rs "fs_kept st"] by (auto simp: store_ok_def simp del: map_of_eq_Some_iff)
  have "map ar_key (map snd ?m) = map fst (keyed (map snd ?m))" by (simp add: keyed_def)
  then have "distinct (map ar_key (map snd ?m))" unfolding keyed_values [OF key wf] using wf by (simp only:)
  then show "store_ok (fs_commit rs ds announce st)"
    using wf key keyed_values [OF key wf] by (simp add: store_ok_def fs_commit_def Let_def stated_records_def del: map_of_eq_Some_iff)
  show "map_of (fs_kept (fs_commit rs ds announce st)) k = (if k \<in> set ds then None else map_of (keep_all rs (fs_kept st)) k)"
    by (simp add: fs_commit_def Let_def)
qed

lemma agreesD:
  assumes "agrees problems T ch s"
  shows "rc_wf s" "store_ok (rc_store s)" "k \<in> set (rc_dropped s) \<Longrightarrow> map_of (rc_records s) k = None"
    "k \<in> set (rc_dropped s) \<Longrightarrow> k \<notin> ar_key ` set ch"
    "k \<in> set (rc_dropped s) \<Longrightarrow> map_of (fs_kept (rc_store s)) k = Some r \<Longrightarrow> problems r = [] \<Longrightarrow> record_over T r"
    "k \<notin> set (rc_dropped s) \<Longrightarrow> map_of (rc_records s) k = valid_only problems (map_of (keep_all ch (fs_kept (rc_store s))) k)"
    "r \<in> set ch \<Longrightarrow> problems r = []"
  using assms unfolding agrees_def by (auto split: if_splits)

lemma agrees_accept:
  assumes a: "agrees problems T ch s" and acc: "fst (rc_accept problems r s)" and fresh: "ar_key r \<notin> set (rc_dropped s)"
  shows "agrees problems T (ch @ [r]) (snd (rc_accept problems r s))"
proof -
  have p: "problems r = []" and adm: "admits_record (map_of (rc_records s) (ar_key r)) r"
    using acc by (auto simp: rc_accept_def split: if_splits)
  have v: "map_of (rc_records (snd (rc_accept problems r s))) k = (if k = ar_key r then Some r else map_of (rc_records s) k)" for k
    using p adm by (simp add: rc_accept_def)
  note d = rc_accept_view(2,3) [of problems r s]
  show ?thesis unfolding agrees_def d keep_all_simps map_of_map_set v
    using agreesD [OF a] fresh p rc_accept_view(4) [OF agreesD(1) [OF a], of problems r]
    by (auto simp: valid_only_def simp del: map_of_eq_Some_iff)
qed

lemma agrees_merge_over:
  assumes "agrees problems T ch s" "merge_over problems rs s = (took, revoked, s')" "ar_key ` set rs \<inter> set (rc_dropped s) = {}"
  shows "agrees problems T (ch @ took) s'"
  using assms
proof (induction rs arbitrary: s ch took revoked)
  case (Cons r rs)
  obtain ok s1 where acc: "rc_accept problems r s = (ok, s1)" by fastforce
  then have d: "rc_dropped s1 = rc_dropped s" using rc_accept_view(2) [of problems r s] by simp
  show ?case
  proof (cases ok)
    case True
    obtain took' rev' where m: "merge_over problems rs s1 = (took', rev', s')" and t: "took = r # took'"
      using Cons.prems(2) acc True by (auto simp: Let_def split: prod.splits)
    have "agrees problems T (ch @ [r]) s1"
      using agrees_accept [OF Cons.prems(1), of r] acc True Cons.prems(3) by simp
    from Cons.IH [OF this m] Cons.prems(3) show ?thesis by (simp add: t d)
  next
    case False
    then have "s1 = s" using acc by (auto simp: rc_accept_def split: if_splits)
    then show ?thesis using Cons acc False by (auto simp: Let_def)
  qed
qed simp

lemma record_over_mono: "record_over T r \<Longrightarrow> T \<le> now \<Longrightarrow> record_over now r"
  by (auto simp: record_over_def split: auth_body.splits option.splits)

lemma agrees_all:
  assumes a: "agrees problems T [] s" and T: "T \<le> now"
  shows "agrees problems now [] (rc_expire now s)"
proof -
  note D = agreesD [OF a] and E = rc_expire_view [OF agreesD(1) [OF a], of now]
  have "if k \<in> set (rc_dropped (rc_expire now s))
      then map_of (rc_records (rc_expire now s)) k = None \<and> k \<notin> ar_key ` set []
        \<and> (\<forall>r. map_of (fs_kept (rc_store s)) k = Some r \<longrightarrow> problems r = [] \<longrightarrow> record_over now r)
      else map_of (rc_records (rc_expire now s)) k = valid_only problems (map_of (keep_all [] (fs_kept (rc_store s))) k)" for k
  proof (cases "k \<in> set (rc_dropped s)")
    case True
    then show ?thesis using D(3) [OF True] D(5) [OF True] T by (auto simp: E intro: record_over_mono)
  next
    case False
    then show ?thesis using D(6) [OF False] by (auto simp: E valid_only_def split: option.splits if_splits)
  qed
  note each = this
  show ?thesis unfolding agrees_def E(3) by (intro conjI allI E(2) D(2) each) simp
qed

lemma agrees_keep:
  assumes a: "agrees problems T ch s" and T: "T \<le> clk"
  shows "agrees problems clk [] (rc_keep clk ch announce s)"
proof -
  note D = agreesD [OF a] and E = rc_expire_view [OF agreesD(1) [OF a], of clk]
  let ?ds = "rc_dropped (rc_expire clk s)"
  let ?st = "fs_commit (filter (\<lambda>r. ar_key r \<notin> set ?ds) ch) ?ds announce (rc_store s)"
  have kept: "map_of (fs_kept ?st) k = (if k \<in> set ?ds then None else map_of (keep_all ch (fs_kept (rc_store s))) k)" for k
    using store_ok_commit(2) [OF D(2)] keep_all_filter [of "\<lambda>k. k \<notin> set ?ds" k ch] by simp
  have "map_of (rc_records (rc_expire clk s)) k = valid_only problems (map_of (fs_kept ?st) k)" for k
  proof (cases "k \<in> set (rc_dropped s)")
    case True
    then show ?thesis using D(3) [OF True] unfolding kept by (simp add: E valid_only_def)
  next
    case False
    then show ?thesis using D(6) [OF False] unfolding kept by (auto simp: E valid_only_def split: option.splits if_splits)
  qed
  note each = this
  have "rc_keep clk ch announce s = (rc_expire clk s)\<lparr>rc_dropped := [], rc_store := ?st\<rparr>"
    by (simp add: rc_keep_def Let_def E(3))
  then have k: "rc_records (rc_keep clk ch announce s) = rc_records (rc_expire clk s)" "rc_dropped (rc_keep clk ch announce s) = []"
    "rc_store (rc_keep clk ch announce s) = ?st" by simp_all
  show ?thesis unfolding agrees_def k
    by (intro conjI allI rc_keep_wf D(1) store_ok_commit(1) D(2)) (simp_all add: each)
qed

text \<open>The contract lets a mark stand over whatever key it lets a record stand under.\<close>

definition marks_valid :: "(auth_record \<Rightarrow> string list) \<Rightarrow> bool" where
  "marks_valid problems \<longleftrightarrow> (\<forall>r r'. problems r = [] \<longrightarrow> ar_key r' = ar_key r \<longrightarrow> is_tombstone (ar_body r') \<longrightarrow>
     ar_updated_at r \<le> ar_updated_at r' \<longrightarrow> problems r' = [])"

lemma agrees_erase:
  assumes a: "agrees problems T [] s" and "T \<le> clk" and m: "marks_valid problems"
  shows "agrees problems (if map_of (rc_records s) key = None then T else clk) [] (snd (rc_erase key keep at clk s))"
proof (cases "map_of (rc_records s) key")
  case (Some held)
  note D = agreesD [OF a]
  let ?r = "\<lparr>ar_key = key, ar_updated_at = stamp_past at (Some held), ar_body = TombstoneBody at (map_option (\<lambda>x. at + x) keep)\<rparr>"
  let ?s = "s\<lparr>rc_records := map_set key ?r (rc_records s)\<rparr>"
  have fresh: "key \<notin> set (rc_dropped s)" using D(3) [of key] Some by auto
  have "problems held = []" using D(6) [OF fresh] Some by (auto simp: valid_only_def split: option.splits if_splits)
  moreover have "ar_key held = key" using D(1) Some by (simp add: rc_wf_def del: map_of_eq_Some_iff)
  ultimately have p: "problems ?r = []" using m unfolding marks_valid_def by (auto simp: stamp_past_def)
  have wf: "rc_wf ?s" by (rule rc_wf_set [OF D(1)]) simp
  have "agrees problems T ([] @ [?r]) ?s"
    unfolding agrees_def keep_all_simps using D(2,3,5,6) fresh p wf
    by (auto simp: valid_only_def simp del: map_of_eq_Some_iff)
  from agrees_keep [OF this assms(2)] Some show ?thesis by (simp add: rc_erase_def Let_def)
qed (use a in \<open>simp add: rc_erase_def\<close>)

lemma agrees_land:
  assumes "agrees problems T [] s"
  shows "agrees problems T [] (rc_land s)"
proof -
  have "stated_records (snd (fs_land st)) = stated_records st" "fs_kept (snd (fs_land st)) = fs_kept st" for st :: "file_store"
    by (auto simp: stated_records_def fs_land_def split: list.splits prod.splits)
  then have st: "store_ok (snd (fs_land (rc_store s))) = store_ok (rc_store s)" "fs_kept (snd (fs_land (rc_store s))) = fs_kept (rc_store s)"
    by (simp_all add: store_ok_def)
  have l: "rc_store (rc_land s) = snd (fs_land (rc_store s))" "rc_records (rc_land s) = rc_records s" "rc_dropped (rc_land s) = rc_dropped s"
    by (auto simp: rc_land_def split: prod.splits)
  have w: "rc_wf (rc_land s) = rc_wf s" by (simp only: rc_wf_def l)
  show ?thesis using assms unfolding agrees_def l st w .
qed

text \<open>An event that reads a clock reads one that does not go back, and brings no record under a key
  that ran out and is still to be forgotten by the store.\<close>

fun event_reads :: "records_event \<Rightarrow> timestamp option" where
  "event_reads (RWrite key body now clk) = Some clk"
| "event_reads (RMerge records clk) = Some clk"
| "event_reads (RErase key at clk) = Some clk"
| "event_reads (RFail key at clk) = Some clk"
| "event_reads (RAll now) = Some now"
| "event_reads _ = None"

fun event_brings :: "records_event \<Rightarrow> string list" where
  "event_brings (RWrite key body now clk) = [key]"
| "event_brings (RMerge records clk) = map ar_key records"
| "event_brings _ = []"

fun tidy :: "contract \<Rightarrow> (auth_record \<Rightarrow> string list) \<Rightarrow> timestamp \<Rightarrow> auth_records \<Rightarrow> records_event list \<Rightarrow> bool" where
  "tidy ct problems T s [] = True"
| "tidy ct problems T s (e # es) =
     (e \<noteq> RLost \<and> (case event_reads e of None \<Rightarrow> True | Some t \<Rightarrow> T \<le> t)
      \<and> list_all (\<lambda>k. k \<notin> set (rc_dropped s)) (event_brings e)
      \<and> tidy ct problems (case event_reads e of None \<Rightarrow> T | Some t \<Rightarrow> t) (rc_step ct problems s e) es)"

lemma agrees_later: "agrees problems T ch s \<Longrightarrow> T \<le> T' \<Longrightarrow> agrees problems T' ch s"
  unfolding agrees_def using record_over_mono by metis

lemma agrees_step:
  assumes a: "agrees problems T [] s" and m: "marks_valid problems" and t: "tidy ct problems T s [e]"
  shows "agrees problems (case event_reads e of None \<Rightarrow> T | Some t \<Rightarrow> t) [] (rc_step ct problems s e)"
proof (cases e)
  case (RWrite key body now clk)
  then have T: "T \<le> clk" "key \<notin> set (rc_dropped s)" using t by simp_all
  show ?thesis
  proof (cases rule: rc_write_cases [of problems key body now clk s])
    case refused
    then show ?thesis using agrees_later [OF a T(1)] by (simp add: RWrite)
  next
    case (kept r)
    have "agrees problems T ([] @ [r]) (snd (rc_accept problems r s))"
      using kept T(2) by (intro agrees_accept [OF a]) simp_all
    from agrees_keep [OF this T(1), of "Some [r]"] kept(4) show ?thesis by (simp add: RWrite)
  qed
next
  case (RMerge records clk)
  then have T: "T \<le> clk" "ar_key ` set records \<inter> set (rc_dropped s) = {}" using t by (auto simp: list_all_iff)
  obtain took revoked s1 where mo: "merge_over problems records s = (took, revoked, s1)" by (cases "merge_over problems records s")
  have "agrees problems T ([] @ took) s1" by (rule agrees_merge_over [OF a mo T(2)])
  then show ?thesis using agrees_keep [OF _ T(1), of problems took s1 None] agrees_later [OF _ T(1), of problems "[]" s1] mo
    by (auto simp: RMerge rc_merge_def)
next
  case (RErase key at clk)
  then have T: "T \<le> clk" using t by simp
  have "agrees problems clk [] (snd (rc_erase key None at clk s))"
    using agrees_erase [OF a T m, of key None at] agrees_later [OF _ T] by (auto split: if_splits)
  then show ?thesis by (simp add: RErase)
next
  case (RFail key at clk)
  then have T: "T \<le> clk" using t by simp
  have "agrees problems clk [] (snd (rc_erase key (Some (FAMILY_TOMBSTONE_RETENTION_MS ct)) at clk s))"
    using agrees_erase [OF a T m, of key "Some (FAMILY_TOMBSTONE_RETENTION_MS ct)" at] agrees_later [OF _ T] by (auto split: if_splits)
  then show ?thesis using agrees_later [OF a T] by (auto simp: RFail rc_fail_def split: option.splits)
next
  case (RAll now)
  then have "T \<le> now" using t by simp
  from agrees_all [OF a this] show ?thesis by (simp add: RAll rc_all_def Let_def)
qed (use a t in \<open>simp_all add: agrees_land\<close>)

fun last_read :: "timestamp \<Rightarrow> records_event list \<Rightarrow> timestamp" where
  "last_read T [] = T"
| "last_read T (e # es) = last_read (case event_reads e of None \<Rightarrow> T | Some t \<Rightarrow> t) es"

lemma agrees_run:
  assumes "agrees problems T [] s" "marks_valid problems" "tidy ct problems T s evs"
  shows "agrees problems (last_read T evs) [] (foldl (rc_step ct problems) s evs)"
  using assms
proof (induction evs arbitrary: T s)
  case (Cons e evs)
  have "tidy ct problems T s [e]" using Cons.prems(3) by simp
  from agrees_step [OF Cons.prems(1,2) this] Cons show ?case by simp
qed simp

lemma accept_all:
  assumes "distinct (map ar_key rs)" "\<And>r. r \<in> set rs \<Longrightarrow> map_of (rc_records s) (ar_key r) = None" "rc_wf s"
  shows "map_of (rc_records (fold (\<lambda>r s. snd (rc_accept problems r s)) rs s)) k =
      (case valid_only problems (map_of (keyed rs) k) of None \<Rightarrow> map_of (rc_records s) k | Some r \<Rightarrow> Some r)"
    and "rc_wf (fold (\<lambda>r s. snd (rc_accept problems r s)) rs s)"
    and "rc_dropped (fold (\<lambda>r s. snd (rc_accept problems r s)) rs s) = rc_dropped s"
    and "rc_store (fold (\<lambda>r s. snd (rc_accept problems r s)) rs s) = rc_store s"
proof -
  have "map_of (rc_records (fold (\<lambda>r s. snd (rc_accept problems r s)) rs s)) k =
      (case valid_only problems (map_of (keyed rs) k) of None \<Rightarrow> map_of (rc_records s) k | Some r \<Rightarrow> Some r)
    \<and> rc_wf (fold (\<lambda>r s. snd (rc_accept problems r s)) rs s)
    \<and> rc_dropped (fold (\<lambda>r s. snd (rc_accept problems r s)) rs s) = rc_dropped s
    \<and> rc_store (fold (\<lambda>r s. snd (rc_accept problems r s)) rs s) = rc_store s"
    using assms
  proof (induction rs arbitrary: s)
    case Nil
    then show ?case by (simp add: keyed_def valid_only_def)
  next
    case (Cons r rs)
    let ?s = "snd (rc_accept problems r s)"
    have n: "map_of (rc_records s) (ar_key r) = None" using Cons.prems(2) by simp
    have v: "map_of (rc_records ?s) k = (if problems r = [] \<and> k = ar_key r then Some r else map_of (rc_records s) k)" for k
      using n by (auto simp: rc_accept_def admits_record_def)
    have none: "map_of (rc_records ?s) (ar_key r') = None" if "r' \<in> set rs" for r'
    proof -
      have "ar_key r' \<noteq> ar_key r" using that Cons.prems(1) by (auto simp: image_iff)
      then show ?thesis using Cons.prems(2) [of r'] that by (simp add: v)
    qed
    have kr: "map_of (keyed rs) (ar_key r) = None"
      using Cons.prems(1) by (force simp: keyed_def map_of_eq_None_iff)
    show ?case
      using Cons.IH [OF _ none rc_accept_view(4) [OF Cons.prems(3)]] Cons.prems(1) kr rc_accept_view(2,3) [of problems r s]
      by (cases "k = ar_key r") (auto simp: v keyed_def valid_only_def split: option.splits if_splits)
  qed
  then show "map_of (rc_records (fold (\<lambda>r s. snd (rc_accept problems r s)) rs s)) k =
      (case valid_only problems (map_of (keyed rs) k) of None \<Rightarrow> map_of (rc_records s) k | Some r \<Rightarrow> Some r)"
    "rc_wf (fold (\<lambda>r s. snd (rc_accept problems r s)) rs s)"
    "rc_dropped (fold (\<lambda>r s. snd (rc_accept problems r s)) rs s) = rc_dropped s"
    "rc_store (fold (\<lambda>r s. snd (rc_accept problems r s)) rs s) = rc_store s" by blast+
qed

lemma keep_all_keyed:
  assumes "distinct (map ar_key rs)"
  shows "map_of (keep_all rs []) k = map_of (keyed rs) k"
  using assms
proof (induction rs rule: rev_induct)
  case (snoc r rs)
  have "map_of (keyed rs) (ar_key r) = None" using snoc.prems by (force simp: keyed_def map_of_eq_None_iff)
  with snoc show ?case by (auto simp: keyed_def map_add_def split: option.splits)
qed (simp add: keyed_def)

lemma start_agrees:
  fixes contents :: "auth_record list option"
  defines "rs \<equiv> (case contents of None \<Rightarrow> [] | Some rs \<Rightarrow> rs)"
  assumes "distinct (map ar_key rs)"
  shows "agrees problems now [] (AuthRecords problems now contents)"
    and "map_of (rc_records (AuthRecords problems now contents)) k =
      (case valid_only problems (map_of (keyed rs) k) of None \<Rightarrow> None | Some r \<Rightarrow> if record_over now r then None else Some r)"
proof -
  let ?st = "\<lparr>fs_kept = keep_all rs [], fs_writing = [], fs_file = contents\<rparr>"
  let ?init = "\<lparr>rc_records = [], rc_dropped = [], rc_store = ?st, rc_published = []\<rparr>"
  let ?s = "fold (\<lambda>r s. snd (rc_accept problems r s)) rs ?init"
  have A: "AuthRecords problems now contents = rc_expire now ?s"
    by (auto simp: AuthRecords_def fs_load_def fileRecordStore_def rs_def split: option.splits)
  have wf0: "rc_wf ?init" by (simp add: rc_wf_def)
  note V = accept_all [OF assms(2) _ wf0, of problems, simplified]
  have "map_wf (keep_all rs [])" "\<forall>k r. map_of (keep_all rs []) k = Some r \<longrightarrow> ar_key r = k"
    using keep_all_wf [of "[]" rs] keep_all_key [of rs "[]"] by auto
  moreover have "stated_records ?st = rs" by (simp add: stated_records_def rs_def)
  ultimately have st: "store_ok ?st" using assms(2) keep_all_keyed [OF assms(2)] by (simp add: store_ok_def)
  have v: "map_of (rc_records ?s) k = valid_only problems (map_of (keyed rs) k)" for k
    using V(1) [of k] by (simp split: option.splits)
  have "agrees problems now [] ?s"
    unfolding agrees_def using V(2-4) st by (simp add: v keep_all_keyed [OF assms(2)])
  then show "agrees problems now [] (AuthRecords problems now contents)" unfolding A by (rule agrees_all) simp
  show "map_of (rc_records (AuthRecords problems now contents)) k =
      (case valid_only problems (map_of (keyed rs) k) of None \<Rightarrow> None | Some r \<Rightarrow> if record_over now r then None else Some r)"
    unfolding A rc_expire_view(1) [OF V(2)] v ..
qed

text \<open>
  A restart keeps the set. Take an instance built on any file whose keys are distinct (or on
  none), run it through writes, batches of peers, removals, failed families and snapshots under a
  clock that does not go back, none of which brings a record under a key that ran out and that the
  store has not forgotten yet, and let every write land: an instance built on the file at any later
  moment holds under every key exactly what the running one would answer at that moment.
\<close>

theorem auth_records_restart:
  fixes contents :: "auth_record list option"
  assumes "distinct (map ar_key (case contents of None \<Rightarrow> [] | Some rs \<Rightarrow> rs))" and "marks_valid problems"
    and "tidy ct problems t0 (AuthRecords problems t0 contents) evs"
    and "fs_writing (rc_store (foldl (rc_step ct problems) (AuthRecords problems t0 contents) evs)) = []"
    and "last_read t0 evs \<le> now"
  shows "let s = foldl (rc_step ct problems) (AuthRecords problems t0 contents) evs in
    map_of (rc_records (AuthRecords problems now (fs_file (rc_store s)))) k = map_of (rc_records (snd (rc_all now s))) k"
proof -
  let ?s = "foldl (rc_step ct problems) (AuthRecords problems t0 contents) evs"
  have a: "agrees problems now [] ?s"
    by (rule agrees_later [OF agrees_run [OF start_agrees(1) [OF assms(1)] assms(2,3)] assms(5)])
  let ?rs = "case fs_file (rc_store ?s) of None \<Rightarrow> [] | Some rs \<Rightarrow> rs"
  have st: "stated_records (rc_store ?s) = ?rs" using assms(4) by (simp add: stated_records_def)
  have ok: "distinct (map ar_key ?rs)" "map_of (keyed ?rs) k = map_of (fs_kept (rc_store ?s)) k"
    using agreesD(2) [OF a] unfolding store_ok_def st by blast+
  note new = start_agrees(2) [OF ok(1), of problems now k, unfolded ok(2)]
  note old = rc_expire_view(1) [OF agreesD(1) [OF a], of now k]
  show ?thesis
  proof (cases "k \<in> set (rc_dropped ?s)")
    case True
    have "map_of (rc_records ?s) k = None" by (rule agreesD(3) [OF a True])
    moreover have "record_over now r" if "valid_only problems (map_of (fs_kept (rc_store ?s)) k) = Some r" for r
      using agreesD(5) [OF a True, of r] that by (auto simp: valid_only_def split: option.splits if_splits)
    ultimately show ?thesis unfolding Let_def rc_all_def snd_conv new old by (auto split: option.splits)
  next
    case False
    from agreesD(6) [OF a False] show ?thesis unfolding Let_def rc_all_def snd_conv new old by simp
  qed
qed

definition example_family :: "timestamp \<Rightarrow> timestamp \<Rightarrow> auth_record" where
  "example_family t expires = \<lparr>ar_key = ''f'', ar_updated_at = t, ar_body = FamilyBody
     \<lparr>tf_user = ''u'', tf_iss = ''i'', tf_origin = ''o'', tf_access = \<lparr>tk_value = ''a'', tk_expires_at = expires\<rparr>, tf_refresh = \<lparr>tk_value = ''r'', tk_expires_at = expires\<rparr>,
      tf_previous_refresh = None, tf_retired = [], tf_last_refresh = None\<rparr>\<rparr>"

definition example_records_evs :: "records_event list" where
  "example_records_evs = [RMerge [example_grant 1, example_family 1 5] 1, RErase ''g'' 2 2, RAll 6, RLand, RLand]"

theorem auth_records_restart_witness:
  "let s = foldl (rc_step example_contract (\<lambda>_. [])) (AuthRecords (\<lambda>_. []) 0 None) example_records_evs
   in map_of (rc_records (AuthRecords (\<lambda>_. []) 7 (fs_file (rc_store s)))) ''g'' = Some (example_mark 2)"
proof -
  let ?s = "foldl (rc_step example_contract (\<lambda>_. [])) (AuthRecords (\<lambda>_. []) 0 None) example_records_evs"
  have "tidy example_contract (\<lambda>_. []) 0 (AuthRecords (\<lambda>_. []) 0 None) example_records_evs"
    and "fs_writing (rc_store ?s) = []" and "last_read 0 example_records_evs \<le> 7"
    and r: "map_of (rc_records (snd (rc_all 7 ?s))) ''g'' = Some (example_mark 2)" by code_simp+
  from auth_records_restart [OF _ _ this(1-3), of "''g''"] r show ?thesis by (simp add: Let_def marks_valid_def)
qed

text \<open>Without that condition a record is lost: a family that ran out is noticed by a snapshot, a peer
  then brings its rotated successor, and the commit that should keep it forgets it instead. The
  instance holds the family, and its file does not.\<close>

lemma record_lost_to_an_expiry:
  "let s = foldl (rc_step example_contract (\<lambda>_. [])) (AuthRecords (\<lambda>_. []) 0 None)
             [RMerge [example_family 1 5] 1, RLand, RAll 6, RMerge [example_family 4 20] 6, RLand]
   in map_of (rc_records s) ''f'' = Some (example_family 4 20) \<and> fs_writing (rc_store s) = []
      \<and> map_of (rc_records (AuthRecords (\<lambda>_. []) 7 (fs_file (rc_store s)))) ''f'' = None"
  by code_simp

text \<open>And a record the contract refuses stays in the file: the store keeps its own copy of what it
  read, the set never holds it, and every later commit writes it back.\<close>

lemma refused_record_stays_in_the_file:
  "let bad = (\<lambda>r. if ar_key r = ''old'' then [''not this generation''] else []);
       old = \<lparr>ar_key = ''old'', ar_updated_at = 1, ar_body = UserBody \<lparr>ur_user = ''u'', ur_display_name = ''u'', ur_created_at = 0\<rparr>\<rparr>;
       s = foldl (rc_step example_contract bad) (AuthRecords bad 0 (Some [old])) [RMerge [example_grant 1] 1, RLand]
   in map_of (rc_records s) ''old'' = None \<and> fs_file (rc_store s) = Some [old, example_grant 1]"
  by code_simp

end
