(* ===== verification/Auth.thy ===== *)
theory Auth
  imports AuthRecords
begin

text \<open>
  \<open>src/auth/auth.ts\<close>: the enrolment URLs an instance issued, the challenges it holds, the token
  families it mints and rotates, and the connections an access token opened.

  Every method that waits is one definition per stretch between two waits; a call that waits is an
  entry of \<open>au_calls\<close>, and \<open>au_resume\<close> continues it with what it waited for: a write that landed or
  failed, the platform's verification of a key or a signature, or the answer of the instance that
  issued a URL or a challenge. Randomness (\<open>fresh\<close>) and the clock arrive with each event. HMAC, SHA-256,
  base64url, JSON, URL parsing and the contract's validators are the record \<open>auth_env\<close>. A refusal is its
  code; the messages are left out.
\<close>

section \<open>Constants and data\<close>

definition ACCESS_TTL_MS :: int where "ACCESS_TTL_MS = 4 * 60 * 60 * 1000"
definition REFRESH_TTL_MS :: int where "REFRESH_TTL_MS = 7 * 24 * 60 * 60 * 1000"
definition PREVIOUS_GRACE_MS :: int where "PREVIOUS_GRACE_MS = 60000"
definition ACCESS_KEEP_MS :: int where "ACCESS_KEEP_MS = ACCESS_TTL_MS div 2"
definition CODE_ATTEMPTS :: nat where "CODE_ATTEMPTS = 5"
definition AUTH_RATE_LIMIT :: nat where "AUTH_RATE_LIMIT = 30"
definition AUTH_RATE_WINDOW_MS :: int where "AUTH_RATE_WINDOW_MS = 1000"
definition PERSON_LABEL :: string where "PERSON_LABEL = ''ccmsg''"

datatype purpose = CreateUser user_id | AddOwner

record enroll_claims =
  ec_purpose :: purpose
  ec_iss :: instance_id
  ec_instance :: instance_id
  ec_origin :: string
  ec_endpoint :: string
  ec_expires_at :: timestamp
  ec_jti :: string
  ec_issued_label :: "string option"
  ec_display_name :: "string option"
  ec_instances :: "instance_id list option"

record pending =
  pe_claims :: enroll_claims
  pe_secret :: string
  pe_code :: string
  pe_attempts :: nat

type_synonym conn_no = nat

record authorized_conn =
  ac_user :: user_id
  ac_credential :: "string option"
  ac_expires_at :: timestamp
  ac_timer :: timestamp

text \<open>What an HTTP carrier observed of the caller; \<open>NoCarrier\<close> observes no header at all.\<close>

datatype origin_seen = NoCarrier | NoHeader | Header string

record came =
  cf_ip :: "string option"
  cf_user_agent :: "string option"
  cf_origin :: origin_seen
  cf_reason :: "string option"

record verified =
  vr_credentialId :: string
  vr_publicKey :: string
  vr_signCount :: nat
  vr_backupEligible :: bool
  vr_backupState :: bool

record auth_challenge =
  ch_challenge :: string
  ch_issuer :: instance_id

record register_args =
  ra_token :: string
  ra_code :: string
  ra_client_data :: string
  ra_credential :: string
  ra_challenge :: "auth_challenge option"
  ra_display_name :: "string option"
  ra_device_label :: "string option"

record assert_args =
  aa_raw_id :: string
  aa_user_handle :: "string option"
  aa_challenge :: auth_challenge

text \<open>An enrolment carries the token and the code beside the assertion.\<close>

record enroll_args = assert_args +
  en_token :: string
  en_code :: string

datatype claims_reading = TokenBroken | TokenRead enroll_claims

record auth_env =
  ae_self :: instance_id
  ae_endpoint :: "string option"
  ae_instances :: "(instance_id option \<times> string option) list"
  ae_ask :: bool
  ae_challenge_ttl :: int
  ae_register_ttl :: int
  ae_contract :: contract
  ae_problems :: "auth_record \<Rightarrow> string list"
  ae_base64UrlDecode :: "string \<Rightarrow> nat list"
  ae_endpoint_ok :: "string \<Rightarrow> bool"
  ae_origin_ok :: "string \<Rightarrow> bool"
  ae_url_origin :: "string \<Rightarrow> string"
  ae_hostOf :: "string \<Rightarrow> string"
  ae_sign :: "enroll_claims \<Rightarrow> string \<Rightarrow> string"
  ae_read :: "string \<Rightarrow> claims_reading"
  ae_client_challenge :: "string \<Rightarrow> string option"
  ae_verifyRegistration :: "register_args \<Rightarrow> string \<Rightarrow> string \<Rightarrow> string \<Rightarrow> verified option"
  ae_digest :: "string \<Rightarrow> string"

text \<open>What is drawn at random in one stretch.\<close>

record fresh =
  fr_jti :: string
  fr_user :: user_id
  fr_secret :: string
  fr_code :: string
  fr_challenge :: string
  fr_grant :: string
  fr_access :: string
  fr_refresh :: string
  fr_family :: string

type_synonym code = string

text \<open>What a call waits to become: a session for this person, or only the grantings themselves.\<close>

record minting =
  mi_user :: user_id
  mi_origin :: string
  mi_credential :: string

datatype auth_call =
    RegKey register_args came enroll_claims string verified
  | RegClaims register_args came enroll_claims string verified
  | RegSpend register_args came enroll_claims verified
  | RegUser register_args came enroll_claims verified timestamp
  | RegCred enroll_claims verified
  | EnVerify enroll_args came enroll_claims credential_record
  | EnClaims enroll_args came enroll_claims credential_record nat
  | EnSpend came enroll_claims credential_record nat
  | AsVerify auth_challenge came credential_record
  | AsSpend came credential_record nat
  | UsedWrite credential_record "enroll_claims option"
  | Granting user_id "instance_id list" instance_id timestamp "instance_id list" "minting option"
  | Minting minting string token_family
  | RefreshWrite token_family
  | Failing string user_id "(string \<times> user_id) list"
  | SigningOut string user_id string
  | Revoking user_id instance_id nat "string list"
  | RenameWrite user_record
  | RemoveWrite
  | Merging "user_id list"
  | ChallengeAlive

datatype auth_answer =
    Minted user_id token token string
  | ChallengeIs string timestamp
  | SignedOut user_id string
  | Revoked nat
  | Renamed user_record
  | RemovedPasskey
  | GrantedTo "instance_id list"
  | MergedRecords
  | Declined code
  | Faulted

record auth =
  au_records :: auth_records
  au_pending :: "(string, pending) js_map"
  au_challenges :: "(string, timestamp) js_map"
  au_authorized :: "(conn_no, authorized_conn) js_map"
  au_openedWith :: "(string, string) js_map"
  au_window :: timestamp
  au_served :: nat
  au_calls :: "(nat, auth_call) js_map"
  au_answers :: "(nat \<times> auth_answer) list"
  au_closed :: "conn_no list"
  au_spent :: "string list"
  au_resolved :: "string list"
  au_missed :: "string list"

text \<open>The last four are what went out: connections closed, challenges taken, and enrolment URLs
  resolved or answered a wrong code.\<close>

definition Auth :: "auth_records \<Rightarrow> auth" where
  "Auth records =
     \<lparr>au_records = records, au_pending = [], au_challenges = [], au_authorized = [], au_openedWith = [],
      au_window = 0, au_served = 0, au_calls = [], au_answers = [], au_closed = [], au_spent = [], au_resolved = [], au_missed = []\<rparr>"

definition finish :: "nat \<Rightarrow> auth_answer \<Rightarrow> auth \<Rightarrow> auth" where
  "finish call ans a = a\<lparr>au_calls := map_del call (au_calls a), au_answers := au_answers a @ [(call, ans)]\<rparr>"

definition await :: "nat \<Rightarrow> auth_call \<Rightarrow> auth \<Rightarrow> auth" where
  "await call phase a = a\<lparr>au_calls := map_set call phase (au_calls a)\<rparr>"

section \<open>Small things\<close>

definition advances :: "nat option \<Rightarrow> nat \<Rightarrow> bool" where
  "advances recorded reading = (let last = (case recorded of None \<Rightarrow> 0 | Some n \<Rightarrow> n) in last = 0 \<or> reading > last)"

definition retire :: "auth_env \<Rightarrow> token_family \<Rightarrow> timestamp \<Rightarrow> (string \<times> timestamp) list" where
  "retire env family now =
     filter (\<lambda>one. snd one > now) (tf_retired family)
       @ [(ae_digest env (tk_value (tf_refresh family)), tk_expires_at (tf_refresh family))]"

definition handedOver :: "enroll_claims \<Rightarrow> instance_id list" where
  "handedOver claims = (case ec_instances claims of None \<Rightarrow> [ec_instance claims] | Some is \<Rightarrow> is)"

definition originOf :: "auth_env \<Rightarrow> string \<Rightarrow> string option" where
  "originOf env endpoint =
     (let origin = ae_url_origin env endpoint in if ae_origin_ok env origin then Some origin else None)"

definition cameFrom :: "string \<Rightarrow> origin_seen \<Rightarrow> bool" where
  "cameFrom origin stated = (case stated of NoCarrier \<Rightarrow> True | NoHeader \<Rightarrow> False | Header h \<Rightarrow> h = origin)"

definition au_credential :: "auth_env \<Rightarrow> auth \<Rightarrow> string \<Rightarrow> credential_record option" where
  "au_credential env a credentialId = rc_credential (ae_base64UrlDecode env) (au_records a) credentialId"

definition au_targets :: "auth_env \<Rightarrow> bool \<Rightarrow> instance_id list" where
  "au_targets env all =
     (if \<not> all then [ae_self env]
      else fold (\<lambda>(ident, e) known. case ident of None \<Rightarrow> known | Some i \<Rightarrow> if i \<in> set known then known else known @ [i])
             (ae_instances env) [ae_self env])"

definition knownOrigins :: "auth \<Rightarrow> string list" where
  "knownOrigins a = fold (\<lambda>c known. if cr_origin c \<in> set known then known else known @ [cr_origin c]) (rc_credentials (au_records a)) []"

definition au_forget :: "timestamp \<Rightarrow> auth \<Rightarrow> auth" where
  "au_forget now a =
     a\<lparr>au_challenges := filter (\<lambda>(v, expires). \<not> expires \<le> now) (au_challenges a),
       au_pending := filter (\<lambda>(jti, held). \<not> ec_expires_at (pe_claims held) \<le> now) (au_pending a)\<rparr>"

definition allowRequest :: "timestamp \<Rightarrow> auth \<Rightarrow> bool \<times> auth" where
  "allowRequest now a =
     (let a1 = (if now - au_window a \<ge> AUTH_RATE_WINDOW_MS then a\<lparr>au_window := now, au_served := 0\<rparr> else a);
          a2 = a1\<lparr>au_served := au_served a1 + 1\<rparr>
      in (au_served a2 \<le> AUTH_RATE_LIMIT, a2))"

section \<open>Connections\<close>

definition disconnect :: "user_id \<Rightarrow> auth \<Rightarrow> auth" where
  "disconnect user a =
     a\<lparr>au_authorized := filter (\<lambda>(conn, held). ac_user held \<noteq> user) (au_authorized a),
       au_closed := au_closed a @ map_keys (filter (\<lambda>(conn, held). ac_user held = user) (au_authorized a))\<rparr>"

definition sweep_owners :: "auth_env \<Rightarrow> auth \<Rightarrow> auth" where
  "sweep_owners env a =
     a\<lparr>au_authorized := filter (\<lambda>(conn, held). rc_owns (au_records a) (ac_user held) (ae_self env)) (au_authorized a),
       au_closed := au_closed a @ map_keys (filter (\<lambda>(conn, held). \<not> rc_owns (au_records a) (ac_user held) (ae_self env)) (au_authorized a))\<rparr>"

record admitted =
  ad_user :: user_id
  ad_expires_at :: timestamp
  ad_origin :: string
  ad_credential :: "string option"

definition au_admits :: "auth_env \<Rightarrow> string \<Rightarrow> timestamp \<Rightarrow> auth \<Rightarrow> admitted option" where
  "au_admits env access now a =
     (case find (\<lambda>(k, f). tk_value (tf_access f) = access \<and> tk_expires_at (tf_access f) > now) (rc_families (au_records a)) of
        None \<Rightarrow> None
      | Some (k, f) \<Rightarrow>
          if \<not> rc_owns (au_records a) (tf_user f) (ae_self env) then None
          else Some \<lparr>ad_user = tf_user f, ad_expires_at = tk_expires_at (tf_access f), ad_origin = tf_origin f,
                     ad_credential = map_of (au_openedWith a) k\<rparr>)"

text \<open>The close is scheduled for the deadline, or at once when that has passed.\<close>

definition au_hold :: "conn_no \<Rightarrow> admitted \<Rightarrow> timestamp \<Rightarrow> auth \<Rightarrow> auth" where
  "au_hold conn ad now a =
     a\<lparr>au_authorized := map_set conn \<lparr>ac_user = ad_user ad, ac_credential = ad_credential ad, ac_expires_at = ad_expires_at ad,
                                      ac_timer = max now (ad_expires_at ad)\<rparr> (au_authorized a)\<rparr>"

definition au_connClosed :: "conn_no \<Rightarrow> auth \<Rightarrow> auth" where
  "au_connClosed conn a = a\<lparr>au_authorized := map_del conn (au_authorized a)\<rparr>"

text \<open>A handshake: the token opens a connection for the page its family names.\<close>

definition allowUpgrade :: "auth_env \<Rightarrow> string \<Rightarrow> string option \<Rightarrow> timestamp \<Rightarrow> auth \<Rightarrow> admitted option" where
  "allowUpgrade env access origin now a =
     (case au_admits env access now a of
        None \<Rightarrow> None
      | Some ad \<Rightarrow> if origin \<noteq> Some (ad_origin ad) then None else Some ad)"

definition au_deadline :: "conn_no \<Rightarrow> timestamp \<Rightarrow> auth \<Rightarrow> auth" where
  "au_deadline conn now a =
     (case map_of (au_authorized a) conn of
        None \<Rightarrow> a
      | Some standing \<Rightarrow>
          if ac_expires_at standing > now then
            a\<lparr>au_authorized := map_set conn (standing\<lparr>ac_timer := max now (ac_expires_at standing)\<rparr>) (au_authorized a)\<rparr>
          else a\<lparr>au_authorized := map_del conn (au_authorized a), au_closed := au_closed a @ [conn]\<rparr>)"

definition au_held :: "conn_no \<Rightarrow> auth \<Rightarrow> code + authorized_conn" where
  "au_held conn a = (case map_of (au_authorized a) conn of None \<Rightarrow> Inl ''auth_invalid'' | Some held \<Rightarrow> Inr held)"

definition au_expiresAt :: "conn_no \<Rightarrow> auth \<Rightarrow> timestamp option" where
  "au_expiresAt conn a = map_option ac_expires_at (map_of (au_authorized a) conn)"

definition au_extend :: "auth_env \<Rightarrow> conn_no \<Rightarrow> string \<Rightarrow> timestamp \<Rightarrow> auth \<Rightarrow> (code + timestamp) \<times> auth" where
  "au_extend env conn access now a =
     (case au_held conn a of
        Inl e \<Rightarrow> (Inl e, a)
      | Inr held \<Rightarrow>
          (case au_admits env access now a of
             None \<Rightarrow> (Inl ''auth_expired'', a)
           | Some ad \<Rightarrow>
               if ad_user ad \<noteq> ac_user held then (Inl ''auth_invalid'', a)
               else (Inr (ad_expires_at ad),
                     a\<lparr>au_authorized := map_set conn (held\<lparr>ac_expires_at := ad_expires_at ad\<rparr>) (au_authorized a)\<rparr>)))"
section \<open>Issuing\<close>

text \<open>\<open>issue\<close>: an endpoint, an origin a ceremony can be held at, the claims and what is kept beside them.\<close>

record issue_options =
  io_create :: bool
  io_origin :: "string option"
  io_endpoint :: "string option"
  io_label :: "string option"
  io_name :: "string option"
  io_user :: "user_id option"
  io_ttl :: "int option"
  io_all :: bool

definition au_issue :: "auth_env \<Rightarrow> fresh \<Rightarrow> timestamp \<Rightarrow> issue_options \<Rightarrow> auth \<Rightarrow> (code + enroll_claims \<times> string) \<times> auth" where
  "au_issue env fr now opts a =
     (case (case io_endpoint opts of None \<Rightarrow> ae_endpoint env | e \<Rightarrow> e) of
        None \<Rightarrow> (Inl ''invalid_args'', a)
      | Some endpoint \<Rightarrow>
          if \<not> ae_endpoint_ok env endpoint then (Inl ''invalid_args'', a)
          else case (case io_origin opts of None \<Rightarrow> originOf env endpoint | og \<Rightarrow> og) of
            None \<Rightarrow> (Inl ''invalid_args'', a)
          | Some origin \<Rightarrow>
              if \<not> ae_origin_ok env origin then (Inl ''invalid_args'', a)
              else
                let known = Option.bind (io_user opts) (rc_user (au_records a));
                    display = (case known of Some u \<Rightarrow> Some (ur_display_name u) | None \<Rightarrow> io_name opts);
                    instances = au_targets env (io_all opts);
                    claims = \<lparr>ec_purpose = (if io_create opts then CreateUser (case io_user opts of None \<Rightarrow> fr_user fr | Some u \<Rightarrow> u) else AddOwner),
                              ec_iss = ae_self env, ec_instance = ae_self env, ec_origin = origin, ec_endpoint = endpoint,
                              ec_expires_at = now + (case io_ttl opts of None \<Rightarrow> ae_register_ttl env | Some t \<Rightarrow> t),
                              ec_jti = fr_jti fr, ec_issued_label = io_label opts, ec_display_name = display,
                              ec_instances = (if length instances > 1 then Some instances else None)\<rparr>
                in (Inr (claims, ae_sign env claims (fr_secret fr)),
                    a\<lparr>au_pending := map_set (ec_jti claims)
                        \<lparr>pe_claims = claims, pe_secret = fr_secret fr, pe_code = fr_code fr, pe_attempts = 0\<rparr> (au_pending a)\<rparr>))"

section \<open>Challenges and enrolment URLs\<close>

definition au_spend :: "string \<Rightarrow> timestamp \<Rightarrow> auth \<Rightarrow> (code + unit) \<times> auth" where
  "au_spend v now a =
     (let a1 = au_forget now a in
      case map_of (au_challenges a1) v of
        None \<Rightarrow> (Inl ''auth_invalid'', a1)
      | Some expires \<Rightarrow> (Inr (), a1\<lparr>au_challenges := map_del v (au_challenges a1), au_spent := au_spent a1 @ [v]\<rparr>))"

definition check_url :: "auth_env \<Rightarrow> string \<Rightarrow> timestamp \<Rightarrow> auth \<Rightarrow> (code + string \<times> pending) \<times> auth" where
  "check_url env tok now a =
     (case ae_read env tok of
        TokenBroken \<Rightarrow> (Inl ''auth_invalid'', a)
      | TokenRead stated \<Rightarrow>
          (case map_of (au_pending a) (ec_jti stated) of
             None \<Rightarrow> (Inl ''auth_expired'', a)
           | Some held \<Rightarrow>
               if ec_expires_at (pe_claims held) \<le> now then
                 (Inl ''auth_expired'', a\<lparr>au_pending := map_del (ec_jti stated) (au_pending a)\<rparr>)
               else if tok \<noteq> ae_sign env (pe_claims held) (pe_secret held) then (Inl ''auth_invalid'', a)
               else (Inr (ec_jti stated, held), a)))"

definition checkEnrolment :: "auth_env \<Rightarrow> string \<Rightarrow> timestamp \<Rightarrow> auth \<Rightarrow> (code + unit) \<times> auth" where
  "checkEnrolment env tok now a = map_prod (map_sum id (\<lambda>_. ())) id (check_url env tok now a)"

definition resolveEnrolment :: "auth_env \<Rightarrow> string \<Rightarrow> string option \<Rightarrow> timestamp \<Rightarrow> auth \<Rightarrow> (code + enroll_claims) \<times> auth" where
  "resolveEnrolment env tok code now a =
     (case check_url env tok now a of
        (Inl e, a1) \<Rightarrow> (Inl e, a1)
      | (Inr (jti, held), a1) \<Rightarrow>
          if code \<noteq> Some (pe_code held) then
            let held' = held\<lparr>pe_attempts := pe_attempts held + 1\<rparr>;
                a2 = a1\<lparr>au_missed := au_missed a1 @ [jti]\<rparr>
            in if pe_attempts held' \<ge> CODE_ATTEMPTS then
                 (Inl ''auth_expired'', a2\<lparr>au_pending := map_del jti (au_pending a2)\<rparr>)
               else (Inl ''auth_invalid'', a2\<lparr>au_pending := map_set jti held' (au_pending a2)\<rparr>)
          else (Inr (pe_claims held),
                a1\<lparr>au_pending := map_del jti (au_pending a1), au_resolved := au_resolved a1 @ [jti]\<rparr>))"

text \<open>Where a value was issued decides who is asked: this instance at once, another over the mesh.\<close>

datatype 'a asked = Here "code + 'a" | There | Nobody

definition spendAnywhere :: "auth_env \<Rightarrow> auth_challenge \<Rightarrow> timestamp \<Rightarrow> auth \<Rightarrow> unit asked \<times> auth" where
  "spendAnywhere env ch now a =
     (if ch_issuer ch = ae_self env then map_prod Here id (au_spend (ch_challenge ch) now a)
      else if ae_ask env then (There, a) else (Nobody, a))"

definition spendStated :: "auth_env \<Rightarrow> string \<Rightarrow> auth_challenge option \<Rightarrow> timestamp \<Rightarrow> auth \<Rightarrow> unit asked \<times> auth" where
  "spendStated env challenge stated now a =
     (case stated of
        None \<Rightarrow> map_prod Here id (au_spend challenge now a)
      | Some ch \<Rightarrow>
          if ch_challenge ch \<noteq> challenge then (Here (Inl ''auth_invalid''), a)
          else spendAnywhere env ch now a)"

definition claimsOf_at :: "auth_env \<Rightarrow> string \<Rightarrow> string \<Rightarrow> enroll_claims \<Rightarrow> timestamp \<Rightarrow> auth \<Rightarrow> enroll_claims asked \<times> auth" where
  "claimsOf_at env tok code stated now a =
     (if ec_iss stated = ae_self env then map_prod Here id (resolveEnrolment env tok (Some code) now a)
      else if ae_ask env then (There, a) else (Nobody, a))"

definition au_issueChallenge :: "auth_env \<Rightarrow> fresh \<Rightarrow> timestamp \<Rightarrow> nat \<Rightarrow> auth \<Rightarrow> auth" where
  "au_issueChallenge env fr now call a =
     (let a1 = au_forget now a; expires = now + ae_challenge_ttl env
      in finish call (ChallengeIs (fr_challenge fr) expires)
           (a1\<lparr>au_challenges := map_set (fr_challenge fr) expires (au_challenges a1)\<rparr>))"

definition au_challenge :: "auth_env \<Rightarrow> fresh \<Rightarrow> timestamp \<Rightarrow> nat \<Rightarrow> string option \<Rightarrow> auth \<Rightarrow> auth" where
  "au_challenge env fr now call tok a =
     (case tok of
        None \<Rightarrow> au_issueChallenge env fr now call a
      | Some t \<Rightarrow>
          (case ae_read env t of
             TokenBroken \<Rightarrow> finish call (Declined ''auth_invalid'') a
           | TokenRead stated \<Rightarrow>
               if ec_iss stated = ae_self env then
                 (case checkEnrolment env t now a of
                    (Inl e, a1) \<Rightarrow> finish call (Declined ''auth_invalid'') a1
                  | (Inr _, a1) \<Rightarrow> au_issueChallenge env fr now call a1)
               else if ae_ask env then await call ChallengeAlive a
               else finish call (Declined ''auth_invalid'') a))"

section \<open>Sessions and grantings\<close>

text \<open>A write answers before its caller waits for the disk: refused by a mark, outside the contract, or
  taken and the call waits.\<close>

definition au_write :: "auth_env \<Rightarrow> string \<Rightarrow> auth_body \<Rightarrow> timestamp \<Rightarrow> timestamp \<Rightarrow> nat \<Rightarrow> auth_call \<Rightarrow> auth \<Rightarrow> bool option \<times> auth" where
  "au_write env key body stamp now call phase a =
     (case rc_write (ae_problems env) key body stamp now (au_records a) of
        (Inl problems, r) \<Rightarrow> (None, finish call Faulted (a\<lparr>au_records := r\<rparr>))
      | (Inr False, r) \<Rightarrow> (Some False, a\<lparr>au_records := r\<rparr>)
      | (Inr True, r) \<Rightarrow> (Some True, await call phase (a\<lparr>au_records := r\<rparr>)))"

definition or_declined :: "nat \<Rightarrow> code \<Rightarrow> bool option \<times> auth \<Rightarrow> auth" where
  "or_declined call code w = (case w of (Some False, a) \<Rightarrow> finish call (Declined code) a | (_, a) \<Rightarrow> a)"

definition au_mint :: "auth_env \<Rightarrow> fresh \<Rightarrow> timestamp \<Rightarrow> nat \<Rightarrow> minting \<Rightarrow> auth \<Rightarrow> auth" where
  "au_mint env fr now call mi a =
     (let family = \<lparr>tf_user = mi_user mi, tf_iss = ae_self env, tf_origin = mi_origin mi,
                    tf_access = \<lparr>tk_value = fr_access fr, tk_expires_at = now + ACCESS_TTL_MS\<rparr>,
                    tf_refresh = \<lparr>tk_value = fr_refresh fr, tk_expires_at = now + REFRESH_TTL_MS\<rparr>,
                    tf_previous_refresh = None, tf_retired = [], tf_last_refresh = None\<rparr>;
          key = familyKey (fr_family fr)
      in or_declined call ''forbidden'' (au_write env key (FamilyBody family) now now call (Minting mi key family) a))"

text \<open>\<open>grant\<close>, from the instances still to be walked.\<close>

fun grant_over :: "auth_env \<Rightarrow> fresh \<Rightarrow> timestamp \<Rightarrow> nat \<Rightarrow> user_id \<Rightarrow> instance_id \<Rightarrow> timestamp \<Rightarrow> instance_id list \<Rightarrow>
    minting option \<Rightarrow> instance_id list \<Rightarrow> auth \<Rightarrow> auth" where
  "grant_over env fr now call user iss at written then_mint [] a =
     (case then_mint of None \<Rightarrow> finish call (GrantedTo written) a | Some mi \<Rightarrow> au_mint env fr now call mi a)"
| "grant_over env fr now call user iss at written then_mint (i # is) a =
     (if rc_owns (au_records a) user i then grant_over env fr now call user iss at written then_mint is a
      else case au_write env (ownershipKey i user (fr_grant fr))
                  (OwnershipBody \<lparr>ow_user = user, ow_instance = i, ow_grant = fr_grant fr, ow_granted_at = at, ow_granted_by = Some iss\<rparr>)
                  at now call (Granting user is iss at (written @ [i]) then_mint) a of
             (Some False, a1) \<Rightarrow> grant_over env fr now call user iss at written then_mint is a1
           | (_, a1) \<Rightarrow> a1)"

definition au_grant :: "auth_env \<Rightarrow> fresh \<Rightarrow> timestamp \<Rightarrow> nat \<Rightarrow> user_id \<Rightarrow> instance_id list \<Rightarrow> instance_id \<Rightarrow> minting option \<Rightarrow> auth \<Rightarrow> auth" where
  "au_grant env fr now call user instances iss then_mint a = grant_over env fr now call user iss now [] then_mint instances a"

section \<open>Registration\<close>

definition with_asked :: "nat \<Rightarrow> auth_call \<Rightarrow> ('a \<Rightarrow> auth \<Rightarrow> auth) \<Rightarrow> 'a asked \<times> auth \<Rightarrow> auth" where
  "with_asked call phase next w =
     (case w of
        (Here (Inl e), a) \<Rightarrow> finish call (Declined e) a
      | (Here (Inr x), a) \<Rightarrow> next x a
      | (There, a) \<Rightarrow> await call phase a
      | (Nobody, a) \<Rightarrow> finish call (Declined ''auth_unknown_issuer'') a)"

definition rg_credential :: "auth_env \<Rightarrow> timestamp \<Rightarrow> nat \<Rightarrow> register_args \<Rightarrow> came \<Rightarrow> enroll_claims \<Rightarrow> verified \<Rightarrow> timestamp \<Rightarrow>
    user_id \<Rightarrow> auth \<Rightarrow> auth" where
  "rg_credential env now call args from claims vr at user a =
     or_declined call ''forbidden'' (au_write env (credentialKey (vr_credentialId vr))
       (CredentialBody
         \<lparr>cr_user = user, cr_credential_id = vr_credentialId vr, cr_public_key = vr_publicKey vr, cr_origin = ec_origin claims,
          cr_sign_count = Some (vr_signCount vr), cr_backup_eligible = vr_backupEligible vr, cr_backup_state = vr_backupState vr,
          cr_issued_label = ec_issued_label claims, cr_device_label = ra_device_label args, cr_registered_at = at,
          cr_registered_ip = cf_ip from, cr_registered_user_agent = cf_user_agent from,
          cr_last_used_at = None, cr_last_used_ip = None, cr_last_used_user_agent = None\<rparr>)
       at now call (RegCred claims vr) a)"

definition rg_spent :: "auth_env \<Rightarrow> timestamp \<Rightarrow> nat \<Rightarrow> register_args \<Rightarrow> came \<Rightarrow> enroll_claims \<Rightarrow> verified \<Rightarrow> auth \<Rightarrow> auth" where
  "rg_spent env now call args from claims vr a =
     (case ec_purpose claims of
        AddOwner \<Rightarrow> finish call Faulted a
      | CreateUser user \<Rightarrow>
          if au_credential env a (vr_credentialId vr) \<noteq> None then finish call (Declined ''auth_invalid'') a
          else if rc_user (au_records a) user = None then
            or_declined call ''forbidden'' (au_write env (userKey user)
              (UserBody \<lparr>ur_user = user,
                 ur_display_name = (case ra_display_name args of Some n \<Rightarrow> n
                                    | None \<Rightarrow> (case ec_display_name claims of Some n \<Rightarrow> n | None \<Rightarrow> PERSON_LABEL)),
                 ur_created_at = now\<rparr>)
              now now call (RegUser args from claims vr now) a)
          else rg_credential env now call args from claims vr now user a)"

definition rg_claims :: "auth_env \<Rightarrow> timestamp \<Rightarrow> nat \<Rightarrow> register_args \<Rightarrow> came \<Rightarrow> enroll_claims \<Rightarrow> string \<Rightarrow> verified \<Rightarrow>
    enroll_claims \<Rightarrow> auth \<Rightarrow> auth" where
  "rg_claims env now call args from stated challenge vr claims a =
     (if ec_purpose claims = AddOwner \<or> ec_origin claims \<noteq> ec_origin stated then finish call (Declined ''auth_invalid'') a
      else with_asked call (RegSpend args from claims vr) (\<lambda>_. rg_spent env now call args from claims vr)
             (spendStated env challenge (ra_challenge args) now a))"

definition rg_keyed :: "auth_env \<Rightarrow> timestamp \<Rightarrow> nat \<Rightarrow> register_args \<Rightarrow> came \<Rightarrow> enroll_claims \<Rightarrow> string \<Rightarrow> verified \<Rightarrow> auth \<Rightarrow> auth" where
  "rg_keyed env now call args from stated challenge vr a =
     with_asked call (RegClaims args from stated challenge vr) (rg_claims env now call args from stated challenge vr)
       (claimsOf_at env (ra_token args) (ra_code args) stated now a)"

definition au_register :: "auth_env \<Rightarrow> timestamp \<Rightarrow> nat \<Rightarrow> register_args \<Rightarrow> came \<Rightarrow> auth \<Rightarrow> auth" where
  "au_register env now call args from a =
     (case ae_read env (ra_token args) of
        TokenBroken \<Rightarrow> finish call (Declined ''auth_invalid'') a
      | TokenRead stated \<Rightarrow>
          if ec_purpose stated = AddOwner \<or> \<not> cameFrom (ec_origin stated) (cf_origin from) then finish call (Declined ''auth_invalid'') a
          else case ae_client_challenge env (ra_client_data args) of
            None \<Rightarrow> finish call (Declined ''auth_invalid'') a
          | Some challenge \<Rightarrow>
              (case ae_verifyRegistration env args challenge (ec_origin stated) (ae_hostOf env (ec_origin stated)) of
                 None \<Rightarrow> finish call (Declined ''auth_invalid'') a
               | Some vr \<Rightarrow> await call (RegKey args from stated challenge vr) a))"

section \<open>Assertion\<close>

text \<open>\<open>#asserted\<close> to its wait: the credential the answer names, held to the page and to its person.\<close>

definition au_asserted :: "auth_env \<Rightarrow> string \<Rightarrow> string option \<Rightarrow> origin_seen \<Rightarrow> auth \<Rightarrow> code + credential_record" where
  "au_asserted env raw_id handle origin a =
     (case au_credential env a raw_id of
        None \<Rightarrow> Inl ''auth_invalid''
      | Some c \<Rightarrow>
          if \<not> cameFrom (cr_origin c) origin then Inl ''auth_invalid''
          else case handle of
            Some h \<Rightarrow> if h \<noteq> cr_user c then Inl ''auth_invalid'' else Inr c
          | None \<Rightarrow> Inr c)"

definition au_used :: "auth_env \<Rightarrow> timestamp \<Rightarrow> nat \<Rightarrow> credential_record \<Rightarrow> nat \<Rightarrow> came \<Rightarrow> enroll_claims option \<Rightarrow> auth \<Rightarrow> auth" where
  "au_used env now call c signCount from claims a =
     (case au_credential env a (cr_credential_id c) of
        None \<Rightarrow> finish call (Declined ''auth_invalid'') a
      | Some standing \<Rightarrow>
          if \<not> advances (cr_sign_count standing) signCount then finish call (Declined ''auth_invalid'') a
          else or_declined call ''forbidden'' (au_write env (credentialKey (cr_credential_id standing))
                 (CredentialBody (standing\<lparr>cr_sign_count := Some signCount, cr_last_used_at := Some now,
                    cr_last_used_ip := (case cf_ip from of None \<Rightarrow> cr_last_used_ip standing | ip \<Rightarrow> ip),
                    cr_last_used_user_agent := (case cf_user_agent from of None \<Rightarrow> cr_last_used_user_agent standing | ua \<Rightarrow> ua)\<rparr>))
                 now now call (UsedWrite c claims) a))"

definition minting_of :: "credential_record \<Rightarrow> minting" where
  "minting_of c = \<lparr>mi_user = cr_user c, mi_origin = cr_origin c, mi_credential = cr_credential_id c\<rparr>"

definition au_assert :: "auth_env \<Rightarrow> nat \<Rightarrow> assert_args \<Rightarrow> came \<Rightarrow> auth \<Rightarrow> auth" where
  "au_assert env call args from a =
     (case au_asserted env (aa_raw_id args) (aa_user_handle args) (cf_origin from) a of
        Inl e \<Rightarrow> finish call (Declined e) a
      | Inr c \<Rightarrow> await call (AsVerify (aa_challenge args) from c) a)"

definition as_verified :: "auth_env \<Rightarrow> timestamp \<Rightarrow> nat \<Rightarrow> auth_challenge \<Rightarrow> came \<Rightarrow> credential_record \<Rightarrow> nat \<Rightarrow> auth \<Rightarrow> auth" where
  "as_verified env now call ch from c signCount a =
     (if \<not> rc_owns (au_records a) (cr_user c) (ae_self env) then finish call (Declined ''auth_invalid'') a
      else with_asked call (AsSpend from c signCount) (\<lambda>_. au_used env now call c signCount from None)
             (spendAnywhere env ch now a))"

definition au_enroll :: "auth_env \<Rightarrow> nat \<Rightarrow> enroll_args \<Rightarrow> came \<Rightarrow> auth \<Rightarrow> auth" where
  "au_enroll env call args from a =
     (case ae_read env (en_token args) of
        TokenBroken \<Rightarrow> finish call (Declined ''auth_invalid'') a
      | TokenRead stated \<Rightarrow>
          if ec_purpose stated \<noteq> AddOwner \<or> \<not> cameFrom (ec_origin stated) (cf_origin from) then finish call (Declined ''auth_invalid'') a
          else case au_asserted env (aa_raw_id args) (aa_user_handle args) NoCarrier a of
            Inl e \<Rightarrow> finish call (Declined e) a
          | Inr c \<Rightarrow> await call (EnVerify args from stated c) a)"

definition en_claims :: "auth_env \<Rightarrow> timestamp \<Rightarrow> nat \<Rightarrow> enroll_args \<Rightarrow> came \<Rightarrow> enroll_claims \<Rightarrow> credential_record \<Rightarrow> nat \<Rightarrow>
    enroll_claims \<Rightarrow> auth \<Rightarrow> auth" where
  "en_claims env now call args from stated c signCount claims a =
     (if ec_purpose claims \<noteq> AddOwner \<or> ec_origin claims \<noteq> ec_origin stated then finish call (Declined ''auth_invalid'') a
      else with_asked call (EnSpend from claims c signCount) (\<lambda>_. au_used env now call c signCount from (Some claims))
             (spendAnywhere env (aa_challenge args) now a))"

definition en_verified :: "auth_env \<Rightarrow> timestamp \<Rightarrow> nat \<Rightarrow> enroll_args \<Rightarrow> came \<Rightarrow> enroll_claims \<Rightarrow> credential_record \<Rightarrow> nat \<Rightarrow> auth \<Rightarrow> auth" where
  "en_verified env now call args from stated c signCount a =
     with_asked call (EnClaims args from stated c signCount) (en_claims env now call args from stated c signCount)
       (claimsOf_at env (en_token args) (en_code args) stated now a)"

section \<open>Refreshing and leaving\<close>

definition minted_from :: "token_family \<Rightarrow> auth_answer" where
  "minted_from f = Minted (tf_user f) (tf_access f) (tf_refresh f) (tf_origin f)"

definition au_retired :: "auth_env \<Rightarrow> string \<Rightarrow> timestamp \<Rightarrow> auth \<Rightarrow> bool" where
  "au_retired env v now a = (rc_retiring (ae_digest env v) now (au_records a) \<noteq> [])"

text \<open>\<open>#failReplayed\<close>, from the families still to be failed: each is marked at once, and the rest of the
  work waits for the mark to be written down.\<close>

fun fail_over :: "auth_env \<Rightarrow> timestamp \<Rightarrow> nat \<Rightarrow> (string \<times> user_id) list \<Rightarrow> auth \<Rightarrow> auth" where
  "fail_over env now call [] a = finish call (Declined ''auth_invalid'') a"
| "fail_over env now call ((key, user) # rest) a =
     await call (Failing key user rest) (a\<lparr>au_records := rc_fail (ae_contract env) key now now (au_records a)\<rparr>)"

definition rotated :: "auth_env \<Rightarrow> fresh \<Rightarrow> timestamp \<Rightarrow> came \<Rightarrow> token_family \<Rightarrow> token_family" where
  "rotated env fr now from f =
     f\<lparr>tf_access := (if tk_expires_at (tf_access f) - now \<ge> ACCESS_KEEP_MS then tf_access f
                     else \<lparr>tk_value = fr_access fr, tk_expires_at = now + ACCESS_TTL_MS\<rparr>),
       tf_refresh := \<lparr>tk_value = fr_refresh fr, tk_expires_at = now + REFRESH_TTL_MS\<rparr>,
       tf_last_refresh := Some \<lparr>lr_at = now, lr_reason = cf_reason from, lr_ip = cf_ip from, lr_user_agent = cf_user_agent from\<rparr>,
       tf_previous_refresh := Some \<lparr>tk_value = tk_value (tf_refresh f), tk_expires_at = now + PREVIOUS_GRACE_MS\<rparr>,
       tf_retired := retire env f now\<rparr>"

definition au_refreshToken :: "auth_env \<Rightarrow> fresh \<Rightarrow> timestamp \<Rightarrow> nat \<Rightarrow> string \<Rightarrow> came \<Rightarrow> auth \<Rightarrow> auth" where
  "au_refreshToken env fr now call v from a =
     (case rc_byRefresh v now (au_records a) of
        None \<Rightarrow> fail_over env now call (map (\<lambda>(k, f). (k, tf_user f)) (rc_retiring (ae_digest env v) now (au_records a))) a
      | Some (key, f, previous) \<Rightarrow>
          if \<not> cameFrom (tf_origin f) (cf_origin from) \<or> \<not> rc_owns (au_records a) (tf_user f) (ae_self env) then
            finish call (Declined ''auth_invalid'') a
          else if previous then finish call (minted_from f) a
          else
            let r = rotated env fr now from f in
            (case au_write env key (FamilyBody r) now now call (RefreshWrite r) a of
               (Some False, a1) \<Rightarrow> finish call (minted_from r) a1
             | (_, a1) \<Rightarrow> a1))"

definition au_signout :: "auth_env \<Rightarrow> timestamp \<Rightarrow> nat \<Rightarrow> string \<Rightarrow> origin_seen \<Rightarrow> auth \<Rightarrow> auth" where
  "au_signout env now call v origin a =
     (case rc_naming v (au_records a) of
        None \<Rightarrow> finish call (Declined ''auth_invalid'') a
      | Some (key, f) \<Rightarrow>
          if \<not> cameFrom (tf_origin f) origin then finish call (Declined ''auth_invalid'') a
          else await call (SigningOut key (tf_user f) (tf_origin f))
                 (a\<lparr>au_records := rc_fail (ae_contract env) key now now (au_records a)\<rparr>))"

section \<open>Taking away\<close>

fun revoke_over :: "auth_env \<Rightarrow> timestamp \<Rightarrow> nat \<Rightarrow> user_id \<Rightarrow> instance_id \<Rightarrow> nat \<Rightarrow> string list \<Rightarrow> auth \<Rightarrow> auth" where
  "revoke_over env now call user i n [] a =
     finish call (Revoked n) (if i = ae_self env then disconnect user a else a)"
| "revoke_over env now call user i n (key # keys) a =
     await call (Revoking user i n keys) (a\<lparr>au_records := snd (rc_erase key None now now (au_records a))\<rparr>)"

definition au_revoke :: "auth_env \<Rightarrow> timestamp \<Rightarrow> nat \<Rightarrow> user_id \<Rightarrow> instance_id \<Rightarrow> auth \<Rightarrow> auth" where
  "au_revoke env now call user i a =
     (let grants = rc_grantsOf (au_records a) user i in
      if grants = [] then finish call (Declined ''not_found'') a
      else revoke_over env now call user i (length grants) (map fst grants) a)"

definition au_rename :: "auth_env \<Rightarrow> timestamp \<Rightarrow> nat \<Rightarrow> user_id \<Rightarrow> string \<Rightarrow> auth \<Rightarrow> auth" where
  "au_rename env now call user name a =
     (case rc_user (au_records a) user of
        None \<Rightarrow> finish call (Declined ''not_found'') a
      | Some held \<Rightarrow>
          let renamed = held\<lparr>ur_display_name := name\<rparr> in
          or_declined call ''forbidden'' (au_write env (userKey user) (UserBody renamed) now now call (RenameWrite renamed) a))"

definition au_removeCredential :: "auth_env \<Rightarrow> timestamp \<Rightarrow> nat \<Rightarrow> user_id \<Rightarrow> string \<Rightarrow> auth \<Rightarrow> auth" where
  "au_removeCredential env now call user credentialId a =
     (case au_credential env a credentialId of
        None \<Rightarrow> finish call (Declined ''not_found'') a
      | Some held \<Rightarrow>
          if cr_user held \<noteq> user then finish call (Declined ''not_found'') a
          else await call RemoveWrite
                 (a\<lparr>au_records := snd (rc_erase (credentialKey (cr_credential_id held)) None now now (au_records a))\<rparr>))"

definition au_merge :: "auth_env \<Rightarrow> timestamp \<Rightarrow> nat \<Rightarrow> auth_record list \<Rightarrow> auth \<Rightarrow> auth" where
  "au_merge env now call records a =
     (case rc_merge (ae_problems env) records now (au_records a) of
        ((changed, revoked), r) \<Rightarrow> await call (Merging revoked) (a\<lparr>au_records := r\<rparr>))"

definition au_merged :: "auth_env \<Rightarrow> user_id list \<Rightarrow> auth \<Rightarrow> auth" where
  "au_merged env revoked a =
     (let a1 = sweep_owners env (fold disconnect revoked a)
      in a1\<lparr>au_openedWith := filter (\<lambda>(key, c). \<not> rc_removed (au_records a1) key) (au_openedWith a1)\<rparr>)"

text \<open>The two removals a person asks for on a connection of their own.\<close>

definition ownership_remove :: "auth_env \<Rightarrow> timestamp \<Rightarrow> nat \<Rightarrow> conn_no \<Rightarrow> instance_id \<Rightarrow> auth \<Rightarrow> auth" where
  "ownership_remove env now call conn i a =
     (case au_held conn a of
        Inl e \<Rightarrow> finish call (Declined e) a
      | Inr held \<Rightarrow> if i = ae_self env then finish call (Declined ''auth_in_use'') a else au_revoke env now call (ac_user held) i a)"

definition credential_remove :: "auth_env \<Rightarrow> timestamp \<Rightarrow> nat \<Rightarrow> conn_no \<Rightarrow> string \<Rightarrow> auth \<Rightarrow> auth" where
  "credential_remove env now call conn credentialId a =
     (case au_held conn a of
        Inl e \<Rightarrow> finish call (Declined e) a
      | Inr held \<Rightarrow>
          if ac_credential held = Some credentialId then finish call (Declined ''auth_in_use'') a
          else au_removeCredential env now call (ac_user held) credentialId a)"

text \<open>And two of the requests of \<open>src/auth/admin.ts\<close>, which reach the unix socket alone.\<close>

definition user_add :: "auth_env \<Rightarrow> fresh \<Rightarrow> timestamp \<Rightarrow> nat \<Rightarrow> user_id \<Rightarrow> bool \<Rightarrow> auth \<Rightarrow> auth" where
  "user_add env fr now call user all a =
     (if rc_user (au_records a) user = None then finish call (Declined ''not_found'') a
      else au_grant env fr now call user (au_targets env all) (ae_self env) None a)"

definition passkey_remove :: "auth_env \<Rightarrow> timestamp \<Rightarrow> nat \<Rightarrow> string \<Rightarrow> auth \<Rightarrow> auth" where
  "passkey_remove env now call credentialId a =
     (case au_credential env a credentialId of
        None \<Rightarrow> finish call (Declined ''not_found'') a
      | Some held \<Rightarrow> au_removeCredential env now call (cr_user held) credentialId a)"

declare user_add_def [simp] passkey_remove_def [simp]

section \<open>Going on after a wait\<close>

text \<open>What a call waited for. An issuer that answered something else, or nothing the contract knows, is a
  refusal with its code.\<close>

datatype resumed =
    Landed bool
  | KeyChecked bool
  | SignatureChecked "nat option"
  | IssuerClaims "code + enroll_claims"
  | IssuerSpent "code + unit"
  | IssuerAlive bool

definition resume_written :: "auth_env \<Rightarrow> fresh \<Rightarrow> timestamp \<Rightarrow> nat \<Rightarrow> auth_call \<Rightarrow> auth \<Rightarrow> auth" where
  "resume_written env fr now call phase a =
     (case phase of
        RegUser args from claims vr at \<Rightarrow>
          (case ec_purpose claims of
             AddOwner \<Rightarrow> finish call Faulted a
           | CreateUser user \<Rightarrow> rg_credential env now call args from claims vr at user a)
      | RegCred claims vr \<Rightarrow>
          (case ec_purpose claims of
             AddOwner \<Rightarrow> finish call Faulted a
           | CreateUser user \<Rightarrow>
               au_grant env fr now call user (handedOver claims) (ec_iss claims)
                 (Some \<lparr>mi_user = user, mi_origin = ec_origin claims, mi_credential = vr_credentialId vr\<rparr>) a)
      | UsedWrite c claims \<Rightarrow>
          (case claims of
             None \<Rightarrow> au_mint env fr now call (minting_of c) a
           | Some cl \<Rightarrow> au_grant env fr now call (cr_user c) (handedOver cl) (ec_iss cl) (Some (minting_of c)) a)
      | Granting user is iss at written then_mint \<Rightarrow>
          grant_over env fr now call user iss at written then_mint is a
      | Minting mi key family \<Rightarrow>
          finish call (minted_from family) (a\<lparr>au_openedWith := map_set key (mi_credential mi) (au_openedWith a)\<rparr>)
      | RefreshWrite f \<Rightarrow>
          finish call (minted_from f) a
      | Failing key user rest \<Rightarrow>
          fail_over env now call rest (disconnect user (a\<lparr>au_openedWith := map_del key (au_openedWith a)\<rparr>))
      | SigningOut key user origin \<Rightarrow>
          finish call (SignedOut user origin) (disconnect user (a\<lparr>au_openedWith := map_del key (au_openedWith a)\<rparr>))
      | Revoking user i n keys \<Rightarrow>
          revoke_over env now call user i n keys a
      | RenameWrite u \<Rightarrow>
          finish call (Renamed u) a
      | RemoveWrite \<Rightarrow>
          finish call RemovedPasskey a
      | Merging revoked \<Rightarrow>
          finish call MergedRecords (au_merged env revoked a)
      | _ \<Rightarrow>
          a)"

text \<open>A write that failed leaves the method by its exception, whatever it would have done next.\<close>

fun waits_for_disk :: "auth_call \<Rightarrow> bool" where
  "waits_for_disk (RegKey _ _ _ _ _) = False"
| "waits_for_disk (RegClaims _ _ _ _ _) = False"
| "waits_for_disk (RegSpend _ _ _ _) = False"
| "waits_for_disk (EnVerify _ _ _ _) = False"
| "waits_for_disk (EnClaims _ _ _ _ _) = False"
| "waits_for_disk (EnSpend _ _ _ _) = False"
| "waits_for_disk (AsVerify _ _ _) = False"
| "waits_for_disk (AsSpend _ _ _) = False"
| "waits_for_disk ChallengeAlive = False"
| "waits_for_disk _ = True"

definition resume_other :: "auth_env \<Rightarrow> fresh \<Rightarrow> timestamp \<Rightarrow> nat \<Rightarrow> auth_call \<Rightarrow> resumed \<Rightarrow> auth \<Rightarrow> auth" where
  "resume_other env fr now call phase r a =
     (case r of
        KeyChecked ok \<Rightarrow>
          (case phase of
             RegKey args from stated challenge vr \<Rightarrow>
               if ok then rg_keyed env now call args from stated challenge vr a else finish call (Declined ''auth_invalid'') a
           | _ \<Rightarrow> a)
      | SignatureChecked n \<Rightarrow>
          (case phase of
             EnVerify args from stated c \<Rightarrow>
               (case n of None \<Rightarrow> finish call (Declined ''auth_invalid'') a
                | Some count \<Rightarrow> en_verified env now call args from stated c count a)
           | AsVerify ch from c \<Rightarrow>
               (case n of None \<Rightarrow> finish call (Declined ''auth_invalid'') a
                | Some count \<Rightarrow> as_verified env now call ch from c count a)
           | _ \<Rightarrow> a)
      | IssuerClaims (Inl e) \<Rightarrow>
          (case phase of
             RegClaims args from stated challenge vr \<Rightarrow> finish call (Declined e) a
           | EnClaims args from stated c count \<Rightarrow> finish call (Declined e) a
           | _ \<Rightarrow> a)
      | IssuerClaims (Inr claims) \<Rightarrow>
          (case phase of
             RegClaims args from stated challenge vr \<Rightarrow> rg_claims env now call args from stated challenge vr claims a
           | EnClaims args from stated c count \<Rightarrow> en_claims env now call args from stated c count claims a
           | _ \<Rightarrow> a)
      | IssuerSpent (Inl e) \<Rightarrow>
          (case phase of
             RegSpend args from claims vr \<Rightarrow> finish call (Declined e) a
           | EnSpend from claims c count \<Rightarrow> finish call (Declined e) a
           | AsSpend from c count \<Rightarrow> finish call (Declined e) a
           | _ \<Rightarrow> a)
      | IssuerSpent (Inr _) \<Rightarrow>
          (case phase of
             RegSpend args from claims vr \<Rightarrow> rg_spent env now call args from claims vr a
           | EnSpend from claims c count \<Rightarrow> au_used env now call c count from (Some claims) a
           | AsSpend from c count \<Rightarrow> au_used env now call c count from None a
           | _ \<Rightarrow> a)
      | IssuerAlive ok \<Rightarrow>
          (case phase of
             ChallengeAlive \<Rightarrow>
               if ok then au_issueChallenge env fr now call a else finish call (Declined ''auth_invalid'') a
           | _ \<Rightarrow> a)
      | Landed _ \<Rightarrow> a)"

definition au_resume :: "auth_env \<Rightarrow> fresh \<Rightarrow> timestamp \<Rightarrow> nat \<Rightarrow> resumed \<Rightarrow> auth \<Rightarrow> auth" where
  "au_resume env fr now call r a =
     (case map_of (au_calls a) call of
        None \<Rightarrow> a
      | Some phase \<Rightarrow>
          (case r of
             Landed ok \<Rightarrow>
               if \<not> waits_for_disk phase then a
               else if ok then resume_written env fr now call phase a else finish call Faulted a
           | _ \<Rightarrow> resume_other env fr now call phase r a))"

section \<open>Runs\<close>

datatype auth_event =
    EvIssue issue_options
  | EvChallenge nat "string option"
  | EvRegister nat register_args came
  | EvEnroll nat enroll_args came
  | EvAssert nat assert_args came
  | EvRefresh nat string came
  | EvSignout nat string origin_seen
  | EvGrant nat user_id bool
  | EvRevoke nat user_id instance_id
  | EvRename nat user_id string
  | EvPasskeyRemove nat string
  | EvOwnershipRemove nat conn_no instance_id
  | EvCredentialRemove nat conn_no string
  | EvMerge nat "auth_record list"
  | EvResolveChallenge string
  | EvResolveAlive string
  | EvResolveClaims string "string option"
  | EvResume nat resumed
  | EvOpen conn_no string "string option"
  | EvExtend conn_no string
  | EvDeadline conn_no
  | EvGone conn_no
  | EvAllow
  | EvDisk bool
  | EvSnapshot

text \<open>\<open>EvDisk\<close> and \<open>EvSnapshot\<close> are what the set does between the calls: a document landed or lost, and
  the snapshot that notices what ran out. A call number is used once, which \<open>au_step\<close> sees to.\<close>

fun event_call :: "auth_event \<Rightarrow> nat option" where
  "event_call (EvChallenge n _) = Some n"
| "event_call (EvRegister n _ _) = Some n"
| "event_call (EvEnroll n _ _) = Some n"
| "event_call (EvAssert n _ _) = Some n"
| "event_call (EvRefresh n _ _) = Some n"
| "event_call (EvSignout n _ _) = Some n"
| "event_call (EvGrant n _ _) = Some n"
| "event_call (EvRevoke n _ _) = Some n"
| "event_call (EvRename n _ _) = Some n"
| "event_call (EvPasskeyRemove n _) = Some n"
| "event_call (EvOwnershipRemove n _ _) = Some n"
| "event_call (EvCredentialRemove n _ _) = Some n"
| "event_call (EvMerge n _) = Some n"
| "event_call _ = None"

fun au_run :: "auth_env \<Rightarrow> fresh \<Rightarrow> timestamp \<Rightarrow> auth_event \<Rightarrow> auth \<Rightarrow> auth" where
  "au_run env fr now (EvIssue opts) a = snd (au_issue env fr now opts a)"
| "au_run env fr now (EvChallenge n tok) a = au_challenge env fr now n tok a"
| "au_run env fr now (EvRegister n args from) a = au_register env now n args from a"
| "au_run env fr now (EvEnroll n args from) a = au_enroll env n args from a"
| "au_run env fr now (EvAssert n args from) a = au_assert env n args from a"
| "au_run env fr now (EvRefresh n v from) a = au_refreshToken env fr now n v from a"
| "au_run env fr now (EvSignout n v origin) a = au_signout env now n v origin a"
| "au_run env fr now (EvGrant n user all) a =
     user_add env fr now n user all a"
| "au_run env fr now (EvRevoke n user i) a = au_revoke env now n user i a"
| "au_run env fr now (EvRename n user name) a = au_rename env now n user name a"
| "au_run env fr now (EvPasskeyRemove n credentialId) a = passkey_remove env now n credentialId a"
| "au_run env fr now (EvOwnershipRemove n conn i) a = ownership_remove env now n conn i a"
| "au_run env fr now (EvCredentialRemove n conn credentialId) a = credential_remove env now n conn credentialId a"
| "au_run env fr now (EvMerge n records) a = au_merge env now n records a"
| "au_run env fr now (EvResolveChallenge v) a = snd (au_spend v now a)"
| "au_run env fr now (EvResolveAlive tok) a = snd (checkEnrolment env tok now a)"
| "au_run env fr now (EvResolveClaims tok code) a = snd (resolveEnrolment env tok code now a)"
| "au_run env fr now (EvResume n r) a = au_resume env fr now n r a"
| "au_run env fr now (EvOpen conn access origin) a =
     (case allowUpgrade env access origin now a of None \<Rightarrow> a | Some ad \<Rightarrow> au_hold conn ad now a)"
| "au_run env fr now (EvExtend conn access) a = snd (au_extend env conn access now a)"
| "au_run env fr now (EvDeadline conn) a = au_deadline conn now a"
| "au_run env fr now (EvGone conn) a = au_connClosed conn a"
| "au_run env fr now EvAllow a = snd (allowRequest now a)"
| "au_run env fr now (EvDisk ok) a = a\<lparr>au_records := (if ok then rc_land (au_records a) else rc_lost_write (au_records a))\<rparr>"
| "au_run env fr now EvSnapshot a = a\<lparr>au_records := snd (rc_all now (au_records a))\<rparr>"

definition au_step :: "auth_env \<Rightarrow> auth \<Rightarrow> fresh \<times> timestamp \<times> auth_event \<Rightarrow> auth" where
  "au_step env a e =
     (case e of (fr, now, ev) \<Rightarrow>
        (case event_call ev of
           None \<Rightarrow> au_run env fr now ev a
         | Some n \<Rightarrow> if map_of (au_calls a) n \<noteq> None \<or> n \<in> fst ` set (au_answers a) then a else au_run env fr now ev a))"

end
