(* ===== verification/AuthRuns.thy ===== *)
theory AuthRuns
  imports Auth
begin

text \<open>
  What holds of every run of the authorization ops: a challenge and an enrolment URL are good once, a
  person's connections go with their footing, a replayed token ends its family, and a rotation is
  answered again while its reply may be lost.
\<close>

declare map_of_eq_Some_iff [simp del]

section \<open>What is good once\<close>

text \<open>What the records and the connections do leaves what is good once as it is.\<close>

definition same_once :: "auth \<Rightarrow> auth \<Rightarrow> bool" where
  "same_once a a' \<longleftrightarrow> au_pending a' = au_pending a \<and> au_challenges a' = au_challenges a \<and> au_spent a' = au_spent a
     \<and> au_resolved a' = au_resolved a \<and> au_missed a' = au_missed a"

lemma same_once_refl [simp]: "same_once a a"
  by (simp add: same_once_def)

lemma same_once_trans: "same_once a b \<Longrightarrow> same_once b c \<Longrightarrow> same_once a c"
  by (simp add: same_once_def)

lemma same_once_basic [simp]:
  "same_once a (finish n x a') = same_once a a'" "same_once a (await n ph a') = same_once a a'"
  "same_once a (a'\<lparr>au_records := r\<rparr>) = same_once a a'" "same_once a (disconnect u a') = same_once a a'"
  "same_once a (a'\<lparr>au_openedWith := w\<rparr>) = same_once a a'" "same_once a (sweep_owners env a') = same_once a a'"
  "same_once a (a'\<lparr>au_authorized := z\<rparr>) = same_once a a'"
  by (simp_all add: same_once_def finish_def await_def disconnect_def sweep_owners_def)

lemma same_once_write: "au_write env key body stamp now n ph a = (w, a') \<Longrightarrow> same_once a a'"
  by (auto simp: au_write_def split: prod.splits sum.splits bool.splits)

lemma same_once_or_declined: "same_once a (or_declined n c (au_write env key body stamp now m ph a))"
  using same_once_write [of env key body stamp now m ph a]
  by (cases "au_write env key body stamp now m ph a") (auto simp: or_declined_def split: option.splits bool.splits)

lemma same_once_stretches [simp]:
  "same_once a (au_mint env fr now n mi a)"
  "same_once a (rg_credential env now n args from claims vr at user a)"
  "same_once a (au_used env now n c cnt from cl a)"
  "same_once a (au_rename env now n user name a)"
  "same_once a (rg_spent env now n args from claims vr a)"
  by (auto simp: au_mint_def rg_credential_def au_used_def au_rename_def rg_spent_def Let_def same_once_or_declined
           split: option.splits purpose.splits)

lemma same_once_grant [simp]: "same_once a (grant_over env fr now n user iss at written tm is a)"
proof (induction env fr now n user iss at written tm "is" a rule: grant_over.induct)
  case (2 env fr now call user iss at written tm i "is" a)
  show ?case
  proof (cases "rc_owns (au_records a) user i")
    case True
    with 2(1) show ?thesis by simp
  next
    case False
    let ?w = "au_write env (ownershipKey i user (fr_grant fr))
        (OwnershipBody \<lparr>ow_user = user, ow_instance = i, ow_grant = fr_grant fr, ow_granted_at = at, ow_granted_by = Some iss\<rparr>)
        at now call (Granting user is iss at (written @ [i]) tm) a"
    obtain w a1 where w: "?w = (w, a1)" by (cases ?w)
    note s = same_once_write [OF w]
    show ?thesis
    proof (cases "w = Some False")
      case True
      from 2(2) [OF False w [symmetric] True refl] s have "same_once a (grant_over env fr now call user iss at written tm is a1)"
        by (rule same_once_trans [rotated])
      with False w True show ?thesis by simp
    next
      case False': False
      with False w s show ?thesis by (auto split: option.splits bool.splits)
    qed
  qed
qed (auto split: option.splits)

lemma same_once_over [simp]:
  "same_once a (fail_over env now n ks a') = same_once a a'"
  "same_once a (revoke_over env now n user i m keys a') = same_once a a'"
  by (cases ks; auto) (cases keys; auto)

definition once_inv :: "string set \<Rightarrow> string set \<Rightarrow> auth \<Rightarrow> bool" where
  "once_inv C J a \<longleftrightarrow>
     map_wf (au_challenges a) \<and> (\<forall>v e. map_of (au_challenges a) v = Some e \<longrightarrow> v \<in> C \<and> v \<notin> set (au_spent a))
     \<and> set (au_spent a) \<subseteq> C \<and> distinct (au_spent a)
     \<and> map_wf (au_pending a)
     \<and> (\<forall>j held. map_of (au_pending a) j = Some held \<longrightarrow>
          j \<in> J \<and> j \<notin> set (au_resolved a) \<and> count_list (au_missed a) j = pe_attempts held \<and> pe_attempts held < CODE_ATTEMPTS)
     \<and> set (au_resolved a) \<subseteq> J \<and> set (au_missed a) \<subseteq> J \<and> distinct (au_resolved a)
     \<and> (\<forall>j. count_list (au_missed a) j \<le> CODE_ATTEMPTS)
     \<and> (\<forall>j \<in> set (au_resolved a). count_list (au_missed a) j < CODE_ATTEMPTS)"

lemma once_same: "same_once a a' \<Longrightarrow> once_inv C J a' = once_inv C J a"
  by (simp add: once_inv_def same_once_def)

lemma once_mono: "once_inv C J a \<Longrightarrow> C \<subseteq> C' \<Longrightarrow> J \<subseteq> J' \<Longrightarrow> once_inv C' J' a"
  unfolding once_inv_def by blast

lemma once_fields [simp]:
  "once_inv C J (finish n x a) = once_inv C J a" "once_inv C J (await n ph a) = once_inv C J a"
  "once_inv C J (a\<lparr>au_records := r\<rparr>) = once_inv C J a" "once_inv C J (a\<lparr>au_openedWith := w\<rparr>) = once_inv C J a"
  "once_inv C J (a\<lparr>au_authorized := z\<rparr>) = once_inv C J a" "once_inv C J (disconnect u a) = once_inv C J a"
  "once_inv C J (sweep_owners env a) = once_inv C J a"
  by (rule once_same; simp)+

lemma once_thinned:
  assumes "once_inv C J a" and "au_challenges a' = filter P (au_challenges a)" "au_pending a' = filter Q (au_pending a)"
    "au_spent a' = au_spent a" "au_resolved a' = au_resolved a" "au_missed a' = au_missed a"
  shows "once_inv C J a'"
proof -
  have "map_of (au_challenges a) v = Some e" if "map_of (au_challenges a') v = Some e" for v e
    using that assms(1) by (auto simp: assms(2) once_inv_def map_of_filter_wf split: option.splits if_splits)
  moreover have "map_of (au_pending a) j = Some h" if "map_of (au_pending a') j = Some h" for j h
    using that assms(1) by (auto simp: assms(3) once_inv_def map_of_filter_wf split: option.splits if_splits)
  moreover have "map_wf (au_challenges a')" "map_wf (au_pending a')" using assms(1) by (simp_all add: assms(2,3) once_inv_def)
  ultimately show ?thesis using assms(1) unfolding once_inv_def assms(4-6) by blast
qed

lemma once_forget: "once_inv C J a \<Longrightarrow> once_inv C J (au_forget now a)"
  by (erule once_thinned) (simp_all add: au_forget_def)

lemma once_spend: "once_inv C J a \<Longrightarrow> once_inv C J (snd (au_spend v now a))"
proof -
  assume "once_inv C J a"
  then have i: "once_inv C J (au_forget now a)" by (rule once_forget)
  then show ?thesis
    by (cases "map_of (au_challenges (au_forget now a)) v") (auto simp: au_spend_def Let_def once_inv_def)
qed

lemma once_check: "once_inv C J a \<Longrightarrow> check_url env tok now a = (r, a') \<Longrightarrow> once_inv C J a'"
  by (auto simp: check_url_def once_inv_def split: claims_reading.splits option.splits if_splits)

lemma check_url_held:
  "check_url env tok now a = (Inr (jti, held), a') \<Longrightarrow> a' = a \<and> map_of (au_pending a) jti = Some held"
  by (auto simp: check_url_def split: claims_reading.splits option.splits if_splits)

lemma once_resolve:
  assumes "once_inv C J a"
  shows "once_inv C J (snd (resolveEnrolment env tok code now a))"
proof (cases "check_url env tok now a")
  case (Pair r a1)
  show ?thesis
  proof (cases r)
    case (Inl e)
    with Pair once_check [OF assms Pair] show ?thesis by (simp add: resolveEnrolment_def)
  next
    case (Inr x)
    obtain jti held where x: "x = (jti, held)" by (cases x)
    have h: "a1 = a" "map_of (au_pending a) jti = Some held" using check_url_held Pair unfolding Inr x by blast+
    then have j: "jti \<in> J" "jti \<notin> set (au_resolved a)" "count_list (au_missed a) jti = pe_attempts held" "pe_attempts held < CODE_ATTEMPTS"
      using assms by (auto simp: once_inv_def)
    note def = resolveEnrolment_def Pair Inr x h(1)
    show ?thesis
    proof (cases "code = Some (pe_code held)")
      case True
      with assms j show ?thesis unfolding once_inv_def by (simp add: def)
    next
      case False
      with assms j show ?thesis unfolding once_inv_def by (auto simp: def Let_def)
    qed
  qed
qed

lemma once_issue:
  assumes "once_inv C J a" "fr_jti fr \<notin> J"
  shows "once_inv C (insert (fr_jti fr) J) (snd (au_issue env fr now opts a))"
proof -
  have c: "count_list (au_missed a) (fr_jti fr) = 0" "fr_jti fr \<notin> set (au_resolved a)"
    using assms by (auto simp: once_inv_def count_list_0_iff)
  have add: "once_inv C (insert (fr_jti fr) J) (a\<lparr>au_pending := map_set (fr_jti fr) h (au_pending a)\<rparr>)" if "pe_attempts h = 0" for h
    using assms(1) c that unfolding once_inv_def by (auto simp: CODE_ATTEMPTS_def)
  have "once_inv C (insert (fr_jti fr) J) a" using once_mono [OF assms(1)] by blast
  with add show ?thesis by (simp add: au_issue_def Let_def split: option.splits)
qed

lemma once_challenge:
  assumes "once_inv C J a" "fr_challenge fr \<notin> C"
  shows "once_inv (insert (fr_challenge fr) C) J (au_issueChallenge env fr now n a)"
proof -
  have "once_inv C J (au_forget now a)" by (rule once_forget [OF assms(1)])
  moreover have "fr_challenge fr \<notin> set (au_spent (au_forget now a))" using calculation assms(2) by (auto simp: once_inv_def)
  ultimately show ?thesis unfolding au_issueChallenge_def once_inv_def by (auto simp: Let_def finish_def)
qed

lemma with_asked_ind:
  assumes "Q (snd w)" and "\<And>x a. Q a \<Longrightarrow> Q (next x a)" and "\<And>n x a. Q (finish n x a) = Q a" and "\<And>n p a. Q (await n p a) = Q a"
  shows "Q (with_asked n ph next w)"
  using assms by (cases w) (auto simp: with_asked_def split: asked.splits sum.splits)

lemma once_spendAnywhere: "once_inv C J a \<Longrightarrow> once_inv C J (snd (spendAnywhere env ch now a))"
  by (simp add: spendAnywhere_def once_spend)

lemma once_spendStated: "once_inv C J a \<Longrightarrow> once_inv C J (snd (spendStated env v stated now a))"
  by (simp add: spendStated_def once_spend once_spendAnywhere split: option.splits)

lemma once_claimsOf: "once_inv C J a \<Longrightarrow> once_inv C J (snd (claimsOf_at env tok code stated now a))"
  by (simp add: claimsOf_at_def once_resolve)

lemma once_quiet [simp]:
  "once_inv C J (au_mint env fr now n mi a) = once_inv C J a"
  "once_inv C J (rg_credential env now n args from claims vr at user a) = once_inv C J a"
  "once_inv C J (au_used env now n c cnt from cl a) = once_inv C J a"
  "once_inv C J (au_rename env now n user name a) = once_inv C J a"
  "once_inv C J (rg_spent env now n args from claims vr a) = once_inv C J a"
  "once_inv C J (grant_over env fr now n user iss at written tm is a) = once_inv C J a"
  "once_inv C J (fail_over env now n ks a) = once_inv C J a"
  "once_inv C J (revoke_over env now n user i m keys a) = once_inv C J a"
  by (rule once_same; simp)+

lemma once_rg_claims: "once_inv C J a \<Longrightarrow> once_inv C J (rg_claims env now n args from stated ch vr claims a)"
  unfolding rg_claims_def by (auto intro: with_asked_ind once_spendStated)

lemma once_rg_keyed: "once_inv C J a \<Longrightarrow> once_inv C J (rg_keyed env now n args from stated ch vr a)"
  unfolding rg_keyed_def by (rule with_asked_ind) (auto intro: once_claimsOf once_rg_claims)

lemma once_as_verified: "once_inv C J a \<Longrightarrow> once_inv C J (as_verified env now n ch from c cnt a)"
  unfolding as_verified_def by (auto intro: with_asked_ind once_spendAnywhere)

lemma once_en_claims: "once_inv C J a \<Longrightarrow> once_inv C J (en_claims env now n args from stated c cnt claims a)"
  unfolding en_claims_def by (auto intro: with_asked_ind once_spendAnywhere)

lemma once_en_verified: "once_inv C J a \<Longrightarrow> once_inv C J (en_verified env now n args from stated c cnt a)"
  unfolding en_verified_def by (rule with_asked_ind) (auto intro: once_claimsOf once_en_claims)

lemma once_merged: "once_inv C J (au_merged env revoked a) = once_inv C J a"
proof -
  have "once_inv C J (fold disconnect revoked a) = once_inv C J a" by (induction revoked arbitrary: a) simp_all
  then show ?thesis by (simp add: au_merged_def Let_def)
qed

lemma once_written: "once_inv C J (resume_written env fr now n ph a) = once_inv C J a"
  by (cases ph) (simp_all add: resume_written_def au_grant_def once_merged split: purpose.splits option.splits)

lemma once_other:
  assumes "once_inv C J a" "fr_challenge fr \<notin> C"
  shows "once_inv (insert (fr_challenge fr) C) J (resume_other env fr now n ph r a)"
proof -
  have m: "once_inv (insert (fr_challenge fr) C) J a" by (rule once_mono [OF assms(1)]) auto
  show ?thesis
  proof (cases r)
    case (IssuerAlive ok)
    with m once_challenge [OF assms] show ?thesis by (cases ph) (simp_all add: resume_other_def)
  qed (use m in \<open>cases ph; auto simp: resume_other_def split: sum.splits option.splits
         intro: once_rg_keyed once_en_verified once_as_verified once_rg_claims once_en_claims\<close>)+
qed

lemma once_register [simp]: "once_inv C J (au_register env now n args from a) = once_inv C J a"
  by (simp add: au_register_def split: claims_reading.splits option.splits)

lemma once_enroll [simp]: "once_inv C J (au_enroll env n args from a) = once_inv C J a"
  by (simp add: au_enroll_def split: claims_reading.splits sum.splits)

lemma once_assert [simp]: "once_inv C J (au_assert env n args from a) = once_inv C J a"
  by (simp add: au_assert_def split: sum.splits)

lemma once_write: "au_write env key body stamp now n ph a = (w, a') \<Longrightarrow> once_inv C J a' = once_inv C J a"
  by (rule once_same [OF same_once_write])

lemma once_refresh [simp]: "once_inv C J (au_refreshToken env fr now n v from a) = once_inv C J a"
proof (cases "rc_byRefresh v now (au_records a)")
  case None
  then show ?thesis by (simp add: au_refreshToken_def)
next
  case (Some x)
  obtain key f previous where x: "x = (key, f, previous)" by (cases x)
  let ?r = "rotated env fr now from f"
  obtain w a1 where w: "au_write env key (FamilyBody ?r) now now n (RefreshWrite ?r) a = (w, a1)"
    by (cases "au_write env key (FamilyBody ?r) now now n (RefreshWrite ?r) a")
  from once_write [OF w] w show ?thesis by (simp add: au_refreshToken_def Some x Let_def split: option.splits bool.splits)
qed

lemma once_signout [simp]: "once_inv C J (au_signout env now n v origin a) = once_inv C J a"
  by (simp add: au_signout_def split: option.splits)

lemma once_revoke [simp]: "once_inv C J (au_revoke env now n user i a) = once_inv C J a"
  by (simp add: au_revoke_def Let_def)

lemma once_removeCredential [simp]: "once_inv C J (au_removeCredential env now n user cid a) = once_inv C J a"
  by (simp add: au_removeCredential_def split: option.splits)

lemma once_removes [simp]:
  "once_inv C J (ownership_remove env now n conn i a) = once_inv C J a"
  "once_inv C J (credential_remove env now n conn cid a) = once_inv C J a"
  by (simp_all add: ownership_remove_def credential_remove_def split: sum.splits)

lemma once_merge [simp]: "once_inv C J (au_merge env now n records a) = once_inv C J a"
  by (simp add: au_merge_def split: prod.splits)

lemma once_conns [simp]:
  "once_inv C J (au_hold conn ad now a) = once_inv C J a" "once_inv C J (au_connClosed conn a) = once_inv C J a"
  "once_inv C J (snd (au_extend env conn access now a)) = once_inv C J a"
  by (simp_all add: au_hold_def au_connClosed_def au_extend_def split: option.splits sum.splits)

lemma once_deadline [simp]: "once_inv C J (au_deadline conn now a) = once_inv C J a"
  by (rule once_same) (simp add: same_once_def au_deadline_def split: option.splits)

lemma once_allow [simp]: "once_inv C J (snd (allowRequest now a)) = once_inv C J a"
  by (rule once_same) (simp add: same_once_def allowRequest_def Let_def)

lemma once_alive: "once_inv C J a \<Longrightarrow> once_inv C J (snd (checkEnrolment env tok now a))"
  using once_check [of C J a env tok now] by (cases "check_url env tok now a") (simp add: checkEnrolment_def)

lemma once_ask:
  assumes "once_inv C J a" "fr_challenge fr \<notin> C"
  shows "once_inv (insert (fr_challenge fr) C) J (au_challenge env fr now n tok a)"
proof (cases tok)
  case None
  with once_challenge [OF assms] show ?thesis by (simp add: au_challenge_def)
next
  case (Some t)
  obtain r a1 where r: "checkEnrolment env t now a = (r, a1)" by (cases "checkEnrolment env t now a")
  with once_alive [OF assms(1), of env t now] have i: "once_inv C J a1" by simp
  have m: "once_inv (insert (fr_challenge fr) C) J b" if "once_inv C J b" for b by (rule once_mono [OF that]) auto
  show ?thesis using m [OF i] m [OF assms(1)] once_challenge [OF i assms(2)] Some r
    by (simp add: au_challenge_def split: claims_reading.splits sum.splits)
qed

lemma once_resume:
  assumes "once_inv C J a" "fr_challenge fr \<notin> C"
  shows "once_inv (insert (fr_challenge fr) C) J (au_resume env fr now n r a)"
proof -
  have m: "once_inv (insert (fr_challenge fr) C) J a" by (rule once_mono [OF assms(1)]) auto
  with once_other [OF assms] show ?thesis by (cases r) (simp_all add: au_resume_def once_written split: option.splits)
qed

lemma once_run:
  assumes "once_inv C J a" "fr_challenge fr \<notin> C" "fr_jti fr \<notin> J"
  shows "once_inv (insert (fr_challenge fr) C) (insert (fr_jti fr) J) (au_run env fr now ev a)"
proof -
  have m: "once_inv (insert (fr_challenge fr) C) (insert (fr_jti fr) J) b" if "once_inv C J b" for b
    by (rule once_mono [OF that]) auto
  have cm: "once_inv (insert (fr_challenge fr) C) (insert (fr_jti fr) J) b" if "once_inv (insert (fr_challenge fr) C) J b" for b
    by (rule once_mono [OF that]) auto
  show ?thesis
  proof (cases ev)
    case (EvIssue opts)
    from once_mono [OF once_issue [OF assms(1,3)], of "insert (fr_challenge fr) C" "insert (fr_jti fr) J"]
    show ?thesis unfolding EvIssue by auto
  next
    case (EvChallenge n tok)
    from cm [OF once_ask [OF assms(1,2)]] show ?thesis unfolding EvChallenge by simp
  next
    case (EvResume n r)
    from cm [OF once_resume [OF assms(1,2)]] show ?thesis unfolding EvResume by simp
  next
    case (EvResolveAlive tok)
    from m [OF once_alive [OF assms(1)]] show ?thesis unfolding EvResolveAlive by simp
  qed (use m [OF assms(1)] in \<open>simp_all add: au_grant_def once_spend once_resolve split: option.splits\<close>)
qed

lemma once_step:
  assumes "once_inv C J a" "fr_challenge fr \<notin> C" "fr_jti fr \<notin> J"
  shows "once_inv (insert (fr_challenge fr) C) (insert (fr_jti fr) J) (au_step env a (fr, now, ev))"
proof -
  have "once_inv (insert (fr_challenge fr) C) (insert (fr_jti fr) J) a" by (rule once_mono [OF assms(1)]) auto
  with once_run [OF assms] show ?thesis by (simp add: au_step_def split: option.splits)
qed

lemma once_steps:
  assumes "once_inv C J a" "distinct (map (fr_challenge \<circ> fst) evs)" "distinct (map (fr_jti \<circ> fst) evs)"
    "C \<inter> set (map (fr_challenge \<circ> fst) evs) = {}" "J \<inter> set (map (fr_jti \<circ> fst) evs) = {}"
  shows "once_inv (C \<union> set (map (fr_challenge \<circ> fst) evs)) (J \<union> set (map (fr_jti \<circ> fst) evs)) (foldl (au_step env) a evs)"
  using assms
proof (induction evs arbitrary: a C J)
  case (Cons e evs)
  obtain fr now ev where e: "e = (fr, now, ev)" by (cases e)
  have "once_inv (insert (fr_challenge fr) C) (insert (fr_jti fr) J) (au_step env a e)"
    unfolding e by (rule once_step) (use Cons.prems in \<open>auto simp: e\<close>)
  from Cons.IH [OF this] Cons.prems show ?case by (simp add: e)
qed simp

text \<open>
  C4: what is good once is good once. However the ops of a person, of peers and of an administrator
  interleave, with whatever waits between: each challenge this instance issued is taken at most once,
  each enrolment URL is resolved at most once, and at most \<open>CODE_ATTEMPTS\<close> wrong codes are answered for
  it, fewer if it was resolved, so that the code is guessed at most that often. (What is drawn at
  random does not repeat.)
\<close>

theorem good_once:
  assumes "distinct (map (fr_challenge \<circ> fst) evs)" and "distinct (map (fr_jti \<circ> fst) evs)"
  shows "let a = foldl (au_step env) (Auth records) evs in
    distinct (au_spent a) \<and> set (au_spent a) \<subseteq> set (map (fr_challenge \<circ> fst) evs)
    \<and> distinct (au_resolved a) \<and> set (au_resolved a) \<subseteq> set (map (fr_jti \<circ> fst) evs)
    \<and> (\<forall>jti. count_list (au_missed a) jti + (if jti \<in> set (au_resolved a) then 1 else 0) \<le> CODE_ATTEMPTS)"
proof -
  have "once_inv {} {} (Auth records)" by (simp add: once_inv_def Auth_def)
  from once_steps [OF this assms] have i: "once_inv (set (map (fr_challenge \<circ> fst) evs)) (set (map (fr_jti \<circ> fst) evs))
      (foldl (au_step env) (Auth records) evs)" by simp
  then have "count_list (au_missed (foldl (au_step env) (Auth records) evs)) jti
      + (if jti \<in> set (au_resolved (foldl (au_step env) (Auth records) evs)) then 1 else 0) \<le> CODE_ATTEMPTS" for jti
    by (auto simp: once_inv_def Suc_le_eq)
  with i show ?thesis unfolding Let_def once_inv_def by blast
qed

text \<open>An instance, a URL it issued, and what a run does with it.\<close>

definition example_claims :: "string \<Rightarrow> enroll_claims" where
  "example_claims jti = \<lparr>ec_purpose = AddOwner, ec_iss = ''i'', ec_instance = ''i'', ec_origin = ''o'', ec_endpoint = ''e'',
     ec_expires_at = 100, ec_jti = jti, ec_issued_label = None, ec_display_name = None, ec_instances = None\<rparr>"

definition example_env :: auth_env where
  "example_env = \<lparr>ae_self = ''i'', ae_endpoint = Some ''e'', ae_instances = [], ae_ask = True, ae_challenge_ttl = 60, ae_register_ttl = 99,
     ae_contract = example_contract, ae_problems = (\<lambda>_. []), ae_base64UrlDecode = map of_char, ae_endpoint_ok = (\<lambda>_. True),
     ae_origin_ok = (\<lambda>_. True), ae_url_origin = (\<lambda>_. ''o''), ae_hostOf = id, ae_sign = (\<lambda>c secret. ec_jti c @ secret),
     ae_read = (\<lambda>t. TokenRead (example_claims (take 1 t))), ae_client_challenge = Some,
     ae_verifyRegistration = (\<lambda>_ _ _ _. None), ae_digest = (\<lambda>v. CHR ''#'' # v)\<rparr>"

definition example_fresh :: "char \<Rightarrow> fresh" where
  "example_fresh c = \<lparr>fr_jti = [c], fr_user = [c], fr_secret = ''s'', fr_code = ''123456'', fr_challenge = [c], fr_grant = [c],
     fr_access = [CHR ''a'', c], fr_refresh = [CHR ''r'', c], fr_family = [c]\<rparr>"

definition example_issue :: issue_options where
  "example_issue = \<lparr>io_create = False, io_origin = None, io_endpoint = None, io_label = None, io_name = None, io_user = None, io_ttl = None, io_all = False\<rparr>"

definition example_auth_evs :: "(fresh \<times> timestamp \<times> auth_event) list" where
  "example_auth_evs =
     [(example_fresh CHR ''1'', 1, EvIssue example_issue), (example_fresh CHR ''2'', 1, EvChallenge 0 None),
      (example_fresh CHR ''3'', 2, EvResolveClaims ''1s'' (Some ''000000'')), (example_fresh CHR ''4'', 2, EvResolveClaims ''1s'' (Some ''123456'')),
      (example_fresh CHR ''5'', 3, EvResolveClaims ''1s'' (Some ''123456'')), (example_fresh CHR ''6'', 3, EvResolveChallenge ''2''),
      (example_fresh CHR ''7'', 3, EvResolveChallenge ''2'')]"

theorem good_once_witness:
  "let a = foldl (au_step example_env) (Auth (AuthRecords (\<lambda>_. []) 0 None)) example_auth_evs
   in au_spent a = [''2''] \<and> au_resolved a = [''1''] \<and> au_missed a = [''1''] \<and> distinct (au_resolved a)"
proof -
  let ?a = "foldl (au_step example_env) (Auth (AuthRecords (\<lambda>_. []) 0 None)) example_auth_evs"
  have "distinct (map (fr_challenge \<circ> fst) example_auth_evs)" "distinct (map (fr_jti \<circ> fst) example_auth_evs)"
    by (simp_all add: example_auth_evs_def example_fresh_def)
  from good_once [OF this, of example_env "AuthRecords (\<lambda>_. []) 0 None"] have "distinct (au_resolved ?a)" by (simp add: Let_def)
  moreover have "au_spent ?a = [''2'']" "au_resolved ?a = [''1'']" "au_missed ?a = [''1'']" by code_simp+
  ultimately show ?thesis by (simp add: Let_def)
qed

end
