(* ===== verification/AuthFooting.thy ===== *)
theory AuthFooting
  imports AuthRuns
begin

text \<open>
  A person's connections and what they stand on: over every run of the authorization ops, whoever
  holds a connection owns the instance, unless a removal is still being written down.
\<close>

section \<open>Ownership in the set\<close>

text \<open>The contract keys a granting by the instance, the person and its own id.\<close>

definition no_slash :: "string \<Rightarrow> bool" where
  "no_slash s \<longleftrightarrow> CHR ''/'' \<notin> set s"

definition ownership_keys :: "(auth_record \<Rightarrow> string list) \<Rightarrow> bool" where
  "ownership_keys problems \<longleftrightarrow>
     (\<forall>r own. problems r = [] \<longrightarrow> ar_body r = OwnershipBody own \<longrightarrow>
        ar_key r = ownershipKey (ow_instance own) (ow_user own) (ow_grant own) \<and> no_slash (ow_instance own) \<and> no_slash (ow_user own))"

definition own_at :: "auth_records \<Rightarrow> string \<Rightarrow> ownership_record option" where
  "own_at s k = (case map_of (rc_records s) k of Some r \<Rightarrow> (case ar_body r of OwnershipBody own \<Rightarrow> Some own | _ \<Rightarrow> None) | None \<Rightarrow> None)"

definition own_named :: "auth_records \<Rightarrow> bool" where
  "own_named s \<longleftrightarrow> rc_wf s \<and> (\<forall>k own. own_at s k = Some own \<longrightarrow>
     k = ownershipKey (ow_instance own) (ow_user own) (ow_grant own) \<and> no_slash (ow_instance own) \<and> no_slash (ow_user own))"

lemma own_at_iff: "own_at s k = Some own \<longleftrightarrow> (\<exists>r. map_of (rc_records s) k = Some r \<and> ar_body r = OwnershipBody own)"
  by (auto simp: own_at_def split: option.splits auth_body.splits)

lemma rc_owns_at:
  assumes "rc_wf s"
  shows "rc_owns s u i \<longleftrightarrow> (\<exists>k own. own_at s k = Some own \<and> ow_user own = u \<and> ow_instance own = i)"
proof -
  have "own \<in> set (rc_ownerships s) \<longleftrightarrow> (\<exists>k r. (k, r) \<in> set (rc_records s) \<and> ar_body r = OwnershipBody own)" for own
    unfolding rc_ownerships_def by (force split: auth_body.splits)
  then have "own \<in> set (rc_ownerships s) \<longleftrightarrow> (\<exists>k. own_at s k = Some own)" for own
    using assms map_wf_mem [of "rc_records s"] unfolding own_at_iff rc_wf_def by metis
  then show ?thesis unfolding rc_owns_def list_ex_iff by blast
qed

lemma split_slash: "no_slash a \<Longrightarrow> no_slash b \<Longrightarrow> a @ CHR ''/'' # x = b @ CHR ''/'' # y \<Longrightarrow> a = b \<and> x = y"
proof (induction a arbitrary: b)
  case Nil
  then show ?case by (cases b) (auto simp: no_slash_def)
next
  case (Cons c a)
  then show ?case by (cases b) (auto simp: no_slash_def)
qed

lemma ownershipKey_inject:
  assumes "ownershipKey i u g = ownershipKey i' u' g'" "no_slash i" "no_slash i'" "no_slash u" "no_slash u'"
  shows "i = i' \<and> u = u'"
  using assms split_slash [of i i' "u @ ''/'' @ g" "u' @ ''/'' @ g'"] split_slash [of u u' g g'] by (simp add: ownershipKey_def)

lemma other_keys [simp]:
  "userKey x \<noteq> ownershipKey i u g" "credentialKey x \<noteq> ownershipKey i u g" "familyKey x \<noteq> ownershipKey i u g"
  by (simp_all add: userKey_def credentialKey_def familyKey_def ownershipKey_def)

lemma own_free:
  assumes "own_named s"
  shows "own_at s (userKey x) = None" "own_at s (credentialKey x) = None" "own_at s (familyKey x) = None"
proof -
  have "own_at s k = None" if "\<And>i u g. k \<noteq> ownershipKey i u g" for k
    using assms that unfolding own_named_def by (cases "own_at s k") blast+
  then show "own_at s (userKey x) = None" "own_at s (credentialKey x) = None" "own_at s (familyKey x) = None" by simp_all
qed

text \<open>What every step but a removal does to the set: no ownership is lost.\<close>

definition keeps_owners :: "auth_records \<Rightarrow> auth_records \<Rightarrow> bool" where
  "keeps_owners s s' \<longleftrightarrow> (own_named s \<longrightarrow> own_named s' \<and> (\<forall>u i. rc_owns s u i \<longrightarrow> rc_owns s' u i))"

lemma keeps_refl [simp]: "keeps_owners s s"
  by (simp add: keeps_owners_def)

lemma keeps_trans: "keeps_owners s t \<Longrightarrow> keeps_owners t w \<Longrightarrow> keeps_owners s w"
  unfolding keeps_owners_def by blast

lemma keeps_same: "rc_records s' = rc_records s \<Longrightarrow> keeps_owners s s'"
  by (simp add: keeps_owners_def own_named_def own_at_def rc_wf_def rc_owns_def rc_ownerships_def)

lemma own_at_expire: "rc_wf s \<Longrightarrow> own_at (rc_expire now s) k = own_at s k"
  using rc_expire_view(1) [of s now k] by (auto simp: own_at_def record_over_def split: option.splits auth_body.splits)

lemma own_named_view:
  assumes "rc_wf s'" "\<And>k. own_at s' k = own_at s k"
  shows "keeps_owners s s'"
  using assms rc_owns_at [OF assms(1)] unfolding keeps_owners_def own_named_def by (auto simp: rc_owns_at)

lemma keeps_expire: "keeps_owners s (rc_expire now s)"
proof (cases "rc_wf s")
  case True
  from own_named_view [OF rc_expire_view(2) [OF True] own_at_expire [OF True]] show ?thesis .
qed (simp add: keeps_owners_def own_named_def)

lemma keeps_keep: "keeps_owners s t \<Longrightarrow> keeps_owners s (rc_keep clk changed announce t)"
  by (rule keeps_trans [OF keeps_trans [OF _ keeps_expire [of t clk]]], assumption) (rule keeps_same, simp add: rc_keep_view)

lemma keeps_set:
  assumes "ar_key r = k"
    and "own_named s \<Longrightarrow> own_at s k = None \<or> (\<exists>own. ar_body r = OwnershipBody own)"
    and "\<And>own. ar_body r = OwnershipBody own \<Longrightarrow> k = ownershipKey (ow_instance own) (ow_user own) (ow_grant own) \<and> no_slash (ow_instance own) \<and> no_slash (ow_user own)"
  shows "keeps_owners s (s\<lparr>rc_records := map_set k r (rc_records s)\<rparr>)"
proof (cases "own_named s")
  case True
  let ?s = "s\<lparr>rc_records := map_set k r (rc_records s)\<rparr>"
  have wf: "rc_wf s" "rc_wf ?s" using True assms(1) rc_wf_set by (auto simp: own_named_def)
  have at: "own_at ?s k' = (if k' = k then (case ar_body r of OwnershipBody own \<Rightarrow> Some own | _ \<Rightarrow> None) else own_at s k')" for k'
    by (simp add: own_at_def)
  have "own_named ?s" using True assms(3) wf(2) unfolding own_named_def at
    by (auto split: auth_body.splits if_splits)
  moreover have "rc_owns ?s u i" if o: "rc_owns s u i" for u i
  proof -
    obtain k' own where own: "own_at s k' = Some own" "ow_user own = u" "ow_instance own = i" using o rc_owns_at [OF wf(1)] by blast
    show ?thesis
    proof (cases "k' = k")
      case False
      then show ?thesis using own unfolding rc_owns_at [OF wf(2)] at by auto
    next
      case same: True
      then obtain own' where o': "ar_body r = OwnershipBody own'" using assms(2) [OF True] own by auto
      have "k = ownershipKey (ow_instance own) (ow_user own) (ow_grant own)" "no_slash (ow_instance own)" "no_slash (ow_user own)"
        using True own(1) same by (auto simp: own_named_def)
      with assms(3) [OF o'] ownershipKey_inject have "ow_instance own' = i \<and> ow_user own' = u" using own by metis
      then show ?thesis using o' unfolding rc_owns_at [OF wf(2)] at by (intro exI [of _ k] exI [of _ own']) simp
    qed
  qed
  ultimately show ?thesis unfolding keeps_owners_def by blast
qed (simp add: keeps_owners_def)
lemma keeps_write:
  assumes "ownership_keys problems"
    and "own_named s \<Longrightarrow> own_at s key = None \<or> (\<exists>own. body = OwnershipBody own)"
  shows "keeps_owners s (snd (rc_write problems key body now clk s))"
proof (cases rule: rc_write_cases [of problems key body now clk s])
  case refused
  then show ?thesis by simp
next
  case (kept r)
  have "keeps_owners s (s\<lparr>rc_records := map_set key r (rc_records s)\<rparr>)"
    by (rule keeps_set) (use kept(1,2) assms in \<open>auto simp: ownership_keys_def\<close>)
  moreover have "snd (rc_accept problems r s) = s\<lparr>rc_records := map_set key r (rc_records s)\<rparr>"
    using kept(1,3) by (auto simp: rc_accept_def split: if_splits)
  ultimately show ?thesis unfolding kept(4) by (simp add: keeps_keep)
qed

lemma keeps_erase:
  assumes "own_named s \<Longrightarrow> own_at s key = None"
  shows "keeps_owners s (snd (rc_erase key keep at clk s))"
  by (cases "map_of (rc_records s) key") (auto simp: rc_erase_def Let_def intro!: keeps_keep keeps_set assms)

lemma keeps_fail: "keeps_owners s (rc_fail ct key at clk s)"
proof (cases "map_of (rc_records s) key")
  case (Some r)
  show ?thesis
  proof (cases "is_family (ar_body r)")
    case True
    then have "own_at s key = None" using Some by (cases "ar_body r") (simp_all add: own_at_def)
    with Some True keeps_erase show ?thesis by (simp add: rc_fail_def)
  qed (use Some in \<open>simp add: rc_fail_def\<close>)
qed (simp add: rc_fail_def)

lemma keeps_between: "keeps_owners s (rc_land s)" "keeps_owners s (rc_lost_write s)" "keeps_owners s (snd (rc_all now s))"
  by (auto intro: keeps_same simp: rc_land_def rc_lost_write_def rc_all_def Let_def keeps_expire split: prod.splits)

text \<open>A batch keeps the keys in order, and whom a removal of one person's grantings leaves alone.\<close>

lemma own_named_accept:
  assumes "ownership_keys problems" "own_named s"
  shows "own_named (snd (rc_accept problems r s))"
proof (cases "problems r = [] \<and> admits_record (map_of (rc_records s) (ar_key r)) r")
  case True
  have "rc_wf (s\<lparr>rc_records := map_set (ar_key r) r (rc_records s)\<rparr>)" using assms(2) rc_wf_set by (auto simp: own_named_def)
  with True assms show ?thesis
    by (auto simp: rc_accept_def own_named_def own_at_def ownership_keys_def split: auth_body.splits option.splits)
qed (use assms(2) in \<open>auto simp: rc_accept_def\<close>)

lemma own_named_merge:
  assumes "ownership_keys problems" "own_named s"
  shows "own_named (snd (rc_merge problems records clk s))"
proof -
  have go: "own_named s' \<Longrightarrow> merge_over problems rs s' = (took, revoked, s'') \<Longrightarrow> own_named s''" for rs s' took revoked s''
  proof (induction rs arbitrary: s' took revoked)
    case (Cons r rs)
    have "own_named (snd (rc_accept problems r s'))" by (rule own_named_accept [OF assms(1) Cons.prems(1)])
    with Cons show ?case by (cases "rc_accept problems r s'") (auto simp: Let_def split: bool.splits prod.splits)
  qed simp
  obtain took revoked s1 where m: "merge_over problems records s = (took, revoked, s1)" by (cases "merge_over problems records s")
  from go [OF assms(2) m] have "own_named s1" .
  moreover have "own_named (rc_keep clk took None s1)" using keeps_keep [OF keeps_refl, of s1 clk took None] \<open>own_named s1\<close>
    by (simp add: keeps_owners_def)
  ultimately show ?thesis by (simp add: rc_merge_def m)
qed

lemma erase_owners:
  assumes "own_named s"
  shows "own_named (snd (rc_erase key None at clk s))"
    and "rc_owns s u i \<Longrightarrow> (\<And>own. own_at s key = Some own \<Longrightarrow> ow_user own \<noteq> u \<or> ow_instance own \<noteq> i) \<Longrightarrow>
      rc_owns (snd (rc_erase key None at clk s)) u i"
proof -
  have wf: "rc_wf s" using assms by (simp add: own_named_def)
  have "own_named (snd (rc_erase key None at clk s)) \<and> (rc_owns s u i \<longrightarrow>
      (\<forall>own. own_at s key = Some own \<longrightarrow> ow_user own \<noteq> u \<or> ow_instance own \<noteq> i) \<longrightarrow> rc_owns (snd (rc_erase key None at clk s)) u i)"
  proof (cases "map_of (rc_records s) key")
    case None
    with assms show ?thesis by (simp add: rc_erase_def)
  next
    case (Some held)
    let ?r = "\<lparr>ar_key = key, ar_updated_at = stamp_past at (Some held), ar_body = TombstoneBody at None\<rparr>"
    let ?s = "s\<lparr>rc_records := map_set key ?r (rc_records s)\<rparr>"
    have wf': "rc_wf ?s" by (rule rc_wf_set [OF wf]) simp
    have at: "own_at ?s k = (if k = key then None else own_at s k)" for k by (simp add: own_at_def)
    have n: "own_named ?s" using assms wf' unfolding own_named_def at by (auto split: if_splits)
    have "rc_owns ?s u i" if "rc_owns s u i" "\<forall>own. own_at s key = Some own \<longrightarrow> ow_user own \<noteq> u \<or> ow_instance own \<noteq> i"
      using that unfolding rc_owns_at [OF wf'] rc_owns_at [OF wf] at by metis
    with n keeps_keep [OF keeps_refl, of ?s clk "[?r]" "Some [?r]"] show ?thesis by (simp add: rc_erase_def Some keeps_owners_def Let_def)
  qed
  then show "own_named (snd (rc_erase key None at clk s))"
    and "rc_owns s u i \<Longrightarrow> (\<And>own. own_at s key = Some own \<Longrightarrow> ow_user own \<noteq> u \<or> ow_instance own \<noteq> i) \<Longrightarrow>
      rc_owns (snd (rc_erase key None at clk s)) u i" by blast+
qed

section \<open>Calm stretches\<close>

text \<open>A call to take ownerships of one instance from one person carries the keys of exactly those.\<close>

definition call_ok :: "auth_call \<Rightarrow> bool" where
  "call_ok ph \<longleftrightarrow> (\<forall>u i m ks. ph = Revoking u i m ks \<longrightarrow> no_slash i \<and> no_slash u \<and> (\<forall>k \<in> set ks. \<exists>g. k = ownershipKey i u g))"

fun removes :: "auth_call \<Rightarrow> bool" where
  "removes (Merging _) = True"
| "removes (Revoking _ _ _ _) = True"
| "removes _ = False"

text \<open>What call \<open>n\<close> does when it takes nothing away.\<close>

definition calm :: "nat \<Rightarrow> auth \<Rightarrow> auth \<Rightarrow> bool" where
  "calm n a a' \<longleftrightarrow> keeps_owners (au_records a) (au_records a')
     \<and> (map_wf (au_authorized a) \<longrightarrow> map_wf (au_authorized a')
          \<and> (\<forall>c h. map_of (au_authorized a') c = Some h \<longrightarrow> (\<exists>h0. map_of (au_authorized a) c = Some h0 \<and> ac_user h0 = ac_user h)))
     \<and> (\<forall>m. m \<noteq> n \<longrightarrow> map_of (au_calls a') m = map_of (au_calls a) m)
     \<and> (\<forall>ph. map_of (au_calls a') n = Some ph \<longrightarrow> map_of (au_calls a) n = Some ph \<or> \<not> removes ph)
     \<and> set (au_answers a) \<subseteq> set (au_answers a')"

lemma calm_refl [simp]: "calm n a a"
  by (simp add: calm_def)

lemma calm_trans:
  assumes "calm n a b" "calm n b c"
  shows "calm n a c"
proof -
  have "keeps_owners (au_records a) (au_records c)" using assms keeps_trans unfolding calm_def by blast
  moreover have "\<exists>h0. map_of (au_authorized a) x = Some h0 \<and> ac_user h0 = ac_user h"
    if "map_wf (au_authorized a)" "map_of (au_authorized c) x = Some h" for x h
    using assms that unfolding calm_def by metis
  moreover have "map_of (au_calls a) n = Some ph \<or> \<not> removes ph" if "map_of (au_calls c) n = Some ph" for ph
    using assms that unfolding calm_def by blast
  ultimately show ?thesis using assms unfolding calm_def by auto
qed

lemma calm_finish: "calm n a b \<Longrightarrow> calm n a (finish n x b)"
  by (auto simp: calm_def finish_def)

lemma calm_await: "calm n a b \<Longrightarrow> \<not> removes ph \<Longrightarrow> calm n a (await n ph b)"
  by (auto simp: calm_def await_def)

lemma calm_records: "calm n a b \<Longrightarrow> keeps_owners (au_records b) s \<Longrightarrow> calm n a (b\<lparr>au_records := s\<rparr>)"
  by (auto simp: calm_def intro: keeps_trans)

lemma calm_other [simp]:
  "calm n a (b\<lparr>au_openedWith := w\<rparr>) = calm n a b" "calm n a (b\<lparr>au_pending := p\<rparr>) = calm n a b"
  "calm n a (b\<lparr>au_challenges := c\<rparr>) = calm n a b" "calm n a (b\<lparr>au_spent := sp\<rparr>) = calm n a b"
  "calm n a (b\<lparr>au_resolved := r\<rparr>) = calm n a b" "calm n a (b\<lparr>au_missed := mi\<rparr>) = calm n a b"
  "calm n a (au_forget now b) = calm n a b"
  by (simp_all add: calm_def au_forget_def)

lemma disconnect_view:
  assumes "map_wf (au_authorized a)"
  shows "map_of (au_authorized (disconnect u a)) c =
    (case map_of (au_authorized a) c of None \<Rightarrow> None | Some h \<Rightarrow> if ac_user h = u then None else Some h)"
  using map_of_filter_wf [OF assms, of "\<lambda>(conn, held). ac_user held \<noteq> u" c] by (auto simp: disconnect_def split: option.splits)

lemma map_of_filter_some: "map_of (filter P m) k = Some v \<Longrightarrow> map_wf m \<Longrightarrow> map_of m k = Some v"
  by (auto simp: map_of_filter_wf split: option.splits if_splits)

lemma calm_spend: "calm n a b \<Longrightarrow> calm n a (snd (au_spend v now b))"
  by (simp add: au_spend_def Let_def split: option.splits)

lemma calm_check: "calm n a b \<Longrightarrow> calm n a (snd (check_url env tok now b))"
  by (simp add: check_url_def split: option.splits claims_reading.splits)

lemma calm_resolve: "calm n a b \<Longrightarrow> calm n a (snd (resolveEnrolment env tok code now b))"
  using calm_check [of n a b env tok now]
  by (cases "check_url env tok now b") (auto simp: resolveEnrolment_def Let_def split: sum.splits prod.splits)

lemma calm_asking:
  "calm n a b \<Longrightarrow> calm n a (snd (spendAnywhere env ch now b))"
  "calm n a b \<Longrightarrow> calm n a (snd (spendStated env v stated now b))"
  "calm n a b \<Longrightarrow> calm n a (snd (claimsOf_at env tok code st now b))"
  by (simp_all add: spendAnywhere_def spendStated_def claimsOf_at_def calm_spend calm_resolve split: option.splits)

lemma calm_with_asked:
  assumes "calm n a (snd w)" "\<And>x b. calm n b (next x b)" "\<not> removes ph"
  shows "calm n a (with_asked n ph next w)"
  using assms calm_trans [OF assms(1) assms(2)]
  by (cases w) (auto simp: with_asked_def split: asked.splits sum.splits intro: calm_finish calm_await)

lemma calm_disconnect: "calm n a b \<Longrightarrow> calm n a (disconnect u b)"
proof (rule calm_trans)
  show "calm n b (disconnect u b)" unfolding calm_def
    by (auto simp: disconnect_view split: option.splits if_splits) (auto simp: disconnect_def)
qed

lemma calm_write:
  assumes "ownership_keys (ae_problems env)"
    and "own_named (au_records a) \<Longrightarrow> own_at (au_records a) key = None \<or> (\<exists>own. body = OwnershipBody own)" "\<not> removes ph"
  shows "calm n a (snd (au_write env key body stamp now n ph a))"
proof -
  have "keeps_owners (au_records a) (snd (rc_write (ae_problems env) key body stamp now (au_records a)))"
    by (rule keeps_write [OF assms(1,2)])
  then show ?thesis
    by (auto simp: au_write_def split: prod.splits sum.splits bool.splits
             intro!: calm_finish calm_await calm_records assms(3))
qed

lemma calm_or_declined: "calm n a (snd w) \<Longrightarrow> calm n a (or_declined n code w)"
  by (cases w) (auto simp: or_declined_def calm_finish split: option.splits bool.splits)

lemmas calm_rules = calm_finish calm_await calm_records calm_disconnect calm_or_declined calm_write

lemma calm_mint: "ownership_keys (ae_problems env) \<Longrightarrow> calm n a (au_mint env fr now n mi a)"
  unfolding au_mint_def Let_def by (rule calm_or_declined, rule calm_write) (auto simp: own_free)

lemma calm_rg_credential: "ownership_keys (ae_problems env) \<Longrightarrow> calm n a (rg_credential env now n args from claims vr at user a)"
  unfolding rg_credential_def by (rule calm_or_declined, rule calm_write) (auto simp: own_free)

lemma calm_used: "ownership_keys (ae_problems env) \<Longrightarrow> calm n a (au_used env now n c cnt from cl a)"
  unfolding au_used_def
  by (auto simp: own_free split: option.splits intro!: calm_finish calm_or_declined calm_write)

lemma calm_rename: "ownership_keys (ae_problems env) \<Longrightarrow> calm n a (au_rename env now n user name a)"
  unfolding au_rename_def Let_def
  by (auto simp: own_free split: option.splits intro!: calm_finish calm_or_declined calm_write)

lemma calm_rg_spent: "ownership_keys (ae_problems env) \<Longrightarrow> calm n a (rg_spent env now n args from claims vr a)"
  unfolding rg_spent_def
  by (auto simp: own_free calm_rg_credential split: option.splits purpose.splits intro!: calm_finish calm_or_declined calm_write)

lemma calm_grant:
  assumes "ownership_keys (ae_problems env)"
  shows "calm n a (grant_over env fr now n user iss at written tm is a)"
proof (induction "is" arbitrary: a written)
  case Nil
  then show ?case by (simp add: calm_mint [OF assms] calm_finish split: option.splits)
next
  case (Cons i "is")
  let ?w = "au_write env (ownershipKey i user (fr_grant fr))
      (OwnershipBody \<lparr>ow_user = user, ow_instance = i, ow_grant = fr_grant fr, ow_granted_at = at, ow_granted_by = Some iss\<rparr>)
      at now n (Granting user is iss at (written @ [i]) tm) a"
  have w: "calm n a (snd ?w)" by (rule calm_write [OF assms]) auto
  show ?case using w calm_trans [OF w Cons] Cons by (auto split: prod.splits option.splits bool.splits)
qed

lemma calm_fail: "calm n a b \<Longrightarrow> calm n a (fail_over env now n ks b)"
  by (cases ks) (auto intro!: calm_finish calm_await calm_records keeps_fail)

lemma calm_claims:
  assumes "ownership_keys (ae_problems env)"
  shows "calm n a (rg_claims env now n args from stated ch vr claims a)"
    and "calm n a (en_claims env now n eargs from stated c cnt claims a)"
    and "calm n a (as_verified env now n ach from c cnt a)"
  unfolding rg_claims_def en_claims_def as_verified_def
  by (auto intro!: calm_finish calm_with_asked calm_asking calm_rg_spent calm_used assms)

lemma calm_verified:
  assumes "ownership_keys (ae_problems env)"
  shows "calm n a (rg_keyed env now n args from stated ch vr a)" and "calm n a (en_verified env now n eargs from stated c cnt a)"
  unfolding rg_keyed_def en_verified_def by (auto intro!: calm_with_asked calm_asking calm_claims assms)

lemma calm_issueChallenge: "calm n a b \<Longrightarrow> calm n a (au_issueChallenge env fr now n b)"
  by (simp add: au_issueChallenge_def Let_def calm_finish)

lemma calm_resume_other:
  assumes "ownership_keys (ae_problems env)"
  shows "calm n a (resume_other env fr now n ph r a)"
  by (cases r; cases ph)
     (auto simp: resume_other_def split: sum.splits option.splits
           intro!: calm_finish calm_issueChallenge calm_claims calm_verified calm_rg_spent calm_used assms)

lemma calm_resume_written:
  assumes "ownership_keys (ae_problems env)" "\<not> removes ph"
  shows "calm n a (resume_written env fr now n ph a)"
  using assms(2) by (cases ph)
     (auto simp: resume_written_def au_grant_def split: purpose.splits option.splits
           intro!: calm_finish calm_disconnect calm_fail calm_mint calm_grant calm_rg_credential assms(1))

section \<open>Every connection has its footing\<close>

definition excused :: "auth_env \<Rightarrow> auth \<Rightarrow> user_id \<Rightarrow> bool" where
  "excused env a u \<longleftrightarrow> rc_owns (au_records a) u (ae_self env)
     \<or> (\<exists>n revoked. map_of (au_calls a) n = Some (Merging revoked))
     \<or> (\<exists>n m ks. map_of (au_calls a) n = Some (Revoking u (ae_self env) m ks))
     \<or> (\<exists>n. (n, Faulted) \<in> set (au_answers a))"

definition footing :: "auth_env \<Rightarrow> auth \<Rightarrow> bool" where
  "footing env a \<longleftrightarrow> own_named (au_records a) \<and> map_wf (au_authorized a)
     \<and> (\<forall>n ph. map_of (au_calls a) n = Some ph \<longrightarrow> call_ok ph)
     \<and> (\<forall>c h. map_of (au_authorized a) c = Some h \<longrightarrow> excused env a (ac_user h))"

lemma footingD:
  assumes "footing env a"
  shows "own_named (au_records a)" "map_wf (au_authorized a)" "map_of (au_calls a) n = Some ph \<Longrightarrow> call_ok ph"
    "map_of (au_authorized a) c = Some h \<Longrightarrow> excused env a (ac_user h)"
  using assms unfolding footing_def by blast+

lemma footingI:
  assumes "own_named (au_records a)" "map_wf (au_authorized a)" "\<And>n ph. map_of (au_calls a) n = Some ph \<Longrightarrow> call_ok ph"
    "\<And>c h. map_of (au_authorized a) c = Some h \<Longrightarrow> excused env a (ac_user h)"
  shows "footing env a"
  using assms unfolding footing_def by blast

lemma excused_mono:
  assumes "excused env a u" "rc_owns (au_records a) u (ae_self env) \<Longrightarrow> rc_owns (au_records a') u (ae_self env)"
    and "\<And>n r. map_of (au_calls a) n = Some (Merging r) \<Longrightarrow> map_of (au_calls a') n = Some (Merging r)"
    and "\<And>n m ks. map_of (au_calls a) n = Some (Revoking u (ae_self env) m ks) \<Longrightarrow> map_of (au_calls a') n = Some (Revoking u (ae_self env) m ks)"
    and "set (au_answers a) \<subseteq> set (au_answers a')"
  shows "excused env a' u"
  using assms unfolding excused_def by blast

lemma quiet_call_ok: "\<not> removes ph \<Longrightarrow> call_ok ph"
  by (cases ph) (simp_all add: call_ok_def)

lemma calm_footing:
  assumes f: "footing env a" and n: "\<And>ph. map_of (au_calls a) n = Some ph \<Longrightarrow> \<not> removes ph" and c: "calm n a a'"
  shows "footing env a'"
proof (rule footingI)
  have k: "keeps_owners (au_records a) (au_records a')" using c by (simp add: calm_def)
  then show "own_named (au_records a')" using footingD(1) [OF f] by (simp add: keeps_owners_def)
  have other: "map_of (au_calls a') m = Some ph" if "map_of (au_calls a) m = Some ph" "removes ph" for m ph
  proof -
    have "m \<noteq> n" using n that by blast
    then show ?thesis using c that(1) by (simp add: calm_def)
  qed
  have e: "excused env a' u" if "excused env a u" for u
  proof -
    have "rc_owns (au_records a') u (ae_self env)" if "rc_owns (au_records a) u (ae_self env)"
      using k footingD(1) [OF f] that by (simp add: keeps_owners_def)
    moreover have "set (au_answers a) \<subseteq> set (au_answers a')" using c by (simp add: calm_def)
    ultimately show ?thesis using excused_mono [OF that] other by simp
  qed
  show "map_wf (au_authorized a')" using c footingD(2) [OF f] by (simp add: calm_def)
  show "call_ok ph" if "map_of (au_calls a') m = Some ph" for m ph
  proof (cases "m = n")
    case True
    then show ?thesis using c that quiet_call_ok footingD(3) [OF f, of n ph] unfolding calm_def by blast
  next
    case False
    then show ?thesis using c that footingD(3) [OF f, of m ph] unfolding calm_def by metis
  qed
  show "excused env a' (ac_user h)" if h: "map_of (au_authorized a') x = Some h" for x h
  proof -
    obtain h0 where "map_of (au_authorized a) x = Some h0" "ac_user h0 = ac_user h"
      using c h footingD(2) [OF f] unfolding calm_def by blast
    then show ?thesis using e [OF footingD(4) [OF f]] by metis
  qed
qed

text \<open>Taking one instance from one person.\<close>

lemma footing_revoke:
  assumes f: "footing env a" and n: "map_of (au_calls a) n = None \<or> (\<exists>m' ks'. map_of (au_calls a) n = Some (Revoking user i m' ks'))"
    and ks: "no_slash i" "no_slash user" "\<And>k. k \<in> set ks \<Longrightarrow> \<exists>g. k = ownershipKey i user g"
  shows "footing env (revoke_over env now n user i m ks a)"
proof (cases ks)
  case Nil
  let ?b = "if i = ae_self env then disconnect user a else a"
  have wf: "map_wf (au_authorized a)" by (rule footingD(2) [OF f])
  have view: "map_of (au_authorized ?b) c = Some h \<Longrightarrow> map_of (au_authorized a) c = Some h \<and> (i = ae_self env \<longrightarrow> ac_user h \<noteq> user)" for c h
    using disconnect_view [OF wf, of user c] by (auto split: if_splits option.splits)
  have same: "au_records ?b = au_records a" "au_calls ?b = au_calls a" "au_answers ?b = au_answers a" by (simp_all add: disconnect_def)
  show ?thesis unfolding Nil revoke_over.simps
  proof (rule footingI)
    show "own_named (au_records (finish n (Revoked m) ?b))" using footingD(1) [OF f] by (simp add: finish_def disconnect_def)
    show "map_wf (au_authorized (finish n (Revoked m) ?b))" using wf by (simp add: finish_def disconnect_def)
    show "call_ok ph" if "map_of (au_calls (finish n (Revoked m) ?b)) n' = Some ph" for n' ph
      using that footingD(3) [OF f] by (simp add: finish_def same split: if_splits)
    show "excused env (finish n (Revoked m) ?b) (ac_user h)" if "map_of (au_authorized (finish n (Revoked m) ?b)) c = Some h" for c h
    proof -
      have h: "map_of (au_authorized a) c = Some h" "i = ae_self env \<longrightarrow> ac_user h \<noteq> user" using view that by (auto simp: finish_def)
      have "n' \<noteq> n" if "map_of (au_calls a) n' = Some (Revoking (ac_user h) (ae_self env) m'' ks'')" for n' m'' ks''
        using that n h(2) by auto
      moreover have "n' \<noteq> n" if "map_of (au_calls a) n' = Some (Merging r)" for n' r using that n by auto
      ultimately show ?thesis by (intro excused_mono [OF footingD(4) [OF f h(1)]]) (auto simp: finish_def same)
    qed
  qed
next
  case (Cons key keys)
  let ?s = "snd (rc_erase key None now now (au_records a))"
  note on = footingD(1) [OF f] and e = erase_owners [OF footingD(1) [OF f], where key = key and at = now and clk = now]
  obtain g where g: "key = ownershipKey i user g" using ks(3) Cons by auto
  have at: "ow_user own = user \<and> ow_instance own = i" if "own_at (au_records a) key = Some own" for own
    using on that ks(1,2) ownershipKey_inject [of i user g] unfolding own_named_def g by metis
  show ?thesis unfolding Cons revoke_over.simps
  proof (rule footingI)
    let ?b = "await n (Revoking user i m keys) (a\<lparr>au_records := ?s\<rparr>)"
    show "own_named (au_records ?b)" using e(1) by (simp add: await_def)
    show "map_wf (au_authorized ?b)" using footingD(2) [OF f] by (simp add: await_def)
    show "call_ok ph" if "map_of (au_calls ?b) n' = Some ph" for n' ph
      using that footingD(3) [OF f] ks Cons by (auto simp: await_def call_ok_def split: if_splits)
    show "excused env ?b (ac_user h)" if h: "map_of (au_authorized ?b) c = Some h" for c h
    proof (cases "i = ae_self env \<and> ac_user h = user")
      case True
      then show ?thesis unfolding excused_def await_def by auto
    next
      case False
      have "rc_owns (au_records ?b) (ac_user h) (ae_self env)" if "rc_owns (au_records a) (ac_user h) (ae_self env)"
        using e(2) [OF that] at False by (auto simp: await_def)
      moreover have "n' \<noteq> n" if "map_of (au_calls a) n' = Some (Revoking (ac_user h) (ae_self env) m'' ks'')" for n' m'' ks''
        using that n False by auto
      moreover have "n' \<noteq> n" if "map_of (au_calls a) n' = Some (Merging r)" for n' r using that n by auto
      ultimately show ?thesis using h by (intro excused_mono [OF footingD(4) [OF f]]) (auto simp: await_def)
    qed
  qed
qed

lemma grants_named:
  assumes "own_named s" "(k, own) \<in> set (rc_grantsOf s user i)"
  shows "k = ownershipKey i user (ow_grant own)" "no_slash i" "no_slash user"
proof -
  obtain k' r where r: "(k', r) \<in> set (rc_records s)" "ar_body r = OwnershipBody own" "ar_key r = k" "ow_user own = user" "ow_instance own = i"
    using assms(2) by (auto simp: rc_grantsOf_def split: auth_body.splits if_splits)
  have wf: "map_wf (rc_records s)" "rc_wf s" using assms(1) by (auto simp: own_named_def rc_wf_def)
  have m: "map_of (rc_records s) k' = Some r" using r(1) map_wf_mem [OF wf(1)] by blast
  then have "k' = k" using wf(2) r(3) unfolding rc_wf_def by blast
  then have "own_at s k = Some own" using m r(2) by (auto simp: own_at_iff)
  with assms(1) r(4,5) show "k = ownershipKey i user (ow_grant own)" "no_slash i" "no_slash user" by (auto simp: own_named_def)
qed

lemma footing_au_revoke:
  assumes f: "footing env a" and n: "map_of (au_calls a) n = None"
  shows "footing env (au_revoke env now n user i a)"
proof (cases "rc_grantsOf (au_records a) user i = []")
  case True
  have "footing env (finish n (Declined ''not_found'') a)"
    by (rule calm_footing [OF f _ calm_finish [OF calm_refl], where n = n]) (simp add: n)
  with True show ?thesis by (simp add: au_revoke_def)
next
  case False
  note g = grants_named [OF footingD(1) [OF f]]
  obtain k own where "(k, own) \<in> set (rc_grantsOf (au_records a) user i)" using False by (metis list.set_intros(1) neq_Nil_conv surj_pair)
  moreover have "\<exists>g. k = ownershipKey i user g" if "k \<in> set (map fst (rc_grantsOf (au_records a) user i))" for k
    using that g(1) by fastforce
  ultimately have "footing env (revoke_over env now n user i (length (rc_grantsOf (au_records a) user i))
      (map fst (rc_grantsOf (au_records a) user i)) a)"
    using g(2,3) n by (intro footing_revoke [OF f]) blast+
  with False show ?thesis by (simp add: au_revoke_def Let_def)
qed

lemma fold_disconnect_view:
  "map_wf (au_authorized a) \<Longrightarrow> map_wf (au_authorized (fold disconnect us a)) \<and> au_records (fold disconnect us a) = au_records a
     \<and> au_calls (fold disconnect us a) = au_calls a \<and> au_answers (fold disconnect us a) = au_answers a"
  by (induction us arbitrary: a) (auto simp: disconnect_def)

lemma footing_merged:
  assumes f: "footing env a"
  shows "footing env (finish n MergedRecords (au_merged env revoked a))"
proof (rule footingI)
  let ?b = "fold disconnect revoked a"
  note v = fold_disconnect_view [OF footingD(2) [OF f], of revoked]
  show "own_named (au_records (finish n MergedRecords (au_merged env revoked a)))"
    using footingD(1) [OF f] v by (simp add: finish_def au_merged_def sweep_owners_def)
  show "map_wf (au_authorized (finish n MergedRecords (au_merged env revoked a)))"
    using v by (simp add: finish_def au_merged_def sweep_owners_def)
  show "call_ok ph" if "map_of (au_calls (finish n MergedRecords (au_merged env revoked a))) m = Some ph" for m ph
    using that v footingD(3) [OF f] by (simp add: finish_def au_merged_def sweep_owners_def split: if_splits)
  show "excused env (finish n MergedRecords (au_merged env revoked a)) (ac_user h)"
    if "map_of (au_authorized (finish n MergedRecords (au_merged env revoked a))) c = Some h" for c h
  proof -
    have "map_of (filter (\<lambda>(conn, held). rc_owns (au_records ?b) (ac_user held) (ae_self env)) (au_authorized ?b)) c = Some h"
      using that by (simp add: finish_def au_merged_def sweep_owners_def Let_def)
    then have "rc_owns (au_records a) (ac_user h) (ae_self env)" using v by (auto simp: map_of_filter_wf split: option.splits if_splits)
    then show ?thesis using v by (simp add: excused_def finish_def au_merged_def sweep_owners_def)
  qed
qed

lemma footing_faulted:
  assumes f: "footing env a"
  shows "footing env (finish n Faulted a)"
  by (rule footingI) (use footingD [OF f] in \<open>auto simp: finish_def excused_def split: if_splits\<close>)

lemma footing_resume:
  assumes keys: "ownership_keys (ae_problems env)" and f: "footing env a"
  shows "footing env (au_resume env fr now n r a)"
proof (cases "map_of (au_calls a) n")
  case None
  with f show ?thesis by (simp add: au_resume_def)
next
  case (Some ph)
  show ?thesis
  proof (cases "removes ph")
    case False
    have "calm n a (au_resume env fr now n r a)"
      using calm_resume_other [OF keys] calm_resume_written [OF keys False] by (cases r) (auto simp: au_resume_def Some calm_finish)
    from calm_footing [OF f _ this] show ?thesis using Some False by simp
  next
    case True
    have quiet: "resume_other env fr now n ph r a = a" if "removes ph"
      using that by (cases ph) (auto simp: resume_other_def split: resumed.splits sum.splits)
    have "footing env (resume_written env fr now n ph a)"
    proof (cases ph)
      case (Merging revoked)
      then show ?thesis using footing_merged [OF f] by (simp add: resume_written_def)
    next
      case (Revoking u i m ks)
      have "call_ok ph" by (rule footingD(3) [OF f Some])
      then show ?thesis using Some footing_revoke [OF f, of n u i ks] unfolding Revoking
        by (auto simp: resume_written_def call_ok_def)
    qed (use True in simp_all)
    then show ?thesis using quiet [OF True] f footing_faulted [OF f] by (cases r) (simp_all add: au_resume_def Some)
  qed
qed

lemma footing_merge:
  assumes keys: "ownership_keys (ae_problems env)" and f: "footing env a" and n: "map_of (au_calls a) n = None"
  shows "footing env (au_merge env now n records a)"
proof -
  obtain changed revoked s where m: "rc_merge (ae_problems env) records now (au_records a) = ((changed, revoked), s)"
    by (cases "rc_merge (ae_problems env) records now (au_records a)") auto
  then have "own_named s" using own_named_merge [OF keys footingD(1) [OF f], of records now] by simp
  then show ?thesis
    by (intro footingI) (use footingD(2,3) [OF f] in \<open>auto simp: au_merge_def m await_def excused_def call_ok_def split: if_splits\<close>)
qed

lemma calm_starts:
  assumes "ownership_keys (ae_problems env)"
  shows "calm n a (au_register env now n args from a)" "calm n a (au_enroll env n eargs from a)" "calm n a (au_assert env n aargs from a)"
    "calm n a (au_signout env now n v origin a)" "calm n a (au_removeCredential env now n user cid a)"
    "calm n a (au_challenge env fr now n tok a)"
proof -
  show "calm n a (au_register env now n args from a)" "calm n a (au_enroll env n eargs from a)" "calm n a (au_assert env n aargs from a)"
    by (auto simp: au_register_def au_enroll_def au_assert_def split: claims_reading.splits option.splits sum.splits
             intro!: calm_finish calm_await)
  show "calm n a (au_signout env now n v origin a)"
    by (auto simp: au_signout_def split: option.splits intro!: calm_finish calm_await calm_records keeps_fail)
  show "calm n a (au_removeCredential env now n user cid a)"
    by (auto simp: au_removeCredential_def own_free split: option.splits intro!: calm_finish calm_await calm_records keeps_erase)
  have "calm n a (snd (checkEnrolment env t now a))" for t
    using calm_check [OF calm_refl, of n a env t now] by (cases "check_url env t now a") (simp add: checkEnrolment_def)
  then show "calm n a (au_challenge env fr now n tok a)"
    by (auto simp: au_challenge_def split: option.splits claims_reading.splits sum.splits prod.splits
             intro!: calm_finish calm_await calm_issueChallenge) (metis snd_conv)+
qed

lemma by_refresh_mem: "by_refresh v now fs = Some (k, f, p) \<Longrightarrow> (k, f) \<in> set fs"
  by (induction v now fs rule: by_refresh.induct) (auto split: if_splits option.splits)

lemma family_not_own:
  assumes "rc_wf s" "(k, f) \<in> set (rc_families s)"
  shows "map_of (rc_records s) k \<noteq> None" "own_at s k = None"
proof -
  obtain k' r where r: "(k', r) \<in> set (rc_records s)" "ar_body r = FamilyBody f" "ar_key r = k"
    using assms(2) by (auto simp: rc_families_def split: auth_body.splits)
  have "map_of (rc_records s) k' = Some r" using r(1) assms(1) map_wf_mem unfolding rc_wf_def by metis
  moreover from this have "k' = k" using assms(1) r(3) unfolding rc_wf_def by blast
  ultimately show "map_of (rc_records s) k \<noteq> None" "own_at s k = None" using r(2) by (simp_all add: own_at_def)
qed

lemma calm_refresh:
  assumes "ownership_keys (ae_problems env)"
  shows "calm n a (au_refreshToken env fr now n v from a)"
proof (cases "rc_byRefresh v now (au_records a)")
  case None
  then show ?thesis by (simp add: au_refreshToken_def calm_fail)
next
  case (Some x)
  obtain key f p where x: "x = (key, f, p)" by (cases x)
  have mem: "(key, f) \<in> set (rc_families (au_records a))" using Some by_refresh_mem unfolding x rc_byRefresh_def by blast
  let ?w = "au_write env key (FamilyBody (rotated env fr now from f)) now now n (RefreshWrite (rotated env fr now from f)) a"
  have "calm n a (snd ?w)"
    by (rule calm_write [OF assms]) (use mem in \<open>auto simp: own_named_def dest: family_not_own(2)\<close>)
  then show ?thesis by (auto simp: au_refreshToken_def Some x Let_def calm_finish split: prod.splits option.splits bool.splits)
qed

lemma admits_owner: "au_admits env access now a = Some ad \<Longrightarrow> rc_owns (au_records a) (ad_user ad) (ae_self env)"
  by (auto simp: au_admits_def split: option.splits prod.splits if_splits)

lemma footing_open:
  assumes f: "footing env a" and "allowUpgrade env access origin now a = Some ad"
  shows "footing env (au_hold conn ad now a)"
proof -
  have o: "rc_owns (au_records a) (ad_user ad) (ae_self env)"
    using assms(2) admits_owner by (auto simp: allowUpgrade_def split: option.splits if_splits)
  show ?thesis
    by (rule footingI) (use footingD [OF f] o in \<open>auto simp: au_hold_def excused_def split: if_splits\<close>)
qed

lemma footing_still:
  assumes "footing env a" "\<And>n. calm n a a'" "au_calls a' = au_calls a"
  shows "footing env a'"
proof -
  have "finite (dom (map_of (au_calls a)))" by (rule finite_dom_map_of)
  then obtain n where "n \<notin> dom (map_of (au_calls a))" using infinite_UNIV_nat ex_new_if_finite by blast
  then show ?thesis using calm_footing [OF assms(1) _ assms(2), of n] by (auto simp: dom_def)
qed

lemma calm_conns: "calm n a (au_deadline conn now a)" "calm n a (au_connClosed conn a)" "calm n a (snd (allowRequest now a))"
  "calm n a (snd (au_extend env conn access now a))"
  by (auto simp: calm_def au_deadline_def au_connClosed_def allowRequest_def au_extend_def au_held_def Let_def
           split: option.splits if_splits)

lemma conns_calls: "au_calls (au_deadline conn now a) = au_calls a" "au_calls (au_connClosed conn a) = au_calls a"
  "au_calls (snd (allowRequest now a)) = au_calls a" "au_calls (snd (au_extend env conn access now a)) = au_calls a"
  "au_calls (snd (au_spend v now a)) = au_calls a" "au_calls (snd (checkEnrolment env tok now a)) = au_calls a"
  by (auto simp: au_deadline_def au_connClosed_def allowRequest_def au_extend_def au_held_def au_spend_def au_forget_def checkEnrolment_def
        check_url_def Let_def split: option.splits claims_reading.splits)

lemma resolve_calls: "au_calls (snd (resolveEnrolment env tok code now a)) = au_calls a"
  by (auto simp: resolveEnrolment_def check_url_def Let_def split: option.splits claims_reading.splits)

lemma footing_run:
  assumes keys: "ownership_keys (ae_problems env)" and f: "footing env a"
    and n: "\<And>n. event_call ev = Some n \<Longrightarrow> map_of (au_calls a) n = None"
  shows "footing env (au_run env fr now ev a)"
proof -
  have go: "footing env a'" if "event_call ev = Some n" "calm n a a'" for n a'
    by (rule calm_footing [OF f _ that(2)]) (simp add: n [OF that(1)])
  note still = footing_still [OF f]
  show ?thesis
  proof (cases ev)
    case (EvIssue opts)
    have "calm n a (snd (au_issue env fr now opts a))" for n by (simp add: au_issue_def Let_def split: option.splits)
    moreover have "au_calls (snd (au_issue env fr now opts a)) = au_calls a" by (simp add: au_issue_def Let_def split: option.splits)
    ultimately show ?thesis unfolding EvIssue by (simp add: still)
  next
    case (EvGrant m user all)
    have "calm m a (au_run env fr now ev a)" unfolding EvGrant by (simp add: au_grant_def calm_grant [OF keys] calm_finish)
    then show ?thesis using go [of m] EvGrant by simp
  next
    case (EvRevoke m user i)
    then show ?thesis using footing_au_revoke [OF f n, of m] by simp
  next
    case (EvOwnershipRemove m conn i)
    have "footing env (finish m x a)" for x using go [of m, OF _ calm_finish [OF calm_refl]] EvOwnershipRemove by simp
    then show ?thesis using footing_au_revoke [OF f n, of m] EvOwnershipRemove by (simp add: ownership_remove_def split: sum.splits)
  next
    case (EvCredentialRemove m conn cid)
    have "calm m a (au_run env fr now ev a)" unfolding EvCredentialRemove
      using calm_starts(5) [OF keys] by (auto simp: credential_remove_def calm_finish split: sum.splits)
    then show ?thesis using go [of m] EvCredentialRemove by simp
  next
    case (EvPasskeyRemove m cid)
    have "calm m a (au_run env fr now ev a)" unfolding EvPasskeyRemove
      using calm_starts(5) [OF keys] by (auto simp: calm_finish split: option.splits)
    then show ?thesis using go [of m] EvPasskeyRemove by simp
  next
    case (EvMerge m records)
    then show ?thesis using footing_merge [OF keys f n, of m] by simp
  next
    case (EvResume m r)
    then show ?thesis using footing_resume [OF keys f] by simp
  next
    case (EvOpen conn access origin)
    then show ?thesis using f footing_open [OF f] by (simp split: option.splits)
  next
    case (EvResolveAlive tok)
    have "calm n a (snd (checkEnrolment env tok now a))" for n
      using calm_check [OF calm_refl, of n a env tok now] by (cases "check_url env tok now a") (simp add: checkEnrolment_def)
    then show ?thesis unfolding EvResolveAlive by (simp add: still conns_calls)
  next
    case (EvDisk ok)
    have "calm n a (a\<lparr>au_records := (if ok then rc_land (au_records a) else rc_lost_write (au_records a))\<rparr>)" for n
      by (rule calm_records) (simp_all add: keeps_between)
    then show ?thesis unfolding EvDisk by (simp add: still)
  next
    case EvSnapshot
    have "calm n a (a\<lparr>au_records := snd (rc_all now (au_records a))\<rparr>)" for n by (rule calm_records) (simp_all add: keeps_between)
    then show ?thesis unfolding EvSnapshot by (simp add: still)
  qed (use go calm_starts [OF keys] calm_refresh [OF keys] calm_rename [OF keys] in
        \<open>simp_all add: still calm_conns conns_calls resolve_calls calm_spend calm_resolve\<close>)
qed

lemma own_named_start:
  assumes "ownership_keys problems"
  shows "own_named (AuthRecords problems now contents)"
proof -
  have go: "own_named s \<Longrightarrow> own_named (fold (\<lambda>r s. snd (rc_accept problems r s)) rs s)" for rs s
    by (induction rs arbitrary: s) (simp_all add: own_named_accept [OF assms])
  obtain records store where l: "fs_load (fileRecordStore contents) = (records, store)" by (cases "fs_load (fileRecordStore contents)")
  have "own_named \<lparr>rc_records = [], rc_dropped = [], rc_store = store, rc_published = []\<rparr>"
    by (simp add: own_named_def rc_wf_def own_at_def)
  from go [OF this] keeps_expire show ?thesis by (simp add: AuthRecords_def l keeps_owners_def)
qed

lemma footing_runs:
  assumes "ownership_keys (ae_problems env)"
  shows "footing env (foldl (au_step env) (Auth (AuthRecords (ae_problems env) t contents)) evs)"
proof (induction evs rule: rev_induct)
  case Nil
  then show ?case using own_named_start [OF assms] by (simp add: footing_def Auth_def)
next
  case (snoc e evs)
  obtain fr now ev where e: "e = (fr, now, ev)" by (cases e)
  show ?case
    using snoc footing_run [OF assms snoc, of ev] by (auto simp: e au_step_def split: option.splits)
qed

text \<open>
  C5: whoever holds a connection owns the instance. Over every run of the ops, with whatever waits
  between them: the person behind an open connection owns this instance, or a batch of a peer is still
  being written down, or a removal of this very person's grantings of this instance is, or some call
  ended because a write failed. So once the calls are through and no write failed, nobody without a
  granting is connected. (The contract keys a granting by instance, person and id.)
\<close>

theorem only_owners_stay:
  assumes "ownership_keys (ae_problems env)"
    and "a = foldl (au_step env) (Auth (AuthRecords (ae_problems env) t contents)) evs"
    and "map_of (au_authorized a) conn = Some held"
  shows "rc_owns (au_records a) (ac_user held) (ae_self env)
    \<or> (\<exists>n revoked. map_of (au_calls a) n = Some (Merging revoked))
    \<or> (\<exists>n m ks. map_of (au_calls a) n = Some (Revoking (ac_user held) (ae_self env) m ks))
    \<or> (\<exists>n. (n, Faulted) \<in> set (au_answers a))"
  using footingD(4) [OF footing_runs [OF assms(1)], of t contents evs conn held] assms(2,3) by (simp add: excused_def)

text \<open>Somebody who owns the instance and has a session there.\<close>

definition checked_keys :: "auth_record \<Rightarrow> string list" where
  "checked_keys r =
     (case ar_body r of
        OwnershipBody own \<Rightarrow>
          if ar_key r = ownershipKey (ow_instance own) (ow_user own) (ow_grant own) \<and> no_slash (ow_instance own) \<and> no_slash (ow_user own)
          then [] else [''key'']
      | _ \<Rightarrow> [])"

lemma checked_ownership_keys: "ownership_keys checked_keys"
  by (auto simp: ownership_keys_def checked_keys_def split: if_splits)

definition keyed_env :: auth_env where
  "keyed_env = example_env\<lparr>ae_problems := checked_keys\<rparr>"

definition example_owner :: "auth_record list" where
  "example_owner =
     [\<lparr>ar_key = ''ownership/i/u/g'', ar_updated_at = 1, ar_body = OwnershipBody \<lparr>ow_user = ''u'', ow_instance = ''i'', ow_grant = ''g'', ow_granted_at = 1, ow_granted_by = None\<rparr>\<rparr>,
      \<lparr>ar_key = ''family/f'', ar_updated_at = 1, ar_body = FamilyBody
        \<lparr>tf_user = ''u'', tf_iss = ''i'', tf_origin = ''o'', tf_access = \<lparr>tk_value = ''a'', tk_expires_at = 1000\<rparr>,
         tf_refresh = \<lparr>tk_value = ''r'', tk_expires_at = 9000\<rparr>, tf_previous_refresh = None, tf_retired = [], tf_last_refresh = None\<rparr>\<rparr>]"

definition mark_on :: "string \<Rightarrow> auth_record" where
  "mark_on key = \<lparr>ar_key = key, ar_updated_at = 5, ar_body = TombstoneBody 5 None\<rparr>"

definition opened_evs :: "(fresh \<times> timestamp \<times> auth_event) list" where
  "opened_evs = [(example_fresh CHR ''1'', 3, EvOpen 7 ''a'' (Some ''o''))]"

theorem only_owners_stay_witness:
  "let a = foldl (au_step keyed_env) (Auth (AuthRecords checked_keys 2 (Some example_owner))) opened_evs;
       b = foldl (au_step keyed_env) a [(example_fresh CHR ''2'', 5, EvMerge 0 [mark_on ''ownership/i/u/g'']), (example_fresh CHR ''3'', 6, EvResume 0 (Landed True))]
   in map_of (au_authorized a) 7 \<noteq> None \<and> rc_owns (au_records a) ''u'' ''i'' \<and> au_authorized b = [] \<and> au_closed b = [7]"
proof -
  let ?a = "foldl (au_step keyed_env) (Auth (AuthRecords (ae_problems keyed_env) 2 (Some example_owner))) opened_evs"
  let ?h = "\<lparr>ac_user = ''u'', ac_credential = None, ac_expires_at = 1000, ac_timer = 1000\<rparr>"
  have p: "ae_problems keyed_env = checked_keys" by (simp add: keyed_env_def)
  have h: "map_of (au_authorized ?a) 7 = Some ?h" "au_calls ?a = []" "au_answers ?a = []" by code_simp+
  from only_owners_stay [OF _ refl h(1)] h(2,3) have "rc_owns (au_records ?a) ''u'' (ae_self keyed_env)"
    using checked_ownership_keys by (simp add: p)
  moreover have "ae_self keyed_env = ''i''" by (simp add: keyed_env_def example_env_def)
  moreover have "let b = foldl (au_step keyed_env) ?a [(example_fresh CHR ''2'', 5, EvMerge 0 [mark_on ''ownership/i/u/g'']), (example_fresh CHR ''3'', 6, EvResume 0 (Landed True))]
      in au_authorized b = [] \<and> au_closed b = [7]" by code_simp
  ultimately show ?thesis using h(1) unfolding p Let_def by simp
qed

text \<open>What a failed write leaves. A mark of a peer is in the set before it is on disk; when the write
  fails, nothing that follows it is done, and the same mark arriving again changes nothing: the
  connection of somebody whose family was failed elsewhere stays open.\<close>

lemma failed_merge_keeps_the_connection:
  "let a = foldl (au_step keyed_env) (Auth (AuthRecords checked_keys 2 (Some example_owner)))
        (opened_evs @ [(example_fresh CHR ''2'', 5, EvMerge 0 [mark_on ''family/f'']), (example_fresh CHR ''3'', 6, EvResume 0 (Landed False)),
                       (example_fresh CHR ''4'', 7, EvMerge 1 [mark_on ''family/f'']), (example_fresh CHR ''5'', 8, EvResume 1 (Landed True))])
   in rc_removed (au_records a) ''family/f'' \<and> map_keys (au_authorized a) = [7] \<and> au_closed a = []"
  by code_simp

text \<open>An extension moves the deadline that is stated and not the close that is scheduled: with a token
  of another family that runs out sooner, the connection outlives what it was told.\<close>

lemma extended_connection_outlives_its_deadline:
  "let f2 = \<lparr>ar_key = ''family/g'', ar_updated_at = 1, ar_body = FamilyBody
         \<lparr>tf_user = ''u'', tf_iss = ''i'', tf_origin = ''o'', tf_access = \<lparr>tk_value = ''b'', tk_expires_at = 50\<rparr>,
          tf_refresh = \<lparr>tk_value = ''q'', tk_expires_at = 9000\<rparr>, tf_previous_refresh = None, tf_retired = [], tf_last_refresh = None\<rparr>\<rparr>;
       a = foldl (au_step keyed_env) (Auth (AuthRecords checked_keys 2 (Some (example_owner @ [f2]))))
             (opened_evs @ [(example_fresh CHR ''2'', 5, EvExtend 7 ''b'')])
   in au_expiresAt 7 a = Some 50 \<and> map_option ac_timer (map_of (au_authorized a) 7) = Some 1000"
  by code_simp

end
