(* ===== verification/AuthTokens.thy ===== *)
theory AuthTokens
  imports AuthFooting
begin

text \<open>
  Rotation of a token family and what a replayed token does to it.
\<close>

section \<open>Families in the set\<close>

definition family_at :: "auth_records \<Rightarrow> string \<Rightarrow> token_family option" where
  "family_at s k = (case map_of (rc_records s) k of Some r \<Rightarrow> (case ar_body r of FamilyBody f \<Rightarrow> Some f | _ \<Rightarrow> None) | None \<Rightarrow> None)"

lemma family_at_iff: "family_at s k = Some f \<longleftrightarrow> (\<exists>r. map_of (rc_records s) k = Some r \<and> ar_body r = FamilyBody f)"
  by (auto simp: family_at_def split: option.splits auth_body.splits)

lemma families_at:
  assumes "rc_wf s"
  shows "(k, f) \<in> set (rc_families s) \<longleftrightarrow> family_at s k = Some f"
proof -
  have "(k, f) \<in> set (rc_families s) \<longleftrightarrow> (\<exists>k' r. (k', r) \<in> set (rc_records s) \<and> ar_body r = FamilyBody f \<and> ar_key r = k)"
    unfolding rc_families_def by (force split: auth_body.splits)
  also have "\<dots> \<longleftrightarrow> (\<exists>k' r. map_of (rc_records s) k' = Some r \<and> ar_body r = FamilyBody f \<and> ar_key r = k)"
    using assms map_wf_mem unfolding rc_wf_def by metis
  also have "\<dots> \<longleftrightarrow> family_at s k = Some f" using assms unfolding family_at_iff rc_wf_def by metis
  finally show ?thesis .
qed

lemma families_distinct:
  assumes "rc_wf s"
  shows "distinct (map fst (rc_families s))"
proof -
  have eq: "map fst (concat (map (\<lambda>(k, r). case ar_body r of FamilyBody f \<Rightarrow> [(ar_key r, f)] | _ \<Rightarrow> []) m))
      = map fst (filter (\<lambda>(k, r). is_family (ar_body r)) m)" if "\<And>k r. (k, r) \<in> set m \<Longrightarrow> ar_key r = k" for m
    using that
  proof (induction m)
    case (Cons e m)
    obtain k r where e: "e = (k, r)" by (cases e)
    have k: "ar_key r = k" by (rule Cons.prems) (simp add: e)
    have "(k', r') \<in> set m \<Longrightarrow> ar_key r' = k'" for k' r' by (rule Cons.prems) simp
    note Cons.IH [OF this]
    with k show ?case by (cases "ar_body r") (simp_all add: e)
  qed simp
  have wf: "map_wf (rc_records s)" using assms by (simp add: rc_wf_def)
  have "ar_key r = k" if "(k, r) \<in> set (rc_records s)" for k r
    using assms that map_wf_mem [OF wf, of k r] unfolding rc_wf_def by simp
  then have "map fst (rc_families s) = map_keys (filter (\<lambda>(k, r). is_family (ar_body r)) (rc_records s))"
    unfolding rc_families_def by (rule eq)
  then show ?thesis using map_wf_filter [OF wf] by metis
qed

lemma family_expire:
  assumes "rc_wf s"
  shows "family_at (rc_expire now s) k = (case family_at s k of Some f \<Rightarrow> if tk_expires_at (tf_refresh f) \<le> now then None else Some f | None \<Rightarrow> None)"
  using rc_expire_view(1) [OF assms, of now k] by (auto simp: family_at_def record_over_def split: option.splits auth_body.splits if_splits)

lemma family_keep:
  "rc_wf s \<Longrightarrow> family_at (rc_keep now changed announce s) k =
     (case family_at s k of Some f \<Rightarrow> if tk_expires_at (tf_refresh f) \<le> now then None else Some f | None \<Rightarrow> None)"
  using family_expire [of s now k] by (simp add: family_at_def rc_keep_view)

section \<open>A replayed token\<close>

lemma rc_fail_wf: "rc_wf s \<Longrightarrow> rc_wf (rc_fail ct key at clk s)"
  using rc_step_wf [of s ct "\<lambda>_. []" "RFail key at clk"] by simp

lemma fail_family:
  assumes "rc_wf s"
  shows "family_at (rc_fail ct key at clk s) key = None" "family_at (rc_fail ct key at clk s) k = Some f \<Longrightarrow> family_at s k = Some f"
    "family_at s k = Some f \<Longrightarrow> k \<noteq> key \<Longrightarrow> clk < tk_expires_at (tf_refresh f) \<Longrightarrow> family_at (rc_fail ct key at clk s) k = Some f"
proof -
  have "family_at (rc_fail ct key at clk s) key = None \<and> (family_at (rc_fail ct key at clk s) k = Some f \<longrightarrow> family_at s k = Some f)
      \<and> (family_at s k = Some f \<and> k \<noteq> key \<and> clk < tk_expires_at (tf_refresh f) \<longrightarrow> family_at (rc_fail ct key at clk s) k = Some f)"
  proof (cases "map_of (rc_records s) key")
    case None
    then show ?thesis by (simp add: rc_fail_def family_at_def)
  next
    case (Some r)
    show ?thesis
    proof (cases "is_family (ar_body r)")
      case False
      then show ?thesis using Some by (cases "ar_body r") (simp_all add: rc_fail_def family_at_def)
    next
      case True
      let ?r = "\<lparr>ar_key = key, ar_updated_at = stamp_past at (Some r), ar_body = TombstoneBody at (Some (at + FAMILY_TOMBSTONE_RETENTION_MS ct))\<rparr>"
      let ?s = "s\<lparr>rc_records := map_set key ?r (rc_records s)\<rparr>"
      have wf: "rc_wf ?s" by (rule rc_wf_set [OF assms]) simp
      have at: "family_at ?s k' = (if k' = key then None else family_at s k')" for k' by (simp add: family_at_def)
      show ?thesis using Some True family_keep [OF wf, of clk "[?r]" "Some [?r]"]
        by (auto simp: rc_fail_def rc_erase_def Let_def at split: option.splits if_splits)
    qed
  qed
  then show "family_at (rc_fail ct key at clk s) key = None"
    "family_at (rc_fail ct key at clk s) k = Some f \<Longrightarrow> family_at s k = Some f"
    "family_at s k = Some f \<Longrightarrow> k \<noteq> key \<Longrightarrow> clk < tk_expires_at (tf_refresh f) \<Longrightarrow> family_at (rc_fail ct key at clk s) k = Some f"
    by blast+
qed

definition resumes :: "fresh \<Rightarrow> nat \<Rightarrow> timestamp list \<Rightarrow> (fresh \<times> timestamp \<times> auth_event) list" where
  "resumes fr n ts = map (\<lambda>t. (fr, t, EvResume n (Landed True))) ts"

lemma fail_over_runs:
  assumes "rc_wf (au_records a)" "map_wf (au_authorized a)" "length ts = length ks"
  shows "let b = foldl (au_step env) (fail_over env now n ks a) (resumes fr n ts) in rc_wf (au_records b) \<and>
    (\<forall>(k, u) \<in> set ks. family_at (au_records b) k = None \<and> (\<forall>c h. map_of (au_authorized b) c = Some h \<longrightarrow> ac_user h \<noteq> u))
    \<and> (\<forall>k f. family_at (au_records b) k = Some f \<longrightarrow> family_at (au_records a) k = Some f)
    \<and> (\<forall>k f. family_at (au_records a) k = Some f \<and> k \<notin> fst ` set ks \<and> (\<forall>t \<in> set (now # ts). t < tk_expires_at (tf_refresh f))
         \<longrightarrow> family_at (au_records b) k = Some f)
    \<and> (\<forall>c h. map_of (au_authorized b) c = Some h \<longrightarrow> map_of (au_authorized a) c = Some h)
    \<and> (\<forall>c h. map_of (au_authorized a) c = Some h \<and> ac_user h \<notin> snd ` set ks \<longrightarrow> map_of (au_authorized b) c = Some h)
    \<and> au_answers b = au_answers a @ [(n, Declined ''auth_invalid'')]"
  using assms
proof (induction ks arbitrary: a now ts)
  case Nil
  then show ?case by (simp add: resumes_def finish_def)
next
  case (Cons e ks)
  obtain k u where e: "e = (k, u)" by (cases e)
  obtain t ts' where ts: "ts = t # ts'" using Cons.prems(3) by (cases ts) auto
  let ?s = "rc_fail (ae_contract env) k now now (au_records a)"
  let ?a1 = "await n (Failing k u ks) (a\<lparr>au_records := ?s\<rparr>)"
  let ?a2 = "disconnect u (?a1\<lparr>au_openedWith := map_del k (au_openedWith ?a1)\<rparr>)"
  have step: "foldl (au_step env) (fail_over env now n (e # ks) a) (resumes fr n ts) = foldl (au_step env) (fail_over env t n ks ?a2) (resumes fr n ts')"
    by (simp add: e ts resumes_def au_step_def au_resume_def await_def resume_written_def)
  have recs: "au_records ?a2 = ?s" "au_answers ?a2 = au_answers a" by (simp_all add: disconnect_def await_def)
  have wf: "rc_wf (au_records ?a2)" unfolding recs by (rule rc_fail_wf [OF Cons.prems(1)])
  have aw: "map_wf (au_authorized ?a2)" using Cons.prems(2) by (simp add: disconnect_def await_def)
  note view = disconnect_view [of "?a1\<lparr>au_openedWith := map_del k (au_openedWith ?a1)\<rparr>" u]
  have conns: "map_of (au_authorized ?a2) c = Some h \<Longrightarrow> map_of (au_authorized a) c = Some h \<and> ac_user h \<noteq> u" for c h
    using view [of c] Cons.prems(2) by (auto simp: await_def split: option.splits if_splits)
  have kept: "map_of (au_authorized a) c = Some h \<Longrightarrow> ac_user h \<noteq> u \<Longrightarrow> map_of (au_authorized ?a2) c = Some h" for c h
    using view [of c] Cons.prems(2) by (auto simp: await_def split: option.splits if_splits)
  note ff = fail_family [OF Cons.prems(1), where ct = "ae_contract env" and key = k and at = now and clk = now]
  define b where "b = foldl (au_step env) (fail_over env t n ks ?a2) (resumes fr n ts')"
  have len: "length ts' = length ks" using Cons.prems(3) by (simp add: ts)
  note ih = Cons.IH [OF wf aw len, of t, unfolded Let_def, folded b_def, unfolded recs]
  have ih': "rc_wf (au_records b)"
    "\<forall>(k, u) \<in> set ks. family_at (au_records b) k = None \<and> (\<forall>c h. map_of (au_authorized b) c = Some h \<longrightarrow> ac_user h \<noteq> u)"
    "\<forall>k f. family_at (au_records b) k = Some f \<longrightarrow> family_at ?s k = Some f"
    "\<forall>k f. family_at ?s k = Some f \<and> k \<notin> fst ` set ks \<and> (\<forall>t \<in> set (t # ts'). t < tk_expires_at (tf_refresh f))
       \<longrightarrow> family_at (au_records b) k = Some f"
    "\<forall>c h. map_of (au_authorized b) c = Some h \<longrightarrow> map_of (au_authorized ?a2) c = Some h"
    "\<forall>c h. map_of (au_authorized ?a2) c = Some h \<and> ac_user h \<notin> snd ` set ks \<longrightarrow> map_of (au_authorized b) c = Some h"
    "au_answers b = au_answers a @ [(n, Declined ''auth_invalid'')]"
    by (insert ih) (elim conjE, assumption)+
  have own: "ac_user h \<noteq> u \<and> map_of (au_authorized a) c = Some h" if "map_of (au_authorized b) c = Some h" for c h
    using conns ih'(5) that by blast
  have "family_at (au_records b) k = None" using ih'(3) ff(1) by (cases "family_at (au_records b) k") auto
  then have 1: "\<forall>(k, u) \<in> set (e # ks). family_at (au_records b) k = None \<and> (\<forall>c h. map_of (au_authorized b) c = Some h \<longrightarrow> ac_user h \<noteq> u)"
    using ih'(2) own by (simp add: e)
  have 2: "\<forall>k f. family_at (au_records b) k = Some f \<longrightarrow> family_at (au_records a) k = Some f" using ih'(3) ff(2) by blast
  have 3: "family_at (au_records b) x = Some f"
    if "family_at (au_records a) x = Some f" "x \<notin> fst ` set (e # ks)" "\<forall>t \<in> set (now # ts). t < tk_expires_at (tf_refresh f)" for x f
    using ih'(4) ff(3) [of x f] that by (simp add: e ts)
  have 4: "map_of (au_authorized b) c = Some h" if "map_of (au_authorized a) c = Some h" "ac_user h \<notin> snd ` set (e # ks)" for c h
    using ih'(6) kept [of c h] that by (simp add: e)
  show ?case unfolding step b_def [symmetric] Let_def using ih'(1,7) 1 2 3 4 own by (intro conjI allI impI) blast+
qed

lemma start_refresh:
  assumes "map_of (au_calls a) n = None" "n \<notin> fst ` set (au_answers a)"
  shows "au_step env a (fr, now, EvRefresh n v from) = au_refreshToken env fr now n v from a"
  using assms by (simp add: au_step_def)

text \<open>
  C32: a replayed token ends its family and nothing else. When a refresh token arrives that no family
  stands on and some families have retired, then with the marks written down: no such family is left and
  no connection of the people they belonged to is open; every other family is as it was, but for those
  whose own refresh token has run out meanwhile, and no family was made; every connection of anybody else
  is as it was; and the call is refused. A token its family replaced less than the grace ago still counts
  as one it stands on (that is a lost reply, which \<open>refresh_rotates\<close> describes), so a replay is one
  after the grace.
\<close>

theorem replay_ends_the_family:
  assumes "rc_wf (au_records a)" "map_wf (au_authorized a)" "map_of (au_calls a) n = None" "n \<notin> fst ` set (au_answers a)"
    and "rc_byRefresh v now (au_records a) = None"
    and "retiring = rc_retiring (ae_digest env v) now (au_records a)" "length ts = length retiring"
    and "b = foldl (au_step env) a ((fr, now, EvRefresh n v from) # resumes fr n ts)"
  shows "(\<forall>(k, f) \<in> set retiring.
            k \<notin> fst ` set (rc_families (au_records b)) \<and> (\<forall>c h. map_of (au_authorized b) c = Some h \<longrightarrow> ac_user h \<noteq> tf_user f))
    \<and> set (rc_families (au_records b)) \<subseteq> set (rc_families (au_records a))
    \<and> (\<forall>(k, f) \<in> set (rc_families (au_records a)). k \<notin> fst ` set retiring \<and> (\<forall>t \<in> set (now # ts). t < tk_expires_at (tf_refresh f))
         \<longrightarrow> (k, f) \<in> set (rc_families (au_records b)))
    \<and> (\<forall>c. map_of (au_authorized b) c
         = (case map_of (au_authorized a) c of Some h \<Rightarrow> if ac_user h \<in> (tf_user \<circ> snd) ` set retiring then None else Some h | None \<Rightarrow> None))
    \<and> au_answers b = au_answers a @ [(n, Declined ''auth_invalid'')]"
proof -
  let ?ks = "map (\<lambda>(k, f). (k, tf_user f)) retiring"
  have b: "b = foldl (au_step env) (fail_over env now n ?ks a) (resumes fr n ts)"
    unfolding assms(6,8) using start_refresh [OF assms(3,4)] assms(5) by (simp add: au_refreshToken_def)
  have len: "length ts = length ?ks" using assms(7) by simp
  have ks: "fst ` set ?ks = fst ` set retiring" "snd ` set ?ks = (tf_user \<circ> snd) ` set retiring" by force+
  note r = fail_over_runs [OF assms(1,2) len, of env now n fr, folded b, unfolded Let_def ks]
  have wf: "rc_wf (au_records b)" using r by (rule conjunct1)
  have sub: "family_at (au_records b) k = Some f \<Longrightarrow> family_at (au_records a) k = Some f" for k f using r by blast
  have rest: "family_at (au_records a) k = Some f \<Longrightarrow> k \<notin> fst ` set retiring \<Longrightarrow> \<forall>t \<in> set (now # ts). t < tk_expires_at (tf_refresh f)
      \<Longrightarrow> family_at (au_records b) k = Some f" for k f using r by blast
  have "\<forall>(k, u) \<in> set ?ks. family_at (au_records b) k = None \<and> (\<forall>c h. map_of (au_authorized b) c = Some h \<longrightarrow> ac_user h \<noteq> u)"
    using r by blast
  then have gone: "(k, f) \<in> set retiring \<Longrightarrow>
      family_at (au_records b) k = None \<and> (\<forall>c h. map_of (au_authorized b) c = Some h \<longrightarrow> ac_user h \<noteq> tf_user f)" for k f by auto
  have conns: "map_of (au_authorized b) c = Some h \<Longrightarrow> map_of (au_authorized a) c = Some h"
      "map_of (au_authorized a) c = Some h \<Longrightarrow> ac_user h \<notin> (tf_user \<circ> snd) ` set retiring \<Longrightarrow> map_of (au_authorized b) c = Some h" for c h
    using r by blast+
  have ans: "au_answers b = au_answers a @ [(n, Declined ''auth_invalid'')]" using r by blast
  note fa = families_at [OF wf] families_at [OF assms(1)]
  have "k \<notin> fst ` set (rc_families (au_records b))" if "(k, f) \<in> set retiring" for k f
    using gone [OF that] fa(1) by force
  then have 1: "\<forall>(k, f) \<in> set retiring. k \<notin> fst ` set (rc_families (au_records b))
      \<and> (\<forall>c h. map_of (au_authorized b) c = Some h \<longrightarrow> ac_user h \<noteq> tf_user f)" using gone by blast
  have 2: "set (rc_families (au_records b)) \<subseteq> set (rc_families (au_records a))" using sub fa by auto
  have 3: "\<forall>(k, f) \<in> set (rc_families (au_records a)). k \<notin> fst ` set retiring \<and> (\<forall>t \<in> set (now # ts). t < tk_expires_at (tf_refresh f))
      \<longrightarrow> (k, f) \<in> set (rc_families (au_records b))" using rest fa by blast
  have 4: "map_of (au_authorized b) c
      = (case map_of (au_authorized a) c of Some h \<Rightarrow> if ac_user h \<in> (tf_user \<circ> snd) ` set retiring then None else Some h | None \<Rightarrow> None)" for c
  proof (cases "map_of (au_authorized b) c")
    case None
    then show ?thesis using conns(2) [of c] by (auto split: option.splits)
  next
    case (Some h)
    then show ?thesis using conns(1) [OF Some] gone by force
  qed
  show ?thesis using 1 2 3 4 ans by (intro conjI allI)
qed

definition replayed_owner :: "auth_record list" where
  "replayed_owner =
     [\<lparr>ar_key = ''ownership/i/u/g'', ar_updated_at = 1, ar_body = OwnershipBody \<lparr>ow_user = ''u'', ow_instance = ''i'', ow_grant = ''g'', ow_granted_at = 1, ow_granted_by = None\<rparr>\<rparr>,
      \<lparr>ar_key = ''family/f'', ar_updated_at = 1, ar_body = FamilyBody
        \<lparr>tf_user = ''u'', tf_iss = ''i'', tf_origin = ''o'', tf_access = \<lparr>tk_value = ''a'', tk_expires_at = 1000\<rparr>,
         tf_refresh = \<lparr>tk_value = ''r'', tk_expires_at = 9000\<rparr>, tf_previous_refresh = None, tf_retired = [(''#q'', 8000)], tf_last_refresh = None\<rparr>\<rparr>]"

definition page :: came where
  "page = \<lparr>cf_ip = None, cf_user_agent = None, cf_origin = Header ''o'', cf_reason = None\<rparr>"

theorem replay_ends_the_family_witness:
  "let a = foldl (au_step keyed_env) (Auth (AuthRecords checked_keys 2 (Some replayed_owner))) opened_evs;
       b = foldl (au_step keyed_env) a ((example_fresh CHR ''2'', 20, EvRefresh 0 ''q'' page) # resumes (example_fresh CHR ''2'') 0 [21])
   in map_keys (au_authorized a) = [7] \<and> au_closed b = [7] \<and> ''family/f'' \<notin> fst ` set (rc_families (au_records b))
      \<and> au_answers b = [(0, Declined ''auth_invalid'')]"
proof -
  let ?a = "foldl (au_step keyed_env) (Auth (AuthRecords checked_keys 2 (Some replayed_owner))) opened_evs"
  let ?b = "foldl (au_step keyed_env) ?a ((example_fresh CHR ''2'', 20, EvRefresh 0 ''q'' page) # resumes (example_fresh CHR ''2'') 0 [21])"
  have wf: "rc_wf (au_records ?a)" "map_wf (au_authorized ?a)"
    using footingD(1,2) [OF footing_runs [of keyed_env 2 "Some replayed_owner" opened_evs]] checked_ownership_keys
    by (simp_all add: keyed_env_def own_named_def)
  have s: "au_calls ?a = []" "au_answers ?a = []" "rc_byRefresh ''q'' 20 (au_records ?a) = None"
    "map fst (rc_retiring (ae_digest keyed_env ''q'') 20 (au_records ?a)) = [''family/f'']" by code_simp+
  have len: "length [21::int] = length (rc_retiring (ae_digest keyed_env ''q'') 20 (au_records ?a))"
    using arg_cong [OF s(4), of length] by simp
  obtain f where f: "rc_retiring (ae_digest keyed_env ''q'') 20 (au_records ?a) = [(''family/f'', f)]" using s(4) by auto
  have "''family/f'' \<notin> fst ` set (rc_families (au_records ?b)) \<and> au_answers ?b = [(0, Declined ''auth_invalid'')]"
    using replay_ends_the_family [OF wf _ _ s(3) refl len refl, of 0 "example_fresh CHR ''2''" page] s(1,2) unfolding f by simp
  moreover have "map_keys (au_authorized ?a) = [7]" "au_closed ?b = [7]" by code_simp+
  ultimately show ?thesis unfolding Let_def by blast
qed

section \<open>A rotation and its lost reply\<close>

text \<open>Whether a value is one a family stands on, and which.\<close>

definition stands_on :: "string \<Rightarrow> token_family \<Rightarrow> bool" where
  "stands_on v f \<longleftrightarrow> tk_value (tf_refresh f) = v \<or> (\<exists>t. tf_previous_refresh f = Some t \<and> tk_value t = v)"

lemma by_refresh_skip: "\<forall>(k, f) \<in> set fs. \<not> stands_on v f \<Longrightarrow> by_refresh v now fs = None"
  by (induction v now fs rule: by_refresh.induct) (auto simp: stands_on_def split: option.splits)

lemma by_refresh_only:
  assumes "(k, f) \<in> set fs" "distinct (map fst fs)" "\<forall>(k', f') \<in> set fs. k' \<noteq> k \<longrightarrow> \<not> stands_on v f'"
  shows "by_refresh v now fs = by_refresh v now [(k, f)]"
  using assms
proof (induction fs)
  case (Cons e fs)
  obtain k0 f0 where e: "e = (k0, f0)" by (cases e)
  show ?case
  proof (cases "k0 = k")
    case True
    then have "f0 = f" using Cons.prems(1,2) by (force simp: e)
    moreover have "by_refresh v now fs = None" using Cons.prems(2,3) True by (intro by_refresh_skip) (force simp: e)
    ultimately show ?thesis by (simp add: e True split: option.splits)
  next
    case False
    then have "\<not> stands_on v f0" using Cons.prems(3) by (simp add: e)
    moreover have "by_refresh v now fs = by_refresh v now [(k, f)]" using Cons False by (intro Cons.IH) (auto simp: e)
    ultimately show ?thesis by (auto simp: e stands_on_def split: option.splits)
  qed
qed simp

lemma byRefresh_at:
  assumes "rc_wf s" "family_at s k = Some f" "\<And>k' f'. family_at s k' = Some f' \<Longrightarrow> k' \<noteq> k \<Longrightarrow> \<not> stands_on v f'"
  shows "rc_byRefresh v now s = by_refresh v now [(k, f)]"
  unfolding rc_byRefresh_def
  by (rule by_refresh_only [OF _ families_distinct [OF assms(1)]]) (use assms families_at [OF assms(1)] in auto)

lemma rotated_fields [simp]:
  "tf_user (rotated env fr now from f) = tf_user f" "tf_origin (rotated env fr now from f) = tf_origin f"
  "tf_refresh (rotated env fr now from f) = \<lparr>tk_value = fr_refresh fr, tk_expires_at = now + REFRESH_TTL_MS\<rparr>"
  "tf_previous_refresh (rotated env fr now from f) = Some \<lparr>tk_value = tk_value (tf_refresh f), tk_expires_at = now + PREVIOUS_GRACE_MS\<rparr>"
  "tf_retired (rotated env fr now from f) = retire env f now"
  by (simp_all add: rotated_def)

lemma resume_refresh:
  "au_step env (await n (RefreshWrite r) a) (fr, t, EvResume n (Landed True)) = finish n (minted_from r) (await n (RefreshWrite r) a)"
  by (simp add: au_step_def au_resume_def await_def resume_written_def)

lemma family_write:
  assumes "rc_wf s" "family_at s k = Some f" "now < tk_expires_at (tf_refresh f')"
    and "problems \<lparr>ar_key = k, ar_updated_at = stamp_past now (map_of (rc_records s) k), ar_body = FamilyBody f'\<rparr> = []"
  shows "\<exists>s'. rc_write problems k (FamilyBody f') now now s = (Inr True, s') \<and> rc_wf s' \<and> family_at s' k = Some f'
    \<and> (\<forall>k' g. k' \<noteq> k \<longrightarrow> family_at s' k' = Some g \<longrightarrow> family_at s k' = Some g) \<and> (\<forall>u i. rc_owns s u i \<longrightarrow> rc_owns s' u i)"
proof -
  obtain r where r: "map_of (rc_records s) k = Some r" "ar_body r = FamilyBody f" using assms(2) by (auto simp: family_at_iff)
  let ?r = "\<lparr>ar_key = k, ar_updated_at = stamp_past now (Some r), ar_body = FamilyBody f'\<rparr>"
  let ?s = "s\<lparr>rc_records := map_set k ?r (rc_records s)\<rparr>"
  let ?s' = "rc_keep now [?r] (Some [?r]) ?s"
  have acc: "rc_accept problems ?r s = (True, ?s)" using r assms(4) by (simp add: rc_accept_def admits_record_def stamp_past_def)
  have wf: "rc_wf ?s" by (rule rc_wf_set [OF assms(1)]) simp
  have at: "family_at ?s k' = (if k' = k then Some f' else family_at s k')" for k' by (simp add: family_at_def)
  have wf': "rc_wf ?s'" by (rule rc_keep_wf [OF wf])
  have "own_at ?s' k' = own_at s k'" for k'
    using own_at_expire [OF wf, of now k'] r by (auto simp: own_at_def rc_keep_view)
  then have "rc_owns ?s' u i" if "rc_owns s u i" for u i using that unfolding rc_owns_at [OF wf'] rc_owns_at [OF assms(1)] by simp
  moreover have "family_at ?s' k = Some f'" using family_keep [OF wf, of now "[?r]" "Some [?r]" k] assms(3) by (simp add: at)
  moreover have "family_at s k' = Some g" if "k' \<noteq> k" "family_at ?s' k' = Some g" for k' g
    using family_keep [OF wf, of now "[?r]" "Some [?r]" k'] that by (auto simp: at split: option.splits if_splits)
  moreover have "rc_write problems k (FamilyBody f') now now s = (Inr True, ?s')"
    using acc assms(4) r(1) by (simp add: rc_write_def Let_def)
  ultimately show ?thesis using wf' by blast
qed

text \<open>
  C33: a rotation, its lost reply and its replay. A family's standing refresh token, presented from the
  family's page to an instance its person owns, is answered with a new one, provided that the one
  record the rotation writes passes the contract's validator (a write it refuses fails the call) and
  that the line lands; the access token is kept while half its life is left. Afterwards the new value
  stands; the old one, while the grace lasts, is answered with the same pair again and changes nothing,
  so that a lost reply costs nothing; and after the grace, until it would have run out, it is recognised
  as this family's and no longer stands.
  (Random values do not repeat.)
\<close>

theorem refresh_rotates:
  assumes "rc_wf (au_records a)" "rc_byRefresh v now (au_records a) = Some (k, f, False)"
    and "cameFrom (tf_origin f) (cf_origin from)" "rc_owns (au_records a) (tf_user f) (ae_self env)"
    and "ae_problems env \<lparr>ar_key = k, ar_updated_at = stamp_past now (map_of (rc_records (au_records a)) k), ar_body = FamilyBody r\<rparr> = []"
    and "\<And>k' f'. (k', f') \<in> set (rc_families (au_records a)) \<Longrightarrow> k' \<noteq> k \<Longrightarrow> \<not> stands_on v f' \<and> \<not> stands_on (fr_refresh fr) f'"
    and "fr_refresh fr \<noteq> v" "map_of (au_calls a) n = None" "n \<notin> fst ` set (au_answers a)"
    and "b = foldl (au_step env) a [(fr, now, EvRefresh n v from), (fr1, t, EvResume n (Landed True))]"
    and "r = rotated env fr now from f"
  shows "au_answers b = au_answers a @ [(n, minted_from r)]
    \<and> (tk_expires_at (tf_access f) - now \<ge> ACCESS_KEEP_MS \<longrightarrow> tf_access r = tf_access f)
    \<and> (\<forall>t1. t1 < now + REFRESH_TTL_MS \<longrightarrow> rc_byRefresh (fr_refresh fr) t1 (au_records b) = Some (k, r, False))
    \<and> (\<forall>t1 fr2 m from2. t1 < now + PREVIOUS_GRACE_MS \<longrightarrow> map_of (au_calls b) m = None \<longrightarrow> m \<notin> fst ` set (au_answers b)
         \<longrightarrow> cameFrom (tf_origin f) (cf_origin from2)
         \<longrightarrow> au_step env b (fr2, t1, EvRefresh m v from2) = finish m (minted_from r) b)
    \<and> (\<forall>t1. now + PREVIOUS_GRACE_MS \<le> t1 \<longrightarrow> t1 < tk_expires_at (tf_refresh f) \<longrightarrow>
         rc_byRefresh v t1 (au_records b) = None \<and> (k, r) \<in> set (rc_retiring (ae_digest env v) t1 (au_records b)))"
proof -
  have mem: "(k, f) \<in> set (rc_families (au_records a))" using assms(2) by_refresh_mem unfolding rc_byRefresh_def by blast
  then have at: "family_at (au_records a) k = Some f" using families_at [OF assms(1)] by blast
  have un: "\<not> stands_on v f' \<and> \<not> stands_on (fr_refresh fr) f'" if "family_at (au_records a) k' = Some f'" "k' \<noteq> k" for k' f'
    using assms(6) families_at [OF assms(1)] that by blast
  have "rc_byRefresh v now (au_records a) = by_refresh v now [(k, f)]" by (rule byRefresh_at [OF assms(1) at]) (use un in blast)
  then have vf: "tk_value (tf_refresh f) = v" "now < tk_expires_at (tf_refresh f)" using assms(2) by (auto split: if_splits option.splits)
  have "now < tk_expires_at (tf_refresh r)" by (simp add: assms(11) REFRESH_TTL_MS_def)
  from family_write [where problems = "ae_problems env", OF assms(1) at this assms(5)] obtain s' where w: "rc_write (ae_problems env) k (FamilyBody r) now now (au_records a) = (Inr True, s')"
    "rc_wf s'" "family_at s' k = Some r" "\<And>k' g. k' \<noteq> k \<Longrightarrow> family_at s' k' = Some g \<Longrightarrow> family_at (au_records a) k' = Some g"
    "\<And>u i. rc_owns (au_records a) u i \<Longrightarrow> rc_owns s' u i" by (elim exE conjE) simp
  have "au_step env a (fr, now, EvRefresh n v from) = await n (RefreshWrite r) (a\<lparr>au_records := s'\<rparr>)"
    using w(1) by (simp add: start_refresh [OF assms(8,9)] au_refreshToken_def assms(2,3,4) au_write_def Let_def assms(11) [symmetric])
  then have b: "b = finish n (minted_from r) (await n (RefreshWrite r) (a\<lparr>au_records := s'\<rparr>))"
    by (simp add: assms(10) resume_refresh)
  then have recs: "au_records b = s'" and ans: "au_answers b = au_answers a @ [(n, minted_from r)]" by (simp_all add: finish_def await_def)
  have un': "\<not> stands_on v f' \<and> \<not> stands_on (fr_refresh fr) f'" if "family_at s' k' = Some f'" "k' \<noteq> k" for k' f'
    using un w(4) that by blast
  have names: "rc_byRefresh x t1 s' = by_refresh x t1 [(k, r)]" if "x = v \<or> x = fr_refresh fr" for x t1
    by (rule byRefresh_at [OF w(2,3)]) (use un' that in blast)
  have prev: "tf_previous_refresh r = Some \<lparr>tk_value = v, tk_expires_at = now + PREVIOUS_GRACE_MS\<rparr>"
    "tf_refresh r = \<lparr>tk_value = fr_refresh fr, tk_expires_at = now + REFRESH_TTL_MS\<rparr>" "tf_origin r = tf_origin f" "tf_user r = tf_user f"
    "(ae_digest env v, tk_expires_at (tf_refresh f)) \<in> set (tf_retired r)"
    by (simp_all add: assms(11) vf retire_def)
  have 1: "rc_byRefresh (fr_refresh fr) t1 s' = Some (k, r, False)" if "t1 < now + REFRESH_TTL_MS" for t1
    using names [of "fr_refresh fr" t1] that by (simp add: prev)
  have 2: "rc_byRefresh v t1 s' = (if t1 < now + PREVIOUS_GRACE_MS then Some (k, r, True) else None)" for t1
    using names [of v t1] assms(7) by (simp add: prev)
  have 3: "au_step env b (fr2, t1, EvRefresh m v from2) = finish m (minted_from r) b"
    if "t1 < now + PREVIOUS_GRACE_MS" "map_of (au_calls b) m = None" "m \<notin> fst ` set (au_answers b)" "cameFrom (tf_origin f) (cf_origin from2)" for t1 fr2 m from2
    using start_refresh [OF that(2,3)] 2 [of t1] that(1,4) w(5) [OF assms(4)] by (simp add: au_refreshToken_def recs prev)
  have "(k, r) \<in> set (rc_retiring (ae_digest env v) t1 s')" if "t1 < tk_expires_at (tf_refresh f)" for t1
    using families_at [OF w(2)] w(3) prev(5) that by (force simp: rc_retiring_def list_ex_iff)
  moreover have "tk_expires_at (tf_access f) - now \<ge> ACCESS_KEEP_MS \<longrightarrow> tf_access r = tf_access f" by (simp add: assms(11) rotated_def)
  ultimately show ?thesis using ans 1 2 3 unfolding recs by simp
qed

theorem refresh_rotates_witness:
  "let a = Auth (AuthRecords (\<lambda>_. []) 2 (Some example_owner));
       b = foldl (au_step example_env) a [(example_fresh CHR ''2'', 20, EvRefresh 0 ''r'' page), (example_fresh CHR ''3'', 21, EvResume 0 (Landed True))];
       c = au_step example_env b (example_fresh CHR ''4'', 22, EvRefresh 1 ''r'' page)
   in map_option (\<lambda>(k, f, p). (k, tf_refresh f, p)) (rc_byRefresh ''r2'' 30 (au_records b)) = Some (''family/f'', \<lparr>tk_value = ''r2'', tk_expires_at = 20 + REFRESH_TTL_MS\<rparr>, False)
      \<and> map snd (au_answers c) = [snd (hd (au_answers b)), snd (hd (au_answers b))] \<and> au_records c = au_records b"
proof -
  let ?a = "Auth (AuthRecords (\<lambda>_. []) 2 (Some example_owner))"
  let ?b = "foldl (au_step example_env) ?a [(example_fresh CHR ''2'', 20, EvRefresh 0 ''r'' page), (example_fresh CHR ''3'', 21, EvResume 0 (Landed True))]"
  let ?f = "\<lparr>tf_user = ''u'', tf_iss = ''i'', tf_origin = ''o'', tf_access = \<lparr>tk_value = ''a'', tk_expires_at = 1000\<rparr>,
         tf_refresh = \<lparr>tk_value = ''r'', tk_expires_at = 9000\<rparr>, tf_previous_refresh = None, tf_retired = [], tf_last_refresh = None\<rparr>"
  let ?r = "rotated example_env (example_fresh CHR ''2'') 20 page ?f"
  have fam: "rc_families (au_records ?a) = [(''family/f'', ?f)]" and names: "rc_byRefresh ''r'' 20 (au_records ?a) = Some (''family/f'', ?f, False)"
    and own: "rc_owns (au_records ?a) (tf_user ?f) (ae_self example_env)" and cf: "cameFrom (tf_origin ?f) (cf_origin page)"
    and fr: "fr_refresh (example_fresh CHR ''2'') = ''r2''" by code_simp+
  have wf: "rc_wf (au_records ?a)"
  proof -
    have "map_wf (rc_records (au_records ?a))" "list_all (\<lambda>(k, r). ar_key r = k) (rc_records (au_records ?a))" by code_simp+
    then show ?thesis unfolding rc_wf_def by (auto simp: list_all_iff dest: map_of_SomeD)
  qed
  have p: "ae_problems example_env x = []" for x by (simp add: example_env_def)
  note th = refresh_rotates [OF wf names cf own p, of "example_fresh CHR ''2''" 0 ?b "example_fresh CHR ''3''" 21 ?r]
  have calls: "map_of (au_calls ?a) 0 = None" "0 \<notin> fst ` set (au_answers ?a)" "map_of (au_calls ?b) 1 = None" "map fst (au_answers ?b) = [0]"
    by code_simp+
  have 1: "(1::nat) \<notin> fst ` set (au_answers ?b)" using calls(4) by (metis list.set_map list.simps(15) empty_set singletonD zero_neq_one)
  have main: "au_answers ?b = [(0, minted_from ?r)]"
    "rc_byRefresh ''r2'' 30 (au_records ?b) = Some (''family/f'', ?r, False)"
    "au_step example_env ?b (example_fresh CHR ''4'', 22, EvRefresh 1 ''r'' page) = finish 1 (minted_from ?r) ?b"
  proof -
    have "au_answers ?a = []" by (simp add: Auth_def)
    then show "au_answers ?b = [(0, minted_from ?r)]" using th calls(1,2) by (simp add: fam fr)
    show "rc_byRefresh ''r2'' 30 (au_records ?b) = Some (''family/f'', ?r, False)"
      using th calls(1,2) by (simp add: fam fr REFRESH_TTL_MS_def)
    show "au_step example_env ?b (example_fresh CHR ''4'', 22, EvRefresh 1 ''r'' page) = finish 1 (minted_from ?r) ?b"
      using th calls(1-3) 1 cf by (simp add: fam fr PREVIOUS_GRACE_MS_def)
  qed
  show ?thesis unfolding Let_def main(3) using main(1,2) by (simp add: finish_def fr)
qed

end
