(* ===== verification/Containment.thy ===== *)
theory Containment
  imports Dispatch
begin

text \<open>
  \<open>src/files/containment.ts\<close>: which path an op may reach, decided in one place.

  The path functions of the runtime (\<open>resolve\<close>, \<open>join\<close>, \<open>dirname\<close>, \<open>basename\<close>, \<open>isAbsolute\<close>, with \<open>/\<close>
  as the separator) are modelled on the segments of a path. What the file system calls a path
  (\<open>realpath\<close>, \<open>None\<close> where it fails) and the working directory of the process are arguments; what is
  relied on about \<open>realpath\<close> is \<open>realpath_laws\<close>. The allowlists a session states arrive as \<open>roots\<close>.
\<close>

section \<open>Paths\<close>

fun split_on :: "char \<Rightarrow> string \<Rightarrow> string list" where
  "split_on c [] = [[]]"
| "split_on c (x # xs) =
     (if x = c then [] # split_on c xs
      else case split_on c xs of [] \<Rightarrow> [[x]] | w # ws \<Rightarrow> (x # w) # ws)"

definition sep :: char where "sep = CHR ''/''"

text \<open>The segments that name something, with \<open>.\<close> and \<open>..\<close> worked off; above the root there is
  nothing to go up to.\<close>

fun push_segment :: "string list \<Rightarrow> string \<Rightarrow> string list" where
  "push_segment done s =
     (if s = [] \<or> s = ''.'' then done else if s = ''..'' then butlast done else done @ [s])"

definition segments :: "string \<Rightarrow> string list" where
  "segments p = foldl push_segment [] (split_on sep p)"

fun path_of :: "string list \<Rightarrow> string" where
  "path_of [] = ''/''"
| "path_of [s] = sep # s"
| "path_of (s # ss) = sep # s @ path_of ss"

definition isAbsolute :: "string \<Rightarrow> bool" where
  "isAbsolute p \<longleftrightarrow> p \<noteq> [] \<and> hd p = sep"

definition resolve1 :: "string \<Rightarrow> string \<Rightarrow> string" where
  "resolve1 cwd p = path_of (segments (if isAbsolute p then p else cwd @ [sep] @ p))"

definition resolve2 :: "string \<Rightarrow> string \<Rightarrow> string \<Rightarrow> string" where
  "resolve2 cwd base p = (if isAbsolute p then resolve1 cwd p else resolve1 cwd (base @ [sep] @ p))"

definition dirname :: "string \<Rightarrow> string" where
  "dirname p = path_of (butlast (segments p))"

definition basename :: "string \<Rightarrow> string" where
  "basename p = (if segments p = [] then [] else last (segments p))"

definition path_join :: "string \<Rightarrow> string \<Rightarrow> string" where
  "path_join a b = path_of (segments (a @ [sep] @ b))"

definition starts_with :: "string \<Rightarrow> string \<Rightarrow> bool" where
  "starts_with prefix s \<longleftrightarrow> take (length prefix) s = prefix"

definition ends_with :: "string \<Rightarrow> string \<Rightarrow> bool" where
  "ends_with suffix s \<longleftrightarrow> length suffix \<le> length s \<and> drop (length s - length suffix) s = suffix"

section \<open>The decision\<close>

datatype file_kind = Contained | Workspace | External

fun kind_name :: "file_kind \<Rightarrow> string" where
  "kind_name Contained = ''contained''"
| "kind_name Workspace = ''workspace''"
| "kind_name External = ''external''"

record session_roots =
  sr_root :: "string option"
  sr_cwd :: "string option"
  sr_workspace_folders :: "string list"
  sr_external_files :: "string list"

record located =
  lc_kind :: file_kind
  lc_real :: string
  lc_path :: string
  lc_named :: string

record viewer =
  vw_role :: "role option"
  vw_sid :: "sid option"

record path_args =
  pa_sid :: sid
  pa_kind :: file_kind
  pa_path :: string

text \<open>What the decision reads: the process's working directory, what the file system calls a path,
  and what each session states.\<close>

record path_world =
  pw_cwd :: string
  pw_realpath :: "string \<Rightarrow> string option"
  pw_roots :: "sid \<Rightarrow> session_roots option"

definition sees :: "sid \<Rightarrow> viewer \<Rightarrow> bool" where
  "sees sid v =
     (case vw_role v of
        None \<Rightarrow> True
      | Some User \<Rightarrow> True
      | Some Session \<Rightarrow> vw_sid v = Some sid
      | Some Instance \<Rightarrow> False)"

definition canonical :: "path_world \<Rightarrow> string \<Rightarrow> string" where
  "canonical w p =
     (let absolute = resolve1 (pw_cwd w) p in
      case pw_realpath w absolute of
        Some r \<Rightarrow> r
      | None \<Rightarrow>
          let parent = dirname absolute in
          if parent = absolute then absolute
          else case pw_realpath w parent of
            Some r \<Rightarrow> path_join r (basename absolute)
          | None \<Rightarrow> absolute)"

definition within :: "string \<Rightarrow> string \<Rightarrow> bool" where
  "within p root \<longleftrightarrow> p = root \<or> starts_with (if ends_with [sep] root then root else root @ [sep]) p"

definition relativeTo :: "string \<Rightarrow> string \<Rightarrow> string" where
  "relativeTo root real = (if real = root then [] else drop (length root + 1) real)"

definition INBOX_DIR :: string where
  "INBOX_DIR = ''docs/inbox''"

definition KINDS :: "file_kind list" where
  "KINDS = [Contained, Workspace, External]"

definition rootsFor :: "path_world \<Rightarrow> sid \<Rightarrow> viewer \<Rightarrow> op_error + session_roots" where
  "rootsFor w sid v =
     (if \<not> sees sid v then
        Inl (''path_forbidden'', ''the files of '' @ sid @ '' are outside this connection's range'')
      else case pw_roots w sid of
        None \<Rightarrow> Inl (''path_forbidden'', ''nothing is known about the files of '' @ sid)
      | Some roots \<Rightarrow> Inr roots)"

definition absolute_of :: "path_world \<Rightarrow> path_args \<Rightarrow> session_roots \<Rightarrow> op_error + string" where
  "absolute_of w args roots =
     (if pa_kind args = Contained then
        (case sr_root roots of
           None \<Rightarrow> Inl (''path_forbidden'', ''this session states no root to be contained by'')
         | Some root \<Rightarrow>
             if \<not> isAbsolute root then Inl (''path_forbidden'', ''this session states no root to be contained by'')
             else Inr (resolve2 (pw_cwd w) (canonical w root) ([CHR ''.'', sep] @ pa_path args)))
      else if \<not> isAbsolute (pa_path args) then
        Inl (''path_forbidden'', ''a '' @ kind_name (pa_kind args) @ '' path is absolute'')
      else Inr (pa_path args))"

definition admit :: "path_world \<Rightarrow> file_kind \<Rightarrow> string \<Rightarrow> session_roots \<Rightarrow> op_error + string" where
  "admit w kind real roots =
     (case kind of
        Contained \<Rightarrow>
          (case sr_root roots of
             None \<Rightarrow> Inl (''path_forbidden'', ''the path is outside the session's root'')
           | Some r \<Rightarrow>
               let root = canonical w r in
               if \<not> within real root then Inl (''path_forbidden'', ''the path is outside the session's root'')
               else Inr (relativeTo root real))
      | Workspace \<Rightarrow>
          if list_ex (\<lambda>folder. within real (canonical w folder)) (sr_workspace_folders roots) then Inr real
          else Inl (''path_forbidden'', ''the path is in no workspace folder of this session'')
      | External \<Rightarrow>
          if list_ex (\<lambda>each. canonical w each = real) (sr_external_files roots) then Inr real
          else Inl (''path_forbidden'', ''the path is not one this session's transcript named''))"

definition locate :: "path_world \<Rightarrow> path_args \<Rightarrow> viewer \<Rightarrow> op_error + located" where
  "locate w args v =
     (case rootsFor w (pa_sid args) v of
        Inl e \<Rightarrow> Inl e
      | Inr roots \<Rightarrow>
          (case absolute_of w args roots of
             Inl e \<Rightarrow> Inl e
           | Inr named \<Rightarrow>
               let real = canonical w named in
               (case admit w (pa_kind args) real roots of
                  Inl e \<Rightarrow> Inl e
                | Inr p \<Rightarrow> Inr \<lparr>lc_kind = pa_kind args, lc_real = real, lc_path = p, lc_named = named\<rparr>)))"

definition identify :: "path_world \<Rightarrow> sid \<Rightarrow> string \<Rightarrow> viewer \<Rightarrow> located option" where
  "identify w sid p v =
     (case rootsFor w sid v of
        Inl e \<Rightarrow> None
      | Inr roots \<Rightarrow>
          if \<not> isAbsolute p then None
          else let named = resolve1 (pw_cwd w) p; real = canonical w named in
            map_option (\<lambda>(kind, q). \<lparr>lc_kind = kind, lc_real = real, lc_path = q, lc_named = named\<rparr>)
              (find (\<lambda>_. True)
                (concat (map (\<lambda>kind. case admit w kind real roots of Inl e \<Rightarrow> [] | Inr q \<Rightarrow> [(kind, q)]) KINDS))))"

definition inbox_path :: "path_world \<Rightarrow> sid \<Rightarrow> string \<Rightarrow> viewer \<Rightarrow> op_error + located" where
  "inbox_path w sid p v =
     (case rootsFor w sid v of
        Inl e \<Rightarrow> Inl e
      | Inr roots \<Rightarrow>
          let none = Inl (''path_forbidden'', sid @ '' states no working directory to write into'') in
          (case sr_cwd roots of
             None \<Rightarrow> none
           | Some cwd \<Rightarrow>
               if \<not> isAbsolute cwd then none
               else
                 let base = canonical w cwd;
                     named = resolve2 (pw_cwd w) base p;
                     real = canonical w named;
                     inbox = path_join base INBOX_DIR
                 in if \<not> within real inbox then
                      Inl (''path_not_writable'', ''only '' @ INBOX_DIR @ ''/ takes a written file'')
                    else Inr \<lparr>lc_kind = Contained, lc_real = real, lc_path = relativeTo base real, lc_named = named\<rparr>))"

definition dir_root :: "path_world \<Rightarrow> sid \<Rightarrow> file_kind \<Rightarrow> string option \<Rightarrow> viewer \<Rightarrow> op_error + located" where
  "dir_root w sid kind p v =
     locate w \<lparr>pa_sid = sid, pa_kind = kind, pa_path = (case p of None \<Rightarrow> [] | Some q \<Rightarrow> q)\<rparr> v"

section \<open>Paths and their segments\<close>

text \<open>A segment that names something.\<close>

definition proper :: "string \<Rightarrow> bool" where
  "proper s \<longleftrightarrow> s \<noteq> [] \<and> s \<noteq> ''.'' \<and> s \<noteq> ''..'' \<and> sep \<notin> set s"

definition normal :: "string \<Rightarrow> bool" where
  "normal p \<longleftrightarrow> (\<exists>ss. list_all proper ss \<and> p = path_of ss)"

lemma split_on_no: "c \<notin> set s \<Longrightarrow> split_on c s = [s]"
  by (induction s) auto

lemma split_on_append: "c \<notin> set s \<Longrightarrow> split_on c (s @ c # rest) = s # split_on c rest"
  by (induction s) auto

lemma split_on_pieces: "x \<in> set (split_on c p) \<Longrightarrow> c \<notin> set x"
proof (induction p arbitrary: x)
  case (Cons y p)
  have ne: "split_on c p \<noteq> []" by (cases p) (auto split: list.splits)
  then obtain w ws where s: "split_on c p = w # ws" by (cases "split_on c p") auto
  with Cons show ?case by (auto split: if_splits)
qed simp

lemma path_of_eq: "ss \<noteq> [] \<Longrightarrow> path_of ss = concat (map (\<lambda>s. sep # s) ss)"
  by (induction ss rule: path_of.induct) auto

lemma split_concat:
  "list_all (\<lambda>s. sep \<notin> set s) ss \<Longrightarrow> ss \<noteq> [] \<Longrightarrow> split_on sep (concat (map (\<lambda>s. sep # s) ss)) = [] # ss"
proof (induction ss)
  case (Cons s ss)
  show ?case
  proof (cases "ss = []")
    case True
    with Cons.prems show ?thesis by (simp add: split_on_no)
  next
    case False
    then obtain t ts where "ss = t # ts" by (cases ss) auto
    with Cons show ?thesis by (simp add: split_on_append)
  qed
qed simp

lemma split_on_nonempty: "split_on c p \<noteq> []"
  by (cases p) (auto split: list.splits)

lemma split_concat_more:
  "list_all (\<lambda>s. sep \<notin> set s) ss \<Longrightarrow> ss \<noteq> [] \<Longrightarrow>
   split_on sep (concat (map (\<lambda>s. sep # s) ss) @ sep # t) = [] # ss @ split_on sep t"
proof (induction ss)
  case (Cons s ss)
  show ?case
  proof (cases "ss = []")
    case True
    with Cons.prems show ?thesis by (simp add: split_on_append)
  next
    case False
    then obtain u us where "ss = u # us" by (cases ss) auto
    with Cons show ?thesis by (simp add: split_on_append)
  qed
qed simp

lemma push_proper: "list_all proper ss \<Longrightarrow> foldl push_segment acc ss = acc @ ss"
  by (induction ss arbitrary: acc) (auto simp: proper_def)

lemma segments_path_of: "list_all proper ss \<Longrightarrow> segments (path_of ss) = ss"
proof (cases "ss = []")
  case True
  then show ?thesis by (simp add: segments_def sep_def)
next
  case False
  assume p: "list_all proper ss"
  then have "list_all (\<lambda>s. sep \<notin> set s) ss" by (auto simp: proper_def list_all_iff)
  from split_concat [OF this False] show ?thesis
    by (simp add: segments_def path_of_eq [OF False] push_proper [OF p])
qed

lemma segments_proper: "list_all proper (segments p)"
proof -
  have "list_all proper acc \<Longrightarrow> \<forall>x \<in> set xs. sep \<notin> set x \<Longrightarrow> list_all proper (foldl push_segment acc xs)" for acc xs
  proof (induction xs arbitrary: acc)
    case (Cons x xs)
    have "list_all proper (butlast acc)" using Cons.prems(1) by (auto simp: list_all_iff dest: in_set_butlastD)
    moreover have "list_all proper (acc @ [x])" if "x \<noteq> []" "x \<noteq> ''.''" "x \<noteq> ''..''"
      using Cons.prems that by (auto simp: list_all_iff proper_def)
    ultimately show ?case using Cons by simp
  qed simp
  note go = this
  show ?thesis unfolding segments_def by (rule go) (auto dest: split_on_pieces)
qed

lemma path_of_inject: "list_all proper a \<Longrightarrow> list_all proper b \<Longrightarrow> path_of a = path_of b \<longleftrightarrow> a = b"
  by (metis segments_path_of)

lemma normal_resolve: "normal (resolve1 cwd p)"
  unfolding normal_def resolve1_def using segments_proper by blast

lemma normal_path_of: "normal p \<Longrightarrow> path_of (segments p) = p"
  by (auto simp: normal_def segments_path_of)

lemma no_trailing_sep:
  assumes "normal root" "segments root \<noteq> []"
  shows "\<not> ends_with [sep] root"
proof -
  obtain bs l where bl: "segments root = bs @ [l]" using assms(2) by (cases "segments root" rule: rev_cases) auto
  then have l: "proper l" using segments_proper [of root] by simp
  have "root = concat (map (\<lambda>s. sep # s) (bs @ [l]))" using normal_path_of [OF assms(1)] path_of_eq [OF assms(2)] bl by simp
  then have "last root = last l" using l by (simp add: proper_def)
  moreover have "last l \<noteq> sep" using l by (metis last_in_set proper_def)
  ultimately have "last root \<noteq> sep" by simp
  then show ?thesis by (metis append_take_drop_id ends_with_def last_snoc)
qed

text \<open>On paths as the file system states them, \<open>within\<close> is being below: the segments of the root
  come first.\<close>

lemma within_segments:
  assumes "normal p" "normal root"
  shows "within p root \<longleftrightarrow> take (length (segments root)) (segments p) = segments root"
proof -
  define a b where "a = segments p" and "b = segments root"
  have a: "list_all proper a" "p = path_of a" and b: "list_all proper b" "root = path_of b"
    using assms normal_path_of segments_proper by (auto simp: a_def b_def)
  let ?c = "\<lambda>ss. concat (map (\<lambda>s. sep # s) ss)"
  have na: "list_all (\<lambda>s. sep \<notin> set s) a" and nb: "list_all (\<lambda>s. sep \<notin> set s) b"
    using a(1) b(1) by (auto simp: list_all_iff proper_def)
  show ?thesis
  proof (cases "b = []")
    case True
    have "starts_with ''/'' (path_of a)"
    proof (cases "a = []")
      case False
      then obtain t ts where "a = t # ts" by (cases a) auto
      then show ?thesis by (simp add: path_of_eq starts_with_def sep_def)
    qed (simp add: starts_with_def)
    then have "starts_with ''/'' p" unfolding a(2) .
    moreover have "segments root = []" using True unfolding b_def .
    moreover have "root = ''/''" unfolding b(2) True by simp
    ultimately show ?thesis by (simp add: within_def ends_with_def sep_def)
  next
    case False
    then have r: "root = ?c b" by (simp add: b(2) path_of_eq)
    have e: "\<not> ends_with [sep] root" using no_trailing_sep [OF assms(2)] False unfolding b_def by blast
    have "starts_with (root @ [sep]) p \<longleftrightarrow> (\<exists>t. p = root @ sep # t)"
      by (auto simp: starts_with_def) (metis append.assoc append_Cons append_Nil append_take_drop_id)
    also have "\<dots> \<longleftrightarrow> (\<exists>z. a = b @ z \<and> z \<noteq> [])"
    proof
      assume "\<exists>t. p = root @ sep # t"
      then obtain t where t: "p = ?c b @ sep # t" by (auto simp: r)
      then have "a \<noteq> []" using False by (auto simp: a(2) sep_def) (cases b, auto)+
      then have "split_on sep p = [] # a" using split_concat [OF na] by (simp add: a(2) path_of_eq)
      moreover have "split_on sep p = [] # b @ split_on sep t" unfolding t by (rule split_concat_more [OF nb False])
      moreover have "split_on sep t \<noteq> []" by (rule split_on_nonempty)
      ultimately show "\<exists>z. a = b @ z \<and> z \<noteq> []" by auto
    next
      assume "\<exists>z. a = b @ z \<and> z \<noteq> []"
      then obtain z0 z where "a = b @ z0 # z" by (metis neq_Nil_conv)
      then have "p = root @ sep # (z0 @ ?c z)" by (simp add: a(2) r path_of_eq)
      then show "\<exists>t. p = root @ sep # t" by blast
    qed
    finally have "starts_with (root @ [sep]) p \<longleftrightarrow> (\<exists>z. a = b @ z \<and> z \<noteq> [])" .
    moreover have "p = root \<longleftrightarrow> a = b" unfolding a(2) b(2) by (rule path_of_inject [OF a(1) b(1)])
    ultimately have "within p root \<longleftrightarrow> (\<exists>z. a = b @ z)" using e by (auto simp: within_def)
    also have "\<dots> \<longleftrightarrow> take (length b) a = b" by (metis append_eq_conv_conj append_take_drop_id)
    finally show ?thesis by (simp add: a_def b_def)
  qed
qed

lemma split_on_sep: "split_on c (x @ c # y) = split_on c x @ split_on c y"
proof (induction x)
  case (Cons z x)
  obtain w ws where "split_on c x = w # ws" using split_on_nonempty by (metis neq_Nil_conv)
  with Cons show ?case by simp
qed simp

lemma segments_below: "segments (x @ sep # y) = foldl push_segment (segments x) (split_on sep y)"
  by (simp add: segments_def split_on_sep)

lemma segments_child: "proper b \<Longrightarrow> segments (p @ sep # b) = segments p @ [b]"
  by (auto simp: segments_below split_on_no proper_def)

lemma normal_absolute: "normal p \<Longrightarrow> isAbsolute p"
proof -
  assume "normal p"
  then obtain ss where "p = path_of ss" by (auto simp: normal_def)
  then show ?thesis by (cases ss rule: path_of.cases) (simp_all add: isAbsolute_def sep_def)
qed

lemma resolve_normal: "normal p \<Longrightarrow> resolve1 cwd p = p"
  by (simp add: resolve1_def normal_absolute normal_path_of)

section \<open>What the file system calls a path\<close>

text \<open>A name the file system gives is absolute, without \<open>.\<close>, \<open>..\<close> or doubled separators, and is its
  own name; and a path is what its last segment is in the folder its parent names.\<close>

definition realpath_laws :: "(string \<Rightarrow> string option) \<Rightarrow> bool" where
  "realpath_laws realpath \<longleftrightarrow>
     (\<forall>p r. realpath p = Some r \<longrightarrow> normal r \<and> realpath r = Some r)
     \<and> (\<forall>p q. normal p \<longrightarrow> segments p \<noteq> [] \<longrightarrow> realpath (dirname p) = Some q \<longrightarrow>
          realpath p = realpath (path_join q (basename p)))"

lemma realpath_lawsD:
  assumes "realpath_laws realpath"
  shows "realpath p = Some r \<Longrightarrow> normal r" "realpath p = Some r \<Longrightarrow> realpath r = Some r"
    "normal p \<Longrightarrow> segments p \<noteq> [] \<Longrightarrow> realpath (dirname p) = Some q \<Longrightarrow> realpath p = realpath (path_join q (basename p))"
  using assms unfolding realpath_laws_def by blast+

lemma join_child:
  assumes "normal p" "segments p \<noteq> []" "normal q"
  shows "segments (path_join q (basename p)) = segments q @ [basename p]" and "normal (path_join q (basename p))"
    and "dirname (path_join q (basename p)) = q" and "basename (path_join q (basename p)) = basename p"
proof -
  have b: "proper (basename p)" using assms(2) segments_proper [of p] by (simp add: basename_def list_all_iff)
  have c: "segments (q @ [sep] @ basename p) = segments q @ [basename p]" using segments_child [OF b] by simp
  have pr: "list_all proper (segments q @ [basename p])" using b segments_proper [of q] by simp
  show s: "segments (path_join q (basename p)) = segments q @ [basename p]"
    unfolding path_join_def c by (rule segments_path_of [OF pr])
  show "normal (path_join q (basename p))" unfolding path_join_def c normal_def using pr by blast
  show "dirname (path_join q (basename p)) = q" by (simp add: dirname_def s normal_path_of [OF assms(3)])
  show "basename (path_join q (basename p)) = basename p" by (simp add: basename_def [of "path_join q (basename p)"] s)
qed

lemma dirname_root: "normal p \<Longrightarrow> dirname p = p \<longleftrightarrow> segments p = []"
proof
  assume n: "normal p" and "dirname p = p"
  then have "path_of (butlast (segments p)) = path_of (segments p)" by (simp add: dirname_def normal_path_of)
  moreover have "list_all proper (butlast (segments p))" using segments_proper [of p] by (auto simp: list_all_iff dest: in_set_butlastD)
  ultimately have "butlast (segments p) = segments p" using path_of_inject segments_proper by blast
  then show "segments p = []" by (cases "segments p" rule: rev_cases) auto
next
  assume "normal p" "segments p = []"
  then show "dirname p = p" using normal_path_of [of p] by (simp add: dirname_def)
qed

text \<open>The two things \<open>canonical\<close> may answer for a path that is not there.\<close>

lemma canonical_cases:
  assumes laws: "realpath_laws (pw_realpath w)"
  obtains (there) "pw_realpath w (resolve1 (pw_cwd w) p) = Some (canonical w p)"
  | (new) q where "pw_realpath w (resolve1 (pw_cwd w) p) = None" "segments (resolve1 (pw_cwd w) p) \<noteq> []"
      "pw_realpath w (dirname (resolve1 (pw_cwd w) p)) = Some q" "canonical w p = path_join q (basename (resolve1 (pw_cwd w) p))"
  | (as_written) "pw_realpath w (resolve1 (pw_cwd w) p) = None" "canonical w p = resolve1 (pw_cwd w) p"
      "segments (resolve1 (pw_cwd w) p) = [] \<or> pw_realpath w (dirname (resolve1 (pw_cwd w) p)) = None"
proof (cases "pw_realpath w (resolve1 (pw_cwd w) p)")
  case (Some r)
  with there show ?thesis by (simp add: canonical_def Let_def)
next
  case None
  note n = dirname_root [OF normal_resolve [of "pw_cwd w" p]]
  show ?thesis
  proof (cases "segments (resolve1 (pw_cwd w) p) = []")
    case True
    with None as_written n show ?thesis by (simp add: canonical_def Let_def)
  next
    case False
    with None as_written new n show ?thesis
      by (cases "pw_realpath w (dirname (resolve1 (pw_cwd w) p))") (simp_all add: canonical_def Let_def)
  qed
qed

lemma canonical_normal: "realpath_laws (pw_realpath w) \<Longrightarrow> normal (canonical w p)"
  by (cases rule: canonical_cases [of w p])
     (auto intro: normal_resolve join_child(2) dest: realpath_lawsD(1))

lemma canonical_idem:
  assumes laws: "realpath_laws (pw_realpath w)"
  shows "canonical w (canonical w p) = canonical w p"
proof -
  let ?a = "resolve1 (pw_cwd w) p"
  note self = resolve_normal [OF canonical_normal [OF laws, of p], of "pw_cwd w"]
  from laws show ?thesis
  proof (cases rule: canonical_cases [where p = p])
    case there
    then have "pw_realpath w (canonical w p) = Some (canonical w p)" by (rule realpath_lawsD(2) [OF laws])
    then show ?thesis unfolding canonical_def [of w "canonical w p"] self by simp
  next
    case (new q)
    note j = join_child [OF normal_resolve new(2) realpath_lawsD(1) [OF laws new(3)]]
    have "pw_realpath w (canonical w p) = None"
      using realpath_lawsD(3) [OF laws normal_resolve new(2,3)] new(1,4) by simp
    moreover have "dirname (canonical w p) = q" "basename (canonical w p) = basename ?a" using j(3,4) by (simp_all add: new(4))
    moreover have "pw_realpath w q = Some q" by (rule realpath_lawsD(2) [OF laws new(3)])
    moreover have "q \<noteq> canonical w p" using j(1) unfolding new(4) by (metis append_self_conv not_Cons_self2)
    ultimately show ?thesis unfolding canonical_def [of w "canonical w p"] self by (simp add: new(4))
  next
    case as_written
    then show ?thesis unfolding canonical_def [of w "canonical w p"] self using as_written dirname_root [OF normal_resolve]
      by (auto simp: Let_def)
  qed
qed

section \<open>A located path is inside the surface it names\<close>

definition below :: "string \<Rightarrow> string \<Rightarrow> bool" where
  "below root p \<longleftrightarrow> take (length (segments root)) (segments p) = segments root"

lemma locate_parts:
  assumes "locate w args v = Inr loc"
  obtains roots named p where "rootsFor w (pa_sid args) v = Inr roots" "absolute_of w args roots = Inr named"
    "admit w (pa_kind args) (canonical w named) roots = Inr p"
    "loc = \<lparr>lc_kind = pa_kind args, lc_real = canonical w named, lc_path = p, lc_named = named\<rparr>"
  using assms by (auto simp: locate_def Let_def split: sum.splits)

text \<open>What a session's statement makes reachable under a kind.\<close>

definition reachable :: "path_world \<Rightarrow> sid \<Rightarrow> file_kind \<Rightarrow> string \<Rightarrow> bool" where
  "reachable w sid kind real \<longleftrightarrow>
     (\<exists>roots. pw_roots w sid = Some roots
        \<and> (case kind of
             Contained \<Rightarrow> (\<exists>r. sr_root roots = Some r \<and> below (canonical w r) real)
           | Workspace \<Rightarrow> (\<exists>f \<in> set (sr_workspace_folders roots). below (canonical w f) real)
           | External \<Rightarrow> (\<exists>e \<in> set (sr_external_files roots). canonical w e = real)))"

lemma located_reachable:
  assumes "realpath_laws (pw_realpath w)" and "locate w args v = Inr loc"
  shows "sees (pa_sid args) v" "lc_real loc = canonical w (lc_named loc)" "reachable w (pa_sid args) (pa_kind args) (lc_real loc)"
proof -
  from assms(2) obtain roots named p where l: "rootsFor w (pa_sid args) v = Inr roots" "absolute_of w args roots = Inr named"
    "admit w (pa_kind args) (canonical w named) roots = Inr p"
    "loc = \<lparr>lc_kind = pa_kind args, lc_real = canonical w named, lc_path = p, lc_named = named\<rparr>"
    by (rule locate_parts)
  show "sees (pa_sid args) v" using l(1) by (auto simp: rootsFor_def split: if_splits option.splits)
  show "lc_real loc = canonical w (lc_named loc)" by (simp add: l(4))
  have s: "pw_roots w (pa_sid args) = Some roots" using l(1) by (auto simp: rootsFor_def split: if_splits option.splits)
  note b = within_segments [OF canonical_normal canonical_normal, OF assms(1) assms(1), folded below_def]
  have "case pa_kind args of
      Contained \<Rightarrow> (\<exists>r. sr_root roots = Some r \<and> below (canonical w r) (canonical w named))
    | Workspace \<Rightarrow> (\<exists>f \<in> set (sr_workspace_folders roots). below (canonical w f) (canonical w named))
    | External \<Rightarrow> (\<exists>e \<in> set (sr_external_files roots). canonical w e = canonical w named)"
    using l(3) by (auto simp: admit_def b Let_def list_ex_iff split: file_kind.splits option.splits if_splits)
  moreover have eq: "lc_real loc = canonical w named" by (simp add: l(4))
  ultimately show "reachable w (pa_sid args) (pa_kind args) (lc_real loc)" unfolding reachable_def eq using s by simp
qed

lemma named_normal:
  assumes "locate w args v = Inr loc" "pa_kind args = Contained \<or> normal (pa_path args)"
  shows "normal (lc_named loc)"
proof -
  from assms(1) obtain roots named p where l: "absolute_of w args roots = Inr named" "lc_named loc = named" by (auto elim: locate_parts)
  show ?thesis
  proof (cases "pa_kind args = Contained")
    case True
    with l(1) obtain root where "named = resolve2 (pw_cwd w) (canonical w root) ([CHR ''.'', sep] @ pa_path args)"
      by (auto simp: absolute_of_def split: option.splits if_splits)
    then show ?thesis unfolding l(2) by (auto simp: resolve2_def normal_resolve)
  next
    case False
    then show ?thesis using assms(2) l by (auto simp: absolute_of_def split: if_splits)
  qed
qed

text \<open>
  C2: what an op is let reach is inside. When a path is located, the caller sees the session it names
  (a session only its own, a person any), the session stated the allowlist, and what the file system
  calls the path lies segment by segment below the session's root, below one of its workspace
  folders, or is one of the files its transcript named, each as the file system calls them. In
  particular a path that is there is admitted for where it leads, however it was spelled.
\<close>

theorem located_is_inside:
  assumes "realpath_laws (pw_realpath w)" and "locate w args v = Inr loc"
  shows "sees (pa_sid args) v \<and> lc_real loc = canonical w (lc_named loc)
    \<and> (\<forall>t. pw_realpath w (resolve1 (pw_cwd w) (lc_named loc)) = Some t \<longrightarrow> lc_real loc = t)
    \<and> (\<exists>roots. pw_roots w (pa_sid args) = Some roots
        \<and> (case pa_kind args of
             Contained \<Rightarrow> (\<exists>r. sr_root roots = Some r \<and> below (canonical w r) (lc_real loc))
           | Workspace \<Rightarrow> (\<exists>f \<in> set (sr_workspace_folders roots). below (canonical w f) (lc_real loc))
           | External \<Rightarrow> (\<exists>e \<in> set (sr_external_files roots). canonical w e = lc_real loc)))"
proof -
  note l = located_reachable [OF assms]
  have "canonical w n = t" if "pw_realpath w (resolve1 (pw_cwd w) n) = Some t" for n t
    using that by (simp add: canonical_def Let_def)
  with l(1,2) l(3) [unfolded reachable_def] show ?thesis by simp
qed

text \<open>A file system with one link: \<open>/r/docs/inbox/out\<close> leads to \<open>/etc\<close>.\<close>

definition example_link :: "string list \<Rightarrow> string list" where
  "example_link ss =
     (if take 4 ss = [''r'', ''docs'', ''inbox'', ''out''] then ''etc'' # drop 4 ss else ss)"

definition example_realpath :: "string \<Rightarrow> string option" where
  "example_realpath p =
     (let ss = example_link (segments p) in
      if ss \<in> {[], [''r''], [''r'', ''docs''], [''r'', ''docs'', ''inbox''], [''etc''], [''r'', ''a''], [''f'']} then Some (path_of ss) else None)"

definition example_world :: path_world where
  "example_world = \<lparr>pw_cwd = ''/'', pw_realpath = example_realpath,
     pw_roots = (\<lambda>s. if s = ''s'' then Some \<lparr>sr_root = Some ''/r'', sr_cwd = Some ''/r'', sr_workspace_folders = [], sr_external_files = []\<rparr>
                     else None)\<rparr>"

lemma example_laws: "realpath_laws example_realpath"
proof -
  have there: "list_all proper ss \<and> example_link ss = ss"
    if "ss \<in> {[], [''r''], [''r'', ''docs''], [''r'', ''docs'', ''inbox''], [''etc''], [''r'', ''a''], [''f'']}" for ss
    using that by (auto simp: proper_def sep_def example_link_def)
  have one: "normal r \<and> example_realpath r = Some r" if r: "example_realpath p = Some r" for p r
  proof -
    let ?ss = "example_link (segments p)"
    have m: "?ss \<in> {[], [''r''], [''r'', ''docs''], [''r'', ''docs'', ''inbox''], [''etc''], [''r'', ''a''], [''f'']}" "r = path_of ?ss"
      using r by (auto simp: example_realpath_def Let_def split: if_splits)
    note t = there [OF m(1)]
    then have "segments r = ?ss" using segments_path_of m(2) by simp
    with t m show ?thesis by (simp add: example_realpath_def normal_def) blast
  qed
  have two: "example_realpath p = example_realpath (path_join q (basename p))"
    if n: "normal p" "segments p \<noteq> []" and d: "example_realpath (dirname p) = Some q" for p q
  proof -
    obtain ss b where sb: "segments p = ss @ [b]" using n(2) by (cases "segments p" rule: rev_cases) auto
    have pr: "list_all proper ss" using segments_proper [of p] by (simp add: sb)
    then have dn: "segments (dirname p) = ss" by (simp add: dirname_def sb segments_path_of)
    have q: "q = path_of (example_link ss)"
      and m: "example_link ss \<in> {[], [''r''], [''r'', ''docs''], [''r'', ''docs'', ''inbox''], [''etc''], [''r'', ''a''], [''f'']}"
      using d by (auto simp: example_realpath_def Let_def dn split: if_splits)
    have sq: "segments q = example_link ss" using there [OF m] by (simp add: q segments_path_of)
    have "segments (path_join q (basename p)) = example_link ss @ [b]"
      using join_child(1) [OF n, of q] one [OF d] sq by (simp add: basename_def sb)
    moreover have "example_link (example_link ss @ [b]) = example_link (ss @ [b])"
    proof (cases "take 4 ss = [''r'', ''docs'', ''inbox'', ''out'']")
      case True
      have "length (take 4 ss) = 4" unfolding True by simp
      then have "4 \<le> length ss" by simp
      with True show ?thesis by (simp add: example_link_def)
    next
      case False
      then show ?thesis by (simp add: example_link_def)
    qed
    ultimately show ?thesis by (simp add: example_realpath_def sb)
  qed
  show ?thesis unfolding realpath_laws_def using one two by blast
qed

theorem located_is_inside_witness:
  "\<exists>loc. locate example_world \<lparr>pa_sid = ''s'', pa_kind = Contained, pa_path = ''docs/../a''\<rparr> \<lparr>vw_role = Some Session, vw_sid = Some ''s''\<rparr> = Inr loc
     \<and> lc_real loc = ''/r/a'' \<and> below ''/r'' (lc_real loc)
     \<and> locate example_world \<lparr>pa_sid = ''s'', pa_kind = Contained, pa_path = ''docs/inbox/out''\<rparr> \<lparr>vw_role = None, vw_sid = None\<rparr>
         = Inl (''path_forbidden'', ''the path is outside the session's root'')"
proof -
  let ?a = "\<lparr>pa_sid = ''s'', pa_kind = Contained, pa_path = ''docs/../a''\<rparr>" and ?v = "\<lparr>vw_role = Some Session, vw_sid = Some ''s''\<rparr>"
  let ?l = "\<lparr>lc_kind = Contained, lc_real = ''/r/a'', lc_path = ''a'', lc_named = ''/r/a''\<rparr>"
  have l: "locate example_world ?a ?v = Inr ?l" by code_simp
  have "realpath_laws (pw_realpath example_world)" using example_laws by (simp add: example_world_def)
  from located_is_inside [OF this l] have "below (canonical example_world ''/r'') ''/r/a''"
    by (auto simp: example_world_def)
  moreover have "canonical example_world ''/r'' = ''/r''" by code_simp
  moreover have "locate example_world \<lparr>pa_sid = ''s'', pa_kind = Contained, pa_path = ''docs/inbox/out''\<rparr> \<lparr>vw_role = None, vw_sid = None\<rparr>
      = Inl (''path_forbidden'', ''the path is outside the session's root'')" by code_simp
  ultimately show ?thesis using l by auto
qed

text \<open>What it does not give. Where neither a path nor its parent is there, \<open>canonical\<close> leaves it as it
  is written, and a surface does admit it: below a link that leads out of the inbox, a name two
  missing segments deep is taken for one inside it. \<open>file.write\<close> then makes the folders on the way,
  which is through the link.\<close>

lemma inbox_admits_through_a_link:
  "map_sum id lc_real (inbox_path example_world ''s'' ''docs/inbox/out/new/note'' \<lparr>vw_role = None, vw_sid = None\<rparr>)
     = Inr ''/r/docs/inbox/out/new/note''"
  "example_realpath ''/r/docs/inbox/out'' = Some ''/etc''"
  by code_simp+

text \<open>And a contained path is stated back without its first character when the root is \<open>/\<close>.\<close>

lemma relativeTo_root: "within ''/etc'' ''/'' \<and> relativeTo ''/'' ''/etc'' = ''tc''"
  by code_simp

section \<open>The path stated back names the same file\<close>

lemma relative_roundtrip:
  assumes "normal root" "segments root \<noteq> []" "normal real" "within real root"
  shows "resolve2 cwd root ([CHR ''.'', sep] @ relativeTo root real) = real"
proof -
  have abs: "isAbsolute (root @ sep # x)" for x using normal_absolute [OF assms(1)] by (auto simp: isAbsolute_def)
  have "resolve2 cwd root ([CHR ''.'', sep] @ y) = path_of (segments (root @ sep # ''.'' @ sep # y))" for y
    using abs [of "CHR ''.'' # sep # y"] by (simp add: resolve2_def resolve1_def isAbsolute_def sep_def)
  also have "segments (root @ sep # ''.'' @ sep # y) = segments (root @ sep # y)" for y
    by (simp add: segments_below split_on_sep)
  finally have r: "resolve2 cwd root ([CHR ''.'', sep] @ y) = path_of (segments (root @ sep # y))" for y .
  show ?thesis
  proof (cases "real = root")
    case True
    then show ?thesis unfolding r relativeTo_def by (simp add: segments_below normal_path_of [OF assms(1)])
  next
    case False
    have "starts_with (root @ [sep]) real" using assms(4) False no_trailing_sep [OF assms(1,2)] by (simp add: within_def)
    then have "real = root @ sep # drop (length root + 1) real"
      by (simp add: starts_with_def) (metis append.assoc append_Cons append_Nil append_take_drop_id)
    then show ?thesis unfolding r relativeTo_def using False normal_path_of [OF assms(3)] by simp
  qed
qed

text \<open>Locating the path an answer stated gives the same file again, under the same path, unless the
  session's root is \<open>/\<close>.\<close>

lemma located_again:
  assumes laws: "realpath_laws (pw_realpath w)" and l: "locate w args v = Inr loc"
    and root: "\<And>roots r. pw_roots w (pa_sid args) = Some roots \<Longrightarrow> sr_root roots = Some r \<Longrightarrow> segments (canonical w r) \<noteq> []"
  shows "locate w (args\<lparr>pa_path := lc_path loc\<rparr>) v = Inr (loc\<lparr>lc_named := lc_real loc\<rparr>)"
proof -
  from l obtain roots named p where p: "rootsFor w (pa_sid args) v = Inr roots" "absolute_of w args roots = Inr named"
    "admit w (pa_kind args) (canonical w named) roots = Inr p"
    "loc = \<lparr>lc_kind = pa_kind args, lc_real = canonical w named, lc_path = p, lc_named = named\<rparr>"
    by (rule locate_parts)
  have roots: "pw_roots w (pa_sid args) = Some roots" using p(1) by (auto simp: rootsFor_def split: if_splits option.splits)
  note norm = canonical_normal [OF laws] and idem = canonical_idem [OF laws]
  have named: "absolute_of w (args\<lparr>pa_path := p\<rparr>) roots = Inr (canonical w named)"
  proof (cases "pa_kind args")
    case Contained
    then obtain r where r: "sr_root roots = Some r" "isAbsolute r" using p(2) by (auto simp: absolute_of_def split: option.splits if_splits)
    then have "within (canonical w named) (canonical w r)" "p = relativeTo (canonical w r) (canonical w named)"
      using p(3) Contained by (auto simp: admit_def Let_def split: if_splits)
    with relative_roundtrip [OF norm root [OF roots r(1)] norm] r Contained show ?thesis by (simp add: absolute_of_def)
  next
    case Workspace
    then have "p = canonical w named" using p(3) by (auto simp: admit_def split: if_splits)
    with Workspace normal_absolute [OF norm] show ?thesis by (simp add: absolute_of_def)
  next
    case External
    then have "p = canonical w named" using p(3) by (auto simp: admit_def split: if_splits)
    with External normal_absolute [OF norm] show ?thesis by (simp add: absolute_of_def)
  qed
  show ?thesis using p named idem by (simp add: locate_def Let_def)
qed

end
