(* ===== verification/Files.thy ===== *)
theory Files
  imports Containment "HOL-Library.Sublist"
begin

text \<open>
  \<open>src/files/files.ts\<close>: the ops that read and change files, and the walk of \<open>file.find\<close>.

  The files are a map from the name the file system gives a thing to what is there. A handler is
  one step: the writes of one path are chained, so an edit's reading, comparing and replacing falls
  between no two writes of this instance. Modification times are kept in microseconds, of which the
  contract's timestamps are whole milliseconds. Base64 is a pair of arguments. Text is ASCII where
  case and white space are read. \<open>file.write\<close> is here as far as its destination
  (\<open>inbox_path\<close>); the folders it makes on the way are not.
\<close>

section \<open>Things that are there\<close>

type_synonym bytes = "nat list"

datatype fs_node = FileNode bytes int | DirNode int | LinkNode | OtherNode int

record files =
  ff_nodes :: "(string, fs_node) js_map"
  ff_world :: path_world

text \<open>\<open>stat\<close> of a name the file system gave: what is still a link there leads nowhere.\<close>

definition stat_of :: "files \<Rightarrow> string \<Rightarrow> fs_node option" where
  "stat_of f p = (case map_of (ff_nodes f) p of Some LinkNode \<Rightarrow> None | n \<Rightarrow> n)"

text \<open>\<open>lstat\<close> and \<open>unlink\<close> take a path as it is written: the file system walks to the folder its last
  separator ends, following links and going up from where they led, and names the last segment there.\<close>

definition raw_parent :: "string \<Rightarrow> string" where
  "raw_parent p = (case butlast (split_on sep p) of [] \<Rightarrow> ''/'' | [[]] \<Rightarrow> ''/'' | ss \<Rightarrow> join [sep] ss)"

definition raw_base :: "string \<Rightarrow> string" where
  "raw_base p = last (split_on sep p)"

definition name_of :: "files \<Rightarrow> string \<Rightarrow> string option" where
  "name_of f p =
     (if proper (raw_base p) then map_option (\<lambda>q. path_join q (raw_base p)) (pw_realpath (ff_world f) (raw_parent p))
      else pw_realpath (ff_world f) p)"

definition lstatOf :: "files \<Rightarrow> string \<Rightarrow> fs_node option" where
  "lstatOf f p = Option.bind (name_of f p) (map_of (ff_nodes f))"

fun is_file :: "fs_node option \<Rightarrow> bool" where
  "is_file (Some (FileNode b t)) = True"
| "is_file _ = False"

fun is_dir :: "fs_node option \<Rightarrow> bool" where
  "is_dir (Some (DirNode t)) = True"
| "is_dir _ = False"

definition mtimeOf :: "int \<Rightarrow> timestamp" where
  "mtimeOf us = us div 1000"

definition SNIFF :: nat where "SNIFF = 8 * 1024"

definition bytesOf :: "bytes \<Rightarrow> nat \<Rightarrow> nat \<Rightarrow> bytes" where
  "bytesOf content limit offset = take limit (drop offset content)"

definition isBinary :: "bytes \<Rightarrow> bool" where
  "isBinary b \<longleftrightarrow> 0 \<in> set (take SNIFF b)"

record base64 =
  b64_decode :: "string \<Rightarrow> bytes"
  b64_encode :: "bytes \<Rightarrow> string"

text \<open>What an op answers: a value, one of the contract's refusals, or a failure of the file system.\<close>

datatype 'a file_answer = Answered 'a | Refused op_error | Crashed

definition decoded :: "base64 \<Rightarrow> string \<Rightarrow> string \<Rightarrow> op_error + bytes" where
  "decoded b64 p content =
     (let b = b64_decode b64 content in
      if b64_encode b64 b \<noteq> content then Inl (''bad_request'', ''the content for '' @ p @ '' is not base64'') else Inr b)"

definition existing :: "files \<Rightarrow> located \<Rightarrow> op_error + fs_node" where
  "existing f at = (case stat_of f (lc_real at) of None \<Rightarrow> Inl (''not_found'', lc_path at @ '' is not there'') | Some n \<Rightarrow> Inr n)"

section \<open>The ops\<close>

record file_read_result =
  fr_path :: string
  fr_size :: nat
  fr_offset :: nat
  fr_length :: nat
  fr_binary :: bool
  fr_content :: string
  fr_mtime_at :: timestamp

definition file_read :: "contract \<Rightarrow> base64 \<Rightarrow> files \<Rightarrow> viewer \<Rightarrow> path_args \<Rightarrow> nat option \<Rightarrow> nat option \<Rightarrow> file_read_result file_answer" where
  "file_read ct b64 f v args off len =
     (case locate (ff_world f) args v of
        Inl e \<Rightarrow> Refused e
      | Inr at \<Rightarrow>
          (case existing f at of
             Inl e \<Rightarrow> Refused e
           | Inr (FileNode content t) \<Rightarrow>
               let offset = (case off of None \<Rightarrow> 0 | Some n \<Rightarrow> n);
                   length' = min (case len of None \<Rightarrow> MAX_FILE_READ_BYTES ct | Some n \<Rightarrow> n) (MAX_FILE_READ_BYTES ct);
                   b = bytesOf content length' offset
               in Answered \<lparr>fr_path = lc_path at, fr_size = length content, fr_offset = offset, fr_length = length b,
                            fr_binary = isBinary (bytesOf content SNIFF 0), fr_content = b64_encode b64 b, fr_mtime_at = mtimeOf t\<rparr>
           | Inr _ \<Rightarrow> Refused (''not_found'', pa_path args @ '' is not a file'')))"

text \<open>\<open>writeFile\<close> with the flag \<open>wx\<close>: the name must be free, a link that leads nowhere included.\<close>

definition create_file :: "string \<Rightarrow> bytes \<Rightarrow> int \<Rightarrow> files \<Rightarrow> unit file_answer \<times> files" where
  "create_file p content now f =
     (if map_of (ff_nodes f) p \<noteq> None then (Refused (''file_exists'', basename p @ '' is already there''), f)
      else if \<not> is_dir (stat_of f (dirname p)) then (Crashed, f)
      else (Answered (), f\<lparr>ff_nodes := map_set p (FileNode content now) (ff_nodes f)\<rparr>))"

definition file_create :: "base64 \<Rightarrow> viewer \<Rightarrow> path_args \<Rightarrow> string \<Rightarrow> int \<Rightarrow> files \<Rightarrow> string file_answer \<times> files" where
  "file_create b64 v args content now f =
     (case locate (ff_world f) args v of
        Inl e \<Rightarrow> (Refused e, f)
      | Inr at \<Rightarrow>
          if \<not> is_dir (stat_of f (dirname (lc_real at))) then
            (Refused (''not_found'', pa_path args @ '' has no folder to be created in''), f)
          else case decoded b64 (pa_path args) content of
            Inl e \<Rightarrow> (Refused e, f)
          | Inr b \<Rightarrow>
              (case create_file (lc_real at) b now f of
                 (Answered _, f') \<Rightarrow> (Answered (lc_path at), f')
               | (Refused e, f') \<Rightarrow> (Refused e, f')
               | (Crashed, f') \<Rightarrow> (Crashed, f')))"

record file_edit_result =
  fe_path :: string
  fe_size :: nat
  fe_mtime_at :: timestamp

definition file_edit :: "base64 \<Rightarrow> viewer \<Rightarrow> path_args \<Rightarrow> string \<Rightarrow> timestamp \<Rightarrow> nat \<Rightarrow> int \<Rightarrow> files \<Rightarrow> file_edit_result file_answer \<times> files" where
  "file_edit b64 v args content expected_mtime_at expected_size now f =
     (case locate (ff_world f) args v of
        Inl e \<Rightarrow> (Refused e, f)
      | Inr at \<Rightarrow>
          (case existing f at of
             Inl e \<Rightarrow> (Refused e, f)
           | Inr (FileNode before t) \<Rightarrow>
               if isBinary (bytesOf before SNIFF 0) then
                 (Refused (''not_a_text_file'', pa_path args @ '' holds binary content''), f)
               else if mtimeOf t \<noteq> expected_mtime_at \<or> length before \<noteq> expected_size then
                 (Refused (''file_conflict'', pa_path args @ '' changed since it was read''), f)
               else (case decoded b64 (pa_path args) content of
                       Inl e \<Rightarrow> (Refused e, f)
                     | Inr b \<Rightarrow>
                         (Answered \<lparr>fe_path = lc_path at, fe_size = length b, fe_mtime_at = mtimeOf now\<rparr>,
                          f\<lparr>ff_nodes := map_set (lc_real at) (FileNode b now) (ff_nodes f)\<rparr>))
           | Inr _ \<Rightarrow> (Refused (''not_found'', pa_path args @ '' is not a file''), f)))"

definition unlink :: "string \<Rightarrow> files \<Rightarrow> files" where
  "unlink p f = (case name_of f p of None \<Rightarrow> f | Some q \<Rightarrow> f\<lparr>ff_nodes := map_del q (ff_nodes f)\<rparr>)"

definition file_delete :: "viewer \<Rightarrow> path_args \<Rightarrow> files \<Rightarrow> string file_answer \<times> files" where
  "file_delete v args f =
     (case locate (ff_world f) args v of
        Inl e \<Rightarrow> (Refused e, f)
      | Inr at \<Rightarrow>
          (case lstatOf f (lc_named at) of
             None \<Rightarrow> (Refused (''not_found'', pa_path args @ '' is not there''), f)
           | Some n \<Rightarrow>
               if \<not> is_file (Some n) then (Refused (''path_forbidden'', pa_path args @ '' is not a plain file''), f)
               else (Answered (lc_path at), unlink (lc_named at) f)))"

definition file_stat :: "viewer \<Rightarrow> sid \<Rightarrow> string list \<Rightarrow> files \<Rightarrow> (file_kind \<times> string) option list" where
  "file_stat v sid paths f =
     map (\<lambda>p. case identify (ff_world f) sid p v of
            None \<Rightarrow> None
          | Some at \<Rightarrow> if is_file (stat_of f (lc_real at)) then Some (lc_kind at, lc_path at) else None) paths"

text \<open>A folder's entries as the files have them, stated by name in the order the platform's
  \<open>localeCompare\<close> (an argument) gives them.\<close>

datatype dir_type = DtFile | DtDir | DtSymlink | DtOther

record dir_entry =
  de_name :: string
  de_type :: dir_type
  de_size :: "nat option"
  de_mtime_at :: "timestamp option"

fun entry_of :: "string \<Rightarrow> fs_node \<Rightarrow> dir_entry" where
  "entry_of n (FileNode b t) = \<lparr>de_name = n, de_type = DtFile, de_size = Some (length b), de_mtime_at = Some (mtimeOf t)\<rparr>"
| "entry_of n (DirNode t) = \<lparr>de_name = n, de_type = DtDir, de_size = None, de_mtime_at = Some (mtimeOf t)\<rparr>"
| "entry_of n LinkNode = \<lparr>de_name = n, de_type = DtSymlink, de_size = None, de_mtime_at = None\<rparr>"
| "entry_of n (OtherNode t) = \<lparr>de_name = n, de_type = DtOther, de_size = None, de_mtime_at = Some (mtimeOf t)\<rparr>"

fun insert_entry :: "(string \<Rightarrow> string \<Rightarrow> bool) \<Rightarrow> dir_entry \<Rightarrow> dir_entry list \<Rightarrow> dir_entry list" where
  "insert_entry before e [] = [e]"
| "insert_entry before e (x # xs) =
     (if before (de_name x) (de_name e) then x # insert_entry before e xs else e # x # xs)"

definition entriesOf :: "(string \<Rightarrow> string \<Rightarrow> bool) \<Rightarrow> files \<Rightarrow> string \<Rightarrow> dir_entry list" where
  "entriesOf before f dir =
     foldr (insert_entry before)
       (map (\<lambda>(p, n). entry_of (basename p) n) (filter (\<lambda>(p, n). segments p \<noteq> [] \<and> dirname p = dir) (ff_nodes f))) []"

definition dir_list :: "(string \<Rightarrow> string \<Rightarrow> bool) \<Rightarrow> files \<Rightarrow> viewer \<Rightarrow> sid \<Rightarrow> file_kind \<Rightarrow> string option \<Rightarrow>
    (string \<times> dir_entry list) file_answer" where
  "dir_list before f v sid kind p =
     (case dir_root (ff_world f) sid kind p v of
        Inl e \<Rightarrow> Refused e
      | Inr at \<Rightarrow>
          (case existing f at of
             Inl e \<Rightarrow> Refused e
           | Inr n \<Rightarrow>
               if \<not> is_dir (Some n) then
                 Refused (''not_found'', (case p of None \<Rightarrow> [] | Some q \<Rightarrow> q) @ '' is not a folder'')
               else Answered (lc_path at, entriesOf before f (lc_real at))))"

text \<open>The wrapper every handler goes through.\<close>

definition unless_duplicated :: "(sid \<Rightarrow> bool) \<Rightarrow> sid \<Rightarrow> 'a file_answer \<times> files \<Rightarrow> files \<Rightarrow> 'a file_answer \<times> files" where
  "unless_duplicated duplicated sid handled f =
     (if duplicated sid then
        (Refused (''session_duplicated'',
           sid @ '' is being run by more than one process, so which of them this names is not settled''), f)
      else handled)"

section \<open>file.find\<close>

definition FIND_HITS :: nat where "FIND_HITS = 200"
definition FIND_VISITS :: nat where "FIND_VISITS = 20000"

definition is_space :: "char \<Rightarrow> bool" where
  "is_space c \<longleftrightarrow> c \<in> {CHR '' '', CHR 0x09, CHR 0x0A, CHR 0x0B, CHR 0x0C, CHR 0x0D}"

definition lower_char :: "char \<Rightarrow> char" where
  "lower_char c = (let n = of_char c :: nat in if 65 \<le> n \<and> n \<le> 90 then char_of (n + 32) else c)"

abbreviation lower :: "string \<Rightarrow> string" where
  "lower \<equiv> map lower_char"

fun split_spaces :: "string \<Rightarrow> string list" where
  "split_spaces [] = [[]]"
| "split_spaces (c # cs) =
     (if is_space c then [] # split_spaces cs
      else case split_spaces cs of [] \<Rightarrow> [[c]] | w # ws \<Rightarrow> (c # w) # ws)"

definition words_of :: "string \<Rightarrow> string list" where
  "words_of s = filter (\<lambda>each. each \<noteq> []) (split_spaces s)"

record terms =
  tm_include :: "string list"
  tm_exclude :: "string list"

definition parseQuery :: "string \<Rightarrow> terms" where
  "parseQuery query =
     \<lparr>tm_include = map lower (filter (\<lambda>word. hd word \<noteq> CHR ''-'') (words_of query)),
      tm_exclude = concat (map (\<lambda>word. if hd word = CHR ''-'' \<and> tl word \<noteq> [] then [lower (tl word)] else []) (words_of query))\<rparr>"

fun includes_word :: "string \<Rightarrow> string \<Rightarrow> bool" where
  "includes_word [] word = (word = [])"
| "includes_word (c # cs) word = (starts_with word (c # cs) \<or> includes_word cs word)"

definition matches :: "string \<Rightarrow> terms \<Rightarrow> bool" where
  "matches p terms \<longleftrightarrow>
     list_all (includes_word (lower p)) (tm_include terms) \<and> \<not> list_ex (includes_word (lower p)) (tm_exclude terms)"

text \<open>\<open>globToRegExp\<close>, as the test it makes: a star is any run without a separator, a question mark one
  character that is none, anything else itself.\<close>

fun glob :: "string \<Rightarrow> string \<Rightarrow> bool" where
  "glob [] name = (name = [])"
| "glob (g # gs) name =
     (if g = CHR ''*'' then
        glob gs name \<or> (case name of [] \<Rightarrow> False | c # cs \<Rightarrow> c \<noteq> sep \<and> glob (g # gs) cs)
      else case name of [] \<Rightarrow> False
        | c # cs \<Rightarrow> (if g = CHR ''?'' then c \<noteq> sep else c = g) \<and> glob gs cs)"

definition trim :: "string \<Rightarrow> string" where
  "trim s = rev (dropWhile is_space (rev (dropWhile is_space s)))"

definition readIgnoreFile :: "string option \<Rightarrow> string list" where
  "readIgnoreFile contents =
     (case contents of
        None \<Rightarrow> []
      | Some t \<Rightarrow>
          filter (\<lambda>line. sep \<notin> set line)
            (map (\<lambda>line. rev (dropWhile (\<lambda>c. c = sep) (rev line)))
              (filter (\<lambda>line. line \<noteq> [] \<and> hd line \<noteq> CHR ''#'' \<and> hd line \<noteq> CHR ''!'')
                (map trim (split_on (CHR 0x0A) t)))))"

definition hides :: "string list \<Rightarrow> string \<Rightarrow> bool" where
  "hides patterns name \<longleftrightarrow> name = ''.git'' \<or> list_ex (\<lambda>p. glob p name) patterns"

text \<open>A folder as the walk reads it: its \<open>.gitignore\<close>, and its entries unless it cannot be read.
  What is neither a link nor a folder is answered as a file.\<close>

datatype fs_dir = FsDir "string option" "fs_entry list option"
  and fs_entry = EFile string | ELink string | EDir string fs_dir

fun entry_name :: "fs_entry \<Rightarrow> string" where
  "entry_name (EFile n) = n"
| "entry_name (ELink n) = n"
| "entry_name (EDir n d) = n"

datatype hit_type = HitFile | HitDir | HitSymlink

fun entry_type :: "fs_entry \<Rightarrow> hit_type" where
  "entry_type (EFile n) = HitFile"
| "entry_type (ELink n) = HitSymlink"
| "entry_type (EDir n d) = HitDir"

record walk_state =
  wk_hits :: "(string \<times> hit_type) list"
  wk_visits :: nat
  wk_truncated :: bool

record walk_env =
  we_respect :: bool
  we_shown :: "string list \<Rightarrow> string"
  we_terms :: terms

definition shown_at :: "located \<Rightarrow> string list \<Rightarrow> string" where
  "shown_at at names =
     (if lc_kind at = Contained then join ''/'' names else path_of (segments (lc_real at) @ names))"

fun walk_dir :: "walk_env \<Rightarrow> string list \<Rightarrow> string list \<Rightarrow> fs_dir \<Rightarrow> walk_state \<Rightarrow> walk_state"
and walk_entries :: "walk_env \<Rightarrow> string list \<Rightarrow> string list \<Rightarrow> fs_entry list \<Rightarrow> walk_state \<Rightarrow> walk_state" where
  "walk_dir env names ignored (FsDir ignore entries) s =
     (if wk_truncated s then s
      else
        let here = (if we_respect env then ignored @ readIgnoreFile ignore else ignored)
        in case entries of None \<Rightarrow> s | Some es \<Rightarrow> walk_entries env names here es s)"
| "walk_entries env names here [] s = s"
| "walk_entries env names here (e # es) s =
     (let s1 = s\<lparr>wk_visits := wk_visits s + 1\<rparr>;
          at = names @ [entry_name e]
      in if FIND_VISITS < wk_visits s1 then s1\<lparr>wk_truncated := True\<rparr>
         else if we_respect env \<and> hides here (entry_name e) then walk_entries env names here es s1
         else
           let s2 = (if matches (we_shown env at) (we_terms env) then
                       s1\<lparr>wk_hits := wk_hits s1 @ [(we_shown env at, entry_type e)],
                          wk_truncated := (FIND_HITS \<le> length (wk_hits s1) + 1)\<rparr>
                     else s1)
           in if wk_truncated s2 then s2
              else
                let s3 = (case e of EDir n d \<Rightarrow> walk_dir env at here d s2 | _ \<Rightarrow> s2)
                in if wk_truncated s3 then s3 else walk_entries env names here es s3)"

definition find_files :: "located \<Rightarrow> terms \<Rightarrow> bool \<Rightarrow> fs_dir \<Rightarrow> walk_state" where
  "find_files at terms respect tree =
     walk_dir \<lparr>we_respect = respect, we_shown = shown_at at, we_terms = terms\<rparr> [] [] tree
       \<lparr>wk_hits = [], wk_visits = 0, wk_truncated = False\<rparr>"

definition file_find :: "path_world \<Rightarrow> (string \<Rightarrow> fs_dir) \<Rightarrow> viewer \<Rightarrow> sid \<Rightarrow> file_kind \<Rightarrow> string option \<Rightarrow> string \<Rightarrow>
    bool option \<Rightarrow> ((string \<times> hit_type) list \<times> bool) file_answer" where
  "file_find w tree v sid kind root query respect =
     (case dir_root w sid kind root v of
        Inl e \<Rightarrow> Refused e
      | Inr at \<Rightarrow>
          let terms = parseQuery query in
          if tm_include terms = [] then Answered ([], False)
          else let r = find_files at terms (case respect of None \<Rightarrow> True | Some b \<Rightarrow> b) (tree (lc_real at))
               in Answered (wk_hits r, wk_truncated r))"

section \<open>The walk answers the listing\<close>

text \<open>Every entry the rules leave visible, in the order of the walk, and how many entries it looks at.\<close>

fun listing :: "walk_env \<Rightarrow> string list \<Rightarrow> string list \<Rightarrow> fs_dir \<Rightarrow> (string \<times> hit_type) list"
and listing_of :: "walk_env \<Rightarrow> string list \<Rightarrow> string list \<Rightarrow> fs_entry list \<Rightarrow> (string \<times> hit_type) list" where
  "listing env names ignored (FsDir ignore entries) =
     (case entries of None \<Rightarrow> []
      | Some es \<Rightarrow> listing_of env names (if we_respect env then ignored @ readIgnoreFile ignore else ignored) es)"
| "listing_of env names here [] = []"
| "listing_of env names here (e # es) =
     (let at = names @ [entry_name e] in
      if we_respect env \<and> hides here (entry_name e) then listing_of env names here es
      else (if matches (we_shown env at) (we_terms env) then [(we_shown env at, entry_type e)] else [])
           @ (case e of EDir n d \<Rightarrow> listing env at here d | _ \<Rightarrow> []) @ listing_of env names here es)"

text \<open>What a walk that began in \<open>s\<close> and was asked for \<open>all\<close> ends in.\<close>

definition walked :: "walk_state \<Rightarrow> (string \<times> hit_type) list \<Rightarrow> walk_state \<Rightarrow> bool" where
  "walked s all s' \<longleftrightarrow> prefix (wk_hits s') (wk_hits s @ all) \<and> length (wk_hits s') \<le> FIND_HITS
     \<and> wk_visits s' \<le> FIND_VISITS + 1
     \<and> (\<not> wk_truncated s' \<longrightarrow> wk_hits s' = wk_hits s @ all \<and> length (wk_hits s') < FIND_HITS \<and> wk_visits s' \<le> FIND_VISITS)
     \<and> (wk_truncated s' \<longrightarrow> FIND_HITS = length (wk_hits s') \<or> FIND_VISITS < wk_visits s')"

definition fresh_walk :: "walk_state \<Rightarrow> bool" where
  "fresh_walk s \<longleftrightarrow> \<not> wk_truncated s \<and> length (wk_hits s) < FIND_HITS \<and> wk_visits s \<le> FIND_VISITS"

lemma walked_refl: "fresh_walk s \<Longrightarrow> walked s [] s"
  by (simp add: walked_def fresh_walk_def)

lemma walked_fresh: "walked s xs s' \<Longrightarrow> \<not> wk_truncated s' \<Longrightarrow> fresh_walk s'"
  unfolding walked_def fresh_walk_def by blast

lemma walked_trans:
  assumes "walked s xs s'" "\<not> wk_truncated s'" "walked s' ys s''"
  shows "walked s (xs @ ys) s''"
proof -
  have h: "wk_hits s' = wk_hits s @ xs" using assms(1,2) by (simp add: walked_def)
  show ?thesis using assms(3) unfolding walked_def h append.assoc .
qed

lemma walked_stop: "walked s xs s' \<Longrightarrow> wk_truncated s' \<Longrightarrow> walked s (xs @ ys) s'"
proof -
  assume w: "walked s xs s'" and t: "wk_truncated s'"
  have "prefix (wk_hits s') (wk_hits s @ xs @ ys)" using w prefix_prefix [of "wk_hits s'" "wk_hits s @ xs" ys] by (simp add: walked_def)
  with w t show ?thesis unfolding walked_def by blast
qed

lemma walked_start:
  assumes "wk_hits s = wk_hits s0" "walked s xs s'"
  shows "walked s0 xs s'"
  using assms(2) unfolding walked_def assms(1) .

lemma walk_walked:
  "fresh_walk s \<Longrightarrow> walked s (listing env names ignored d) (walk_dir env names ignored d s)"
  "fresh_walk s \<Longrightarrow> walked s (listing_of env names here es) (walk_entries env names here es s)"
proof (induction env names ignored d s and env names here es s rule: walk_dir_walk_entries.induct)
  case (1 env names ignored ignore entries s)
  then show ?case by (auto simp: fresh_walk_def walked_refl Let_def split: option.splits)
next
  case (2 env names here s)
  then show ?case by (simp add: walked_refl)
next
  case (3 env names here e es s)
  let ?s1 = "s\<lparr>wk_visits := wk_visits s + 1\<rparr>" and ?at = "names @ [entry_name e]"
  let ?hit = "matches (we_shown env ?at) (we_terms env)"
  let ?s2 = "if ?hit then ?s1\<lparr>wk_hits := wk_hits ?s1 @ [(we_shown env ?at, entry_type e)],
                 wk_truncated := (FIND_HITS \<le> length (wk_hits ?s1) + 1)\<rparr> else ?s1"
  let ?own = "if ?hit then [(we_shown env ?at, entry_type e)] else []"
  let ?s3 = "case e of EDir n d \<Rightarrow> walk_dir env ?at here d ?s2 | _ \<Rightarrow> ?s2"
  let ?below = "case e of EDir n d \<Rightarrow> listing env ?at here d | _ \<Rightarrow> []"
  have h1: "wk_hits ?s1 = wk_hits s" by simp
  show ?case
  proof (cases "FIND_VISITS < wk_visits ?s1")
    case True
    then show ?thesis using 3(4) by (auto simp: walked_def fresh_walk_def Let_def)
  next
    case vis: False
    then have f1: "fresh_walk ?s1" using 3(4) by (simp add: fresh_walk_def)
    show ?thesis
    proof (cases "we_respect env \<and> hides here (entry_name e)")
      case True
      with 3(1) [OF refl refl] vis f1 have "walked ?s1 (listing_of env names here es) (walk_entries env names here es ?s1)" by simp
      from walked_start [OF h1 this] vis True show ?thesis by (simp add: Let_def)
    next
      case shown: False
      have w2: "walked ?s1 ?own ?s2" using f1 by (auto simp: walked_def fresh_walk_def)
      have step: "walk_entries env names here (e # es) s =
          (if wk_truncated ?s2 then ?s2 else if wk_truncated ?s3 then ?s3 else walk_entries env names here es ?s3)"
        unfolding walk_entries.simps Let_def using vis shown by (simp only: if_False)
      have all: "listing_of env names here (e # es) = ?own @ ?below @ listing_of env names here es"
        unfolding listing_of.simps Let_def using shown by (simp only: if_False)
      have "walked ?s1 (?own @ ?below @ listing_of env names here es) (walk_entries env names here (e # es) s)"
      proof (cases "wk_truncated ?s2")
        case True
        then show ?thesis unfolding step using walked_stop [OF w2] by simp
      next
        case t2: False
        have f2: "fresh_walk ?s2" by (rule walked_fresh [OF w2 t2])
        have w3: "walked ?s2 ?below ?s3"
          using 3(2) [OF refl refl vis shown refl t2] f2 walked_refl [OF f2] by (cases e) simp_all
        note w13 = walked_trans [OF w2 t2 w3]
        show ?thesis
        proof (cases "wk_truncated ?s3")
          case True
          then show ?thesis unfolding step using walked_stop [OF w13 True] t2 by simp
        next
          case t3: False
          have "walked ?s3 (listing_of env names here es) (walk_entries env names here es ?s3)"
            using 3(3) [OF refl refl vis shown refl t2 refl t3] walked_fresh [OF w3 t3] by blast
          then show ?thesis unfolding step using walked_trans [OF w13 t3] t2 t3 by simp
        qed
      qed
      from walked_start [OF h1 this] show ?thesis unfolding all .
    qed
  qed
qed

definition find_env :: "located \<Rightarrow> string \<Rightarrow> bool option \<Rightarrow> walk_env" where
  "find_env at query respect =
     \<lparr>we_respect = (case respect of None \<Rightarrow> True | Some b \<Rightarrow> b), we_shown = shown_at at, we_terms = parseQuery query\<rparr>"

lemma find_files_walked:
  "walked \<lparr>wk_hits = [], wk_visits = 0, wk_truncated = False\<rparr>
     (listing \<lparr>we_respect = respect, we_shown = shown_at at, we_terms = terms\<rparr> [] [] tree) (find_files at terms respect tree)"
  unfolding find_files_def by (rule walk_walked) (simp add: fresh_walk_def FIND_HITS_def)

lemma listing_matches:
  "list_all (\<lambda>h. matches (fst h) (we_terms env)) (listing env names ignored d)"
  "list_all (\<lambda>h. matches (fst h) (we_terms env)) (listing_of env names here es)"
proof (induction env names ignored d and env names here es rule: listing_listing_of.induct)
  case (1 env names ignored ignore entries)
  then show ?case by (cases entries) simp_all
next
  case (3 env names here e es)
  then show ?case by (cases e) (simp_all add: Let_def)
qed simp

lemma file_find_cases:
  assumes "file_find w tree v sid kind root query respect = Answered (hits, truncated)"
  obtains at where "dir_root w sid kind root v = Inr at"
    "(hits, truncated) = (if tm_include (parseQuery query) = [] then ([], False)
       else let r = find_files at (parseQuery query) (case respect of None \<Rightarrow> True | Some b \<Rightarrow> b) (tree (lc_real at))
            in (wk_hits r, wk_truncated r))"
  using assms by (auto simp: file_find_def Let_def split: sum.splits if_splits)

text \<open>
  C31: a search answers the listing. What \<open>file.find\<close> answers is, in the order of the walk, the start of
  the list of every entry the ignore rules leave visible and the query matches; at most \<open>FIND_HITS\<close>
  of it, and all of it when the answer is not called truncated. It walks from a folder the caller may
  reach. A query that includes nothing answers nothing.
\<close>

theorem find_answers_the_listing:
  assumes "file_find w tree v sid kind root query respect = Answered (hits, truncated)"
  shows "\<exists>at. dir_root w sid kind root v = Inr at
    \<and> (let all = (if tm_include (parseQuery query) = [] then [] else listing (find_env at query respect) [] [] (tree (lc_real at)))
       in prefix hits all \<and> (\<not> truncated \<longrightarrow> hits = all))
    \<and> length hits \<le> FIND_HITS \<and> list_all (\<lambda>h. matches (fst h) (parseQuery query)) hits"
proof -
  from assms obtain at where at: "dir_root w sid kind root v = Inr at"
    "(hits, truncated) = (if tm_include (parseQuery query) = [] then ([], False)
       else let r = find_files at (parseQuery query) (case respect of None \<Rightarrow> True | Some b \<Rightarrow> b) (tree (lc_real at))
            in (wk_hits r, wk_truncated r))" by (rule file_find_cases)
  show ?thesis
  proof (cases "tm_include (parseQuery query) = []")
    case True
    with at show ?thesis by simp
  next
    case False
    define r where "r = find_files at (parseQuery query) (case respect of None \<Rightarrow> True | Some b \<Rightarrow> b) (tree (lc_real at))"
    let ?all = "listing (find_env at query respect) [] [] (tree (lc_real at))"
    have h: "hits = wk_hits r" "truncated = wk_truncated r" using at(2) False by (simp_all add: r_def Let_def)
    have w: "walked \<lparr>wk_hits = [], wk_visits = 0, wk_truncated = False\<rparr> ?all r"
      unfolding r_def find_env_def by (rule find_files_walked)
    then have pre: "prefix hits ?all" and "length hits \<le> FIND_HITS" "\<not> truncated \<longrightarrow> hits = ?all"
      unfolding h walked_def by simp_all
    moreover have "list_all (\<lambda>h. matches (fst h) (parseQuery query)) ?all"
      using listing_matches(1) [of "find_env at query respect"] by (simp add: find_env_def)
    then have "list_all (\<lambda>h. matches (fst h) (parseQuery query)) hits" using pre by (auto simp: prefix_def)
    ultimately show ?thesis using at(1) False by (intro exI [of _ at]) (simp add: Let_def)
  qed
qed

text \<open>A folder with an ignored folder, a link and two files.\<close>

definition example_tree :: fs_dir where
  "example_tree = FsDir (Some ''vendor/'')
     (Some [EDir ''vendor'' (FsDir None (Some [EFile ''api.ts''])), EFile ''api.ts'', ELink ''apis'',
            EDir ''lib'' (FsDir None (Some [EFile ''Api.md'', EFile ''old-api'']))])"

theorem find_answers_the_listing_witness:
  "\<exists>hits. file_find example_world (\<lambda>_. example_tree) \<lparr>vw_role = None, vw_sid = None\<rparr> ''s'' Contained None ''api -old'' None
       = Answered (hits, False)
     \<and> hits = [(''api.ts'', HitFile), (''apis'', HitSymlink), (''lib/Api.md'', HitFile)] \<and> length hits \<le> FIND_HITS"
proof -
  let ?h = "[(''api.ts'', HitFile), (''apis'', HitSymlink), (''lib/Api.md'', HitFile)]"
  let ?at = "\<lparr>lc_kind = Contained, lc_real = ''/r'', lc_path = [], lc_named = ''/r''\<rparr>"
  let ?t = "\<lparr>tm_include = [''api''], tm_exclude = [''old'']\<rparr>"
  have at: "dir_root example_world ''s'' Contained None \<lparr>vw_role = None, vw_sid = None\<rparr> = Inr ?at"
    and t: "parseQuery ''api -old'' = ?t" by code_simp+
  have read: "readIgnoreFile (Some ''vendor/'') = [''vendor'']" "readIgnoreFile None = []"
    and hidden: "hides [''vendor''] ''vendor''" "\<not> hides [''vendor''] ''api.ts''" "\<not> hides [''vendor''] ''apis''"
      "\<not> hides [''vendor''] ''lib''" "\<not> hides [''vendor''] ''Api.md''" "\<not> hides [''vendor''] ''old-api''"
    and m: "matches ''api.ts'' ?t" "matches ''apis'' ?t" "\<not> matches ''lib'' ?t" "matches ''lib/Api.md'' ?t" "\<not> matches ''lib/old-api'' ?t"
    by code_simp+
  have "find_files ?at ?t True example_tree = \<lparr>wk_hits = ?h, wk_visits = 6, wk_truncated = False\<rparr>"
    by (simp add: find_files_def example_tree_def shown_at_def read hidden m FIND_VISITS_def FIND_HITS_def)
  with at t have a: "file_find example_world (\<lambda>_. example_tree) \<lparr>vw_role = None, vw_sid = None\<rparr> ''s'' Contained None ''api -old'' None
      = Answered (?h, False)" by (simp add: file_find_def)
  from find_answers_the_listing [OF a] have "length ?h \<le> FIND_HITS" by blast
  with a show ?thesis by blast
qed

text \<open>A match set that fills the reply exactly is answered whole and called truncated.\<close>

lemma full_listing_called_truncated:
  assumes "length (listing \<lparr>we_respect = respect, we_shown = shown_at at, we_terms = terms\<rparr> [] [] tree) = FIND_HITS"
  shows "wk_truncated (find_files at terms respect tree)
    \<and> (wk_visits (find_files at terms respect tree) \<le> FIND_VISITS \<longrightarrow>
        wk_hits (find_files at terms respect tree) = listing \<lparr>we_respect = respect, we_shown = shown_at at, we_terms = terms\<rparr> [] [] tree)"
proof -
  note w = find_files_walked [of respect at terms tree, unfolded walked_def, simplified]
  from w assms have t: "wk_truncated (find_files at terms respect tree)" by (metis less_irrefl)
  with w assms have "length (wk_hits (find_files at terms respect tree)) = FIND_HITS"
    if "wk_visits (find_files at terms respect tree) \<le> FIND_VISITS" using that by (metis linorder_not_le)
  with t w assms show ?thesis by (metis append_eq_conv_conj prefix_def take_all order_refl)
qed

section \<open>What a change touches\<close>

text \<open>What is relied on about the files: a plain file in a folder is its own name.\<close>

definition files_laws :: "files \<Rightarrow> bool" where
  "files_laws f \<longleftrightarrow> realpath_laws (pw_realpath (ff_world f))
     \<and> (\<forall>q b c t. pw_realpath (ff_world f) q = Some q \<longrightarrow> proper b \<longrightarrow> map_of (ff_nodes f) (path_join q b) = Some (FileNode c t)
          \<longrightarrow> pw_realpath (ff_world f) (path_join q b) = Some (path_join q b))"

lemma files_lawsD:
  assumes "files_laws f"
  shows "realpath_laws (pw_realpath (ff_world f))"
    and "pw_realpath (ff_world f) q = Some q \<Longrightarrow> proper b \<Longrightarrow> map_of (ff_nodes f) (path_join q b) = Some (FileNode c t) \<Longrightarrow>
      pw_realpath (ff_world f) (path_join q b) = Some (path_join q b)"
  using assms unfolding files_laws_def by blast+

lemma stat_of_file: "stat_of f p = Some (FileNode c t) \<longleftrightarrow> map_of (ff_nodes f) p = Some (FileNode c t)"
  by (auto simp: stat_of_def split: option.splits fs_node.splits)

lemma is_file_iff: "is_file n \<longleftrightarrow> (\<exists>c t. n = Some (FileNode c t))"
  by (cases n rule: is_file.cases) auto

text \<open>A normal path is walked to by its own folder.\<close>

lemma split_on_normal:
  assumes "normal p" "segments p \<noteq> []"
  shows "split_on sep p = [] # segments p"
proof -
  have "list_all (\<lambda>s. sep \<notin> set s) (segments p)" using segments_proper [of p] by (auto simp: proper_def list_all_iff)
  from split_concat [OF this assms(2)] show ?thesis using path_of_eq [OF assms(2)] normal_path_of [OF assms(1)] by simp
qed

lemma join_path_of: "ss \<noteq> [] \<Longrightarrow> join [sep] ([] # ss) = path_of ss"
proof (induction ss rule: path_of.induct)
  case (3 s v ss)
  then show ?case by simp
qed simp_all

lemma raw_normal:
  assumes "normal p" "segments p \<noteq> []"
  shows "raw_parent p = dirname p" "raw_base p = basename p" "proper (basename p)"
proof -
  note s = split_on_normal [OF assms]
  show "raw_base p = basename p" using assms(2) by (simp add: raw_base_def s basename_def)
  show "proper (basename p)" using assms(2) segments_proper [of p] by (simp add: basename_def list_all_iff)
  show "raw_parent p = dirname p"
  proof (cases "butlast (segments p)")
    case Nil
    then show ?thesis using assms(2) by (simp add: raw_parent_def s dirname_def)
  next
    case (Cons x xs)
    then show ?thesis using assms(2) join_path_of [of "x # xs"] by (simp add: raw_parent_def s dirname_def)
  qed
qed

text \<open>So what is unlinked under a normal path is what was located, when a plain file has that name.\<close>

lemma unlinked_is_located:
  assumes laws: "files_laws f" and n: "normal p" and plain: "is_file (lstatOf f p)"
  shows "name_of f p = Some (canonical (ff_world f) p)"
proof -
  let ?w = "ff_world f"
  note rl = files_lawsD(1) [OF laws]
  have self: "resolve1 (pw_cwd ?w) p = p" by (rule resolve_normal [OF n])
  obtain c t where ct: "lstatOf f p = Some (FileNode c t)" using plain by (auto simp: is_file_iff)
  show ?thesis
  proof (cases "segments p = []")
    case True
    then have "raw_base p = []" using normal_path_of [OF n] by (auto simp: raw_base_def sep_def)
    then have "name_of f p = pw_realpath ?w p" by (simp add: name_of_def proper_def)
    with ct show ?thesis by (cases "pw_realpath ?w p") (auto simp: lstatOf_def canonical_def self)
  next
    case False
    note r = raw_normal [OF n False]
    obtain q where q: "pw_realpath ?w (dirname p) = Some q" "name_of f p = Some (path_join q (basename p))"
      using ct r by (cases "pw_realpath ?w (dirname p)") (auto simp: lstatOf_def name_of_def)
    have "pw_realpath ?w (path_join q (basename p)) = Some (path_join q (basename p))"
      using ct q by (intro files_lawsD(2) [OF laws realpath_lawsD(2) [OF rl q(1)] r(3)]) (simp add: lstatOf_def)
    then have "pw_realpath ?w p = Some (path_join q (basename p))" using realpath_lawsD(3) [OF rl n False q(1)] by simp
    with q(2) show ?thesis by (simp add: canonical_def self)
  qed
qed

text \<open>The three ops that change files, and what became of the names.\<close>

datatype file_change =
    FcCreate path_args string int
  | FcEdit path_args string timestamp nat int
  | FcDelete path_args

fun change_args :: "file_change \<Rightarrow> path_args" where
  "change_args (FcCreate a c n) = a"
| "change_args (FcEdit a c m sz n) = a"
| "change_args (FcDelete a) = a"

fun change_done :: "base64 \<Rightarrow> viewer \<Rightarrow> file_change \<Rightarrow> files \<Rightarrow> bool \<times> files" where
  "change_done b64 v (FcCreate a c n) f = map_prod (\<lambda>r. case r of Answered _ \<Rightarrow> True | _ \<Rightarrow> False) id (file_create b64 v a c n f)"
| "change_done b64 v (FcEdit a c m sz n) f = map_prod (\<lambda>r. case r of Answered _ \<Rightarrow> True | _ \<Rightarrow> False) id (file_edit b64 v a c m sz n f)"
| "change_done b64 v (FcDelete a) f = map_prod (\<lambda>r. case r of Answered _ \<Rightarrow> True | _ \<Rightarrow> False) id (file_delete v a f)"

definition only_at :: "string \<Rightarrow> files \<Rightarrow> files \<Rightarrow> bool" where
  "only_at p f f' \<longleftrightarrow> ff_world f' = ff_world f \<and> (\<forall>q. q \<noteq> p \<longrightarrow> map_of (ff_nodes f') q = map_of (ff_nodes f) q)"

lemma create_done:
  assumes "change_done b64 v (FcCreate a c n) f = (done, f')"
  shows "(\<not> done \<longrightarrow> f' = f) \<and> (done \<longrightarrow> (\<exists>loc. locate (ff_world f) a v = Inr loc \<and> only_at (lc_real loc) f f'
     \<and> map_of (ff_nodes f) (lc_real loc) = None \<and> map_of (ff_nodes f') (lc_real loc) = Some (FileNode (b64_decode b64 c) n)))"
  using assms
  by (auto simp: file_create_def create_file_def decoded_def only_at_def Let_def split: sum.splits if_splits)

lemma edit_done:
  assumes "change_done b64 v (FcEdit a c m sz n) f = (done, f')"
  shows "(\<not> done \<longrightarrow> f' = f) \<and> (done \<longrightarrow> (\<exists>loc before t. locate (ff_world f) a v = Inr loc \<and> only_at (lc_real loc) f f'
     \<and> map_of (ff_nodes f) (lc_real loc) = Some (FileNode before t) \<and> mtimeOf t = m \<and> length before = sz
     \<and> map_of (ff_nodes f') (lc_real loc) = Some (FileNode (b64_decode b64 c) n)))"
  using assms
  by (auto simp: file_edit_def existing_def decoded_def only_at_def Let_def stat_of_file
           split: sum.splits if_splits fs_node.splits option.splits)

lemma delete_done:
  assumes "files_laws f" and "change_done b64 v (FcDelete a) f = (done, f')"
  shows "(\<not> done \<longrightarrow> f' = f) \<and> (done \<longrightarrow> (\<exists>loc. locate (ff_world f) a v = Inr loc
     \<and> (normal (lc_named loc) \<longrightarrow> only_at (lc_real loc) f f' \<and> map_of (ff_nodes f') (lc_real loc) = None)))"
proof (cases "locate (ff_world f) a v")
  case (Inl e)
  with assms show ?thesis by (simp add: file_delete_def)
next
  case (Inr loc)
  have real: "lc_real loc = canonical (ff_world f) (lc_named loc)" using Inr by (auto elim: locate_parts)
  show ?thesis
  proof (cases "is_file (lstatOf f (lc_named loc))")
    case True
    then have d: "done" "f' = unlink (lc_named loc) f" using assms(2) Inr by (auto simp: file_delete_def is_file_iff)
    have "only_at (lc_real loc) f f' \<and> map_of (ff_nodes f') (lc_real loc) = None" if "normal (lc_named loc)"
      using unlinked_is_located [OF assms(1) that True] by (simp add: d(2) unlink_def only_at_def real)
    then show ?thesis using d(1) Inr by blast
  next
    case False
    then show ?thesis using assms(2) Inr by (auto simp: file_delete_def split: option.splits)
  qed
qed

text \<open>
  C8: a change touches one name, and it is inside. Whichever of \<open>file.create\<close>, \<open>file.edit\<close> and
  \<open>file.delete\<close> a caller asks for, a deletion in the workspace or external kinds being of a path written
  without \<open>.\<close> and \<open>..\<close> segments (with them it can remove a name outside, as
  \<open>delete_leaves_the_surface\<close> shows): a refusal changes nothing, and a change is made for a caller who
  sees the session, at one name the session's allowlists reach, every other name staying as it was.
  A created name was free; an edited one held a file of exactly the time and size the caller stated;
  both hold the decoded content afterwards, and a deleted one holds nothing.
\<close>

theorem changes_stay_inside:
  assumes "files_laws f" and "change_done b64 v ch f = (done, f')"
    and "\<And>a. ch = FcDelete a \<Longrightarrow> pa_kind a = Contained \<or> normal (pa_path a)"
  shows "(\<not> done \<longrightarrow> f' = f)
    \<and> (done \<longrightarrow> sees (pa_sid (change_args ch)) v
        \<and> (\<exists>p. reachable (ff_world f) (pa_sid (change_args ch)) (pa_kind (change_args ch)) p \<and> only_at p f f'
            \<and> (case ch of
                 FcCreate a c n \<Rightarrow> map_of (ff_nodes f) p = None \<and> map_of (ff_nodes f') p = Some (FileNode (b64_decode b64 c) n)
               | FcEdit a c m sz n \<Rightarrow> (\<exists>before t. map_of (ff_nodes f) p = Some (FileNode before t) \<and> mtimeOf t = m \<and> length before = sz)
                   \<and> map_of (ff_nodes f') p = Some (FileNode (b64_decode b64 c) n)
               | FcDelete a \<Rightarrow> map_of (ff_nodes f') p = None)))"
proof -
  note inside = located_reachable(1,3) [OF files_lawsD(1) [OF assms(1)]]
  show ?thesis
  proof (cases ch)
    case (FcCreate a c n)
    from create_done [OF assms(2) [unfolded FcCreate]] inside show ?thesis unfolding FcCreate by simp blast
  next
    case (FcEdit a c m sz n)
    from edit_done [OF assms(2) [unfolded FcEdit]] inside show ?thesis unfolding FcEdit by simp blast
  next
    case (FcDelete a)
    from delete_done [OF assms(1) assms(2) [unfolded FcDelete]] inside named_normal assms(3) [OF FcDelete]
    show ?thesis unfolding FcDelete by simp blast
  qed
qed

text \<open>A file system as above in which \<open>/r/docs/inbox/out/..\<close> is where the link's target lies, \<open>/\<close>.\<close>

definition example_files :: files where
  "example_files = \<lparr>ff_nodes = [(''/r/a'', FileNode [104, 105] 5000), (''/f'', FileNode [1] 7), (''/r'', DirNode 0)],
     ff_world = \<lparr>pw_cwd = ''/'', pw_realpath = (\<lambda>p. if p = ''/r/docs/inbox/out/..'' then Some ''/'' else example_realpath p),
       pw_roots = (\<lambda>s. if s = ''s'' then Some \<lparr>sr_root = Some ''/r'', sr_cwd = Some ''/r'', sr_workspace_folders = [''/r/docs/inbox''], sr_external_files = []\<rparr>
                     else None)\<rparr>\<rparr>"

lemma up_not_normal: "normal p \<Longrightarrow> p \<noteq> ''/r/docs/inbox/out/..''"
proof
  assume "normal p" "p = ''/r/docs/inbox/out/..''"
  then have "path_of (segments ''/r/docs/inbox/out/..'') = ''/r/docs/inbox/out/..''" using normal_path_of by simp
  then show False by code_simp
qed

lemma example_files_laws: "files_laws example_files"
proof -
  let ?rp = "pw_realpath (ff_world example_files)"
  have up: "?rp ''/r/docs/inbox/out/..'' = Some ''/''" and root: "?rp ''/'' = Some ''/''" "normal ''/''"
    by (code_simp, code_simp) (auto simp: normal_def intro: exI [of _ "[]"])
  have same: "?rp p = example_realpath p" if "p \<noteq> ''/r/docs/inbox/out/..''" for p using that by (simp add: example_files_def)
  note el = realpath_lawsD [OF example_laws]
  have one: "normal r \<and> ?rp r = Some r" if r: "?rp p = Some r" for p r
  proof (cases "p = ''/r/docs/inbox/out/..''")
    case True
    with r up root show ?thesis by simp
  next
    case False
    then have e: "example_realpath p = Some r" using r same by simp
    from el(1) [OF this] have "normal r" .
    with el(2) [OF e] show ?thesis using same up_not_normal by simp
  qed
  have two: "?rp p = ?rp (path_join q (basename p))" if n: "normal p" "segments p \<noteq> []" and q: "?rp (dirname p) = Some q" for p q
  proof -
    have "normal (dirname p)" unfolding dirname_def normal_def using segments_proper [of p]
      by (auto simp: list_all_iff dest: in_set_butlastD)
    then have "example_realpath (dirname p) = Some q" using q same up_not_normal by simp
    moreover have "normal (path_join q (basename p))" using join_child(2) [OF n] one [OF q] by blast
    ultimately show ?thesis using el(3) [OF n] same up_not_normal n(1) by simp
  qed
  have "?rp (path_join q b) = Some (path_join q b)" if "map_of (ff_nodes example_files) (path_join q b) = Some (FileNode c t)" for q b c t
  proof -
    have "path_join q b \<in> {''/r/a'', ''/f''}" using that by (auto simp: example_files_def split: if_splits)
    moreover have "?rp ''/r/a'' = Some ''/r/a''" "?rp ''/f'' = Some ''/f''" by code_simp+
    ultimately show ?thesis by auto
  qed
  then show ?thesis unfolding files_laws_def realpath_laws_def using one two by blast
qed

definition plain64 :: base64 where
  "plain64 = \<lparr>b64_decode = map of_char, b64_encode = map char_of\<rparr>"

theorem changes_stay_inside_witness:
  "\<exists>f' p. change_done plain64 \<lparr>vw_role = Some Session, vw_sid = Some ''s''\<rparr>
       (FcEdit \<lparr>pa_sid = ''s'', pa_kind = Contained, pa_path = ''docs/../a''\<rparr> ''ho'' 5 2 9000) example_files = (True, f')
     \<and> reachable (ff_world example_files) ''s'' Contained p \<and> only_at p example_files f'
     \<and> map_of (ff_nodes f') p = Some (FileNode [104, 111] 9000)"
proof -
  let ?v = "\<lparr>vw_role = Some Session, vw_sid = Some ''s''\<rparr>"
  let ?ch = "FcEdit \<lparr>pa_sid = ''s'', pa_kind = Contained, pa_path = ''docs/../a''\<rparr> ''ho'' 5 2 9000"
  obtain d f' where c: "change_done plain64 ?v ?ch example_files = (d, f')" by (cases "change_done plain64 ?v ?ch example_files")
  have "fst (change_done plain64 ?v ?ch example_files)" by code_simp
  then have d: "d = True" unfolding c by simp
  have b: "b64_decode plain64 ''ho'' = [104, 111]" by code_simp
  from changes_stay_inside [OF example_files_laws c] d b c show ?thesis by auto
qed

text \<open>Why a deletion asks for that much. Outside the contained kind the path is taken as written, and
  what is located is not what is unlinked: below a link the two readings of \<open>..\<close> come apart. Here
  \<open>/r/docs/inbox/f\<close> is admitted, and \<open>/f\<close>, which no surface of the session reaches, is removed.\<close>

lemma delete_leaves_the_surface:
  "fst (change_done plain64 \<lparr>vw_role = Some Session, vw_sid = Some ''s''\<rparr>
      (FcDelete \<lparr>pa_sid = ''s'', pa_kind = Workspace, pa_path = ''/r/docs/inbox/out/../f''\<rparr>) example_files)"
  "map_sum id lc_real (locate (ff_world example_files) \<lparr>pa_sid = ''s'', pa_kind = Workspace, pa_path = ''/r/docs/inbox/out/../f''\<rparr>
      \<lparr>vw_role = Some Session, vw_sid = Some ''s''\<rparr>) = Inr ''/r/docs/inbox/f''"
  "map_of (ff_nodes (snd (change_done plain64 \<lparr>vw_role = Some Session, vw_sid = Some ''s''\<rparr>
      (FcDelete \<lparr>pa_sid = ''s'', pa_kind = Workspace, pa_path = ''/r/docs/inbox/out/../f''\<rparr>) example_files))) ''/f'' = None"
  "map_of (ff_nodes example_files) ''/f'' \<noteq> None"
  by code_simp+

section \<open>Reading, editing, reading again\<close>

lemma file_read_answered:
  assumes "file_read ct b64 f v args off len = Answered r"
  obtains loc content t where "locate (ff_world f) args v = Inr loc" "map_of (ff_nodes f) (lc_real loc) = Some (FileNode content t)"
    "fr_path r = lc_path loc" "fr_size r = length content" "fr_binary r = isBinary (bytesOf content SNIFF 0)" "fr_mtime_at r = mtimeOf t"
proof (cases "locate (ff_world f) args v")
  case (Inr loc)
  obtain n where n: "existing f loc = Inr n" using assms Inr by (cases "existing f loc") (auto simp: file_read_def)
  then obtain content t where "n = FileNode content t" using assms Inr by (cases n) (auto simp: file_read_def)
  with n have e: "existing f loc = Inr (FileNode content t)" by simp
  then have m: "map_of (ff_nodes f) (lc_real loc) = Some (FileNode content t)"
    by (auto simp: existing_def stat_of_file split: option.splits)
  show ?thesis
    by (rule that [OF Inr m]) (use assms Inr e in \<open>auto simp: file_read_def Let_def\<close>)
qed (use assms in \<open>simp add: file_read_def\<close>)

lemma existing_file:
  "map_of (ff_nodes f) (lc_real loc) = Some (FileNode c t) \<Longrightarrow> existing f loc = Inr (FileNode c t)"
  by (simp add: existing_def stat_of_def)

lemma file_read_unaffected:
  assumes "only_at p f f'" "\<And>loc. locate (ff_world f) args v = Inr loc \<Longrightarrow> lc_real loc \<noteq> p"
  shows "file_read ct b64 f' v args off len = file_read ct b64 f v args off len"
proof (cases "locate (ff_world f) args v")
  case (Inr loc)
  then have "existing f' loc = existing f loc" using assms by (simp add: only_at_def existing_def stat_of_def)
  with Inr assms(1) show ?thesis by (simp add: file_read_def only_at_def)
qed (use assms(1) in \<open>simp add: file_read_def only_at_def\<close>)

text \<open>
  C30: a file is read, edited under what the reading stated, and read again. The edit is answered with
  the new size and time; reading the path from its start then gives the new bytes, as many as one
  reply carries; whatever is located elsewhere reads as before; and a further edit that still carries
  the first reading's statement is refused and changes nothing, provided the file's size or its
  millisecond changed.
\<close>

theorem read_edit_read:
  assumes "file_read ct b64 f v args off len = Answered r" "\<not> fr_binary r"
    and "b64_decode b64 (b64_encode b64 new) = new" "\<not> isBinary new"
    and "file_edit b64 v args (b64_encode b64 new) (fr_mtime_at r) (fr_size r) now f = (ans, f')"
  shows "ans = Answered \<lparr>fe_path = fr_path r, fe_size = length new, fe_mtime_at = mtimeOf now\<rparr>
    \<and> file_read ct b64 f' v args None None =
        Answered \<lparr>fr_path = fr_path r, fr_size = length new, fr_offset = 0, fr_length = min (length new) (MAX_FILE_READ_BYTES ct),
                  fr_binary = False, fr_content = b64_encode b64 (take (MAX_FILE_READ_BYTES ct) new), fr_mtime_at = mtimeOf now\<rparr>
    \<and> (\<forall>v2 args2 off2 len2.
         (\<forall>loc loc2. locate (ff_world f) args v = Inr loc \<longrightarrow> locate (ff_world f) args2 v2 = Inr loc2 \<longrightarrow> lc_real loc2 \<noteq> lc_real loc)
         \<longrightarrow> file_read ct b64 f' v2 args2 off2 len2 = file_read ct b64 f v2 args2 off2 len2)
    \<and> (mtimeOf now \<noteq> fr_mtime_at r \<or> length new \<noteq> fr_size r \<longrightarrow>
         (\<forall>content' now'. file_edit b64 v args content' (fr_mtime_at r) (fr_size r) now' f'
            = (Refused (''file_conflict'', pa_path args @ '' changed since it was read''), f')))"
proof -
  from assms(1) obtain loc content t where l: "locate (ff_world f) args v = Inr loc"
    "map_of (ff_nodes f) (lc_real loc) = Some (FileNode content t)"
    "fr_path r = lc_path loc" "fr_size r = length content" "fr_binary r = isBinary (bytesOf content SNIFF 0)" "fr_mtime_at r = mtimeOf t"
    by (rule file_read_answered)
  have e: "existing f loc = Inr (FileNode content t)" by (rule existing_file [OF l(2)])
  have plain: "\<not> isBinary (bytesOf content SNIFF 0)" using assms(2) l(5) by simp
  have "(ans, f') = (Answered \<lparr>fe_path = fr_path r, fe_size = length new, fe_mtime_at = mtimeOf now\<rparr>,
      f\<lparr>ff_nodes := map_set (lc_real loc) (FileNode new now) (ff_nodes f)\<rparr>)"
    using assms(3,5) plain unfolding file_edit_def by (simp add: l(1,3,4,6) e decoded_def Let_def)
  then have ans: "ans = Answered \<lparr>fe_path = fr_path r, fe_size = length new, fe_mtime_at = mtimeOf now\<rparr>"
    and f': "f' = f\<lparr>ff_nodes := map_set (lc_real loc) (FileNode new now) (ff_nodes f)\<rparr>" by simp_all
  have l': "locate (ff_world f') args v = Inr loc" using l(1) by (simp add: f')
  have e': "existing f' loc = Inr (FileNode new now)" by (rule existing_file) (simp add: f')
  have plain': "\<not> isBinary (bytesOf new SNIFF 0)" using assms(4) by (simp add: isBinary_def bytesOf_def)
  have only: "only_at (lc_real loc) f f'" by (simp add: only_at_def f')
  have "file_read ct b64 f' v args None None =
      Answered \<lparr>fr_path = fr_path r, fr_size = length new, fr_offset = 0, fr_length = min (length new) (MAX_FILE_READ_BYTES ct),
                fr_binary = False, fr_content = b64_encode b64 (take (MAX_FILE_READ_BYTES ct) new), fr_mtime_at = mtimeOf now\<rparr>"
    unfolding file_read_def l' using e' plain' by (simp add: Let_def l(3) bytesOf_def)
  moreover have "file_edit b64 v args c' (fr_mtime_at r) (fr_size r) n' f'
      = (Refused (''file_conflict'', pa_path args @ '' changed since it was read''), f')"
    if "mtimeOf now \<noteq> fr_mtime_at r \<or> length new \<noteq> fr_size r" for c' n'
    unfolding file_edit_def l' using e' plain' that by simp
  moreover have "file_read ct b64 f' v2 a2 o2 l2 = file_read ct b64 f v2 a2 o2 l2"
    if "\<forall>loc loc2. locate (ff_world f) args v = Inr loc \<longrightarrow> locate (ff_world f) a2 v2 = Inr loc2 \<longrightarrow> lc_real loc2 \<noteq> lc_real loc"
    for v2 a2 o2 l2
    using file_read_unaffected [OF only] that l(1) by blast
  ultimately show ?thesis using ans by blast
qed

theorem read_edit_read_witness:
  "\<exists>r f'. file_read example_contract plain64 example_files \<lparr>vw_role = None, vw_sid = None\<rparr> \<lparr>pa_sid = ''s'', pa_kind = Contained, pa_path = ''a''\<rparr> None None
        = Answered r \<and> fr_content r = ''hi''
     \<and> file_edit plain64 \<lparr>vw_role = None, vw_sid = None\<rparr> \<lparr>pa_sid = ''s'', pa_kind = Contained, pa_path = ''a''\<rparr> ''hello'' (fr_mtime_at r) (fr_size r) 9000 example_files
        = (Answered \<lparr>fe_path = ''a'', fe_size = 5, fe_mtime_at = 9\<rparr>, f')
     \<and> map_option fr_content (case file_read example_contract plain64 f' \<lparr>vw_role = None, vw_sid = None\<rparr>
           \<lparr>pa_sid = ''s'', pa_kind = Contained, pa_path = ''a''\<rparr> None None of Answered x \<Rightarrow> Some x | _ \<Rightarrow> None) = Some ''hell''"
proof -
  let ?v = "\<lparr>vw_role = None, vw_sid = None\<rparr>" and ?a = "\<lparr>pa_sid = ''s'', pa_kind = Contained, pa_path = ''a''\<rparr>"
  let ?r = "\<lparr>fr_path = ''a'', fr_size = 2, fr_offset = 0, fr_length = 2, fr_binary = False, fr_content = ''hi'', fr_mtime_at = 5\<rparr>"
  let ?new = "[104, 101, 108, 108, 111] :: nat list"
  have r: "file_read example_contract plain64 example_files ?v ?a None None = Answered ?r" by code_simp
  have enc: "b64_encode plain64 ?new = ''hello''" "b64_decode plain64 (b64_encode plain64 ?new) = ?new" "\<not> isBinary ?new" by code_simp+
  have cut: "b64_encode plain64 (take (MAX_FILE_READ_BYTES example_contract) ?new) = ''hell''" by code_simp
  obtain ans f' where e: "file_edit plain64 ?v ?a (b64_encode plain64 ?new) (fr_mtime_at ?r) (fr_size ?r) 9000 example_files = (ans, f')"
    by (cases "file_edit plain64 ?v ?a (b64_encode plain64 ?new) (fr_mtime_at ?r) (fr_size ?r) 9000 example_files")
  from read_edit_read [OF r _ enc(2,3) e] have
    "ans = Answered \<lparr>fe_path = ''a'', fe_size = 5, fe_mtime_at = 9\<rparr>"
    "map_option fr_content (case file_read example_contract plain64 f' ?v ?a None None of Answered x \<Rightarrow> Some x | _ \<Rightarrow> None) = Some ''hell''"
    by (simp_all add: cut mtimeOf_def)
  with r e show ?thesis unfolding enc(1) by (intro exI [of _ ?r] exI [of _ f']) simp
qed

text \<open>Two edits under one statement, the first leaving the size as it was within the millisecond the
  file was written in: both are made, and what the first wrote is gone.\<close>

lemma second_edit_overwrites_the_first:
  "let v = \<lparr>vw_role = Some Session, vw_sid = Some ''s''\<rparr>; args = \<lparr>pa_sid = ''s'', pa_kind = Contained, pa_path = ''a''\<rparr>;
       f1 = snd (file_edit plain64 v args ''ho'' 5 2 5400 example_files);
       (ans, f2) = file_edit plain64 v args ''hu'' 5 2 5800 f1
   in ans = Answered \<lparr>fe_path = ''a'', fe_size = 2, fe_mtime_at = 5\<rparr> \<and> map_of (ff_nodes f2) ''/r/a'' = Some (FileNode [104, 117] 5800)"
  by code_simp

end
