(* ===== verification/Tail.thy ===== *)
theory Tail
  imports Framing "HOL-Library.Sublist"
begin

text \<open>
  Following a transcript, \<open>src/transcript/tail.ts\<close>, and reading it backwards in pages,
  \<open>src/transcript/read.ts\<close>.

  A tail is a record. Its methods run between two waits: a reading that waits is a \<open>tail_wait\<close>, the
  place in the code and the locals it goes on with, and every event that resumes one carries what the
  file system call it waited for found. The watch and the poll are one event, a tick, which fires only
  while they are on. What the callbacks were told is kept in order.
\<close>

section \<open>Records in bytes\<close>

definition READ_CHUNK_BYTES :: nat where
  "READ_CHUNK_BYTES = 1024 * 1024"

text \<open>\<open>buffer.toString("utf8")\<close>, which keeps a byte order mark.\<close>

definition utf8_text :: "byte list \<Rightarrow> text_cp" where
  "utf8_text bs = utf8_run 0 0 0x80 0xBF bs"

definition whole :: "byte list \<Rightarrow> byte list" where
  "whole bs = rev (dropWhile (\<lambda>b. b \<noteq> NEWLINE) (rev bs))"

text \<open>The loop is entered with bytes that end in a newline, so that it always finds one.\<close>

function split_records :: "byte list \<Rightarrow> text_cp list" where
  "split_records bs =
     (case index_of NEWLINE bs of
        None \<Rightarrow> []
      | Some newline \<Rightarrow> utf8_text (take newline bs) # split_records (drop (newline + 1) bs))"
  by pat_completeness auto
termination by (relation "measure length") (auto dest: index_of_Some)

declare split_records.simps [simp del]

section \<open>The tail\<close>

record appended =
  ap_lines :: "text_cp list"
  ap_start :: nat
  ap_end :: nat
  ap_size :: nat

text \<open>Which of the two callbacks a reading was handed.\<close>

datatype telling = OnExisting | OnAppended

datatype told = Told telling appended | OnTruncated

text \<open>What a call to the file system found: no file, its bytes, or an error of the read itself.\<close>

datatype found = Missing | Content "byte list" | Failing

datatype tail_wait =
    CatchStat nat nat
  | ReadStat nat nat
  | Slicing telling nat nat nat nat
  | Breathing telling nat nat

text \<open>\<open>CatchStat run fallback\<close> and \<open>ReadStat run fallback\<close> wait for a size, \<open>Slicing state run size from to\<close>
  for the bytes of a range, \<open>Breathing state run size\<close> for a turn of the loop.\<close>

datatype progress = Waiting tail_wait | Over | Raised

record tail =
  tl_run :: nat
  tl_offset :: nat
  tl_size :: nat
  tl_running :: bool
  tl_starting :: "tail_wait list"
  tl_reading :: "tail_wait option"
  tl_chained :: "nat list"
  tl_rejected :: bool
  tl_told :: "told list"

text \<open>\<open>tl_starting\<close> are the calls of \<open>start\<close> still reading, \<open>tl_reading\<close> the reading \<open>#reading\<close> has come to
  and \<open>tl_chained\<close> the runs of those behind it; a chain that was rejected runs nothing any more.\<close>

definition Tail :: tail where
  "Tail = \<lparr>tl_run = 0, tl_offset = 0, tl_size = 0, tl_running = False, tl_starting = [], tl_reading = None,
     tl_chained = [], tl_rejected = False, tl_told = []\<rparr>"

definition tl_tell :: "told \<Rightarrow> tail \<Rightarrow> tail" where
  "tl_tell x t = t\<lparr>tl_told := tl_told t @ [x]\<rparr>"

definition tl_stat :: "nat \<Rightarrow> found \<Rightarrow> nat" where
  "tl_stat fallback r = (case r of Content bs \<Rightarrow> length bs | _ \<Rightarrow> fallback)"

definition tl_slice :: "nat \<Rightarrow> nat \<Rightarrow> found \<Rightarrow> byte list option" where
  "tl_slice from to r =
     (if to \<le> from then Some []
      else case r of Missing \<Rightarrow> Some [] | Content bs \<Rightarrow> Some (take (to - from) (drop from bs)) | Failing \<Rightarrow> None)"

text \<open>The head of \<open>#consume\<close>'s loop.\<close>

definition tl_consume :: "telling \<Rightarrow> nat \<Rightarrow> nat \<Rightarrow> tail \<Rightarrow> progress" where
  "tl_consume state run sz t =
     (if tl_offset t < sz then Waiting (Slicing state run sz (tl_offset t) (min (tl_offset t + READ_CHUNK_BYTES) sz))
      else Over)"

definition tl_sliced :: "telling \<Rightarrow> nat \<Rightarrow> nat \<Rightarrow> nat \<Rightarrow> byte list \<Rightarrow> tail \<Rightarrow> progress \<times> tail" where
  "tl_sliced state run sz to bytes t =
     (let complete = whole bytes in
      if complete = [] \<and> to < sz \<and> run = tl_run t then
        (Waiting (Slicing state run sz (tl_offset t) (min (to + READ_CHUNK_BYTES) sz)), t)
      else if run \<noteq> tl_run t \<or> complete = [] then (Over, t)
      else
        let start = tl_offset t;
            t1 = t\<lparr>tl_offset := start + length complete\<rparr>;
            t2 = tl_tell (Told state \<lparr>ap_lines = split_records complete, ap_start = start, ap_end = tl_offset t1, ap_size = sz\<rparr>) t1
        in (if tl_offset t2 < sz then Waiting (Breathing state run sz) else Over, t2))"

text \<open>A reading goes on with what its call found.\<close>

fun tl_go_on :: "tail_wait \<Rightarrow> found \<Rightarrow> tail \<Rightarrow> progress \<times> tail" where
  "tl_go_on (CatchStat run fallback) r t =
     (let sz = tl_stat fallback r in
      if run \<noteq> tl_run t then (Over, t)
      else let t1 = t\<lparr>tl_size := sz\<rparr> in (tl_consume OnExisting run sz t1, t1))"
| "tl_go_on (ReadStat run fallback) r t =
     (let sz = tl_stat fallback r in
      if run \<noteq> tl_run t then (Over, t)
      else
        let t1 = (if sz < tl_offset t then tl_tell OnTruncated (t\<lparr>tl_offset := 0\<rparr>) else t);
            t2 = t1\<lparr>tl_size := sz\<rparr>
        in (tl_consume OnAppended run sz t2, t2))"
| "tl_go_on (Slicing state run sz from to) r t =
     (case tl_slice from to r of None \<Rightarrow> (Raised, t) | Some bytes \<Rightarrow> tl_sliced state run sz to bytes t)"
| "tl_go_on (Breathing state run sz) r t =
     (if run \<noteq> tl_run t then (Over, t) else (tl_consume state run sz t, t))"

definition tl_start :: "nat \<Rightarrow> tail \<Rightarrow> tail" where
  "tl_start from t =
     (if tl_running t then t
      else t\<lparr>tl_offset := from, tl_starting := tl_starting t @ [CatchStat (tl_run t) from]\<rparr>)"

definition tl_stop :: "tail \<Rightarrow> tail" where
  "tl_stop t = t\<lparr>tl_run := tl_run t + 1, tl_running := False\<rparr>"

text \<open>The next reading of the chain: one of a run that is over returns at once.\<close>

fun tl_chain :: "nat list \<Rightarrow> tail \<Rightarrow> tail" where
  "tl_chain [] t = t\<lparr>tl_reading := None, tl_chained := []\<rparr>"
| "tl_chain (run # runs) t =
     (if run \<noteq> tl_run t then tl_chain runs t
      else t\<lparr>tl_reading := Some (ReadStat run (tl_offset t)), tl_chained := runs\<rparr>)"

definition tl_refresh :: "tail \<Rightarrow> tail" where
  "tl_refresh t =
     (if tl_rejected t then t
      else if tl_reading t = None then tl_chain (tl_chained t @ [tl_run t]) t
      else t\<lparr>tl_chained := tl_chained t @ [tl_run t]\<rparr>)"

definition tl_read_on :: "found \<Rightarrow> tail \<Rightarrow> tail" where
  "tl_read_on r t =
     (case tl_reading t of
        None \<Rightarrow> t
      | Some w \<Rightarrow>
          (case tl_go_on w r t of
             (Waiting w', t1) \<Rightarrow> t1\<lparr>tl_reading := Some w'\<rparr>
           | (Over, t1) \<Rightarrow> tl_chain (tl_chained t1) t1
           | (Raised, t1) \<Rightarrow> t1\<lparr>tl_reading := None, tl_chained := [], tl_rejected := True\<rparr>))"

definition wait_run :: "tail_wait \<Rightarrow> nat" where
  "wait_run w = (case w of CatchStat run _ \<Rightarrow> run | ReadStat run _ \<Rightarrow> run | Slicing _ run _ _ _ \<Rightarrow> run | Breathing _ run _ \<Rightarrow> run)"

text \<open>\<open>start\<close> after its catching up: the watch and the poll are put on unless it was stopped.\<close>

definition drop_nth :: "nat \<Rightarrow> 'a list \<Rightarrow> 'a list" where
  "drop_nth i xs = take i xs @ drop (Suc i) xs"

definition tl_start_on :: "nat \<Rightarrow> found \<Rightarrow> tail \<Rightarrow> tail" where
  "tl_start_on i r t =
     (if i \<ge> length (tl_starting t) then t
      else let w = tl_starting t ! i in
        (case tl_go_on w r t of
           (Waiting w', t1) \<Rightarrow> t1\<lparr>tl_starting := (tl_starting t1)[i := w']\<rparr>
         | (Over, t1) \<Rightarrow>
             let t2 = t1\<lparr>tl_starting := drop_nth i (tl_starting t1)\<rparr>
             in if wait_run w \<noteq> tl_run t2 then t2 else t2\<lparr>tl_running := True\<rparr>
         | (Raised, t1) \<Rightarrow> t1\<lparr>tl_starting := drop_nth i (tl_starting t1)\<rparr>))"

datatype tail_event = Tick | Stop | StartOn nat found | ReadOn found

fun tl_step :: "tail \<Rightarrow> tail_event \<Rightarrow> tail" where
  "tl_step t Tick = (if tl_running t then tl_refresh t else t)"
| "tl_step t Stop = tl_stop t"
| "tl_step t (StartOn i r) = tl_start_on i r t"
| "tl_step t (ReadOn r) = tl_read_on r t"

section \<open>Pages\<close>

definition READ_LIMIT :: nat where
  "READ_LIMIT = 512 * 1024"

record slice_read =
  sr_lines :: "text_cp list"
  sr_start :: nat
  sr_end :: nat
  sr_size :: nat

text \<open>The file as \<open>stat\<close> found it and as the read found it.\<close>

definition readSlice :: "byte list option \<Rightarrow> byte list \<Rightarrow> nat option \<Rightarrow> nat option \<Rightarrow> string + slice_read" where
  "readSlice stated file before maxBytes =
     (case stated of
        None \<Rightarrow> Inl ''not_found''
      | Some there \<Rightarrow>
          let sz = length there;
              until = (case before of None \<Rightarrow> sz | Some b \<Rightarrow> min b sz);
              want = min (case maxBytes of None \<Rightarrow> READ_LIMIT | Some n \<Rightarrow> n) READ_LIMIT;
              from = until - want;
              probe = (if from = 0 then 0 else from - 1);
              complete = whole (take (until - probe) (drop probe file))
          in if complete = [] then Inr \<lparr>sr_lines = [], sr_start = until, sr_end = until, sr_size = sz\<rparr>
             else
               let fin = probe + length complete;
                   first = (if probe < from then (case index_of NEWLINE complete of None \<Rightarrow> 0 | Some i \<Rightarrow> i + 1) else 0)
               in Inr \<lparr>sr_lines = split_records (drop first complete), sr_start = probe + first, sr_end = fin, sr_size = sz\<rparr>)"

section \<open>Whole records\<close>

text \<open>Bytes that stop where a record does.\<close>

definition closed :: "byte list \<Rightarrow> bool" where
  "closed bs \<longleftrightarrow> bs = [] \<or> last bs = NEWLINE"

lemma closed_Nil [simp]: "closed []" by (simp add: closed_def)

lemma closed_append: "closed ys \<Longrightarrow> closed xs \<Longrightarrow> closed (xs @ ys)" by (auto simp: closed_def last_append)

lemma whole_rest: "\<exists>rest. bs = whole bs @ rest \<and> NEWLINE \<notin> set rest"
proof -
  have "bs = whole bs @ rev (takeWhile (\<lambda>b. b \<noteq> NEWLINE) (rev bs))"
    unfolding whole_def by (metis rev_append rev_rev_ident takeWhile_dropWhile_id)
  moreover have "NEWLINE \<notin> set (takeWhile (\<lambda>b. b \<noteq> NEWLINE) (rev bs))" using set_takeWhileD by fastforce
  ultimately show ?thesis by (metis set_rev)
qed

lemma closed_whole [simp]: "closed (whole bs)"
proof (cases "whole bs = []")
  case False
  then have "dropWhile (\<lambda>b. b \<noteq> NEWLINE) (rev bs) \<noteq> []" by (simp add: whole_def)
  then show ?thesis using hd_dropWhile [of "\<lambda>b. b \<noteq> NEWLINE" "rev bs"] by (simp add: whole_def closed_def last_rev)
qed (simp add: closed_def)

lemma whole_id: "closed xs \<Longrightarrow> NEWLINE \<notin> set ys \<Longrightarrow> whole (xs @ ys) = xs"
proof -
  assume c: "closed xs" and n: "NEWLINE \<notin> set ys"
  have "dropWhile (\<lambda>b. b \<noteq> NEWLINE) (rev ys @ rev xs) = dropWhile (\<lambda>b. b \<noteq> NEWLINE) (rev xs)"
    using n by (intro dropWhile_append2) auto
  also have "\<dots> = rev xs" using c by (cases "xs" rule: rev_cases) (auto simp: closed_def)
  finally show ?thesis by (simp add: whole_def)
qed

lemma whole_append: "closed xs \<Longrightarrow> whole (xs @ ys) = xs @ whole ys"
  using whole_rest [of ys] whole_id [of "xs @ whole ys"] by (metis append_assoc closed_append closed_whole)

lemma whole_Nil [simp]: "whole [] = []" by (simp add: whole_def)

lemma whole_none: "whole bs = [] \<longleftrightarrow> NEWLINE \<notin> set bs"
  using whole_rest [of bs] whole_id [of "[]" bs] closed_whole [of bs]
  by (metis append_Nil closed_def in_set_conv_decomp last_in_set append_is_Nil_conv list.distinct(1) Un_iff set_append)

lemma length_whole: "length (whole bs) \<le> length bs"
  using whole_rest [of bs] by (metis length_append le_add1)

lemma index_of_append: "index_of x xs = Some i \<Longrightarrow> index_of x (xs @ ys) = Some i"
  by (induction xs arbitrary: i) (auto split: if_splits)

lemma split_records_closed:
  assumes "closed xs"
  shows "split_records (xs @ ys) = split_records xs @ split_records ys"
  using assms
proof (induction xs rule: split_records.induct)
  case (1 xs)
  show ?case
  proof (cases "index_of NEWLINE xs")
    case None
    then have "NEWLINE \<notin> set xs" by (simp add: index_of_None)
    then have "xs = []" using 1(2) last_in_set unfolding closed_def by force
    then show ?thesis by (simp add: split_records.simps [of "[]"])
  next
    case (Some i)
    note at = index_of_Some [OF Some]
    have "index_of NEWLINE (xs @ ys) = Some i" by (rule index_of_append [OF Some])
    moreover have "closed (drop (i + 1) xs)" using 1(2) unfolding closed_def by (cases "i + 1 < length xs") (auto simp: last_drop)
    ultimately show ?thesis using 1(1) [OF Some] Some conjunct1 [OF at]
      by (simp add: split_records.simps [of "xs @ ys"] split_records.simps [of xs])
  qed
qed

text \<open>A range of the file.\<close>

definition cut :: "byte list \<Rightarrow> nat \<Rightarrow> nat \<Rightarrow> byte list" where
  "cut f a b = take (b - a) (drop a f)"

lemma cut_empty [simp]: "cut f a a = []" by (simp add: cut_def)

lemma length_cut [simp]: "b \<le> length f \<Longrightarrow> length (cut f a b) = b - a" by (simp add: cut_def)

lemma cut_append: "a \<le> b \<Longrightarrow> b \<le> c \<Longrightarrow> cut f a c = cut f a b @ cut f b c"
proof -
  assume "a \<le> b" "b \<le> c"
  then have "take (c - a) (drop a f) = take (b - a) (drop a f) @ take (c - b) (drop (b - a) (drop a f))"
    using take_add [of "b - a" "c - b" "drop a f"] by simp
  with \<open>a \<le> b\<close> show ?thesis by (simp add: cut_def)
qed

lemma drop_cut: "drop j (cut f a b) = cut f (a + j) b" by (simp add: cut_def drop_take add.commute)

lemma cut_prefix: "prefix c f \<Longrightarrow> b \<le> length c \<Longrightarrow> cut c a b = cut f a b"
  by (auto simp: cut_def prefix_def)

lemma whole_cut:
  assumes "a \<le> b" "b \<le> length f"
  shows "whole (cut f a b) = cut f a (a + length (whole (cut f a b)))" "a + length (whole (cut f a b)) \<le> b"
proof -
  let ?n = "length (whole (cut f a b))"
  show le: "a + ?n \<le> b" using length_whole [of "cut f a b"] assms by simp
  obtain rest where "cut f a b = whole (cut f a b) @ rest" using whole_rest by blast
  then have "whole (cut f a b) = take ?n (cut f a b)" by (metis append_eq_conv_conj)
  also have "\<dots> = cut f a (a + ?n)" using le by (simp add: cut_def min_def)
  finally show "whole (cut f a b) = cut f a (a + ?n)" .
qed

section \<open>What a tail states\<close>

text \<open>What was told covers the file \<open>f\<close> from \<open>a\<close> to \<open>b\<close>, one piece after the other, each of them whole records.\<close>

fun covers :: "byte list \<Rightarrow> nat \<Rightarrow> told list \<Rightarrow> nat \<Rightarrow> bool" where
  "covers f a [] b \<longleftrightarrow> a = b"
| "covers f a (Told k p # ts) b \<longleftrightarrow>
     ap_start p = a \<and> a < ap_end p \<and> ap_end p \<le> ap_size p \<and> ap_size p \<le> length f
     \<and> closed (cut f a (ap_end p)) \<and> ap_lines p = split_records (cut f a (ap_end p)) \<and> covers f (ap_end p) ts b"
| "covers f a (OnTruncated # ts) b \<longleftrightarrow> False"

definition told_lines :: "told list \<Rightarrow> text_cp list" where
  "told_lines ts = concat (map (\<lambda>t. case t of Told k p \<Rightarrow> ap_lines p | OnTruncated \<Rightarrow> []) ts)"

lemma covers_le: "covers f a ts b \<Longrightarrow> a \<le> b"
  by (induction f a ts b rule: covers.induct) auto

lemma covers_snoc:
  "covers f a (ts @ [Told k p]) c \<longleftrightarrow>
     (\<exists>b. covers f a ts b \<and> ap_start p = b \<and> b < ap_end p \<and> ap_end p \<le> ap_size p \<and> ap_size p \<le> length f
       \<and> closed (cut f b (ap_end p)) \<and> ap_lines p = split_records (cut f b (ap_end p)) \<and> ap_end p = c)"
  by (induction f a ts c rule: covers.induct) auto

lemma covers_lines: "covers f a ts b \<Longrightarrow> closed (cut f a b) \<and> told_lines ts = split_records (cut f a b)"
proof (induction f a ts b rule: covers.induct)
  case (1 f a b)
  then show ?case by (simp add: told_lines_def split_records.simps [of "[]"])
next
  case (2 f a k p ts b)
  then have "a \<le> ap_end p" "ap_end p \<le> b" using covers_le by auto
  from cut_append [OF this, of f] 2 show ?case by (auto simp: told_lines_def closed_append split_records_closed)
qed simp

section \<open>The invariant of a file that only grows\<close>

text \<open>\<open>m\<close> bytes have been seen; a wait of the standing run is one for the range that starts at the offset.\<close>

definition tl_placed :: "byte list \<Rightarrow> nat \<Rightarrow> nat \<Rightarrow> tail \<Rightarrow> bool" where
  "tl_placed f a m t \<longleftrightarrow> tl_offset t \<le> m \<and> m \<le> length f \<and> covers f a (tl_told t) (tl_offset t)"

fun wait_ok :: "nat \<Rightarrow> nat \<Rightarrow> tail_wait \<Rightarrow> bool" where
  "wait_ok m offset (CatchStat run fallback) \<longleftrightarrow> fallback = offset"
| "wait_ok m offset (ReadStat run fallback) \<longleftrightarrow> fallback = offset"
| "wait_ok m offset (Slicing state run sz from to) \<longleftrightarrow> from = offset \<and> from < to \<and> to \<le> sz \<and> sz \<le> m"
| "wait_ok m offset (Breathing state run sz) \<longleftrightarrow> sz \<le> m"

definition waits :: "tail \<Rightarrow> tail_wait set" where
  "waits t = set (tl_starting t) \<union> set_option (tl_reading t)"

definition tail_inv :: "byte list \<Rightarrow> nat \<Rightarrow> nat \<Rightarrow> tail \<Rightarrow> bool" where
  "tail_inv f a m t \<longleftrightarrow>
     tl_placed f a m t
     \<and> (\<forall>w \<in> waits t. wait_run w \<le> tl_run t \<and> (wait_run w = tl_run t \<longrightarrow> wait_ok m (tl_offset t) w))
     \<and> length (tl_starting t) \<le> 1
     \<and> (\<forall>w \<in> set (tl_starting t). wait_run w = tl_run t \<longrightarrow> \<not> tl_running t \<and> tl_reading t = None \<and> tl_chained t = [])"

text \<open>What a call finds: no less than was seen before, and the beginning of what the file becomes.\<close>

fun grown :: "byte list \<Rightarrow> nat \<Rightarrow> found \<Rightarrow> bool" where
  "grown f m (Content c) \<longleftrightarrow> prefix c f \<and> m \<le> length c"
| "grown f m r \<longleftrightarrow> True"

fun seen :: "nat \<Rightarrow> found \<Rightarrow> nat" where
  "seen m (Content c) = length c"
| "seen m r = m"

lemma seen_le: "grown f m r \<Longrightarrow> m \<le> seen m r" by (cases r) auto

lemma seen_in: "grown f m r \<Longrightarrow> m \<le> length f \<Longrightarrow> seen m r \<le> length f" by (cases r) (auto dest: prefix_length_le)

lemma wait_ok_mono: "wait_ok m n w \<Longrightarrow> m \<le> m' \<Longrightarrow> wait_ok m' n w" by (cases w) auto

lemma wait_run_simps [simp]:
  "wait_run (CatchStat run x) = run" "wait_run (ReadStat run x) = run"
  "wait_run (Slicing k run sz from to) = run" "wait_run (Breathing k run sz) = run"
  by (simp_all add: wait_run_def)

lemma READ_CHUNK_pos [simp]: "0 < READ_CHUNK_BYTES" by (simp add: READ_CHUNK_BYTES_def)

text \<open>Nothing of a tail but the offset, the size and what was told changes while a reading goes on.\<close>

definition same_frame :: "tail \<Rightarrow> tail \<Rightarrow> bool" where
  "same_frame t t' \<longleftrightarrow> tl_run t' = tl_run t \<and> tl_running t' = tl_running t \<and> tl_starting t' = tl_starting t
     \<and> tl_reading t' = tl_reading t \<and> tl_chained t' = tl_chained t \<and> tl_rejected t' = tl_rejected t"

lemma go_on_frame: "same_frame t (snd (tl_go_on w r t))"
  by (cases w) (auto simp: same_frame_def tl_sliced_def tl_tell_def Let_def split: option.splits)

lemma go_on_stale: "wait_run w \<noteq> tl_run t \<Longrightarrow> snd (tl_go_on w r t) = t \<and> (\<forall>w'. fst (tl_go_on w r t) \<noteq> Waiting w')"
  by (cases w) (auto simp: tl_sliced_def Let_def split: option.splits)

lemma consume_size [simp]: "tl_consume k run sz (t\<lparr>tl_size := x\<rparr>) = tl_consume k run sz t"
  by (simp add: tl_consume_def)

lemma consume_ok:
  assumes "tl_consume k run sz t = Waiting w" "sz \<le> m"
  shows "wait_run w = run \<and> wait_ok m (tl_offset t) w"
  using assms by (auto simp: tl_consume_def split: if_splits)

lemma sliced_ok:
  assumes "tl_placed f a m t" "m \<le> m'" "m' \<le> length f" "run = tl_run t" "tl_offset t < to" "to \<le> sz" "sz \<le> m'"
    and "bytes = [] \<or> bytes = cut f (tl_offset t) to" "tl_sliced k run sz to bytes t = (p, t')"
  shows "tl_placed f a m' t' \<and> (\<forall>w. p = Waiting w \<longrightarrow> wait_run w = run \<and> wait_ok m' (tl_offset t') w)"
proof (cases "whole bytes = []")
  case True
  then have t': "t' = t" using assms(9) by (auto simp: tl_sliced_def Let_def split: if_splits)
  have p: "p = (if to < sz then Waiting (Slicing k run sz (tl_offset t) (min (to + READ_CHUNK_BYTES) sz)) else Over)"
    using assms(4,9) True by (auto simp: tl_sliced_def Let_def split: if_splits)
  have "tl_placed f a m' t'" using assms(1,2,3) by (simp add: t' tl_placed_def)
  then show ?thesis using assms(5,7) by (simp add: p t')
next
  case False
  then have b: "bytes = cut f (tl_offset t) to" using assms(8) by (auto simp: whole_def)
  let ?n = "length (whole bytes)"
  have le: "tl_offset t \<le> to" "to \<le> length f" using assms(3,5,6,7) by simp_all
  note w = whole_cut [OF le, folded b]
  have t': "t' = tl_tell (Told k \<lparr>ap_lines = split_records (whole bytes), ap_start = tl_offset t, ap_end = tl_offset t + ?n, ap_size = sz\<rparr>)
      (t\<lparr>tl_offset := tl_offset t + ?n\<rparr>)"
    and p: "p = (if tl_offset t + ?n < sz then Waiting (Breathing k run sz) else Over)"
    using assms(4,9) False by (auto simp: tl_sliced_def tl_tell_def Let_def split: if_splits)
  have "covers f a (tl_told t') (tl_offset t')"
    unfolding t' using assms(1,3,6,7) w False closed_whole [of bytes]
    by (simp add: tl_tell_def covers_snoc tl_placed_def)
  moreover have "tl_offset t' \<le> m'" using w(2) assms(6,7) by (simp add: t' tl_tell_def)
  ultimately show ?thesis using assms(3,7) by (simp add: tl_placed_def p)
qed

lemma go_on_ok:
  assumes "tl_placed f a m t" "grown f m r" "wait_run w = tl_run t" "wait_ok m (tl_offset t) w" "tl_go_on w r t = (p, t')"
  shows "tl_placed f a (seen m r) t' \<and> (\<forall>w'. p = Waiting w' \<longrightarrow> wait_run w' = tl_run t \<and> wait_ok (seen m r) (tl_offset t') w')"
proof -
  have m: "m \<le> seen m r" "seen m r \<le> length f" "tl_offset t \<le> m"
    using assms(1,2) seen_le seen_in by (auto simp: tl_placed_def)
  have P: "tl_placed f a (seen m r) (t\<lparr>tl_size := x\<rparr>)" for x using assms(1) m by (simp add: tl_placed_def)
  have st: "tl_stat (tl_offset t) r \<le> seen m r" "tl_offset t \<le> tl_stat (tl_offset t) r"
    using m assms(2) by (cases r; simp add: tl_stat_def)+
  show ?thesis
  proof (cases w)
    case (CatchStat run fb)
    with assms show ?thesis using P consume_ok [OF _ st(1)] by (auto simp: Let_def)
  next
    case (ReadStat run fb)
    with assms st(2) show ?thesis using P consume_ok [OF _ st(1)] by (auto simp: Let_def)
  next
    case (Slicing k run sz at0 to)
    with assms(4) have l: "at0 = tl_offset t" "tl_offset t < to" "to \<le> sz" "sz \<le> m" by simp_all
    show ?thesis
    proof (cases "tl_slice at0 to r")
      case None
      then show ?thesis using assms(1,5) m by (auto simp: Slicing tl_placed_def)
    next
      case (Some bytes)
      have "bytes = [] \<or> bytes = cut f (tl_offset t) to"
        using Some l assms(2) cut_prefix [of _ f to "tl_offset t"] by (cases r) (auto simp: tl_slice_def cut_def)
      then show ?thesis using sliced_ok [OF assms(1) m(1,2), of run to sz bytes k p t'] assms(3,5) l m(1) Some by (simp add: Slicing)
    qed
  next
    case (Breathing k run sz)
    with assms m show ?thesis using consume_ok [of k run sz t _ "seen m r"] by (auto simp: tl_placed_def split: if_splits)
  qed
qed

lemma chain_frame:
  "tl_run (tl_chain rs t) = tl_run t \<and> tl_running (tl_chain rs t) = tl_running t \<and> tl_starting (tl_chain rs t) = tl_starting t
     \<and> tl_offset (tl_chain rs t) = tl_offset t \<and> tl_told (tl_chain rs t) = tl_told t
     \<and> (tl_reading (tl_chain rs t) = None \<or> tl_reading (tl_chain rs t) = Some (ReadStat (tl_run t) (tl_offset t)))"
  by (induction rs t rule: tl_chain.induct) auto

lemma chain_none: "tl_chain [] t = t\<lparr>tl_reading := None, tl_chained := []\<rparr>" by simp

lemma tail_inv_chain:
  assumes "tail_inv f a m (t\<lparr>tl_reading := None\<rparr>)" "\<forall>w \<in> set (tl_starting t). wait_run w = tl_run t \<longrightarrow> rs = []"
  shows "tail_inv f a m (tl_chain rs t)"
proof -
  note c = chain_frame [of rs t]
  have "rs = [] \<Longrightarrow> tl_chained (tl_chain rs t) = [] \<and> tl_reading (tl_chain rs t) = None" by simp
  then show ?thesis using assms c unfolding tail_inv_def tl_placed_def waits_def by auto
qed

lemma tail_inv_start:
  assumes "a \<le> length f"
  shows "tail_inv f a a (tl_start a Tail)"
  using assms by (simp add: tail_inv_def tl_start_def Tail_def tl_placed_def waits_def)

lemma inv_read_on:
  assumes "tail_inv f a m t" "grown f m r"
  shows "tail_inv f a (seen m r) (tl_read_on r t)"
proof (cases "tl_reading t")
  case None
  then show ?thesis using assms seen_le [OF assms(2)] seen_in [OF assms(2)] wait_ok_mono
    by (auto simp: tl_read_on_def tail_inv_def tl_placed_def)
next
  case (Some w)
  obtain p t' where g: "tl_go_on w r t = (p, t')" by fastforce
  have fr: "same_frame t t'" using go_on_frame [of t w r] g by simp
  have i: "tl_placed f a m t" "wait_run w \<le> tl_run t" "wait_run w = tl_run t \<Longrightarrow> wait_ok m (tl_offset t) w"
    "length (tl_starting t) \<le> 1" "\<And>u. u \<in> set (tl_starting t) \<Longrightarrow> wait_run u \<noteq> tl_run t \<and> wait_run u \<le> tl_run t"
    using assms(1) Some by (auto simp: tail_inv_def waits_def)
  have m: "m \<le> seen m r" "seen m r \<le> length f" using i(1) seen_le seen_in assms(2) by (auto simp: tl_placed_def)
  have "tl_placed f a (seen m r) t' \<and> (\<forall>w'. p = Waiting w' \<longrightarrow> wait_run w' = tl_run t \<and> wait_ok (seen m r) (tl_offset t') w')"
  proof (cases "wait_run w = tl_run t")
    case True
    then show ?thesis using go_on_ok [OF i(1) assms(2) True i(3) g] by blast
  next
    case False
    then show ?thesis using go_on_stale [of w t r] g i(1) m by (auto simp: tl_placed_def)
  qed
  then have ok: "tl_placed f a (seen m r) t'" "\<And>w'. p = Waiting w' \<Longrightarrow> wait_run w' = tl_run t \<and> wait_ok (seen m r) (tl_offset t') w'" by auto
  have none: "tail_inv f a (seen m r) (t'\<lparr>tl_reading := None, tl_chained := cs, tl_rejected := b\<rparr>)" for cs b
    using ok(1) i(4,5) fr by (auto simp: tail_inv_def tl_placed_def waits_def same_frame_def)
  show ?thesis
  proof (cases p)
    case (Waiting w')
    then show ?thesis using ok i(4,5) fr Some g by (auto simp: tl_read_on_def tail_inv_def tl_placed_def waits_def same_frame_def)
  next
    case Over
    have "tail_inv f a (seen m r) (t'\<lparr>tl_reading := None\<rparr>)" using none [where cs = "tl_chained t'" and b = "tl_rejected t'"] by simp
    then show ?thesis using tail_inv_chain [of f a "seen m r" t' "tl_chained t'"] i(5) fr
      by (auto simp: tl_read_on_def Some g Over same_frame_def)
  next
    case Raised
    then show ?thesis using none by (simp add: tl_read_on_def Some g)
  qed
qed

lemma drop_nth_single [simp]: "drop_nth 0 [x] = []" by (simp add: drop_nth_def)

lemma inv_start_on:
  assumes "tail_inv f a m t" "grown f m r"
  shows "tail_inv f a (seen m r) (tl_start_on i r t)"
proof (cases "i < length (tl_starting t)")
  case False
  then show ?thesis using assms seen_le [OF assms(2)] seen_in [OF assms(2)] wait_ok_mono
    by (auto simp: tl_start_on_def tail_inv_def tl_placed_def)
next
  case True
  then obtain w where st: "tl_starting t = [w]" and i0: "i = 0"
    using assms(1) by (cases "tl_starting t") (auto simp: tail_inv_def)
  obtain p t' where g: "tl_go_on w r t = (p, t')" by fastforce
  have fr: "same_frame t t'" using go_on_frame [of t w r] g by simp
  have i: "tl_placed f a m t" "wait_run w \<le> tl_run t" "wait_run w = tl_run t \<Longrightarrow> wait_ok m (tl_offset t) w"
    "wait_run w = tl_run t \<Longrightarrow> \<not> tl_running t \<and> tl_reading t = None \<and> tl_chained t = []"
    "\<And>u. u \<in> set_option (tl_reading t) \<Longrightarrow> wait_run u \<le> tl_run t \<and> (wait_run u = tl_run t \<longrightarrow> wait_ok m (tl_offset t) u)"
    using assms(1) st by (auto simp: tail_inv_def waits_def)
  have m: "m \<le> seen m r" "seen m r \<le> length f" using i(1) seen_le seen_in assms(2) by (auto simp: tl_placed_def)
  show ?thesis
  proof (cases "wait_run w = tl_run t")
    case True
    note ok = go_on_ok [OF i(1) assms(2) True i(3) [OF True] g]
    show ?thesis using ok i(4) [OF True] fr st i0 g True
      by (cases p) (auto simp: tl_start_on_def tail_inv_def tl_placed_def waits_def same_frame_def Let_def)
  next
    case False
    then have "t' = t" "\<And>w'. p \<noteq> Waiting w'" using go_on_stale [of w t r] g by auto
    then show ?thesis using i(1,5) m st i0 g False wait_ok_mono [OF _ m(1)]
      by (cases p) (auto simp: tl_start_on_def tail_inv_def tl_placed_def waits_def Let_def)
  qed
qed

fun grown_event :: "byte list \<Rightarrow> nat \<Rightarrow> tail_event \<Rightarrow> bool" where
  "grown_event f m (StartOn i r) \<longleftrightarrow> grown f m r"
| "grown_event f m (ReadOn r) \<longleftrightarrow> grown f m r"
| "grown_event f m _ \<longleftrightarrow> True"

fun seen_event :: "nat \<Rightarrow> tail_event \<Rightarrow> nat" where
  "seen_event m (StartOn i r) = seen m r"
| "seen_event m (ReadOn r) = seen m r"
| "seen_event m _ = m"

text \<open>The file as the calls of a run find it only grows, into \<open>f\<close>, and is never shorter than \<open>m\<close>.\<close>

fun only_grows :: "byte list \<Rightarrow> nat \<Rightarrow> tail_event list \<Rightarrow> bool" where
  "only_grows f m [] \<longleftrightarrow> m \<le> length f"
| "only_grows f m (e # es) \<longleftrightarrow> grown_event f m e \<and> only_grows f (seen_event m e) es"

lemma inv_step:
  assumes "tail_inv f a m t" "grown_event f m e"
  shows "tail_inv f a (seen_event m e) (tl_step t e)"
proof (cases e)
  case Tick
  have "tail_inv f a m (tl_refresh t)" if "tl_running t"
  proof (cases "tl_reading t")
    case None
    have same: "t\<lparr>tl_reading := None\<rparr> = t" using None by (cases t) simp
    have "\<forall>w \<in> set (tl_starting t). wait_run w \<noteq> tl_run t" using assms(1) that unfolding tail_inv_def by blast
    then have "tail_inv f a m (tl_chain (tl_chained t @ [tl_run t]) t)" using assms(1) by (intro tail_inv_chain) (simp_all add: same)
    then show ?thesis using assms(1) by (simp add: tl_refresh_def None)
  next
    case (Some w)
    then show ?thesis using assms(1) that by (auto simp: tl_refresh_def tail_inv_def tl_placed_def waits_def)
  qed
  then show ?thesis using assms(1) by (simp add: Tick)
next
  case Stop
  then show ?thesis using assms(1) by (force simp: tl_stop_def tail_inv_def tl_placed_def waits_def)
qed (use assms inv_start_on inv_read_on in auto)

lemma inv_steps: "tail_inv f a m t \<Longrightarrow> only_grows f m evs \<Longrightarrow> \<exists>m'. tail_inv f a m' (foldl tl_step t evs)"
proof (induction evs arbitrary: m t)
  case (Cons e evs)
  from Cons.IH [OF inv_step [OF Cons.prems(1)]] Cons.prems(2) show ?case by simp
qed auto

text \<open>
  C17: a tail states every record once, in order and where it lies. Over any interleaving of ticks,
  stops and of what the calls to the file system find, with a file that only grows: the pieces a tail
  told since it was started at \<open>a\<close> follow each other without gap or overlap up to its offset, each
  of them whole records of the file at the place it names, and all their lines together are the records
  of that part of the file, however the reads cut it and whatever was half written when they did.
\<close>

theorem tail_states_each_record_once:
  assumes "only_grows f a evs" "t = foldl tl_step (tl_start a Tail) evs"
  shows "covers f a (tl_told t) (tl_offset t) \<and> told_lines (tl_told t) = split_records (cut f a (tl_offset t))"
proof -
  have "a \<le> length f"
    using assms(1) by (induction f a evs rule: only_grows.induct) (auto elim!: grown_event.elims dest: prefix_length_le seen_le)
  then obtain m where "tail_inv f a m t" using inv_steps [OF tail_inv_start assms(1)] assms(2) by blast
  then have "covers f a (tl_told t) (tl_offset t)" by (simp add: tail_inv_def tl_placed_def)
  then show ?thesis using covers_lines by blast
qed

text \<open>To run a tail on a concrete file.\<close>

lemmas tail_runs =
  tl_start_on_def tl_read_on_def tl_refresh_def tl_stat_def tl_slice_def tl_consume_def tl_sliced_def tl_tell_def
  whole_def NEWLINE_def READ_CHUNK_BYTES_def Let_def

text \<open>Two records, the second of them half written when the tail starts.\<close>

definition tail_example :: "tail_event list" where
  "tail_example = [StartOn 0 (Content [97, 10, 98]), StartOn 0 (Content [97, 10, 98]), StartOn 0 (Content [97, 10, 98]),
     StartOn 0 (Content [97, 10, 98]), Tick, ReadOn (Content [97, 10, 98, 99, 10]), ReadOn (Content [97, 10, 98, 99, 10])]"

theorem tail_states_each_record_once_witness:
  "let t = foldl tl_step (tl_start 0 Tail) tail_example in
   told_lines (tl_told t) = [[97], [98, 99]] \<and> covers [97, 10, 98, 99, 10] 0 (tl_told t) 5"
proof -
  have "only_grows [97, 10, 98, 99, 10] 0 tail_example" by code_simp
  from tail_states_each_record_once [OF this refl] have
    "covers [97, 10, 98, 99, 10] 0 (tl_told (foldl tl_step (tl_start 0 Tail) tail_example)) (tl_offset (foldl tl_step (tl_start 0 Tail) tail_example))
     \<and> told_lines (tl_told (foldl tl_step (tl_start 0 Tail) tail_example)) = split_records (cut [97, 10, 98, 99, 10] 0 (tl_offset (foldl tl_step (tl_start 0 Tail) tail_example)))" .
  moreover have "tl_offset (foldl tl_step (tl_start 0 Tail) tail_example) = 5"
    by (simp add: tail_example_def tl_start_def Tail_def tail_runs)
  moreover have "split_records (cut [97, 10, 98, 99, 10] 0 5) = [[97], [98, 99]]" by code_simp
  ultimately show ?thesis by (simp only: Let_def)
qed

section \<open>A reading ends, with nothing left unread\<close>

abbreviation reads :: "byte list \<Rightarrow> nat \<Rightarrow> tail \<Rightarrow> tail" where
  "reads c n t \<equiv> ((\<lambda>t. tl_step t (ReadOn (Content c))) ^^ n) t"

definition tl_settled :: "byte list \<Rightarrow> tail \<Rightarrow> tail \<Rightarrow> bool" where
  "tl_settled c t t' \<longleftrightarrow> tl_reading t' = None \<and> tl_offset t' = tl_offset t + length (whole (drop (tl_offset t) c)) \<and> tl_size t' = tl_size t"

lemma reads_Suc: "reads c (Suc n) t = reads c n (tl_step t (ReadOn (Content c)))"
  by (simp only: funpow_Suc_right comp_apply)

lemma whole_drop_past:
  assumes "a < to" "to \<le> length c" "k = length (whole (cut c a to))"
  shows "k + length (whole (drop (a + k) c)) = length (whole (drop a c))"
proof -
  have le: "a \<le> to" using assms(1) by simp
  note w = whole_cut [OF le assms(2)]
  have "drop a c = cut c a (a + k) @ drop (a + k) c"
    by (simp add: cut_def) (metis add.commute append_take_drop_id drop_drop)
  then have "whole (drop a c) = cut c a (a + k) @ whole (drop (a + k) c)"
    using whole_append [of "cut c a (a + k)" "drop (a + k) c"] w(1) closed_whole [of "cut c a to"] assms(3) by simp
  then show ?thesis using w assms(2,3) by simp
qed

lemma reading_ends:
  assumes "tl_reading t = Some (Slicing OnAppended (tl_run t) (length c) (tl_offset t) to)" "tl_chained t = []"
    and "tl_offset t < to" "to \<le> length c"
  shows "\<exists>n. tl_settled c t (reads c n t)"
  using assms
proof (induction "(length c - tl_offset t, length c - to)" arbitrary: t to rule: wf_induct_rule [OF wf_lex_prod [OF wf_less_than wf_less_than]])
  case (1 t to)
  note less = 1
  let ?a = "tl_offset t" let ?b = "cut c ?a to" let ?k = "length (whole ?b)"
  have sl: "tl_slice ?a to (Content c) = Some ?b" using less(4) by (simp add: tl_slice_def cut_def)
  show ?case
  proof (cases "whole ?b = []")
    case True
    show ?thesis
    proof (cases "to < length c")
      case grow: True
      let ?t = "t\<lparr>tl_reading := Some (Slicing OnAppended (tl_run t) (length c) ?a (min (to + READ_CHUNK_BYTES) (length c)))\<rparr>"
      have s: "tl_step t (ReadOn (Content c)) = ?t"
        using less(2) grow True sl by (simp add: tl_read_on_def tl_sliced_def)
      have "length c - min (to + READ_CHUNK_BYTES) (length c) < length c - to" using grow unfolding READ_CHUNK_BYTES_def by linarith
      then have "\<exists>n. tl_settled c ?t (reads c n ?t)"
        using less(3,4) grow by (intro less(1) [of _ "min (to + READ_CHUNK_BYTES) (length c)"]) auto
      then obtain n where "tl_settled c ?t (reads c n ?t)" by blast
      then have "tl_settled c t (reads c (Suc n) t)" unfolding reads_Suc s by (simp add: tl_settled_def)
      then show ?thesis by blast
    next
      case False
      then have "to = length c" using less(5) by simp
      then have "?b = drop ?a c" by (simp add: cut_def)
      then have "tl_settled c t (reads c 1 t)"
        using less(2,3) True False sl by (simp add: tl_read_on_def tl_sliced_def tl_settled_def)
      then show ?thesis by blast
    qed
  next
    case False
    let ?p = "\<lparr>ap_lines = split_records (whole ?b), ap_start = ?a, ap_end = ?a + ?k, ap_size = length c\<rparr>"
    let ?u = "tl_tell (Told OnAppended ?p) (t\<lparr>tl_offset := ?a + ?k\<rparr>)"
    have past: "?k + length (whole (drop (?a + ?k) c)) = length (whole (drop ?a c))"
      using whole_drop_past [OF less(4,5)] by simp
    have k: "0 < ?k" "?a + ?k \<le> length c" using False whole_cut(2) [of ?a to c] less(4,5) by auto
    show ?thesis
    proof (cases "?a + ?k < length c")
      case True
      let ?to = "min (?a + ?k + READ_CHUNK_BYTES) (length c)"
      let ?t = "?u\<lparr>tl_reading := Some (Slicing OnAppended (tl_run t) (length c) (?a + ?k) ?to)\<rparr>"
      have s: "reads c (Suc (Suc n)) t = reads c n ?t" for n
        unfolding reads_Suc using less(2) True False sl by (simp add: tl_read_on_def tl_sliced_def tl_tell_def tl_consume_def Let_def)
      have "length c - (?a + ?k) < length c - ?a" using True k(1) by linarith
      then have "\<exists>n. tl_settled c ?t (reads c n ?t)"
        using less(3) True by (intro less(1) [of _ ?to]) (auto simp: tl_tell_def)
      then obtain n where "tl_settled c ?t (reads c n ?t)" by blast
      then have "tl_settled c t (reads c (Suc (Suc n)) t)" unfolding s using past by (simp add: tl_settled_def tl_tell_def add.assoc)
      then show ?thesis by blast
    next
      case fin: False
      then have "?a + ?k = length c" using k(2) by simp
      then have "tl_settled c t (reads c 1 t)"
        using less(2,3) fin False sl past by (simp add: tl_read_on_def tl_sliced_def tl_tell_def tl_settled_def Let_def)
      then show ?thesis by blast
    qed
  qed
qed

text \<open>
  C34: every reading of the file ends, with all there is to read told. A tick of a tail that follows
  a file which is not shorter than what was read starts a reading that is over after finitely many
  calls, and then the offset is past the last whole record of the file; only a record whose end is
  not there is left. This includes records longer than one read takes.
\<close>

theorem reading_reaches_the_end:
  assumes "tl_running t" "tl_reading t = None" "tl_chained t = []" "\<not> tl_rejected t" "tl_offset t \<le> length c"
  shows "\<exists>n. let t' = reads c n (tl_step t Tick) in tl_reading t' = None \<and> tl_size t' = length c
    \<and> tl_offset t' = tl_offset t + length (whole (drop (tl_offset t) c))"
proof -
  let ?s = "t\<lparr>tl_reading := Some (ReadStat (tl_run t) (tl_offset t)), tl_chained := []\<rparr>"
  have tick: "tl_step t Tick = ?s" using assms by (simp add: tl_refresh_def)
  show ?thesis
  proof (cases "tl_offset t < length c")
    case False
    then have "tl_offset t = length c" using assms(5) by simp
    then have "let t' = reads c 1 ?s in tl_reading t' = None \<and> tl_size t' = length c \<and> tl_offset t' = tl_offset t + length (whole (drop (tl_offset t) c))"
      by (simp add: tl_read_on_def tl_stat_def tl_consume_def whole_def Let_def)
    then show ?thesis unfolding tick by blast
  next
    case True
    let ?to = "min (tl_offset t + READ_CHUNK_BYTES) (length c)"
    let ?t = "t\<lparr>tl_size := length c, tl_reading := Some (Slicing OnAppended (tl_run t) (length c) (tl_offset t) ?to), tl_chained := []\<rparr>"
    have "tl_step ?s (ReadOn (Content c)) = ?t"
      using True by (simp add: tl_read_on_def tl_stat_def tl_consume_def Let_def)
    then have s: "reads c (Suc n) ?s = reads c n ?t" for n by (simp only: reads_Suc)
    obtain n where "tl_settled c ?t (reads c n ?t)" using reading_ends [of ?t c ?to] True by auto
    then have "let t' = reads c (Suc n) ?s in tl_reading t' = None \<and> tl_size t' = length c \<and> tl_offset t' = tl_offset t + length (whole (drop (tl_offset t) c))"
      unfolding s by (simp add: tl_settled_def Let_def)
    then show ?thesis unfolding tick by blast
  qed
qed

definition tail_open :: tail where
  "tail_open = Tail\<lparr>tl_running := True, tl_offset := 2, tl_size := 3\<rparr>"

theorem reading_reaches_the_end_witness:
  "\<exists>n. let t' = reads [97, 10, 98, 99, 10, 100] n (tl_step tail_open Tick) in tl_reading t' = None \<and> tl_size t' = 6 \<and> tl_offset t' = 5"
proof -
  have "tl_running tail_open" "tl_reading tail_open = None" "tl_chained tail_open = []" "\<not> tl_rejected tail_open"
    "tl_offset tail_open \<le> length [97::nat, 10, 98, 99, 10, 100]" by (simp_all add: tail_open_def Tail_def)
  note th = reading_reaches_the_end [OF this]
  have "tl_offset tail_open + length (whole (drop (tl_offset tail_open) [97, 10, 98, 99, 10, 100])) = 5"
    "length [97::nat, 10, 98, 99, 10, 100] = 6" by code_simp+
  from th [unfolded this] show ?thesis .
qed

section \<open>Paging back\<close>

text \<open>A client that reads a transcript back from its end, each page before the one it has.\<close>

fun read_back :: "nat \<Rightarrow> byte list \<Rightarrow> nat option \<Rightarrow> nat option \<Rightarrow> text_cp list" where
  "read_back 0 f before mx = []"
| "read_back (Suc n) f before mx =
     (case readSlice (Some f) f before mx of
        Inl e \<Rightarrow> []
      | Inr p \<Rightarrow> (if sr_start p = 0 then [] else read_back n f (Some (sr_start p)) mx) @ sr_lines p)"

text \<open>A place where a record begins.\<close>

definition boundary :: "byte list \<Rightarrow> nat \<Rightarrow> bool" where
  "boundary f b \<longleftrightarrow> b \<le> length f \<and> (b = 0 \<or> f ! (b - 1) = NEWLINE)"

text \<open>No record is longer than a page, its newline included, nor what is written of the last one.\<close>

definition records_fit :: "nat \<Rightarrow> byte list \<Rightarrow> bool" where
  "records_fit want f \<longleftrightarrow>
     list_all (\<lambda>b. b = 0 \<or> \<not> boundary f b \<or> list_ex (boundary f) [b - want ..< b]) [0 ..< Suc (length f)]
     \<and> length f - length (whole f) \<le> want"

lemma last_cut: "a < b \<Longrightarrow> b \<le> length f \<Longrightarrow> last (cut f a b) = f ! (b - 1)"
proof -
  assume "a < b" "b \<le> length f"
  then have "cut f a b \<noteq> []" "length (cut f a b) = b - a" by (auto simp: cut_def)
  then have "last (cut f a b) = cut f a b ! (b - a - 1)" by (simp add: last_conv_nth)
  also have "\<dots> = f ! (b - 1)" using \<open>a < b\<close> \<open>b \<le> length f\<close> by (simp add: cut_def)
  finally show ?thesis .
qed

lemma boundary_between: "boundary f b \<Longrightarrow> a \<le> b \<Longrightarrow> closed (cut f a b)"
  by (cases "a = b") (auto simp: boundary_def closed_def last_cut)

lemma records_fitD: "records_fit want f \<Longrightarrow> boundary f b \<Longrightarrow> 0 < b \<Longrightarrow> \<exists>a < b. b - want \<le> a \<and> boundary f a"
proof -
  assume "records_fit want f" "boundary f b" "0 < b"
  moreover from this have "b \<in> set [0 ..< Suc (length f)]" by (auto simp: boundary_def)
  ultimately show ?thesis unfolding records_fit_def list_all_iff list_ex_iff by fastforce
qed

lemma index_of_le: "i < length xs \<Longrightarrow> xs ! i = x \<Longrightarrow> \<exists>j. index_of x xs = Some j \<and> j \<le> i"
proof (induction xs arbitrary: i)
  case (Cons y xs)
  then show ?case by (cases i) (fastforce split: option.splits)+
qed simp

text \<open>The first record that begins inside a range that is entered one byte before it.\<close>

lemma first_boundary:
  assumes "0 < from" "from \<le> a" "a \<le> b" "boundary f a" "b \<le> length f"
  shows "\<exists>i. index_of NEWLINE (cut f (from - 1) b) = Some i \<and> from + i \<le> a \<and> boundary f (from + i)"
proof -
  have len: "length (cut f (from - 1) b) = b - (from - 1)" using assms(5) by simp
  have nth: "cut f (from - 1) b ! j = f ! (from - 1 + j)" if "j < b - (from - 1)" for j using that assms(5) by (simp add: cut_def)
  have "a - from < b - (from - 1)" using assms(1,2,3) by simp
  moreover have "f ! (a - 1) = NEWLINE" using assms(1,2,4) by (auto simp: boundary_def)
  ultimately have "cut f (from - 1) b ! (a - from) = NEWLINE" using assms(1,2) nth [of "a - from"] by simp
  from index_of_le [OF _ this] len \<open>a - from < _\<close> obtain i where i: "index_of NEWLINE (cut f (from - 1) b) = Some i" "i \<le> a - from" by auto
  have "cut f (from - 1) b ! i = NEWLINE" using index_of_Some [OF i(1)] by (metis nth_append_length length_take less_imp_le min.absorb2)
  then have "f ! (from - 1 + i) = NEWLINE" using nth [of i] i(2) \<open>a - from < _\<close> by simp
  moreover have "from + i - 1 = from - 1 + i" using assms(1) by simp
  ultimately have "boundary f (from + i)" using assms i(2) unfolding boundary_def by simp
  then show ?thesis using i assms(2) by auto
qed

lemma split_cut: "boundary f a \<Longrightarrow> a \<le> b \<Longrightarrow> split_records (cut f 0 b) = split_records (cut f 0 a) @ split_records (cut f a b)"
  using cut_append [of 0 a b f] split_records_closed boundary_between [of f a 0] by simp

abbreviation want_of :: "nat option \<Rightarrow> nat" where
  "want_of mx \<equiv> min (case mx of None \<Rightarrow> READ_LIMIT | Some n \<Rightarrow> n) READ_LIMIT"

lemma readSlice_cut:
  assumes "(case before of None \<Rightarrow> length f | Some b \<Rightarrow> min b (length f)) = until" "from = until - want_of mx"
    and "probe = (if from = 0 then 0 else from - 1)" "complete = whole (cut f probe until)" "complete \<noteq> []"
    and "first = (if probe < from then (case index_of NEWLINE complete of None \<Rightarrow> 0 | Some i \<Rightarrow> i + 1) else 0)"
  shows "readSlice (Some f) f before mx =
    Inr \<lparr>sr_lines = split_records (drop first complete), sr_start = probe + first, sr_end = probe + length complete, sr_size = length f\<rparr>"
  using assms(5) unfolding readSlice_def Let_def option.case assms(1) assms(2) [symmetric] assms(3) [symmetric] cut_def [symmetric]
    assms(4) [symmetric] assms(6) [symmetric] by simp

text \<open>A page that reaches back to a record's beginning at \<open>a\<close> at least.\<close>

lemma page_reaches:
  assumes "e \<le> until" "until \<le> length f" "boundary f e" "0 < e" "NEWLINE \<notin> set (cut f e until)" "until - want_of mx \<le> e"
    and "boundary f a" "until - want_of mx \<le> a" "a \<le> e"
    and "(case before of None \<Rightarrow> length f | Some b \<Rightarrow> min b (length f)) = until"
  shows "\<exists>s. readSlice (Some f) f before mx = Inr \<lparr>sr_lines = split_records (cut f s e), sr_start = s, sr_end = e, sr_size = length f\<rparr>
    \<and> s \<le> a \<and> boundary f s \<and> (until - want_of mx = 0 \<longrightarrow> s = 0)"
proof (cases "until - want_of mx")
  case 0
  have "cut f 0 until = cut f 0 e @ cut f e until" using cut_append [of 0 e until f] assms(1) by simp
  then have w: "whole (cut f 0 until) = cut f 0 e" using whole_id boundary_between [OF assms(3)] assms(5) by simp
  have ne: "cut f 0 e \<noteq> []" using assms(1,2,4) by (auto simp: cut_def)
  have "readSlice (Some f) f before mx = Inr \<lparr>sr_lines = split_records (cut f 0 e), sr_start = 0, sr_end = e, sr_size = length f\<rparr>"
    using readSlice_cut [OF assms(10) 0 [symmetric] refl refl] w ne assms(1,2) by simp
  then show ?thesis by (intro exI [of _ 0]) (simp add: boundary_def)
next
  case (Suc n)
  define fr where "fr = until - want_of mx"
  have le: "fr - 1 \<le> e" "0 < fr" "fr \<le> a" using Suc assms(6,8) by (simp_all add: fr_def)
  have "cut f (fr - 1) until = cut f (fr - 1) e @ cut f e until" using cut_append [OF le(1) assms(1), of f] by simp
  then have w: "cut f (fr - 1) e = whole (cut f (fr - 1) until)" using whole_id boundary_between [OF assms(3) le(1)] assms(5) by simp
  from first_boundary [OF le(2,3) assms(9,7)] assms(1,2) obtain i where
    i: "index_of NEWLINE (cut f (fr - 1) e) = Some i" "fr + i \<le> a" "boundary f (fr + i)" by auto
  have ne: "cut f (fr - 1) e \<noteq> []" using i(1) by auto
  have at: "fr - 1 + (i + 1) = fr + i" using le(2) by linarith
  have d: "drop (i + 1) (cut f (fr - 1) e) = cut f (fr + i) e" unfolding drop_cut at ..
  have "fr - 1 = (if fr = 0 then 0 else fr - 1)" "i + 1 = (if fr - 1 < fr then (case index_of NEWLINE (cut f (fr - 1) e) of None \<Rightarrow> 0 | Some i \<Rightarrow> i + 1) else 0)"
    using i(1) le(2) by simp_all
  from readSlice_cut [OF assms(10) fr_def this(1) w ne this(2)]
  have "readSlice (Some f) f before mx = Inr \<lparr>sr_lines = split_records (cut f (fr + i) e), sr_start = fr + i, sr_end = e, sr_size = length f\<rparr>"
    unfolding d at using assms(1,2) le(1) by simp
  then show ?thesis using i Suc by (intro exI [of _ "fr + i"]) simp
qed

lemma read_back_from:
  assumes "records_fit (want_of mx) f" "boundary f b" "0 < b" "b \<le> n"
  shows "read_back n f (Some b) mx = split_records (cut f 0 b)"
  using assms(2-)
proof (induction n arbitrary: b)
  case (Suc n)
  have b: "b \<le> length f" using Suc.prems(1) by (simp add: boundary_def)
  obtain a where a: "a < b" "b - want_of mx \<le> a" "boundary f a" using records_fitD [OF assms(1) Suc.prems(1,2)] by blast
  have "\<exists>s. readSlice (Some f) f (Some b) mx = Inr \<lparr>sr_lines = split_records (cut f s b), sr_start = s, sr_end = b, sr_size = length f\<rparr>
      \<and> s \<le> a \<and> boundary f s \<and> (b - want_of mx = 0 \<longrightarrow> s = 0)"
    by (rule page_reaches) (use b a Suc.prems in auto)
  then obtain s where s: "readSlice (Some f) f (Some b) mx = Inr \<lparr>sr_lines = split_records (cut f s b), sr_start = s, sr_end = b, sr_size = length f\<rparr>"
    "s \<le> a" "boundary f s" by blast
  show ?case
  proof (cases "s = 0")
    case False
    then have "read_back n f (Some s) mx = split_records (cut f 0 s)" using Suc.IH [OF s(3)] s(2) a(1) Suc.prems(3) by simp
    then show ?thesis using s(1,2) False a(1) split_cut [OF s(3), of b] by simp
  qed (use s in simp)
qed simp

lemma cut_all: "cut f 0 (length f) = f" by (simp add: cut_def)

lemma read_back_nothing:
  assumes "whole f = []" "before = None \<or> before = Some (length f)"
  shows "read_back n f before mx = []"
  using assms
proof (induction n arbitrary: before)
  case (Suc n)
  have u: "(case before of None \<Rightarrow> length f | Some b \<Rightarrow> min b (length f)) = length f" using Suc.prems(2) by auto
  have none: "whole (take k (drop j f)) = []" for k j using Suc.prems(1) by (auto simp: whole_none dest: in_set_takeD in_set_dropD)
  have "readSlice (Some f) f before mx = Inr \<lparr>sr_lines = [], sr_start = length f, sr_end = length f, sr_size = length f\<rparr>"
    unfolding readSlice_def Let_def option.case u none by simp
  then show ?case using Suc.IH [of "Some (length f)"] Suc.prems(1) by simp
qed simp

text \<open>
  C35: paging back reads the whole transcript. A client that asks for the end first and then for what
  lies before the page it has, for pages of any size no record is longer than, has read every whole
  record once, in order, when it has come to the beginning; what is not finished is not read.
\<close>

theorem paging_reads_everything:
  assumes "records_fit (want_of mx) f" "length f < n"
  shows "read_back n f None mx = split_records (whole f)"
proof (cases "whole f = []")
  case True
  then show ?thesis using read_back_nothing [OF True] by (simp add: split_records.simps [of "[]"])
next
  case False
  define e where "e = length (whole f)"
  obtain k where n: "n = Suc k" using assms(2) by (cases n) auto
  obtain rest where f: "f = whole f @ rest" "NEWLINE \<notin> set rest" using whole_rest by blast
  have le: "e \<le> length f" by (simp add: e_def length_whole)
  have w: "cut f 0 e = whole f" "cut f e (length f) = rest" using f(1) by (auto simp: cut_def e_def) (metis append_eq_conv_conj)+
  have "f ! (e - 1) = NEWLINE" using closed_whole [of f] False last_cut [of 0 e f] w(1) le by (auto simp: e_def closed_def)
  then have be: "boundary f e" "0 < e" using le False by (auto simp: boundary_def e_def)
  have fit: "length f - want_of mx \<le> e" using assms(1) le unfolding records_fit_def e_def by linarith
  have "\<exists>s. readSlice (Some f) f None mx = Inr \<lparr>sr_lines = split_records (cut f s e), sr_start = s, sr_end = e, sr_size = length f\<rparr>
      \<and> s \<le> e \<and> boundary f s \<and> (length f - want_of mx = 0 \<longrightarrow> s = 0)"
    by (rule page_reaches) (use le be fit w(2) f(2) in auto)
  then obtain s where s: "readSlice (Some f) f None mx = Inr \<lparr>sr_lines = split_records (cut f s e), sr_start = s, sr_end = e, sr_size = length f\<rparr>"
    "s \<le> e" "boundary f s" by blast
  have "s \<noteq> 0 \<Longrightarrow> read_back k f (Some s) mx = split_records (cut f 0 s)"
    using read_back_from [OF assms(1) s(3)] s(2) le assms(2) n by simp
  then show ?thesis using s(1,2) split_cut [OF s(3), of e] w(1) n by (cases "s = 0") simp_all
qed

theorem paging_reads_everything_witness:
  "read_back 9 [97, 10, 98, 99, 10, 100] None (Some 3) = [[97], [98, 99]]"
proof -
  have "records_fit (want_of (Some 3)) [97, 10, 98, 99, 10, 100]"
    by (simp add: records_fit_def boundary_def READ_LIMIT_def NEWLINE_def whole_def upt_rec)
  from paging_reads_everything [OF this, of 9] show ?thesis by (simp add: whole_def NEWLINE_def split_records.simps utf8_text_def)
qed

text \<open>A record longer than a page ends the paging: the page before its end is empty and begins where it
  was asked to end, however often it is asked for.\<close>

lemma long_record_stops_the_paging:
  "readSlice (Some [97, 10, 98, 99, 100, 10]) [97, 10, 98, 99, 100, 10] None (Some 3) = Inr \<lparr>sr_lines = [], sr_start = 6, sr_end = 6, sr_size = 6\<rparr>
   \<and> readSlice (Some [97, 10, 98, 99, 100, 10]) [97, 10, 98, 99, 100, 10] (Some 6) (Some 3) = Inr \<lparr>sr_lines = [], sr_start = 6, sr_end = 6, sr_size = 6\<rparr>"
  by (simp add: readSlice_def READ_LIMIT_def Let_def whole_def NEWLINE_def split_records.simps)

text \<open>With a record half written, the first piece told after the start begins before the size stated then.\<close>

lemma first_frame_begins_before_the_size:
  "let t = foldl tl_step (tl_start 0 Tail) (take 4 tail_example); t' = foldl tl_step t (drop 4 tail_example) in
   tl_size t = 3 \<and> tl_told t' = tl_told t @ [Told OnAppended \<lparr>ap_lines = [[98, 99]], ap_start = 2, ap_end = 5, ap_size = 5\<rparr>]"
  by (simp add: tail_example_def tl_start_def Tail_def tail_runs split_records.simps utf8_text_def)

text \<open>A read that fails leaves the chain rejected, and nothing is told any more.\<close>

lemma failed_read_silences_the_tail:
  assumes "tl_reading t = Some (Slicing k run sz a b)" "a < b" "tl_starting t = []"
  shows "tl_told (foldl tl_step (tl_step t (ReadOn Failing)) evs) = tl_told t"
proof -
  have "tl_rejected u \<Longrightarrow> tl_reading u = None \<Longrightarrow> tl_starting u = [] \<Longrightarrow> tl_told (foldl tl_step u evs) = tl_told u" for u
  proof (induction evs arbitrary: u)
    case (Cons e evs)
    then show ?case using Cons.IH [of "tl_step u e"]
      by (cases e) (auto simp: tl_refresh_def tl_stop_def tl_start_on_def tl_read_on_def)
  qed simp
  from this [of "tl_step t (ReadOn Failing)"] show ?thesis using assms by (simp add: tl_read_on_def tl_slice_def)
qed

end
