(* ===== verification/Follow.thy ===== *)
theory Follow
  imports Tail
begin

text \<open>
  One tail and one fold per session, \<open>src/transcript/transcripts.ts\<close>.

  The objects the code keeps (what is followed, the tails, the calls of \<open>#open\<close> in flight) have an
  identity, which \<open>#holds\<close> compares, so each kind is a store under numbers; \<open>fw_next\<close> is the next number.
  \<open>#open\<close> runs between its waits, and an event carries what a wait brought: the path, what the cache
  kept, what a file system call of the catching up found, or the cache's write being over. How a record
  is folded and classified is the record \<open>fold_env\<close>; both are functions of the lines alone.
\<close>

section \<open>State\<close>

datatype standing = Absent | Folding | Ready | Frozen

record ('f, 'r, 'i) fold_env =
  fe_empty :: 'f
  fe_line :: "'f \<Rightarrow> text_cp \<Rightarrow> bool \<times> 'f"
  fe_new :: 'r
  fe_readAll :: "'r \<Rightarrow> text_cp list \<Rightarrow> nat \<Rightarrow> 'i list \<times> 'r"

record ('f, 'r, 'i) followed =
  fo_holds :: nat
  fo_fold :: 'f
  fo_reading :: 'r
  fo_recent :: "'i list"
  fo_ready :: "nat option"
  fo_standing :: standing
  fo_frozen :: bool
  fo_path :: "string option"
  fo_tail :: "nat option"
  fo_timer :: "bool option"

text \<open>\<open>fo_ready\<close> is the call of \<open>#open\<close> the promise is of, \<open>fo_timer\<close> what the next look is handed.\<close>

record followed_tail =
  ft_tail :: tail
  ft_entry :: nat
  ft_sid :: sid
  ft_path :: string
  ft_appeared :: bool

text \<open>What the cache kept of a path; \<open>None\<close> as the fold is one that cannot be restored.\<close>

record ('f, 'r, 'i) kept =
  kp_offset :: nat
  kp_fold :: "'f option"
  kp_reading :: 'r
  kp_items :: "'i list"

datatype open_wait = Finding | CacheReading string | TailStarting nat | Remembering nat

record open_call =
  op_sid :: sid
  op_entry :: nat
  op_appeared :: bool
  op_at :: open_wait

datatype ('f, 'r, 'i) follow_out =
    PublishLines sid appended
  | PublishItems sid "'i list"
  | OnFacts sid
  | CacheSave string nat 'f 'r "'i list"
  | CacheDrop string

record ('f, 'r, 'i) following =
  fw_entries :: "nat \<Rightarrow> ('f, 'r, 'i) followed option"
  fw_followed :: "(sid, nat) js_map"
  fw_tails :: "nat \<Rightarrow> followed_tail option"
  fw_opens :: "nat \<Rightarrow> open_call option"
  fw_next :: nat
  fw_out :: "('f, 'r, 'i) follow_out list"

definition Transcripts :: "('f, 'r, 'i) following" where
  "Transcripts = \<lparr>fw_entries = Map.empty, fw_followed = [], fw_tails = Map.empty, fw_opens = Map.empty, fw_next = 0, fw_out = []\<rparr>"

definition ITEMS_SNAPSHOT :: nat where
  "ITEMS_SNAPSHOT = 200"

definition fw_say :: "('f, 'r, 'i) follow_out \<Rightarrow> ('f, 'r, 'i) following \<Rightarrow> ('f, 'r, 'i) following" where
  "fw_say x s = s\<lparr>fw_out := fw_out s @ [x]\<rparr>"

text \<open>An assignment to a field of an object.\<close>

definition fw_set :: "nat \<Rightarrow> (('f, 'r, 'i) followed \<Rightarrow> ('f, 'r, 'i) followed) \<Rightarrow> ('f, 'r, 'i) following \<Rightarrow> ('f, 'r, 'i) following" where
  "fw_set e g s = s\<lparr>fw_entries := (fw_entries s)(e := map_option g (fw_entries s e))\<rparr>"

section \<open>Readings\<close>

fun foldAll :: "('f, 'r, 'i) fold_env \<Rightarrow> 'f \<Rightarrow> text_cp list \<Rightarrow> bool \<times> 'f" where
  "foldAll env fd [] = (False, fd)"
| "foldAll env fd (l # ls) =
     (let (changed, fd1) = fe_line env fd l; (later, fd2) = foldAll env fd1 ls in (changed \<or> later, fd2))"

text \<open>\<open>#keep\<close>: the items of a chunk, with the end of the reading held.\<close>

definition fo_keep :: "('f, 'r, 'i) fold_env \<Rightarrow> appended \<Rightarrow> ('f, 'r, 'i) followed \<Rightarrow> 'i list \<times> ('f, 'r, 'i) followed" where
  "fo_keep env chunk fo =
     (let (items, reading) = fe_readAll env (fo_reading fo) (ap_lines chunk) (ap_start chunk);
          recent = fo_recent fo @ items
      in (items, fo\<lparr>fo_reading := reading, fo_recent := drop (length recent - ITEMS_SNAPSHOT) recent\<rparr>))"

definition fo_reset :: "('f, 'r, 'i) fold_env \<Rightarrow> ('f, 'r, 'i) followed \<Rightarrow> ('f, 'r, 'i) followed" where
  "fo_reset env fo = fo\<lparr>fo_reading := fe_new env, fo_recent := []\<rparr>"

definition fw_appended :: "('f, 'r, 'i) fold_env \<Rightarrow> sid \<Rightarrow> nat \<Rightarrow> appended \<Rightarrow> ('f, 'r, 'i) following \<Rightarrow> ('f, 'r, 'i) following" where
  "fw_appended env sid e chunk s =
     (case fw_entries s e of
        None \<Rightarrow> s
      | Some fo \<Rightarrow>
          let (changed, fd) = foldAll env (fo_fold fo) (ap_lines chunk);
              fo1 = fo\<lparr>fo_fold := fd, fo_standing := (if fo_standing fo = Absent then Ready else fo_standing fo)\<rparr>;
              s1 = fw_say (PublishLines sid chunk) s;
              (items, fo2) = fo_keep env chunk fo1;
              s2 = s1\<lparr>fw_entries := (fw_entries s1)(e \<mapsto> fo2)\<rparr>;
              s3 = (if items \<noteq> [] then fw_say (PublishItems sid items) s2 else s2)
          in if changed then fw_say (OnFacts sid) s3 else s3)"

definition fw_existing :: "('f, 'r, 'i) fold_env \<Rightarrow> nat \<Rightarrow> appended \<Rightarrow> ('f, 'r, 'i) following \<Rightarrow> ('f, 'r, 'i) following" where
  "fw_existing env e chunk s =
     fw_set e (\<lambda>fo. let fo1 = snd (fo_keep env chunk fo) in fo1\<lparr>fo_fold := snd (foldAll env (fo_fold fo1) (ap_lines chunk))\<rparr>) s"

text \<open>The callbacks a tail is built with.\<close>

fun fw_callback :: "('f, 'r, 'i) fold_env \<Rightarrow> followed_tail \<Rightarrow> told \<Rightarrow> ('f, 'r, 'i) following \<Rightarrow> ('f, 'r, 'i) following" where
  "fw_callback env ft (Told OnExisting p) s =
     (if ft_appeared ft then fw_appended env (ft_sid ft) (ft_entry ft) p s else fw_existing env (ft_entry ft) p s)"
| "fw_callback env ft (Told OnAppended p) s = fw_appended env (ft_sid ft) (ft_entry ft) p s"
| "fw_callback env ft OnTruncated s =
     fw_say (OnFacts (ft_sid ft)) (fw_say (CacheDrop (ft_path ft))
       (fw_set (ft_entry ft) (\<lambda>fo. fo_reset env (fo\<lparr>fo_fold := fe_empty env\<rparr>)) s))"

text \<open>A step of a tail, with what it tells handed over in order.\<close>

definition fw_tail_step :: "('f, 'r, 'i) fold_env \<Rightarrow> nat \<Rightarrow> tail_event \<Rightarrow> ('f, 'r, 'i) following \<Rightarrow> ('f, 'r, 'i) following" where
  "fw_tail_step env x ev s =
     (case fw_tails s x of
        None \<Rightarrow> s
      | Some ft \<Rightarrow>
          let t = tl_step (ft_tail ft) ev;
              new = drop (length (tl_told (ft_tail ft))) (tl_told t)
          in fold (fw_callback env ft) new (s\<lparr>fw_tails := (fw_tails s)(x \<mapsto> ft\<lparr>ft_tail := t\<rparr>)\<rparr>))"

definition fw_stop_tail :: "nat option \<Rightarrow> ('f, 'r, 'i) following \<Rightarrow> ('f, 'r, 'i) following" where
  "fw_stop_tail x s =
     (case x of None \<Rightarrow> s
      | Some x \<Rightarrow> s\<lparr>fw_tails := (fw_tails s)(x := map_option (\<lambda>ft. ft\<lparr>ft_tail := tl_stop (ft_tail ft)\<rparr>) (fw_tails s x))\<rparr>)"

section \<open>Opening\<close>

text \<open>\<open>#let\<close>, \<open>#holds\<close>, \<open>#remember\<close> and \<open>#lookAgain\<close>.\<close>

definition fw_let :: "nat \<Rightarrow> ('f, 'r, 'i) following \<Rightarrow> ('f, 'r, 'i) following" where
  "fw_let e s =
     (case fw_entries s e of None \<Rightarrow> s
      | Some fo \<Rightarrow> fw_set e (\<lambda>fo. fo\<lparr>fo_timer := None\<rparr>) (fw_stop_tail (fo_tail fo) s))"

definition fw_holds :: "sid \<Rightarrow> nat \<Rightarrow> ('f, 'r, 'i) following \<Rightarrow> bool" where
  "fw_holds sid e s \<longleftrightarrow> map_of (fw_followed s) sid = Some e"

definition fw_remember :: "nat \<Rightarrow> ('f, 'r, 'i) following \<Rightarrow> ('f, 'r, 'i) following" where
  "fw_remember e s =
     (case fw_entries s e of None \<Rightarrow> s
      | Some fo \<Rightarrow>
          (case (fo_path fo, Option.bind (fo_tail fo) (fw_tails s)) of
             (Some path, Some ft) \<Rightarrow> fw_say (CacheSave path (tl_offset (ft_tail ft)) (fo_fold fo) (fo_reading fo) (fo_recent fo)) s
           | _ \<Rightarrow> s))"

definition fw_lookAgain :: "nat \<Rightarrow> bool \<Rightarrow> ('f, 'r, 'i) following \<Rightarrow> ('f, 'r, 'i) following" where
  "fw_lookAgain e appeared s = fw_set e (\<lambda>fo. fo\<lparr>fo_timer := Some appeared\<rparr>) s"

text \<open>\<open>followed.ready = this.#open(\<dots>)\<close>, to its first wait.\<close>

definition fw_open :: "sid \<Rightarrow> nat \<Rightarrow> bool \<Rightarrow> ('f, 'r, 'i) following \<Rightarrow> ('f, 'r, 'i) following" where
  "fw_open sid e appeared s =
     (case fw_entries s e of None \<Rightarrow> s
      | Some fo \<Rightarrow>
          if fo_frozen fo then fw_set e (\<lambda>fo. fo\<lparr>fo_ready := None\<rparr>) s
          else fw_set e (\<lambda>fo. fo\<lparr>fo_ready := Some (fw_next s)\<rparr>)
                 (s\<lparr>fw_opens := (fw_opens s)(fw_next s \<mapsto> \<lparr>op_sid = sid, op_entry = e, op_appeared = appeared, op_at = Finding\<rparr>),
                    fw_next := fw_next s + 1\<rparr>))"

definition fw_close :: "nat \<Rightarrow> ('f, 'r, 'i) following \<Rightarrow> ('f, 'r, 'i) following" where
  "fw_close k s = s\<lparr>fw_opens := (fw_opens s)(k := None)\<rparr>"

definition fw_wait :: "nat \<Rightarrow> open_call \<Rightarrow> open_wait \<Rightarrow> ('f, 'r, 'i) following \<Rightarrow> ('f, 'r, 'i) following" where
  "fw_wait k call at s = s\<lparr>fw_opens := (fw_opens s)(k \<mapsto> call\<lparr>op_at := at\<rparr>)\<rparr>"

text \<open>The reading could not be made.\<close>

definition fw_failed :: "('f, 'r, 'i) fold_env \<Rightarrow> sid \<Rightarrow> nat \<Rightarrow> string \<Rightarrow> ('f, 'r, 'i) following \<Rightarrow> ('f, 'r, 'i) following" where
  "fw_failed env sid e path s =
     (case fw_entries s e of None \<Rightarrow> s
      | Some fo \<Rightarrow>
          let s1 = fw_set e (\<lambda>fo. fo_reset env (fo\<lparr>fo_tail := None, fo_path := None, fo_fold := fe_empty env, fo_standing := Absent\<rparr>))
                     (fw_stop_tail (fo_tail fo) s);
              s2 = fw_say (CacheDrop path) s1
          in if fw_holds sid e s2 \<and> \<not> fo_frozen fo then fw_lookAgain e False s2 else s2)"

datatype ('f, 'r, 'i) brought = Found "string option" | Kept "('f, 'r, 'i) kept option" | FileCall found | Written

text \<open>The three stretches: the path is known, the cache has answered, the tail has caught up.\<close>

definition fw_found :: "nat \<Rightarrow> open_call \<Rightarrow> string option \<Rightarrow> ('f, 'r, 'i) followed \<Rightarrow> ('f, 'r, 'i) following \<Rightarrow> ('f, 'r, 'i) following" where
  "fw_found k call path fo s =
     (let e = op_entry call in
      if \<not> fw_holds (op_sid call) e s \<or> fo_frozen fo then fw_close k s
      else case path of
          None \<Rightarrow> fw_lookAgain e True (fw_set e (\<lambda>fo. fo\<lparr>fo_standing := Absent\<rparr>) (fw_close k s))
        | Some p \<Rightarrow> fw_wait k call (CacheReading p) (fw_set e (\<lambda>fo. fo\<lparr>fo_path := Some p, fo_standing := Folding\<rparr>) s))"

definition fw_restore :: "('f, 'r, 'i) kept option \<Rightarrow> ('f, 'r, 'i) followed \<Rightarrow> ('f, 'r, 'i) followed" where
  "fw_restore kept fo =
     (case kept of None \<Rightarrow> fo
      | Some kp \<Rightarrow> fo\<lparr>fo_fold := the (kp_fold kp), fo_recent := fo_recent fo @ kp_items kp, fo_reading := kp_reading kp\<rparr>)"

definition fw_kept :: "('f, 'r, 'i) fold_env \<Rightarrow> nat \<Rightarrow> open_call \<Rightarrow> string \<Rightarrow> ('f, 'r, 'i) kept option \<Rightarrow> ('f, 'r, 'i) followed \<Rightarrow> ('f, 'r, 'i) following \<Rightarrow> ('f, 'r, 'i) following" where
  "fw_kept env k call path kept fo s =
     (let e = op_entry call in
      if \<not> fw_holds (op_sid call) e s \<or> fo_frozen fo then fw_close k s
      else if (\<exists>kp. kept = Some kp \<and> kp_fold kp = None) then fw_failed env (op_sid call) e path (fw_close k s)
      else
        let x = fw_next s;
            ft = \<lparr>ft_tail = tl_start (case kept of None \<Rightarrow> 0 | Some kp \<Rightarrow> kp_offset kp) Tail, ft_entry = e,
                  ft_sid = op_sid call, ft_path = path, ft_appeared = op_appeared call\<rparr>
        in fw_wait k call (TailStarting x)
             (fw_set e (\<lambda>fo. (fw_restore kept fo)\<lparr>fo_tail := Some x\<rparr>)
               (s\<lparr>fw_tails := (fw_tails s)(x \<mapsto> ft), fw_next := x + 1\<rparr>)))"

definition fw_started :: "('f, 'r, 'i) fold_env \<Rightarrow> nat \<Rightarrow> open_call \<Rightarrow> nat \<Rightarrow> found \<Rightarrow> followed_tail \<Rightarrow> ('f, 'r, 'i) following \<Rightarrow> ('f, 'r, 'i) following" where
  "fw_started env k call x r ft s =
     (let e = op_entry call; s1 = fw_tail_step env x (StartOn 0 r) s in
      case tl_starting (ft_tail ft) of
        [] \<Rightarrow> s
      | w # _ \<Rightarrow>
          (case fst (tl_go_on w r (ft_tail ft)) of
             Waiting _ \<Rightarrow> s1
           | Raised \<Rightarrow> fw_failed env (op_sid call) e (ft_path ft) (fw_close k s1)
           | Over \<Rightarrow>
               if (case fw_entries s1 e of None \<Rightarrow> True | Some fo \<Rightarrow> fo_frozen fo) \<or> \<not> fw_holds (op_sid call) e s1
               then fw_close k (fw_stop_tail (Some x) s1)
               else fw_wait k call (Remembering x) (fw_remember e s1)))"

definition fw_open_on :: "('f, 'r, 'i) fold_env \<Rightarrow> nat \<Rightarrow> ('f, 'r, 'i) brought \<Rightarrow> ('f, 'r, 'i) following \<Rightarrow> ('f, 'r, 'i) following" where
  "fw_open_on env k b s =
     (case fw_opens s k of
        None \<Rightarrow> s
      | Some call \<Rightarrow>
          (case fw_entries s (op_entry call) of
             None \<Rightarrow> s
           | Some fo \<Rightarrow>
               (case (op_at call, b) of
                  (Finding, Found path) \<Rightarrow> fw_found k call path fo s
                | (CacheReading path, Kept kept) \<Rightarrow> fw_kept env k call path kept fo s
                | (TailStarting x, FileCall r) \<Rightarrow> (case fw_tails s x of None \<Rightarrow> s | Some ft \<Rightarrow> fw_started env k call x r ft s)
                | (Remembering x, Written) \<Rightarrow>
                    let size0 = (case fw_tails s x of None \<Rightarrow> 0 | Some ft \<Rightarrow> tl_size (ft_tail ft))
                    in fw_say (OnFacts (op_sid call))
                         (fw_set (op_entry call) (\<lambda>fo. fo\<lparr>fo_standing := (if size0 > 0 then Ready else Absent)\<rparr>) (fw_close k s))
                | _ \<Rightarrow> s)))"

section \<open>Holding and letting go\<close>

definition fw_hold :: "('f, 'r, 'i) fold_env \<Rightarrow> bool \<Rightarrow> sid \<Rightarrow> ('f, 'r, 'i) following \<Rightarrow> ('f, 'r, 'i) following" where
  "fw_hold env duplicated sid s =
     (case map_of (fw_followed s) sid of
        Some e \<Rightarrow> fw_set e (\<lambda>fo. fo\<lparr>fo_holds := fo_holds fo + 1\<rparr>) s
      | None \<Rightarrow>
          let e = fw_next s;
              fo = \<lparr>fo_holds = 1, fo_fold = fe_empty env, fo_reading = fe_new env, fo_recent = [], fo_ready = None,
                    fo_standing = (if duplicated then Frozen else Absent), fo_frozen = duplicated, fo_path = None, fo_tail = None, fo_timer = None\<rparr>;
              s1 = s\<lparr>fw_entries := (fw_entries s)(e \<mapsto> fo), fw_followed := map_set sid e (fw_followed s), fw_next := e + 1\<rparr>
          in if duplicated then s1 else fw_open sid e False s1)"

text \<open>What release and stopAll do to an entry that has been taken out.\<close>

definition fw_gone :: "sid \<Rightarrow> nat \<Rightarrow> ('f, 'r, 'i) following \<Rightarrow> ('f, 'r, 'i) following" where
  "fw_gone sid e s = fw_say (OnFacts sid) (fw_remember e (fw_let e s))"

definition fw_release :: "sid \<Rightarrow> ('f, 'r, 'i) following \<Rightarrow> ('f, 'r, 'i) following" where
  "fw_release sid s =
     (case map_of (fw_followed s) sid of
        None \<Rightarrow> s
      | Some e \<Rightarrow>
          (case fw_entries s e of
             None \<Rightarrow> s
           | Some fo \<Rightarrow>
               let s1 = fw_set e (\<lambda>fo. fo\<lparr>fo_holds := fo_holds fo - 1\<rparr>) s
               in if fo_holds fo - 1 > 0 then s1 else fw_gone sid e (s1\<lparr>fw_followed := map_del sid (fw_followed s1)\<rparr>)))"

definition fw_stopAll :: "('f, 'r, 'i) following \<Rightarrow> ('f, 'r, 'i) following" where
  "fw_stopAll s = fold (\<lambda>(sid, e). fw_gone sid e) (fw_followed s) (s\<lparr>fw_followed := []\<rparr>)"

definition fw_duplicated :: "('f, 'r, 'i) fold_env \<Rightarrow> sid \<Rightarrow> bool \<Rightarrow> ('f, 'r, 'i) following \<Rightarrow> ('f, 'r, 'i) following" where
  "fw_duplicated env sid now s =
     (case map_of (fw_followed s) sid of
        None \<Rightarrow> s
      | Some e \<Rightarrow>
          (case fw_entries s e of
             None \<Rightarrow> s
           | Some fo \<Rightarrow>
               if fo_frozen fo = now then s
               else if now then fw_set e (\<lambda>fo. fo\<lparr>fo_standing := Frozen\<rparr>) (fw_let e (fw_set e (\<lambda>fo. fo\<lparr>fo_frozen := True\<rparr>) s))
               else
                 let s1 = (case fo_path fo of None \<Rightarrow> s | Some p \<Rightarrow> fw_say (CacheDrop p) s)
                 in fw_open sid e False
                      (fw_set e (\<lambda>fo. fo_reset env (fo\<lparr>fo_frozen := False, fo_fold := fe_empty env, fo_tail := None, fo_path := None, fo_standing := Absent\<rparr>)) s1)))"

section \<open>What is asked of it\<close>

definition fw_facts :: "('f, 'r, 'i) fold_env \<Rightarrow> sid \<Rightarrow> ('f, 'r, 'i) following \<Rightarrow> 'f" where
  "fw_facts env sid s =
     (case Option.bind (map_of (fw_followed s) sid) (fw_entries s) of None \<Rightarrow> fe_empty env | Some fo \<Rightarrow> fo_fold fo)"

definition fw_standing :: "sid \<Rightarrow> ('f, 'r, 'i) following \<Rightarrow> standing" where
  "fw_standing sid s =
     (case Option.bind (map_of (fw_followed s) sid) (fw_entries s) of None \<Rightarrow> Absent | Some fo \<Rightarrow> fo_standing fo)"

text \<open>Whether \<open>ready(sid)\<close> has settled, and what a subscription then opens on.\<close>

definition fw_ready :: "sid \<Rightarrow> ('f, 'r, 'i) following \<Rightarrow> bool" where
  "fw_ready sid s =
     (case Option.bind (map_of (fw_followed s) sid) (fw_entries s) of
        None \<Rightarrow> True
      | Some fo \<Rightarrow> (case fo_ready fo of None \<Rightarrow> True | Some k \<Rightarrow> fw_opens s k = None))"

datatype 'i opens_on = OpenAt nat | OpenItems "'i list"

definition fw_snapshot :: "bool \<Rightarrow> sid \<Rightarrow> ('f, 'r, 'i) following \<Rightarrow> 'i opens_on option" where
  "fw_snapshot items sid s =
     (case Option.bind (map_of (fw_followed s) sid) (fw_entries s) of
        None \<Rightarrow> None
      | Some fo \<Rightarrow>
          (case Option.bind (fo_tail fo) (fw_tails s) of
             None \<Rightarrow> None
           | Some ft \<Rightarrow> Some (if items then OpenItems (fo_recent fo) else OpenAt (tl_size (ft_tail ft)))))"

definition fw_following :: "sid \<Rightarrow> ('f, 'r, 'i) following \<Rightarrow> bool" where
  "fw_following sid s =
     (case Option.bind (map_of (fw_followed s) sid) (fw_entries s) of
        None \<Rightarrow> False
      | Some fo \<Rightarrow> (case Option.bind (fo_tail fo) (fw_tails s) of None \<Rightarrow> False | Some ft \<Rightarrow> tl_running (ft_tail ft)))"

section \<open>Runs\<close>

text \<open>A hold states whether the session was being run twice at that moment; a tail ticks or reads on by
  its number; a timer fires for the entry that set it.\<close>

datatype ('f, 'r, 'i) follow_event =
    FHold sid bool
  | FRelease sid
  | FStopAll
  | FDuplicated sid bool
  | FOpenOn nat "('f, 'r, 'i) brought"
  | FTick nat
  | FReadOn nat found
  | FLook sid nat

definition fw_look :: "sid \<Rightarrow> nat \<Rightarrow> ('f, 'r, 'i) following \<Rightarrow> ('f, 'r, 'i) following" where
  "fw_look sid e s =
     (case Option.bind (fw_entries s e) fo_timer of
        None \<Rightarrow> s
      | Some appeared \<Rightarrow>
          if map_of (fw_followed s) sid = Some e then fw_open sid e appeared (fw_set e (\<lambda>fo. fo\<lparr>fo_timer := None\<rparr>) s) else s)"

fun fw_step :: "('f, 'r, 'i) fold_env \<Rightarrow> ('f, 'r, 'i) following \<Rightarrow> ('f, 'r, 'i) follow_event \<Rightarrow> ('f, 'r, 'i) following" where
  "fw_step env s (FHold sid duplicated) = fw_hold env duplicated sid s"
| "fw_step env s (FRelease sid) = fw_release sid s"
| "fw_step env s FStopAll = fw_stopAll s"
| "fw_step env s (FDuplicated sid now) = fw_duplicated env sid now s"
| "fw_step env s (FOpenOn k b) = fw_open_on env k b s"
| "fw_step env s (FTick x) = fw_tail_step env x Tick s"
| "fw_step env s (FReadOn x r) = fw_tail_step env x (ReadOn r) s"
| "fw_step env s (FLook sid e) = fw_look sid e s"

text \<open>A fold that keeps the lines it saw and a classification that hands them on.\<close>

definition lines_env :: "(text_cp list, nat, text_cp) fold_env" where
  "lines_env = \<lparr>fe_empty = [], fe_line = \<lambda>fd l. (True, fd @ [l]), fe_new = 0, fe_readAll = \<lambda>r ls start. (ls, r + length ls)\<rparr>"

lemmas follow_runs =
  Transcripts_def lines_env_def fw_hold_def fw_release_def fw_gone_def fw_duplicated_def fw_open_on_def fw_tail_step_def
  fw_open_def fw_set_def fw_let_def fw_stop_tail_def fw_remember_def fw_say_def fw_lookAgain_def fw_look_def fw_holds_def
  fw_close_def fw_wait_def fw_found_def fw_kept_def fw_restore_def fw_started_def fw_failed_def fo_reset_def fo_keep_def
  fw_appended_def fw_existing_def tl_start_def tl_stop_def Tail_def tail_runs split_records.simps utf8_text_def ITEMS_SNAPSHOT_def

text \<open>A session run twice for as long as \<open>#open\<close> waits for its path is opened by two calls: both put a
  watch on the file, every record is published and folded twice, and letting go of the session stops
  one of the two tails.\<close>

definition opened_twice :: "(text_cp list, nat, text_cp) follow_event list" where
  "opened_twice =
     [FHold ''s'' False, FDuplicated ''s'' True, FDuplicated ''s'' False]
     @ concat (map (\<lambda>k. [FOpenOn k (Found (Some ''p'')), FOpenOn k (Kept None), FOpenOn k (FileCall (Content [])), FOpenOn k Written]) [1, 2])
     @ concat (map (\<lambda>x. [FTick x, FReadOn x (Content [97, 10]), FReadOn x (Content [97, 10])]) [3, 4])"

lemma duplicate_ending_during_open_follows_twice:
  "let s = foldl (fw_step lines_env) Transcripts opened_twice; s' = fw_step lines_env s (FRelease ''s'') in
   fw_facts lines_env ''s'' s = [[97], [97]]
   \<and> length (filter (\<lambda>x. x = PublishLines ''s'' \<lparr>ap_lines = [[97]], ap_start = 0, ap_end = 2, ap_size = 2\<rparr>) (fw_out s)) = 2
   \<and> map_option (tl_running \<circ> ft_tail) (fw_tails s' 3) = Some True"
  by (simp add: opened_twice_def follow_runs fw_facts_def)

text \<open>Letting go of a session while it is run twice writes down the reading it had before; the next hold
  takes that up, while the end of the duplication would have dropped it.\<close>

lemma release_while_frozen_keeps_the_reading:
  "let s = foldl (fw_step lines_env) Transcripts
       [FHold ''s'' False, FOpenOn 1 (Found (Some ''p'')), FOpenOn 1 (Kept None), FOpenOn 1 (FileCall (Content [97, 10])),
        FOpenOn 1 (FileCall (Content [97, 10])), FOpenOn 1 Written, FDuplicated ''s'' True, FRelease ''s''] in
   last (butlast (fw_out s)) = CacheSave ''p'' 2 [[97]] 1 [[97]] \<and> (\<forall>x \<in> set (fw_out s). x \<noteq> CacheDrop ''p'')"
  by (simp add: follow_runs)

end
