(* ===== verification/FollowFacts.thy ===== *)
theory FollowFacts
  imports Follow
begin

text \<open>
  What following a session promises: only the tail of a session that is held and not run twice is on,
  what the fold says is what the whole records of the file say up to the tail's offset, and so does what
  is written into the cache, from which the next reading starts.
\<close>

declare map_of_eq_Some_iff [simp del]

section \<open>Tails that are on\<close>

text \<open>Whether a tail may still tell something.\<close>

definition tl_live :: "tail \<Rightarrow> bool" where
  "tl_live t \<longleftrightarrow> tl_running t \<or> (\<exists>w \<in> waits t. wait_run w = tl_run t) \<or> tl_run t \<in> set (tl_chained t)"

definition runs_le :: "tail \<Rightarrow> bool" where
  "runs_le t \<longleftrightarrow> (\<forall>w \<in> waits t. wait_run w \<le> tl_run t) \<and> (\<forall>r \<in> set (tl_chained t). r \<le> tl_run t)"

lemma stop_ends: "runs_le t \<Longrightarrow> \<not> tl_live (tl_stop t) \<and> runs_le (tl_stop t) \<and> tl_told (tl_stop t) = tl_told t \<and> tl_offset (tl_stop t) = tl_offset t"
proof -
  assume r: "runs_le t"
  then have "wait_run w \<noteq> Suc (tl_run t)" if "w \<in> waits t" for w using that unfolding runs_le_def by force
  moreover have "Suc (tl_run t) \<notin> set (tl_chained t)" using r unfolding runs_le_def by force
  moreover have "waits (tl_stop t) = waits t" by (simp add: waits_def tl_stop_def)
  ultimately show ?thesis using r by (auto simp: tl_live_def runs_le_def tl_stop_def)
qed

lemma tail_inv_stop: "tail_inv f a m t \<Longrightarrow> tail_inv f a m (tl_stop t)"
  using inv_step [of f a m t Stop] by simp

lemma tail_inv_mono: "tail_inv f a m t \<Longrightarrow> m \<le> m' \<Longrightarrow> m' \<le> length f \<Longrightarrow> tail_inv f a m' t"
  using wait_ok_mono unfolding tail_inv_def tl_placed_def by (meson le_trans)

lemma chain_runs:
  "\<forall>r \<in> set rs. r \<le> tl_run t \<Longrightarrow> runs_le (t\<lparr>tl_reading := None, tl_chained := []\<rparr>) \<Longrightarrow> runs_le (tl_chain rs t)"
  by (induction rs t rule: tl_chain.induct) (auto simp: runs_le_def waits_def)

lemma chain_live:
  "tl_live (tl_chain rs t) \<Longrightarrow> tl_run t \<in> set rs \<or> tl_live (t\<lparr>tl_reading := None, tl_chained := []\<rparr>)"
proof (induction rs t rule: tl_chain.induct)
  case (2 run runs t)
  then show ?case by (cases "run = tl_run t") auto
qed simp

lemma go_on_wait: "tl_go_on w r t = (Waiting w', t') \<Longrightarrow> wait_run w = tl_run t \<and> wait_run w' = tl_run t"
  by (cases w) (auto simp: tl_sliced_def tl_consume_def Let_def split: if_splits option.splits)

lemma go_on_told: "\<exists>new. tl_told (snd (tl_go_on w r t)) = tl_told t @ new"
  by (cases w) (auto simp: tl_sliced_def tl_tell_def Let_def split: option.splits)

lemma go_on_told_stale: "wait_run w \<noteq> tl_run t \<Longrightarrow> tl_told (snd (tl_go_on w r t)) = tl_told t"
  using go_on_stale [of w t r] by simp

lemma read_on_runs:
  assumes "runs_le t"
  shows "runs_le (tl_read_on r t) \<and> (tl_live (tl_read_on r t) \<longrightarrow> tl_live t)
    \<and> (\<exists>new. tl_told (tl_read_on r t) = tl_told t @ new \<and> (\<not> tl_live t \<longrightarrow> new = []))"
proof (cases "tl_reading t")
  case None
  then show ?thesis using assms by (simp add: tl_read_on_def)
next
  case (Some w)
  obtain p t' where g: "tl_go_on w r t = (p, t')" by fastforce
  have fr: "same_frame t t'" using go_on_frame [of t w r] g by simp
  obtain new where new: "tl_told t' = tl_told t @ new" using go_on_told [of w r t] g by auto
  have stale: "new = []" if "\<not> tl_live t" using that go_on_told_stale [of w t r] g new Some by (auto simp: tl_live_def waits_def)
  show ?thesis
  proof (cases p)
    case (Waiting w')
    then show ?thesis using go_on_wait [of w r t w' t'] g fr assms new stale Some
      by (auto simp: tl_read_on_def runs_le_def tl_live_def waits_def same_frame_def)
  next
    case Over
    have e: "tl_read_on r t = tl_chain (tl_chained t') t'" by (simp add: tl_read_on_def Some g Over)
    have "runs_le (tl_chain (tl_chained t') t')" using assms fr by (intro chain_runs) (auto simp: runs_le_def waits_def same_frame_def)
    moreover have "tl_live t" if "tl_live (tl_chain (tl_chained t') t')"
      using chain_live [OF that] fr by (auto simp: tl_live_def waits_def same_frame_def)
    ultimately show ?thesis unfolding e using chain_frame [of "tl_chained t'" t'] new stale by auto
  next
    case Raised
    then show ?thesis using fr assms new stale by (auto simp: tl_read_on_def Some g runs_le_def tl_live_def waits_def same_frame_def)
  qed
qed

lemma set_drop_nth: "set (drop_nth i xs) \<subseteq> set xs"
  by (auto simp: drop_nth_def dest: in_set_takeD in_set_dropD)

lemma start_on_runs:
  assumes "runs_le t"
  shows "runs_le (tl_start_on i r t) \<and> (tl_live (tl_start_on i r t) \<longrightarrow> tl_live t)
    \<and> (\<exists>new. tl_told (tl_start_on i r t) = tl_told t @ new \<and> (\<not> tl_live t \<longrightarrow> new = []))"
proof (cases "i < length (tl_starting t)")
  case False
  then show ?thesis using assms by (simp add: tl_start_on_def)
next
  case True
  define w where "w = tl_starting t ! i"
  have w: "w \<in> set (tl_starting t)" using True by (simp add: w_def)
  obtain p t' where g: "tl_go_on w r t = (p, t')" by fastforce
  have fr: "same_frame t t'" using go_on_frame [of t w r] g by simp
  obtain new where new: "tl_told t' = tl_told t @ new" using go_on_told [of w r t] g by auto
  have stale: "new = []" if "\<not> tl_live t" using that go_on_told_stale [of w t r] g new w by (auto simp: tl_live_def waits_def)
  note d = set_drop_nth [of i "tl_starting t"]
  show ?thesis
  proof (cases p)
    case (Waiting w')
    have "set ((tl_starting t)[i := w']) \<subseteq> insert w' (set (tl_starting t))" by (rule set_update_subset_insert)
    then show ?thesis using go_on_wait [of w r t w' t'] g fr assms new stale w True Waiting
      by (auto simp: tl_start_on_def w_def [symmetric] runs_le_def tl_live_def waits_def same_frame_def Let_def)
  next
    case Over
    then show ?thesis using g fr assms new stale w True d
      by (auto simp: tl_start_on_def w_def [symmetric] runs_le_def tl_live_def waits_def same_frame_def Let_def)
  next
    case Raised
    then show ?thesis using g fr assms new stale w True d
      by (auto simp: tl_start_on_def w_def [symmetric] runs_le_def tl_live_def waits_def same_frame_def Let_def)
  qed
qed

lemma tick_runs:
  assumes "runs_le t"
  shows "runs_le (tl_step t Tick) \<and> (tl_live (tl_step t Tick) \<longrightarrow> tl_live t) \<and> tl_told (tl_step t Tick) = tl_told t"
proof (cases "tl_running t \<and> \<not> tl_rejected t")
  case True
  then have l: "tl_live t" by (simp add: tl_live_def)
  show ?thesis
  proof (cases "tl_reading t")
    case None
    have "runs_le (tl_chain (tl_chained t @ [tl_run t]) t)" using assms by (intro chain_runs) (auto simp: runs_le_def waits_def)
    then show ?thesis using True l None chain_frame [of "tl_chained t @ [tl_run t]" t] by (simp add: tl_refresh_def)
  next
    case (Some w)
    then show ?thesis using True l assms by (auto simp: tl_refresh_def runs_le_def waits_def)
  qed
qed (use assms in \<open>auto simp: tl_refresh_def\<close>)

text \<open>A step of a tail other than a stop.\<close>

lemma step_runs:
  assumes "runs_le t" "ev \<noteq> Stop"
  shows "runs_le (tl_step t ev) \<and> (tl_live (tl_step t ev) \<longrightarrow> tl_live t)
    \<and> (\<exists>new. tl_told (tl_step t ev) = tl_told t @ new \<and> (\<not> tl_live t \<longrightarrow> new = []))"
proof (cases ev)
  case (StartOn i r)
  then show ?thesis using start_on_runs [OF assms(1), of i r] by simp
next
  case (ReadOn r)
  then show ?thesis using read_on_runs [OF assms(1), of r] by simp
qed (use assms tick_runs [OF assms(1)] in simp_all)

lemma start_runs: "runs_le (tl_start a Tail)"
  by (simp add: runs_le_def tl_start_def Tail_def waits_def)
section \<open>What the fold says\<close>

definition folded :: "('f, 'r, 'i) fold_env \<Rightarrow> text_cp list \<Rightarrow> 'f" where
  "folded env ls = snd (foldAll env (fe_empty env) ls)"

lemma foldAll_append: "snd (foldAll env fd (xs @ ys)) = snd (foldAll env (snd (foldAll env fd xs)) ys)"
  by (induction env fd xs rule: foldAll.induct) (auto split: prod.splits)

lemma folded_append: "snd (foldAll env (folded env xs) ys) = folded env (xs @ ys)"
  by (simp add: folded_def foldAll_append)

lemma told_lines_simps [simp]:
  "told_lines [] = []" "told_lines (Told k p # ts) = ap_lines p @ told_lines ts"
  "told_lines (xs @ ys) = told_lines xs @ told_lines ys"
  by (simp_all add: told_lines_def)

text \<open>The fields of an entry that decide what is followed.\<close>

definition same_entry :: "('f, 'r, 'i) followed \<Rightarrow> ('f, 'r, 'i) followed \<Rightarrow> bool" where
  "same_entry fo fo' \<longleftrightarrow> fo_tail fo' = fo_tail fo \<and> fo_path fo' = fo_path fo \<and> fo_frozen fo' = fo_frozen fo \<and> fo_timer fo' = fo_timer fo"

fun is_save :: "('f, 'r, 'i) follow_out \<Rightarrow> bool" where
  "is_save (CacheSave p n fd r is) = True"
| "is_save _ = False"

text \<open>Everything but one entry, and nothing written into the cache.\<close>

definition only_entry :: "nat \<Rightarrow> ('f, 'r, 'i) following \<Rightarrow> ('f, 'r, 'i) following \<Rightarrow> bool" where
  "only_entry e s s' \<longleftrightarrow>
     (\<forall>e'. e' \<noteq> e \<longrightarrow> fw_entries s' e' = fw_entries s e') \<and> fw_followed s' = fw_followed s \<and> fw_tails s' = fw_tails s
     \<and> fw_opens s' = fw_opens s \<and> fw_next s' = fw_next s \<and> filter is_save (fw_out s') = filter is_save (fw_out s)"

lemma only_entry_refl [simp]: "only_entry e s s" by (simp add: only_entry_def)

lemma only_entry_trans: "only_entry e s s' \<Longrightarrow> only_entry e s' s'' \<Longrightarrow> only_entry e s s''"
  by (simp add: only_entry_def)

lemma keep_same: "fo_keep env chunk fo = (items, fo') \<Longrightarrow> same_entry fo fo' \<and> fo_fold fo' = fo_fold fo"
  by (auto simp: fo_keep_def same_entry_def Let_def split: prod.splits)

lemma callback_effect:
  assumes "fw_entries s e = Some fo" "ft_entry ft = e"
  shows "\<exists>fo'. fw_entries (fw_callback env ft (Told k p) s) e = Some fo' \<and> same_entry fo fo'
    \<and> fo_fold fo' = snd (foldAll env (fo_fold fo) (ap_lines p)) \<and> only_entry e s (fw_callback env ft (Told k p) s)"
proof -
  obtain changed fd where f: "foldAll env (fo_fold fo) (ap_lines p) = (changed, fd)" by fastforce
  define fo1 where "fo1 = fo\<lparr>fo_fold := fd, fo_standing := (if fo_standing fo = Absent then Ready else fo_standing fo)\<rparr>"
  obtain items fo2 where k: "fo_keep env p fo1 = (items, fo2)" by fastforce
  obtain items' fo3 where k': "fo_keep env p fo = (items', fo3)" by fastforce
  have a: "\<exists>fo'. fw_entries (fw_appended env sid e p s) e = Some fo' \<and> same_entry fo fo'
    \<and> fo_fold fo' = fd \<and> only_entry e s (fw_appended env sid e p s)" for sid
    using keep_same [OF k] assms(1) f k
    by (auto simp: fw_appended_def fo1_def fw_say_def same_entry_def only_entry_def Let_def split: prod.splits)
  have "\<exists>fo'. fw_entries (fw_existing env e p s) e = Some fo' \<and> same_entry fo fo' \<and> fo_fold fo' = fd \<and> only_entry e s (fw_existing env e p s)"
    using keep_same [OF k'] assms(1) f k' by (auto simp: fw_existing_def fw_set_def same_entry_def only_entry_def Let_def)
  then show ?thesis using a assms(2) f by (cases k) auto
qed

lemma callbacks_effect:
  assumes "fw_entries s e = Some fo" "ft_entry ft = e" "OnTruncated \<notin> set new"
  shows "\<exists>fo'. fw_entries (fold (fw_callback env ft) new s) e = Some fo' \<and> same_entry fo fo'
    \<and> fo_fold fo' = snd (foldAll env (fo_fold fo) (told_lines new)) \<and> only_entry e s (fold (fw_callback env ft) new s)"
  using assms(1,3)
proof (induction new arbitrary: s fo)
  case (Cons x new)
  then obtain k p where x: "x = Told k p" by (cases x) auto
  obtain fo1 where 1: "fw_entries (fw_callback env ft x s) e = Some fo1" "same_entry fo fo1"
    "fo_fold fo1 = snd (foldAll env (fo_fold fo) (ap_lines p))" "only_entry e s (fw_callback env ft x s)"
    using callback_effect [OF Cons.prems(1) assms(2), of env k p] x by blast
  obtain fo2 where 2: "fw_entries (fold (fw_callback env ft) new (fw_callback env ft x s)) e = Some fo2" "same_entry fo1 fo2"
    "fo_fold fo2 = snd (foldAll env (fo_fold fo1) (told_lines new))"
    "only_entry e (fw_callback env ft x s) (fold (fw_callback env ft) new (fw_callback env ft x s))"
    using Cons.IH [OF 1(1)] Cons.prems(2) by auto
  show ?case using 1 2 only_entry_trans [OF 1(4) 2(4)] by (auto simp: x same_entry_def foldAll_append)
qed (auto simp: same_entry_def)

section \<open>The invariant\<close>

text \<open>\<open>F\<close> is what each file becomes and \<open>M\<close> how much of it has been seen.\<close>

definition entry_ok :: "('f, 'r, 'i) fold_env \<Rightarrow> (string \<Rightarrow> byte list) \<Rightarrow> (string \<Rightarrow> nat) \<Rightarrow> (nat \<Rightarrow> followed_tail option)
    \<Rightarrow> nat \<Rightarrow> ('f, 'r, 'i) followed \<Rightarrow> bool" where
  "entry_ok env F M tails e fo \<longleftrightarrow>
     (case fo_tail fo of
        None \<Rightarrow> fo_fold fo = fe_empty env
      | Some x \<Rightarrow> \<exists>ft a. tails x = Some ft \<and> ft_entry ft = e \<and> fo_path fo = Some (ft_path ft)
          \<and> closed (cut (F (ft_path ft)) 0 a) \<and> tail_inv (F (ft_path ft)) a (M (ft_path ft)) (ft_tail ft)
          \<and> fo_fold fo = folded env (split_records (cut (F (ft_path ft)) 0 a) @ told_lines (tl_told (ft_tail ft))))"

definition tail_ok :: "(nat \<Rightarrow> ('f, 'r, 'i) followed option) \<Rightarrow> (sid, nat) js_map \<Rightarrow> nat \<Rightarrow> followed_tail \<Rightarrow> bool" where
  "tail_ok entries followed x ft \<longleftrightarrow>
     runs_le (ft_tail ft) \<and> (tl_live (ft_tail ft) \<longrightarrow> map_of followed (ft_sid ft) = Some (ft_entry ft)
       \<and> (\<exists>fo. entries (ft_entry ft) = Some fo \<and> fo_tail fo = Some x \<and> \<not> fo_frozen fo))"

fun wait_at :: "('f, 'r, 'i) followed \<Rightarrow> open_wait \<Rightarrow> bool" where
  "wait_at fo Finding \<longleftrightarrow> fo_tail fo = None"
| "wait_at fo (CacheReading p) \<longleftrightarrow> fo_tail fo = None \<and> fo_path fo = Some p"
| "wait_at fo (TailStarting x) \<longleftrightarrow> fo_tail fo = Some x"
| "wait_at fo (Remembering x) \<longleftrightarrow> True"

definition open_ok :: "(nat \<Rightarrow> ('f, 'r, 'i) followed option) \<Rightarrow> (nat \<Rightarrow> open_call option) \<Rightarrow> nat \<Rightarrow> open_call \<Rightarrow> bool" where
  "open_ok entries opens k c \<longleftrightarrow>
     (\<exists>fo. entries (op_entry c) = Some fo \<and> fo_timer fo = None \<and> wait_at fo (op_at c))
     \<and> (\<forall>k' c'. opens k' = Some c' \<longrightarrow> op_entry c' = op_entry c \<longrightarrow> k' = k)"

lemma open_ok_entries:
  assumes "open_ok entries opens k c" "entries' (op_entry c) = entries (op_entry c)"
  shows "open_ok entries' opens k c"
  using assms(1) unfolding open_ok_def assms(2) .

lemma open_okI:
  assumes "entries (op_entry c) = Some fo" "fo_timer fo = None" "wait_at fo (op_at c)"
    and "\<And>k' c'. opens k' = Some c' \<Longrightarrow> op_entry c' = op_entry c \<Longrightarrow> k' = k"
  shows "open_ok entries opens k c"
  unfolding open_ok_def using assms by blast

lemma open_okD:
  assumes "open_ok entries opens k c"
  obtains fo where "entries (op_entry c) = Some fo" "fo_timer fo = None" "wait_at fo (op_at c)"
    "\<And>k' c'. opens k' = Some c' \<Longrightarrow> op_entry c' = op_entry c \<Longrightarrow> k' = k"
  using assms unfolding open_ok_def by blast

definition save_ok :: "('f, 'r, 'i) fold_env \<Rightarrow> (string \<Rightarrow> byte list) \<Rightarrow> ('f, 'r, 'i) follow_out \<Rightarrow> bool" where
  "save_ok env F x \<longleftrightarrow>
     (case x of
        CacheSave p n fd r is \<Rightarrow> n \<le> length (F p) \<and> closed (cut (F p) 0 n) \<and> fd = folded env (split_records (cut (F p) 0 n))
      | _ \<Rightarrow> True)"

definition fw_inv :: "('f, 'r, 'i) fold_env \<Rightarrow> (string \<Rightarrow> byte list) \<Rightarrow> (string \<Rightarrow> nat) \<Rightarrow> ('f, 'r, 'i) following \<Rightarrow> bool" where
  "fw_inv env F M s \<longleftrightarrow>
     (\<forall>k \<ge> fw_next s. fw_entries s k = None \<and> fw_tails s k = None \<and> fw_opens s k = None)
     \<and> (\<forall>e fo. fw_entries s e = Some fo \<longrightarrow> entry_ok env F M (fw_tails s) e fo)
     \<and> (\<forall>x ft. fw_tails s x = Some ft \<longrightarrow> tail_ok (fw_entries s) (fw_followed s) x ft)
     \<and> (\<forall>k c. fw_opens s k = Some c \<longrightarrow> open_ok (fw_entries s) (fw_opens s) k c)
     \<and> (\<forall>sid e. map_of (fw_followed s) sid = Some e \<longrightarrow> fw_entries s e \<noteq> None) \<and> map_wf (fw_followed s)
     \<and> (\<forall>x \<in> set (filter is_save (fw_out s)). save_ok env F x) \<and> (\<forall>p. M p \<le> length (F p))
     \<and> (\<forall>e fo. fw_entries s e = Some fo \<longrightarrow> fo_frozen fo \<or> fo_tail fo \<noteq> None \<longrightarrow> fo_timer fo = None)"

lemma fw_invI:
  assumes "\<And>k. fw_next s \<le> k \<Longrightarrow> fw_entries s k = None \<and> fw_tails s k = None \<and> fw_opens s k = None"
    "\<And>e fo. fw_entries s e = Some fo \<Longrightarrow> entry_ok env F M (fw_tails s) e fo"
    "\<And>x ft. fw_tails s x = Some ft \<Longrightarrow> tail_ok (fw_entries s) (fw_followed s) x ft"
    "\<And>k c. fw_opens s k = Some c \<Longrightarrow> open_ok (fw_entries s) (fw_opens s) k c"
    "\<And>sid e. map_of (fw_followed s) sid = Some e \<Longrightarrow> fw_entries s e \<noteq> None" "map_wf (fw_followed s)"
    "\<And>x. x \<in> set (filter is_save (fw_out s)) \<Longrightarrow> save_ok env F x" "\<And>p. M p \<le> length (F p)"
    "\<And>e fo. fw_entries s e = Some fo \<Longrightarrow> fo_frozen fo \<or> fo_tail fo \<noteq> None \<Longrightarrow> fo_timer fo = None"
  shows "fw_inv env F M s"
  using assms unfolding fw_inv_def by blast

lemma fw_invD:
  assumes "fw_inv env F M s"
  shows "\<And>k. fw_next s \<le> k \<Longrightarrow> fw_entries s k = None" "\<And>k. fw_next s \<le> k \<Longrightarrow> fw_tails s k = None" "\<And>k. fw_next s \<le> k \<Longrightarrow> fw_opens s k = None"
    "\<And>e fo. fw_entries s e = Some fo \<Longrightarrow> entry_ok env F M (fw_tails s) e fo"
    "\<And>x ft. fw_tails s x = Some ft \<Longrightarrow> tail_ok (fw_entries s) (fw_followed s) x ft"
    "\<And>k c. fw_opens s k = Some c \<Longrightarrow> open_ok (fw_entries s) (fw_opens s) k c"
    "\<And>sid e. map_of (fw_followed s) sid = Some e \<Longrightarrow> fw_entries s e \<noteq> None" "map_wf (fw_followed s)"
    "\<And>x. x \<in> set (filter is_save (fw_out s)) \<Longrightarrow> save_ok env F x" "\<And>p. M p \<le> length (F p)"
    "\<And>e fo. fw_entries s e = Some fo \<Longrightarrow> fo_frozen fo \<or> fo_tail fo \<noteq> None \<Longrightarrow> fo_timer fo = None"
  using assms unfolding fw_inv_def by blast+

lemma inv_mono: "fw_inv env F M s \<Longrightarrow> (\<And>p. M p \<le> M' p) \<Longrightarrow> (\<And>p. M' p \<le> length (F p)) \<Longrightarrow> fw_inv env F M' s"
proof -
  assume i: "fw_inv env F M s" and m: "\<And>p. M p \<le> M' p" "\<And>p. M' p \<le> length (F p)"
  have "entry_ok env F M' (fw_tails s) e fo" if "fw_entries s e = Some fo" for e fo
    using fw_invD(4) [OF i that] tail_inv_mono [OF _ m(1) m(2)] unfolding entry_ok_def by (auto split: option.splits) blast
  then show ?thesis using i m(2) unfolding fw_inv_def by blast
qed

text \<open>An entry's fields that decide nothing change.\<close>

lemma inv_only_entry:
  assumes i: "fw_inv env F M s" and o: "only_entry e s s'" and e: "fw_entries s e = Some fo" "fw_entries s' e = Some fo'"
    and "fo_tail fo' = fo_tail fo" "fo_path fo' = fo_path fo" "fo_fold fo' = fo_fold fo" "fo_frozen fo' = fo_frozen fo"
    and t: "fo_timer fo' = fo_timer fo \<or> fo_timer fo' = None \<or> (\<not> fo_frozen fo \<and> fo_tail fo = None \<and> (\<forall>k c. fw_opens s k = Some c \<longrightarrow> op_entry c \<noteq> e))"
  shows "fw_inv env F M s'"
proof -
  note f = o [unfolded only_entry_def] and same = assms(5-8)
  have ent: "fw_entries s' e' = (if e' = e then Some fo' else fw_entries s e')" for e' using f e(2) by simp
  have w: "wait_at fo' a = wait_at fo a" for a using same by (cases a) auto
  have eo: "entry_ok env F M T e fo' = entry_ok env F M T e fo" for T unfolding entry_ok_def same(1-3) ..
  show ?thesis
  proof (rule fw_invI)
    fix k assume "fw_next s' \<le> k"
    then show "fw_entries s' k = None \<and> fw_tails s' k = None \<and> fw_opens s' k = None" using fw_invD(1-3) [OF i, of k] f e(1) ent by auto
  next
    fix e' g assume "fw_entries s' e' = Some g"
    then show "entry_ok env F M (fw_tails s') e' g" using fw_invD(4) [OF i, of e'] e(1) ent f eo by (auto split: if_splits)
  next
    fix x ft assume "fw_tails s' x = Some ft"
    then show "tail_ok (fw_entries s') (fw_followed s') x ft" using fw_invD(5) [OF i, of x ft] f e(1) ent same by (auto simp: tail_ok_def)
  next
    fix k c assume "fw_opens s' k = Some c"
    then have c: "fw_opens s k = Some c" and ok: "open_ok (fw_entries s) (fw_opens s) k c" using f fw_invD(6) [OF i] by auto
    then obtain g where g: "fw_entries s (op_entry c) = Some g" "fo_timer g = None" "wait_at g (op_at c)" by (auto simp: open_ok_def)
    have "\<exists>h. fw_entries s' (op_entry c) = Some h \<and> fo_timer h = None \<and> wait_at h (op_at c)"
    proof (cases "op_entry c = e")
      case True
      then have "fo_timer fo' = None" using t c g e(1) by auto
      then show ?thesis using True g e(1) w by (simp add: ent)
    next
      case False
      then show ?thesis using g by (simp add: ent)
    qed
    then show "open_ok (fw_entries s') (fw_opens s') k c" using ok f unfolding open_ok_def by simp
  next
    fix sid e' assume "map_of (fw_followed s') sid = Some e'"
    then show "fw_entries s' e' \<noteq> None" using fw_invD(7) [OF i, of sid e'] f ent by auto
  next
    fix e' g assume "fw_entries s' e' = Some g" "fo_frozen g \<or> fo_tail g \<noteq> None"
    then show "fo_timer g = None" using fw_invD(11) [OF i, of e' g] fw_invD(11) [OF i e(1)] t same ent by (cases "e' = e") auto
  qed (use f fw_invD(8-10) [OF i] in auto)
qed

lemma inv_say: "fw_inv env F M s \<Longrightarrow> save_ok env F x \<Longrightarrow> fw_inv env F M (fw_say x s)"
  by (auto simp: fw_inv_def fw_say_def)

lemma inv_close: "fw_inv env F M s \<Longrightarrow> fw_inv env F M (fw_close k s)"
  by (auto simp: fw_inv_def fw_close_def open_ok_def)

lemma inv_set:
  assumes i: "fw_inv env F M s" and "\<And>fo. fo_tail (g fo) = fo_tail fo \<and> fo_path (g fo) = fo_path fo \<and> fo_fold (g fo) = fo_fold fo \<and> fo_frozen (g fo) = fo_frozen fo"
    and "\<And>fo. fw_entries s e = Some fo \<Longrightarrow> fo_timer (g fo) = fo_timer fo \<or> fo_timer (g fo) = None
      \<or> (\<not> fo_frozen fo \<and> fo_tail fo = None \<and> (\<forall>k c. fw_opens s k = Some c \<longrightarrow> op_entry c \<noteq> e))"
  shows "fw_inv env F M (fw_set e g s)"
proof (cases "fw_entries s e")
  case None
  then have "(fw_entries s)(e := None) = fw_entries s" by auto
  then show ?thesis using i None by (simp add: fw_set_def)
next
  case (Some fo)
  show ?thesis by (rule inv_only_entry [OF i _ Some, of _ "g fo"]) (use Some assms(2) [of fo] assms(3) [OF Some] in \<open>auto simp: fw_set_def only_entry_def\<close>)
qed

text \<open>What an entry's tail has told, as the file has it.\<close>

lemma entry_content:
  assumes "entry_ok env F M tails e fo" "fo_tail fo = Some x" "tails x = Some ft"
  shows "fo_fold fo = folded env (split_records (cut (F (ft_path ft)) 0 (tl_offset (ft_tail ft))))
    \<and> closed (cut (F (ft_path ft)) 0 (tl_offset (ft_tail ft))) \<and> tl_offset (ft_tail ft) \<le> length (F (ft_path ft))"
proof -
  let ?f = "F (ft_path ft)" and ?n = "tl_offset (ft_tail ft)"
  obtain a where a: "closed (cut ?f 0 a)" "tail_inv ?f a (M (ft_path ft)) (ft_tail ft)"
    "fo_fold fo = folded env (split_records (cut ?f 0 a) @ told_lines (tl_told (ft_tail ft)))"
    using assms by (auto simp: entry_ok_def)
  then have c: "covers ?f a (tl_told (ft_tail ft)) ?n" "?n \<le> length ?f" by (auto simp: tail_inv_def tl_placed_def)
  have "cut ?f 0 ?n = cut ?f 0 a @ cut ?f a ?n" using cut_append [of 0 a ?n ?f] covers_le [OF c(1)] by simp
  then show ?thesis using a(1,3) c(2) covers_lines [OF c(1)] by (simp add: split_records_closed closed_append)
qed

lemma inv_remember:
  assumes i: "fw_inv env F M s"
  shows "fw_inv env F M (fw_remember e s)"
proof -
  have "save_ok env F (CacheSave p (tl_offset (ft_tail ft)) (fo_fold fo) r is)"
    if "fw_entries s e = Some fo" "fo_path fo = Some p" "fo_tail fo = Some x" "fw_tails s x = Some ft" for fo p x ft r "is"
  proof -
    have "p = ft_path ft" using fw_invD(4) [OF i that(1)] that by (auto simp: entry_ok_def)
    then show ?thesis using entry_content [OF fw_invD(4) [OF i that(1)] that(3,4)] by (simp add: save_ok_def)
  qed
  then show ?thesis using i inv_say [OF i] by (auto simp: fw_remember_def bind_eq_Some_conv split: option.splits)
qed

text \<open>The tail of an entry is stopped: the entry may be frozen or taken out.\<close>

lemma inv_shut:
  assumes i: "fw_inv env F M s" and e: "fw_entries s e = Some fo"
    and s': "fw_entries s' = (fw_entries s)(e \<mapsto> fo')" "fw_tails s' = fw_tails (fw_stop_tail (fo_tail fo) s)" "fw_opens s' = fw_opens s"
      "fw_next s' = fw_next s" "filter is_save (fw_out s') = filter is_save (fw_out s)"
    and same: "fo_tail fo' = fo_tail fo" "fo_path fo' = fo_path fo" "fo_fold fo' = fo_fold fo" and t: "fo_timer fo' = None"
    and fl: "map_wf (fw_followed s')" "\<And>sid e'. map_of (fw_followed s') sid = Some e' \<Longrightarrow> map_of (fw_followed s) sid = Some e'"
      "\<And>sid e'. map_of (fw_followed s) sid = Some e' \<Longrightarrow> e' \<noteq> e \<Longrightarrow> map_of (fw_followed s') sid = Some e'"
  shows "fw_inv env F M s'"
proof -
  have tl: "fw_tails s' x = (if fo_tail fo = Some x then map_option (\<lambda>ft. ft\<lparr>ft_tail := tl_stop (ft_tail ft)\<rparr>) (fw_tails s x) else fw_tails s x)" for x
    unfolding s'(2) by (auto simp: fw_stop_tail_def split: option.splits)
  have w: "wait_at fo' a = wait_at fo a" for a using same by (cases a) auto
  have eo: "entry_ok env F M T e fo' = entry_ok env F M T e fo" for T unfolding entry_ok_def same ..
  have stopped: "entry_ok env F M (fw_tails s') e' g" if "entry_ok env F M (fw_tails s) e' g" for e' g
  proof (cases "fo_tail g")
    case (Some x)
    then show ?thesis using that tl [of x] tail_inv_stop unfolding entry_ok_def by (fastforce simp: tl_stop_def)
  qed (use that in \<open>simp add: entry_ok_def\<close>)
  show ?thesis
  proof (rule fw_invI)
    fix k assume "fw_next s' \<le> k"
    then show "fw_entries s' k = None \<and> fw_tails s' k = None \<and> fw_opens s' k = None" using fw_invD(1-3) [OF i, of k] e s' tl [of k] by auto
  next
    fix e' g assume "fw_entries s' e' = Some g"
    then show "entry_ok env F M (fw_tails s') e' g" using fw_invD(4) [OF i, of e'] e stopped eo by (auto simp: s'(1) split: if_splits)
  next
    fix x ft assume "fw_tails s' x = Some ft"
    then obtain ft0 where ft0: "fw_tails s x = Some ft0" "ft = (if fo_tail fo = Some x then ft0\<lparr>ft_tail := tl_stop (ft_tail ft0)\<rparr> else ft0)"
      by (auto simp: tl split: if_splits)
    note ok = fw_invD(5) [OF i ft0(1), unfolded tail_ok_def]
    show "tail_ok (fw_entries s') (fw_followed s') x ft"
    proof (cases "fo_tail fo = Some x")
      case True
      then show ?thesis using ok stop_ends [of "ft_tail ft0"] by (simp add: tail_ok_def ft0(2))
    next
      case False
      have "ft_entry ft0 \<noteq> e" if "tl_live (ft_tail ft0)" using ok that e False by auto
      then show ?thesis using ok False fl(3) by (auto simp: tail_ok_def ft0(2) s'(1))
    qed
  next
    fix k c assume "fw_opens s' k = Some c"
    then have ok: "open_ok (fw_entries s) (fw_opens s) k c" using s'(3) fw_invD(6) [OF i] by auto
    then have "\<exists>h. fw_entries s' (op_entry c) = Some h \<and> fo_timer h = None \<and> wait_at h (op_at c)"
      using e w t by (cases "op_entry c = e") (auto simp: open_ok_def s'(1))
    then show "open_ok (fw_entries s') (fw_opens s') k c" using ok s'(3) unfolding open_ok_def by simp
  next
    fix sid e' assume "map_of (fw_followed s') sid = Some e'"
    then show "fw_entries s' e' \<noteq> None" using fl(2) fw_invD(7) [OF i, of sid e'] by (auto simp: s'(1))
  next
    fix e' g assume "fw_entries s' e' = Some g" "fo_frozen g \<or> fo_tail g \<noteq> None"
    then show "fo_timer g = None" using fw_invD(11) [OF i, of e' g] t by (cases "e' = e") (auto simp: s'(1))
  qed (use s'(5) fl(1) fw_invD(9,10) [OF i] in auto)
qed

section \<open>Every operation keeps it\<close>

lemma let_entries:
  "fw_entries s e = Some fo \<Longrightarrow> fw_entries (fw_let e s) = (fw_entries s)(e \<mapsto> fo\<lparr>fo_timer := None\<rparr>)
     \<and> fw_tails (fw_let e s) = fw_tails (fw_stop_tail (fo_tail fo) s) \<and> fw_opens (fw_let e s) = fw_opens s
     \<and> fw_next (fw_let e s) = fw_next s \<and> fw_out (fw_let e s) = fw_out s \<and> fw_followed (fw_let e s) = fw_followed s"
  by (auto simp: fw_let_def fw_set_def fw_stop_tail_def split: option.splits)

lemma inv_gone:
  assumes i: "fw_inv env F M s" and f: "map_of (fw_followed s) sid = Some e"
  shows "fw_inv env F M (fw_gone sid e (s\<lparr>fw_followed := map_del sid (fw_followed s)\<rparr>))"
proof -
  obtain fo where e: "fw_entries s e = Some fo" using fw_invD(7) [OF i f] by auto
  let ?s = "s\<lparr>fw_followed := map_del sid (fw_followed s)\<rparr>"
  have e': "fw_entries ?s e = Some fo" using e by simp
  have "fw_inv env F M (fw_let e ?s)"
    by (rule inv_shut [OF i e, of _ "fo\<lparr>fo_timer := None\<rparr>"])
      (use let_entries [OF e'] fw_invD(8) [OF i] f in \<open>auto simp: fw_stop_tail_def split: option.splits if_splits\<close>)
  then show ?thesis unfolding fw_gone_def by (intro inv_say inv_remember) (simp_all add: save_ok_def)
qed

lemma gone_followed: "fw_gone sid e (s\<lparr>fw_followed := l\<rparr>) = (fw_gone sid e s)\<lparr>fw_followed := l\<rparr>"
  by (auto simp: fw_gone_def fw_say_def fw_remember_def fw_let_def fw_set_def fw_stop_tail_def bind_eq_Some_conv split: option.splits)

lemma gone_keeps_followed: "fw_followed (fw_gone sid e s) = fw_followed s"
  by (auto simp: fw_gone_def fw_say_def fw_remember_def fw_let_def fw_set_def fw_stop_tail_def split: option.splits)

lemma inv_stopAll:
  assumes "fw_inv env F M s"
  shows "fw_inv env F M (fw_stopAll s)"
proof -
  have "fw_inv env F M (fold (\<lambda>(sid, e). fw_gone sid e) l (s\<lparr>fw_followed := []\<rparr>))" if "fw_inv env F M s" "fw_followed s = l" for l s
    using that
  proof (induction l arbitrary: s)
    case Nil
    then have same: "s\<lparr>fw_followed := []\<rparr> = s" by (cases s) simp
    show ?case by (simp only: fold.simps id_apply same Nil(1))
  next
    case (Cons x l)
    obtain sid e where x: "x = (sid, e)" by (cases x)
    have d: "map_del sid (fw_followed s) = l" using Cons.prems fw_invD(8) [OF Cons.prems(1)] by (simp add: x delete_notin_dom)
    have g: "fw_inv env F M (fw_gone sid e (s\<lparr>fw_followed := l\<rparr>))"
      using inv_gone [OF Cons.prems(1), of sid e] Cons.prems(2) d by (simp add: x)
    have "fw_gone sid e (s\<lparr>fw_followed := []\<rparr>) = (fw_gone sid e (s\<lparr>fw_followed := l\<rparr>))\<lparr>fw_followed := []\<rparr>"
      by (simp add: gone_followed)
    then show ?case using Cons.IH [OF g] by (simp add: x gone_keeps_followed)
  qed
  from this [OF assms refl] show ?thesis by (simp add: fw_stopAll_def)
qed

lemma inv_release:
  assumes i: "fw_inv env F M s"
  shows "fw_inv env F M (fw_release sid s)"
proof (cases "map_of (fw_followed s) sid")
  case (Some e)
  then obtain fo where e: "fw_entries s e = Some fo" using fw_invD(7) [OF i] by auto
  let ?s = "fw_set e (\<lambda>fo. fo\<lparr>fo_holds := fo_holds fo - 1\<rparr>) s"
  have j: "fw_inv env F M ?s" by (rule inv_set [OF i]) simp_all
  have "map_of (fw_followed ?s) sid = Some e" using Some by (simp add: fw_set_def)
  from inv_gone [OF j this] show ?thesis using j Some e by (simp add: fw_release_def Let_def)
qed (use i in \<open>simp add: fw_release_def\<close>)

text \<open>An entry whose tail is over starts anew.\<close>

lemma inv_unset:
  assumes i: "fw_inv env F M s" and e: "fw_entries s e = Some fo"
    and dead: "\<And>x ft. fo_tail fo = Some x \<Longrightarrow> fw_tails s x = Some ft \<Longrightarrow> \<not> tl_live (ft_tail ft)"
    and no: "\<And>k c. fw_opens s k = Some c \<Longrightarrow> op_entry c \<noteq> e"
    and fo': "fo_tail fo' = None" "fo_fold fo' = fe_empty env" "fo_frozen fo' \<Longrightarrow> fo_timer fo' = None"
  shows "fw_inv env F M (s\<lparr>fw_entries := (fw_entries s)(e \<mapsto> fo')\<rparr>)"
proof (rule fw_invI)
  fix x ft assume x: "fw_tails (s\<lparr>fw_entries := (fw_entries s)(e \<mapsto> fo')\<rparr>) x = Some ft"
  then have "ft_entry ft \<noteq> e" if "tl_live (ft_tail ft)"
    using fw_invD(5) [OF i, of x ft] dead [of x ft] that e unfolding tail_ok_def by force
  moreover have "tail_ok (fw_entries s) (fw_followed s) x ft" using fw_invD(5) [OF i, of x ft] x by simp
  ultimately show "tail_ok (fw_entries (s\<lparr>fw_entries := (fw_entries s)(e \<mapsto> fo')\<rparr>)) (fw_followed (s\<lparr>fw_entries := (fw_entries s)(e \<mapsto> fo')\<rparr>)) x ft"
    unfolding tail_ok_def by simp
next
  fix k c assume k: "fw_opens (s\<lparr>fw_entries := (fw_entries s)(e \<mapsto> fo')\<rparr>) k = Some c"
  show "open_ok (fw_entries (s\<lparr>fw_entries := (fw_entries s)(e \<mapsto> fo')\<rparr>)) (fw_opens (s\<lparr>fw_entries := (fw_entries s)(e \<mapsto> fo')\<rparr>)) k c"
    by (rule open_ok_entries [of "fw_entries s"]) (use fw_invD(6) [OF i, of k c] no [of k c] k in simp_all)
next
  fix k assume "fw_next (s\<lparr>fw_entries := (fw_entries s)(e \<mapsto> fo')\<rparr>) \<le> k"
  then show "fw_entries (s\<lparr>fw_entries := (fw_entries s)(e \<mapsto> fo')\<rparr>) k = None \<and> fw_tails (s\<lparr>fw_entries := (fw_entries s)(e \<mapsto> fo')\<rparr>) k = None
    \<and> fw_opens (s\<lparr>fw_entries := (fw_entries s)(e \<mapsto> fo')\<rparr>) k = None"
    using fw_invD(1-3) [OF i, of k] e by auto
next
  fix e' g assume "fw_entries (s\<lparr>fw_entries := (fw_entries s)(e \<mapsto> fo')\<rparr>) e' = Some g"
  then show "entry_ok env F M (fw_tails (s\<lparr>fw_entries := (fw_entries s)(e \<mapsto> fo')\<rparr>)) e' g"
    using fw_invD(4) [OF i, of e' g] fo' by (cases "e' = e") (auto simp: entry_ok_def)
next
  fix sid e' assume "map_of (fw_followed (s\<lparr>fw_entries := (fw_entries s)(e \<mapsto> fo')\<rparr>)) sid = Some e'"
  then show "fw_entries (s\<lparr>fw_entries := (fw_entries s)(e \<mapsto> fo')\<rparr>) e' \<noteq> None" using fw_invD(7) [OF i, of sid e'] by simp
next
  fix e' g assume "fw_entries (s\<lparr>fw_entries := (fw_entries s)(e \<mapsto> fo')\<rparr>) e' = Some g" "fo_frozen g \<or> fo_tail g \<noteq> None"
  then show "fo_timer g = None" using fw_invD(11) [OF i, of e' g] fo' by (cases "e' = e") auto
qed (use fw_invD(8-10) [OF i] in simp_all)

lemma inv_open:
  assumes i: "fw_inv env F M s" and e: "fw_entries s e = Some fo" "fo_tail fo = None" "fo_timer fo = None"
    and no: "\<And>k c. fw_opens s k = Some c \<Longrightarrow> op_entry c \<noteq> e"
  shows "fw_inv env F M (fw_open sid e appeared s)"
proof (cases "fo_frozen fo")
  case True
  then show ?thesis using e inv_set [OF i, of "\<lambda>fo. fo\<lparr>fo_ready := None\<rparr>" e] by (simp add: fw_open_def)
next
  case False
  let ?s = "s\<lparr>fw_opens := (fw_opens s)(fw_next s \<mapsto> \<lparr>op_sid = sid, op_entry = e, op_appeared = appeared, op_at = Finding\<rparr>), fw_next := fw_next s + 1\<rparr>"
  have "fw_inv env F M ?s"
  proof (rule fw_invI)
    fix k c assume "fw_opens ?s k = Some c"
    then consider "k = fw_next s" "op_entry c = e" "op_at c = Finding" | "k \<noteq> fw_next s" "fw_opens s k = Some c" by (auto split: if_splits)
    then show "open_ok (fw_entries ?s) (fw_opens ?s) k c"
    proof cases
      case 1
      show ?thesis by (rule open_okI [of _ _ fo]) (use 1 e no in \<open>auto split: if_splits\<close>)
    next
      case 2
      from fw_invD(6) [OF i 2(2)] show ?thesis
        by (rule open_okD, intro open_okI) (use no [OF 2(2)] in \<open>auto split: if_splits\<close>)
    qed
  next
    fix k assume "fw_next ?s \<le> k"
    then show "fw_entries ?s k = None \<and> fw_tails ?s k = None \<and> fw_opens ?s k = None" using fw_invD(1-3) [OF i, of k] by simp
  qed (use fw_invD(4,5,7-11) [OF i] in simp_all)
  from inv_set [OF this, of "\<lambda>fo. fo\<lparr>fo_ready := Some (fw_next s)\<rparr>" e] show ?thesis using e False by (simp add: fw_open_def)
qed

lemma set_eq: "fw_entries s e = Some fo \<Longrightarrow> fw_set e g s = s\<lparr>fw_entries := (fw_entries s)(e \<mapsto> g fo)\<rparr>"
  by (simp add: fw_set_def)

lemma inv_hold:
  assumes i: "fw_inv env F M s"
  shows "fw_inv env F M (fw_hold env duplicated sid s)"
proof (cases "map_of (fw_followed s) sid")
  case (Some e)
  then show ?thesis using inv_set [OF i, of "\<lambda>fo. fo\<lparr>fo_holds := fo_holds fo + 1\<rparr>" e] by (simp add: fw_hold_def)
next
  case None
  let ?e = "fw_next s"
  let ?fo = "\<lparr>fo_holds = 1, fo_fold = fe_empty env, fo_reading = fe_new env, fo_recent = [], fo_ready = None,
      fo_standing = (if duplicated then Frozen else Absent), fo_frozen = duplicated, fo_path = None, fo_tail = None, fo_timer = None\<rparr>"
  let ?s = "s\<lparr>fw_entries := (fw_entries s)(?e \<mapsto> ?fo), fw_followed := map_set sid ?e (fw_followed s), fw_next := ?e + 1\<rparr>"
  have new: "fw_entries s ?e = None" using fw_invD(1) [OF i] by simp
  have j: "fw_inv env F M ?s"
  proof (rule fw_invI)
    fix k assume "fw_next ?s \<le> k"
    then show "fw_entries ?s k = None \<and> fw_tails ?s k = None \<and> fw_opens ?s k = None" using fw_invD(1-3) [OF i, of k] by simp
  next
    fix e' g assume "fw_entries ?s e' = Some g"
    then show "entry_ok env F M (fw_tails ?s) e' g" using fw_invD(4) [OF i, of e' g] by (cases "e' = ?e") (auto simp: entry_ok_def)
  next
    fix x ft assume x: "fw_tails ?s x = Some ft"
    then have ok: "tail_ok (fw_entries s) (fw_followed s) x ft" using fw_invD(5) [OF i] by simp
    then have "tl_live (ft_tail ft) \<Longrightarrow> ft_entry ft \<noteq> ?e \<and> ft_sid ft \<noteq> sid" using new None by (auto simp: tail_ok_def)
    then show "tail_ok (fw_entries ?s) (fw_followed ?s) x ft" using ok by (simp add: tail_ok_def)
  next
    fix k c assume k: "fw_opens ?s k = Some c"
    then have ok: "open_ok (fw_entries s) (fw_opens s) k c" using fw_invD(6) [OF i] by simp
    then have "op_entry c \<noteq> ?e" using new by (auto simp: open_ok_def)
    then show "open_ok (fw_entries ?s) (fw_opens ?s) k c" using open_ok_entries [OF ok] by simp
  next
    fix sid' e' assume "map_of (fw_followed ?s) sid' = Some e'"
    then show "fw_entries ?s e' \<noteq> None" using fw_invD(7) [OF i, of sid' e'] by (auto split: if_splits)
  next
    fix e' g assume "fw_entries ?s e' = Some g" "fo_frozen g \<or> fo_tail g \<noteq> None"
    then show "fo_timer g = None" using fw_invD(11) [OF i, of e' g] by (cases "e' = ?e") auto
  qed (use fw_invD(8-10) [OF i] in simp_all)
  have no: "op_entry c \<noteq> ?e" if "fw_opens ?s k = Some c" for k c
    using fw_invD(6) [OF i, of k c] that new by (auto simp: open_ok_def)
  show ?thesis
  proof (cases duplicated)
    case True
    then show ?thesis using j None by (simp add: fw_hold_def Let_def)
  next
    case False
    have "fw_inv env F M (fw_open sid ?e False ?s)" by (rule inv_open [OF j, of _ ?fo]) (use no in auto)
    then show ?thesis using None False by (simp add: fw_hold_def Let_def)
  qed
qed

lemma inv_duplicated:
  assumes i: "fw_inv env F M s" and calm: "\<And>k c. \<not> now \<Longrightarrow> fw_opens s k = Some c \<Longrightarrow> map_of (fw_followed s) sid \<noteq> Some (op_entry c)"
  shows "fw_inv env F M (fw_duplicated env sid now s)"
proof (cases "map_of (fw_followed s) sid")
  case (Some e)
  then obtain fo where e: "fw_entries s e = Some fo" using fw_invD(7) [OF i] by auto
  show ?thesis
  proof (cases "fo_frozen fo = now")
    case True
    then show ?thesis using i Some e by (simp add: fw_duplicated_def)
  next
    case diff: False
    show ?thesis
    proof (cases now)
      case True
      let ?s = "fw_set e (\<lambda>fo. fo\<lparr>fo_frozen := True\<rparr>) s"
      have e': "fw_entries ?s e = Some (fo\<lparr>fo_frozen := True\<rparr>)" using e by (simp add: fw_set_def)
      have "fw_inv env F M (fw_let e ?s)"
        by (rule inv_shut [OF i e, of _ "fo\<lparr>fo_frozen := True, fo_timer := None\<rparr>"])
          (use let_entries [OF e'] e fw_invD(8) [OF i] in \<open>auto simp: fw_set_def fw_stop_tail_def split: option.splits\<close>)
      from inv_set [OF this, of "\<lambda>fo. fo\<lparr>fo_standing := Frozen\<rparr>" e] show ?thesis using Some e True diff by (simp add: fw_duplicated_def)
    next
      case False
      then have fr: "fo_frozen fo" using diff by simp
      let ?s = "case fo_path fo of None \<Rightarrow> s | Some p \<Rightarrow> fw_say (CacheDrop p) s"
      let ?fo = "fo_reset env (fo\<lparr>fo_frozen := False, fo_fold := fe_empty env, fo_tail := None, fo_path := None, fo_standing := Absent\<rparr>)"
      have j: "fw_inv env F M ?s" using i inv_say [OF i] by (auto simp: save_ok_def split: option.splits)
      have e': "fw_entries ?s e = Some fo" using e by (auto simp: fw_say_def split: option.splits)
      have no: "op_entry c \<noteq> e" if "fw_opens ?s k = Some c" for k c
        using calm [OF False, of k c] that Some by (auto simp: fw_say_def split: option.splits)
      have dead: "\<not> tl_live (ft_tail ft)" if "fo_tail fo = Some x" "fw_tails ?s x = Some ft" for x ft
      proof -
        have "tail_ok (fw_entries ?s) (fw_followed ?s) x ft" "entry_ok env F M (fw_tails ?s) e fo" using fw_invD(4,5) [OF j] that e' by auto
        then show ?thesis using that fr e' by (auto simp: tail_ok_def entry_ok_def)
      qed
      have k: "fw_inv env F M (?s\<lparr>fw_entries := (fw_entries ?s)(e \<mapsto> ?fo)\<rparr>)"
        by (rule inv_unset [OF j e' dead no]) (simp_all add: fo_reset_def fw_invD(11) [OF i e disjI1 [OF fr]])
      have "fw_inv env F M (fw_open sid e False (?s\<lparr>fw_entries := (fw_entries ?s)(e \<mapsto> ?fo)\<rparr>))"
        by (rule inv_open [OF k, of _ ?fo]) (use no fw_invD(11) [OF i e disjI1 [OF fr]] in \<open>auto simp: fo_reset_def\<close>)
      then show ?thesis using Some e False fr by (simp add: fw_duplicated_def Let_def set_eq [OF e'])
    qed
  qed
qed (use i in \<open>simp add: fw_duplicated_def\<close>)

lemma inv_wait:
  assumes i: "fw_inv env F M s" and k: "fw_opens s k = Some c" and fo: "fw_entries s (op_entry c) = Some fo" "wait_at fo at"
  shows "fw_inv env F M (fw_wait k c at s)"
proof (rule fw_invI)
  fix k' c' assume a: "fw_opens (fw_wait k c at s) k' = Some c'"
  note ok = fw_invD(6) [OF i k]
  have old: "\<exists>c0. fw_opens s j = Some c0 \<and> op_entry c0 = op_entry cj" if "fw_opens (fw_wait k c at s) j = Some cj" for j cj
    using that k by (cases "j = k") (auto simp: fw_wait_def)
  show "open_ok (fw_entries (fw_wait k c at s)) (fw_opens (fw_wait k c at s)) k' c'"
  proof (cases "k' = k")
    case True
    then have c': "c' = c\<lparr>op_at := at\<rparr>" using a by (simp add: fw_wait_def)
    from ok show ?thesis
      by (rule open_okD, intro open_okI [of _ _ fo]) (use fo c' True old in \<open>auto simp: fw_wait_def split: if_splits\<close>)
  next
    case False
    then have k': "fw_opens s k' = Some c'" using a by (simp add: fw_wait_def)
    from fw_invD(6) [OF i k'] show ?thesis
    proof (rule open_okD)
      fix g assume g: "fw_entries s (op_entry c') = Some g" "fo_timer g = None" "wait_at g (op_at c')"
        "\<And>j d. fw_opens s j = Some d \<Longrightarrow> op_entry d = op_entry c' \<Longrightarrow> j = k'"
      show ?thesis by (rule open_okI [of _ _ g]) (use g old in \<open>auto simp: fw_wait_def\<close>, metis)
    qed
  qed
next
  fix j assume "fw_next (fw_wait k c at s) \<le> j"
  then show "fw_entries (fw_wait k c at s) j = None \<and> fw_tails (fw_wait k c at s) j = None \<and> fw_opens (fw_wait k c at s) j = None"
    using fw_invD(1-3) [OF i, of j] k by (auto simp: fw_wait_def)
qed (use fw_invD(4,5,7-11) [OF i] in \<open>simp_all add: fw_wait_def\<close>)

text \<open>While a call of \<open>#open\<close> waits no other one is of its entry; once it is over, none is.\<close>

lemma close_no:
  assumes i: "fw_inv env F M s" and k: "fw_opens s k = Some c" and j: "fw_opens (fw_close k s) j = Some d"
  shows "op_entry d \<noteq> op_entry c"
proof -
  have "fw_opens s j = Some d" "j \<noteq> k" using j by (auto simp: fw_close_def split: if_splits)
  then show ?thesis using fw_invD(6) [OF i k] unfolding open_ok_def by blast
qed

lemma inv_found:
  assumes i: "fw_inv env F M s" and k: "fw_opens s k = Some c" and fo: "fw_entries s (op_entry c) = Some fo" and f: "op_at c = Finding"
  shows "fw_inv env F M (fw_found k c path fo s)"
proof (cases "\<not> fw_holds (op_sid c) (op_entry c) s \<or> fo_frozen fo")
  case True
  then show ?thesis using inv_close [OF i] by (simp add: fw_found_def Let_def)
next
  case False
  have tail: "fo_tail fo = None" using fw_invD(6) [OF i k] fo f by (auto simp: open_ok_def)
  show ?thesis
  proof (cases path)
    case None
    let ?s = "fw_set (op_entry c) (\<lambda>fo. fo\<lparr>fo_standing := Absent\<rparr>) (fw_close k s)"
    have j: "fw_inv env F M ?s" by (rule inv_set [OF inv_close [OF i]]) simp_all
    have "fw_inv env F M (fw_lookAgain (op_entry c) True ?s)"
      unfolding fw_lookAgain_def
      by (rule inv_set [OF j]) (use close_no [OF i k] False fo tail in \<open>auto simp: fw_set_def fw_close_def\<close>)
    then show ?thesis using False None by (simp add: fw_found_def Let_def)
  next
    case (Some p)
    let ?fo = "fo\<lparr>fo_path := Some p, fo_standing := Folding\<rparr>"
    let ?s = "fw_set (op_entry c) (\<lambda>fo. fo\<lparr>fo_path := Some p, fo_standing := Folding\<rparr>) s"
    have s: "?s = s\<lparr>fw_entries := (fw_entries s)(op_entry c \<mapsto> ?fo)\<rparr>" by (rule set_eq [OF fo])
    have tm: "fo_timer fo = None" using fw_invD(6) [OF i k] fo by (auto simp: open_ok_def)
    have j: "fw_inv env F M ?s"
    proof (rule fw_invI)
      fix j assume "fw_next ?s \<le> j"
      then show "fw_entries ?s j = None \<and> fw_tails ?s j = None \<and> fw_opens ?s j = None" using fw_invD(1-3) [OF i, of j] fo by (auto simp: s)
    next
      fix e' g assume "fw_entries ?s e' = Some g"
      then show "entry_ok env F M (fw_tails ?s) e' g"
        using fw_invD(4) [OF i, of e' g] fw_invD(4) [OF i fo] tail by (cases "e' = op_entry c") (auto simp: s entry_ok_def)
    next
      fix x ft assume x: "fw_tails ?s x = Some ft"
      then have ok: "tail_ok (fw_entries s) (fw_followed s) x ft" using fw_invD(5) [OF i] by (simp add: s)
      then have "tl_live (ft_tail ft) \<Longrightarrow> ft_entry ft \<noteq> op_entry c" using tail fo by (auto simp: tail_ok_def)
      then show "tail_ok (fw_entries ?s) (fw_followed ?s) x ft" using ok by (simp add: tail_ok_def s)
    next
      fix k' c' assume k': "fw_opens ?s k' = Some c'"
      then have ok: "open_ok (fw_entries s) (fw_opens s) k' c'" using fw_invD(6) [OF i] by (simp add: s)
      show "open_ok (fw_entries ?s) (fw_opens ?s) k' c'"
      proof (cases "op_entry c' = op_entry c")
        case True
        then have "k' = k" "c' = c" using fw_invD(6) [OF i k] k k' unfolding open_ok_def by (auto simp: s)
        from ok show ?thesis by (rule open_okD, intro open_okI [of _ _ ?fo]) (use \<open>c' = c\<close> f tail tm in \<open>auto simp: s\<close>)
      next
        case False
        then show ?thesis using open_ok_entries [OF ok] by (simp add: s)
      qed
    next
      fix sid e' assume "map_of (fw_followed ?s) sid = Some e'"
      then show "fw_entries ?s e' \<noteq> None" using fw_invD(7) [OF i, of sid e'] by (simp add: s)
    next
      fix e' g assume "fw_entries ?s e' = Some g" "fo_frozen g \<or> fo_tail g \<noteq> None"
      then show "fo_timer g = None" using fw_invD(11) [OF i, of e' g] tm by (cases "e' = op_entry c") (auto simp: s)
    qed (use fw_invD(8-10) [OF i] in \<open>simp_all add: s\<close>)
    have "fw_inv env F M (fw_wait k c (CacheReading p) ?s)"
      by (rule inv_wait [OF j, of _ _ ?fo]) (use k tail in \<open>auto simp: s\<close>)
    then show ?thesis using False Some by (simp add: fw_found_def Let_def)
  qed
qed

lemma inv_failed:
  assumes i: "fw_inv env F M s" and no: "\<And>k c. fw_opens s k = Some c \<Longrightarrow> op_entry c \<noteq> e"
  shows "fw_inv env F M (fw_failed env sid e path s)"
proof (cases "fw_entries s e")
  case (Some fo)
  let ?s = "fw_stop_tail (fo_tail fo) s"
  let ?fo = "fo_reset env (fo\<lparr>fo_tail := None, fo_path := None, fo_fold := fe_empty env, fo_standing := Absent\<rparr>)"
  have st: "fw_entries ?s = fw_entries s" "fw_opens ?s = fw_opens s" "fw_next ?s = fw_next s" "fw_out ?s = fw_out s" "fw_followed ?s = fw_followed s"
    by (auto simp: fw_stop_tail_def split: option.splits)
  have sl: "fw_inv env F M (fw_let e s)"
    by (rule inv_shut [OF i Some, of _ "fo\<lparr>fo_timer := None\<rparr>"]) (use let_entries [OF Some] fw_invD(8) [OF i] in auto)
  have dead: "\<not> tl_live (ft_tail ft)" if "fo_tail fo = Some x" "fw_tails ?s x = Some ft" for x ft
    using that fw_invD(5) [OF i] stop_ends by (auto simp: fw_stop_tail_def tail_ok_def)
  have lt: "fw_let e s = ?s\<lparr>fw_entries := (fw_entries ?s)(e \<mapsto> fo\<lparr>fo_timer := None\<rparr>)\<rparr>"
    using Some by (simp add: fw_let_def fw_set_def st)
  have "fw_inv env F M ((fw_let e s)\<lparr>fw_entries := (fw_entries (fw_let e s))(e \<mapsto> ?fo)\<rparr>)"
    by (rule inv_unset [OF sl, of _ "fo\<lparr>fo_timer := None\<rparr>"])
      (use dead no fw_invD(11) [OF i Some] in \<open>auto simp: lt st fo_reset_def\<close>)
  then have j: "fw_inv env F M (?s\<lparr>fw_entries := (fw_entries s)(e \<mapsto> ?fo)\<rparr>)" by (simp add: lt st)
  have s2: "fw_set e (\<lambda>fo. fo_reset env (fo\<lparr>fo_tail := None, fo_path := None, fo_fold := fe_empty env, fo_standing := Absent\<rparr>)) ?s
      = ?s\<lparr>fw_entries := (fw_entries s)(e \<mapsto> ?fo)\<rparr>" using Some by (simp add: fw_set_def st)
  let ?t = "fw_say (CacheDrop path) (?s\<lparr>fw_entries := (fw_entries s)(e \<mapsto> ?fo)\<rparr>)"
  have l: "fw_inv env F M ?t" by (rule inv_say [OF j]) (simp add: save_ok_def)
  have "fw_inv env F M (fw_lookAgain e False ?t)" if "\<not> fo_frozen fo"
    unfolding fw_lookAgain_def by (rule inv_set [OF l]) (use no that in \<open>auto simp: fw_say_def st fo_reset_def\<close>)
  then show ?thesis using l Some by (simp add: fw_failed_def Let_def s2)
qed (use i in \<open>simp add: fw_failed_def\<close>)

text \<open>What the cache answers: a place in the file where a record begins, with the fold of what lies before.\<close>

definition kept_ok :: "('f, 'r, 'i) fold_env \<Rightarrow> byte list \<Rightarrow> ('f, 'r, 'i) kept \<Rightarrow> bool" where
  "kept_ok env f kp \<longleftrightarrow> kp_offset kp \<le> length f \<and> closed (cut f 0 (kp_offset kp))
     \<and> (case kp_fold kp of None \<Rightarrow> True | Some fd \<Rightarrow> fd = folded env (split_records (cut f 0 (kp_offset kp))))"

lemma inv_kept:
  assumes i: "fw_inv env F M s" and k: "fw_opens s k = Some c" and fo: "fw_entries s (op_entry c) = Some fo" and f: "op_at c = CacheReading p"
    and kp: "\<And>kp. kept = Some kp \<Longrightarrow> kept_ok env (F p) kp \<and> kp_offset kp \<le> M p"
  shows "fw_inv env F M (fw_kept env k c p kept fo s)"
proof (cases "\<not> fw_holds (op_sid c) (op_entry c) s \<or> fo_frozen fo")
  case True
  then show ?thesis using inv_close [OF i] by (simp add: fw_kept_def Let_def)
next
  case held: False
  show ?thesis
  proof (cases "\<exists>kp. kept = Some kp \<and> kp_fold kp = None")
    case True
    have "fw_inv env F M (fw_failed env (op_sid c) (op_entry c) p (fw_close k s))"
      by (rule inv_failed [OF inv_close [OF i]]) (use close_no [OF i k] in blast)
    then show ?thesis using held True by (simp add: fw_kept_def Let_def)
  next
    case False
    have was: "fo_tail fo = None" "fo_path fo = Some p" "fo_timer fo = None" using fw_invD(6) [OF i k] fo f by (auto simp: open_ok_def)
    then have empty: "fo_fold fo = fe_empty env" using fw_invD(4) [OF i fo] by (simp add: entry_ok_def)
    define a where "a = (case kept of None \<Rightarrow> 0 | Some kp \<Rightarrow> kp_offset kp)"
    have a: "a \<le> M p" "closed (cut (F p) 0 a)" "a \<le> length (F p)"
      using kp fw_invD(10) [OF i, of p] by (auto simp: a_def kept_ok_def split: option.splits)
    let ?x = "fw_next s" and ?fo = "(fw_restore kept fo)\<lparr>fo_tail := Some (fw_next s)\<rparr>"
    let ?ft = "\<lparr>ft_tail = tl_start a Tail, ft_entry = op_entry c, ft_sid = op_sid c, ft_path = p, ft_appeared = op_appeared c\<rparr>"
    have re: "fo_path ?fo = Some p" "fo_timer ?fo = None" "\<not> fo_frozen ?fo" "fo_tail ?fo = Some ?x"
      using was held by (auto simp: fw_restore_def split: option.splits)
    have fd: "fo_fold ?fo = folded env (split_records (cut (F p) 0 a))"
      using kp empty False by (auto simp: fw_restore_def a_def kept_ok_def folded_def split_records.simps [of "[]"] split: option.splits)
    have ti: "tail_inv (F p) a (M p) (tl_start a Tail)" by (rule tail_inv_mono [OF tail_inv_start a(1) fw_invD(10) [OF i]]) (rule a(3))
    let ?s = "s\<lparr>fw_entries := (fw_entries s)(op_entry c \<mapsto> ?fo), fw_tails := (fw_tails s)(?x \<mapsto> ?ft), fw_next := ?x + 1,
        fw_opens := (fw_opens s)(k \<mapsto> c\<lparr>op_at := TailStarting ?x\<rparr>)\<rparr>"
    have "fw_inv env F M ?s"
    proof (rule fw_invI)
      fix j assume "fw_next ?s \<le> j"
      then show "fw_entries ?s j = None \<and> fw_tails ?s j = None \<and> fw_opens ?s j = None" using fw_invD(1-3) [OF i, of j] k fo by auto
    next
      fix e' g assume g: "fw_entries ?s e' = Some g"
      show "entry_ok env F M (fw_tails ?s) e' g"
      proof (cases "e' = op_entry c")
        case True
        then show ?thesis using g re fd ti a(2) by (auto simp: entry_ok_def tl_start_def Tail_def)
      next
        case False
        then have "entry_ok env F M (fw_tails s) e' g" using g fw_invD(4) [OF i, of e' g] by simp
        then show ?thesis using fw_invD(2) [OF i, of ?x] by (auto simp: entry_ok_def split: option.splits)
      qed
    next
      fix y ft assume y: "fw_tails ?s y = Some ft"
      show "tail_ok (fw_entries ?s) (fw_followed ?s) y ft"
      proof (cases "y = ?x")
        case True
        then show ?thesis using y held re start_runs by (auto simp: tail_ok_def fw_holds_def)
      next
        case False
        then have ok: "tail_ok (fw_entries s) (fw_followed s) y ft" using y fw_invD(5) [OF i] by simp
        then have "tl_live (ft_tail ft) \<Longrightarrow> ft_entry ft \<noteq> op_entry c" using was(1) fo by (auto simp: tail_ok_def)
        then show ?thesis using ok by (simp add: tail_ok_def)
      qed
    next
      fix k' c' assume k': "fw_opens ?s k' = Some c'"
      have old: "\<exists>c0. fw_opens s j = Some c0 \<and> op_entry c0 = op_entry cj" if "fw_opens ?s j = Some cj" for j cj
        using that k by (cases "j = k") auto
      show "open_ok (fw_entries ?s) (fw_opens ?s) k' c'"
      proof (cases "k' = k")
        case True
        then have c': "c' = c\<lparr>op_at := TailStarting ?x\<rparr>" using k' by simp
        show ?thesis by (rule open_okI [of _ _ ?fo])
          (use fw_invD(6) [OF i k] old True c' re in \<open>auto simp: open_ok_def split: if_splits\<close>)
      next
        case False
        then have kk: "fw_opens s k' = Some c'" using k' by simp
        then have ne: "op_entry c' \<noteq> op_entry c" using False fw_invD(6) [OF i k] unfolding open_ok_def by blast
        from fw_invD(6) [OF i kk] show ?thesis
          by (rule open_okD, intro open_okI) (use ne in \<open>auto split: if_splits\<close>)
      qed
    next
      fix sid e' assume "map_of (fw_followed ?s) sid = Some e'"
      then show "fw_entries ?s e' \<noteq> None" using fw_invD(7) [OF i, of sid e'] by simp
    next
      fix e' g assume "fw_entries ?s e' = Some g" "fo_frozen g \<or> fo_tail g \<noteq> None"
      then show "fo_timer g = None" using fw_invD(11) [OF i, of e' g] re by (cases "e' = op_entry c") auto
    qed (use fw_invD(8-10) [OF i] in simp_all)
    moreover have "fw_kept env k c p kept fo s = ?s"
      using held False fo by (auto simp: fw_kept_def Let_def fw_wait_def fw_set_def a_def)
    ultimately show ?thesis by simp
  qed
qed

lemma covers_no_truncation: "covers f a ts b \<Longrightarrow> OnTruncated \<notin> set ts"
  by (induction f a ts b rule: covers.induct) auto

lemma inv_tail_step:
  assumes i: "fw_inv env F M s" and x: "fw_tails s x = Some ft" and ev: "ev \<noteq> Stop"
    and g: "grown_event (F (ft_path ft)) (M (ft_path ft)) ev" and M': "M' = M(ft_path ft := seen_event (M (ft_path ft)) ev)"
  shows "fw_inv env F M' (fw_tail_step env x ev s)"
proof -
  let ?p = "ft_path ft" and ?e = "ft_entry ft" and ?t = "tl_step (ft_tail ft) ev"
  have mm: "M ?p \<le> seen_event (M ?p) ev" "seen_event (M ?p) ev \<le> length (F ?p)"
    using g fw_invD(10) [OF i, of ?p] seen_le seen_in by (cases ev; force)+
  have i': "fw_inv env F M' s" by (rule inv_mono [OF i]) (use mm fw_invD(10) [OF i] in \<open>auto simp: M'\<close>)
  have ok: "runs_le (ft_tail ft)" using fw_invD(5) [OF i x] by (simp add: tail_ok_def)
  obtain new where new: "tl_told ?t = tl_told (ft_tail ft) @ new" "\<not> tl_live (ft_tail ft) \<Longrightarrow> new = []"
    and r: "runs_le ?t" "tl_live ?t \<Longrightarrow> tl_live (ft_tail ft)"
    using step_runs [OF ok ev] by blast
  let ?ft = "ft\<lparr>ft_tail := ?t\<rparr>" and ?s0 = "s\<lparr>fw_tails := (fw_tails s)(x \<mapsto> ft\<lparr>ft_tail := tl_step (ft_tail ft) ev\<rparr>)\<rparr>"
  have step: "fw_tail_step env x ev s = fold (fw_callback env ft) new ?s0" using x new(1) by (simp add: fw_tail_step_def Let_def)
  have cont: "\<exists>a. closed (cut (F ?p) 0 a) \<and> tail_inv (F ?p) a (M' ?p) ?t \<and> OnTruncated \<notin> set new
      \<and> fo_fold fo = folded env (split_records (cut (F ?p) 0 a) @ told_lines (tl_told (ft_tail ft)))"
    if fo: "fw_entries s e' = Some fo" "fo_tail fo = Some x" for e' fo
  proof -
    obtain a where a: "closed (cut (F ?p) 0 a)" "tail_inv (F ?p) a (M ?p) (ft_tail ft)"
      "fo_fold fo = folded env (split_records (cut (F ?p) 0 a) @ told_lines (tl_told (ft_tail ft)))"
      using fw_invD(4) [OF i fo(1)] fo(2) x by (auto simp: entry_ok_def)
    have ti: "tail_inv (F ?p) a (M' ?p) ?t" using inv_step [OF a(2) g] by (simp add: M')
    then have "OnTruncated \<notin> set (tl_told ?t)" using covers_no_truncation by (auto simp: tail_inv_def tl_placed_def)
    then show ?thesis using a ti new(1) by auto
  qed
  have mine: "e' = ?e" if "fw_entries s e' = Some fo" "fo_tail fo = Some x" for e' fo
    using fw_invD(4) [OF i that(1)] that(2) x by (auto simp: entry_ok_def)
  obtain E where E: "fw_entries (fold (fw_callback env ft) new ?s0) = E" by blast
  have eff: "only_entry ?e ?s0 (fold (fw_callback env ft) new ?s0) \<and> (\<forall>fo. fw_entries s ?e = Some fo \<longrightarrow>
      (\<exists>fo'. E ?e = Some fo' \<and> same_entry fo fo' \<and> (fo_tail fo \<noteq> Some x \<longrightarrow> fo_fold fo' = fo_fold fo)
        \<and> (fo_tail fo = Some x \<longrightarrow> fo_fold fo' = snd (foldAll env (fo_fold fo) (told_lines new))))) \<and> (fw_entries s ?e = None \<longrightarrow> E ?e = None)"
  proof (cases "\<exists>fo. fw_entries s ?e = Some fo \<and> fo_tail fo = Some x")
    case True
    then obtain fo where fo: "fw_entries s ?e = Some fo" "fo_tail fo = Some x" by blast
    from cont [OF fo] have "OnTruncated \<notin> set new" by blast
    from callbacks_effect [of ?s0 ?e fo ft new env, OF _ refl this] fo show ?thesis unfolding E by auto
  next
    case False
    then have "\<not> tl_live (ft_tail ft)" using fw_invD(5) [OF i x] by (auto simp: tail_ok_def)
    then have "new = []" by (rule new(2))
    then show ?thesis using False E by (auto simp: same_entry_def)
  qed
  let ?s = "fold (fw_callback env ft) new ?s0"
  have o: "\<And>e'. e' \<noteq> ?e \<Longrightarrow> E e' = fw_entries s e'" "fw_followed ?s = fw_followed s" "fw_tails ?s = (fw_tails s)(x \<mapsto> ?ft)"
    "fw_opens ?s = fw_opens s" "fw_next ?s = fw_next s" "filter is_save (fw_out ?s) = filter is_save (fw_out s)"
    using eff E unfolding only_entry_def by auto
  have ret: "\<exists>fo. fw_entries s e' = Some fo \<and> same_entry fo h \<and> (fo_tail fo \<noteq> Some x \<longrightarrow> fo_fold h = fo_fold fo)
      \<and> (fo_tail fo = Some x \<longrightarrow> fo_fold h = snd (foldAll env (fo_fold fo) (told_lines new)))" if "E e' = Some h" for e' h
  proof (cases "e' = ?e")
    case True
    have "fw_entries s ?e \<noteq> None" using conjunct2 [OF conjunct2 [OF eff]] True that by force
    then obtain fo where fo: "fw_entries s e' = Some fo" using True by auto
    from conjunct1 [OF conjunct2 [OF eff]] fo True obtain fo' where "E ?e = Some fo'" "same_entry fo fo'" "fo_tail fo \<noteq> Some x \<longrightarrow> fo_fold fo' = fo_fold fo"
      "fo_tail fo = Some x \<longrightarrow> fo_fold fo' = snd (foldAll env (fo_fold fo) (told_lines new))" by blast
    then show ?thesis using True that fo by auto
  next
    case False
    then have h: "fw_entries s e' = Some h" using o(1) that by simp
    moreover have "fo_tail h \<noteq> Some x" using mine [OF h] False by blast
    ultimately show ?thesis by (auto simp: same_entry_def)
  qed
  have forth: "\<exists>h. E e' = Some h \<and> same_entry fo h" if "fw_entries s e' = Some fo" for e' fo
    using eff o(1) [of e'] that by (cases "e' = ?e") (auto simp: same_entry_def)
  have "fw_inv env F M' ?s"
  proof (rule fw_invI)
    fix j assume "fw_next ?s \<le> j"
    then show "fw_entries ?s j = None \<and> fw_tails ?s j = None \<and> fw_opens ?s j = None"
      using fw_invD(1-3) [OF i, of j] ret [of j] x by (cases "E j") (auto simp: E o)
  next
    fix e' h assume "fw_entries ?s e' = Some h"
    then obtain fo where fo: "fw_entries s e' = Some fo" "same_entry fo h" "fo_tail fo \<noteq> Some x \<Longrightarrow> fo_fold h = fo_fold fo"
      "fo_tail fo = Some x \<Longrightarrow> fo_fold h = snd (foldAll env (fo_fold fo) (told_lines new))" using ret E by auto
    show "entry_ok env F M' (fw_tails ?s) e' h"
    proof (cases "fo_tail fo = Some x")
      case True
      from cont [OF fo(1) True] obtain a where a: "closed (cut (F ?p) 0 a)" "tail_inv (F ?p) a (M' ?p) ?t"
        "fo_fold fo = folded env (split_records (cut (F ?p) 0 a) @ told_lines (tl_told (ft_tail ft)))" by blast
      have "fo_path fo = Some ?p" using fw_invD(4) [OF i fo(1)] True x by (auto simp: entry_ok_def)
      then show ?thesis using a fo(2) fo(4) [OF True] True mine [OF fo(1) True] new(1)
        by (auto simp: entry_ok_def same_entry_def o(3) folded_append)
    next
      case False
      then have "fo_tail h \<noteq> Some x" "entry_ok env F M' (fw_tails s) e' h"
        using fw_invD(4) [OF i' fo(1)] fo(2,3) by (auto simp: entry_ok_def same_entry_def split: option.splits)
      then show ?thesis by (auto simp: entry_ok_def o(3) split: option.splits)
    qed
  next
    fix y ft' assume y: "fw_tails ?s y = Some ft'"
    have "\<exists>ft0. fw_tails s y = Some ft0 \<and> ft_entry ft' = ft_entry ft0 \<and> ft_sid ft' = ft_sid ft0
      \<and> runs_le (ft_tail ft') \<and> (tl_live (ft_tail ft') \<longrightarrow> tl_live (ft_tail ft0))"
    proof (cases "y = x")
      case True
      then show ?thesis using y x r by (auto simp: o(3))
    next
      case False
      then show ?thesis using y fw_invD(5) [OF i, of y ft'] by (simp add: o(3) tail_ok_def)
    qed
    then obtain ft0 where ft0: "fw_tails s y = Some ft0" "ft_entry ft' = ft_entry ft0" "ft_sid ft' = ft_sid ft0"
      "runs_le (ft_tail ft')" "tl_live (ft_tail ft') \<longrightarrow> tl_live (ft_tail ft0)" by blast
    show "tail_ok (fw_entries ?s) (fw_followed ?s) y ft'"
      using fw_invD(5) [OF i ft0(1)] ft0 forth unfolding tail_ok_def E o(2) same_entry_def by metis
  next
    fix k c assume "fw_opens ?s k = Some c"
    then have "open_ok (fw_entries s) (fw_opens s) k c" using fw_invD(6) [OF i] o(4) by simp
    then show "open_ok (fw_entries ?s) (fw_opens ?s) k c"
    proof (rule open_okD)
      fix fo assume fo: "fw_entries s (op_entry c) = Some fo" "fo_timer fo = None" "wait_at fo (op_at c)"
        "\<And>k' c'. fw_opens s k' = Some c' \<Longrightarrow> op_entry c' = op_entry c \<Longrightarrow> k' = k"
      obtain h where h: "E (op_entry c) = Some h" "same_entry fo h" using forth [OF fo(1)] by blast
      have "wait_at h (op_at c)" using fo(3) h(2) by (cases "op_at c") (auto simp: same_entry_def)
      then show ?thesis using fo(2,4) h by (intro open_okI [of _ _ h]) (auto simp: E o(4) same_entry_def)
    qed
  next
    fix sid e' assume "map_of (fw_followed ?s) sid = Some e'"
    then show "fw_entries ?s e' \<noteq> None" using fw_invD(7) [OF i, of sid e'] forth by (force simp: E o(2))
  next
    fix e' h assume "fw_entries ?s e' = Some h" "fo_frozen h \<or> fo_tail h \<noteq> None"
    then obtain fo where "fw_entries s e' = Some fo" "same_entry fo h" "fo_frozen h \<or> fo_tail h \<noteq> None" using ret [of e' h] E by auto
    then show "fo_timer h = None" using fw_invD(11) [OF i, of e' fo] unfolding same_entry_def by metis
  qed (use fw_invD(8-10) [OF i'] in \<open>simp_all add: o\<close>)
  then show ?thesis by (simp only: step)
qed

lemma callback_opens: "fw_opens (fw_callback env ft y s) = fw_opens s"
  by (cases "(env, ft, y, s)" rule: fw_callback.cases)
    (auto simp: fw_appended_def fw_existing_def fw_set_def fw_say_def Let_def split: option.splits prod.splits)

lemma tail_step_opens: "fw_opens (fw_tail_step env x ev s) = fw_opens s"
proof -
  have "fw_opens (fold (fw_callback env ft) new s) = fw_opens s" for ft new s
    by (induction new arbitrary: s) (simp_all add: callback_opens)
  then show ?thesis by (simp add: fw_tail_step_def Let_def split: option.splits)
qed

lemma inv_stop_tail:
  assumes i: "fw_inv env F M s" and e: "fw_entries s e = Some fo" "fo_timer fo = None"
  shows "fw_inv env F M (fw_stop_tail (fo_tail fo) s)"
proof -
  have "(fw_entries s)(e \<mapsto> fo) = fw_entries s" using e by auto
  then show ?thesis by (intro inv_shut [OF i e(1), of _ fo]) (use e fw_invD(8) [OF i] in \<open>auto simp: fw_stop_tail_def split: option.splits\<close>)
qed

lemma inv_started:
  assumes i: "fw_inv env F M s" and k: "fw_opens s k = Some c" and at: "op_at c = TailStarting x" and x: "fw_tails s x = Some ft"
    and g: "grown (F (ft_path ft)) (M (ft_path ft)) r" and M': "M' = M(ft_path ft := seen (M (ft_path ft)) r)"
  shows "fw_inv env F M' (fw_started env k c x r ft s)"
proof -
  let ?s = "fw_tail_step env x (StartOn 0 r) s"
  have j: "fw_inv env F M' ?s" by (rule inv_tail_step [OF i x]) (use g M' in simp_all)
  have k': "fw_opens ?s k = Some c" using k by (simp add: tail_step_opens)
  obtain fo where fo: "fw_entries ?s (op_entry c) = Some fo" "fo_timer fo = None" "fo_tail fo = Some x"
    using fw_invD(6) [OF j k'] at by (auto simp: open_ok_def)
  have i': "fw_inv env F M' s"
    by (rule inv_mono [OF i]) (use seen_le [OF g] seen_in [OF g] fw_invD(10) [OF i] in \<open>auto simp: M'\<close>)
  have failed: "fw_inv env F M' (fw_failed env (op_sid c) (op_entry c) (ft_path ft) (fw_close k ?s))"
    by (rule inv_failed [OF inv_close [OF j]]) (use close_no [OF j k'] in blast)
  have stopped: "fw_inv env F M' (fw_close k (fw_stop_tail (Some x) ?s))"
    using inv_close [OF inv_stop_tail [OF j fo(1,2)]] fo(3) by simp
  have "fw_opens (fw_remember (op_entry c) ?s) = fw_opens ?s" "fw_entries (fw_remember (op_entry c) ?s) = fw_entries ?s"
    by (auto simp: fw_remember_def fw_say_def split: option.splits)
  then have "fw_inv env F M' (fw_wait k c (Remembering x) (fw_remember (op_entry c) ?s))"
    using k' fo(1) by (intro inv_wait [OF inv_remember [OF j], where fo = fo]) auto
  then show ?thesis using i' j failed stopped
    by (auto simp: fw_started_def Let_def split: list.splits progress.splits)
qed

lemma inv_look:
  assumes i: "fw_inv env F M s"
  shows "fw_inv env F M (fw_look sid e s)"
proof (cases "Option.bind (fw_entries s e) fo_timer")
  case (Some appeared)
  then obtain fo where fo: "fw_entries s e = Some fo" "fo_timer fo = Some appeared" by (auto simp: bind_eq_Some_conv)
  have no: "op_entry c \<noteq> e" if "fw_opens s k = Some c" for k c using fw_invD(6) [OF i that] fo by (auto simp: open_ok_def)
  have w: "\<not> fo_frozen fo" "fo_tail fo = None" using fw_invD(11) [OF i fo(1)] fo(2) by (metis option.distinct(1))+
  let ?s = "fw_set e (\<lambda>fo. fo\<lparr>fo_timer := None\<rparr>) s"
  have j: "fw_inv env F M ?s" by (rule inv_set [OF i]) simp_all
  have "fw_inv env F M (fw_open sid e appeared ?s)"
    by (rule inv_open [OF j, of _ "fo\<lparr>fo_timer := None\<rparr>"]) (use fo w no in \<open>auto simp: fw_set_def\<close>)
  then show ?thesis using i Some by (simp add: fw_look_def)
qed (use i in \<open>simp add: fw_look_def\<close>)

section \<open>Runs over files that only grow\<close>

text \<open>What an event may bring: files that only grow, what the cache was given for them, and no duplication
  that ends while \<open>#open\<close> is still at work on the session.\<close>

definition file_call :: "(string \<Rightarrow> byte list) \<Rightarrow> (string \<Rightarrow> nat) \<Rightarrow> ('f, 'r, 'i) following \<Rightarrow> nat \<Rightarrow> found \<Rightarrow> bool" where
  "file_call F M s x r \<longleftrightarrow> (case fw_tails s x of None \<Rightarrow> True | Some ft \<Rightarrow> grown (F (ft_path ft)) (M (ft_path ft)) r)"

definition saw_call :: "(string \<Rightarrow> nat) \<Rightarrow> ('f, 'r, 'i) following \<Rightarrow> nat \<Rightarrow> found \<Rightarrow> string \<Rightarrow> nat" where
  "saw_call M s x r = (case fw_tails s x of None \<Rightarrow> M | Some ft \<Rightarrow> M(ft_path ft := seen (M (ft_path ft)) r))"

fun honest :: "('f, 'r, 'i) fold_env \<Rightarrow> (string \<Rightarrow> byte list) \<Rightarrow> (string \<Rightarrow> nat) \<Rightarrow> ('f, 'r, 'i) following \<Rightarrow> ('f, 'r, 'i) follow_event \<Rightarrow> bool" where
  "honest env F M s (FReadOn x r) \<longleftrightarrow> file_call F M s x r"
| "honest env F M s (FOpenOn k b) \<longleftrightarrow>
     (case (map_option op_at (fw_opens s k), b) of
        (Some (TailStarting x), FileCall r) \<Rightarrow> file_call F M s x r
      | (Some (CacheReading p), Kept (Some kp)) \<Rightarrow> kept_ok env (F p) kp
      | _ \<Rightarrow> True)"
| "honest env F M s (FDuplicated sid now) \<longleftrightarrow>
     now \<or> list_all (\<lambda>k. case fw_opens s k of None \<Rightarrow> True | Some c \<Rightarrow> map_of (fw_followed s) sid \<noteq> Some (op_entry c)) [0 ..< fw_next s]"
| "honest env F M s _ \<longleftrightarrow> True"

fun saw :: "(string \<Rightarrow> nat) \<Rightarrow> ('f, 'r, 'i) following \<Rightarrow> ('f, 'r, 'i) follow_event \<Rightarrow> string \<Rightarrow> nat" where
  "saw M s (FReadOn x r) = saw_call M s x r"
| "saw M s (FOpenOn k b) =
     (case (map_option op_at (fw_opens s k), b) of
        (Some (TailStarting x), FileCall r) \<Rightarrow> saw_call M s x r
      | (Some (CacheReading p), Kept (Some kp)) \<Rightarrow> M(p := max (M p) (kp_offset kp))
      | _ \<Rightarrow> M)"
| "saw M s _ = M"

fun honest_run :: "('f, 'r, 'i) fold_env \<Rightarrow> (string \<Rightarrow> byte list) \<Rightarrow> (string \<Rightarrow> nat) \<Rightarrow> ('f, 'r, 'i) following \<Rightarrow> ('f, 'r, 'i) follow_event list \<Rightarrow> bool" where
  "honest_run env F M s [] \<longleftrightarrow> True"
| "honest_run env F M s (ev # evs) \<longleftrightarrow> honest env F M s ev \<and> honest_run env F (saw M s ev) (fw_step env s ev) evs"

lemma inv_file_call:
  assumes i: "fw_inv env F M s" and "file_call F M s x r"
  shows "fw_inv env F (saw_call M s x r) (fw_tail_step env x (ReadOn r) s)"
proof (cases "fw_tails s x")
  case (Some ft)
  then show ?thesis using inv_tail_step [OF i Some, of "ReadOn r"] assms(2) by (simp add: file_call_def saw_call_def)
qed (use i in \<open>simp add: fw_tail_step_def saw_call_def\<close>)

lemma inv_open_on:
  assumes i: "fw_inv env F M s" and h: "honest env F M s (FOpenOn k b)"
  shows "fw_inv env F (saw M s (FOpenOn k b)) (fw_open_on env k b s)"
proof (cases "fw_opens s k")
  case (Some c)
  obtain fo where fo: "fw_entries s (op_entry c) = Some fo" using fw_invD(6) [OF i Some] by (auto simp: open_ok_def)
  show ?thesis
  proof (cases "op_at c")
    case Finding
    then show ?thesis using inv_found [OF i Some fo Finding] i Some fo by (cases b) (auto simp: fw_open_on_def)
  next
    case (CacheReading p)
    show ?thesis
    proof (cases "\<exists>kept. b = Kept kept")
      case True
      then obtain kept where b: "b = Kept kept" by blast
      let ?M = "saw M s (FOpenOn k b)"
      have m: "\<And>q. M q \<le> ?M q" "\<And>q. ?M q \<le> length (F q)" "\<And>kp. kept = Some kp \<Longrightarrow> kept_ok env (F p) kp \<and> kp_offset kp \<le> ?M p"
        using h fw_invD(10) [OF i] by (auto simp: b Some CacheReading kept_ok_def split: option.splits)
      have "fw_inv env F ?M (fw_kept env k c p kept fo s)" by (rule inv_kept [OF inv_mono [OF i m(1,2)] Some fo CacheReading m(3)])
      then show ?thesis by (simp add: fw_open_on_def Some fo CacheReading b)
    next
      case False
      then show ?thesis using i by (cases b) (auto simp: fw_open_on_def Some fo CacheReading)
    qed
  next
    case (TailStarting x)
    then show ?thesis
    proof (cases "\<exists>r ft. b = FileCall r \<and> fw_tails s x = Some ft")
      case True
      then obtain r ft where b: "b = FileCall r" "fw_tails s x = Some ft" by blast
      then show ?thesis using inv_started [OF i Some TailStarting b(2), of r] h
        by (simp add: fw_open_on_def Some fo TailStarting file_call_def saw_call_def)
    next
      case False
      then show ?thesis using i by (cases b; cases "fw_tails s x") (auto simp: fw_open_on_def Some fo TailStarting saw_call_def)
    qed
  next
    case (Remembering x)
    have "fw_inv env F M (fw_say (OnFacts (op_sid c)) (fw_set (op_entry c) (\<lambda>fo. fo\<lparr>fo_standing := st\<rparr>) (fw_close k s)))" for st
      by (intro inv_say inv_set inv_close i) (simp_all add: save_ok_def)
    then show ?thesis using i by (cases b) (auto simp: fw_open_on_def Some fo Remembering Let_def)
  qed
qed (use i in \<open>simp add: fw_open_on_def\<close>)

lemma inv_follow_step:
  assumes i: "fw_inv env F M s" and h: "honest env F M s ev"
  shows "fw_inv env F (saw M s ev) (fw_step env s ev)"
proof (cases ev)
  case (FDuplicated sid now)
  have "map_of (fw_followed s) sid \<noteq> Some (op_entry c)" if "\<not> now" "fw_opens s k = Some c" for k c
  proof -
    have "k < fw_next s" using fw_invD(3) [OF i, of k] that(2) by (cases "fw_next s \<le> k") auto
    then show ?thesis using h that by (force simp: FDuplicated list_all_iff)
  qed
  then show ?thesis using inv_duplicated [OF i] by (simp add: FDuplicated)
next
  case (FTick x)
  then show ?thesis using i inv_tail_step [OF i, of x _ Tick] by (cases "fw_tails s x") (auto simp: fw_tail_step_def)
qed (use i h inv_hold [OF i] inv_release [OF i] inv_stopAll [OF i] inv_open_on [OF i] inv_file_call [OF i] inv_look [OF i] in auto)

lemma inv_follow_run:
  "fw_inv env F M s \<Longrightarrow> honest_run env F M s evs \<Longrightarrow> \<exists>M'. fw_inv env F M' (foldl (fw_step env) s evs)"
proof (induction evs arbitrary: M s)
  case (Cons ev evs)
  from Cons.IH [OF inv_follow_step [OF Cons.prems(1)]] Cons.prems(2) show ?case by simp
qed auto

lemma inv_empty: "fw_inv env F (\<lambda>p. 0) Transcripts"
  by (simp add: fw_inv_def Transcripts_def)

text \<open>
  C18: what is said of a session is what its transcript says. Over any interleaving of holds, releases,
  duplications, looks for files and waits in which files only grow, the cache answers what was written
  into it, and no duplication of a session ends while \<open>#open\<close> is still at work on that session
  (\<open>honest_run\<close>; in the run left out \<open>#open\<close> goes on twice and the facts are folded twice, which
  \<open>duplicate_ending_during_open_follows_twice\<close> shows): the facts stated of a followed
  session with a tail are the fold of exactly the whole records of the file before the tail's offset,
  wherever the reading was resumed; and so is every entry written into the cache, which is what the
  next reading takes up.
\<close>

theorem facts_describe_the_file:
  assumes "honest_run env F (\<lambda>p. 0) Transcripts evs" "s = foldl (fw_step env) Transcripts evs"
    and "map_of (fw_followed s) sid = Some e" "fw_entries s e = Some fo" "fo_tail fo = Some x"
  shows "(\<exists>ft. fw_tails s x = Some ft \<and> fw_facts env sid s = folded env (split_records (cut (F (ft_path ft)) 0 (tl_offset (ft_tail ft)))))
    \<and> (\<forall>p n fd r is. CacheSave p n fd r is \<in> set (fw_out s) \<longrightarrow> kept_ok env (F p) \<lparr>kp_offset = n, kp_fold = Some fd, kp_reading = r, kp_items = is\<rparr>)"
proof -
  obtain M where i: "fw_inv env F M s" using inv_follow_run [OF inv_empty assms(1)] assms(2) by blast
  note ok = fw_invD(4) [OF i assms(4)]
  obtain ft where ft: "fw_tails s x = Some ft" using ok assms(5) by (auto simp: entry_ok_def)
  have "fw_facts env sid s = fo_fold fo" using assms(3,4) by (simp add: fw_facts_def)
  then have "fw_facts env sid s = folded env (split_records (cut (F (ft_path ft)) 0 (tl_offset (ft_tail ft))))"
    using entry_content [OF ok assms(5) ft] by simp
  moreover have "kept_ok env (F p) \<lparr>kp_offset = n, kp_fold = Some fd, kp_reading = r, kp_items = is\<rparr>" if "CacheSave p n fd r is \<in> set (fw_out s)" for p n fd r "is"
    using fw_invD(9) [OF i, of "CacheSave p n fd r is"] that by (simp add: save_ok_def kept_ok_def)
  ultimately show ?thesis using ft by blast
qed

text \<open>
  C19: nothing is followed for nobody. Over the same runs, in which no duplication of a session ends while
  \<open>#open\<close> is still at work on it (one that does leaves a tail that a release does not stop, as
  \<open>duplicate_ending_during_open_follows_twice\<close> shows), every tail with a watch on, or still
  catching up to put one on, is the one tail of a session that is held and is not run twice; so a session that
  was let go of, or is run twice, has none, and no two tails feed one session.
\<close>

theorem nothing_is_followed_for_nobody:
  assumes "honest_run env F (\<lambda>p. 0) Transcripts evs" "s = foldl (fw_step env) Transcripts evs"
    and "fw_tails s x = Some ft" "tl_live (ft_tail ft)"
  shows "\<exists>fo. map_of (fw_followed s) (ft_sid ft) = Some (ft_entry ft) \<and> fw_entries s (ft_entry ft) = Some fo
    \<and> fo_tail fo = Some x \<and> \<not> fo_frozen fo"
proof -
  obtain M where i: "fw_inv env F M s" using inv_follow_run [OF inv_empty assms(1)] assms(2) by blast
  from fw_invD(5) [OF i assms(3)] assms(4) show ?thesis by (auto simp: tail_ok_def)
qed

definition followed_once :: "(text_cp list, nat, text_cp) follow_event list" where
  "followed_once =
     [FHold ''s'' False, FOpenOn 1 (Found (Some ''p'')), FOpenOn 1 (Kept None), FOpenOn 1 (FileCall (Content [97, 10])),
      FOpenOn 1 (FileCall (Content [97, 10])), FOpenOn 1 Written, FTick 2, FReadOn 2 (Content [97, 10, 98, 10]), FReadOn 2 (Content [97, 10, 98, 10])]"

lemma followed_once_honest: "honest_run lines_env (\<lambda>p. [97, 10, 98, 10]) (\<lambda>p. 0) Transcripts followed_once"
  by (simp add: followed_once_def follow_runs file_call_def saw_call_def)

theorem facts_describe_the_file_witness:
  "fw_facts lines_env ''s'' (foldl (fw_step lines_env) Transcripts followed_once) = [[97], [98]]"
proof -
  let ?s = "foldl (fw_step lines_env) Transcripts followed_once"
  obtain fo ft where st: "map_of (fw_followed ?s) ''s'' = Some 0" "fw_entries ?s 0 = Some fo" "fo_tail fo = Some 2"
    "fw_tails ?s 2 = Some ft" "tl_offset (ft_tail ft) = 4"
    by (simp add: followed_once_def follow_runs)
  have cut: "folded lines_env (split_records (cut [97, 10, 98, 10] 0 4)) = [[97], [98]]"
    by (simp add: folded_def lines_env_def cut_def split_records.simps NEWLINE_def utf8_text_def)
  from facts_describe_the_file [OF followed_once_honest refl st(1-3)] st(4,5) cut show ?thesis by auto
qed

theorem nothing_is_followed_for_nobody_witness:
  "let s = foldl (fw_step lines_env) Transcripts followed_once in
   \<exists>ft fo. fw_tails s 2 = Some ft \<and> map_of (fw_followed s) (ft_sid ft) = Some (ft_entry ft) \<and> fw_entries s (ft_entry ft) = Some fo
     \<and> fo_tail fo = Some 2 \<and> \<not> fo_frozen fo"
proof -
  let ?s = "foldl (fw_step lines_env) Transcripts followed_once"
  obtain ft where st: "fw_tails ?s 2 = Some ft" "tl_running (ft_tail ft)" by (simp add: followed_once_def follow_runs)
  then have "tl_live (ft_tail ft)" by (simp add: tl_live_def)
  from nothing_is_followed_for_nobody [OF followed_once_honest refl st(1) this] st(1) show ?thesis unfolding Let_def by blast
qed

end
