(* ===== verification/Clients.thy ===== *)
theory Clients
  imports Containment Utf8 "HOL-Library.Word"
begin

text \<open>
  \<open>src/instance/client.ts\<close>: addresses and address blocks, and the address a request came from behind the
  proxies the operator named. A byte is an \<open>8 word\<close>; the mask of \<open>within\<close> is computed on 32 bits, as
  JavaScript's shift and conjunction are. Only the header of a request is used.
\<close>

unbundle bit_operations_syntax

type_synonym address = "8 word list"

section \<open>Reading addresses\<close>

text \<open>\<open>text.split("::")\<close>.\<close>

fun split_double :: "string \<Rightarrow> string list" where
  "split_double [] = [[]]"
| "split_double [c] = [[c]]"
| "split_double (c # d # s) =
     (if c = CHR '':'' \<and> d = CHR '':'' then [] # split_double s
      else case split_double (d # s) of [] \<Rightarrow> [[c]] | h # t \<Rightarrow> (c # h) # t)"

text \<open>A run of at most \<open>n\<close> decimal digits without a leading zero, as both expressions of the source ask.\<close>

definition decimal :: "nat \<Rightarrow> string \<Rightarrow> nat option" where
  "decimal n part =
     (if part = ''0'' then Some 0
      else if part = [] \<or> n < length part \<or> hd part = CHR ''0'' then None
      else read_digits 0 part)"

definition ipv4_part :: "string \<Rightarrow> 8 word option" where
  "ipv4_part part = (case decimal 3 part of None \<Rightarrow> None | Some value \<Rightarrow> if value > 255 then None else Some (word_of_nat value))"

fun all_some :: "'a option list \<Rightarrow> 'a list option" where
  "all_some [] = Some []"
| "all_some (None # xs) = None"
| "all_some (Some x # xs) = map_option (Cons x) (all_some xs)"

definition ipv4Bytes :: "string \<Rightarrow> address option" where
  "ipv4Bytes s = (let parts = split_on CHR ''.'' s in if length parts \<noteq> 4 then None else all_some (map ipv4_part parts))"

definition groupsOf :: "string \<Rightarrow> string list option" where
  "groupsOf half =
     (if half = [] then Some []
      else let groups = split_on CHR '':'' half in if list_ex (\<lambda>g. g = []) groups then None else Some groups)"

definition hex_digit :: "char \<Rightarrow> nat option" where
  "hex_digit c =
     (let n = of_char c :: nat in
      if 48 \<le> n \<and> n \<le> 57 then Some (n - 48)
      else if 97 \<le> n \<and> n \<le> 102 then Some (n - 87)
      else if 65 \<le> n \<and> n \<le> 70 then Some (n - 55) else None)"

fun read_hex :: "nat \<Rightarrow> string \<Rightarrow> nat option" where
  "read_hex acc [] = Some acc"
| "read_hex acc (c # cs) = (case hex_digit c of None \<Rightarrow> None | Some d \<Rightarrow> read_hex (16 * acc + d) cs)"

definition group_bytes :: "string \<Rightarrow> address option" where
  "group_bytes g =
     (if g = [] \<or> 4 < length g then None
      else case read_hex 0 g of None \<Rightarrow> None | Some value \<Rightarrow> Some [word_of_nat (value div 256), word_of_nat (value mod 256)])"

definition bytesOfGroups :: "string list \<Rightarrow> address option" where
  "bytesOfGroups groups = map_option concat (all_some (map group_bytes groups))"

definition mappedV4 :: "address \<Rightarrow> address option" where
  "mappedV4 bytes =
     (if list_ex (\<lambda>b. b \<noteq> 0) (take 10 bytes) then None
      else if bytes ! 10 \<noteq> 0xff \<or> bytes ! 11 \<noteq> 0xff then None else Some (drop 12 bytes))"

text \<open>\<open>last\<close> is the list of groups that ends the text, and popping it shortens that list.\<close>

definition ipv6Bytes :: "string \<Rightarrow> address option" where
  "ipv6Bytes s =
     (let halves = split_double s in
      if length halves > 2 then None
      else
        case (groupsOf (hd halves), if length halves = 2 then groupsOf (halves ! 1) else Some []) of
          (Some heads, Some tails) \<Rightarrow>
            let ends = (if tails \<noteq> [] then tails else heads);
                dotted = ends \<noteq> [] \<and> CHR ''.'' \<in> set (last ends);
                embedded = (if dotted then ipv4Bytes (last ends) else Some []);
                heads' = (if dotted \<and> tails = [] then butlast heads else heads);
                tails' = (if dotted then butlast tails else tails)
            in
            (case (embedded, bytesOfGroups heads', bytesOfGroups tails') of
               (Some four, Some front, Some back) \<Rightarrow>
                 let stated = length front + length back + length four;
                     rest = back @ four;
                     bytes = front @ replicate (16 - length front - length rest) 0 @ rest
                 in if (if length halves = 1 then stated \<noteq> 16 else stated > 14) then None
                    else Some (case mappedV4 bytes of None \<Rightarrow> bytes | Some v4 \<Rightarrow> v4)
             | _ \<Rightarrow> None)
        | _ \<Rightarrow> None)"

definition addressBytes :: "string \<Rightarrow> address option" where
  "addressBytes s =
     (let bare = takeWhile (\<lambda>c. c \<noteq> CHR ''%'') s in
      if bare = [] then None else if CHR '':'' \<in> set bare then ipv6Bytes bare else ipv4Bytes bare)"

section \<open>Blocks\<close>

record cidr =
  ci_bytes :: address
  ci_bits :: nat

text \<open>What follows the last slash, and what precedes it.\<close>

definition parseCidr :: "string \<Rightarrow> cidr option" where
  "parseCidr s =
     (let slashed = CHR ''/'' \<in> set s;
          suffix = rev (takeWhile (\<lambda>c. c \<noteq> CHR ''/'') (rev s));
          address = (if slashed then take (length s - length suffix - 1) s else s)
      in
      case addressBytes address of
        None \<Rightarrow> None
      | Some bytes \<Rightarrow>
          let width = length bytes * 8 in
          if \<not> slashed then Some \<lparr>ci_bytes = bytes, ci_bits = width\<rparr>
          else (case decimal 3 suffix of
                  None \<Rightarrow> None
                | Some bits \<Rightarrow> if bits > width then None else Some \<lparr>ci_bytes = bytes, ci_bits = bits\<rparr>))"

definition byte_or_zero :: "address \<Rightarrow> nat \<Rightarrow> 32 word" where
  "byte_or_zero a i = (if i < length a then ucast (a ! i) else 0)"

definition cidr_within :: "address \<Rightarrow> cidr \<Rightarrow> bool" where
  "cidr_within a block \<longleftrightarrow>
     length a = length (ci_bytes block)
     \<and> (let whole = ci_bits block div 8; rest = ci_bits block mod 8; mask = push_bit (8 - rest) (0xff :: 32 word) in
        take whole a = take whole (ci_bytes block)
        \<and> (rest = 0 \<or> byte_or_zero a whole AND mask = byte_or_zero (ci_bytes block) whole AND mask))"

definition trusted :: "string option \<Rightarrow> cidr list \<Rightarrow> bool" where
  "trusted address blocks \<longleftrightarrow>
     (case address of
        None \<Rightarrow> False
      | Some t \<Rightarrow> blocks \<noteq> [] \<and> (case addressBytes t of None \<Rightarrow> False | Some bytes \<Rightarrow> list_ex (cidr_within bytes) blocks))"

section \<open>Who is asking\<close>

definition trim_string :: "string \<Rightarrow> string" where
  "trim_string s = rev (dropWhile (\<lambda>c. js_space (of_char c)) (rev (dropWhile (\<lambda>c. js_space (of_char c)) s)))"

definition forwarded_hops :: "string \<Rightarrow> string list" where
  "forwarded_hops forwarded = filter (\<lambda>h. h \<noteq> []) (map trim_string (split_on CHR '','' forwarded))"

text \<open>The loop, over the hops from the right.\<close>

fun first_untrusted :: "string option \<Rightarrow> cidr list \<Rightarrow> string list \<Rightarrow> string option" where
  "first_untrusted observed proxies [] = observed"
| "first_untrusted observed proxies (hop # hops) =
     (if addressBytes hop = None then observed
      else if \<not> trusted (Some hop) proxies then Some hop else first_untrusted observed proxies hops)"

definition clientAddress :: "string option \<Rightarrow> string option \<Rightarrow> cidr list \<Rightarrow> string option" where
  "clientAddress forwarded observed proxies =
     (if \<not> trusted observed proxies then observed
      else case forwarded of None \<Rightarrow> observed | Some f \<Rightarrow> first_untrusted observed proxies (rev (forwarded_hops f)))"

section \<open>A block is a run of leading bits\<close>

definition addr_bit :: "address \<Rightarrow> nat \<Rightarrow> bool" where
  "addr_bit a i = bit (a ! (i div 8)) (7 - i mod 8)"

lemma all_less_split: "m \<le> n \<Longrightarrow> (\<forall>i < n. P i) \<longleftrightarrow> (\<forall>i < m. P i) \<and> (\<forall>i. m \<le> i \<and> i < n \<longrightarrow> P i)" for m n :: nat
  by (meson leI less_le_trans)

lemma masked_byte:
  fixes x y :: "8 word"
  assumes "0 < rest" "rest < 8"
  shows "(ucast x AND push_bit (8 - rest) 0xff = (ucast y AND push_bit (8 - rest) 0xff :: 32 word)) \<longleftrightarrow> (\<forall>k < rest. bit x (7 - k) = bit y (7 - k))"
proof -
  have ff: "(0xff :: 32 word) = mask 8" by (simp add: mask_eq_exp_minus_1)
  have b: "bit (ucast z AND push_bit (8 - rest) 0xff :: 32 word) n \<longleftrightarrow> bit z n \<and> 8 - rest \<le> n" for z :: "8 word" and n
    using assms bit_imp_le_length [of z n] unfolding ff by (auto simp: bit_and_iff bit_ucast_iff bit_push_bit_iff bit_mask_iff)
  have "(ucast x AND push_bit (8 - rest) 0xff = (ucast y AND push_bit (8 - rest) 0xff :: 32 word)) \<longleftrightarrow> (\<forall>n. 8 - rest \<le> n \<longrightarrow> bit x n = bit y n)"
    using bit_word_eqI [of "ucast x AND push_bit (8 - rest) 0xff :: 32 word" "ucast y AND push_bit (8 - rest) 0xff"] b by metis
  also have "\<dots> \<longleftrightarrow> (\<forall>k < rest. bit x (7 - k) = bit y (7 - k))"
  proof (rule iffI; intro allI impI)
    fix k assume "\<forall>n. 8 - rest \<le> n \<longrightarrow> bit x n = bit y n" "k < rest"
    then show "bit x (7 - k) = bit y (7 - k)" using assms by simp
  next
    fix n assume h: "\<forall>k < rest. bit x (7 - k) = bit y (7 - k)" "8 - rest \<le> n"
    show "bit x n = bit y n"
    proof (cases "n < 8")
      case True
      then have "7 - n < rest" "7 - (7 - n) = n" using h(2) by auto
      then show ?thesis using h(1) by metis
    qed (use bit_imp_le_length [of x n] bit_imp_le_length [of y n] in auto)
  qed
  finally show ?thesis .
qed

lemma whole_bytes: "n \<le> length a \<Longrightarrow> length a = length b \<Longrightarrow> take n a = take n b \<longleftrightarrow> (\<forall>i < n * 8. addr_bit a i = addr_bit b i)"
proof -
  assume n: "n \<le> length a" "length a = length b"
  have "(x :: 8 word) = y \<longleftrightarrow> (\<forall>k < 8. bit x (7 - k) = bit y (7 - k))" for x y
  proof -
    have "(\<forall>k < 8. bit x (7 - k) = bit y (7 - k)) \<Longrightarrow> bit x m = bit y m" for m
      using bit_imp_le_length [of x m] bit_imp_le_length [of y m] by (cases "m < 8") (auto dest: spec [of _ "7 - m"])
    then show ?thesis by (auto intro: bit_word_eqI)
  qed
  then have "take n a = take n b \<longleftrightarrow> (\<forall>j < n. \<forall>k < 8. bit (a ! j) (7 - k) = bit (b ! j) (7 - k))"
    using n by (auto simp: list_eq_iff_nth_eq)
  also have "\<dots> \<longleftrightarrow> (\<forall>i < n * 8. addr_bit a i = addr_bit b i)"
  proof (rule iffI; intro allI impI)
    fix i assume "\<forall>j < n. \<forall>k < 8. bit (a ! j) (7 - k) = bit (b ! j) (7 - k)" "i < n * 8"
    then show "addr_bit a i = addr_bit b i" by (simp add: addr_bit_def less_mult_imp_div_less)
  next
    fix j k assume h: "\<forall>i < n * 8. addr_bit a i = addr_bit b i" "j < n" "k < (8 :: nat)"
    then have "j * 8 + k < n * 8" by linarith
    then show "bit (a ! j) (7 - k) = bit (b ! j) (7 - k)" using h(1,3) by (auto simp: addr_bit_def dest!: spec [of _ "j * 8 + k"])
  qed
  finally show ?thesis .
qed

text \<open>
  A block is a run of leading bits. Comparing whole bytes and then one masked byte, as the code
  does on JavaScript's 32-bit integers, says that an address is of the block's family and agrees with
  it in each of the bits the block fixes, for every prefix length, the ones inside a byte included.
\<close>

theorem within_compares_leading_bits:
  assumes "ci_bits block \<le> length (ci_bytes block) * 8"
  shows "cidr_within a block \<longleftrightarrow> length a = length (ci_bytes block) \<and> (\<forall>i < ci_bits block. addr_bit a i = addr_bit (ci_bytes block) i)"
proof (cases "length a = length (ci_bytes block)")
  case len: True
  let ?b = "ci_bytes block" and ?n = "ci_bits block" let ?w = "?n div 8" and ?r = "?n mod 8"
  have nr: "?n = ?w * 8 + ?r" by simp
  have w: "?w \<le> length a" using assms len by linarith
  have low: "take ?w a = take ?w ?b \<longleftrightarrow> (\<forall>i < ?w * 8. addr_bit a i = addr_bit ?b i)" by (rule whole_bytes [OF w len])
  have high: "(byte_or_zero a ?w AND push_bit (8 - ?r) 0xff = byte_or_zero ?b ?w AND push_bit (8 - ?r) 0xff)
      \<longleftrightarrow> (\<forall>i. ?w * 8 \<le> i \<and> i < ?n \<longrightarrow> addr_bit a i = addr_bit ?b i)" if r: "?r \<noteq> 0"
  proof -
    have in_: "?w < length a" using assms len r nr by linarith
    have "(\<forall>k < ?r. bit (a ! ?w) (7 - k) = bit (?b ! ?w) (7 - k)) \<longleftrightarrow> (\<forall>i. ?w * 8 \<le> i \<and> i < ?n \<longrightarrow> addr_bit a i = addr_bit ?b i)"
    proof (rule iffI; intro allI impI)
      fix i assume h: "\<forall>k < ?r. bit (a ! ?w) (7 - k) = bit (?b ! ?w) (7 - k)" "?w * 8 \<le> i \<and> i < ?n"
      define d where "d = i - ?w * 8"
      have "i = ?w * 8 + d" "?r < 8" using h(2) by (simp_all add: d_def)
      moreover from this have "d < ?r" using h(2) nr by linarith
      ultimately have "i = ?w * 8 + d" "d < ?r" "?r < 8" by blast+
      then have "i div 8 = ?w" "i mod 8 < ?r" by simp_all
      then show "addr_bit a i = addr_bit ?b i" using h(1) by (simp add: addr_bit_def)
    next
      fix k assume h: "\<forall>i. ?w * 8 \<le> i \<and> i < ?n \<longrightarrow> addr_bit a i = addr_bit ?b i" "k < ?r"
      have "k < 8" using h(2) by (meson less_trans mod_less_divisor zero_less_numeral)
      moreover have "?w * 8 + k < ?n" using h(2) nr by linarith
      ultimately show "bit (a ! ?w) (7 - k) = bit (?b ! ?w) (7 - k)" using h(1) by (auto simp: addr_bit_def dest!: spec [of _ "?w * 8 + k"])
    qed
    then show ?thesis using masked_byte [of ?r "a ! ?w" "?b ! ?w"] r in_ len by (simp add: byte_or_zero_def)
  qed
  have "(\<forall>i < ?n. addr_bit a i = addr_bit ?b i) \<longleftrightarrow> (\<forall>i < ?w * 8. addr_bit a i = addr_bit ?b i) \<and> (\<forall>i. ?w * 8 \<le> i \<and> i < ?n \<longrightarrow> addr_bit a i = addr_bit ?b i)"
    by (rule all_less_split) (use nr in linarith)
  then show ?thesis using len low high nr by (cases "?r = 0") (auto simp: cidr_within_def Let_def)
qed (simp add: cidr_within_def)

theorem within_compares_leading_bits_witness:
  "cidr_within [10, 0xbf, 3, 4] \<lparr>ci_bytes = [10, 0x80, 0, 0], ci_bits = 10\<rparr>
   \<longleftrightarrow> (\<forall>i < 10. addr_bit [10, 0xbf, 3, 4] i = addr_bit [10, 0x80, 0, 0] i)"
  using within_compares_leading_bits [of "\<lparr>ci_bytes = [10, 0x80, 0, 0], ci_bits = 10\<rparr>" "[10, 0xbf, 3, 4]"] by simp

section \<open>One address, several spellings\<close>

text \<open>An IPv4 address in dotted decimals, and an IPv6 address in eight groups of four digits.\<close>

definition show_ipv4 :: "address \<Rightarrow> string" where
  "show_ipv4 a = show_nat (unat (a ! 0)) @ CHR ''.'' # show_nat (unat (a ! 1)) @ CHR ''.'' # show_nat (unat (a ! 2)) @ CHR ''.'' # show_nat (unat (a ! 3))"

definition hex_char :: "nat \<Rightarrow> char" where
  "hex_char n = (if n < 10 then char_of (48 + n) else char_of (87 + n))"

definition show_group :: "8 word \<Rightarrow> 8 word \<Rightarrow> string" where
  "show_group hi lo = map hex_char [unat hi div 16, unat hi mod 16, unat lo div 16, unat lo mod 16]"

fun show_groups :: "address \<Rightarrow> string" where
  "show_groups [] = []"
| "show_groups [hi] = []"
| "show_groups [hi, lo] = show_group hi lo"
| "show_groups (hi # lo # a) = show_group hi lo @ CHR '':'' # show_groups a"

definition digit :: "char \<Rightarrow> bool" where
  "digit c \<longleftrightarrow> c \<in> set ''0123456789''"

lemma digit_chars: "d < 10 \<Longrightarrow> digit (digit_char d)"
proof -
  assume "d < 10"
  then have "d \<in> set [0..<10]" by simp
  moreover have "list_all (\<lambda>d. digit (digit_char d)) [0..<10]" by code_simp
  ultimately show ?thesis unfolding list_all_iff by blast
qed

lemma show_nat_digits: "c \<in> set (show_nat n) \<Longrightarrow> digit c"
proof (induction n rule: show_nat.induct)
  case (1 n)
  have "c \<in> set (show_nat (n div 10)) \<or> c = digit_char (n mod 10) \<or> (n < 10 \<and> c = digit_char n)"
    using "1.prems" by (subst (asm) show_nat.simps) (auto split: if_splits)
  then show ?case using 1 digit_chars by (cases "n < 10") (auto simp: show_nat.simps [of n])
qed

lemma show_nat_lead: "0 < n \<Longrightarrow> hd (show_nat n) \<noteq> CHR ''0''"
proof (induction n rule: show_nat.induct)
  case (1 n)
  show ?case
  proof (cases "n < 10")
    case True
    then have "n \<in> set [1..<10]" using "1.prems" by simp
    moreover have "list_all (\<lambda>d. digit_char d \<noteq> CHR ''0'') [1..<10]" by code_simp
    ultimately show ?thesis using True unfolding list_all_iff by (simp add: show_nat.simps [of n])
  next
    case False
    then show ?thesis using 1 by (simp add: show_nat.simps [of n])
  qed
qed

lemma show_nat_length: "n < 1000 \<Longrightarrow> length (show_nat n) \<le> 3"
proof -
  assume n: "n < 1000"
  have 1: "length (show_nat m) = 1" if "m < 10" for m using that by (simp add: show_nat.simps [of m])
  have 2: "length (show_nat m) \<le> 2" if "m < 100" for m using that 1 [of "m div 10"] 1 [of m] by (cases "m < 10") (simp_all add: show_nat.simps [of m])
  show ?thesis using n 2 [of "n div 10"] 2 [of n] by (cases "n < 10") (simp_all add: show_nat.simps [of n])
qed

lemma decimal_show: "n < 1000 \<Longrightarrow> decimal 3 (show_nat n) = Some n"
proof (cases "n = 0")
  case True
  have "show_nat 0 = ''0''" by code_simp
  then show ?thesis using True by (simp add: decimal_def)
next
  case False
  assume n: "n < 1000"
  have "show_nat n \<noteq> ''0''" using show_nat_lead [of n] False by auto
  then show ?thesis using show_nat_lead [of n] show_nat_length [OF n] False by (auto simp: decimal_def)
qed

lemma show_nat_free: "\<not> digit c \<Longrightarrow> c \<notin> set (show_nat n)"
  using show_nat_digits by blast

lemma ipv4_part_show: "ipv4_part (show_nat (unat (b :: 8 word))) = Some b"
proof -
  have "unat b < 256" using unsigned_less [of b, where 'a = nat] by simp
  then show ?thesis by (simp add: ipv4_part_def decimal_show)
qed

lemma ipv4_roundtrip: "length a = 4 \<Longrightarrow> ipv4Bytes (show_ipv4 a) = Some a"
proof -
  assume "length a = 4"
  then obtain b0 b1 b2 b3 where a: "a = [b0, b1, b2, b3]" by (auto simp: numeral_eq_Suc length_Suc_conv)
  have no: "CHR ''.'' \<notin> set (show_nat n)" for n by (rule show_nat_free) (simp add: digit_def)
  have "split_on CHR ''.'' (show_ipv4 a) = map (\<lambda>b. show_nat (unat b)) a"
    using no by (simp add: a show_ipv4_def split_on_append split_on_no)
  then show ?thesis by (simp add: ipv4Bytes_def a ipv4_part_show)
qed

text \<open>No two colons in a row.\<close>

fun no_double :: "string \<Rightarrow> bool" where
  "no_double (c # d # s) \<longleftrightarrow> \<not> (c = CHR '':'' \<and> d = CHR '':'') \<and> no_double (d # s)"
| "no_double _ \<longleftrightarrow> True"

lemma split_double_single: "no_double s \<Longrightarrow> split_double s = [s]"
  by (induction s rule: no_double.induct) auto

lemma no_double_free: "CHR '':'' \<notin> set s \<Longrightarrow> no_double s"
  by (induction s rule: no_double.induct) auto

lemma no_double_append: "CHR '':'' \<notin> set x \<Longrightarrow> x \<noteq> [] \<Longrightarrow> no_double y \<Longrightarrow> y \<noteq> [] \<Longrightarrow> hd y \<noteq> CHR '':'' \<Longrightarrow> no_double (x @ CHR '':'' # y)"
  by (induction x rule: no_double.induct; cases y) auto

lemma show_ipv4_chars: "c \<in> set (show_ipv4 a) \<Longrightarrow> digit c \<or> c = CHR ''.''"
  using show_nat_digits by (auto simp: show_ipv4_def)

lemma address_bare:
  assumes "CHR ''%'' \<notin> set s" "s \<noteq> []"
  shows "addressBytes s = (if CHR '':'' \<in> set s then ipv6Bytes s else ipv4Bytes s)"
proof -
  have bare: "takeWhile (\<lambda>c. c \<noteq> CHR ''%'') s = s" using assms(1) by auto
  show ?thesis using assms(2) unfolding addressBytes_def bare Let_def by simp
qed

lemma mapped_roundtrip: "length a = 4 \<Longrightarrow> addressBytes (''::ffff:'' @ show_ipv4 a) = Some a"
proof -
  assume a: "length a = 4"
  let ?t = "show_ipv4 a"
  have no: "CHR '':'' \<notin> set ?t" "CHR ''%'' \<notin> set ?t" using show_ipv4_chars [of _ a] by (auto simp: digit_def)
  have t: "?t \<noteq> []" "CHR ''.'' \<in> set ?t" by (auto simp: show_ipv4_def)
  have "no_double (''ffff'' @ CHR '':'' # ?t)" using no t by (intro no_double_append no_double_free) (auto dest: hd_in_set)
  then have "split_double (''::ffff:'' @ ?t) = [[], ''ffff:'' @ ?t]" using split_double_single by simp
  moreover have "groupsOf (''ffff:'' @ ?t) = Some [''ffff'', ?t]"
    using split_on_append [of "CHR '':''" "''ffff''" ?t] split_on_no [OF no(1)] t by (simp add: groupsOf_def Let_def)
  moreover have "groupsOf [] = Some []" by (simp add: groupsOf_def)
  moreover have "bytesOfGroups [''ffff''] = Some [0xff, 0xff]" "bytesOfGroups [] = Some []"
    by (simp_all add: bytesOfGroups_def group_bytes_def hex_digit_def)
  moreover have "mappedV4 (replicate 10 0 @ [0xff, 0xff] @ a) = Some a" by (simp add: mappedV4_def nth_append list_ex_iff)
  ultimately have "ipv6Bytes (''::ffff:'' @ ?t) = Some a" using t a ipv4_roundtrip [OF a] by (simp add: ipv6Bytes_def Let_def)
  then show ?thesis using address_bare [of "''::ffff:'' @ ?t"] no(2) by simp
qed

lemma plain_roundtrip: "length a = 4 \<Longrightarrow> addressBytes (show_ipv4 a) = Some a"
proof -
  assume a: "length a = 4"
  have no: "CHR '':'' \<notin> set (show_ipv4 a)" "CHR ''%'' \<notin> set (show_ipv4 a)" using show_ipv4_chars [of _ a] by (auto simp: digit_def)
  moreover have "show_ipv4 a \<noteq> []" by (simp add: show_ipv4_def)
  ultimately show ?thesis using address_bare [of "show_ipv4 a"] ipv4_roundtrip [OF a] by simp
qed

lemma hex_roundtrip: "n < 16 \<Longrightarrow> hex_digit (hex_char n) = Some n \<and> hex_char n \<notin> set '':.%''"
proof -
  assume n: "n < 16"
  then have h: "hex_digit (hex_char n) = Some n" by (simp add: hex_digit_def hex_char_def of_char_of Let_def)
  have "hex_digit CHR '':'' = None" "hex_digit CHR ''.'' = None" "hex_digit CHR ''%'' = None" by (simp_all add: hex_digit_def)
  with h show ?thesis by force
qed

lemma show_group_digits:
  fixes hi lo :: "8 word"
  shows "unat hi div 16 < 16" "unat hi mod 16 < 16"
  using unsigned_less [of hi, where 'a = nat] by simp_all

lemma group_roundtrip: "group_bytes (show_group hi lo) = Some [hi, lo]"
proof -
  note d = show_group_digits [of hi] show_group_digits [of lo]
  have "read_hex 0 (show_group hi lo) = Some (unat hi * 256 + unat lo)"
    using d hex_roundtrip by (simp add: show_group_def algebra_simps)
  moreover have "unat lo < 256" using unsigned_less [of lo, where 'a = nat] by simp
  ultimately show ?thesis by (simp add: group_bytes_def show_group_def)
qed

fun groups_in :: "address \<Rightarrow> string list" where
  "groups_in (hi # lo # a) = show_group hi lo # groups_in a"
| "groups_in _ = []"

lemma show_group_chars: "c \<in> set (show_group hi lo) \<Longrightarrow> c \<notin> set '':.%''"
  using show_group_digits [of hi] show_group_digits [of lo] hex_roundtrip unfolding show_group_def by auto

lemma show_group_nonempty [simp]: "show_group hi lo \<noteq> []" by (simp add: show_group_def)

lemma show_groups_shape:
  assumes "even (length a)" "a \<noteq> []"
  shows "split_on CHR '':'' (show_groups a) = groups_in a \<and> no_double (show_groups a) \<and> show_groups a \<noteq> []
    \<and> hd (show_groups a) \<noteq> CHR '':'' \<and> (\<forall>c \<in> set (show_groups a). c \<noteq> CHR ''.'' \<and> c \<noteq> CHR ''%'')
    \<and> bytesOfGroups (groups_in a) = Some a \<and> (\<forall>g \<in> set (groups_in a). g \<noteq> [] \<and> CHR ''.'' \<notin> set g)"
  using assms
proof (induction a rule: show_groups.induct)
  case (3 hi lo)
  have c: "CHR '':'' \<notin> set (show_group hi lo)" using show_group_chars by fastforce
  have "hd (show_group hi lo) \<noteq> CHR '':''" using c by (metis hd_in_set show_group_nonempty)
  then show ?case using c show_group_chars [of _ hi lo] group_roundtrip [of hi lo]
    by (auto simp: split_on_no no_double_free bytesOfGroups_def)
next
  case (4 hi lo x a)
  let ?r = "show_groups (x # a)" and ?g = "show_group hi lo"
  have IH: "split_on CHR '':'' ?r = groups_in (x # a)" "no_double ?r" "?r \<noteq> []" "hd ?r \<noteq> CHR '':''"
    "\<And>c. c \<in> set ?r \<Longrightarrow> c \<noteq> CHR ''.'' \<and> c \<noteq> CHR ''%''" "bytesOfGroups (groups_in (x # a)) = Some (x # a)"
    "\<And>g. g \<in> set (groups_in (x # a)) \<Longrightarrow> g \<noteq> [] \<and> CHR ''.'' \<notin> set g"
    using 4 by auto
  have c: "CHR '':'' \<notin> set ?g" using show_group_chars by fastforce
  have h: "hd ?g \<noteq> CHR '':''" using c by (metis hd_in_set show_group_nonempty)
  have n: "no_double (?g @ CHR '':'' # ?r)" by (rule no_double_append [OF c _ IH(2-4)]) simp
  have b: "bytesOfGroups (?g # groups_in (x # a)) = Some (hi # lo # x # a)"
    using IH(6) group_roundtrip [of hi lo] by (auto simp: bytesOfGroups_def)
  show ?case using split_on_append [OF c, of ?r] IH(1,5,7) h n b show_group_chars [of _ hi lo] by (auto simp del: groups_in.simps(2))
qed auto

lemma ipv6_roundtrip:
  assumes "length a = 16"
  shows "addressBytes (show_groups a) = Some (case mappedV4 a of None \<Rightarrow> a | Some v4 \<Rightarrow> v4)"
proof -
  have a: "even (length a)" "a \<noteq> []" using assms by auto
  note sh = show_groups_shape [OF a]
  have "groups_in a \<noteq> []" using a by (cases a rule: groups_in.cases) auto
  moreover have g: "groupsOf (show_groups a) = Some (groups_in a)" using sh by (auto simp: groupsOf_def Let_def list_ex_iff)
  moreover have "CHR ''.'' \<notin> set (last (groups_in a))" using sh \<open>groups_in a \<noteq> []\<close> last_in_set by blast
  moreover have "bytesOfGroups [] = Some []" by (simp add: bytesOfGroups_def)
  ultimately have v6: "ipv6Bytes (show_groups a) = Some (case mappedV4 a of None \<Rightarrow> a | Some v4 \<Rightarrow> v4)"
    using sh split_double_single [of "show_groups a"] assms by (cases "mappedV4 a") (simp_all add: ipv6Bytes_def Let_def)
  have "CHR '':'' \<in> set (show_groups a)" using assms by (cases a rule: show_groups.cases) auto
  then show ?thesis using v6 sh address_bare [of "show_groups a"] by auto
qed


text \<open>
  An address has one reading. An IPv4 address is read back from its dotted decimals, and its
  mapped IPv6 spelling is read as the same four bytes; an IPv6 address is read back from its eight
  groups, and one inside the mapped range is the IPv4 address it carries.
\<close>

theorem address_spellings:
  "(length a = 4 \<longrightarrow> addressBytes (show_ipv4 a) = Some a \<and> addressBytes (''::ffff:'' @ show_ipv4 a) = Some a)
   \<and> (length a = 16 \<longrightarrow> addressBytes (show_groups a) = Some (case mappedV4 a of None \<Rightarrow> a | Some v4 \<Rightarrow> v4))"
  using plain_roundtrip mapped_roundtrip ipv6_roundtrip by simp

theorem address_spellings_witness:
  "addressBytes (show_ipv4 [127, 0, 0, 1]) = Some [127, 0, 0, 1]
   \<and> addressBytes (''::ffff:'' @ show_ipv4 [127, 0, 0, 1]) = Some [127, 0, 0, 1]
   \<and> addressBytes (show_groups [0, 0, 0, 0, 0, 0, 0, 0, 0, 0, 0xff, 0xff, 127, 0, 0, 1]) = Some [127, 0, 0, 1]"
  using address_spellings [of "[127, 0, 0, 1]"] address_spellings [of "[0, 0, 0, 0, 0, 0, 0, 0, 0, 0, 0xff, 0xff, 127, 0, 0, 1]"]
  by (simp add: mappedV4_def)

section \<open>Forged hops\<close>

lemma forwarded_hops_append: "forwarded_hops (x @ CHR '','' # y) = forwarded_hops x @ forwarded_hops y"
  by (simp add: forwarded_hops_def split_on_sep)

lemma trusted_reads: "trusted (Some h) ps \<Longrightarrow> addressBytes h \<noteq> None"
  by (auto simp: trusted_def split: option.splits)

lemma first_untrusted_append:
  "h \<in> set xs \<Longrightarrow> \<not> trusted (Some h) ps \<Longrightarrow> first_untrusted obs ps (xs @ ys) = first_untrusted obs ps xs"
  by (induction xs) auto

lemma first_untrusted_answer:
  "first_untrusted obs ps hs = obs
   \<or> (\<exists>h \<in> set hs. first_untrusted obs ps hs = Some h \<and> addressBytes h \<noteq> None \<and> \<not> trusted (Some h) ps)"
  by (induction hs) auto

lemma forged_without_effect:
  assumes "\<exists>h \<in> set (forwarded_hops own). \<not> trusted (Some h) proxies"
  shows "clientAddress (Some (forged @ CHR '','' # own)) observed proxies = clientAddress (Some own) observed proxies"
proof -
  obtain h where "h \<in> set (rev (forwarded_hops own))" "\<not> trusted (Some h) proxies" using assms by auto
  then have "first_untrusted observed proxies (rev (forwarded_hops own) @ rev (forwarded_hops forged))
      = first_untrusted observed proxies (rev (forwarded_hops own))"
    by (rule first_untrusted_append)
  then show ?thesis by (simp add: clientAddress_def forwarded_hops_append)
qed

text \<open>
  C22: what a caller writes into the forwarding header does not move the address a request is put down
  to, provided that what the proxies appended names a hop that is not a trusted proxy: whatever stands
  to the left of that is then without effect. (A caller who is inside a trusted block is taken for one
  more proxy, and what it wrote is read: \<open>forged_inside_a_trusted_block\<close>.) A header from an address that
  is not a trusted proxy is dropped whole; and the answer is always the observed address, or a text
  \<open>addressBytes\<close> can read that lies outside every trusted block (it reads some texts that are no
  addresses: \<open>dotted_before_the_gap_is_read\<close>).
\<close>

theorem forged_hops_change_nothing:
  "((\<exists>h \<in> set (forwarded_hops own). \<not> trusted (Some h) proxies) \<longrightarrow>
     clientAddress (Some (forged @ CHR '','' # own)) observed proxies = clientAddress (Some own) observed proxies)
   \<and> (\<not> trusted observed proxies \<longrightarrow> clientAddress header observed proxies = observed)
   \<and> (clientAddress header observed proxies = observed
      \<or> (\<exists>h. clientAddress header observed proxies = Some h \<and> addressBytes h \<noteq> None \<and> \<not> trusted (Some h) proxies))"
  using forged_without_effect [of own proxies forged observed] first_untrusted_answer [of observed proxies]
  by (force simp: clientAddress_def split: option.splits)

theorem forged_hops_change_nothing_witness:
  "let proxies = [\<lparr>ci_bytes = [127, 0, 0, 0], ci_bits = 8\<rparr>] in
   clientAddress (Some (''8.8.8.8'' @ CHR '','' # '' 203.0.113.9'')) (Some ''127.0.0.1'') proxies
   = clientAddress (Some '' 203.0.113.9'') (Some ''127.0.0.1'') proxies"
proof -
  have h: "forwarded_hops '' 203.0.113.9'' = [''203.0.113.9'']" by (simp add: forwarded_hops_def trim_string_def js_space_def)
  have "\<not> trusted (Some ''203.0.113.9'') [\<lparr>ci_bytes = [127, 0, 0, 0], ci_bits = 8\<rparr>]" by code_simp
  then show ?thesis
    unfolding Let_def using forged_hops_change_nothing [of "'' 203.0.113.9''" _ "''8.8.8.8''"] h by simp
qed

section \<open>Where the reading differs from what is meant\<close>

text \<open>A caller whose own address is inside a trusted block is not told from a proxy.\<close>

lemma forged_inside_a_trusted_block:
  "clientAddress (Some ''8.8.8.8,127.0.0.1'') (Some ''127.0.0.1'') [\<lparr>ci_bytes = [127, 0, 0, 0], ci_bits = 8\<rparr>] = Some ''8.8.8.8''"
proof -
  have h: "forwarded_hops ''8.8.8.8,127.0.0.1'' = [''8.8.8.8'', ''127.0.0.1'']" by (simp add: forwarded_hops_def trim_string_def js_space_def)
  have t: "trusted (Some ''127.0.0.1'') [\<lparr>ci_bytes = [127, 0, 0, 0], ci_bits = 8\<rparr>]" "\<not> trusted (Some ''8.8.8.8'') [\<lparr>ci_bytes = [127, 0, 0, 0], ci_bits = 8\<rparr>]"
    "addressBytes ''127.0.0.1'' = Some [127, 0, 0, 1]" "addressBytes ''8.8.8.8'' = Some [8, 8, 8, 8]" by code_simp+
  show ?thesis by (simp add: clientAddress_def h t)
qed

text \<open>
  The dotted group is taken for the last of the address whenever the text after \<open>::\<close> is empty, so
  a text that is no address is read as one, with the four bytes moved to its end.
\<close>

lemma dotted_before_the_gap_is_read:
  "addressBytes ''1.2.3.4::'' = Some [0, 0, 0, 0, 0, 0, 0, 0, 0, 0, 0, 0, 1, 2, 3, 4]"
  by code_simp

text \<open>
  A block in the mapped spelling is answered as IPv4 with its bits as written: the prefix that
  covers the mapped addresses is refused, and one that covers nothing of the kind is taken.
\<close>

lemma mapped_block_keeps_its_bits:
  "parseCidr ''::ffff:10.0.0.0/104'' = None"
  "parseCidr ''::ffff:10.0.0.0/8'' = Some \<lparr>ci_bytes = [10, 0, 0, 0], ci_bits = 8\<rparr>"
proof -
  have a: "addressBytes ''::ffff:10.0.0.0'' = Some [10, 0, 0, 0]"
  proof -
    have "show_nat 10 = ''10''" "show_nat 0 = ''0''" by code_simp+
    then have "show_ipv4 [10, 0, 0, 0] = ''10.0.0.0''" by (simp add: show_ipv4_def)
    then show ?thesis using mapped_roundtrip [of "[10, 0, 0, 0]"] by simp
  qed
  have d: "decimal 3 ''104'' = Some 104" "decimal 3 ''8'' = Some 8" by (simp_all add: decimal_def char_digit_def)
  show "parseCidr ''::ffff:10.0.0.0/104'' = None" using a d by (simp add: parseCidr_def Let_def)
  show "parseCidr ''::ffff:10.0.0.0/8'' = Some \<lparr>ci_bytes = [10, 0, 0, 0], ci_bits = 8\<rparr>"
    using a d by (simp add: parseCidr_def Let_def)
qed

end
