(* ===== verification/Supervise.thy ===== *)
theory Supervise
  imports Prelude
begin

text \<open>
  The supervisor, \<open>src/daemon/supervise.ts\<close>: one restart loop per config home, and the requests that
  start, stop, add and remove one.

  Every \<open>Supervised\<close> is an object of the store \<open>sv_obj\<close>, because one that was removed from the map of
  units still has its loop; every child process is an entry of \<open>sv_proc\<close>. An asynchronous function is
  cut at its waits: a restart loop is its \<open>un_loop\<close>, a request that waits is an \<open>sv_call\<close> under the
  number it was made with, and an event resumes one of them. What other code answers (the harness of
  a directory, whether the host holds the process, the state of an instance, whether its socket is
  there, the code of an exit) is carried by the event. The promise \<open>unit.loop\<close> is the number of
  loops chained so far: the \<open>n\<close>-th of them is over once \<open>un_done\<close> has reached \<open>n\<close>, and once one has
  thrown the rest of the chain never runs.
\<close>

section \<open>Data\<close>

record backoff =
  minMs :: int
  maxMs :: int
  steadyMs :: int

definition BACKOFF :: backoff where
  "BACKOFF = \<lparr>minMs = 500, maxMs = 30000, steadyMs = 60000\<rparr>"

text \<open>Where a loop waits: for its child, started at an instant, or for a pause of some length.\<close>

datatype restart_loop =
    Resting
  | Running nat int int
  | Pausing int bool

record supervised =
  un_dir :: string
  un_child :: "nat option"
  un_wanted :: bool
  un_waiting :: "nat list"
  un_loop :: restart_loop
  un_made :: nat
  un_done :: nat
  un_failed :: bool

datatype sv_signal = SIGTERM | SIGKILL

datatype sv_code = Not_found | File_exists | Instance_unreachable | Internal_error | Invalid_args | Unknown_op

datatype sv_answer =
    Row string
  | Stopped string
  | Removed string
  | Refused sv_code
  | Thrown
  | Many "(string \<times> sv_answer) list"
  | Kept sv_answer
  | Replaced "string list"
  | Departed

datatype stop_stage = Asked | Termed | Killed

text \<open>Who waits for a child to be stopped: the request, a restart of the directory, or the departure.\<close>

datatype stop_for = For_request | For_restart string | For_departure

datatype sv_call =
    Next nat
  | Serving nat nat
  | Stating nat
  | Stopping nat nat stop_stage stop_for
  | Joining nat nat stop_for
  | Going string
  | Collecting bool "(string \<times> nat) list"
  | Replacing "string list"
  | Adding
  | Leaving "nat list"

datatype sv_phase = Adopting | Binding | Up | Left_called | Seeing "(nat \<times> nat) list" | Ended

datatype sv_line =
    Started nat nat
  | Restarting nat int
  | Ended_child nat
  | Released nat
  | Stage nat stop_stage
  | Exited nat

text \<open>A child process: the object it was spawned for, and the code it exited with.\<close>

record sv_process =
  pr_unit :: nat
  pr_code :: "int option"

record supervisor =
  sv_backoff :: backoff
  sv_units :: "(string, nat) js_map"
  sv_obj :: "nat \<Rightarrow> supervised"
  sv_made :: nat
  sv_proc :: "nat \<Rightarrow> sv_process"
  sv_spawned :: nat
  sv_leaving :: bool
  sv_phase :: sv_phase
  sv_listening :: bool
  sv_call :: "nat \<Rightarrow> sv_call option"
  sv_answer :: "nat \<Rightarrow> sv_answer option"
  sv_asked :: nat
  sv_timers :: nat
  sv_signals :: "(nat \<times> sv_signal) list"
  sv_log :: "sv_line list"

text \<open>\<open>new Supervised(target)\<close>\<close>

definition Supervised :: "string \<Rightarrow> supervised" where
  "Supervised dir =
     \<lparr>un_dir = dir, un_child = None, un_wanted = True, un_waiting = [], un_loop = Resting, un_made = 0, un_done = 0, un_failed = False\<rparr>"

definition Supervisor :: "backoff \<Rightarrow> supervisor" where
  "Supervisor b =
     \<lparr>sv_backoff = b, sv_units = [], sv_obj = (\<lambda>_. Supervised []), sv_made = 0,
      sv_proc = (\<lambda>_. \<lparr>pr_unit = 0, pr_code = None\<rparr>), sv_spawned = 0, sv_leaving = False,
      sv_phase = Adopting, sv_listening = False, sv_call = (\<lambda>_. None), sv_answer = (\<lambda>_. None), sv_asked = 0,
      sv_timers = 0, sv_signals = [], sv_log = []\<rparr>"

section \<open>Small steps\<close>

definition at_unit :: "nat \<Rightarrow> (supervised \<Rightarrow> supervised) \<Rightarrow> supervisor \<Rightarrow> supervisor" where
  "at_unit u f s = s\<lparr>sv_obj := (sv_obj s)(u := f (sv_obj s u))\<rparr>"

definition say :: "sv_line \<Rightarrow> supervisor \<Rightarrow> supervisor" where
  "say l s = s\<lparr>sv_log := sv_log s @ [l]\<rparr>"

definition sv_await :: "nat \<Rightarrow> sv_call \<Rightarrow> supervisor \<Rightarrow> supervisor" where
  "sv_await i c s = s\<lparr>sv_call := (sv_call s)(i := Some c)\<rparr>"

definition answer :: "nat \<Rightarrow> sv_answer \<Rightarrow> supervisor \<Rightarrow> supervisor" where
  "answer i a s = s\<lparr>sv_call := (sv_call s)(i := None), sv_answer := (sv_answer s)(i := Some a)\<rparr>"

definition exited :: "supervisor \<Rightarrow> nat \<Rightarrow> bool" where
  "exited s c \<longleftrightarrow> pr_code (sv_proc s c) \<noteq> None"

text \<open>Both causes \<open>#overtaken\<close> answers carry the same code.\<close>

definition overtaken :: "supervisor \<Rightarrow> nat \<Rightarrow> sv_code option" where
  "overtaken s u = (if sv_leaving s \<or> \<not> un_wanted (sv_obj s u) then Some Instance_unreachable else None)"

definition or_failed :: "supervisor \<Rightarrow> nat \<Rightarrow> sv_answer" where
  "or_failed s u = Refused (case overtaken s u of None \<Rightarrow> Internal_error | Some code \<Rightarrow> code)"

text \<open>Every pause is cut short, whichever unit it belongs to.\<close>

definition cut_short :: "supervised \<Rightarrow> supervised" where
  "cut_short x = (case un_loop x of Pausing w _ \<Rightarrow> x\<lparr>un_loop := Pausing w True\<rparr> | _ \<Rightarrow> x)"

definition cancel_waits :: "supervisor \<Rightarrow> supervisor" where
  "cancel_waits s = s\<lparr>sv_obj := (\<lambda>u. cut_short (sv_obj s u))\<rparr>"

section \<open>The restart loop\<close>

text \<open>\<open>#keep\<close> chains one more loop to the unit's promise.\<close>

definition keep_up :: "nat \<Rightarrow> supervisor \<Rightarrow> supervisor" where
  "keep_up u = at_unit u (\<lambda>x. x\<lparr>un_made := un_made x + 1\<rparr>)"

definition took :: "nat \<Rightarrow> nat \<Rightarrow> supervisor \<Rightarrow> supervisor" where
  "took u c s =
     (let ids = un_waiting (sv_obj s u);
          s' = at_unit u (\<lambda>x. x\<lparr>un_child := Some c, un_waiting := []\<rparr>) s
      in fold (\<lambda>i. sv_await i (Serving u c)) ids s')"

definition abandoned :: "nat \<Rightarrow> sv_answer \<Rightarrow> supervisor \<Rightarrow> supervisor" where
  "abandoned u cause s = fold (\<lambda>i. answer i cause) (un_waiting (sv_obj s u)) (at_unit u (\<lambda>x. x\<lparr>un_waiting := []\<rparr>) s)"

definition loop_over :: "nat \<Rightarrow> supervisor \<Rightarrow> supervisor" where
  "loop_over u s =
     at_unit u (\<lambda>x. x\<lparr>un_loop := Resting, un_done := un_done x + 1\<rparr>) (abandoned u (or_failed s u) s)"

definition loop_threw :: "nat \<Rightarrow> supervisor \<Rightarrow> supervisor" where
  "loop_threw u s =
     at_unit u (\<lambda>x. x\<lparr>un_loop := Resting, un_failed := True\<rparr>) (abandoned u (or_failed s u) s)"

text \<open>The test of the loop and what follows up to its wait; \<open>ok\<close> says that neither \<open>prepareFor\<close> nor the spawn threw.\<close>

definition loop_turn :: "nat \<Rightarrow> int \<Rightarrow> int \<Rightarrow> bool \<Rightarrow> supervisor \<Rightarrow> supervisor" where
  "loop_turn u wait now ok s =
     (if \<not> (un_wanted (sv_obj s u) \<and> \<not> sv_leaving s) then loop_over u s
      else if \<not> ok then loop_threw u s
      else
        let c = sv_spawned s;
            s1 = s\<lparr>sv_proc := (sv_proc s)(c := \<lparr>pr_unit = u, pr_code = None\<rparr>), sv_spawned := c + 1\<rparr>;
            s2 = took u c s1
        in say (Started u c) (at_unit u (\<lambda>x. x\<lparr>un_loop := Running c now wait\<rparr>) s2))"

definition loop_begin :: "nat \<Rightarrow> int \<Rightarrow> bool \<Rightarrow> supervisor \<Rightarrow> supervisor" where
  "loop_begin u now ok s =
     (let x = sv_obj s u in
      if un_loop x = Resting \<and> un_done x < un_made x \<and> \<not> un_failed x
      then loop_turn u (minMs (sv_backoff s)) now ok s else s)"

definition loop_exit :: "nat \<Rightarrow> int \<Rightarrow> supervisor \<Rightarrow> supervisor" where
  "loop_exit u now s =
     (case un_loop (sv_obj s u) of
        Running c startedAt wait \<Rightarrow>
          if \<not> exited s c then s
          else
            let s1 = at_unit u (\<lambda>x. x\<lparr>un_child := None\<rparr>) s in
            if \<not> un_wanted (sv_obj s u) \<or> sv_leaving s then loop_over u (say (Ended_child u) s1)
            else
              let wait' = (if now - startedAt \<ge> steadyMs (sv_backoff s) then minMs (sv_backoff s) else wait)
              in say (Restarting u wait') (at_unit u (\<lambda>x. x\<lparr>un_loop := Pausing wait' False\<rparr>) s1)
      | _ \<Rightarrow> s)"

definition pause_fires :: "nat \<Rightarrow> supervisor \<Rightarrow> supervisor" where
  "pause_fires u = at_unit u cut_short"

definition loop_resume :: "nat \<Rightarrow> int \<Rightarrow> bool \<Rightarrow> supervisor \<Rightarrow> supervisor" where
  "loop_resume u now ok s =
     (case un_loop (sv_obj s u) of
        Pausing wait True \<Rightarrow> loop_turn u (min (wait * 2) (maxMs (sv_backoff s))) now ok s
      | _ \<Rightarrow> s)"

definition child_exits :: "nat \<Rightarrow> int \<Rightarrow> supervisor \<Rightarrow> supervisor" where
  "child_exits c code s =
     (if c < sv_spawned s \<and> \<not> exited s c
      then s\<lparr>sv_proc := (sv_proc s)(c := (sv_proc s c)\<lparr>pr_code := Some code\<rparr>)\<rparr> else s)"

section \<open>Starting one\<close>

text \<open>\<open>unit.next()\<close>\<close>

definition next_child :: "nat \<Rightarrow> nat \<Rightarrow> supervisor \<Rightarrow> supervisor" where
  "next_child i u s =
     (case un_child (sv_obj s u) of
        Some c \<Rightarrow> sv_await i (Serving u c) s
      | None \<Rightarrow> sv_await i (Next u) (at_unit u (\<lambda>x. x\<lparr>un_waiting := un_waiting x @ [i]\<rparr>) s))"

definition startOne :: "nat \<Rightarrow> string \<Rightarrow> supervisor \<Rightarrow> supervisor" where
  "startOne i dir s =
     (case map_of (sv_units s) dir of
        None \<Rightarrow> answer i (Refused Not_found) s
      | Some u \<Rightarrow>
          if un_child (sv_obj s u) \<noteq> None then answer i (Refused File_exists) s
          else if sv_leaving s then answer i (Refused Instance_unreachable) s
          else next_child i u (keep_up u (at_unit u (\<lambda>x. x\<lparr>un_wanted := True\<rparr>) s)))"

text \<open>
  \<open>#serving\<close> races the socket against the exit of the child: the exit, the socket with what
  \<open>rowFor\<close> then says, and the deadline of the wait for the socket.
\<close>

definition serving_exited :: "nat \<Rightarrow> supervisor \<Rightarrow> supervisor" where
  "serving_exited i s =
     (case sv_call s i of
        Some (Serving u c) \<Rightarrow> if exited s c then answer i (or_failed s u) s else s
      | _ \<Rightarrow> s)"

definition serving_seen :: "nat \<Rightarrow> bool \<Rightarrow> supervisor \<Rightarrow> supervisor" where
  "serving_seen i running s =
     (case sv_call s i of
        Some (Serving u c) \<Rightarrow> if running then sv_await i (Stating u) s else answer i (or_failed s u) s
      | _ \<Rightarrow> s)"

definition serving_late :: "nat \<Rightarrow> supervisor \<Rightarrow> supervisor" where
  "serving_late i s =
     (case sv_call s i of
        Some (Serving u c) \<Rightarrow> answer i (Refused Internal_error) s
      | _ \<Rightarrow> s)"

definition stated :: "nat \<Rightarrow> string option \<Rightarrow> supervisor \<Rightarrow> supervisor" where
  "stated i row s =
     (case sv_call s i of
        Some (Stating u) \<Rightarrow> answer i (case row of None \<Rightarrow> Thrown | Some r \<Rightarrow> Row r) s
      | _ \<Rightarrow> s)"

section \<open>Stopping one\<close>

definition stopChild :: "nat \<Rightarrow> nat \<Rightarrow> nat \<Rightarrow> stop_for \<Rightarrow> supervisor \<Rightarrow> supervisor" where
  "stopChild i u c why s = sv_await i (Stopping u c Asked why) (say (Stage c Asked) s)"

definition stopOne :: "nat \<Rightarrow> string \<Rightarrow> stop_for \<Rightarrow> supervisor \<Rightarrow> supervisor" where
  "stopOne i dir why s =
     (case map_of (sv_units s) dir of
        None \<Rightarrow> answer i (Refused Not_found) s
      | Some u \<Rightarrow>
          (case un_child (sv_obj s u) of
             None \<Rightarrow> answer i (Refused Instance_unreachable) s
           | Some c \<Rightarrow> stopChild i u c why (cancel_waits (at_unit u (\<lambda>x. x\<lparr>un_wanted := False\<rparr>) s))))"

text \<open>The child has gone; what waited for that goes on, a request or a restart with \<open>await unit.loop\<close>.\<close>

definition stop_exited :: "nat \<Rightarrow> supervisor \<Rightarrow> supervisor" where
  "stop_exited i s =
     (case sv_call s i of
        Some (Stopping u c stage why) \<Rightarrow>
          if \<not> exited s c then s
          else
            let s' = say (Exited c) s in
            if why = For_departure then answer i (Stopped (un_dir (sv_obj s u))) s'
            else sv_await i (Joining u (un_made (sv_obj s u)) why) s'
      | _ \<Rightarrow> s)"

text \<open>A stage that took its whole time, or whose request was refused.\<close>

definition stop_late :: "nat \<Rightarrow> supervisor \<Rightarrow> supervisor" where
  "stop_late i s =
     (case sv_call s i of
        Some (Stopping u c Asked why) \<Rightarrow>
          (sv_await i (Stopping u c Termed why) (say (Stage c Termed) s))\<lparr>sv_signals := sv_signals s @ [(c, SIGTERM)]\<rparr>
      | Some (Stopping u c Termed why) \<Rightarrow>
          (sv_await i (Stopping u c Killed why) (say (Stage c Killed) s))\<lparr>sv_signals := sv_signals s @ [(c, SIGKILL)]\<rparr>
      | _ \<Rightarrow> s)"

definition joined :: "nat \<Rightarrow> supervisor \<Rightarrow> supervisor" where
  "joined i s =
     (case sv_call s i of
        Some (Joining u n why) \<Rightarrow>
          if n \<le> un_done (sv_obj s u) then
            (case why of
               For_restart dir \<Rightarrow> sv_await i (Going dir) s
             | _ \<Rightarrow> answer i (Stopped (un_dir (sv_obj s u))) s)
          else if un_failed (sv_obj s u) then answer i Thrown s
          else s
      | _ \<Rightarrow> s)"

definition restartOne :: "nat \<Rightarrow> string \<Rightarrow> supervisor \<Rightarrow> supervisor" where
  "restartOne i dir s =
     (case map_of (sv_units s) dir of
        None \<Rightarrow> answer i (Refused Not_found) s
      | Some u \<Rightarrow> if un_child (sv_obj s u) \<noteq> None then stopOne i dir (For_restart dir) s else startOne i dir s)"

text \<open>\<open>awaitGone\<close> answers, or gives up.\<close>

definition gone :: "nat \<Rightarrow> bool \<Rightarrow> supervisor \<Rightarrow> supervisor" where
  "gone i free s =
     (case sv_call s i of
        Some (Going dir) \<Rightarrow> if free then startOne i dir s else answer i (Refused Internal_error) s
      | _ \<Rightarrow> s)"

section \<open>The list of units\<close>

definition take_on :: "string \<Rightarrow> supervisor \<Rightarrow> supervisor" where
  "take_on dir s =
     s\<lparr>sv_units := map_set dir (sv_made s) (sv_units s), sv_obj := (sv_obj s)(sv_made s := Supervised dir), sv_made := sv_made s + 1\<rparr>"

definition addOne :: "nat \<Rightarrow> string \<Rightarrow> supervisor \<Rightarrow> supervisor" where
  "addOne i home s =
     (case sv_call s i of
        Some Adding \<Rightarrow>
          if map_of (sv_units s) home \<noteq> None then answer i (Refused File_exists) s
          else startOne i home (take_on home s)
      | _ \<Rightarrow> s)"

definition removeOne :: "nat \<Rightarrow> string \<Rightarrow> supervisor \<Rightarrow> supervisor" where
  "removeOne i dir s =
     (case map_of (sv_units s) dir of
        None \<Rightarrow> answer i (Refused Not_found) s
      | Some u \<Rightarrow>
          let s1 = cancel_waits (at_unit u (\<lambda>x. x\<lparr>un_wanted := False\<rparr>) s)
          in answer i (Removed dir) (say (Released u) (s1\<lparr>sv_units := map_del dir (sv_units s1)\<rparr>)))"

section \<open>Requests\<close>

datatype sv_op = Op_start | Op_stop | Op_restart | Op_status | Op_add | Op_remove | Op_other

record sv_request =
  rq_op :: sv_op
  rq_dir :: "string option"
  rq_all :: bool

definition run_op :: "sv_op \<Rightarrow> nat \<Rightarrow> nat \<Rightarrow> supervisor \<Rightarrow> supervisor" where
  "run_op op i u s =
     (let dir = un_dir (sv_obj s u) in
      case op of
        Op_start \<Rightarrow> startOne i dir s
      | Op_stop \<Rightarrow> stopOne i dir For_request s
      | Op_restart \<Rightarrow> restartOne i dir s
      | _ \<Rightarrow> sv_await i (Stating u) s)"

text \<open>A number for one more call.\<close>

definition sv_fresh :: "supervisor \<Rightarrow> supervisor" where
  "sv_fresh s = s\<lparr>sv_asked := sv_asked s + 1\<rparr>"

text \<open>\<open>units.map((unit) => op(unit))\<close>: each op runs up to its first wait before the next begins.\<close>

fun run_each :: "sv_op \<Rightarrow> nat list \<Rightarrow> supervisor \<Rightarrow> supervisor \<times> (string \<times> nat) list" where
  "run_each op [] s = (s, [])"
| "run_each op (u # us) s =
     (let i = sv_asked s; (s', subs) = run_each op us (run_op op i u (sv_fresh s)) in (s', (un_dir (sv_obj s u), i) # subs))"

definition over_all :: "bool \<Rightarrow> sv_op \<Rightarrow> nat \<Rightarrow> supervisor \<Rightarrow> supervisor" where
  "over_all kept op i s = (let (s', subs) = run_each op (map snd (sv_units s)) s in sv_await i (Collecting kept subs) s')"

definition over :: "sv_request \<Rightarrow> nat \<Rightarrow> supervisor \<Rightarrow> supervisor" where
  "over rq i s =
     (if rq_all rq then over_all False (rq_op rq) i s
      else case rq_dir rq of
        None \<Rightarrow> answer i (Refused Invalid_args) s
      | Some dir \<Rightarrow>
          (case map_of (sv_units s) dir of
             None \<Rightarrow> answer i (Refused Not_found) s
           | Some u \<Rightarrow> run_op (rq_op rq) i u s))"

fun is_thrown :: "sv_answer \<Rightarrow> bool" where
  "is_thrown Thrown \<longleftrightarrow> True"
| "is_thrown _ \<longleftrightarrow> False"

text \<open>\<open>Promise.allSettled\<close>: a row per unit, unless one of them threw what is not a \<open>CommandError\<close>.\<close>

definition collected :: "nat \<Rightarrow> supervisor \<Rightarrow> supervisor" where
  "collected i s =
     (case sv_call s i of
        Some (Collecting kept subs) \<Rightarrow>
          let rows = map (\<lambda>(dir, j). (dir, sv_answer s j)) subs in
          if list_ex (\<lambda>(dir, a). a = None) rows then s
          else
            let got = map (\<lambda>(dir, a). (dir, the a)) rows;
                a = (if list_ex (\<lambda>(dir, a). is_thrown a) got then Thrown else Many got)
            in answer i (if kept \<and> a \<noteq> Thrown then Kept a else a) s
      | _ \<Rightarrow> s)"

definition replaced :: "nat \<Rightarrow> bool \<Rightarrow> supervisor \<Rightarrow> supervisor" where
  "replaced i held s =
     (case sv_call s i of
        Some (Replacing dirs) \<Rightarrow>
          if held then answer i (Replaced dirs) (s\<lparr>sv_timers := sv_timers s + 1\<rparr>)
          else over_all True Op_restart i s
      | _ \<Rightarrow> s)"

definition handle :: "sv_request \<Rightarrow> supervisor \<Rightarrow> supervisor" where
  "handle rq s0 =
     (let i = sv_asked s0; s = sv_fresh s0 in
      case rq_op rq of
        Op_restart \<Rightarrow>
          if rq_all rq then sv_await i (Replacing (map (\<lambda>(k, u). un_dir (sv_obj s u)) (sv_units s))) s else over rq i s
      | Op_add \<Rightarrow> (case rq_dir rq of None \<Rightarrow> answer i (Refused Invalid_args) s | Some dir \<Rightarrow> sv_await i Adding s)
      | Op_remove \<Rightarrow> (case rq_dir rq of None \<Rightarrow> answer i (Refused Invalid_args) s | Some dir \<Rightarrow> removeOne i dir s)
      | Op_other \<Rightarrow> answer i (Refused Unknown_op) s
      | _ \<Rightarrow> over rq i s)"

section \<open>The run and the departure\<close>

definition adopted :: "string list \<Rightarrow> supervisor \<Rightarrow> supervisor" where
  "adopted dirs s =
     (if sv_phase s = Adopting then (fold take_on dirs s)\<lparr>sv_phase := Binding, sv_listening := True\<rparr> else s)"

definition served :: "supervisor \<Rightarrow> supervisor" where
  "served s = (if sv_phase s = Binding then (fold (\<lambda>(dir, u). keep_up u) (sv_units s) s)\<lparr>sv_phase := Up\<rparr> else s)"

definition sv_seen :: "supervisor \<Rightarrow> supervisor" where
  "sv_seen s =
     (if sv_phase s = Left_called then s\<lparr>sv_phase := Seeing (map (\<lambda>(dir, u). (u, un_made (sv_obj s u))) (sv_units s))\<rparr> else s)"

definition run_over :: "supervisor \<Rightarrow> supervisor" where
  "run_over s =
     (case sv_phase s of
        Seeing loops \<Rightarrow>
          if list_all (\<lambda>(u, n). n \<le> un_done (sv_obj s u) \<or> un_failed (sv_obj s u)) loops then s\<lparr>sv_phase := Ended\<rparr> else s
      | _ \<Rightarrow> s)"

fun stop_each :: "nat list \<Rightarrow> supervisor \<Rightarrow> supervisor \<times> nat list" where
  "stop_each [] s = (s, [])"
| "stop_each (u # us) s =
     (case un_child (sv_obj s u) of
        None \<Rightarrow> stop_each us s
      | Some c \<Rightarrow>
          let i = sv_asked s; (s', subs) = stop_each us (stopChild i u c For_departure (sv_fresh s)) in (s', i # subs))"

definition stop :: "supervisor \<Rightarrow> supervisor" where
  "stop s0 =
     (let i = sv_asked s0;
          s = cancel_waits ((sv_fresh s0)\<lparr>sv_leaving := True\<rparr>);
          (s', subs) = stop_each (map snd (sv_units s)) s
      in sv_await i (Leaving subs) s')"

text \<open>\<open>#left\<close> is there to be called only once \<open>#serve\<close> has reached its wait.\<close>

definition departed :: "nat \<Rightarrow> supervisor \<Rightarrow> supervisor" where
  "departed i s =
     (case sv_call s i of
        Some (Leaving subs) \<Rightarrow>
          if list_ex (\<lambda>j. sv_answer s j = None) subs then s
          else answer i Departed (s\<lparr>sv_listening := False, sv_phase := (if sv_phase s = Up then Left_called else sv_phase s)\<rparr>)
      | _ \<Rightarrow> s)"

definition timer_stop :: "supervisor \<Rightarrow> supervisor" where
  "timer_stop s = (if 0 < sv_timers s then stop (s\<lparr>sv_timers := sv_timers s - 1\<rparr>) else s)"

section \<open>Runs\<close>

text \<open>
  A request arrives over the control socket, so none does before the list was read and the socket
  bound, and none once the departure has given it up; a signal arrives at any moment.
\<close>

datatype sv_event =
    Adopt "string list" | Serve | See | Run_over
  | Begin nat int bool | Exit_seen nat int | Fire nat | Resume nat int bool | Child_exits nat int
  | Request sv_request | Signal | Timer
  | Serving_exited nat | Serving_seen nat bool | Serving_late nat | Is_stated nat "string option"
  | Stop_exited nat | Stop_late nat | Is_joined nat | Is_gone nat bool | Harness nat string
  | Collect nat | Replace nat bool | Depart nat

fun sv_step :: "supervisor \<Rightarrow> sv_event \<Rightarrow> supervisor" where
  "sv_step s (Adopt dirs) = adopted dirs s"
| "sv_step s Serve = served s"
| "sv_step s See = sv_seen s"
| "sv_step s Run_over = run_over s"
| "sv_step s (Begin u now ok) = loop_begin u now ok s"
| "sv_step s (Exit_seen u now) = loop_exit u now s"
| "sv_step s (Fire u) = pause_fires u s"
| "sv_step s (Resume u now ok) = loop_resume u now ok s"
| "sv_step s (Child_exits c code) = child_exits c code s"
| "sv_step s (Request rq) = (if sv_listening s then handle rq s else s)"
| "sv_step s Signal = stop s"
| "sv_step s Timer = timer_stop s"
| "sv_step s (Serving_exited i) = serving_exited i s"
| "sv_step s (Serving_seen i running) = serving_seen i running s"
| "sv_step s (Serving_late i) = serving_late i s"
| "sv_step s (Is_stated i row) = stated i row s"
| "sv_step s (Stop_exited i) = stop_exited i s"
| "sv_step s (Stop_late i) = stop_late i s"
| "sv_step s (Is_joined i) = joined i s"
| "sv_step s (Is_gone i free) = gone i free s"
| "sv_step s (Harness i home) = addOne i home s"
| "sv_step s (Collect i) = collected i s"
| "sv_step s (Replace i held) = replaced i held s"
| "sv_step s (Depart i) = departed i s"

definition sv_run :: "backoff \<Rightarrow> sv_event list \<Rightarrow> supervisor" where
  "sv_run b evs = foldl sv_step (Supervisor b) evs"

end
