(* ===== verification/SuperviseFacts.thy ===== *)
theory SuperviseFacts
  imports Supervise
begin

text \<open>
  What holds of the supervisor over any interleaving of its loops, its requests and its departure:
  one child per object and none that its loop does not wait for, no start left waiting, pauses within
  the bounds of the backoff, and a departure that leaves no child running but those of removed units.
\<close>

section \<open>Closed forms\<close>

lemma fold_await: "fold (\<lambda>i. sv_await i c) is s = s\<lparr>sv_call := (\<lambda>i. if i \<in> set is then Some c else sv_call s i)\<rparr>"
  by (induction "is" arbitrary: s) (auto simp: sv_await_def fun_eq_iff)

lemma fold_answer:
  "fold (\<lambda>i. answer i a) is s =
     s\<lparr>sv_call := (\<lambda>i. if i \<in> set is then None else sv_call s i),
       sv_answer := (\<lambda>i. if i \<in> set is then Some a else sv_answer s i)\<rparr>"
  by (induction "is" arbitrary: s) (auto simp: answer_def fun_eq_iff)

lemma took_eq:
  "took u c s =
     s\<lparr>sv_obj := (sv_obj s)(u := (sv_obj s u)\<lparr>un_child := Some c, un_waiting := []\<rparr>),
       sv_call := (\<lambda>i. if i \<in> set (un_waiting (sv_obj s u)) then Some (Serving u c) else sv_call s i)\<rparr>"
  by (simp add: took_def at_unit_def fold_await Let_def cong: if_cong)

lemma abandoned_eq:
  "abandoned u a s =
     s\<lparr>sv_obj := (sv_obj s)(u := (sv_obj s u)\<lparr>un_waiting := []\<rparr>),
       sv_call := (\<lambda>i. if i \<in> set (un_waiting (sv_obj s u)) then None else sv_call s i),
       sv_answer := (\<lambda>i. if i \<in> set (un_waiting (sv_obj s u)) then Some a else sv_answer s i)\<rparr>"
  by (simp add: abandoned_def at_unit_def fold_answer cong: if_cong)

lemmas small = at_unit_def say_def sv_await_def answer_def keep_up_def cancel_waits_def sv_fresh_def stopChild_def
lemmas loop_defs = loop_turn_def loop_over_def loop_threw_def took_eq abandoned_eq small

lemma cut_short_simps [simp]:
  "un_dir (cut_short x) = un_dir x" "un_child (cut_short x) = un_child x" "un_wanted (cut_short x) = un_wanted x"
  "un_waiting (cut_short x) = un_waiting x" "un_made (cut_short x) = un_made x" "un_done (cut_short x) = un_done x"
  "un_failed (cut_short x) = un_failed x" "un_loop (cut_short x) = Running c t w \<longleftrightarrow> un_loop x = Running c t w"
  "un_loop (cut_short x) = Resting \<longleftrightarrow> un_loop x = Resting"
  "(\<exists>b. un_loop (cut_short x) = Pausing w' b) \<longleftrightarrow> (\<exists>b. un_loop x = Pausing w' b)"
  by (auto simp: cut_short_def split: restart_loop.splits)

lemma cut_short_fresh [simp]: "cut_short (Supervised d) = Supervised d"
  by (simp add: cut_short_def Supervised_def)

section \<open>Loops and children\<close>

definition unit_ok :: "supervisor \<Rightarrow> nat \<Rightarrow> bool" where
  "unit_ok s u \<longleftrightarrow>
     (let x = sv_obj s u in
      un_done x \<le> un_made x
      \<and> (un_loop x \<noteq> Resting \<longrightarrow> un_done x < un_made x)
      \<and> (\<forall>c. un_child x = Some c \<longleftrightarrow> (\<exists>t w. un_loop x = Running c t w))
      \<and> (\<forall>c. un_child x = Some c \<longrightarrow> c < sv_spawned s \<and> pr_unit (sv_proc s c) = u)
      \<and> (un_waiting x \<noteq> [] \<longrightarrow> un_child x = None \<and> (un_failed x \<or> un_done x < un_made x))
      \<and> (un_failed x \<longrightarrow> un_loop x = Resting \<and> un_done x < un_made x)
      \<and> (sv_made s \<le> u \<longrightarrow> x = Supervised []))"

definition procs_ok :: "supervisor \<Rightarrow> bool" where
  "procs_ok s \<longleftrightarrow> (\<forall>c < sv_spawned s. \<not> exited s c \<longrightarrow> un_child (sv_obj s (pr_unit (sv_proc s c))) = Some c)"

definition units_ok :: "supervisor \<Rightarrow> bool" where
  "units_ok s \<longleftrightarrow> map_wf (sv_units s) \<and> (\<forall>dir u. map_of (sv_units s) dir = Some u \<longrightarrow> u < sv_made s \<and> un_dir (sv_obj s u) = dir)"

definition loops_ok :: "supervisor \<Rightarrow> bool" where
  "loops_ok s \<longleftrightarrow> (\<forall>u. unit_ok s u) \<and> procs_ok s \<and> units_ok s"

lemma loops_okI: "(\<And>u. unit_ok s u) \<Longrightarrow> procs_ok s \<Longrightarrow> units_ok s \<Longrightarrow> loops_ok s"
  by (simp add: loops_ok_def)

lemma loops_cong:
  "sv_obj s' = sv_obj s \<Longrightarrow> sv_proc s' = sv_proc s \<Longrightarrow> sv_spawned s' = sv_spawned s \<Longrightarrow> sv_made s' = sv_made s
   \<Longrightarrow> sv_units s' = sv_units s \<Longrightarrow> loops_ok s' = loops_ok s"
  by (simp add: loops_ok_def unit_ok_def procs_ok_def units_ok_def exited_def)

lemma loops_same [simp]:
  "loops_ok (answer i a s) = loops_ok s" "loops_ok (sv_await i c s) = loops_ok s" "loops_ok (say l s) = loops_ok s"
  "loops_ok (sv_fresh s) = loops_ok s" "loops_ok (s\<lparr>sv_timers := n\<rparr>) = loops_ok s" "loops_ok (s\<lparr>sv_signals := g\<rparr>) = loops_ok s"
  "loops_ok (s\<lparr>sv_phase := p\<rparr>) = loops_ok s" "loops_ok (s\<lparr>sv_listening := b\<rparr>) = loops_ok s" "loops_ok (s\<lparr>sv_leaving := b\<rparr>) = loops_ok s"
  by (rule loops_cong; simp add: answer_def sv_await_def say_def sv_fresh_def)+

text \<open>A step on one unit that keeps its child and its directory.\<close>

lemma loops_at:
  assumes "loops_ok s" "sv_obj s' = (sv_obj s)(u := x)" "sv_proc s' = sv_proc s" "sv_spawned s' = sv_spawned s"
    "sv_made s' = sv_made s" "sv_units s' = sv_units s" "un_dir x = un_dir (sv_obj s u)"
    and ok: "unit_ok s' u"
    and child: "un_child x = un_child (sv_obj s u) \<or> (\<exists>c. un_child (sv_obj s u) = Some c \<and> exited s c)"
  shows "loops_ok s'"
proof (rule loops_okI)
  fix v show "unit_ok s' v" using assms by (cases "v = u") (auto simp: loops_ok_def unit_ok_def)
  show "procs_ok s'" using assms by (auto simp: loops_ok_def procs_ok_def exited_def)
  show "units_ok s'" using assms by (auto simp: loops_ok_def units_ok_def)
qed

lemma loops_cut: "loops_ok s \<Longrightarrow> loops_ok (cancel_waits s)"
proof (rule loops_okI)
  assume s: "loops_ok s"
  fix u show "unit_ok (cancel_waits s) u" using s by (auto simp: loops_ok_def unit_ok_def small Let_def)
qed (auto simp: loops_ok_def procs_ok_def units_ok_def small exited_def)

lemma loop_over_fields [simp]:
  "sv_obj (loop_over u s) = (sv_obj s)(u := (sv_obj s u)\<lparr>un_waiting := [], un_loop := Resting, un_done := un_done (sv_obj s u) + 1\<rparr>)"
  "sv_obj (loop_threw u s) = (sv_obj s)(u := (sv_obj s u)\<lparr>un_waiting := [], un_loop := Resting, un_failed := True\<rparr>)"
  "sv_proc (loop_over u s) = sv_proc s" "sv_proc (loop_threw u s) = sv_proc s"
  "sv_spawned (loop_over u s) = sv_spawned s" "sv_spawned (loop_threw u s) = sv_spawned s"
  "sv_made (loop_over u s) = sv_made s" "sv_made (loop_threw u s) = sv_made s"
  "sv_units (loop_over u s) = sv_units s" "sv_units (loop_threw u s) = sv_units s"
  "sv_leaving (loop_over u s) = sv_leaving s" "sv_leaving (loop_threw u s) = sv_leaving s"
  "sv_backoff (loop_over u s) = sv_backoff s" "sv_backoff (loop_threw u s) = sv_backoff s"
  "sv_asked (loop_over u s) = sv_asked s" "sv_asked (loop_threw u s) = sv_asked s"
  "sv_log (loop_over u s) = sv_log s" "sv_log (loop_threw u s) = sv_log s"
  by (simp_all add: loop_over_def loop_threw_def abandoned_eq small)

lemma loop_spawn_fields:
  assumes "un_wanted (sv_obj s u)" "\<not> sv_leaving s"
  shows "sv_obj (loop_turn u wait now True s)
      = (sv_obj s)(u := (sv_obj s u)\<lparr>un_child := Some (sv_spawned s), un_waiting := [], un_loop := Running (sv_spawned s) now wait\<rparr>)"
    "sv_proc (loop_turn u wait now True s) = (sv_proc s)(sv_spawned s := \<lparr>pr_unit = u, pr_code = None\<rparr>)"
    "sv_spawned (loop_turn u wait now True s) = sv_spawned s + 1"
    "sv_made (loop_turn u wait now True s) = sv_made s"
    "sv_units (loop_turn u wait now True s) = sv_units s"
    "sv_call (loop_turn u wait now True s) = (\<lambda>i. if i \<in> set (un_waiting (sv_obj s u)) then Some (Serving u (sv_spawned s)) else sv_call s i)"
    "sv_answer (loop_turn u wait now True s) = sv_answer s"
    "sv_log (loop_turn u wait now True s) = sv_log s @ [Started u (sv_spawned s)]"
  using assms by (simp_all add: loop_turn_def took_eq small Let_def cong: if_cong)

lemma loops_over:
  assumes s: "loops_ok s" "un_done (sv_obj s u) < un_made (sv_obj s u)" "\<not> un_failed (sv_obj s u)" "un_child (sv_obj s u) = None"
  shows "loops_ok (loop_over u s)" "loops_ok (loop_threw u s)"
proof -
  have "unit_ok s u" using s(1) by (simp add: loops_ok_def)
  then have *: "unit_ok (loop_over u s) u" "unit_ok (loop_threw u s) u"
    using s(2-4) by (auto simp: unit_ok_def Let_def Supervised_def)
  show "loops_ok (loop_over u s)" by (rule loops_at [OF s(1) loop_over_fields(1)]) (simp_all add: *)
  show "loops_ok (loop_threw u s)" by (rule loops_at [OF s(1) loop_over_fields(2)]) (simp_all add: *)
qed

lemma loops_turn:
  assumes s: "loops_ok s" "un_done (sv_obj s u) < un_made (sv_obj s u)" "\<not> un_failed (sv_obj s u)" "un_child (sv_obj s u) = None"
  shows "loops_ok (loop_turn u wait now ok s)"
proof (cases "un_wanted (sv_obj s u) \<and> \<not> sv_leaving s \<and> ok")
  case True
  have no: "un_child (sv_obj s v) \<noteq> Some (sv_spawned s)" for v using s(1) unfolding loops_ok_def unit_ok_def Let_def by (metis less_irrefl)
  have w: "un_wanted (sv_obj s u)" "\<not> sv_leaving s" "ok = True" using True by auto
  note f = loop_spawn_fields [OF w(1,2), of wait now]
  have ok: "unit_ok s v" for v using s(1) by (simp add: loops_ok_def)
  have made: "u < sv_made s" using ok [of u] s(2) by (force simp: unit_ok_def Let_def Supervised_def not_less)
  show ?thesis unfolding w(3)
  proof (rule loops_okI)
    fix v
    have "unit_ok (loop_turn u wait now True s) u"
      using ok [of u] s(2,3) made unfolding unit_ok_def Let_def f by auto
    moreover have "unit_ok (loop_turn u wait now True s) v" if "v \<noteq> u"
      using ok [of v] that no [of v] unfolding unit_ok_def Let_def f by (auto simp: less_Suc_eq)
    ultimately show "unit_ok (loop_turn u wait now True s) v" by blast
    have "procs_ok s" using s(1) by (simp add: loops_ok_def)
    then show "procs_ok (loop_turn u wait now True s)"
      using s(4) unfolding procs_ok_def exited_def f by (auto simp: less_Suc_eq)
    have "units_ok s" using s(1) by (simp add: loops_ok_def)
    then show "units_ok (loop_turn u wait now True s)"
      unfolding units_ok_def f by auto
  qed
next
  case False
  then show ?thesis using loops_over [OF s] by (auto simp: loop_turn_def)
qed


lemma loops_unit: "loops_ok s \<Longrightarrow> unit_ok s u" by (simp add: loops_ok_def)

lemma unit_okD:
  assumes "unit_ok s u"
  shows "un_loop (sv_obj s u) \<noteq> Resting \<Longrightarrow> un_done (sv_obj s u) < un_made (sv_obj s u)"
    "un_loop (sv_obj s u) \<noteq> Resting \<Longrightarrow> \<not> un_failed (sv_obj s u)"
    "un_loop (sv_obj s u) = Resting \<Longrightarrow> un_child (sv_obj s u) = None"
    "un_loop (sv_obj s u) = Pausing p b \<Longrightarrow> un_child (sv_obj s u) = None"
    "un_loop (sv_obj s u) = Running c t w \<Longrightarrow> un_child (sv_obj s u) = Some c"
    "un_child (sv_obj s u) = Some c \<Longrightarrow> c < sv_spawned s \<and> pr_unit (sv_proc s c) = u"
    "un_waiting (sv_obj s u) \<noteq> [] \<Longrightarrow> un_child (sv_obj s u) = None \<and> (un_failed (sv_obj s u) \<or> un_done (sv_obj s u) < un_made (sv_obj s u))"
    "sv_made s \<le> u \<Longrightarrow> sv_obj s u = Supervised []"
proof -
  note d = assms [unfolded unit_ok_def Let_def]
  show "un_loop (sv_obj s u) \<noteq> Resting \<Longrightarrow> un_done (sv_obj s u) < un_made (sv_obj s u)"
    "un_loop (sv_obj s u) \<noteq> Resting \<Longrightarrow> \<not> un_failed (sv_obj s u)" using d by blast+
  show "un_loop (sv_obj s u) = Resting \<Longrightarrow> un_child (sv_obj s u) = None"
    "un_loop (sv_obj s u) = Pausing p b \<Longrightarrow> un_child (sv_obj s u) = None"
    using d by (metis not_None_eq restart_loop.distinct)+
qed (use assms in \<open>auto simp: unit_ok_def Let_def\<close>)

lemma loops_begin: "loops_ok s \<Longrightarrow> loops_ok (loop_begin u now ok s)"
  using loops_turn unit_okD(3) [OF loops_unit] by (simp add: loop_begin_def Let_def)

lemma loops_resume: "loops_ok s \<Longrightarrow> loops_ok (loop_resume u now ok s)"
  using loops_turn unit_okD(1,2,4) [OF loops_unit] by (auto simp: loop_resume_def split: restart_loop.splits bool.splits)

lemma loops_child_gone:
  assumes s: "loops_ok s" and r: "un_loop (sv_obj s u) = Running c t w" and e: "exited s c"
    and x: "x = (sv_obj s u)\<lparr>un_child := None, un_loop := l\<rparr>" "l = Resting \<or> l = Pausing p b"
  shows "loops_ok (s\<lparr>sv_obj := (sv_obj s)(u := x)\<rparr>)"
proof -
  have u: "unit_ok s u" by (rule loops_unit [OF s])
  have c: "un_child (sv_obj s u) = Some c" "un_done (sv_obj s u) < un_made (sv_obj s u)" "\<not> un_failed (sv_obj s u)"
    using unit_okD(1,2,5) [OF u] r by simp_all
  then have "un_waiting (sv_obj s u) = []" using unit_okD(7) [OF u] by fastforce
  moreover have "\<not> sv_made s \<le> u" using unit_okD(8) [OF u] c(1) by (auto simp: Supervised_def)
  ultimately have "unit_ok (s\<lparr>sv_obj := (sv_obj s)(u := x)\<rparr>) u"
    using c x(2) by (auto simp: x(1) unit_ok_def Let_def)
  then show ?thesis using c(1) e by (intro loops_at [OF s, of _ u x]) (auto simp: x(1))
qed

lemma loops_exit: assumes s: "loops_ok s" shows "loops_ok (loop_exit u now s)"
proof (cases "\<exists>c t w. un_loop (sv_obj s u) = Running c t w \<and> exited s c")
  case True
  then obtain c t w where r: "un_loop (sv_obj s u) = Running c t w" "exited s c" by blast
  define l where "l = Pausing (if now - t \<ge> steadyMs (sv_backoff s) then minMs (sv_backoff s) else w) False"
  have live: "un_done (sv_obj s u) < un_made (sv_obj s u)" "\<not> un_failed (sv_obj s u)"
    using unit_okD(1,2) [OF loops_unit [OF s]] r(1) by simp_all
  let ?r = "s\<lparr>sv_obj := (sv_obj s)(u := (sv_obj s u)\<lparr>un_child := None, un_loop := Resting\<rparr>)\<rparr>"
  have "loops_ok ?r" by (rule loops_child_gone [OF s r refl]) simp
  then have "loops_ok (loop_over u ?r)" using live by (intro loops_over) simp_all
  then have "loops_ok (loop_over u (say (Ended_child u) (at_unit u (\<lambda>x. x\<lparr>un_child := None\<rparr>) s)))"
    by (rule iffD1 [OF loops_cong, rotated -1]) (simp_all add: small)
  moreover have "loops_ok (s\<lparr>sv_obj := (sv_obj s)(u := (sv_obj s u)\<lparr>un_child := None, un_loop := l\<rparr>)\<rparr>)"
    by (rule loops_child_gone [OF s r refl]) (rule disjI2, rule l_def)
  then have "loops_ok (say m (at_unit u (\<lambda>x. x\<lparr>un_loop := l\<rparr>) (at_unit u (\<lambda>x. x\<lparr>un_child := None\<rparr>) s)))" for m
    by (rule iffD1 [OF loops_cong, rotated -1]) (simp_all add: small)
  ultimately show ?thesis using r by (simp add: loop_exit_def Let_def l_def)
qed (auto simp: loop_exit_def s split: restart_loop.splits)

lemma loops_fires: assumes "loops_ok s" shows "loops_ok (pause_fires u s)"
proof (rule loops_at [OF assms, of _ u "cut_short (sv_obj s u)"])
  show "unit_ok (pause_fires u s) u"
    using loops_unit [OF assms, of u] unfolding unit_ok_def Let_def pause_fires_def at_unit_def by auto
qed (simp_all add: pause_fires_def at_unit_def)

lemma loops_child_exits: "loops_ok s \<Longrightarrow> loops_ok (child_exits c code s)"
proof (rule loops_okI)
  assume s: "loops_ok s"
  have p: "sv_obj (child_exits c code s) = sv_obj s" "sv_spawned (child_exits c code s) = sv_spawned s" "sv_made (child_exits c code s) = sv_made s"
    "sv_units (child_exits c code s) = sv_units s" "pr_unit (sv_proc (child_exits c code s) d) = pr_unit (sv_proc s d)"
    "exited s d \<Longrightarrow> exited (child_exits c code s) d" for d
    by (auto simp: child_exits_def exited_def)
  fix u show "unit_ok (child_exits c code s) u" using loops_unit [OF s, of u] unfolding unit_ok_def p .
  show "procs_ok (child_exits c code s)" using s p(6) unfolding loops_ok_def procs_ok_def p by blast
  show "units_ok (child_exits c code s)" using s unfolding loops_ok_def units_ok_def p by blast
qed

lemma loops_unwanted: "loops_ok s \<Longrightarrow> map_of (sv_units s) dir = Some u \<Longrightarrow> loops_ok (at_unit u (\<lambda>x. x\<lparr>un_wanted := b\<rparr>) s)"
proof (rule loops_at [of s _ u "(sv_obj s u)\<lparr>un_wanted := b\<rparr>"])
  assume s: "loops_ok s" "map_of (sv_units s) dir = Some u"
  then have "u < sv_made s" by (auto simp: loops_ok_def units_ok_def)
  then show "unit_ok (at_unit u (\<lambda>x. x\<lparr>un_wanted := b\<rparr>) s) u"
    using loops_unit [OF s(1), of u] unfolding unit_ok_def Let_def at_unit_def by auto
qed (simp_all add: at_unit_def)

lemma loops_start: assumes s: "loops_ok s" shows "loops_ok (startOne i dir s)"
proof (cases "map_of (sv_units s) dir")
  case (Some u)
  have u: "u < sv_made s" using s Some by (auto simp: loops_ok_def units_ok_def)
  let ?x = "(sv_obj s u)\<lparr>un_wanted := True, un_made := un_made (sv_obj s u) + 1, un_waiting := un_waiting (sv_obj s u) @ [i]\<rparr>"
  let ?n = "next_child i u (keep_up u (at_unit u (\<lambda>x. x\<lparr>un_wanted := True\<rparr>) s))"
  have "loops_ok ?n" if c: "un_child (sv_obj s u) = None"
  proof (rule loops_at [OF s, of _ u ?x])
    show "sv_obj ?n = (sv_obj s)(u := ?x)" using c by (simp add: next_child_def small)
    then show "unit_ok ?n u" using loops_unit [OF s, of u] u c unfolding unit_ok_def Let_def by (auto simp: next_child_def small)
  qed (use c in \<open>simp_all add: next_child_def small\<close>)
  then show ?thesis using s by (simp add: startOne_def Some)
next
  case None
  then show ?thesis using s by (simp add: startOne_def)
qed


lemma loops_stop: "loops_ok s \<Longrightarrow> loops_ok (stopOne i dir why s)"
  using loops_cut loops_unwanted by (auto simp: stopOne_def stopChild_def split: option.splits)

lemma loops_restart: "loops_ok s \<Longrightarrow> loops_ok (restartOne i dir s)"
  using loops_start loops_stop by (simp add: restartOne_def split: option.splits)

lemma loops_run_op: "loops_ok s \<Longrightarrow> loops_ok (run_op op i u s)"
  using loops_start loops_stop loops_restart by (simp add: run_op_def Let_def split: sv_op.splits)

lemma loops_run_each: "loops_ok s \<Longrightarrow> loops_ok (fst (run_each op us s))"
  by (induction op us s rule: run_each.induct) (auto simp: Let_def loops_run_op split: prod.splits)

lemma loops_over_all: "loops_ok s \<Longrightarrow> loops_ok (over_all kept op i s)"
  using loops_run_each by (auto simp: over_all_def Let_def split: prod.splits) (metis fst_conv)

lemma loops_take_on: assumes s: "loops_ok s" shows "loops_ok (take_on dir s)"
proof (rule loops_okI)
  have fresh: "sv_obj s (sv_made s) = Supervised []" using unit_okD(8) [OF loops_unit [OF s]] by simp
  fix u show "unit_ok (take_on dir s) u"
    using loops_unit [OF s, of u] unfolding unit_ok_def Let_def take_on_def by (auto simp: Supervised_def)
  have "un_child (sv_obj s (sv_made s)) = None" using fresh by (simp add: Supervised_def)
  then show "procs_ok (take_on dir s)" using s by (fastforce simp: loops_ok_def procs_ok_def take_on_def exited_def)
  have "units_ok s" using s by (simp add: loops_ok_def)
  then have "map_wf (sv_units s)" "map_of (sv_units s) d = Some u \<Longrightarrow> u < sv_made s \<and> un_dir (sv_obj s u) = d" for d u
    by (simp_all add: units_ok_def)
  then show "units_ok (take_on dir s)" by (force simp: units_ok_def take_on_def Supervised_def simp del: map_of_eq_Some_iff)
qed

lemma loops_remove: assumes s: "loops_ok s" shows "loops_ok (removeOne i dir s)"
proof (cases "map_of (sv_units s) dir")
  case (Some u)
  let ?s = "cancel_waits (at_unit u (\<lambda>x. x\<lparr>un_wanted := False\<rparr>) s)"
  have "loops_ok ?s" using loops_cut loops_unwanted [OF s Some] by blast
  then have "loops_ok (?s\<lparr>sv_units := map_del dir (sv_units ?s)\<rparr>)"
    by (auto simp: loops_ok_def unit_ok_def procs_ok_def units_ok_def exited_def)
  then show ?thesis by (simp add: removeOne_def Some Let_def)
qed (simp add: removeOne_def s)

lemma loops_handle: "loops_ok s \<Longrightarrow> loops_ok (handle rq s)"
  using loops_over_all [of "sv_fresh s"] loops_remove [of "sv_fresh s"] loops_run_op [of "sv_fresh s"]
  by (simp add: handle_def over_def Let_def split: sv_op.splits option.splits)

lemma loops_stop_each: "loops_ok s \<Longrightarrow> loops_ok (fst (stop_each us s))"
  by (induction us s rule: stop_each.induct) (auto simp: Let_def stopChild_def case_prod_beta split: option.splits)

lemma loops_departure: "loops_ok s \<Longrightarrow> loops_ok (stop s)"
  using loops_stop_each [OF loops_cut, of "(sv_fresh s)\<lparr>sv_leaving := True\<rparr>"]
  by (auto simp: stop_def Let_def split: prod.splits) (metis fst_conv)

lemma loops_keep_all: "loops_ok s \<Longrightarrow> (\<And>d u. (d, u) \<in> set us \<Longrightarrow> u < sv_made s) \<Longrightarrow> loops_ok (fold (\<lambda>(dir, u). keep_up u) us s)"
proof (induction us arbitrary: s)
  case (Cons e us)
  obtain d u where e: "e = (d, u)" by (cases e)
  have "loops_ok (keep_up u s)"
  proof (rule loops_at [OF Cons.prems(1), of _ u "(sv_obj s u)\<lparr>un_made := un_made (sv_obj s u) + 1\<rparr>"])
    show "unit_ok (keep_up u s) u"
      using loops_unit [OF Cons.prems(1), of u] Cons.prems(2) [of d u] unfolding unit_ok_def Let_def by (auto simp: e small)
  qed (simp_all add: small)
  moreover have "sv_made (keep_up u s) = sv_made s" by (simp add: small)
  ultimately have "loops_ok (fold (\<lambda>(dir, u). keep_up u) us (keep_up u s))"
    using Cons.prems(2) by (intro Cons.IH) (auto simp: e)
  then show ?case by (simp add: e)
qed simp

lemma loops_adopted: "loops_ok s \<Longrightarrow> loops_ok (adopted dirs s)"
proof -
  have "loops_ok s \<Longrightarrow> loops_ok (fold take_on dirs s)" for s by (induction dirs arbitrary: s) (auto simp: loops_take_on)
  then show "loops_ok s \<Longrightarrow> loops_ok (adopted dirs s)" by (simp add: adopted_def)
qed

lemma loops_served: "loops_ok s \<Longrightarrow> loops_ok (served s)"
proof -
  assume s: "loops_ok s"
  then have "map_wf (sv_units s)" "map_of (sv_units s) d = Some u \<Longrightarrow> u < sv_made s" for d u
    by (simp_all add: loops_ok_def units_ok_def)
  then have "loops_ok (fold (\<lambda>(dir, u). keep_up u) (sv_units s) s)" by (intro loops_keep_all [OF s]) auto
  then show ?thesis using s by (simp add: served_def)
qed

lemmas resumed_defs = serving_exited_def serving_seen_def serving_late_def stated_def stop_exited_def stop_late_def joined_def
  gone_def addOne_def collected_def replaced_def departed_def

lemma loops_resumed:
  assumes "loops_ok s"
  shows "loops_ok (serving_exited i s)" "loops_ok (serving_seen i b s)" "loops_ok (serving_late i s)" "loops_ok (stated i row s)"
    "loops_ok (stop_exited i s)" "loops_ok (stop_late i s)" "loops_ok (joined i s)" "loops_ok (gone i b s)" "loops_ok (addOne i d s)"
    "loops_ok (collected i s)" "loops_ok (replaced i b s)" "loops_ok (departed i s)"
  using assms loops_start loops_take_on loops_over_all
  by (simp_all add: resumed_defs Let_def split: option.splits sv_call.splits stop_stage.splits stop_for.splits)

lemma loops_Supervisor: "loops_ok (Supervisor b)"
  by (auto simp: loops_ok_def unit_ok_def procs_ok_def units_ok_def Supervisor_def Supervised_def)

lemma loops_step: "loops_ok s \<Longrightarrow> loops_ok (sv_step s e)"
  by (cases e) (simp_all add: loops_adopted loops_served sv_seen_def run_over_def loops_begin loops_exit loops_fires loops_resume
      loops_child_exits loops_handle loops_departure timer_stop_def loops_resumed split: sv_phase.splits)

lemma loops_run: "loops_ok (sv_run b evs)"
  unfolding sv_run_def by (induction evs rule: rev_induct) (simp_all add: loops_Supervisor loops_step)


section \<open>Calls\<close>

definition requests_ok :: "supervisor \<Rightarrow> bool" where
  "requests_ok s \<longleftrightarrow>
     (\<forall>i \<ge> sv_asked s. sv_call s i = None \<and> sv_answer s i = None)
     \<and> (\<forall>i. sv_answer s i \<noteq> None \<longrightarrow> sv_call s i = None)
     \<and> (\<forall>i u. sv_call s i = Some (Next u) \<longleftrightarrow> i \<in> set (un_waiting (sv_obj s u)))"

text \<open>A call that is free to go on as another: a new one, or one that waits for no child.\<close>

definition free_call :: "supervisor \<Rightarrow> nat \<Rightarrow> bool" where
  "free_call s i \<longleftrightarrow>
     i < sv_asked s \<and> sv_answer s i = None
     \<and> (case sv_call s i of
          None \<Rightarrow> True | Some (Going _) \<Rightarrow> True | Some Adding \<Rightarrow> True | Some (Replacing _) \<Rightarrow> True | Some (Stating _) \<Rightarrow> True
        | Some (Serving _ _) \<Rightarrow> True | Some (Joining _ _ _) \<Rightarrow> True | Some (Collecting _ _) \<Rightarrow> True | _ \<Rightarrow> False)"

lemma free_callD:
  assumes "free_call s i"
  shows "i < sv_asked s" "sv_answer s i = None" "sv_call s i \<noteq> Some (Next u)" "sv_call s i \<noteq> Some (Leaving l)"
    "sv_call s i \<noteq> Some (Stopping u c st why)"
  using assms by (auto simp: free_call_def)

lemma calls_cong:
  "requests_ok s \<Longrightarrow> sv_call s' = sv_call s \<Longrightarrow> sv_answer s' = sv_answer s \<Longrightarrow> sv_asked s \<le> sv_asked s'
   \<Longrightarrow> (\<And>u. un_waiting (sv_obj s' u) = un_waiting (sv_obj s u)) \<Longrightarrow> requests_ok s'"
  by (simp add: requests_ok_def)

lemma calls_known: "requests_ok s \<Longrightarrow> sv_call s i = Some c \<Longrightarrow> i < sv_asked s \<and> sv_answer s i = None"
  unfolding requests_ok_def by (metis leI option.distinct(1))

lemma calls_await:
  assumes "requests_ok s" "i < sv_asked s" "sv_answer s i = None" "\<And>u. sv_call s i \<noteq> Some (Next u)" "\<And>u. c \<noteq> Next u"
  shows "requests_ok (sv_await i c s)"
  using assms by (auto simp: requests_ok_def sv_await_def)

lemma calls_answer:
  assumes "requests_ok s" "i < sv_asked s" "\<And>u. sv_call s i \<noteq> Some (Next u)"
  shows "requests_ok (answer i a s)"
  using assms by (auto simp: requests_ok_def answer_def)

lemma calls_free_await: "requests_ok s \<Longrightarrow> free_call s i \<Longrightarrow> (\<And>u. c \<noteq> Next u) \<Longrightarrow> requests_ok (sv_await i c s)"
  using free_callD by (intro calls_await) blast+

lemma calls_free_answer: "requests_ok s \<Longrightarrow> free_call s i \<Longrightarrow> requests_ok (answer i a s)"
  using free_callD by (intro calls_answer) blast+

lemma calls_say [simp]: "requests_ok (say l s) = requests_ok s"
  by (simp add: requests_ok_def say_def)

lemma calls_same [simp]:
  "requests_ok (s\<lparr>sv_timers := n\<rparr>) = requests_ok s" "requests_ok (s\<lparr>sv_signals := g\<rparr>) = requests_ok s" "requests_ok (s\<lparr>sv_units := us\<rparr>) = requests_ok s"
  "requests_ok (s\<lparr>sv_phase := p\<rparr>) = requests_ok s" "requests_ok (s\<lparr>sv_listening := b\<rparr>) = requests_ok s" "requests_ok (s\<lparr>sv_leaving := b\<rparr>) = requests_ok s"
  by (simp_all add: requests_ok_def)

lemma calls_cut [simp]: "requests_ok (cancel_waits s) = requests_ok s"
  by (simp add: requests_ok_def cancel_waits_def)

lemma calls_at: "(\<And>x. un_waiting (f x) = un_waiting x) \<Longrightarrow> requests_ok (at_unit u f s) = requests_ok s"
proof -
  assume "\<And>x. un_waiting (f x) = un_waiting x"
  then have "un_waiting (sv_obj (at_unit u f s) v) = un_waiting (sv_obj s v)" for v by (simp add: at_unit_def)
  then show ?thesis unfolding requests_ok_def by (simp add: at_unit_def del: fun_upd_apply)
qed

lemma calls_fresh: "requests_ok s \<Longrightarrow> requests_ok (sv_fresh s) \<and> free_call (sv_fresh s) (sv_asked s)"
  by (auto simp: requests_ok_def sv_fresh_def free_call_def)

lemma abandoned_calls:
  "sv_call (loop_over u s) = (\<lambda>i. if i \<in> set (un_waiting (sv_obj s u)) then None else sv_call s i)"
  "sv_answer (loop_over u s) = (\<lambda>i. if i \<in> set (un_waiting (sv_obj s u)) then Some (or_failed s u) else sv_answer s i)"
  "sv_call (loop_threw u s) = (\<lambda>i. if i \<in> set (un_waiting (sv_obj s u)) then None else sv_call s i)"
  "sv_answer (loop_threw u s) = (\<lambda>i. if i \<in> set (un_waiting (sv_obj s u)) then Some (or_failed s u) else sv_answer s i)"
  by (simp_all add: loop_over_def loop_threw_def abandoned_eq small)

lemma calls_over: assumes "requests_ok s" shows "requests_ok (loop_over u s)" "requests_ok (loop_threw u s)"
proof -
  have w: "i \<in> set (un_waiting (sv_obj s u)) \<longleftrightarrow> sv_call s i = Some (Next u)" for i u using assms by (simp add: requests_ok_def)
  show "requests_ok (loop_over u s)" "requests_ok (loop_threw u s)"
    using assms unfolding requests_ok_def abandoned_calls loop_over_fields by (auto simp: w)
qed

lemma calls_turn: assumes "requests_ok s" shows "requests_ok (loop_turn u wait now ok s)"
proof (cases "un_wanted (sv_obj s u) \<and> \<not> sv_leaving s \<and> ok")
  case True
  then have w: "un_wanted (sv_obj s u)" "\<not> sv_leaving s" "ok = True" by auto
  have m: "i \<in> set (un_waiting (sv_obj s u)) \<longleftrightarrow> sv_call s i = Some (Next u)" for i u using assms by (simp add: requests_ok_def)
  have "sv_asked (loop_turn u wait now True s) = sv_asked s" using w by (simp add: loop_turn_def took_eq small Let_def)
  then show ?thesis
    using assms unfolding w(3) requests_ok_def loop_spawn_fields [OF w(1,2)] by (auto simp: m)
qed (use calls_over [OF assms] in \<open>auto simp: loop_turn_def\<close>)

lemma calls_loops:
  assumes "requests_ok s"
  shows "requests_ok (loop_begin u now ok s)" "requests_ok (loop_resume u now ok s)" "requests_ok (loop_exit u now s)" "requests_ok (pause_fires u s)"
    "requests_ok (child_exits c code s)"
  using assms calls_turn calls_over
  by (auto simp: loop_begin_def loop_resume_def loop_exit_def pause_fires_def child_exits_def Let_def calls_at exited_def
      intro: calls_cong split: restart_loop.splits bool.splits)

lemma calls_start: assumes s: "requests_ok s" "free_call s i" shows "requests_ok (startOne i dir s)"
proof -
  have "requests_ok (next_child i u (keep_up u (at_unit u (\<lambda>x. x\<lparr>un_wanted := True\<rparr>) s)))" if "un_child (sv_obj s u) = None" for u
  proof -
    have "i \<notin> set (un_waiting (sv_obj s v))" for v using s free_callD(3) [OF s(2)] unfolding requests_ok_def by blast
    then show ?thesis using s(1) that free_callD [OF s(2)] by (auto simp: requests_ok_def next_child_def small)
  qed
  then show ?thesis using calls_free_answer [OF s] by (auto simp: startOne_def split: option.splits)
qed

lemma free_call_cong:
  "free_call s i \<Longrightarrow> sv_call s' i = sv_call s i \<Longrightarrow> sv_answer s' i = sv_answer s i \<Longrightarrow> sv_asked s \<le> sv_asked s' \<Longrightarrow> free_call s' i"
  by (simp add: free_call_def)

lemma calls_stop: assumes s: "requests_ok s" "free_call s i" shows "requests_ok (stopOne i dir why s)"
proof -
  have "requests_ok (stopChild i u c why (cancel_waits (at_unit u (\<lambda>x. x\<lparr>un_wanted := False\<rparr>) s)))" for u c
  proof -
    let ?s = "say (Stage c Asked) (cancel_waits (at_unit u (\<lambda>x. x\<lparr>un_wanted := False\<rparr>) s))"
    have "requests_ok ?s" using s(1) by (simp add: calls_at)
    moreover have "free_call ?s i" by (rule free_call_cong [OF s(2)]) (simp_all add: small)
    ultimately show ?thesis unfolding stopChild_def by (rule calls_free_await) simp
  qed
  then show ?thesis using calls_free_answer [OF s] by (auto simp: stopOne_def split: option.splits)
qed

lemma calls_run_op: "requests_ok s \<Longrightarrow> free_call s i \<Longrightarrow> requests_ok (run_op op i u s)"
  using calls_start calls_stop calls_free_await calls_free_answer
  by (auto simp: run_op_def restartOne_def Let_def split: sv_op.splits option.splits)

text \<open>An op touches no call but its own.\<close>

lemma run_op_other:
  assumes "j \<noteq> i"
  shows "sv_call (run_op op i u s) j = sv_call s j" "sv_answer (run_op op i u s) j = sv_answer s j" "sv_asked (run_op op i u s) = sv_asked s"
proof -
  have "sv_call (startOne i d s) j = sv_call s j \<and> sv_answer (startOne i d s) j = sv_answer s j \<and> sv_asked (startOne i d s) = sv_asked s" for d
    using assms by (auto simp: startOne_def next_child_def small split: option.splits)
  moreover have "sv_call (stopOne i d why s) j = sv_call s j \<and> sv_answer (stopOne i d why s) j = sv_answer s j \<and> sv_asked (stopOne i d why s) = sv_asked s" for d why
    using assms by (auto simp: stopOne_def small split: option.splits)
  ultimately show "sv_call (run_op op i u s) j = sv_call s j" "sv_answer (run_op op i u s) j = sv_answer s j" "sv_asked (run_op op i u s) = sv_asked s"
    using assms by (auto simp: run_op_def restartOne_def Let_def sv_await_def answer_def split: sv_op.splits option.splits)
qed


lemma free_run_op: "free_call s p \<Longrightarrow> p \<noteq> i \<Longrightarrow> free_call (run_op op i u s) p"
  by (erule free_call_cong) (simp_all add: run_op_other [of p i])

lemma free_fresh: "free_call s p \<Longrightarrow> free_call (sv_fresh s) p \<and> p \<noteq> sv_asked s"
  by (auto simp: free_call_def sv_fresh_def)

lemma calls_run_each:
  "requests_ok s \<Longrightarrow> requests_ok (fst (run_each op us s)) \<and> (\<forall>p. free_call s p \<longrightarrow> free_call (fst (run_each op us s)) p)"
proof (induction us arbitrary: s)
  case (Cons u us)
  let ?s = "run_op op (sv_asked s) u (sv_fresh s)"
  have "requests_ok ?s" using calls_fresh [OF Cons.prems] calls_run_op by blast
  moreover have "free_call s p \<Longrightarrow> free_call ?s p" for p using free_fresh free_run_op by blast
  ultimately show ?case using Cons.IH [of ?s] by (simp add: Let_def case_prod_beta)
qed simp

lemma calls_over_all: "requests_ok s \<Longrightarrow> free_call s i \<Longrightarrow> requests_ok (over_all kept op i s)"
  using calls_run_each [of s op "map snd (sv_units s)"] calls_free_await by (simp add: over_all_def Let_def case_prod_beta)

lemma calls_take_on: "requests_ok s \<Longrightarrow> loops_ok s \<Longrightarrow> requests_ok (take_on dir s)"
proof (rule calls_cong [of s])
  assume "loops_ok s"
  then have "sv_obj s (sv_made s) = Supervised []" using unit_okD(8) [OF loops_unit] by simp
  then show "un_waiting (sv_obj (take_on dir s) u) = un_waiting (sv_obj s u)" for u by (simp add: take_on_def Supervised_def)
qed (simp_all add: take_on_def)

lemma calls_remove: assumes s: "requests_ok s" "free_call s i" shows "requests_ok (removeOne i dir s)"
proof -
  have "requests_ok (answer i a (say l (s'\<lparr>sv_units := us\<rparr>)))" if s': "s' = cancel_waits (at_unit u (\<lambda>x. x\<lparr>un_wanted := False\<rparr>) s)" for a l us u s'
  proof (rule calls_free_answer)
    have "requests_ok s'" using s(1) by (simp add: s' calls_at)
    then show "requests_ok (say l (s'\<lparr>sv_units := us\<rparr>))" by (auto intro: calls_cong)
    show "free_call (say l (s'\<lparr>sv_units := us\<rparr>)) i" by (rule free_call_cong [OF s(2)]) (simp_all add: s' small)
  qed
  then show ?thesis using calls_free_answer [OF s] by (auto simp: removeOne_def Let_def split: option.splits)
qed

lemma calls_handle: assumes "requests_ok s" shows "requests_ok (handle rq s)"
proof -
  have s: "requests_ok (sv_fresh s)" "free_call (sv_fresh s) (sv_asked s)" using calls_fresh [OF assms] by simp_all
  show ?thesis
    using calls_over_all [OF s] calls_run_op [OF s] calls_remove [OF s] calls_free_answer [OF s] calls_free_await [OF s]
    by (simp add: handle_def over_def Let_def split: sv_op.splits option.splits)
qed

lemma calls_stop_each:
  "requests_ok s \<Longrightarrow> requests_ok (fst (stop_each us s)) \<and> (\<forall>p. free_call s p \<longrightarrow> free_call (fst (stop_each us s)) p)"
proof (induction us arbitrary: s)
  case (Cons u us)
  have "requests_ok (stopChild (sv_asked s) u c For_departure (sv_fresh s)) \<and> (\<forall>p. free_call s p \<longrightarrow> free_call (stopChild (sv_asked s) u c For_departure (sv_fresh s)) p)" for c
  proof (intro conjI allI impI)
    have f: "requests_ok (sv_fresh s)" "free_call (sv_fresh s) (sv_asked s)" using calls_fresh [OF Cons.prems] by simp_all
    have "free_call (say (Stage c Asked) (sv_fresh s)) (sv_asked s)" by (rule free_call_cong [OF f(2)]) (simp_all add: say_def)
    then show "requests_ok (stopChild (sv_asked s) u c For_departure (sv_fresh s))"
      unfolding stopChild_def using f(1) by (intro calls_free_await) simp_all
    fix p assume "free_call s p"
    then show "free_call (stopChild (sv_asked s) u c For_departure (sv_fresh s)) p"
      by (rule free_call_cong) (use free_callD(1) [OF \<open>free_call s p\<close>] in \<open>simp_all add: small\<close>)
  qed
  then show ?case using Cons by (simp add: Let_def case_prod_beta split: option.splits)
qed simp

lemma calls_departure: assumes "requests_ok s" shows "requests_ok (stop s)"
proof -
  let ?s = "cancel_waits ((sv_fresh s)\<lparr>sv_leaving := True\<rparr>)"
  have f: "requests_ok (sv_fresh s)" "free_call (sv_fresh s) (sv_asked s)" using calls_fresh [OF assms] by simp_all
  have "requests_ok ?s" using f(1) by simp
  moreover have "free_call ?s (sv_asked s)" by (rule free_call_cong [OF f(2)]) (simp_all add: small)
  ultimately show ?thesis using calls_stop_each [of ?s "map snd (sv_units ?s)"] calls_free_await
    by (simp add: stop_def Let_def case_prod_beta)
qed

lemma calls_adopted: "requests_ok s \<Longrightarrow> loops_ok s \<Longrightarrow> requests_ok (adopted dirs s)"
proof -
  have "requests_ok s \<Longrightarrow> loops_ok s \<Longrightarrow> requests_ok (fold take_on dirs s)" for s
    by (induction dirs arbitrary: s) (auto simp: loops_take_on calls_take_on)
  then show "requests_ok s \<Longrightarrow> loops_ok s \<Longrightarrow> requests_ok (adopted dirs s)" by (simp add: adopted_def)
qed

lemma calls_served: "requests_ok s \<Longrightarrow> requests_ok (served s)"
proof -
  have "requests_ok s \<Longrightarrow> requests_ok (fold (\<lambda>(dir, u). keep_up u) us s)" for us :: "(string \<times> nat) list" and s
    by (induction us arbitrary: s) (auto simp: keep_up_def calls_at)
  then show "requests_ok s \<Longrightarrow> requests_ok (served s)" by (simp add: served_def)
qed

lemma free_waiting:
  "requests_ok s \<Longrightarrow> sv_call s i = Some c \<Longrightarrow>
   (case c of Next _ \<Rightarrow> False | Leaving _ \<Rightarrow> False | Stopping _ _ _ _ \<Rightarrow> False | _ \<Rightarrow> True) \<Longrightarrow> free_call s i"
  using calls_known [of s i c] by (auto simp: free_call_def split: sv_call.splits)

lemma calls_goes_on:
  assumes s: "requests_ok s" and c: "sv_call s i = Some c" "\<And>u. c \<noteq> Next u" and s': "requests_ok s'" "sv_call s' = sv_call s" "sv_answer s' = sv_answer s" "sv_asked s' = sv_asked s"
  shows "requests_ok (answer i a s')" "(\<And>u. d \<noteq> Next u) \<Longrightarrow> requests_ok (sv_await i d s')"
proof -
  have i: "i < sv_asked s" "sv_answer s i = None" using calls_known [OF s c(1)] by auto
  show "requests_ok (answer i a s')" using s' i c by (intro calls_answer) auto
  show "requests_ok (sv_await i d s')" if "\<And>u. d \<noteq> Next u" using s' i c that by (intro calls_await) auto
qed


lemma calls_resumed:
  assumes s: "requests_ok s"
  shows "requests_ok (serving_exited i s)" "requests_ok (serving_seen i b s)" "requests_ok (serving_late i s)" "requests_ok (stated i row s)"
    "requests_ok (stop_exited i s)" "requests_ok (stop_late i s)" "requests_ok (joined i s)" "requests_ok (gone i b s)"
    "requests_ok (collected i s)" "requests_ok (replaced i b s)" "requests_ok (departed i s)"
proof -
  note on = calls_goes_on [OF s]
  have say: "sv_call (say l s) = sv_call s" "sv_answer (say l s) = sv_answer s" "sv_asked (say l s) = sv_asked s" for l by (simp_all add: say_def)
  show "requests_ok (serving_exited i s)" "requests_ok (serving_seen i b s)" "requests_ok (serving_late i s)" "requests_ok (stated i row s)"
    using on(1) [of i _ s] on(2) [of i _ s] s by (auto simp: resumed_defs split: option.splits sv_call.splits)
  show "requests_ok (stop_exited i s)" using on(1) [of i _ "say _ s"] on(2) [of i _ "say _ s"] s
    by (auto simp: stop_exited_def Let_def say split: option.splits sv_call.splits)
  show "requests_ok (stop_late i s)" using on(2) [of i _ "say _ s"] s
    by (auto simp: stop_late_def say split: option.splits sv_call.splits stop_stage.splits)
  show "requests_ok (joined i s)" using on(1) [of i _ s] on(2) [of i _ s] s
    by (auto simp: joined_def split: option.splits sv_call.splits stop_for.splits)
  show "requests_ok (gone i b s)" using on(1) [of i _ s] calls_start [OF s] free_waiting [OF s] s
    by (auto simp: gone_def split: option.splits sv_call.splits)
  show "requests_ok (collected i s)" using on(1) [of i _ s] s by (auto simp: collected_def Let_def split: option.splits sv_call.splits)
  show "requests_ok (replaced i b s)" using on(1) [of i _ "s\<lparr>sv_timers := _\<rparr>"] calls_over_all [OF s] free_waiting [OF s] s
    by (auto simp: replaced_def split: option.splits sv_call.splits)
  show "requests_ok (departed i s)" using on(1) [of i _ "s\<lparr>sv_listening := _, sv_phase := _\<rparr>"] on(1) [of i _ "s\<lparr>sv_listening := _\<rparr>"] s
    by (auto simp: departed_def split: option.splits sv_call.splits)
qed

lemma calls_add: assumes s: "requests_ok s" "loops_ok s" shows "requests_ok (addOne i home s)"
proof -
  have "requests_ok (startOne i home (take_on home s))" if c: "sv_call s i = Some Adding"
    using calls_start [OF calls_take_on [OF s]] free_call_cong [OF free_waiting [OF s(1) c], of "take_on home s"] by (simp add: take_on_def)
  then show ?thesis using calls_goes_on(1) [OF s(1), of i _ s] s(1) by (auto simp: addOne_def split: option.splits sv_call.splits)
qed

lemma calls_step: "requests_ok s \<Longrightarrow> loops_ok s \<Longrightarrow> requests_ok (sv_step s e)"
  by (cases e) (simp_all add: calls_adopted calls_served sv_seen_def run_over_def calls_loops calls_handle calls_departure
      timer_stop_def calls_resumed calls_add split: sv_phase.splits)

lemma calls_run: "requests_ok (sv_run b evs)"
proof (induction evs rule: rev_induct)
  case Nil
  show ?case by (simp add: sv_run_def requests_ok_def Supervisor_def Supervised_def)
next
  case (snoc e evs)
  then show ?case using calls_step [OF _ loops_run, of b evs] by (simp add: sv_run_def)
qed


section \<open>Leaving\<close>

definition listed :: "supervisor \<Rightarrow> nat \<Rightarrow> bool" where
  "listed s u \<longleftrightarrow> u \<in> snd ` set (sv_units s)"

definition leave_ok :: "supervisor \<Rightarrow> bool" where
  "leave_ok s \<longleftrightarrow>
     (\<forall>i subs. sv_call s i = Some (Leaving subs) \<longrightarrow> sv_leaving s
        \<and> (\<forall>u c. listed s u \<and> un_child (sv_obj s u) = Some c \<and> \<not> exited s c
             \<longrightarrow> (\<exists>j \<in> set subs. \<exists>st. sv_call s j = Some (Stopping u c st For_departure))))
     \<and> (\<forall>i. sv_answer s i = Some Departed \<longrightarrow> sv_leaving s
        \<and> (\<forall>u c. listed s u \<and> un_child (sv_obj s u) = Some c \<longrightarrow> exited s c))"

lemma leave_mono:
  assumes "leave_ok s" "sv_leaving s' = sv_leaving s"
    "\<And>i subs. sv_call s' i = Some (Leaving subs) \<Longrightarrow> sv_call s i = Some (Leaving subs)"
    "\<And>i. sv_answer s' i = Some Departed \<Longrightarrow> sv_answer s i = Some Departed"
    "\<And>u c. sv_leaving s \<Longrightarrow> listed s' u \<Longrightarrow> un_child (sv_obj s' u) = Some c \<Longrightarrow> \<not> exited s' c
       \<Longrightarrow> listed s u \<and> un_child (sv_obj s u) = Some c \<and> \<not> exited s c"
    "\<And>j u c st. sv_call s j = Some (Stopping u c st For_departure) \<Longrightarrow> \<not> exited s' c
       \<Longrightarrow> \<exists>st. sv_call s' j = Some (Stopping u c st For_departure)"
  shows "leave_ok s'"
  unfolding leave_ok_def
proof (intro conjI allI impI)
  fix i subs assume i: "sv_call s' i = Some (Leaving subs)"
  note h = assms(1) [unfolded leave_ok_def, THEN conjunct1, rule_format, OF assms(3) [OF i]]
  show l: "sv_leaving s'" using h assms(2) by simp
  fix u c assume "listed s' u \<and> un_child (sv_obj s' u) = Some c \<and> \<not> exited s' c"
  then show "\<exists>j \<in> set subs. \<exists>st. sv_call s' j = Some (Stopping u c st For_departure)"
    using h assms(5) [of u c] assms(6) by blast
next
  fix i assume i: "sv_answer s' i = Some Departed"
  note h = assms(1) [unfolded leave_ok_def, THEN conjunct2, rule_format, OF assms(4) [OF i]]
  show "sv_leaving s'" using h assms(2) by simp
  fix u c assume "listed s' u \<and> un_child (sv_obj s' u) = Some c"
  then show "exited s' c" using h assms(5) [of u c] by blast
qed

text \<open>A step that leaves children, units and processes alone and moves one call that is not part of a departure.\<close>

lemma leave_same:
  assumes "leave_ok s" "sv_leaving s' = sv_leaving s" "sv_units s' = sv_units s" "sv_proc s' = sv_proc s"
    "\<And>u. un_child (sv_obj s' u) = un_child (sv_obj s u)"
    "\<And>j. j \<notin> I \<Longrightarrow> sv_call s' j = sv_call s j \<and> sv_answer s' j = sv_answer s j"
    "\<And>j u c st subs. j \<in> I \<Longrightarrow> sv_call s j \<noteq> Some (Stopping u c st For_departure) \<and> sv_call s' j \<noteq> Some (Leaving subs) \<and> sv_answer s' j \<noteq> Some Departed"
  shows "leave_ok s'"
proof (rule leave_mono [OF assms(1,2)])
  fix i subs assume "sv_call s' i = Some (Leaving subs)"
  then show "sv_call s i = Some (Leaving subs)" using assms(6,7) by metis
next
  fix i assume "sv_answer s' i = Some Departed"
  then show "sv_answer s i = Some Departed" using assms(6,7) by metis
next
  fix j u c st assume "sv_call s j = Some (Stopping u c st For_departure)"
  then show "\<exists>st. sv_call s' j = Some (Stopping u c st For_departure)" using assms(6,7) by metis
qed (use assms(3-5) in \<open>auto simp: listed_def exited_def\<close>)

lemma leave_over: assumes s: "leave_ok s" "requests_ok s" shows "leave_ok (loop_over u s)" "leave_ok (loop_threw u s)"
proof -
  have w: "i \<in> set (un_waiting (sv_obj s u)) \<Longrightarrow> sv_call s i = Some (Next u)" for i using s(2) by (simp add: requests_ok_def)
  have f: "or_failed s u \<noteq> Departed" by (simp add: or_failed_def)
  show "leave_ok (loop_over u s)"
    by (rule leave_same [OF s(1), where I = "set (un_waiting (sv_obj s u))"]) (use w f in \<open>auto simp: abandoned_calls\<close>)
  show "leave_ok (loop_threw u s)"
    by (rule leave_same [OF s(1), where I = "set (un_waiting (sv_obj s u))"]) (use w f in \<open>auto simp: abandoned_calls\<close>)
qed

lemma leave_turn: assumes s: "leave_ok s" "requests_ok s" shows "leave_ok (loop_turn u wait now ok s)"
proof (cases "un_wanted (sv_obj s u) \<and> \<not> sv_leaving s \<and> ok")
  case True
  then have w: "un_wanted (sv_obj s u)" "\<not> sv_leaving s" "ok = True" by auto
  have "sv_call s i \<noteq> Some (Leaving subs)" "sv_answer s i \<noteq> Some Departed" for i subs using s(1) w(2) by (auto simp: leave_ok_def)
  then show ?thesis by (auto simp: w(3) leave_ok_def loop_spawn_fields [OF w(1,2)] split: if_splits)
qed (use leave_over [OF s] in \<open>auto simp: loop_turn_def\<close>)

lemma leave_loops:
  assumes s: "leave_ok s" "requests_ok s"
  shows "leave_ok (loop_begin u now ok s)" "leave_ok (loop_resume u now ok s)" "leave_ok (loop_exit u now s)" "leave_ok (pause_fires u s)"
    "leave_ok (child_exits c code s)"
proof -
  show "leave_ok (loop_begin u now ok s)" "leave_ok (loop_resume u now ok s)"
    using s leave_turn by (auto simp: loop_begin_def loop_resume_def Let_def split: restart_loop.splits bool.splits)
  show "leave_ok (pause_fires u s)"
    by (rule leave_same [OF s(1), where I = "{}"]) (auto simp: pause_fires_def at_unit_def)
  show "leave_ok (child_exits c code s)"
    by (rule leave_mono [OF s(1)]) (auto simp: child_exits_def listed_def exited_def split: if_splits)
  have m: "leave_ok (say l (at_unit u f s))" "requests_ok (say l (at_unit u f s))"
    if "\<And>x. un_child (f x) = None" "\<And>x. un_waiting (f x) = un_waiting x" for l f
  proof -
    show "leave_ok (say l (at_unit u f s))"
      by (rule leave_mono [OF s(1)]) (use that in \<open>auto simp: say_def at_unit_def listed_def exited_def split: if_splits\<close>)
    show "requests_ok (say l (at_unit u f s))" using s(2) that by (simp add: calls_at)
  qed
  have two: "at_unit u (\<lambda>x. x\<lparr>un_loop := l\<rparr>) (at_unit u (\<lambda>x. x\<lparr>un_child := None\<rparr>) s) = at_unit u (\<lambda>x. x\<lparr>un_child := None, un_loop := l\<rparr>) s" for l
    by (simp add: at_unit_def)
  show "leave_ok (loop_exit u now s)"
    using s leave_over(1) m by (simp add: loop_exit_def Let_def two split: restart_loop.splits)
qed


lemma run_op_frame:
  "sv_leaving (run_op op i u s) = sv_leaving s" "sv_units (run_op op i u s) = sv_units s" "sv_proc (run_op op i u s) = sv_proc s"
  "un_child (sv_obj (run_op op i u s) v) = un_child (sv_obj s v)"
  "sv_answer s i = None \<Longrightarrow> sv_answer (run_op op i u s) i \<noteq> Some Departed"
  "sv_call s i \<noteq> Some (Leaving subs) \<Longrightarrow> sv_call (run_op op i u s) i \<noteq> Some (Leaving subs)"
proof -
  let ?same = "\<lambda>s'. sv_leaving s' = sv_leaving s \<and> sv_units s' = sv_units s \<and> sv_proc s' = sv_proc s \<and> un_child (sv_obj s' v) = un_child (sv_obj s v)
    \<and> (sv_answer s i = None \<longrightarrow> sv_answer s' i \<noteq> Some Departed) \<and> (sv_call s i \<noteq> Some (Leaving subs) \<longrightarrow> sv_call s' i \<noteq> Some (Leaving subs))"
  have start: "?same (startOne i d s)" for d by (auto simp: startOne_def next_child_def small split: option.splits)
  have stop: "?same (stopOne i d why s)" for d why by (auto simp: stopOne_def small split: option.splits)
  have "?same (answer i (Refused Not_found) s)" "?same (sv_await i (Stating u) s)" by (simp_all add: answer_def sv_await_def)
  then have "?same (run_op op i u s)" using start stop
    by (simp add: run_op_def restartOne_def Let_def split: sv_op.splits option.splits)
  then show "sv_leaving (run_op op i u s) = sv_leaving s" "sv_units (run_op op i u s) = sv_units s" "sv_proc (run_op op i u s) = sv_proc s"
    "un_child (sv_obj (run_op op i u s) v) = un_child (sv_obj s v)"
    "sv_answer s i = None \<Longrightarrow> sv_answer (run_op op i u s) i \<noteq> Some Departed"
    "sv_call s i \<noteq> Some (Leaving subs) \<Longrightarrow> sv_call (run_op op i u s) i \<noteq> Some (Leaving subs)" by blast+
qed

lemma leave_run_op: assumes "leave_ok s" "free_call s i" shows "leave_ok (run_op op i u s)"
  by (rule leave_same [OF assms(1), where I = "{i}"])
    (use run_op_other [where op = op and i = i and u = u and s = s] run_op_frame [where op = op and i = i and u = u and s = s] free_callD [OF assms(2)] in \<open>auto\<close>)

lemma leave_cong:
  "leave_ok s \<Longrightarrow> sv_leaving s' = sv_leaving s \<Longrightarrow> sv_units s' = sv_units s \<Longrightarrow> sv_proc s' = sv_proc s \<Longrightarrow> sv_call s' = sv_call s
   \<Longrightarrow> sv_answer s' = sv_answer s \<Longrightarrow> (\<And>u. un_child (sv_obj s' u) = un_child (sv_obj s u)) \<Longrightarrow> leave_ok s'"
  by (rule leave_same [of s s' "{}"]) simp_all

lemma leave_answer: "leave_ok s \<Longrightarrow> (\<And>u c st. sv_call s i \<noteq> Some (Stopping u c st For_departure)) \<Longrightarrow> a \<noteq> Departed \<Longrightarrow> leave_ok (answer i a s)"
  by (rule leave_same [of s _ "{i}"]) (auto simp: answer_def)

lemma leave_await:
  "leave_ok s \<Longrightarrow> requests_ok s \<Longrightarrow> sv_answer s i \<noteq> Some Departed \<Longrightarrow> (\<And>u c st. sv_call s i \<noteq> Some (Stopping u c st For_departure))
   \<Longrightarrow> (\<And>subs. c \<noteq> Leaving subs) \<Longrightarrow> leave_ok (sv_await i c s)"
  by (rule leave_same [of s _ "{i}"]) (auto simp: sv_await_def)

lemma leave_free:
  assumes "leave_ok s" "requests_ok s" "free_call s i"
  shows "a \<noteq> Departed \<Longrightarrow> leave_ok (answer i a s)" "(\<And>subs. c \<noteq> Leaving subs) \<Longrightarrow> leave_ok (sv_await i c s)"
  using leave_answer [OF assms(1)] leave_await [OF assms(1,2)] free_callD [OF assms(3)] by simp_all

lemma leave_fresh: "leave_ok s \<Longrightarrow> leave_ok (sv_fresh s)"
  by (erule leave_cong) (simp_all add: sv_fresh_def)

lemma leave_run_each: "leave_ok s \<Longrightarrow> requests_ok s \<Longrightarrow> leave_ok (fst (run_each op us s))"
proof (induction us arbitrary: s)
  case (Cons u us)
  have f: "requests_ok (sv_fresh s)" "free_call (sv_fresh s) (sv_asked s)" using calls_fresh [OF Cons.prems(2)] by simp_all
  show ?case using Cons.IH [OF leave_run_op [OF leave_fresh [OF Cons.prems(1)] f(2)] calls_run_op [OF f]]
    by (simp add: Let_def case_prod_beta)
qed simp

lemma leave_over_all: "leave_ok s \<Longrightarrow> requests_ok s \<Longrightarrow> free_call s i \<Longrightarrow> leave_ok (over_all kept op i s)"
  using leave_run_each [of s op] calls_run_each [of s op] leave_free(2) by (simp add: over_all_def Let_def case_prod_beta)

lemma leave_take_on: assumes "leave_ok s" "loops_ok s" shows "leave_ok (take_on dir s)"
proof (rule leave_mono [OF assms(1)])
  have sub: "(d, u) \<in> set (map_set dir v us) \<Longrightarrow> u = v \<or> (d, u) \<in> set us" for d u v and us :: "(string, nat) js_map"
    by (induction us) (auto split: if_splits)
  fix u c assume "listed (take_on dir s) u" "un_child (sv_obj (take_on dir s) u) = Some c" "\<not> exited (take_on dir s) c"
  then show "listed s u \<and> un_child (sv_obj s u) = Some c \<and> \<not> exited s c"
    using sub [of _ u "sv_made s" "sv_units s"] by (force simp: take_on_def listed_def exited_def Supervised_def split: if_splits)
qed (auto simp: take_on_def)

lemma leave_start: "leave_ok s \<Longrightarrow> free_call s i \<Longrightarrow> map_of (sv_units s) dir = Some u \<Longrightarrow> loops_ok s \<Longrightarrow> leave_ok (startOne i dir s)"
  using leave_run_op [of s i Op_start u] by (simp add: run_op_def Let_def loops_ok_def units_ok_def)

lemma leave_remove: assumes s: "leave_ok s" "requests_ok s" "free_call s i" shows "leave_ok (removeOne i dir s)"
proof -
  have "leave_ok (answer i (Removed dir) (say l (s'\<lparr>sv_units := map_del dir (sv_units s')\<rparr>)))"
    if s': "s' = cancel_waits (at_unit u (\<lambda>x. x\<lparr>un_wanted := False\<rparr>) s)" for l u s'
  proof (rule leave_answer)
    show "leave_ok (say l (s'\<lparr>sv_units := map_del dir (sv_units s')\<rparr>))"
      by (rule leave_mono [OF s(1)]) (auto simp: s' small listed_def exited_def AList.delete_eq split: if_splits)
    show "sv_call (say l (s'\<lparr>sv_units := map_del dir (sv_units s')\<rparr>)) i \<noteq> Some (Stopping u c st For_departure)" for u c st
      using free_callD(5) [OF s(3)] by (simp add: s' small)
  qed simp
  then show ?thesis using leave_free(1) [OF s] by (auto simp: removeOne_def Let_def split: option.splits)
qed

lemma leave_handle: assumes "leave_ok s" "requests_ok s" shows "leave_ok (handle rq s)"
proof -
  have s: "leave_ok (sv_fresh s)" "requests_ok (sv_fresh s)" "free_call (sv_fresh s) (sv_asked s)" using calls_fresh [OF assms(2)] leave_fresh [OF assms(1)] by simp_all
  show ?thesis
    using leave_over_all [OF s] leave_run_op [OF s(1,3)] leave_remove [OF s] leave_free [OF s]
    by (simp add: handle_def over_def Let_def split: sv_op.splits option.splits)
qed


lemma stop_each_calls:
  assumes "requests_ok s"
  shows "\<And>i. i < sv_asked s \<Longrightarrow> sv_call (fst (stop_each us s)) i = sv_call s i"
    "sv_answer (fst (stop_each us s)) = sv_answer s" "sv_obj (fst (stop_each us s)) = sv_obj s" "sv_proc (fst (stop_each us s)) = sv_proc s"
    "sv_units (fst (stop_each us s)) = sv_units s" "sv_leaving (fst (stop_each us s)) = sv_leaving s" "sv_asked s \<le> sv_asked (fst (stop_each us s))"
    "\<And>u c. u \<in> set us \<Longrightarrow> un_child (sv_obj s u) = Some c
       \<Longrightarrow> \<exists>j \<in> set (snd (stop_each us s)). sv_asked s \<le> j \<and> sv_call (fst (stop_each us s)) j = Some (Stopping u c Asked For_departure)"
    "\<And>i subs. sv_asked s \<le> i \<Longrightarrow> sv_call (fst (stop_each us s)) i \<noteq> Some (Leaving subs)"
proof -
  let ?P = "\<lambda>us s s' subs. (\<forall>i < sv_asked s. sv_call s' i = sv_call s i) \<and> sv_answer s' = sv_answer s \<and> sv_obj s' = sv_obj s \<and> sv_proc s' = sv_proc s
    \<and> sv_units s' = sv_units s \<and> sv_leaving s' = sv_leaving s \<and> sv_asked s \<le> sv_asked s'
    \<and> (\<forall>u c. u \<in> set us \<and> un_child (sv_obj s u) = Some c \<longrightarrow> (\<exists>j \<in> set subs. sv_asked s \<le> j \<and> sv_call s' j = Some (Stopping u c Asked For_departure)))
    \<and> (\<forall>i subs. sv_asked s \<le> i \<longrightarrow> sv_call s' i \<noteq> Some (Leaving subs))"
  have "?P us s (fst (stop_each us s)) (snd (stop_each us s))" using assms
  proof (induction us arbitrary: s)
    case Nil
    then show ?case by (auto simp: requests_ok_def)
  next
    case (Cons u us)
    show ?case
    proof (cases "un_child (sv_obj s u)")
      case None
      then show ?thesis using Cons by auto
    next
      case (Some c)
      let ?s = "stopChild (sv_asked s) u c For_departure (sv_fresh s)"
      have f: "sv_asked ?s = Suc (sv_asked s)" "sv_call ?s = (sv_call s)(sv_asked s := Some (Stopping u c Asked For_departure))"
        "sv_answer ?s = sv_answer s" "sv_obj ?s = sv_obj s" "sv_proc ?s = sv_proc s" "sv_units ?s = sv_units s" "sv_leaving ?s = sv_leaving s"
        by (simp_all add: small)
      have "sv_asked s \<notin> set (un_waiting (sv_obj s v))" for v
        using Cons.prems unfolding requests_ok_def by (metis option.distinct(1) order_refl)
      then have "requests_ok ?s" using Cons.prems by (auto simp: requests_ok_def f)
      note h = Cons.IH [OF this, unfolded f]
      let ?t = "fst (stop_each us ?s)" and ?l = "snd (stop_each us ?s)"
      have e: "stop_each (u # us) s = (?t, sv_asked s # ?l)" by (simp add: Some Let_def case_prod_beta)
      have own: "sv_call ?t (sv_asked s) = Some (Stopping u c Asked For_departure)" using h by simp
      have subs: "\<exists>j \<in> set (sv_asked s # ?l). sv_asked s \<le> j \<and> sv_call ?t j = Some (Stopping v d Asked For_departure)"
        if "v \<in> set (u # us)" "un_child (sv_obj s v) = Some d" for v d
      proof (cases "v = u")
        case True
        then show ?thesis using own Some that(2) by auto
      next
        case False
        then have "v \<in> set us \<and> un_child (sv_obj s v) = Some d" using that by simp
        then obtain j where "j \<in> set ?l" "Suc (sv_asked s) \<le> j" "sv_call ?t j = Some (Stopping v d Asked For_departure)"
          using h by blast
        then show ?thesis by (intro bexI [of _ j]) auto
      qed
      have no: "sv_call ?t i \<noteq> Some (Leaving l)" if "sv_asked s \<le> i" for i l
        using own h that by (cases "i = sv_asked s") auto
      show ?thesis unfolding e fst_conv snd_conv using h subs no by auto
    qed
  qed
  then show "\<And>i. i < sv_asked s \<Longrightarrow> sv_call (fst (stop_each us s)) i = sv_call s i"
    "sv_answer (fst (stop_each us s)) = sv_answer s" "sv_obj (fst (stop_each us s)) = sv_obj s" "sv_proc (fst (stop_each us s)) = sv_proc s"
    "sv_units (fst (stop_each us s)) = sv_units s" "sv_leaving (fst (stop_each us s)) = sv_leaving s" "sv_asked s \<le> sv_asked (fst (stop_each us s))"
    "\<And>u c. u \<in> set us \<Longrightarrow> un_child (sv_obj s u) = Some c
       \<Longrightarrow> \<exists>j \<in> set (snd (stop_each us s)). sv_asked s \<le> j \<and> sv_call (fst (stop_each us s)) j = Some (Stopping u c Asked For_departure)"
    "\<And>i subs. sv_asked s \<le> i \<Longrightarrow> sv_call (fst (stop_each us s)) i \<noteq> Some (Leaving subs)"
    by blast+
qed


lemma leave_new:
  assumes s: "leave_ok s" "requests_ok s"
    and old: "\<And>i. i < sv_asked s \<Longrightarrow> sv_call t i = sv_call s i" and no: "\<And>i l. sv_asked s < i \<Longrightarrow> sv_call t i \<noteq> Some (Leaving l)"
    and t: "sv_answer t = sv_answer s" "sv_proc t = sv_proc s" "sv_units t = sv_units s" "sv_leaving t" "\<And>u. un_child (sv_obj t u) = un_child (sv_obj s u)"
    and subs: "\<And>u c. listed s u \<Longrightarrow> un_child (sv_obj s u) = Some c
      \<Longrightarrow> \<exists>j \<in> set subs. sv_asked s < j \<and> sv_call t j = Some (Stopping u c Asked For_departure)"
  shows "leave_ok (sv_await (sv_asked s) (Leaving subs) t)"
  unfolding leave_ok_def
proof (intro conjI allI impI)
  let ?r = "sv_await (sv_asked s) (Leaving subs) t"
  have r: "listed ?r u = listed s u" "exited ?r c = exited s c" for u c using t by (simp_all add: sv_await_def listed_def exited_def)
  show "sv_leaving ?r" "sv_leaving ?r" using t(4) by (simp_all add: sv_await_def)
  {
    fix i l u c assume i: "sv_call ?r i = Some (Leaving l)" and "listed ?r u \<and> un_child (sv_obj ?r u) = Some c \<and> \<not> exited ?r c"
    then have u: "listed s u" "un_child (sv_obj s u) = Some c" "\<not> exited s c" using r t(5) by (auto simp: sv_await_def)
    show "\<exists>j \<in> set l. \<exists>st. sv_call ?r j = Some (Stopping u c st For_departure)"
    proof (cases "i = sv_asked s")
      case True
      obtain j where "j \<in> set subs" "sv_asked s < j" "sv_call t j = Some (Stopping u c Asked For_departure)" using subs [OF u(1,2)] by blast
      then show ?thesis using i True by (intro bexI [of _ j]) (auto simp: sv_await_def)
    next
      case False
      then have "sv_call t i = Some (Leaving l)" using i by (simp add: sv_await_def)
      then have "sv_call s i = Some (Leaving l)" using no [of i l] old [of i] False by (cases "i < sv_asked s") auto
      then obtain j st where j: "j \<in> set l" "sv_call s j = Some (Stopping u c st For_departure)" using s(1) u unfolding leave_ok_def by blast
      have "j < sv_asked s" using calls_known [OF s(2) j(2)] by blast
      then show ?thesis using old [of j] j by (intro bexI [of _ j]) (auto simp: sv_await_def)
    qed
  }
  fix i u c assume "sv_answer ?r i = Some Departed" "listed ?r u \<and> un_child (sv_obj ?r u) = Some c"
  then show "exited ?r c" using s(1) r t by (auto simp: leave_ok_def sv_await_def)
qed

lemma leave_departure: assumes s: "leave_ok s" "requests_ok s" shows "leave_ok (stop s)"
proof -
  let ?s = "cancel_waits ((sv_fresh s)\<lparr>sv_leaving := True\<rparr>)"
  let ?us = "map snd (sv_units ?s)"
  have ok: "requests_ok ?s" using calls_fresh [OF s(2)] by simp
  have f: "sv_asked ?s = Suc (sv_asked s)" "sv_call ?s = sv_call s" "sv_answer ?s = sv_answer s" "sv_proc ?s = sv_proc s" "sv_units ?s = sv_units s"
    "sv_leaving ?s = True" "un_child (sv_obj ?s u) = un_child (sv_obj s u)" for u by (simp_all add: small)
  note t = stop_each_calls [OF ok, where us = ?us]
  have "leave_ok (sv_await (sv_asked s) (Leaving (snd (stop_each ?us ?s))) (fst (stop_each ?us ?s)))"
  proof (rule leave_new [OF s])
    fix u c assume "listed s u" "un_child (sv_obj s u) = Some c"
    then show "\<exists>j \<in> set (snd (stop_each ?us ?s)). sv_asked s < j \<and> sv_call (fst (stop_each ?us ?s)) j = Some (Stopping u c Asked For_departure)"
      using t(8) [of u c] unfolding f(1,5,7) by (auto simp: listed_def Suc_le_eq)
  qed (use t f in \<open>simp_all add: Suc_le_eq\<close>)
  then show ?thesis by (simp add: stop_def Let_def case_prod_beta)
qed

lemma leave_departed: assumes s: "leave_ok s" "requests_ok s" shows "leave_ok (departed i s)"
proof (cases "\<exists>subs. sv_call s i = Some (Leaving subs) \<and> list_all (\<lambda>j. sv_answer s j \<noteq> None) subs")
  case True
  then obtain subs where i: "sv_call s i = Some (Leaving subs)" "\<And>j. j \<in> set subs \<Longrightarrow> sv_answer s j \<noteq> None" by (auto simp: list_all_iff)
  note h = s(1) [unfolded leave_ok_def, THEN conjunct1, rule_format, OF i(1)]
  have over: "sv_leaving s" "\<And>u c. listed s u \<Longrightarrow> un_child (sv_obj s u) = Some c \<Longrightarrow> exited s c"
  proof -
    show "sv_leaving s" using h by simp
    fix u c assume "listed s u" "un_child (sv_obj s u) = Some c"
    then show "exited s c" using h i(2) s(2) unfolding requests_ok_def by (metis option.distinct(1))
  qed
  have d: "departed i s = answer i Departed (s\<lparr>sv_listening := False, sv_phase := (if sv_phase s = Up then Left_called else sv_phase s)\<rparr>)"
  proof -
    have "\<not> list_ex (\<lambda>j. sv_answer s j = None) subs" using i(2) by (force simp: list_ex_iff)
    then show ?thesis using i(1) by (simp add: departed_def)
  qed
  have r: "sv_leaving (departed i s)" "sv_obj (departed i s) = sv_obj s" "listed (departed i s) u = listed s u" "exited (departed i s) c = exited s c" for u c
    using over(1) by (simp_all add: d answer_def listed_def exited_def)
  show ?thesis using over(2) unfolding leave_ok_def r(2-4) by (blast intro: r(1))
next
  case False
  then have "departed i s = s" by (auto simp: departed_def list_ex_iff list_all_iff split: option.splits sv_call.splits)
  then show ?thesis using s by simp
qed

lemma leave_say [simp]: "leave_ok (say l s) = leave_ok s"
  by (auto simp: leave_ok_def say_def listed_def exited_def)

lemma leave_field [simp]:
  "leave_ok (s\<lparr>sv_timers := n\<rparr>) = leave_ok s" "leave_ok (s\<lparr>sv_signals := g\<rparr>) = leave_ok s" "leave_ok (s\<lparr>sv_phase := p\<rparr>) = leave_ok s"
  "leave_ok (s\<lparr>sv_listening := b\<rparr>) = leave_ok s"
  by (auto simp: leave_ok_def listed_def exited_def)


lemma leave_adopted: "leave_ok s \<Longrightarrow> loops_ok s \<Longrightarrow> leave_ok (adopted dirs s)"
proof -
  have "leave_ok s \<Longrightarrow> loops_ok s \<Longrightarrow> leave_ok (fold take_on dirs s)" for s
    by (induction dirs arbitrary: s) (auto simp: loops_take_on leave_take_on)
  then show "leave_ok s \<Longrightarrow> loops_ok s \<Longrightarrow> leave_ok (adopted dirs s)" by (simp add: adopted_def)
qed

lemma leave_served: "leave_ok s \<Longrightarrow> leave_ok (served s)"
proof -
  have keep: "leave_ok s \<Longrightarrow> leave_ok (keep_up u s)" for u s by (erule leave_cong) (simp_all add: small)
  have "leave_ok s \<Longrightarrow> leave_ok (fold (\<lambda>(dir, u). keep_up u) us s)" for us :: "(string \<times> nat) list" and s
    by (induction us arbitrary: s) (auto simp: keep)
  then show "leave_ok s \<Longrightarrow> leave_ok (served s)" by (simp add: served_def)
qed

lemma leave_stopping:
  assumes s: "leave_ok s" "requests_ok s"
  shows "leave_ok (stop_exited i s)" "leave_ok (stop_late i s)"
proof -
  show "leave_ok (stop_exited i s)"
    by (rule leave_mono [OF s(1)]) (auto simp: stop_exited_def Let_def small listed_def exited_def split: option.splits sv_call.splits if_splits)
  show "leave_ok (stop_late i s)"
    by (rule leave_mono [OF s(1)]) (auto simp: stop_late_def small listed_def exited_def split: option.splits sv_call.splits stop_stage.splits if_splits)
qed

lemma leave_resumed:
  assumes s: "leave_ok s" "requests_ok s" "loops_ok s"
  shows "leave_ok (serving_exited i s)" "leave_ok (serving_seen i b s)" "leave_ok (serving_late i s)" "leave_ok (stated i row s)"
    "leave_ok (joined i s)" "leave_ok (gone i b s)" "leave_ok (addOne i home s)" "leave_ok (collected i s)" "leave_ok (replaced i b s)"
proof -
  note free = leave_free [OF s(1,2) free_waiting [OF s(2)], of i] and w = free_waiting [OF s(2), of i]
  show "leave_ok (serving_exited i s)" "leave_ok (serving_seen i b s)" "leave_ok (serving_late i s)" "leave_ok (stated i row s)"
    using free s(1) by (auto simp: resumed_defs or_failed_def split: option.splits sv_call.splits)
  show "leave_ok (joined i s)" using free s(1) by (auto simp: joined_def split: option.splits sv_call.splits stop_for.splits)
  show "leave_ok (collected i s)" using free s(1) by (auto simp: collected_def Let_def split: option.splits sv_call.splits)
  have start: "leave_ok t \<Longrightarrow> requests_ok t \<Longrightarrow> free_call t i \<Longrightarrow> loops_ok t \<Longrightarrow> leave_ok (startOne i d t)" for t d
    using leave_start [of t i d] leave_free(1) [of t i "Refused Not_found"]
    by (cases "map_of (sv_units t) d") (simp_all add: startOne_def del: map_of_eq_Some_iff)
  show "leave_ok (gone i b s)" using free s start [OF s(1,2) _ s(3)] w by (auto simp: gone_def split: option.splits sv_call.splits)
  have "free_call (take_on home s) i" if "sv_call s i = Some Adding"
    by (rule free_call_cong [OF w [OF that]]) (simp_all add: take_on_def)
  then show "leave_ok (addOne i home s)"
    using free s start [OF leave_take_on [OF s(1,3)] calls_take_on [OF s(2,3)] _ loops_take_on [OF s(3)]]
    by (auto simp: addOne_def split: option.splits sv_call.splits)
  have "leave_ok (answer i (Replaced ds) (s\<lparr>sv_timers := n\<rparr>))" if "sv_call s i = Some (Replacing ds')" for ds ds' n
    using that s(1) by (intro leave_answer) simp_all
  then show "leave_ok (replaced i b s)" using leave_over_all [OF s(1,2)] w s(1) by (auto simp: replaced_def split: option.splits sv_call.splits)
qed

lemma leave_step: "leave_ok s \<Longrightarrow> requests_ok s \<Longrightarrow> loops_ok s \<Longrightarrow> leave_ok (sv_step s e)"
  by (cases e) (simp_all add: leave_adopted leave_served sv_seen_def run_over_def leave_loops leave_handle leave_departure
      timer_stop_def leave_resumed leave_stopping leave_departed split: sv_phase.splits)

lemma leave_run: "leave_ok (sv_run b evs)"
proof (induction evs rule: rev_induct)
  case Nil
  show ?case by (simp add: sv_run_def leave_ok_def Supervisor_def)
next
  case (snoc e evs)
  then show ?case using leave_step [OF _ calls_run loops_run, of b evs] by (simp add: sv_run_def)
qed


section \<open>Which objects have loops\<close>

text \<open>
  Only an object the list of units holds is ever given a loop, and an object leaves the list only by
  \<open>removeOne\<close>, which says so in the log: \<open>supervised_ok\<close>. \<open>within_list s s'\<close> is what every other operation
  does with the list.
\<close>

definition supervised_ok :: "supervisor \<Rightarrow> bool" where
  "supervised_ok s \<longleftrightarrow>
     (\<forall>u. 0 < un_made (sv_obj s u) \<longrightarrow> listed s u \<or> Released u \<in> set (sv_log s))
     \<and> (sv_phase s = Adopting \<longrightarrow>
          sv_units s = [] \<and> \<not> sv_listening s \<and> (\<forall>u. un_made (sv_obj s u) = 0) \<and> (\<forall>i. sv_call s i \<noteq> Some Adding))"

definition within_list :: "supervisor \<Rightarrow> supervisor \<Rightarrow> bool" where
  "within_list s s' \<longleftrightarrow>
     sv_units s' = sv_units s \<and> set (sv_log s) \<subseteq> set (sv_log s')
     \<and> (\<forall>u. un_made (sv_obj s' u) = un_made (sv_obj s u) \<or> listed s u)
     \<and> (sv_phase s' = Adopting \<longleftrightarrow> sv_phase s = Adopting) \<and> (sv_listening s' \<longrightarrow> sv_listening s)
     \<and> (\<not> sv_listening s \<longrightarrow> (\<forall>i. sv_call s' i = Some Adding \<longrightarrow> sv_call s i = Some Adding))"

lemma within_list_refl [simp]: "within_list s s" by (simp add: within_list_def)

lemma within_list_trans: "within_list s s' \<Longrightarrow> within_list s' s'' \<Longrightarrow> within_list s s''"
  by (simp add: within_list_def listed_def) (metis subset_trans)

lemma within_list_supervised: assumes "supervised_ok s" "within_list s s'" shows "supervised_ok s'"
  unfolding supervised_ok_def
proof (intro conjI allI impI)
  note k = assms(2) [unfolded within_list_def]
  fix u assume "0 < un_made (sv_obj s' u)"
  then have "0 < un_made (sv_obj s u) \<or> listed s u" using k by metis
  then have "listed s u \<or> Released u \<in> set (sv_log s)" using assms(1) by (auto simp: supervised_ok_def)
  then show "listed s' u \<or> Released u \<in> set (sv_log s')" using k by (auto simp: listed_def)
qed (use assms in \<open>force simp: supervised_ok_def within_list_def listed_def\<close>)+

lemma within_list_small:
  "within_list s (answer i a s)" "c \<noteq> Adding \<Longrightarrow> within_list s (sv_await i c s)" "within_list s (say l s)" "within_list s (sv_fresh s)" "within_list s (cancel_waits s)"
  "within_list s (s\<lparr>sv_timers := n\<rparr>)" "within_list s (s\<lparr>sv_signals := g\<rparr>)" "within_list s (s\<lparr>sv_leaving := b\<rparr>)" "(\<And>x. un_made (f x) = un_made x) \<Longrightarrow> within_list s (at_unit u f s)"
  by (auto simp: within_list_def small)

lemma within_list_loop_turn: "within_list s (loop_turn u w now ok s)"
  by (auto simp: within_list_def loop_defs Let_def)

lemma within_list_loops:
  "within_list s (loop_begin u now ok s)" "within_list s (loop_resume u now ok s)" "within_list s (loop_exit u now s)" "within_list s (pause_fires u s)" "within_list s (child_exits c code s)"
proof -
  show "within_list s (loop_begin u now ok s)" "within_list s (loop_resume u now ok s)"
    using within_list_loop_turn by (simp_all add: loop_begin_def loop_resume_def Let_def split: restart_loop.splits bool.splits)
  show "within_list s (loop_exit u now s)"
    by (auto simp: within_list_def loop_exit_def loop_defs Let_def split: restart_loop.splits)
qed (auto simp: within_list_def pause_fires_def child_exits_def at_unit_def)

lemma within_list_ops:
  "within_list s (startOne i d s)" "within_list s (stopOne i d why s)" "within_list s (run_op op i u s)"
proof -
  show start: "within_list s (startOne i d s)" for d
    by (auto simp: within_list_def startOne_def next_child_def small listed_def dest!: map_of_SomeD split: option.splits) force+
  show stop: "within_list s (stopOne i d why s)" for d why
    by (auto simp: within_list_def stopOne_def small split: option.splits)
  show "within_list s (run_op op i u s)"
    using start stop within_list_small(1,2) by (simp add: run_op_def restartOne_def Let_def split: sv_op.splits option.splits)
qed

lemma within_list_each:
  "within_list s (fst (run_each op us s))" "within_list s (fst (stop_each us s))"
proof -
  show "within_list s (fst (run_each op us s))"
  proof (induction us arbitrary: s)
    case (Cons u us)
    show ?case using Cons [of "run_op op (sv_asked s) u (sv_fresh s)"] within_list_ops(3) within_list_small(4) within_list_trans
      by (simp add: Let_def case_prod_beta) blast
  qed simp
  show "within_list s (fst (stop_each us s))"
  proof (induction us arbitrary: s)
    case (Cons u us)
    have "within_list s (stopChild i u c For_departure (sv_fresh s))" for i c by (auto simp: within_list_def small)
    then show ?case using Cons within_list_trans by (auto simp: Let_def case_prod_beta split: option.splits) blast
  qed simp
qed

lemma within_list_over_all: "within_list s (over_all kept op i s)"
  using within_list_trans [OF within_list_each(1) within_list_small(2)] by (simp add: over_all_def Let_def case_prod_beta)

lemma within_list_departure: "within_list s (stop s)"
proof -
  have "within_list s (cancel_waits ((sv_fresh s)\<lparr>sv_leaving := True\<rparr>))" by (auto simp: within_list_def small)
  then show ?thesis using within_list_trans [OF _ within_list_trans [OF within_list_each(2) within_list_small(2)]]
    by (simp add: stop_def Let_def case_prod_beta)
qed

lemma within_list_resumed:
  "within_list s (serving_exited i s)" "within_list s (serving_seen i b s)" "within_list s (serving_late i s)" "within_list s (stated i row s)"
  "within_list s (stop_exited i s)" "within_list s (stop_late i s)" "within_list s (joined i s)" "within_list s (gone i b s)"
  "within_list s (collected i s)" "within_list s (replaced i b s)" "within_list s (departed i s)"
proof -
  show "within_list s (replaced i b s)" using within_list_over_all within_list_trans [OF within_list_small(6) within_list_small(1)]
    by (simp add: replaced_def split: option.splits sv_call.splits)
  show "within_list s (stop_exited i s)" by (auto simp: within_list_def stop_exited_def small Let_def split: option.splits sv_call.splits)
  show "within_list s (stop_late i s)" by (auto simp: within_list_def stop_late_def small split: option.splits sv_call.splits stop_stage.splits)
  show "within_list s (departed i s)" by (auto simp: within_list_def departed_def small split: option.splits sv_call.splits)
qed (use within_list_small(1,2) within_list_ops(1) in \<open>simp_all add: resumed_defs Let_def split: option.splits sv_call.splits stop_for.splits\<close>)

lemma within_list_rest:
  "within_list s (sv_seen s)" "within_list s (run_over s)" "within_list s (timer_stop s)" "within_list s (served s)"
proof -
  show "within_list s (timer_stop s)" using within_list_trans [OF within_list_small(6) within_list_departure] by (simp add: timer_stop_def)
  have "within_list s t \<and> sv_phase t = sv_phase s" if "t = fold (\<lambda>(dir, u). keep_up u) us s" "set us \<subseteq> set (sv_units s)" for us t
    using that
  proof (induction us arbitrary: t rule: rev_induct)
    case (snoc x us)
    then obtain r where r: "r = fold (\<lambda>(dir, u). keep_up u) us s" "within_list s r \<and> sv_phase r = sv_phase s" by simp
    have "listed r (snd x)" using snoc.prems(2) r(2) by (auto simp: within_list_def listed_def)
    then have "within_list r (keep_up (snd x) r)" by (auto simp: within_list_def small)
    moreover have "t = keep_up (snd x) r" using snoc.prems(1) r(1) by (simp add: case_prod_unfold)
    ultimately show ?case using r(2) within_list_trans by (auto simp: small)
  qed simp
  from this [OF refl subset_refl] show "within_list s (served s)" by (auto simp: served_def within_list_def)
qed (auto simp: within_list_def sv_seen_def run_over_def split: sv_phase.splits)

lemma supervised_remove: assumes "supervised_ok s" "loops_ok s" shows "supervised_ok (removeOne i dir s)"
proof (cases "map_of (sv_units s) dir")
  case None
  then show ?thesis using within_list_supervised [OF assms(1) within_list_small(1)] by (simp add: removeOne_def)
next
  case (Some u)
  have "v = u \<or> v \<in> snd ` set (map_del dir (sv_units s))" if l: "listed s v" for v
  proof -
    obtain d where d: "(d, v) \<in> set (sv_units s)" using l unfolding listed_def by force
    have "map_wf (sv_units s)" using assms(2) by (simp add: loops_ok_def units_ok_def)
    then have "d = dir \<Longrightarrow> v = u" using d Some map_wf_mem by fastforce
    moreover have "d \<noteq> dir \<Longrightarrow> (d, v) \<in> set (map_del dir (sv_units s))" using d by (simp add: AList.delete_eq)
    ultimately show ?thesis by force
  qed
  then have "0 < un_made (sv_obj s v) \<Longrightarrow> v = u \<or> v \<in> snd ` set (map_del dir (sv_units s)) \<or> Released v \<in> set (sv_log s)" for v
    using assms(1) unfolding supervised_ok_def by blast
  then show ?thesis using assms(1) Some by (auto simp: removeOne_def Let_def supervised_ok_def small listed_def)
qed

lemma listed_take_on: assumes "map_of (sv_units s) dir = None" "listed s u" shows "listed (take_on dir s) u"
proof -
  obtain d where d: "(d, u) \<in> set (sv_units s)" using assms(2) unfolding listed_def by force
  have "(d, v) \<in> set m \<Longrightarrow> map_of m dir = None \<Longrightarrow> (d, v) \<in> set (map_set dir w m)" for d v w and m :: "(string, nat) js_map"
    by (induction m) (auto split: if_splits)
  from this [OF d assms(1)] show ?thesis unfolding listed_def take_on_def by force
qed

lemma supervised_add: assumes "supervised_ok s" "loops_ok s" shows "supervised_ok (addOne i home s)"
proof (cases "sv_call s i = Some Adding \<and> map_of (sv_units s) home = None")
  case True
  have "un_made (sv_obj s (sv_made s)) = 0" using unit_okD(8) [OF loops_unit [OF assms(2)]] by (simp add: Supervised_def)
  then have "supervised_ok (take_on home s)"
    using assms(1) True listed_take_on [of s home] by (auto simp: supervised_ok_def take_on_def Supervised_def)
  then show ?thesis using within_list_supervised [OF _ within_list_ops(1)] True by (simp add: addOne_def)
next
  case False
  then show ?thesis using assms(1) within_list_supervised [OF assms(1) within_list_small(1)]
    by (auto simp: addOne_def split: option.splits sv_call.splits)
qed

lemma supervised_adopted: assumes "supervised_ok s" shows "supervised_ok (adopted dirs s)"
proof (cases "sv_phase s = Adopting")
  case True
  then have "\<forall>u. un_made (sv_obj s u) = 0" using assms by (simp add: supervised_ok_def)
  then have "\<forall>u. un_made (sv_obj (fold take_on dirs s) u) = 0"
    by (induction dirs arbitrary: s) (simp_all add: take_on_def Supervised_def)
  then show ?thesis using True by (simp add: adopted_def supervised_ok_def)
qed (simp add: adopted_def assms)

lemma supervised_handle: assumes s: "supervised_ok s" "loops_ok s" "sv_listening s" shows "supervised_ok (handle rq s)"
proof -
  have f: "supervised_ok (sv_fresh s)" "loops_ok (sv_fresh s)" using within_list_supervised [OF s(1) within_list_small(4)] s(2) by simp_all
  have "supervised_ok (sv_await i Adding (sv_fresh s))" for i
    using f(1) s(1,3) by (auto simp: supervised_ok_def small listed_def)
  then show ?thesis
    using f(1) supervised_remove [OF f] within_list_supervised [OF f(1) within_list_over_all] within_list_supervised [OF f(1) within_list_ops(3)]
      within_list_supervised [OF f(1) within_list_small(1)] within_list_supervised [OF f(1) within_list_small(2)]
    by (simp add: handle_def over_def Let_def split: sv_op.splits option.splits)
qed

lemma supervised_step: "supervised_ok s \<Longrightarrow> loops_ok s \<Longrightarrow> supervised_ok (sv_step s e)"
  using within_list_supervised [OF _ within_list_loops(1)] within_list_supervised [OF _ within_list_loops(2)] within_list_supervised [OF _ within_list_loops(3)]
  by (cases e) (simp_all add: supervised_adopted supervised_handle supervised_add within_list_supervised [OF _ within_list_loops(4)]
      within_list_supervised [OF _ within_list_loops(5)] within_list_supervised [OF _ within_list_rest(1)] within_list_supervised [OF _ within_list_rest(2)]
      within_list_supervised [OF _ within_list_rest(3)] within_list_supervised [OF _ within_list_rest(4)] within_list_supervised [OF _ within_list_departure]
      within_list_resumed [THEN within_list_supervised [rotated]])

lemma supervised_run: "supervised_ok (sv_run b evs)"
proof (induction evs rule: rev_induct)
  case Nil
  show ?case by (simp add: sv_run_def supervised_ok_def Supervisor_def Supervised_def)
next
  case (snoc e evs)
  then show ?case using supervised_step [OF _ loops_run, of b evs] by (simp add: sv_run_def)
qed

section \<open>One child per config home\<close>

text \<open>A child that was spawned and has not exited.\<close>

definition alive :: "supervisor \<Rightarrow> nat \<Rightarrow> bool" where
  "alive s c \<longleftrightarrow> c < sv_spawned s \<and> \<not> exited s c"

lemma alive_child: "alive (sv_run b evs) c \<Longrightarrow> un_child (sv_obj (sv_run b evs) (pr_unit (sv_proc (sv_run b evs) c))) = Some c"
  using loops_run [of b evs] by (simp add: loops_ok_def procs_ok_def alive_def)

lemma alive_supervised:
  assumes "alive (sv_run b evs) c"
  shows "listed (sv_run b evs) (pr_unit (sv_proc (sv_run b evs) c)) \<or> Released (pr_unit (sv_proc (sv_run b evs) c)) \<in> set (sv_log (sv_run b evs))"
proof -
  let ?s = "sv_run b evs" and ?u = "pr_unit (sv_proc (sv_run b evs) c)"
  have "unit_ok ?s ?u" using loops_run [of b evs] by (simp add: loops_ok_def)
  then have "0 < un_made (sv_obj ?s ?u)" using alive_child [OF assms] unfolding unit_ok_def Let_def by (metis bot_nat_0.not_eq_extremum restart_loop.distinct(1) not_less0)
  then show ?thesis using supervised_run [of b evs] unfolding supervised_ok_def by blast
qed



section \<open>Leaving nothing behind\<close>

text \<open>Only a turn of a loop starts a child.\<close>

lemma turn_spawns:
  "sv_spawned (loop_turn u wait now ok s) = (if un_wanted (sv_obj s u) \<and> \<not> sv_leaving s \<and> ok then sv_spawned s + 1 else sv_spawned s)"
  "sv_leaving (loop_turn u wait now ok s) = sv_leaving s"
  by (auto simp: loop_turn_def took_eq small Let_def)

lemma op_spawns [simp]:
  "sv_spawned (startOne i d s) = sv_spawned s" "sv_spawned (stopOne i d why s) = sv_spawned s" "sv_spawned (run_op op i u s) = sv_spawned s"
proof -
  show a: "sv_spawned (startOne i d s) = sv_spawned s" for d by (simp add: startOne_def next_child_def small split: option.splits)
  show b: "sv_spawned (stopOne i d why s) = sv_spawned s" for d why by (simp add: stopOne_def small split: option.splits)
  show "sv_spawned (run_op op i u s) = sv_spawned s"
    by (simp add: run_op_def restartOne_def Let_def a b small split: sv_op.splits option.splits)
qed

lemma op_leaving: "sv_leaving (startOne i d s) = sv_leaving s" by (simp add: startOne_def next_child_def small split: option.splits)

lemma each_spawns:
  "sv_spawned (fst (run_each op us s)) = sv_spawned s \<and> sv_leaving (fst (run_each op us s)) = sv_leaving s"
  "sv_spawned (fst (stop_each us s)) = sv_spawned s \<and> sv_leaving (fst (stop_each us s)) = sv_leaving s"
  "sv_spawned (fold take_on dirs s) = sv_spawned s \<and> sv_leaving (fold take_on dirs s) = sv_leaving s"
  "sv_spawned (fold (\<lambda>(dir, u). keep_up u) us' s) = sv_spawned s \<and> sv_leaving (fold (\<lambda>(dir, u). keep_up u) us' s) = sv_leaving s"
proof -
  show "sv_spawned (fst (run_each op us s)) = sv_spawned s \<and> sv_leaving (fst (run_each op us s)) = sv_leaving s"
    by (induction us arbitrary: s) (simp_all add: Let_def case_prod_beta run_op_frame sv_fresh_def)
  show "sv_spawned (fst (stop_each us s)) = sv_spawned s \<and> sv_leaving (fst (stop_each us s)) = sv_leaving s"
    by (induction us arbitrary: s) (auto simp: Let_def case_prod_beta small split: option.splits)
  show "sv_spawned (fold take_on dirs s) = sv_spawned s \<and> sv_leaving (fold take_on dirs s) = sv_leaving s"
    by (induction dirs arbitrary: s) (simp_all add: take_on_def)
  show "sv_spawned (fold (\<lambda>(dir, u). keep_up u) us' s) = sv_spawned s \<and> sv_leaving (fold (\<lambda>(dir, u). keep_up u) us' s) = sv_leaving s"
    by (induction us' arbitrary: s) (simp_all add: keep_up_def at_unit_def case_prod_beta)
qed

lemma stop_spawns: "sv_spawned (stop s) = sv_spawned s" "sv_leaving (stop s)"
  using each_spawns(2) by (simp_all add: stop_def Let_def case_prod_beta small)

lemma handle_spawns: "sv_spawned (handle rq s) = sv_spawned s" "sv_leaving (handle rq s) = sv_leaving s"
proof -
  have over: "sv_spawned (over_all k op i s) = sv_spawned s" "sv_leaving (over_all k op i s) = sv_leaving s" for k op i s
    using each_spawns(1) by (simp_all add: over_all_def Let_def case_prod_beta sv_await_def)
  have rem: "sv_spawned (removeOne i d s) = sv_spawned s" "sv_leaving (removeOne i d s) = sv_leaving s" for i d s
    by (simp_all add: removeOne_def small Let_def split: option.splits)
  show "sv_spawned (handle rq s) = sv_spawned s" "sv_leaving (handle rq s) = sv_leaving s"
    by (simp_all add: handle_def over_def Let_def over rem run_op_frame sv_await_def answer_def sv_fresh_def split: sv_op.splits option.splits)
qed

lemma resumed_spawns:
  shows "sv_spawned (serving_exited i s) = sv_spawned s \<and> sv_leaving (serving_exited i s) = sv_leaving s"
    "sv_spawned (serving_seen i b s) = sv_spawned s \<and> sv_leaving (serving_seen i b s) = sv_leaving s"
    "sv_spawned (serving_late i s) = sv_spawned s \<and> sv_leaving (serving_late i s) = sv_leaving s"
    "sv_spawned (stated i row s) = sv_spawned s \<and> sv_leaving (stated i row s) = sv_leaving s"
    "sv_spawned (stop_exited i s) = sv_spawned s \<and> sv_leaving (stop_exited i s) = sv_leaving s"
    "sv_spawned (stop_late i s) = sv_spawned s \<and> sv_leaving (stop_late i s) = sv_leaving s"
    "sv_spawned (joined i s) = sv_spawned s \<and> sv_leaving (joined i s) = sv_leaving s"
    "sv_spawned (gone i b s) = sv_spawned s \<and> sv_leaving (gone i b s) = sv_leaving s"
    "sv_spawned (addOne i d s) = sv_spawned s \<and> sv_leaving (addOne i d s) = sv_leaving s"
    "sv_spawned (collected i s) = sv_spawned s \<and> sv_leaving (collected i s) = sv_leaving s"
    "sv_spawned (replaced i b s) = sv_spawned s \<and> sv_leaving (replaced i b s) = sv_leaving s"
    "sv_spawned (departed i s) = sv_spawned s \<and> sv_leaving (departed i s) = sv_leaving s"
proof -
  have over: "sv_spawned (over_all k op i s) = sv_spawned s" "sv_leaving (over_all k op i s) = sv_leaving s" for k op i s
    using each_spawns(1) by (simp_all add: over_all_def Let_def case_prod_beta sv_await_def)
  show "sv_spawned (serving_exited i s) = sv_spawned s \<and> sv_leaving (serving_exited i s) = sv_leaving s"
    "sv_spawned (serving_seen i b s) = sv_spawned s \<and> sv_leaving (serving_seen i b s) = sv_leaving s"
    "sv_spawned (serving_late i s) = sv_spawned s \<and> sv_leaving (serving_late i s) = sv_leaving s"
    "sv_spawned (stated i row s) = sv_spawned s \<and> sv_leaving (stated i row s) = sv_leaving s"
    "sv_spawned (stop_exited i s) = sv_spawned s \<and> sv_leaving (stop_exited i s) = sv_leaving s"
    "sv_spawned (stop_late i s) = sv_spawned s \<and> sv_leaving (stop_late i s) = sv_leaving s"
    "sv_spawned (joined i s) = sv_spawned s \<and> sv_leaving (joined i s) = sv_leaving s"
    "sv_spawned (gone i b s) = sv_spawned s \<and> sv_leaving (gone i b s) = sv_leaving s"
    "sv_spawned (addOne i d s) = sv_spawned s \<and> sv_leaving (addOne i d s) = sv_leaving s"
    "sv_spawned (collected i s) = sv_spawned s \<and> sv_leaving (collected i s) = sv_leaving s"
    "sv_spawned (replaced i b s) = sv_spawned s \<and> sv_leaving (replaced i b s) = sv_leaving s"
    "sv_spawned (departed i s) = sv_spawned s \<and> sv_leaving (departed i s) = sv_leaving s"
    by (simp_all add: resumed_defs over op_leaving Let_def small take_on_def split: option.splits sv_call.splits stop_stage.splits stop_for.splits)
qed

lemma leaving_step: assumes "sv_leaving s" shows "sv_spawned (sv_step s e) = sv_spawned s \<and> sv_leaving (sv_step s e)"
proof (cases e)
  case (Exit_seen u now)
  then show ?thesis using assms by (simp add: loop_exit_def Let_def small split: restart_loop.splits)
qed (use assms in \<open>simp_all add: resumed_spawns adopted_def served_def each_spawns sv_seen_def run_over_def loop_begin_def Let_def turn_spawns
    loop_resume_def pause_fires_def at_unit_def child_exits_def handle_spawns stop_spawns timer_stop_def
    split: sv_phase.splits restart_loop.splits bool.splits\<close>)

lemma leaving_steps: "sv_leaving s \<Longrightarrow> sv_spawned (foldl sv_step s evs) = sv_spawned s \<and> sv_leaving (foldl sv_step s evs)"
  by (induction evs arbitrary: s) (simp_all add: leaving_step)


text \<open>
  C16: once the supervisor's departure has been answered, and with it the control socket given up, a
  child that still runs is one \<open>removeOne\<close> had let go of (which leaves it running by intent): the
  object it was spawned for is not in the list of units, and its release was logged. Whatever still
  happens, no child is ever started.
\<close>

theorem departs_leaving_nothing:
  assumes "s = sv_run b evs" "sv_answer s i = Some Departed"
  shows "(\<forall>c. alive s c \<longrightarrow> \<not> listed s (pr_unit (sv_proc s c)) \<and> Released (pr_unit (sv_proc s c)) \<in> set (sv_log s))
    \<and> sv_spawned (foldl sv_step s later) = sv_spawned s"
proof -
  have h: "sv_leaving s" "\<And>u c. listed s u \<Longrightarrow> un_child (sv_obj s u) = Some c \<Longrightarrow> exited s c"
    using leave_run [of b evs] assms by (auto simp: leave_ok_def)
  have "\<not> listed s (pr_unit (sv_proc s c))" if "alive s c" for c
    using h(2) alive_child [of b evs c] that assms(1) by (auto simp: alive_def)
  then show ?thesis using leaving_steps [OF h(1)] alive_supervised assms(1) by blast
qed

section \<open>Starts are answered\<close>

definition settled :: "supervisor \<Rightarrow> nat \<Rightarrow> nat \<Rightarrow> bool" where
  "settled s u i \<longleftrightarrow> (\<exists>c. sv_call s i = Some (Serving u c)) \<or> sv_answer s i \<noteq> None"

lemma turn_settles: "i \<in> set (un_waiting (sv_obj s u)) \<Longrightarrow> settled (loop_turn u wait now ok s) u i"
  by (cases "un_wanted (sv_obj s u) \<and> \<not> sv_leaving s \<and> ok")
    (auto simp: settled_def loop_spawn_fields abandoned_calls loop_turn_def [of u wait now False] loop_turn_def [of u wait now ok])

lemma begin_keeps: assumes "requests_ok s" "settled s u i" shows "settled (loop_begin v now ok s) u i"
proof -
  have "settled (loop_turn v w now ok s) u i" for w
  proof (cases "sv_answer s i")
    case None
    then obtain c where c: "sv_call s i = Some (Serving u c)" using assms(2) by (auto simp: settled_def)
    then have "i \<notin> set (un_waiting (sv_obj s v))" using assms(1) unfolding requests_ok_def by (metis option.inject sv_call.distinct(1))
    then show ?thesis using c
      by (cases "un_wanted (sv_obj s v) \<and> \<not> sv_leaving s \<and> ok")
        (auto simp: settled_def loop_spawn_fields abandoned_calls loop_turn_def [of v w now False] loop_turn_def [of v w now ok])
  next
    case (Some a)
    then show ?thesis
      by (cases "un_wanted (sv_obj s v) \<and> \<not> sv_leaving s \<and> ok")
        (auto simp: settled_def loop_spawn_fields abandoned_calls loop_turn_def [of v w now False] loop_turn_def [of v w now ok])
  qed
  then show ?thesis using assms(2) by (simp add: loop_begin_def Let_def)
qed

text \<open>
  C36: no start is left waiting. Whenever a start waits for a child, the restart loop of its unit has
  one turn left to take, and at the latest with that turn the start has a child to watch or is
  answered, even if the unit was stopped, removed or given up meanwhile; the one exception is a unit
  whose spawning once threw.
\<close>

theorem starts_are_answered:
  assumes "s = sv_run b evs" "sv_call s i = Some (Next u)" "\<not> un_failed (sv_obj s u)"
  shows "let t = foldl sv_step s [Fire u, Resume u now ok, Begin u now ok] in
    (\<exists>c. sv_call t i = Some (Serving u c)) \<or> sv_answer t i \<noteq> None"
proof -
  have ok: "loops_ok s" "requests_ok s" using loops_run calls_run assms(1) by simp_all
  then have w: "i \<in> set (un_waiting (sv_obj s u))" using assms(2) by (simp add: requests_ok_def)
  note d = unit_okD [OF loops_unit [OF ok(1)], of u]
  have "un_waiting (sv_obj s u) \<noteq> []" using w by auto
  then have left: "un_child (sv_obj s u) = None" "un_done (sv_obj s u) < un_made (sv_obj s u)" using d(7) assms(3) by blast+
  let ?f = "pause_fires u s"
  have w': "i \<in> set (un_waiting (sv_obj ?f u))" using w by (simp add: pause_fires_def at_unit_def)
  have "settled (loop_begin u now ok (loop_resume u now ok ?f)) u i"
  proof (cases "un_loop (sv_obj s u)")
    case Resting
    then have "loop_resume u now ok ?f = ?f" "un_loop (sv_obj ?f u) = Resting"
      by (simp_all add: loop_resume_def pause_fires_def at_unit_def cut_short_def)
    moreover have "un_done (sv_obj ?f u) < un_made (sv_obj ?f u)" "\<not> un_failed (sv_obj ?f u)"
      using left assms(3) by (simp_all add: pause_fires_def at_unit_def)
    ultimately show ?thesis using turn_settles [OF w'] by (simp add: loop_begin_def Let_def)
  next
    case (Running c t w)
    then show ?thesis using d(5) left by simp
  next
    case (Pausing p b)
    then have "un_loop (sv_obj ?f u) = Pausing p True" by (simp add: pause_fires_def at_unit_def cut_short_def)
    then have "settled (loop_resume u now ok ?f) u i" using turn_settles [OF w'] by (simp add: loop_resume_def)
    then show ?thesis using begin_keeps calls_loops(2,4) ok(2) by blast
  qed
  then show ?thesis by (simp add: settled_def)
qed

section \<open>How long a restart waits\<close>

definition pace :: "supervised \<Rightarrow> int option" where
  "pace x = (case un_loop x of Resting \<Rightarrow> None | Running c t w \<Rightarrow> Some w | Pausing w b \<Rightarrow> Some w)"

definition within_backoff :: "backoff \<Rightarrow> int \<Rightarrow> bool" where
  "within_backoff b w \<longleftrightarrow> (\<exists>k. w = min (minMs b * 2 ^ k) (maxMs b))"

definition paced :: "supervisor \<Rightarrow> bool" where
  "paced s \<longleftrightarrow> (\<forall>u w. pace (sv_obj s u) = Some w \<longrightarrow> within_backoff (sv_backoff s) w) \<and> (\<forall>u w. Restarting u w \<in> set (sv_log s) \<longrightarrow> within_backoff (sv_backoff s) w)"

lemma pace_cut [simp]: "pace (cut_short x) = pace x"
  by (simp add: pace_def cut_short_def split: restart_loop.splits)

lemma pace_upd [simp]:
  "pace (x\<lparr>un_wanted := b\<rparr>) = pace x" "pace (x\<lparr>un_waiting := l\<rparr>) = pace x" "pace (x\<lparr>un_child := c\<rparr>) = pace x" "pace (x\<lparr>un_made := n\<rparr>) = pace x"
  "pace (Supervised d) = None"
  by (simp_all add: pace_def Supervised_def)

lemma within_next: "0 \<le> minMs b \<Longrightarrow> minMs b \<le> maxMs b \<Longrightarrow> within_backoff b w \<Longrightarrow> within_backoff b (min (w * 2) (maxMs b))"
proof -
  assume b: "0 \<le> minMs b" "minMs b \<le> maxMs b" and "within_backoff b w"
  then obtain k where "w = min (minMs b * 2 ^ k) (maxMs b)" by (auto simp: within_backoff_def)
  then have "min (w * 2) (maxMs b) = min (minMs b * 2 ^ Suc k) (maxMs b)" using b by (auto simp: min_def)
  then show ?thesis unfolding within_backoff_def by blast
qed

lemma within_first: "minMs b \<le> maxMs b \<Longrightarrow> within_backoff b (minMs b)"
  unfolding within_backoff_def by (rule exI [of _ 0]) simp

text \<open>What changes neither the pace of a loop nor says that one restarts.\<close>

definition same_pace :: "supervisor \<Rightarrow> supervisor \<Rightarrow> bool" where
  "same_pace s s' \<longleftrightarrow> (\<forall>u. pace (sv_obj s' u) = pace (sv_obj s u) \<or> pace (sv_obj s' u) = None) \<and> sv_backoff s' = sv_backoff s
     \<and> (\<forall>u w. Restarting u w \<in> set (sv_log s') \<longrightarrow> Restarting u w \<in> set (sv_log s))"

lemma same_pace_refl [simp]: "same_pace s s" by (simp add: same_pace_def)

lemma same_pace_trans: "same_pace s s' \<Longrightarrow> same_pace s' s'' \<Longrightarrow> same_pace s s''"
  unfolding same_pace_def by metis

lemma same_paced: "paced s \<Longrightarrow> same_pace s s' \<Longrightarrow> paced s'"
  unfolding paced_def same_pace_def by (metis option.distinct(1))


lemma same_small:
  "same_pace s (answer i a s)" "same_pace s (sv_await i c s)" "(\<And>v w. l \<noteq> Restarting v w) \<Longrightarrow> same_pace s (say l s)" "same_pace s (sv_fresh s)" "same_pace s (cancel_waits s)"
  "same_pace s (s\<lparr>sv_timers := n\<rparr>)" "same_pace s (s\<lparr>sv_signals := g\<rparr>)" "same_pace s (s\<lparr>sv_phase := p\<rparr>)" "same_pace s (s\<lparr>sv_listening := b\<rparr>)"
  "same_pace s (s\<lparr>sv_leaving := b\<rparr>)" "same_pace s (s\<lparr>sv_units := us\<rparr>)" "(\<And>x. pace (f x) = pace x) \<Longrightarrow> same_pace s (at_unit u f s)"
  "same_pace s (take_on d s)"
  by (auto simp: same_pace_def small take_on_def)

lemma same_ops:
  "same_pace s (startOne i d s)" "same_pace s (stopOne i d why s)" "same_pace s (run_op op i u s)" "same_pace s (removeOne i d s)"
proof -
  show start: "same_pace s (startOne i d s)" for d
    by (auto simp: same_pace_def startOne_def next_child_def small split: option.splits)
  show stop: "same_pace s (stopOne i d why s)" for d why
    by (auto simp: same_pace_def stopOne_def small split: option.splits)
  show "same_pace s (removeOne i d s)"
    by (auto simp: same_pace_def removeOne_def small Let_def split: option.splits)
  show "same_pace s (run_op op i u s)"
    using start stop same_small(1,2) by (simp add: run_op_def restartOne_def Let_def split: sv_op.splits option.splits)
qed

lemma same_each:
  "same_pace s (fst (run_each op us s))" "same_pace s (fst (stop_each us s))" "same_pace s (fold take_on dirs s)"
  "same_pace s (fold (\<lambda>(dir, u). keep_up u) us' s)"
proof -
  show "same_pace s (fst (run_each op us s))"
  proof (induction us arbitrary: s)
    case (Cons u us)
    show ?case using Cons [of "run_op op (sv_asked s) u (sv_fresh s)"] same_ops(3) same_small(4) same_pace_trans
      by (simp add: Let_def case_prod_beta) blast
  qed simp
  show "same_pace s (fst (stop_each us s))"
  proof (induction us arbitrary: s)
    case (Cons u us)
    have "same_pace s (stopChild i u c For_departure (sv_fresh s))" for i c by (auto simp: same_pace_def small)
    then show ?case using Cons same_pace_trans by (auto simp: Let_def case_prod_beta split: option.splits) blast
  qed simp
  show "same_pace s (fold take_on dirs s)"
    by (induction dirs arbitrary: s) (auto intro: same_pace_trans same_small(13))
  have "same_pace s (keep_up u s)" for u s by (simp add: same_pace_def small)
  then show "same_pace s (fold (\<lambda>(dir, u). keep_up u) us' s)"
    by (induction us' arbitrary: s) (auto intro: same_pace_trans)
qed

lemma same_over_all: "same_pace s (over_all kept op i s)"
  using same_pace_trans [OF same_each(1) same_small(2)] by (simp add: over_all_def Let_def case_prod_beta)

lemma same_handle: "same_pace s (handle rq s)"
proof -
  have "same_pace (sv_fresh s) t \<Longrightarrow> same_pace s t" for t using same_pace_trans same_small(4) by blast
  then show ?thesis using same_over_all [of "sv_fresh s"] same_ops [of "sv_fresh s"] same_small(1,2) [of "sv_fresh s"]
    by (simp add: handle_def over_def Let_def split: sv_op.splits option.splits)
qed

lemma same_departure: "same_pace s (stop s)"
proof -
  have "same_pace s (cancel_waits ((sv_fresh s)\<lparr>sv_leaving := True\<rparr>))" by (auto simp: same_pace_def small)
  then show ?thesis using same_pace_trans [OF _ same_pace_trans [OF same_each(2) same_small(2)]]
    by (simp add: stop_def Let_def case_prod_beta)
qed

lemma same_resumed:
  "same_pace s (serving_exited i s)" "same_pace s (serving_seen i b s)" "same_pace s (serving_late i s)" "same_pace s (stated i row s)"
  "same_pace s (stop_exited i s)" "same_pace s (stop_late i s)" "same_pace s (joined i s)" "same_pace s (gone i b s)"
  "same_pace s (addOne i home s)" "same_pace s (collected i s)" "same_pace s (replaced i b s)" "same_pace s (departed i s)"
proof -
  show "same_pace s (addOne i home s)" using same_small(1) same_pace_trans [OF same_small(13) same_ops(1)]
    by (simp add: addOne_def split: option.splits sv_call.splits)
  show "same_pace s (replaced i b s)" using same_over_all same_pace_trans [OF same_small(6) same_small(1)]
    by (simp add: replaced_def split: option.splits sv_call.splits)
  show "same_pace s (stop_exited i s)" by (simp add: same_pace_def stop_exited_def small Let_def split: option.splits sv_call.splits)
  show "same_pace s (stop_late i s)" by (simp add: same_pace_def stop_late_def small split: option.splits sv_call.splits stop_stage.splits)
  show "same_pace s (departed i s)" by (simp add: same_pace_def departed_def small split: option.splits sv_call.splits)
qed (use same_small(1,2) same_ops(1) in \<open>simp_all add: resumed_defs Let_def split: option.splits sv_call.splits stop_for.splits\<close>)

lemma same_rest:
  "same_pace s (adopted d s)" "same_pace s (served s)" "same_pace s (sv_seen s)" "same_pace s (run_over s)" "same_pace s (pause_fires u s)"
  "same_pace s (child_exits c code s)" "same_pace s (timer_stop s)"
proof -
  show "same_pace s (adopted d s)" using same_each(3) [of s d] by (simp add: adopted_def same_pace_def)
  show "same_pace s (served s)" using same_each(4) [of s "sv_units s"] by (simp add: served_def same_pace_def)
  show "same_pace s (timer_stop s)" using same_pace_trans [OF same_small(6) same_departure] by (simp add: timer_stop_def)
qed (auto simp: same_pace_def sv_seen_def run_over_def pause_fires_def at_unit_def child_exits_def split: sv_phase.splits)

lemma backoff_step: "sv_backoff (sv_step s e) = sv_backoff s"
proof -
  have same: "same_pace s t \<Longrightarrow> sv_backoff t = sv_backoff s" for t by (simp add: same_pace_def)
  have "sv_backoff (loop_turn u w now ok s) = sv_backoff s" for u w now ok by (simp add: loop_turn_def took_eq small Let_def)
  then have "sv_backoff (loop_begin u now ok s) = sv_backoff s" "sv_backoff (loop_resume u now ok s) = sv_backoff s" "sv_backoff (loop_exit u now s) = sv_backoff s"
    for u now ok by (simp_all add: loop_begin_def loop_resume_def loop_exit_def Let_def small split: restart_loop.splits bool.splits)
  then show ?thesis using same_rest [THEN same] same_handle [THEN same] same_departure [THEN same] same_resumed [THEN same] by (cases e) simp_all
qed

lemma pacedD: "paced s \<Longrightarrow> pace (sv_obj s u) = Some w \<Longrightarrow> within_backoff (sv_backoff s) w"
  by (simp add: paced_def)

lemma paced_turn: "paced s \<Longrightarrow> within_backoff (sv_backoff s) w \<Longrightarrow> paced (loop_turn u w now ok s)"
proof (cases "un_wanted (sv_obj s u) \<and> \<not> sv_leaving s \<and> ok")
  case True
  then have p: "un_wanted (sv_obj s u)" "\<not> sv_leaving s" "ok = True" by auto
  assume "paced s" "within_backoff (sv_backoff s) w"
  moreover have "sv_backoff (loop_turn u w now True s) = sv_backoff s" using p by (simp add: loop_turn_def took_eq small Let_def)
  ultimately show ?thesis unfolding p(3) paced_def loop_spawn_fields [OF p(1,2)] by (auto simp: pace_def)
next
  case False
  assume "paced s"
  then show ?thesis using False same_paced [of s "loop_over u s"] same_paced [of s "loop_threw u s"]
    by (auto simp: loop_turn_def same_pace_def pace_def)
qed

lemma paced_step:
  assumes s: "paced s" and b: "0 \<le> minMs (sv_backoff s)" "minMs (sv_backoff s) \<le> maxMs (sv_backoff s)"
  shows "paced (sv_step s e)"
proof -
  have turn: "paced (loop_begin u now ok s)" "paced (loop_resume u now ok s)" for u now ok
  proof -
    show "paced (loop_begin u now ok s)" using paced_turn [OF s within_first [OF b(2)]] s by (simp add: loop_begin_def Let_def)
    have "within_backoff (sv_backoff s) w" if "un_loop (sv_obj s u) = Pausing w p" for w p
      using s by (rule pacedD [where u = u]) (simp add: that pace_def)
    then show "paced (loop_resume u now ok s)" using paced_turn [OF s within_next [OF b]] s
      by (auto simp: loop_resume_def split: restart_loop.splits bool.splits)
  qed
  have ex: "paced (loop_exit u now s)" for u now
  proof -
    have w: "within_backoff (sv_backoff s) w" if "un_loop (sv_obj s u) = Running c t w" for c t w using s by (rule pacedD [where u = u]) (simp add: that pace_def)
    have "paced (loop_over u (say (Ended_child u) (at_unit u (\<lambda>x. x\<lparr>un_child := None\<rparr>) s)))"
      by (rule same_paced [OF s]) (auto simp: same_pace_def small pace_def)
    moreover have "paced (say (Restarting u w) (at_unit u (\<lambda>x. x\<lparr>un_loop := Pausing w False\<rparr>) (at_unit u (\<lambda>x. x\<lparr>un_child := None\<rparr>) s)))"
      if "within_backoff (sv_backoff s) w" for w using s that by (auto simp: paced_def small pace_def)
    ultimately show ?thesis using s w within_first [OF b(2)] by (simp add: loop_exit_def Let_def split: restart_loop.splits)
  qed
  show ?thesis using turn ex same_paced [OF s] same_rest same_handle same_departure same_resumed by (cases e) (simp_all)
qed



text \<open>
  Every restart that is announced waits one of the lengths of the backoff: the shortest, doubled some
  number of times, and never more than the longest.
\<close>

theorem restarts_wait_within_the_backoff:
  assumes "0 \<le> minMs b" "minMs b \<le> maxMs b" "Restarting u w \<in> set (sv_log (sv_run b evs))"
  shows "\<exists>k. w = min (minMs b * 2 ^ k) (maxMs b)"
proof -
  have "paced (sv_run b evs) \<and> sv_backoff (sv_run b evs) = b"
  proof (induction evs rule: rev_induct)
    case Nil
    show ?case by (simp add: sv_run_def paced_def Supervisor_def)
  next
    case (snoc e evs)
    then show ?case using paced_step [of "sv_run b evs" e] assms(1,2) backoff_step [of "sv_run b evs" e] by (simp add: sv_run_def)
  qed
  then show ?thesis using assms(3) by (auto simp: paced_def within_backoff_def)
qed

section \<open>Examples\<close>

text \<open>Two config homes, started; the first crashes and is in its pause.\<close>

definition crashed :: "sv_event list" where
  "crashed = [Adopt [''a'', ''b''], Serve, Begin 0 0 True, Begin 1 0 True, Child_exits 0 1, Exit_seen 0 9]"


theorem departs_leaving_nothing_witness:
  "let s = sv_run BACKOFF (crashed @ [Signal, Stop_late 1, Child_exits 1 0, Stop_exited 1, Depart 0]) in
   sv_answer s 0 = Some Departed \<and> sv_spawned (foldl sv_step s [Resume 0 10 True]) = sv_spawned s"
proof -
  have "sv_answer (sv_run BACKOFF (crashed @ [Signal, Stop_late 1, Child_exits 1 0, Stop_exited 1, Depart 0])) 0 = Some Departed" by code_simp
  then show ?thesis unfolding Let_def using departs_leaving_nothing [OF refl] by blast
qed

theorem starts_are_answered_witness:
  "let s = sv_run BACKOFF (crashed @ [Request \<lparr>rq_op = Op_start, rq_dir = Some ''a'', rq_all = False\<rparr>]);
       t = foldl sv_step s [Fire 0, Resume 0 600 True, Begin 0 600 True] in
   sv_call s 0 = Some (Next 0) \<and> ((\<exists>c. sv_call t 0 = Some (Serving 0 c)) \<or> sv_answer t 0 \<noteq> None)"
proof -
  let ?s = "sv_run BACKOFF (crashed @ [Request \<lparr>rq_op = Op_start, rq_dir = Some ''a'', rq_all = False\<rparr>])"
  have s: "sv_call ?s 0 = Some (Next 0)" "\<not> un_failed (sv_obj ?s 0)" by code_simp+
  show ?thesis using starts_are_answered [OF refl s, of 600 True] s(1) unfolding Let_def by blast
qed

section \<open>Where the supervisor falls short\<close>

text \<open>
  A unit between two attempts has no child, and a stop of it is refused as if it were not looked
  after; the loop goes on, so an instance that fails as soon as it starts cannot be stopped.
\<close>

lemma failing_instance_cannot_be_stopped:
  "let s = sv_run BACKOFF (crashed @ [Request \<lparr>rq_op = Op_stop, rq_dir = Some ''a'', rq_all = False\<rparr>, Fire 0, Resume 0 600 True]) in
   sv_answer s 0 = Some (Refused Instance_unreachable) \<and> un_child (sv_obj s 0) = Some 2 \<and> alive s 2"
  by code_simp

text \<open>A stop of one instance ends the pause of every other.\<close>

lemma stop_cuts_the_pause_of_others:
  "un_loop (sv_obj (sv_run BACKOFF crashed) 0) = Pausing 500 False"
  "un_loop (sv_obj (sv_run BACKOFF (crashed @ [Request \<lparr>rq_op = Op_stop, rq_dir = Some ''b'', rq_all = False\<rparr>])) 0) = Pausing 500 True"
  by code_simp+

text \<open>
  A signal that arrives while the settings are still being read is answered with nobody to tell that
  the run is over: the supervisor then binds its socket and stays, with no child, refusing every start.
\<close>

lemma early_signal_is_lost:
  "let s = sv_run BACKOFF [Signal, Depart 0, Adopt [''a''], Serve, Begin 0 0 True, Request \<lparr>rq_op = Op_start, rq_dir = Some ''a'', rq_all = False\<rparr>] in
   sv_answer s 0 = Some Departed \<and> sv_phase s = Up \<and> sv_listening s \<and> sv_spawned s = 0 \<and> sv_answer s 1 = Some (Refused Instance_unreachable)"
  by code_simp

text \<open>
  A config home that is removed while its child runs and added again is a new unit, which knows
  nothing of the child that was left: it starts a second one beside it, which only the lock of the
  instance can end, and a departure stops the second and not the first.
\<close>

definition added_again :: "sv_event list" where
  "added_again = [Adopt [''a''], Serve, Begin 0 0 True, Request \<lparr>rq_op = Op_remove, rq_dir = Some ''a'', rq_all = False\<rparr>,
     Request \<lparr>rq_op = Op_add, rq_dir = Some ''a'', rq_all = False\<rparr>, Harness 1 ''a'', Begin 1 5 True]"

lemma added_again_beside_its_child:
  "let s = sv_run BACKOFF added_again in
   alive s 0 \<and> alive s 1 \<and> un_dir (sv_obj s (pr_unit (sv_proc s 0))) = ''a'' \<and> un_dir (sv_obj s (pr_unit (sv_proc s 1))) = ''a''
   \<and> map_of (sv_units s) ''a'' = Some 1 \<and> Released 0 \<in> set (sv_log s)"
  "let s = sv_run BACKOFF (added_again @ [Signal, Stop_late 3, Child_exits 1 0, Stop_exited 3, Depart 2]) in
   sv_answer s 2 = Some Departed \<and> alive s 0 \<and> \<not> alive s 1"
  by code_simp+

text \<open>
  A spawn that throws rejects the promise the loops of the unit are chained to: the next start waits
  for a child no loop will ever bring.
\<close>

lemma failed_spawn_ends_the_loops:
  "let s = sv_run BACKOFF [Adopt [''a''], Serve, Begin 0 0 False, Request \<lparr>rq_op = Op_start, rq_dir = Some ''a'', rq_all = False\<rparr>, Begin 0 1 True] in
   sv_call s 0 = Some (Next 0) \<and> sv_spawned s = 0"
  by code_simp

end
