(* ===== verification/Mesh.thy ===== *)
theory Mesh
  imports Relay Transport Containment
begin

text \<open>
  The links between instances: \<open>src/mesh/mesh.ts\<close> and the proofs of \<open>src/mesh/keys.ts\<close>.

  The mesh is a record of its maps. A \<open>Link\<close> is an object of the store \<open>ms_link\<close>, named in the map of
  links by its peer and in \<open>ms_linkOf\<close> by its connection. What is done outside, a frame that is sent
  or deferred, a connection that is closed, a call of the relay or of the instance, is kept in order
  in \<open>ms_done\<close>. A greeting and a dial are cut at their waits: a greeting is a \<open>greeting\<close> under its number
  until its verification ends, a dial is known by the id of the key it minted. Random ids, the clock,
  what a fetch of a key answered and how a connection ended are carried by the events.
  Base64 and JSON decoding and the check of a signature are the platform's and arguments.
\<close>

section \<open>Fields\<close>

text \<open>\<open>typeof x === "string"\<close>, \<open>typeof x === "boolean"\<close>\<close>

fun as_string :: "json option \<Rightarrow> string option" where
  "as_string (Some (JStr t)) = Some t"
| "as_string _ = None"

fun members_of :: "json \<Rightarrow> (string \<times> json) list" where
  "members_of (JObj ms) = ms"
| "members_of _ = []"

fun as_boolean :: "json option \<Rightarrow> bool option" where
  "as_boolean (Some (JBool b)) = Some b"
| "as_boolean _ = None"

section \<open>keys.ts\<close>

definition MESH_VER :: int where
  "MESH_VER = 1"

definition ALLOWED_ALGS :: "string list" where
  "ALLOWED_ALGS = [''EdDSA'']"

definition PROOF_LIFETIME_MS :: int where
  "PROOF_LIFETIME_MS = 10000"

record mesh_jwk =
  jk_kid :: string
  jk_key :: string

record parsed_proof =
  pp_kid :: string
  pp_alg :: string
  pp_claim :: "(string \<times> json) list"

text \<open>\<open>decode\<close>: a part is a JSON object or nothing.\<close>

definition decode_part :: "(string \<Rightarrow> json option) \<Rightarrow> string \<Rightarrow> (string \<times> json) list option" where
  "decode_part json_of part = (case json_of part of Some (JObj members) \<Rightarrow> Some members | _ \<Rightarrow> None)"

definition parseProof :: "(string \<Rightarrow> json option) \<Rightarrow> string \<Rightarrow> parsed_proof option" where
  "parseProof json_of jws =
     (let parts = split_on CHR ''.'' jws in
      if length parts \<noteq> 3 then None
      else case decode_part json_of (parts ! 0) of
        None \<Rightarrow> None
      | Some header \<Rightarrow>
          (case (as_string (map_of header ''alg''), as_string (map_of header ''kid'')) of
             (Some alg, Some kid) \<Rightarrow>
               if alg \<notin> set ALLOWED_ALGS \<or> kid = [] then None
               else (case decode_part json_of (parts ! 1) of
                       None \<Rightarrow> None
                     | Some claim \<Rightarrow>
                         if list_all (\<lambda>f. map_of claim f \<noteq> None) [''ver'', ''iss'', ''aud'', ''challenge'', ''exp'']
                         then Some \<lparr>pp_kid = kid, pp_alg = alg, pp_claim = claim\<rparr> else None)
           | _ \<Rightarrow> None))"

text \<open>\<open>signed input signature jwk\<close>: the key could be read and made the signature.\<close>

definition verifyProof :: "(string \<Rightarrow> string \<Rightarrow> mesh_jwk \<Rightarrow> bool) \<Rightarrow> string \<Rightarrow> mesh_jwk \<Rightarrow> bool" where
  "verifyProof signed jws jwk \<longleftrightarrow>
     (let parts = split_on CHR ''.'' jws in
      length parts = 3 \<and> signed (parts ! 0 @ CHR ''.'' # parts ! 1) (parts ! 2) jwk)"

section \<open>State\<close>

type_synonym endpoint = string
type_synonym conn_no = nat

definition GLARE_CLOSE :: int where
  "GLARE_CLOSE = 4000"

definition RECONNECT_MAX_MS :: int where
  "RECONNECT_MAX_MS = 60000"

definition JWK_RATE_LIMIT :: int where
  "JWK_RATE_LIMIT = 20"

definition JWK_RATE_WINDOW_MS :: int where
  "JWK_RATE_WINDOW_MS = 1000"

definition AUTH_TOPIC :: topic_name where
  "AUTH_TOPIC = ''auth.records''"

text \<open>What the mesh is built with, and the platform it runs on.\<close>

record mesh_env =
  me_id :: instance_id
  me_peers :: "endpoint list"
  me_self :: endpoint
  me_whole_topics :: "topic_name list"
  me_heartbeatTimeoutMs :: int
  me_reconnectMinMs :: int
  me_json_of :: "string \<Rightarrow> json option"
  me_signed :: "string \<Rightarrow> string \<Rightarrow> mesh_jwk \<Rightarrow> bool"
  me_proof :: "string \<Rightarrow> (string \<times> json) list \<Rightarrow> string"
  me_hostname :: string
  me_hostOf :: "endpoint \<Rightarrow> string"

record mesh_claim =
  mc_ver :: int
  mc_iss :: endpoint
  mc_aud :: endpoint
  mc_id :: instance_id
  mc_kid :: string

record link =
  lk_peer :: endpoint
  lk_conn :: conn_no
  lk_actors :: "(string \<times> caller_identity) list"
  lk_dialled :: bool
  lk_heard :: timestamp

record forwarded =
  fd_peer :: endpoint
  fd_to :: instance_id
  fd_op :: string
  fd_request :: "string option"
  fd_call :: nat

datatype proof_promise = Proof_waits | Proof_is string | Proof_failed

text \<open>A handshake being verified: what it claims, its challenge, its proof and the key once fetched.\<close>

record greeting =
  gr_conn :: conn_no
  gr_claim :: mesh_claim
  gr_challenge :: string
  gr_proof :: proof_promise
  gr_key :: "mesh_jwk option"

record minted =
  mi_aud :: endpoint
  mi_conn :: "conn_no option"

datatype close_listener = Drops endpoint | Rejects nat

datatype greet_outcome = Greeted | Refused_greeting string

datatype mesh_effect =
    Sends conn_no json
  | Defers conn_no json
  | Closes conn_no "int option"
  | Relay_accepts instance_id topic_name "json option" bool
  | Relay_lost instance_id
  | Relay_restored instance_id
  | Element topic_name instance_id "json option"
  | Changed
  | Handles conn_no "(string \<times> json) list"
  | Settles nat dispatch_result
  | Outcome nat greet_outcome
  | Arms endpoint int

record mesh =
  ms_links :: "(endpoint, nat) js_map"
  ms_link :: "nat \<Rightarrow> link"
  ms_made :: nat
  ms_linkOf :: "(conn_no, nat) js_map"
  ms_pending :: "(conn_no, nat) js_map"
  ms_greetings :: "(nat, greeting) js_map"
  ms_minted :: "(string, minted) js_map"
  ms_retries :: "endpoint list"
  ms_backoff :: "(endpoint, int) js_map"
  ms_idOf :: "(endpoint, instance_id) js_map"
  ms_endpointOf :: "(instance_id, endpoint) js_map"
  ms_jwkWindow :: int
  ms_jwkServed :: int
  ms_stopping :: bool
  ms_marked :: "conn_no list"
  ms_forwarded :: "(string, forwarded) js_map"
  ms_demanded :: "topic_name list"
  ms_forgotten :: "endpoint list"
  ms_dials :: "(string, endpoint) js_map"
  ms_dialled :: "(conn_no, endpoint \<times> string) js_map"
  ms_gone :: "conn_no list"
  ms_listeners :: "conn_no \<Rightarrow> close_listener list"
  ms_done :: "mesh_effect list"

section \<open>Connections\<close>

definition effect :: "mesh_effect \<Rightarrow> mesh \<Rightarrow> mesh" where
  "effect e s = s\<lparr>ms_done := ms_done s @ [e]\<rparr>"

text \<open>A closed connection takes no frame.\<close>

definition conn_sends :: "conn_no \<Rightarrow> json \<Rightarrow> mesh \<Rightarrow> mesh" where
  "conn_sends c frame s = (if c \<in> set (ms_gone s) then s else effect (Sends c frame) s)"

definition closes :: "conn_no \<Rightarrow> int option \<Rightarrow> mesh \<Rightarrow> mesh" where
  "closes c code s = effect (Closes c code) s"

section \<open>Bindings\<close>

definition binding_refused :: "endpoint \<Rightarrow> instance_id \<Rightarrow> mesh \<Rightarrow> bool" where
  "binding_refused endpoint i s \<longleftrightarrow> (case map_of (ms_endpointOf s) i of None \<Rightarrow> False | Some bound \<Rightarrow> bound \<noteq> endpoint)"

definition bind_peer :: "endpoint \<Rightarrow> instance_id \<Rightarrow> mesh \<Rightarrow> mesh" where
  "bind_peer endpoint i s =
     (let kept = (case map_of (ms_idOf s) endpoint of
                    Some previous \<Rightarrow> if previous \<noteq> i then map_del previous (ms_endpointOf s) else ms_endpointOf s
                  | None \<Rightarrow> ms_endpointOf s)
      in s\<lparr>ms_idOf := map_set endpoint i (ms_idOf s), ms_endpointOf := map_set i endpoint kept\<rparr>)"

definition Mesh :: "mesh_env \<Rightarrow> mesh" where
  "Mesh env =
     bind_peer (me_self env) (me_id env)
       \<lparr>ms_links = [], ms_link = (\<lambda>_. \<lparr>lk_peer = [], lk_conn = 0, lk_actors = [], lk_dialled = False, lk_heard = 0\<rparr>), ms_made = 0,
        ms_linkOf = [], ms_pending = [], ms_greetings = [], ms_minted = [], ms_retries = [], ms_backoff = [], ms_idOf = [],
        ms_endpointOf = [], ms_jwkWindow = 0, ms_jwkServed = 0, ms_stopping = False, ms_marked = [], ms_forwarded = [],
        ms_demanded = [''peers'', AUTH_TOPIC], ms_forgotten = [], ms_dials = [], ms_dialled = [], ms_gone = [],
        ms_listeners = (\<lambda>_. []), ms_done = []\<rparr>"

section \<open>Readings\<close>

definition mesh_accept :: "conn_no \<Rightarrow> bool \<Rightarrow> mesh \<Rightarrow> mesh" where
  "mesh_accept c is_mesh s = (if is_mesh then s\<lparr>ms_marked := set_add c (ms_marked s)\<rparr> else s)"

definition unproven :: "conn_no \<Rightarrow> conn_identity \<Rightarrow> mesh \<Rightarrow> bool" where
  "unproven c identity s \<longleftrightarrow> c \<in> set (ms_marked s) \<and> identity = Anonymous"

definition mesh_peers :: "mesh_env \<Rightarrow> mesh \<Rightarrow> endpoint list" where
  "mesh_peers env s = filter (\<lambda>p. p \<noteq> me_self env \<and> p \<notin> set (ms_forgotten s)) (me_peers env)"

definition peer_reachable :: "endpoint \<Rightarrow> mesh \<Rightarrow> bool" where
  "peer_reachable peer s \<longleftrightarrow> map_of (ms_links s) peer \<noteq> None"

definition mesh_instances :: "mesh_env \<Rightarrow> mesh \<Rightarrow> instance_info list" where
  "mesh_instances env s =
     \<lparr>ii_id = Some (me_id env), ii_endpoint = Some (me_self env), ii_host = me_hostname env, ii_reachable = True\<rparr>
     # map (\<lambda>p. \<lparr>ii_id = map_of (ms_idOf s) p, ii_endpoint = Some p, ii_host = me_hostOf env p, ii_reachable = peer_reachable p s\<rparr>) (mesh_peers env s)"

definition anyUnreachable :: "mesh_env \<Rightarrow> mesh \<Rightarrow> bool" where
  "anyUnreachable env s \<longleftrightarrow> list_ex (\<lambda>p. \<not> peer_reachable p s) (mesh_peers env s)"

text \<open>\<open>owner\<close> is what the relay says of the session.\<close>

definition ownerOf :: "mesh_env \<Rightarrow> instance_id option \<Rightarrow> mesh \<Rightarrow> instance_id option" where
  "ownerOf env owner s =
     (case owner of
        Some i \<Rightarrow> Some i
      | None \<Rightarrow> Option.bind (find (\<lambda>p. \<not> peer_reachable p s \<and> map_of (ms_idOf s) p \<noteq> None) (mesh_peers env s)) (map_of (ms_idOf s)))"

definition mesh_handshaking :: "conn_no \<Rightarrow> mesh \<Rightarrow> bool" where
  "mesh_handshaking c s \<longleftrightarrow> map_of (ms_pending s) c \<noteq> None"

definition isLink :: "conn_no \<Rightarrow> mesh \<Rightarrow> bool" where
  "isLink c s \<longleftrightarrow> map_of (ms_linkOf s) c \<noteq> None"

section \<open>Losing a link\<close>

text \<open>Everything that waits on the peer is answered, in the order it was forwarded.\<close>

definition unreachable_answer :: "string option \<Rightarrow> string \<Rightarrow> dispatch_result" where
  "unreachable_answer rid who = failure rid ''instance_unreachable'' (who @ '' cannot be reached'')"

definition abandon :: "endpoint \<Rightarrow> mesh \<Rightarrow> mesh" where
  "abandon peer s =
     s\<lparr>ms_forwarded := filter (\<lambda>(k, w). fd_peer w \<noteq> peer) (ms_forwarded s),
       ms_done := ms_done s @ map (\<lambda>(k, w). Settles (fd_call w) (unreachable_answer (fd_request w) peer))
                                  (filter (\<lambda>(k, w). fd_peer w = peer) (ms_forwarded s))\<rparr>"

definition retry_wait :: "mesh_env \<Rightarrow> endpoint \<Rightarrow> mesh \<Rightarrow> int" where
  "retry_wait env peer s =
     (let previous = map_get_or 0 (ms_backoff s) peer in
      if previous = 0 then me_reconnectMinMs env else min (previous * 2) RECONNECT_MAX_MS)"

definition retry :: "mesh_env \<Rightarrow> endpoint \<Rightarrow> mesh \<Rightarrow> mesh" where
  "retry env peer s =
     (if ms_stopping s \<or> peer \<in> set (ms_forgotten s) \<or> peer \<in> set (ms_retries s) then s
      else
        let wait = retry_wait env peer s
        in effect (Arms peer wait) (s\<lparr>ms_backoff := map_set peer wait (ms_backoff s), ms_retries := set_add peer (ms_retries s)\<rparr>))"

definition drop_link :: "mesh_env \<Rightarrow> endpoint \<Rightarrow> conn_no \<Rightarrow> mesh \<Rightarrow> mesh" where
  "drop_link env peer c s =
     (case map_of (ms_links s) peer of
        None \<Rightarrow> s
      | Some k \<Rightarrow>
          if lk_conn (ms_link s k) \<noteq> c then s
          else
            let s1 = s\<lparr>ms_links := map_del peer (ms_links s), ms_linkOf := map_del c (ms_linkOf s)\<rparr>;
                s2 = (case map_of (ms_idOf s1) peer of None \<Rightarrow> s1 | Some i \<Rightarrow> effect (Relay_lost i) s1);
                s3 = effect Changed (abandon peer s2)
            in if lk_dialled (ms_link s k) then retry env peer s3 else s3)"

definition forget_peer :: "mesh_env \<Rightarrow> endpoint \<Rightarrow> mesh \<Rightarrow> bool \<times> mesh" where
  "forget_peer env peer s =
     (let s1 = s\<lparr>ms_forgotten := set_add peer (ms_forgotten s), ms_retries := set_del peer (ms_retries s)\<rparr> in
      case map_of (ms_links s1) peer of
        None \<Rightarrow> (False, s1)
      | Some k \<Rightarrow> (True, drop_link env peer (lk_conn (ms_link s1 k)) (closes (lk_conn (ms_link s1 k)) None s1)))"

section \<open>Holding a link\<close>

text \<open>JavaScript's \<open><\<close> on strings.\<close>

fun js_less :: "string \<Rightarrow> string \<Rightarrow> bool" where
  "js_less [] ys \<longleftrightarrow> ys \<noteq> []"
| "js_less (x # xs) [] \<longleftrightarrow> False"
| "js_less (x # xs) (y # ys) \<longleftrightarrow> of_char x < (of_char y :: nat) \<or> (x = y \<and> js_less xs ys)"

definition glareKeepsNew :: "endpoint \<Rightarrow> endpoint \<Rightarrow> bool \<Rightarrow> bool" where
  "glareKeepsNew self peer dialledByUs = (if dialledByUs then js_less self peer else js_less peer self)"

text \<open>\<open>mesh-sub-\<close> ids are random; \<open>rid\<close> is the one this request drew.\<close>

definition ask_frame :: "topic_name \<Rightarrow> bool \<Rightarrow> string \<Rightarrow> json" where
  "ask_frame topic wanted rid =
     JObj [(''op'', JStr (if wanted then ''topic.subscribe'' else ''topic.unsubscribe'')),
           (''request_id'', JStr (''mesh-sub-'' @ rid)), (''topic'', JStr topic),
           (''caller'', JObj [(''role'', JStr (if topic = AUTH_TOPIC then ''instance'' else ''user''))])]"

definition ask_peer :: "conn_no \<Rightarrow> topic_name \<Rightarrow> bool \<Rightarrow> bool \<Rightarrow> string \<Rightarrow> mesh \<Rightarrow> mesh" where
  "ask_peer c topic wanted afterAck rid s =
     (if afterAck then effect (Defers c (ask_frame topic wanted rid)) s else conn_sends c (ask_frame topic wanted rid) s)"

text \<open>\<open>conn.onClose\<close>: a connection that is closed already runs the listener at once.\<close>

definition hold_link :: "mesh_env \<Rightarrow> endpoint \<Rightarrow> conn_no \<Rightarrow> bool \<Rightarrow> timestamp \<Rightarrow> (nat \<Rightarrow> string) \<Rightarrow> mesh \<Rightarrow> mesh" where
  "hold_link env peer c dialledByUs now rids s =
     (let go = (\<lambda>s.
            let k = ms_made s;
                s1 = s\<lparr>ms_link := (ms_link s)(k := \<lparr>lk_peer = peer, lk_conn = c, lk_actors = [], lk_dialled = dialledByUs, lk_heard = now\<rparr>),
                       ms_made := k + 1, ms_linkOf := map_set c k (ms_linkOf s), ms_links := map_set peer k (ms_links s),
                       ms_backoff := map_del peer (ms_backoff s)\<rparr>;
                s2 = (if c \<in> set (ms_gone s1) then drop_link env peer c s1
                      else s1\<lparr>ms_listeners := (ms_listeners s1)(c := ms_listeners s1 c @ [Drops peer])\<rparr>);
                s3 = (case map_of (ms_idOf s2) peer of None \<Rightarrow> s2 | Some i \<Rightarrow> effect (Relay_restored i) s2);
                s4 = fold (\<lambda>(n, topic). ask_peer c topic True (\<not> dialledByUs) (rids n)) (enumerate 0 (ms_demanded s3)) s3
            in effect Changed s4)
      in
      case map_of (ms_links s) peer of
        None \<Rightarrow> go s
      | Some k \<Rightarrow>
          let held = ms_link s k in
          if lk_conn held = c then s
          else if \<not> glareKeepsNew (me_self env) peer dialledByUs then closes c (Some GLARE_CLOSE) s
          else go (closes (lk_conn held) (Some GLARE_CLOSE)
                     (s\<lparr>ms_links := map_del peer (ms_links s), ms_linkOf := map_del (lk_conn held) (ms_linkOf s)\<rparr>)))"

section \<open>Forwarding\<close>

definition spread :: "(string \<times> json) list \<Rightarrow> (string \<times> json) list \<Rightarrow> (string \<times> json) list" where
  "spread members added = foldl (\<lambda>r (k, v). map_set k v r) members added"

definition frame_hops :: "(string \<times> json) list \<Rightarrow> json list" where
  "frame_hops members = (case map_of members ''hops'' of Some (JArr hops) \<Rightarrow> hops | _ \<Rightarrow> [])"

definition forward :: "mesh_env \<Rightarrow> nat \<Rightarrow> instance_id \<Rightarrow> (string \<times> json) list \<Rightarrow> caller_identity option \<Rightarrow> string \<Rightarrow> mesh \<Rightarrow> mesh" where
  "forward env n dest members caller rid s =
     (let requestId = as_string (map_of members ''request_id'') in
      case Option.bind (map_of (ms_endpointOf s) dest) (\<lambda>e. map_option (Pair e) (map_of (ms_links s) e)) of
        None \<Rightarrow> effect (Settles n (unreachable_answer requestId dest)) s
      | Some (peer, k) \<Rightarrow>
          let carried = ''mesh-fwd-'' @ rid;
              s1 = s\<lparr>ms_forwarded := map_set carried \<lparr>fd_peer = peer, fd_to = dest, fd_op = (case as_string (map_of members ''op'') of Some op \<Rightarrow> op | None \<Rightarrow> []), fd_request = requestId, fd_call = n\<rparr> (ms_forwarded s)\<rparr>
          in conn_sends (lk_conn (ms_link s k))
               (JObj (spread members
                  ([(''request_id'', JStr carried), (''to_instance'', JStr dest), (''from_instance'', JStr (me_id env)),
                    (''hops'', JArr (frame_hops members @ [JStr (me_id env)]))]
                   @ (case caller of None \<Rightarrow> [] | Some c \<Rightarrow> [(''caller'', caller_json c)])))) s1)"

definition forward_late :: "string \<Rightarrow> mesh \<Rightarrow> mesh" where
  "forward_late carried s =
     (case map_of (ms_forwarded s) carried of
        None \<Rightarrow> s
      | Some w \<Rightarrow>
          effect (Settles (fd_call w) (failure (fd_request w) ''instance_unreachable'' (fd_to w @ '' did not answer '' @ fd_op w @ '' in time'')))
            (s\<lparr>ms_forwarded := map_del carried (ms_forwarded s)\<rparr>))"

definition mesh_ask :: "mesh_env \<Rightarrow> nat \<Rightarrow> instance_id \<Rightarrow> string \<Rightarrow> (string \<times> json) list \<Rightarrow> string \<Rightarrow> string \<Rightarrow> mesh \<Rightarrow> mesh" where
  "mesh_ask env n dest op args ask_rid rid =
     forward env n dest (spread [(''op'', JStr op), (''request_id'', JStr (''mesh-ask-'' @ ask_rid))] args)
       (Some \<lparr>ci_role = Instance, ci_sid = None\<rparr>) rid"

text \<open>What \<open>ask\<close> makes of the result: the body, or the error that is thrown.\<close>

definition ask_outcome :: "dispatch_result \<Rightarrow> string + (string \<times> json) list" where
  "ask_outcome r =
     (case r of
        DReply members \<Rightarrow> Inr (filter (\<lambda>(k, v). k \<noteq> ''ok'' \<and> k \<noteq> ''request_id'') members)
      | DError e \<Rightarrow> Inl (er_code e)
      | _ \<Rightarrow> Inl ''instance_unreachable'')"

definition answerOf :: "(string \<times> json) list \<Rightarrow> string option \<Rightarrow> dispatch_result" where
  "answerOf members requestId =
     (if map_of members ''ok'' = Some (JBool True)
      then reply (case requestId of None \<Rightarrow> [] | Some r \<Rightarrow> r) (Some (JObj (filter (\<lambda>(k, v). k \<noteq> ''ok'' \<and> k \<noteq> ''request_id'') members)))
      else
        let field = (\<lambda>f d. case Option.bind (map_of members ''error'') (\<lambda>e. jfield e f) of Some (JStr t) \<Rightarrow> t | _ \<Rightarrow> d)
        in failure requestId (field ''code'' ''internal_error'') (field ''msg'' ''the instance that answered said nothing about why''))"

definition actor_key :: "caller_identity \<Rightarrow> string" where
  "actor_key c = role_name (ci_role c) @ CHR ''/'' # (case ci_sid c of None \<Rightarrow> [] | Some sid \<Rightarrow> sid)"

text \<open>\<open>caller\<close>: the connection itself, or the one actor the link keeps for that caller.\<close>

definition caller_actor :: "conn_no \<Rightarrow> caller_identity option \<Rightarrow> mesh \<Rightarrow> caller_identity option \<times> mesh" where
  "caller_actor c caller s =
     (case (map_of (ms_linkOf s) c, caller) of
        (Some k, Some who) \<Rightarrow>
          (case map_of (lk_actors (ms_link s k)) (actor_key who) of
             Some held \<Rightarrow> (Some held, s)
           | None \<Rightarrow> (Some who, s\<lparr>ms_link := (ms_link s)(k := (ms_link s k)\<lparr>lk_actors := map_set (actor_key who) who (lk_actors (ms_link s k))\<rparr>)\<rparr>))
      | _ \<Rightarrow> (None, s))"

definition demand :: "mesh_env \<Rightarrow> topic_name \<Rightarrow> bool \<Rightarrow> (nat \<Rightarrow> string) \<Rightarrow> mesh \<Rightarrow> mesh" where
  "demand env topic wanted rids s =
     (let tell = (\<lambda>s. fold (\<lambda>(n, (peer, k)). ask_peer (lk_conn (ms_link s k)) topic wanted False (rids n)) (enumerate 0 (ms_links s)) s) in
      if topic = AUTH_TOPIC \<or> \<not> isMeshTopic (me_whole_topics env) topic then s
      else if wanted then
        (if topic \<in> set (ms_demanded s) then s else tell (s\<lparr>ms_demanded := set_add topic (ms_demanded s)\<rparr>))
      else if topic = ''peers'' \<or> topic \<notin> set (ms_demanded s) then s
      else tell (s\<lparr>ms_demanded := set_del topic (ms_demanded s)\<rparr>))"


section \<open>The receiving end\<close>

text \<open>The comparisons \<open>greet\<close> makes before it waits; the code of the refusal, if any.\<close>

definition claim_refused :: "mesh_env \<Rightarrow> mesh_claim \<Rightarrow> mesh \<Rightarrow> string option" where
  "claim_refused env claim s =
     (if mc_ver claim \<noteq> MESH_VER then Some ''invalid_args''
      else if mc_iss claim \<notin> set (me_peers env) \<or> mc_iss claim \<in> set (ms_forgotten s) then Some ''forbidden''
      else if mc_aud claim \<noteq> me_self env then Some ''forbidden''
      else if binding_refused (mc_iss claim) (mc_id claim) s then Some ''forbidden''
      else None)"

text \<open>Rejecting the promise of a proof: what is settled stays settled.\<close>

definition reject_proof :: "nat \<Rightarrow> mesh \<Rightarrow> mesh" where
  "reject_proof g s =
     (case map_of (ms_greetings s) g of
        None \<Rightarrow> s
      | Some gr \<Rightarrow> if gr_proof gr = Proof_waits then s\<lparr>ms_greetings := map_set g (gr\<lparr>gr_proof := Proof_failed\<rparr>) (ms_greetings s)\<rparr> else s)"

definition greet :: "mesh_env \<Rightarrow> nat \<Rightarrow> conn_no \<Rightarrow> mesh_claim \<Rightarrow> string \<Rightarrow> mesh \<Rightarrow> mesh" where
  "greet env g c claim challenge s =
     (case claim_refused env claim s of
        Some code \<Rightarrow> effect (Outcome g (Refused_greeting code)) s
      | None \<Rightarrow>
          let s1 = s\<lparr>ms_pending := map_set c g (ms_pending s),
                     ms_greetings := map_set g \<lparr>gr_conn = c, gr_claim = claim, gr_challenge = challenge, gr_proof = Proof_waits, gr_key = None\<rparr> (ms_greetings s)\<rparr>
          in if c \<in> set (ms_gone s1) then reject_proof g s1
             else s1\<lparr>ms_listeners := (ms_listeners s1)(c := ms_listeners s1 c @ [Rejects g])\<rparr>)"

text \<open>The end of a verification: the greeting is over, and so is what was pending on its connection.\<close>

definition greeting_over :: "nat \<Rightarrow> mesh \<Rightarrow> mesh" where
  "greeting_over g s =
     (case map_of (ms_greetings s) g of
        None \<Rightarrow> s
      | Some gr \<Rightarrow> s\<lparr>ms_pending := map_del (gr_conn gr) (ms_pending s), ms_greetings := map_del g (ms_greetings s)\<rparr>)"

definition greeting_failed :: "nat \<Rightarrow> mesh \<Rightarrow> mesh" where
  "greeting_failed g s =
     (if map_of (ms_greetings s) g = None then s else effect (Outcome g (Refused_greeting ''forbidden'')) (greeting_over g s))"

text \<open>\<open>#fetchKey\<close> answered: a key under the id that was asked for, or a failure.\<close>

definition key_fetched :: "nat \<Rightarrow> mesh_jwk option \<Rightarrow> mesh \<Rightarrow> mesh" where
  "key_fetched g answer s =
     (case map_of (ms_greetings s) g of
        None \<Rightarrow> s
      | Some gr \<Rightarrow>
          if gr_key gr \<noteq> None then s
          else
            (case answer of
               Some jwk \<Rightarrow>
                 if jk_kid jwk \<noteq> mc_kid (gr_claim gr) then greeting_failed g s
                 else s\<lparr>ms_greetings := map_set g (gr\<lparr>gr_key := Some jwk\<rparr>) (ms_greetings s)\<rparr>
             | None \<Rightarrow> greeting_failed g s))"

text \<open>\<open>#verify\<close>\<close>

definition verify_proof :: "mesh_env \<Rightarrow> timestamp \<Rightarrow> string \<Rightarrow> mesh_claim \<Rightarrow> string \<Rightarrow> mesh_jwk \<Rightarrow> bool" where
  "verify_proof env now jws claim challenge jwk \<longleftrightarrow>
     (case parseProof (me_json_of env) jws of
        None \<Rightarrow> False
      | Some parsed \<Rightarrow>
          let stated = map_of (pp_claim parsed) in
          pp_alg parsed \<in> set ALLOWED_ALGS \<and> pp_kid parsed = mc_kid claim
          \<and> stated ''ver'' = Some (JNum (mc_ver claim)) \<and> stated ''iss'' = Some (JStr (mc_iss claim)) \<and> stated ''aud'' = Some (JStr (mc_aud claim))
          \<and> stated ''challenge'' = Some (JStr challenge)
          \<and> (case stated ''exp'' of Some (JNum e) \<Rightarrow> e * 1000 > now | _ \<Rightarrow> False)
          \<and> verifyProof (me_signed env) jws jwk)"

text \<open>The proof has arrived or will not, and the greeting goes on to its end.\<close>

definition greet_on :: "mesh_env \<Rightarrow> nat \<Rightarrow> timestamp \<Rightarrow> (nat \<Rightarrow> string) \<Rightarrow> mesh \<Rightarrow> mesh" where
  "greet_on env g now rids s =
     (case map_of (ms_greetings s) g of
        None \<Rightarrow> s
      | Some gr \<Rightarrow>
          (case (gr_key gr, gr_proof gr) of
             (Some jwk, Proof_is jws) \<Rightarrow>
               let claim = gr_claim gr in
               if \<not> verify_proof env now jws claim (gr_challenge gr) jwk then greeting_failed g s
               else
                 let s1 = greeting_over g s in
                 if mc_iss claim \<in> set (ms_forgotten s1) \<or> binding_refused (mc_iss claim) (mc_id claim) s1
                 then effect (Outcome g (Refused_greeting ''forbidden'')) s1
                 else effect (Outcome g Greeted) (hold_link env (mc_iss claim) (gr_conn gr) False now rids (bind_peer (mc_iss claim) (mc_id claim) s1))
           | (Some jwk, Proof_failed) \<Rightarrow> greeting_failed g s
           | _ \<Rightarrow> s))"

text \<open>\<open>withTimeout\<close> gives up on the proof.\<close>

definition proof_late :: "nat \<Rightarrow> mesh \<Rightarrow> mesh" where
  "proof_late g s =
     (case map_of (ms_greetings s) g of
        Some gr \<Rightarrow> if gr_key gr \<noteq> None \<and> gr_proof gr = Proof_waits then greeting_failed g s else s
      | None \<Rightarrow> s)"

section \<open>Frames\<close>

definition heard :: "conn_no \<Rightarrow> timestamp \<Rightarrow> mesh \<Rightarrow> mesh" where
  "heard c now s =
     s\<lparr>ms_link := (\<lambda>k. if (\<exists>peer \<in> set (map_keys (ms_links s)). map_of (ms_links s) peer = Some k) \<and> lk_conn (ms_link s k) = c
                       then (ms_link s k)\<lparr>lk_heard := now\<rparr> else ms_link s k)\<rparr>"

text \<open>A reply to what this instance forwarded or asked for.\<close>

definition peer_reply :: "json \<Rightarrow> mesh \<Rightarrow> mesh option" where
  "peer_reply frame s =
     (case (as_string (jfield frame ''request_id''), as_boolean (jfield frame ''ok'')) of
        (Some requestId, Some b) \<Rightarrow>
          (case map_of (ms_forwarded s) requestId of
             Some w \<Rightarrow>
               Some (effect (Settles (fd_call w) (answerOf (members_of frame) (fd_request w)))
                       (s\<lparr>ms_forwarded := map_del requestId (ms_forwarded s)\<rparr>))
           | None \<Rightarrow> if take 9 requestId = ''mesh-sub-'' then Some s else None)
      | _ \<Rightarrow> None)"

definition peer_topic :: "mesh_env \<Rightarrow> json \<Rightarrow> mesh \<Rightarrow> bool \<times> mesh" where
  "peer_topic env frame s =
     (if jfield frame ''ev'' \<noteq> Some (JStr ''topic'') then (False, s)
      else
        (case (as_string (jfield frame ''topic''), as_string (jfield frame ''instance'')) of
           (Some topic, Some i) \<Rightarrow>
             if i = me_id env then (True, s)
             else if topic = AUTH_TOPIC then (True, effect (Element topic i (jfield frame ''data'')) s)
             else (True, effect (Relay_accepts i topic (jfield frame ''data'') (jfield frame ''snapshot'' = Some (JBool True))) s)
         | _ \<Rightarrow> (True, s)))"

definition peer_frame :: "mesh_env \<Rightarrow> conn_no \<Rightarrow> json \<Rightarrow> mesh \<Rightarrow> bool \<times> mesh" where
  "peer_frame env c frame s =
     (if map_of (ms_linkOf s) c = None \<or> \<not> is_object frame then (False, s)
      else case peer_reply frame s of Some s' \<Rightarrow> (True, s') | None \<Rightarrow> peer_topic env frame s)"

definition mesh_takes :: "mesh_env \<Rightarrow> timestamp \<Rightarrow> conn_no \<Rightarrow> json \<Rightarrow> mesh \<Rightarrow> bool \<times> mesh" where
  "mesh_takes env now c frame s =
     (case meshFrameOf frame of
        None \<Rightarrow> peer_frame env c frame s
      | Some MeshPing \<Rightarrow> (True, conn_sends c (JObj [(''mesh'', JStr ''pong'')]) s)
      | Some MeshPong \<Rightarrow> (True, heard c now s)
      | Some (MeshProof jws) \<Rightarrow>
          (case map_of (ms_pending s) c of
             None \<Rightarrow> (True, closes c None s)
           | Some g \<Rightarrow>
               (case map_of (ms_greetings s) g of
                  Some gr \<Rightarrow>
                    (True, if gr_proof gr = Proof_waits then s\<lparr>ms_greetings := map_set g (gr\<lparr>gr_proof := Proof_is jws\<rparr>) (ms_greetings s)\<rparr> else s)
                | None \<Rightarrow> (True, s))))"

section \<open>The key endpoint\<close>

definition allowKeyRequest :: "timestamp \<Rightarrow> mesh \<Rightarrow> bool \<times> mesh" where
  "allowKeyRequest now s =
     (let s1 = (if now - ms_jwkWindow s \<ge> JWK_RATE_WINDOW_MS then s\<lparr>ms_jwkWindow := now, ms_jwkServed := 0\<rparr> else s);
          s2 = s1\<lparr>ms_jwkServed := ms_jwkServed s1 + 1\<rparr>
      in (ms_jwkServed s2 \<le> JWK_RATE_LIMIT, s2))"

datatype key_answer = Too_many | Bad_request | Throws | No_such_key | Serves string

text \<open>The body is read after the count; \<open>body\<close> is what it was, nothing where it is not JSON. A field of \<open>null\<close> throws.\<close>

definition serveKey :: "mesh_env \<Rightarrow> timestamp \<Rightarrow> string \<Rightarrow> json option \<Rightarrow> mesh \<Rightarrow> key_answer \<times> mesh" where
  "serveKey env now kid body s =
     (case allowKeyRequest now s of
        (False, s1) \<Rightarrow> (Too_many, s1)
      | (True, s1) \<Rightarrow>
          if body = Some JNull then (Throws, s1) else
          (case as_string (Option.bind body (\<lambda>b. jfield b ''challenge'')) of
             Some challenge \<Rightarrow>
               if Option.bind body (\<lambda>b. jfield b ''ver'') \<noteq> Some (JNum MESH_VER) \<or> challenge = [] then (Bad_request, s1)
               else
                 (case map_of (ms_minted s1) kid of
                    Some m \<Rightarrow>
                      (case mi_conn m of
                         None \<Rightarrow> (No_such_key, s1)
                       | Some c \<Rightarrow>
                           let claim = [(''ver'', JNum MESH_VER), (''iss'', JStr (me_self env)), (''aud'', JStr (mi_aud m)),
                                        (''challenge'', JStr challenge), (''exp'', JNum ((now + PROOF_LIFETIME_MS) div 1000))]
                           in (Serves kid, conn_sends c (JObj [(''mesh'', JStr ''proof''), (''jws'', JStr (me_proof env kid claim))]) s1))
                  | None \<Rightarrow> (No_such_key, s1))
           | None \<Rightarrow> (Bad_request, s1)))"

section \<open>The dialling end\<close>

definition dial :: "endpoint \<Rightarrow> string \<Rightarrow> mesh \<Rightarrow> mesh" where
  "dial peer kid s =
     (if ms_stopping s \<or> peer \<in> set (ms_forgotten s) \<or> map_of (ms_links s) peer \<noteq> None then s
      else s\<lparr>ms_minted := map_set kid \<lparr>mi_aud = peer, mi_conn = None\<rparr> (ms_minted s), ms_dials := map_set kid peer (ms_dials s)\<rparr>)"

definition hello_json :: "mesh_env \<Rightarrow> json \<Rightarrow> endpoint \<Rightarrow> string \<Rightarrow> json" where
  "hello_json env version peer kid =
     JObj [(''op'', JStr ''hello.instance''), (''request_id'', JStr (''mesh-hello-'' @ kid)), (''protocol_version'', version),
           (''mesh'', JObj [(''ver'', JNum MESH_VER), (''iss'', JStr (me_self env)), (''aud'', JStr peer), (''id'', JStr (me_id env)), (''kid'', JStr kid)])]"

text \<open>The socket opened, or did not.\<close>

definition dial_opened :: "mesh_env \<Rightarrow> json \<Rightarrow> string \<Rightarrow> conn_no \<Rightarrow> mesh \<Rightarrow> mesh" where
  "dial_opened env version kid c s =
     (case map_of (ms_dials s) kid of
        None \<Rightarrow> s
      | Some peer \<Rightarrow>
          let minted = (case map_of (ms_minted s) kid of None \<Rightarrow> ms_minted s | Some m \<Rightarrow> map_set kid (m\<lparr>mi_conn := Some c\<rparr>) (ms_minted s))
          in conn_sends c (hello_json env version peer kid)
               (s\<lparr>ms_minted := minted, ms_dials := map_del kid (ms_dials s), ms_dialled := map_set c (peer, kid) (ms_dialled s)\<rparr>))"

definition dial_failed :: "mesh_env \<Rightarrow> string \<Rightarrow> mesh \<Rightarrow> mesh" where
  "dial_failed env kid s =
     (case map_of (ms_dials s) kid of
        None \<Rightarrow> s
      | Some peer \<Rightarrow> retry env peer (s\<lparr>ms_minted := map_del kid (ms_minted s), ms_dials := map_del kid (ms_dials s)\<rparr>))"

definition dialled_frame :: "mesh_env \<Rightarrow> timestamp \<Rightarrow> (nat \<Rightarrow> string) \<Rightarrow> conn_no \<Rightarrow> json \<Rightarrow> mesh \<Rightarrow> mesh" where
  "dialled_frame env now rids c frame s =
     (case map_of (ms_dialled s) c of
        None \<Rightarrow> s
      | Some (peer, kid) \<Rightarrow>
          (case mesh_takes env now c frame s of
             (True, s1) \<Rightarrow> s1
           | (False, s1) \<Rightarrow>
               if jfield frame ''request_id'' \<noteq> Some (JStr (''mesh-hello-'' @ kid)) then
                 (case as_string (jfield frame ''op'') of
                    Some op \<Rightarrow> effect (Handles c (members_of frame)) s1
                  | None \<Rightarrow> s1)
               else
                 let s2 = s1\<lparr>ms_minted := map_del kid (ms_minted s1)\<rparr> in
                 if peer \<in> set (ms_forgotten s2) then closes c None s2
                 else if jfield frame ''ok'' \<noteq> Some (JBool True) then closes c None s2
                 else
                   (case as_string (jfield frame ''instance'') of
                      Some i \<Rightarrow>
                        if binding_refused peer i s2 then closes c None s2
                        else hold_link env peer c True now rids (bind_peer peer i s2)
                    | None \<Rightarrow> closes c None s2)))"

text \<open>\<open>#answer\<close>: what the instance answers goes back on the connection.\<close>

definition mesh_answer :: "conn_no \<Rightarrow> (string \<times> json) list \<Rightarrow> string + dispatch_result \<Rightarrow> mesh \<Rightarrow> mesh" where
  "mesh_answer c members outcome s =
     (let rid = as_string (map_of members ''request_id'') in
      case outcome of
        Inl cause \<Rightarrow> conn_sends c (failure_frame rid ''internal_error'' (''the forwarded request could not be answered: '' @ cause)) s
      | Inr DNone \<Rightarrow> s
      | Inr (DForward dest _) \<Rightarrow> conn_sends c (failure_frame rid ''instance_unreachable'' (dest @ '' cannot be reached'')) s
      | Inr (DReply ms) \<Rightarrow> conn_sends c (JObj ms) s
      | Inr (DError e) \<Rightarrow> conn_sends c (error_frame e) s)"

section \<open>Time and endings\<close>

definition beat :: "mesh_env \<Rightarrow> timestamp \<Rightarrow> endpoint \<Rightarrow> mesh \<Rightarrow> mesh" where
  "beat env now peer s =
     (case map_of (ms_links s) peer of
        None \<Rightarrow> s
      | Some k \<Rightarrow>
          let l = ms_link s k in
          if now - lk_heard l > me_heartbeatTimeoutMs env then drop_link env peer (lk_conn l) (closes (lk_conn l) None s)
          else conn_sends (lk_conn l) (JObj [(''mesh'', JStr ''ping'')]) s)"

text \<open>The timer of a retry fires.\<close>

definition retry_fires :: "endpoint \<Rightarrow> string \<Rightarrow> mesh \<Rightarrow> mesh" where
  "retry_fires peer kid s =
     (if peer \<in> set (ms_retries s) then dial peer kid (s\<lparr>ms_retries := set_del peer (ms_retries s)\<rparr>) else s)"

definition connect_all :: "mesh_env \<Rightarrow> (nat \<Rightarrow> string) \<Rightarrow> mesh \<Rightarrow> mesh" where
  "connect_all env kids s = fold (\<lambda>(n, peer). dial peer (kids n)) (enumerate 0 (mesh_peers env s)) s"

definition run_listener :: "mesh_env \<Rightarrow> conn_no \<Rightarrow> close_listener \<Rightarrow> mesh \<Rightarrow> mesh" where
  "run_listener env c l s = (case l of Drops peer \<Rightarrow> drop_link env peer c s | Rejects g \<Rightarrow> reject_proof g s)"

text \<open>A connection ends: its listeners run, and on one that was dialled the dialler's own follows.\<close>

definition conn_ends :: "mesh_env \<Rightarrow> conn_no \<Rightarrow> int \<Rightarrow> mesh \<Rightarrow> mesh" where
  "conn_ends env c code s =
     (if c \<in> set (ms_gone s) then s
      else
        let s1 = s\<lparr>ms_gone := c # ms_gone s, ms_listeners := (ms_listeners s)(c := [])\<rparr>;
            s2 = fold (run_listener env c) (ms_listeners s c) s1
        in case map_of (ms_dialled s) c of
             None \<Rightarrow> s2
           | Some (peer, kid) \<Rightarrow>
               let s3 = drop_link env peer c (s2\<lparr>ms_minted := map_del kid (ms_minted s2)\<rparr>)
               in if code \<noteq> GLARE_CLOSE then retry env peer s3 else s3)"

definition mesh_stop :: "mesh \<Rightarrow> mesh" where
  "mesh_stop s =
     (let s1 = s\<lparr>ms_stopping := True, ms_retries := []\<rparr>;
          s2 = fold (\<lambda>(peer, k). closes (lk_conn (ms_link s1 k)) None) (ms_links s1) s1;
          s3 = fold (\<lambda>(peer, k). abandon peer) (ms_links s2) s2;
          s4 = s3\<lparr>ms_links := [], ms_linkOf := [], ms_minted := []\<rparr>;
          s5 = fold (\<lambda>(c, g). reject_proof g) (ms_pending s4) s4
      in s5\<lparr>ms_pending := []\<rparr>)"

section \<open>Runs\<close>

datatype mesh_event =
    Accepts conn_no bool
  | Greets nat conn_no mesh_claim string
  | Key_fetched nat "mesh_jwk option"
  | Greet_goes_on nat timestamp "nat \<Rightarrow> string"
  | Proof_late nat
  | Frame_in timestamp conn_no json
  | Dialled_frame timestamp "nat \<Rightarrow> string" conn_no json
  | Key_request timestamp string "json option"
  | Forwards nat instance_id "(string \<times> json) list" "caller_identity option" string
  | Forward_late string
  | Names_caller conn_no "caller_identity option"
  | Demands topic_name bool "nat \<Rightarrow> string"
  | Connects "nat \<Rightarrow> string"
  | Dial_opened json string conn_no
  | Dial_failed string
  | Beats timestamp endpoint
  | Retry_fires endpoint string
  | Conn_ends conn_no int
  | Forgets endpoint
  | Answers conn_no "(string \<times> json) list" "string + dispatch_result"
  | Stops

fun mesh_step :: "mesh_env \<Rightarrow> mesh \<Rightarrow> mesh_event \<Rightarrow> mesh" where
  "mesh_step env s (Accepts c b) = mesh_accept c b s"
| "mesh_step env s (Greets g c claim challenge) = greet env g c claim challenge s"
| "mesh_step env s (Key_fetched g a) = key_fetched g a s"
| "mesh_step env s (Greet_goes_on g now rids) = greet_on env g now rids s"
| "mesh_step env s (Proof_late g) = proof_late g s"
| "mesh_step env s (Frame_in now c f) = snd (mesh_takes env now c f s)"
| "mesh_step env s (Dialled_frame now rids c f) = dialled_frame env now rids c f s"
| "mesh_step env s (Key_request now kid body) = snd (serveKey env now kid body s)"
| "mesh_step env s (Forwards n dest ms caller rid) = forward env n dest ms caller rid s"
| "mesh_step env s (Forward_late carried) = forward_late carried s"
| "mesh_step env s (Names_caller c who) = snd (caller_actor c who s)"
| "mesh_step env s (Demands t b rids) = demand env t b rids s"
| "mesh_step env s (Connects kids) = connect_all env kids s"
| "mesh_step env s (Dial_opened v kid c) = dial_opened env v kid c s"
| "mesh_step env s (Dial_failed kid) = dial_failed env kid s"
| "mesh_step env s (Beats now peer) = beat env now peer s"
| "mesh_step env s (Retry_fires peer kid) = retry_fires peer kid s"
| "mesh_step env s (Conn_ends c code) = conn_ends env c code s"
| "mesh_step env s (Forgets peer) = snd (forget_peer env peer s)"
| "mesh_step env s (Answers c ms out) = mesh_answer c ms out s"
| "mesh_step env s Stops = mesh_stop s"

definition mesh_run :: "mesh_env \<Rightarrow> mesh_event list \<Rightarrow> mesh" where
  "mesh_run env evs = foldl (mesh_step env) (Mesh env) evs"

end
