(* ===== verification/MeshFacts.thy ===== *)
theory MeshFacts
  imports Mesh
begin

text \<open>
  What holds of the mesh over any interleaving of handshakes, dials, frames, timers and endings: a
  link is held only where a proof or an answered dial vouched for it, ids and endpoints are bound one
  to one, every forwarded request is answered once and none waits on a peer without a link, and the two
  ends of a glare keep the same connection.
\<close>

section \<open>Steps that leave something alone\<close>

lemma effect_fields [simp]:
  "ms_links (effect e s) = ms_links s" "ms_link (effect e s) = ms_link s" "ms_made (effect e s) = ms_made s" "ms_linkOf (effect e s) = ms_linkOf s"
  "ms_pending (effect e s) = ms_pending s" "ms_greetings (effect e s) = ms_greetings s" "ms_minted (effect e s) = ms_minted s"
  "ms_retries (effect e s) = ms_retries s" "ms_backoff (effect e s) = ms_backoff s" "ms_idOf (effect e s) = ms_idOf s"
  "ms_endpointOf (effect e s) = ms_endpointOf s" "ms_stopping (effect e s) = ms_stopping s" "ms_forwarded (effect e s) = ms_forwarded s"
  "ms_demanded (effect e s) = ms_demanded s" "ms_forgotten (effect e s) = ms_forgotten s" "ms_dials (effect e s) = ms_dials s"
  "ms_dialled (effect e s) = ms_dialled s" "ms_gone (effect e s) = ms_gone s" "ms_listeners (effect e s) = ms_listeners s"
  "ms_done (effect e s) = ms_done s @ [e]"
  by (simp_all add: effect_def)

lemma sends_fields [simp]:
  "ms_links (conn_sends c f s) = ms_links s" "ms_link (conn_sends c f s) = ms_link s" "ms_made (conn_sends c f s) = ms_made s"
  "ms_greetings (conn_sends c f s) = ms_greetings s" "ms_retries (conn_sends c f s) = ms_retries s" "ms_idOf (conn_sends c f s) = ms_idOf s"
  "ms_endpointOf (conn_sends c f s) = ms_endpointOf s" "ms_forwarded (conn_sends c f s) = ms_forwarded s"
  "ms_forgotten (conn_sends c f s) = ms_forgotten s" "ms_dials (conn_sends c f s) = ms_dials s" "ms_dialled (conn_sends c f s) = ms_dialled s"
  "ms_demanded (conn_sends c f s) = ms_demanded s" "ms_gone (conn_sends c f s) = ms_gone s"
  by (simp_all add: conn_sends_def)

lemma ask_fields [simp]:
  "ms_links (ask_peer c t b a r s) = ms_links s" "ms_link (ask_peer c t b a r s) = ms_link s" "ms_made (ask_peer c t b a r s) = ms_made s"
  "ms_greetings (ask_peer c t b a r s) = ms_greetings s" "ms_retries (ask_peer c t b a r s) = ms_retries s" "ms_idOf (ask_peer c t b a r s) = ms_idOf s"
  "ms_endpointOf (ask_peer c t b a r s) = ms_endpointOf s" "ms_forwarded (ask_peer c t b a r s) = ms_forwarded s"
  "ms_forgotten (ask_peer c t b a r s) = ms_forgotten s" "ms_dials (ask_peer c t b a r s) = ms_dials s" "ms_dialled (ask_peer c t b a r s) = ms_dialled s"
  by (simp_all add: ask_peer_def)

text \<open>The part of the state the theorems are about.\<close>

definition core :: "mesh \<Rightarrow> _" where
  "core s = (ms_links s, ms_link s, ms_made s, ms_greetings s, ms_retries s, ms_idOf s, ms_endpointOf s, ms_forwarded s, ms_forgotten s, ms_dials s, ms_dialled s)"

lemma core_effect [simp]: "core (effect e s) = core s" by (simp add: core_def)
lemma core_sends [simp]: "core (conn_sends c f s) = core s" by (simp add: core_def)
lemma core_ask [simp]: "core (ask_peer c t b a r s) = core s" by (simp add: core_def)

lemma core_fold_ask: "core (fold (\<lambda>(n, x). ask_peer (f x) (g x) b a (rids n)) xs s) = core s"
  by (induction xs arbitrary: s) auto

lemma coreD:
  assumes "core s = core s'"
  shows "ms_links s = ms_links s'" "ms_link s = ms_link s'" "ms_made s = ms_made s'" "ms_greetings s = ms_greetings s'" "ms_retries s = ms_retries s'"
    "ms_idOf s = ms_idOf s'" "ms_endpointOf s = ms_endpointOf s'" "ms_forwarded s = ms_forwarded s'" "ms_forgotten s = ms_forgotten s'"
    "ms_dials s = ms_dials s'" "ms_dialled s = ms_dialled s'"
  using assms by (simp_all add: core_def)

section \<open>Ids and endpoints\<close>

definition bound_ok :: "mesh \<Rightarrow> bool" where
  "bound_ok s \<longleftrightarrow> (\<forall>i e. map_of (ms_endpointOf s) i = Some e \<longleftrightarrow> map_of (ms_idOf s) e = Some i)"

lemma rebinding:
  assumes inv: "\<And>j d. E j = Some d \<longleftrightarrow> I d = Some j" and free: "E i = None \<or> E i = Some e"
    and E': "E' = (case I e of Some p \<Rightarrow> if p \<noteq> i then E(p := None) else E | None \<Rightarrow> E)(i \<mapsto> e)"
  shows "E' j = Some d \<longleftrightarrow> (I(e \<mapsto> i)) d = Some j"
proof (cases "j = i")
  case True
  then show ?thesis using free inv [of i d] unfolding E' by (cases "d = e") auto
next
  case False
  have "E' j = Some d \<longleftrightarrow> E j = Some d \<and> I e \<noteq> Some j" using False unfolding E' by (cases "I e") auto
  moreover have "E j = Some d \<and> I e \<noteq> Some j \<longleftrightarrow> (I(e \<mapsto> i)) d = Some j"
    using inv [of j d] inv [of j e] False by (cases "d = e") auto
  ultimately show ?thesis by blast
qed

lemma bound_bind:
  assumes "bound_ok s" "\<not> binding_refused e i s"
  shows "bound_ok (bind_peer e i s)"
proof -
  have free: "map_of (ms_endpointOf s) i = None \<or> map_of (ms_endpointOf s) i = Some e" using assms(2) by (auto simp: binding_refused_def split: option.splits)
  have inv: "map_of (ms_endpointOf s) j = Some d \<longleftrightarrow> map_of (ms_idOf s) d = Some j" for j d using assms(1) by (simp add: bound_ok_def del: map_of_eq_Some_iff)
  have E: "map_of (ms_endpointOf (bind_peer e i s))
      = (case map_of (ms_idOf s) e of Some p \<Rightarrow> if p \<noteq> i then (map_of (ms_endpointOf s))(p := None) else map_of (ms_endpointOf s) | None \<Rightarrow> map_of (ms_endpointOf s))(i \<mapsto> e)"
    by (auto simp: bind_peer_def Let_def fun_eq_iff split: option.splits)
  have I: "map_of (ms_idOf (bind_peer e i s)) = (map_of (ms_idOf s))(e \<mapsto> i)" by (auto simp: bind_peer_def Let_def fun_eq_iff)
  show ?thesis unfolding bound_ok_def I by (intro allI) (rule rebinding [OF inv free E])
qed

section \<open>Links, dials and forwarded requests\<close>

lemma in_map_set: "x \<in> set (map_set k v m) \<Longrightarrow> x = (k, v) \<or> x \<in> set m"
  by (induction m) (auto split: if_splits)

lemma in_map_del: "x \<in> set (map_del k m) \<Longrightarrow> x \<in> set m \<and> fst x \<noteq> k"
  by (cases x) (auto simp: AList.delete_eq)

definition greeting_ok :: "mesh_env \<Rightarrow> greeting \<Rightarrow> bool" where
  "greeting_ok env gr \<longleftrightarrow>
     mc_iss (gr_claim gr) \<in> set (me_peers env) \<and> mc_aud (gr_claim gr) = me_self env \<and> mc_ver (gr_claim gr) = MESH_VER
     \<and> (\<forall>jwk. gr_key gr = Some jwk \<longrightarrow> jk_kid jwk = mc_kid (gr_claim gr))"

definition links_ok :: "mesh_env \<Rightarrow> mesh \<Rightarrow> bool" where
  "links_ok env s \<longleftrightarrow>
     map_wf (ms_links s)
     \<and> (\<forall>p k. (p, k) \<in> set (ms_links s) \<longrightarrow> k < ms_made s \<and> lk_peer (ms_link s k) = p \<and> p \<in> set (me_peers env) \<and> p \<notin> set (ms_forgotten s))"

definition known_ok :: "mesh_env \<Rightarrow> mesh \<Rightarrow> bool" where
  "known_ok env s \<longleftrightarrow>
     snd ` set (ms_dials s) \<subseteq> set (me_peers env) \<and> (fst \<circ> snd) ` set (ms_dialled s) \<subseteq> set (me_peers env) \<and> set (ms_retries s) \<subseteq> set (me_peers env)
     \<and> (\<forall>g gr. (g, gr) \<in> set (ms_greetings s) \<longrightarrow> greeting_ok env gr)"

definition waits_ok :: "mesh \<Rightarrow> bool" where
  "waits_ok s \<longleftrightarrow> (\<forall>k w. (k, w) \<in> set (ms_forwarded s) \<longrightarrow> fd_peer w \<in> fst ` set (ms_links s))"

definition mesh_ok :: "mesh_env \<Rightarrow> mesh \<Rightarrow> bool" where
  "mesh_ok env s \<longleftrightarrow> bound_ok s \<and> links_ok env s \<and> known_ok env s \<and> waits_ok s"

lemma ok_core: "core s' = core s \<Longrightarrow> mesh_ok env s' = mesh_ok env s"
proof -
  assume "core s' = core s"
  note f = coreD [OF this]
  show ?thesis unfolding mesh_ok_def bound_ok_def links_ok_def known_ok_def waits_ok_def f ..
qed

lemma ok_same [simp]: "mesh_ok env (effect e s) = mesh_ok env s" "mesh_ok env (conn_sends c f s) = mesh_ok env s" "mesh_ok env (closes c x s) = mesh_ok env s"
  by (rule ok_core; simp add: closes_def)+

lemma abandon_fields [simp]:
  "ms_links (abandon p s) = ms_links s" "ms_link (abandon p s) = ms_link s" "ms_made (abandon p s) = ms_made s" "ms_idOf (abandon p s) = ms_idOf s"
  "ms_endpointOf (abandon p s) = ms_endpointOf s" "ms_greetings (abandon p s) = ms_greetings s" "ms_retries (abandon p s) = ms_retries s"
  "ms_dials (abandon p s) = ms_dials s" "ms_dialled (abandon p s) = ms_dialled s" "ms_forgotten (abandon p s) = ms_forgotten s"
  "ms_forwarded (abandon p s) = filter (\<lambda>(k, w). fd_peer w \<noteq> p) (ms_forwarded s)" "ms_gone (abandon p s) = ms_gone s"
  "ms_stopping (abandon p s) = ms_stopping s" "ms_pending (abandon p s) = ms_pending s" "ms_demanded (abandon p s) = ms_demanded s"
  by (simp_all add: abandon_def)

lemma retry_fields [simp]:
  "ms_links (retry env p s) = ms_links s" "ms_link (retry env p s) = ms_link s" "ms_made (retry env p s) = ms_made s" "ms_idOf (retry env p s) = ms_idOf s"
  "ms_endpointOf (retry env p s) = ms_endpointOf s" "ms_greetings (retry env p s) = ms_greetings s" "ms_forwarded (retry env p s) = ms_forwarded s"
  "ms_dials (retry env p s) = ms_dials s" "ms_dialled (retry env p s) = ms_dialled s" "ms_forgotten (retry env p s) = ms_forgotten s"
  "set (ms_retries (retry env p s)) \<subseteq> insert p (set (ms_retries s))" "ms_gone (retry env p s) = ms_gone s" "ms_demanded (retry env p s) = ms_demanded s"
  by (auto simp: retry_def Let_def)

lemma ok_retry: "mesh_ok env s \<Longrightarrow> p \<in> set (me_peers env) \<Longrightarrow> mesh_ok env (retry env p s)"
  using retry_fields(11) [of env p s] by (auto simp: mesh_ok_def bound_ok_def links_ok_def known_ok_def waits_ok_def simp del: map_of_eq_Some_iff retry_fields(11))

text \<open>The state a link is taken from.\<close>

definition unlinked :: "endpoint \<Rightarrow> conn_no \<Rightarrow> mesh \<Rightarrow> mesh" where
  "unlinked p c s = abandon p (s\<lparr>ms_links := map_del p (ms_links s), ms_linkOf := map_del c (ms_linkOf s)\<rparr>)"

lemma ok_unlinked: "mesh_ok env s \<Longrightarrow> mesh_ok env (unlinked p c s)"
proof -
  assume s: "mesh_ok env s"
  have "links_ok env (unlinked p c s)" using s by (auto simp: mesh_ok_def links_ok_def unlinked_def dest: in_map_del)
  moreover have "waits_ok (unlinked p c s)" using s set_map_del_keys [of p "ms_links s"] by (auto simp: mesh_ok_def waits_ok_def unlinked_def)
  ultimately show ?thesis using s by (simp add: mesh_ok_def bound_ok_def known_ok_def unlinked_def)
qed

lemma drop_cases:
  obtains "drop_link env p c s = s" "\<And>k. map_of (ms_links s) p = Some k \<Longrightarrow> lk_conn (ms_link s k) \<noteq> c"
  | k s' where "map_of (ms_links s) p = Some k" "lk_conn (ms_link s k) = c" "core s' = core (unlinked p c s)"
      "drop_link env p c s = (if lk_dialled (ms_link s k) then retry env p s' else s')"
proof (cases "map_of (ms_links s) p")
  case (Some k)
  define s1 where "s1 = s\<lparr>ms_links := map_del p (ms_links s), ms_linkOf := map_del c (ms_linkOf s)\<rparr>"
  define s3 where "s3 = effect Changed (abandon p (case map_of (ms_idOf s1) p of None \<Rightarrow> s1 | Some i \<Rightarrow> effect (Relay_lost i) s1))"
  have c3: "core s3 = core (unlinked p c s)" by (cases "map_of (ms_idOf s1) p") (simp_all add: s3_def core_def unlinked_def s1_def)
  show ?thesis
  proof (cases "lk_conn (ms_link s k) = c")
    case True
    have "drop_link env p c s = (if lk_dialled (ms_link s k) then retry env p s3 else s3)"
      unfolding drop_link_def Let_def s3_def s1_def using Some True by simp
    then show ?thesis using Some True c3 by (intro that(2))
  next
    case False
    then show ?thesis using Some by (intro that(1)) (auto simp: drop_link_def)
  qed
qed (auto intro: that(1) simp: drop_link_def)

lemma ok_drop: assumes "mesh_ok env s" shows "mesh_ok env (drop_link env p c s)"
proof (cases rule: drop_cases [of env p c s])
  case 1
  then show ?thesis using assms by simp
next
  case (2 k s')
  have "(p, k) \<in> set (ms_links s)" using 2(1) by (rule map_of_SomeD)
  then have "p \<in> set (me_peers env)" using assms by (auto simp: mesh_ok_def links_ok_def)
  moreover have "mesh_ok env s'" using ok_core [OF 2(3)] ok_unlinked [OF assms] by simp
  ultimately show ?thesis using 2(4) ok_retry by simp
qed


text \<open>What dropping links never touches, and what it only takes away.\<close>

lemma drop_frame:
  "ms_link (drop_link env p c s) = ms_link s" "ms_made (drop_link env p c s) = ms_made s" "ms_idOf (drop_link env p c s) = ms_idOf s"
  "ms_endpointOf (drop_link env p c s) = ms_endpointOf s" "ms_greetings (drop_link env p c s) = ms_greetings s" "ms_dials (drop_link env p c s) = ms_dials s"
  "ms_dialled (drop_link env p c s) = ms_dialled s" "ms_forgotten (drop_link env p c s) = ms_forgotten s"
  "(q, k) \<in> set (ms_links (drop_link env p c s)) \<Longrightarrow> (q, k) \<in> set (ms_links s)"
proof -
  have "ms_link (drop_link env p c s) = ms_link s \<and> ms_made (drop_link env p c s) = ms_made s \<and> ms_idOf (drop_link env p c s) = ms_idOf s
    \<and> ms_endpointOf (drop_link env p c s) = ms_endpointOf s \<and> ms_greetings (drop_link env p c s) = ms_greetings s \<and> ms_dials (drop_link env p c s) = ms_dials s
    \<and> ms_dialled (drop_link env p c s) = ms_dialled s \<and> ms_forgotten (drop_link env p c s) = ms_forgotten s
    \<and> ((q, k) \<in> set (ms_links (drop_link env p c s)) \<longrightarrow> (q, k) \<in> set (ms_links s))"
  proof (cases rule: drop_cases [of env p c s])
    case (2 l s')
    note f = coreD [OF 2(3)]
    show ?thesis unfolding 2(4) by (auto simp: f unlinked_def AList.delete_eq)
  qed auto
  then show "ms_link (drop_link env p c s) = ms_link s" "ms_made (drop_link env p c s) = ms_made s" "ms_idOf (drop_link env p c s) = ms_idOf s"
    "ms_endpointOf (drop_link env p c s) = ms_endpointOf s" "ms_greetings (drop_link env p c s) = ms_greetings s" "ms_dials (drop_link env p c s) = ms_dials s"
    "ms_dialled (drop_link env p c s) = ms_dialled s" "ms_forgotten (drop_link env p c s) = ms_forgotten s"
    "(q, k) \<in> set (ms_links (drop_link env p c s)) \<Longrightarrow> (q, k) \<in> set (ms_links s)" by blast+
qed

text \<open>Taking a connection as a link, before its listener, the relay and the subscriptions.\<close>

definition linked :: "endpoint \<Rightarrow> conn_no \<Rightarrow> bool \<Rightarrow> timestamp \<Rightarrow> mesh \<Rightarrow> mesh" where
  "linked p c b now s =
     s\<lparr>ms_link := (ms_link s)(ms_made s := \<lparr>lk_peer = p, lk_conn = c, lk_actors = [], lk_dialled = b, lk_heard = now\<rparr>),
       ms_made := ms_made s + 1, ms_linkOf := map_set c (ms_made s) (ms_linkOf s), ms_links := map_set p (ms_made s) (ms_links s),
       ms_backoff := map_del p (ms_backoff s)\<rparr>"

definition linking :: "mesh_env \<Rightarrow> endpoint \<Rightarrow> conn_no \<Rightarrow> bool \<Rightarrow> timestamp \<Rightarrow> (nat \<Rightarrow> string) \<Rightarrow> mesh \<Rightarrow> mesh" where
  "linking env p c b now rids s =
     (let s1 = linked p c b now s;
          s2 = (if c \<in> set (ms_gone s1) then drop_link env p c s1
                else s1\<lparr>ms_listeners := (ms_listeners s1)(c := ms_listeners s1 c @ [Drops p])\<rparr>);
          s3 = (case map_of (ms_idOf s2) p of None \<Rightarrow> s2 | Some i \<Rightarrow> effect (Relay_restored i) s2)
      in effect Changed (fold (\<lambda>(n, topic). ask_peer c topic True (\<not> b) (rids n)) (enumerate 0 (ms_demanded s3)) s3))"

definition glare_cleared :: "endpoint \<Rightarrow> nat \<Rightarrow> mesh \<Rightarrow> mesh" where
  "glare_cleared p k s =
     closes (lk_conn (ms_link s k)) (Some GLARE_CLOSE) (s\<lparr>ms_links := map_del p (ms_links s), ms_linkOf := map_del (lk_conn (ms_link s k)) (ms_linkOf s)\<rparr>)"

lemma hold_cases:
  "hold_link env p c b now rids s =
     (case map_of (ms_links s) p of
        None \<Rightarrow> linking env p c b now rids s
      | Some k \<Rightarrow>
          if lk_conn (ms_link s k) = c then s
          else if \<not> glareKeepsNew (me_self env) p b then closes c (Some GLARE_CLOSE) s
          else linking env p c b now rids (glare_cleared p k s))"
  unfolding hold_link_def linking_def linked_def glare_cleared_def Let_def ..

lemma core_linking:
  "core (linking env p c b now rids s) = core (if c \<in> set (ms_gone s) then drop_link env p c (linked p c b now s) else linked p c b now s)"
proof -
  let ?s1 = "linked p c b now s"
  have g: "ms_gone ?s1 = ms_gone s" by (simp add: linked_def)
  define s2 where "s2 = (if c \<in> set (ms_gone ?s1) then drop_link env p c ?s1 else ?s1\<lparr>ms_listeners := (ms_listeners ?s1)(c := ms_listeners ?s1 c @ [Drops p])\<rparr>)"
  define s3 where "s3 = (case map_of (ms_idOf s2) p of None \<Rightarrow> s2 | Some i \<Rightarrow> effect (Relay_restored i) s2)"
  have "linking env p c b now rids s = effect Changed (fold (\<lambda>(n, topic). ask_peer c topic True (\<not> b) (rids n)) (enumerate 0 (ms_demanded s3)) s3)"
    unfolding linking_def Let_def s3_def s2_def ..
  then have "core (linking env p c b now rids s) = core s3"
    using core_fold_ask [of "\<lambda>_. c" "\<lambda>t. t" True "\<not> b" rids "enumerate 0 (ms_demanded s3)" s3] by simp
  also have "\<dots> = core s2" unfolding s3_def by (simp split: option.splits)
  also have "\<dots> = core (if c \<in> set (ms_gone s) then drop_link env p c ?s1 else ?s1)" unfolding s2_def g by (simp add: core_def)
  finally show ?thesis .
qed

lemma ok_linked:
  assumes "mesh_ok env s" "p \<in> set (me_peers env)" "p \<notin> set (ms_forgotten s)"
  shows "mesh_ok env (linked p c b now s)"
proof -
  have sub: "(q, l) \<in> set (map_set p (ms_made s) (ms_links s)) \<Longrightarrow> (q, l) = (p, ms_made s) \<or> (q, l) \<in> set (ms_links s)" for q l
    by (rule in_map_set)
  have "links_ok env (linked p c b now s)" using assms by (auto simp: mesh_ok_def links_ok_def linked_def dest!: sub intro: less_SucI)
  moreover have "waits_ok (linked p c b now s)" using assms(1) set_map_set_keys [of p "ms_made s" "ms_links s"]
    by (auto simp: mesh_ok_def waits_ok_def linked_def)
  ultimately show ?thesis using assms(1) by (simp add: mesh_ok_def bound_ok_def known_ok_def linked_def)
qed

text \<open>A glare takes the old link away and puts the new one in its place, so what waits on the peer still has one.\<close>

lemma linked_cleared: "core (linked p c b now (glare_cleared p k s)) = core (linked p c b now (s\<lparr>ms_links := map_del p (ms_links s)\<rparr>))"
  by (simp add: core_def linked_def glare_cleared_def closes_def)

lemma ok_relinked:
  assumes s: "mesh_ok env s" and p: "p \<in> set (me_peers env)" "p \<notin> set (ms_forgotten s)"
  shows "mesh_ok env (linked p c b now (s\<lparr>ms_links := map_del p (ms_links s)\<rparr>))"
proof -
  have sub: "(q, l) \<in> set (map_set p (ms_made s) (map_del p (ms_links s))) \<Longrightarrow> (q, l) = (p, ms_made s) \<or> (q, l) \<in> set (ms_links s)" for q l
    using in_map_set [of "(q, l)" p "ms_made s" "map_del p (ms_links s)"] in_map_del [of "(q, l)" p "ms_links s"] by auto
  have "links_ok env (linked p c b now (s\<lparr>ms_links := map_del p (ms_links s)\<rparr>))" using s p
    by (auto simp: mesh_ok_def links_ok_def linked_def dest!: sub intro: less_SucI)
  moreover have "waits_ok (linked p c b now (s\<lparr>ms_links := map_del p (ms_links s)\<rparr>))"
    using s set_map_set_keys [of p "ms_made s" "map_del p (ms_links s)"] set_map_del_keys [of p "ms_links s"]
    by (auto simp: mesh_ok_def waits_ok_def linked_def)
  ultimately show ?thesis using s by (simp add: mesh_ok_def bound_ok_def known_ok_def linked_def)
qed

lemma ok_linking:
  assumes "mesh_ok env (linked p c b now s)"
  shows "mesh_ok env (linking env p c b now rids s)"
  using ok_core [OF core_linking] assms ok_drop [OF assms] by simp

lemma ok_hold:
  assumes s: "mesh_ok env s" and p: "p \<in> set (me_peers env)" "p \<notin> set (ms_forgotten s)"
  shows "mesh_ok env (hold_link env p c b now rids s)"
  unfolding hold_cases using s ok_linking [OF ok_linked [OF s p]] ok_linking ok_core [OF linked_cleared] ok_relinked [OF s p] ok_same(3)
  by (simp split: option.splits)


lemma ok_known:
  assumes "mesh_ok env s" "ms_links s' = ms_links s" "\<And>k. lk_peer (ms_link s' k) = lk_peer (ms_link s k)" "ms_made s' = ms_made s" "ms_idOf s' = ms_idOf s"
    "ms_endpointOf s' = ms_endpointOf s" "ms_forgotten s' = ms_forgotten s" "set (ms_forwarded s') \<subseteq> set (ms_forwarded s)" "known_ok env s'"
  shows "mesh_ok env s'"
  using assms by (auto simp: mesh_ok_def bound_ok_def links_ok_def waits_ok_def simp del: map_of_eq_Some_iff)

lemma known_greetings:
  assumes "known_ok env s" "\<And>g gr. (g, gr) \<in> set gs \<Longrightarrow> greeting_ok env gr"
  shows "known_ok env (s\<lparr>ms_greetings := gs\<rparr>)"
  using assms by (simp add: known_ok_def)

lemma known_greeting: "known_ok env s \<Longrightarrow> map_of (ms_greetings s) g = Some gr \<Longrightarrow> greeting_ok env gr"
  by (auto simp: known_ok_def dest: map_of_SomeD)

lemma known_set: "known_ok env s \<Longrightarrow> greeting_ok env gr \<Longrightarrow> known_ok env (s\<lparr>ms_greetings := map_set g gr (ms_greetings s)\<rparr>)"
  by (rule known_greetings) (auto simp: known_ok_def dest!: in_map_set)

lemma ok_knownD: "mesh_ok env s \<Longrightarrow> known_ok env s" by (simp add: mesh_ok_def)

lemma ok_set_greeting: "mesh_ok env s \<Longrightarrow> greeting_ok env gr \<Longrightarrow> mesh_ok env (s\<lparr>ms_greetings := map_set g gr (ms_greetings s)\<rparr>)"
  by (rule ok_known) (auto intro: known_set ok_knownD)

lemma ok_reject: "mesh_ok env s \<Longrightarrow> mesh_ok env (reject_proof g s)"
  using known_greeting [OF ok_knownD, of env s g] ok_set_greeting [of env s _ g]
  by (auto simp: reject_proof_def greeting_ok_def split: option.splits)

lemma ok_fields [simp]:
  "mesh_ok env (s\<lparr>ms_pending := x\<rparr>) = mesh_ok env s" "mesh_ok env (s\<lparr>ms_listeners := l\<rparr>) = mesh_ok env s" "mesh_ok env (s\<lparr>ms_minted := m\<rparr>) = mesh_ok env s"
  "mesh_ok env (s\<lparr>ms_marked := y\<rparr>) = mesh_ok env s" "mesh_ok env (s\<lparr>ms_demanded := d\<rparr>) = mesh_ok env s" "mesh_ok env (s\<lparr>ms_stopping := b\<rparr>) = mesh_ok env s"
  "mesh_ok env (s\<lparr>ms_gone := z\<rparr>) = mesh_ok env s" "mesh_ok env (s\<lparr>ms_jwkWindow := v\<rparr>) = mesh_ok env s" "mesh_ok env (s\<lparr>ms_jwkServed := w\<rparr>) = mesh_ok env s"
  "mesh_ok env (s\<lparr>ms_linkOf := lo\<rparr>) = mesh_ok env s"
  by (rule ok_core; simp add: core_def)+

lemma ok_greet: assumes s: "mesh_ok env s" shows "mesh_ok env (greet env g c claim challenge s)"
proof (cases "claim_refused env claim s")
  case None
  let ?gr = "\<lparr>gr_conn = c, gr_claim = claim, gr_challenge = challenge, gr_proof = Proof_waits, gr_key = None\<rparr>"
  let ?s = "s\<lparr>ms_pending := map_set c g (ms_pending s), ms_greetings := map_set g ?gr (ms_greetings s)\<rparr>"
  have "greeting_ok env ?gr" using None by (auto simp: greeting_ok_def claim_refused_def split: if_splits)
  then have "mesh_ok env ((s\<lparr>ms_pending := map_set c g (ms_pending s)\<rparr>)\<lparr>ms_greetings := map_set g ?gr (ms_greetings s)\<rparr>)"
    using s ok_set_greeting [of env "s\<lparr>ms_pending := map_set c g (ms_pending s)\<rparr>" ?gr g] by simp
  then have "mesh_ok env ?s" by simp
  then show ?thesis using None ok_reject [of env ?s g] by (simp add: greet_def Let_def)
qed (simp add: greet_def s)

lemma ok_greeting_over: "mesh_ok env s \<Longrightarrow> mesh_ok env (greeting_over g s)"
  by (frule ok_knownD, erule ok_known) (auto simp: greeting_over_def known_ok_def dest: in_map_del split: option.splits)

lemma ok_greeting_failed: "mesh_ok env s \<Longrightarrow> mesh_ok env (greeting_failed g s)"
  by (simp add: greeting_failed_def ok_greeting_over)

lemma ok_key_fetched: "mesh_ok env s \<Longrightarrow> mesh_ok env (key_fetched g a s)"
  using known_greeting [OF ok_knownD, of env s g] ok_set_greeting [of env s _ g] ok_greeting_failed [of env s g]
  by (auto simp: key_fetched_def greeting_ok_def split: option.splits)

lemma ok_bind: "mesh_ok env s \<Longrightarrow> \<not> binding_refused p i s \<Longrightarrow> mesh_ok env (bind_peer p i s)"
  using bound_bind [of s p i] by (simp add: mesh_ok_def links_ok_def known_ok_def waits_ok_def) (simp add: bind_peer_def Let_def)

lemma bind_forgotten [simp]: "ms_forgotten (bind_peer p i s) = ms_forgotten s" "ms_forgotten (greeting_over g s) = ms_forgotten s"
  by (simp_all add: bind_peer_def greeting_over_def Let_def split: option.splits)

lemma ok_greet_on: assumes s: "mesh_ok env s" shows "mesh_ok env (greet_on env g now rids s)"
proof -
  have hold: "mesh_ok env (hold_link env (mc_iss (gr_claim gr)) (gr_conn gr) False now rids (bind_peer (mc_iss (gr_claim gr)) (mc_id (gr_claim gr)) (greeting_over g s)))"
    if "map_of (ms_greetings s) g = Some gr" "mc_iss (gr_claim gr) \<notin> set (ms_forgotten s)"
      "\<not> binding_refused (mc_iss (gr_claim gr)) (mc_id (gr_claim gr)) (greeting_over g s)" for gr
    using known_greeting [OF ok_knownD [OF s] that(1)] that(2,3)
    by (intro ok_hold ok_bind ok_greeting_over s) (simp_all add: greeting_ok_def)
  show ?thesis unfolding greet_on_def
    using hold ok_greeting_over [OF s] ok_greeting_failed [OF s] s by (simp add: Let_def split: option.splits proof_promise.splits)
qed

lemma ok_proof_late: "mesh_ok env s \<Longrightarrow> mesh_ok env (proof_late g s)"
  by (simp add: proof_late_def ok_greeting_failed split: option.splits)

lemma ok_del_forwarded: "mesh_ok env s \<Longrightarrow> mesh_ok env (s\<lparr>ms_forwarded := map_del k (ms_forwarded s)\<rparr>)"
  by (frule ok_knownD, erule ok_known) (auto simp: known_ok_def dest: in_map_del)

lemma core_topic: "core (snd (peer_topic env f s)) = core s"
  by (simp add: peer_topic_def split: option.split)

lemma reply_cases:
  assumes "peer_reply f s = Some s'"
  obtains "s' = s" | k w r where "map_of (ms_forwarded s) k = Some w" "s' = effect (Settles (fd_call w) r) (s\<lparr>ms_forwarded := map_del k (ms_forwarded s)\<rparr>)"
proof (cases "as_string (jfield f ''request_id'')")
  case None
  then show ?thesis using assms by (simp add: peer_reply_def)
next
  case rid: (Some rid)
  show ?thesis
  proof (cases "as_boolean (jfield f ''ok'')")
    case None
    then show ?thesis using assms by (simp add: peer_reply_def rid)
  next
    case b: (Some b)
    show ?thesis
    proof (cases "map_of (ms_forwarded s) rid")
      case None
      then show ?thesis using assms by (intro that(1)) (simp add: peer_reply_def rid b split: if_split_asm)
    next
      case (Some w)
      have "s' = effect (Settles (fd_call w) (answerOf (members_of f) (fd_request w))) (s\<lparr>ms_forwarded := map_del rid (ms_forwarded s)\<rparr>)"
        using assms by (simp add: peer_reply_def rid b Some)
      then show ?thesis by (rule that(2) [OF Some])
    qed
  qed
qed

lemma frame_cases:
  obtains "core (snd (peer_frame env c f s)) = core s" "peer_reply f s = None \<or> peer_frame env c f s = (True, s) \<or> map_of (ms_linkOf s) c = None \<or> \<not> is_object f"
  | k w r where "map_of (ms_forwarded s) k = Some w" "peer_frame env c f s = (True, effect (Settles (fd_call w) r) (s\<lparr>ms_forwarded := map_del k (ms_forwarded s)\<rparr>))"
proof (cases "map_of (ms_linkOf s) c = None \<or> \<not> is_object f")
  case True
  then show ?thesis using that(1) by (simp add: peer_frame_def)
next
  case False
  show ?thesis
  proof (cases "peer_reply f s")
    case None
    then show ?thesis using False that(1) core_topic by (simp add: peer_frame_def)
  next
    case (Some s')
    show ?thesis
    proof (cases rule: reply_cases [OF Some])
      case 1
      then show ?thesis using False Some by (intro that(1)) (simp_all add: peer_frame_def)
    next
      case (2 k w r)
      then show ?thesis using False Some by (intro that(2)) (simp_all add: peer_frame_def)
    qed
  qed
qed

lemma ok_peer_frame: assumes "mesh_ok env s" shows "mesh_ok env (snd (peer_frame env c f s))"
proof (cases rule: frame_cases [of env c f s])
  case 1
  then show ?thesis using ok_core assms by blast
next
  case (2 k w r)
  then show ?thesis using ok_del_forwarded [OF assms, of k] by simp
qed

lemma ok_takes: assumes s: "mesh_ok env s" shows "mesh_ok env (snd (mesh_takes env now c f s))"
proof -
  have "mesh_ok env (heard c now s)" by (rule ok_known [OF s]) (use s in \<open>auto simp: heard_def mesh_ok_def known_ok_def\<close>)
  moreover have "mesh_ok env (s\<lparr>ms_greetings := map_set g (gr\<lparr>gr_proof := Proof_is jws\<rparr>) (ms_greetings s)\<rparr>)" if "map_of (ms_greetings s) g = Some gr" for g gr jws
    using known_greeting [OF ok_knownD [OF s] that] ok_set_greeting [OF s] by (auto simp: greeting_ok_def)
  ultimately show ?thesis using s ok_peer_frame [OF s]
    by (simp add: mesh_takes_def split: option.splits mesh_frame.splits)
qed


lemma known_dials:
  "known_ok env s \<Longrightarrow> map_of (ms_dials s) kid = Some p \<Longrightarrow> p \<in> set (me_peers env)"
  "known_ok env s \<Longrightarrow> map_of (ms_dialled s) c = Some (p, kid) \<Longrightarrow> p \<in> set (me_peers env)"
proof -
  assume k: "known_ok env s"
  show "map_of (ms_dials s) kid = Some p \<Longrightarrow> p \<in> set (me_peers env)"
    using k image_eqI [of p snd "(kid, p)" "set (ms_dials s)"] map_of_SomeD [of "ms_dials s" kid p] by (auto simp: known_ok_def)
  show "map_of (ms_dialled s) c = Some (p, kid) \<Longrightarrow> p \<in> set (me_peers env)"
    using k image_eqI [of p "fst \<circ> snd" "(c, p, kid)" "set (ms_dialled s)"] map_of_SomeD [of "ms_dialled s" c "(p, kid)"] by (auto simp: known_ok_def)
qed

lemma peer_frame_frame:
  "ms_dialled (snd (peer_frame env c f s)) = ms_dialled s \<and> ms_forgotten (snd (peer_frame env c f s)) = ms_forgotten s
   \<and> ms_links (snd (peer_frame env c f s)) = ms_links s \<and> ms_link (snd (peer_frame env c f s)) = ms_link s"
proof (cases rule: frame_cases [of env c f s])
  case 1
  show ?thesis using coreD [OF 1(1)] by blast
next
  case (2 k w r)
  then show ?thesis by simp
qed

lemma takes_frame:
  "ms_dialled (snd (mesh_takes env now c f s)) = ms_dialled s" "ms_forgotten (snd (mesh_takes env now c f s)) = ms_forgotten s"
  "ms_links (snd (mesh_takes env now c f s)) = ms_links s" "lk_conn (ms_link (snd (mesh_takes env now c f s)) k) = lk_conn (ms_link s k)"
  by (simp_all add: mesh_takes_def peer_frame_frame heard_def closes_def split: option.split mesh_frame.split)

lemma ok_dialled_frame: assumes s: "mesh_ok env s" shows "mesh_ok env (dialled_frame env now rids c f s)"
proof (cases "map_of (ms_dialled s) c")
  case (Some pk)
  obtain p kid where pk: "pk = (p, kid)" by (cases pk)
  obtain b s1 where t: "mesh_takes env now c f s = (b, s1)" by (cases "mesh_takes env now c f s")
  have s1: "mesh_ok env s1" "ms_forgotten s1 = ms_forgotten s" using ok_takes [OF s, of now c f] takes_frame(2) [of env now c f s] by (simp_all add: t)
  have p: "p \<in> set (me_peers env)" using known_dials(2) [OF ok_knownD [OF s]] Some by (simp add: pk del: map_of_eq_Some_iff)
  have "mesh_ok env (hold_link env p c True now rids (bind_peer p i (s1\<lparr>ms_minted := m\<rparr>)))"
    if "\<not> binding_refused p i (s1\<lparr>ms_minted := m\<rparr>)" "p \<notin> set (ms_forgotten s1)" for i m
    using that s1 p by (intro ok_hold ok_bind) simp_all
  then show ?thesis using s1 by (simp add: dialled_frame_def Some pk t Let_def split: option.splits bool.splits)
qed (simp add: dialled_frame_def s)

lemma ok_serveKey: "mesh_ok env s \<Longrightarrow> mesh_ok env (snd (serveKey env now kid body s))"
  by (simp add: serveKey_def allowKeyRequest_def Let_def split: option.splits bool.splits)

lemma ok_forward: assumes s: "mesh_ok env s" shows "mesh_ok env (forward env n dest ms caller rid s)"
proof -
  have "mesh_ok env (s\<lparr>ms_forwarded := map_set k w (ms_forwarded s)\<rparr>)" if "fd_peer w \<in> fst ` set (ms_links s)" for k w
  proof -
    have "waits_ok (s\<lparr>ms_forwarded := map_set k w (ms_forwarded s)\<rparr>)"
      using s that by (auto simp: mesh_ok_def waits_ok_def dest!: in_map_set)
    then show ?thesis using s by (simp add: mesh_ok_def bound_ok_def links_ok_def known_ok_def)
  qed
  moreover have "Option.bind (map_of (ms_endpointOf s) dest) (\<lambda>e. map_option (Pair e) (map_of (ms_links s) e)) = Some (p, k) \<Longrightarrow> p \<in> fst ` set (ms_links s)" for p k
    by (auto simp: bind_eq_Some_conv simp del: map_of_eq_Some_iff dest!: map_of_SomeD intro: rev_image_eqI)
  ultimately show ?thesis using s
    by (cases "Option.bind (map_of (ms_endpointOf s) dest) (\<lambda>e. map_option (Pair e) (map_of (ms_links s) e))") (auto simp: forward_def Let_def)
qed

lemma ok_forward_late: "mesh_ok env s \<Longrightarrow> mesh_ok env (forward_late k s)"
  using ok_del_forwarded [of env s k] by (simp add: forward_late_def split: option.splits)

lemma ok_caller_actor: "mesh_ok env s \<Longrightarrow> mesh_ok env (snd (caller_actor c who s))"
  by (frule ok_knownD, erule ok_known) (auto simp: caller_actor_def known_ok_def split: option.splits)

lemma core_tell: "core (fold (\<lambda>(n, (peer, k)). ask_peer (h k) t b False (rids n)) xs s) = core s"
  by (induction xs arbitrary: s) auto

lemma ok_demand: "mesh_ok env s \<Longrightarrow> mesh_ok env (demand env t b rids s)"
  by (simp add: demand_def Let_def ok_core [OF core_tell])

lemma ok_dial: "mesh_ok env s \<Longrightarrow> p \<in> set (me_peers env) \<Longrightarrow> mesh_ok env (dial p kid s)"
  by (frule ok_knownD, erule ok_known) (auto simp: dial_def known_ok_def dest!: in_map_set)

lemma ok_connect: "mesh_ok env s \<Longrightarrow> mesh_ok env (connect_all env kids s)"
proof -
  have "mesh_ok env s \<Longrightarrow> (\<And>n p. (n, p) \<in> set xs \<Longrightarrow> p \<in> set (me_peers env)) \<Longrightarrow> mesh_ok env (fold (\<lambda>(n, p). dial p (kids n)) xs s)" for xs s
  proof (induction xs arbitrary: s)
    case (Cons x xs)
    have "mesh_ok env (dial (snd x) (kids (fst x)) s)" using Cons.prems(2) [of "fst x" "snd x"] by (intro ok_dial Cons.prems(1)) simp
    moreover have "(n, p) \<in> set xs \<Longrightarrow> p \<in> set (me_peers env)" for n p using Cons.prems(2) [of n p] by simp
    ultimately have "mesh_ok env (fold (\<lambda>(n, p). dial p (kids n)) xs (dial (snd x) (kids (fst x)) s))" by (rule Cons.IH)
    then show ?case by (cases x) simp
  qed simp
  moreover have "(n, p) \<in> set (enumerate 0 (mesh_peers env s)) \<Longrightarrow> p \<in> set (me_peers env)" for n p
    by (auto simp: mesh_peers_def in_set_enumerate_eq dest: nth_mem)
  ultimately show "mesh_ok env s \<Longrightarrow> mesh_ok env (connect_all env kids s)" by (simp add: connect_all_def)
qed

lemma known_dial: "mesh_ok env s \<Longrightarrow> map_of (ms_dials s) kid = Some p \<Longrightarrow> p \<in> set (me_peers env)"
  using known_dials(1) by (auto simp: mesh_ok_def simp del: map_of_eq_Some_iff)

lemma ok_dial_opened: "mesh_ok env s \<Longrightarrow> mesh_ok env (dial_opened env v kid c s)"
proof -
  assume s: "mesh_ok env s"
  have "mesh_ok env (s\<lparr>ms_minted := m, ms_dials := map_del kid (ms_dials s), ms_dialled := map_set c (p, kid) (ms_dialled s)\<rparr>)"
    if "map_of (ms_dials s) kid = Some p" for p m
    using known_dial [OF s that] ok_knownD [OF s]
    by (intro ok_known [OF s]) (auto simp: known_ok_def dest!: in_map_set in_map_del)
  then show ?thesis using s by (auto simp: dial_opened_def Let_def split: option.splits)
qed

lemma ok_dial_failed: "mesh_ok env s \<Longrightarrow> mesh_ok env (dial_failed env kid s)"
proof -
  assume s: "mesh_ok env s"
  have "mesh_ok env (s\<lparr>ms_minted := m, ms_dials := map_del kid (ms_dials s)\<rparr>)" for m
    using ok_knownD [OF s] by (intro ok_known [OF s]) (auto simp: known_ok_def dest!: in_map_del)
  then show ?thesis using s known_dial [OF s] ok_retry by (auto simp: dial_failed_def split: option.splits)
qed

lemma ok_beat: "mesh_ok env s \<Longrightarrow> mesh_ok env (beat env now p s)"
  using ok_drop [of env "closes _ None s"] by (simp add: beat_def Let_def split: option.splits)

lemma ok_del_retry: "mesh_ok env s \<Longrightarrow> mesh_ok env (s\<lparr>ms_retries := set_del p (ms_retries s)\<rparr>)"
  by (frule ok_knownD, erule ok_known) (auto simp: known_ok_def)

lemma ok_retry_fires: "mesh_ok env s \<Longrightarrow> mesh_ok env (retry_fires p kid s)"
proof -
  assume s: "mesh_ok env s"
  have "p \<in> set (ms_retries s) \<Longrightarrow> p \<in> set (me_peers env)" using s by (auto simp: mesh_ok_def known_ok_def)
  then show ?thesis using s ok_dial [OF ok_del_retry [OF s]] by (simp add: retry_fires_def)
qed

lemma ok_conn_ends: assumes s: "mesh_ok env s" shows "mesh_ok env (conn_ends env c code s)"
proof -
  let ?s1 = "s\<lparr>ms_gone := c # ms_gone s, ms_listeners := (ms_listeners s)(c := [])\<rparr>"
  have run: "mesh_ok env t \<Longrightarrow> mesh_ok env (fold (run_listener env c) ls t)" for ls t
    by (induction ls arbitrary: t) (auto simp: run_listener_def ok_drop ok_reject split: close_listener.splits)
  have s2: "mesh_ok env (fold (run_listener env c) (ms_listeners s c) ?s1)" by (rule run) (simp add: s)
  have "mesh_ok env (let s3 = drop_link env p c ((fold (run_listener env c) (ms_listeners s c) ?s1)\<lparr>ms_minted := m\<rparr>) in if code \<noteq> GLARE_CLOSE then retry env p s3 else s3)"
    if "map_of (ms_dialled s) c = Some (p, kid)" for p kid m
    using known_dials(2) [OF ok_knownD [OF s] that] ok_drop s2 by (simp add: Let_def ok_retry)
  then show ?thesis using s s2 by (simp add: conn_ends_def Let_def split: option.splits)
qed

lemma ok_forget: assumes s: "mesh_ok env s" shows "mesh_ok env (snd (forget_peer env p s))"
proof -
  let ?s1 = "s\<lparr>ms_forgotten := set_add p (ms_forgotten s), ms_retries := set_del p (ms_retries s)\<rparr>"
  have free: "links_ok env (unlinked p c ?s1)" for c using s by (auto simp: mesh_ok_def links_ok_def unlinked_def dest: in_map_del)
  have u: "mesh_ok env (unlinked p c ?s1)" for c
  proof -
    have "waits_ok (unlinked p c ?s1)" using s set_map_del_keys [of p "ms_links s"] by (auto simp: mesh_ok_def waits_ok_def unlinked_def)
    then show ?thesis using s free by (auto simp: mesh_ok_def bound_ok_def known_ok_def unlinked_def simp del: map_of_eq_Some_iff)
  qed
  show ?thesis
  proof (cases "map_of (ms_links s) p")
    case None
    then have "p \<notin> fst ` set (ms_links s)" by (simp add: map_of_eq_None_iff)
    then have "links_ok env ?s1" using s by (force simp: mesh_ok_def links_ok_def)
    moreover have "known_ok env ?s1" using s by (auto simp: mesh_ok_def known_ok_def)
    ultimately have "mesh_ok env ?s1" using s by (simp add: mesh_ok_def bound_ok_def waits_ok_def)
    then show ?thesis using None by (simp add: forget_peer_def Let_def)
  next
    case (Some k)
    let ?c = "lk_conn (ms_link s k)" and ?s2 = "closes (lk_conn (ms_link s k)) None ?s1"
    have p: "p \<in> set (me_peers env)" using map_of_SomeD [OF Some] s by (auto simp: mesh_ok_def links_ok_def)
    have "mesh_ok env (drop_link env p ?c ?s2)"
    proof (cases rule: drop_cases [of env p ?c ?s2])
      case 1
      then show ?thesis using Some by (auto simp: closes_def)
    next
      case (2 l s')
      have "core s' = core (unlinked p ?c ?s1)" using 2(3) by (simp add: core_def unlinked_def closes_def)
      then have "mesh_ok env s'" using ok_core u by blast
      then show ?thesis using 2(4) ok_retry [OF _ p] by simp
    qed
    then show ?thesis using Some by (simp add: forget_peer_def Let_def)
  qed
qed

lemma ok_stop: assumes s: "mesh_ok env s" shows "mesh_ok env (mesh_stop s)"
proof -
  have closed: "core (fold (\<lambda>(p, k). closes (f k) None) xs t) = core t" for f xs and t :: mesh
    by (induction xs arbitrary: t) (auto simp: closes_def)
  have left: "ms_forwarded (fold (\<lambda>(p, k). abandon p) xs t) = filter (\<lambda>(k, w). fd_peer w \<notin> fst ` set xs) (ms_forwarded t)" for xs :: "(endpoint \<times> nat) list" and t
  proof (induction xs arbitrary: t)
    case (Cons x xs)
    show ?case using Cons [of "abandon (fst x) t"] by (simp add: case_prod_beta conj_commute)
  qed simp
  have same: "ms_links (fold (\<lambda>(p, k). abandon p) xs t) = ms_links t \<and> ms_idOf (fold (\<lambda>(p, k). abandon p) xs t) = ms_idOf t
      \<and> ms_endpointOf (fold (\<lambda>(p, k). abandon p) xs t) = ms_endpointOf t \<and> ms_greetings (fold (\<lambda>(p, k). abandon p) xs t) = ms_greetings t
      \<and> ms_retries (fold (\<lambda>(p, k). abandon p) xs t) = ms_retries t \<and> ms_dials (fold (\<lambda>(p, k). abandon p) xs t) = ms_dials t
      \<and> ms_dialled (fold (\<lambda>(p, k). abandon p) xs t) = ms_dialled t" for xs :: "(endpoint \<times> nat) list" and t
    by (induction xs arbitrary: t) auto
  have reject: "mesh_ok env t \<Longrightarrow> mesh_ok env (fold (\<lambda>(c, g). reject_proof g) xs t)" for xs :: "(conn_no \<times> nat) list" and t
    by (induction xs arbitrary: t) (auto simp: ok_reject)
  define s1 where "s1 = s\<lparr>ms_stopping := True, ms_retries := []\<rparr>"
  define s2 where "s2 = fold (\<lambda>(p, k). closes (lk_conn (ms_link s1 k)) None) (ms_links s1) s1"
  define s3 where "s3 = fold (\<lambda>(p, k). abandon p) (ms_links s2) s2"
  have c2: "core s2 = core s1" unfolding s2_def by (rule closed)
  note f2 = coreD [OF c2] and f3 = same [of "ms_links s2" s2, folded s3_def]
  have none: "ms_forwarded s3 = []"
  proof -
    have "waits_ok s2" using s unfolding mesh_ok_def waits_ok_def f2 by (simp add: s1_def)
    then show ?thesis unfolding s3_def left by (auto simp: waits_ok_def filter_empty_conv)
  qed
  have "mesh_ok env (s3\<lparr>ms_links := [], ms_linkOf := [], ms_minted := []\<rparr>)"
    using s f2 f3 none by (auto simp: mesh_ok_def bound_ok_def links_ok_def known_ok_def waits_ok_def s1_def simp del: map_of_eq_Some_iff)
  then show ?thesis unfolding mesh_stop_def Let_def s1_def [symmetric] s2_def [symmetric] s3_def [symmetric] by (simp add: reject)
qed

lemma ok_answer: "mesh_ok env (mesh_answer c ms out s) = mesh_ok env s"
  by (rule ok_core) (simp add: mesh_answer_def Let_def split: sum.splits dispatch_result.splits)

lemma ok_Mesh: "mesh_ok env (Mesh env)"
  by (simp add: Mesh_def bind_peer_def mesh_ok_def bound_ok_def links_ok_def known_ok_def waits_ok_def)

lemma ok_step: "mesh_ok env s \<Longrightarrow> mesh_ok env (mesh_step env s e)"
  by (cases e) (simp_all add: mesh_accept_def ok_greet ok_key_fetched ok_greet_on ok_proof_late ok_takes ok_dialled_frame ok_serveKey ok_forward
      ok_forward_late ok_caller_actor ok_demand ok_connect ok_dial_opened ok_dial_failed ok_beat ok_retry_fires ok_conn_ends ok_forget ok_answer ok_stop)

lemma ok_run: "mesh_ok env (mesh_run env evs)"
  unfolding mesh_run_def by (induction evs rule: rev_induct) (simp_all add: ok_Mesh ok_step)


section \<open>A link is vouched for\<close>

text \<open>
  What an event must be for a connection to become the link of a peer: the end of a greeting whose
  proof verifies against its own challenge and the key fetched for it, or the acceptance of the
  greeting this instance sent on a connection it dialled to the peer.
\<close>

definition vouches :: "mesh_env \<Rightarrow> mesh \<Rightarrow> mesh_event \<Rightarrow> endpoint \<Rightarrow> conn_no \<Rightarrow> bool" where
  "vouches env s e peer c \<longleftrightarrow>
     (\<exists>g now rids gr jwk jws. e = Greet_goes_on g now rids \<and> map_of (ms_greetings s) g = Some gr \<and> gr_conn gr = c
        \<and> mc_iss (gr_claim gr) = peer \<and> mc_aud (gr_claim gr) = me_self env
        \<and> gr_key gr = Some jwk \<and> jk_kid jwk = mc_kid (gr_claim gr) \<and> gr_proof gr = Proof_is jws
        \<and> verify_proof env now jws (gr_claim gr) (gr_challenge gr) jwk)
     \<or> (\<exists>now rids frame kid. e = Dialled_frame now rids c frame \<and> map_of (ms_dialled s) c = Some (peer, kid)
        \<and> jfield frame ''request_id'' = Some (JStr (''mesh-hello-'' @ kid)) \<and> jfield frame ''ok'' = Some (JBool True))"

definition old_link :: "mesh \<Rightarrow> mesh \<Rightarrow> endpoint \<Rightarrow> nat \<Rightarrow> bool" where
  "old_link s s' p k \<longleftrightarrow> (p, k) \<in> set (ms_links s) \<and> lk_conn (ms_link s' k) = lk_conn (ms_link s k)"

definition fewer_links :: "mesh \<Rightarrow> mesh \<Rightarrow> bool" where
  "fewer_links s s' \<longleftrightarrow> set (ms_links s') \<subseteq> set (ms_links s) \<and> (\<forall>k. lk_conn (ms_link s' k) = lk_conn (ms_link s k))"

lemma fewer_trans: "fewer_links s s' \<Longrightarrow> fewer_links s' s'' \<Longrightarrow> fewer_links s s''"
  by (auto simp: fewer_links_def)

lemma fewer_core: "core s' = core s \<Longrightarrow> fewer_links s s'"
  by (simp add: fewer_links_def coreD [of s' s])

lemma fewer_refl [simp]: "fewer_links s s" by (simp add: fewer_links_def)

lemma fewer_drop: "fewer_links s (drop_link env p c s)"
  using drop_frame(9) [of _ _ env p c s] by (auto simp: fewer_links_def drop_frame(1))

lemma fewer_old: "fewer_links s s' \<Longrightarrow> (p, k) \<in> set (ms_links s') \<Longrightarrow> old_link s s' p k"
  by (auto simp: fewer_links_def old_link_def)

lemma linking_links:
  assumes "(p, k) \<in> set (ms_links (linking env q c b now rids s))" "\<And>p k. (p, k) \<in> set (ms_links s) \<Longrightarrow> k < ms_made s"
  shows "old_link s (linking env q c b now rids s) p k \<or> p = q \<and> lk_conn (ms_link (linking env q c b now rids s) k) = c"
proof -
  let ?l = "linked q c b now s"
  let ?d = "if c \<in> set (ms_gone s) then drop_link env q c ?l else ?l"
  have "fewer_links ?l ?d" by (simp add: fewer_drop)
  then have "fewer_links ?l (linking env q c b now rids s)" by (rule fewer_trans) (rule fewer_core, rule core_linking)
  then have l: "(p, k) \<in> set (ms_links ?l)" "lk_conn (ms_link (linking env q c b now rids s) k) = lk_conn (ms_link ?l k)"
    using assms(1) by (auto simp: fewer_links_def)
  have "(p, k) = (q, ms_made s) \<or> (p, k) \<in> set (ms_links s)" using l(1) in_map_set by (fastforce simp: linked_def)
  then show ?thesis using l(2) assms(2) by (auto simp: old_link_def linked_def)
qed

lemma hold_links:
  assumes "(p, k) \<in> set (ms_links (hold_link env q c b now rids s))" "\<And>p k. (p, k) \<in> set (ms_links s) \<Longrightarrow> k < ms_made s"
  shows "old_link s (hold_link env q c b now rids s) p k \<or> p = q \<and> lk_conn (ms_link (hold_link env q c b now rids s) k) = c"
proof (cases "map_of (ms_links s) q")
  case None
  then show ?thesis using assms linking_links by (simp add: hold_cases)
next
  case (Some l)
  let ?g = "glare_cleared q l s"
  have g: "fewer_links s ?g" "ms_made ?g = ms_made s" by (auto simp: fewer_links_def glare_cleared_def closes_def dest: in_map_del)
  show ?thesis
  proof (cases "lk_conn (ms_link s l) = c \<or> \<not> glareKeepsNew (me_self env) q b")
    case True
    then have "hold_link env q c b now rids s = s \<or> hold_link env q c b now rids s = closes c (Some GLARE_CLOSE) s" using Some by (auto simp: hold_cases)
    then show ?thesis using assms(1) by (auto simp: old_link_def closes_def)
  next
    case False
    then have "hold_link env q c b now rids s = linking env q c b now rids ?g" using Some by (simp add: hold_cases)
    moreover have "(p, k) \<in> set (ms_links ?g) \<Longrightarrow> k < ms_made ?g" for p k using g assms(2) by (auto simp: fewer_links_def)
    ultimately show ?thesis using assms(1) linking_links [of p k env q c b now rids ?g] g by (auto simp: old_link_def fewer_links_def)
  qed
qed

lemma fewer_fields [simp]:
  "fewer_links s (effect e s') = fewer_links s s'" "fewer_links s (conn_sends c f s') = fewer_links s s'" "fewer_links s (closes c x s') = fewer_links s s'"
  "fewer_links s (retry env p s') = fewer_links s s'" "fewer_links s (s'\<lparr>ms_forwarded := w\<rparr>) = fewer_links s s'"
  "fewer_links s (s'\<lparr>ms_retries := r\<rparr>) = fewer_links s s'" "fewer_links s (s'\<lparr>ms_pending := pd\<rparr>) = fewer_links s s'" "fewer_links s (greeting_over g s') = fewer_links s s'"
  "fewer_links s (bind_peer p i s') = fewer_links s s'" "fewer_links s (reject_proof g s') = fewer_links s s'" "fewer_links s (abandon p s') = fewer_links s s'"
  by (simp_all add: fewer_links_def closes_def greeting_over_def bind_peer_def reject_proof_def Let_def split: option.split)

lemma fewer_small:
  "fewer_links s (greet env g c claim ch s)" "fewer_links s (greeting_failed g s)" "fewer_links s (key_fetched g a s)" "fewer_links s (proof_late g s)"
  "fewer_links s (snd (mesh_takes env now c f s))" "fewer_links s (snd (serveKey env now kid body s))" "fewer_links s (forward env n dest ms who rid s)"
  "fewer_links s (forward_late rid s)" "fewer_links s (snd (caller_actor c who s))" "fewer_links s (demand env t b rids s)" "fewer_links s (dial p kid s)"
  "fewer_links s (dial_opened env v kid c s)" "fewer_links s (dial_failed env kid s)" "fewer_links s (mesh_answer c ms out s)"
proof -
  show failed: "fewer_links s (greeting_failed g s)" by (simp add: greeting_failed_def)
  show "fewer_links s (greet env g c claim ch s)" by (simp add: greet_def Let_def reject_proof_def fewer_links_def split: option.split)
  show "fewer_links s (key_fetched g a s)" using failed by (simp add: key_fetched_def fewer_links_def split: option.split)
  show "fewer_links s (proof_late g s)" using failed by (simp add: proof_late_def split: option.split)
  show "fewer_links s (snd (mesh_takes env now c f s))" using takes_frame(3,4) [of env now c f s] by (simp add: fewer_links_def)
  show "fewer_links s (snd (serveKey env now kid body s))"
    by (simp add: serveKey_def allowKeyRequest_def fewer_links_def Let_def split: option.split bool.split)
  show "fewer_links s (forward env n dest ms who rid s)" by (simp add: forward_def Let_def split: option.split)
  show "fewer_links s (forward_late rid s)" by (simp add: forward_late_def split: option.split)
  show "fewer_links s (snd (caller_actor c who s))" by (simp add: caller_actor_def fewer_links_def split: option.split)
  show "fewer_links s (demand env t b rids s)" by (simp add: demand_def Let_def fewer_links_def coreD [OF core_tell])
  show "fewer_links s (dial p kid s)" by (simp add: dial_def fewer_links_def)
  show "fewer_links s (dial_opened env v kid c s)" by (simp add: dial_opened_def Let_def fewer_links_def split: option.split)
  show "fewer_links s (dial_failed env kid s)" by (simp add: dial_failed_def split: option.split) (simp add: fewer_links_def)
  show "fewer_links s (mesh_answer c ms out s)" by (simp add: mesh_answer_def Let_def split: sum.split dispatch_result.split)
qed


lemma made_fields [simp]:
  "ms_made (greeting_over g s) = ms_made s" "ms_links (greeting_over g s) = ms_links s" "ms_link (greeting_over g s) = ms_link s"
  "ms_made (bind_peer p i s) = ms_made s" "ms_links (bind_peer p i s) = ms_links s" "ms_link (bind_peer p i s) = ms_link s"
  by (simp_all add: greeting_over_def bind_peer_def Let_def split: option.split)

lemma small_links: "mesh_ok env s \<Longrightarrow> (p, k) \<in> set (ms_links s) \<Longrightarrow> k < ms_made s"
  by (auto simp: mesh_ok_def links_ok_def)

lemma greet_on_links:
  assumes s: "mesh_ok env s" and new: "(p, k) \<in> set (ms_links (greet_on env g now rids s))"
  shows "old_link s (greet_on env g now rids s) p k \<or> vouches env s (Greet_goes_on g now rids) p (lk_conn (ms_link (greet_on env g now rids s) k))"
proof (cases "map_of (ms_greetings s) g")
  case None
  then show ?thesis using new by (simp add: greet_on_def old_link_def)
next
  case (Some gr)
  show ?thesis
  proof (cases "\<exists>jwk jws. gr_key gr = Some jwk \<and> gr_proof gr = Proof_is jws \<and> verify_proof env now jws (gr_claim gr) (gr_challenge gr) jwk
      \<and> mc_iss (gr_claim gr) \<notin> set (ms_forgotten s) \<and> \<not> binding_refused (mc_iss (gr_claim gr)) (mc_id (gr_claim gr)) (greeting_over g s)")
    case False
    then have "fewer_links s (greet_on env g now rids s)" using Some fewer_small(2)
      by (auto simp: greet_on_def Let_def split: option.split proof_promise.split)
    then show ?thesis using new fewer_old by blast
  next
    case True
    then obtain jwk jws where c: "gr_key gr = Some jwk" "gr_proof gr = Proof_is jws" "verify_proof env now jws (gr_claim gr) (gr_challenge gr) jwk"
        "mc_iss (gr_claim gr) \<notin> set (ms_forgotten s)" "\<not> binding_refused (mc_iss (gr_claim gr)) (mc_id (gr_claim gr)) (greeting_over g s)" by blast
    let ?b = "bind_peer (mc_iss (gr_claim gr)) (mc_id (gr_claim gr)) (greeting_over g s)"
    have run: "greet_on env g now rids s = effect (Outcome g Greeted) (hold_link env (mc_iss (gr_claim gr)) (gr_conn gr) False now rids ?b)"
      using Some c by (simp add: greet_on_def Let_def)
    have "old_link s (greet_on env g now rids s) p k \<or> p = mc_iss (gr_claim gr) \<and> lk_conn (ms_link (greet_on env g now rids s) k) = gr_conn gr"
      using hold_links [of p k env "mc_iss (gr_claim gr)" "gr_conn gr" False now rids ?b] new small_links [OF s] by (auto simp: run old_link_def)
    then show ?thesis using c Some known_greeting [OF ok_knownD [OF s] Some] by (auto simp: vouches_def greeting_ok_def)
  qed
qed

lemma dialled_frame_links:
  assumes s: "mesh_ok env s" and new: "(p, k) \<in> set (ms_links (dialled_frame env now rids c f s))"
  shows "old_link s (dialled_frame env now rids c f s) p k \<or> vouches env s (Dialled_frame now rids c f) p (lk_conn (ms_link (dialled_frame env now rids c f s) k))"
proof (cases "map_of (ms_dialled s) c")
  case None
  then show ?thesis using new by (simp add: dialled_frame_def old_link_def)
next
  case (Some pk)
  obtain q kid where pk: "pk = (q, kid)" by (cases pk)
  obtain b s1 where t: "mesh_takes env now c f s = (b, s1)" by (cases "mesh_takes env now c f s")
  have s1: "fewer_links s s1" "mesh_ok env s1" using fewer_small(5) [of s env now c f] ok_takes [OF s, of now c f] by (simp_all add: t)
  let ?s2 = "s1\<lparr>ms_minted := map_del kid (ms_minted s1)\<rparr>"
  have s2: "fewer_links s ?s2" using s1(1) by (simp add: fewer_links_def)
  show ?thesis
  proof (cases "\<not> b \<and> jfield f ''request_id'' = Some (JStr (''mesh-hello-'' @ kid)) \<and> q \<notin> set (ms_forgotten ?s2) \<and> jfield f ''ok'' = Some (JBool True)
      \<and> (\<exists>i. as_string (jfield f ''instance'') = Some i \<and> \<not> binding_refused q i ?s2)")
    case False
    then have "fewer_links s (dialled_frame env now rids c f s)" using s1(1) s2
      by (auto simp: dialled_frame_def Some pk t Let_def split: option.split bool.split)
    then show ?thesis using new fewer_old by blast
  next
    case True
    then obtain i where i: "as_string (jfield f ''instance'') = Some i" "\<not> binding_refused q i ?s2" by blast
    have run: "dialled_frame env now rids c f s = hold_link env q c True now rids (bind_peer q i ?s2)"
      using True i by (simp add: dialled_frame_def Some pk t Let_def)
    have "old_link s (dialled_frame env now rids c f s) p k \<or> p = q \<and> lk_conn (ms_link (dialled_frame env now rids c f s) k) = c"
      using hold_links [of p k env q c True now rids "bind_peer q i ?s2"] new small_links [OF s1(2)] s1(1)
      by (auto simp: run old_link_def fewer_links_def)
    then show ?thesis using True Some by (auto simp: vouches_def pk)
  qed
qed

lemma fewer_fold: "(\<And>x t. x \<in> set xs \<Longrightarrow> fewer_links t (h x t)) \<Longrightarrow> fewer_links s (fold h xs s)"
proof (induction xs arbitrary: s)
  case (Cons x xs)
  have "fewer_links s (h x s)" "fewer_links (h x s) (fold h xs (h x s))" using Cons by auto
  then show ?case using fewer_trans by (simp add: comp_def)
qed simp

lemma fewer_ends: "fewer_links s (conn_ends env c code s)"
proof (cases "c \<in> set (ms_gone s)")
  case False
  let ?s1 = "s\<lparr>ms_gone := c # ms_gone s, ms_listeners := (ms_listeners s)(c := [])\<rparr>"
  let ?s2 = "fold (run_listener env c) (ms_listeners s c) ?s1"
  have "fewer_links ?s1 ?s2" by (rule fewer_fold) (simp add: run_listener_def fewer_drop split: close_listener.split)
  then have s2: "fewer_links s (?s2\<lparr>ms_minted := m\<rparr>)" for m by (simp add: fewer_links_def)
  have "fewer_links s (drop_link env p c (?s2\<lparr>ms_minted := m\<rparr>))" for p m by (rule fewer_trans [OF s2 fewer_drop])
  moreover have "fewer_links s ?s2" using s2 by (simp add: fewer_links_def)
  ultimately show ?thesis using False by (simp add: conn_ends_def Let_def split: option.split)
qed (simp add: conn_ends_def)

lemma fewer_forget: "fewer_links s (snd (forget_peer env p s))"
proof -
  let ?s1 = "s\<lparr>ms_forgotten := set_add p (ms_forgotten s), ms_retries := set_del p (ms_retries s)\<rparr>"
  have s1: "fewer_links s ?s1" "fewer_links s (closes c None ?s1)" for c by (simp_all add: fewer_links_def closes_def)
  have "fewer_links s (drop_link env p c (closes c None ?s1))" for c by (rule fewer_trans [OF s1(2) fewer_drop])
  then show ?thesis using s1 by (simp add: forget_peer_def Let_def split: option.split)
qed

lemma fewer_beat: "fewer_links s (beat env now p s)"
proof -
  have "fewer_links s (drop_link env p c (closes c None s))" for c by (rule fewer_trans [OF _ fewer_drop]) simp
  then show ?thesis by (simp add: beat_def Let_def split: option.split)
qed

lemma fewer_retry_fires: "fewer_links s (retry_fires p kid s)"
proof -
  have "fewer_links s (s\<lparr>ms_retries := r\<rparr>)" for r by simp
  then have "fewer_links s (dial p kid (s\<lparr>ms_retries := r\<rparr>))" for r by (rule fewer_trans) (rule fewer_small)
  then show ?thesis by (simp add: retry_fires_def)
qed

lemma fewer_connect: "fewer_links s (connect_all env kids s)"
  unfolding connect_all_def by (rule fewer_fold) (simp add: fewer_small split: prod.split)

lemma stop_links: "ms_links (mesh_stop s) = []"
proof -
  have "ms_links (fold (\<lambda>(c, g). reject_proof g) xs t) = ms_links t" for xs :: "(conn_no \<times> nat) list" and t
  proof (induction xs arbitrary: t)
    case (Cons x xs)
    show ?case using Cons [of "reject_proof (snd x) t"] by (cases x) (simp add: reject_proof_def split: option.split)
  qed simp
  then show ?thesis by (simp add: mesh_stop_def Let_def)
qed

lemma step_links:
  assumes s: "mesh_ok env s" and new: "(p, k) \<in> set (ms_links (mesh_step env s e))"
  shows "old_link s (mesh_step env s e) p k \<or> vouches env s e p (lk_conn (ms_link (mesh_step env s e) k))"
proof (cases "(\<exists>g now rids. e = Greet_goes_on g now rids) \<or> (\<exists>now rids c f. e = Dialled_frame now rids c f) \<or> e = Stops")
  case True
  then consider g now rids where "e = Greet_goes_on g now rids" | now rids c f where "e = Dialled_frame now rids c f" | "e = Stops" by blast
  then show ?thesis
  proof cases
    case 1
    then show ?thesis using greet_on_links [OF s] new by simp
  next
    case 2
    then show ?thesis using dialled_frame_links [OF s] new by simp
  next
    case 3
    then show ?thesis using new stop_links by simp
  qed
next
  case False
  then have "fewer_links s (mesh_step env s e)"
    by (cases e) (simp_all add: fewer_small fewer_ends fewer_forget fewer_beat fewer_retry_fires fewer_connect,
        simp_all add: mesh_accept_def fewer_links_def)
  then show ?thesis using new fewer_old by blast
qed

lemma mesh_run_snoc: "mesh_run env (evs @ [e]) = mesh_step env (mesh_run env evs) e"
  by (simp add: mesh_run_def)

text \<open>
  C20: In any run of the mesh, whatever the order of handshakes, dials, frames, timers and endings, the
  connection held as the link of a peer is vouched for: the peer is in the list of peers and was not
  forgotten, and at some step of the run either a greeting on that very connection ended with a proof
  that verifies, of this instance's own challenge, against the key fetched under the id the claim
  names, or the peer accepted the greeting this instance sent on a connection it had dialled to it.
\<close>

theorem links_are_proven:
  assumes "map_of (ms_links (mesh_run env evs)) peer = Some k"
  shows "peer \<in> set (me_peers env) \<and> peer \<notin> set (ms_forgotten (mesh_run env evs))
    \<and> (\<exists>pre e post. evs = pre @ e # post \<and> vouches env (mesh_run env pre) e peer (lk_conn (ms_link (mesh_run env evs) k)))"
proof -
  have "(peer, k) \<in> set (ms_links (mesh_run env evs)) \<Longrightarrow>
      \<exists>pre e post. evs = pre @ e # post \<and> vouches env (mesh_run env pre) e peer (lk_conn (ms_link (mesh_run env evs) k))"
  proof (induction evs rule: rev_induct)
    case Nil
    then show ?case by (simp add: mesh_run_def Mesh_def)
  next
    case (snoc e evs)
    from step_links [OF ok_run snoc.prems [unfolded mesh_run_snoc]] show ?case
    proof
      assume "old_link (mesh_run env evs) (mesh_step env (mesh_run env evs) e) peer k"
      then have old: "(peer, k) \<in> set (ms_links (mesh_run env evs))"
          "lk_conn (ms_link (mesh_run env (evs @ [e])) k) = lk_conn (ms_link (mesh_run env evs) k)" by (simp_all add: old_link_def mesh_run_snoc)
      from snoc.IH [OF old(1)] obtain pre e' post where i: "evs = pre @ e' # post" "vouches env (mesh_run env pre) e' peer (lk_conn (ms_link (mesh_run env evs) k))" by blast
      have "evs @ [e] = pre @ e' # (post @ [e])" using i(1) by simp
      then show ?thesis using i(2) unfolding old(2) by blast
    next
      assume "vouches env (mesh_run env evs) e peer (lk_conn (ms_link (mesh_step env (mesh_run env evs) e) k))"
      then show ?thesis unfolding mesh_run_snoc [symmetric] by blast
    qed
  qed
  moreover have l: "(peer, k) \<in> set (ms_links (mesh_run env evs))" using assms by (rule map_of_SomeD)
  ultimately show ?thesis using ok_run [of env evs] by (auto simp: mesh_ok_def links_ok_def)
qed


text \<open>An instance \<open>A\<close> at \<open>a\<close> that knows \<open>b\<close>; headers, claims and signatures are read off a table.\<close>

definition proof_claim :: mesh_claim where
  "proof_claim = \<lparr>mc_ver = 1, mc_iss = ''b'', mc_aud = ''a'', mc_id = ''B'', mc_kid = ''k''\<rparr>"

definition table_json :: "string \<Rightarrow> json option" where
  "table_json part =
     (if part = ''h'' then Some (JObj [(''alg'', JStr ''EdDSA''), (''kid'', JStr ''k'')])
      else if part = ''p'' then Some (JObj [(''ver'', JNum 1), (''iss'', JStr ''b''), (''aud'', JStr ''a''), (''challenge'', JStr ''c''), (''exp'', JNum 10)])
      else None)"

definition end_of :: "instance_id \<Rightarrow> endpoint \<Rightarrow> endpoint \<Rightarrow> mesh_env" where
  "end_of i self other =
     \<lparr>me_id = i, me_peers = [other], me_self = self, me_whole_topics = [], me_heartbeatTimeoutMs = 30000, me_reconnectMinMs = 1000,
      me_json_of = table_json, me_signed = (\<lambda>input sig jwk. input = ''h.p'' \<and> sig = jk_key jwk), me_proof = (\<lambda>kid claim. ''h.p.s''),
      me_hostname = [], me_hostOf = (\<lambda>e. e)\<rparr>"

definition proven_run :: "mesh_event list" where
  "proven_run =
     [Accepts 7 True, Greets 0 7 proof_claim ''c'', Key_fetched 0 (Some \<lparr>jk_kid = ''k'', jk_key = ''s''\<rparr>),
      Frame_in 1 7 (JObj [(''mesh'', JStr ''proof''), (''jws'', JStr ''h.p.s'')]), Greet_goes_on 0 2 (\<lambda>_. [])]"

lemma links_are_proven_witness:
  "map_of (ms_links (mesh_run (end_of ''A'' ''a'' ''b'') proven_run)) ''b'' = Some 0
   \<and> (\<exists>pre e post. proven_run = pre @ e # post
        \<and> vouches (end_of ''A'' ''a'' ''b'') (mesh_run (end_of ''A'' ''a'' ''b'') pre) e ''b''
            (lk_conn (ms_link (mesh_run (end_of ''A'' ''a'' ''b'') proven_run) 0)))"
proof -
  have held: "map_of (ms_links (mesh_run (end_of ''A'' ''a'' ''b'') proven_run)) ''b'' = Some 0" by code_simp
  show ?thesis using held links_are_proven [OF held] by blast
qed

text \<open>
  The two maps of bindings are each other's inverse after any run: an instance id stands for one
  endpoint and an endpoint for one instance id, whichever greetings, dials and rebindings went before.
\<close>

theorem ids_and_endpoints:
  "map_of (ms_endpointOf (mesh_run env evs)) i = Some e \<longleftrightarrow> map_of (ms_idOf (mesh_run env evs)) e = Some i"
  using ok_run [of env evs] unfolding mesh_ok_def bound_ok_def by blast


section \<open>Forwarded requests are answered\<close>

text \<open>What a call was answered, what it still waits for, and what was asked.\<close>

definition settled :: "nat \<Rightarrow> mesh \<Rightarrow> nat" where
  "settled n s = length (filter (\<lambda>e. case e of Settles m r \<Rightarrow> m = n | _ \<Rightarrow> False) (ms_done s))"

definition waiting :: "nat \<Rightarrow> mesh \<Rightarrow> nat" where
  "waiting n s = length (filter (\<lambda>(k, w). fd_call w = n) (ms_forwarded s))"

definition asked :: "nat \<Rightarrow> mesh_event list \<Rightarrow> nat" where
  "asked n evs = length (filter (\<lambda>e. case e of Forwards m dest ms who rid \<Rightarrow> m = n | _ \<Rightarrow> False) evs)"

fun carried_by :: "mesh_event \<Rightarrow> string list" where
  "carried_by (Forwards n dest ms who rid) = [''mesh-fwd-'' @ rid]"
| "carried_by _ = []"

text \<open>A step that answers what it takes off the map, no more and no less.\<close>

definition balances :: "mesh \<Rightarrow> mesh \<Rightarrow> bool" where
  "balances s s' \<longleftrightarrow>
     (map_wf (ms_forwarded s) \<longrightarrow>
        map_wf (ms_forwarded s') \<and> set (map_keys (ms_forwarded s')) \<subseteq> set (map_keys (ms_forwarded s))
        \<and> (\<forall>n. settled n s' + waiting n s' = settled n s + waiting n s))"

lemma balances_refl [simp]: "balances s s" by (simp add: balances_def)

lemma balancesD:
  assumes "balances s s'" "map_wf (ms_forwarded s)"
  shows "map_wf (ms_forwarded s')" "set (map_keys (ms_forwarded s')) \<subseteq> set (map_keys (ms_forwarded s))"
    "settled n s' + waiting n s' = settled n s + waiting n s"
  using assms unfolding balances_def by blast+

lemma balances_trans:
  assumes a: "balances s s'" and b: "balances s' s''"
  shows "balances s s''"
  unfolding balances_def
proof (intro impI conjI allI)
  assume w: "map_wf (ms_forwarded s)"
  note a = balancesD [OF a w]
  note b = balancesD [OF b a(1)]
  show "map_wf (ms_forwarded s'')" by (rule b(1))
  show "set (map_keys (ms_forwarded s'')) \<subseteq> set (map_keys (ms_forwarded s))" using b(2) a(2) by (rule subset_trans)
  show "settled n s'' + waiting n s'' = settled n s + waiting n s" for n using a(3) b(3) by simp
qed

lemma balances_same: "ms_forwarded s' = ms_forwarded s \<Longrightarrow> ms_done s' = ms_done s \<Longrightarrow> balances s s'"
  by (simp add: balances_def settled_def waiting_def)

lemma settled_effect: "settled n (effect e s) = settled n s + (case e of Settles m r \<Rightarrow> if m = n then 1 else 0 | _ \<Rightarrow> 0)"
  by (simp add: settled_def split: mesh_effect.split)

lemma balances_effect:
  assumes "\<And>n r. e \<noteq> Settles n r"
  shows "balances s (effect e s') = balances s s'"
proof -
  have "settled n (effect e s') = settled n s'" for n using assms by (cases e) (auto simp: settled_effect)
  then show ?thesis by (simp add: balances_def waiting_def)
qed

lemma balances_effects [simp]:
  "balances s (effect (Sends c f) s') = balances s s'" "balances s (effect (Defers c f) s') = balances s s'" "balances s (effect (Closes c x) s') = balances s s'"
  "balances s (effect (Relay_accepts i t d b) s') = balances s s'" "balances s (effect (Relay_lost i) s') = balances s s'"
  "balances s (effect (Relay_restored i) s') = balances s s'" "balances s (effect (Element t i d) s') = balances s s'"
  "balances s (effect Changed s') = balances s s'" "balances s (effect (Handles c ms) s') = balances s s'"
  "balances s (effect (Outcome g out) s') = balances s s'" "balances s (effect (Arms p ms') s') = balances s s'"
  by (rule balances_effect; simp)+

lemma balances_fields [simp]:
  "balances s (s'\<lparr>ms_links := m1\<rparr>) = balances s s'" "balances s (s'\<lparr>ms_link := m2\<rparr>) = balances s s'" "balances s (s'\<lparr>ms_made := m3\<rparr>) = balances s s'"
  "balances s (s'\<lparr>ms_linkOf := m4\<rparr>) = balances s s'" "balances s (s'\<lparr>ms_pending := m5\<rparr>) = balances s s'" "balances s (s'\<lparr>ms_greetings := m6\<rparr>) = balances s s'"
  "balances s (s'\<lparr>ms_minted := m7\<rparr>) = balances s s'" "balances s (s'\<lparr>ms_retries := m8\<rparr>) = balances s s'" "balances s (s'\<lparr>ms_backoff := m9\<rparr>) = balances s s'"
  "balances s (s'\<lparr>ms_idOf := m10\<rparr>) = balances s s'" "balances s (s'\<lparr>ms_endpointOf := m11\<rparr>) = balances s s'" "balances s (s'\<lparr>ms_jwkWindow := m12\<rparr>) = balances s s'"
  "balances s (s'\<lparr>ms_jwkServed := m13\<rparr>) = balances s s'" "balances s (s'\<lparr>ms_stopping := m14\<rparr>) = balances s s'" "balances s (s'\<lparr>ms_marked := m15\<rparr>) = balances s s'"
  "balances s (s'\<lparr>ms_demanded := m16\<rparr>) = balances s s'" "balances s (s'\<lparr>ms_forgotten := m17\<rparr>) = balances s s'" "balances s (s'\<lparr>ms_dials := m18\<rparr>) = balances s s'"
  "balances s (s'\<lparr>ms_dialled := m19\<rparr>) = balances s s'" "balances s (s'\<lparr>ms_gone := m20\<rparr>) = balances s s'" "balances s (s'\<lparr>ms_listeners := m21\<rparr>) = balances s s'"
  by (simp_all add: balances_def settled_def waiting_def)

lemma balances_sends [simp]:
  "balances s (conn_sends c f s') = balances s s'" "balances s (closes c x s') = balances s s'" "balances s (ask_peer c t b a r s') = balances s s'"
  by (simp_all add: conn_sends_def closes_def ask_peer_def)

lemma balances_fold: "(\<And>x t. x \<in> set xs \<Longrightarrow> balances t (h x t)) \<Longrightarrow> balances s (fold h xs s)"
proof (induction xs arbitrary: s)
  case (Cons x xs)
  have "balances s (h x s)" "balances (h x s) (fold h xs (h x s))" using Cons by auto
  then show ?case using balances_trans by (simp add: comp_def)
qed simp

lemma balances_foldI: "balances s s' \<Longrightarrow> (\<And>x t. x \<in> set xs \<Longrightarrow> balances t (h x t)) \<Longrightarrow> balances s (fold h xs s')"
  using balances_trans balances_fold by blast

lemma balances_abandon [simp]: "balances s (abandon p s)"
proof -
  have "settled n (abandon p s) = settled n s + length (filter (\<lambda>(k, w). fd_peer w = p \<and> fd_call w = n) (ms_forwarded s))" for n
    by (simp add: settled_def abandon_def filter_map comp_def case_prod_beta')
  moreover have "length (filter (\<lambda>(k, w). fd_peer w = p \<and> fd_call w = n) xs) + length (filter (\<lambda>(k, w). fd_call w = n) (filter (\<lambda>(k, w). fd_peer w \<noteq> p) xs))
      = length (filter (\<lambda>(k, w). fd_call w = n) xs)" for n and xs :: "(string \<times> forwarded) list"
    by (induction xs) auto
  ultimately show ?thesis by (auto simp: balances_def waiting_def)
qed

lemma balances_settles:
  assumes "map_of (ms_forwarded s) k = Some w"
  shows "balances s (effect (Settles (fd_call w) r) (s\<lparr>ms_forwarded := map_del k (ms_forwarded s)\<rparr>))"
proof -
  have "map_wf m \<Longrightarrow> map_of m k = Some w \<Longrightarrow>
      length (filter (\<lambda>(k, w). fd_call w = n) m) = length (filter (\<lambda>(k, w). fd_call w = n) (map_del k m)) + (if fd_call w = n then 1 else 0)"
    for n and m :: "(string \<times> forwarded) list"
  proof (induction m)
    case (Cons x m)
    show ?case
    proof (cases "fst x = k")
      case True
      then have "map_del k m = m" using Cons.prems(1) by (auto simp: AList.delete_eq filter_id_conv) (metis fst_conv image_eqI)
      then show ?thesis using True Cons.prems(2) by (cases x) simp
    next
      case False
      then show ?thesis using Cons by (cases x) simp
    qed
  qed simp
  then have "map_wf (ms_forwarded s) \<Longrightarrow> waiting n s = waiting n (s\<lparr>ms_forwarded := map_del k (ms_forwarded s)\<rparr>) + (if fd_call w = n then 1 else 0)" for n
    using assms by (simp add: waiting_def del: map_of_eq_Some_iff)
  moreover have "set (map_keys (map_del k (ms_forwarded s))) \<subseteq> set (map_keys (ms_forwarded s))" by (simp only: set_map_del_keys) blast
  moreover have "settled n (s\<lparr>ms_forwarded := m\<rparr>) = settled n s" "waiting n (effect e t) = waiting n t" for n m e t by (simp_all add: settled_def waiting_def)
  ultimately show ?thesis by (simp add: balances_def settled_effect)
qed

lemma balances_retry [simp]: "balances s (retry env p s') = balances s s'"
  by (simp add: retry_def Let_def)

lemma balances_drop: "balances s (drop_link env p c s)"
proof -
  have "balances s (abandon p t)" if "balances s t" for t using that balances_trans balances_abandon by blast
  then show ?thesis unfolding drop_link_def Let_def by (simp split: option.split)
qed

lemma balances_dropI: "balances s s' \<Longrightarrow> balances s (drop_link env p c s')"
  using balances_trans balances_drop by blast

lemma balances_hold: "balances s (hold_link env p c b now rids s)"
proof -
  have "balances s (linking env p c b now rids t)" if "balances s t" for t
  proof -
    have l: "balances s (linked p c b now t)" using that by (simp add: linked_def)
    have "balances s (fold (\<lambda>(n, topic). ask_peer c topic True (\<not> b) (rids n)) xs u)" if "balances s u" for xs u
      using that by (rule balances_foldI) (simp split: prod.split)
    then show ?thesis unfolding linking_def Let_def using l balances_dropI by (auto split: option.split)
  qed
  then show ?thesis by (simp add: hold_cases glare_cleared_def split: option.split)
qed

lemma balances_small [simp]:
  "balances s (bind_peer p i s') = balances s s'" "balances s (greeting_over g s') = balances s s'" "balances s (reject_proof g s') = balances s s'"
  "balances s (greeting_failed g s') = balances s s'" "balances s (heard c now s') = balances s s'" "balances s (dial p kid s') = balances s s'"
  by (simp_all add: bind_peer_def greeting_over_def reject_proof_def greeting_failed_def heard_def dial_def Let_def split: option.split)

lemma balances_peer_frame: "balances s (snd (peer_frame env c f s))"
proof (cases "peer_reply f s")
  case None
  then show ?thesis by (simp add: peer_frame_def peer_topic_def split: option.split)
next
  case (Some s')
  from Some have "balances s s'" by (cases rule: reply_cases) (auto intro: balances_settles)
  then show ?thesis using Some by (simp add: peer_frame_def)
qed

lemma balances_takes: "balances s (snd (mesh_takes env now c f s))"
  by (simp add: mesh_takes_def balances_peer_frame split: option.split mesh_frame.split)


lemma balances_greet_on: "balances s (greet_on env g now rids s)"
proof -
  have "balances s (hold_link env p c b now rids (bind_peer q i (greeting_over g s)))" for p c b q i
    by (rule balances_trans [OF _ balances_hold]) simp
  then show ?thesis by (simp add: greet_on_def Let_def split: option.split proof_promise.split)
qed

lemma balances_dialled_frame: "balances s (dialled_frame env now rids c f s)"
proof (cases "map_of (ms_dialled s) c")
  case (Some pk)
  obtain q kid where pk: "pk = (q, kid)" by (cases pk)
  obtain b s1 where t: "mesh_takes env now c f s = (b, s1)" by (cases "mesh_takes env now c f s")
  have s1: "balances s s1" using balances_takes [of s env now c f] by (simp add: t)
  have "balances s (hold_link env q c True now rids (bind_peer q i (s1\<lparr>ms_minted := m\<rparr>)))" for i m
    by (rule balances_trans [OF _ balances_hold]) (simp add: s1)
  then show ?thesis using s1 by (simp add: dialled_frame_def Some pk t Let_def split: option.split bool.split)
qed (simp add: dialled_frame_def)

lemma balances_ends: "balances s (conn_ends env c code s)"
proof (cases "c \<in> set (ms_gone s)")
  case False
  let ?s1 = "s\<lparr>ms_gone := c # ms_gone s, ms_listeners := (ms_listeners s)(c := [])\<rparr>"
  let ?s2 = "fold (run_listener env c) (ms_listeners s c) ?s1"
  have s2: "balances s ?s2" by (rule balances_foldI) (simp_all add: run_listener_def balances_drop split: close_listener.split)
  then have "balances s (drop_link env p c (?s2\<lparr>ms_minted := m\<rparr>))" for p m by (intro balances_dropI) simp
  then show ?thesis using False s2 by (simp add: conn_ends_def Let_def split: option.split)
qed (simp add: conn_ends_def)

lemma balances_stop: "balances s (mesh_stop s)"
proof -
  define s1 where "s1 = s\<lparr>ms_stopping := True, ms_retries := []\<rparr>"
  define s2 where "s2 = fold (\<lambda>(p, k). closes (lk_conn (ms_link s1 k)) None) (ms_links s1) s1"
  define s3 where "s3 = fold (\<lambda>(p, k). abandon p) (ms_links s2) s2"
  have "balances s s2" unfolding s2_def by (rule balances_foldI) (simp_all add: s1_def split: prod.split)
  then have "balances s s3" unfolding s3_def by (rule balances_foldI) (simp split: prod.split)
  then have "balances s (fold (\<lambda>(c, g). reject_proof g) xs (s3\<lparr>ms_links := [], ms_linkOf := [], ms_minted := []\<rparr>))" for xs :: "(conn_no \<times> nat) list"
    by (intro balances_foldI) (simp_all split: prod.split)
  then show ?thesis unfolding mesh_stop_def Let_def s1_def [symmetric] s2_def [symmetric] s3_def [symmetric] by simp
qed

lemma balances_step:
  assumes "carried_by e = []"
  shows "balances s (mesh_step env s e)"
proof (cases e)
  case (Forward_late carried)
  then show ?thesis using balances_settles by (simp add: forward_late_def split: option.split)
next
  case (Demands t b rids)
  have "balances s (fold (\<lambda>(n, peer, k). ask_peer (h k) t v False (rids n)) xs (s\<lparr>ms_demanded := d\<rparr>))" for xs :: "(nat \<times> endpoint \<times> nat) list" and h d t v
    by (rule balances_foldI) (simp_all split: prod.split)
  from this [of "\<lambda>k. lk_conn (ms_link s k)"] show ?thesis using Demands by (simp add: demand_def Let_def)
next
  case (Connects kids)
  have "balances s (connect_all env kids s)" unfolding connect_all_def by (rule balances_fold) (simp split: prod.split)
  then show ?thesis using Connects by simp
next
  case (Key_request now kid body)
  then show ?thesis by (simp add: serveKey_def allowKeyRequest_def Let_def split: option.split bool.split)
next
  case (Answers c ms out)
  then show ?thesis by (simp add: mesh_answer_def Let_def split: sum.split dispatch_result.split)
next
  case (Forgets peer)
  then show ?thesis by (simp add: forget_peer_def Let_def balances_dropI split: option.split)
next
  case (Beats now peer)
  then show ?thesis by (simp add: beat_def Let_def balances_dropI split: option.split)
qed (use assms in \<open>simp_all add: balances_greet_on balances_dialled_frame balances_ends balances_stop balances_takes\<close>,
     simp_all add: mesh_accept_def greet_def key_fetched_def proof_late_def caller_actor_def dial_opened_def dial_failed_def retry_fires_def Let_def split: option.split)

text \<open>A request that is forwarded is answered at once, or waits under an id that is new.\<close>

lemma forward_adds:
  assumes "map_wf (ms_forwarded s)" "''mesh-fwd-'' @ rid \<notin> set (map_keys (ms_forwarded s))"
  shows "map_wf (ms_forwarded (forward env n dest ms who rid s))
    \<and> set (map_keys (ms_forwarded (forward env n dest ms who rid s))) \<subseteq> insert (''mesh-fwd-'' @ rid) (set (map_keys (ms_forwarded s)))
    \<and> settled m (forward env n dest ms who rid s) + waiting m (forward env n dest ms who rid s) = settled m s + waiting m s + (if n = m then 1 else 0)"
proof (cases "Option.bind (map_of (ms_endpointOf s) dest) (\<lambda>e. map_option (Pair e) (map_of (ms_links s) e))")
  case None
  then have "forward env n dest ms who rid s = effect (Settles n (unreachable_answer (as_string (map_of ms ''request_id'')) dest)) s"
    by (simp add: forward_def Let_def)
  then show ?thesis using assms by (auto simp: settled_effect waiting_def)
next
  case (Some pk)
  obtain p k where pk: "pk = (p, k)" by (cases pk)
  obtain w f where f: "forward env n dest ms who rid s
      = conn_sends (lk_conn (ms_link s k)) f (s\<lparr>ms_forwarded := map_set (''mesh-fwd-'' @ rid) w (ms_forwarded s)\<rparr>)" "fd_call w = n"
    using Some by (simp add: forward_def Let_def pk)
  have new: "x \<notin> set (map_keys l) \<Longrightarrow> map_set x w l = l @ [(x, w)]" for x and l :: "(string \<times> forwarded) list" by (induction l) auto
  have "settled m (conn_sends c g t) = settled m t" for c g t by (simp add: conn_sends_def settled_effect)
  then have "settled m (forward env n dest ms who rid s) = settled m s" by (simp add: f(1)) (simp add: settled_def)
  then show ?thesis using assms f(2) new [OF assms(2)] by (auto simp: f(1) waiting_def)
qed


lemma run_balance:
  assumes "distinct (concat (map carried_by evs))"
  shows "map_wf (ms_forwarded (mesh_run env evs)) \<and> set (map_keys (ms_forwarded (mesh_run env evs))) \<subseteq> set (concat (map carried_by evs))
    \<and> settled n (mesh_run env evs) + waiting n (mesh_run env evs) = asked n evs"
  using assms
proof (induction evs rule: rev_induct)
  case Nil
  then show ?case by (simp add: mesh_run_def Mesh_def bind_peer_def settled_def waiting_def asked_def)
next
  case (snoc e evs)
  let ?s = "mesh_run env evs"
  have ih: "map_wf (ms_forwarded ?s)" "set (map_keys (ms_forwarded ?s)) \<subseteq> set (concat (map carried_by evs))"
      "settled n ?s + waiting n ?s = asked n evs" using snoc by auto
  show ?case
  proof (cases "carried_by e = []")
    case True
    then have "balances ?s (mesh_step env ?s e)" by (rule balances_step)
    note b = balancesD [OF this ih(1)]
    have "asked n (evs @ [e]) = asked n evs" using True by (cases e) (simp_all add: asked_def)
    then show ?thesis using b ih True by (auto simp: mesh_run_snoc)
  next
    case False
    then obtain m dest ms who rid where e: "e = Forwards m dest ms who rid" by (cases e) auto
    then have new: "''mesh-fwd-'' @ rid \<notin> set (map_keys (ms_forwarded ?s))" using snoc.prems ih(2) by auto
    have "asked n (evs @ [e]) = asked n evs + (if m = n then 1 else 0)" by (simp add: asked_def e)
    moreover have "set (concat (map carried_by (evs @ [e]))) = insert (''mesh-fwd-'' @ rid) (set (concat (map carried_by evs)))" by (simp add: e)
    moreover note f = forward_adds [OF ih(1) new, of env m dest ms who n]
    moreover have "set (map_keys (ms_forwarded (forward env m dest ms who rid ?s))) \<subseteq> insert (''mesh-fwd-'' @ rid) (set (concat (map carried_by evs)))"
      using f ih(2) by (meson insert_mono subset_trans)
    ultimately show ?thesis using ih(3) unfolding mesh_run_snoc e mesh_step.simps by simp
  qed
qed

text \<open>
  C21: Every request that is forwarded is answered exactly once. When the ids the requests travel under
  are distinct, as random ids are, then after any run the answers a call has had and the entries that
  still wait for it make up the requests it forwarded: no answer is given twice, and none is lost to a
  dropped link, a glare, a deadline, a forgotten peer or the end of the mesh. What still waits, waits
  on a peer that is reached.
\<close>

theorem forwards_are_answered_once:
  assumes "distinct (concat (map carried_by evs))"
  shows "settled n (mesh_run env evs) + waiting n (mesh_run env evs) = asked n evs
    \<and> (\<forall>k w. map_of (ms_forwarded (mesh_run env evs)) k = Some w \<longrightarrow> peer_reachable (fd_peer w) (mesh_run env evs))"
proof -
  have "peer_reachable (fd_peer w) (mesh_run env evs)" if "map_of (ms_forwarded (mesh_run env evs)) k = Some w" for k w
  proof -
    have "waits_ok (mesh_run env evs)" using ok_run by (simp add: mesh_ok_def)
    then have "fd_peer w \<in> fst ` set (ms_links (mesh_run env evs))" using map_of_SomeD [OF that] unfolding waits_ok_def by blast
    then show ?thesis by (simp add: peer_reachable_def map_of_eq_None_iff)
  qed
  then show ?thesis using run_balance [OF assms, of env n] by blast
qed

text \<open>A peer is linked and asked, the link is lost before it answers, and a second request finds no link.\<close>

definition asking_run :: "mesh_event list" where
  "asking_run =
     proven_run @ [Forwards 5 ''B'' [(''op'', JStr ''session.list''), (''request_id'', JStr ''r'')] None ''1'',
                   Conn_ends 7 1006,
                   Forwards 5 ''B'' [(''op'', JStr ''session.list'')] None ''2'',
                   Forward_late ''mesh-fwd-1'']"

lemma forwards_are_answered_once_witness:
  "asked 5 asking_run = 2
   \<and> settled 5 (mesh_run (end_of ''A'' ''a'' ''b'') asking_run) + waiting 5 (mesh_run (end_of ''A'' ''a'' ''b'') asking_run) = 2
   \<and> settled 5 (mesh_run (end_of ''A'' ''a'' ''b'') asking_run) = 2"
proof -
  have fresh: "distinct (concat (map carried_by asking_run))" by code_simp
  have "asked 5 asking_run = 2" "settled 5 (mesh_run (end_of ''A'' ''a'' ''b'') asking_run) = 2" by code_simp+
  then show ?thesis using forwards_are_answered_once [OF fresh, of 5 "end_of ''A'' ''a'' ''b''"] by simp
qed

section \<open>Both ends of a glare\<close>

lemma js_less_Nil [simp]: "\<not> js_less xs []"
  by (cases xs) simp_all

lemma js_less_antisym: "a \<noteq> b \<Longrightarrow> js_less b a \<longleftrightarrow> \<not> js_less a b"
proof (induction a b rule: js_less.induct)
  case (3 x xs y ys)
  then show ?case by (auto simp: of_char_eq_iff)
qed auto

text \<open>One connection between a pair is held after another; what is left of them.\<close>

definition held_twice :: "mesh_env \<Rightarrow> endpoint \<Rightarrow> conn_no \<times> bool \<Rightarrow> conn_no \<times> bool \<Rightarrow> timestamp \<Rightarrow> timestamp \<Rightarrow> (nat \<Rightarrow> string) \<Rightarrow> mesh \<Rightarrow> mesh" where
  "held_twice env peer first second now1 now2 rids s =
     hold_link env peer (fst second) (snd second) now2 rids (hold_link env peer (fst first) (snd first) now1 rids s)"

definition left_with :: "endpoint \<Rightarrow> conn_no \<Rightarrow> conn_no \<Rightarrow> mesh \<Rightarrow> bool" where
  "left_with peer keep lose s \<longleftrightarrow>
     (\<exists>k. map_of (ms_links s) peer = Some k \<and> lk_conn (ms_link s k) = keep) \<and> Closes lose (Some GLARE_CLOSE) \<in> set (ms_done s)"

lemma linking_holds:
  assumes "c \<notin> set (ms_gone s)"
  shows "map_of (ms_links (linking env p c b now rids s)) p = Some (ms_made s)" "lk_conn (ms_link (linking env p c b now rids s) (ms_made s)) = c"
    "ms_gone (linking env p c b now rids s) = ms_gone s" "set (ms_done s) \<subseteq> set (ms_done (linking env p c b now rids s))"
proof -
  have core: "core (linking env p c b now rids s) = core (linked p c b now s)" using core_linking [of env p c b now rids s] assms by simp
  show "map_of (ms_links (linking env p c b now rids s)) p = Some (ms_made s)" "lk_conn (ms_link (linking env p c b now rids s) (ms_made s)) = c"
    by (simp_all add: coreD [OF core] linked_def)
  have g: "ms_gone (ask_peer c t b a r s) = ms_gone s \<and> set (ms_done s) \<subseteq> set (ms_done (ask_peer c t b a r s))" for c t b a r s
    by (auto simp: ask_peer_def conn_sends_def)
  have fold: "ms_gone (fold (\<lambda>(n, topic). ask_peer c topic True (\<not> b) (rids n)) xs s) = ms_gone s
      \<and> set (ms_done s) \<subseteq> set (ms_done (fold (\<lambda>(n, topic). ask_peer c topic True (\<not> b) (rids n)) xs s))" for xs s
  proof (induction xs arbitrary: s)
    case (Cons x xs)
    show ?case using Cons [of "ask_peer c (snd x) True (\<not> b) (rids (fst x)) s"] g [of c "snd x" True "\<not> b" "rids (fst x)" s]
      by (cases x) auto
  qed simp
  have l: "ms_gone (linked p c b now s) = ms_gone s" "ms_done (linked p c b now s) = ms_done s" by (simp_all add: linked_def)
  show "ms_gone (linking env p c b now rids s) = ms_gone s" "set (ms_done s) \<subseteq> set (ms_done (linking env p c b now rids s))"
    using assms l fold by (auto simp: linking_def Let_def subset_iff split: option.split)
qed

lemma held_twice_left:
  assumes "map_of (ms_links s) p = None" "c \<noteq> c'" "c \<notin> set (ms_gone s)" "c' \<notin> set (ms_gone s)"
  shows "left_with p (if glareKeepsNew (me_self env) p b' then c' else c) (if glareKeepsNew (me_self env) p b' then c else c')
    (held_twice env p (c, b) (c', b') now1 now2 rids s)"
proof -
  let ?s1 = "linking env p c b now1 rids s"
  have one: "hold_link env p c b now1 rids s = ?s1" using assms(1) by (simp add: hold_cases)
  note h = linking_holds [OF assms(3), of env p b now1 rids]
  let ?g = "glare_cleared p (ms_made s) ?s1"
  have g: "c' \<notin> set (ms_gone ?g)" "Closes c (Some GLARE_CLOSE) \<in> set (ms_done ?g)" using assms(4) h by (auto simp: glare_cleared_def closes_def)
  note h2 = linking_holds [OF g(1), of env p b' now2 rids]
  have two: "hold_link env p c' b' now2 rids ?s1 = (if \<not> glareKeepsNew (me_self env) p b' then closes c' (Some GLARE_CLOSE) ?s1 else linking env p c' b' now2 rids ?g)"
    using h(1,2) assms(2) by (simp add: hold_cases)
  show ?thesis unfolding held_twice_def left_with_def fst_conv snd_conv one two
    using h(1,2) h2 g(2) by (auto simp: closes_def)
qed

text \<open>
  C37: When two instances reach each other at once, one connection dialled by each, both ends keep the
  same connection and close the other as a glare, in whatever order each end comes to hold the two:
  the connection that was dialled by the instance whose endpoint is the smaller one.
\<close>

theorem glare_ends_agree:
  assumes "me_self ea \<noteq> me_self eb" "x \<noteq> y" "x \<notin> set (ms_gone s)" "y \<notin> set (ms_gone s)" "x \<notin> set (ms_gone t)" "y \<notin> set (ms_gone t)"
    and "map_of (ms_links s) (me_self eb) = None" "map_of (ms_links t) (me_self ea) = None"
    and "keep = (if js_less (me_self ea) (me_self eb) then x else y)" "lose = (if js_less (me_self ea) (me_self eb) then y else x)"
  shows "left_with (me_self eb) keep lose (held_twice ea (me_self eb) (x, True) (y, False) now1 now2 rids s)
    \<and> left_with (me_self eb) keep lose (held_twice ea (me_self eb) (y, False) (x, True) now1 now2 rids s)
    \<and> left_with (me_self ea) keep lose (held_twice eb (me_self ea) (x, False) (y, True) now1 now2 rids t)
    \<and> left_with (me_self ea) keep lose (held_twice eb (me_self ea) (y, True) (x, False) now1 now2 rids t)"
proof -
  note less = js_less_antisym [OF assms(1)]
  note a = held_twice_left [OF assms(7), of _ _ ea] and b = held_twice_left [OF assms(8), of _ _ eb]
  have "glareKeepsNew (me_self ea) (me_self eb) True = js_less (me_self ea) (me_self eb)"
    "glareKeepsNew (me_self ea) (me_self eb) False = (\<not> js_less (me_self ea) (me_self eb))"
    "glareKeepsNew (me_self eb) (me_self ea) True = (\<not> js_less (me_self ea) (me_self eb))"
    "glareKeepsNew (me_self eb) (me_self ea) False = js_less (me_self ea) (me_self eb)" by (simp_all add: glareKeepsNew_def less)
  note k = this
  show ?thesis
    using a [of x y True False] a [of y x False True] a [of x y False True] b [of x y True False] b [of y x True False] b [of y x False True] assms(2-6)
      a [of y x True False] b [of x y False True]
    unfolding k assms(9,10) by (auto split: if_splits)
qed

lemma glare_ends_agree_witness:
  "left_with ''b'' 1 2 (held_twice (end_of ''A'' ''a'' ''b'') ''b'' (1, True) (2, False) 0 0 (\<lambda>_. []) (Mesh (end_of ''A'' ''a'' ''b'')))
   \<and> left_with ''a'' 1 2 (held_twice (end_of ''B'' ''b'' ''a'') ''a'' (2, True) (1, False) 0 0 (\<lambda>_. []) (Mesh (end_of ''B'' ''b'' ''a'')))"
proof -
  have self: "me_self (end_of ''A'' ''a'' ''b'') = ''a''" "me_self (end_of ''B'' ''b'' ''a'') = ''b''" by (simp_all add: end_of_def)
  have less: "js_less ''a'' ''b''" by simp
  have clear: "ms_gone (Mesh (end_of i a b)) = []" "ms_links (Mesh (end_of i a b)) = []" for i a b
    by (simp_all add: Mesh_def bind_peer_def)
  show ?thesis
    using glare_ends_agree [of "end_of ''A'' ''a'' ''b''" "end_of ''B'' ''b'' ''a''" 1 2 "Mesh (end_of ''A'' ''a'' ''b'')" "Mesh (end_of ''B'' ''b'' ''a'')" 1 2 0 0 "\<lambda>_. []"]
    unfolding self clear using less by simp
qed

section \<open>Where a link is lost for good\<close>

text \<open>
  \<open>b\<close> dialled \<open>a\<close>, lost the connection and dials again, while \<open>a\<close> has not noticed. \<open>a\<close> closes the new
  connection as the loser of a glare, so \<open>b\<close> does not try again, and when the heartbeat of \<open>a\<close> gives up
  on the old one, \<open>a\<close> does not dial because it had not dialled that one. Neither end has a link, a timer
  or a dial left, and nothing the two do by themselves will make one.
\<close>

definition half_dead_run :: "mesh_event list" where
  "half_dead_run =
     proven_run @ [Accepts 9 True, Greets 1 9 proof_claim ''c'', Key_fetched 1 (Some \<lparr>jk_kid = ''k'', jk_key = ''s''\<rparr>),
                   Frame_in 3 9 (JObj [(''mesh'', JStr ''proof''), (''jws'', JStr ''h.p.s'')]), Greet_goes_on 1 4 (\<lambda>_. []),
                   Conn_ends 9 GLARE_CLOSE, Beats 30003 ''b'']"

definition redialling_run :: "mesh_event list" where
  "redialling_run =
     [Connects (\<lambda>_. ''k''), Dial_opened (JNum 1) ''k'' 3,
      Dialled_frame 2 (\<lambda>_. []) 3 (JObj [(''request_id'', JStr ''mesh-hello-k''), (''ok'', JBool True), (''instance'', JStr ''A'')]),
      Conn_ends 3 1006, Retry_fires ''a'' ''l'', Dial_opened (JNum 1) ''l'' 4, Conn_ends 4 GLARE_CLOSE]"

definition idle :: "mesh \<Rightarrow> bool" where
  "idle s \<longleftrightarrow> ms_links s = [] \<and> ms_retries s = [] \<and> ms_dials s = [] \<and> ms_greetings s = [] \<and> \<not> ms_stopping s \<and> ms_forgotten s = []"

lemma lost_link_is_never_redialled:
  "idle (mesh_run (end_of ''A'' ''a'' ''b'') half_dead_run)
   \<and> Closes 9 (Some GLARE_CLOSE) \<in> set (ms_done (mesh_run (end_of ''A'' ''a'' ''b'') half_dead_run))
   \<and> idle (mesh_run (end_of ''B'' ''b'' ''a'') redialling_run)
   \<and> Arms ''a'' 1000 \<in> set (ms_done (mesh_run (end_of ''B'' ''b'' ''a'') redialling_run))"
proof -
  have "idle (mesh_run (end_of ''A'' ''a'' ''b'') half_dead_run)" by code_simp
  moreover have "Closes 9 (Some GLARE_CLOSE) \<in> set (ms_done (mesh_run (end_of ''A'' ''a'' ''b'') half_dead_run))" by code_simp
  moreover have "idle (mesh_run (end_of ''B'' ''b'' ''a'') redialling_run)" by code_simp
  moreover have "Arms ''a'' 1000 \<in> set (ms_done (mesh_run (end_of ''B'' ''b'' ''a'') redialling_run))" by code_simp
  ultimately show ?thesis by blast
qed

text \<open>
  A connection that goes after its proof arrived and before its key did is held all the same. The
  listener runs at once and the link is dropped, but \<open>#hold\<close> goes on to tell the relay that the instance
  is back: the last word is restored, of an instance that is not reached.
\<close>

definition gone_before_key_run :: "mesh_event list" where
  "gone_before_key_run =
     [Accepts 7 True, Greets 0 7 proof_claim ''c'', Frame_in 1 7 (JObj [(''mesh'', JStr ''proof''), (''jws'', JStr ''h.p.s'')]),
      Conn_ends 7 1006, Key_fetched 0 (Some \<lparr>jk_kid = ''k'', jk_key = ''s''\<rparr>), Greet_goes_on 0 2 (\<lambda>_. [])]"

lemma closed_connection_is_restored:
  "\<not> peer_reachable ''b'' (mesh_run (end_of ''A'' ''a'' ''b'') gone_before_key_run)
   \<and> filter (\<lambda>e. case e of Relay_lost i \<Rightarrow> True | Relay_restored i \<Rightarrow> True | _ \<Rightarrow> False) (ms_done (mesh_run (end_of ''A'' ''a'' ''b'') gone_before_key_run))
     = [Relay_lost ''B'', Relay_restored ''B'']"
proof -
  have "\<not> peer_reachable ''b'' (mesh_run (end_of ''A'' ''a'' ''b'') gone_before_key_run)" by code_simp
  moreover have "filter (\<lambda>e. case e of Relay_lost i \<Rightarrow> True | Relay_restored i \<Rightarrow> True | _ \<Rightarrow> False) (ms_done (mesh_run (end_of ''A'' ''a'' ''b'') gone_before_key_run))
     = [Relay_lost ''B'', Relay_restored ''B'']" by code_simp
  ultimately show ?thesis by blast
qed

end
