(* ===== verification/Upstream.thy ===== *)
theory Upstream
  imports Prelude
begin

text \<open>
  What an LLM gateway posts to an instance: \<open>src/upstream/events.ts\<close>, \<open>requests.ts\<close>, the webhook of
  \<open>webhook.ts\<close> and the batches of \<open>gateway.ts\<close>.

  The object \<open>LlmRequests\<close> is a record of its maps. What it publishes and what it tells the sessions
  domain is kept in order in \<open>lr_done\<close>. The clock is an argument, \<open>now\<close>, wherever the code reads it, apart
  from the instants the gateway states. An observation keeps the members nothing here reads as a list.
\<close>

section \<open>events.ts\<close>

record observation =
  ob_received_at :: int
  ob_sid :: string
  ob_prefix :: "string option"
  ob_fields :: "(string \<times> json) list"

datatype cache_result = Cache_hit | Cache_written | Cache_partial | Cache_none | Cache_unknown

fun cacheResultOf :: "json option \<Rightarrow> cache_result option" where
  "cacheResultOf (Some (JStr t)) =
     (if t = ''hit'' then Some Cache_hit else if t = ''written'' then Some Cache_written else if t = ''partial'' then Some Cache_partial
      else if t = ''none'' then Some Cache_none else if t = ''unknown'' then Some Cache_unknown else None)"
| "cacheResultOf _ = None"

record response_observation =
  rs_sid :: string
  rs_at :: int
  rs_prefix :: "string option"
  rs_cache :: "cache_result option"
  rs_request_at :: "int option"

record expired_observation =
  ex_sid :: string
  ex_prefix :: "string option"
  ex_of :: string
  ex_at :: int

datatype gateway_item =
    Request_item observation "string option"
  | Response_item response_observation
  | Expired_item expired_observation
  | Ignored_item

definition SAME_NAME_NUMBERS :: "string list" where
  "SAME_NAME_NUMBERS = [''cache_ttl_secs'', ''cache_expires_at'', ''cache_count'', ''next_keepalive_at'', ''cache_until_count'', ''cache_breakeven_count'']"

definition RENAMED_INSTANTS :: "(string \<times> string) list" where
  "RENAMED_INSTANTS = [(''cache_since'', ''cache_since_at''), (''cache_until'', ''cache_until_at''), (''cache_breakeven_until'', ''cache_breakeven_until_at'')]"

definition SAME_NAME_STRINGS :: "string list" where
  "SAME_NAME_STRINGS = [''keepalive'', ''ns'', ''model'', ''credential'', ''origin'']"

text \<open>A finite number, and a string that is not empty.\<close>

fun instantOf :: "json option \<Rightarrow> int option" where
  "instantOf (Some (JNum n)) = Some n"
| "instantOf _ = None"

fun textOf :: "json option \<Rightarrow> string option" where
  "textOf (Some (JStr t)) = (if t = [] then None else Some t)"
| "textOf _ = None"

definition taken :: "(string \<times> string) list \<Rightarrow> (json option \<Rightarrow> json option) \<Rightarrow> (string \<times> json) list \<Rightarrow> (string \<times> json) list" where
  "taken names reads raw = concat (map (\<lambda>(there, here). case reads (map_of raw there) of None \<Rightarrow> [] | Some v \<Rightarrow> [(here, v)]) names)"

definition requestOf :: "(string \<times> json) list \<Rightarrow> observation option" where
  "requestOf raw =
     (case (instantOf (map_of raw ''ts''), textOf (map_of raw ''session_id'')) of
        (Some at, Some sid) \<Rightarrow>
          Some \<lparr>ob_received_at = at, ob_sid = sid, ob_prefix = textOf (map_of raw ''prefix''),
                ob_fields = taken (map (\<lambda>f. (f, f)) SAME_NAME_NUMBERS) (map_option JNum \<circ> instantOf) raw
                  @ taken RENAMED_INSTANTS (map_option JNum \<circ> instantOf) raw
                  @ taken (map (\<lambda>f. (f, f)) SAME_NAME_STRINGS) (map_option JStr \<circ> textOf) raw
                  @ taken [(''status'', ''status'')] (map_option JNum \<circ> instantOf) raw\<rparr>
      | _ \<Rightarrow> None)"

definition gatewayResponseOf :: "(string \<times> json) list \<Rightarrow> response_observation option" where
  "gatewayResponseOf raw =
     (case (instantOf (map_of raw ''ts''), textOf (map_of raw ''session_id'')) of
        (Some at, Some sid) \<Rightarrow>
          Some \<lparr>rs_sid = sid, rs_at = at, rs_prefix = textOf (map_of raw ''prefix''), rs_cache = cacheResultOf (map_of raw ''cache''),
                rs_request_at = instantOf (map_of raw ''request_ts'')\<rparr>
      | _ \<Rightarrow> None)"

definition expiredOf :: "(string \<times> json) list \<Rightarrow> expired_observation option" where
  "expiredOf raw =
     (case (instantOf (map_of raw ''ts''), textOf (map_of raw ''session_id''), textOf (map_of raw ''of'')) of
        (Some at, Some sid, Some n) \<Rightarrow> Some \<lparr>ex_sid = sid, ex_prefix = textOf (map_of raw ''prefix''), ex_of = n, ex_at = at\<rparr>
      | _ \<Rightarrow> None)"

definition parseGatewayItem :: "json \<Rightarrow> gateway_item option" where
  "parseGatewayItem v =
     (case v of
        JObj raw \<Rightarrow>
          let kind = map_of raw ''type'' in
          if map_of raw ''session_id'' = Some JNull then Some Ignored_item
          else if kind = Some (JStr ''response'') then map_option Response_item (gatewayResponseOf raw)
          else if kind = Some (JStr ''cache_expired'') then map_option Expired_item (expiredOf raw)
          else if kind \<noteq> None then None
          else map_option (\<lambda>info. Request_item info (textOf (map_of raw ''cache_notice''))) (requestOf raw)
      | _ \<Rightarrow> None)"

section \<open>requests.ts\<close>

text \<open>What the contract package states of cache windows, and the instance itself.\<close>

record gateway_env =
  GATEWAY_LIVE_WINDOW_MS :: int
  LLM_PROMPT_CACHE_TTL_MS :: int
  llmCacheWindowEndAt :: "observation \<Rightarrow> int"
  ge_self :: string

definition MAX_SERIES :: nat where
  "MAX_SERIES = 500"

definition MAX_PREFIXES :: nat where
  "MAX_PREFIXES = 2000"

record series =
  se_info :: observation
  se_firstSeen :: nat
  se_notice :: "string option"

record llm_entry =
  le_info :: observation
  le_instance :: string
  le_main :: bool

datatype gateway_move = Move_live | Move_clock | Move_none

datatype requests_effect =
    Publishes "llm_entry list"
  | Tells_activity
  | Tells_moved string
  | Logs_rebuilt string "string option"
  | Notes_status "json option"
  | Logs_unreadable nat

record llm_requests =
  lr_series :: "(string, series) js_map"
  lr_sidsByPrefix :: "(string, string list) js_map"
  lr_activeAt :: "(string, int) js_map"
  lr_sequence :: nat
  lr_done :: "requests_effect list"

definition LlmRequests :: llm_requests where
  "LlmRequests = \<lparr>lr_series = [], lr_sidsByPrefix = [], lr_activeAt = [], lr_sequence = 0, lr_done = []\<rparr>"

definition lr_effect :: "requests_effect \<Rightarrow> llm_requests \<Rightarrow> llm_requests" where
  "lr_effect e s = s\<lparr>lr_done := lr_done s @ [e]\<rparr>"

definition seriesKey :: "string \<Rightarrow> string option \<Rightarrow> string" where
  "seriesKey sid prefix = show_nat (length sid) @ CHR '':'' # sid @ (case prefix of None \<Rightarrow> [] | Some p \<Rightarrow> p)"

text \<open>The loop that drops the oldest entry while there are too many.\<close>

fun trim_to :: "nat \<Rightarrow> 'a list \<Rightarrow> 'a list" where
  "trim_to n [] = []"
| "trim_to n (x # xs) = (if length (x # xs) > n then trim_to n xs else x # xs)"

definition lr_shared :: "string option \<Rightarrow> llm_requests \<Rightarrow> bool" where
  "lr_shared prefix s \<longleftrightarrow> (case prefix of None \<Rightarrow> False | Some p \<Rightarrow> length (map_get_or [] (lr_sidsByPrefix s) p) > 1)"

text \<open>One pass of \<open>#elect\<close>: the series kept per session, the better of two taking the place.\<close>

type_synonym live_series = "string \<times> series"

definition sid_of :: "live_series \<Rightarrow> string" where
  "sid_of x = ob_sid (se_info (snd x))"

definition origin_of :: "live_series \<Rightarrow> json option" where
  "origin_of x = map_of (ob_fields (se_info (snd x))) ''origin''"

definition best_by :: "(live_series \<Rightarrow> live_series \<Rightarrow> bool) \<Rightarrow> live_series list \<Rightarrow> (string, live_series) js_map" where
  "best_by better xs =
     fold (\<lambda>x m. case map_of m (sid_of x) of
                   None \<Rightarrow> map_set (sid_of x) x m
                 | Some best \<Rightarrow> if better x best then map_set (sid_of x) x m else m) xs []"

definition newer :: "live_series \<Rightarrow> live_series \<Rightarrow> bool" where
  "newer x y \<longleftrightarrow> ob_received_at (se_info (snd x)) > ob_received_at (se_info (snd y))"

definition earlier :: "live_series \<Rightarrow> live_series \<Rightarrow> bool" where
  "earlier x y \<longleftrightarrow> se_firstSeen (snd x) < se_firstSeen (snd y)"

definition elect :: "llm_requests \<Rightarrow> live_series list \<Rightarrow> (string, live_series) js_map" where
  "elect s live =
     (let statedSids = map sid_of (filter (\<lambda>x. origin_of x \<noteq> None) live);
          stated = best_by newer (filter (\<lambda>x. origin_of x = Some (JStr ''main'')) live);
          elected = best_by earlier (filter (\<lambda>x. sid_of x \<notin> set statedSids \<and> \<not> lr_shared (ob_prefix (se_info (snd x))) s) live);
          fallback = best_by newer (filter (\<lambda>x. sid_of x \<notin> set statedSids \<and> map_of elected (sid_of x) = None) live)
      in fold (\<lambda>(sid, x). map_set sid x) stated (fold (\<lambda>(sid, x). map_set sid x) fallback elected))"

definition lr_entries :: "gateway_env \<Rightarrow> int \<Rightarrow> llm_requests \<Rightarrow> llm_entry list \<times> llm_requests" where
  "lr_entries env now s =
     (let live = filter (\<lambda>(k, x). \<not> llmCacheWindowEndAt env (se_info x) \<le> now) (lr_series s);
          main = elect s live
      in (map (\<lambda>(k, x). \<lparr>le_info = se_info x, le_instance = ge_self env, le_main = (map_option fst (map_of main (ob_sid (se_info x))) = Some k)\<rparr>) live,
          s\<lparr>lr_series := live\<rparr>))"

definition lr_publish :: "gateway_env \<Rightarrow> int \<Rightarrow> llm_requests \<Rightarrow> llm_requests" where
  "lr_publish env now s = (case lr_entries env now s of (entries, s1) \<Rightarrow> lr_effect (Publishes entries) s1)"

definition lr_prune :: "gateway_env \<Rightarrow> int \<Rightarrow> llm_requests \<Rightarrow> llm_requests" where
  "lr_prune env now s = s\<lparr>lr_activeAt := filter (\<lambda>(seen, at). \<not> at < now - GATEWAY_LIVE_WINDOW_MS env) (lr_activeAt s)\<rparr>"

definition lr_active :: "gateway_env \<Rightarrow> string \<Rightarrow> int \<Rightarrow> llm_requests \<Rightarrow> gateway_move \<times> llm_requests" where
  "lr_active env sid at s =
     (case map_of (lr_activeAt s) sid of
        Some held \<Rightarrow>
          if held \<ge> at then (Move_none, s)
          else (if at - held \<le> GATEWAY_LIVE_WINDOW_MS env then Move_clock else Move_live, lr_prune env at (s\<lparr>lr_activeAt := map_set sid at (lr_activeAt s)\<rparr>))
      | None \<Rightarrow> (Move_live, lr_prune env at (s\<lparr>lr_activeAt := map_set sid at (lr_activeAt s)\<rparr>)))"

definition lr_moved :: "string \<Rightarrow> gateway_move \<times> llm_requests \<Rightarrow> llm_requests" where
  "lr_moved sid r =
     (case fst r of Move_live \<Rightarrow> lr_effect Tells_activity (snd r) | Move_clock \<Rightarrow> lr_effect (Tells_moved sid) (snd r) | Move_none \<Rightarrow> snd r)"

definition notePrefix :: "observation \<Rightarrow> llm_requests \<Rightarrow> llm_requests" where
  "notePrefix info s =
     (case ob_prefix info of
        None \<Rightarrow> s
      | Some p \<Rightarrow>
          let m = lr_sidsByPrefix s;
              m1 = (if map_of m p = None then trim_to MAX_PREFIXES (map_set p [] m) else m)
          in s\<lparr>lr_sidsByPrefix :=
                 (case map_of m1 p of
                    None \<Rightarrow> m1
                  | Some sids \<Rightarrow> if length sids < 2 then map_set p (set_add (ob_sid info) sids) m1 else m1)\<rparr>)"

definition lr_record :: "gateway_env \<Rightarrow> int \<Rightarrow> observation \<Rightarrow> string option \<Rightarrow> llm_requests \<Rightarrow> llm_requests" where
  "lr_record env now info notice s =
     (let s1 = lr_moved (ob_sid info) (lr_active env (ob_sid info) (ob_received_at info) s);
          key = seriesKey (ob_sid info) (ob_prefix info);
          put = (\<lambda>first seq.
            let s2 = notePrefix info s1
            in lr_publish env now
                 (s2\<lparr>lr_series := trim_to MAX_SERIES (map_set key \<lparr>se_info = info, se_firstSeen = first, se_notice = notice\<rparr> (map_del key (lr_series s2))),
                     lr_sequence := seq\<rparr>))
      in case map_of (lr_series s1) key of
           None \<Rightarrow> put (lr_sequence s1 + 1) (lr_sequence s1 + 1)
         | Some held \<Rightarrow> if ob_received_at (se_info held) \<ge> ob_received_at info then s1 else put (se_firstSeen held) (lr_sequence s1))"

definition lr_rebuild :: "gateway_env \<Rightarrow> int \<Rightarrow> response_observation \<Rightarrow> llm_requests \<Rightarrow> llm_requests" where
  "lr_rebuild env now info s =
     (let key = seriesKey (rs_sid info) (rs_prefix info) in
      case map_of (lr_series s) key of
        None \<Rightarrow> s
      | Some x \<Rightarrow>
          let held = se_info x in
          if (case rs_request_at info of None \<Rightarrow> ob_received_at held > rs_at info | Some at \<Rightarrow> at \<noteq> ob_received_at held) then s
          else
            let s1 = (if map_of (ob_fields held) ''keepalive'' = Some (JStr ''applied'') then lr_effect (Logs_rebuilt (rs_sid info) (rs_prefix info)) s else s);
                rest = filter (\<lambda>(f, v). f \<notin> {''cache_until_at'', ''cache_until_count'', ''cache_breakeven_until_at'', ''cache_breakeven_count''}) (ob_fields held);
                ttl = (case map_of rest ''cache_ttl_secs'' of Some (JNum n) \<Rightarrow> n * 1000 | _ \<Rightarrow> LLM_PROMPT_CACHE_TTL_MS env)
            in lr_publish env now
                 (s1\<lparr>lr_series := map_set key
                       \<lparr>se_info = held\<lparr>ob_fields := map_set ''cache_expires_at'' (JNum (rs_at info + ttl)) (map_set ''cache_since_at'' (JNum (rs_at info)) rest)\<rparr>,
                        se_firstSeen = se_firstSeen x, se_notice = None\<rparr> (lr_series s1)\<rparr>))"

definition lr_note :: "gateway_env \<Rightarrow> int \<Rightarrow> response_observation \<Rightarrow> llm_requests \<Rightarrow> llm_requests" where
  "lr_note env now info s =
     (let s1 = lr_moved (rs_sid info) (lr_active env (rs_sid info) (rs_at info) s)
      in if rs_cache info = Some Cache_written then lr_rebuild env now info s1 else s1)"

definition lr_expire :: "gateway_env \<Rightarrow> int \<Rightarrow> expired_observation \<Rightarrow> llm_requests \<Rightarrow> llm_requests" where
  "lr_expire env now info s =
     (let key = seriesKey (ex_sid info) (ex_prefix info) in
      case map_of (lr_series s) key of
        None \<Rightarrow> s
      | Some x \<Rightarrow> if se_notice x \<noteq> Some (ex_of info) then s else lr_publish env now (s\<lparr>lr_series := map_del key (lr_series s)\<rparr>))"

definition lr_seen_at :: "gateway_env \<Rightarrow> string \<Rightarrow> int \<Rightarrow> llm_requests \<Rightarrow> int option" where
  "lr_seen_at env sid now s =
     (case map_of (lr_activeAt s) sid of None \<Rightarrow> None | Some at \<Rightarrow> if now - at \<le> GATEWAY_LIVE_WINDOW_MS env then Some at else None)"

definition lr_snapshot :: "gateway_env \<Rightarrow> int \<Rightarrow> llm_requests \<Rightarrow> (string \<times> llm_entry list) list \<times> llm_requests" where
  "lr_snapshot env now s = (case lr_entries env now s of (entries, s1) \<Rightarrow> ([(ge_self env, entries)], s1))"

section \<open>gateway.ts and webhook.ts\<close>

text \<open>One posted batch; \<open>nows n\<close> is the clock when the item at \<open>n\<close> is taken.\<close>

definition take_item :: "gateway_env \<Rightarrow> int \<Rightarrow> json \<Rightarrow> nat \<times> llm_requests \<Rightarrow> nat \<times> llm_requests" where
  "take_item env now v r =
     (case parseGatewayItem v of
        None \<Rightarrow> (fst r + 1, snd r)
      | Some (Request_item info notice) \<Rightarrow> (fst r, lr_effect (Notes_status (map_of (ob_fields info) ''status'')) (lr_record env now info notice (snd r)))
      | Some (Response_item info) \<Rightarrow> (fst r, lr_note env now info (snd r))
      | Some (Expired_item info) \<Rightarrow> (fst r, lr_expire env now info (snd r))
      | Some Ignored_item \<Rightarrow> r)"

definition gateway_take :: "gateway_env \<Rightarrow> (nat \<Rightarrow> int) \<Rightarrow> json list \<Rightarrow> llm_requests \<Rightarrow> llm_requests" where
  "gateway_take env nows items s =
     (case fold (\<lambda>(n, v). take_item env (nows n) v) (enumerate 0 items) (0, s) of
        (unreadable, s1) \<Rightarrow> if unreadable > 0 then lr_effect (Logs_unreadable unreadable) s1 else s1)"

definition MAX_BODY_BYTES :: nat where
  "MAX_BODY_BYTES = 1024 * 1024"

definition SOURCE_NAME :: "string \<Rightarrow> bool" where
  "SOURCE_NAME name \<longleftrightarrow>
     1 \<le> length name \<and> length name \<le> 64 \<and> list_all (\<lambda>c. c \<in> set ''abcdefghijklmnopqrstuvwxyz0123456789-'') name"

text \<open>What follows the last occurrence of the marker.\<close>

fun after_last :: "string \<Rightarrow> string \<Rightarrow> string option" where
  "after_last marker [] = None"
| "after_last marker (c # cs) =
     (case after_last marker cs of
        Some rest \<Rightarrow> Some rest
      | None \<Rightarrow> if take (length marker) (c # cs) = marker then Some (drop (length marker) (c # cs)) else None)"

definition sourceOfPath :: "string \<Rightarrow> string option" where
  "sourceOfPath pathname = after_last ''/webhook/'' pathname"

record webhook_source =
  ws_name :: string
  ws_token :: string

text \<open>A body arrives in pieces, and reading it can fail between two of them.\<close>

datatype body_part = Chunk string | Read_fails string

record webhook_request =
  wr_method :: string
  wr_pathname :: string
  wr_authorization :: "string option"
  wr_declared :: "int option"
  wr_body :: "body_part list"

definition webhook_authorized :: "string option \<Rightarrow> string \<Rightarrow> bool" where
  "webhook_authorized header token = (case header of None \<Rightarrow> False | Some h \<Rightarrow> take 7 h = ''Bearer '' \<and> drop 7 h = token)"

datatype body_error = Too_large | Not_read string

fun bounded_body :: "nat \<Rightarrow> string \<Rightarrow> body_part list \<Rightarrow> body_error + string" where
  "bounded_body sofar text [] = Inr text"
| "bounded_body sofar text (Read_fails cause # parts) = Inl (Not_read cause)"
| "bounded_body sofar text (Chunk bytes # parts) =
     (if sofar + length bytes > MAX_BODY_BYTES then Inl Too_large else bounded_body (sofar + length bytes) (text @ bytes) parts)"

text \<open>The status of the answer, if it is one of ours, and the batch that was handed to the source.\<close>

definition handleWebhook :: "(string \<Rightarrow> json option) \<Rightarrow> webhook_source option \<Rightarrow> webhook_request \<Rightarrow> nat option \<times> json list option" where
  "handleWebhook json_of source req =
     (case sourceOfPath (wr_pathname req) of
        None \<Rightarrow> (None, None)
      | Some name \<Rightarrow>
          if wr_method req \<noteq> ''POST'' then (Some 405, None)
          else
            (case source of
               None \<Rightarrow> (Some 404, None)
             | Some w \<Rightarrow>
                 if \<not> SOURCE_NAME name \<or> name \<noteq> ws_name w then (Some 404, None)
                 else if \<not> webhook_authorized (wr_authorization req) (ws_token w) then (Some 401, None)
                 else if (case wr_declared req of None \<Rightarrow> False | Some n \<Rightarrow> n > int MAX_BODY_BYTES) then (Some 413, None)
                 else
                   (case bounded_body 0 [] (wr_body req) of
                      Inl Too_large \<Rightarrow> (Some 413, None)
                    | Inl (Not_read cause) \<Rightarrow> (Some 400, None)
                    | Inr text \<Rightarrow>
                        (case json_of text of
                           None \<Rightarrow> (Some 400, None)
                         | Some (JArr items) \<Rightarrow> (Some 204, Some items)
                         | Some v \<Rightarrow> (Some 204, Some [v])))))"

section \<open>Runs\<close>

datatype gateway_event =
    Takes_request int observation "string option"
  | Takes_response int response_observation
  | Takes_expiry int expired_observation
  | Reads_entries int

fun lr_step :: "gateway_env \<Rightarrow> llm_requests \<Rightarrow> gateway_event \<Rightarrow> llm_requests" where
  "lr_step env s (Takes_request now info notice) = lr_record env now info notice s"
| "lr_step env s (Takes_response now info) = lr_note env now info s"
| "lr_step env s (Takes_expiry now info) = lr_expire env now info s"
| "lr_step env s (Reads_entries now) = snd (lr_snapshot env now s)"

definition gateway_run :: "gateway_env \<Rightarrow> gateway_event list \<Rightarrow> llm_requests" where
  "gateway_run env evs = foldl (lr_step env) LlmRequests evs"

end
