(* ===== verification/UpstreamFacts.thy ===== *)
theory UpstreamFacts
  imports Upstream
begin

text \<open>
  What holds of the requests a gateway reports: which series of a session is its own, that series do not
  collide, that what is held is bounded, that the newest request stands whatever the order of delivery,
  and when a session counts as seen.
\<close>

section \<open>Keys of series\<close>

lemma digits_then_colon:
  "read_digits a (xs @ CHR '':'' # us) = None"
  by (induction xs arbitrary: a) (simp_all add: char_digit_def split: option.split)

lemma digits_prefix:
  "read_digits a xs = Some m \<Longrightarrow> read_digits b ys = Some n \<Longrightarrow> xs @ CHR '':'' # us = ys @ CHR '':'' # vs \<Longrightarrow> xs = ys \<and> us = vs"
proof (induction xs arbitrary: ys a b)
  case Nil
  then show ?case by (cases ys) (simp_all add: char_digit_def)
next
  case (Cons x xs)
  show ?case
  proof (cases ys)
    case Nil
    then show ?thesis using Cons.prems by (simp add: char_digit_def)
  next
    case (Cons y zs)
    then show ?thesis using Cons.prems Cons.IH by (auto split: option.splits)
  qed
qed

text \<open>
  Two requests share a series key exactly when they are of the same session and name the same
  conversation series, an absent name standing for the unnamed one, whatever characters the two contain.
\<close>

theorem series_are_kept_apart:
  "seriesKey sid p = seriesKey sid' p' \<longleftrightarrow> sid = sid' \<and> (case p of None \<Rightarrow> [] | Some t \<Rightarrow> t) = (case p' of None \<Rightarrow> [] | Some t \<Rightarrow> t)"
proof
  assume "seriesKey sid p = seriesKey sid' p'"
  then have "show_nat (length sid) = show_nat (length sid') \<and> sid @ (case p of None \<Rightarrow> [] | Some t \<Rightarrow> t) = sid' @ (case p' of None \<Rightarrow> [] | Some t \<Rightarrow> t)"
    unfolding seriesKey_def by (intro digits_prefix [of 0 _ "length sid" 0 _ "length sid'"]) simp_all
  then show "sid = sid' \<and> (case p of None \<Rightarrow> [] | Some t \<Rightarrow> t) = (case p' of None \<Rightarrow> [] | Some t \<Rightarrow> t)" by (elim conjE) simp
qed (simp add: seriesKey_def)

section \<open>Which series is a session's own\<close>

text \<open>The best of a list: the first among those nothing is better than.\<close>

definition best_of :: "(live_series \<Rightarrow> live_series \<Rightarrow> bool) \<Rightarrow> live_series list \<Rightarrow> live_series option" where
  "best_of better xs = fold (\<lambda>x b. case b of None \<Rightarrow> Some x | Some y \<Rightarrow> if better x y then Some x else b) xs None"

text \<open>The rule, session by session: what states it is the main one, else what no other session shares, else the newest.\<close>

definition own_series :: "llm_requests \<Rightarrow> live_series list \<Rightarrow> string \<Rightarrow> live_series option" where
  "own_series s live sid =
     (let own = filter (\<lambda>x. sid_of x = sid) live;
          alone = filter (\<lambda>x. \<not> lr_shared (ob_prefix (se_info (snd x))) s) own
      in if list_ex (\<lambda>x. origin_of x \<noteq> None) own then best_of newer (filter (\<lambda>x. origin_of x = Some (JStr ''main'')) own)
         else if alone \<noteq> [] then best_of earlier alone
         else best_of newer own)"

lemma best_of_snoc: "best_of better (xs @ [x]) = (case best_of better xs of None \<Rightarrow> Some x | Some y \<Rightarrow> if better x y then Some x else Some y)"
  by (simp add: best_of_def split: option.split)

lemma best_of_Nil [simp]: "best_of better [] = None" by (simp add: best_of_def)

lemma best_of_None: "best_of better xs = None \<longleftrightarrow> xs = []"
  by (induction xs rule: rev_induct) (auto simp: best_of_snoc split: option.split)

lemma best_of_mem: "best_of better xs = Some x \<Longrightarrow> x \<in> set xs"
  by (induction xs arbitrary: x rule: rev_induct) (auto simp: best_of_snoc split: option.splits if_splits)

lemma best_by_snoc:
  "best_by better (xs @ [x]) =
     (case map_of (best_by better xs) (sid_of x) of
        None \<Rightarrow> map_set (sid_of x) x (best_by better xs)
      | Some best \<Rightarrow> if better x best then map_set (sid_of x) x (best_by better xs) else best_by better xs)"
  unfolding best_by_def by simp

lemma best_by_wf: "map_wf (best_by better xs)"
  by (induction xs rule: rev_induct) (auto simp: best_by_def split: option.split)

lemma map_of_best_by: "map_of (best_by better xs) sid = best_of better (filter (\<lambda>x. sid_of x = sid) xs)"
  by (induction xs rule: rev_induct) (auto simp: best_by_snoc best_of_snoc best_by_def [of _ "[]"] simp del: map_of_eq_Some_iff split: option.split)

lemma map_of_overwrite: "map_wf xs \<Longrightarrow> map_of (fold (\<lambda>(k, x). map_set k x) xs m) k = (case map_of xs k of None \<Rightarrow> map_of m k | Some x \<Rightarrow> Some x)"
proof (induction xs arbitrary: m)
  case (Cons x xs)
  obtain a b where x: "x = (a, b)" by (cases x)
  have "map_of xs a = None" using Cons.prems by (simp add: x map_of_None_keys)
  then show ?case using Cons.IH [of "map_set a b m"] Cons.prems by (auto simp: x simp del: map_of_eq_Some_iff split: option.split)
qed simp

lemma own_filter:
  "filter (\<lambda>x. sid_of x = sid) (filter (\<lambda>x. P (sid_of x) \<and> Q x) live) = (if P sid then filter Q (filter (\<lambda>x. sid_of x = sid) live) else [])"
  by (induction live) auto

lemma best_by_own:
  "map_of (best_by better (filter (\<lambda>x. P (sid_of x) \<and> Q x) live)) sid = (if P sid then best_of better (filter Q (filter (\<lambda>x. sid_of x = sid) live)) else None)"
  "map_of (best_by better (filter (\<lambda>x. P (sid_of x)) live)) sid = (if P sid then best_of better (filter (\<lambda>x. sid_of x = sid) live) else None)"
  unfolding map_of_best_by own_filter using own_filter [of sid P "\<lambda>_. True" live] by simp_all

lemma election_rule: "map_of (elect s live) sid = own_series s live sid"
proof -
  let ?own = "filter (\<lambda>x. sid_of x = sid) live"
  let ?st = "set (map sid_of (filter (\<lambda>x. origin_of x \<noteq> None) live))"
  let ?el = "best_by earlier (filter (\<lambda>x. sid_of x \<notin> ?st \<and> \<not> lr_shared (ob_prefix (se_info (snd x))) s) live)"
  have stated: "sid \<in> ?st \<longleftrightarrow> list_ex (\<lambda>x. origin_of x \<noteq> None) ?own" by (auto simp: list_ex_iff)
  have e: "map_of ?el sid = (if sid \<notin> ?st then best_of earlier (filter (\<lambda>x. \<not> lr_shared (ob_prefix (se_info (snd x))) s) ?own) else None)"
    by (rule best_by_own)
  have f: "map_of (best_by newer (filter (\<lambda>x. sid_of x \<notin> ?st \<and> map_of ?el (sid_of x) = None) live)) sid
      = (if sid \<notin> ?st \<and> map_of ?el sid = None then best_of newer ?own else None)"
    by (rule best_by_own(2) [of newer "\<lambda>t. t \<notin> ?st \<and> map_of ?el t = None"])
  have m: "map_of (best_by newer (filter (\<lambda>x. origin_of x = Some (JStr ''main'')) live)) sid = best_of newer (filter (\<lambda>x. origin_of x = Some (JStr ''main'')) ?own)"
    by (simp add: map_of_best_by conj_commute)
  have none: "sid \<notin> ?st \<Longrightarrow> filter (\<lambda>x. origin_of x = Some (JStr ''main'')) ?own = []" by (auto simp: filter_empty_conv)
  show ?thesis
    unfolding elect_def own_series_def Let_def map_of_overwrite [OF best_by_wf] m f e stated [symmetric]
    using none by (auto simp: best_of_None split: option.split)
qed

section \<open>What is held is bounded\<close>

lemma trim_drop: "trim_to n xs = drop (length xs - n) xs"
  by (induction xs) (auto simp: Suc_diff_le)

lemma trim_wf [simp]: "map_wf m \<Longrightarrow> map_wf (trim_to n m)"
  by (simp add: trim_drop drop_map [symmetric])

lemma trim_length [simp]: "length (trim_to n xs) \<le> n"
  by (simp add: trim_drop)

lemma in_trim: "x \<in> set (trim_to n xs) \<Longrightarrow> x \<in> set xs"
  by (simp add: trim_drop in_set_dropD)

lemma length_map_set: "length (map_set k v m) = (if k \<in> set (map_keys m) then length m else Suc (length m))"
  by (induction m) auto

lemma in_upd: "x \<in> set (map_set k v m) \<Longrightarrow> x = (k, v) \<or> x \<in> set m"
  by (induction m) (auto split: if_splits)

definition sids_ok :: "string \<times> string list \<Rightarrow> bool" where
  "sids_ok x \<longleftrightarrow> distinct (snd x) \<and> length (snd x) \<le> 2"

definition lr_ok :: "llm_requests \<Rightarrow> bool" where
  "lr_ok s \<longleftrightarrow> map_wf (lr_series s) \<and> length (lr_series s) \<le> MAX_SERIES \<and> map_wf (lr_sidsByPrefix s) \<and> length (lr_sidsByPrefix s) \<le> MAX_PREFIXES
     \<and> list_all sids_ok (lr_sidsByPrefix s)"

lemma lr_effect_fields [simp]:
  "lr_series (lr_effect e s) = lr_series s" "lr_sidsByPrefix (lr_effect e s) = lr_sidsByPrefix s" "lr_activeAt (lr_effect e s) = lr_activeAt s"
  "lr_sequence (lr_effect e s) = lr_sequence s"
  by (simp_all add: lr_effect_def)

lemma lr_moved_fields [simp]:
  "lr_series (lr_moved sid (lr_active env t at s)) = lr_series s" "lr_sidsByPrefix (lr_moved sid (lr_active env t at s)) = lr_sidsByPrefix s"
  "lr_sequence (lr_moved sid (lr_active env t at s)) = lr_sequence s" "lr_activeAt (lr_moved sid r) = lr_activeAt (snd r)"
  by (simp_all add: lr_moved_def lr_active_def lr_prune_def split: option.split gateway_move.split)

lemma lr_publish_fields [simp]:
  "lr_series (lr_publish env now s) = filter (\<lambda>(k, x). \<not> llmCacheWindowEndAt env (se_info x) \<le> now) (lr_series s)"
  "lr_sidsByPrefix (lr_publish env now s) = lr_sidsByPrefix s" "lr_activeAt (lr_publish env now s) = lr_activeAt s"
  by (simp_all add: lr_publish_def lr_entries_def Let_def)

lemma lr_note_fields [simp]:
  "lr_series (notePrefix info s) = lr_series s" "lr_activeAt (notePrefix info s) = lr_activeAt s" "lr_sequence (notePrefix info s) = lr_sequence s"
  by (simp_all add: notePrefix_def Let_def split: option.split)

lemma ok_publish: "lr_ok s \<Longrightarrow> lr_ok (lr_publish env now s)"
  using le_trans [OF length_filter_le] by (auto simp: lr_ok_def)

lemma ok_series: "lr_ok s \<Longrightarrow> map_wf m \<Longrightarrow> length m \<le> MAX_SERIES \<Longrightarrow> lr_ok (s\<lparr>lr_series := m\<rparr>)"
  by (simp add: lr_ok_def)

lemma ok_note_prefix: assumes s: "lr_ok s" shows "lr_ok (notePrefix info s)"
proof (cases "ob_prefix info")
  case (Some p)
  define m where "m = lr_sidsByPrefix s"
  define m1 where "m1 = (if map_of m p = None then trim_to MAX_PREFIXES (map_set p [] m) else m)"
  have m: "map_wf m" "length m \<le> MAX_PREFIXES" "list_all sids_ok m" using s by (simp_all add: lr_ok_def m_def)
  have m1: "map_wf m1" "length m1 \<le> MAX_PREFIXES" "list_all sids_ok m1"
    using m by (auto simp: m1_def list_all_iff sids_ok_def dest!: in_trim in_upd)
  have new: "lr_sidsByPrefix (notePrefix info s) = (case map_of m1 p of None \<Rightarrow> m1
      | Some sids \<Rightarrow> if length sids < 2 then map_set p (set_add (ob_sid info) sids) m1 else m1)"
    unfolding notePrefix_def Some Let_def m1_def m_def by simp
  have one: "sids_ok (p, set_add a sids)" if "map_of m1 p = Some sids" "length sids < 2" for a sids
    using m1(3) map_of_SomeD [OF that(1)] that(2) by (auto simp: list_all_iff sids_ok_def set_add_def)
  have "map_wf (map_set p y m1) \<and> length (map_set p y m1) \<le> MAX_PREFIXES \<and> (sids_ok (p, y) \<longrightarrow> list_all sids_ok (map_set p y m1))"
    if "map_of m1 p = Some sids" for y sids
    using m1 map_of_in_keys [OF that] by (auto simp: length_map_set list_all_iff dest!: in_upd)
  then have "map_wf (lr_sidsByPrefix (notePrefix info s)) \<and> length (lr_sidsByPrefix (notePrefix info s)) \<le> MAX_PREFIXES \<and> list_all sids_ok (lr_sidsByPrefix (notePrefix info s))"
    unfolding new using m1 one by (simp split: option.split)
  then show ?thesis using s by (simp add: lr_ok_def)
qed (use s in \<open>simp add: notePrefix_def\<close>)

lemma ok_moved: "lr_ok s \<Longrightarrow> lr_ok (lr_moved sid (lr_active env t at s))"
  by (simp add: lr_ok_def)

lemma ok_record: assumes s: "lr_ok s" shows "lr_ok (lr_record env now info notice s)"
proof -
  let ?s1 = "lr_moved (ob_sid info) (lr_active env (ob_sid info) (ob_received_at info) s)"
  have "lr_ok (lr_publish env now (notePrefix info ?s1\<lparr>lr_series := trim_to MAX_SERIES (map_set key x (map_del key (lr_series (notePrefix info ?s1)))), lr_sequence := n\<rparr>))" for key x n
    using ok_note_prefix [OF ok_moved [OF s]] by (intro ok_publish) (simp add: lr_ok_def)
  then show ?thesis using ok_moved [OF s] unfolding lr_record_def Let_def by (simp split: option.split)
qed

lemma ok_note: assumes s: "lr_ok s" shows "lr_ok (lr_note env now info s)"
proof -
  have "lr_ok (lr_rebuild env now info t)" if t: "lr_ok t" for t
  proof (cases "map_of (lr_series t) (seriesKey (rs_sid info) (rs_prefix info))")
    case (Some x)
    let ?k = "seriesKey (rs_sid info) (rs_prefix info)"
    have "lr_ok (lr_publish env now (t'\<lparr>lr_series := map_set ?k y (lr_series t')\<rparr>))" if "lr_ok t'" "lr_series t' = lr_series t" for y t'
      using that t map_of_in_keys [OF Some] by (intro ok_publish ok_series) (simp_all add: length_map_set lr_ok_def)
    moreover have "lr_ok (lr_effect e t)" for e using t by (simp add: lr_ok_def)
    ultimately show ?thesis using t by (simp add: lr_rebuild_def Some Let_def)
  qed (simp add: lr_rebuild_def t)
  then show ?thesis using ok_moved [OF s] by (simp add: lr_note_def Let_def)
qed

lemma ok_expire: assumes s: "lr_ok s" shows "lr_ok (lr_expire env now info s)"
proof -
  have "lr_ok (s\<lparr>lr_series := map_del k (lr_series s)\<rparr>)" for k
    using s le_trans [OF length_delete_le] by (intro ok_series) (auto simp: lr_ok_def)
  then show ?thesis using s by (simp add: lr_expire_def Let_def ok_publish split: option.split)
qed

lemma ok_gateway: "lr_ok (gateway_run env evs)"
proof -
  have "lr_ok s \<Longrightarrow> lr_ok (snd (lr_snapshot env now s))" for s now
    using le_trans [OF length_filter_le] by (auto simp: lr_snapshot_def lr_entries_def Let_def lr_ok_def)
  then have "lr_ok s \<Longrightarrow> lr_ok (lr_step env s e)" for s e by (cases e) (simp_all add: ok_record ok_note ok_expire)
  then show ?thesis unfolding gateway_run_def by (induction evs rule: rev_induct) (simp_all add: LlmRequests_def lr_ok_def)
qed

section \<open>The rule of the election\<close>

text \<open>
  What the contract states of \<open>LlmRequestInfo.main\<close>, apart from how the election goes about it. A series
  is the newest of a list when none was received later, and the first in the list among those as new; it
  is the first seen when none was first seen before it.
\<close>

definition received_at :: "live_series \<Rightarrow> int" where
  "received_at x = ob_received_at (se_info (snd x))"

definition newest_in :: "live_series list \<Rightarrow> live_series \<Rightarrow> bool" where
  "newest_in xs x \<longleftrightarrow> (\<exists>i < length xs. xs ! i = x
     \<and> (\<forall>j < length xs. received_at (xs ! j) \<le> received_at x) \<and> (\<forall>j < i. received_at (xs ! j) < received_at x))"

definition first_seen_in :: "live_series list \<Rightarrow> live_series \<Rightarrow> bool" where
  "first_seen_in xs x \<longleftrightarrow> (\<exists>i < length xs. xs ! i = x
     \<and> (\<forall>j < length xs. se_firstSeen (snd x) \<le> se_firstSeen (snd (xs ! j))) \<and> (\<forall>j < i. se_firstSeen (snd x) < se_firstSeen (snd (xs ! j))))"

text \<open>A series is shared when two sessions are noted under its prefix.\<close>

definition two_sessions :: "llm_requests \<Rightarrow> live_series \<Rightarrow> bool" where
  "two_sessions s x \<longleftrightarrow> (\<exists>p sids a b. ob_prefix (se_info (snd x)) = Some p \<and> map_of (lr_sidsByPrefix s) p = Some sids
     \<and> a \<in> set sids \<and> b \<in> set sids \<and> a \<noteq> b)"

definition main_rule :: "llm_requests \<Rightarrow> live_series list \<Rightarrow> live_series option \<Rightarrow> bool" where
  "main_rule s own choice \<longleftrightarrow>
     (let mains = filter (\<lambda>x. origin_of x = Some (JStr ''main'')) own;
          alone = filter (\<lambda>x. \<not> two_sessions s x) own
      in if \<exists>x \<in> set own. origin_of x \<noteq> None then (case choice of None \<Rightarrow> mains = [] | Some x \<Rightarrow> newest_in mains x)
         else if alone \<noteq> [] then (\<exists>x. choice = Some x \<and> first_seen_in alone x)
         else (case choice of None \<Rightarrow> own = [] | Some x \<Rightarrow> newest_in own x))"

lemma best_of_first:
  fixes rank :: "live_series \<Rightarrow> int"
  assumes "best_of better xs = Some x" "\<And>x y. better x y \<longleftrightarrow> rank y < rank x"
  shows "\<exists>i < length xs. xs ! i = x \<and> (\<forall>j < length xs. rank (xs ! j) \<le> rank x) \<and> (\<forall>j < i. rank (xs ! j) < rank x)"
  using assms(1)
proof (induction xs arbitrary: x rule: rev_induct)
  case (snoc z xs)
  show ?case
  proof (cases "best_of better xs")
    case None
    then have "xs = []" by (simp add: best_of_None)
    then show ?thesis using snoc.prems by (simp add: best_of_def)
  next
    case (Some y)
    from snoc.IH [OF this] obtain i where i: "i < length xs" "xs ! i = y" "\<forall>j < length xs. rank (xs ! j) \<le> rank y" "\<forall>j < i. rank (xs ! j) < rank y"
      by blast
    show ?thesis
    proof (cases "rank y < rank z")
      case True
      then have "x = z" using snoc.prems Some by (simp add: best_of_snoc assms(2) [of z y])
      moreover have "rank (xs ! j) < rank z" if "j < length xs" for j using i(3) that True by fastforce
      ultimately show ?thesis by (intro exI [of _ "length xs"]) (auto simp: nth_append less_Suc_eq intro: less_imp_le)
    next
      case False
      then have "x = y" using snoc.prems Some by (simp add: best_of_snoc assms(2) [of z y])
      then show ?thesis using i False by (intro exI [of _ i]) (auto simp: nth_append less_Suc_eq)
    qed
  qed
qed simp

lemma best_of_newer: "best_of newer xs = Some x \<Longrightarrow> newest_in xs x"
  using best_of_first [of newer xs x received_at] by (simp add: newest_in_def newer_def received_at_def)

lemma best_of_earlier: "best_of earlier xs = Some x \<Longrightarrow> first_seen_in xs x"
  using best_of_first [of earlier xs x "\<lambda>x. - int (se_firstSeen (snd x))"] by (simp add: first_seen_in_def earlier_def)

lemma shared_two:
  assumes "lr_ok s"
  shows "lr_shared (ob_prefix (se_info (snd x))) s \<longleftrightarrow> two_sessions s x"
proof (cases "ob_prefix (se_info (snd x))")
  case (Some p)
  show ?thesis
  proof (cases "map_of (lr_sidsByPrefix s) p")
    case None
    then show ?thesis using Some by (simp add: lr_shared_def two_sessions_def map_get_or_def del: map_of_eq_Some_iff)
  next
    case sids: (Some sids)
    have "distinct sids" using assms map_of_SomeD [OF sids] by (auto simp: lr_ok_def sids_ok_def list_all_iff)
    then have "1 < length sids \<longleftrightarrow> (\<exists>a b. a \<in> set sids \<and> b \<in> set sids \<and> a \<noteq> b)"
      by (cases sids; cases "tl sids") auto
    then show ?thesis using Some sids by (simp add: lr_shared_def two_sessions_def map_get_or_def del: map_of_eq_Some_iff)
  qed
qed (simp add: lr_shared_def two_sessions_def)

text \<open>
  C38: The election, which runs three passes over all live series, gives every session the series the rule
  names. If any series of the session states an origin, only a stated main one counts, the newest of them,
  and a session with none has no main series; else it is the first seen of its series that no two
  sessions are noted under; else, all being shared, the newest. Only a session without live series or with
  origins that are none of them main goes without.
\<close>

theorem election_follows_the_rule:
  "main_rule (gateway_run env evs) (filter (\<lambda>x. sid_of x = sid) live) (map_of (elect (gateway_run env evs) live) sid)"
proof -
  let ?s = "gateway_run env evs" and ?own = "filter (\<lambda>x. sid_of x = sid) live"
  have alone: "filter (\<lambda>x. \<not> lr_shared (ob_prefix (se_info (snd x))) ?s) ?own = filter (\<lambda>x. \<not> two_sessions ?s x) ?own"
    using shared_two [OF ok_gateway] by simp
  have newest: "case best_of newer xs of None \<Rightarrow> xs = [] | Some x \<Rightarrow> newest_in xs x" for xs
    by (simp add: best_of_None best_of_newer split: option.split)
  have first: "xs \<noteq> [] \<Longrightarrow> \<exists>x. best_of earlier xs = Some x \<and> first_seen_in xs x" for xs
    using best_of_None [of earlier xs] best_of_earlier [of xs] by blast
  show ?thesis
    unfolding election_rule own_series_def Let_def alone main_rule_def list_ex_iff
    by (cases "\<exists>x \<in> set ?own. origin_of x \<noteq> None"; cases "filter (\<lambda>x. \<not> two_sessions ?s x) ?own \<noteq> []")
      (simp_all only: if_True if_False simp_thms newest first)
qed

text \<open>
  Whatever a gateway posts and however its clock runs, an instance holds at most five hundred series
  and two thousand prefixes, with at most two sessions noted under each.
\<close>

theorem gateway_memory_is_bounded:
  "length (lr_series (gateway_run env evs)) \<le> 500 \<and> length (lr_sidsByPrefix (gateway_run env evs)) \<le> 2000
    \<and> list_all (\<lambda>x. length (snd x) \<le> 2) (lr_sidsByPrefix (gateway_run env evs))"
  using ok_gateway [of env evs] by (auto simp: lr_ok_def MAX_SERIES_def MAX_PREFIXES_def list_all_iff sids_ok_def)

section \<open>One main series per session\<close>

definition entries_of :: "string \<Rightarrow> llm_entry list \<Rightarrow> llm_entry list" where
  "entries_of sid es = filter (\<lambda>e. ob_sid (le_info e) = sid) es"

definition entry_origin :: "llm_entry \<Rightarrow> json option" where
  "entry_origin e = map_of (ob_fields (le_info e)) ''origin''"

lemma key_count: "map_wf m \<Longrightarrow> length (filter (\<lambda>x. Some (fst x) = b) m) = (case b of None \<Rightarrow> 0 | Some k \<Rightarrow> if k \<in> set (map_keys m) then 1 else 0)"
  by (induction m) (auto split: option.splits)

lemma own_series_None:
  "own_series s live sid = None \<longleftrightarrow>
     (let own = filter (\<lambda>x. sid_of x = sid) live
      in if list_ex (\<lambda>x. origin_of x \<noteq> None) own then \<not> list_ex (\<lambda>x. origin_of x = Some (JStr ''main'')) own else own = [])"
  by (auto simp: own_series_def Let_def best_of_None list_ex_iff filter_empty_conv)

lemma own_series_mem: "own_series s live sid = Some x \<Longrightarrow> x \<in> set (filter (\<lambda>x. sid_of x = sid) live)"
  by (auto simp: own_series_def Let_def dest!: best_of_mem split: if_splits)

text \<open>
  After any run every reading of the entries marks exactly one series of a session as its main one,
  but for a session whose series state an origin and none of them states it is the main one, which has
  none.
\<close>

theorem one_main_per_session:
  "length (filter le_main (entries_of sid (fst (lr_entries env now (gateway_run env evs))))) =
     (let own = entries_of sid (fst (lr_entries env now (gateway_run env evs)))
      in if list_ex (\<lambda>e. entry_origin e \<noteq> None) own then (if list_ex (\<lambda>e. entry_origin e = Some (JStr ''main'')) own then 1 else 0)
         else if own = [] then 0 else 1)"
proof -
  let ?s = "gateway_run env evs"
  define live where "live = filter (\<lambda>(k, x). \<not> llmCacheWindowEndAt env (se_info x) \<le> now) (lr_series ?s)"
  define own where "own = filter (\<lambda>x. sid_of x = sid) live"
  define f where "f = (\<lambda>x :: live_series. \<lparr>le_info = se_info (snd x), le_instance = ge_self env,
      le_main = (map_option fst (map_of (elect ?s live) (ob_sid (se_info (snd x)))) = Some (fst x))\<rparr>)"
  have wf: "map_wf own" using ok_gateway [of env evs] by (simp add: lr_ok_def own_def live_def)
  have "fst (lr_entries env now ?s) = map f live" unfolding f_def live_def lr_entries_def Let_def by (simp add: case_prod_beta' del: map_of_eq_Some_iff)
  then have es: "entries_of sid (fst (lr_entries env now ?s)) = map f own"
    by (simp add: entries_of_def own_def filter_map comp_def f_def sid_of_def)
  have "filter (\<lambda>x. le_main (f x)) own = filter (\<lambda>x. Some (fst x) = map_option fst (own_series ?s live sid)) own"
    unfolding f_def election_rule by (rule filter_cong) (auto simp: own_def sid_of_def eq_commute [of _ "Some _"] simp del: map_option_eq_Some)
  then have "length (filter le_main (map f own)) = (case map_option fst (own_series ?s live sid) of None \<Rightarrow> 0 | Some k \<Rightarrow> if k \<in> set (map_keys own) then 1 else 0)"
    by (simp add: filter_map comp_def key_count [OF wf])
  also have "\<dots> = (if own_series ?s live sid = None then 0 else 1)"
    using own_series_mem [of ?s live sid] unfolding own_def by (auto split: option.split)
  finally show ?thesis
    unfolding es Let_def own_series_None own_def [symmetric]
    by (auto simp: list_ex_iff entry_origin_def origin_of_def f_def)
qed

section \<open>The newest request stands\<close>

definition obs_key :: "observation \<Rightarrow> string" where
  "obs_key info = seriesKey (ob_sid info) (ob_prefix info)"

text \<open>The first among the newest requests of a series.\<close>

definition newest_of :: "string \<Rightarrow> observation list \<Rightarrow> observation option" where
  "newest_of key infos =
     fold (\<lambda>i b. case b of None \<Rightarrow> Some i | Some h \<Rightarrow> if ob_received_at h \<ge> ob_received_at i then Some h else Some i) (filter (\<lambda>i. obs_key i = key) infos) None"

lemma newest_snoc:
  "newest_of key (infos @ [i]) =
     (if obs_key i \<noteq> key then newest_of key infos
      else case newest_of key infos of None \<Rightarrow> Some i | Some h \<Rightarrow> if ob_received_at h \<ge> ob_received_at i then Some h else Some i)"
  by (simp add: newest_of_def)

lemma trim_all: "length xs \<le> n \<Longrightarrow> trim_to n xs = xs"
  by (simp add: trim_drop)

lemma wf_length: "map_wf m \<Longrightarrow> set (map_keys m) \<subseteq> A \<Longrightarrow> finite A \<Longrightarrow> length m \<le> card A"
  by (metis card_mono distinct_card length_map)

definition holds_newest :: "observation list \<Rightarrow> llm_requests \<Rightarrow> bool" where
  "holds_newest infos s \<longleftrightarrow>
     map_wf (lr_series s) \<and> set (map_keys (lr_series s)) \<subseteq> set (map obs_key infos) \<and> (se_info \<circ> snd) ` set (lr_series s) \<subseteq> set infos
     \<and> (\<forall>key. map_option se_info (map_of (lr_series s) key) = newest_of key infos)"

lemma newest_record:
  assumes inv: "holds_newest infos s" and few: "card (set (map obs_key (infos @ [i]))) \<le> MAX_SERIES"
    and opened: "\<And>j. j \<in> set (infos @ [i]) \<Longrightarrow> \<not> llmCacheWindowEndAt env j \<le> now"
  shows "holds_newest (infos @ [i]) (lr_record env now i notice s)"
proof -
  let ?s1 = "lr_moved (ob_sid i) (lr_active env (ob_sid i) (ob_received_at i) s)" and ?k = "obs_key i"
  note inv = inv [unfolded holds_newest_def]
  have skip: "holds_newest (infos @ [i]) ?s1" if "map_of (lr_series s) ?k = Some h" "ob_received_at (se_info h) \<ge> ob_received_at i" for h
  proof -
    have "newest_of ?k infos = Some (se_info h)" using inv that(1) by (metis option.map(2))
    then have "newest_of key (infos @ [i]) = newest_of key infos" for key using that(2) by (auto simp: newest_snoc)
    then show ?thesis using inv by (auto simp: holds_newest_def)
  qed
  have put: "holds_newest (infos @ [i]) (lr_publish env now (s2\<lparr>lr_series := trim_to MAX_SERIES (map_set ?k x (map_del ?k (lr_series s2))), lr_sequence := n\<rparr>))"
    if "lr_series s2 = lr_series s" "se_info x = i"
      "\<And>h. map_of (lr_series s) ?k = Some h \<Longrightarrow> \<not> ob_received_at (se_info h) \<ge> ob_received_at i" for s2 x n
  proof -
    let ?m = "map_set ?k x (map_del ?k (lr_series s))"
    have sub: "set ?m \<subseteq> insert (?k, x) (set (lr_series s))" by (auto dest!: in_upd simp: AList.delete_eq)
    have wf: "map_wf ?m" using inv by simp
    have keys: "set (map_keys ?m) \<subseteq> set (map obs_key (infos @ [i]))" using inv by (auto simp: set_map_set_keys simp del: set_map)
    have "(se_info \<circ> snd) ` set ?m \<subseteq> (se_info \<circ> snd) ` insert (?k, x) (set (lr_series s))" using sub by (rule image_mono)
    moreover have "(se_info \<circ> snd) ` insert (?k, x) (set (lr_series s)) \<subseteq> set (infos @ [i])" using inv that(2) by auto
    ultimately have infos: "(se_info \<circ> snd) ` set ?m \<subseteq> set (infos @ [i])" by (rule subset_trans)
    have "length ?m \<le> MAX_SERIES" using wf_length [OF wf keys] few by simp
    then have t: "trim_to MAX_SERIES ?m = ?m" by (rule trim_all)
    have "filter (\<lambda>(k, x). \<not> llmCacheWindowEndAt env (se_info x) \<le> now) ?m = ?m"
      using infos opened by (intro filter_True) (auto simp: image_subset_iff)
    then have ser: "lr_series (lr_publish env now (s2\<lparr>lr_series := trim_to MAX_SERIES (map_set ?k x (map_del ?k (lr_series s2))), lr_sequence := n\<rparr>)) = ?m"
      by (simp add: that(1) t)
    have "newest_of ?k (infos @ [i]) = Some i"
      using inv that(3) by (auto simp: newest_snoc simp del: map_of_eq_Some_iff split: option.split) (metis map_option_eq_Some)+
    then have "map_option se_info (map_of ?m key) = newest_of key (infos @ [i])" for key
      using inv that(2) by (auto simp: newest_snoc simp del: map_of_eq_Some_iff)
    then show ?thesis unfolding holds_newest_def ser using wf keys infos by blast
  qed
  have same: "lr_series ?s1 = lr_series s" "lr_series (notePrefix i ?s1) = lr_series s" by simp_all
  show ?thesis
  proof (cases "map_of (lr_series s) ?k")
    case None
    show ?thesis unfolding lr_record_def Let_def obs_key_def [symmetric] same(1) None option.case
      by (rule put) (use None in simp_all)
  next
    case (Some h)
    show ?thesis
    proof (cases "ob_received_at (se_info h) \<ge> ob_received_at i")
      case True
      then show ?thesis unfolding lr_record_def Let_def obs_key_def [symmetric] same(1) Some option.case using skip [OF Some] by simp
    next
      case False
      then have "holds_newest (infos @ [i]) (lr_publish env now (notePrefix i ?s1\<lparr>lr_series := trim_to MAX_SERIES
          (map_set ?k \<lparr>se_info = i, se_firstSeen = se_firstSeen h, se_notice = notice\<rparr> (map_del ?k (lr_series (notePrefix i ?s1)))), lr_sequence := lr_sequence ?s1\<rparr>))"
        by (intro put) (use Some in \<open>simp_all del: map_of_eq_Some_iff\<close>)
      then show ?thesis unfolding lr_record_def Let_def obs_key_def [symmetric] same(1) Some option.case using False by simp
    qed
  qed
qed

definition posted :: "(int \<times> observation \<times> string option) list \<Rightarrow> gateway_event list" where
  "posted rs = map (\<lambda>(now, info, notice). Takes_request now info notice) rs"

definition infos_of :: "(int \<times> observation \<times> string option) list \<Rightarrow> observation list" where
  "infos_of rs = map (\<lambda>(now, info, notice). info) rs"

text \<open>
  C40: For a gateway that posts requests only, of at most five hundred series, each delivered while the
  cache windows of all of them are open: however they are reordered or delivered again, each series
  stands at the newest of its requests, the first delivered among equals. (Once a window has closed its
  series is forgotten, and an older request delivered again is then taken as the series' first.)
\<close>

theorem newest_request_stands:
  assumes "card (set (map obs_key (infos_of rs))) \<le> 500"
    and "list_all (\<lambda>(now, _, _). list_all (\<lambda>j. llmCacheWindowEndAt env j > now) (infos_of rs)) rs"
  shows "map_option se_info (map_of (lr_series (gateway_run env (posted rs))) key) = newest_of key (infos_of rs)"
proof -
  have "holds_newest (infos_of rs) (gateway_run env (posted rs))"
    using assms
  proof (induction rs rule: rev_induct)
    case Nil
    then show ?case by (simp add: holds_newest_def gateway_run_def posted_def infos_of_def LlmRequests_def newest_of_def)
  next
    case (snoc r rs)
    obtain now i notice where r: "r = (now, i, notice)" by (cases r)
    have infos: "infos_of (rs @ [r]) = infos_of rs @ [i]" by (simp add: infos_of_def r)
    have "card (set (map obs_key (infos_of rs))) \<le> card (set (map obs_key (infos_of rs @ [i])))" by (rule card_mono) auto
    then have "holds_newest (infos_of rs) (gateway_run env (posted rs))"
      using snoc by (intro snoc.IH) (auto simp: infos list_all_iff)
    moreover have "gateway_run env (posted (rs @ [r])) = lr_record env now i notice (gateway_run env (posted rs))" by (simp add: gateway_run_def posted_def r)
    moreover have "\<And>j. j \<in> set (infos_of rs @ [i]) \<Longrightarrow> \<not> llmCacheWindowEndAt env j \<le> now"
      using snoc.prems(2) unfolding infos by (auto simp: r list_all_iff not_le)
    ultimately show ?case unfolding infos using snoc.prems(1) by (auto simp: infos MAX_SERIES_def intro!: newest_record)
  qed
  then show ?thesis by (simp add: holds_newest_def)
qed

section \<open>When a session was seen\<close>

fun instants :: "string \<Rightarrow> gateway_event \<Rightarrow> int list" where
  "instants sid (Takes_request now info notice) = (if ob_sid info = sid then [ob_received_at info] else [])"
| "instants sid (Takes_response now info) = (if rs_sid info = sid then [rs_at info] else [])"
| "instants sid e = []"

fun stated_at :: "gateway_event \<Rightarrow> int list" where
  "stated_at (Takes_request now info notice) = [ob_received_at info]"
| "stated_at (Takes_response now info) = [rs_at info]"
| "stated_at e = []"

definition seen_ok :: "gateway_env \<Rightarrow> int \<Rightarrow> gateway_event list \<Rightarrow> llm_requests \<Rightarrow> bool" where
  "seen_ok env now evs s \<longleftrightarrow>
     map_wf (lr_activeAt s)
     \<and> (\<forall>sid v. map_of (lr_activeAt s) sid = Some v \<longrightarrow> v \<in> set (concat (map (instants sid) evs)))
     \<and> (\<forall>sid. \<forall>t \<in> set (concat (map (instants sid) evs)). now - t \<le> GATEWAY_LIVE_WINDOW_MS env \<longrightarrow> (\<exists>v. map_of (lr_activeAt s) sid = Some v \<and> t \<le> v))"

lemma active_after:
  "lr_activeAt (snd (lr_active env sid at s)) =
     (if (\<exists>held. map_of (lr_activeAt s) sid = Some held \<and> held \<ge> at) then lr_activeAt s
      else filter (\<lambda>(seen, w). \<not> w < at - GATEWAY_LIVE_WINDOW_MS env) (map_set sid at (lr_activeAt s)))"
  by (simp add: lr_active_def lr_prune_def del: map_of_eq_Some_iff split: option.split)

lemma seen_active:
  assumes s: "seen_ok env now evs s" and at: "at \<le> now" "0 \<le> GATEWAY_LIVE_WINDOW_MS env"
    and e: "\<And>t. instants t e = (if t = sid then [at] else [])"
    and s': "lr_activeAt s' = lr_activeAt (snd (lr_active env sid at s))"
  shows "seen_ok env now (evs @ [e]) s'"
proof (cases "\<exists>held. map_of (lr_activeAt s) sid = Some held \<and> held \<ge> at")
  case True
  then show ?thesis using s e by (auto simp: seen_ok_def s' active_after simp del: map_of_eq_Some_iff)
next
  case False
  let ?m = "map_set sid at (lr_activeAt s)"
  have wf: "map_wf ?m" using s by (simp add: seen_ok_def)
  have a: "lr_activeAt s' = filter (\<lambda>(seen, w). \<not> w < at - GATEWAY_LIVE_WINDOW_MS env) ?m"
    unfolding s' active_after by (rule if_not_P [OF False])
  have look: "map_of (lr_activeAt s') t = (case map_of ?m t of None \<Rightarrow> None | Some v \<Rightarrow> if \<not> v < at - GATEWAY_LIVE_WINDOW_MS env then Some v else None)" for t
    unfolding a map_of_filter_wf [OF wf] split_conv ..
  have "map_wf (lr_activeAt s')" using wf by (simp add: a)
  moreover have "v \<in> set (concat (map (instants t) (evs @ [e])))" if "map_of (lr_activeAt s') t = Some v" for t v
    using that s unfolding look by (auto simp: e seen_ok_def simp del: map_of_eq_Some_iff split: option.splits if_splits)
  moreover have "\<exists>v. map_of (lr_activeAt s') t = Some v \<and> u \<le> v"
    if u: "u \<in> set (concat (map (instants t) (evs @ [e])))" "now - u \<le> GATEWAY_LIVE_WINDOW_MS env" for t u
  proof (cases "t = sid")
    case True
    have "u \<le> at"
    proof (cases "u \<in> set (concat (map (instants t) evs))")
      case True
      then obtain v where "map_of (lr_activeAt s) t = Some v" "u \<le> v" using s u(2) unfolding seen_ok_def by blast
      then show ?thesis using False \<open>t = sid\<close> by force
    next
      case False
      then show ?thesis using u(1) True by (simp add: e)
    qed
    then show ?thesis using at True by (simp add: look)
  next
    case False
    then have "u \<in> set (concat (map (instants t) evs))" using u(1) by (simp add: e)
    then obtain v where v: "map_of (lr_activeAt s) t = Some v" "u \<le> v" using s u(2) unfolding seen_ok_def by blast
    then have "\<not> v < at - GATEWAY_LIVE_WINDOW_MS env" using u(2) at by linarith
    then show ?thesis using False v by (simp add: look del: map_of_eq_Some_iff)
  qed
  ultimately show ?thesis unfolding seen_ok_def by blast
qed

lemma record_active: "lr_activeAt (lr_record env now info notice s) = lr_activeAt (snd (lr_active env (ob_sid info) (ob_received_at info) s))"
  by (simp add: lr_record_def Let_def split: option.split)

lemma note_active: "lr_activeAt (lr_note env now info s) = lr_activeAt (snd (lr_active env (rs_sid info) (rs_at info) s))"
proof -
  have "lr_activeAt (lr_rebuild env now info t) = lr_activeAt t" for t by (simp add: lr_rebuild_def Let_def split: option.split)
  then show ?thesis by (simp add: lr_note_def Let_def)
qed

lemma seen_idle:
  assumes "seen_ok env now evs s" "\<And>t. instants t e = []" "lr_activeAt s' = lr_activeAt s"
  shows "seen_ok env now (evs @ [e]) s'"
  using assms by (simp add: seen_ok_def del: map_of_eq_Some_iff)

lemma seen_run:
  assumes "list_all (\<lambda>e. list_all (\<lambda>t. t \<le> now) (stated_at e)) evs" "0 \<le> GATEWAY_LIVE_WINDOW_MS env"
  shows "seen_ok env now evs (gateway_run env evs)"
  using assms(1)
proof (induction evs rule: rev_induct)
  case Nil
  then show ?case by (simp add: seen_ok_def gateway_run_def LlmRequests_def)
next
  case (snoc e evs)
  have ih: "seen_ok env now evs (gateway_run env evs)" and e: "list_all (\<lambda>t. t \<le> now) (stated_at e)" using snoc by simp_all
  have run: "gateway_run env (evs @ [e]) = lr_step env (gateway_run env evs) e" by (simp add: gateway_run_def)
  show ?case
  proof (cases e)
    case (Takes_request n info notice)
    show ?thesis unfolding run
      by (rule seen_active [OF ih _ assms(2)]) (use e in \<open>simp_all add: Takes_request record_active\<close>)
  next
    case (Takes_response n info)
    show ?thesis unfolding run
      by (rule seen_active [OF ih _ assms(2)]) (use e in \<open>simp_all add: Takes_response note_active\<close>)
  next
    case (Takes_expiry n info)
    show ?thesis unfolding run by (rule seen_idle [OF ih]) (simp_all add: Takes_expiry lr_expire_def Let_def split: option.split)
  next
    case (Reads_entries n)
    show ?thesis unfolding run by (rule seen_idle [OF ih]) (simp_all add: Reads_entries lr_snapshot_def lr_entries_def Let_def)
  qed
qed

text \<open>
  C39: As long as no instant a gateway states lies in the future, a session counts as seen exactly when the
  newest of its requests and answers is inside the window, and it is seen at that newest instant: no order
  of delivery, redelivery, withdrawal, or pruning in between changes it.
\<close>

theorem seen_at_the_newest:
  assumes "list_all (\<lambda>e. list_all (\<lambda>t. t \<le> now) (stated_at e)) evs" and "0 \<le> GATEWAY_LIVE_WINDOW_MS env"
    and "seen = concat (map (instants sid) evs)"
  shows "lr_seen_at env sid now (gateway_run env evs) =
    (if seen \<noteq> [] \<and> now - Max (set seen) \<le> GATEWAY_LIVE_WINDOW_MS env then Some (Max (set seen)) else None)"
proof -
  note ok = seen_run [OF assms(1,2), unfolded seen_ok_def]
  have held: "v \<in> set seen" if "map_of (lr_activeAt (gateway_run env evs)) sid = Some v" for v using ok that unfolding assms(3) by blast
  have kept: "\<exists>v. map_of (lr_activeAt (gateway_run env evs)) sid = Some v \<and> t \<le> v" if "t \<in> set seen" "now - t \<le> GATEWAY_LIVE_WINDOW_MS env" for t
    using ok that unfolding assms(3) by blast
  show ?thesis
  proof (cases "seen \<noteq> [] \<and> now - Max (set seen) \<le> GATEWAY_LIVE_WINDOW_MS env")
    case True
    then obtain v where v: "map_of (lr_activeAt (gateway_run env evs)) sid = Some v" "Max (set seen) \<le> v" using kept [OF Max_in] by auto
    then have "v = Max (set seen)" using held [OF v(1)] by (simp add: antisym)
    then show ?thesis using True v(1) by (simp add: lr_seen_at_def)
  next
    case False
    have "now - v > GATEWAY_LIVE_WINDOW_MS env" if "map_of (lr_activeAt (gateway_run env evs)) sid = Some v" for v
    proof -
      have "v \<le> Max (set seen)" using held [OF that] by (intro Max_ge) simp_all
      moreover have "\<not> now - Max (set seen) \<le> GATEWAY_LIVE_WINDOW_MS env" using False held [OF that] by auto
      ultimately show ?thesis by linarith
    qed
    then show ?thesis using False by (auto simp: lr_seen_at_def simp del: map_of_eq_Some_iff split: option.split)
  qed
qed

text \<open>A session posts two requests the wrong way round, and the second is delivered again.\<close>

definition example_gateway :: gateway_env where
  "example_gateway = \<lparr>GATEWAY_LIVE_WINDOW_MS = 5, LLM_PROMPT_CACHE_TTL_MS = 300, llmCacheWindowEndAt = (\<lambda>i. ob_received_at i + 300), ge_self = ''I''\<rparr>"

definition observed :: "int \<Rightarrow> observation" where
  "observed at = \<lparr>ob_received_at = at, ob_sid = ''s'', ob_prefix = None, ob_fields = []\<rparr>"

lemma seen_at_the_newest_witness:
  "lr_seen_at example_gateway ''s'' 12 (gateway_run example_gateway (posted [(12, observed 10, None), (12, observed 4, None), (12, observed 10, None)])) = Some 10"
proof -
  let ?evs = "posted [(12, observed 10, None), (12, observed 4, None), (12, observed 10, None)]"
  have past: "list_all (\<lambda>e. list_all (\<lambda>t. t \<le> 12) (stated_at e)) ?evs" by code_simp
  have window: "0 \<le> GATEWAY_LIVE_WINDOW_MS example_gateway" by code_simp
  have seen: "[10, 4, 10] = concat (map (instants ''s'') ?evs)" by (simp add: posted_def observed_def)
  show ?thesis using seen_at_the_newest [OF past window seen] by (simp add: example_gateway_def)
qed

lemma newest_request_stands_witness:
  "map_option se_info (map_of (lr_series (gateway_run example_gateway (posted [(12, observed 4, None), (12, observed 10, None), (12, observed 4, None)]))) ''1:s'') = Some (observed 10)"
proof -
  let ?rs = "[(12, observed 4, None), (12, observed 10, None), (12, observed 4, None)] :: (int \<times> observation \<times> string option) list"
  have "card (set (map obs_key (infos_of ?rs))) \<le> 500"
    using card_length [of "map obs_key (infos_of ?rs)"] by (simp add: infos_of_def)
  moreover have "list_all (\<lambda>(now, _, _). list_all (\<lambda>j. llmCacheWindowEndAt example_gateway j > now) (infos_of ?rs)) ?rs" by code_simp
  moreover have "newest_of ''1:s'' (infos_of ?rs) = Some (observed 10)" by code_simp
  ultimately show ?thesis using newest_request_stands [of ?rs example_gateway "''1:s''"] by simp
qed

section \<open>Which prefix is forgotten\<close>

text \<open>
  Noting a prefix that is known does not move it, so when a new one comes the first noted goes, however
  recently it was seen.
\<close>

lemma known_prefix_keeps_its_place:
  assumes "ob_prefix info = Some p" "p \<in> set (map_keys (lr_sidsByPrefix s))"
  shows "map_keys (lr_sidsByPrefix (notePrefix info s)) = map_keys (lr_sidsByPrefix s)"
proof -
  have "map_keys (map_set p v m) = map_keys m" if "p \<in> set (map_keys m)" for v and m :: "(string, string list) js_map"
    using that by (induction m) auto
  moreover obtain sids where "map_of (lr_sidsByPrefix s) p = Some sids" using assms(2) by (cases "map_of (lr_sidsByPrefix s) p") (auto simp: map_of_None_keys)
  ultimately show ?thesis using assms by (simp add: notePrefix_def Let_def del: map_of_eq_Some_iff)
qed

lemma prefix_just_seen_is_forgotten:
  assumes "map_keys (lr_sidsByPrefix s) = p # ps" "p \<notin> set ps" "length (p # ps) = MAX_PREFIXES"
    and "ob_prefix again = Some p" "ob_prefix info = Some q" "q \<notin> set (p # ps)"
  shows "map_of (lr_sidsByPrefix (notePrefix info (notePrefix again s))) p = None"
proof -
  let ?m = "lr_sidsByPrefix (notePrefix again s)"
  have keys: "map_keys ?m = p # ps" using known_prefix_keeps_its_place [OF assms(4), of s] assms(1) by simp
  then obtain v m where m: "?m = (p, v) # m" "map_keys m = ps" by (cases ?m) auto
  have "map_of ?m q = None" using assms(6) keys by (simp add: map_of_None_keys)
  moreover have "map_set q [] ?m = (p, v) # m @ [(q, [])]"
  proof -
    have "q \<notin> set (map_keys l) \<Longrightarrow> map_set q [] l = l @ [(q, [])]" for l :: "(string, string list) js_map" by (induction l) auto
    then show ?thesis using assms(6) m by auto
  qed
  moreover have "trim_to MAX_PREFIXES ((p, v) # m @ [(q, [])]) = m @ [(q, [])]"
  proof -
    have "length m = length ps" using m(2) by (metis length_map)
    then show ?thesis using assms(3) by (simp add: trim_drop)
  qed
  moreover have "map_of (m @ [(q, [])]) q = Some []"
  proof -
    have "map_of m q = None" using assms(6) m(2) by (simp add: map_of_None_keys)
    then show ?thesis by (simp add: map_add_def del: map_of_eq_Some_iff)
  qed
  ultimately have "lr_sidsByPrefix (notePrefix info (notePrefix again s)) = map_set q (set_add (ob_sid info) []) (m @ [(q, [])])"
    using assms(5) by (simp add: notePrefix_def [of info] Let_def del: map_of_eq_Some_iff)
  then have "p \<notin> set (map_keys (lr_sidsByPrefix (notePrefix info (notePrefix again s))))"
    using assms(2,6) m(2) set_map_set_keys [of q _ "m @ [(q, [])]"] by (auto simp del: set_map)
  then show ?thesis by (simp add: map_of_None_keys)
qed

end
