(* ===== verification/Spec2Isabelle.thy ===== *)
theory Spec2Isabelle
  imports Kv Transport Cbor Topics Relay Delivery AuthTokens Files FollowFacts Clients SuperviseFacts MeshFacts UpstreamFacts
begin

text \<open>
  A verification library for the ccmsg instance, the daemon under \<open>src/src\<close> that lets the coding
  sessions of one host, the people who watch them and the instances of other hosts exchange messages
  and readings.

  \<^bold>\<open>How the program is put together.\<close> A client reaches an instance over a unix socket or a WebSocket.
  \<open>transport\<close> frames the bytes into lines and keeps a connection object per socket; \<open>dispatch\<close>
  decides for every line whether the op it names may run, runs its handler or forwards it to another
  instance; the handlers are the domains: \<open>kv\<close> (a replicated store of small values), \<open>topics\<close>
  (subscriptions, snapshots and published frames, paced per connection by \<open>egress\<close>, rows cut into
  changes by \<open>elements\<close>), \<open>messaging\<close> (\<open>delivery\<close> chooses the route of a message, \<open>inbox\<close> keeps what
  could not be delivered in an append-only file, \<open>notify\<close> the unread marks), \<open>files\<close> (what of a
  session's files a caller may reach, and the ops on them), \<open>auth\<close> (credentials, sessions and tokens of
  the people who own an instance, with the records behind them replicated, passkey attestations in
  CBOR), \<open>transcript\<close> (the harness's own record of a session, tailed, paged and followed) and \<open>mesh\<close>
  (links to other instances, proven by a key either end mints, requests forwarded over them and rows
  relayed and kept for a while after a link is lost). Beside the instance, \<open>daemon/supervise.ts\<close> keeps
  one instance running per config home. The constants and validators of the
  contract package \<open>@ccmsg/protocol\<close>, which is not part of the repository, are arguments of the
  definitions that use them (the record \<open>contract\<close> and its relatives).

  \<^bold>\<open>Which theory models what.\<close>
  \<^item> \<open>Prelude\<close>: a \<open>Map\<close> as an association list in insertion order, JSON values, numerals, the contract's
    constants. \<open>Utf8\<close>: the platform's text decoder. \<open>Registers\<close>: last-write-wins registers, as a locale.
  \<^item> \<open>Kv\<close>: \<open>kv/merge.ts\<close>, \<open>kv/store.ts\<close>. The store is a record of the namespaces in memory, the
    files on disk and the chain of writes still under way; a write is an enqueued job that later lands
    or fails.
  \<^item> \<open>Framing\<close>, \<open>Dispatch\<close>, \<open>Transport\<close>: \<open>transport/*\<close> and \<open>dispatch/*\<close>. A connection is a record;
    handling a line is cut at its waits, so that lines of one connection interleave.
  \<^item> \<open>Cbor\<close>: \<open>auth/cbor.ts\<close>, over the bytes of the input.
  \<^item> \<open>Inbox\<close>, \<open>Boxes\<close>, \<open>Notify\<close>, \<open>Delivery\<close>: \<open>messaging/inbox.ts\<close>, \<open>notify.ts\<close>, \<open>delivery.ts\<close>. \<open>Boxes\<close>
    states what delivery relies on of an inbox as three locales, one extending the other, and interprets
    them on the inbox; \<open>Delivery\<close> cuts every operation at every wait.
  \<^item> \<open>Egress\<close>, \<open>Elements\<close>, \<open>Topics\<close>: \<open>topics/egress.ts\<close>, \<open>elements.ts\<close>, \<open>topics.ts\<close>, \<open>handlers.ts\<close>.
  \<^item> \<open>Relay\<close>: \<open>mesh/relay.ts\<close>, \<open>wire.ts\<close>, \<open>instances.ts\<close>. \<open>Mesh\<close>: \<open>mesh/mesh.ts\<close>, \<open>keys.ts\<close>; the store of
    links, the greetings under way and the dials are cut at their waits, and \<open>MeshFacts\<close> proves over
    \<open>mesh_run\<close>, a fold of any list of handshakes, frames, timers and endings.
  \<^item> \<open>AuthRecords\<close>: \<open>auth/records.ts\<close>, \<open>store.ts\<close>, \<open>topic.ts\<close>. \<open>Auth\<close>: the operations of \<open>auth/auth.ts\<close>
    over them; \<open>AuthRuns\<close> runs them in any order, \<open>AuthFooting\<close> and \<open>AuthTokens\<close> prove what holds of the
    open connections and of refresh tokens over such runs.
  \<^item> \<open>Clients\<close>: \<open>instance/client.ts\<close>, which address a request came from.
  \<^item> \<open>Containment\<close>, \<open>Files\<close>: \<open>files/containment.ts\<close>, \<open>files/files.ts\<close>, over the runtime's path functions
    on segments and a file system given as what it calls a path (\<open>realpath\<close>) and what is at a name.
  \<^item> \<open>Tail\<close>: \<open>transcript/tail.ts\<close> and \<open>read.ts\<close>, the pages read back from an end. \<open>Follow\<close>,
    \<open>FollowFacts\<close>: \<open>transcript/transcripts.ts\<close>, over files that grow between the steps.
  \<^item> \<open>Supervise\<close>, \<open>SuperviseFacts\<close>: \<open>daemon/supervise.ts\<close>, \<open>link.ts\<close>. Units are objects of a store; a
    restart loop, a request and a stop are each cut at their waits.
  \<^item> \<open>Upstream\<close>, \<open>UpstreamFacts\<close>: \<open>upstream/events.ts\<close>, \<open>requests.ts\<close>, \<open>webhook.ts\<close> and the batches of
    \<open>gateway.ts\<close>, what an LLM gateway posts about the requests of sessions.

  A class is a record with the fields of the class and the outside world it acts on (the file, the
  frames that went out); a method is a definition over it; a method that waits is one definition per
  stretch between two waits, and an event type lists the stretches, so that a run is a fold of an
  arbitrary list of events. Thrown \<open>OpError\<close>s are values.

  \<^bold>\<open>What the theorems show.\<close> Messaging: whatever the interleaving, a message goes out at most once
  (but for one that a publish handed to some connections while another refused it, which is counted) and
  is never lost, watchers hold exactly what waits, the inbox survives a kill and a restart and stays
  bounded, and a send is refused exactly where the source names a reason. Access: an op runs only for a caller the
  contract admits, a role is bound by a greeting only, a located path lies inside the session's
  surfaces and a change of files touches one name inside them (a deletion by a path written with \<open>..\<close>
  apart), a removal of a credential is final, a
  challenge is taken once, only the people who own an instance stay connected, a replayed refresh token
  ends its family and no other, and what a caller outside the trusted blocks writes into a forwarding
  header changes nothing.
  Topics: a frame reaches exactly its audience, the resource behind a topic runs while it is wanted,
  folding frames gives the publisher's rows, queues are bounded and keep every occurrence and the
  latest value. Replication: stores and records come back from their files, writes converge, relayed
  rows are transparent. Codecs: framing does not depend on chunks, CBOR decodes what is canonically
  encoded and ends inside its input.
  Transcripts: a tail states every whole record once; where no duplication ends while a session is being
  opened, facts are the fold of what the file holds and nothing is followed for nobody. Mesh: a link is held only where a proof or an answered dial vouched for
  it, both ends of a glare keep the same connection, and a forwarded request is answered once. Supervision:
  one child per unit, and per config home that was not removed with its child running; none but such a
  child left behind after a departure; and a start is answered. Gateway events: each session's main series
  is the one the rule names, and while the windows are open no order of delivery changes what stands. Lemmas that end
  a theory state where the code does something it does not mean to.

  \<^bold>\<open>Bounds and fuel.\<close> No definition takes fuel except the CBOR decoder, whose recursion is bounded by
  the source's own \<open>MAX_DEPTH\<close> and by the bytes left; every other loop is structural. Instants are
  \<open>int\<close> (JavaScript numbers far inside their exact range), counters \<open>nat\<close>. Text is a list of
  characters; where the source folds case or trims, ASCII is what is modelled.

  \<^bold>\<open>Not modelled.\<close> Processes and the host (spawning, terminals, file watches, the init system), the
  command line, configuration modules, signature checks and key files are outside: what they answer
  arrives as an argument or an event. The sessions registry, the fold of a harness's records into one
  state (\<open>transcript/fold.ts\<close>) and the gateway's documents are left for a later extension.
\<close>

end
